(* ===== verification/Prelude.thy ===== *)
theory Prelude
  imports Main "HOL-Library.Word" "HOL-Library.Char_ord" "HOL-Library.List_Lexorder"
    "HOL-Library.Sublist"
begin

text \<open>
  What every other theory shares: the exceptions the modelled Python raises, the
  state-and-exception computations that stand for its methods, byte strings and text, and the
  operations of Python's \<open>str\<close>, \<open>dict\<close> and \<open>set\<close> that the sources use.

  A \<open>str\<close> of the program is modelled by the bytes it stands for: every string of the protocol and
  of a derivation is decoded and encoded with \<open>surrogateescape\<close>, which is lossless on bytes, so
  the type \<^typ>\<open>string\<close> (a list of 8-bit characters) carries one character per byte.
\<close>

section \<open>Exceptions and computations\<close>

datatype error =
    EOFError
  | StructError
  | TypeError
  | ValueError
  | AttributeError
  | KeyError
  | IndexError
  | AssertionError
  | RuntimeError
  | ConnectionError
  | UnsupportedProtocolVersion
  | DaemonProtocolError string
  | DelegationLoopError string string
  | NotCompilableError
  | ZeroDivisionError
  | RecursionError
  | OutOfFuel

text \<open>A method that reads or changes a state \<open>'s\<close> and returns an \<open>'a\<close> or raises.\<close>

type_synonym ('s, 'a) eff = "'s \<Rightarrow> (error + 'a) \<times> 's"

definition ret :: "'a \<Rightarrow> ('s, 'a) eff" where
  "ret x = (\<lambda>s. (Inr x, s))"

definition raise :: "error \<Rightarrow> ('s, 'a) eff" where
  "raise e = (\<lambda>s. (Inl e, s))"

definition bind :: "('s, 'a) eff \<Rightarrow> ('a \<Rightarrow> ('s, 'b) eff) \<Rightarrow> ('s, 'b) eff" where
  "bind m f = (\<lambda>s. case m s of (Inl e, s') \<Rightarrow> (Inl e, s') | (Inr x, s') \<Rightarrow> f x s')"

definition of_result :: "error + 'a \<Rightarrow> ('s, 'a) eff" where
  "of_result r = (\<lambda>s. (r, s))"

named_theorems eff_simps \<open>evaluation of state-and-exception computations\<close>

lemma ret_apply [simp, eff_simps]: "ret x s = (Inr x, s)"
  by (simp add: ret_def)

lemma raise_apply [simp, eff_simps]: "raise e s = (Inl e, s)"
  by (simp add: raise_def)

lemma of_result_apply [simp, eff_simps]: "of_result r s = (r, s)"
  by (simp add: of_result_def)

lemma bind_apply [eff_simps]:
  "bind m f s = (case m s of (Inl e, s') \<Rightarrow> (Inl e, s') | (Inr x, s') \<Rightarrow> f x s')"
  by (simp add: bind_def)

lemma bind_Inr: "m s = (Inr x, s') \<Longrightarrow> bind m f s = f x s'"
  by (simp add: bind_def)

lemma bind_Inl: "m s = (Inl e, s') \<Longrightarrow> bind m f s = (Inl e, s')"
  by (simp add: bind_def)

lemma bind_ret_left [simp]: "bind (ret x) f = f x"
  by (rule ext) (simp add: bind_def)

lemma bind_raise [simp]: "bind (raise e) f = raise e"
  by (rule ext) (simp add: bind_def)

lemma bind_of_result_Inr [simp]: "bind (of_result (Inr x)) f = f x"
  by (rule ext) (simp add: bind_def)

lemma bind_of_result_Inl [simp]: "bind (of_result (Inl e)) f = raise e"
  by (rule ext) (simp add: bind_def)

lemma bind_assoc: "bind (bind m f) g = bind m (\<lambda>x. bind (f x) g)"
  by (rule ext) (simp add: bind_def split: prod.splits sum.splits)

lemma bind_ok_iff:
  "bind m f s = (Inr y, t) \<longleftrightarrow> (\<exists>x s'. m s = (Inr x, s') \<and> f x s' = (Inr y, t))"
  by (auto simp: bind_def split: prod.splits sum.splits)

lemma bind_cong [fundef_cong]:
  assumes "m = m'" and "\<And>x. f x = f' x"
  shows "bind m f = bind m' f'"
proof -
  have "f = f'" using assms(2) by (rule ext)
  with assms(1) show ?thesis by simp
qed

text \<open>A function that returns an \<open>'a\<close> or raises, and changes nothing.\<close>

definition andthen :: "error + 'a \<Rightarrow> ('a \<Rightarrow> error + 'b) \<Rightarrow> error + 'b" where
  "andthen r f = (case r of Inl e \<Rightarrow> Inl e | Inr x \<Rightarrow> f x)"

lemma andthen_simps [simp]: "andthen (Inl e) f = Inl e" "andthen (Inr x) f = f x"
  by (simp_all add: andthen_def)

lemma andthen_ok_iff: "andthen r f = Inr y \<longleftrightarrow> (\<exists>x. r = Inr x \<and> f x = Inr y)"
  by (cases r) simp_all

lemma andthen_error_iff:
  "andthen r f = Inl e \<longleftrightarrow> r = Inl e \<or> (\<exists>x. r = Inr x \<and> f x = Inl e)"
  by (cases r) simp_all

lemma andthen_cong [fundef_cong]:
  "r = r' \<Longrightarrow> (\<And>x. r' = Inr x \<Longrightarrow> f x = f' x) \<Longrightarrow> andthen r f = andthen r' f'"
  by (cases r') simp_all

section \<open>Bytes and text\<close>

type_synonym byte = "8 word"
type_synonym bytes = "8 word list"

text \<open>\<open>str.encode("utf-8", "surrogateescape")\<close> and the decoding it inverts.\<close>

definition encode :: "string \<Rightarrow> bytes" where
  "encode s = map (\<lambda>c. of_nat (of_char c)) s"

definition decode :: "bytes \<Rightarrow> string" where
  "decode bs = map (\<lambda>b. char_of (unat b)) bs"

lemma length_encode [simp]: "length (encode s) = length s"
  by (simp add: encode_def)

lemma length_decode [simp]: "length (decode bs) = length bs"
  by (simp add: decode_def)

lemma char_of_unat_of_char [simp]: "char_of (unat (of_nat (of_char c :: nat) :: byte)) = c"
proof -
  have "(of_char c :: nat) < 256" by simp
  then have "unat (of_nat (of_char c :: nat) :: byte) = of_char c"
    by (simp add: unat_of_nat)
  then show ?thesis by simp
qed

lemma of_char_char_of_unat: "of_nat (of_char (char_of (unat (b :: byte)) :: char) :: nat) = b"
proof -
  have "unat b < 256" using unsigned_less [of b] by simp
  then have "(of_char (char_of (unat b) :: char) :: nat) = unat b"
    by (simp add: of_char_of)
  then show ?thesis by (simp only: of_nat_unat ucast_id)
qed

lemma decode_encode [simp]: "decode (encode s) = s"
  by (simp add: encode_def decode_def comp_def)

lemma encode_decode [simp]: "encode (decode bs) = bs"
  unfolding encode_def decode_def map_map comp_def of_char_char_of_unat by simp

lemma encode_eq_Nil [simp]: "encode s = [] \<longleftrightarrow> s = []"
  by (simp add: encode_def)

lemma encode_Nil [simp]: "encode [] = []"
  by simp

lemma decode_Nil [simp]: "decode [] = []"
  by (simp add: decode_def)

lemma encode_append [simp]: "encode (s @ t) = encode s @ encode t"
  by (simp add: encode_def)

section \<open>Operations of \<open>str\<close>\<close>

definition startswith :: "string \<Rightarrow> string \<Rightarrow> bool" where
  "startswith s p \<longleftrightarrow> take (length p) s = p"

definition endswith :: "string \<Rightarrow> string \<Rightarrow> bool" where
  "endswith s p \<longleftrightarrow> length p \<le> length s \<and> drop (length s - length p) s = p"

definition removeprefix :: "string \<Rightarrow> string \<Rightarrow> string" where
  "removeprefix s p = (if startswith s p then drop (length p) s else s)"

definition removesuffix :: "string \<Rightarrow> string \<Rightarrow> string" where
  "removesuffix s p =
     (if p \<noteq> [] \<and> endswith s p then take (length s - length p) s else s)"

text \<open>\<open>s.partition(c)\<close>: what precedes the first \<open>c\<close>, whether there is one, what follows it.\<close>

definition partition_at :: "char \<Rightarrow> string \<Rightarrow> string \<times> bool \<times> string" where
  "partition_at c s =
     (takeWhile (\<lambda>x. x \<noteq> c) s, c \<in> set s, drop 1 (dropWhile (\<lambda>x. x \<noteq> c) s))"

text \<open>\<open>s.rpartition(c)[2]\<close>: what follows the last \<open>c\<close>, and all of \<open>s\<close> where there is none.\<close>

definition rpartition_tail :: "char \<Rightarrow> string \<Rightarrow> string" where
  "rpartition_tail c s = rev (takeWhile (\<lambda>x. x \<noteq> c) (rev s))"

definition join :: "string \<Rightarrow> string list \<Rightarrow> string" where
  "join sep xs = (case xs of [] \<Rightarrow> [] | y # ys \<Rightarrow> y @ concat (map (\<lambda>z. sep @ z) ys))"

text \<open>\<open>s.split(c)\<close>: the pieces between the separators, one more than there are of them.\<close>

fun split_on :: "char \<Rightarrow> string \<Rightarrow> string list" where
  "split_on c [] = [[]]"
| "split_on c (x # xs) =
     (if x = c then [] # split_on c xs
      else case split_on c xs of y # ys \<Rightarrow> (x # y) # ys | [] \<Rightarrow> [[x]])"

text \<open>\<open>s.rstrip(c)\<close>.\<close>

definition rstrip :: "char \<Rightarrow> string \<Rightarrow> string" where
  "rstrip c s = rev (dropWhile (\<lambda>x. x = c) (rev s))"

lemma startswith_iff: "startswith s p \<longleftrightarrow> (\<exists>t. s = p @ t)"
  by (auto simp: startswith_def) (metis append_take_drop_id)

lemma startswith_append [simp]: "startswith (p @ t) p"
  by (simp add: startswith_def)

lemma startswith_Nil [simp]: "startswith s []"
  by (simp add: startswith_def)

lemma removeprefix_append [simp]: "removeprefix (p @ t) p = t"
  by (simp add: removeprefix_def)

lemma takeWhile_neq_absent: "c \<notin> set a \<Longrightarrow> takeWhile (\<lambda>x. x \<noteq> c) a = a"
  by (induction a) auto

lemma dropWhile_neq_absent: "c \<notin> set a \<Longrightarrow> dropWhile (\<lambda>x. x \<noteq> c) a = []"
  by (induction a) auto

lemma takeWhile_neq_found: "c \<notin> set a \<Longrightarrow> takeWhile (\<lambda>x. x \<noteq> c) (a @ c # b) = a"
  by (induction a) auto

lemma dropWhile_neq_found: "c \<notin> set a \<Longrightarrow> dropWhile (\<lambda>x. x \<noteq> c) (a @ c # b) = c # b"
  by (induction a) auto

lemma partition_at_found:
  "c \<notin> set a \<Longrightarrow> partition_at c (a @ c # b) = (a, True, b)"
  by (simp add: partition_at_def takeWhile_neq_found dropWhile_neq_found)

lemma partition_at_absent:
  "c \<notin> set a \<Longrightarrow> partition_at c a = (a, False, [])"
  by (simp add: partition_at_def takeWhile_neq_absent dropWhile_neq_absent)

lemma rpartition_tail_append:
  "c \<notin> set b \<Longrightarrow> rpartition_tail c (a @ c # b) = b"
  by (simp add: rpartition_tail_def takeWhile_neq_found)

lemma join_Nil [simp]: "join sep [] = []"
  by (simp add: join_def)

lemma join_single [simp]: "join sep [x] = x"
  by (simp add: join_def)

lemma join_Cons_Cons [simp]: "join sep (x # y # ys) = x @ sep @ join sep (y # ys)"
  by (simp add: join_def)

lemma join_Cons: "ys \<noteq> [] \<Longrightarrow> join sep (x # ys) = x @ sep @ join sep ys"
  by (cases ys) simp_all

lemma join_snoc: "xs \<noteq> [] \<Longrightarrow> join sep (xs @ [x]) = join sep xs @ sep @ x"
proof (induction xs)
  case (Cons y ys)
  then show ?case by (cases "ys = []") (simp_all add: join_Cons)
qed simp

lemma split_on_ne [simp]: "split_on c s \<noteq> []"
  by (induction s) (auto split: list.splits)

lemma join_split_on [simp]: "join [c] (split_on c s) = s"
proof (induction s)
  case (Cons x s)
  obtain y ys where y: "split_on c s = y # ys" by (cases "split_on c s") simp_all
  with Cons show ?case by (cases ys) (auto simp: join_Cons)
qed simp

lemma split_on_absent: "c \<notin> set s \<Longrightarrow> split_on c s = [s]"
  by (induction s) auto

lemma split_on_append:
  assumes "c \<notin> set t"
  shows "split_on c (s @ c # t) = split_on c s @ [t]"
proof (induction s)
  case Nil
  then show ?case using assms by (simp add: split_on_absent)
next
  case (Cons x s)
  then show ?case by (auto split: list.splits)
qed

lemma last_split_on_absent: "c \<notin> set (last (split_on c s))"
proof (induction s)
  case (Cons x s)
  then show ?case by (auto split: list.splits if_splits)
qed simp

lemma rstrip_absent: "s = [] \<or> last s \<noteq> c \<Longrightarrow> rstrip c s = s"
  by (cases s rule: rev_cases) (auto simp: rstrip_def)

section \<open>Dictionaries and sets\<close>

text \<open>
  A \<open>dict\<close> is an association list in insertion order: storing under a key that is there keeps
  its place, storing under a new key appends. A \<open>set\<close> is the list of its members in the order
  it iterates them.
\<close>

fun dict_set :: "'k \<Rightarrow> 'v \<Rightarrow> ('k \<times> 'v) list \<Rightarrow> ('k \<times> 'v) list" where
  "dict_set k v [] = [(k, v)]"
| "dict_set k v ((a, b) # d) = (if k = a then (k, v) # d else (a, b) # dict_set k v d)"

definition dict_pop :: "'k \<Rightarrow> ('k \<times> 'v) list \<Rightarrow> ('k \<times> 'v) list" where
  "dict_pop k d = filter (\<lambda>(a, b). a \<noteq> k) d"

definition set_add :: "'a \<Rightarrow> 'a list \<Rightarrow> 'a list" where
  "set_add x xs = (if x \<in> set xs then xs else xs @ [x])"

lemma map_of_dict_set [simp]: "map_of (dict_set k v d) = (map_of d)(k \<mapsto> v)"
  by (induction d) auto

lemma keys_dict_set:
  "map fst (dict_set k v d) = (if k \<in> set (map fst d) then map fst d else map fst d @ [k])"
  by (induction d) (auto simp del: set_map)

lemma dict_set_fresh: "k \<notin> fst ` set d \<Longrightarrow> dict_set k v d = d @ [(k, v)]"
  by (induction d) auto

lemma distinct_dict_set:
  "distinct (map fst d) \<Longrightarrow> distinct (map fst (dict_set k v d))"
  by (auto simp: keys_dict_set)

lemma map_of_dict_pop: "map_of (dict_pop k d) = (map_of d)(k := None)"
  by (induction d) (auto simp: dict_pop_def)

lemma set_set_add [simp]: "set (set_add x xs) = insert x (set xs)"
  by (auto simp: set_add_def)

lemma distinct_set_add [simp]: "distinct xs \<Longrightarrow> distinct (set_add x xs)"
  by (simp add: set_add_def)

lemma set_add_fresh: "x \<notin> set xs \<Longrightarrow> set_add x xs = xs @ [x]"
  by (simp add: set_add_def)

section \<open>Sorted lists\<close>

lemma insort_key_fst_map:
  "insort_key fst (fst e, g (snd e)) (map (\<lambda>e. (fst e, g (snd e))) es) =
     map (\<lambda>e. (fst e, g (snd e))) (insort_key fst e es)"
  by (induction es) auto

lemma sort_key_fst_map:
  "sort_key fst (map (\<lambda>e. (fst e, g (snd e))) es) = map (\<lambda>e. (fst e, g (snd e))) (sort_key fst es)"
  by (induction es) (simp_all add: insort_key_fst_map)

lemma insort_key_map: "insort_key g (f x) (map f xs) = map f (insort_key (\<lambda>x. g (f x)) x xs)"
  by (induction xs) auto

lemma sort_key_map: "sort_key g (map f xs) = map f (sort_key (\<lambda>x. g (f x)) xs)"
  by (induction xs) (simp_all add: insort_key_map)

lemma length_join_mem: "x \<in> set xs \<Longrightarrow> length x \<le> length (join sep xs)"
proof (induction xs)
  case (Cons y ys)
  then show ?case by (cases "ys = []") (auto simp: join_Cons)
qed simp

lemma length_join_le: "\<forall>x\<in>set xs. x \<noteq> [] \<Longrightarrow> length xs \<le> length (join sep xs)"
proof (induction xs)
  case (Cons y ys)
  then obtain c z where "y = c # z" by (cases y) auto
  with Cons show ?case by (cases "ys = []") (auto simp: join_Cons)
qed simp

section \<open>Steps that keep a state in order\<close>

text \<open>
  What the step relations of the components promise: each step keeps the states in order and takes
  a state to one that is related to it; so does every run.
\<close>

locale ordered_steps =
  fixes step :: "'s \<Rightarrow> 's \<Rightarrow> bool" and in_order :: "'s \<Rightarrow> bool" and later :: "'s \<Rightarrow> 's \<Rightarrow> bool"
  assumes step_in_order: "step s t \<Longrightarrow> in_order s \<Longrightarrow> in_order t"
    and step_later: "step s t \<Longrightarrow> in_order s \<Longrightarrow> later s t"
    and later_refl: "later s s"
    and later_trans: "later s t \<Longrightarrow> later t u \<Longrightarrow> later s u"
begin

lemma run_in_order: "step\<^sup>*\<^sup>* s t \<Longrightarrow> in_order s \<Longrightarrow> in_order t"
  by (induction rule: rtranclp_induct) (auto intro: step_in_order)

lemma run_later: "step\<^sup>*\<^sup>* s t \<Longrightarrow> in_order s \<Longrightarrow> later s t"
proof (induction rule: rtranclp_induct)
  case base
  then show ?case by (simp add: later_refl)
next
  case (step t u)
  then show ?case using run_in_order step_later later_trans by blast
qed

end

end
