(* ===== verification/Wire_IO.thy ===== *)
theory Wire_IO
  imports Prelude
begin

text \<open>
  The byte primitives of the daemon protocol (\<open>nix_daemon_protocol/io.py\<close>): little-endian
  64-bit integers, Booleans, and byte strings with a length in front and zero padding to a
  multiple of eight behind. \<open>BytesWriter\<close> is its buffer; a reader is first the stream of bytes
  it has not read yet (\<open>stream\<close>, with the messages its log sink received), and then
  \<open>BytesReader\<close>, the data and the position in it, which refines that stream.
\<close>

section \<open>Little-endian integers\<close>

primrec le_pack :: "nat \<Rightarrow> nat \<Rightarrow> bytes" where
  "le_pack 0 n = []"
| "le_pack (Suc k) n = of_nat (n mod 256) # le_pack k (n div 256)"

primrec le_unpack :: "bytes \<Rightarrow> nat" where
  "le_unpack [] = 0"
| "le_unpack (b # bs) = unat b + 256 * le_unpack bs"

text \<open>\<open>struct.Struct("<Q").pack\<close> raises outside 64 bits.\<close>

definition pack_uint64 :: "int \<Rightarrow> error + bytes" where
  "pack_uint64 v = (if 0 \<le> v \<and> v < 2 ^ 64 then Inr (le_pack 8 (nat v)) else Inl StructError)"

definition unpack_uint64 :: "bytes \<Rightarrow> int" where
  "unpack_uint64 bs = int (le_unpack bs)"

lemma length_le_pack [simp]: "length (le_pack k n) = k"
  by (induction k arbitrary: n) auto

lemma le_unpack_le_pack: "n < 256 ^ k \<Longrightarrow> le_unpack (le_pack k n) = n"
proof (induction k arbitrary: n)
  case 0
  then show ?case by simp
next
  case (Suc k)
  have "n div 256 < 256 ^ k" using Suc.prems by (simp add: less_mult_imp_div_less mult.commute)
  then have "le_unpack (le_pack k (n div 256)) = n div 256" by (rule Suc.IH)
  moreover have "unat (of_nat (n mod 256) :: byte) = n mod 256"
    by (simp add: unat_of_nat)
  ultimately show ?case by simp
qed

lemma le_unpack_bound: "le_unpack bs < 256 ^ length bs"
proof (induction bs)
  case Nil
  then show ?case by simp
next
  case (Cons b bs)
  have "unat b < 256" using unsigned_less [of b] by simp
  with Cons show ?case by simp
qed

lemma le_pack_le_unpack: "le_pack (length bs) (le_unpack bs) = bs"
proof (induction bs)
  case Nil
  then show ?case by simp
next
  case (Cons b bs)
  have b: "unat b < 256" using unsigned_less [of b] by simp
  then have "(unat b + 256 * le_unpack bs) mod 256 = unat b"
    and "(unat b + 256 * le_unpack bs) div 256 = le_unpack bs"
    by simp_all
  with Cons show ?case by simp
qed

lemma pack_uint64_ok: "0 \<le> v \<Longrightarrow> v < 2 ^ 64 \<Longrightarrow> pack_uint64 v = Inr (le_pack 8 (nat v))"
  by (simp add: pack_uint64_def)

lemma pack_uint64_unpack:
  assumes "pack_uint64 v = Inr bs"
  shows "length bs = 8 \<and> unpack_uint64 bs = v"
proof -
  from assms have v: "0 \<le> v" "v < 2 ^ 64" and bs: "bs = le_pack 8 (nat v)"
    by (auto simp: pack_uint64_def split: if_splits)
  from v have "nat v < 256 ^ 8" by simp
  then have "le_unpack bs = nat v" using bs by (simp add: le_unpack_le_pack)
  with v bs show ?thesis by (simp add: unpack_uint64_def)
qed

section \<open>The padding\<close>

text \<open>\<open>(-n) % 8\<close>, with Python's modulus.\<close>

definition pad_len :: "nat \<Rightarrow> nat" where
  "pad_len n = nat ((- int n) mod 8)"

lemma pad_len_less: "pad_len n < 8"
  by (simp add: pad_len_def nat_less_iff)

lemma pad_len_aligns: "(n + pad_len n) mod 8 = 0"
proof -
  have "int (n + pad_len n) mod 8 = (int n + (- int n) mod 8) mod 8"
    by (simp add: pad_len_def)
  also have "\<dots> = 0" by (simp add: mod_simps)
  finally show ?thesis by presburger
qed

section \<open>BytesWriter\<close>

text \<open>The state is the buffer. A write that raises leaves what was already in it.\<close>

definition write_raw :: "bytes \<Rightarrow> (bytes, unit) eff" where
  "write_raw bs = (\<lambda>buf. (Inr (), buf @ bs))"

definition write_uint64 :: "int \<Rightarrow> (bytes, unit) eff" where
  "write_uint64 v = bind (of_result (pack_uint64 v)) write_raw"

definition write_bool :: "bool \<Rightarrow> (bytes, unit) eff" where
  "write_bool b = write_uint64 (if b then 1 else 0)"

definition write_bytes :: "bytes \<Rightarrow> (bytes, unit) eff" where
  "write_bytes bs =
     bind (write_uint64 (int (length bs))) (\<lambda>_.
     bind (write_raw bs) (\<lambda>_.
     write_raw (replicate (pad_len (length bs)) 0)))"

definition write_string :: "string \<Rightarrow> (bytes, unit) eff" where
  "write_string s = write_bytes (encode s)"

definition tell_writer :: "bytes \<Rightarrow> nat" where
  "tell_writer buf = length buf"

lemma write_raw_apply [simp]: "write_raw bs buf = (Inr (), buf @ bs)"
  by (simp add: write_raw_def)

definition uint64_bytes :: "nat \<Rightarrow> bytes" where
  "uint64_bytes n = le_pack 8 n"

definition framed_bytes :: "bytes \<Rightarrow> bytes" where
  "framed_bytes bs = uint64_bytes (length bs) @ bs @ replicate (pad_len (length bs)) 0"

lemma length_uint64_bytes [simp]: "length (uint64_bytes n) = 8"
  by (simp add: uint64_bytes_def)

lemma write_uint64_ok:
  "0 \<le> v \<Longrightarrow> v < 2 ^ 64 \<Longrightarrow> write_uint64 v buf = (Inr (), buf @ uint64_bytes (nat v))"
  by (simp add: write_uint64_def pack_uint64_ok uint64_bytes_def)

lemma write_uint64_out_of_range:
  "v < 0 \<or> 2 ^ 64 \<le> v \<Longrightarrow> write_uint64 v buf = (Inl StructError, buf)"
  by (auto simp: write_uint64_def pack_uint64_def)

lemma write_bool_apply: "write_bool b buf = (Inr (), buf @ uint64_bytes (if b then 1 else 0))"
  by (simp add: write_bool_def write_uint64_ok)

lemma write_bytes_ok:
  assumes "length bs < 2 ^ 64"
  shows "write_bytes bs buf = (Inr (), buf @ framed_bytes bs)"
proof -
  have "int (length bs) < 2 ^ 64" using assms by (metis of_nat_less_iff of_nat_numeral of_nat_power)
  then show ?thesis
    by (simp add: write_bytes_def bind_apply write_uint64_ok framed_bytes_def)
qed

lemma write_string_ok:
  "length s < 2 ^ 64 \<Longrightarrow> write_string s buf = (Inr (), buf @ framed_bytes (encode s))"
  by (simp add: write_string_def write_bytes_ok)

lemma length_framed_bytes: "length (framed_bytes bs) mod 8 = 0"
  using pad_len_aligns [of "length bs"] by (simp add: framed_bytes_def add.assoc)

section \<open>The unread stream\<close>

record 'm stream =
  unread :: bytes
  sent :: "'m list"

definition stream_readexactly :: "nat \<Rightarrow> ('m stream, bytes) eff" where
  "stream_readexactly n = (\<lambda>s.
     if n \<le> length (unread s)
     then (Inr (take n (unread s)), s\<lparr>unread := drop n (unread s)\<rparr>)
     else (Inl EOFError, s))"

definition read_uint64 :: "('m stream, int) eff" where
  "read_uint64 = bind (stream_readexactly 8) (\<lambda>b. ret (unpack_uint64 b))"

definition read_bool :: "('m stream, bool) eff" where
  "read_bool = bind read_uint64 (\<lambda>n. ret (n \<noteq> 0))"

definition read_bytes :: "('m stream, bytes) eff" where
  "read_bytes =
     bind read_uint64 (\<lambda>n.
     bind (stream_readexactly (nat n + pad_len (nat n))) (\<lambda>b.
     ret (take (nat n) b)))"

definition read_string :: "('m stream, string) eff" where
  "read_string = bind read_bytes (\<lambda>b. ret (decode b))"

lemma stream_readexactly_append:
  "unread s = bs @ rest \<Longrightarrow> length bs = n \<Longrightarrow>
     stream_readexactly n s = (Inr bs, s\<lparr>unread := rest\<rparr>)"
  by (simp add: stream_readexactly_def)

lemma read_uint64_append:
  assumes "unread s = uint64_bytes n @ rest" and "n < 2 ^ 64"
  shows "read_uint64 s = (Inr (int n), s\<lparr>unread := rest\<rparr>)"
proof -
  have "n < 256 ^ 8" using assms(2) by simp
  then have "unpack_uint64 (uint64_bytes n) = int n"
    by (simp add: unpack_uint64_def uint64_bytes_def le_unpack_le_pack)
  with assms(1) show ?thesis
    by (simp add: read_uint64_def bind_apply stream_readexactly_append [where bs = "uint64_bytes n"])
qed

lemma read_bool_append:
  "unread s = uint64_bytes (if b then 1 else 0) @ rest \<Longrightarrow>
     read_bool s = (Inr b, s\<lparr>unread := rest\<rparr>)"
  by (cases b) (simp_all add: read_bool_def bind_apply read_uint64_append)

lemma read_bytes_append:
  assumes "unread s = framed_bytes bs @ rest" and "length bs < 2 ^ 64"
  shows "read_bytes s = (Inr bs, s\<lparr>unread := rest\<rparr>)"
proof -
  let ?pad = "replicate (pad_len (length bs)) 0"
  have "read_uint64 s = (Inr (int (length bs)), s\<lparr>unread := bs @ ?pad @ rest\<rparr>)"
    using assms by (intro read_uint64_append) (simp_all add: framed_bytes_def)
  moreover have "stream_readexactly (length bs + pad_len (length bs)) (s\<lparr>unread := bs @ ?pad @ rest\<rparr>)
      = (Inr (bs @ ?pad), s\<lparr>unread := rest\<rparr>)"
    by (subst stream_readexactly_append [where bs = "bs @ ?pad"]) simp_all
  ultimately show ?thesis by (simp add: read_bytes_def bind_apply)
qed

lemma read_string_append:
  "unread s = framed_bytes (encode t) @ rest \<Longrightarrow> length t < 2 ^ 64 \<Longrightarrow>
     read_string s = (Inr t, s\<lparr>unread := rest\<rparr>)"
  by (simp add: read_string_def bind_apply read_bytes_append)

section \<open>BytesReader\<close>

record bytes_reader =
  br_data :: bytes
  br_position :: nat

definition remaining :: "bytes_reader \<Rightarrow> bytes" where
  "remaining r = drop (br_position r) (br_data r)"

definition br_readexactly :: "nat \<Rightarrow> (bytes_reader, bytes) eff" where
  "br_readexactly n = (\<lambda>r.
     if br_position r + n > length (br_data r) then (Inl EOFError, r)
     else (Inr (take n (drop (br_position r) (br_data r))),
           r\<lparr>br_position := br_position r + n\<rparr>))"

definition br_read_uint64 :: "(bytes_reader, int) eff" where
  "br_read_uint64 = (\<lambda>r.
     let end = br_position r + 8
     in if end > length (br_data r) then (Inl EOFError, r)
        else (Inr (unpack_uint64 (take 8 (drop (br_position r) (br_data r)))),
              r\<lparr>br_position := end\<rparr>))"

definition br_read_bool :: "(bytes_reader, bool) eff" where
  "br_read_bool = bind br_read_uint64 (\<lambda>n. ret (n \<noteq> 0))"

definition br_read_bytes :: "(bytes_reader, bytes) eff" where
  "br_read_bytes =
     bind br_read_uint64 (\<lambda>len r.
       let position = br_position r;
           end = position + nat len;
           padded_end = end + pad_len (nat len)
       in if padded_end > length (br_data r) then (Inl EOFError, r)
          else (Inr (take (end - position) (drop position (br_data r))),
                r\<lparr>br_position := padded_end\<rparr>))"

definition br_read_string :: "(bytes_reader, string) eff" where
  "br_read_string = bind br_read_bytes (\<lambda>b. ret (decode b))"

definition br_tell :: "bytes_reader \<Rightarrow> nat" where
  "br_tell r = br_position r"

definition br_ok :: "bytes_reader \<Rightarrow> bool" where
  "br_ok r \<longleftrightarrow> br_position r \<le> length (br_data r)"

section \<open>What a reader promises\<close>

text \<open>
  \<open>follows good rest m a\<close>: from every state that satisfies \<open>good\<close>, the method \<open>m\<close> of a reader
  answers what the operation \<open>a\<close> answers on the stream \<open>rest\<close> of its unread bytes; when it
  returns, the invariant holds again and the unread bytes are those that \<open>a\<close> leaves. A reader
  that raises is not used again, so nothing is said of the state it leaves behind.
\<close>

definition stream_of :: "bytes \<Rightarrow> unit stream" where
  "stream_of bs = \<lparr>unread = bs, sent = []\<rparr>"

definition follows ::
    "('s \<Rightarrow> bool) \<Rightarrow> ('s \<Rightarrow> bytes) \<Rightarrow> ('s, 'a) eff \<Rightarrow> (unit stream, 'a) eff \<Rightarrow> bool" where
  "follows good rest m a \<longleftrightarrow> (\<forall>s. good s \<longrightarrow>
     (case fst (a (stream_of (rest s))) of
        Inl e \<Rightarrow> fst (m s) = Inl e
      | Inr x \<Rightarrow> fst (m s) = Inr x \<and> good (snd (m s)) \<and>
          snd (a (stream_of (rest s))) = stream_of (rest (snd (m s)))))"

lemma followsI:
  assumes "\<And>s x t. good s \<Longrightarrow> a (stream_of (rest s)) = (Inr x, t) \<Longrightarrow>
      \<exists>s'. m s = (Inr x, s') \<and> good s' \<and> t = stream_of (rest s')"
    and "\<And>s e t. good s \<Longrightarrow> a (stream_of (rest s)) = (Inl e, t) \<Longrightarrow> \<exists>s'. m s = (Inl e, s')"
  shows "follows good rest m a"
  unfolding follows_def
proof (intro allI impI)
  fix s assume good: "good s"
  obtain r t where a: "a (stream_of (rest s)) = (r, t)" by (cases "a (stream_of (rest s))")
  show "case fst (a (stream_of (rest s))) of Inl e \<Rightarrow> fst (m s) = Inl e
      | Inr x \<Rightarrow> fst (m s) = Inr x \<and> good (snd (m s)) \<and>
          snd (a (stream_of (rest s))) = stream_of (rest (snd (m s)))"
  proof (cases r)
    case (Inl e)
    with a assms(2) [OF good] show ?thesis by fastforce
  next
    case (Inr x)
    with a assms(1) [OF good] show ?thesis by fastforce
  qed
qed

lemma follows_ok:
  assumes "follows good rest m a" and "good s" and "a (stream_of (rest s)) = (Inr x, t)"
  obtains s' where "m s = (Inr x, s')" and "good s'" and "t = stream_of (rest s')"
proof (rule that [of "snd (m s)"])
  from assms(1) [unfolded follows_def, rule_format, OF assms(2)] assms(3)
  show "m s = (Inr x, snd (m s))" "good (snd (m s))" "t = stream_of (rest (snd (m s)))"
    by (simp_all add: prod_eq_iff)
qed

lemma follows_error:
  assumes "follows good rest m a" and "good s" and "a (stream_of (rest s)) = (Inl e, t)"
  obtains s' where "m s = (Inl e, s')"
proof (rule that [of "snd (m s)"])
  from assms(1) [unfolded follows_def, rule_format, OF assms(2)] assms(3)
  show "m s = (Inl e, snd (m s))" by (simp add: prod_eq_iff)
qed

lemma follows_ret: "follows good rest (ret x) (ret x)"
  by (rule followsI) auto

lemma follows_raise: "follows good rest (raise e) (raise e)"
  by (rule followsI) auto

lemma follows_bind:
  assumes m: "follows good rest m a" and f: "\<And>x. follows good rest (f x) (g x)"
  shows "follows good rest (bind m f) (bind a g)"
proof (rule followsI)
  fix s x t
  assume good: "good s" and run: "bind a g (stream_of (rest s)) = (Inr x, t)"
  then obtain y u where y: "a (stream_of (rest s)) = (Inr y, u)" "g y u = (Inr x, t)"
    by (auto simp: bind_ok_iff)
  obtain s1 where s1: "m s = (Inr y, s1)" "good s1" "u = stream_of (rest s1)"
    by (rule follows_ok [OF m good y(1)])
  from y(2) s1(3) have "g y (stream_of (rest s1)) = (Inr x, t)" by simp
  then obtain s2 where "f y s1 = (Inr x, s2)" "good s2" "t = stream_of (rest s2)"
    by (rule follows_ok [OF f s1(2)])
  with s1(1) show "\<exists>s'. bind m f s = (Inr x, s') \<and> good s' \<and> t = stream_of (rest s')"
    by (simp add: bind_Inr)
next
  fix s e t
  assume good: "good s" and run: "bind a g (stream_of (rest s)) = (Inl e, t)"
  obtain r u where u: "a (stream_of (rest s)) = (r, u)" by (cases "a (stream_of (rest s))")
  show "\<exists>s'. bind m f s = (Inl e, s')"
  proof (cases r)
    case (Inl e')
    with u run have "e' = e" by (simp add: bind_apply)
    with u Inl obtain s1 where "m s = (Inl e, s1)" by (metis follows_error [OF m good])
    then show ?thesis by (simp add: bind_Inl)
  next
    case (Inr y)
    with u obtain s1 where s1: "m s = (Inr y, s1)" "good s1" "u = stream_of (rest s1)"
      by (metis follows_ok [OF m good])
    from u Inr run s1(3) have "g y (stream_of (rest s1)) = (Inl e, t)" by (simp add: bind_apply)
    then obtain s2 where "f y s1 = (Inl e, s2)" by (rule follows_error [OF f s1(2)])
    with s1(1) show ?thesis by (simp add: bind_Inr)
  qed
qed

lemma stream_of_eq_iff [simp]: "stream_of a = stream_of b \<longleftrightarrow> a = b"
  by (simp add: stream_of_def)

lemma stream_readexactly_stream_of:
  "stream_readexactly n (stream_of bs) =
     (if n \<le> length bs then (Inr (take n bs), stream_of (drop n bs)) else (Inl EOFError, stream_of bs))"
  by (simp add: stream_readexactly_def stream_of_def)

section \<open>BytesReader follows the stream\<close>

lemma br_readexactly_follows: "follows br_ok remaining (br_readexactly n) (stream_readexactly n)"
  by (rule followsI)
    (auto simp: br_readexactly_def stream_readexactly_stream_of remaining_def br_ok_def
      add.commute split: if_splits)

lemma br_read_uint64_eq: "br_read_uint64 = bind (br_readexactly 8) (\<lambda>b. ret (unpack_uint64 b))"
  by (rule ext) (simp add: br_read_uint64_def br_readexactly_def bind_apply Let_def)

lemma br_read_bytes_eq:
  "br_read_bytes = bind br_read_uint64 (\<lambda>n. bind (br_readexactly (nat n + pad_len (nat n))) (\<lambda>b. ret (take (nat n) b)))"
  unfolding br_read_bytes_def
  by (rule bind_cong [OF refl]) (rule ext, simp add: br_readexactly_def bind_apply Let_def add.assoc)

lemma br_read_uint64_follows: "follows br_ok remaining br_read_uint64 read_uint64"
  unfolding br_read_uint64_eq read_uint64_def
  by (intro follows_bind br_readexactly_follows follows_ret)

lemma br_read_bool_follows: "follows br_ok remaining br_read_bool read_bool"
  unfolding br_read_bool_def read_bool_def
  by (intro follows_bind br_read_uint64_follows follows_ret)

lemma br_read_bytes_follows: "follows br_ok remaining br_read_bytes read_bytes"
  unfolding br_read_bytes_eq read_bytes_def
  by (intro follows_bind br_read_uint64_follows br_readexactly_follows follows_ret)

lemma br_read_string_follows: "follows br_ok remaining br_read_string read_string"
  unfolding br_read_string_def read_string_def
  by (intro follows_bind br_read_bytes_follows follows_ret)

section \<open>Bytes written are the bytes read\<close>

text \<open>
  What \<open>BytesWriter.write_string\<close> appends, \<open>BytesReader.read_string\<close> takes back, whatever was
  written before and after it: the same string is returned and the reader stands right behind it.
  The bytes it occupies are a multiple of eight.
\<close>

theorem string_roundtrip:
  assumes "length s < 2 ^ 64"
  shows "\<exists>bs r. write_string s buf = (Inr (), buf @ bs) \<and> length bs mod 8 = 0 \<and>
    br_read_string \<lparr>br_data = buf @ bs @ after, br_position = length buf\<rparr> = (Inr s, r) \<and>
    remaining r = after"
proof -
  let ?bs = "framed_bytes (encode s)"
  let ?r = "\<lparr>br_data = buf @ ?bs @ after, br_position = length buf\<rparr>"
  have r: "br_ok ?r" "remaining ?r = ?bs @ after" by (simp_all add: br_ok_def remaining_def)
  then have "read_string (stream_of (remaining ?r)) = (Inr s, stream_of after)"
    using read_string_append [of "stream_of (remaining ?r)" s after] assms by (simp add: stream_of_def)
  then obtain r' where "br_read_string ?r = (Inr s, r')" "stream_of after = stream_of (remaining r')"
    by (rule follows_ok [OF br_read_string_follows r(1)])
  moreover have "write_string s buf = (Inr (), buf @ ?bs)" using assms by (rule write_string_ok)
  ultimately show ?thesis using length_framed_bytes [of "encode s"] by auto
qed

theorem string_roundtrip_witness:
  "\<exists>bs r. write_string ''nix'' [7] = (Inr (), [7] @ bs) \<and> length bs mod 8 = 0 \<and>
    br_read_string \<lparr>br_data = [7] @ bs @ [1, 2], br_position = length [7 :: byte]\<rparr> = (Inr ''nix'', r) \<and>
    remaining r = [1, 2]"
  by (rule string_roundtrip) simp

end
