(* ===== verification/Wire_Streams.thy ===== *)
theory Wire_Streams
  imports Wire_IO
begin

text \<open>
  The transports of \<open>pynixd/wire.py\<close>: the methods that \<open>NixReader\<close> and \<open>NixWriter\<close> build on
  \<open>readexactly\<close> and \<open>write\<close>, the readers that read ahead of the protocol (\<open>UnixNixReader\<close>,
  \<open>SSHNixReader\<close>), the writer that coalesces, and the framed streams (\<open>FramedReader\<close>,
  \<open>FramedWriter\<close>, \<open>forward_framed\<close>, \<open>send_framed\<close>, \<open>send_raw\<close>, \<open>forward_raw\<close>).

  Three interfaces are locales: \<open>nix_reader\<close> (exact reads follow the unread bytes),
  \<open>byte_source\<close> (a read gives some, at most the asked, and nothing only at the end) and
  \<open>byte_sink\<close> (a write appends). The sockets below a reader belong to anyio and asyncssh; they
  are parameters, and what the code relies on of them is \<open>byte_source\<close>. The clock value
  \<open>last_read_at\<close> and the suspensions of \<open>checkpoint\<close> change no byte and are left out.
\<close>

section \<open>The methods of NixReader\<close>

type_synonym 's readexactly = "nat \<Rightarrow> ('s, bytes) eff"

definition nar_pad :: "nat \<Rightarrow> nat" where
  "nar_pad n = (8 - n mod 8) mod 8"

lemma nar_pad_eq: "nar_pad n = pad_len n"
proof -
  have "int (nar_pad n) = (8 - int n mod 8) mod 8"
    by (simp add: nar_pad_def of_nat_diff zmod_int)
  also have "\<dots> = (8 - int n) mod 8" by (rule mod_diff_right_eq)
  also have "\<dots> = (- int n) mod 8" using mod_add_self1 [of 8 "- int n"] by simp
  finally show ?thesis by (simp add: pad_len_def)
qed

definition nr_read_uint64 :: "'s readexactly \<Rightarrow> ('s, int) eff" where
  "nr_read_uint64 rx = bind (rx 8) (\<lambda>b. ret (unpack_uint64 b))"

definition nr_read_bool :: "'s readexactly \<Rightarrow> ('s, bool) eff" where
  "nr_read_bool rx = bind (nr_read_uint64 rx) (\<lambda>n. ret (n \<noteq> 0))"

definition nr_read_optional_uint64 :: "'s readexactly \<Rightarrow> ('s, int option) eff" where
  "nr_read_optional_uint64 rx =
     bind (nr_read_uint64 rx) (\<lambda>tag.
     if tag = 0 then ret None else bind (nr_read_uint64 rx) (\<lambda>v. ret (Some v)))"

definition nr_read_bytes :: "'s readexactly \<Rightarrow> ('s, bytes) eff" where
  "nr_read_bytes rx =
     bind (nr_read_uint64 rx) (\<lambda>len.
     bind (rx (nat len)) (\<lambda>data.
     if nar_pad (nat len) \<noteq> 0 then bind (rx (nar_pad (nat len))) (\<lambda>_. ret data) else ret data))"

definition nr_read_string :: "'s readexactly \<Rightarrow> ('s, string) eff" where
  "nr_read_string rx = bind (nr_read_bytes rx) (\<lambda>b. ret (decode b))"

primrec read_times :: "nat \<Rightarrow> ('s, 'a) eff \<Rightarrow> ('s, 'a list) eff" where
  "read_times 0 m = ret []"
| "read_times (Suc k) m = bind m (\<lambda>x. bind (read_times k m) (\<lambda>xs. ret (x # xs)))"

definition nr_read_string_list :: "'s readexactly \<Rightarrow> ('s, string list) eff" where
  "nr_read_string_list rx =
     bind (nr_read_uint64 rx) (\<lambda>count. read_times (nat count) (nr_read_string rx))"

definition nr_read_string_set :: "'s readexactly \<Rightarrow> ('s, string list) eff" where
  "nr_read_string_set rx =
     bind (nr_read_uint64 rx) (\<lambda>count.
     bind (read_times (nat count) (nr_read_string rx)) (\<lambda>xs. ret (fold set_add xs [])))"

text \<open>
  The two readers of a byte string, the one of \<open>io.py\<close> that takes data and padding in one read
  and the one of \<open>wire.py\<close> that takes them in two, agree on every stream.
\<close>

lemma stream_two_reads:
  "bind (stream_readexactly n) (\<lambda>a. bind (stream_readexactly m) (\<lambda>b. f a b)) s =
   (if n + m \<le> length (unread s)
    then f (take n (unread s)) (take m (drop n (unread s))) (s\<lparr>unread := drop (n + m) (unread s)\<rparr>)
    else (Inl EOFError, if n \<le> length (unread s) then s\<lparr>unread := drop n (unread s)\<rparr> else s))"
  by (auto simp: bind_apply stream_readexactly_def add.commute)

lemma nr_read_uint64_stream: "nr_read_uint64 stream_readexactly = read_uint64"
  by (simp add: nr_read_uint64_def read_uint64_def)

lemma fst_nr_read_bytes_stream:
  "fst (nr_read_bytes stream_readexactly s) = fst (read_bytes s)"
  "fst (read_bytes s) = Inr x \<Longrightarrow> nr_read_bytes stream_readexactly s = read_bytes s"
proof -
  have tail: "bind (stream_readexactly n) (\<lambda>a. if nar_pad n \<noteq> 0
      then bind (stream_readexactly (nar_pad n)) (\<lambda>b. ret a) else ret a) t =
      (if n + pad_len n \<le> length (unread t)
       then (Inr (take n (unread t)), t\<lparr>unread := drop (n + pad_len n) (unread t)\<rparr>)
       else (Inl EOFError, if n \<le> length (unread t) then t\<lparr>unread := drop n (unread t)\<rparr> else t))"
    for n and t :: "'a stream"
    by (auto simp: nar_pad_eq [symmetric] stream_two_reads bind_apply stream_readexactly_def add.commute)
  have spec: "bind (stream_readexactly (n + pad_len n)) (\<lambda>b. ret (take n b)) t =
      (if n + pad_len n \<le> length (unread t)
       then (Inr (take n (unread t)), t\<lparr>unread := drop (n + pad_len n) (unread t)\<rparr>)
       else (Inl EOFError, t))" for n and t :: "'a stream"
    by (simp add: bind_apply stream_readexactly_def min_absorb1)
  show "fst (nr_read_bytes stream_readexactly s) = fst (read_bytes s)"
    "fst (read_bytes s) = Inr x \<Longrightarrow> nr_read_bytes stream_readexactly s = read_bytes s"
    unfolding nr_read_bytes_def read_bytes_def nr_read_uint64_stream bind_apply [of read_uint64] tail spec
    by (auto split: prod.splits sum.splits if_splits)
qed

section \<open>The interface of a reader\<close>

locale nix_reader =
  fixes good :: "'s \<Rightarrow> bool" and rest :: "'s \<Rightarrow> bytes" and rx :: "'s readexactly"
  assumes readexactly_follows: "follows good rest (rx n) (stream_readexactly n)"
begin

lemma rx_ok:
  assumes "good s" and "n \<le> length (rest s)"
  obtains s' where "rx n s = (Inr (take n (rest s)), s')" and "good s'" and "rest s' = drop n (rest s)"
proof -
  have "stream_readexactly n (stream_of (rest s)) = (Inr (take n (rest s)), stream_of (drop n (rest s)))"
    using assms(2) by (simp add: stream_readexactly_stream_of)
  then show thesis
    by (rule follows_ok [OF readexactly_follows assms(1)]) (rule that, simp_all)
qed

lemma rx_eof:
  assumes "good s" and "length (rest s) < n"
  obtains s' where "rx n s = (Inl EOFError, s')"
proof -
  have "stream_readexactly n (stream_of (rest s)) = (Inl EOFError, stream_of (rest s))"
    using assms(2) by (simp add: stream_readexactly_stream_of)
  then show thesis by (rule follows_error [OF readexactly_follows assms(1)]) (rule that)
qed

lemma read_uint64_follows: "follows good rest (nr_read_uint64 rx) read_uint64"
  unfolding nr_read_uint64_def read_uint64_def
  by (intro follows_bind readexactly_follows follows_ret)

lemma read_bool_follows: "follows good rest (nr_read_bool rx) read_bool"
  unfolding nr_read_bool_def read_bool_def
  by (intro follows_bind read_uint64_follows follows_ret)

lemma read_bytes_follows: "follows good rest (nr_read_bytes rx) read_bytes"
proof -
  have two: "follows good rest (nr_read_bytes rx) (nr_read_bytes stream_readexactly)"
    unfolding nr_read_bytes_def nr_read_uint64_stream
    by (intro follows_bind read_uint64_follows)
      (auto intro!: follows_bind readexactly_follows follows_ret)
  show ?thesis
  proof (rule followsI)
    fix s x t
    assume s: "good s" and run: "read_bytes (stream_of (rest s)) = (Inr x, t)"
    then have "nr_read_bytes stream_readexactly (stream_of (rest s)) = (Inr x, t)"
      by (simp add: fst_nr_read_bytes_stream(2))
    then show "\<exists>s'. nr_read_bytes rx s = (Inr x, s') \<and> good s' \<and> t = stream_of (rest s')"
      by (rule follows_ok [OF two s]) blast
  next
    fix s e t
    assume s: "good s" and run: "read_bytes (stream_of (rest s)) = (Inl e, t)"
    then have "fst (nr_read_bytes stream_readexactly (stream_of (rest s))) = Inl e"
      by (simp add: fst_nr_read_bytes_stream(1))
    then obtain u where "nr_read_bytes stream_readexactly (stream_of (rest s)) = (Inl e, u)"
      by (metis prod.collapse)
    then show "\<exists>s'. nr_read_bytes rx s = (Inl e, s')"
      by (rule follows_error [OF two s]) blast
  qed
qed

lemma read_string_follows: "follows good rest (nr_read_string rx) read_string"
  unfolding nr_read_string_def read_string_def
  by (intro follows_bind read_bytes_follows follows_ret)

lemma read_uint64_rest:
  assumes "good s" and "rest s = uint64_bytes n @ bs" and "n < 2 ^ 64"
  obtains s' where "nr_read_uint64 rx s = (Inr (int n), s')" and "good s'" and "rest s' = bs"
proof -
  have "read_uint64 (stream_of (rest s)) = (Inr (int n), stream_of bs)"
    using read_uint64_append [of "stream_of (rest s)" n bs] assms(2,3) by (simp add: stream_of_def)
  then show thesis
    by (rule follows_ok [OF read_uint64_follows assms(1)]) (rule that, simp_all)
qed

lemma rx_rest:
  assumes "good s" and "rest s = data @ bs"
  obtains s' where "rx (length data) s = (Inr data, s')" and "good s'" and "rest s' = bs"
  by (rule rx_ok [OF assms(1), of "length data"]) (use assms(2) in \<open>auto intro: that\<close>)

lemma read_string_rest:
  assumes "good s" and "rest s = framed_bytes (encode t) @ bs" and "length t < 2 ^ 64"
  obtains s' where "nr_read_string rx s = (Inr t, s')" and "good s'" and "rest s' = bs"
proof -
  have "read_string (stream_of (rest s)) = (Inr t, stream_of bs)"
    using read_string_append [of "stream_of (rest s)" t bs] assms(2,3) by (simp add: stream_of_def)
  then show thesis
    by (rule follows_ok [OF read_string_follows assms(1)]) (rule that, simp_all)
qed

lemma read_strings_rest:
  assumes "good s" and "rest s = concat (map (\<lambda>t. framed_bytes (encode t)) ts) @ bs"
    and "\<forall>t \<in> set ts. length t < 2 ^ 64"
  shows "\<exists>s'. read_times (length ts) (nr_read_string rx) s = (Inr ts, s') \<and> good s' \<and> rest s' = bs"
  using assms
proof (induction ts arbitrary: s)
  case Nil
  then show ?case by simp
next
  case (Cons t ts)
  from Cons.prems(2) have r: "rest s = framed_bytes (encode t) @ concat (map (\<lambda>t. framed_bytes (encode t)) ts) @ bs"
    by simp
  from Cons.prems(3) have "length t < 2 ^ 64" by simp
  with Cons.prems(1) r obtain s1 where s1: "nr_read_string rx s = (Inr t, s1)" "good s1"
    "rest s1 = concat (map (\<lambda>t. framed_bytes (encode t)) ts) @ bs"
    by (rule read_string_rest)
  from Cons.IH [OF s1(2,3)] Cons.prems(3) s1(1) show ?case by (auto simp: bind_apply)
qed

end

interpretation bytes_reader: nix_reader br_ok remaining br_readexactly
  by unfold_locales (rule br_readexactly_follows)

section \<open>A source of bytes\<close>

text \<open>
  \<open>read n\<close> gives at most \<open>n\<close> bytes, and none only at the end: the contract that
  \<open>UnixNixReader\<close>, \<open>send_framed\<close>, \<open>send_raw\<close> and the unpacking of an archive have with what
  they read from.
\<close>

locale byte_source =
  fixes good :: "'t \<Rightarrow> bool" and flow :: "'t \<Rightarrow> bytes" and rd :: "nat \<Rightarrow> ('t, bytes) eff"
  assumes read_some: "good t \<Longrightarrow> 0 < n \<Longrightarrow> flow t \<noteq> [] \<Longrightarrow>
      \<exists>k t'. 0 < k \<and> k \<le> n \<and> k \<le> length (flow t) \<and> rd n t = (Inr (take k (flow t)), t') \<and>
        good t' \<and> flow t' = drop k (flow t)"
    and read_end: "good t \<Longrightarrow> 0 < n \<Longrightarrow> flow t = [] \<Longrightarrow>
      \<exists>t'. rd n t = (Inr [], t') \<and> good t' \<and> flow t' = []"

section \<open>Readers that read ahead\<close>

record 't read_ahead =
  ra_src :: 't
  ra_buf :: bytes
  ra_pos :: nat
  ra_bytes_read :: nat

definition SSH_READAHEAD :: nat where "SSH_READAHEAD = 256 * 1024"
definition UNIX_READAHEAD :: nat where "UNIX_READAHEAD = 16 * 1024"

text \<open>
  \<open>_receive\<close>, and the plain read of the SSH channel: ask the transport and count. The end of the
  stream is an empty chunk of the transport here, as \<open>_receive\<close> makes it of anyio's exception.
\<close>

definition ra_receive :: "(nat \<Rightarrow> ('t, bytes) eff) \<Rightarrow> nat \<Rightarrow> ('t read_ahead, bytes) eff" where
  "ra_receive recv m = (\<lambda>r. case recv m (ra_src r) of
       (Inl e, t) \<Rightarrow> (Inl e, r\<lparr>ra_src := t\<rparr>)
     | (Inr chunk, t) \<Rightarrow>
         (Inr chunk, r\<lparr>ra_src := t, ra_bytes_read := ra_bytes_read r + length chunk\<rparr>))"

text \<open>The loop of a read at least as large as the read-ahead, which leaves nothing in the buffer.\<close>

function receive_through ::
    "(nat \<Rightarrow> ('t, bytes) eff) \<Rightarrow> nat \<Rightarrow> bytes \<Rightarrow> ('t read_ahead, bytes) eff" where
  "receive_through recv need acc r =
     (if need = 0 then (Inr acc, r)
      else case ra_receive recv need r of
          (Inl e, r') \<Rightarrow> (Inl e, r')
        | (Inr chunk, r') \<Rightarrow>
            if chunk = [] then (Inl EOFError, r')
            else receive_through recv (need - length chunk) (acc @ chunk) r')"
  by pat_completeness auto
termination
  by (relation "measure (\<lambda>(recv, need, acc, r). need)") (auto simp: neq_Nil_conv)

text \<open>The loop that fills the buffer: what a chunk holds past the need stays in it.\<close>

function fill_ahead ::
    "(nat \<Rightarrow> ('t, bytes) eff) \<Rightarrow> nat \<Rightarrow> nat \<Rightarrow> bytes \<Rightarrow> ('t read_ahead, bytes) eff" where
  "fill_ahead recv ahead need acc r =
     (if need = 0 then (Inr acc, r)
      else case ra_receive recv ahead r of
          (Inl e, r') \<Rightarrow> (Inl e, r')
        | (Inr chunk, r') \<Rightarrow>
            if chunk = [] then (Inl EOFError, r')
            else if length chunk \<ge> need
            then (Inr (acc @ take need chunk), r'\<lparr>ra_buf := chunk, ra_pos := need\<rparr>)
            else fill_ahead recv ahead (need - length chunk) (acc @ chunk) r')"
  by pat_completeness auto
termination
  by (relation "measure (\<lambda>(recv, ahead, need, acc, r). need)") (auto simp: neq_Nil_conv)

declare receive_through.simps [simp del] fill_ahead.simps [simp del]

definition unix_readexactly :: "(nat \<Rightarrow> ('t, bytes) eff) \<Rightarrow> 't read_ahead readexactly" where
  "unix_readexactly recv n = (\<lambda>r.
     if length (ra_buf r) - ra_pos r \<ge> n
     then (Inr (take n (drop (ra_pos r) (ra_buf r))), r\<lparr>ra_pos := ra_pos r + n\<rparr>)
     else let head = drop (ra_pos r) (ra_buf r);
              r0 = r\<lparr>ra_buf := [], ra_pos := 0\<rparr>;
              need = n - length head
          in if need \<ge> UNIX_READAHEAD then receive_through recv need head r0
             else fill_ahead recv UNIX_READAHEAD need head r0)"

text \<open>
  The SSH reader asks the channel for exactly the need when it is large, and a lost connection
  ends the stream.
\<close>

definition connection_lost_is_eof :: "(error + 'a) \<times> 's \<Rightarrow> (error + 'a) \<times> 's" where
  "connection_lost_is_eof = (\<lambda>(x, r).
     (case x of Inl e \<Rightarrow> Inl (if e = ConnectionError then EOFError else e) | Inr y \<Rightarrow> Inr y, r))"

definition ssh_readexactly ::
    "(nat \<Rightarrow> ('t, bytes) eff) \<Rightarrow> 't readexactly \<Rightarrow> 't read_ahead readexactly" where
  "ssh_readexactly recv exact n = (\<lambda>r.
     if length (ra_buf r) - ra_pos r \<ge> n
     then (Inr (take n (drop (ra_pos r) (ra_buf r))), r\<lparr>ra_pos := ra_pos r + n\<rparr>)
     else let head = drop (ra_pos r) (ra_buf r);
              r0 = r\<lparr>ra_buf := [], ra_pos := 0\<rparr>;
              need = n - length head
          in connection_lost_is_eof
               (if need \<ge> SSH_READAHEAD
                then (case exact need (ra_src r0) of
                    (Inl e, t) \<Rightarrow> (Inl e, r0\<lparr>ra_src := t\<rparr>)
                  | (Inr data, t) \<Rightarrow>
                      (Inr (head @ data), r0\<lparr>ra_src := t, ra_bytes_read := ra_bytes_read r0 + need\<rparr>))
                else fill_ahead recv SSH_READAHEAD need head r0))"

text \<open>
  \<open>_transport_is_dirty\<close> and \<open>peer_closed\<close>: \<open>queued\<close> and \<open>ended\<close> are what the transport says of
  the bytes it holds and of its end.
\<close>

definition ra_is_dirty :: "('t \<Rightarrow> bool) \<Rightarrow> 't read_ahead \<Rightarrow> bool" where
  "ra_is_dirty queued r \<longleftrightarrow> length (ra_buf r) - ra_pos r > 0 \<or> queued (ra_src r)"

definition ra_peer_closed :: "('t \<Rightarrow> bool) \<Rightarrow> 't read_ahead \<Rightarrow> bool" where
  "ra_peer_closed ended r \<longleftrightarrow> ra_pos r \<ge> length (ra_buf r) \<and> ended (ra_src r)"

definition ra_rest :: "('t \<Rightarrow> bytes) \<Rightarrow> 't read_ahead \<Rightarrow> bytes" where
  "ra_rest flow r = drop (ra_pos r) (ra_buf r) @ flow (ra_src r)"

definition ra_good :: "('t \<Rightarrow> bool) \<Rightarrow> 't read_ahead \<Rightarrow> bool" where
  "ra_good ok r \<longleftrightarrow> ok (ra_src r) \<and> ra_pos r \<le> length (ra_buf r)"

context byte_source
begin

lemma ra_receive_some:
  assumes "good (ra_src r)" and "0 < m" and "flow (ra_src r) \<noteq> []"
  obtains k r' where "0 < k" and "k \<le> m" and "k \<le> length (flow (ra_src r))"
    and "ra_receive rd m r = (Inr (take k (flow (ra_src r))), r')" and "good (ra_src r')"
    and "flow (ra_src r') = drop k (flow (ra_src r))" and "ra_buf r' = ra_buf r" and "ra_pos r' = ra_pos r"
proof -
  from read_some [OF assms] obtain k t' where k: "0 < k" "k \<le> m" "k \<le> length (flow (ra_src r))"
    "rd m (ra_src r) = (Inr (take k (flow (ra_src r))), t')" "good t'" "flow t' = drop k (flow (ra_src r))"
    by blast
  let ?r = "r\<lparr>ra_src := t', ra_bytes_read := ra_bytes_read r + length (take k (flow (ra_src r)))\<rparr>"
  have "ra_receive rd m r = (Inr (take k (flow (ra_src r))), ?r)" by (simp add: ra_receive_def k(4))
  from that [OF k(1-3) this] k(5,6) show thesis by simp
qed

lemma ra_receive_end:
  assumes "good (ra_src r)" and "0 < m" and "flow (ra_src r) = []"
  obtains r' where "ra_receive rd m r = (Inr [], r')"
proof -
  from read_end [OF assms] obtain t' where "rd m (ra_src r) = (Inr [], t')" by blast
  then show thesis by (intro that) (simp add: ra_receive_def)
qed

lemma receive_through_ok:
  assumes "good (ra_src r)" and "need \<le> length (flow (ra_src r))"
  shows "\<exists>r'. receive_through rd need acc r = (Inr (acc @ take need (flow (ra_src r))), r') \<and>
    good (ra_src r') \<and> flow (ra_src r') = drop need (flow (ra_src r)) \<and>
    ra_buf r' = ra_buf r \<and> ra_pos r' = ra_pos r"
  using assms
proof (induction need arbitrary: acc r rule: less_induct)
  case (less need)
  show ?case
  proof (cases "need = 0")
    case True
    with less.prems show ?thesis by (simp add: receive_through.simps)
  next
    case False
    with less.prems(2) have "0 < need" "flow (ra_src r) \<noteq> []" by auto
    with less.prems(1) obtain k r1 where k: "0 < k" "k \<le> need" "k \<le> length (flow (ra_src r))"
      "ra_receive rd need r = (Inr (take k (flow (ra_src r))), r1)" "good (ra_src r1)"
      "flow (ra_src r1) = drop k (flow (ra_src r))" "ra_buf r1 = ra_buf r" "ra_pos r1 = ra_pos r"
      by (rule ra_receive_some)
    let ?chunk = "take k (flow (ra_src r))"
    have step: "receive_through rd need acc r = receive_through rd (need - k) (acc @ ?chunk) r1"
      using False k(1,3,4) by (subst receive_through.simps) (auto simp: min_absorb2)
    have "need - k < need" using k(1) False by simp
    moreover have "need - k \<le> length (flow (ra_src r1))" using k(6) less.prems(2) by simp
    ultimately obtain r2 where r2: "receive_through rd (need - k) (acc @ ?chunk) r1 =
        (Inr ((acc @ ?chunk) @ take (need - k) (flow (ra_src r1))), r2)" "good (ra_src r2)"
        "flow (ra_src r2) = drop (need - k) (flow (ra_src r1))" "ra_buf r2 = ra_buf r1" "ra_pos r2 = ra_pos r1"
      using less.IH [of "need - k" r1 "acc @ ?chunk"] k(5) by blast
    have "?chunk @ take (need - k) (flow (ra_src r1)) = take need (flow (ra_src r))"
      using k(2,6) by (metis le_add_diff_inverse take_add)
    with step r2 k(2,6-8) show ?thesis by simp
  qed
qed

lemma receive_through_eof:
  assumes "good (ra_src r)" and "length (flow (ra_src r)) < need"
  shows "\<exists>r'. receive_through rd need acc r = (Inl EOFError, r')"
  using assms
proof (induction need arbitrary: acc r rule: less_induct)
  case (less need)
  show ?case
  proof (cases "flow (ra_src r) = []")
    case True
    with less.prems obtain r' where "ra_receive rd need r = (Inr [], r')"
      by (metis gr_zeroI less_nat_zero_code ra_receive_end)
    with less.prems(2) show ?thesis by (subst receive_through.simps) auto
  next
    case False
    from less.prems(2) have "0 < need" by simp
    with less.prems(1) False obtain k r1 where k: "0 < k" "k \<le> need" "k \<le> length (flow (ra_src r))"
      "ra_receive rd need r = (Inr (take k (flow (ra_src r))), r1)" "good (ra_src r1)"
      "flow (ra_src r1) = drop k (flow (ra_src r))"
      by (metis ra_receive_some)
    then have "receive_through rd need acc r =
        receive_through rd (need - k) (acc @ take k (flow (ra_src r))) r1"
      using \<open>0 < need\<close> False by (subst receive_through.simps) (auto simp: min_absorb2)
    with less.IH [of "need - k" r1] k less.prems(2) \<open>0 < need\<close> show ?thesis by simp
  qed
qed

lemma fill_ahead_ok:
  assumes "good (ra_src r)" and "ra_buf r = []" and "need \<le> length (flow (ra_src r))" and "0 < ahead"
    and "ra_pos r = 0"
  shows "\<exists>r'. fill_ahead rd ahead need acc r = (Inr (acc @ take need (flow (ra_src r))), r') \<and>
    ra_good good r' \<and> ra_rest flow r' = drop need (flow (ra_src r))"
  using assms
proof (induction need arbitrary: acc r rule: less_induct)
  case (less need)
  show ?case
  proof (cases "need = 0")
    case True
    with less.prems show ?thesis by (simp add: fill_ahead.simps ra_rest_def ra_good_def)
  next
    case False
    with less.prems(3) have ne: "flow (ra_src r) \<noteq> []" by auto
    obtain k r1 where k: "0 < k" "k \<le> ahead" "k \<le> length (flow (ra_src r))"
      "ra_receive rd ahead r = (Inr (take k (flow (ra_src r))), r1)" "good (ra_src r1)"
      "flow (ra_src r1) = drop k (flow (ra_src r))" "ra_buf r1 = ra_buf r" "ra_pos r1 = ra_pos r"
      by (rule ra_receive_some [OF less.prems(1,4) ne])
    let ?chunk = "take k (flow (ra_src r))"
    show ?thesis
    proof (cases "need \<le> k")
      case True
      with k False have "fill_ahead rd ahead need acc r =
          (Inr (acc @ take need (flow (ra_src r))), r1\<lparr>ra_buf := ?chunk, ra_pos := need\<rparr>)"
        by (subst fill_ahead.simps) (auto simp: min_absorb2 min_absorb1)
      moreover have "drop need ?chunk @ drop k (flow (ra_src r)) = drop need (flow (ra_src r))"
        using True by (metis append_take_drop_id drop_drop drop_take le_add_diff_inverse2)
      ultimately show ?thesis using k True by (simp add: ra_rest_def ra_good_def)
    next
      case False
      then have less: "need - k < need" using k(1) by simp
      have step: "fill_ahead rd ahead need acc r = fill_ahead rd ahead (need - k) (acc @ ?chunk) r1"
        using False k(1,3,4) by (subst fill_ahead.simps) (auto simp: min_absorb2)
      have "need - k \<le> length (flow (ra_src r1))" using k(6) less.prems(3) by simp
      from less.IH [OF less k(5) _ this less.prems(4), of "acc @ ?chunk"] k(7,8) less.prems(2,5)
      obtain r2 where r2: "fill_ahead rd ahead (need - k) (acc @ ?chunk) r1 =
          (Inr ((acc @ ?chunk) @ take (need - k) (flow (ra_src r1))), r2)" "ra_good good r2"
          "ra_rest flow r2 = drop (need - k) (flow (ra_src r1))"
        by auto
      have "?chunk @ take (need - k) (flow (ra_src r1)) = take need (flow (ra_src r))"
        using False k(6) by (metis le_add_diff_inverse nat_le_linear take_add)
      with step r2 False k(6) show ?thesis by simp
    qed
  qed
qed

lemma fill_ahead_eof:
  assumes "good (ra_src r)" and "length (flow (ra_src r)) < need" and "0 < ahead"
  shows "\<exists>r'. fill_ahead rd ahead need acc r = (Inl EOFError, r')"
  using assms
proof (induction need arbitrary: acc r rule: less_induct)
  case (less need)
  show ?case
  proof (cases "flow (ra_src r) = []")
    case True
    obtain r' where "ra_receive rd ahead r = (Inr [], r')"
      by (rule ra_receive_end [OF less.prems(1,3) True])
    with less.prems(2) show ?thesis by (subst fill_ahead.simps) auto
  next
    case False
    obtain k r1 where k: "0 < k" "k \<le> ahead" "k \<le> length (flow (ra_src r))"
      "ra_receive rd ahead r = (Inr (take k (flow (ra_src r))), r1)" "good (ra_src r1)"
      "flow (ra_src r1) = drop k (flow (ra_src r))" "ra_buf r1 = ra_buf r" "ra_pos r1 = ra_pos r"
      by (rule ra_receive_some [OF less.prems(1,3) False])
    then have "fill_ahead rd ahead need acc r =
        fill_ahead rd ahead (need - k) (acc @ take k (flow (ra_src r))) r1"
      using less.prems(2) False by (subst fill_ahead.simps) (auto simp: min_absorb2)
    with less.IH [of "need - k" r1] k less.prems(2,3) show ?thesis by simp
  qed
qed

end

lemma ra_buffered_read:
  assumes "ra_good ok r" and "n \<le> length (ra_buf r) - ra_pos r"
  shows "take n (drop (ra_pos r) (ra_buf r)) = take n (ra_rest flow r)"
    and "ra_good ok (r\<lparr>ra_pos := ra_pos r + n\<rparr>)"
    and "ra_rest flow (r\<lparr>ra_pos := ra_pos r + n\<rparr>) = drop n (ra_rest flow r)"
  using assms by (auto simp: ra_rest_def ra_good_def add.commute)

text \<open>What a read past the buffer needs of the transport, whichever loop serves it.\<close>

lemma ra_past_buffer:
  assumes "ra_good ok r" and "\<not> n \<le> length (ra_buf r) - ra_pos r"
  defines "head \<equiv> drop (ra_pos r) (ra_buf r)"
  shows "take n (ra_rest flow r) = head @ take (n - length head) (flow (ra_src r))"
    and "drop n (ra_rest flow r) = drop (n - length head) (flow (ra_src r))"
    and "n \<le> length (ra_rest flow r) \<longleftrightarrow> n - length head \<le> length (flow (ra_src r))"
  using assms(1,2) by (auto simp: ra_rest_def ra_good_def head_def)

context byte_source
begin

lemma unix_readexactly_ok:
  assumes r: "ra_good good r" and n: "n \<le> length (ra_rest flow r)"
  shows "\<exists>r'. unix_readexactly rd n r = (Inr (take n (ra_rest flow r)), r') \<and>
    ra_good good r' \<and> ra_rest flow r' = drop n (ra_rest flow r)"
proof (cases "n \<le> length (ra_buf r) - ra_pos r")
  case True
  from ra_buffered_read [OF r True] True show ?thesis by (simp add: unix_readexactly_def)
next
  case False
  let ?head = "drop (ra_pos r) (ra_buf r)"
  let ?need = "n - length ?head"
  let ?r0 = "r\<lparr>ra_buf := [], ra_pos := 0\<rparr>"
  note past = ra_past_buffer [OF r False]
  have need: "?need \<le> length (flow (ra_src ?r0))" using n past(3) by simp
  have good: "good (ra_src ?r0)" using r by (simp add: ra_good_def)
  show ?thesis
  proof (cases "UNIX_READAHEAD \<le> ?need")
    case True
    from receive_through_ok [OF good need, of ?head] show ?thesis
      using True False past(1,2) by (auto simp: unix_readexactly_def Let_def ra_rest_def ra_good_def)
  next
    case small: False
    have "0 < UNIX_READAHEAD" by (simp add: UNIX_READAHEAD_def)
    from fill_ahead_ok [OF good _ need this, of ?head] show ?thesis
      using small False past(1,2) by (auto simp: unix_readexactly_def Let_def)
  qed
qed

lemma unix_readexactly_eof:
  assumes r: "ra_good good r" and n: "\<not> n \<le> length (ra_rest flow r)"
  shows "\<exists>r'. unix_readexactly rd n r = (Inl EOFError, r')"
proof -
  let ?head = "drop (ra_pos r) (ra_buf r)"
  let ?r0 = "r\<lparr>ra_buf := [], ra_pos := 0\<rparr>"
  have False': "\<not> n \<le> length (ra_buf r) - ra_pos r" using n by (simp add: ra_rest_def)
  have need: "length (flow (ra_src ?r0)) < n - length ?head"
    using n ra_past_buffer(3) [OF r False', where flow = flow] by simp
  have good: "good (ra_src ?r0)" using r by (simp add: ra_good_def)
  have ahead: "0 < UNIX_READAHEAD" by (simp add: UNIX_READAHEAD_def)
  from receive_through_eof [OF good need, of ?head] fill_ahead_eof [OF good need ahead, of ?head]
  show ?thesis using False' by (auto simp: unix_readexactly_def Let_def)
qed

lemma unix_readexactly_follows:
  "follows (ra_good good) (ra_rest flow) (unix_readexactly rd n) (stream_readexactly n)"
  by (rule followsI)
    (auto simp: stream_readexactly_stream_of dest: unix_readexactly_ok unix_readexactly_eof split: if_splits)

end

sublocale byte_source \<subseteq> unix: nix_reader "ra_good good" "ra_rest flow" "unix_readexactly rd"
  by unfold_locales (rule unix_readexactly_follows)

text \<open>The SSH channel offers both kinds of read on the same bytes.\<close>

locale ssh_channel = byte_source good flow rd + exact: nix_reader good flow ex
  for good :: "'t \<Rightarrow> bool" and flow :: "'t \<Rightarrow> bytes" and rd :: "nat \<Rightarrow> ('t, bytes) eff"
    and ex :: "'t readexactly"
begin

lemma ssh_readexactly_ok:
  assumes r: "ra_good good r" and n: "n \<le> length (ra_rest flow r)"
  shows "\<exists>r'. ssh_readexactly rd ex n r = (Inr (take n (ra_rest flow r)), r') \<and>
    ra_good good r' \<and> ra_rest flow r' = drop n (ra_rest flow r)"
proof (cases "n \<le> length (ra_buf r) - ra_pos r")
  case True
  from ra_buffered_read [OF r True] True show ?thesis by (simp add: ssh_readexactly_def)
next
  case False
  let ?head = "drop (ra_pos r) (ra_buf r)"
  let ?need = "n - length ?head"
  let ?r0 = "r\<lparr>ra_buf := [], ra_pos := 0\<rparr>"
  note past = ra_past_buffer [OF r False]
  have need: "?need \<le> length (flow (ra_src ?r0))" using n past(3) by simp
  have good: "good (ra_src ?r0)" using r by (simp add: ra_good_def)
  show ?thesis
  proof (cases "SSH_READAHEAD \<le> ?need")
    case True
    obtain t where t: "ex ?need (ra_src ?r0) = (Inr (take ?need (flow (ra_src ?r0))), t)" "good t"
      "flow t = drop ?need (flow (ra_src ?r0))"
      by (rule exact.rx_ok [OF good need])
    then show ?thesis
      using True False past(1,2)
      by (simp add: ssh_readexactly_def Let_def connection_lost_is_eof_def ra_rest_def ra_good_def)
  next
    case small: False
    have "0 < SSH_READAHEAD" by (simp add: SSH_READAHEAD_def)
    from fill_ahead_ok [OF good _ need this, of ?head] show ?thesis
      using small False past(1,2)
      by (auto simp: ssh_readexactly_def Let_def connection_lost_is_eof_def)
  qed
qed

lemma ssh_readexactly_eof:
  assumes r: "ra_good good r" and n: "\<not> n \<le> length (ra_rest flow r)"
  shows "\<exists>r'. ssh_readexactly rd ex n r = (Inl EOFError, r')"
proof -
  let ?head = "drop (ra_pos r) (ra_buf r)"
  let ?r0 = "r\<lparr>ra_buf := [], ra_pos := 0\<rparr>"
  have False': "\<not> n \<le> length (ra_buf r) - ra_pos r" using n by (simp add: ra_rest_def)
  have need: "length (flow (ra_src ?r0)) < n - length ?head"
    using n ra_past_buffer(3) [OF r False', where flow = flow] by simp
  have good: "good (ra_src ?r0)" using r by (simp add: ra_good_def)
  have ahead: "0 < SSH_READAHEAD" by (simp add: SSH_READAHEAD_def)
  obtain t where "ex (n - length ?head) (ra_src ?r0) = (Inl EOFError, t)"
    by (rule exact.rx_eof [OF good need])
  with fill_ahead_eof [OF good need ahead, of ?head] False' show ?thesis
    by (auto simp: ssh_readexactly_def Let_def connection_lost_is_eof_def)
qed

lemma ssh_readexactly_follows:
  "follows (ra_good good) (ra_rest flow) (ssh_readexactly rd ex n) (stream_readexactly n)"
  by (rule followsI)
    (auto simp: stream_readexactly_stream_of dest: ssh_readexactly_ok ssh_readexactly_eof split: if_splits)

end

sublocale ssh_channel \<subseteq> ssh: nix_reader "ra_good good" "ra_rest flow" "ssh_readexactly rd ex"
  by unfold_locales (rule ssh_readexactly_follows)

section \<open>The methods of NixWriter\<close>

type_synonym 'w write_op = "bytes \<Rightarrow> ('w, unit) eff"

definition nw_write_uint64 :: "'w write_op \<Rightarrow> int \<Rightarrow> ('w, unit) eff" where
  "nw_write_uint64 wr v = bind (of_result (pack_uint64 v)) wr"

definition nw_write_bool :: "'w write_op \<Rightarrow> bool \<Rightarrow> ('w, unit) eff" where
  "nw_write_bool wr b = nw_write_uint64 wr (if b then 1 else 0)"

text \<open>\<open>struct.pack\<close> of many packs them all before anything is written.\<close>

fun pack_uint64s :: "int list \<Rightarrow> error + bytes" where
  "pack_uint64s [] = Inr []"
| "pack_uint64s (v # vs) =
     (case pack_uint64 v of Inl e \<Rightarrow> Inl e
      | Inr b \<Rightarrow> (case pack_uint64s vs of Inl e \<Rightarrow> Inl e | Inr bs \<Rightarrow> Inr (b @ bs)))"

definition nw_write_uint64s :: "'w write_op \<Rightarrow> int list \<Rightarrow> ('w, unit) eff" where
  "nw_write_uint64s wr vals =
     (if vals = [] then ret () else bind (of_result (pack_uint64s vals)) wr)"

definition nw_write_optional_uint64 :: "'w write_op \<Rightarrow> int option \<Rightarrow> ('w, unit) eff" where
  "nw_write_optional_uint64 wr val =
     (case val of None \<Rightarrow> nw_write_uint64 wr 0
      | Some v \<Rightarrow> bind (nw_write_uint64 wr 1) (\<lambda>_. nw_write_uint64 wr v))"

definition nw_write_bytes :: "'w write_op \<Rightarrow> bytes \<Rightarrow> ('w, unit) eff" where
  "nw_write_bytes wr data =
     bind (nw_write_uint64 wr (int (length data))) (\<lambda>_.
     bind (wr data) (\<lambda>_.
     if nar_pad (length data) \<noteq> 0 then wr (replicate (nar_pad (length data)) 0) else ret ()))"

definition nw_write_string :: "'w write_op \<Rightarrow> string \<Rightarrow> ('w, unit) eff" where
  "nw_write_string wr s = nw_write_bytes wr (encode s)"

fun write_each :: "('a \<Rightarrow> ('w, unit) eff) \<Rightarrow> 'a list \<Rightarrow> ('w, unit) eff" where
  "write_each f [] = ret ()"
| "write_each f (x # xs) = bind (f x) (\<lambda>_. write_each f xs)"

definition nw_write_string_list :: "'w write_op \<Rightarrow> string list \<Rightarrow> ('w, unit) eff" where
  "nw_write_string_list wr items =
     bind (nw_write_uint64 wr (int (length items))) (\<lambda>_. write_each (nw_write_string wr) items)"

section \<open>The interface of a writer\<close>

locale byte_sink =
  fixes written :: "'w \<Rightarrow> bytes" and wr :: "'w write_op"
  assumes write_appends: "\<exists>w'. wr bs w = (Inr (), w') \<and> written w' = written w @ bs"
begin

lemma write_uint64_appends:
  assumes "0 \<le> v" and "v < 2 ^ 64"
  shows "\<exists>w'. nw_write_uint64 wr v w = (Inr (), w') \<and> written w' = written w @ uint64_bytes (nat v)"
  using assms write_appends by (simp add: nw_write_uint64_def pack_uint64_ok uint64_bytes_def)

lemma write_uint64_raises:
  "v < 0 \<or> 2 ^ 64 \<le> v \<Longrightarrow> nw_write_uint64 wr v w = (Inl StructError, w)"
  by (auto simp: nw_write_uint64_def pack_uint64_def)

lemma write_bytes_appends:
  assumes "length bs < 2 ^ 64"
  shows "\<exists>w'. nw_write_bytes wr bs w = (Inr (), w') \<and> written w' = written w @ framed_bytes bs"
proof -
  have "int (length bs) < 2 ^ 64" using assms by (metis of_nat_less_iff of_nat_numeral of_nat_power)
  then obtain w1 where w1: "nw_write_uint64 wr (int (length bs)) w = (Inr (), w1)"
    "written w1 = written w @ uint64_bytes (length bs)"
    using write_uint64_appends [of "int (length bs)" w] by auto
  obtain w2 where w2: "wr bs w1 = (Inr (), w2)" "written w2 = written w1 @ bs"
    using write_appends by blast
  obtain w3 where w3: "wr (replicate (nar_pad (length bs)) 0) w2 = (Inr (), w3)"
    "written w3 = written w2 @ replicate (nar_pad (length bs)) 0"
    using write_appends by blast
  from w1 w2 w3 show ?thesis
    by (auto simp: nw_write_bytes_def bind_apply framed_bytes_def nar_pad_eq)
qed

lemma write_string_appends:
  "length s < 2 ^ 64 \<Longrightarrow>
     \<exists>w'. nw_write_string wr s w = (Inr (), w') \<and> written w' = written w @ framed_bytes (encode s)"
  using write_bytes_appends [of "encode s"] by (simp add: nw_write_string_def)

lemma write_strings_append:
  assumes "\<forall>t \<in> set ts. length t < 2 ^ 64"
  shows "\<exists>w'. write_each (nw_write_string wr) ts w = (Inr (), w') \<and>
    written w' = written w @ concat (map (\<lambda>t. framed_bytes (encode t)) ts)"
  using assms
proof (induction ts arbitrary: w)
  case Nil
  then show ?case by simp
next
  case (Cons t ts)
  then obtain w1 where w1: "nw_write_string wr t w = (Inr (), w1)"
    "written w1 = written w @ framed_bytes (encode t)"
    using write_string_appends by (meson list.set_intros(1))
  from Cons.IH [of w1] Cons.prems w1 show ?case by (auto simp: bind_apply)
qed

lemma write_string_list_appends:
  assumes "length ts < 2 ^ 64" and "\<forall>t \<in> set ts. length t < 2 ^ 64"
  shows "\<exists>w'. nw_write_string_list wr ts w = (Inr (), w') \<and>
    written w' = written w @ uint64_bytes (length ts) @ concat (map (\<lambda>t. framed_bytes (encode t)) ts)"
proof -
  have "int (length ts) < 2 ^ 64" using assms(1) by (metis of_nat_less_iff of_nat_numeral of_nat_power)
  then obtain w1 where w1: "nw_write_uint64 wr (int (length ts)) w = (Inr (), w1)"
    "written w1 = written w @ uint64_bytes (length ts)"
    using write_uint64_appends [of "int (length ts)" w] by auto
  from write_strings_append [OF assms(2), of w1] w1 show ?thesis
    by (auto simp: nw_write_string_list_def bind_apply)
qed

end

interpretation bytes_writer: byte_sink "\<lambda>b. b" write_raw
  by unfold_locales simp

section \<open>The coalescing writer\<close>

text \<open>
  \<open>nw_transport\<close> is what was handed to the transport, one entry for each write it saw.
\<close>

record nix_writer =
  nw_pending :: bytes
  nw_transport :: "bytes list"
  nw_bytes_written :: nat

definition FLUSH_BYTES :: nat where "FLUSH_BYTES = 64 * 1024"

definition nw_write_to_transport :: "bytes \<Rightarrow> nix_writer \<Rightarrow> nix_writer" where
  "nw_write_to_transport data w =
     w\<lparr>nw_transport := nw_transport w @ [data], nw_bytes_written := nw_bytes_written w + length data\<rparr>"

definition nw_flush :: "nix_writer \<Rightarrow> nix_writer" where
  "nw_flush w =
     (if nw_pending w \<noteq> [] then (nw_write_to_transport (nw_pending w) w)\<lparr>nw_pending := []\<rparr> else w)"

definition nw_write :: "nix_writer write_op" where
  "nw_write data = (\<lambda>w.
     let w1 = w\<lparr>nw_pending := nw_pending w @ data\<rparr>
     in (Inr (), if length (nw_pending w1) \<ge> FLUSH_BYTES then nw_flush w1 else w1))"

definition nw_drain :: "(nix_writer, unit) eff" where
  "nw_drain = (\<lambda>w. (Inr (), nw_flush w))"

definition nw_is_dirty :: "(nix_writer \<Rightarrow> bool) \<Rightarrow> nix_writer \<Rightarrow> bool" where
  "nw_is_dirty transport_is_dirty w \<longleftrightarrow> nw_pending w \<noteq> [] \<or> transport_is_dirty w"

definition nw_written :: "nix_writer \<Rightarrow> bytes" where
  "nw_written w = concat (nw_transport w) @ nw_pending w"

definition nw_ok :: "nix_writer \<Rightarrow> bool" where
  "nw_ok w \<longleftrightarrow> length (nw_pending w) < FLUSH_BYTES \<and> (\<forall>b \<in> set (nw_transport w). b \<noteq> []) \<and>
     nw_bytes_written w = length (concat (nw_transport w))"

lemma nw_written_flush [simp]: "nw_written (nw_flush w) = nw_written w"
  by (simp add: nw_flush_def nw_written_def nw_write_to_transport_def)

lemma nw_pending_flush [simp]: "nw_pending (nw_flush w) = []"
  by (simp add: nw_flush_def)

lemma nw_ok_flush:
  "nw_bytes_written w = length (concat (nw_transport w)) \<Longrightarrow> \<forall>b \<in> set (nw_transport w). b \<noteq> [] \<Longrightarrow>
     nw_ok (nw_flush w)"
  by (auto simp: nw_ok_def nw_flush_def nw_write_to_transport_def FLUSH_BYTES_def)

lemma nw_written_pending [simp]: "nw_written (w\<lparr>nw_pending := nw_pending w @ bs\<rparr>) = nw_written w @ bs"
  by (simp add: nw_written_def)

lemma nw_ok_write:
  assumes "nw_ok w"
  shows "nw_ok (snd (nw_write bs w))"
proof -
  have "nw_ok (nw_flush (w\<lparr>nw_pending := nw_pending w @ bs\<rparr>))"
    using assms by (intro nw_ok_flush) (simp_all add: nw_ok_def)
  with assms show ?thesis by (auto simp: nw_write_def Let_def nw_ok_def [of "w\<lparr>nw_pending := _\<rparr>"])
    (auto simp: nw_ok_def)
qed

interpretation coalescing: byte_sink nw_written nw_write
  by unfold_locales (auto simp: nw_write_def Let_def)

lemma nw_drain_apply [simp]: "nw_drain w = (Inr (), nw_flush w)"
  by (simp add: nw_drain_def)

end
