(* ===== verification/Framed.thy ===== *)
theory Framed
  imports Wire_Streams
begin

text \<open>
  Framed streams of \<open>pynixd/wire.py\<close>: a payload cut into frames, each its length and its bytes,
  and a frame of length zero at the end. \<open>FramedReader\<close> gives the payload back as a reader and as
  a source of bytes, \<open>FramedWriter\<close> makes frames, and \<open>forward_framed\<close>, \<open>send_framed\<close>, \<open>send_raw\<close>
  and \<open>forward_raw\<close> move payloads from a reader or a source to the coalescing writer.
\<close>

section \<open>The format\<close>

definition frame :: "bytes \<Rightarrow> bytes" where
  "frame d = uint64_bytes (length d) @ d"

definition frames :: "bytes list \<Rightarrow> bytes" where
  "frames ds = concat (map frame ds) @ uint64_bytes 0"

definition frames_ok :: "bytes list \<Rightarrow> bool" where
  "frames_ok ds \<longleftrightarrow> (\<forall>d \<in> set ds. d \<noteq> [] \<and> length d < 2 ^ 64)"

text \<open>The payload of the frames at the start of a byte string, and what follows the last one.\<close>

function deframe :: "bytes \<Rightarrow> (bytes \<times> bytes) option" where
  "deframe bs =
     (if length bs < 8 then None
      else let n = le_unpack (take 8 bs) in
        if n = 0 then Some ([], drop 8 bs)
        else if length bs < 8 + n then None
        else map_option (\<lambda>(p, t). (take n (drop 8 bs) @ p, t)) (deframe (drop (8 + n) bs)))"
  by pat_completeness auto
termination by (relation "measure length") auto

declare deframe.simps [simp del]

lemma le_unpack_uint64_bytes: "n < 2 ^ 64 \<Longrightarrow> le_unpack (uint64_bytes n) = n"
  unfolding uint64_bytes_def by (rule le_unpack_le_pack) simp

lemma uint64_bytes_le_unpack: "length bs = 8 \<Longrightarrow> uint64_bytes (le_unpack bs) = bs"
  using le_pack_le_unpack [of bs] by (simp add: uint64_bytes_def)

lemma deframe_end: "deframe (uint64_bytes 0 @ t) = Some ([], t)"
  by (subst deframe.simps) (simp add: le_unpack_uint64_bytes)

lemma deframe_frame:
  assumes "d \<noteq> []" and "length d < 2 ^ 64"
  shows "deframe (frame d @ bs) = map_option (\<lambda>(p, t). (d @ p, t)) (deframe bs)"
  using assms by (subst deframe.simps) (simp add: frame_def le_unpack_uint64_bytes)

lemma deframe_frames: "frames_ok ds \<Longrightarrow> deframe (frames ds @ t) = Some (concat ds, t)"
  by (induction ds) (simp_all add: frames_def frames_ok_def deframe_end deframe_frame)

lemma deframe_SomeE:
  assumes "deframe bs = Some (p, t)"
  obtains (last) "p = []" and "bs = uint64_bytes 0 @ t"
  | (more) d q bs' where "d \<noteq> []" and "length d < 2 ^ 64" and "bs = frame d @ bs'" and "p = d @ q"
      and "deframe bs' = Some (q, t)"
proof -
  let ?n = "le_unpack (take 8 bs)"
  from assms have len: "\<not> length bs < 8" by (auto simp: deframe.simps [of bs])
  then have head: "uint64_bytes ?n = take 8 bs" by (simp add: uint64_bytes_le_unpack)
  have bound: "?n < 2 ^ 64" using le_unpack_bound [of "take 8 bs"] len by simp
  show thesis
  proof (cases "?n = 0")
    case True
    with assms len have "p = []" "t = drop 8 bs" by (auto simp: deframe.simps [of bs])
    with head True show thesis by (intro last) (metis append_take_drop_id)+
  next
    case False
    with assms len obtain q where q: "\<not> length bs < 8 + ?n" "deframe (drop (8 + ?n) bs) = Some (q, t)"
      "p = take ?n (drop 8 bs) @ q"
      by (auto simp: deframe.simps [of bs] Let_def split: if_splits)
    let ?d = "take ?n (drop 8 bs)"
    have d: "length ?d = ?n" using q(1) by simp
    have "bs = take 8 bs @ ?d @ drop (8 + ?n) bs"
      by (metis append_take_drop_id drop_drop add.commute)
    then have "bs = frame ?d @ drop (8 + ?n) bs" using d head by (simp add: frame_def)
    moreover from d False have "?d \<noteq> []" by fastforce
    ultimately show thesis using more q(2,3) d bound by metis
  qed
qed

lemma length_deframe: "deframe bs = Some (p, t) \<Longrightarrow> length p + length t < length bs"
proof (induction "length bs" arbitrary: bs p rule: less_induct)
  case less
  from less.prems show ?case
  proof (cases rule: deframe_SomeE)
    case last
    then show ?thesis by simp
  next
    case (more d q bs')
    with less.hyps [of bs' q] show ?thesis by (simp add: frame_def)
  qed
qed

section \<open>FramedReader\<close>

record 's framed_reader =
  fr_src :: 's
  fr_buf :: bytes
  fr_pos :: nat
  fr_eof :: bool

definition fr_new :: "'s \<Rightarrow> 's framed_reader" where
  "fr_new src = \<lparr>fr_src = src, fr_buf = [], fr_pos = 0, fr_eof = False\<rparr>"

definition fr_on_src :: "('s, 'a) eff \<Rightarrow> ('s framed_reader, 'a) eff" where
  "fr_on_src m = (\<lambda>fr. case m (fr_src fr) of (x, s) \<Rightarrow> (x, fr\<lparr>fr_src := s\<rparr>))"

definition fr_compact :: "'s framed_reader \<Rightarrow> 's framed_reader" where
  "fr_compact fr =
     (if fr_pos fr > 0 then fr\<lparr>fr_buf := drop (fr_pos fr) (fr_buf fr), fr_pos := 0\<rparr> else fr)"

text \<open>
  The loop of \<open>readexactly\<close>. Each turn takes a frame, which is not empty, so \<open>n\<close> turns fill the
  buffer: \<open>Suc n\<close> is fuel enough.
\<close>

fun fr_fill :: "'s readexactly \<Rightarrow> nat \<Rightarrow> nat \<Rightarrow> ('s framed_reader, unit) eff" where
  "fr_fill rx fuel n = (\<lambda>fr.
     if \<not> length (fr_buf fr) - fr_pos fr < n then (Inr (), fr)
     else case fuel of 0 \<Rightarrow> (Inl OutOfFuel, fr)
       | Suc k \<Rightarrow>
         if fr_eof fr then (Inl EOFError, fr)
         else bind (fr_on_src (nr_read_uint64 rx)) (\<lambda>size.
           if size = 0
           then (\<lambda>fr. let fr1 = fr\<lparr>fr_eof := True\<rparr> in
                  if length (fr_buf fr1) - fr_pos fr1 < n then (Inl EOFError, fr1) else (Inr (), fr1))
           else bind (fr_on_src (rx (nat size))) (\<lambda>data fr.
             fr_fill rx k n (fr\<lparr>fr_buf := fr_buf fr @ data\<rparr>))) fr)"

declare fr_fill.simps [simp del]

definition fr_readexactly :: "'s readexactly \<Rightarrow> 's framed_reader readexactly" where
  "fr_readexactly rx n =
     bind (fr_fill rx (Suc n) n) (\<lambda>_ fr.
       let result = take n (drop (fr_pos fr) (fr_buf fr));
           fr1 = fr\<lparr>fr_pos := fr_pos fr + n\<rparr>
       in (Inr result, if fr_pos fr1 > 64 * 1024 then fr_compact fr1 else fr1))"

definition fr_next_chunk :: "'s readexactly \<Rightarrow> ('s framed_reader, bytes) eff" where
  "fr_next_chunk rx = (\<lambda>fr.
     if fr_pos fr < length (fr_buf fr)
     then (Inr (drop (fr_pos fr) (fr_buf fr)), fr\<lparr>fr_buf := [], fr_pos := 0\<rparr>)
     else if fr_eof fr then (Inr [], fr)
     else bind (fr_on_src (nr_read_uint64 rx)) (\<lambda>size.
       if size = 0 then (\<lambda>fr. (Inr [], fr\<lparr>fr_eof := True\<rparr>))
       else fr_on_src (rx (nat size))) fr)"

definition fr_unread :: "bytes \<Rightarrow> 's framed_reader \<Rightarrow> 's framed_reader" where
  "fr_unread data fr =
     (if data \<noteq> [] then fr\<lparr>fr_buf := data @ drop (fr_pos fr) (fr_buf fr), fr_pos := 0\<rparr> else fr)"

definition fr_read :: "'s readexactly \<Rightarrow> nat \<Rightarrow> ('s framed_reader, bytes) eff" where
  "fr_read rx n =
     bind (fr_next_chunk rx) (\<lambda>chunk.
     if length chunk > n then (\<lambda>fr. (Inr (take n chunk), fr_unread (drop n chunk) fr))
     else ret chunk)"

function fr_skip :: "'s readexactly \<Rightarrow> nat \<Rightarrow> ('s framed_reader, unit) eff" where
  "fr_skip rx n fr =
     (if n = 0 then (Inr (), fr)
      else case fr_next_chunk rx fr of
          (Inl e, fr') \<Rightarrow> (Inl e, fr')
        | (Inr chunk, fr') \<Rightarrow>
            if chunk = [] then (Inl EOFError, fr')
            else let fr'' = (if length chunk > n then fr_unread (drop n chunk) fr' else fr')
                 in fr_skip rx (n - min n (length chunk)) fr'')"
  by pat_completeness auto
termination
  by (relation "measure (\<lambda>(rx, n, fr). n)") (auto simp: neq_Nil_conv)

declare fr_skip.simps [simp del]

fun fr_ensure_eof :: "'s readexactly \<Rightarrow> nat \<Rightarrow> ('s framed_reader, unit) eff" where
  "fr_ensure_eof rx fuel = (\<lambda>fr.
     if fr_eof fr then (Inr (), fr)
     else case fuel of 0 \<Rightarrow> (Inl OutOfFuel, fr)
       | Suc k \<Rightarrow> bind (fr_on_src (nr_read_uint64 rx)) (\<lambda>size.
           if size = 0 then (\<lambda>fr. (Inr (), fr\<lparr>fr_eof := True\<rparr>))
           else bind (fr_on_src (rx (nat size))) (\<lambda>_. fr_ensure_eof rx k)) fr)"

declare fr_ensure_eof.simps [simp del]

definition fr_is_dirty :: "('s \<Rightarrow> bool) \<Rightarrow> 's framed_reader \<Rightarrow> bool" where
  "fr_is_dirty src_is_dirty fr \<longleftrightarrow> fr_pos fr < length (fr_buf fr) \<or> src_is_dirty (fr_src fr)"

definition fr_at_eof :: "'s framed_reader \<Rightarrow> bool" where
  "fr_at_eof fr \<longleftrightarrow> fr_eof fr \<and> fr_pos fr = length (fr_buf fr)"

text \<open>
  What a \<open>FramedReader\<close> has left: the payload buffered and the payload of the frames to come.
  What its source holds behind the last frame belongs to the next operation.
\<close>

definition fr_good :: "('s \<Rightarrow> bool) \<Rightarrow> ('s \<Rightarrow> bytes) \<Rightarrow> 's framed_reader \<Rightarrow> bool" where
  "fr_good good rest fr \<longleftrightarrow> good (fr_src fr) \<and> fr_pos fr \<le> length (fr_buf fr) \<and>
     (fr_eof fr \<or> deframe (rest (fr_src fr)) \<noteq> None)"

definition fr_rest :: "('s \<Rightarrow> bytes) \<Rightarrow> 's framed_reader \<Rightarrow> bytes" where
  "fr_rest rest fr = drop (fr_pos fr) (fr_buf fr) @
     (if fr_eof fr then [] else fst (the (deframe (rest (fr_src fr)))))"

definition fr_behind :: "('s \<Rightarrow> bytes) \<Rightarrow> 's framed_reader \<Rightarrow> bytes" where
  "fr_behind rest fr =
     (if fr_eof fr then rest (fr_src fr) else snd (the (deframe (rest (fr_src fr)))))"

section \<open>A FramedReader over any reader\<close>

lemmas fr_state_defs = fr_good_def fr_rest_def fr_behind_def

lemma fr_new_state:
  assumes "good s" and "rest s = frames ds @ t" and "frames_ok ds"
  shows "fr_good good rest (fr_new s) \<and> fr_rest rest (fr_new s) = concat ds \<and> fr_behind rest (fr_new s) = t"
  using assms by (simp add: fr_state_defs fr_new_def deframe_frames)

lemma fr_compact_state:
  assumes "fr_good good rest fr"
  shows "fr_good good rest (fr_compact fr) \<and> fr_rest rest (fr_compact fr) = fr_rest rest fr \<and>
    fr_behind rest (fr_compact fr) = fr_behind rest fr"
  using assms by (simp add: fr_compact_def fr_state_defs)

lemma fr_on_src_apply: "m (fr_src fr) = (x, s) \<Longrightarrow> fr_on_src m fr = (x, fr\<lparr>fr_src := s\<rparr>)"
  by (simp add: fr_on_src_def)

context nix_reader
begin

lemma next_frame:
  assumes "fr_good good rest fr" and "\<not> fr_eof fr"
  obtains (last) s where "nr_read_uint64 rx (fr_src fr) = (Inr 0, s)" and "good s"
      and "deframe (rest (fr_src fr)) = Some ([], rest s)"
  | (more) d s1 s2 q t where "d \<noteq> []" and "nr_read_uint64 rx (fr_src fr) = (Inr (int (length d)), s1)"
      and "rx (length d) s1 = (Inr d, s2)" and "good s2"
      and "deframe (rest (fr_src fr)) = Some (d @ q, t)" and "deframe (rest s2) = Some (q, t)"
      and "length (rest s2) < length (rest (fr_src fr))"
proof -
  from assms have good: "good (fr_src fr)" by (simp add: fr_good_def)
  from assms obtain p t where p: "deframe (rest (fr_src fr)) = Some (p, t)"
    by (auto simp: fr_good_def)
  from p show thesis
  proof (cases rule: deframe_SomeE)
    case last
    from good last(2) obtain s where s: "nr_read_uint64 rx (fr_src fr) = (Inr (int 0), s)" "good s" "rest s = t"
      by (rule read_uint64_rest) simp
    show thesis by (rule that(1) [of s]) (use s p last(1) in simp_all)
  next
    case (more d q bs')
    from more(3) have split: "rest (fr_src fr) = uint64_bytes (length d) @ d @ bs'"
      by (simp add: frame_def)
    obtain s1 where s1: "nr_read_uint64 rx (fr_src fr) = (Inr (int (length d)), s1)" "good s1"
      "rest s1 = d @ bs'"
      by (rule read_uint64_rest [OF good split more(2)])
    obtain s2 where "rx (length d) s1 = (Inr d, s2)" "good s2" "rest s2 = bs'"
      by (rule rx_rest [OF s1(2,3)])
    with s1 p more show thesis by (intro that(2) [of d s1 s2 q t]) (simp_all add: frame_def)
  qed
qed

lemma fr_fill_result:
  assumes "fr_good good rest fr" and "n \<le> length (fr_buf fr) - fr_pos fr + fuel"
  shows "if n \<le> length (fr_rest rest fr)
    then \<exists>fr'. fr_fill rx fuel n fr = (Inr (), fr') \<and> fr_good good rest fr' \<and>
      fr_rest rest fr' = fr_rest rest fr \<and> fr_behind rest fr' = fr_behind rest fr \<and>
      n \<le> length (fr_buf fr') - fr_pos fr'
    else \<exists>fr'. fr_fill rx fuel n fr = (Inl EOFError, fr')"
  using assms
proof (induction fuel arbitrary: fr)
  case 0
  then show ?case by (auto simp: fr_fill.simps fr_rest_def)
next
  case (Suc k)
  consider (enough) "n \<le> length (fr_buf fr) - fr_pos fr"
    | (ended) "length (fr_buf fr) - fr_pos fr < n" "fr_eof fr"
    | (short) "length (fr_buf fr) - fr_pos fr < n" "\<not> fr_eof fr" by linarith
  then show ?case
  proof cases
    case enough
    with Suc.prems(1) show ?thesis by (auto simp: fr_fill.simps fr_rest_def)
  next
    case ended
    then show ?thesis by (auto simp: fr_fill.simps fr_rest_def)
  next
    case short
    from Suc.prems(1) short(2) show ?thesis
    proof (cases rule: next_frame)
      case (last s)
      then have "fr_fill rx (Suc k) n fr = (Inl EOFError, fr\<lparr>fr_src := s, fr_eof := True\<rparr>)"
        using short by (simp add: fr_fill.simps bind_apply fr_on_src_apply Let_def)
      moreover have "\<not> n \<le> length (fr_rest rest fr)" using last short by (simp add: fr_rest_def)
      ultimately show ?thesis by simp
    next
      case (more d s1 s2 q t)
      let ?fr = "fr\<lparr>fr_src := s2, fr_buf := fr_buf fr @ d\<rparr>"
      have step: "fr_fill rx (Suc k) n fr = fr_fill rx k n ?fr"
        using short more(1-3) by (subst fr_fill.simps) (simp add: bind_apply fr_on_src_apply)
      have pos: "fr_pos fr \<le> length (fr_buf fr)" using Suc.prems(1) by (simp add: fr_good_def)
      have good: "fr_good good rest ?fr" using more pos by (simp add: fr_good_def)
      have same: "fr_rest rest ?fr = fr_rest rest fr" "fr_behind rest ?fr = fr_behind rest fr"
        using more(5,6) short(2) pos by (simp_all add: fr_rest_def fr_behind_def)
      have fuel: "n \<le> length (fr_buf ?fr) - fr_pos ?fr + k"
        using Suc.prems(2) more(1) pos by (cases d) auto
      from Suc.IH [OF good fuel] show ?thesis unfolding step same .
    qed
  qed
qed

lemma fr_readexactly_ok:
  assumes "fr_good good rest fr" and "n \<le> length (fr_rest rest fr)"
  shows "\<exists>fr'. fr_readexactly rx n fr = (Inr (take n (fr_rest rest fr)), fr') \<and> fr_good good rest fr' \<and>
    fr_rest rest fr' = drop n (fr_rest rest fr) \<and> fr_behind rest fr' = fr_behind rest fr"
proof -
  have "n \<le> length (fr_buf fr) - fr_pos fr + Suc n" by simp
  from fr_fill_result [OF assms(1) this] assms(2) obtain fr1 where
    fr1: "fr_fill rx (Suc n) n fr = (Inr (), fr1)" "fr_good good rest fr1"
      "fr_rest rest fr1 = fr_rest rest fr" "fr_behind rest fr1 = fr_behind rest fr"
      "n \<le> length (fr_buf fr1) - fr_pos fr1"
    by auto
  let ?fr = "fr1\<lparr>fr_pos := fr_pos fr1 + n\<rparr>"
  have "take n (drop (fr_pos fr1) (fr_buf fr1)) = take n (fr_rest rest fr)"
    using fr1(5) unfolding fr1(3) [symmetric] by (simp add: fr_rest_def)
  moreover have "fr_good good rest ?fr" using fr1(2,5) by (auto simp: fr_good_def)
  moreover have "fr_rest rest ?fr = drop n (fr_rest rest fr)"
    using fr1(5) unfolding fr1(3) [symmetric] by (simp add: fr_rest_def add.commute)
  moreover have "fr_behind rest ?fr = fr_behind rest fr" unfolding fr1(4) [symmetric] by (simp add: fr_behind_def)
  ultimately show ?thesis
    using fr1(1) fr_compact_state [of good rest ?fr] by (simp add: fr_readexactly_def bind_apply Let_def)
qed

lemma fr_readexactly_eof:
  assumes "fr_good good rest fr" and "\<not> n \<le> length (fr_rest rest fr)"
  shows "\<exists>fr'. fr_readexactly rx n fr = (Inl EOFError, fr')"
proof -
  have "n \<le> length (fr_buf fr) - fr_pos fr + Suc n" by simp
  from fr_fill_result [OF assms(1) this] assms(2) show ?thesis
    by (auto simp: fr_readexactly_def bind_apply)
qed

lemma fr_next_chunk_result:
  assumes "fr_good good rest fr"
  shows "\<exists>k fr'. fr_next_chunk rx fr = (Inr (take k (fr_rest rest fr)), fr') \<and> k \<le> length (fr_rest rest fr) \<and>
    (fr_rest rest fr \<noteq> [] \<longrightarrow> 0 < k) \<and> fr_good good rest fr' \<and> fr_pos fr' = length (fr_buf fr') \<and>
    fr_rest rest fr' = drop k (fr_rest rest fr) \<and> fr_behind rest fr' = fr_behind rest fr"
proof -
  consider (buffered) "fr_pos fr < length (fr_buf fr)"
    | (ended) "\<not> fr_pos fr < length (fr_buf fr)" "fr_eof fr"
    | (frame) "\<not> fr_pos fr < length (fr_buf fr)" "\<not> fr_eof fr" by blast
  then show ?thesis
  proof cases
    case buffered
    then show ?thesis using assms
      by (intro exI [of _ "length (fr_buf fr) - fr_pos fr"]) (auto simp: fr_next_chunk_def fr_state_defs)
  next
    case ended
    then show ?thesis using assms
      by (intro exI [of _ 0]) (auto simp: fr_next_chunk_def fr_state_defs)
  next
    case frame
    from assms frame(2) show ?thesis
    proof (cases rule: next_frame)
      case (last s)
      with frame assms show ?thesis
        by (intro exI [of _ 0])
          (auto simp: fr_next_chunk_def fr_state_defs bind_apply fr_on_src_apply)
    next
      case (more d s1 s2 q t)
      with frame assms show ?thesis
        by (intro exI [of _ "length d"])
          (auto simp: fr_next_chunk_def fr_state_defs bind_apply fr_on_src_apply)
    qed
  qed
qed

lemma fr_unread_state:
  assumes "fr_good good rest fr"
  shows "fr_good good rest (fr_unread data fr) \<and> fr_rest rest (fr_unread data fr) = data @ fr_rest rest fr \<and>
    fr_behind rest (fr_unread data fr) = fr_behind rest fr"
  using assms by (simp add: fr_unread_def fr_state_defs)

lemma fr_read_result:
  assumes "fr_good good rest fr" and "0 < n"
  shows "\<exists>k fr'. fr_read rx n fr = (Inr (take k (fr_rest rest fr)), fr') \<and> k \<le> n \<and> k \<le> length (fr_rest rest fr) \<and>
    (fr_rest rest fr \<noteq> [] \<longrightarrow> 0 < k) \<and> fr_good good rest fr' \<and>
    fr_rest rest fr' = drop k (fr_rest rest fr) \<and> fr_behind rest fr' = fr_behind rest fr"
proof -
  from fr_next_chunk_result [OF assms(1)] obtain k fr1 where
    k: "fr_next_chunk rx fr = (Inr (take k (fr_rest rest fr)), fr1)" "k \<le> length (fr_rest rest fr)"
      "fr_rest rest fr \<noteq> [] \<longrightarrow> 0 < k" "fr_good good rest fr1"
      "fr_rest rest fr1 = drop k (fr_rest rest fr)" "fr_behind rest fr1 = fr_behind rest fr"
    by auto
  show ?thesis
  proof (cases "n < k")
    case True
    let ?again = "drop n (take k (fr_rest rest fr))"
    have "?again @ drop k (fr_rest rest fr) = drop n (fr_rest rest fr)"
      using True by (metis append_take_drop_id drop_drop drop_take le_add_diff_inverse2 less_imp_le)
    with True k fr_unread_state [OF k(4), of ?again] assms(2) show ?thesis
      by (intro exI [of _ n]) (auto simp: fr_read_def bind_apply min_absorb1 min_absorb2)
  next
    case False
    with k show ?thesis by (intro exI [of _ k]) (auto simp: fr_read_def bind_apply)
  qed
qed

lemma framed_reader: "nix_reader (fr_good good rest) (fr_rest rest) (fr_readexactly rx)"
proof
  fix n
  show "follows (fr_good good rest) (fr_rest rest) (fr_readexactly rx n) (stream_readexactly n)"
    by (rule followsI)
      (auto simp: stream_readexactly_stream_of dest: fr_readexactly_ok fr_readexactly_eof split: if_splits)
qed

lemma framed_source: "byte_source (fr_good good rest) (fr_rest rest) (fr_read rx)"
proof
  fix fr n
  assume "fr_good good rest fr" and "(0 :: nat) < n" and "fr_rest rest fr \<noteq> []"
  then show "\<exists>k fr'. 0 < k \<and> k \<le> n \<and> k \<le> length (fr_rest rest fr) \<and>
      fr_read rx n fr = (Inr (take k (fr_rest rest fr)), fr') \<and> fr_good good rest fr' \<and>
      fr_rest rest fr' = drop k (fr_rest rest fr)"
    using fr_read_result by blast
next
  fix fr n
  assume "fr_good good rest fr" and "(0 :: nat) < n" and "fr_rest rest fr = []"
  then show "\<exists>fr'. fr_read rx n fr = (Inr [], fr') \<and> fr_good good rest fr' \<and> fr_rest rest fr' = []"
    by (metis fr_read_result take_Nil drop_Nil)
qed

end

interpretation framed: ssh_channel "fr_good br_ok remaining" "fr_rest remaining"
    "fr_read br_readexactly" "fr_readexactly br_readexactly"
  by (intro ssh_channel.intro bytes_reader.framed_source bytes_reader.framed_reader)

section \<open>Skipping and draining a framed stream\<close>

context nix_reader
begin

lemma fr_skip_result:
  assumes "fr_good good rest fr"
  shows "if n \<le> length (fr_rest rest fr)
    then \<exists>fr'. fr_skip rx n fr = (Inr (), fr') \<and> fr_good good rest fr' \<and>
      fr_rest rest fr' = drop n (fr_rest rest fr) \<and> fr_behind rest fr' = fr_behind rest fr
    else \<exists>fr'. fr_skip rx n fr = (Inl EOFError, fr')"
  using assms
proof (induction n arbitrary: fr rule: less_induct)
  case (less n)
  from fr_next_chunk_result [OF less.prems] obtain k fr1 where
    k: "fr_next_chunk rx fr = (Inr (take k (fr_rest rest fr)), fr1)" "k \<le> length (fr_rest rest fr)"
      "fr_rest rest fr \<noteq> [] \<longrightarrow> 0 < k" "fr_good good rest fr1"
      "fr_rest rest fr1 = drop k (fr_rest rest fr)" "fr_behind rest fr1 = fr_behind rest fr"
    by auto
  let ?chunk = "take k (fr_rest rest fr)"
  show ?case
  proof (cases "n = 0 \<or> fr_rest rest fr = []")
    case True
    then show ?thesis using k(1) less.prems by (auto simp: fr_skip.simps)
  next
    case False
    let ?fr = "if k > n then fr_unread (drop n ?chunk) fr1 else fr1"
    have step: "fr_skip rx n fr = fr_skip rx (n - min n k) ?fr"
      using False k(1,2,3) by (subst fr_skip.simps) (auto simp: min_absorb2)
    have "drop n ?chunk @ drop k (fr_rest rest fr) = drop n (fr_rest rest fr)" if "n < k"
      using that by (metis append_take_drop_id drop_drop drop_take le_add_diff_inverse2 less_imp_le)
    then have fr: "fr_good good rest ?fr" "fr_rest rest ?fr = drop (min n k) (fr_rest rest fr)"
      "fr_behind rest ?fr = fr_behind rest fr"
      using k(4-6) fr_unread_state [OF k(4), of "drop n ?chunk"] by (auto simp: min_def)
    have smaller: "n - min n k < n" using False k(3) by auto
    have drops: "drop (n - min n k) (drop (min n k) (fr_rest rest fr)) = drop n (fr_rest rest fr)" by simp
    have bound: "n - min n k \<le> length (fr_rest rest ?fr) \<longleftrightarrow> n \<le> length (fr_rest rest fr)"
      unfolding fr(2) using k(2) by auto
    show ?thesis using less.IH [OF smaller fr(1)] unfolding step bound unfolding fr(2,3) drops .
  qed
qed

lemma fr_ensure_eof_result:
  assumes "fr_good good rest fr" and "length (rest (fr_src fr)) \<le> fuel"
  shows "\<exists>fr'. fr_ensure_eof rx fuel fr = (Inr (), fr') \<and> fr_eof fr' \<and> good (fr_src fr') \<and>
    rest (fr_src fr') = fr_behind rest fr"
  using assms
proof (induction fuel arbitrary: fr)
  case 0
  have False if "\<not> fr_eof fr"
    using that 0 length_deframe [of "[]"] by (auto simp: fr_good_def)
  with 0 show ?case by (auto simp: fr_ensure_eof.simps fr_good_def fr_behind_def)
next
  case (Suc k)
  show ?case
  proof (cases "fr_eof fr")
    case True
    with Suc.prems show ?thesis by (simp add: fr_ensure_eof.simps fr_good_def fr_behind_def)
  next
    case False
    from Suc.prems(1) False show ?thesis
    proof (cases rule: next_frame)
      case (last s)
      with False show ?thesis
        by (simp add: fr_ensure_eof.simps bind_apply fr_on_src_apply fr_behind_def)
    next
      case (more d s1 s2 q t)
      let ?fr = "fr\<lparr>fr_src := s2\<rparr>"
      have step: "fr_ensure_eof rx (Suc k) fr = fr_ensure_eof rx k ?fr"
        using False more(1-3) by (subst fr_ensure_eof.simps) (simp add: bind_apply fr_on_src_apply)
      have good: "fr_good good rest ?fr" using more Suc.prems(1) by (simp add: fr_good_def)
      have behind: "fr_behind rest ?fr = fr_behind rest fr"
        using more(5,6) False by (simp add: fr_behind_def)
      have "length (rest (fr_src ?fr)) \<le> k" using Suc.prems(2) more(7) by simp
      from Suc.IH [OF good this] show ?thesis unfolding step behind .
    qed
  qed
qed

end

section \<open>FramedWriter\<close>

text \<open>The writer has no state of its own: it writes through the writer underneath.\<close>

definition fw_write :: "'w write_op \<Rightarrow> 'w write_op" where
  "fw_write wr data = bind (nw_write_uint64 wr (int (length data))) (\<lambda>_. wr data)"

definition fw_write_bytes :: "'w write_op \<Rightarrow> 'w write_op" where
  "fw_write_bytes wr data = wr data"

definition fw_drain :: "('w, unit) eff \<Rightarrow> ('w, unit) eff" where
  "fw_drain dr = dr"

definition fw_finalize :: "'w write_op \<Rightarrow> ('w, unit) eff \<Rightarrow> ('w, unit) eff" where
  "fw_finalize wr dr = bind (nw_write_uint64 wr 0) (\<lambda>_. dr)"

section \<open>What takes the chunks of a transfer\<close>

text \<open>
  A \<open>chunk_sink\<close> appends \<open>emit c\<close> for every chunk \<open>c\<close>: a plain writer the chunk itself, a
  \<open>FramedWriter\<close> its frame. Draining loses and adds nothing.
\<close>

locale chunk_sink =
  fixes written :: "'w \<Rightarrow> bytes" and wr :: "'w write_op" and dr :: "('w, unit) eff"
    and emit :: "bytes \<Rightarrow> bytes"
  assumes write_emits: "length c < 2 ^ 64 \<Longrightarrow> \<exists>w'. wr c w = (Inr (), w') \<and> written w' = written w @ emit c"
    and drain_keeps: "\<exists>w'. dr w = (Inr (), w') \<and> written w' = written w"

locale draining_sink = byte_sink written wr
  for written :: "'w \<Rightarrow> bytes" and wr :: "'w write_op" +
  fixes dr :: "('w, unit) eff"
  assumes drain_same: "\<exists>w'. dr w = (Inr (), w') \<and> written w' = written w"
begin

lemma fw_write_emits:
  assumes "length c < 2 ^ 64"
  shows "\<exists>w'. fw_write wr c w = (Inr (), w') \<and> written w' = written w @ frame c"
proof -
  have "int (length c) < 2 ^ 64" using assms by (metis of_nat_less_iff of_nat_numeral of_nat_power)
  then obtain w1 where w1: "nw_write_uint64 wr (int (length c)) w = (Inr (), w1)"
    "written w1 = written w @ uint64_bytes (length c)"
    using write_uint64_appends [of "int (length c)" w] by auto
  obtain w2 where "wr c w1 = (Inr (), w2)" "written w2 = written w1 @ c" using write_appends by blast
  with w1 show ?thesis by (simp add: fw_write_def bind_apply frame_def)
qed

lemma fw_finalize_emits:
  "\<exists>w'. fw_finalize wr dr w = (Inr (), w') \<and> written w' = written w @ uint64_bytes 0"
proof -
  obtain w1 where w1: "nw_write_uint64 wr 0 w = (Inr (), w1)" "written w1 = written w @ uint64_bytes 0"
    using write_uint64_appends [of 0 w] by auto
  obtain w2 where "dr w1 = (Inr (), w2)" "written w2 = written w1" using drain_same by blast
  with w1 show ?thesis by (simp add: fw_finalize_def bind_apply)
qed

end

sublocale draining_sink \<subseteq> plain: chunk_sink written wr dr "\<lambda>c. c"
  using write_appends drain_same by unfold_locales auto

sublocale draining_sink \<subseteq> fw: chunk_sink written "fw_write wr" "fw_drain dr" frame
  using fw_write_emits drain_same by unfold_locales (auto simp: fw_drain_def)

interpretation coalescing: draining_sink nw_written nw_write nw_drain
  by unfold_locales simp

end
