(* ===== verification/Transfers.thy ===== *)
theory Transfers
  imports Framed
begin

text \<open>
  The transfers of \<open>pynixd/wire.py\<close>: \<open>forward_framed\<close> and \<open>send_framed\<close>, which cut a payload into
  frames of their own, and \<open>send_raw\<close> and \<open>forward_raw\<close>, which move a known number of bytes.
  The state of a transfer is its source, its destination and what the two callbacks were given:
  the sizes for \<open>on_bytes\<close>, the chunks for \<open>on_chunk\<close>.
\<close>

section \<open>The state of a transfer\<close>

record ('s, 'w) pump =
  pm_src :: 's
  pm_dst :: 'w
  pm_sizes :: "nat list"
  pm_chunks :: "bytes list"

definition pm_on_src :: "('s, 'a) eff \<Rightarrow> (('s, 'w) pump, 'a) eff" where
  "pm_on_src m = (\<lambda>p. case m (pm_src p) of (x, s) \<Rightarrow> (x, p\<lparr>pm_src := s\<rparr>))"

definition pm_on_dst :: "('w, 'a) eff \<Rightarrow> (('s, 'w) pump, 'a) eff" where
  "pm_on_dst m = (\<lambda>p. case m (pm_dst p) of (x, w) \<Rightarrow> (x, p\<lparr>pm_dst := w\<rparr>))"

definition on_bytes :: "nat \<Rightarrow> (('s, 'w) pump, unit) eff" where
  "on_bytes n = (\<lambda>p. (Inr (), p\<lparr>pm_sizes := pm_sizes p @ [n]\<rparr>))"

definition on_chunk :: "bytes \<Rightarrow> (('s, 'w) pump, unit) eff" where
  "on_chunk c = (\<lambda>p. (Inr (), p\<lparr>pm_chunks := pm_chunks p @ [c]\<rparr>))"

section \<open>Framed transfers\<close>

text \<open>One outgoing frame: its size, the gathered chunks, a drain and the report.\<close>

definition flush_frame :: "'w write_op \<Rightarrow> ('w, unit) eff \<Rightarrow> bytes list \<Rightarrow> nat \<Rightarrow> (('s, 'w) pump, unit) eff" where
  "flush_frame wr dr pending pending_size =
     (if pending_size = 0 then ret ()
      else bind (pm_on_dst (nw_write_uint64 wr (int pending_size))) (\<lambda>_.
           bind (pm_on_dst (wr (if length pending = 1 then pending ! 0 else concat pending))) (\<lambda>_.
           bind (pm_on_dst dr) (\<lambda>_.
           on_bytes pending_size))))"

text \<open>A turn of either loop takes at least a byte of the source, so its length bounds the fuel.\<close>

fun forward_framed_loop ::
    "'s readexactly \<Rightarrow> 'w write_op \<Rightarrow> ('w, unit) eff \<Rightarrow> nat \<Rightarrow> nat \<Rightarrow> bytes list \<Rightarrow> nat \<Rightarrow> (('s, 'w) pump, unit) eff" where
  "forward_framed_loop rx wr dr chunk_size 0 pending pending_size = raise OutOfFuel"
| "forward_framed_loop rx wr dr chunk_size (Suc fuel) pending pending_size =
     bind (pm_on_src (nr_read_uint64 rx)) (\<lambda>size.
     if size = 0 then flush_frame wr dr pending pending_size
     else bind (pm_on_src (rx (nat size))) (\<lambda>data.
       let pending' = pending @ [data]; pending_size' = pending_size + nat size
       in if pending_size' \<ge> chunk_size
          then bind (flush_frame wr dr pending' pending_size') (\<lambda>_.
               forward_framed_loop rx wr dr chunk_size fuel [] 0)
          else forward_framed_loop rx wr dr chunk_size fuel pending' pending_size'))"

definition forward_framed ::
    "'s readexactly \<Rightarrow> 'w write_op \<Rightarrow> ('w, unit) eff \<Rightarrow> nat \<Rightarrow> nat \<Rightarrow> (('s, 'w) pump, unit) eff" where
  "forward_framed rx wr dr chunk_size fuel =
     bind (forward_framed_loop rx wr dr chunk_size fuel [] 0) (\<lambda>_.
     bind (pm_on_dst (nw_write_uint64 wr 0)) (\<lambda>_.
     pm_on_dst dr))"

fun send_framed_loop ::
    "(nat \<Rightarrow> ('s, bytes) eff) \<Rightarrow> 'w write_op \<Rightarrow> ('w, unit) eff \<Rightarrow> nat \<Rightarrow> nat \<Rightarrow> bytes list \<Rightarrow> nat \<Rightarrow> (('s, 'w) pump, unit) eff" where
  "send_framed_loop rd wr dr chunk_size 0 pending pending_size = raise OutOfFuel"
| "send_framed_loop rd wr dr chunk_size (Suc fuel) pending pending_size =
     bind (pm_on_src (rd (chunk_size - pending_size))) (\<lambda>data.
     let finished = (data = []);
         pending' = (if finished then pending else pending @ [data]);
         pending_size' = pending_size + length data
     in bind (if pending_size' \<noteq> 0 \<and> (finished \<or> pending_size' \<ge> chunk_size)
              then bind (flush_frame wr dr pending' pending_size') (\<lambda>_. ret ([], 0))
              else ret (pending', pending_size')) (\<lambda>(p, n).
        if finished then ret () else send_framed_loop rd wr dr chunk_size fuel p n))"

definition send_framed ::
    "(nat \<Rightarrow> ('s, bytes) eff) \<Rightarrow> 'w write_op \<Rightarrow> ('w, unit) eff \<Rightarrow> nat \<Rightarrow> nat \<Rightarrow> (('s, 'w) pump, unit) eff" where
  "send_framed rd wr dr chunk_size fuel =
     bind (send_framed_loop rd wr dr chunk_size fuel [] 0) (\<lambda>_.
     bind (pm_on_dst (nw_write_uint64 wr 0)) (\<lambda>_.
     pm_on_dst dr))"

section \<open>Raw transfers\<close>

function send_raw ::
    "(nat \<Rightarrow> ('s, bytes) eff) \<Rightarrow> 'w write_op \<Rightarrow> ('w, unit) eff \<Rightarrow> nat \<Rightarrow> nat \<Rightarrow> (('s, 'w) pump, unit) eff" where
  "send_raw rd wr dr chunk_size left p =
     (if left = 0 then (Inr (), p)
      else case pm_on_src (rd (min left chunk_size)) p of
          (Inl e, p1) \<Rightarrow> (Inl e, p1)
        | (Inr chunk, p1) \<Rightarrow>
            if chunk = [] then (Inl EOFError, p1)
            else bind (pm_on_dst (wr chunk)) (\<lambda>_. bind (pm_on_dst dr) (\<lambda>_.
                 bind (on_bytes (length chunk)) (\<lambda>_.
                 send_raw rd wr dr chunk_size (left - length chunk)))) p1)"
  by pat_completeness auto
termination
  by (relation "measure (\<lambda>(rd, wr, dr, chunk_size, left, p). left)") (auto simp: neq_Nil_conv)

text \<open>With a positive chunk size each turn takes a byte, so as many turns as bytes are enough.\<close>

fun forward_raw_loop ::
    "'s readexactly \<Rightarrow> 'w write_op \<Rightarrow> ('w, unit) eff \<Rightarrow> nat \<Rightarrow> nat \<Rightarrow> nat \<Rightarrow> (('s, 'w) pump, unit) eff" where
  "forward_raw_loop rx wr dr chunk_size fuel left =
     (if left = 0 then ret ()
      else case fuel of 0 \<Rightarrow> raise OutOfFuel
        | Suc k \<Rightarrow>
          let to_read = min left chunk_size in
          bind (pm_on_src (rx to_read)) (\<lambda>chunk.
          bind (on_chunk chunk) (\<lambda>_.
          bind (pm_on_dst (wr chunk)) (\<lambda>_.
          bind (pm_on_dst dr) (\<lambda>_.
          bind (on_bytes (length chunk)) (\<lambda>_.
          forward_raw_loop rx wr dr chunk_size k (left - to_read)))))))"

definition forward_raw ::
    "'s readexactly \<Rightarrow> 'w write_op \<Rightarrow> ('w, unit) eff \<Rightarrow> nat \<Rightarrow> nat \<Rightarrow> (('s, 'w) pump, unit) eff" where
  "forward_raw rx wr dr chunk_size nbytes = forward_raw_loop rx wr dr chunk_size nbytes nbytes"

declare send_raw.simps [simp del] forward_raw_loop.simps [simp del]

section \<open>Lifting to the state of a transfer\<close>

lemma pm_on_src_Inr: "m (pm_src p) = (Inr x, s) \<Longrightarrow> pm_on_src m p = (Inr x, p\<lparr>pm_src := s\<rparr>)"
  by (simp add: pm_on_src_def)

lemma pm_on_src_Inl: "m (pm_src p) = (Inl e, s) \<Longrightarrow> pm_on_src m p = (Inl e, p\<lparr>pm_src := s\<rparr>)"
  by (simp add: pm_on_src_def)

lemma pm_on_dst_Inr: "m (pm_dst p) = (Inr x, w) \<Longrightarrow> pm_on_dst m p = (Inr x, p\<lparr>pm_dst := w\<rparr>)"
  by (simp add: pm_on_dst_def)

lemma on_bytes_apply [simp]: "on_bytes n p = (Inr (), p\<lparr>pm_sizes := pm_sizes p @ [n]\<rparr>)"
  by (simp add: on_bytes_def)

lemma on_chunk_apply [simp]: "on_chunk c p = (Inr (), p\<lparr>pm_chunks := pm_chunks p @ [c]\<rparr>)"
  by (simp add: on_chunk_def)

lemma concat_single_or: "(if length xs = 1 then xs ! 0 else concat xs) = concat xs"
  by (auto simp: length_Suc_conv)

lemma nat_less_2_64: "n < 2 ^ 64 \<Longrightarrow> int n < 2 ^ 64"
  by (metis of_nat_less_iff of_nat_numeral of_nat_power)

section \<open>What a framed transfer sends\<close>

context draining_sink
begin

lemma flush_frame_emits:
  assumes "n = length (concat pending)" and "n < 2 ^ 64"
  shows "\<exists>w. flush_frame wr dr pending n p = (Inr (), if n = 0 then p else
      p\<lparr>pm_dst := w, pm_sizes := pm_sizes p @ [n]\<rparr>) \<and>
    (n \<noteq> 0 \<longrightarrow> written w = written (pm_dst p) @ frame (concat pending))"
proof (cases "n = 0")
  case True
  then show ?thesis by (simp add: flush_frame_def)
next
  case False
  obtain w1 where w1: "nw_write_uint64 wr (int n) (pm_dst p) = (Inr (), w1)"
    "written w1 = written (pm_dst p) @ uint64_bytes n"
    using write_uint64_appends [of "int n" "pm_dst p"] nat_less_2_64 [OF assms(2)] by auto
  obtain w2 where w2: "wr (concat pending) w1 = (Inr (), w2)" "written w2 = written w1 @ concat pending"
    using write_appends by blast
  obtain w3 where w3: "dr w2 = (Inr (), w3)" "written w3 = written w2" using drain_same by blast
  have "flush_frame wr dr pending n p = (Inr (), p\<lparr>pm_dst := w3, pm_sizes := pm_sizes p @ [n]\<rparr>)"
    unfolding flush_frame_def concat_single_or using False w1(1) w2(1) w3(1)
    by (simp add: bind_apply pm_on_dst_def)
  with w1(2) w2(2) w3(2) False assms(1) show ?thesis by (auto simp: frame_def)
qed

lemma flush_frame_ok:
  assumes "n = length (concat pending)" and "n < 2 ^ 64"
  obtains p' where "flush_frame wr dr pending n p = (Inr (), p')" and "pm_src p' = pm_src p"
    and "n = 0 \<longrightarrow> p' = p"
    and "n \<noteq> 0 \<longrightarrow> written (pm_dst p') = written (pm_dst p) @ frame (concat pending)"
    and "n \<noteq> 0 \<longrightarrow> pm_sizes p' = pm_sizes p @ [n]"
  using flush_frame_emits [OF assms, of p] by (cases "n = 0") (auto intro: that)

lemma end_frame_emits:
  "\<exists>w. bind (pm_on_dst (nw_write_uint64 wr 0)) (\<lambda>_. pm_on_dst dr) p = (Inr (), p\<lparr>pm_dst := w\<rparr>) \<and>
    written w = written (pm_dst p) @ uint64_bytes 0"
proof -
  obtain w1 where w1: "nw_write_uint64 wr 0 (pm_dst p) = (Inr (), w1)"
    "written w1 = written (pm_dst p) @ uint64_bytes 0"
    using write_uint64_appends [of 0 "pm_dst p"] by auto
  obtain w2 where w2: "dr w1 = (Inr (), w2)" "written w2 = written w1" using drain_same by blast
  have "bind (pm_on_dst (nw_write_uint64 wr 0)) (\<lambda>_. pm_on_dst dr) p = (Inr (), p\<lparr>pm_dst := w2\<rparr>)"
    using w1(1) w2(1) by (simp add: bind_apply pm_on_dst_def)
  with w1(2) w2(2) show ?thesis by auto
qed

end

text \<open>
  \<open>cut_into n outs p p'\<close>: between \<open>p\<close> and \<open>p'\<close> the destination got the frames of \<open>outs\<close>, each was
  reported, none is empty, and all but the last hold at least \<open>n\<close> bytes.
\<close>

definition cut_into :: "('w \<Rightarrow> bytes) \<Rightarrow> nat \<Rightarrow> bytes list \<Rightarrow> ('s, 'w) pump \<Rightarrow> ('s, 'w) pump \<Rightarrow> bool" where
  "cut_into written n outs p p' \<longleftrightarrow> frames_ok outs \<and> (\<forall>d \<in> set (butlast outs). n \<le> length d) \<and>
     written (pm_dst p') = written (pm_dst p) @ concat (map frame outs) \<and>
     pm_sizes p' = pm_sizes p @ map length outs"

lemma cut_into_Nil: "cut_into written n [] p (p\<lparr>pm_src := s\<rparr>)"
  by (simp add: cut_into_def frames_ok_def)

lemma cut_into_Cons:
  assumes "cut_into written n outs p1 p2" and "d \<noteq> []" and "length d < 2 ^ 64" and "n \<le> length d"
    and "written (pm_dst p1) = written (pm_dst p) @ frame d" and "pm_sizes p1 = pm_sizes p @ [length d]"
  shows "cut_into written n (d # outs) p p2"
  using assms by (auto simp: cut_into_def frames_ok_def)

lemma cut_into_single:
  assumes "d \<noteq> []" and "length d < 2 ^ 64"
    and "written (pm_dst p1) = written (pm_dst p) @ frame d" and "pm_sizes p1 = pm_sizes p @ [length d]"
  shows "cut_into written n [d] p p1"
  using assms by (auto simp: cut_into_def frames_ok_def)

locale framed_pump = nix_reader good rest rx + draining_sink written wr dr
  for good :: "'s \<Rightarrow> bool" and rest :: "'s \<Rightarrow> bytes" and rx :: "'s readexactly"
    and written :: "'w \<Rightarrow> bytes" and wr :: "'w write_op" and dr :: "('w, unit) eff"
begin

lemma forward_framed_loop_result:
  assumes "good (pm_src p)" and "rest (pm_src p) = frames ds @ t" and "frames_ok ds"
    and "n = length (concat pending)" and "n + length (concat ds) < 2 ^ 64" and "length ds < fuel"
  shows "\<exists>p' outs. forward_framed_loop rx wr dr chunk fuel pending n p = (Inr (), p') \<and>
    good (pm_src p') \<and> rest (pm_src p') = t \<and> concat outs = concat pending @ concat ds \<and>
    cut_into written chunk outs p p'"
  using assms
proof (induction ds arbitrary: p pending n fuel)
  case Nil
  then obtain k where fuel: "fuel = Suc k" by (cases fuel) auto
  from Nil.prems(2) have "rest (pm_src p) = uint64_bytes 0 @ t" by (simp add: frames_def)
  then obtain s where s: "nr_read_uint64 rx (pm_src p) = (Inr (int 0), s)" "good s" "rest s = t"
    by (rule read_uint64_rest [OF Nil.prems(1)]) simp
  let ?p = "p\<lparr>pm_src := s\<rparr>"
  from Nil.prems(5) have "n < 2 ^ 64" by simp
  then obtain p' where p': "flush_frame wr dr pending n ?p = (Inr (), p')" "pm_src p' = pm_src ?p"
    "n = 0 \<longrightarrow> p' = ?p" "n \<noteq> 0 \<longrightarrow> written (pm_dst p') = written (pm_dst ?p) @ frame (concat pending)"
    "n \<noteq> 0 \<longrightarrow> pm_sizes p' = pm_sizes ?p @ [n]"
    by (rule flush_frame_ok [OF Nil.prems(4)])
  have run: "forward_framed_loop rx wr dr chunk fuel pending n p = (Inr (), p')"
    using s(1) p'(1) by (simp add: fuel bind_apply pm_on_src_Inr)
  show ?case
  proof (cases "n = 0")
    case True
    then have "concat pending = []" using Nil.prems(4) by simp
    with True run s p'(3) show ?thesis
      by (intro exI [of _ p'] exI [of _ "[]"]) (simp add: cut_into_Nil)
  next
    case False
    then have "cut_into written chunk [concat pending] p p'"
      using p'(4,5) Nil.prems(4,5) by (intro cut_into_single) auto
    with run s p'(2) show ?thesis by (intro exI [of _ p'] exI [of _ "[concat pending]"]) simp
  qed
next
  case (Cons d ds)
  then obtain k where fuel: "fuel = Suc k" by (cases fuel) auto
  from Cons.prems(3) have d: "d \<noteq> []" "length d < 2 ^ 64" and ds: "frames_ok ds" by (auto simp: frames_ok_def)
  from Cons.prems(2) have r: "rest (pm_src p) = uint64_bytes (length d) @ d @ frames ds @ t"
    by (simp add: frames_def frame_def)
  obtain s1 where s1: "nr_read_uint64 rx (pm_src p) = (Inr (int (length d)), s1)" "good s1"
    "rest s1 = d @ frames ds @ t"
    by (rule read_uint64_rest [OF Cons.prems(1) r d(2)])
  obtain s2 where s2: "rx (length d) s1 = (Inr d, s2)" "good s2" "rest s2 = frames ds @ t"
    by (rule rx_rest [OF s1(2,3)])
  let ?pending = "pending @ [d]"
  let ?n = "n + length d"
  let ?p = "p\<lparr>pm_src := s2\<rparr>"
  have n: "?n = length (concat ?pending)" "?n + length (concat ds) < 2 ^ 64" using Cons.prems(4,5) by simp_all
  have step: "forward_framed_loop rx wr dr chunk fuel pending n p =
      (if chunk \<le> ?n then bind (flush_frame wr dr ?pending ?n) (\<lambda>_. forward_framed_loop rx wr dr chunk k [] 0) ?p
       else forward_framed_loop rx wr dr chunk k ?pending ?n ?p)"
    using s1(1) s2(1) d(1) by (simp add: fuel bind_apply pm_on_src_Inr)
  show ?case
  proof (cases "chunk \<le> ?n")
    case True
    from n(2) have "?n < 2 ^ 64" by simp
    then obtain p1 where p1: "flush_frame wr dr ?pending ?n ?p = (Inr (), p1)" "pm_src p1 = pm_src ?p"
      "?n = 0 \<longrightarrow> p1 = ?p" "?n \<noteq> 0 \<longrightarrow> written (pm_dst p1) = written (pm_dst ?p) @ frame (concat ?pending)"
      "?n \<noteq> 0 \<longrightarrow> pm_sizes p1 = pm_sizes ?p @ [?n]"
      by (rule flush_frame_ok [OF n(1)])
    have "good (pm_src p1)" "rest (pm_src p1) = frames ds @ t" using s2 p1(2) by simp_all
    from Cons.IH [OF this ds, of 0 "[]" k] Cons.prems(5,6) fuel obtain p' outs where
      p': "forward_framed_loop rx wr dr chunk k [] 0 p1 = (Inr (), p')" "good (pm_src p')"
        "rest (pm_src p') = t" "concat outs = concat ds" "cut_into written chunk outs p1 p'"
      by auto
    have "cut_into written chunk (concat ?pending # outs) p p'"
      using p'(5) by (rule cut_into_Cons) (use d n True p1(4,5) \<open>?n < 2 ^ 64\<close> in auto)
    with p' p1(1) True step show ?thesis
      by (intro exI [of _ p'] exI [of _ "concat ?pending # outs"]) (simp add: bind_apply)
  next
    case False
    from Cons.IH [OF _ _ ds n, of ?p k] s2 Cons.prems(6) fuel obtain p' outs where
      p': "forward_framed_loop rx wr dr chunk k ?pending ?n ?p = (Inr (), p')" "good (pm_src p')"
        "rest (pm_src p') = t" "concat outs = concat ?pending @ concat ds" "cut_into written chunk outs ?p p'"
      by auto
    then show ?thesis using False step
      by (intro exI [of _ p'] exI [of _ outs]) (simp add: cut_into_def)
  qed
qed

lemma forward_framed_result:
  assumes "good (pm_src p)" and "rest (pm_src p) = frames ds @ t" and "frames_ok ds"
    and "length (concat ds) < 2 ^ 64" and "length ds < fuel"
  shows "\<exists>p' outs. forward_framed rx wr dr chunk fuel p = (Inr (), p') \<and>
    good (pm_src p') \<and> rest (pm_src p') = t \<and> concat outs = concat ds \<and> frames_ok outs \<and>
    (\<forall>d \<in> set (butlast outs). chunk \<le> length d) \<and>
    written (pm_dst p') = written (pm_dst p) @ frames outs \<and> pm_sizes p' = pm_sizes p @ map length outs"
proof -
  from forward_framed_loop_result [OF assms(1-3), of 0 "[]" fuel chunk] assms(4,5) obtain p1 outs where
    p1: "forward_framed_loop rx wr dr chunk fuel [] 0 p = (Inr (), p1)" "good (pm_src p1)"
      "rest (pm_src p1) = t" "concat outs = concat ds" "cut_into written chunk outs p p1"
    by auto
  from end_frame_emits [of p1] p1(1) obtain w where
    "forward_framed rx wr dr chunk fuel p = (Inr (), p1\<lparr>pm_dst := w\<rparr>)"
    "written w = written (pm_dst p1) @ uint64_bytes 0"
    by (auto simp: forward_framed_def bind_Inr)
  with p1 show ?thesis
    by (intro exI [of _ "p1\<lparr>pm_dst := w\<rparr>"] exI [of _ outs]) (simp add: cut_into_def frames_def)
qed

end

interpretation bytes_to_coalescing: framed_pump br_ok remaining br_readexactly nw_written nw_write nw_drain
  by unfold_locales

locale source_pump = byte_source good flow rd + draining_sink written wr dr
  for good :: "'s \<Rightarrow> bool" and flow :: "'s \<Rightarrow> bytes" and rd :: "nat \<Rightarrow> ('s, bytes) eff"
    and written :: "'w \<Rightarrow> bytes" and wr :: "'w write_op" and dr :: "('w, unit) eff"
begin

lemma send_framed_loop_result:
  assumes "good (pm_src p)" and "n = length (concat pending)" and "n < chunk"
    and "n + length (flow (pm_src p)) < 2 ^ 64" and "length (flow (pm_src p)) < fuel"
  shows "\<exists>p' outs. send_framed_loop rd wr dr chunk fuel pending n p = (Inr (), p') \<and>
    good (pm_src p') \<and> flow (pm_src p') = [] \<and> concat outs = concat pending @ flow (pm_src p) \<and>
    (\<forall>d \<in> set outs. length d \<le> chunk) \<and> cut_into written chunk outs p p'"
  using assms
proof (induction fuel arbitrary: p pending n)
  case 0
  then show ?case by simp
next
  case (Suc k)
  have ask: "0 < chunk - n" using Suc.prems(3) by simp
  show ?case
  proof (cases "flow (pm_src p) = []")
    case True
    from read_end [OF Suc.prems(1) ask True] obtain s where
      s: "rd (chunk - n) (pm_src p) = (Inr [], s)" "good s" "flow s = []" by blast
    let ?p = "p\<lparr>pm_src := s\<rparr>"
    show ?thesis
    proof (cases "n = 0")
      case zero: True
      then have "concat pending = []" using Suc.prems(2) by simp
      moreover have "send_framed_loop rd wr dr chunk (Suc k) pending n p = (Inr (), ?p)"
        using s(1) zero by (simp add: bind_apply pm_on_src_Inr)
      ultimately show ?thesis using s True
        by (intro exI [of _ ?p] exI [of _ "[]"]) (simp add: cut_into_Nil)
    next
      case False
      from Suc.prems(4) have "n < 2 ^ 64" by simp
      then obtain p' where p': "flush_frame wr dr pending n ?p = (Inr (), p')" "pm_src p' = pm_src ?p"
        "n = 0 \<longrightarrow> p' = ?p" "n \<noteq> 0 \<longrightarrow> written (pm_dst p') = written (pm_dst ?p) @ frame (concat pending)"
        "n \<noteq> 0 \<longrightarrow> pm_sizes p' = pm_sizes ?p @ [n]"
        by (rule flush_frame_ok [OF Suc.prems(2)])
      have run: "send_framed_loop rd wr dr chunk (Suc k) pending n p = (Inr (), p')"
        using s(1) False p'(1) by (simp add: bind_apply pm_on_src_Inr)
      have "cut_into written chunk [concat pending] p p'"
        using p'(4,5) Suc.prems(2,4) False by (intro cut_into_single) auto
      with run s p'(2) True Suc.prems(2,3) show ?thesis
        by (intro exI [of _ p'] exI [of _ "[concat pending]"]) simp
    qed
  next
    case False
    from read_some [OF Suc.prems(1) ask False] obtain j s where
      s: "0 < j" "j \<le> chunk - n" "j \<le> length (flow (pm_src p))"
        "rd (chunk - n) (pm_src p) = (Inr (take j (flow (pm_src p))), s)" "good s"
        "flow s = drop j (flow (pm_src p))"
      by blast
    let ?d = "take j (flow (pm_src p))"
    let ?pending = "pending @ [?d]"
    let ?p = "p\<lparr>pm_src := s\<rparr>"
    have d: "?d \<noteq> []" "length ?d = j" using s(1,3) False by auto
    have n: "n + j = length (concat ?pending)" using d(2) Suc.prems(2) by simp
    have all: "?d @ flow s = flow (pm_src p)" using s(6) by simp
    have step: "send_framed_loop rd wr dr chunk (Suc k) pending n p =
        (if chunk \<le> n + j then bind (flush_frame wr dr ?pending (n + j)) (\<lambda>_. send_framed_loop rd wr dr chunk k [] 0) ?p
         else send_framed_loop rd wr dr chunk k ?pending (n + j) ?p)"
      using s(1,4) d by (auto simp: bind_apply pm_on_src_Inr Let_def split: prod.splits sum.splits)
    show ?thesis
    proof (cases "chunk \<le> n + j")
      case True
      have "n + j < 2 ^ 64" using Suc.prems(4) s(3) by linarith
      then obtain p1 where p1: "flush_frame wr dr ?pending (n + j) ?p = (Inr (), p1)" "pm_src p1 = pm_src ?p"
        "n + j = 0 \<longrightarrow> p1 = ?p"
        "n + j \<noteq> 0 \<longrightarrow> written (pm_dst p1) = written (pm_dst ?p) @ frame (concat ?pending)"
        "n + j \<noteq> 0 \<longrightarrow> pm_sizes p1 = pm_sizes ?p @ [n + j]"
        by (rule flush_frame_ok [OF n])
      have "good (pm_src p1)" "length (flow (pm_src p1)) < k" "0 + length (flow (pm_src p1)) < 2 ^ 64" "0 < chunk"
        using p1(2) s Suc.prems by auto
      from Suc.IH [OF this(1) _ this(4,3,2), of "[]"] p1(2) obtain p' outs where
        p': "send_framed_loop rd wr dr chunk k [] 0 p1 = (Inr (), p')" "good (pm_src p')"
          "flow (pm_src p') = []" "concat outs = flow s" "\<forall>d \<in> set outs. length d \<le> chunk"
          "cut_into written chunk outs p1 p'"
        by auto
      have "cut_into written chunk (concat ?pending # outs) p p'"
        using p'(6) by (rule cut_into_Cons) (use d n True p1(4,5) \<open>n + j < 2 ^ 64\<close> s(1) in auto)
      moreover have "length (concat ?pending) \<le> chunk" using n s(2) Suc.prems(3) by simp
      ultimately show ?thesis using p' p1(1) True step all
        by (intro exI [of _ p'] exI [of _ "concat ?pending # outs"]) (simp add: bind_Inr)
    next
      case False
      have "good (pm_src ?p)" "n + j < chunk" "n + j + length (flow (pm_src ?p)) < 2 ^ 64"
        "length (flow (pm_src ?p)) < k"
        using s Suc.prems(4,5) False by simp_all
      from Suc.IH [OF this(1) n this(2-4)] obtain p' outs where
        p': "send_framed_loop rd wr dr chunk k ?pending (n + j) ?p = (Inr (), p')" "good (pm_src p')"
          "flow (pm_src p') = []" "concat outs = concat ?pending @ flow s"
          "\<forall>d \<in> set outs. length d \<le> chunk" "cut_into written chunk outs ?p p'"
        by auto
      then show ?thesis using False step all
        by (intro exI [of _ p'] exI [of _ outs]) (simp add: cut_into_def)
    qed
  qed
qed

lemma send_framed_result:
  assumes "good (pm_src p)" and "0 < chunk" and "length (flow (pm_src p)) < 2 ^ 64"
    and "length (flow (pm_src p)) < fuel"
  shows "\<exists>p' outs. send_framed rd wr dr chunk fuel p = (Inr (), p') \<and> flow (pm_src p') = [] \<and>
    concat outs = flow (pm_src p) \<and> frames_ok outs \<and> (\<forall>d \<in> set outs. length d \<le> chunk) \<and>
    (\<forall>d \<in> set (butlast outs). length d = chunk) \<and>
    written (pm_dst p') = written (pm_dst p) @ frames outs \<and> pm_sizes p' = pm_sizes p @ map length outs"
proof -
  from send_framed_loop_result [OF assms(1), of 0 "[]" chunk fuel] assms(2-4) obtain p1 outs where
    p1: "send_framed_loop rd wr dr chunk fuel [] 0 p = (Inr (), p1)" "flow (pm_src p1) = []"
      "concat outs = flow (pm_src p)" "\<forall>d \<in> set outs. length d \<le> chunk" "cut_into written chunk outs p p1"
    by auto
  from end_frame_emits [of p1] p1(1) obtain w where
    "send_framed rd wr dr chunk fuel p = (Inr (), p1\<lparr>pm_dst := w\<rparr>)"
    "written w = written (pm_dst p1) @ uint64_bytes 0"
    by (auto simp: send_framed_def bind_Inr)
  moreover have "\<forall>d \<in> set (butlast outs). length d = chunk"
    using p1(4,5) unfolding cut_into_def by (meson in_set_butlastD le_antisym)
  ultimately show ?thesis using p1
    by (intro exI [of _ "p1\<lparr>pm_dst := w\<rparr>"] exI [of _ outs]) (simp add: cut_into_def frames_def)
qed

end

section \<open>What a raw transfer sends\<close>

text \<open>\<open>carried emit cs p p'\<close>: the chunks \<open>cs\<close> went to the destination and their sizes were reported.\<close>

definition carried :: "('w \<Rightarrow> bytes) \<Rightarrow> (bytes \<Rightarrow> bytes) \<Rightarrow> bytes list \<Rightarrow> ('s, 'w) pump \<Rightarrow> ('s, 'w) pump \<Rightarrow> bool" where
  "carried written emit cs p p' \<longleftrightarrow>
     written (pm_dst p') = written (pm_dst p) @ concat (map emit cs) \<and>
     pm_sizes p' = pm_sizes p @ map length cs"

context chunk_sink
begin

lemma put_chunk:
  assumes "length c < 2 ^ 64"
  obtains w where "bind (pm_on_dst (wr c)) (\<lambda>_. bind (pm_on_dst dr) (\<lambda>_. bind (on_bytes (length c)) (\<lambda>_. f))) p =
      f (p\<lparr>pm_dst := w, pm_sizes := pm_sizes p @ [length c]\<rparr>)"
    and "written w = written (pm_dst p) @ emit c"
proof -
  obtain w1 where w1: "wr c (pm_dst p) = (Inr (), w1)" "written w1 = written (pm_dst p) @ emit c"
    using write_emits [OF assms] by blast
  obtain w2 where w2: "dr w1 = (Inr (), w2)" "written w2 = written w1" using drain_keeps by blast
  have "bind (pm_on_dst (wr c)) (\<lambda>_. bind (pm_on_dst dr) (\<lambda>_. bind (on_bytes (length c)) (\<lambda>_. f))) p =
      f (p\<lparr>pm_dst := w2, pm_sizes := pm_sizes p @ [length c]\<rparr>)"
    using w1(1) w2(1) by (simp add: bind_apply pm_on_dst_def)
  from that [OF this] w1(2) w2(2) show thesis by simp
qed

end

locale raw_source_pump = byte_source good flow rd + chunk_sink written wr dr emit
  for good :: "'s \<Rightarrow> bool" and flow :: "'s \<Rightarrow> bytes" and rd :: "nat \<Rightarrow> ('s, bytes) eff"
    and written :: "'w \<Rightarrow> bytes" and wr :: "'w write_op" and dr :: "('w, unit) eff"
    and emit :: "bytes \<Rightarrow> bytes"
begin

lemma send_raw_result:
  assumes "good (pm_src p)" and "0 < chunk" and "chunk < 2 ^ 64"
  shows "if n \<le> length (flow (pm_src p))
    then \<exists>p' cs. send_raw rd wr dr chunk n p = (Inr (), p') \<and> good (pm_src p') \<and>
      flow (pm_src p') = drop n (flow (pm_src p)) \<and> concat cs = take n (flow (pm_src p)) \<and>
      (\<forall>c \<in> set cs. c \<noteq> [] \<and> length c \<le> chunk) \<and> carried written emit cs p p'
    else \<exists>p'. send_raw rd wr dr chunk n p = (Inl EOFError, p')"
  using assms
proof (induction n arbitrary: p rule: less_induct)
  case (less n)
  show ?case
  proof (cases "n = 0")
    case True
    then show ?thesis using less.prems
      by (auto simp: send_raw.simps carried_def intro!: exI [of _ "[]"])
  next
    case False
    then have ask: "0 < min n chunk" using less.prems(2) by simp
    show ?thesis
    proof (cases "flow (pm_src p) = []")
      case True
      from read_end [OF less.prems(1) ask True] obtain s where "rd (min n chunk) (pm_src p) = (Inr [], s)" by blast
      with True False show ?thesis by (auto simp: send_raw.simps pm_on_src_Inr)
    next
      case ne: False
      from read_some [OF less.prems(1) ask ne] obtain j s where
        s: "0 < j" "j \<le> min n chunk" "j \<le> length (flow (pm_src p))"
          "rd (min n chunk) (pm_src p) = (Inr (take j (flow (pm_src p))), s)" "good s"
          "flow s = drop j (flow (pm_src p))"
        by blast
      let ?c = "take j (flow (pm_src p))"
      have c: "?c \<noteq> []" "length ?c = j" "length ?c < 2 ^ 64" using s(1-3) ne less.prems(3) by auto
      let ?f = "send_raw rd wr dr chunk (n - length ?c)"
      obtain w where w: "bind (pm_on_dst (wr ?c)) (\<lambda>_. bind (pm_on_dst dr) (\<lambda>_. bind (on_bytes (length ?c)) (\<lambda>_. ?f)))
          (p\<lparr>pm_src := s\<rparr>) = ?f ((p\<lparr>pm_src := s\<rparr>)\<lparr>pm_dst := w, pm_sizes := pm_sizes (p\<lparr>pm_src := s\<rparr>) @ [length ?c]\<rparr>)"
        "written w = written (pm_dst (p\<lparr>pm_src := s\<rparr>)) @ emit ?c"
        by (rule put_chunk [OF c(3)])
      let ?p = "p\<lparr>pm_src := s, pm_dst := w, pm_sizes := pm_sizes p @ [j]\<rparr>"
      have step: "send_raw rd wr dr chunk n p = send_raw rd wr dr chunk (n - j) ?p"
        using s(4) c(1,2) w(1) False by (subst send_raw.simps) (simp add: pm_on_src_Inr)
      have "n - j < n" using s(1,2) by auto
      note IH = less.IH [OF this _ less.prems(2,3), of ?p]
      have bound: "n - j \<le> length (flow (pm_src ?p)) \<longleftrightarrow> n \<le> length (flow (pm_src p))"
        using s(2,3,6) by auto
      show ?thesis
      proof (cases "n \<le> length (flow (pm_src p))")
        case True
        with IH bound s(5) obtain p' cs where p': "send_raw rd wr dr chunk (n - j) ?p = (Inr (), p')"
          "good (pm_src p')" "flow (pm_src p') = drop (n - j) (flow s)" "concat cs = take (n - j) (flow s)"
          "\<forall>c \<in> set cs. c \<noteq> [] \<and> length c \<le> chunk" "carried written emit cs ?p p'"
          by auto
        have "take j (flow (pm_src p)) @ take (n - j) (flow s) = take n (flow (pm_src p))"
          using s(2,6) by (metis le_add_diff_inverse min.boundedE take_add)
        moreover have "drop (n - j) (flow s) = drop n (flow (pm_src p))" using s(2,6) by simp
        moreover have "carried written emit (?c # cs) p p'"
          using p'(6) w(2) c(2) by (simp add: carried_def)
        moreover have "length ?c \<le> chunk" using s(2) c(2) by simp
        ultimately show ?thesis using step p' c(1) True
          by (auto intro!: exI [of _ p'] exI [of _ "?c # cs"])
      next
        case False
        with IH bound s(5) step show ?thesis by simp
      qed
    qed
  qed
qed

end

locale raw_reader_pump = nix_reader good rest rx + chunk_sink written wr dr emit
  for good :: "'s \<Rightarrow> bool" and rest :: "'s \<Rightarrow> bytes" and rx :: "'s readexactly"
    and written :: "'w \<Rightarrow> bytes" and wr :: "'w write_op" and dr :: "('w, unit) eff"
    and emit :: "bytes \<Rightarrow> bytes"
begin

lemma forward_raw_loop_result:
  assumes "good (pm_src p)" and "0 < chunk" and "chunk < 2 ^ 64" and "n \<le> length (rest (pm_src p))"
    and "n \<le> fuel"
  shows "\<exists>p' cs. forward_raw_loop rx wr dr chunk fuel n p = (Inr (), p') \<and> good (pm_src p') \<and>
      rest (pm_src p') = drop n (rest (pm_src p)) \<and> concat cs = take n (rest (pm_src p)) \<and>
      pm_chunks p' = pm_chunks p @ cs \<and> carried written emit cs p p'"
  using assms
proof (induction fuel arbitrary: p n)
  case 0
  then show ?case by (auto simp: forward_raw_loop.simps carried_def intro!: exI [of _ "[]"])
next
  case (Suc k)
  show ?case
  proof (cases "n = 0")
    case True
    then show ?thesis using Suc.prems
      by (auto simp: forward_raw_loop.simps carried_def intro!: exI [of _ "[]"])
  next
    case False
    let ?j = "min n chunk"
    have "?j \<le> length (rest (pm_src p))" using Suc.prems(4) by simp
    then obtain s where s: "rx ?j (pm_src p) = (Inr (take ?j (rest (pm_src p))), s)" "good s"
      "rest s = drop ?j (rest (pm_src p))"
      by (rule rx_ok [OF Suc.prems(1)])
    let ?c = "take ?j (rest (pm_src p))"
    have c: "length ?c = ?j" "length ?c < 2 ^ 64" using Suc.prems(3,4) by auto
    let ?f = "forward_raw_loop rx wr dr chunk k (n - ?j)"
    let ?q = "p\<lparr>pm_src := s, pm_chunks := pm_chunks p @ [?c]\<rparr>"
    obtain w where w: "bind (pm_on_dst (wr ?c)) (\<lambda>_. bind (pm_on_dst dr) (\<lambda>_. bind (on_bytes (length ?c)) (\<lambda>_. ?f))) ?q
        = ?f (?q\<lparr>pm_dst := w, pm_sizes := pm_sizes ?q @ [length ?c]\<rparr>)"
      "written w = written (pm_dst ?q) @ emit ?c"
      by (rule put_chunk [OF c(2)])
    let ?p = "?q\<lparr>pm_dst := w, pm_sizes := pm_sizes ?q @ [length ?c]\<rparr>"
    have step: "forward_raw_loop rx wr dr chunk (Suc k) n p = ?f ?p"
      using False s(1) w(1) by (subst forward_raw_loop.simps) (simp add: Let_def bind_apply [of "pm_on_src _"] bind_apply [of "on_chunk _"] pm_on_src_Inr)
    have "good (pm_src ?p)" "n - ?j \<le> length (rest (pm_src ?p))" "n - ?j \<le> k"
      using s Suc.prems(2,4,5) False by auto
    from Suc.IH [OF this(1) Suc.prems(2,3) this(2,3)] obtain p' cs where
      p': "?f ?p = (Inr (), p')" "good (pm_src p')" "rest (pm_src p') = drop (n - ?j) (rest s)"
        "concat cs = take (n - ?j) (rest s)" "pm_chunks p' = pm_chunks ?p @ cs" "carried written emit cs ?p p'"
      by auto
    have "?c @ take (n - ?j) (rest s) = take n (rest (pm_src p))"
      using s(3) by (metis le_add_diff_inverse min.cobounded1 take_add)
    moreover have "drop (n - ?j) (rest s) = drop n (rest (pm_src p))" using s(3) by simp
    moreover have "carried written emit (?c # cs) p p'" using p'(6) w(2) by (simp add: carried_def)
    ultimately show ?thesis using step p'
      by (intro exI [of _ p'] exI [of _ "?c # cs"]) simp
  qed
qed

end

interpretation framed_to_coalescing: source_pump "fr_good br_ok remaining" "fr_rest remaining"
    "fr_read br_readexactly" nw_written nw_write nw_drain
  by unfold_locales

interpretation framed_to_framed: raw_source_pump "fr_good br_ok remaining" "fr_rest remaining"
    "fr_read br_readexactly" nw_written "fw_write nw_write" "fw_drain nw_drain" frame
  by unfold_locales

interpretation bytes_raw_to_coalescing: raw_reader_pump br_ok remaining br_readexactly
    nw_written nw_write nw_drain "\<lambda>c. c"
  by unfold_locales

section \<open>The properties of the transports\<close>

lemma write_each_nw_write:
  "nw_ok w \<Longrightarrow> \<exists>w'. write_each nw_write ds w = (Inr (), w') \<and> nw_ok w' \<and>
     nw_written w' = nw_written w @ concat ds"
proof (induction ds arbitrary: w)
  case Nil
  then show ?case by simp
next
  case (Cons d ds)
  obtain w1 where w1: "nw_write d w = (Inr (), w1)" "nw_written w1 = nw_written w @ d"
    using coalescing.write_appends by blast
  then have "nw_ok w1" using nw_ok_write [OF Cons.prems, of d] by simp
  from Cons.IH [OF this] w1 show ?case by (auto simp: bind_apply)
qed

text \<open>
  C34. Reading ahead is transparent: \<open>UnixNixReader.readexactly\<close> answers every exact read as if it
  took the bytes one read at a time from the socket, whatever chunks the socket delivers, and
  loses no byte between reads.
\<close>

theorem unix_readahead_transparent:
  assumes "byte_source ok flow receive"
  shows "follows (ra_good ok) (ra_rest flow) (unix_readexactly receive n) (stream_readexactly n)"
  using assms by (rule byte_source.unix_readexactly_follows)

theorem unix_readahead_transparent_witness:
  "follows (ra_good (fr_good br_ok remaining)) (ra_rest (fr_rest remaining))
     (unix_readexactly (fr_read br_readexactly) 3) (stream_readexactly 3)"
  by (rule unix_readahead_transparent [OF framed.byte_source_axioms])

text \<open>
  The same of \<open>SSHNixReader.readexactly\<close>, which asks the channel for an exact read when the
  need is at least its read-ahead.
\<close>

theorem ssh_readahead_transparent:
  assumes "ssh_channel ok flow receive exact"
  shows "follows (ra_good ok) (ra_rest flow) (ssh_readexactly receive exact n) (stream_readexactly n)"
  using assms by (rule ssh_channel.ssh_readexactly_follows)

theorem ssh_readahead_transparent_witness:
  "follows (ra_good (fr_good br_ok remaining)) (ra_rest (fr_rest remaining))
     (ssh_readexactly (fr_read br_readexactly) (fr_readexactly br_readexactly) 3) (stream_readexactly 3)"
  by (rule ssh_readahead_transparent [OF framed.ssh_channel_axioms])

text \<open>
  C33. Coalescing reorders and drops nothing: after any writes and a drain the transport has been
  handed exactly what was written, in order, in writes that are not empty, the counter
  \<open>bytes_written\<close> is their length, and nothing is pending.
\<close>

theorem coalesced_writes_reach_transport:
  assumes "nw_ok w"
  shows "\<exists>w'. bind (write_each nw_write ds) (\<lambda>_. nw_drain) w = (Inr (), w') \<and> nw_pending w' = [] \<and>
    concat (nw_transport w') = nw_written w @ concat ds \<and> (\<forall>b \<in> set (nw_transport w'). b \<noteq> []) \<and>
    nw_bytes_written w' = length (nw_written w) + length (concat ds)"
proof -
  obtain w1 where w1: "write_each nw_write ds w = (Inr (), w1)" "nw_ok w1"
    "nw_written w1 = nw_written w @ concat ds"
    using write_each_nw_write [OF assms] by blast
  have ok: "nw_ok (nw_flush w1)" using w1(2) by (intro nw_ok_flush) (simp_all add: nw_ok_def)
  have "concat (nw_transport (nw_flush w1)) = nw_written w @ concat ds"
    using nw_written_flush [of w1] w1(3) by (simp add: nw_written_def)
  with ok w1(1) show ?thesis by (simp add: bind_apply nw_ok_def)
qed

theorem coalesced_writes_reach_transport_witness:
  "\<exists>w'. bind (write_each nw_write [[1, 2], [], [3]]) (\<lambda>_. nw_drain)
      \<lparr>nw_pending = [9], nw_transport = [], nw_bytes_written = 0\<rparr> = (Inr (), w') \<and> nw_pending w' = [] \<and>
    concat (nw_transport w') = [9, 1, 2, 3] \<and> [] \<notin> set (nw_transport w') \<and> nw_bytes_written w' = 4"
proof -
  have "nw_ok \<lparr>nw_pending = [9], nw_transport = [], nw_bytes_written = 0\<rparr>" by (simp add: nw_ok_def FLUSH_BYTES_def)
  from coalesced_writes_reach_transport [OF this, of "[[1, 2], [], [3]]"] show ?thesis
    by (auto simp: nw_written_def)
qed

text \<open>
  C35. \<open>forward_framed\<close> forwards the payload and nothing else: it ends, the destination gets
  frames that carry the same bytes in the same order and one terminator, all but the last frame
  hold at least \<open>chunk_size\<close> bytes, every frame is reported, and the source stands right behind
  the terminator it read.
\<close>

theorem forward_framed_payload:
  assumes "frames_ok ds" and "length (concat ds) < 2 ^ 64" and "length ds < fuel"
    and "br_ok src" and "remaining src = frames ds @ after"
  shows "\<exists>p outs. forward_framed br_readexactly nw_write nw_drain chunk fuel
      \<lparr>pm_src = src, pm_dst = w, pm_sizes = [], pm_chunks = []\<rparr> = (Inr (), p) \<and>
    remaining (pm_src p) = after \<and> nw_written (pm_dst p) = nw_written w @ frames outs \<and>
    frames_ok outs \<and> concat outs = concat ds \<and> (\<forall>d \<in> set (butlast outs). chunk \<le> length d) \<and>
    pm_sizes p = map length outs"
  using bytes_to_coalescing.forward_framed_result
    [of "\<lparr>pm_src = src, pm_dst = w, pm_sizes = [], pm_chunks = []\<rparr>" ds after fuel chunk] assms
  by auto

theorem forward_framed_payload_witness:
  "\<exists>p outs. forward_framed br_readexactly nw_write nw_drain 2 3
      \<lparr>pm_src = \<lparr>br_data = frames [[1], [2, 3]] @ [4], br_position = 0\<rparr>,
       pm_dst = \<lparr>nw_pending = [], nw_transport = [], nw_bytes_written = 0\<rparr>,
       pm_sizes = [], pm_chunks = []\<rparr> = (Inr (), p) \<and>
    remaining (pm_src p) = [4] \<and>
    nw_written (pm_dst p) = nw_written \<lparr>nw_pending = [], nw_transport = [], nw_bytes_written = 0\<rparr> @ frames outs \<and>
    frames_ok outs \<and> concat outs = concat [[1], [2, 3]] \<and> (\<forall>d \<in> set (butlast outs). 2 \<le> length d) \<and>
    pm_sizes p = map length outs"
  by (rule forward_framed_payload) (simp_all add: frames_ok_def br_ok_def remaining_def)

text \<open>
  \<open>send_framed\<close> from the payload of a \<open>FramedReader\<close> ends, sends all of it, and cuts it into
  frames of exactly \<open>chunk_size\<close> bytes but for the last.
\<close>

theorem send_framed_payload:
  assumes "frames_ok ds" and "length (concat ds) < 2 ^ 64" and "length (concat ds) < fuel" and "0 < chunk"
    and "br_ok src" and "remaining src = frames ds @ after"
  shows "\<exists>p outs. send_framed (fr_read br_readexactly) nw_write nw_drain chunk fuel
      \<lparr>pm_src = fr_new src, pm_dst = w, pm_sizes = [], pm_chunks = []\<rparr> = (Inr (), p) \<and>
    nw_written (pm_dst p) = nw_written w @ frames outs \<and> frames_ok outs \<and> concat outs = concat ds \<and>
    (\<forall>d \<in> set outs. length d \<le> chunk) \<and> (\<forall>d \<in> set (butlast outs). length d = chunk) \<and>
    pm_sizes p = map length outs"
proof -
  have "fr_good br_ok remaining (fr_new src)" "fr_rest remaining (fr_new src) = concat ds"
    using fr_new_state [of br_ok src remaining ds after] assms by simp_all
  then show ?thesis
    using framed_to_coalescing.send_framed_result
      [of "\<lparr>pm_src = fr_new src, pm_dst = w, pm_sizes = [], pm_chunks = []\<rparr>" chunk fuel] assms(2-4)
    by auto
qed

theorem send_framed_payload_witness:
  "\<exists>p outs. send_framed (fr_read br_readexactly) nw_write nw_drain 2 4
      \<lparr>pm_src = fr_new \<lparr>br_data = frames [[1], [2, 3]] @ [], br_position = 0\<rparr>,
       pm_dst = \<lparr>nw_pending = [], nw_transport = [], nw_bytes_written = 0\<rparr>,
       pm_sizes = [], pm_chunks = []\<rparr> = (Inr (), p) \<and>
    nw_written (pm_dst p) = nw_written \<lparr>nw_pending = [], nw_transport = [], nw_bytes_written = 0\<rparr> @ frames outs \<and>
    frames_ok outs \<and> concat outs = concat [[1], [2, 3]] \<and> (\<forall>d \<in> set outs. length d \<le> 2) \<and>
    (\<forall>d \<in> set (butlast outs). length d = 2) \<and> pm_sizes p = map length outs"
  by (rule send_framed_payload [where after = "[]"]) (simp_all add: frames_ok_def br_ok_def remaining_def)

text \<open>
  A NAR sent with \<open>send_raw\<close> through a \<open>FramedWriter\<close> and finalized, as \<open>AddMultipleToStore\<close>
  sends it, arrives whole: a \<open>FramedReader\<close> over what was written yields exactly the first
  \<open>size\<close> bytes of the source, and none of the terminators in between. A source that is shorter
  raises \<open>EOFError\<close>.
\<close>

theorem send_raw_framed_roundtrip:
  assumes "fr_good br_ok remaining src" and "0 < chunk" and "chunk < 2 ^ 64"
  shows "if nbytes \<le> length (fr_rest remaining src)
    then \<exists>p w' sent. send_raw (fr_read br_readexactly) (fw_write nw_write) (fw_drain nw_drain) chunk nbytes
        \<lparr>pm_src = src, pm_dst = w, pm_sizes = [], pm_chunks = []\<rparr> = (Inr (), p) \<and>
      fw_finalize nw_write nw_drain (pm_dst p) = (Inr (), w') \<and> nw_written w' = nw_written w @ sent \<and>
      deframe (sent @ after) = Some (take nbytes (fr_rest remaining src), after) \<and>
      fr_rest remaining (pm_src p) = drop nbytes (fr_rest remaining src)
    else \<exists>p. send_raw (fr_read br_readexactly) (fw_write nw_write) (fw_drain nw_drain) chunk nbytes
        \<lparr>pm_src = src, pm_dst = w, pm_sizes = [], pm_chunks = []\<rparr> = (Inl EOFError, p)"
proof -
  let ?p = "\<lparr>pm_src = src, pm_dst = w, pm_sizes = [], pm_chunks = []\<rparr>"
  note run = framed_to_framed.send_raw_result [of ?p chunk nbytes]
  show ?thesis
  proof (cases "nbytes \<le> length (fr_rest remaining src)")
    case True
    with run assms obtain p cs where
      p: "send_raw (fr_read br_readexactly) (fw_write nw_write) (fw_drain nw_drain) chunk nbytes ?p = (Inr (), p)"
        "fr_rest remaining (pm_src p) = drop nbytes (fr_rest remaining src)"
        "concat cs = take nbytes (fr_rest remaining src)" "\<forall>c \<in> set cs. c \<noteq> [] \<and> length c \<le> chunk"
        "carried nw_written frame cs ?p p"
      by auto
    obtain w' where w': "fw_finalize nw_write nw_drain (pm_dst p) = (Inr (), w')"
      "nw_written w' = nw_written (pm_dst p) @ uint64_bytes 0"
      using coalescing.fw_finalize_emits by blast
    have "frames_ok cs" using p(4) assms(3) by (auto simp: frames_ok_def)
    from deframe_frames [OF this, of after] p w' True show ?thesis
      by (auto simp: carried_def frames_def)
  next
    case False
    with run assms show ?thesis by simp
  qed
qed

theorem send_raw_framed_roundtrip_witness:
  "if (2 :: nat) \<le> length (fr_rest remaining (fr_new \<lparr>br_data = frames [[1], [2, 3]] @ [], br_position = 0\<rparr>))
    then \<exists>p w' sent. send_raw (fr_read br_readexactly) (fw_write nw_write) (fw_drain nw_drain) 8 2
        \<lparr>pm_src = fr_new \<lparr>br_data = frames [[1], [2, 3]] @ [], br_position = 0\<rparr>,
         pm_dst = \<lparr>nw_pending = [], nw_transport = [], nw_bytes_written = 0\<rparr>,
         pm_sizes = [], pm_chunks = []\<rparr> = (Inr (), p) \<and>
      fw_finalize nw_write nw_drain (pm_dst p) = (Inr (), w') \<and>
      nw_written w' = nw_written \<lparr>nw_pending = [], nw_transport = [], nw_bytes_written = 0\<rparr> @ sent \<and>
      deframe (sent @ [5]) =
        Some (take 2 (fr_rest remaining (fr_new \<lparr>br_data = frames [[1], [2, 3]] @ [], br_position = 0\<rparr>)), [5]) \<and>
      fr_rest remaining (pm_src p) =
        drop 2 (fr_rest remaining (fr_new \<lparr>br_data = frames [[1], [2, 3]] @ [], br_position = 0\<rparr>))
    else \<exists>p. send_raw (fr_read br_readexactly) (fw_write nw_write) (fw_drain nw_drain) 8 2
        \<lparr>pm_src = fr_new \<lparr>br_data = frames [[1], [2, 3]] @ [], br_position = 0\<rparr>,
         pm_dst = \<lparr>nw_pending = [], nw_transport = [], nw_bytes_written = 0\<rparr>,
         pm_sizes = [], pm_chunks = []\<rparr> = (Inl EOFError, p)"
  by (rule send_raw_framed_roundtrip)
    (use fr_new_state [of br_ok "\<lparr>br_data = frames [[1], [2, 3]] @ [], br_position = 0\<rparr>" remaining "[[1], [2, 3]]" "[]"]
      in \<open>simp_all add: frames_ok_def br_ok_def remaining_def\<close>)

end
