(* ===== verification/Nar.thy ===== *)
theory Nar
  imports Transfers
begin

text \<open>
  The archive format of \<open>pynixd/nar.py\<close>: the tree of a NAR, its writer and its parser, with the
  archive as a list of tokens between the two.
\<close>

section \<open>The tree\<close>

datatype nar_node =
    NarDirectory "(string \<times> nar_node) list"
  | NarRegular bytes bool
  | NarSymlink string

section \<open>Writing\<close>

definition is_ascii :: "string \<Rightarrow> bool" where
  "is_ascii s \<longleftrightarrow> (\<forall>c \<in> set s. of_char c < (128 :: nat))"

definition write_blob :: "bytes \<Rightarrow> (bytes, unit) eff" where
  "write_blob contents =
     bind (of_result (pack_uint64 (int (length contents)))) (\<lambda>b.
     bind (write_raw b) (\<lambda>_.
     bind (write_raw contents) (\<lambda>_.
     write_raw (replicate (nar_pad (length contents)) 0))))"

text \<open>A string that is not ASCII raises \<open>UnicodeEncodeError\<close>, a \<open>ValueError\<close>.\<close>

definition write_padded_string :: "string \<Rightarrow> (bytes, unit) eff" where
  "write_padded_string s = (if is_ascii s then write_blob (encode s) else raise ValueError)"

fun nar_write_node :: "nar_node \<Rightarrow> (bytes, unit) eff"
  and nar_write_entries :: "(string \<times> nar_node) list \<Rightarrow> (bytes, unit) eff" where
  "nar_write_node (NarDirectory entries) =
     bind (write_padded_string ''('') (\<lambda>_.
     bind (write_padded_string ''type'') (\<lambda>_.
     bind (write_padded_string ''directory'') (\<lambda>_.
     bind (nar_write_entries entries) (\<lambda>_.
     write_padded_string '')''))))"
| "nar_write_node (NarRegular contents executable) =
     bind (write_padded_string ''('') (\<lambda>_.
     bind (write_padded_string ''type'') (\<lambda>_.
     bind (write_padded_string ''regular'') (\<lambda>_.
     bind (if executable
           then bind (write_padded_string ''executable'') (\<lambda>_. write_padded_string [])
           else ret ()) (\<lambda>_.
     bind (write_padded_string ''contents'') (\<lambda>_.
     bind (write_blob contents) (\<lambda>_.
     write_padded_string '')''))))))"
| "nar_write_node (NarSymlink target) =
     bind (write_padded_string ''('') (\<lambda>_.
     bind (write_padded_string ''type'') (\<lambda>_.
     bind (write_padded_string ''symlink'') (\<lambda>_.
     bind (write_padded_string ''target'') (\<lambda>_.
     bind (write_padded_string target) (\<lambda>_.
     write_padded_string '')'')))))"
| "nar_write_entries [] = ret ()"
| "nar_write_entries ((name, child) # es) =
     bind (write_padded_string ''entry'') (\<lambda>_.
     bind (write_padded_string ''('') (\<lambda>_.
     bind (write_padded_string ''name'') (\<lambda>_.
     bind (write_padded_string name) (\<lambda>_.
     bind (write_padded_string ''node'') (\<lambda>_.
     bind (nar_write_node child) (\<lambda>_.
     bind (write_padded_string '')'') (\<lambda>_.
     nar_write_entries es)))))))"

definition write_nar :: "nar_node \<Rightarrow> error + bytes" where
  "write_nar node =
     (case bind (write_padded_string ''nix-archive-1'') (\<lambda>_. nar_write_node node) [] of
        (Inl e, buf) \<Rightarrow> Inl e
      | (Inr _, buf) \<Rightarrow> Inr buf)"

section \<open>Parsing\<close>

text \<open>
  \<open>struct.unpack_from\<close> raises when eight bytes are not there. A slice past the end of the data is
  cut short, and so is the string it stands for.
\<close>

definition read_length :: "bytes \<Rightarrow> nat \<Rightarrow> error + nat" where
  "read_length data offset =
     (if offset + 8 \<le> length data then Inr (le_unpack (take 8 (drop offset data))) else Inl StructError)"

definition read_blob :: "bytes \<Rightarrow> nat \<Rightarrow> error + (bytes \<times> nat)" where
  "read_blob data offset =
     andthen (read_length data offset) (\<lambda>len.
     Inr (take len (drop (offset + 8) data), offset + 8 + (len + nar_pad len)))"

definition read_padded_string :: "bytes \<Rightarrow> nat \<Rightarrow> error + (string \<times> nat)" where
  "read_padded_string data offset =
     andthen (read_blob data offset) (\<lambda>(body, offset').
     if is_ascii (decode body) then Inr (decode body, offset') else Inl ValueError)"

definition expect_padded_string :: "bytes \<Rightarrow> nat \<Rightarrow> string \<Rightarrow> error + nat" where
  "expect_padded_string data offset expected =
     andthen (read_padded_string data offset) (\<lambda>(body, offset').
     if body \<noteq> expected then Inl ValueError else Inr offset')"

text \<open>
  The attributes of a regular file up to \<open>contents\<close>. Every turn of a loop and every node reads a
  token, which takes eight bytes of the data, so fuel above the length of the data is enough.
\<close>

fun read_attributes :: "nat \<Rightarrow> bytes \<Rightarrow> nat \<Rightarrow> bool \<Rightarrow> error + (bool \<times> nat)" where
  "read_attributes 0 data offset executable = Inl OutOfFuel"
| "read_attributes (Suc fuel) data offset executable =
     andthen (read_padded_string data offset) (\<lambda>(key, offset).
     if key = ''contents'' then Inr (executable, offset)
     else if key = ''executable''
     then andthen (read_padded_string data offset) (\<lambda>(_, offset). read_attributes fuel data offset True)
     else Inl ValueError)"

fun nar_read_node :: "nat \<Rightarrow> bytes \<Rightarrow> nat \<Rightarrow> error + (nar_node \<times> nat)"
  and nar_read_entries :: "nat \<Rightarrow> bytes \<Rightarrow> nat \<Rightarrow> (string \<times> nar_node) list \<Rightarrow> error + (nar_node \<times> nat)" where
  "nar_read_node 0 data offset = Inl OutOfFuel"
| "nar_read_node (Suc fuel) data offset =
     andthen (expect_padded_string data offset ''('') (\<lambda>offset.
     andthen (expect_padded_string data offset ''type'') (\<lambda>offset.
     andthen (read_padded_string data offset) (\<lambda>(type_val, offset).
     if type_val = ''directory'' then nar_read_entries fuel data offset []
     else if type_val = ''regular'' then
       andthen (read_attributes fuel data offset False) (\<lambda>(executable, offset).
       andthen (read_blob data offset) (\<lambda>(contents, offset).
       andthen (expect_padded_string data offset '')'') (\<lambda>offset.
       Inr (NarRegular contents executable, offset))))
     else if type_val = ''symlink'' then
       andthen (expect_padded_string data offset ''target'') (\<lambda>offset.
       andthen (read_padded_string data offset) (\<lambda>(target, offset).
       andthen (expect_padded_string data offset '')'') (\<lambda>offset.
       Inr (NarSymlink target, offset))))
     else Inl ValueError)))"
| "nar_read_entries 0 data offset entries = Inl OutOfFuel"
| "nar_read_entries (Suc fuel) data offset entries =
     andthen (read_padded_string data offset) (\<lambda>(kind, offset).
     if kind = '')'' then Inr (NarDirectory entries, offset)
     else if kind \<noteq> ''entry'' then Inl ValueError
     else
       andthen (expect_padded_string data offset ''('') (\<lambda>offset.
       andthen (expect_padded_string data offset ''name'') (\<lambda>offset.
       andthen (read_padded_string data offset) (\<lambda>(name, offset).
       andthen (expect_padded_string data offset ''node'') (\<lambda>offset.
       andthen (nar_read_node fuel data offset) (\<lambda>(child, offset).
       andthen (expect_padded_string data offset '')'') (\<lambda>offset.
       nar_read_entries fuel data offset (entries @ [(name, child)]))))))))"

definition parse_nar :: "bytes \<Rightarrow> error + nar_node" where
  "parse_nar data =
     (if length data < 8 then Inl ValueError
      else andthen (read_padded_string data 0) (\<lambda>(magic, offset).
        if magic \<noteq> ''nix-archive-1'' then Inl ValueError
        else andthen (nar_read_node (Suc (length data)) data offset) (\<lambda>(node, offset).
          if offset \<noteq> length data then Inl ValueError else Inr node)))"

section \<open>Entries\<close>

text \<open>\<open>_walk\<close> and \<open>nar_entries\<close>: every node with its path, the root at the empty path.\<close>

fun nar_walk :: "nar_node \<Rightarrow> string \<Rightarrow> (string \<times> nar_node) list"
  and nar_walk_entries :: "(string \<times> nar_node) list \<Rightarrow> string \<Rightarrow> (string \<times> nar_node) list" where
  "nar_walk (NarDirectory entries) at = (at, NarDirectory entries) # nar_walk_entries entries at"
| "nar_walk (NarRegular contents executable) at = [(at, NarRegular contents executable)]"
| "nar_walk (NarSymlink target) at = [(at, NarSymlink target)]"
| "nar_walk_entries [] at = []"
| "nar_walk_entries ((name, child) # es) at =
     nar_walk child (if at \<noteq> [] then at @ ''/'' @ name else name) @ nar_walk_entries es at"

definition find_nar_entry :: "nar_node \<Rightarrow> string \<Rightarrow> nar_node option" where
  "find_nar_entry node path = map_of (nar_walk node []) path"

section \<open>The archive as a list of tokens\<close>

fun tokens :: "nar_node \<Rightarrow> bytes list" and entry_tokens :: "(string \<times> nar_node) list \<Rightarrow> bytes list" where
  "tokens (NarDirectory entries) =
     encode ''('' # encode ''type'' # encode ''directory'' # entry_tokens entries @ [encode '')'']"
| "tokens (NarRegular contents executable) =
     encode ''('' # encode ''type'' # encode ''regular'' #
       (if executable then [encode ''executable'', []] else []) @
       [encode ''contents'', contents, encode '')'']"
| "tokens (NarSymlink target) =
     [encode ''('', encode ''type'', encode ''symlink'', encode ''target'', encode target, encode '')'']"
| "entry_tokens [] = []"
| "entry_tokens ((name, child) # es) =
     encode ''entry'' # encode ''('' # encode ''name'' # encode name # encode ''node'' #
       tokens child @ encode '')'' # entry_tokens es"

definition token_bytes :: "bytes list \<Rightarrow> bytes" where
  "token_bytes ts = concat (map framed_bytes ts)"

definition archive :: "nar_node \<Rightarrow> bytes" where
  "archive node = token_bytes (encode ''nix-archive-1'' # tokens node)"

text \<open>What the writer can write: ASCII names and targets, and lengths that 64 bits hold.\<close>

fun nar_ok :: "nar_node \<Rightarrow> bool" and entries_ok :: "(string \<times> nar_node) list \<Rightarrow> bool" where
  "nar_ok (NarDirectory entries) = entries_ok entries"
| "nar_ok (NarRegular contents executable) = (length contents < 2 ^ 64)"
| "nar_ok (NarSymlink target) = (is_ascii target \<and> length target < 2 ^ 64)"
| "entries_ok [] = True"
| "entries_ok ((name, child) # es) =
     (is_ascii name \<and> length name < 2 ^ 64 \<and> nar_ok child \<and> entries_ok es)"

lemma token_bytes_simps [simp]:
  "token_bytes [] = []" "token_bytes (t # ts) = framed_bytes t @ token_bytes ts"
  "token_bytes (ts @ us) = token_bytes ts @ token_bytes us"
  by (simp_all add: token_bytes_def)

lemma write_blob_ok:
  assumes "length bs < 2 ^ 64"
  shows "write_blob bs buf = (Inr (), buf @ framed_bytes bs)"
  using nat_less_2_64 [OF assms]
  by (simp add: write_blob_def pack_uint64_ok bind_apply framed_bytes_def uint64_bytes_def nar_pad_eq)

lemma write_padded_string_ok:
  "is_ascii s \<Longrightarrow> length s < 2 ^ 64 \<Longrightarrow> write_padded_string s buf = (Inr (), buf @ framed_bytes (encode s))"
  by (simp add: write_padded_string_def write_blob_ok)

lemma is_ascii_Nil [simp]: "is_ascii []"
  by (simp add: is_ascii_def)

lemma is_ascii_Cons [simp]: "is_ascii (c # s) \<longleftrightarrow> of_char c < (128 :: nat) \<and> is_ascii s"
  by (simp add: is_ascii_def)

lemma nar_write_tokens:
  "nar_ok node \<Longrightarrow> nar_write_node node buf = (Inr (), buf @ token_bytes (tokens node))"
  "entries_ok es \<Longrightarrow> nar_write_entries es buf = (Inr (), buf @ token_bytes (entry_tokens es))"
  by (induction node and es arbitrary: buf and buf rule: tokens_entry_tokens.induct)
    (simp_all add: write_padded_string_ok write_blob_ok bind_apply)

lemma write_nar_archive: "nar_ok node \<Longrightarrow> write_nar node = Inr (archive node)"
  by (simp add: write_nar_def archive_def write_padded_string_ok nar_write_tokens bind_apply)

section \<open>Parsing what was written\<close>

definition token_len :: "nat \<Rightarrow> nat" where
  "token_len n = 8 + (n + pad_len n)"

lemma length_framed_token [simp]: "length (framed_bytes bs) = token_len (length bs)"
  by (simp add: framed_bytes_def token_len_def)

text \<open>
  A token is read off the data from its offset on, so the reads of an archive can be followed
  on the bytes that are left.
\<close>

definition blob_of :: "bytes \<Rightarrow> nat \<Rightarrow> error + (bytes \<times> nat)" where
  "blob_of bs offset =
     (if 8 \<le> length bs
      then Inr (take (le_unpack (take 8 bs)) (drop 8 bs), offset + token_len (le_unpack (take 8 bs)))
      else Inl StructError)"

lemma read_blob_drop: "read_blob data offset = blob_of (drop offset data) offset"
  by (auto simp: read_blob_def read_length_def blob_of_def nar_pad_eq token_len_def add.commute)

lemma blob_of_token:
  "length b < 2 ^ 64 \<Longrightarrow> blob_of (framed_bytes b @ rest) offset = Inr (b, offset + token_len (length b))"
  by (simp add: blob_of_def framed_bytes_def le_unpack_uint64_bytes)

lemma drop_add: "drop (m + n) xs = drop n (drop m xs)"
  by (simp add: add.commute)

lemma drop_token: "drop (token_len (length b)) (framed_bytes b @ rest) = rest"
  by (metis append_eq_conv_conj length_framed_token)

lemma drop_string: "drop (token_len (length s)) (framed_bytes (encode s) @ rest) = rest"
  using drop_token [of "encode s"] by simp

lemma blob_of_string:
  "length s < 2 ^ 64 \<Longrightarrow>
     blob_of (framed_bytes (encode s) @ rest) offset = Inr (encode s, offset + token_len (length s))"
  using blob_of_token [of "encode s"] by simp

lemma token_bytes_append: "token_bytes (ts @ us) @ rest = token_bytes ts @ token_bytes us @ rest"
  by simp

lemmas parse_simps = read_padded_string_def expect_padded_string_def read_blob_drop drop_add
  drop_token drop_string blob_of_string blob_of_token

lemma drop_length_append: "drop off data = xs @ rest \<Longrightarrow> drop (off + length xs) data = rest"
  by (simp add: drop_add del: drop_drop)

lemma nar_read_tokens:
  "nar_ok node \<Longrightarrow> drop off data = token_bytes (tokens node) @ rest \<Longrightarrow> length (tokens node) \<le> fuel \<Longrightarrow>
     nar_read_node fuel data off = Inr (node, off + length (token_bytes (tokens node)))"
  "entries_ok es \<Longrightarrow> drop off data = token_bytes (entry_tokens es) @ framed_bytes (encode '')'') @ rest \<Longrightarrow>
     length (entry_tokens es) < fuel \<Longrightarrow>
     nar_read_entries fuel data off acc =
       Inr (NarDirectory (acc @ es), off + length (token_bytes (entry_tokens es)) + token_len 1)"
proof (induction node and es arbitrary: off fuel rest and off fuel rest acc rule: tokens_entry_tokens.induct)
  case (1 entries)
  then obtain k where "fuel = Suc k" by (cases fuel) auto
  with 1 show ?case by (simp add: parse_simps del: drop_drop)
next
  case (2 contents executable)
  then obtain k where "fuel = Suc (Suc (Suc k))"
    by (cases fuel; cases "fuel - 1"; cases "fuel - 2") auto
  with 2 show ?case by (cases executable) (simp_all add: parse_simps del: drop_drop)
next
  case (3 target)
  then obtain k where "fuel = Suc k" by (cases fuel) auto
  with 3 show ?case by (simp add: parse_simps del: drop_drop)
next
  case 4
  then obtain k where "fuel = Suc k" by (cases fuel) auto
  with 4 show ?case by (simp add: parse_simps del: drop_drop)
next
  case (5 name child es)
  then obtain k where "fuel = Suc k" by (cases fuel) auto
  with 5 show ?case by (simp add: parse_simps del: drop_drop)
qed

section \<open>Parsing ends\<close>

text \<open>\<open>safe r off\<close>: \<open>r\<close> has not run out of fuel, and an offset it returns is not before \<open>off\<close>.\<close>

definition safe :: "error + ('a \<times> nat) \<Rightarrow> nat \<Rightarrow> bool" where
  "safe r off \<longleftrightarrow> r \<noteq> Inl OutOfFuel \<and> (\<forall>x off'. r = Inr (x, off') \<longrightarrow> off \<le> off')"

lemma safe_Inr [simp]: "safe (Inr (x, off')) off \<longleftrightarrow> off \<le> off'"
  by (simp add: safe_def)

lemma safe_Inl [simp]: "safe (Inl e) off \<longleftrightarrow> e \<noteq> OutOfFuel"
  by (simp add: safe_def)

lemma safe_mono: "safe r off' \<Longrightarrow> off \<le> off' \<Longrightarrow> safe r off"
  by (auto simp: safe_def)

lemma safe_if: "safe a off \<Longrightarrow> safe b off \<Longrightarrow> safe (if c then a else b) off"
  by simp

lemma safe_andthen:
  assumes "safe r off" and "\<And>x o'. off \<le> o' \<Longrightarrow> safe (f x o') base"
  shows "safe (andthen r (case_prod f)) base"
proof (cases r)
  case (Inl e)
  with assms(1) show ?thesis by simp
next
  case (Inr y)
  with assms show ?thesis by (cases y) simp
qed

lemma safe_blob:
  assumes "\<And>x o'. offset + 8 \<le> o' \<Longrightarrow> offset + 8 \<le> length data \<Longrightarrow> safe (f x o') base"
  shows "safe (andthen (read_blob data offset) (case_prod f)) base"
  using assms by (simp add: read_blob_def read_length_def)

lemma safe_string:
  assumes "\<And>x o'. offset + 8 \<le> o' \<Longrightarrow> offset + 8 \<le> length data \<Longrightarrow> safe (f x o') base"
  shows "safe (andthen (read_padded_string data offset) (case_prod f)) base"
  using assms by (simp add: read_padded_string_def read_blob_def read_length_def)

lemma safe_expect:
  assumes "\<And>o'. offset + 8 \<le> o' \<Longrightarrow> offset + 8 \<le> length data \<Longrightarrow> safe (f o') base"
  shows "safe (andthen (expect_padded_string data offset s) f) base"
  using assms by (simp add: expect_padded_string_def read_padded_string_def read_blob_def read_length_def)

lemma read_attributes_safe:
  "length data - off < fuel \<Longrightarrow> safe (read_attributes fuel data off executable) off"
proof (induction fuel arbitrary: off executable)
  case 0
  then show ?case by simp
next
  case (Suc k)
  then show ?case unfolding read_attributes.simps
    by (intro safe_string safe_if) (auto intro: safe_mono [OF Suc.IH])
qed

lemma nar_read_safe:
  "(length data - off < fuel \<longrightarrow> safe (nar_read_node fuel data off) off) \<and>
   (length data - off < fuel \<longrightarrow> safe (nar_read_entries fuel data off acc) off)"
proof (induction fuel arbitrary: off acc)
  case 0
  then show ?case by simp
next
  case (Suc k)
  have node: "safe (nar_read_node k data o') o'" and entries: "safe (nar_read_entries k data o' acc') o'"
    if "length data - o' < k" for o' acc'
    using Suc.IH that by blast+
  have "safe (nar_read_node (Suc k) data off) off" if "length data - off < Suc k"
    unfolding nar_read_node.simps
    using that
    by (intro safe_expect safe_string safe_if safe_andthen [OF read_attributes_safe] safe_blob safe_mono [OF entries])
      auto
  moreover have "safe (nar_read_entries (Suc k) data off acc) off" if "length data - off < Suc k"
    unfolding nar_read_entries.simps
    using that
    by (intro safe_expect safe_string safe_if safe_andthen [OF node] safe_mono [OF entries]) auto
  ultimately show ?case by blast
qed

section \<open>The properties of the parser\<close>

lemma length_tokens_le: "length ts \<le> length (token_bytes ts)"
  by (induction ts) (simp_all add: token_len_def)

lemma parse_archive:
  assumes "nar_ok node"
  shows "parse_nar (archive node) = Inr node"
proof -
  let ?data = "archive node"
  let ?magic = "''nix-archive-1''"
  let ?off = "token_len (length ?magic)"
  have data: "?data = framed_bytes (encode ?magic) @ token_bytes (tokens node) @ []" by (simp add: archive_def)
  then have rest: "drop ?off ?data = token_bytes (tokens node) @ []" by (simp only: drop_string)
  have len: "length ?data = ?off + length (token_bytes (tokens node))" unfolding data by simp
  have "nar_read_node (Suc (length ?data)) ?data ?off = Inr (node, ?off + length (token_bytes (tokens node)))"
    using assms rest by (rule nar_read_tokens(1)) (use length_tokens_le [of "tokens node"] len in simp)
  moreover have "read_padded_string ?data 0 = Inr (?magic, ?off)"
    unfolding data by (simp add: read_padded_string_def read_blob_drop blob_of_string)
  moreover have "\<not> length ?data < 8" using len by (simp add: token_len_def)
  ultimately show ?thesis using len by (simp add: parse_nar_def)
qed

text \<open>
  C19. What \<open>write_nar\<close> writes, \<open>parse_nar\<close> reads back: every tree with ASCII names and targets is
  written without an error, and parsing the bytes gives the same tree.
\<close>

theorem nar_roundtrip:
  assumes "nar_ok node"
  shows "\<exists>data. write_nar node = Inr data \<and> parse_nar data = Inr node"
  using write_nar_archive [OF assms] parse_archive [OF assms] by blast

theorem nar_roundtrip_witness:
  "\<exists>data. write_nar (NarDirectory [(''bin'', NarDirectory [(''hi'', NarRegular [1, 2] True)]), (''l'', NarSymlink ''bin'')]) = Inr data \<and>
     parse_nar data = Inr (NarDirectory [(''bin'', NarDirectory [(''hi'', NarRegular [1, 2] True)]), (''l'', NarSymlink ''bin'')])"
  by (rule nar_roundtrip) simp

text \<open>\<open>parse_nar\<close> ends on every input: no bytes make its loops and its recursion run out of fuel.\<close>

theorem parse_nar_ends: "parse_nar data \<noteq> Inl OutOfFuel"
proof -
  have "nar_read_node (Suc (length data)) data off \<noteq> Inl OutOfFuel" for off
    using nar_read_safe [of data off "Suc (length data)"] by (auto simp: safe_def)
  then show ?thesis
    by (auto simp: parse_nar_def andthen_error_iff read_padded_string_def read_blob_def read_length_def
        split: if_splits)
qed

end
