(* ===== verification/Nar_Scan.thy ===== *)
theory Nar_Scan
  imports Nar
begin

text \<open>
  The two scanners that find the end of an archive by its parentheses without parsing it:
  \<open>NarForwarder\<close> of \<open>pynixd/nar.py\<close>, fed in chunks, with \<open>forward_nar\<close> and \<open>nar_size\<close>, and
  \<open>stream_parse_nar\<close> of \<open>pynixd/wire.py\<close>, which copies an archive from a reader to a writer.
\<close>

section \<open>NarForwarder\<close>

record nar_forwarder =
  nf_buf :: bytes
  nf_depth :: int
  nf_after_contents :: bool
  nf_body_len :: nat
  nf_in_body :: bool
  nf_complete :: bool

definition nf_new :: nar_forwarder where
  "nf_new = \<lparr>nf_buf = [], nf_depth = 0, nf_after_contents = False, nf_body_len = 0,
             nf_in_body = False, nf_complete = False\<rparr>"

definition nf_consume_token :: "nar_forwarder \<Rightarrow> bytes option \<times> nar_forwarder" where
  "nf_consume_token f =
     (if \<not> nf_in_body f \<and> length (nf_buf f) < 8 then (None, f)
      else let f1 = (if nf_in_body f then f
                     else f\<lparr>nf_body_len := le_unpack (take 8 (nf_buf f)), nf_in_body := True\<rparr>);
               need = 8 + nf_body_len f1 + nar_pad (nf_body_len f1)
           in if length (nf_buf f1) < need then (None, f1)
              else (Some (take need (nf_buf f1)),
                    f1\<lparr>nf_buf := drop need (nf_buf f1), nf_in_body := False\<rparr>))"

definition nf_update_depth :: "bytes \<Rightarrow> nar_forwarder \<Rightarrow> nar_forwarder" where
  "nf_update_depth body f =
     (if nf_after_contents f then f\<lparr>nf_after_contents := False\<rparr>
      else let tok = decode body in
        if \<not> is_ascii tok then f
        else if tok = ''('' then f\<lparr>nf_depth := nf_depth f + 1\<rparr>
        else if tok = '')'' then
          (let f1 = f\<lparr>nf_depth := nf_depth f - 1\<rparr>
           in if nf_depth f1 = 0 then f1\<lparr>nf_complete := True\<rparr> else f1)
        else if tok = ''contents'' then f\<lparr>nf_after_contents := True\<rparr>
        else f)"

lemma nf_consume_token_shorter:
  "nf_consume_token f = (Some tok, f') \<Longrightarrow> length (nf_buf f') < length (nf_buf f)"
  by (auto simp: nf_consume_token_def Let_def split: if_splits)

lemma nf_buf_update_depth [simp]: "nf_buf (nf_update_depth body f) = nf_buf f"
  by (simp add: nf_update_depth_def Let_def)

text \<open>The tokens that \<open>feed\<close> yields when its caller takes them all.\<close>

function nf_feed_loop :: "nar_forwarder \<Rightarrow> bytes list \<times> nar_forwarder" where
  "nf_feed_loop f =
     (case nf_consume_token f of
        (None, f') \<Rightarrow> ([], f')
      | (Some token, f') \<Rightarrow>
          let f'' = nf_update_depth (take (nf_body_len f') (drop 8 token)) f'
          in if nf_complete f'' then ([token], f'')
             else case nf_feed_loop f'' of (ts, g) \<Rightarrow> (token # ts, g))"
  by pat_completeness auto
termination
  by (relation "measure (\<lambda>f. length (nf_buf f))") (auto dest!: nf_consume_token_shorter [OF sym])

declare nf_feed_loop.simps [simp del]

definition nf_feed :: "bytes \<Rightarrow> nar_forwarder \<Rightarrow> bytes list \<times> nar_forwarder" where
  "nf_feed data f =
     (if nf_complete f then ([], f) else nf_feed_loop (f\<lparr>nf_buf := nf_buf f @ data\<rparr>))"

fun nf_feed_all :: "bytes list \<Rightarrow> nar_forwarder \<Rightarrow> bytes list \<times> nar_forwarder" where
  "nf_feed_all [] f = ([], f)"
| "nf_feed_all (d # ds) f =
     (case nf_feed d f of (ts, f1) \<Rightarrow> (case nf_feed_all ds f1 of (us, f2) \<Rightarrow> (ts @ us, f2)))"

definition nar_size :: "bytes \<Rightarrow> error + nat" where
  "nar_size data =
     (case nf_feed data nf_new of (ts, f) \<Rightarrow>
        if nf_complete f then Inr (sum_list (map length ts)) else Inl ValueError)"

text \<open>
  \<open>forward_nar\<close>: the state is the source and the bytes written. Every turn but the last reads a
  byte, so fuel above the length of the source is enough.
\<close>

fun forward_nar_loop ::
    "(nat \<Rightarrow> ('s, bytes) eff) \<Rightarrow> nat \<Rightarrow> nar_forwarder \<Rightarrow> nat \<Rightarrow> ('s \<times> bytes, nat) eff" where
  "forward_nar_loop rd 0 f n = raise OutOfFuel"
| "forward_nar_loop rd (Suc fuel) f n = (\<lambda>(s, dst).
     case rd 65536 s of
       (Inl e, s') \<Rightarrow> (Inl e, (s', dst))
     | (Inr chunk, s') \<Rightarrow>
         if chunk = [] then (Inr n, (s', dst))
         else case nf_feed chunk f of (ts, f') \<Rightarrow>
           let dst' = dst @ concat ts; n' = n + sum_list (map length ts)
           in if nf_complete f' then (Inr n', (s', dst'))
              else forward_nar_loop rd fuel f' n' (s', dst'))"

definition forward_nar :: "(nat \<Rightarrow> ('s, bytes) eff) \<Rightarrow> nat \<Rightarrow> ('s \<times> bytes, nat) eff" where
  "forward_nar rd fuel = forward_nar_loop rd fuel nf_new 0"

section \<open>stream_parse_nar\<close>

text \<open>
  \<open>_fwd_token\<close> copies one token. It returns the token, the bytes since the last drain and the
  chunks captured so far.
\<close>

definition copy_bytes :: "'s readexactly \<Rightarrow> 'w write_op \<Rightarrow> nat \<Rightarrow> (('s, 'w) pump, bytes) eff" where
  "copy_bytes rx wr n =
     (if n > 0
      then bind (pm_on_src (rx n)) (\<lambda>data. bind (pm_on_dst (wr data)) (\<lambda>_. ret data))
      else ret [])"

definition fwd_token ::
    "'s readexactly \<Rightarrow> 'w write_op \<Rightarrow> ('w, unit) eff \<Rightarrow> nat \<Rightarrow> nat \<Rightarrow> bytes list \<Rightarrow>
     (('s, 'w) pump, bytes \<times> nat \<times> bytes list) eff" where
  "fwd_token rx wr dr chunk_size since_yield chunks =
     bind (pm_on_src (nr_read_uint64 rx)) (\<lambda>len.
     bind (pm_on_dst (nw_write_uint64 wr len)) (\<lambda>_.
     bind (copy_bytes rx wr (nat len)) (\<lambda>data.
     let pad = nar_pad (nat len) in
     bind (copy_bytes rx wr pad) (\<lambda>pad_data.
     let since = since_yield + 8 + nat len + pad;
         chunks' = chunks @ [uint64_bytes (nat len), data, pad_data]
     in if since \<ge> chunk_size
        then bind (pm_on_dst dr) (\<lambda>_. ret (data, 0, chunks'))
        else ret (data, since, chunks')))))"

fun parse_loop ::
    "'s readexactly \<Rightarrow> 'w write_op \<Rightarrow> ('w, unit) eff \<Rightarrow> nat \<Rightarrow> nat \<Rightarrow> nat \<Rightarrow> bytes list \<Rightarrow> int \<Rightarrow> bool \<Rightarrow>
     (('s, 'w) pump, bytes list) eff" where
  "parse_loop rx wr dr chunk_size 0 since chunks depth after_contents = raise OutOfFuel"
| "parse_loop rx wr dr chunk_size (Suc fuel) since chunks depth after_contents =
     bind (fwd_token rx wr dr chunk_size since chunks) (\<lambda>(raw, since, chunks).
     if after_contents then parse_loop rx wr dr chunk_size fuel since chunks depth False
     else let tok = decode raw in
       if \<not> is_ascii tok then parse_loop rx wr dr chunk_size fuel since chunks depth False
       else if tok = ''('' then parse_loop rx wr dr chunk_size fuel since chunks (depth + 1) False
       else if tok = '')''
       then (if depth - 1 = 0 then ret chunks
             else parse_loop rx wr dr chunk_size fuel since chunks (depth - 1) False)
       else parse_loop rx wr dr chunk_size fuel since chunks depth (tok = ''contents''))"

definition stream_parse_nar ::
    "'s readexactly \<Rightarrow> 'w write_op \<Rightarrow> ('w, unit) eff \<Rightarrow> nat \<Rightarrow> nat \<Rightarrow> bool \<Rightarrow> (('s, 'w) pump, bytes option) eff" where
  "stream_parse_nar rx wr dr chunk_size fuel capture =
     bind (parse_loop rx wr dr chunk_size fuel 0 [] 0 False) (\<lambda>chunks.
     bind (pm_on_dst dr) (\<lambda>_.
     ret (if capture then Some (concat chunks) else None)))"

section \<open>Scanning tokens\<close>

text \<open>
  What either scanner does with the body of a token: the depth, whether the next token is file
  data, and whether the archive ended.
\<close>

definition tok_step :: "int \<Rightarrow> bool \<Rightarrow> bytes \<Rightarrow> int \<times> bool \<times> bool" where
  "tok_step d a t =
     (if a then (d, False, False)
      else if t = encode ''('' then (d + 1, False, False)
      else if t = encode '')'' then (d - 1, False, d - 1 = 0)
      else (d, t = encode ''contents'', False))"

text \<open>The tokens an archive takes, the state behind them, and whether it ended.\<close>

fun scan :: "int \<Rightarrow> bool \<Rightarrow> bytes list \<Rightarrow> int \<times> bool \<times> bytes list \<times> bool" where
  "scan d a [] = (d, a, [], False)"
| "scan d a (t # ts) =
     (case tok_step d a t of (d', a', fin) \<Rightarrow> if fin then (d', a', ts, True) else scan d' a' ts)"

lemma scan_length: "scan d a ts = (d', a', us, fin) \<Longrightarrow> length us \<le> length ts"
  by (induction ts arbitrary: d a) (fastforce split: prod.splits if_splits)+

text \<open>A tree whose names and targets are not taken for the structure.\<close>

fun plain_node :: "nar_node \<Rightarrow> bool" and plain_entries :: "(string \<times> nar_node) list \<Rightarrow> bool" where
  "plain_node (NarDirectory entries) = plain_entries entries"
| "plain_node (NarRegular contents executable) = True"
| "plain_node (NarSymlink target) = (target \<notin> {''('', '')'', ''contents''})"
| "plain_entries [] = True"
| "plain_entries ((name, child) # es) = (name \<notin> {''('', '')''} \<and> plain_node child \<and> plain_entries es)"

lemma encode_eq_iff [simp]: "encode s = encode t \<longleftrightarrow> s = t"
  by (metis decode_encode)

lemma encode_eq_Nil2 [simp]: "[] = encode s \<longleftrightarrow> s = []"
  by (metis encode_eq_Nil)

lemma scan_plain:
  "plain_node node \<Longrightarrow> 0 \<le> d \<Longrightarrow>
     scan d False (tokens node @ ts) = (if d = 0 then (0, False, ts, True) else scan d False ts)"
  "plain_entries es \<Longrightarrow> 0 < d \<Longrightarrow> scan d False (entry_tokens es @ ts) = scan d False ts"
  by (induction node and es arbitrary: d ts and d ts rule: tokens_entry_tokens.induct)
    (auto simp: tok_step_def)

lemma scan_archive:
  "plain_node node \<Longrightarrow> scan 0 False (encode ''nix-archive-1'' # tokens node @ ts) = (0, False, ts, True)"
  using scan_plain(1) [of node 0 ts] by (simp add: tok_step_def)

section \<open>The forwarder and the tokens\<close>

lemma decode_eq_iff: "decode b = s \<longleftrightarrow> b = encode s"
  by auto

lemma nf_update_depth_step:
  assumes "tok_step (nf_depth f) (nf_after_contents f) body = (d, a, fin)" and "\<not> nf_complete f"
  shows "nf_update_depth body f = f\<lparr>nf_depth := d, nf_after_contents := a, nf_complete := fin\<rparr>"
proof -
  have "is_ascii ''(''" "is_ascii '')''" "is_ascii ''contents''" by simp_all
  with assms show ?thesis
    by (auto simp: tok_step_def nf_update_depth_def Let_def decode_eq_iff split: if_splits)
qed

lemma nf_consume_first:
  assumes "nf_buf f = framed_bytes t @ rest" and "length t < 2 ^ 64" and "\<not> nf_in_body f"
  shows "nf_consume_token f = (Some (framed_bytes t), f\<lparr>nf_buf := rest, nf_body_len := length t\<rparr>)"
proof -
  have "take 8 (nf_buf f) = uint64_bytes (length t)" using assms(1) by (simp add: framed_bytes_def)
  moreover have "8 + length t + nar_pad (length t) = length (framed_bytes t)"
    by (simp add: nar_pad_eq token_len_def)
  moreover have "8 \<le> length (nf_buf f)" using assms(1) by (simp add: token_len_def)
  ultimately show ?thesis using assms
    by (simp add: nf_consume_token_def le_unpack_uint64_bytes del: length_framed_token)
qed

lemma nf_feed_loop_scan:
  assumes "nf_buf f = token_bytes ts @ rest" and "\<forall>t \<in> set ts. length t < 2 ^ 64"
    and "\<not> nf_in_body f" and "\<not> nf_complete f"
    and "scan (nf_depth f) (nf_after_contents f) ts = (d, a, us, True)"
  shows "\<exists>f'. nf_feed_loop f = (map framed_bytes (take (length ts - length us) ts), f') \<and>
    nf_complete f' \<and> nf_buf f' = token_bytes us @ rest"
  using assms
proof (induction ts arbitrary: f)
  case Nil
  then show ?case by simp
next
  case (Cons t ts)
  obtain d' a' fin where st: "tok_step (nf_depth f) (nf_after_contents f) t = (d', a', fin)"
    by (cases "tok_step (nf_depth f) (nf_after_contents f) t")
  let ?f = "f\<lparr>nf_buf := token_bytes ts @ rest, nf_body_len := length t\<rparr>"
  have first: "nf_consume_token f = (Some (framed_bytes t), ?f)"
    using Cons.prems by (intro nf_consume_first) simp_all
  have body: "take (length t) (drop 8 (framed_bytes t)) = t" by (simp add: framed_bytes_def)
  let ?g = "?f\<lparr>nf_depth := d', nf_after_contents := a', nf_complete := fin\<rparr>"
  have upd: "nf_update_depth t ?f = ?g" using st Cons.prems(4) by (intro nf_update_depth_step) simp_all
  have step: "nf_feed_loop f = (if fin then ([framed_bytes t], ?g)
      else case nf_feed_loop ?g of (ts, g) \<Rightarrow> (framed_bytes t # ts, g))"
    by (subst nf_feed_loop.simps) (simp add: first body upd)
  show ?case
  proof (cases fin)
    case True
    with st Cons.prems(5) have "us = ts" by simp
    with True step show ?thesis by simp
  next
    case False
    with st Cons.prems(5) have sc: "scan d' a' ts = (d, a, us, True)" by simp
    have "length us \<le> length ts" by (rule scan_length [OF sc])
    with Cons.IH [of ?g] sc Cons.prems(2,3) False step show ?thesis
      by (auto simp: Suc_diff_le)
  qed
qed

section \<open>Chunks do not matter\<close>

text \<open>What \<open>_consume_token\<close> remembers of a token it has only the head of.\<close>

definition nf_ok :: "nar_forwarder \<Rightarrow> bool" where
  "nf_ok f \<longleftrightarrow> (nf_in_body f \<longrightarrow> 8 \<le> length (nf_buf f) \<and> nf_body_len f = le_unpack (take 8 (nf_buf f)))"

definition nf_more :: "bytes \<Rightarrow> nar_forwarder \<Rightarrow> nar_forwarder" where
  "nf_more b f = f\<lparr>nf_buf := nf_buf f @ b\<rparr>"

lemma nf_more_simps [simp]:
  "nf_depth (nf_more b f) = nf_depth f" "nf_after_contents (nf_more b f) = nf_after_contents f"
  "nf_body_len (nf_more b f) = nf_body_len f" "nf_in_body (nf_more b f) = nf_in_body f"
  "nf_complete (nf_more b f) = nf_complete f" "nf_buf (nf_more b f) = nf_buf f @ b"
  by (simp_all add: nf_more_def)

lemma nf_ok_more: "nf_ok f \<Longrightarrow> nf_ok (nf_more b f)"
  by (auto simp: nf_ok_def)

lemma nf_update_depth_more: "nf_update_depth body (nf_more b f) = nf_more b (nf_update_depth body f)"
  by (simp add: nf_update_depth_def nf_more_def Let_def)

lemma nf_consume_Some_more:
  assumes "nf_consume_token f = (Some tok, f')"
  shows "nf_consume_token (nf_more b f) = (Some tok, nf_more b f')" and "\<not> nf_in_body f'"
  using assms by (auto simp: nf_consume_token_def Let_def nf_more_def split: if_splits)

lemma nf_consume_None_more:
  assumes "nf_consume_token f = (None, f')" and "nf_ok f"
  shows "nf_consume_token (nf_more b f) = nf_consume_token (nf_more b f')" and "nf_ok f'"
    and "nf_complete f' = nf_complete f"
  using assms by (auto simp: nf_consume_token_def Let_def nf_more_def nf_ok_def split: if_splits)

lemma nf_in_body_update_depth [simp]: "nf_in_body (nf_update_depth body f) = nf_in_body f"
  by (simp add: nf_update_depth_def Let_def)

lemma nf_feed_loop_more:
  assumes "nf_ok f" and "\<not> nf_complete f" and "nf_feed_loop f = (ts, g)"
  shows "nf_ok g \<and> nf_feed_loop (nf_more b f) =
    (if nf_complete g then (ts, nf_more b g)
     else case nf_feed_loop (nf_more b g) of (us, h) \<Rightarrow> (ts @ us, h))"
  using assms
proof (induction f arbitrary: ts g rule: nf_feed_loop.induct)
  case (1 f)
  show ?case
  proof (cases "nf_consume_token f")
    case (Pair r f')
    show ?thesis
    proof (cases r)
      case None
      with Pair "1.prems" have "ts = []" "g = f'" by (auto simp: nf_feed_loop.simps [of f])
      moreover have "nf_feed_loop (nf_more b f) = nf_feed_loop (nf_more b f')"
        using nf_consume_None_more(1) [of f f' b] Pair None "1.prems"(1)
        by (simp add: nf_feed_loop.simps [of "nf_more b f"] nf_feed_loop.simps [of "nf_more b f'"])
      ultimately show ?thesis
        using nf_consume_None_more(2,3) [of f f'] Pair None "1.prems"(1,2) by simp
    next
      case (Some tok)
      let ?f = "nf_update_depth (take (nf_body_len f') (drop 8 tok)) f'"
      have consume: "nf_consume_token f = (Some tok, f')" using Pair Some by simp
      note more = nf_consume_Some_more(1) [OF consume, of b] nf_consume_Some_more(2) [OF consume]
      have loop: "nf_feed_loop (nf_more b f) = (if nf_complete ?f then ([tok], nf_more b ?f)
          else case nf_feed_loop (nf_more b ?f) of (us, h) \<Rightarrow> (tok # us, h))"
        by (subst nf_feed_loop.simps) (simp add: more(1) nf_update_depth_more Let_def)
      have ok: "nf_ok ?f" using more(2) by (simp add: nf_ok_def)
      show ?thesis
      proof (cases "nf_complete ?f")
        case True
        with consume "1.prems"(3) have "ts = [tok]" "g = ?f" by (auto simp: nf_feed_loop.simps [of f] Let_def)
        with True loop ok show ?thesis by simp
      next
        case False
        obtain ts' where ts: "nf_feed_loop ?f = (ts', g)" "ts = tok # ts'"
          using consume "1.prems"(3) False by (auto simp: nf_feed_loop.simps [of f] Let_def split: prod.splits)
        from "1.IH" [OF consume [symmetric] refl _ False ok False ts(1)] ts(2) False loop show ?thesis
          by (auto split: prod.splits)
      qed
    qed
  qed
qed

lemma nf_ok_feed: "nf_ok f \<Longrightarrow> nf_feed d f = (ts, g) \<Longrightarrow> nf_ok g"
  using nf_feed_loop_more [of "nf_more d f" ts g] nf_ok_more [of f d]
  by (auto simp: nf_feed_def nf_more_def split: if_splits)

text \<open>
  Feeding chunks one by one yields the tokens that feeding all of it at once yields; the state is
  the same too, but for the bytes behind a completed archive, which later chunks no longer add.
\<close>

lemma nf_feed_append:
  assumes "nf_ok f" and "nf_feed a f = (ts, g)" and "nf_feed b g = (us, h)"
  shows "nf_ok h \<and> (\<exists>k. nf_feed (a @ b) f = (ts @ us, k) \<and> nf_complete k = nf_complete h \<and>
    (\<not> nf_complete h \<longrightarrow> k = h))"
proof (cases "nf_complete f")
  case True
  with assms show ?thesis by (simp add: nf_feed_def)
next
  case False
  let ?f = "nf_more a f"
  have "f\<lparr>nf_buf := nf_buf f @ a @ b\<rparr> = nf_more b ?f" by (simp add: nf_more_def)
  with False assms(2) have loops: "nf_feed_loop ?f = (ts, g)" "nf_feed (a @ b) f = nf_feed_loop (nf_more b ?f)"
    by (simp_all add: nf_feed_def nf_more_def)
  have "nf_ok ?f" "\<not> nf_complete ?f" using assms(1) False by (simp_all add: nf_ok_more)
  from nf_feed_loop_more [OF this loops(1), of b]
  have more: "nf_ok g" "nf_feed_loop (nf_more b ?f) = (if nf_complete g then (ts, nf_more b g)
     else case nf_feed_loop (nf_more b g) of (us, h) \<Rightarrow> (ts @ us, h))" by auto
  show ?thesis
  proof (cases "nf_complete g")
    case True
    with assms(3) loops more show ?thesis by (simp add: nf_feed_def)
  next
    case False
    then have h: "nf_feed_loop (nf_more b g) = (us, h)" using assms(3) by (simp add: nf_feed_def nf_more_def)
    with False more have "nf_ok h" using nf_feed_loop_more [of "nf_more b g" us h] by (simp add: nf_ok_more)
    with h False loops more show ?thesis by simp
  qed
qed

lemma nf_feed_all_concat:
  assumes "nf_ok f" and "nf_feed_all ds f = (ts, g)" and "ds \<noteq> []"
  shows "\<exists>h. nf_feed (concat ds) f = (ts, h) \<and> nf_complete h = nf_complete g"
  using assms
proof (induction ds arbitrary: f ts)
  case Nil
  then show ?case by simp
next
  case (Cons d ds)
  obtain us f1 where u: "nf_feed d f = (us, f1)" by (cases "nf_feed d f")
  show ?case
  proof (cases "ds = []")
    case True
    with Cons.prems u show ?thesis by simp
  next
    case False
    obtain vs where v: "nf_feed_all ds f1 = (vs, g)" "ts = us @ vs"
      using Cons.prems(2) u by (auto split: prod.splits)
    have "nf_ok f1" by (rule nf_ok_feed [OF Cons.prems(1) u])
    from Cons.IH [OF this v(1) False] obtain h where
      h: "nf_feed (concat ds) f1 = (vs, h)" "nf_complete h = nf_complete g" by blast
    from nf_feed_append [OF Cons.prems(1) u h(1)] h(2) v(2) show ?thesis by auto
  qed
qed

section \<open>What stream_parse_nar copies\<close>

context framed_pump
begin

lemma put_bytes:
  obtains w where "wr bs (pm_dst p) = (Inr (), w)" and "written w = written (pm_dst p) @ bs"
  using write_appends by blast

lemma copy_bytes_ok:
  assumes "good (pm_src p)" and "rest (pm_src p) = data @ bs"
  obtains p' where "copy_bytes rx wr (length data) p = (Inr data, p')"
    and "good (pm_src p')" and "rest (pm_src p') = bs" and "written (pm_dst p') = written (pm_dst p) @ data"
proof (cases "data = []")
  case True
  with assms show thesis by (intro that [of p]) (simp_all add: copy_bytes_def)
next
  case False
  obtain s where s: "rx (length data) (pm_src p) = (Inr data, s)" "good s" "rest s = bs"
    by (rule rx_rest [OF assms])
  obtain w where w: "wr data (pm_dst p) = (Inr (), w)" "written w = written (pm_dst p) @ data"
    by (rule put_bytes)
  show thesis
    by (rule that [of "p\<lparr>pm_src := s, pm_dst := w\<rparr>"])
      (use False s w in \<open>simp_all add: copy_bytes_def bind_apply pm_on_src_Inr pm_on_dst_def\<close>)
qed

lemma fwd_token_ok:
  assumes "good (pm_src p)" and "rest (pm_src p) = framed_bytes t @ bs" and "length t < 2 ^ 64"
  shows "\<exists>p' since' cs. fwd_token rx wr dr chunk since chunks p = (Inr (t, since', chunks @ cs), p') \<and>
    concat cs = framed_bytes t \<and> good (pm_src p') \<and> rest (pm_src p') = bs \<and>
    written (pm_dst p') = written (pm_dst p) @ framed_bytes t"
proof -
  let ?pad = "replicate (nar_pad (length t)) (0 :: byte)"
  have r: "rest (pm_src p) = uint64_bytes (length t) @ t @ ?pad @ bs"
    using assms(2) by (simp add: framed_bytes_def nar_pad_eq)
  obtain s where s: "nr_read_uint64 rx (pm_src p) = (Inr (int (length t)), s)" "good s" "rest s = t @ ?pad @ bs"
    by (rule read_uint64_rest [OF assms(1) r assms(3)])
  obtain w where w: "nw_write_uint64 wr (int (length t)) (pm_dst p) = (Inr (), w)"
    "written w = written (pm_dst p) @ uint64_bytes (length t)"
    using write_uint64_appends [of "int (length t)" "pm_dst p"] nat_less_2_64 [OF assms(3)] by auto
  let ?p = "p\<lparr>pm_src := s, pm_dst := w\<rparr>"
  have p: "good (pm_src ?p)" "rest (pm_src ?p) = t @ ?pad @ bs" using s by simp_all
  obtain p1 where p1: "copy_bytes rx wr (length t) ?p = (Inr t, p1)" "good (pm_src p1)" "rest (pm_src p1) = ?pad @ bs"
    "written (pm_dst p1) = written (pm_dst ?p) @ t"
    by (rule copy_bytes_ok [OF p])
  obtain p2 where p2: "copy_bytes rx wr (length ?pad) p1 = (Inr ?pad, p2)" "good (pm_src p2)" "rest (pm_src p2) = bs"
    "written (pm_dst p2) = written (pm_dst p1) @ ?pad"
    by (rule copy_bytes_ok [OF p1(2,3)])
  obtain w3 where w3: "dr (pm_dst p2) = (Inr (), w3)" "written w3 = written (pm_dst p2)" using drain_same by blast
  let ?since = "since + 8 + length t + nar_pad (length t)"
  let ?cs = "[uint64_bytes (length t), t, ?pad]"
  have run: "fwd_token rx wr dr chunk since chunks p =
      (if chunk \<le> ?since then (Inr (t, 0, chunks @ ?cs), p2\<lparr>pm_dst := w3\<rparr>) else (Inr (t, ?since, chunks @ ?cs), p2))"
    using s(1) w(1) p1(1) p2(1) w3(1)
    by (simp add: fwd_token_def bind_apply [of "pm_on_src (nr_read_uint64 rx)"]
        bind_apply [of "pm_on_dst (nw_write_uint64 wr _)"] pm_on_src_Inr pm_on_dst_def bind_Inr Let_def)
  have cs: "concat ?cs = framed_bytes t" by (simp add: framed_bytes_def nar_pad_eq)
  have out: "written (pm_dst p2) = written (pm_dst p) @ framed_bytes t"
    using p2(4) p1(4) w(2) by (simp add: framed_bytes_def nar_pad_eq)
  show ?thesis
  proof (cases "chunk \<le> ?since")
    case True
    show ?thesis
      by (rule exI [of _ "p2\<lparr>pm_dst := w3\<rparr>"], rule exI [of _ 0], rule exI [of _ ?cs])
        (use True run cs out p2(2,3) w3(2) in simp)
  next
    case False
    show ?thesis
      by (rule exI [of _ p2], rule exI [of _ ?since], rule exI [of _ ?cs])
        (use False run cs out p2(2,3) in simp)
  qed
qed

lemma parse_loop_step:
  assumes "fwd_token rx wr dr chunk since chunks p = (Inr (t, since', chunks'), p')"
    and "tok_step d a t = (d', a', fin)"
  shows "parse_loop rx wr dr chunk (Suc fuel) since chunks d a p =
    (if fin then (Inr chunks', p') else parse_loop rx wr dr chunk fuel since' chunks' d' a' p')"
proof -
  have "is_ascii ''(''" "is_ascii '')''" "is_ascii ''contents''" by simp_all
  with assms show ?thesis
    by (auto simp: bind_Inr [of "fwd_token rx wr dr chunk since chunks", OF assms(1)] tok_step_def Let_def decode_eq_iff split: if_splits)
qed

lemma parse_loop_scan:
  assumes "good (pm_src p)" and "rest (pm_src p) = token_bytes ts @ bs"
    and "\<forall>t \<in> set ts. length t < 2 ^ 64" and "scan d a ts = (d', a', [], True)" and "length ts < fuel"
  shows "\<exists>p' cs. parse_loop rx wr dr chunk fuel since chunks d a p = (Inr (chunks @ cs), p') \<and>
    concat cs = token_bytes ts \<and> good (pm_src p') \<and> rest (pm_src p') = bs \<and>
    written (pm_dst p') = written (pm_dst p) @ token_bytes ts"
  using assms
proof (induction ts arbitrary: p d a fuel since chunks)
  case Nil
  then show ?case by simp
next
  case (Cons t ts)
  then obtain k where fuel: "fuel = Suc k" by (cases fuel) auto
  obtain d1 a1 fin where st: "tok_step d a t = (d1, a1, fin)" by (cases "tok_step d a t")
  have "rest (pm_src p) = framed_bytes t @ token_bytes ts @ bs" using Cons.prems(2) by simp
  from fwd_token_ok [OF Cons.prems(1) this, of chunk since chunks] Cons.prems(3)
  obtain p1 since1 cs1 where
    p1: "fwd_token rx wr dr chunk since chunks p = (Inr (t, since1, chunks @ cs1), p1)" "concat cs1 = framed_bytes t"
      "good (pm_src p1)" "rest (pm_src p1) = token_bytes ts @ bs"
      "written (pm_dst p1) = written (pm_dst p) @ framed_bytes t"
    by auto
  note step = parse_loop_step [OF p1(1) st, of k]
  show ?case
  proof (cases fin)
    case True
    with st Cons.prems(4) have "ts = []" by simp
    with True step p1 fuel show ?thesis by auto
  next
    case False
    with st Cons.prems(4) have "scan d1 a1 ts = (d', a', [], True)" by simp
    from Cons.IH [OF p1(3,4) _ this, of k since1 "chunks @ cs1"] Cons.prems(3,5) fuel obtain p2 cs2 where
      "parse_loop rx wr dr chunk k since1 (chunks @ cs1) d1 a1 p1 = (Inr ((chunks @ cs1) @ cs2), p2)"
      "concat cs2 = token_bytes ts" "good (pm_src p2)" "rest (pm_src p2) = bs"
      "written (pm_dst p2) = written (pm_dst p1) @ token_bytes ts"
      by auto
    with False step p1(2,5) fuel show ?thesis
      by (intro exI [of _ p2] exI [of _ "cs1 @ cs2"]) simp
  qed
qed

lemma stream_parse_nar_result:
  assumes "good (pm_src p)" and "rest (pm_src p) = token_bytes ts @ bs"
    and "\<forall>t \<in> set ts. length t < 2 ^ 64" and "scan 0 False ts = (d', a', [], True)" and "length ts < fuel"
  shows "\<exists>p'. stream_parse_nar rx wr dr chunk fuel capture p =
      (Inr (if capture then Some (token_bytes ts) else None), p') \<and> good (pm_src p') \<and> rest (pm_src p') = bs \<and>
    written (pm_dst p') = written (pm_dst p) @ token_bytes ts"
proof -
  from parse_loop_scan [OF assms, of chunk 0 "[]"] obtain p1 cs where
    p1: "parse_loop rx wr dr chunk fuel 0 [] 0 False p = (Inr cs, p1)" "concat cs = token_bytes ts"
      "good (pm_src p1)" "rest (pm_src p1) = bs" "written (pm_dst p1) = written (pm_dst p) @ token_bytes ts"
    by auto
  obtain w where w: "dr (pm_dst p1) = (Inr (), w)" "written w = written (pm_dst p1)" using drain_same by blast
  have "stream_parse_nar rx wr dr chunk fuel capture p =
      (Inr (if capture then Some (token_bytes ts) else None), p1\<lparr>pm_dst := w\<rparr>)"
    using p1(1,2) w(1) by (simp add: stream_parse_nar_def bind_Inr pm_on_dst_Inr)
  with p1(3-5) w(2) show ?thesis by auto
qed

end

section \<open>What forward_nar copies\<close>

lemma nf_feed_settled:
  assumes "nf_ok f" and "nf_feed d f = (ts, g)" and "\<not> nf_complete g"
  shows "fst (nf_feed [] g) = []"
proof -
  obtain us h where u: "nf_feed [] g = (us, h)" by (cases "nf_feed [] g")
  from nf_feed_append [OF assms(1,2) u] assms(2) have "ts = ts @ us" by auto
  with u show ?thesis by simp
qed

context byte_source
begin

lemma forward_nar_loop_result:
  assumes "good s" and "nf_ok f" and "fst (nf_feed [] f) = []" and "nf_feed (flow s) f = (ts, k)"
    and "length (flow s) < fuel"
  shows "\<exists>s'. forward_nar_loop rd fuel f n (s, dst) =
    (Inr (n + length (concat ts)), (s', dst @ concat ts))"
  using assms
proof (induction fuel arbitrary: s f n dst ts k)
  case 0
  then show ?case by simp
next
  case (Suc fuel)
  have pos: "(0 :: nat) < 65536" by simp
  show ?case
  proof (cases "flow s = []")
    case True
    from read_end [OF Suc.prems(1) pos True] obtain s' where "rd 65536 s = (Inr [], s')" by blast
    moreover have "ts = []" using Suc.prems(3,4) True by simp
    ultimately show ?thesis by simp
  next
    case False
    from read_some [OF Suc.prems(1) pos False] obtain j s1 where
      j: "0 < j" "j \<le> length (flow s)" "rd 65536 s = (Inr (take j (flow s)), s1)" "good s1"
        "flow s1 = drop j (flow s)" by blast
    let ?c = "take j (flow s)"
    have ne: "?c \<noteq> []" using j(1) False by auto
    obtain us f1 where u: "nf_feed ?c f = (us, f1)" by (cases "nf_feed ?c f")
    obtain vs f2 where v: "nf_feed (flow s1) f1 = (vs, f2)" by (cases "nf_feed (flow s1) f1")
    have ts: "ts = us @ vs" using nf_feed_append [OF Suc.prems(2) u v] Suc.prems(4) j(5) by auto
    show ?thesis
    proof (cases "nf_complete f1")
      case True
      then have "vs = []" using v by (simp add: nf_feed_def)
      with True ts u ne j(3) show ?thesis by (simp add: length_concat)
    next
      case False
      from Suc.IH [OF j(4) nf_ok_feed [OF Suc.prems(2) u] nf_feed_settled [OF Suc.prems(2) u False] v,
          of "n + length (concat us)" "dst @ concat us"] Suc.prems(5) j(1,2,5) ne False u ts j(3)
      show ?thesis by (simp add: length_concat add.assoc)
    qed
  qed
qed

end

section \<open>The properties of the scanners\<close>

lemma tokens_small:
  "nar_ok node \<Longrightarrow> \<forall>t \<in> set (tokens node). length t < 2 ^ 64"
  "entries_ok es \<Longrightarrow> \<forall>t \<in> set (entry_tokens es). length t < 2 ^ 64"
  by (induction node and es rule: tokens_entry_tokens.induct) auto

lemma feed_archive:
  assumes "nar_ok node" and "plain_node node"
  shows "\<exists>f ts. nf_feed (archive node @ after) nf_new = (ts, f) \<and> concat ts = archive node \<and> nf_complete f \<and>
    nf_buf f = after"
proof -
  let ?ts = "encode ''nix-archive-1'' # tokens node"
  let ?f = "nf_new\<lparr>nf_buf := archive node @ after\<rparr>"
  have "scan (nf_depth ?f) (nf_after_contents ?f) ?ts = (0, False, [], True)"
    using scan_archive [OF assms(2), of "[]"] by (simp add: nf_new_def)
  moreover have "nf_buf ?f = token_bytes ?ts @ after" by (simp add: archive_def)
  moreover have "\<forall>t \<in> set ?ts. length t < 2 ^ 64" using tokens_small(1) [OF assms(1)] by simp
  ultimately obtain f where "nf_feed_loop ?f = (map framed_bytes ?ts, f)" "nf_complete f" "nf_buf f = after"
    using nf_feed_loop_scan [of ?f ?ts after 0 False "[]"] by (auto simp: nf_new_def)
  then show ?thesis by (auto simp: nf_feed_def nf_new_def archive_def token_bytes_def)
qed

text \<open>
  C36. However an archive is cut into chunks, and whatever follows it, a \<open>NarForwarder\<close> fed the
  chunks yields exactly the archive and then is complete, provided the tree is \<open>plain_node\<close>: no entry of
  it is named "(" or ")" and no symbolic link points to "(", ")" or "contents". The forwarder takes these words
  for structure wherever they stand (\<open>stream_parse_nar_stops_at_name\<close> has the case of a name).
\<close>

theorem forwarder_yields_archive:
  assumes "nar_ok node" and "plain_node node" and "concat ds = archive node @ after"
  shows "\<exists>ts f. nf_feed_all ds nf_new = (ts, f) \<and> nf_complete f \<and> concat ts = archive node"
proof -
  obtain ts f where f: "nf_feed_all ds nf_new = (ts, f)" by (cases "nf_feed_all ds nf_new")
  have "ds \<noteq> []" using assms(3) by (auto simp: archive_def framed_bytes_def)
  then obtain h where "nf_feed (concat ds) nf_new = (ts, h)" "nf_complete h = nf_complete f"
    using nf_feed_all_concat [OF _ f] by (auto simp: nf_ok_def nf_new_def)
  with feed_archive [OF assms(1,2), of after] assms(3) f show ?thesis by auto
qed

theorem forwarder_yields_archive_witness:
  "\<exists>ts f. nf_feed_all [take 21 (archive (NarRegular [5] False)), drop 21 (archive (NarRegular [5] False)) @ [9]] nf_new = (ts, f) \<and>
     nf_complete f \<and> concat ts = archive (NarRegular [5] False)"
  by (rule forwarder_yields_archive [where after = "[9]"]) simp_all

text \<open>
  \<open>forward_nar\<close> copies the archive at the front of a source, stops there, and returns the
  number of bytes copied.
\<close>

theorem forward_nar_copies:
  assumes "nar_ok node" and "plain_node node" and "fr_good br_ok remaining src"
    and "fr_rest remaining src = archive node @ after" and "length (archive node @ after) < fuel"
  shows "\<exists>src'. forward_nar (fr_read br_readexactly) fuel (src, []) =
    (Inr (length (archive node)), (src', archive node))"
proof -
  obtain f ts where f: "nf_feed (archive node @ after) nf_new = (ts, f)" "concat ts = archive node"
    using feed_archive [OF assms(1,2), of after] by blast
  have "nf_ok nf_new" "fst (nf_feed [] nf_new) = []"
    by (simp_all add: nf_ok_def nf_new_def nf_feed_def nf_feed_loop.simps nf_consume_token_def)
  from framed.forward_nar_loop_result [OF assms(3) this, of ts f fuel 0 "[]"] f assms(4,5)
  show ?thesis by (simp add: forward_nar_def)
qed

theorem forward_nar_copies_witness:
  "\<exists>src'. forward_nar (fr_read br_readexactly) (Suc (length (archive (NarRegular [5] False) @ [9])))
      (fr_new \<lparr>br_data = frames [archive (NarRegular [5] False), [9]] @ [], br_position = 0\<rparr>, []) =
    (Inr (length (archive (NarRegular [5] False))), (src', archive (NarRegular [5] False)))"
proof (rule forward_nar_copies [where after = "[9]"])
  let ?src = "\<lparr>br_data = frames [archive (NarRegular [5] False), [9]] @ [], br_position = 0\<rparr>"
  have "frames_ok [archive (NarRegular [5] False), [9]]"
    by (simp add: frames_ok_def archive_def token_len_def pad_len_def framed_bytes_def)
  from fr_new_state [of br_ok ?src remaining _ "[]", OF _ _ this]
  show "fr_good br_ok remaining (fr_new ?src)"
    and "fr_rest remaining (fr_new ?src) = archive (NarRegular [5] False) @ [9]"
    by (simp_all add: br_ok_def remaining_def)
qed simp_all

text \<open>
  \<open>stream_parse_nar\<close> copies exactly the archive at the front of its source to its destination,
  leaves the source right behind it, and returns it when it captures.
\<close>

theorem stream_parse_nar_copies:
  assumes "nar_ok node" and "plain_node node" and "br_ok src" and "remaining src = archive node @ after"
    and "length (archive node) < fuel"
  shows "\<exists>p. stream_parse_nar br_readexactly nw_write nw_drain chunk fuel capture
      \<lparr>pm_src = src, pm_dst = w, pm_sizes = [], pm_chunks = []\<rparr> =
      (Inr (if capture then Some (archive node) else None), p) \<and>
    remaining (pm_src p) = after \<and> nw_written (pm_dst p) = nw_written w @ archive node"
proof -
  let ?ts = "encode ''nix-archive-1'' # tokens node"
  have "scan 0 False ?ts = (0, False, [], True)" using scan_archive [OF assms(2), of "[]"] by simp
  moreover have "\<forall>t \<in> set ?ts. length t < 2 ^ 64" using tokens_small(1) [OF assms(1)] by simp
  moreover have "length ?ts < fuel" using length_tokens_le [of ?ts] assms(5) by (simp add: archive_def)
  ultimately show ?thesis
    using bytes_to_coalescing.stream_parse_nar_result
      [of "\<lparr>pm_src = src, pm_dst = w, pm_sizes = [], pm_chunks = []\<rparr>" ?ts after 0 False fuel chunk capture] assms(3,4)
    unfolding archive_def by auto
qed

theorem stream_parse_nar_copies_witness:
  "\<exists>p. stream_parse_nar br_readexactly nw_write nw_drain 64 (Suc (length (archive (NarRegular [5] True)))) True
      \<lparr>pm_src = \<lparr>br_data = archive (NarRegular [5] True) @ [9], br_position = 0\<rparr>,
       pm_dst = \<lparr>nw_pending = [], nw_transport = [], nw_bytes_written = 0\<rparr>,
       pm_sizes = [], pm_chunks = []\<rparr> =
      (Inr (if True then Some (archive (NarRegular [5] True)) else None), p) \<and>
    remaining (pm_src p) = [9] \<and>
    nw_written (pm_dst p) = nw_written \<lparr>nw_pending = [], nw_transport = [], nw_bytes_written = 0\<rparr> @
      archive (NarRegular [5] True)"
  by (rule stream_parse_nar_copies) (simp_all add: br_ok_def remaining_def)

text \<open>
  The proviso is needed: a directory with an entry named \<open>)\<close> is an archive that \<open>write_nar\<close>
  writes and \<open>parse_nar\<close> reads, and \<open>stream_parse_nar\<close> takes the name for the end of it. It returns
  normally, and leaves the end of the archive unread in front of the next operation.
\<close>

theorem stream_parse_nar_stops_at_name:
  "\<exists>data p. write_nar (NarDirectory [('')'', NarRegular [] False)]) = Inr data \<and>
     parse_nar data = Inr (NarDirectory [('')'', NarRegular [] False)]) \<and>
     stream_parse_nar br_readexactly nw_write nw_drain 64 64 False
      \<lparr>pm_src = \<lparr>br_data = data, br_position = 0\<rparr>, pm_dst = w, pm_sizes = [], pm_chunks = []\<rparr> = (Inr None, p) \<and>
     remaining (pm_src p) \<noteq> []"
proof -
  let ?node = "NarDirectory [('')'', NarRegular [] False)]"
  let ?all = "encode ''nix-archive-1'' # tokens ?node"
  let ?ts = "take 16 ?all"
  let ?bs = "token_bytes (drop 16 ?all)"
  let ?p = "\<lparr>pm_src = \<lparr>br_data = archive ?node, br_position = 0\<rparr>, pm_dst = w, pm_sizes = [], pm_chunks = []\<rparr>"
  have "archive ?node = token_bytes ?ts @ ?bs"
    unfolding archive_def token_bytes_simps(3) [symmetric] append_take_drop_id ..
  then have r: "br_ok (pm_src ?p)" "remaining (pm_src ?p) = token_bytes ?ts @ ?bs"
    by (simp_all add: br_ok_def remaining_def)
  have sc: "scan 0 False ?ts = (0, False, [], True)" by (simp add: tok_step_def)
  have small: "\<forall>t \<in> set ?ts. length t < 2 ^ 64" by simp
  have fuel: "length ?ts < 64" by simp
  from bytes_to_coalescing.stream_parse_nar_result [OF r small sc fuel, of 64 False] obtain p where
    p: "stream_parse_nar br_readexactly nw_write nw_drain 64 64 False ?p = (Inr None, p)" "remaining (pm_src p) = ?bs"
    by auto
  have "?bs \<noteq> []" by (simp add: framed_bytes_def)
  with p write_nar_archive [of ?node] parse_archive [of ?node] show ?thesis by auto
qed

end
