(* ===== verification/Nar_Fs.thy ===== *)
theory Nar_Fs
  imports Nar_Scan
begin

text \<open>
  NAR to and from the file system (\<open>pynixd_store/nar_fs.py\<close>): \<open>dump_path\<close> walks a tree of files
  and yields the pieces of its archive, \<open>restore_path\<close> reads an archive from a source of bytes and
  builds the tree, checking the grammar as it goes.

  The file system is the tree below the path: what \<open>lstat\<close>, \<open>listdir\<close>, \<open>readlink\<close> and \<open>read\<close> answer,
  with the entries of a directory in the order \<open>listdir\<close> gives them. A file that shrinks while it is
  read and the errors of the system calls are not modelled.
\<close>

section \<open>The tree of files\<close>

datatype fs_node =
    FsRegular bytes bool
  | FsDirectory "(bytes \<times> fs_node) list"
  | FsSymlink bytes
  | FsOther

definition MAX_DEPTH :: nat where "MAX_DEPTH = 64"
definition MAX_TAG :: nat where "MAX_TAG = 32"
definition MAX_NAME :: nat where "MAX_NAME = 255"
definition MAX_TARGET :: nat where "MAX_TARGET = 4095"
definition FS_CHUNK :: nat where "FS_CHUNK = 64 * 1024"
definition NAR_MAGIC :: bytes where "NAR_MAGIC = encode ''nix-archive-1''"

section \<open>Dumping\<close>

text \<open>The generator's buffer and the pieces it has yielded.\<close>

record dump =
  du_out :: bytes
  du_pieces :: "bytes list"

definition nar_string :: "bytes \<Rightarrow> error + bytes" where
  "nar_string data =
     andthen (pack_uint64 (int (length data))) (\<lambda>len. Inr (len @ data @ replicate (pad_len (length data)) 0))"

definition du_extend :: "bytes \<Rightarrow> (dump, unit) eff" where
  "du_extend bs = (\<lambda>d. (Inr (), d\<lparr>du_out := du_out d @ bs\<rparr>))"

definition du_string :: "bytes \<Rightarrow> (dump, unit) eff" where
  "du_string data = bind (of_result (nar_string data)) du_extend"

definition du_yield :: "bytes \<Rightarrow> (dump, unit) eff" where
  "du_yield piece = (\<lambda>d. (Inr (), d\<lparr>du_pieces := du_pieces d @ [piece]\<rparr>))"

definition du_flush :: "(dump, unit) eff" where
  "du_flush = (\<lambda>d. (Inr (), if du_out d \<noteq> [] then \<lparr>du_out = [], du_pieces = du_pieces d @ [du_out d]\<rparr> else d))"

function du_chunks :: "bytes \<Rightarrow> (dump, unit) eff" where
  "du_chunks left =
     (if left = [] then ret ()
      else bind (du_yield (take FS_CHUNK left)) (\<lambda>_. du_chunks (drop FS_CHUNK left)))"
  by pat_completeness auto
termination
  by (relation "measure length") (auto simp: FS_CHUNK_def)

declare du_chunks.simps [simp del]

definition du_contents :: "bytes \<Rightarrow> (dump, unit) eff" where
  "du_contents file =
     bind (du_string (encode ''contents'')) (\<lambda>_.
     bind (of_result (pack_uint64 (int (length file)))) (\<lambda>len.
     bind (du_extend len) (\<lambda>_.
     bind du_flush (\<lambda>_.
     bind (du_chunks file) (\<lambda>_.
     du_extend (replicate (pad_len (length file)) 0))))))"

definition du_close :: "(dump, unit) eff" where
  "du_close =
     bind (du_string (encode '')'')) (\<lambda>_.
     (\<lambda>d. if length (du_out d) \<ge> FS_CHUNK then du_flush d else ret () d))"

primrec du_entries :: "(bytes \<times> (dump, unit) eff) list \<Rightarrow> (dump, unit) eff" where
  "du_entries [] = ret ()"
| "du_entries (e # es) =
     bind (du_string (encode ''entry'')) (\<lambda>_.
     bind (du_string (encode ''('')) (\<lambda>_.
     bind (du_string (encode ''name'')) (\<lambda>_.
     bind (du_string (fst e)) (\<lambda>_.
     bind (du_string (encode ''node'')) (\<lambda>_.
     bind (snd e) (\<lambda>_.
     bind (du_string (encode '')'')) (\<lambda>_.
     du_entries es)))))))"

text \<open>Entries are sorted by the bytes of their names.\<close>

fun dump_node :: "nat \<Rightarrow> fs_node \<Rightarrow> (dump, unit) eff" where
  "dump_node depth node =
     (if depth \<ge> MAX_DEPTH then raise ValueError
      else bind (du_string (encode ''('')) (\<lambda>_.
           bind (du_string (encode ''type'')) (\<lambda>_.
           case node of
             FsRegular contents executable \<Rightarrow>
               bind (du_string (encode ''regular'')) (\<lambda>_.
               bind (if executable
                     then bind (du_string (encode ''executable'')) (\<lambda>_. du_string [])
                     else ret ()) (\<lambda>_.
               bind (du_contents contents) (\<lambda>_. du_close)))
           | FsDirectory entries \<Rightarrow>
               bind (du_string (encode ''directory'')) (\<lambda>_.
               bind (du_entries (sort_key fst (map (\<lambda>e. (fst e, dump_node (Suc depth) (snd e))) entries))) (\<lambda>_.
               du_close))
           | FsSymlink target \<Rightarrow>
               bind (du_string (encode ''symlink'')) (\<lambda>_.
               bind (du_string (encode ''target'')) (\<lambda>_.
               bind (du_string target) (\<lambda>_. du_close)))
           | FsOther \<Rightarrow> raise ValueError)))"

declare dump_node.simps [simp del]

definition dump_path :: "fs_node \<Rightarrow> error + bytes list" where
  "dump_path node =
     (case bind (du_string NAR_MAGIC) (\<lambda>_. bind (dump_node 0 node) (\<lambda>_. du_flush)) \<lparr>du_out = [], du_pieces = []\<rparr> of
        (Inl e, _) \<Rightarrow> Inl e
      | (Inr _, d) \<Rightarrow> Inr (du_pieces d))"

section \<open>Reading an archive\<close>

text \<open>\<open>BadArchive\<close> is a \<open>ValueError\<close>.\<close>

function src_exactly :: "(nat \<Rightarrow> ('s, bytes) eff) \<Rightarrow> nat \<Rightarrow> bytes \<Rightarrow> ('s, bytes) eff" where
  "src_exactly rd n acc s =
     (if n = 0 then (Inr acc, s)
      else case rd n s of
          (Inl e, s') \<Rightarrow> (Inl e, s')
        | (Inr chunk, s') \<Rightarrow>
            if chunk = [] then (Inl ValueError, s')
            else src_exactly rd (n - length chunk) (acc @ chunk) s')"
  by pat_completeness auto
termination
  by (relation "measure (\<lambda>(rd, n, acc, s). n)") (auto simp: neq_Nil_conv)

declare src_exactly.simps [simp del]

definition exactly :: "(nat \<Rightarrow> ('s, bytes) eff) \<Rightarrow> nat \<Rightarrow> ('s, bytes) eff" where
  "exactly rd n = src_exactly rd n []"

definition src_number :: "(nat \<Rightarrow> ('s, bytes) eff) \<Rightarrow> ('s, nat) eff" where
  "src_number rd = bind (exactly rd 8) (\<lambda>b. ret (le_unpack b))"

definition src_padding :: "(nat \<Rightarrow> ('s, bytes) eff) \<Rightarrow> nat \<Rightarrow> ('s, unit) eff" where
  "src_padding rd n =
     (let pad = pad_len n in
      if pad \<noteq> 0
      then bind (exactly rd pad) (\<lambda>b. if b \<noteq> replicate pad 0 then raise ValueError else ret ())
      else ret ())"

definition src_string :: "(nat \<Rightarrow> ('s, bytes) eff) \<Rightarrow> nat \<Rightarrow> ('s, bytes) eff" where
  "src_string rd limit =
     bind (src_number rd) (\<lambda>n.
     if n > limit then raise ValueError
     else bind (exactly rd n) (\<lambda>data. bind (src_padding rd n) (\<lambda>_. ret data)))"

definition src_tag :: "(nat \<Rightarrow> ('s, bytes) eff) \<Rightarrow> string \<Rightarrow> ('s, unit) eff" where
  "src_tag rd expected =
     bind (src_string rd MAX_TAG) (\<lambda>got. if got \<noteq> encode expected then raise ValueError else ret ())"

text \<open>
  The loops of the contents and of a directory read at least a byte a turn; the fuel of a
  restoration bounds both.
\<close>

fun restore_contents :: "(nat \<Rightarrow> ('s, bytes) eff) \<Rightarrow> nat \<Rightarrow> nat \<Rightarrow> bytes \<Rightarrow> ('s, bytes) eff" where
  "restore_contents rd 0 left file = (if left = 0 then ret file else raise OutOfFuel)"
| "restore_contents rd (Suc fuel) left file =
     (if left = 0 then ret file
      else bind (exactly rd (min FS_CHUNK left)) (\<lambda>chunk.
           restore_contents rd fuel (left - length chunk) (file @ chunk)))"

definition restore_executable :: "(nat \<Rightarrow> ('s, bytes) eff) \<Rightarrow> ('s, bool \<times> bytes) eff" where
  "restore_executable rd =
     bind (src_string rd MAX_TAG) (\<lambda>tag.
     if tag = encode ''executable''
     then bind (src_string rd 0) (\<lambda>marker.
          if marker \<noteq> [] then raise ValueError
          else bind (src_string rd MAX_TAG) (\<lambda>tag. ret (True, tag)))
     else ret (False, tag))"

definition restore_blob :: "(nat \<Rightarrow> ('s, bytes) eff) \<Rightarrow> nat \<Rightarrow> ('s, bytes) eff" where
  "restore_blob rd fuel =
     bind (src_number rd) (\<lambda>n.
     bind (restore_contents rd fuel n []) (\<lambda>contents.
     bind (src_padding rd n) (\<lambda>_. ret contents)))"

definition restore_file :: "(nat \<Rightarrow> ('s, bytes) eff) \<Rightarrow> nat \<Rightarrow> ('s, fs_node) eff" where
  "restore_file rd fuel =
     bind (restore_executable rd) (\<lambda>(executable, tag).
     if tag \<noteq> encode ''contents'' then raise ValueError
     else bind (restore_blob rd fuel) (\<lambda>contents.
          bind (src_tag rd '')'') (\<lambda>_.
          ret (FsRegular contents executable))))"

definition bad_name :: "bytes \<Rightarrow> bool" where
  "bad_name name \<longleftrightarrow>
     name \<in> {[], encode ''.'', encode ''..''} \<or> of_char (CHR ''/'') \<in> set name \<or> 0 \<in> set name"

definition src_kind :: "(nat \<Rightarrow> ('s, bytes) eff) \<Rightarrow> ('s, bytes) eff" where
  "src_kind rd = bind (src_tag rd ''('') (\<lambda>_. bind (src_tag rd ''type'') (\<lambda>_. src_string rd MAX_TAG))"

definition src_entry_name :: "(nat \<Rightarrow> ('s, bytes) eff) \<Rightarrow> ('s, bytes) eff" where
  "src_entry_name rd = bind (src_tag rd ''('') (\<lambda>_. bind (src_tag rd ''name'') (\<lambda>_. src_string rd MAX_NAME))"

definition restore_symlink :: "(nat \<Rightarrow> ('s, bytes) eff) \<Rightarrow> ('s, fs_node) eff" where
  "restore_symlink rd =
     bind (src_tag rd ''target'') (\<lambda>_.
     bind (src_string rd MAX_TARGET) (\<lambda>target.
     if target = [] \<or> 0 \<in> set target then raise ValueError
     else bind (src_tag rd '')'') (\<lambda>_. ret (FsSymlink target))))"

fun restore_node :: "(nat \<Rightarrow> ('s, bytes) eff) \<Rightarrow> nat \<Rightarrow> nat \<Rightarrow> ('s, fs_node) eff"
  and restore_entries ::
    "(nat \<Rightarrow> ('s, bytes) eff) \<Rightarrow> nat \<Rightarrow> nat \<Rightarrow> bytes \<Rightarrow> (bytes \<times> fs_node) list \<Rightarrow> ('s, fs_node) eff" where
  "restore_node rd 0 depth = raise OutOfFuel"
| "restore_node rd (Suc fuel) depth =
     (if depth \<ge> MAX_DEPTH then raise ValueError
      else bind (src_kind rd) (\<lambda>kind.
           if kind = encode ''regular'' then restore_file rd fuel
           else if kind = encode ''directory'' then restore_entries rd fuel depth [] []
           else if kind = encode ''symlink'' then restore_symlink rd
           else raise ValueError))"
| "restore_entries rd 0 depth previous acc = raise OutOfFuel"
| "restore_entries rd (Suc fuel) depth previous acc =
     bind (src_string rd MAX_TAG) (\<lambda>tag.
     if tag = encode '')'' then ret (FsDirectory acc)
     else if tag \<noteq> encode ''entry'' then raise ValueError
     else bind (src_entry_name rd) (\<lambda>name.
          if bad_name name then raise ValueError
          else if name \<le> previous then raise ValueError
          else bind (src_tag rd ''node'') (\<lambda>_.
               bind (restore_node rd fuel (Suc depth)) (\<lambda>child.
               bind (src_tag rd '')'') (\<lambda>_.
               restore_entries rd fuel depth name (acc @ [(name, child)]))))))"

text \<open>A magic that cannot be read is a bad archive too, so both raise \<open>ValueError\<close>.\<close>

definition restore_path :: "(nat \<Rightarrow> ('s, bytes) eff) \<Rightarrow> nat \<Rightarrow> ('s, fs_node) eff" where
  "restore_path rd fuel = (\<lambda>s.
     case src_string rd (length NAR_MAGIC) s of
       (Inl e, s') \<Rightarrow> (Inl e, s')
     | (Inr magic, s') \<Rightarrow> if magic \<noteq> NAR_MAGIC then (Inl ValueError, s') else restore_node rd fuel 0 s')"

section \<open>The archive of a tree\<close>

fun fs_tokens :: "fs_node \<Rightarrow> bytes list" where
  "fs_tokens (FsRegular contents executable) =
     encode ''('' # encode ''type'' # encode ''regular'' #
       (if executable then [encode ''executable'', []] else []) @ [encode ''contents'', contents, encode '')'']"
| "fs_tokens (FsDirectory entries) =
     encode ''('' # encode ''type'' # encode ''directory'' #
       concat (map (\<lambda>e. encode ''entry'' # encode ''('' # encode ''name'' # fst e # encode ''node'' #
         fs_tokens (snd e) @ [encode '')'']) entries) @ [encode '')'']"
| "fs_tokens (FsSymlink target) =
     [encode ''('', encode ''type'', encode ''symlink'', encode ''target'', target, encode '')'']"
| "fs_tokens FsOther = []"

definition fs_archive :: "fs_node \<Rightarrow> bytes" where
  "fs_archive node = token_bytes (NAR_MAGIC # fs_tokens node)"

text \<open>The tree with every directory in the order of its names.\<close>

fun sort_fs :: "fs_node \<Rightarrow> fs_node" where
  "sort_fs (FsDirectory entries) =
     FsDirectory (sort_key fst (map (\<lambda>e. (fst e, sort_fs (snd e))) entries))"
| "sort_fs node = node"

text \<open>
  A tree that Nix accepts at a depth: valid distinct names, targets that are not empty and hold no
  zero byte, the limits on lengths, and no more than 64 levels.
\<close>

fun fs_ok :: "nat \<Rightarrow> fs_node \<Rightarrow> bool" where
  "fs_ok depth (FsRegular contents executable) = (depth < MAX_DEPTH \<and> length contents < 2 ^ 64)"
| "fs_ok depth (FsDirectory entries) =
     (depth < MAX_DEPTH \<and> distinct (map fst entries) \<and>
      (\<forall>e \<in> set entries. \<not> bad_name (fst e) \<and> length (fst e) \<le> MAX_NAME \<and> fs_ok (Suc depth) (snd e)))"
| "fs_ok depth (FsSymlink target) =
     (depth < MAX_DEPTH \<and> target \<noteq> [] \<and> 0 \<notin> set target \<and> length target \<le> MAX_TARGET)"
| "fs_ok depth FsOther = False"

fun fs_sorted :: "fs_node \<Rightarrow> bool" where
  "fs_sorted (FsDirectory entries) =
     (sorted_wrt (<) (map fst entries) \<and> (\<forall>e \<in> set entries. fs_sorted (snd e)))"
| "fs_sorted node = True"

section \<open>What dumping yields\<close>

definition dumped :: "dump \<Rightarrow> bytes" where
  "dumped d = concat (du_pieces d) @ du_out d"

definition adds :: "(dump, unit) eff \<Rightarrow> bytes \<Rightarrow> bool" where
  "adds m bs \<longleftrightarrow> (\<forall>d. \<exists>d'. m d = (Inr (), d') \<and> dumped d' = dumped d @ bs)"

lemma adds_bind: "adds m a \<Longrightarrow> adds n b \<Longrightarrow> adds (bind m (\<lambda>_. n)) (a @ b)"
  unfolding adds_def by (metis append_assoc bind_Inr)

lemma adds_ret: "adds (ret ()) []"
  by (simp add: adds_def)

lemma adds_extend: "adds (du_extend bs) bs"
  by (simp add: adds_def du_extend_def dumped_def)

lemma adds_flush: "adds du_flush []"
  by (simp add: adds_def du_flush_def dumped_def)

lemma adds_string: "length bs < 2 ^ 64 \<Longrightarrow> adds (du_string bs) (framed_bytes bs)"
  using adds_extend nat_less_2_64 [of "length bs"]
  by (simp add: du_string_def nar_string_def pack_uint64_ok framed_bytes_def uint64_bytes_def)

lemma du_chunks_apply: "\<exists>ps. du_chunks left d = (Inr (), d\<lparr>du_pieces := du_pieces d @ ps\<rparr>) \<and> concat ps = left"
proof (induction left arbitrary: d rule: du_chunks.induct)
  case (1 left)
  show ?case
  proof (cases "left = []")
    case True
    then show ?thesis by (intro exI [of _ "[]"]) (simp add: du_chunks.simps)
  next
    case False
    from "1.IH" [OF False, of "d\<lparr>du_pieces := du_pieces d @ [take FS_CHUNK left]\<rparr>"] obtain ps where
      "du_chunks (drop FS_CHUNK left) (d\<lparr>du_pieces := du_pieces d @ [take FS_CHUNK left]\<rparr>) =
         (Inr (), d\<lparr>du_pieces := du_pieces d @ take FS_CHUNK left # ps\<rparr>)" "concat ps = drop FS_CHUNK left"
      by auto
    with False show ?thesis
      by (intro exI [of _ "take FS_CHUNK left # ps"])
        (simp add: du_chunks.simps [of left] bind_apply du_yield_def)
  qed
qed

lemma adds_flushed_chunks: "adds (bind du_flush (\<lambda>_. du_chunks file)) file"
  unfolding adds_def
proof
  fix d
  let ?d = "snd (du_flush d)"
  have d: "du_flush d = (Inr (), ?d)" "du_out ?d = []" "dumped ?d = dumped d"
    by (simp_all add: du_flush_def dumped_def)
  obtain ps where "du_chunks file ?d = (Inr (), ?d\<lparr>du_pieces := du_pieces ?d @ ps\<rparr>)" "concat ps = file"
    using du_chunks_apply by blast
  with d show "\<exists>d'. bind du_flush (\<lambda>_. du_chunks file) d = (Inr (), d') \<and> dumped d' = dumped d @ file"
    by (simp add: bind_Inr dumped_def)
qed

lemma adds_contents:
  assumes "length file < 2 ^ 64"
  shows "adds (du_contents file) (framed_bytes (encode ''contents'') @ framed_bytes file)"
proof -
  have eq: "du_contents file = bind (du_string (encode ''contents'')) (\<lambda>_. bind (du_extend (uint64_bytes (length file)))
      (\<lambda>_. bind (bind du_flush (\<lambda>_. du_chunks file)) (\<lambda>_. du_extend (replicate (pad_len (length file)) 0))))"
    using nat_less_2_64 [OF assms] by (simp add: du_contents_def pack_uint64_ok bind_assoc uint64_bytes_def)
  show ?thesis unfolding eq framed_bytes_def [of "file"]
    by (intro adds_bind adds_string adds_extend adds_flushed_chunks) simp
qed

lemma adds_close: "adds du_close (framed_bytes (encode '')''))"
proof -
  have "adds (\<lambda>d. if length (du_out d) \<ge> FS_CHUNK then du_flush d else ret () d) []"
    using adds_flush by (simp add: adds_def)
  then have "adds du_close (framed_bytes (encode '')'') @ [])"
    unfolding du_close_def by (intro adds_bind adds_string) simp_all
  then show ?thesis by simp
qed

lemma adds_entries:
  assumes "\<forall>e \<in> set es. length (fst e) < 2 ^ 64 \<and> adds (m e) (token_bytes (ts e))"
  shows "adds (du_entries (map (\<lambda>e. (fst e, m e)) es))
    (token_bytes (concat (map (\<lambda>e. encode ''entry'' # encode ''('' # encode ''name'' # fst e # encode ''node'' #
         ts e @ [encode '')'']) es)))"
  using assms
proof (induction es)
  case Nil
  show ?case unfolding list.map(1) concat.simps(1) du_entries.simps(1) token_bytes_simps(1) by (rule adds_ret)
next
  case (Cons e es)
  then have e: "length (fst e) < 2 ^ 64" "adds (m e) (token_bytes (ts e))"
    and es: "adds (du_entries (map (\<lambda>e. (fst e, m e)) es))
      (token_bytes (concat (map (\<lambda>e. encode ''entry'' # encode ''('' # encode ''name'' # fst e # encode ''node'' #
         ts e @ [encode '')'']) es)))" by simp_all
  show ?case
    unfolding list.map concat.simps du_entries.simps token_bytes_simps fst_conv snd_conv append_Cons append_assoc append_Nil
    by (intro adds_bind adds_string e es) simp_all
qed

lemma adds_if: "(c \<Longrightarrow> adds m a) \<Longrightarrow> (\<not> c \<Longrightarrow> adds n b) \<Longrightarrow> adds (if c then m else n) (if c then a else b)"
  by simp

lemma du_flush_out: "du_flush s = (x, d) \<Longrightarrow> du_out d = []"
  by (auto simp: du_flush_def split: if_splits)

lemma dump_node_cases:
  assumes "depth < MAX_DEPTH"
  shows "dump_node depth (FsRegular contents executable) =
      bind (du_string (encode ''('')) (\<lambda>_. bind (du_string (encode ''type'')) (\<lambda>_.
      bind (du_string (encode ''regular'')) (\<lambda>_.
      bind (if executable then bind (du_string (encode ''executable'')) (\<lambda>_. du_string []) else ret ()) (\<lambda>_.
      bind (du_contents contents) (\<lambda>_. du_close)))))"
    and "dump_node depth (FsDirectory entries) =
      bind (du_string (encode ''('')) (\<lambda>_. bind (du_string (encode ''type'')) (\<lambda>_.
      bind (du_string (encode ''directory'')) (\<lambda>_.
      bind (du_entries (map (\<lambda>e. (fst e, dump_node (Suc depth) (snd e))) (sort_key fst entries))) (\<lambda>_.
      du_close))))"
    and "dump_node depth (FsSymlink target) =
      bind (du_string (encode ''('')) (\<lambda>_. bind (du_string (encode ''type'')) (\<lambda>_.
      bind (du_string (encode ''symlink'')) (\<lambda>_. bind (du_string (encode ''target'')) (\<lambda>_.
      bind (du_string target) (\<lambda>_. du_close)))))"
  using assms by (simp_all add: dump_node.simps [of depth] sort_key_fst_map)

lemma adds_node: "fs_ok depth node \<Longrightarrow> adds (dump_node depth node) (token_bytes (fs_tokens (sort_fs node)))"
proof (induction node arbitrary: depth)
  case (FsRegular contents executable)
  have tb: "token_bytes (fs_tokens (sort_fs (FsRegular contents executable))) =
      framed_bytes (encode ''('') @ framed_bytes (encode ''type'') @ framed_bytes (encode ''regular'') @
      (if executable then framed_bytes (encode ''executable'') @ framed_bytes [] else []) @
      (framed_bytes (encode ''contents'') @ framed_bytes contents) @ framed_bytes (encode '')'')" by simp
  from FsRegular have d: "depth < MAX_DEPTH" and c: "length contents < 2 ^ 64" by simp_all
  show ?case unfolding tb dump_node_cases(1) [OF d]
    by (intro adds_bind adds_if adds_string adds_contents adds_close adds_ret c) simp_all
next
  case (FsSymlink target)
  have tb: "token_bytes (fs_tokens (sort_fs (FsSymlink target))) =
      framed_bytes (encode ''('') @ framed_bytes (encode ''type'') @ framed_bytes (encode ''symlink'') @
      framed_bytes (encode ''target'') @ framed_bytes target @ framed_bytes (encode '')'')" by simp
  from FsSymlink have d: "depth < MAX_DEPTH" and t: "length target < 2 ^ 64" by (simp_all add: MAX_TARGET_def)
  show ?case unfolding tb dump_node_cases(3) [OF d]
    by (intro adds_bind adds_string adds_close t) simp_all
next
  case (FsDirectory entries)
  let ?es = "sort_key fst entries"
  have tb: "token_bytes (fs_tokens (sort_fs (FsDirectory entries))) =
      framed_bytes (encode ''('') @ framed_bytes (encode ''type'') @ framed_bytes (encode ''directory'') @
      token_bytes (concat (map (\<lambda>e. encode ''entry'' # encode ''('' # encode ''name'' # fst e # encode ''node'' #
         fs_tokens (sort_fs (snd e)) @ [encode '')'']) ?es)) @ framed_bytes (encode '')'')"
    by (simp add: sort_key_fst_map comp_def)
  from FsDirectory.prems have d: "depth < MAX_DEPTH" by simp
  have es: "\<forall>e \<in> set ?es. length (fst e) < 2 ^ 64 \<and>
      adds (dump_node (Suc depth) (snd e)) (token_bytes (fs_tokens (sort_fs (snd e))))"
  proof
    fix e assume "e \<in> set ?es"
    then have e: "e \<in> set entries" by simp
    with FsDirectory.prems have "length (fst e) \<le> MAX_NAME" "fs_ok (Suc depth) (snd e)" by auto
    with FsDirectory.IH [OF e, of "snd e" "Suc depth"] show "length (fst e) < 2 ^ 64 \<and>
        adds (dump_node (Suc depth) (snd e)) (token_bytes (fs_tokens (sort_fs (snd e))))"
      by (cases e) (simp add: MAX_NAME_def)
  qed
  show ?case unfolding tb dump_node_cases(2) [OF d]
    by (intro adds_bind adds_string adds_entries es adds_close) simp_all
next
  case FsOther
  then show ?case by simp
qed

lemma dump_path_archive:
  assumes "fs_ok 0 node"
  shows "\<exists>ps. dump_path node = Inr ps \<and> concat ps = fs_archive (sort_fs node)"
proof -
  have "adds (bind (du_string NAR_MAGIC) (\<lambda>_. bind (dump_node 0 node) (\<lambda>_. du_flush)))
      (framed_bytes NAR_MAGIC @ token_bytes (fs_tokens (sort_fs node)) @ [])"
    by (intro adds_bind adds_string adds_node assms adds_flush) (simp add: NAR_MAGIC_def)
  then obtain d where d: "bind (du_string NAR_MAGIC) (\<lambda>_. bind (dump_node 0 node) (\<lambda>_. du_flush)) \<lparr>du_out = [], du_pieces = []\<rparr> = (Inr (), d)"
    "dumped d = fs_archive (sort_fs node)"
    unfolding adds_def by (fastforce simp: dumped_def fs_archive_def)
  have "du_out d = []"
    using d(1) by (auto simp: bind_ok_iff intro: du_flush_out)
  with d show ?thesis by (auto simp: dump_path_def dumped_def)
qed

section \<open>What the parser takes from a source\<close>

definition gives :: "('s \<Rightarrow> bool) \<Rightarrow> ('s \<Rightarrow> bytes) \<Rightarrow> ('s, 'a) eff \<Rightarrow> 's \<Rightarrow> 'a \<Rightarrow> bytes \<Rightarrow> bool" where
  "gives good flow m s x bs \<longleftrightarrow> (\<exists>s'. m s = (Inr x, s') \<and> good s' \<and> flow s' = bs)"

lemma gives_bind:
  assumes "gives good flow m s x mid" and "\<And>s'. good s' \<Longrightarrow> flow s' = mid \<Longrightarrow> gives good flow (f x) s' y bs"
  shows "gives good flow (bind m f) s y bs"
  using assms unfolding gives_def by (metis bind_Inr)

lemma gives_ret: "good s \<Longrightarrow> flow s = bs \<Longrightarrow> gives good flow (ret x) s x bs"
  by (simp add: gives_def)

context byte_source
begin

lemma src_exactly_result:
  assumes "good s"
  shows "if n \<le> length (flow s)
    then \<exists>s'. src_exactly rd n acc s = (Inr (acc @ take n (flow s)), s') \<and> good s' \<and> flow s' = drop n (flow s)
    else \<exists>s'. src_exactly rd n acc s = (Inl ValueError, s')"
  using assms
proof (induction n arbitrary: s acc rule: less_induct)
  case (less n)
  show ?case
  proof (cases "n = 0")
    case True
    with less.prems show ?thesis by (simp add: src_exactly.simps)
  next
    case False
    then have pos: "0 < n" by simp
    show ?thesis
    proof (cases "flow s = []")
      case True
      from read_end [OF less.prems pos True] obtain s' where "rd n s = (Inr [], s')" by blast
      with True False show ?thesis by (simp add: src_exactly.simps)
    next
      case ne: False
      from read_some [OF less.prems pos ne] obtain k s1 where
        k: "0 < k" "k \<le> n" "k \<le> length (flow s)" "rd n s = (Inr (take k (flow s)), s1)" "good s1"
          "flow s1 = drop k (flow s)" by blast
      let ?c = "take k (flow s)"
      have step: "src_exactly rd n acc s = src_exactly rd (n - k) (acc @ ?c) s1"
        using False k(1,3,4) ne by (subst src_exactly.simps) (auto simp: min_absorb2)
      have "n - k < n" using k(1) pos by simp
      note IH = less.IH [OF this k(5), of "acc @ ?c"]
      have join: "?c @ take (n - k) (drop k (flow s)) = take n (flow s)"
        using k(2) by (metis le_add_diff_inverse take_add)
      have bound: "n - k \<le> length (flow s1) \<longleftrightarrow> n \<le> length (flow s)" using k(2,3,6) by auto
      show ?thesis
        using IH unfolding step bound unfolding k(6) using join k(2) by (simp split: if_splits)
    qed
  qed
qed

lemma exactly_gives:
  "good s \<Longrightarrow> flow s = b @ bs \<Longrightarrow> n = length b \<Longrightarrow> gives good flow (exactly rd n) s b bs"
  using src_exactly_result [of s n "[]"] by (auto simp: gives_def exactly_def)

lemma exactly_inv:
  assumes "exactly rd n s = (Inr b, s')" and "good s"
  shows "flow s = b @ flow s' \<and> length b = n \<and> good s'"
proof (cases "n \<le> length (flow s)")
  case True
  with src_exactly_result [OF assms(2), of n "[]"] assms(1) show ?thesis by (auto simp: exactly_def)
next
  case False
  with src_exactly_result [OF assms(2), of n "[]"] assms(1) show ?thesis by (auto simp: exactly_def)
qed

lemma number_gives:
  assumes "good s" and "flow s = uint64_bytes n @ bs" and "n < 2 ^ 64"
  shows "gives good flow (src_number rd) s n bs"
proof -
  have "gives good flow (exactly rd 8) s (uint64_bytes n) bs" using assms by (intro exactly_gives) simp_all
  then show ?thesis unfolding src_number_def
    by (rule gives_bind) (use assms(3) in \<open>simp add: gives_def le_unpack_uint64_bytes\<close>)
qed

lemma number_inv:
  assumes "src_number rd s = (Inr n, s')" and "good s"
  shows "flow s = uint64_bytes n @ flow s' \<and> n < 2 ^ 64 \<and> good s'"
proof -
  from assms(1) obtain b where b: "exactly rd 8 s = (Inr b, s')" "n = le_unpack b"
    by (auto simp: src_number_def bind_ok_iff)
  from exactly_inv [OF b(1) assms(2)] b(2) le_unpack_bound [of b] show ?thesis
    by (simp add: uint64_bytes_le_unpack)
qed

lemma padding_gives:
  assumes "good s" and "flow s = replicate (pad_len n) 0 @ bs"
  shows "gives good flow (src_padding rd n) s () bs"
proof (cases "pad_len n = 0")
  case True
  with assms show ?thesis by (simp add: src_padding_def gives_def)
next
  case False
  have "gives good flow (exactly rd (pad_len n)) s (replicate (pad_len n) 0) bs"
    using assms by (intro exactly_gives) simp_all
  then have "gives good flow (bind (exactly rd (pad_len n))
      (\<lambda>b. if b \<noteq> replicate (pad_len n) 0 then raise ValueError else ret ())) s () bs"
    by (rule gives_bind) (simp add: gives_def)
  with False show ?thesis by (simp add: src_padding_def Let_def)
qed

lemma padding_inv:
  assumes "src_padding rd n s = (Inr (), s')" and "good s"
  shows "flow s = replicate (pad_len n) 0 @ flow s' \<and> good s'"
proof (cases "pad_len n = 0")
  case True
  with assms show ?thesis by (simp add: src_padding_def)
next
  case False
  with assms(1) have "exactly rd (pad_len n) s = (Inr (replicate (pad_len n) 0), s')"
    by (auto simp: src_padding_def Let_def bind_ok_iff split: if_splits)
  from exactly_inv [OF this assms(2)] show ?thesis by simp
qed

lemma string_gives:
  assumes "good s" and "flow s = framed_bytes d @ bs" and "length d \<le> limit" and "length d < 2 ^ 64"
  shows "gives good flow (src_string rd limit) s d bs"
proof -
  let ?pad = "replicate (pad_len (length d)) 0"
  have "gives good flow (src_number rd) s (length d) (d @ ?pad @ bs)"
    using assms by (intro number_gives) (simp_all add: framed_bytes_def)
  then show ?thesis unfolding src_string_def
  proof (rule gives_bind)
    fix s1 assume s1: "good s1" "flow s1 = d @ ?pad @ bs"
    have "gives good flow (exactly rd (length d)) s1 d (?pad @ bs)" using s1 by (intro exactly_gives) simp_all
    then have "gives good flow (bind (exactly rd (length d)) (\<lambda>data. bind (src_padding rd (length d)) (\<lambda>_. ret data))) s1 d bs"
      by (rule gives_bind, intro gives_bind [OF padding_gives] gives_ret) simp_all
    then show "gives good flow (if limit < length d then raise ValueError
        else bind (exactly rd (length d)) (\<lambda>data. bind (src_padding rd (length d)) (\<lambda>_. ret data))) s1 d bs"
      using assms(3) by simp
  qed
qed

lemma string_inv:
  assumes "src_string rd limit s = (Inr d, s')" and "good s"
  shows "flow s = framed_bytes d @ flow s' \<and> length d \<le> limit \<and> length d < 2 ^ 64 \<and> good s'"
proof -
  from assms(1) obtain n s1 s2 where n: "src_number rd s = (Inr n, s1)" "n \<le> limit" "exactly rd n s1 = (Inr d, s2)"
    "src_padding rd n s2 = (Inr (), s')"
    by (auto simp: src_string_def bind_ok_iff split: if_splits)
  from number_inv [OF n(1) assms(2)] have s1: "flow s = uint64_bytes n @ flow s1" "n < 2 ^ 64" "good s1" by auto
  from exactly_inv [OF n(3) s1(3)] have s2: "flow s1 = d @ flow s2" "length d = n" "good s2" by auto
  from padding_inv [OF n(4) s2(3)] s1 s2 n(2) show ?thesis by (simp add: framed_bytes_def)
qed

lemma tag_gives:
  assumes "good s" and "flow s = framed_bytes (encode e) @ bs" and "length e \<le> MAX_TAG"
  shows "gives good flow (src_tag rd e) s () bs"
proof -
  have "gives good flow (src_string rd MAX_TAG) s (encode e) bs"
    using assms by (intro string_gives) (simp_all add: MAX_TAG_def)
  then show ?thesis unfolding src_tag_def by (rule gives_bind) (simp add: gives_def)
qed

lemma tag_inv:
  assumes "src_tag rd e s = (Inr (), s')" and "good s"
  shows "flow s = framed_bytes (encode e) @ flow s' \<and> good s'"
proof -
  from assms(1) have "src_string rd MAX_TAG s = (Inr (encode e), s')"
    by (auto simp: src_tag_def bind_ok_iff split: if_splits)
  from string_inv [OF this assms(2)] show ?thesis by simp
qed

lemma contents_gives:
  assumes "good s" and "flow s = b @ bs" and "length b \<le> fuel"
  shows "gives good flow (restore_contents rd fuel (length b) acc) s (acc @ b) bs"
  using assms
proof (induction fuel arbitrary: s b acc)
  case 0
  then show ?case by (simp add: gives_def)
next
  case (Suc k)
  show ?case
  proof (cases "b = []")
    case True
    with Suc.prems show ?thesis by (simp add: gives_def)
  next
    case False
    let ?c = "take FS_CHUNK b" and ?d = "drop FS_CHUNK b"
    have c: "min FS_CHUNK (length b) = length ?c" "length b - length ?c = length ?d" by simp_all
    have less: "length ?d < length b" using False by (simp add: FS_CHUNK_def)
    have "gives good flow (exactly rd (min FS_CHUNK (length b))) s ?c (?d @ bs)"
      unfolding c using Suc.prems by (intro exactly_gives) (simp_all flip: append_assoc)
    then have "gives good flow (bind (exactly rd (min FS_CHUNK (length b)))
        (\<lambda>chunk. restore_contents rd k (length b - length chunk) (acc @ chunk))) s ((acc @ ?c) @ ?d) bs"
    proof (rule gives_bind)
      fix s1 assume "good s1" "flow s1 = ?d @ bs"
      then show "gives good flow (restore_contents rd k (length b - length ?c) (acc @ ?c)) s1 ((acc @ ?c) @ ?d) bs"
        unfolding c using less Suc.prems(3) by (intro Suc.IH) simp_all
    qed
    with False show ?thesis by simp
  qed
qed

lemma contents_inv:
  assumes "restore_contents rd fuel n acc s = (Inr f, s')" and "good s"
  shows "\<exists>b. f = acc @ b \<and> length b = n \<and> flow s = b @ flow s' \<and> good s'"
  using assms
proof (induction fuel arbitrary: n acc s)
  case 0
  then show ?case by (auto split: if_splits)
next
  case (Suc k)
  show ?case
  proof (cases "n = 0")
    case True
    with Suc.prems show ?thesis by simp
  next
    case False
    with Suc.prems(1) obtain c s1 where c: "exactly rd (min FS_CHUNK n) s = (Inr c, s1)"
      "restore_contents rd k (n - length c) (acc @ c) s1 = (Inr f, s')"
      by (auto simp: bind_ok_iff)
    from exactly_inv [OF c(1) Suc.prems(2)] have s1: "flow s = c @ flow s1" "length c = min FS_CHUNK n" "good s1" by auto
    from Suc.IH [OF c(2) s1(3)] obtain b where "f = (acc @ c) @ b" "length b = n - length c" "flow s1 = b @ flow s'" "good s'"
      by blast
    with s1 show ?thesis by (intro exI [of _ "c @ b"]) simp
  qed
qed

end

section \<open>Restoring\<close>

text \<open>The tokens of a regular file behind \<open>regular\<close>, and those of the entries of a directory.\<close>

definition file_tokens :: "bytes \<Rightarrow> bool \<Rightarrow> bytes list" where
  "file_tokens contents executable =
     (if executable then [encode ''executable'', []] else []) @ [encode ''contents'', contents, encode '')'']"

definition fs_entry_tokens :: "(bytes \<times> fs_node) list \<Rightarrow> bytes list" where
  "fs_entry_tokens entries =
     concat (map (\<lambda>e. encode ''entry'' # encode ''('' # encode ''name'' # fst e # encode ''node'' #
       fs_tokens (snd e) @ [encode '')'']) entries)"

lemma fs_tokens_parts:
  "fs_tokens (FsRegular contents executable) =
     encode ''('' # encode ''type'' # encode ''regular'' # file_tokens contents executable"
  "fs_tokens (FsDirectory entries) =
     encode ''('' # encode ''type'' # encode ''directory'' # fs_entry_tokens entries @ [encode '')'']"
  by (simp_all add: file_tokens_def fs_entry_tokens_def)

lemma fs_entry_tokens_simps [simp]:
  "fs_entry_tokens [] = []"
  "fs_entry_tokens ((name, child) # es) = encode ''entry'' # encode ''('' # encode ''name'' # name # encode ''node'' #
     fs_tokens child @ encode '')'' # fs_entry_tokens es"
  by (simp_all add: fs_entry_tokens_def)

context byte_source
begin

lemma executable_gives:
  assumes "good s" and "flow s = token_bytes (if x then [encode ''executable'', []] else []) @ framed_bytes (encode ''contents'') @ bs"
  shows "gives good flow (restore_executable rd) s (x, encode ''contents'') bs"
proof (cases x)
  case False
  then have "gives good flow (src_string rd MAX_TAG) s (encode ''contents'') bs"
    using assms by (intro string_gives) (simp_all add: MAX_TAG_def)
  then show ?thesis unfolding restore_executable_def
    by (rule gives_bind) (use False in \<open>simp add: gives_def\<close>)
next
  case True
  let ?c = "framed_bytes (encode ''contents'') @ bs"
  have "gives good flow (src_string rd MAX_TAG) s (encode ''executable'') (framed_bytes [] @ ?c)"
    using True assms by (intro string_gives) (simp_all add: MAX_TAG_def)
  then show ?thesis unfolding restore_executable_def
  proof (rule gives_bind)
    fix s1 assume "good s1" "flow s1 = framed_bytes [] @ ?c"
    then have "gives good flow (src_string rd 0) s1 [] ?c" by (intro string_gives) simp_all
    then have "gives good flow (bind (src_string rd 0) (\<lambda>marker. if marker \<noteq> [] then raise ValueError
        else bind (src_string rd MAX_TAG) (\<lambda>tag. ret (True, tag)))) s1 (x, encode ''contents'') bs"
    proof (rule gives_bind)
      fix s2 assume "good s2" "flow s2 = ?c"
      then have "gives good flow (src_string rd MAX_TAG) s2 (encode ''contents'') bs"
        by (intro string_gives) (simp_all add: MAX_TAG_def)
      then show "gives good flow (if [] \<noteq> [] then raise ValueError
          else bind (src_string rd MAX_TAG) (\<lambda>tag. ret (True, tag))) s2 (x, encode ''contents'') bs"
        using True by (auto simp: gives_def bind_apply)
    qed
    then show "gives good flow (if encode ''executable'' = encode ''executable'' then bind (src_string rd 0)
        (\<lambda>marker. if marker \<noteq> [] then raise ValueError
          else bind (src_string rd MAX_TAG) (\<lambda>tag. ret (True, tag)))
        else ret (False, encode ''executable'')) s1 (x, encode ''contents'') bs" by simp
  qed
qed

lemma executable_inv:
  assumes "restore_executable rd s = (Inr (x, tag), s')" and "good s"
  shows "flow s = token_bytes (if x then [encode ''executable'', []] else []) @ framed_bytes tag @ flow s' \<and> good s'"
proof -
  from assms(1) obtain t s1 where t: "src_string rd MAX_TAG s = (Inr t, s1)"
    "(if t = encode ''executable''
     then bind (src_string rd 0) (\<lambda>marker.
          if marker \<noteq> [] then raise ValueError
          else bind (src_string rd MAX_TAG) (\<lambda>tag. ret (True, tag)))
     else ret (False, t)) s1 = (Inr (x, tag), s')"
    by (auto simp: restore_executable_def bind_ok_iff)
  from string_inv [OF t(1) assms(2)] have s1: "flow s = framed_bytes t @ flow s1" "good s1" by auto
  show ?thesis
  proof (cases "t = encode ''executable''")
    case False
    with t(2) s1 show ?thesis by auto
  next
    case True
    with t(2) obtain s2 where s2: "src_string rd 0 s1 = (Inr [], s2)" "src_string rd MAX_TAG s2 = (Inr tag, s')" "x"
      by (auto simp: bind_ok_iff split: if_splits)
    from string_inv [OF s2(1) s1(2)] have "flow s1 = framed_bytes [] @ flow s2" "good s2" by auto
    with string_inv [OF s2(2)] s1 s2(3) True show ?thesis by simp
  qed
qed

lemma blob_gives:
  assumes "good s" and "flow s = framed_bytes contents @ bs" and "length contents < 2 ^ 64" and "length contents \<le> fuel"
  shows "gives good flow (restore_blob rd fuel) s contents bs"
proof -
  let ?pad = "replicate (pad_len (length contents)) 0"
  have "gives good flow (src_number rd) s (length contents) (contents @ ?pad @ bs)"
    using assms by (intro number_gives) (simp_all add: framed_bytes_def)
  then show ?thesis unfolding restore_blob_def
  proof (rule gives_bind)
    fix s1 assume "good s1" "flow s1 = contents @ ?pad @ bs"
    then have "gives good flow (restore_contents rd fuel (length contents) []) s1 contents (?pad @ bs)"
      using contents_gives [of s1 contents "?pad @ bs" fuel "[]"] assms(4) by simp
    then show "gives good flow (bind (restore_contents rd fuel (length contents) []) (\<lambda>c.
        bind (src_padding rd (length contents)) (\<lambda>_. ret c))) s1 contents bs"
      by (rule gives_bind, intro gives_bind [OF padding_gives] gives_ret) simp_all
  qed
qed

lemma blob_inv:
  assumes "restore_blob rd fuel s = (Inr contents, s')" and "good s"
  shows "flow s = framed_bytes contents @ flow s' \<and> length contents < 2 ^ 64 \<and> good s'"
proof -
  from assms(1) obtain n s1 s2 where n: "src_number rd s = (Inr n, s1)" "restore_contents rd fuel n [] s1 = (Inr contents, s2)"
    "src_padding rd n s2 = (Inr (), s')"
    by (auto simp: restore_blob_def bind_ok_iff)
  from number_inv [OF n(1) assms(2)] have s1: "flow s = uint64_bytes n @ flow s1" "n < 2 ^ 64" "good s1" by auto
  from contents_inv [OF n(2) s1(3)] have s2: "flow s1 = contents @ flow s2" "length contents = n" "good s2" by auto
  from padding_inv [OF n(3) s2(3)] s1 s2 show ?thesis by (simp add: framed_bytes_def)
qed

lemma file_gives:
  assumes "good s" and "flow s = token_bytes (file_tokens contents x) @ bs"
    and "length contents < 2 ^ 64" and "length contents \<le> fuel"
  shows "gives good flow (restore_file rd fuel) s (FsRegular contents x) bs"
proof -
  let ?c = "framed_bytes contents @ framed_bytes (encode '')'') @ bs"
  have "gives good flow (restore_executable rd) s (x, encode ''contents'') ?c"
    using assms(1,2) by (intro executable_gives) (simp_all add: file_tokens_def)
  then show ?thesis unfolding restore_file_def
  proof (rule gives_bind)
    fix s1 assume "good s1" "flow s1 = ?c"
    then have "gives good flow (restore_blob rd fuel) s1 contents (framed_bytes (encode '')'') @ bs)"
      using assms(3,4) by (intro blob_gives) simp_all
    then have "gives good flow (bind (restore_blob rd fuel) (\<lambda>c. bind (src_tag rd '')'') (\<lambda>_. ret (FsRegular c x))))
        s1 (FsRegular contents x) bs"
      by (rule gives_bind, intro gives_bind [OF tag_gives] gives_ret) (simp_all add: MAX_TAG_def)
    then show "gives good flow (case (x, encode ''contents'') of (x, tag) \<Rightarrow> if tag \<noteq> encode ''contents'' then raise ValueError
        else bind (restore_blob rd fuel) (\<lambda>c. bind (src_tag rd '')'') (\<lambda>_. ret (FsRegular c x)))) s1 (FsRegular contents x) bs"
      by simp
  qed
qed

lemma file_inv:
  assumes "restore_file rd fuel s = (Inr node, s')" and "good s"
  shows "\<exists>contents x. node = FsRegular contents x \<and> flow s = token_bytes (file_tokens contents x) @ flow s' \<and>
    length contents < 2 ^ 64 \<and> good s'"
proof -
  from assms(1) obtain x contents s1 s2 where r: "restore_executable rd s = (Inr (x, encode ''contents''), s1)"
    "restore_blob rd fuel s1 = (Inr contents, s2)" "src_tag rd '')'' s2 = (Inr (), s')" "node = FsRegular contents x"
    by (auto simp: restore_file_def bind_ok_iff split: if_splits)
  from executable_inv [OF r(1) assms(2)] have s1: "good s1"
    "flow s = token_bytes (if x then [encode ''executable'', []] else []) @ framed_bytes (encode ''contents'') @ flow s1" by auto
  from blob_inv [OF r(2) s1(1)] have s2: "flow s1 = framed_bytes contents @ flow s2" "length contents < 2 ^ 64" "good s2" by auto
  from tag_inv [OF r(3) s2(3)] s1 s2 r(4) show ?thesis by (simp add: file_tokens_def)
qed

end

context byte_source
begin

lemma kind_gives:
  assumes "good s" and "flow s = framed_bytes (encode ''('') @ framed_bytes (encode ''type'') @ framed_bytes kind @ bs"
    and "length kind \<le> MAX_TAG"
  shows "gives good flow (src_kind rd) s kind bs"
  unfolding src_kind_def using assms
  by (intro gives_bind [OF tag_gives] string_gives) (simp_all add: MAX_TAG_def)

lemma entry_name_gives:
  assumes "good s" and "flow s = framed_bytes (encode ''('') @ framed_bytes (encode ''name'') @ framed_bytes name @ bs"
    and "length name \<le> MAX_NAME"
  shows "gives good flow (src_entry_name rd) s name bs"
  unfolding src_entry_name_def using assms
  by (intro gives_bind [OF tag_gives] string_gives) (simp_all add: MAX_TAG_def MAX_NAME_def)

lemma kind_inv:
  assumes "src_kind rd s = (Inr kind, s')" and "good s"
  shows "flow s = framed_bytes (encode ''('') @ framed_bytes (encode ''type'') @ framed_bytes kind @ flow s' \<and> good s'"
proof -
  from assms(1) obtain s1 s2 where r: "src_tag rd ''('' s = (Inr (), s1)" "src_tag rd ''type'' s1 = (Inr (), s2)"
    "src_string rd MAX_TAG s2 = (Inr kind, s')"
    by (auto simp: src_kind_def bind_ok_iff)
  from tag_inv [OF r(1) assms(2)] have s1: "flow s = framed_bytes (encode ''('') @ flow s1" "good s1" by auto
  from tag_inv [OF r(2) s1(2)] have s2: "flow s1 = framed_bytes (encode ''type'') @ flow s2" "good s2" by auto
  from string_inv [OF r(3) s2(2)] s1 s2 show ?thesis by simp
qed

lemma entry_name_inv:
  assumes "src_entry_name rd s = (Inr name, s')" and "good s"
  shows "flow s = framed_bytes (encode ''('') @ framed_bytes (encode ''name'') @ framed_bytes name @ flow s' \<and>
    length name \<le> MAX_NAME \<and> good s'"
proof -
  from assms(1) obtain s1 s2 where r: "src_tag rd ''('' s = (Inr (), s1)" "src_tag rd ''name'' s1 = (Inr (), s2)"
    "src_string rd MAX_NAME s2 = (Inr name, s')"
    by (auto simp: src_entry_name_def bind_ok_iff)
  from tag_inv [OF r(1) assms(2)] have s1: "flow s = framed_bytes (encode ''('') @ flow s1" "good s1" by auto
  from tag_inv [OF r(2) s1(2)] have s2: "flow s1 = framed_bytes (encode ''name'') @ flow s2" "good s2" by auto
  from string_inv [OF r(3) s2(2)] s1 s2 show ?thesis by simp
qed

lemma symlink_gives:
  assumes "good s" and "flow s = framed_bytes (encode ''target'') @ framed_bytes target @ framed_bytes (encode '')'') @ bs"
    and "target \<noteq> []" and "0 \<notin> set target" and "length target \<le> MAX_TARGET"
  shows "gives good flow (restore_symlink rd) s (FsSymlink target) bs"
  unfolding restore_symlink_def
proof (rule gives_bind [OF tag_gives [OF assms(1,2)]])
  fix s1 assume "good s1" "flow s1 = framed_bytes target @ framed_bytes (encode '')'') @ bs"
  then have "gives good flow (src_string rd MAX_TARGET) s1 target (framed_bytes (encode '')'') @ bs)"
    using assms(5) by (intro string_gives) (simp_all add: MAX_TARGET_def)
  then show "gives good flow (bind (src_string rd MAX_TARGET) (\<lambda>target.
      if target = [] \<or> 0 \<in> set target then raise ValueError
      else bind (src_tag rd '')'') (\<lambda>_. ret (FsSymlink target)))) s1 (FsSymlink target) bs"
    by (rule gives_bind) (use assms(3,4) in \<open>auto simp: MAX_TAG_def intro!: gives_bind [OF tag_gives] gives_ret\<close>)
qed (simp add: MAX_TAG_def)

lemma symlink_inv:
  assumes "restore_symlink rd s = (Inr node, s')" and "good s"
  shows "\<exists>target. node = FsSymlink target \<and> target \<noteq> [] \<and> 0 \<notin> set target \<and> length target \<le> MAX_TARGET \<and>
    flow s = framed_bytes (encode ''target'') @ framed_bytes target @ framed_bytes (encode '')'') @ flow s' \<and> good s'"
proof -
  from assms(1) obtain target s1 s2 where r: "src_tag rd ''target'' s = (Inr (), s1)"
    "src_string rd MAX_TARGET s1 = (Inr target, s2)" "src_tag rd '')'' s2 = (Inr (), s')"
    "target \<noteq> []" "0 \<notin> set target" "node = FsSymlink target"
    by (auto simp: restore_symlink_def bind_ok_iff split: if_splits)
  from tag_inv [OF r(1) assms(2)] have s1: "flow s = framed_bytes (encode ''target'') @ flow s1" "good s1" by auto
  from string_inv [OF r(2) s1(2)] have s2: "flow s1 = framed_bytes target @ flow s2" "length target \<le> MAX_TARGET" "good s2" by auto
  from tag_inv [OF r(3) s2(3)] s1 s2 r(4-6) show ?thesis by simp
qed

text \<open>
  Restoring is the inverse of the archive, in both directions: a tree that Nix accepts is read
  back from its archive, and an archive that is accepted is the archive of the tree it gives.
\<close>

definition restored_node :: "nat \<Rightarrow> bool" where
  "restored_node fuel \<longleftrightarrow> (\<forall>depth s node s'. restore_node rd fuel depth s = (Inr node, s') \<longrightarrow> good s \<longrightarrow>
     flow s = token_bytes (fs_tokens node) @ flow s' \<and> fs_ok depth node \<and> fs_sorted node \<and> good s')"

definition restored_entries :: "nat \<Rightarrow> bool" where
  "restored_entries fuel \<longleftrightarrow> (\<forall>depth previous acc s node s'.
     restore_entries rd fuel depth previous acc s = (Inr node, s') \<longrightarrow> good s \<longrightarrow>
     (\<exists>es. node = FsDirectory (acc @ es) \<and> flow s = token_bytes (fs_entry_tokens es @ [encode '')'']) @ flow s' \<and>
       sorted_wrt (<) (previous # map fst es) \<and>
       (\<forall>e \<in> set es. \<not> bad_name (fst e) \<and> length (fst e) \<le> MAX_NAME \<and> fs_ok (Suc depth) (snd e) \<and> fs_sorted (snd e)) \<and>
       good s'))"

lemma restored_node_step:
  assumes IH: "restored_entries k"
  shows "restored_node (Suc k)"
  unfolding restored_node_def
proof (intro allI impI)
  fix depth s node s'
  assume run: "restore_node rd (Suc k) depth s = (Inr node, s')" and good: "good s"
  from run obtain kind s1 where d: "depth < MAX_DEPTH" and k: "src_kind rd s = (Inr kind, s1)"
    and r: "(if kind = encode ''regular'' then restore_file rd k
         else if kind = encode ''directory'' then restore_entries rd k depth [] []
         else if kind = encode ''symlink'' then restore_symlink rd
         else raise ValueError) s1 = (Inr node, s')"
    by (auto simp: bind_ok_iff not_le split: if_splits)
  from kind_inv [OF k good] have s1: "good s1"
    "flow s = framed_bytes (encode ''('') @ framed_bytes (encode ''type'') @ framed_bytes kind @ flow s1" by auto
  consider (regular) "kind = encode ''regular''" "restore_file rd k s1 = (Inr node, s')"
    | (directory) "kind = encode ''directory''" "restore_entries rd k depth [] [] s1 = (Inr node, s')"
    | (symlink) "kind = encode ''symlink''" "restore_symlink rd s1 = (Inr node, s')"
    using r by (auto split: if_splits)
  then show "flow s = token_bytes (fs_tokens node) @ flow s' \<and> fs_ok depth node \<and> fs_sorted node \<and> good s'"
  proof cases
    case regular
    from file_inv [OF regular(2) s1(1)] regular(1) s1(2) d show ?thesis
      by (auto simp: fs_tokens_parts simp del: fs_tokens.simps)
  next
    case directory
    with IH [unfolded restored_entries_def, rule_format, OF directory(2) s1(1)]
    obtain es where es: "node = FsDirectory es"
      "flow s1 = token_bytes (fs_entry_tokens es @ [encode '')'']) @ flow s'" "sorted_wrt (<) ([] # map fst es)"
      "\<forall>e \<in> set es. \<not> bad_name (fst e) \<and> length (fst e) \<le> MAX_NAME \<and> fs_ok (Suc depth) (snd e) \<and> fs_sorted (snd e)"
      "good s'" by auto
    moreover have "distinct (map fst es)" using es(3) by (simp add: strict_sorted_iff)
    ultimately show ?thesis using directory(1) s1(2) d by (simp add: fs_tokens_parts del: fs_tokens.simps)
  next
    case symlink
    from symlink_inv [OF symlink(2) s1(1)] symlink(1) s1(2) d show ?thesis by auto
  qed
qed

lemma restored_entries_step:
  assumes node: "restored_node k" and entries: "restored_entries k"
  shows "restored_entries (Suc k)"
  unfolding restored_entries_def
proof (intro allI impI)
  fix depth previous acc s node s'
  assume run: "restore_entries rd (Suc k) depth previous acc s = (Inr node, s')" and good: "good s"
  from run obtain tag s1 where tag: "src_string rd MAX_TAG s = (Inr tag, s1)"
    "(if tag = encode '')'' then ret (FsDirectory acc)
     else if tag \<noteq> encode ''entry'' then raise ValueError
     else bind (src_entry_name rd) (\<lambda>name.
          if bad_name name then raise ValueError
          else if name \<le> previous then raise ValueError
          else bind (src_tag rd ''node'') (\<lambda>_.
               bind (restore_node rd k (Suc depth)) (\<lambda>child.
               bind (src_tag rd '')'') (\<lambda>_.
               restore_entries rd k depth name (acc @ [(name, child)])))))) s1 = (Inr node, s')"
    by (auto simp: bind_ok_iff)
  from string_inv [OF tag(1) good] have s1: "flow s = framed_bytes tag @ flow s1" "good s1" by auto
  show "\<exists>es. node = FsDirectory (acc @ es) \<and> flow s = token_bytes (fs_entry_tokens es @ [encode '')'']) @ flow s' \<and>
       sorted_wrt (<) (previous # map fst es) \<and>
       (\<forall>e \<in> set es. \<not> bad_name (fst e) \<and> length (fst e) \<le> MAX_NAME \<and> fs_ok (Suc depth) (snd e) \<and> fs_sorted (snd e)) \<and>
       good s'"
  proof (cases "tag = encode '')''")
    case True
    with tag(2) s1 show ?thesis by (intro exI [of _ "[]"]) auto
  next
    case False
    with tag(2) obtain name child s2 s3 s4 s5 where r: "tag = encode ''entry''" "src_entry_name rd s1 = (Inr name, s2)"
      "\<not> bad_name name" "previous < name" "src_tag rd ''node'' s2 = (Inr (), s3)"
      "restore_node rd k (Suc depth) s3 = (Inr child, s4)" "src_tag rd '')'' s4 = (Inr (), s5)"
      "restore_entries rd k depth name (acc @ [(name, child)]) s5 = (Inr node, s')"
      by (auto simp: bind_ok_iff not_le split: if_splits)
    from entry_name_inv [OF r(2) s1(2)] have s2: "flow s1 = framed_bytes (encode ''('') @ framed_bytes (encode ''name'') @
        framed_bytes name @ flow s2" "length name \<le> MAX_NAME" "good s2" by auto
    from tag_inv [OF r(5) s2(3)] have s3: "flow s2 = framed_bytes (encode ''node'') @ flow s3" "good s3" by auto
    from node [unfolded restored_node_def, rule_format, OF r(6) s3(2)]
    have s4: "flow s3 = token_bytes (fs_tokens child) @ flow s4" "fs_ok (Suc depth) child" "fs_sorted child" "good s4" by auto
    from tag_inv [OF r(7) s4(4)] have s5: "flow s4 = framed_bytes (encode '')'') @ flow s5" "good s5" by auto
    from entries [unfolded restored_entries_def, rule_format, OF r(8) s5(2)]
    obtain es where es: "node = FsDirectory ((acc @ [(name, child)]) @ es)"
      "flow s5 = token_bytes (fs_entry_tokens es @ [encode '')'']) @ flow s'" "sorted_wrt (<) (name # map fst es)"
      "\<forall>e \<in> set es. \<not> bad_name (fst e) \<and> length (fst e) \<le> MAX_NAME \<and> fs_ok (Suc depth) (snd e) \<and> fs_sorted (snd e)"
      "good s'" by blast
    have "sorted_wrt (<) (previous # name # map fst es)" using es(3) r(4) by (auto intro: less_trans)
    with es r(1,3) s1(1) s2(1,2) s3(1) s4(1-3) s5(1) show ?thesis
      by (intro exI [of _ "(name, child) # es"]) simp
  qed
qed

lemma restored: "restored_node fuel \<and> restored_entries fuel"
proof (induction fuel)
  case 0
  show ?case by (simp add: restored_node_def restored_entries_def)
next
  case (Suc k)
  then show ?case using restored_node_step restored_entries_step by blast
qed

end

context byte_source
begin

definition restores :: "nat \<Rightarrow> fs_node \<Rightarrow> bool" where
  "restores depth node \<longleftrightarrow> (\<forall>s bs fuel. good s \<longrightarrow> flow s = token_bytes (fs_tokens node) @ bs \<longrightarrow>
     length (token_bytes (fs_tokens node)) \<le> fuel \<longrightarrow> gives good flow (restore_node rd fuel depth) s node bs)"

lemma entries_give:
  assumes "\<forall>e \<in> set es. \<not> bad_name (fst e) \<and> length (fst e) \<le> MAX_NAME \<and> restores (Suc depth) (snd e)"
    and "sorted_wrt (<) (previous # map fst es)" and "good s"
    and "flow s = token_bytes (fs_entry_tokens es @ [encode '')'']) @ bs"
    and "length (token_bytes (fs_entry_tokens es @ [encode '')''])) \<le> fuel"
  shows "gives good flow (restore_entries rd fuel depth previous acc) s (FsDirectory (acc @ es)) bs"
  using assms
proof (induction es arbitrary: previous acc s fuel)
  case Nil
  then obtain k where k: "fuel = Suc k" by (cases fuel) (auto simp: token_len_def)
  have "gives good flow (src_string rd MAX_TAG) s (encode '')'') bs"
    using Nil.prems by (intro string_gives) (simp_all add: MAX_TAG_def)
  then show ?case unfolding k restore_entries.simps by (rule gives_bind) (simp add: gives_def)
next
  case (Cons e es)
  obtain name child where e: "e = (name, child)" by (cases e)
  let ?more = "token_bytes (fs_entry_tokens es @ [encode '')'']) @ bs"
  let ?child = "framed_bytes (encode ''node'') @ token_bytes (fs_tokens child) @ framed_bytes (encode '')'') @ ?more"
  let ?name = "framed_bytes (encode ''('') @ framed_bytes (encode ''name'') @ framed_bytes name @ ?child"
  from Cons.prems(5) e obtain k where k: "fuel = Suc k" "length (token_bytes (fs_tokens child)) \<le> k"
    "length (token_bytes (fs_entry_tokens es @ [encode '')''])) \<le> k"
    by (cases fuel) (auto simp: token_len_def)
  from Cons.prems(1,2) e have ok: "\<not> bad_name name" "length name \<le> MAX_NAME" "restores (Suc depth) child" "\<not> name \<le> previous"
    and es: "\<forall>e \<in> set es. \<not> bad_name (fst e) \<and> length (fst e) \<le> MAX_NAME \<and> restores (Suc depth) (snd e)"
      "sorted_wrt (<) (name # map fst es)" by auto
  have rest: "gives good flow (bind (src_tag rd ''node'') (\<lambda>_. bind (restore_node rd k (Suc depth)) (\<lambda>child.
      bind (src_tag rd '')'') (\<lambda>_. restore_entries rd k depth name (acc @ [(name, child)])))))
      s2 (FsDirectory (acc @ e # es)) bs" if s2: "good s2" "flow s2 = ?child" for s2
  proof (rule gives_bind [OF tag_gives [OF s2]])
    fix s3 assume "good s3" "flow s3 = token_bytes (fs_tokens child) @ framed_bytes (encode '')'') @ ?more"
    with ok(3) k(2) have "gives good flow (restore_node rd k (Suc depth)) s3 child (framed_bytes (encode '')'') @ ?more)"
      by (simp add: restores_def)
    then show "gives good flow (bind (restore_node rd k (Suc depth)) (\<lambda>child. bind (src_tag rd '')'')
        (\<lambda>_. restore_entries rd k depth name (acc @ [(name, child)])))) s3 (FsDirectory (acc @ e # es)) bs"
      by (rule gives_bind, intro gives_bind [OF tag_gives])
        (use Cons.IH [OF es _ _ k(3), of _ "acc @ [(name, child)]"] e in \<open>simp_all add: MAX_TAG_def\<close>)
  qed (simp add: MAX_TAG_def)
  have "gives good flow (src_string rd MAX_TAG) s (encode ''entry'') ?name"
    using Cons.prems(3,4) e by (intro string_gives) (simp_all add: MAX_TAG_def)
  then show ?case unfolding k(1) restore_entries.simps
  proof (rule gives_bind)
    fix s1 assume "good s1" "flow s1 = ?name"
    then have "gives good flow (src_entry_name rd) s1 name ?child" using ok(2) by (intro entry_name_gives)
    then have "gives good flow (bind (src_entry_name rd) (\<lambda>name.
          if bad_name name then raise ValueError
          else if name \<le> previous then raise ValueError
          else bind (src_tag rd ''node'') (\<lambda>_. bind (restore_node rd k (Suc depth)) (\<lambda>child.
               bind (src_tag rd '')'') (\<lambda>_. restore_entries rd k depth name (acc @ [(name, child)]))))))
        s1 (FsDirectory (acc @ e # es)) bs"
      by (rule gives_bind) (use ok(1,4) rest in simp)
    then show "gives good flow (if encode ''entry'' = encode '')'' then ret (FsDirectory acc)
        else if encode ''entry'' \<noteq> encode ''entry'' then raise ValueError
        else bind (src_entry_name rd) (\<lambda>name.
          if bad_name name then raise ValueError
          else if name \<le> previous then raise ValueError
          else bind (src_tag rd ''node'') (\<lambda>_. bind (restore_node rd k (Suc depth)) (\<lambda>child.
               bind (src_tag rd '')'') (\<lambda>_. restore_entries rd k depth name (acc @ [(name, child)]))))))
        s1 (FsDirectory (acc @ e # es)) bs" by simp
  qed
qed

lemma node_gives:
  assumes "depth < MAX_DEPTH" and "good s" and "length kind \<le> MAX_TAG" and "fuel = Suc k"
    and "flow s = framed_bytes (encode ''('') @ framed_bytes (encode ''type'') @ framed_bytes kind @ mid"
    and "\<And>s1. good s1 \<Longrightarrow> flow s1 = mid \<Longrightarrow> gives good flow
      (if kind = encode ''regular'' then restore_file rd k
       else if kind = encode ''directory'' then restore_entries rd k depth [] []
       else if kind = encode ''symlink'' then restore_symlink rd
       else raise ValueError) s1 node bs"
  shows "gives good flow (restore_node rd fuel depth) s node bs"
proof -
  have "gives good flow (src_kind rd) s kind mid" using assms(2,5,3) by (rule kind_gives)
  then have "gives good flow (bind (src_kind rd) (\<lambda>kind.
       if kind = encode ''regular'' then restore_file rd k
       else if kind = encode ''directory'' then restore_entries rd k depth [] []
       else if kind = encode ''symlink'' then restore_symlink rd
       else raise ValueError)) s node bs"
    by (rule gives_bind) (rule assms(6))
  with assms(1,4) show ?thesis by simp
qed

lemma restores_node: "fs_ok depth node \<Longrightarrow> fs_sorted node \<Longrightarrow> restores depth node"
proof (induction node arbitrary: depth)
  case (FsRegular contents executable)
  show ?case unfolding restores_def
  proof (intro allI impI)
    fix s bs fuel
    assume s: "good s" "flow s = token_bytes (fs_tokens (FsRegular contents executable)) @ bs"
      and fuel: "length (token_bytes (fs_tokens (FsRegular contents executable))) \<le> fuel"
    from fuel obtain k where k: "fuel = Suc k" "length contents \<le> k" by (cases fuel) (auto simp: token_len_def)
    show "gives good flow (restore_node rd fuel depth) s (FsRegular contents executable) bs"
      by (rule node_gives [OF _ s(1) _ k(1), where kind = "encode ''regular''"
            and mid = "token_bytes (file_tokens contents executable) @ bs"])
        (use FsRegular.prems s(2) k(2) in \<open>auto simp: fs_tokens_parts MAX_TAG_def intro: file_gives simp del: fs_tokens.simps\<close>)
  qed
next
  case (FsSymlink target)
  show ?case unfolding restores_def
  proof (intro allI impI)
    fix s bs fuel
    assume s: "good s" "flow s = token_bytes (fs_tokens (FsSymlink target)) @ bs"
      and fuel: "length (token_bytes (fs_tokens (FsSymlink target))) \<le> fuel"
    from fuel obtain k where k: "fuel = Suc k" by (cases fuel) (auto simp: token_len_def)
    show "gives good flow (restore_node rd fuel depth) s (FsSymlink target) bs"
      by (rule node_gives [OF _ s(1) _ k, where kind = "encode ''symlink''"])
        (use FsSymlink.prems s(2) in \<open>auto simp: MAX_TAG_def intro: symlink_gives\<close>)
  qed
next
  case (FsDirectory entries)
  have es: "\<forall>e \<in> set entries. \<not> bad_name (fst e) \<and> length (fst e) \<le> MAX_NAME \<and> restores (Suc depth) (snd e)"
    using FsDirectory by fastforce
  have order: "sorted_wrt (<) ([] # map fst entries)"
    using FsDirectory.prems by (auto simp: bad_name_def neq_Nil_conv)
  show ?case unfolding restores_def
  proof (intro allI impI)
    fix s bs fuel
    assume s: "good s" "flow s = token_bytes (fs_tokens (FsDirectory entries)) @ bs"
      and fuel: "length (token_bytes (fs_tokens (FsDirectory entries))) \<le> fuel"
    from fuel obtain k where k: "fuel = Suc k" "length (token_bytes (fs_entry_tokens entries @ [encode '')''])) \<le> k"
      by (cases fuel) (auto simp: token_len_def fs_tokens_parts simp del: fs_tokens.simps)
    show "gives good flow (restore_node rd fuel depth) s (FsDirectory entries) bs"
      by (rule node_gives [OF _ s(1) _ k(1), where kind = "encode ''directory''"
            and mid = "token_bytes (fs_entry_tokens entries @ [encode '')'']) @ bs"])
        (use FsDirectory.prems s(2) entries_give [OF es order _ _ k(2), where acc = "[]"] in
          \<open>auto simp: fs_tokens_parts MAX_TAG_def simp del: fs_tokens.simps\<close>)
  qed
next
  case FsOther
  then show ?case by simp
qed

end

section \<open>The properties of dumping and restoring\<close>

lemma sort_fs_ok: "fs_ok depth node \<Longrightarrow> fs_ok depth (sort_fs node) \<and> fs_sorted (sort_fs node)"
proof (induction node arbitrary: depth)
  case (FsDirectory entries)
  let ?es = "map (\<lambda>e. (fst e, sort_fs (snd e))) (sort_key fst entries)"
  have es: "fs_ok (Suc depth) (sort_fs (snd e)) \<and> fs_sorted (sort_fs (snd e))" if "e \<in> set entries" for e
    using FsDirectory that by (cases e) fastforce
  have "map fst ?es = map fst (sort_key fst entries)" by (simp add: comp_def)
  moreover have "distinct (map fst (sort_key fst entries))"
    using FsDirectory.prems by (simp add: distinct_map)
  ultimately have "sorted_wrt (<) (map fst ?es)" "distinct (map fst ?es)"
    by (simp_all only: strict_sorted_iff sorted_sort_key)
  with FsDirectory.prems es show ?case by (auto simp: sort_key_fst_map)
qed simp_all

lemma sort_fs_sorted: "fs_sorted node \<Longrightarrow> sort_fs node = node"
proof (induction node)
  case (FsDirectory entries)
  then have "map (\<lambda>e. (fst e, sort_fs (snd e))) entries = entries"
    by (intro map_idI) (auto simp: prod_eq_iff)
  moreover have "sorted (map fst entries)" using FsDirectory.prems by (simp add: strict_sorted_iff)
  ultimately show ?case by (simp add: sort_key_id_if_sorted)
qed simp_all

lemma restore_path_apply:
  "restore_path rd fuel = bind (src_string rd (length NAR_MAGIC)) (\<lambda>magic.
     if magic \<noteq> NAR_MAGIC then raise ValueError else restore_node rd fuel 0)"
  by (rule ext) (simp add: restore_path_def bind_apply split: sum.splits prod.splits)

text \<open>
  C18. A tree that Nix accepts is dumped without an error, and whatever source the pieces are read
  from and whatever follows them, restoring gives the same tree back, its directories in the order
  of their names, and stops right behind the archive.
\<close>

theorem dump_then_restore:
  assumes "fs_ok 0 node" and "byte_source good flow rd" and "good s"
    and "flow s = concat pieces @ after" and "dump_path node = Inr pieces" and "length (concat pieces) \<le> fuel"
  shows "\<exists>s'. restore_path rd fuel s = (Inr (sort_fs node), s') \<and> flow s' = after"
proof -
  from dump_path_archive [OF assms(1)] assms(5)
  have ps: "concat pieces = framed_bytes NAR_MAGIC @ token_bytes (fs_tokens (sort_fs node))"
    by (simp add: fs_archive_def)
  have "byte_source.restores good flow rd 0 (sort_fs node)"
    using sort_fs_ok [OF assms(1)] byte_source.restores_node [OF assms(2)] by blast
  then have node: "gives good flow (restore_node rd fuel 0) s1 (sort_fs node) after"
    if "good s1" "flow s1 = token_bytes (fs_tokens (sort_fs node)) @ after" for s1
    using that assms(6) ps by (simp add: byte_source.restores_def [OF assms(2)])
  have magic: "gives good flow (src_string rd (length NAR_MAGIC)) s NAR_MAGIC (token_bytes (fs_tokens (sort_fs node)) @ after)"
    using assms(3,4) ps by (intro byte_source.string_gives [OF assms(2)]) (simp_all add: NAR_MAGIC_def)
  have "gives good flow (restore_path rd fuel) s (sort_fs node) after"
    unfolding restore_path_apply by (rule gives_bind [OF magic]) (simp add: node)
  then show ?thesis by (auto simp: gives_def)
qed

theorem dump_then_restore_witness:
  "\<exists>s'. restore_path (fr_read br_readexactly) 200
      (fr_new \<lparr>br_data = frames [fs_archive (FsSymlink [65]), [9]] @ [], br_position = 0\<rparr>) =
      (Inr (sort_fs (FsSymlink [65])), s') \<and> fr_rest remaining s' = [9]"
proof -
  let ?src = "\<lparr>br_data = frames [fs_archive (FsSymlink [65]), [9]] @ [], br_position = 0\<rparr>"
  have len: "length (fs_archive (FsSymlink [65])) = 120"
    by (simp add: fs_archive_def NAR_MAGIC_def token_len_def pad_len_def)
  then have "frames_ok [fs_archive (FsSymlink [65]), [9]]" by (auto simp: frames_ok_def)
  from fr_new_state [of br_ok ?src remaining _ "[]", OF _ _ this]
  have src: "fr_good br_ok remaining (fr_new ?src)"
    and rest: "fr_rest remaining (fr_new ?src) = fs_archive (FsSymlink [65]) @ [9]"
    by (simp_all add: br_ok_def remaining_def)
  have ok: "fs_ok 0 (FsSymlink [65])" by (simp add: MAX_DEPTH_def MAX_TARGET_def)
  obtain pieces where pieces: "dump_path (FsSymlink [65]) = Inr pieces" "concat pieces = fs_archive (FsSymlink [65])"
    using dump_path_archive [OF ok] by auto
  from dump_then_restore [OF ok framed.byte_source_axioms src _ pieces(1)] rest pieces(2) len
  show ?thesis by simp
qed

text \<open>
  C17. Restoring accepts canonical archives only: when it succeeds, what it took from the source is
  the archive of the tree it returns, with zero padding, names in order and every limit kept, so
  dumping that tree yields the same bytes again.
\<close>

theorem restore_accepts_only_canonical:
  assumes "byte_source good flow rd" and "good s" and "restore_path rd fuel s = (Inr node, s')"
  shows "flow s = fs_archive node @ flow s' \<and> fs_ok 0 node \<and> fs_sorted node \<and>
    (\<exists>pieces. dump_path node = Inr pieces \<and> concat pieces = fs_archive node)"
proof -
  from assms(3) obtain s1 where s1: "src_string rd (length NAR_MAGIC) s = (Inr NAR_MAGIC, s1)"
    "restore_node rd fuel 0 s1 = (Inr node, s')"
    by (auto simp: restore_path_apply bind_ok_iff split: if_splits)
  from byte_source.string_inv [OF assms(1) s1(1) assms(2)] have m: "flow s = framed_bytes NAR_MAGIC @ flow s1" "good s1"
    by auto
  have "byte_source.restored_node good flow rd fuel" using byte_source.restored [OF assms(1)] by blast
  from this [unfolded byte_source.restored_node_def [OF assms(1)], rule_format, OF s1(2) m(2)] m(1)
  have "flow s = fs_archive node @ flow s'" "fs_ok 0 node" "fs_sorted node" by (auto simp: fs_archive_def)
  with dump_path_archive [of node] sort_fs_sorted [of node] show ?thesis by auto
qed

theorem restore_accepts_only_canonical_witness:
  "\<exists>s'. fr_rest remaining (fr_new \<lparr>br_data = frames [fs_archive (FsSymlink [65]), [9]] @ [], br_position = 0\<rparr>) =
      fs_archive (FsSymlink [65]) @ fr_rest remaining s' \<and> fs_ok 0 (FsSymlink [65]) \<and> fs_sorted (FsSymlink [65]) \<and>
    (\<exists>pieces. dump_path (FsSymlink [65]) = Inr pieces \<and> concat pieces = fs_archive (FsSymlink [65]))"
proof -
  let ?src = "\<lparr>br_data = frames [fs_archive (FsSymlink [65]), [9]] @ [], br_position = 0\<rparr>"
  have len: "length (fs_archive (FsSymlink [65])) = 120"
    by (simp add: fs_archive_def NAR_MAGIC_def token_len_def pad_len_def)
  then have "frames_ok [fs_archive (FsSymlink [65]), [9]]" by (auto simp: frames_ok_def)
  from fr_new_state [of br_ok ?src remaining _ "[]", OF _ _ this]
  have src: "fr_good br_ok remaining (fr_new ?src)"
    and rest: "fr_rest remaining (fr_new ?src) = fs_archive (FsSymlink [65]) @ [9]"
    by (simp_all add: br_ok_def remaining_def)
  have ok: "fs_ok 0 (FsSymlink [65])" by (simp add: MAX_DEPTH_def MAX_TARGET_def)
  from sort_fs_ok [OF ok] framed.restores_node have "framed.restores 0 (FsSymlink [65])" by force
  then have node: "gives (fr_good br_ok remaining) (fr_rest remaining) (restore_node (fr_read br_readexactly) 200 0) s1 (FsSymlink [65]) [9]"
    if "fr_good br_ok remaining s1" "fr_rest remaining s1 = token_bytes (fs_tokens (FsSymlink [65])) @ [9]" for s1
    using that len by (simp add: framed.restores_def fs_archive_def)
  have magic: "gives (fr_good br_ok remaining) (fr_rest remaining) (src_string (fr_read br_readexactly) (length NAR_MAGIC))
      (fr_new ?src) NAR_MAGIC (token_bytes (fs_tokens (FsSymlink [65])) @ [9])"
    using src rest by (intro framed.string_gives) (simp_all add: NAR_MAGIC_def fs_archive_def)
  have "gives (fr_good br_ok remaining) (fr_rest remaining) (restore_path (fr_read br_readexactly) 200) (fr_new ?src) (FsSymlink [65]) [9]"
    unfolding restore_path_apply by (rule gives_bind [OF magic]) (simp add: node)
  then obtain s' where "restore_path (fr_read br_readexactly) 200 (fr_new ?src) = (Inr (FsSymlink [65]), s')"
    by (auto simp: gives_def)
  from restore_accepts_only_canonical [OF framed.byte_source_axioms src this] show ?thesis by blast
qed

end
