(* ===== verification/Nar_Path.thy ===== *)
theory Nar_Path
  imports Nar
begin

text \<open>
  \<open>NarPath\<close> of \<open>pynixd/nar.py\<close>: a tree and a path in it, with the operations that look a path up
  and those that return a new tree.
\<close>

section \<open>Paths\<close>

record nar_path =
  np_root :: nar_node
  np_parts :: "string list"

definition add_segment :: "string list \<Rightarrow> string \<Rightarrow> string list" where
  "add_segment parts segment =
     (if segment = [] \<or> segment = ''.'' then parts
      else if segment = ''..'' then (if parts \<noteq> [] then butlast parts else parts)
      else parts @ [segment])"

definition np_truediv :: "nar_path \<Rightarrow> string \<Rightarrow> nar_path" where
  "np_truediv p other =
     \<lparr>np_root = np_root p, np_parts = foldl add_segment (np_parts p) (split_on (CHR ''/'') other)\<rparr>"

definition np_name :: "nar_path \<Rightarrow> string" where
  "np_name p = (if np_parts p \<noteq> [] then last (np_parts p) else [])"

definition np_parent :: "nar_path \<Rightarrow> nar_path" where
  "np_parent p = \<lparr>np_root = np_root p, np_parts = butlast (np_parts p)\<rparr>"

definition np_str :: "nar_path \<Rightarrow> string" where
  "np_str p = (if np_parts p = [] then ''/'' else ''/'' @ join ''/'' (np_parts p))"

section \<open>Looking up\<close>

fun resolve_from :: "nar_node \<Rightarrow> string list \<Rightarrow> error + nar_node" where
  "resolve_from node [] = Inr node"
| "resolve_from node (part # parts) =
     (case node of
        NarDirectory entries \<Rightarrow>
          (case map_of entries part of None \<Rightarrow> Inl ValueError | Some child \<Rightarrow> resolve_from child parts)
      | _ \<Rightarrow> Inl ValueError)"

definition np_resolve :: "nar_path \<Rightarrow> error + nar_node" where
  "np_resolve p = resolve_from (np_root p) (np_parts p)"

definition np_exists :: "nar_path \<Rightarrow> bool" where
  "np_exists p \<longleftrightarrow> (case np_resolve p of Inl _ \<Rightarrow> False | Inr _ \<Rightarrow> True)"

definition np_is_file :: "nar_path \<Rightarrow> bool" where
  "np_is_file p \<longleftrightarrow> (case np_resolve p of Inr (NarRegular _ _) \<Rightarrow> True | _ \<Rightarrow> False)"

definition np_is_dir :: "nar_path \<Rightarrow> bool" where
  "np_is_dir p \<longleftrightarrow> (case np_resolve p of Inr (NarDirectory _) \<Rightarrow> True | _ \<Rightarrow> False)"

definition np_is_symlink :: "nar_path \<Rightarrow> bool" where
  "np_is_symlink p \<longleftrightarrow> (case np_resolve p of Inr (NarSymlink _) \<Rightarrow> True | _ \<Rightarrow> False)"

definition np_iterdir :: "nar_path \<Rightarrow> error + nar_path list" where
  "np_iterdir p =
     andthen (np_resolve p) (\<lambda>node.
       case node of
         NarDirectory entries \<Rightarrow>
           Inr (map (\<lambda>(name, _). \<lparr>np_root = np_root p, np_parts = np_parts p @ [name]\<rparr>) entries)
       | _ \<Rightarrow> Inl ValueError)"

definition np_read_bytes :: "nar_path \<Rightarrow> error + bytes" where
  "np_read_bytes p =
     andthen (np_resolve p) (\<lambda>node. case node of NarRegular contents _ \<Rightarrow> Inr contents | _ \<Rightarrow> Inl ValueError)"

section \<open>New trees\<close>

text \<open>\<open>rebuild\<close> replaces every entry of the name on its way; it is never called with no parts.\<close>

fun rebuild :: "nar_node \<Rightarrow> string list \<Rightarrow> nar_node \<Rightarrow> error + nar_node"
  and rebuild_entries ::
    "(string \<times> nar_node) list \<Rightarrow> string \<Rightarrow> string list \<Rightarrow> nar_node \<Rightarrow> error + (string \<times> nar_node) list" where
  "rebuild (NarDirectory entries) [] new = Inl IndexError"
| "rebuild (NarDirectory entries) (name # parts) new =
     andthen (rebuild_entries entries name parts new) (\<lambda>new_entries.
     if name \<notin> fst ` set entries then Inl ValueError else Inr (NarDirectory new_entries))"
| "rebuild (NarRegular contents executable) parts new = Inl TypeError"
| "rebuild (NarSymlink target) parts new = Inl TypeError"
| "rebuild_entries [] name parts new = Inr []"
| "rebuild_entries ((n, child) # entries) name parts new =
     andthen (if n = name then (if parts = [] then Inr new else rebuild child parts new) else Inr child)
       (\<lambda>child'.
     andthen (rebuild_entries entries name parts new) (\<lambda>rest. Inr ((n, child') # rest)))"

definition np_replace_in_tree :: "nar_path \<Rightarrow> nar_node \<Rightarrow> error + nar_node" where
  "np_replace_in_tree p new_node =
     (if np_parts p = [] then Inr new_node else rebuild (np_root p) (np_parts p) new_node)"

definition np_insert_child :: "nar_path \<Rightarrow> string \<Rightarrow> nar_node \<Rightarrow> error + nar_node" where
  "np_insert_child p name node =
     andthen (np_resolve p) (\<lambda>target.
       case target of
         NarDirectory entries \<Rightarrow>
           if name \<in> fst ` set entries then Inl ValueError
           else np_replace_in_tree p (NarDirectory (entries @ [(name, node)]))
       | _ \<Rightarrow> Inl ValueError)"

definition at_root :: "nar_node \<Rightarrow> nar_path" where
  "at_root root = \<lparr>np_root = root, np_parts = []\<rparr>"

definition np_write_bytes :: "nar_path \<Rightarrow> bytes \<Rightarrow> bool \<Rightarrow> error + nar_path" where
  "np_write_bytes p data executable =
     (let new_node = NarRegular data executable in
      if np_exists p
      then (if np_is_dir p \<and> np_parts p \<noteq> [] then Inl ValueError
            else andthen (np_replace_in_tree p new_node) (\<lambda>root. Inr (at_root root)))
      else (let parent = np_parent p in
            if \<not> np_exists parent then Inl ValueError
            else andthen (np_insert_child parent (np_name p) new_node) (\<lambda>root. Inr (at_root root))))"

function np_mkdir :: "bool \<Rightarrow> nar_path \<Rightarrow> error + nar_path" where
  "np_mkdir parents p =
     (if np_exists p then (if np_is_dir p then Inr (at_root (np_root p)) else Inl ValueError)
      else if np_parts p = [] then Inl ValueError
      else let parent = np_parent p in
        if \<not> np_exists parent
        then (if \<not> parents then Inl ValueError
              else andthen (np_mkdir True parent) (\<lambda>root.
                andthen (np_insert_child \<lparr>np_root = np_root root, np_parts = np_parts parent\<rparr> (np_name p)
                  (NarDirectory [])) (\<lambda>new_root. Inr (at_root new_root))))
        else andthen (np_insert_child parent (np_name p) (NarDirectory [])) (\<lambda>new_root. Inr (at_root new_root)))"
  by pat_completeness auto
termination
  by (relation "measure (\<lambda>(parents, p). length (np_parts p))") (auto simp: np_parent_def)

declare np_mkdir.simps [simp del]

definition np_unlink :: "nar_path \<Rightarrow> error + nar_path" where
  "np_unlink p =
     (if \<not> np_exists p then Inl ValueError
      else if np_parts p = [] then Inl ValueError
      else let parent = np_parent p in
        andthen (np_resolve parent) (\<lambda>target.
          case target of
            NarDirectory entries \<Rightarrow>
              andthen (np_replace_in_tree parent (NarDirectory (filter (\<lambda>(n, _). n \<noteq> np_name p) entries)))
                (\<lambda>new_root. Inr (at_root new_root))
          | _ \<Rightarrow> Inl ValueError))"

definition np_chmod :: "nar_path \<Rightarrow> bool \<Rightarrow> error + nar_path" where
  "np_chmod p executable =
     andthen (np_resolve p) (\<lambda>node.
       case node of
         NarRegular contents _ \<Rightarrow>
           andthen (np_replace_in_tree p (NarRegular contents executable)) (\<lambda>new_root. Inr (at_root new_root))
       | _ \<Rightarrow> Inl ValueError)"

section \<open>Replacing a node\<close>

text \<open>
  After a replacement at \<open>ps\<close>, lookups at and below \<open>ps\<close> see the new node, and a path that neither
  leads to nor through \<open>ps\<close> is looked up as before.
\<close>

definition unrelated :: "string list \<Rightarrow> string list \<Rightarrow> bool" where
  "unrelated ps qs \<longleftrightarrow> \<not> prefix ps qs \<and> \<not> prefix qs ps"

definition not_directory :: "nar_node \<Rightarrow> bool" where
  "not_directory n \<longleftrightarrow> (\<forall>es. n \<noteq> NarDirectory es)"

lemma unrelated_Cons: "unrelated (p # ps) (q # qs) \<longleftrightarrow> p \<noteq> q \<or> unrelated ps qs"
  by (auto simp: unrelated_def)

lemma rebuild_lookup:
  "rebuild node ps new = Inr node' \<Longrightarrow> ps \<noteq> [] \<Longrightarrow>
     resolve_from node' (ps @ qs) = resolve_from new qs \<and>
     (\<forall>qs. unrelated ps qs \<longrightarrow> resolve_from node' qs = resolve_from node qs)"
  "rebuild_entries entries name ps new = Inr entries' \<Longrightarrow>
     fst ` set entries' = fst ` set entries \<and>
     (name \<in> fst ` set entries \<longrightarrow> (\<exists>child child'. map_of entries name = Some child \<and> map_of entries' name = Some child' \<and>
        resolve_from child' (ps @ qs) = resolve_from new qs \<and>
        (\<forall>qs. unrelated ps qs \<longrightarrow> resolve_from child' qs = resolve_from child qs))) \<and>
     (\<forall>n. n \<noteq> name \<longrightarrow> map_of entries' n = map_of entries n)"
proof (induction node ps new and entries name ps new arbitrary: node' and entries' rule: rebuild_rebuild_entries.induct)
  case (2 entries name parts new)
  from "2.prems"(1) obtain es where es: "rebuild_entries entries name parts new = Inr es"
    "name \<in> fst ` set entries" "node' = NarDirectory es"
    by (auto simp: andthen_ok_iff split: if_splits)
  from "2.IH" [OF es(1)] es(2) obtain child child' where
    c: "map_of entries name = Some child" "map_of es name = Some child'"
      "resolve_from child' (parts @ qs) = resolve_from new qs"
      "\<forall>qs. unrelated parts qs \<longrightarrow> resolve_from child' qs = resolve_from child qs"
      "\<forall>n. n \<noteq> name \<longrightarrow> map_of es n = map_of entries n"
    by blast
  have "resolve_from node' us = resolve_from (NarDirectory entries) us" if "unrelated (name # parts) us" for us
  proof (cases us)
    case Nil
    with that show ?thesis by (simp add: unrelated_def)
  next
    case (Cons u vs)
    with that c es(3) show ?thesis by (cases "u = name") (auto simp: unrelated_Cons)
  qed
  with c es(3) show ?case by simp
next
  case (6 n child entries name parts new)
  from "6.prems" obtain child' rest where
    r: "(if n = name then (if parts = [] then Inr new else rebuild child parts new) else Inr child) = Inr child'"
      "rebuild_entries entries name parts new = Inr rest" "entries' = (n, child') # rest"
    by (auto simp: andthen_ok_iff)
  note IH = "6.IH"(2) [OF r(1,2)]
  show ?case
  proof (cases "n = name")
    case True
    have "resolve_from child' (parts @ qs) = resolve_from new qs \<and>
        (\<forall>qs. unrelated parts qs \<longrightarrow> resolve_from child' qs = resolve_from child qs)"
      using r(1) True "6.IH"(1) [of child'] by (cases "parts = []") (auto simp: unrelated_def)
    with IH r(3) True show ?thesis by simp
  next
    case False
    with IH r show ?thesis by auto
  qed
qed simp_all

lemma replace_in_tree_lookup:
  assumes "np_replace_in_tree \<lparr>np_root = root, np_parts = ps\<rparr> new = Inr root'"
  shows "resolve_from root' (ps @ qs) = resolve_from new qs"
    and "unrelated ps us \<Longrightarrow> resolve_from root' us = resolve_from root us"
proof -
  show "resolve_from root' (ps @ qs) = resolve_from new qs"
    using assms rebuild_lookup(1) [of root ps new root' qs]
    by (cases "ps = []") (auto simp: np_replace_in_tree_def)
  show "unrelated ps us \<Longrightarrow> resolve_from root' us = resolve_from root us"
    using assms rebuild_lookup(1) [of root ps new root' qs]
    by (cases "ps = []") (auto simp: np_replace_in_tree_def unrelated_def)
qed
section \<open>Adding and removing an entry\<close>

lemma dir_case_ok:
  "(case n of NarDirectory es \<Rightarrow> f es | NarRegular c x \<Rightarrow> Inl e | NarSymlink t \<Rightarrow> Inl e) = Inr y \<longleftrightarrow>
     (\<exists>es. n = NarDirectory es \<and> f es = Inr y)"
  by (cases n) simp_all

lemma resolve_from_append:
  "resolve_from node (ps @ qs) = andthen (resolve_from node ps) (\<lambda>n. resolve_from n qs)"
  by (induction ps arbitrary: node) (auto split: nar_node.splits option.splits)

lemma replace_entries_lookup:
  assumes "resolve_from root ps = Inr (NarDirectory entries)"
    and "np_replace_in_tree \<lparr>np_root = root, np_parts = ps\<rparr> (NarDirectory entries') = Inr root'"
    and "\<forall>n. n \<noteq> name \<longrightarrow> map_of entries' n = map_of entries n"
  shows "resolve_from root' (ps @ [name]) = (case map_of entries' name of None \<Rightarrow> Inl ValueError | Some c \<Rightarrow> Inr c)"
    and "unrelated (ps @ [name]) us \<Longrightarrow> resolve_from root' us = resolve_from root us"
proof -
  note lookup = replace_in_tree_lookup [OF assms(2)]
  show "resolve_from root' (ps @ [name]) = (case map_of entries' name of None \<Rightarrow> Inl ValueError | Some c \<Rightarrow> Inr c)"
    by (simp add: lookup(1) split: option.splits)
  show "resolve_from root' us = resolve_from root us" if us: "unrelated (ps @ [name]) us"
  proof (cases "prefix ps us")
    case True
    then obtain vs where "us = ps @ vs" by (auto elim: prefixE)
    with us obtain v ws where v: "us = ps @ v # ws" "v \<noteq> name"
      by (cases vs) (auto simp: unrelated_def)
    have "resolve_from root' us = resolve_from (NarDirectory entries') (v # ws)"
      unfolding v(1) by (rule lookup(1))
    also have "\<dots> = resolve_from (NarDirectory entries) (v # ws)" using assms(3) v(2) by simp
    also have "\<dots> = resolve_from root us" using assms(1) v(1) by (simp add: resolve_from_append)
    finally show ?thesis .
  next
    case False
    with us have "unrelated ps us" by (auto simp: unrelated_def prefix_append)
    then show ?thesis by (rule lookup(2))
  qed
qed

lemma map_of_append_other: "n \<noteq> name \<Longrightarrow> map_of (entries @ [(name, node)]) n = map_of entries n"
  by (simp add: map_add_def split: option.splits)

lemma map_of_append_new: "name \<notin> fst ` set entries \<Longrightarrow> map_of (entries @ [(name, node)]) name = Some node"
  by (induction entries) auto

lemma insert_child_lookup:
  assumes "np_insert_child \<lparr>np_root = root, np_parts = ps\<rparr> name node = Inr root'"
  shows "resolve_from root' (ps @ [name]) = Inr node"
    and "unrelated (ps @ [name]) us \<Longrightarrow> resolve_from root' us = resolve_from root us"
    and "resolve_from root (ps @ [name]) = Inl ValueError"
proof -
  from assms obtain entries where e: "resolve_from root ps = Inr (NarDirectory entries)"
    "name \<notin> fst ` set entries"
    "np_replace_in_tree \<lparr>np_root = root, np_parts = ps\<rparr> (NarDirectory (entries @ [(name, node)])) = Inr root'"
    by (auto simp: np_insert_child_def np_resolve_def andthen_ok_iff dir_case_ok split: if_split_asm)
  have "\<forall>n. n \<noteq> name \<longrightarrow> map_of (entries @ [(name, node)]) n = map_of entries n"
    by (intro allI impI map_of_append_other)
  note lookup = replace_entries_lookup [OF e(1,3) this]
  show "resolve_from root' (ps @ [name]) = Inr node"
    using lookup(1) unfolding map_of_append_new [OF e(2)] by simp
  show "unrelated (ps @ [name]) us \<Longrightarrow> resolve_from root' us = resolve_from root us"
    by (rule lookup(2))
  show "resolve_from root (ps @ [name]) = Inl ValueError"
    using e(1,2) by (simp add: resolve_from_append map_of_eq_None_iff split: option.splits)
qed

lemma np_simps:
  "np_exists p \<longleftrightarrow> (\<exists>n. resolve_from (np_root p) (np_parts p) = Inr n)"
  "np_is_dir p \<longleftrightarrow> (\<exists>es. resolve_from (np_root p) (np_parts p) = Inr (NarDirectory es))"
  "np_root (np_parent p) = np_root p" "np_parts (np_parent p) = butlast (np_parts p)"
  "np_parts (at_root r) = []" "np_root (at_root r) = r"
  by (auto simp: np_exists_def np_is_dir_def np_resolve_def np_parent_def at_root_def
      split: sum.splits nar_node.splits)

lemma np_parent_eq: "np_parent p = \<lparr>np_root = np_root p, np_parts = butlast (np_parts p)\<rparr>"
  by (simp add: np_parent_def)

section \<open>The properties of NarPath\<close>

text \<open>
  A successful \<open>write_bytes\<close> makes the path a regular file with those contents, changes nothing
  at any path that neither leads to nor through it, and returns the root.
\<close>

theorem write_bytes_read_back:
  assumes "np_write_bytes \<lparr>np_root = root, np_parts = ps\<rparr> data executable = Inr p"
  shows "np_parts p = [] \<and> np_read_bytes \<lparr>np_root = np_root p, np_parts = ps\<rparr> = Inr data \<and>
    resolve_from (np_root p) ps = Inr (NarRegular data executable) \<and>
    (\<forall>us. unrelated ps us \<longrightarrow> resolve_from (np_root p) us = resolve_from root us)"
proof (cases "np_exists \<lparr>np_root = root, np_parts = ps\<rparr>")
  case True
  with assms obtain root' where r: "np_replace_in_tree \<lparr>np_root = root, np_parts = ps\<rparr> (NarRegular data executable) = Inr root'"
    "p = at_root root'"
    by (auto simp: np_write_bytes_def andthen_ok_iff split: if_splits)
  with replace_in_tree_lookup(1) [OF r(1), of "[]"] replace_in_tree_lookup(2) [OF r(1)] show ?thesis
    by (simp add: np_simps np_read_bytes_def np_resolve_def)
next
  case False
  then have ps: "ps \<noteq> []" by (auto simp: np_simps)
  from False assms obtain root' where
    r: "np_insert_child \<lparr>np_root = root, np_parts = butlast ps\<rparr> (last ps) (NarRegular data executable) = Inr root'"
      "p = at_root root'"
    using ps by (auto simp: np_write_bytes_def andthen_ok_iff np_parent_def np_name_def Let_def split: if_splits)
  from insert_child_lookup [OF r(1)] r(2) ps show ?thesis
    by (simp add: np_simps np_read_bytes_def np_resolve_def)
qed

theorem write_bytes_read_back_witness:
  "\<exists>p. np_write_bytes \<lparr>np_root = NarDirectory [(''b'', NarRegular [7] False)], np_parts = [''a'']\<rparr> [1] True = Inr p \<and>
     np_read_bytes \<lparr>np_root = np_root p, np_parts = [''a'']\<rparr> = Inr [1] \<and>
     resolve_from (np_root p) [''b''] = Inr (NarRegular [7] False)"
proof -
  let ?root = "NarDirectory [(''b'', NarRegular [7] False)]"
  let ?p = "at_root (NarDirectory [(''b'', NarRegular [7] False), (''a'', NarRegular [1] True)])"
  have w: "np_write_bytes \<lparr>np_root = ?root, np_parts = [''a'']\<rparr> [1] True = Inr ?p"
    by (simp add: np_write_bytes_def np_simps np_parent_def np_name_def np_insert_child_def np_resolve_def
        np_replace_in_tree_def at_root_def)
  moreover have "unrelated [''a''] [''b'']" by (simp add: unrelated_def)
  ultimately show ?thesis using write_bytes_read_back [OF w] by (intro exI [of _ ?p]) fastforce
qed

text \<open>
  A successful \<open>unlink\<close> leaves nothing at the path, so looking it up raises, and changes
  nothing at any path that neither leads to nor through it.
\<close>

theorem unlink_removes:
  assumes "np_unlink \<lparr>np_root = root, np_parts = ps\<rparr> = Inr p"
  shows "\<not> np_exists \<lparr>np_root = np_root p, np_parts = ps\<rparr> \<and>
    (\<forall>us. unrelated ps us \<longrightarrow> resolve_from (np_root p) us = resolve_from root us)"
proof -
  from assms obtain entries root' where ps: "ps \<noteq> []"
    and e: "resolve_from root (butlast ps) = Inr (NarDirectory entries)"
      "np_replace_in_tree \<lparr>np_root = root, np_parts = butlast ps\<rparr>
         (NarDirectory (filter (\<lambda>(n, _). n \<noteq> last ps) entries)) = Inr root'"
      "p = at_root root'"
    by (auto simp: np_unlink_def np_parent_def np_name_def np_resolve_def andthen_ok_iff dir_case_ok Let_def
        split: if_split_asm)
  have other: "\<forall>n. n \<noteq> last ps \<longrightarrow> map_of (filter (\<lambda>(n, _). n \<noteq> last ps) entries) n = map_of entries n"
    by (induction entries) auto
  have gone: "map_of (filter (\<lambda>(n, _). n \<noteq> last ps) entries) (last ps) = None"
    by (induction entries) auto
  from replace_entries_lookup [OF e(1,2) other] gone ps e(3) show ?thesis by (simp add: np_simps)
qed

theorem unlink_removes_witness:
  "\<exists>p. np_unlink \<lparr>np_root = NarDirectory [(''a'', NarRegular [] False), (''b'', NarSymlink ''x'')], np_parts = [''a'']\<rparr> = Inr p \<and>
     \<not> np_exists \<lparr>np_root = np_root p, np_parts = [''a'']\<rparr> \<and> resolve_from (np_root p) [''b''] = Inr (NarSymlink ''x'')"
proof -
  let ?root = "NarDirectory [(''a'', NarRegular [] False), (''b'', NarSymlink ''x'')]"
  let ?p = "at_root (NarDirectory [(''b'', NarSymlink ''x'')])"
  have u: "np_unlink \<lparr>np_root = ?root, np_parts = [''a'']\<rparr> = Inr ?p"
    by (simp add: np_unlink_def np_simps np_parent_def np_name_def np_resolve_def np_replace_in_tree_def at_root_def)
  moreover have "unrelated [''a''] [''b'']" by (simp add: unrelated_def)
  ultimately show ?thesis using unlink_removes [OF u] by (intro exI [of _ ?p]) fastforce
qed

lemma leaf_unrelated:
  assumes "resolve_from root us = Inr n" and "not_directory n" and "resolve_from root ps = Inr (NarDirectory es)"
    and "resolve_from root (ps @ [name]) = Inl ValueError"
  shows "unrelated (ps @ [name]) us"
proof -
  have "\<not> prefix us ps"
  proof
    assume "prefix us ps"
    then obtain vs where "ps = us @ vs" by (auto elim: prefixE)
    with assms(1-3) show False by (cases vs) (auto simp: resolve_from_append not_directory_def split: nar_node.splits)
  qed
  moreover have "\<not> prefix (ps @ [name]) us"
  proof
    assume "prefix (ps @ [name]) us"
    then obtain vs where "us = (ps @ [name]) @ vs" by (auto elim: prefixE)
    with assms(1,4) show False by (simp add: resolve_from_append [of root "ps @ [name]" vs] del: append_assoc)
  qed
  moreover have "us \<noteq> ps @ [name]" using assms(1,4) by auto
  ultimately show ?thesis by (auto simp: unrelated_def)
qed

lemma insert_dir_keeps_leaves:
  assumes "np_insert_child \<lparr>np_root = root, np_parts = ps\<rparr> name node = Inr root'"
    and "resolve_from root us = Inr n" and "not_directory n"
  shows "resolve_from root' us = Inr n"
proof -
  from assms(1) obtain es where "resolve_from root ps = Inr (NarDirectory es)"
    by (auto simp: np_insert_child_def np_resolve_def andthen_ok_iff dir_case_ok split: if_split_asm)
  from leaf_unrelated [OF assms(2,3) this insert_child_lookup(3) [OF assms(1)]]
  show ?thesis using insert_child_lookup(2) [OF assms(1)] assms(2) by simp
qed

text \<open>
  A successful \<open>mkdir\<close>, with or without parents, makes the path a directory, and every file and
  symbolic link of the tree stays where it was.
\<close>

theorem mkdir_makes_directory:
  assumes "np_mkdir parents p = Inr q"
  shows "np_is_dir \<lparr>np_root = np_root q, np_parts = np_parts p\<rparr> \<and>
    (\<forall>us n. resolve_from (np_root p) us = Inr n \<longrightarrow> not_directory n \<longrightarrow> resolve_from (np_root q) us = Inr n)"
  using assms
proof (induction parents p arbitrary: q rule: np_mkdir.induct)
  case (1 parents p)
  show ?case
  proof (cases "np_exists p")
    case True
    with "1.prems" have "np_is_dir p" "q = at_root (np_root p)" by (auto simp: np_mkdir.simps [of _ p] split: if_splits)
    then show ?thesis by (simp add: np_simps)
  next
    case False
    with "1.prems" have ps: "np_parts p \<noteq> []" by (auto simp: np_mkdir.simps [of _ p])
    have parts: "butlast (np_parts p) @ [np_name p] = np_parts p" using ps by (simp add: np_name_def)
    show ?thesis
    proof (cases "np_exists (np_parent p)")
      case True
      with False ps "1.prems" obtain root' where
        "np_insert_child \<lparr>np_root = np_root p, np_parts = butlast (np_parts p)\<rparr> (np_name p) (NarDirectory []) = Inr root'"
        "q = at_root root'"
        by (auto simp: np_mkdir.simps [of _ p] np_parent_def andthen_ok_iff Let_def)
      with insert_child_lookup(1) insert_dir_keeps_leaves parts show ?thesis
        by (fastforce simp: np_simps)
    next
      case no: False
      with False ps "1.prems" obtain r root' where
        r: "parents" "np_mkdir True (np_parent p) = Inr r"
          "np_insert_child \<lparr>np_root = np_root r, np_parts = butlast (np_parts p)\<rparr> (np_name p) (NarDirectory []) = Inr root'"
          "q = at_root root'"
        by (auto simp: np_mkdir.simps [of _ p] np_simps andthen_ok_iff Let_def split: if_splits)
      from "1.IH" [OF False ps refl no _ r(2)] r(1)
      have "\<forall>us n. resolve_from (np_root p) us = Inr n \<longrightarrow> not_directory n \<longrightarrow> resolve_from (np_root r) us = Inr n"
        by (simp add: np_simps)
      with insert_child_lookup(1) [OF r(3)] insert_dir_keeps_leaves [OF r(3)] parts r(4) show ?thesis
        by (simp add: np_simps)
    qed
  qed
qed

theorem mkdir_makes_directory_witness:
  "\<exists>q. np_mkdir True \<lparr>np_root = NarDirectory [(''f'', NarSymlink ''x'')], np_parts = [''a'', ''b'']\<rparr> = Inr q \<and>
     np_is_dir \<lparr>np_root = np_root q, np_parts = [''a'', ''b'']\<rparr> \<and> resolve_from (np_root q) [''f''] = Inr (NarSymlink ''x'')"
proof -
  let ?p = "\<lparr>np_root = NarDirectory [(''f'', NarSymlink ''x'')], np_parts = [''a'', ''b'']\<rparr>"
  let ?q = "at_root (NarDirectory [(''f'', NarSymlink ''x''), (''a'', NarDirectory [(''b'', NarDirectory [])])])"
  have m: "np_mkdir True ?p = Inr ?q"
    by (simp add: np_mkdir.simps np_simps np_parent_def np_name_def np_insert_child_def np_resolve_def
        np_replace_in_tree_def at_root_def)
  from mkdir_makes_directory [OF m] have "np_is_dir \<lparr>np_root = np_root ?q, np_parts = [''a'', ''b'']\<rparr>"
    "resolve_from (np_root ?q) [''f''] = Inr (NarSymlink ''x'')"
    by (simp_all add: not_directory_def np_simps)
  with m show ?thesis by blast
qed

end
