(* ===== verification/Nix32.thy ===== *)
theory Nix32
  imports Prelude
begin

text \<open>
  Nix's base-32 and its folded hashes (\<open>pynixd_store/utils.py\<close>). A byte is an 8-bit word: the
  shifts of the code are masked to eight bits or fewer, so Python's integers never keep a bit that
  the word drops.
\<close>

unbundle bit_operations_syntax

section \<open>Base 32\<close>

definition NIX32_CHARS :: string where
  "NIX32_CHARS = ''0123456789abcdfghijklmnpqrsvwxyz''"

definition nix32_digit :: "bytes \<Rightarrow> nat \<Rightarrow> byte" where
  "nix32_digit data n =
     (let b = n * 5; i = b div 8; j = b mod 8;
          c = drop_bit j (data ! i) AND 31
      in if i + 1 < length data then c OR (push_bit (8 - j) (data ! (i + 1)) AND 31) else c)"

definition nix32_encode :: "bytes \<Rightarrow> string" where
  "nix32_encode data =
     (if data = [] then []
      else let result_len = (length data * 8 - 1) div 5 + 1
           in map (\<lambda>n. NIX32_CHARS ! unat (nix32_digit data n)) (rev [0..<result_len]))"

text \<open>\<open>str.index\<close> raises \<open>ValueError\<close> when the character is not there.\<close>

fun index_of :: "char \<Rightarrow> string \<Rightarrow> error + nat" where
  "index_of c [] = Inl ValueError"
| "index_of c (x # xs) = (if x = c then Inr 0 else andthen (index_of c xs) (\<lambda>i. Inr (Suc i)))"

text \<open>One turn of the loop; the bytes past the end are an \<open>IndexError\<close>.\<close>

definition nix32_put :: "bytes \<Rightarrow> nat \<Rightarrow> byte \<Rightarrow> error + bytes" where
  "nix32_put out n digit =
     (let i = n * 5 div 8; j = n * 5 mod 8 in
      if \<not> i < length out then Inl IndexError
      else let out1 = out[i := out ! i OR push_bit j digit];
               carry = drop_bit (8 - j) digit
           in if i + 1 < length out then Inr (out1[i + 1 := out1 ! (i + 1) OR carry])
              else if carry \<noteq> 0 then Inl ValueError
              else Inr out1)"

fun nix32_loop :: "string \<Rightarrow> nat \<Rightarrow> bytes \<Rightarrow> error + bytes" where
  "nix32_loop [] n out = Inr out"
| "nix32_loop (c # cs) n out =
     andthen (index_of c NIX32_CHARS) (\<lambda>digit.
     andthen (nix32_put out n (of_nat digit)) (\<lambda>out'. nix32_loop cs (Suc n) out'))"

definition nix32_decode :: "string \<Rightarrow> error + bytes" where
  "nix32_decode text = nix32_loop (rev text) 0 (replicate (length text * 5 div 8) 0)"

section \<open>Folding a hash\<close>

fun xor_loop :: "nat \<Rightarrow> byte list \<Rightarrow> nat \<Rightarrow> bytes \<Rightarrow> bytes" where
  "xor_loop i [] new_size result = result"
| "xor_loop i (b # bs) new_size result =
     xor_loop (Suc i) bs new_size (result[i mod new_size := result ! (i mod new_size) XOR b])"

definition compress_hash :: "bytes \<Rightarrow> nat \<Rightarrow> error + bytes" where
  "compress_hash data new_size =
     (if length data = new_size then Inr data
      else if \<not> length data > new_size then Inl AssertionError
      else if new_size = 0 then Inl ZeroDivisionError
      else Inr (xor_loop new_size (drop new_size data) new_size (take new_size data)))"

section \<open>The bits of a byte string\<close>

text \<open>Bit \<open>b\<close> of a byte string is bit \<open>b mod 8\<close> of its byte \<open>b div 8\<close>.\<close>

definition data_bit :: "bytes \<Rightarrow> nat \<Rightarrow> bool" where
  "data_bit data b \<longleftrightarrow> b < 8 * length data \<and> bit (data ! (b div 8)) (b mod 8)"

lemma word_31_mask: "(31 :: byte) = mask 5"
  by (simp add: mask_eq_exp_minus_1)

lemma data_bit_eqI:
  assumes "length xs = length ys" and "\<And>b. b < 8 * length xs \<Longrightarrow> data_bit xs b = data_bit ys b"
  shows "xs = ys"
proof (rule nth_equalityI)
  fix i assume i: "i < length xs"
  show "xs ! i = ys ! i"
  proof (rule bit_eqI)
    fix k assume "possible_bit TYPE(byte) k"
    then have k: "k < 8" by (simp add: possible_bit_def)
    with i have b: "8 * i + k < 8 * length xs" "(8 * i + k) div 8 = i" "(8 * i + k) mod 8 = k" by auto
    from assms(2) [OF b(1)] b assms(1) show "bit (xs ! i) k = bit (ys ! i) k" by (simp add: data_bit_def)
  qed
qed (rule assms(1))

lemma div_mod_8: "j < 8 \<Longrightarrow> (8 * i + j) div 8 = i" "j < 8 \<Longrightarrow> (8 * i + j) mod 8 = (j :: nat)"
  by simp_all

lemma bit_nix32_digit:
  assumes "n * 5 < 8 * length data"
  shows "bit (nix32_digit data n) k \<longleftrightarrow> k < 5 \<and> data_bit data (n * 5 + k)"
proof -
  obtain i j where ij: "n * 5 = 8 * i + j" "j < 8" by (metis mod_less_divisor mult_div_mod_eq zero_less_numeral)
  have i: "i < length data" using assms ij by auto
  have digit: "nix32_digit data n = (if i + 1 < length data
      then (drop_bit j (data ! i) AND mask 5) OR (push_bit (8 - j) (data ! (i + 1)) AND mask 5)
      else drop_bit j (data ! i) AND mask 5)"
    by (simp add: nix32_digit_def Let_def ij div_mod_8 word_31_mask)
  show ?thesis
  proof (cases "j + k < 8")
    case True
    then have "data_bit data (n * 5 + k) \<longleftrightarrow> bit (data ! i) (j + k)"
      using i div_mod_8 [of "j + k" i] by (auto simp: data_bit_def ij add.assoc)
    moreover have "\<not> bit (push_bit (8 - j) (data ! (i + 1))) k"
      using True ij(2) by (auto simp: bit_push_bit_iff)
    ultimately show ?thesis
      by (auto simp: digit bit_and_iff bit_or_iff bit_mask_iff bit_drop_bit_eq dest: bit_imp_possible_bit)
  next
    case False
    then have over: "n * 5 + k = 8 * (i + 1) + (j + k - 8)" using ij by simp
    have none: "\<not> bit (data ! i) (j + k)" using False by (auto dest: bit_imp_le_length)
    show ?thesis
    proof (cases "k < 5")
      case True
      then have small: "j + k - 8 < 8" using ij(2) by simp
      then have "data_bit data (n * 5 + k) \<longleftrightarrow> i + 1 < length data \<and> bit (data ! (i + 1)) (j + k - 8)"
        unfolding over data_bit_def div_mod_8 [OF small] by auto
      moreover have "bit (push_bit (8 - j) (data ! (i + 1))) k \<longleftrightarrow> bit (data ! (i + 1)) (j + k - 8)"
        using False True ij(2) Nat.diff_diff_right [of j 8 k] by (auto simp: bit_push_bit_iff add.commute)
      ultimately show ?thesis using True none
        by (auto simp: digit bit_and_iff bit_or_iff bit_mask_iff bit_drop_bit_eq)
    next
      case False
      then show ?thesis by (auto simp: digit bit_and_iff bit_or_iff bit_mask_iff)
    qed
  qed
qed

lemma data_bit_put:
  assumes "nix32_put out n digit = Inr out'"
  shows "length out' = length out \<and>
    (\<forall>b. data_bit out' b \<longleftrightarrow> data_bit out b \<or> b < 8 * length out \<and> n * 5 \<le> b \<and> bit digit (b - n * 5))"
proof -
  obtain i j where ij: "n * 5 = 8 * i + j" "j < 8" by (metis mod_less_divisor mult_div_mod_eq zero_less_numeral)
  let ?out1 = "out[i := out ! i OR push_bit j digit]"
  let ?carry = "drop_bit (8 - j) digit"
  from assms have i: "i < length out"
    and out': "out' = (if i + 1 < length out then ?out1[i + 1 := ?out1 ! (i + 1) OR ?carry] else ?out1)"
    and last: "i + 1 < length out \<or> ?carry = 0"
    by (auto simp: nix32_put_def Let_def ij div_mod_8 split: if_splits)
  have "data_bit out' b \<longleftrightarrow> data_bit out b \<or> b < 8 * length out \<and> n * 5 \<le> b \<and> bit digit (b - n * 5)" for b
  proof -
    obtain c r where cr: "b = 8 * c + r" "r < 8" by (metis mod_less_divisor mult_div_mod_eq zero_less_numeral)
    have old: "data_bit out b \<longleftrightarrow> c < length out \<and> bit (out ! c) r"
      and new: "data_bit out' b \<longleftrightarrow> c < length out \<and> bit (out' ! c) r"
      using cr out' by (auto simp: data_bit_def div_mod_8)
    consider "c < i" | "c = i" | "c = i + 1" | "i + 1 < c" by linarith
    then show ?thesis
    proof cases
      case 1
      then show ?thesis using ij cr old new i out' by auto
    next
      case 2
      have "b - n * 5 = r - j" "n * 5 \<le> b \<longleftrightarrow> j \<le> r" using 2 ij cr by auto
      then show ?thesis using 2 ij cr old new i out'
        by (auto simp: bit_or_iff bit_push_bit_iff)
    next
      case 3
      have d: "b - n * 5 = r + (8 - j)" "n * 5 \<le> b" using 3 ij cr by auto
      show ?thesis using 3 ij cr old new i out' d
        by (auto simp: bit_or_iff bit_drop_bit_eq add.commute)
    next
      case 4
      then have "8 \<le> b - n * 5" using ij cr by auto
      then have "\<not> bit digit (b - n * 5)" by (auto dest: bit_imp_le_length)
      then show ?thesis using 4 ij cr old new i out' by auto
    qed
  qed
  with out' show ?thesis by auto
qed

section \<open>The round trip\<close>

lemma nix32_chars_length: "length NIX32_CHARS = 32"
  by (simp add: NIX32_CHARS_def)

lemma index_of_nth:
  assumes "distinct xs" and "k < length xs"
  shows "index_of (xs ! k) xs = Inr k"
  using assms
proof (induction xs arbitrary: k)
  case (Cons x xs)
  then show ?case by (cases k) (auto simp: nth_eq_iff_index_eq)
qed simp

lemma index_of_ok: "index_of c xs = Inr k \<Longrightarrow> k < length xs \<and> xs ! k = c"
  by (induction xs arbitrary: k) (auto simp: andthen_ok_iff split: if_splits)

lemma index_nix32_char:
  assumes "k < 32"
  shows "index_of (NIX32_CHARS ! k) NIX32_CHARS = Inr k"
proof (rule index_of_nth)
  show "distinct NIX32_CHARS" by (simp add: NIX32_CHARS_def)
  show "k < length NIX32_CHARS" using assms by (simp add: nix32_chars_length)
qed

lemma power5_2: "2 ^ 5 = (32 :: nat)"
  by simp

lemma nix32_digit_less: "n * 5 < 8 * length data \<Longrightarrow> unat (nix32_digit data n) < 32"
proof -
  assume "n * 5 < 8 * length data"
  then have "take_bit 5 (nix32_digit data n) = nix32_digit data n"
    by (intro bit_eqI) (auto simp: bit_take_bit_iff bit_nix32_digit)
  then have "take_bit 5 (unat (nix32_digit data n)) = unat (nix32_digit data n)"
    by (metis unsigned_take_bit_eq)
  then show ?thesis by (metis take_bit_nat_less_exp power5_2)
qed

text \<open>What the first \<open>n\<close> digits say of the bits of the result.\<close>

definition prefix_bits :: "bytes \<Rightarrow> nat \<Rightarrow> bytes \<Rightarrow> bool" where
  "prefix_bits data n out \<longleftrightarrow> length out = length data \<and>
     (\<forall>b. data_bit out b \<longleftrightarrow> b < n * 5 \<and> data_bit data b)"

lemma nix32_put_next:
  assumes "prefix_bits data n out" and "n * 5 < 8 * length data"
  shows "\<exists>out'. nix32_put out n (nix32_digit data n) = Inr out' \<and> prefix_bits data (Suc n) out'"
proof -
  let ?d = "nix32_digit data n"
  have len: "length out = length data" using assms(1) by (simp add: prefix_bits_def)
  have i: "n * 5 div 8 < length out" using assms(2) len by (simp add: less_mult_imp_div_less mult.commute)
  have carry: "n * 5 div 8 + 1 < length out \<or> drop_bit (8 - n * 5 mod 8) ?d = 0"
  proof (rule disjCI)
    assume "drop_bit (8 - n * 5 mod 8) ?d \<noteq> 0"
    then obtain k where "bit (drop_bit (8 - n * 5 mod 8) ?d) k" by (metis bit_eqI bit_0_eq bot_apply bot_bool_def)
    then have "data_bit data (n * 5 + (8 - n * 5 mod 8 + k))"
      by (simp add: bit_drop_bit_eq bit_nix32_digit [OF assms(2)])
    then have "n * 5 + (8 - n * 5 mod 8 + k) < 8 * length data" by (simp add: data_bit_def)
    then show "n * 5 div 8 + 1 < length out" unfolding len by presburger
  qed
  have "\<exists>out'. nix32_put out n ?d = Inr out'"
    using i carry by (auto simp add: nix32_put_def Let_def)
  then obtain out' where put: "nix32_put out n ?d = Inr out'" by blast
  have "data_bit out' b \<longleftrightarrow> b < Suc n * 5 \<and> data_bit data b" for b
  proof (cases "n * 5 \<le> b")
    case True
    then obtain k where "b = n * 5 + k" by (metis le_Suc_ex)
    moreover have "\<not> data_bit out b" using True assms(1) by (simp add: prefix_bits_def)
    moreover have "data_bit data b \<Longrightarrow> b < 8 * length out" using len by (simp add: data_bit_def)
    ultimately show ?thesis using data_bit_put [OF put]
      by (auto simp: bit_nix32_digit [OF assms(2)])
  next
    case False
    then show ?thesis using data_bit_put [OF put] assms(1) by (auto simp: prefix_bits_def)
  qed
  then show ?thesis using put data_bit_put [OF put] len by (auto simp: prefix_bits_def)
qed

lemma nix32_loop_encoded:
  assumes "prefix_bits data n out" and "\<forall>k\<in>set [n..<m]. k * 5 < 8 * length data" and "n \<le> m"
  shows "\<exists>out'. nix32_loop (map (\<lambda>k. NIX32_CHARS ! unat (nix32_digit data k)) [n..<m]) n out = Inr out'
    \<and> prefix_bits data m out'"
  using assms
proof (induction "m - n" arbitrary: n out)
  case 0
  then have "n = m" by simp
  with 0 show ?case by simp
next
  case (Suc d)
  then have nm: "[n..<m] = n # [Suc n..<m]" by (intro upt_conv_Cons) linarith
  then have n: "n * 5 < 8 * length data" using Suc.prems(2) by simp
  obtain out1 where out1: "nix32_put out n (nix32_digit data n) = Inr out1" "prefix_bits data (Suc n) out1"
    using nix32_put_next [OF Suc.prems(1) n] by blast
  have "\<exists>out'. nix32_loop (map (\<lambda>k. NIX32_CHARS ! unat (nix32_digit data k)) [Suc n..<m]) (Suc n) out1
      = Inr out' \<and> prefix_bits data m out'"
  proof (rule Suc.hyps(1) [OF _ out1(2)])
    show "\<forall>k\<in>set [Suc n..<m]. k * 5 < 8 * length data" using Suc.prems(2) unfolding nm by simp
  qed (use Suc.hyps(2) in linarith)+
  then show ?case unfolding nm by (simp add: index_nix32_char [OF nix32_digit_less [OF n]] out1)
qed

text \<open>
  \<open>nix32_decode\<close> gives back the bytes that \<open>nix32_encode\<close> wrote, for every byte string.\<close>

theorem nix32_roundtrip: "nix32_decode (nix32_encode data) = Inr data"
proof (cases "data = []")
  case True
  then show ?thesis by (simp add: nix32_encode_def nix32_decode_def)
next
  case False
  define m where "m = (length data * 8 - 1) div 5 + 1"
  have all: "\<forall>k\<in>set [0..<m]. k * 5 < 8 * length data"
  proof
    fix k assume "k \<in> set [0..<m]"
    then have "k \<le> (length data * 8 - 1) div 5" by (auto simp: m_def)
    then have "k * 5 \<le> (length data * 8 - 1) div 5 * 5" by (rule mult_le_mono1)
    also have "\<dots> \<le> length data * 8 - 1" by (rule div_times_less_eq_dividend)
    finally have "k * 5 \<le> length data * 8 - 1" .
    then show "k * 5 < 8 * length data" using False by (cases data) auto
  qed
  have len: "m * 5 div 8 = length data" "8 * length data \<le> m * 5" using False unfolding m_def by (cases data; simp; presburger)+
  have enc: "rev (nix32_encode data) = map (\<lambda>k. NIX32_CHARS ! unat (nix32_digit data k)) [0..<m]"
    using False by (simp add: nix32_encode_def m_def Let_def rev_map del: upt_Suc)
  have "length (nix32_encode data) = m" using arg_cong [OF enc, of length] by simp
  moreover have "prefix_bits data 0 (replicate (length data) 0)"
    by (auto simp: prefix_bits_def data_bit_def)
  ultimately obtain out where out: "nix32_decode (nix32_encode data) = Inr out" "prefix_bits data m out"
    unfolding nix32_decode_def enc using nix32_loop_encoded [OF _ all] len by auto
  have "out = data"
    by (rule data_bit_eqI) (use out(2) len(2) in \<open>auto simp: prefix_bits_def\<close>)
  with out show ?thesis by simp
qed

section \<open>Only encodings are decoded\<close>

lemma nix32_put_room:
  assumes "nix32_put out n digit = Inr out'"
  shows "n * 5 < 8 * length out" and "bit digit k \<Longrightarrow> n * 5 + k < 8 * length out"
proof -
  obtain i j where ij: "n * 5 = 8 * i + j" "j < 8" by (metis mod_less_divisor mult_div_mod_eq zero_less_numeral)
  from assms have i: "i < length out" and carry: "i + 1 < length out \<or> drop_bit (8 - j) digit = 0"
    by (auto simp: nix32_put_def Let_def ij div_mod_8 split: if_splits)
  show "n * 5 < 8 * length out" using i ij by simp
  show "n * 5 + k < 8 * length out" if k: "bit digit k"
  proof (cases "i + 1 < length out")
    case True
    have "k < 8" using bit_imp_le_length [OF k] by simp
    with True ij show ?thesis by simp
  next
    case False
    with carry have "\<not> bit (drop_bit (8 - j) digit) (k - (8 - j))" by simp
    then have "\<not> (8 - j \<le> k \<and> bit digit k)" by (auto simp: bit_drop_bit_eq)
    with k have "k < 8 - j" by simp
    with i ij show ?thesis by simp
  qed
qed

lemma bit_of_nat_digit: "k < 32 \<Longrightarrow> bit (of_nat k :: byte) b \<Longrightarrow> b < 5"
proof -
  assume k: "k < 32" and b: "bit (of_nat k :: byte) b"
  then have "bit k b" by (simp add: bit_of_nat_iff)
  moreover have "take_bit 5 k = k" using k by (simp add: take_bit_nat_eq_self)
  ultimately show "b < 5" by (metis bit_take_bit_iff)
qed

lemma index_nix32_digit:
  assumes "index_of c NIX32_CHARS = Inr k"
  shows "c = NIX32_CHARS ! unat (of_nat k :: byte)" and "bit (of_nat k :: byte) b \<Longrightarrow> b < 5"
proof -
  have "k < 32 \<and> NIX32_CHARS ! k = c" using index_of_ok [OF assms] by (simp add: nix32_chars_length)
  then show "c = NIX32_CHARS ! unat (of_nat k :: byte)" "bit (of_nat k :: byte) b \<Longrightarrow> b < 5"
    using bit_of_nat_digit by (auto simp: unat_of_nat)
qed

text \<open>The digit at place \<open>m\<close> behind \<open>n\<close> others, and its bits.\<close>

definition digit_bit :: "nat \<Rightarrow> bytes \<Rightarrow> nat \<Rightarrow> bool" where
  "digit_bit n ds b \<longleftrightarrow> n * 5 \<le> b \<and> b < (n + length ds) * 5 \<and> bit (ds ! ((b - n * 5) div 5)) ((b - n * 5) mod 5)"

lemma digit_bit_Cons:
  assumes "\<And>k. bit d k \<Longrightarrow> k < 5"
  shows "digit_bit n (d # ds) b \<longleftrightarrow> (n * 5 \<le> b \<and> bit d (b - n * 5)) \<or> digit_bit (Suc n) ds b"
proof -
  consider "b < n * 5" | k where "b = n * 5 + k" "k < 5" | k where "b = (n + 1) * 5 + k"
  proof -
    have "b < n * 5 \<or> (\<exists>k<5. b = n * 5 + k) \<or> (\<exists>k. b = (n + 1) * 5 + k)" by presburger
    then show thesis using that by blast
  qed
  then show ?thesis
  proof cases
    case 1
    then show ?thesis by (auto simp: digit_bit_def)
  next
    case 2
    then show ?thesis by (auto simp: digit_bit_def)
  next
    case 3
    then have "\<not> bit d (b - n * 5)" using assms by force
    moreover have "b - n * 5 = 5 + k" "b - Suc n * 5 = k" using 3 by auto
    moreover have "(5 + k) div 5 = Suc (k div 5)" "(5 + k) mod 5 = k mod 5" by simp_all
    ultimately show ?thesis using 3 unfolding digit_bit_def by auto
  qed
qed

lemma nix32_loop_ok:
  assumes "nix32_loop cs n out = Inr out'"
  shows "\<exists>ds. cs = map (\<lambda>d. NIX32_CHARS ! unat d) ds \<and> length out' = length out \<and>
    (\<forall>m<length ds. (n + m) * 5 < 8 * length out) \<and> (\<forall>d\<in>set ds. \<forall>k. bit d k \<longrightarrow> k < 5) \<and>
    (\<forall>b. digit_bit n ds b \<longrightarrow> b < 8 * length out) \<and>
    (\<forall>b. data_bit out' b \<longleftrightarrow> data_bit out b \<or> digit_bit n ds b)"
  using assms
proof (induction cs arbitrary: n out)
  case Nil
  then have "\<not> digit_bit n [] b" for b by (auto simp: digit_bit_def)
  with Nil show ?case by simp
next
  case (Cons c cs)
  from Cons.prems obtain k out1 where k: "index_of c NIX32_CHARS = Inr k"
    and put: "nix32_put out n (of_nat k) = Inr out1" and rest: "nix32_loop cs (Suc n) out1 = Inr out'"
    by (auto simp: andthen_ok_iff)
  let ?d = "of_nat k :: byte"
  note one = data_bit_put [OF put] nix32_put_room [OF put] digit_bit_Cons [OF index_nix32_digit(2) [OF k]]
  from Cons.IH [OF rest] obtain ds where ds: "cs = map (\<lambda>d. NIX32_CHARS ! unat d) ds"
    "length out' = length out1" "\<forall>m<length ds. (Suc n + m) * 5 < 8 * length out1"
    "\<forall>d\<in>set ds. \<forall>k. bit d k \<longrightarrow> k < 5" "\<forall>b. digit_bit (Suc n) ds b \<longrightarrow> b < 8 * length out1"
    "\<forall>b. data_bit out' b \<longleftrightarrow> data_bit out1 b \<or> digit_bit (Suc n) ds b" by blast
  have "(n + m) * 5 < 8 * length out" if "m < length (?d # ds)" for m
    using that ds(3) one(1,2) by (cases m) auto
  moreover have "b < 8 * length out" if "digit_bit n (?d # ds) b" for b
    using that one ds(5) by (metis le_add_diff_inverse)
  moreover have "data_bit out' b \<longleftrightarrow> data_bit out b \<or> digit_bit n (?d # ds) b" for b
    using one ds(6) by (metis le_add_diff_inverse)
  ultimately show ?case using ds index_nix32_digit [OF k] one(1)
    by (intro exI [of _ "?d # ds"]) auto
qed

lemma digit_bit_nth: "m < length ds \<Longrightarrow> k < 5 \<Longrightarrow> digit_bit 0 ds (m * 5 + k) \<longleftrightarrow> bit (ds ! m) k"
  by (auto simp: digit_bit_def)

text \<open>
  C20. The decoder is canonical: a text that \<open>nix32_decode\<close> accepts is the encoding of the bytes it
  returns, so no two texts stand for the same hash and left-over bits are refused.\<close>

theorem nix32_decode_canonical:
  assumes "nix32_decode text = Inr data"
  shows "nix32_encode data = text"
proof -
  from nix32_loop_ok [OF assms [unfolded nix32_decode_def]] obtain ds where
    ds: "rev text = map (\<lambda>d. NIX32_CHARS ! unat d) ds" "length data = length text * 5 div 8"
      "\<And>m. m < length ds \<Longrightarrow> m * 5 < 8 * length data" "\<forall>d\<in>set ds. \<forall>k. bit d k \<longrightarrow> k < 5"
      "\<And>b. data_bit data b \<longleftrightarrow> data_bit (replicate (length text * 5 div 8) 0) b \<or> digit_bit 0 ds b"
    by auto
  have zero: "\<not> data_bit (replicate n 0) b" for n b by (auto simp: data_bit_def less_mult_imp_div_less mult.commute)
  have len: "length ds = length text" using arg_cong [OF ds(1), of length] by simp
  have digit: "nix32_digit data m = ds ! m" if m: "m < length ds" for m
  proof (rule bit_eqI)
    fix k
    show "bit (nix32_digit data m) k = bit (ds ! m) k"
      unfolding bit_nix32_digit [OF ds(3) [OF m]] ds(5) eq_False [THEN iffD2, OF zero] simp_thms
      using digit_bit_nth [OF m, of k] ds(4) nth_mem [OF m] by blast
  qed
  show ?thesis
  proof (cases "data = []")
    case True
    then have "ds = []" using ds(3) [of 0] by auto
    then show ?thesis using True ds(1) by (simp add: nix32_encode_def)
  next
    case False
    then have "0 < length text" using ds(2) by (cases "text") auto
    then have "(length text - 1) * 5 < 8 * length data" using ds(3) [of "length text - 1"] len by simp
    moreover have "length data * 8 \<le> length text * 5" unfolding ds(2) by (rule div_times_less_eq_dividend)
    ultimately have "(length data * 8 - 1) div 5 = length text - 1"
      using \<open>0 < length text\<close> by (intro div_nat_eqI) auto
    then have "(length data * 8 - 1) div 5 + 1 = length text" using \<open>0 < length text\<close> by simp
    then have "rev (nix32_encode data) = map (\<lambda>n. NIX32_CHARS ! unat (nix32_digit data n)) [0..<length ds]"
      using False len by (simp add: nix32_encode_def Let_def rev_map del: upt_Suc)
    also have "\<dots> = map (\<lambda>n. NIX32_CHARS ! unat (ds ! n)) [0..<length ds]" using digit by simp
    also have "\<dots> = rev text" unfolding ds(1) by (rule nth_equalityI) simp_all
    finally show ?thesis by simp
  qed
qed

theorem nix32_decode_canonical_witness:
  "nix32_decode ''7y'' = Inr [254] \<and> nix32_encode [254] = ''7y''"
proof -
  have "nix32_decode ''7y'' = Inr [254]" by code_simp
  then show ?thesis using nix32_decode_canonical [of "''7y''" "[254]"] by simp
qed

section \<open>Folding\<close>

text \<open>The bytes at the places congruent to \<open>k\<close>, folded with exclusive or.\<close>

definition xor_all :: "bytes \<Rightarrow> byte" where
  "xor_all bs = foldr (XOR) bs 0"

definition residue_bytes :: "nat \<Rightarrow> bytes \<Rightarrow> nat \<Rightarrow> bytes" where
  "residue_bytes n data k = map (\<lambda>i. data ! i) (filter (\<lambda>i. i mod n = k) [0..<length data])"

lemma residue_bytes_snoc:
  "residue_bytes n (xs @ [x]) k = residue_bytes n xs k @ (if length xs mod n = k then [x] else [])"
proof -
  have "map (\<lambda>i. (xs @ [x]) ! i) (filter (\<lambda>i. i mod n = k) [0..<length xs]) = residue_bytes n xs k"
    unfolding residue_bytes_def by (rule map_cong) (auto simp: nth_append)
  then show ?thesis by (simp add: residue_bytes_def)
qed

lemma xor_all_append: "xor_all (xs @ ys) = xor_all xs XOR xor_all ys"
  by (induction xs) (simp_all add: xor_all_def xor.assoc)

lemma residue_bytes_short: "length xs \<le> n \<Longrightarrow> k < length xs \<Longrightarrow> residue_bytes n xs k = [xs ! k]"
proof -
  assume a: "length xs \<le> n" "k < length xs"
  have "filter (\<lambda>i. i mod n = k) [0..<length xs] = filter (\<lambda>i. i = k) [0..<length xs]"
    using a by (intro filter_cong) auto
  also have "\<dots> = [k]" using a(2)
  proof (induction "length xs" arbitrary: xs)
    case (Suc m)
    have "filter (\<lambda>i. i = k) [0..<m] = (if k < m then [k] else [])" for m by (induction m) auto
    then show ?case using Suc.prems by simp
  qed simp
  finally show ?thesis by (simp add: residue_bytes_def)
qed

lemma xor_loop_residues:
  assumes "0 < n" "length result = n" "\<forall>k<n. result ! k = xor_all (residue_bytes n done k)"
  shows "length (xor_loop (length done) bs n result) = n \<and>
    (\<forall>k<n. xor_loop (length done) bs n result ! k = xor_all (residue_bytes n (done @ bs) k))"
  using assms
proof (induction bs arbitrary: "done" result)
  case (Cons b bs)
  let ?r = "result[length done mod n := result ! (length done mod n) XOR b]"
  have "\<forall>k<n. ?r ! k = xor_all (residue_bytes n (done @ [b]) k)"
    using Cons.prems by (auto simp: residue_bytes_snoc xor_all_append nth_list_update) (simp_all add: xor_all_def)
  from Cons.IH [OF Cons.prems(1) _ this] Cons.prems(2) show ?case by simp
qed simp

text \<open>
  \<open>compress_hash\<close> folds a longer hash to the size asked for: byte \<open>k\<close> of the result is the
  exclusive or of every byte at a place congruent to \<open>k\<close>.\<close>

theorem compress_hash_folds:
  assumes "0 < n" and "n \<le> length data"
  shows "\<exists>h. compress_hash data n = Inr h \<and> length h = n \<and>
    (\<forall>k<n. h ! k = xor_all (residue_bytes n data k))"
proof (cases "length data = n")
  case True
  then show ?thesis by (simp add: compress_hash_def residue_bytes_short) (simp add: xor_all_def)
next
  case False
  let ?t = "take n data"
  have "\<forall>k<n. ?t ! k = xor_all (residue_bytes n ?t k)"
    using assms by (simp add: residue_bytes_short) (simp add: xor_all_def)
  from xor_loop_residues [OF assms(1) _ this, of "drop n data"] False assms show ?thesis
    by (simp add: compress_hash_def)
qed

theorem compress_hash_folds_witness:
  "compress_hash [1, 2, 4, 8, 16] 2 = Inr [21, 10]"
proof -
  obtain h where h: "compress_hash [1, 2, 4, 8, 16] 2 = Inr h" "length h = 2"
    "h ! 0 = xor_all (residue_bytes 2 [1, 2, 4, 8, 16] 0)" "h ! 1 = xor_all (residue_bytes 2 [1, 2, 4, 8, 16] 1)"
    using compress_hash_folds [of 2 "[1, 2, 4, 8, 16]"] by auto
  have "xor_all (residue_bytes 2 [1, 2, 4, 8, 16] 0) = 21" "xor_all (residue_bytes 2 [1, 2, 4, 8, 16] 1) = 10"
    by code_simp+
  then have "h = [21, 10]" using h
    by (auto simp: length_Suc_conv numeral_2_eq_2)
  with h(1) show ?thesis by simp
qed

end
