(* ===== verification/Ref_Scan.thy ===== *)
theory Ref_Scan
  imports Nix32 Nar_Fs
begin

text \<open>
  The scan for references (\<open>pynixd_store/builder/refscan.py\<close>): which of a set of hash parts occur in
  the archive of a path, read in pieces.
\<close>

section \<open>The scanner\<close>

definition HASH_LEN :: nat where
  "HASH_LEN = 32"

definition is_nix32 :: "byte \<Rightarrow> bool" where
  "is_nix32 b \<longleftrightarrow> b \<in> set (encode NIX32_CHARS)"

text \<open>
  The matches of \<open>_RUN.finditer\<close>: the expression is greedy, so they are the longest runs of nix32
  characters, those that are long enough.
\<close>

function nix32_runs :: "bytes \<Rightarrow> bytes list" where
  "nix32_runs [] = []"
| "nix32_runs (b # bs) =
     (if is_nix32 b then (b # takeWhile is_nix32 bs) # nix32_runs (dropWhile is_nix32 bs)
      else nix32_runs bs)"
  by pat_completeness auto
termination
  by (relation "measure length") (auto simp: le_imp_less_Suc length_dropWhile_le)

definition run_matches :: "bytes \<Rightarrow> bytes list" where
  "run_matches buf = filter (\<lambda>r. HASH_LEN \<le> length r) (nix32_runs buf)"

record ref_scanner =
  rs_wanted :: "bytes list"
  rs_seen :: "string list"
  rs_tail :: bytes

definition RefScanner :: "string list \<Rightarrow> ref_scanner" where
  "RefScanner hashes = \<lparr>rs_wanted = remdups (map encode hashes), rs_seen = [], rs_tail = []\<rparr>"

definition scan_window :: "bytes \<Rightarrow> ref_scanner \<Rightarrow> nat \<Rightarrow> ref_scanner" where
  "scan_window run s i =
     (let window = take HASH_LEN (drop i run) in
      if window \<in> set (rs_wanted s)
      then s\<lparr>rs_wanted := filter (\<lambda>w. w \<noteq> window) (rs_wanted s),
             rs_seen := set_add (decode window) (rs_seen s)\<rparr>
      else s)"

definition scan_run :: "ref_scanner \<Rightarrow> bytes \<Rightarrow> ref_scanner" where
  "scan_run s run = foldl (scan_window run) s [0..<length run - HASH_LEN + 1]"

definition scan_feed :: "ref_scanner \<Rightarrow> bytes \<Rightarrow> ref_scanner" where
  "scan_feed s data =
     (if rs_wanted s = [] then s
      else
        let buf = rs_tail s @ data;
            s' = foldl scan_run s (run_matches buf)
        in s'\<lparr>rs_tail := drop (length buf - (HASH_LEN - 1)) buf\<rparr>)"

definition ref_hash_part :: "string \<Rightarrow> string" where
  "ref_hash_part path = take HASH_LEN (rpartition_tail (CHR ''/'') path)"

definition scan_for_references :: "fs_node \<Rightarrow> string list \<Rightarrow> error + string list" where
  "scan_for_references node candidates =
     (let by_hash = foldl (\<lambda>d c. dict_set (ref_hash_part c) c d) [] candidates;
          scanner = RefScanner (map fst by_hash)
      in andthen (dump_path node) (\<lambda>pieces.
           Inr (remdups (map (\<lambda>h. the (map_of by_hash h)) (rs_seen (foldl scan_feed scanner pieces))))))"

section \<open>Runs and windows\<close>

lemma nix32_run_of_word:
  assumes "w \<noteq> []" and "\<forall>b\<in>set w. is_nix32 b"
  shows "sublist w s \<longleftrightarrow> (\<exists>r\<in>set (nix32_runs s). sublist w r)"
proof (induction s rule: nix32_runs.induct)
  case 1
  then show ?case using assms by simp
next
  case (2 b bs)
  show ?case
  proof (cases "is_nix32 b")
    case False
    have "sublist w (b # bs) \<longleftrightarrow> sublist w bs"
      using False assms by (auto simp: sublist_Cons_right prefix_Cons)
    then show ?thesis using 2(2) False by simp
  next
    case True
    let ?r = "b # takeWhile is_nix32 bs" and ?t = "dropWhile is_nix32 bs"
    have "w2 = []" if "w = w1 @ w2" "prefix w2 ?t" for w1 w2
      using that assms(2) hd_dropWhile [of is_nix32 bs] by (cases w2; cases ?t) auto
    then have "sublist w (?r @ ?t) \<longleftrightarrow> sublist w ?r \<or> sublist w ?t"
      unfolding sublist_append by (metis append_Nil2 suffix_imp_sublist)
    moreover have "?r @ ?t = b # bs" by simp
    ultimately show ?thesis using 2(1) [OF True] True by simp
  qed
qed

lemma sublist_window:
  assumes "length w = k"
  shows "sublist w r \<longleftrightarrow> k \<le> length r \<and> (\<exists>i\<in>set [0..<length r - k + 1]. take k (drop i r) = w)"
proof
  assume "sublist w r"
  then obtain a c where "r = a @ w @ c" by (auto simp: sublist_def)
  then show "k \<le> length r \<and> (\<exists>i\<in>set [0..<length r - k + 1]. take k (drop i r) = w)"
    using assms by (auto intro!: bexI [of _ "length a"])
next
  assume "k \<le> length r \<and> (\<exists>i\<in>set [0..<length r - k + 1]. take k (drop i r) = w)"
  then obtain i where "take k (drop i r) = w" by blast
  then have "r = take i r @ w @ drop k (drop i r)" by (metis append_take_drop_id)
  then show "sublist w r" by (auto simp: sublist_def)
qed

lemma sublist_with_tail:
  assumes "length w = Suc k"
  shows "sublist w (t @ d) \<longleftrightarrow> sublist w t \<or> sublist w (drop (length t - k) t @ d)"
proof
  assume "sublist w (t @ d)"
  then consider "sublist w t" | "sublist w d" | a c where "w = a @ c" "suffix a t" "prefix c d" "c \<noteq> []"
    unfolding sublist_append by (metis append_Nil2 suffix_imp_sublist)
  then show "sublist w t \<or> sublist w (drop (length t - k) t @ d)"
  proof cases
    case 3
    then have "length a \<le> k" using assms by (cases c) auto
    then have "suffix a (drop (length t - k) t)" using 3(2)
      by (auto simp: suffix_def)
    then show ?thesis using 3 unfolding sublist_append by blast
  qed (auto simp: sublist_append)
next
  have "sublist (drop (length t - k) t @ d) (t @ d)"
    by (metis append.assoc append_take_drop_id sublist_append_leftI sublist_order.order_refl)
  then show "sublist w t \<or> sublist w (drop (length t - k) t @ d) \<Longrightarrow> sublist w (t @ d)"
    by (meson sublist_append_rightI sublist_order.order_trans)
qed

section \<open>What has been seen\<close>

text \<open>The hashes a scan can find: \<open>HASH_LEN\<close> nix32 characters.\<close>

definition scannable :: "bytes \<Rightarrow> bool" where
  "scannable w \<longleftrightarrow> length w = HASH_LEN \<and> (\<forall>b\<in>set w. is_nix32 b)"

text \<open>The scanner after it has looked at \<open>found\<close>, a set of windows: seen and wanted share out \<open>hashes\<close>.\<close>

definition looked_at :: "bytes set \<Rightarrow> bytes set \<Rightarrow> ref_scanner \<Rightarrow> bool" where
  "looked_at hashes found s \<longleftrightarrow>
     set (rs_wanted s) = hashes - found \<and> encode ` set (rs_seen s) = hashes \<inter> found"

lemma looked_at_window:
  "looked_at hashes found s \<Longrightarrow>
    looked_at hashes (insert (take HASH_LEN (drop i run)) found) (scan_window run s i)"
  by (auto simp: looked_at_def scan_window_def Let_def)

lemma looked_at_windows:
  "looked_at hashes found s \<Longrightarrow>
    looked_at hashes (found \<union> (\<lambda>i. take HASH_LEN (drop i run)) ` set is) (foldl (scan_window run) s is)"
proof (induction "is" arbitrary: s found)
  case (Cons i "is")
  from Cons.IH [OF looked_at_window [OF Cons.prems]] show ?case by simp
qed simp

lemma looked_at_runs:
  "looked_at hashes found s \<Longrightarrow>
    looked_at hashes (found \<union> (\<Union>r\<in>set rs. (\<lambda>i. take HASH_LEN (drop i r)) ` set [0..<length r - HASH_LEN + 1]))
      (foldl scan_run s rs)"
proof (induction rs arbitrary: s found)
  case (Cons r rs)
  from Cons.IH [OF looked_at_windows [OF Cons.prems], of r "[0..<length r - HASH_LEN + 1]"]
  show ?case by (simp add: scan_run_def Un_assoc del: upt_Suc)
qed simp

lemma nix32_runs_nix32: "r \<in> set (nix32_runs s) \<Longrightarrow> b \<in> set r \<Longrightarrow> is_nix32 b"
  by (induction s rule: nix32_runs.induct) (auto split: if_splits dest: set_takeWhileD)

lemma run_windows:
  "(\<Union>r\<in>set (run_matches buf). (\<lambda>i. take HASH_LEN (drop i r)) ` set [0..<length r - HASH_LEN + 1])
    = {w. scannable w \<and> sublist w buf}" (is "?L = ?R")
proof (intro equalityI subsetI)
  fix w assume "w \<in> ?L"
  then obtain r i where r: "r \<in> set (nix32_runs buf)" "HASH_LEN \<le> length r"
    and i: "i \<le> length r - HASH_LEN" and w: "w = take HASH_LEN (drop i r)"
    by (auto simp: run_matches_def less_Suc_eq_le simp del: upt_Suc)
  have "length w = HASH_LEN" using w r(2) i by simp
  moreover have "set w \<subseteq> set r" using w by (auto dest: in_set_takeD in_set_dropD)
  ultimately have "scannable w" using nix32_runs_nix32 [OF r(1)] by (auto simp: scannable_def)
  moreover have "sublist w r"
  proof -
    have "i \<in> set [0..<length r - HASH_LEN + 1]" using i by (simp add: less_Suc_eq_le del: upt_Suc)
    then show ?thesis using sublist_window [OF \<open>length w = HASH_LEN\<close>, of r] r(2) w by blast
  qed
  ultimately show "w \<in> ?R"
    using nix32_run_of_word [of w buf] r(1) by (auto simp: scannable_def HASH_LEN_def)
next
  fix w assume "w \<in> ?R"
  then have w: "length w = HASH_LEN" "\<forall>b\<in>set w. is_nix32 b" "sublist w buf" by (auto simp: scannable_def)
  have "w \<noteq> []" using w(1) by (auto simp: HASH_LEN_def)
  with w obtain r where "r \<in> set (nix32_runs buf)" "sublist w r"
    using nix32_run_of_word [of w buf] by blast
  then show "w \<in> ?L" using sublist_window [OF w(1), of r] by (auto simp: run_matches_def simp del: upt_Suc)
qed

text \<open>
  The scanner after it has read \<open>text\<close>: it has looked at every window of it, and unless nothing is
  wanted any more it keeps the end of it.
\<close>

definition has_read :: "bytes set \<Rightarrow> bytes \<Rightarrow> ref_scanner \<Rightarrow> bool" where
  "has_read hashes read s \<longleftrightarrow> looked_at hashes {w. scannable w \<and> sublist w read} s \<and>
     (rs_wanted s = [] \<or> rs_tail s = drop (length read - (HASH_LEN - 1)) read)"

lemma drop_tail: "drop (length (drop (length t - k) t @ d) - k) (drop (length t - k) t @ d) = drop (length (t @ d) - k) (t @ d)"
  by (cases "k \<le> length t") (auto simp: add.commute)

lemma has_read_feed:
  assumes "has_read hashes read s"
  shows "has_read hashes (read @ data) (scan_feed s data)"
proof (cases "rs_wanted s = []")
  case True
  then have "hashes \<subseteq> {w. scannable w \<and> sublist w read}"
    using assms by (auto simp: has_read_def looked_at_def)
  moreover have "{w. scannable w \<and> sublist w read} \<subseteq> {w. scannable w \<and> sublist w (read @ data)}"
    by (auto intro: sublist_order.order_trans)
  ultimately show ?thesis using assms True by (auto simp: has_read_def looked_at_def scan_feed_def)
next
  case False
  let ?k = "HASH_LEN - 1" and ?buf = "rs_tail s @ data"
  have tail: "rs_tail s = drop (length read - ?k) read" and look: "looked_at hashes {w. scannable w \<and> sublist w read} s"
    using assms False by (auto simp: has_read_def)
  have "{w. scannable w \<and> sublist w (read @ data)} = {w. scannable w \<and> sublist w read} \<union> {w. scannable w \<and> sublist w ?buf}"
    unfolding tail using sublist_with_tail [of _ ?k read data] by (auto simp: scannable_def HASH_LEN_def)
  with looked_at_runs [OF look, of "run_matches ?buf"] run_windows [of ?buf]
  have "looked_at hashes {w. scannable w \<and> sublist w (read @ data)} (foldl scan_run s (run_matches ?buf))" by simp
  then show ?thesis using False drop_tail [of read ?k data]
    by (simp add: has_read_def scan_feed_def Let_def looked_at_def tail)
qed

lemma has_read_pieces: "has_read hashes read s \<Longrightarrow> has_read hashes (read @ concat ps) (foldl scan_feed s ps)"
proof (induction ps arbitrary: s read)
  case (Cons p ps)
  from Cons.IH [OF has_read_feed [OF Cons.prems]] show ?case by simp
qed simp

lemma inj_encode: "inj encode"
  by (rule injI) (metis decode_encode)

lemma seen_occurrences:
  "set (rs_seen (foldl scan_feed (RefScanner hashes) pieces)) =
    {h \<in> set hashes. length h = HASH_LEN \<and> set h \<subseteq> set NIX32_CHARS \<and> sublist (encode h) (concat pieces)}"
proof -
  let ?s = "foldl scan_feed (RefScanner hashes) pieces" and ?H = "encode ` set hashes"
  have "\<not> scannable []" by (simp add: scannable_def HASH_LEN_def)
  then have none: "{w. scannable w \<and> sublist w []} = {}" by auto
  have "has_read ?H [] (RefScanner hashes)"
    unfolding has_read_def looked_at_def RefScanner_def none by simp
  from has_read_pieces [OF this, of pieces]
  have "encode ` set (rs_seen ?s) = ?H \<inter> {w. scannable w \<and> sublist w (concat pieces)}"
    by (simp add: has_read_def looked_at_def)
  also have "\<dots> = encode ` {h \<in> set hashes. scannable (encode h) \<and> sublist (encode h) (concat pieces)}" by auto
  finally have "set (rs_seen ?s) = {h \<in> set hashes. scannable (encode h) \<and> sublist (encode h) (concat pieces)}"
    by (rule inj_image_eq_iff [OF inj_encode, THEN iffD1])
  moreover have "scannable (encode h) \<longleftrightarrow> length h = HASH_LEN \<and> set h \<subseteq> set NIX32_CHARS" for h
  proof -
    have "inj (\<lambda>c. of_nat (of_char c) :: byte)" by (rule injI) (metis char_of_unat_of_char)
    then have "is_nix32 (of_nat (of_char c)) \<longleftrightarrow> c \<in> set NIX32_CHARS" for c
      by (auto simp: is_nix32_def encode_def dest: injD)
    then show ?thesis by (auto simp: scannable_def encode_def)
  qed
  ultimately show ?thesis by auto
qed

text \<open>
  A hash is seen exactly where it occurs, however the archive is cut into pieces: after any
  sequence of \<open>feed\<close>s the scanner has seen the hashes asked for, of 32 nix32 characters, that occur
  anywhere in the whole, those that lie across the pieces included.\<close>

theorem scanner_sees_occurrences:
  "set (rs_seen (foldl scan_feed (RefScanner hashes) pieces)) =
    {h \<in> set hashes. length h = HASH_LEN \<and> set h \<subseteq> set NIX32_CHARS \<and> sublist (encode h) (concat pieces)}"
  by (rule seen_occurrences)

section \<open>References of a path\<close>

lemma by_hash_lookup:
  assumes "distinct (map f cs)" and "fst ` set d \<inter> set (map f cs) = {}"
  shows "foldl (\<lambda>d c. dict_set (f c) c d) d cs = d @ map (\<lambda>c. (f c, c)) cs"
  using assms
proof (induction cs arbitrary: d)
  case (Cons c cs)
  then have "dict_set (f c) c d = d @ [(f c, c)]" by (intro dict_set_fresh) auto
  then show ?case using Cons.prems Cons.IH [of "d @ [(f c, c)]"] by auto
qed simp

lemma map_of_by_key: "distinct (map f cs) \<Longrightarrow> c \<in> set cs \<Longrightarrow> map_of (map (\<lambda>c. (f c, c)) cs) (f c) = Some c"
  by (intro map_of_is_SomeI) (auto simp: comp_def)

text \<open>
  C21. \<open>scan_for_references\<close> returns the candidates whose hash part occurs in the archive of the path:
  all of them and no other, for candidates that differ in their hash parts and whose hash parts are
  hashes.\<close>

theorem scan_finds_references:
  assumes "fs_ok 0 node"
    and "distinct (map ref_hash_part candidates)"
    and "\<forall>c\<in>set candidates. length (ref_hash_part c) = HASH_LEN \<and> set (ref_hash_part c) \<subseteq> set NIX32_CHARS"
  shows "\<exists>refs. scan_for_references node candidates = Inr refs \<and>
    set refs = {c \<in> set candidates. sublist (encode (ref_hash_part c)) (fs_archive (sort_fs node))}"
proof -
  obtain ps where ps: "dump_path node = Inr ps" "concat ps = fs_archive (sort_fs node)"
    using dump_path_archive [OF assms(1)] by blast
  let ?d = "map (\<lambda>c. (ref_hash_part c, c)) candidates"
  let ?seen = "rs_seen (foldl scan_feed (RefScanner (map ref_hash_part candidates)) ps)"
  have d: "foldl (\<lambda>d c. dict_set (ref_hash_part c) c d) [] candidates = ?d"
    using by_hash_lookup [OF assms(2), of "[]"] by simp
  have "scan_for_references node candidates = Inr (remdups (map (\<lambda>h. the (map_of ?d h)) ?seen))"
    by (simp add: scan_for_references_def d ps(1) comp_def)
  moreover have "set ?seen = ref_hash_part ` {c \<in> set candidates. sublist (encode (ref_hash_part c)) (concat ps)}"
    unfolding seen_occurrences using assms(3) by auto
  then have "(\<lambda>h. the (map_of ?d h)) ` set ?seen
      = {c \<in> set candidates. sublist (encode (ref_hash_part c)) (concat ps)}"
    using map_of_by_key [OF assms(2)] by (simp add: image_image cong: image_cong_simp)
  ultimately show ?thesis using ps(2) by simp
qed

lemma single_reference: "set refs = {c \<in> set [x]. P c} \<Longrightarrow> P x \<Longrightarrow> set refs = {x}"
  by auto

theorem scan_finds_references_witness:
  "\<exists>refs. scan_for_references (FsSymlink (encode (''/nix/store/'' @ replicate 32 (CHR ''a''))))
      [''/nix/store/'' @ replicate 32 (CHR ''a'') @ ''-x''] = Inr refs \<and>
    refs = [''/nix/store/'' @ replicate 32 (CHR ''a'') @ ''-x'']"
proof -
  let ?n = "FsSymlink (encode (''/nix/store/'' @ replicate 32 (CHR ''a'')))"
  let ?c = "''/nix/store/'' @ replicate 32 (CHR ''a'') @ ''-x''"
  have ok: "fs_ok 0 ?n" by (simp add: MAX_DEPTH_def MAX_TARGET_def encode_def)
  have h: "ref_hash_part ?c = replicate 32 (CHR ''a'')" by code_simp
  have "length (ref_hash_part ?c) = HASH_LEN \<and> set (ref_hash_part ?c) \<subseteq> set NIX32_CHARS"
    unfolding h by (simp add: HASH_LEN_def NIX32_CHARS_def)
  with scan_finds_references [OF ok, of "[?c]"] obtain refs where
    refs: "scan_for_references ?n [?c] = Inr refs"
      "set refs = {c \<in> set [?c]. sublist (encode (ref_hash_part c)) (fs_archive (sort_fs ?n))}" by auto
  have "sublist (encode (replicate 32 (CHR ''a''))) (encode (''/nix/store/'' @ replicate 32 (CHR ''a'')))"
    unfolding encode_append by (rule sublist_append_leftI)
  moreover have "sublist (encode (''/nix/store/'' @ replicate 32 (CHR ''a''))) (fs_archive (sort_fs ?n))"
    by (simp add: fs_archive_def token_bytes_def framed_bytes_def sublist_append)
  ultimately have "sublist (encode (ref_hash_part ?c)) (fs_archive (sort_fs ?n))"
    unfolding h by (rule sublist_order.order_trans)
  then have "set refs = {?c}" by (rule single_reference [OF refs(2)])
  moreover have "distinct refs" using refs(1) by (auto simp: scan_for_references_def Let_def andthen_ok_iff)
  ultimately have "length refs = 1" using distinct_card [of refs] by simp
  with \<open>set refs = {?c}\<close> have "refs = [?c]" by (cases refs) simp_all
  with refs(1) show ?thesis by simp
qed

end
