(* ===== verification/Drv_Text.thy ===== *)
theory Drv_Text
  imports Prelude
begin

text \<open>
  The strings of a derivation file (\<open>pynixd_store/drv_parser.py\<close>): escaping, the two ways the code
  removes escapes again, a piece of at most \<open>_PIECE\<close> characters at a time, and the scan for the
  closing quote in windows of that size. The position of the parser is modelled by the text that is
  left.
\<close>

section \<open>Escaping\<close>

abbreviation DQ :: char where "DQ \<equiv> CHR 0x22"
abbreviation BS :: char where "BS \<equiv> CHR 0x5C"
abbreviation LF :: char where "LF \<equiv> CHR 0x0A"
abbreviation CR :: char where "CR \<equiv> CHR 0x0D"
abbreviation TAB :: char where "TAB \<equiv> CHR 0x09"
abbreviation NUL :: char where "NUL \<equiv> CHR 0x00"

text \<open>\<open>s.replace(old, new)\<close> for an \<open>old\<close> of one character and of two.\<close>

definition replace1 :: "char \<Rightarrow> string \<Rightarrow> string \<Rightarrow> string" where
  "replace1 c new s = concat (map (\<lambda>x. if x = c then new else [x]) s)"

fun replace2 :: "char \<Rightarrow> char \<Rightarrow> string \<Rightarrow> string \<Rightarrow> string" where
  "replace2 a b new (x # y # s) =
     (if x = a \<and> y = b then new @ replace2 a b new s else x # replace2 a b new (y # s))"
| "replace2 a b new s = s"

definition aterm_escape :: "string \<Rightarrow> string" where
  "aterm_escape s =
     replace1 TAB [BS, CHR ''t''] (replace1 CR [BS, CHR ''r''] (replace1 LF [BS, CHR ''n'']
       (replace1 DQ [BS, DQ] (replace1 BS [BS, BS] s))))"

section \<open>Removing the escapes\<close>

definition PIECE :: nat where
  "PIECE = 2 ^ 20"

definition escape_value :: "char \<Rightarrow> char" where
  "escape_value c =
     (if c = CHR ''n'' then LF else if c = CHR ''r'' then CR else if c = CHR ''t'' then TAB else c)"

text \<open>\<open>_ESCAPED.sub\<close>: each backslash with the character behind it becomes what \<open>f\<close> makes of that.\<close>

fun sub_escaped :: "(char \<Rightarrow> char) \<Rightarrow> string \<Rightarrow> string" where
  "sub_escaped f (x # y # s) = (if x = BS then f y # sub_escaped f s else x # sub_escaped f (y # s))"
| "sub_escaped f s = s"

definition unescape_piece :: "string \<Rightarrow> string" where
  "unescape_piece body =
     (if BS \<notin> set body then body
      else if NUL \<in> set body then sub_escaped escape_value body
      else
        let t = replace2 BS (CHR ''r'') [CR] (replace2 BS (CHR ''n'') [LF]
              (replace2 BS DQ [DQ] (replace2 BS BS [NUL] body)));
            t = replace2 BS (CHR ''t'') [TAB] t;
            t = (if BS \<in> set t then sub_escaped (\<lambda>c. c) t else t)
        in replace1 NUL [BS] t)"

text \<open>The backslashes right before the cut.\<close>

definition backslash_run :: "string \<Rightarrow> nat" where
  "backslash_run s = length (takeWhile (\<lambda>c. c = BS) (rev s))"

definition piece_cut :: "string \<Rightarrow> nat" where
  "piece_cut left =
     (let cut = min PIECE (length left) in cut + backslash_run (take cut left) mod 2)"

function unescape_loop :: "string \<Rightarrow> string" where
  "unescape_loop left =
     (if left = [] then []
      else unescape_piece (take (piece_cut left) left) @ unescape_loop (drop (piece_cut left) left))"
  by pat_completeness auto
termination
  by (relation "measure length") (auto simp: piece_cut_def PIECE_def Let_def)

declare unescape_loop.simps [simp del]

definition unescape :: "string \<Rightarrow> string" where
  "unescape body = (if BS \<notin> set body then body else unescape_loop body)"

section \<open>The parser's primitives\<close>

definition peek :: "string \<Rightarrow> error + char" where
  "peek left = (case left of [] \<Rightarrow> Inl ValueError | c # _ \<Rightarrow> Inr c)"

definition advance :: "string \<Rightarrow> error + (char \<times> string)" where
  "advance left = (case left of [] \<Rightarrow> Inl ValueError | c # cs \<Rightarrow> Inr (c, cs))"

fun expect :: "string \<Rightarrow> string \<Rightarrow> error + string" where
  "expect [] left = Inr left"
| "expect (ch # s) left =
     andthen (advance left) (\<lambda>(got, left'). if got \<noteq> ch then Inl ValueError else expect s left')"

definition skip_ws :: "string \<Rightarrow> string" where
  "skip_ws left = dropWhile (\<lambda>c. c = CHR '' '' \<or> c = TAB \<or> c = LF \<or> c = CR) left"

text \<open>
  How far \<open>_STRING_BODY\<close> matches in a window: plain characters and whole escapes, up to a quote, the
  end, or an escape that the window cuts.
\<close>

fun body_length :: "nat \<Rightarrow> string \<Rightarrow> nat" where
  "body_length (Suc n) (c # s) =
     (if c = DQ then 0
      else if c = BS then (case (n, s) of (Suc m, d # s') \<Rightarrow> Suc (Suc (body_length m s')) | _ \<Rightarrow> 0)
      else Suc (body_length n s))"
| "body_length _ _ = 0"

lemma body_length_le: "body_length n s \<le> length s"
  by (induction n s rule: body_length.induct) (auto split: nat.splits list.splits)

function scan_string :: "string \<Rightarrow> error + nat" where
  "scan_string left =
     (let scanned = body_length (max PIECE 2) left in
      if scanned < length left \<and> left ! scanned = DQ then Inr scanned
      else if scanned = 0 then Inl ValueError
      else andthen (scan_string (drop scanned left)) (\<lambda>n. Inr (scanned + n)))"
  by pat_completeness auto
termination
proof (relation "measure length")
  fix left :: string and x
  assume "x = body_length (max PIECE 2) left" "\<not> (x < length left \<and> left ! x = DQ)" "x \<noteq> 0"
  then show "(drop x left, left) \<in> measure length" by (cases left) auto
qed simp

declare scan_string.simps [simp del]

definition parse_string :: "string \<Rightarrow> error + (string \<times> string)" where
  "parse_string left =
     andthen (expect [DQ] left) (\<lambda>left'.
     andthen (scan_string left') (\<lambda>n.
     Inr (unescape (take n left'), drop (n + 1) left')))"

section \<open>Removing the escapes, all at once\<close>

text \<open>A text that ends inside an escape.\<close>

fun dangling :: "string \<Rightarrow> bool" where
  "dangling (x # y # s) = (if x = BS then dangling s else dangling (y # s))"
| "dangling [x] = (x = BS)"
| "dangling [] = False"

lemma dangling_snoc: "dangling (s @ [x]) \<longleftrightarrow> x = BS \<and> \<not> dangling s"
  by (induction s rule: dangling.induct) auto

lemma backslash_run_snoc: "backslash_run (s @ [x]) = (if x = BS then Suc (backslash_run s) else 0)"
  by (simp add: backslash_run_def)

lemma dangling_run: "dangling s \<longleftrightarrow> odd (backslash_run s)"
proof (induction s rule: rev_induct)
  case Nil
  then show ?case by (simp add: backslash_run_def)
next
  case (snoc x s)
  then show ?case by (simp add: dangling_snoc backslash_run_snoc)
qed

lemma sub_escaped_cons: "x \<noteq> BS \<Longrightarrow> sub_escaped f (x # s) = x # sub_escaped f s"
  by (cases s) auto

lemma sub_escaped_append: "\<not> dangling a \<Longrightarrow> sub_escaped f (a @ b) = sub_escaped f a @ sub_escaped f b"
  by (induction f a rule: sub_escaped.induct) (auto simp: sub_escaped_cons split: if_splits)

lemma sub_escaped_plain: "BS \<notin> set s \<Longrightarrow> sub_escaped f s = s"
  by (induction f s rule: sub_escaped.induct) auto

lemma sub_escaped_cong: "(\<And>c. c \<in> set s \<Longrightarrow> f c = g c) \<Longrightarrow> sub_escaped f s = sub_escaped g s"
  by (induction f s rule: sub_escaped.induct) auto

text \<open>The escapes of some characters removed, those of the others left.\<close>

fun sub_some :: "char set \<Rightarrow> (char \<Rightarrow> char) \<Rightarrow> string \<Rightarrow> string" where
  "sub_some K f (x # y # s) =
     (if x = BS then (if y \<in> K then f y # sub_some K f s else BS # y # sub_some K f s)
      else x # sub_some K f (y # s))"
| "sub_some K f s = s"

lemma replace2_cons: "x \<noteq> a \<Longrightarrow> replace2 a b new (x # s) = x # replace2 a b new s"
  by (cases s) auto

lemma replace_backslashes: "replace2 BS BS [NUL] s = sub_some {BS} (\<lambda>_. NUL) s"
  by (induction "{BS}" "\<lambda>_ :: char. NUL" s rule: sub_some.induct) (auto simp: replace2_cons)

lemma replace_escape:
  assumes "BS \<in> K" and "\<forall>k\<in>K. f k \<noteq> BS" and "c \<notin> K"
  shows "replace2 BS c [d] (sub_some K f s) = sub_some (insert c K) (f(c := d)) s"
  using assms
proof (induction K f s rule: sub_some.induct)
  case (1 K f x y s)
  have "y \<noteq> BS" if "y \<notin> K" using that 1(4) by auto
  then show ?case using 1 by (auto simp: replace2_cons)
qed auto

lemma sub_escaped_sub_some:
  assumes "\<forall>k\<in>K. f k \<noteq> BS"
  shows "sub_escaped (\<lambda>c. c) (sub_some K f s) = sub_escaped (\<lambda>c. if c \<in> K then f c else c) s"
  using assms by (induction K f s rule: sub_some.induct) (auto simp: sub_escaped_cons)

lemma replace1_char: "replace1 c [d] s = map (\<lambda>x. if x = c then d else x) s"
  by (induction s) (auto simp: replace1_def)

lemma map_sub_escaped:
  "NUL \<notin> set s \<Longrightarrow> map (\<lambda>x. if x = NUL then BS else x) (sub_escaped f s)
    = sub_escaped (\<lambda>c. if f c = NUL then BS else f c) s"
  by (induction f s rule: sub_escaped.induct) auto

lemma unescape_piece_spec: "unescape_piece s = sub_escaped escape_value s"
proof (cases "BS \<notin> set s \<or> NUL \<in> set s")
  case True
  then show ?thesis by (auto simp: unescape_piece_def sub_escaped_plain)
next
  case False
  define f where "f = ((((\<lambda>_. NUL)(DQ := DQ))(CHR ''n'' := LF))(CHR ''r'' := CR))(CHR ''t'' := TAB)"
  define K where "K = insert (CHR ''t'') (insert (CHR ''r'') (insert (CHR ''n'') (insert DQ {BS})))"
  let ?t = "replace2 BS (CHR ''t'') [TAB] (replace2 BS (CHR ''r'') [CR] (replace2 BS (CHR ''n'') [LF]
      (replace2 BS DQ [DQ] (replace2 BS BS [NUL] s))))"
  have t: "?t = sub_some K f s"
    unfolding replace_backslashes K_def f_def
    by (subst replace_escape, simp, simp, simp)+ (rule refl)
  have "(if BS \<in> set ?t then sub_escaped (\<lambda>c. c) ?t else ?t) = sub_escaped (\<lambda>c. c) ?t"
    by (simp add: sub_escaped_plain)
  also have "\<dots> = sub_escaped (\<lambda>c. if c \<in> K then f c else c) s"
    unfolding t by (rule sub_escaped_sub_some) (auto simp: K_def f_def)
  finally have "unescape_piece s = replace1 NUL [BS] (sub_escaped (\<lambda>c. if c \<in> K then f c else c) s)"
    using False by (simp add: unescape_piece_def Let_def)
  also have "\<dots> = sub_escaped (\<lambda>c. let v = if c \<in> K then f c else c in if v = NUL then BS else v) s"
    using False unfolding replace1_char Let_def by (intro map_sub_escaped) simp
  also have "\<dots> = sub_escaped escape_value s"
  proof -
    have "(let v = if c \<in> K then f c else c in if v = NUL then BS else v) = escape_value c" if "c \<noteq> NUL" for c
      using that by (auto simp: K_def f_def escape_value_def Let_def)
    then show ?thesis using False by (intro sub_escaped_cong) (metis (no_types, lifting))
  qed
  finally show ?thesis .
qed

lemma piece_cut_whole:
  "dangling (take (piece_cut left) left) \<Longrightarrow> drop (piece_cut left) left = []"
proof -
  let ?c = "min PIECE (length left)"
  assume d: "dangling (take (piece_cut left) left)"
  show "drop (piece_cut left) left = []"
  proof (cases "dangling (take ?c left)")
    case False
    then have "piece_cut left = ?c" by (auto simp: piece_cut_def dangling_run even_iff_mod_2_eq_zero)
    with False d show ?thesis by simp
  next
    case True
    then have cut: "piece_cut left = Suc ?c" by (simp add: piece_cut_def dangling_run odd_iff_mod_2_eq_one)
    show ?thesis
    proof (cases "?c < length left")
      case True
      then have "take (piece_cut left) left = take ?c left @ [left ! ?c]" by (simp add: cut take_Suc_conv_app_nth)
      with d \<open>dangling (take ?c left)\<close> show ?thesis by (simp add: dangling_snoc)
    next
      case False
      then show ?thesis by (simp add: cut)
    qed
  qed
qed

lemma unescape_loop_spec: "unescape_loop left = sub_escaped escape_value left"
proof (induction left rule: unescape_loop.induct)
  case (1 left)
  show ?case
  proof (cases "left = []")
    case True
    then show ?thesis by (simp add: unescape_loop.simps)
  next
    case False
    let ?a = "take (piece_cut left) left" and ?b = "drop (piece_cut left) left"
    have "sub_escaped escape_value (?a @ ?b) = sub_escaped escape_value ?a @ sub_escaped escape_value ?b"
    proof (cases "dangling ?a")
      case True
      from piece_cut_whole [OF this] show ?thesis by simp
    qed (rule sub_escaped_append)
    with 1 [OF False] False show ?thesis
      by (subst unescape_loop.simps) (simp add: unescape_piece_spec)
  qed
qed

lemma unescape_spec: "unescape s = sub_escaped escape_value s"
  by (simp add: unescape_def unescape_loop_spec sub_escaped_plain)

text \<open>
  C29. Removing the escapes a piece at a time, by seven rounds of \<open>str.replace\<close> in each piece, gives
  what removing them one by one from the front gives: no cut splits an escape, and the NUL that
  stands for a backslash in between is never mistaken for one of the text.\<close>

theorem unescape_one_by_one: "unescape body = sub_escaped escape_value body"
  by (rule unescape_spec)

section \<open>The closing quote\<close>

fun closing_quote :: "string \<Rightarrow> nat option" where
  "closing_quote [] = None"
| "closing_quote (c # s) =
     (if c = DQ then Some 0
      else if c = BS then (case s of [] \<Rightarrow> None | d # s' \<Rightarrow> map_option (\<lambda>n. n + 2) (closing_quote s'))
      else map_option Suc (closing_quote s))"

lemma closing_quote_body:
  "closing_quote s = map_option (\<lambda>m. body_length n s + m) (closing_quote (drop (body_length n s) s))"
proof (induction n s rule: body_length.induct)
  case (1 n c s)
  show ?case
  proof (cases "c = DQ \<or> c \<noteq> BS")
    case True
    then show ?thesis using 1(2) by (cases "closing_quote (drop (body_length n s) s)") auto
  next
    case False
    then show ?thesis using 1(1)
      by (auto split: nat.splits list.splits simp: option.map_comp comp_def intro!: arg_cong [of _ _ "\<lambda>f. map_option f x" for x])
  qed
qed (auto simp: option.map_ident)

lemma closing_quote_stuck:
  assumes "body_length (Suc (Suc n)) s = 0" and "\<not> (s \<noteq> [] \<and> hd s = DQ)"
  shows "closing_quote s = None"
  using assms by (cases s; cases "tl s") (auto split: if_splits)

lemma closing_quote_at: "closing_quote s = Some n \<Longrightarrow> n < length s \<and> s ! n = DQ"
  by (induction s arbitrary: n rule: closing_quote.induct) (auto split: if_splits list.splits)

lemma scan_string_spec:
  "scan_string left = (case closing_quote left of None \<Rightarrow> Inl ValueError | Some n \<Rightarrow> Inr n)"
proof (induction left rule: scan_string.induct)
  case (1 left)
  let ?n = "body_length (max PIECE 2) left"
  have two: "max PIECE 2 = Suc (Suc (PIECE - 2))" by (simp add: PIECE_def)
  note cl = closing_quote_body [of left "max PIECE 2"]
  show ?case
  proof (cases "?n < length left \<and> left ! ?n = DQ")
    case True
    then have "closing_quote (drop ?n left) = Some 0" by (simp add: Cons_nth_drop_Suc [symmetric])
    with True cl show ?thesis by (simp add: scan_string.simps [of left] Let_def)
  next
    case nq: False
    show ?thesis
    proof (cases "?n = 0")
      case True
      then have "closing_quote left = None"
        using nq unfolding two by (intro closing_quote_stuck) (auto simp: hd_conv_nth)
      with True nq show ?thesis by (simp add: scan_string.simps [of left] Let_def)
    next
      case False
      from 1 [OF refl nq False] nq False cl show ?thesis
        by (subst scan_string.simps) (auto simp: Let_def split: option.splits)
    qed
  qed
qed

lemma parse_string_spec:
  "parse_string (DQ # s) = (case closing_quote s of None \<Rightarrow> Inl ValueError
     | Some n \<Rightarrow> Inr (sub_escaped escape_value (take n s), drop (Suc n) s))"
  by (simp add: parse_string_def advance_def scan_string_spec unescape_spec split: option.splits)

section \<open>Strings read back\<close>

definition escape_char :: "char \<Rightarrow> string" where
  "escape_char c =
     (if c = BS then [BS, BS] else if c = DQ then [BS, DQ] else if c = LF then [BS, CHR ''n'']
      else if c = CR then [BS, CHR ''r''] else if c = TAB then [BS, CHR ''t''] else [c])"

lemma replace1_concat: "replace1 c new (concat (map g s)) = concat (map (\<lambda>x. replace1 c new (g x)) s)"
  by (induction s) (simp_all add: replace1_def)

lemma replace1_map: "replace1 c new s = concat (map (\<lambda>x. if x = c then new else [x]) s)"
  by (simp add: replace1_def)

lemma aterm_escape_chars: "aterm_escape s = concat (map escape_char s)"
proof -
  have "aterm_escape s = concat (map (\<lambda>x. replace1 TAB [BS, CHR ''t''] (replace1 CR [BS, CHR ''r'']
      (replace1 LF [BS, CHR ''n''] (replace1 DQ [BS, DQ] (if x = BS then [BS, BS] else [x]))))) s)"
    unfolding aterm_escape_def replace1_map [of BS] replace1_concat ..
  also have "\<dots> = concat (map escape_char s)"
    by (intro arg_cong [of _ _ concat] map_cong refl) (simp add: replace1_def escape_char_def)
  finally show ?thesis .
qed

lemma closing_quote_escaped:
  "closing_quote (aterm_escape s @ DQ # t) = Some (length (aterm_escape s))"
  unfolding aterm_escape_chars by (induction s) (auto simp: escape_char_def)

lemma sub_escaped_escaped: "sub_escaped escape_value (aterm_escape s) = s"
proof (induction s)
  case Nil
  then show ?case by (simp add: aterm_escape_chars)
next
  case (Cons c s)
  have "\<not> dangling (escape_char c)" "sub_escaped escape_value (escape_char c) = [c]"
    by (auto simp: escape_char_def escape_value_def)
  with Cons show ?case by (simp add: aterm_escape_chars sub_escaped_append)
qed

lemma parse_string_escaped: "parse_string (DQ # aterm_escape s @ DQ # t) = Inr (s, t)"
  by (simp add: parse_string_spec closing_quote_escaped sub_escaped_escaped)

text \<open>A text that needs no escapes is written as it is.\<close>

definition unquoted :: "string \<Rightarrow> bool" where
  "unquoted s \<longleftrightarrow> DQ \<notin> set s \<and> BS \<notin> set s"

lemma parse_string_unquoted:
  assumes "unquoted s"
  shows "parse_string (DQ # s @ DQ # t) = Inr (s, t)"
proof -
  have "closing_quote (s @ DQ # t) = Some (length s)"
    using assms by (induction s) (auto simp: unquoted_def)
  with assms show ?thesis by (simp add: parse_string_spec unquoted_def sub_escaped_plain)
qed

text \<open>
  \<open>parse_string\<close> reads a quoted string up to its closing quote, escaped quotes and windows
  notwithstanding: it gives back every text that was escaped, with what follows the quote, and it
  fails only where no quote closes the string.\<close>

theorem string_read_back:
  "parse_string (DQ # aterm_escape s @ DQ # t) = Inr (s, t) \<and>
    (parse_string (DQ # u) = Inl ValueError \<longleftrightarrow> closing_quote u = None)"
proof (intro conjI)
  show "parse_string (DQ # aterm_escape s @ DQ # t) = Inr (s, t)" by (rule parse_string_escaped)
  show "parse_string (DQ # u) = Inl ValueError \<longleftrightarrow> closing_quote u = None"
    by (simp add: parse_string_spec split: option.splits)
qed

end
