(* ===== verification/Store_Path.thy ===== *)
theory Store_Path
  imports Prelude
begin

text \<open>
  The two store directories of the process (\<open>nix_daemon_protocol/store_dir.py\<close>), the store path
  (\<open>nix_daemon_protocol/store_path.py\<close>) and the identifier of a derivation output
  (\<open>pynixd_store/store_path.py\<close>).

  The module's three globals are the state \<open>dirs\<close>; the environment variable \<open>NIX_STORE_DIR\<close> is the
  argument \<open>env\<close>, empty where it is not set. A function that reads or resolves a global is a
  computation over that state.
\<close>

section \<open>Store directories\<close>

record dirs =
  g_store_dir :: "string option"
  g_real_store_dir :: "string option"
  g_prefix_cache :: "string option"

definition initial_dirs :: dirs where
  "initial_dirs = \<lparr>g_store_dir = None, g_real_store_dir = None, g_prefix_cache = None\<rparr>"

definition DEFAULT_STORE_DIR :: string where
  "DEFAULT_STORE_DIR = ''/nix/store''"

definition invalidate_prefix :: "dirs \<Rightarrow> dirs" where
  "invalidate_prefix d = d\<lparr>g_prefix_cache := None\<rparr>"

definition absolute_path :: "string \<Rightarrow> error + string" where
  "absolute_path path =
     (let value = rstrip (CHR ''/'') path in
      if startswith value ''/'' then Inr value else Inl ValueError)"

definition resolved_dir :: "string \<Rightarrow> string" where
  "resolved_dir env = (let v = rstrip (CHR ''/'') env in if v \<noteq> [] then v else DEFAULT_STORE_DIR)"

definition store_dir :: "string \<Rightarrow> (dirs, string) eff" where
  "store_dir env d = (case g_store_dir d of
       Some s \<Rightarrow> (Inr s, d)
     | None \<Rightarrow> (Inr (resolved_dir env), d\<lparr>g_store_dir := Some (resolved_dir env)\<rparr>))"

definition store_prefix :: "string \<Rightarrow> (dirs, string) eff" where
  "store_prefix env d = (case g_prefix_cache d of
       Some p \<Rightarrow> (Inr p, d)
     | None \<Rightarrow> bind (store_dir env) (\<lambda>s d'. (Inr (s @ ''/''), d'\<lparr>g_prefix_cache := Some (s @ ''/'')\<rparr>)) d)"

definition real_store_dir :: "string \<Rightarrow> (dirs, string) eff" where
  "real_store_dir env d = (case g_real_store_dir d of None \<Rightarrow> store_dir env d | Some r \<Rightarrow> (Inr r, d))"

definition set_store_dir :: "string \<Rightarrow> (dirs, unit) eff" where
  "set_store_dir path =
     bind (of_result (absolute_path path)) (\<lambda>v d. (Inr (), invalidate_prefix (d\<lparr>g_store_dir := Some v\<rparr>)))"

definition set_real_store_dir :: "string \<Rightarrow> (dirs, unit) eff" where
  "set_real_store_dir path =
     bind (of_result (absolute_path path)) (\<lambda>v d. (Inr (), d\<lparr>g_real_store_dir := Some v\<rparr>))"

definition reset_store_dir :: "(dirs, unit) eff" where
  "reset_store_dir d =
     (Inr (), invalidate_prefix (d\<lparr>g_store_dir := None, g_real_store_dir := None\<rparr>))"

text \<open>The context manager around a block; \<open>finally\<close> runs whether the block returns or raises.\<close>

definition reading_store_dir :: "string option \<Rightarrow> (dirs, 'a) eff \<Rightarrow> (dirs, 'a) eff" where
  "reading_store_dir path block = (case path of
       None \<Rightarrow> block
     | Some p \<Rightarrow> (\<lambda>d.
         let previous = (g_store_dir d, g_real_store_dir d) in
         bind (of_result (absolute_path p)) (\<lambda>v d1.
           let d2 = invalidate_prefix (d1\<lparr>g_store_dir := Some v, g_real_store_dir := None\<rparr>);
               (r, d3) = block d2
           in (r, invalidate_prefix (d3\<lparr>g_store_dir := fst previous, g_real_store_dir := snd previous\<rparr>))) d))"

definition in_store_dir :: "string \<Rightarrow> string \<Rightarrow> (dirs, bool) eff" where
  "in_store_dir env path = bind (store_prefix env) (\<lambda>prefix. ret (startswith path prefix))"

definition on_disk :: "string \<Rightarrow> string \<Rightarrow> (dirs, string) eff" where
  "on_disk env path =
     bind (store_prefix env) (\<lambda>prefix.
     if \<not> startswith path prefix then bind (store_dir env) (\<lambda>_. raise ValueError)
     else bind (real_store_dir env) (\<lambda>real. ret (real @ ''/'' @ drop (length prefix) path)))"

section \<open>Store paths\<close>

text \<open>
  \<open>extrainfo\<close> is a debugging note that is no part of the value: a text or \<open>None\<close>, and the empty
  text is as false as \<open>None\<close>.
\<close>

record store_path =
  sp_path :: string
  sp_extrainfo :: "string option"

definition strip_prefix :: "string \<Rightarrow> string \<Rightarrow> (dirs, string) eff" where
  "strip_prefix env path =
     bind (store_prefix env) (\<lambda>prefix.
     if startswith path prefix then ret (drop (length prefix) path)
     else if startswith path ''/'' then bind (store_dir env) (\<lambda>_. raise ValueError)
     else ret path)"

definition StorePath :: "string \<Rightarrow> string \<Rightarrow> string option \<Rightarrow> (dirs, store_path) eff" where
  "StorePath env path extrainfo =
     bind (strip_prefix env path) (\<lambda>p. ret \<lparr>sp_path = p, sp_extrainfo = extrainfo\<rparr>)"

definition StorePath_of :: "store_path \<Rightarrow> string option \<Rightarrow> store_path" where
  "StorePath_of p extrainfo = \<lparr>sp_path = sp_path p,
     sp_extrainfo = (if extrainfo = None \<or> extrainfo = Some [] then sp_extrainfo p else extrainfo)\<rparr>"

definition sp_str :: "string \<Rightarrow> store_path \<Rightarrow> (dirs, string) eff" where
  "sp_str env p =
     (if sp_path p = [] then ret [] else bind (store_prefix env) (\<lambda>prefix. ret (prefix @ sp_path p)))"

definition from_wire :: "string \<Rightarrow> string \<Rightarrow> (dirs, store_path) eff" where
  "from_wire env value = StorePath env value None"

definition to_wire :: "string \<Rightarrow> store_path \<Rightarrow> (dirs, string) eff" where
  "to_wire env p = sp_str env p"

text \<open>\<open>Path(text).name\<close>: the last component that is neither empty nor a single dot.\<close>

definition pure_path_name :: "string \<Rightarrow> string" where
  "pure_path_name t =
     (case filter (\<lambda>x. x \<noteq> [] \<and> x \<noteq> ''.'') (split_on (CHR ''/'') t) of [] \<Rightarrow> [] | xs \<Rightarrow> last xs)"

definition sp_name :: "store_path \<Rightarrow> string" where
  "sp_name p = pure_path_name (sp_path p)"

definition to_json_value :: "store_path \<Rightarrow> string" where
  "to_json_value p = sp_name p"

definition hash_part :: "store_path \<Rightarrow> string" where
  "hash_part p = fst (partition_at (CHR ''-'') (sp_name p))"

definition base_name :: "store_path \<Rightarrow> string" where
  "base_name p = (let (h, found, r) = partition_at (CHR ''-'') (sp_name p) in if found then r else [])"

definition is_derivation :: "store_path \<Rightarrow> bool" where
  "is_derivation p = endswith (sp_path p) ''.drv''"

definition sp_eq :: "store_path \<Rightarrow> store_path \<Rightarrow> bool" where
  "sp_eq p q \<longleftrightarrow> sp_path p = sp_path q"

definition sp_lt :: "store_path \<Rightarrow> store_path \<Rightarrow> bool" where
  "sp_lt p q \<longleftrightarrow> sp_path p < sp_path q"

definition sp_le :: "store_path \<Rightarrow> store_path \<Rightarrow> bool" where
  "sp_le p q \<longleftrightarrow> sp_path p \<le> sp_path q"

text \<open>
  The same two conversions for a store directory that is given, on the base name that a store path
  holds: what \<open>StorePath(text)\<close> makes of a text, and \<open>str\<close> of it.
\<close>

definition read_store_path :: "string \<Rightarrow> string \<Rightarrow> error + string" where
  "read_store_path sd path =
     (if startswith path (sd @ ''/'') then Inr (drop (length sd + 1) path)
      else if startswith path ''/'' then Inl ValueError
      else Inr path)"

definition print_store_path :: "string \<Rightarrow> string \<Rightarrow> string" where
  "print_store_path sd base = (if base = [] then [] else sd @ ''/'' @ base)"

section \<open>Derivation outputs\<close>

record drv_output =
  do_hash_algo :: string
  do_hash_value :: string
  do_output_name :: string
  do_path :: string

definition DrvOutput :: "string \<Rightarrow> error + drv_output" where
  "DrvOutput value =
     (if value \<noteq> [] \<and> CHR ''!'' \<notin> set value then Inl ValueError
      else if value \<noteq> [] then
        (let (id_hash, _, name) = partition_at (CHR ''!'') value;
             pieces = split_on (CHR '':'') id_hash
         in Inr \<lparr>do_hash_algo = join '':'' (butlast pieces), do_hash_value = last pieces,
                 do_output_name = name, do_path = []\<rparr>)
      else Inr \<lparr>do_hash_algo = [], do_hash_value = [], do_output_name = [], do_path = []\<rparr>)"

definition DrvOutput_of :: "string \<Rightarrow> string option \<Rightarrow> string option \<Rightarrow> string \<Rightarrow> drv_output" where
  "DrvOutput_of hash_algo hash_value output_name path =
     \<lparr>do_hash_algo = hash_algo, do_hash_value = (case hash_value of None \<Rightarrow> [] | Some h \<Rightarrow> h),
      do_output_name = (case output_name of None \<Rightarrow> [] | Some n \<Rightarrow> n), do_path = path\<rparr>"

definition do_id_hash :: "drv_output \<Rightarrow> string" where
  "do_id_hash d = do_hash_algo d @ '':'' @ do_hash_value d"

definition do_str :: "drv_output \<Rightarrow> string" where
  "do_str d =
     (if do_hash_algo d = [] \<and> do_hash_value d = [] \<and> do_output_name d = [] then []
      else do_hash_algo d @ '':'' @ do_hash_value d @ ''!'' @ do_output_name d)"

definition do_eq :: "drv_output \<Rightarrow> drv_output \<Rightarrow> bool" where
  "do_eq d e \<longleftrightarrow> do_hash_algo d = do_hash_algo e \<and> do_hash_value d = do_hash_value e \<and>
     do_output_name d = do_output_name e"

section \<open>The cached prefix\<close>

text \<open>
  What any sequence of calls makes of the globals: the setters, the readers that resolve a value
  and the scoped reader around any such sequence.
\<close>

inductive dirs_reach :: "string \<Rightarrow> dirs \<Rightarrow> dirs \<Rightarrow> bool" for env where
  refl: "dirs_reach env d d"
| store_dir: "dirs_reach env d e \<Longrightarrow> store_dir env e = (r, f) \<Longrightarrow> dirs_reach env d f"
| store_prefix: "dirs_reach env d e \<Longrightarrow> store_prefix env e = (r, f) \<Longrightarrow> dirs_reach env d f"
| real_store_dir: "dirs_reach env d e \<Longrightarrow> real_store_dir env e = (r, f) \<Longrightarrow> dirs_reach env d f"
| set_store_dir: "dirs_reach env d e \<Longrightarrow> set_store_dir p e = (u, f) \<Longrightarrow> dirs_reach env d f"
| set_real: "dirs_reach env d e \<Longrightarrow> set_real_store_dir p e = (u, f) \<Longrightarrow> dirs_reach env d f"
| reset: "dirs_reach env d e \<Longrightarrow> reset_store_dir e = (u, f) \<Longrightarrow> dirs_reach env d f"
| reading: "dirs_reach env d e \<Longrightarrow> absolute_path p = Inr v \<Longrightarrow>
    dirs_reach env (invalidate_prefix (e\<lparr>g_store_dir := Some v, g_real_store_dir := None\<rparr>)) g \<Longrightarrow>
    reading_store_dir (Some p) (\<lambda>_. (Inr (), g)) e = (r, f) \<Longrightarrow> dirs_reach env d f"

definition prefix_ok :: "dirs \<Rightarrow> bool" where
  "prefix_ok d \<longleftrightarrow> (case g_prefix_cache d of None \<Rightarrow> True
     | Some p \<Rightarrow> (case g_store_dir d of None \<Rightarrow> False | Some s \<Rightarrow> p = s @ ''/''))"

lemma prefix_ok_invalidate [simp]: "prefix_ok (invalidate_prefix d)"
  by (simp add: prefix_ok_def invalidate_prefix_def)

lemma prefix_ok_store_dir: "prefix_ok d \<Longrightarrow> store_dir env d = (r, d') \<Longrightarrow> prefix_ok d'"
  by (auto simp: store_dir_def prefix_ok_def split: option.splits)

lemma prefix_ok_store_prefix: "prefix_ok d \<Longrightarrow> store_prefix env d = (r, d') \<Longrightarrow> prefix_ok d'"
  by (auto simp: store_prefix_def store_dir_def bind_apply prefix_ok_def split: option.splits)

lemma prefix_ok_reach: "dirs_reach env d e \<Longrightarrow> prefix_ok d \<Longrightarrow> prefix_ok e"
proof (induction rule: dirs_reach.induct)
  case (real_store_dir d e r f)
  then show ?case using prefix_ok_store_dir by (auto simp: real_store_dir_def split: option.splits)
next
  case (set_store_dir d e p u f)
  then show ?case by (cases "absolute_path p") (auto simp: set_store_dir_def bind_apply)
next
  case (set_real d e p u f)
  then show ?case
    by (cases "absolute_path p") (auto simp: set_real_store_dir_def bind_apply prefix_ok_def split: option.splits)
next
  case (reading d e p v g r f)
  then show ?case by (auto simp: reading_store_dir_def bind_apply)
qed (auto intro: prefix_ok_store_dir prefix_ok_store_prefix simp: reset_store_dir_def)

lemma store_prefix_ok:
  assumes "prefix_ok d"
  shows "\<exists>s d'. store_dir env d = (Inr s, d') \<and>
    store_prefix env d = (Inr (s @ ''/''), d'\<lparr>g_prefix_cache := Some (s @ ''/'')\<rparr>) \<and> prefix_ok d'"
proof (cases "g_prefix_cache d")
  case None
  then show ?thesis by (auto simp: store_prefix_def store_dir_def bind_apply prefix_ok_def split: option.splits)
next
  case (Some p)
  with assms show ?thesis
    by (auto simp: store_prefix_def store_dir_def prefix_ok_def split: option.splits)
qed

text \<open>
  C37. Whatever was called before, with whatever arguments and inside whatever scoped readers, the
  cached prefix is never stale: \<open>store_prefix\<close> answers the directory \<open>store_dir\<close> answers at that
  moment, with a separator behind it.\<close>

theorem store_prefix_follows_store_dir:
  assumes "dirs_reach env initial_dirs d"
  shows "\<exists>s d'. store_dir env d = (Inr s, d') \<and> fst (store_prefix env d) = Inr (s @ ''/'')"
proof -
  have "prefix_ok initial_dirs" by (simp add: prefix_ok_def initial_dirs_def)
  from store_prefix_ok [OF prefix_ok_reach [OF assms this], of env] show ?thesis by auto
qed

theorem store_prefix_follows_store_dir_witness:
  "fst (store_prefix [] (snd (set_store_dir ''/s/'' (snd (store_prefix [] initial_dirs))))) = Inr ''/s/''"
proof -
  let ?d1 = "snd (store_prefix [] initial_dirs)"
  let ?d2 = "snd (set_store_dir ''/s/'' ?d1)"
  have "dirs_reach [] initial_dirs ?d1"
    by (rule dirs_reach.store_prefix [OF dirs_reach.refl]) (rule surjective_pairing)
  then have "dirs_reach [] initial_dirs ?d2"
    by (rule dirs_reach.set_store_dir) (rule surjective_pairing)
  from store_prefix_follows_store_dir [OF this] obtain s d' where
    s: "store_dir [] ?d2 = (Inr s, d')" "fst (store_prefix [] ?d2) = Inr (s @ ''/'')" by blast
  have "fst (store_dir [] ?d2) = Inr ''/s''" by code_simp
  with s show ?thesis by simp
qed

text \<open>
  A scoped reader leaves both directories as they were, whatever the block did to them and
  whether it returned or raised, and gives what the block gave.\<close>

theorem reading_store_dir_scoped:
  assumes "absolute_path p = Inr v"
    and "reading_store_dir (Some p) block d = (r, d')"
  shows "g_store_dir d' = g_store_dir d \<and> g_real_store_dir d' = g_real_store_dir d \<and> prefix_ok d' \<and>
    r = fst (block \<lparr>g_store_dir = Some v, g_real_store_dir = None, g_prefix_cache = None\<rparr>)"
  using assms
  by (cases d)
     (auto simp: reading_store_dir_def bind_apply invalidate_prefix_def prefix_ok_def split: prod.splits)

theorem reading_store_dir_scoped_witness:
  "fst (reading_store_dir (Some ''/s'') (bind (set_store_dir ''/t'') (\<lambda>_. store_prefix [])) initial_dirs)
    = Inr ''/t/''"
proof -
  let ?m = "bind (set_store_dir ''/t'') (\<lambda>_. store_prefix [])"
  obtain r d where rd: "reading_store_dir (Some ''/s'') ?m initial_dirs = (r, d)" by fastforce
  have "absolute_path ''/s'' = Inr ''/s''" by code_simp
  from reading_store_dir_scoped [OF this rd]
  have "r = fst (?m \<lparr>g_store_dir = Some ''/s'', g_real_store_dir = None, g_prefix_cache = None\<rparr>)" by simp
  also have "\<dots> = Inr ''/t/''" by code_simp
  finally show ?thesis using rd by simp
qed

section \<open>Store paths read back\<close>

lemma pure_path_name_plain:
  "CHR ''/'' \<notin> set b \<Longrightarrow> b \<noteq> ''.'' \<Longrightarrow> pure_path_name b = b"
  by (simp add: pure_path_name_def split_on_absent)

lemma to_wire_from_wire:
  assumes "prefix_ok d"
  shows "\<exists>q d'. bind (to_wire env p) (from_wire env) d = (Inr q, d') \<and> sp_eq q p"
proof -
  from store_prefix_ok [OF assms, of env] obtain s d1 where
    s: "store_prefix env d = (Inr (s @ ''/''), d1\<lparr>g_prefix_cache := Some (s @ ''/'')\<rparr>)" by blast
  show ?thesis
    by (simp add: to_wire_def sp_str_def from_wire_def StorePath_def strip_prefix_def bind_apply
        store_prefix_def [of env "d1\<lparr>g_prefix_cache := Some (s @ ''/'')\<rparr>"] s startswith_def sp_eq_def)
qed

lemma json_from_wire:
  assumes "prefix_ok d" and "CHR ''/'' \<notin> set (sp_path p)" and "sp_path p \<noteq> ''.''"
  shows "\<exists>q d'. from_wire env (to_json_value p) d = (Inr q, d') \<and> sp_eq q p"
proof -
  from store_prefix_ok [OF assms(1), of env] obtain s d1 where
    s: "store_prefix env d = (Inr (s @ ''/''), d1\<lparr>g_prefix_cache := Some (s @ ''/'')\<rparr>)" by blast
  have "\<not> startswith (sp_path p) (s @ ''/'')" "\<not> startswith (sp_path p) ''/''"
    using assms(2) by (auto simp: startswith_iff)
  with s assms show ?thesis
    by (simp add: from_wire_def StorePath_def strip_prefix_def bind_apply to_json_value_def sp_name_def
        pure_path_name_plain sp_eq_def)
qed

text \<open>
  One value, two codecs: a store path whose base name is a plain file name comes back from the
  whole path that the wire carries and from the base name that JSON carries. An absolute path of
  another store is refused.\<close>

theorem store_path_codecs:
  assumes "prefix_ok d" and "CHR ''/'' \<notin> set (sp_path p)" and "sp_path p \<noteq> ''.''"
  shows "(\<exists>q d'. bind (to_wire env p) (from_wire env) d = (Inr q, d') \<and> sp_eq q p) \<and>
    (\<exists>q d'. from_wire env (to_json_value p) d = (Inr q, d') \<and> sp_eq q p) \<and>
    (fst (in_store_dir env (CHR ''/'' # t) d) = Inr False \<longleftrightarrow>
     fst (from_wire env (CHR ''/'' # t) d) = Inl ValueError)"
proof (intro conjI to_wire_from_wire json_from_wire assms)
  from store_prefix_ok [OF assms(1), of env] obtain s d1 where
    s: "store_prefix env d = (Inr (s @ ''/''), d1\<lparr>g_prefix_cache := Some (s @ ''/'')\<rparr>)" by blast
  show "fst (in_store_dir env (CHR ''/'' # t) d) = Inr False \<longleftrightarrow>
     fst (from_wire env (CHR ''/'' # t) d) = Inl ValueError"
    using s by (cases "startswith (CHR ''/'' # t) (s @ ''/'')")
      (auto simp: in_store_dir_def from_wire_def StorePath_def strip_prefix_def bind_apply startswith_def
        store_dir_def split: option.splits)
qed

theorem store_path_codecs_witness:
  "fst (from_wire [] ''/other/abc-x'' initial_dirs) = Inl ValueError"
proof -
  let ?p = "\<lparr>sp_path = ''abc-x'', sp_extrainfo = None\<rparr>"
  have "prefix_ok initial_dirs" by (simp add: prefix_ok_def initial_dirs_def)
  from store_path_codecs [OF this, of ?p "[]" "''other/abc-x''"]
  have "fst (in_store_dir [] ''/other/abc-x'' initial_dirs) = Inr False \<longleftrightarrow>
    fst (from_wire [] ''/other/abc-x'' initial_dirs) = Inl ValueError" by simp
  moreover have "fst (in_store_dir [] ''/other/abc-x'' initial_dirs) = Inr False" by code_simp
  ultimately show ?thesis by simp
qed

text \<open>
  A derivation output survives its text: the parser gives back the algorithm (which may hold
  colons), the hash and the output name (which may hold anything) that \<open>__str__\<close> wrote; and a
  text that the parser accepts is printed as it was, if it names an algorithm.\<close>

theorem drv_output_roundtrip:
  assumes "CHR ''!'' \<notin> set (do_hash_algo d @ do_hash_value d)" and "CHR '':'' \<notin> set (do_hash_value d)"
  shows "(\<exists>e. DrvOutput (do_str d) = Inr e \<and> do_eq e d) \<and>
    (\<forall>t e. DrvOutput t = Inr e \<and> do_hash_algo e \<noteq> [] \<longrightarrow> do_str e = t)"
proof (intro conjI allI impI)
  have id: "CHR ''!'' \<notin> set (do_id_hash d)" using assms(1) by (auto simp: do_id_hash_def)
  have pieces: "split_on (CHR '':'') (do_id_hash d) = split_on (CHR '':'') (do_hash_algo d) @ [do_hash_value d]"
    unfolding do_id_hash_def using split_on_append [OF assms(2)] by simp
  show "\<exists>e. DrvOutput (do_str d) = Inr e \<and> do_eq e d"
  proof (cases "do_str d = []")
    case True
    then show ?thesis by (auto simp: DrvOutput_def do_str_def do_eq_def split: if_splits)
  next
    case False
    then have "do_str d = do_id_hash d @ CHR ''!'' # do_output_name d"
      by (auto simp: do_str_def do_id_hash_def)
    then show ?thesis using partition_at_found [OF id] pieces by (simp add: DrvOutput_def do_eq_def)
  qed
next
  fix t e assume e: "DrvOutput t = Inr e \<and> do_hash_algo e \<noteq> []"
  then have "CHR ''!'' \<in> set t" by (auto simp: DrvOutput_def split: if_splits)
  then obtain a b where t: "t = a @ CHR ''!'' # b" "CHR ''!'' \<notin> set a" by (meson split_list_first)
  let ?ps = "split_on (CHR '':'') a"
  from e t have f: "do_hash_algo e = join '':'' (butlast ?ps)" "do_hash_value e = last ?ps" "do_output_name e = b"
    by (auto simp: DrvOutput_def partition_at_found Let_def)
  then have "butlast ?ps \<noteq> []" using e by auto
  then have "join '':'' (butlast ?ps @ [last ?ps]) = join '':'' (butlast ?ps) @ '':'' @ last ?ps"
    by (rule join_snoc)
  then have "a = do_id_hash e" using f by (simp add: do_id_hash_def)
  then show "do_str e = t" using e t f by (simp add: do_str_def do_id_hash_def)
qed

theorem drv_output_roundtrip_witness:
  "map_sum id do_str (DrvOutput ''r:sha256:00!out!1'') = Inr ''r:sha256:00!out!1''"
proof -
  let ?d = "\<lparr>do_hash_algo = ''r:sha256'', do_hash_value = ''00'', do_output_name = ''out!1'', do_path = []\<rparr>"
  have d: "DrvOutput ''r:sha256:00!out!1'' = Inr ?d" by code_simp
  have "\<forall>t e. DrvOutput t = Inr e \<and> do_hash_algo e \<noteq> [] \<longrightarrow> do_str e = t"
    using drv_output_roundtrip [of ?d] by simp
  with d have "do_str ?d = ''r:sha256:00!out!1''" by simp
  with d show ?thesis by simp
qed

section \<open>Store paths of a given store directory\<close>

lemma read_print_store_path [simp]: "read_store_path sd (print_store_path sd b) = Inr b"
  by (simp add: read_store_path_def print_store_path_def startswith_def)

lemma inj_print_store_path: "inj (print_store_path sd)"
  by (rule injI) (metis read_print_store_path sum.inject(2))

text \<open>They are the conversions of the class, in a process whose store directory it is.\<close>

lemma StorePath_reads:
  assumes "prefix_ok d" and "fst (store_dir env d) = Inr sd"
  shows "map_sum id sp_path (fst (StorePath env path x d)) = read_store_path sd path"
proof -
  from store_prefix_ok [OF assms(1), of env] obtain s d1 where
    s: "store_dir env d = (Inr s, d1)" "store_prefix env d = (Inr (s @ ''/''), d1\<lparr>g_prefix_cache := Some (s @ ''/'')\<rparr>)"
    by blast
  with assms(2) show ?thesis
    by (auto simp: StorePath_def strip_prefix_def read_store_path_def bind_apply store_dir_def
        split: option.splits)
qed

lemma sp_str_prints:
  assumes "prefix_ok d" and "fst (store_dir env d) = Inr sd"
  shows "fst (sp_str env p d) = Inr (print_store_path sd (sp_path p))"
proof -
  from store_prefix_ok [OF assms(1), of env] obtain s d1 where
    s: "store_dir env d = (Inr s, d1)" "store_prefix env d = (Inr (s @ ''/''), d1\<lparr>g_prefix_cache := Some (s @ ''/'')\<rparr>)"
    by blast
  with assms(2) show ?thesis by (auto simp: sp_str_def print_store_path_def bind_apply)
qed

end
