(* ===== verification/Content_Address.thy ===== *)
theory Content_Address
  imports Nix32 Sha256
begin

text \<open>
  Content addresses and the store paths they give (\<open>pynixd_store/content_address.py\<close>), with the two
  decoders of the standard library that it calls: \<open>bytes.fromhex\<close> and \<open>base64.b64decode\<close>, lenient
  and strict, as CPython has them. A set of references is a list; the code sorts it before it is
  written.
\<close>

unbundle bit_operations_syntax

section \<open>Decoders of the standard library\<close>

definition hex_value :: "char \<Rightarrow> byte option" where
  "hex_value c =
     (let n = of_char c :: nat in
      if 48 \<le> n \<and> n \<le> 57 then Some (of_nat (n - 48))
      else if 97 \<le> n \<and> n \<le> 102 then Some (of_nat (n - 87))
      else if 65 \<le> n \<and> n \<le> 70 then Some (of_nat (n - 55))
      else None)"

definition is_space :: "char \<Rightarrow> bool" where
  "is_space c = (let n = of_char c :: nat in 9 \<le> n \<and> n \<le> 13 \<or> n = 32)"

text \<open>\<open>bytes.fromhex\<close> skips white space between the bytes.\<close>

fun fromhex :: "string \<Rightarrow> error + bytes" where
  "fromhex [] = Inr []"
| "fromhex (c # s) =
     (if is_space c then fromhex s
      else case s of
        [] \<Rightarrow> Inl ValueError
      | d # s' \<Rightarrow> (case (hex_value c, hex_value d) of
            (Some a, Some b) \<Rightarrow> andthen (fromhex s') (\<lambda>bs. Inr ((push_bit 4 a OR b) # bs))
          | _ \<Rightarrow> Inl ValueError))"

definition b64_value :: "char \<Rightarrow> byte option" where
  "b64_value c =
     (let n = of_char c :: nat in
      if 65 \<le> n \<and> n \<le> 90 then Some (of_nat (n - 65))
      else if 97 \<le> n \<and> n \<le> 122 then Some (of_nat (n - 71))
      else if 48 \<le> n \<and> n \<le> 57 then Some (of_nat (n + 4))
      else if n = 43 then Some 62
      else if n = 47 then Some 63
      else None)"

text \<open>
  \<open>binascii.a2b_base64\<close>: the position in the group of four, the bits left over, the pads seen and
  whether padding has started. Only the strict form refuses characters outside the alphabet and
  misplaced padding; the other skips them.
\<close>

fun a2b_base64 :: "bool \<Rightarrow> nat \<Rightarrow> byte \<Rightarrow> nat \<Rightarrow> bool \<Rightarrow> string \<Rightarrow> error + bytes" where
  "a2b_base64 strict quad leftchar pads padding [] = (if quad \<noteq> 0 then Inl ValueError else Inr [])"
| "a2b_base64 strict quad leftchar pads padding (c # s) =
     (if c = CHR ''='' then
        if strict \<and> quad = 0 then Inl ValueError
        else if quad \<ge> 2 \<and> quad + (pads + 1) \<ge> 4 then (if strict \<and> s \<noteq> [] then Inl ValueError else Inr [])
        else a2b_base64 strict quad leftchar (if quad \<ge> 2 then pads + 1 else pads) True s
      else case b64_value c of
        None \<Rightarrow> if strict then Inl ValueError else a2b_base64 strict quad leftchar pads padding s
      | Some v \<Rightarrow>
          if strict \<and> padding then Inl ValueError
          else if quad = 0 then a2b_base64 strict 1 v 0 padding s
          else if quad = 1 then
            andthen (a2b_base64 strict 2 (v AND 15) 0 padding s)
              (\<lambda>bs. Inr ((push_bit 2 leftchar OR drop_bit 4 v) # bs))
          else if quad = 2 then
            andthen (a2b_base64 strict 3 (v AND 3) 0 padding s)
              (\<lambda>bs. Inr ((push_bit 4 leftchar OR drop_bit 2 v) # bs))
          else
            andthen (a2b_base64 strict 0 0 0 padding s)
              (\<lambda>bs. Inr ((push_bit 6 leftchar OR v) # bs)))"

definition b64decode :: "bool \<Rightarrow> string \<Rightarrow> error + bytes" where
  "b64decode validate s =
     (if (\<forall>c\<in>set s. (of_char c :: nat) < 128) then a2b_base64 validate 0 0 0 False s else Inl ValueError)"

section \<open>Hashes\<close>

definition HASH_SIZES :: "(string \<times> nat) list" where
  "HASH_SIZES = [(''md5'', 16), (''sha1'', 20), (''sha256'', 32), (''sha512'', 64)]"

datatype ingestion_method = TEXT | FLAT | NAR | GIT

fun method_text :: "ingestion_method \<Rightarrow> string" where
  "method_text TEXT = ''text:''"
| "method_text FLAT = []"
| "method_text NAR = ''r:''"
| "method_text GIT = ''git:''"

definition parse_digest :: "string \<Rightarrow> string \<Rightarrow> error + bytes" where
  "parse_digest s algo = (case map_of HASH_SIZES algo of
       None \<Rightarrow> Inl ValueError
     | Some sz \<Rightarrow>
         if length s = 2 * sz then fromhex s
         else if length s = (sz * 8 - 1) div 5 + 1 then nix32_decode s
         else if length s = 4 * ((sz + 2) div 3) then b64decode False s
         else Inl ValueError)"

record content_address =
  ca_method :: ingestion_method
  ca_algo :: string
  ca_digest :: bytes

definition candidate_method :: "ingestion_method list \<Rightarrow> string \<Rightarrow> ingestion_method" where
  "candidate_method ms rest =
     (case filter (\<lambda>m. startswith rest (method_text m)) ms of [] \<Rightarrow> FLAT | m # _ \<Rightarrow> m)"

definition ca_parse :: "string \<Rightarrow> error + content_address" where
  "ca_parse raw =
     (let (prefix, sep, rest) = partition_at (CHR '':'') raw in
      if \<not> sep then Inl ValueError
      else andthen
        (if prefix = ''text'' then Inr (TEXT, rest)
         else if prefix = ''fixed'' then
           (let m = candidate_method [NAR, GIT] rest in Inr (m, removeprefix rest (method_text m)))
         else Inl ValueError)
        (\<lambda>(m, rest').
          let (algo, sep', s) = partition_at (CHR '':'') rest' in
          if \<not> sep' then Inl ValueError
          else andthen (parse_digest s algo)
            (\<lambda>d. Inr \<lparr>ca_method = m, ca_algo = algo, ca_digest = d\<rparr>)))"

definition ca_render :: "content_address \<Rightarrow> string" where
  "ca_render ca =
     (if ca_method ca = TEXT then ''text:'' else ''fixed:'' @ method_text (ca_method ca))
       @ ca_algo ca @ '':'' @ nix32_encode (ca_digest ca)"

definition parse_any_sha256 :: "string \<Rightarrow> error + bytes" where
  "parse_any_sha256 s =
     (if startswith s ''sha256-'' then b64decode True (removeprefix s ''sha256-'')
      else parse_digest (removeprefix s ''sha256:'') ''sha256'')"

definition parse_method_algo :: "string \<Rightarrow> error + (ingestion_method \<times> string)" where
  "parse_method_algo s =
     (let (prefix, sep, rest) = partition_at (CHR '':'') s in
      if \<not> sep then Inl ValueError
      else andthen
        (if prefix = ''text'' then Inr (TEXT, rest)
         else if prefix = ''fixed'' then
           (let m = candidate_method [NAR, GIT] rest in Inr (m, removeprefix rest (method_text m)))
         else Inl ValueError)
        (\<lambda>(m, rest'). if map_of HASH_SIZES rest' = None then Inl ValueError else Inr (m, rest')))"

definition output_method :: "string \<Rightarrow> ingestion_method \<times> string" where
  "output_method m =
     (let found = candidate_method [TEXT, NAR, GIT] m in (found, removeprefix m (method_text found)))"

definition fixed_output_address :: "string \<Rightarrow> string \<Rightarrow> error + content_address" where
  "fixed_output_address m hash_text =
     (let (found, algo) = output_method m in
      andthen (parse_digest hash_text algo)
        (\<lambda>d. Inr \<lparr>ca_method = found, ca_algo = algo, ca_digest = d\<rparr>))"

section \<open>Store paths\<close>

definition make_store_path :: "string \<Rightarrow> string \<Rightarrow> bytes \<Rightarrow> string \<Rightarrow> string \<Rightarrow> error + string" where
  "make_store_path kind algo digest name sd =
     (let clear = kind @ '':'' @ algo @ '':'' @ bytes_hex digest @ '':'' @ sd @ '':'' @ name in
      andthen (compress_hash (sha256 (encode clear)) 20)
        (\<lambda>compressed. Inr (sd @ ''/'' @ nix32_encode compressed @ ''-'' @ name)))"

definition make_type :: "string \<Rightarrow> string list \<Rightarrow> bool \<Rightarrow> string" where
  "make_type kind references self_reference =
     join '':'' (kind # sort references @ (if self_reference then [''self''] else []))"

definition content_addressed_path ::
    "content_address \<Rightarrow> string \<Rightarrow> string list \<Rightarrow> string \<Rightarrow> bool \<Rightarrow> error + string" where
  "content_addressed_path ca name refs sd self_reference =
     (let references = remdups refs in
      if ca_method ca = TEXT then
        if ca_algo ca \<noteq> ''sha256'' then Inl ValueError
        else if self_reference then Inl ValueError
        else make_store_path (make_type ''text'' references False) (ca_algo ca) (ca_digest ca) name sd
      else if ca_method ca = GIT \<and> ca_algo ca \<noteq> ''sha1'' \<and> ca_algo ca \<noteq> ''sha256'' then Inl ValueError
      else if ca_algo ca = ''sha256'' \<and> ca_method ca = NAR then
        make_store_path (make_type ''source'' references self_reference) (ca_algo ca) (ca_digest ca) name sd
      else if references \<noteq> [] \<or> self_reference then Inl ValueError
      else
        let payload = ''fixed:out:'' @ method_text (ca_method ca) @ ca_algo ca @ '':''
              @ bytes_hex (ca_digest ca) @ '':''
        in make_store_path ''output:out'' ''sha256'' (sha256 (encode payload)) name sd)"

definition store_path_name :: "string \<Rightarrow> error + string" where
  "store_path_name path =
     (let (_, found, rest) = partition_at (CHR ''-'') (rpartition_tail (CHR ''/'') path) in
      if found then Inr rest else Inl IndexError)"

definition is_content_addressed :: "string \<Rightarrow> string \<Rightarrow> string list \<Rightarrow> string \<Rightarrow> error + bool" where
  "is_content_addressed path ca refs sd =
     (if ca = [] then Inr False
      else andthen (ca_parse ca) (\<lambda>address.
        let references = remdups refs in
        case andthen (store_path_name path) (\<lambda>name.
               content_addressed_path address name (filter (\<lambda>r. r \<noteq> path) references) sd
                 (path \<in> set references)) of
          Inl e \<Rightarrow> if e = ValueError then Inr False else Inl e
        | Inr expected \<Rightarrow> Inr (expected = path)))"

section \<open>Hashes read back\<close>

lemma nix32_chars_of_encode: "set (nix32_encode d) \<subseteq> set NIX32_CHARS"
proof -
  have "NIX32_CHARS ! unat (nix32_digit d n) \<in> set NIX32_CHARS" if "n * 5 < 8 * length d" for n
    using nix32_digit_less [OF that] by (intro nth_mem) (simp add: nix32_chars_length)
  moreover have "n * 5 < 8 * length d" if "d \<noteq> []" "n < (length d * 8 - 1) div 5 + 1" for n
  proof -
    have "n * 5 \<le> (length d * 8 - 1) div 5 * 5" using that(2) by (intro mult_le_mono1) simp
    also have "\<dots> \<le> length d * 8 - 1" by (rule div_times_less_eq_dividend)
    finally show ?thesis using that(1) by (cases d) auto
  qed
  ultimately show ?thesis by (auto simp: nix32_encode_def Let_def)
qed

lemma length_nix32_encode: "d \<noteq> [] \<Longrightarrow> length (nix32_encode d) = (length d * 8 - 1) div 5 + 1"
  by (simp add: nix32_encode_def Let_def)

lemma hash_size_cases:
  assumes "map_of HASH_SIZES algo = Some sz"
  obtains "algo = ''md5''" "sz = 16" | "algo = ''sha1''" "sz = 20"
    | "algo = ''sha256''" "sz = 32" | "algo = ''sha512''" "sz = 64"
  using assms by (auto simp: HASH_SIZES_def split: if_splits)

lemma parse_digest_nix32:
  assumes "map_of HASH_SIZES algo = Some (length d)"
  shows "parse_digest (nix32_encode d) algo = Inr d"
proof -
  have ne: "d \<noteq> []" using assms by (auto elim: hash_size_cases)
  have "length (nix32_encode d) \<noteq> 2 * length d"
    using assms unfolding length_nix32_encode [OF ne] by (auto elim!: hash_size_cases)
  then show ?thesis using assms length_nix32_encode [OF ne] by (simp add: parse_digest_def nix32_roundtrip)
qed

lemma content_address_roundtrip_of:
  assumes "map_of HASH_SIZES (ca_algo ca) = Some (length (ca_digest ca))"
  shows "ca_parse (ca_render ca) = Inr ca"
proof -
  have algo: "CHR '':'' \<notin> set (ca_algo ca)" using assms by (auto elim!: hash_size_cases)
  have flat: "candidate_method [NAR, GIT] (ca_algo ca @ t) = FLAT" for t
    using assms by (auto elim!: hash_size_cases simp: candidate_method_def startswith_def)
  note digest = partition_at_found [OF algo] parse_digest_nix32 [OF assms]
  have text_head: "partition_at (CHR '':'') (CHR ''t'' # CHR ''e'' # CHR ''x'' # CHR ''t'' # CHR '':'' # t) = (''text'', True, t)"
    and fixed_head: "partition_at (CHR '':'') (CHR ''f'' # CHR ''i'' # CHR ''x'' # CHR ''e'' # CHR ''d'' # CHR '':'' # t) = (''fixed'', True, t)" for t
    by (simp_all add: partition_at_def)
  show ?thesis
  proof (cases "ca_method ca")
    case TEXT
    then show ?thesis by (simp add: ca_parse_def ca_render_def text_head digest)
  next
    case FLAT
    then show ?thesis
      by (simp add: ca_parse_def ca_render_def fixed_head flat removeprefix_def digest)
  next
    case NAR
    then show ?thesis
      by (simp add: ca_parse_def ca_render_def fixed_head candidate_method_def startswith_def removeprefix_def digest)
  next
    case GIT
    then show ?thesis
      by (simp add: ca_parse_def ca_render_def fixed_head candidate_method_def startswith_def removeprefix_def digest)
  qed
qed

text \<open>
  A content address survives its text: what \<open>render\<close> writes for an address whose digest has the
  sz of its algorithm, \<open>ContentAddress.parse\<close> reads back, whatever the method.\<close>

theorem content_address_roundtrip:
  assumes "map_of HASH_SIZES (ca_algo ca) = Some (length (ca_digest ca))"
  shows "ca_parse (ca_render ca) = Inr ca"
  using assms by (rule content_address_roundtrip_of)

theorem content_address_roundtrip_witness:
  "ca_parse (ca_render \<lparr>ca_method = NAR, ca_algo = ''md5'', ca_digest = replicate 16 7\<rparr>)
    = Inr \<lparr>ca_method = NAR, ca_algo = ''md5'', ca_digest = replicate 16 7\<rparr>"
  by (rule content_address_roundtrip) (simp add: HASH_SIZES_def)

text \<open>
  The forms that name no hash are not all refused: an SRI hash of no bytes, and a base-16 hash
  that is nothing but white space, are both read as the empty digest, although the function says
  that anything but a SHA-256 hash is a \<open>ValueError\<close>.\<close>

theorem parse_any_sha256_takes_no_hash:
  "parse_any_sha256 ''sha256-'' = Inr [] \<and> parse_any_sha256 ''sha256-AA=='' = Inr [0] \<and>
   parse_any_sha256 (replicate 64 (CHR '' '')) = Inr []"
  by (intro conjI; code_simp)

section \<open>Hexadecimal\<close>

lemma hex_value_digit:
  assumes "n < 16"
  shows "hex_value (hex_digit n) = Some (of_nat n) \<and> \<not> is_space (hex_digit n)"
proof -
  have "list_all (\<lambda>n. hex_value (hex_digit n) = Some (of_nat n) \<and> \<not> is_space (hex_digit n)) [0..<16]"
    by code_simp
  then show ?thesis using assms by (simp add: list_all_iff)
qed

lemma nibbles: "push_bit 4 (of_nat (unat b div 16)) OR of_nat (unat b mod 16) = (b :: byte)"
proof -
  have "unat b div 16 = unat (drop_bit 4 b)" by (simp add: drop_bit_eq_div unat_div_distrib)
  moreover have "unat b mod 16 = unat (take_bit 4 b)" by (simp add: take_bit_eq_mod unat_mod_distrib)
  ultimately have "push_bit 4 (of_nat (unat b div 16)) OR of_nat (unat b mod 16) =
      push_bit 4 (drop_bit 4 b) OR take_bit 4 b" by simp
  also have "\<dots> = b" by (intro bit_eqI) (auto simp: bit_or_iff bit_push_bit_iff bit_drop_bit_eq bit_take_bit_iff)
  finally show ?thesis .
qed

lemma fromhex_hex: "fromhex (bytes_hex d) = Inr d"
proof (induction d)
  case (Cons b d)
  have "unat b < 256" using unsigned_less [of b] by simp
  then have "unat b div 16 < 16" by (simp add: less_mult_imp_div_less)
  with hex_value_digit [of "unat b div 16"] hex_value_digit [of "unat b mod 16"] Cons show ?case
    by (simp add: bytes_hex_def nibbles)
qed (simp add: bytes_hex_def)

text \<open>
  A digest of the right size is read back from either form it is printed in: base 16, as a
  daemon sends it, and base 32, as a narinfo has it.\<close>

theorem parse_digest_reads_both:
  assumes "map_of HASH_SIZES algo = Some (length d)"
  shows "parse_digest (bytes_hex d) algo = Inr d \<and> parse_digest (nix32_encode d) algo = Inr d"
  using assms parse_digest_nix32 [OF assms] by (simp add: parse_digest_def fromhex_hex)

theorem parse_digest_reads_both_witness:
  "parse_digest (bytes_hex (replicate 32 9)) ''sha256'' = Inr (replicate 32 9)"
  using parse_digest_reads_both [of "''sha256''" "replicate 32 9"] by (simp add: HASH_SIZES_def)

section \<open>Paths recognised\<close>

lemma make_store_path_ok:
  "make_store_path kind algo d name sd = Inr path \<Longrightarrow>
    \<exists>h. path = sd @ CHR ''/'' # nix32_encode h @ CHR ''-'' # name"
  by (auto simp: make_store_path_def Let_def andthen_ok_iff)

lemma content_addressed_path_form:
  "content_addressed_path ca name refs sd s = Inr path \<Longrightarrow>
    \<exists>h. path = sd @ CHR ''/'' # nix32_encode h @ CHR ''-'' # name"
  unfolding content_addressed_path_def Let_def by (erule make_store_path_ok | simp split: if_split_asm)+

lemma store_path_name_made:
  assumes "CHR ''/'' \<notin> set name"
  shows "store_path_name (sd @ CHR ''/'' # nix32_encode h @ CHR ''-'' # name) = Inr name"
proof -
  have no: "CHR ''/'' \<notin> set NIX32_CHARS" "CHR ''-'' \<notin> set NIX32_CHARS" by (simp_all add: NIX32_CHARS_def)
  then have "CHR ''/'' \<notin> set (nix32_encode h @ ''-'' @ name)" "CHR ''-'' \<notin> set (nix32_encode h)"
    using assms nix32_chars_of_encode [of h] by auto
  then show ?thesis
    using rpartition_tail_append [of "CHR ''/''" "nix32_encode h @ ''-'' @ name" sd]
      partition_at_found [of "CHR ''-''" "nix32_encode h" name]
    by (simp add: store_path_name_def)
qed

lemma store_path_name_of:
  "content_addressed_path ca name refs sd s = Inr path \<Longrightarrow> CHR ''/'' \<notin> set name \<Longrightarrow>
    store_path_name path = Inr name"
  by (elim exE [OF content_addressed_path_form]) (simp add: store_path_name_made)

lemma sort_remdups_set: "set xs = set ys \<Longrightarrow> sort (remdups xs) = sort (remdups (ys :: 'a::linorder list))"
  by (metis sorted_list_of_set_sort_remdups)

lemma content_addressed_path_set:
  assumes "set refs = set refs'"
  shows "content_addressed_path ca name refs sd s = content_addressed_path ca name refs' sd s"
proof -
  have mt: "make_type k (remdups refs) b = make_type k (remdups refs') b" for k b
    using sort_remdups_set [OF assms] by (simp add: make_type_def)
  have "refs = [] \<longleftrightarrow> refs' = []" using assms by auto
  then show ?thesis by (simp add: content_addressed_path_def Let_def mt)
qed

text \<open>
  C38. A path that the address gives is recognised as content-addressed: with the rendered address,
  the same references in any order and with any repetition, and itself among them exactly where it
  refers to itself, \<open>is_content_addressed\<close> answers true.\<close>

theorem content_addressed_recognised:
  assumes "map_of HASH_SIZES (ca_algo ca) = Some (length (ca_digest ca))"
    and "CHR ''/'' \<notin> set name"
    and "content_addressed_path ca name refs sd self_reference = Inr path"
    and "path \<notin> set refs"
    and "set refs' = set refs \<union> (if self_reference then {path} else {})"
  shows "is_content_addressed path (ca_render ca) refs' sd = Inr True"
proof -
  have name: "store_path_name path = Inr name"
    by (rule store_path_name_of [OF assms(3,2)])
  have "set (filter (\<lambda>r. r \<noteq> path) (remdups refs')) = set refs" using assms(4,5) by auto
  from content_addressed_path_set [OF this]
  have "content_addressed_path ca name (filter (\<lambda>r. r \<noteq> path) (remdups refs')) sd self_reference = Inr path"
    using assms(3) by simp
  moreover have "path \<in> set (remdups refs') \<longleftrightarrow> self_reference" using assms(4,5) by auto
  moreover have "ca_render ca \<noteq> []" by (simp add: ca_render_def)
  ultimately show ?thesis
    using content_address_roundtrip_of [OF assms(1)] name by (simp add: is_content_addressed_def Let_def)
qed

text \<open>
  Only the path an address gives is recognised: when \<open>is_content_addressed\<close> answers true, the
  address parses and \<open>content_addressed_path\<close> computes exactly this path from it and the
  references.\<close>

theorem recognised_is_content_addressed:
  assumes "is_content_addressed path ca refs sd = Inr True"
  shows "\<exists>address name. ca_parse ca = Inr address \<and> store_path_name path = Inr name \<and>
    content_addressed_path address name (filter (\<lambda>r. r \<noteq> path) refs) sd (path \<in> set refs) = Inr path"
proof -
  have "set (filter (\<lambda>r. r \<noteq> path) (remdups refs)) = set (filter (\<lambda>r. r \<noteq> path) refs)" by simp
  note refs = content_addressed_path_set [OF this]
  from assms obtain address where parse: "ca_parse ca = Inr address"
    by (auto simp: is_content_addressed_def andthen_ok_iff split: if_split_asm)
  let ?r = "andthen (store_path_name path) (\<lambda>name. content_addressed_path address name
    (filter (\<lambda>r. r \<noteq> path) refs) sd (path \<in> set refs))"
  from assms parse have "(case ?r of Inl e \<Rightarrow> if e = ValueError then Inr False else Inl e
      | Inr expected \<Rightarrow> Inr (expected = path)) = Inr True"
    by (simp add: is_content_addressed_def Let_def refs split: if_split_asm)
  then have "?r = Inr path" by (cases ?r) (auto split: if_split_asm)
  with parse show ?thesis by (auto simp: andthen_ok_iff)
qed

lemma make_store_path_defined: "\<exists>path. make_store_path kind algo d name sd = Inr path"
  by (simp add: make_store_path_def Let_def compress_hash_def)

theorem content_addressed_recognised_witness:
  "\<exists>path. content_addressed_path \<lparr>ca_method = NAR, ca_algo = ''sha256'', ca_digest = replicate 32 5\<rparr>
      ''hello-1.0'' [''/nix/store/b'', ''/nix/store/a''] ''/nix/store'' False = Inr path \<and>
    is_content_addressed path
      (ca_render \<lparr>ca_method = NAR, ca_algo = ''sha256'', ca_digest = replicate 32 5\<rparr>)
      [''/nix/store/a'', ''/nix/store/b'', ''/nix/store/a''] ''/nix/store'' = Inr True"
proof -
  let ?ca = "\<lparr>ca_method = NAR, ca_algo = ''sha256'', ca_digest = replicate 32 5\<rparr>"
  let ?refs = "[''/nix/store/b'', ''/nix/store/a'']"
  obtain path where path: "content_addressed_path ?ca ''hello-1.0'' ?refs ''/nix/store'' False = Inr path"
    by (rule exE [OF make_store_path_defined]) (auto simp: content_addressed_path_def Let_def)
  have "length path \<noteq> 12" using content_addressed_path_form [OF path] by auto
  then have "path \<notin> set ?refs" by auto
  from content_addressed_recognised [OF _ _ path this, of "[''/nix/store/a'', ''/nix/store/b'', ''/nix/store/a'']"]
  show ?thesis using path by (auto simp: HASH_SIZES_def)
qed

theorem recognised_is_content_addressed_witness:
  "\<exists>path name. store_path_name path = Inr name \<and>
    content_addressed_path \<lparr>ca_method = TEXT, ca_algo = ''sha256'', ca_digest = replicate 32 5\<rparr>
      name [] ''/nix/store'' False = Inr path"
proof -
  let ?ca = "\<lparr>ca_method = TEXT, ca_algo = ''sha256'', ca_digest = replicate 32 5\<rparr>"
  obtain path where path: "content_addressed_path ?ca ''x.drv'' [] ''/nix/store'' False = Inr path"
    by (rule exE [OF make_store_path_defined]) (auto simp: content_addressed_path_def Let_def)
  have parse: "ca_parse (ca_render ?ca) = Inr ?ca"
    by (rule content_address_roundtrip_of) (simp add: HASH_SIZES_def)
  have "store_path_name path = Inr ''x.drv''"
    using store_path_name_of [OF path] by simp
  then have "is_content_addressed path (ca_render ?ca) [] ''/nix/store'' = Inr True"
    using path parse by (simp add: is_content_addressed_def) (simp add: ca_render_def)
  from recognised_is_content_addressed [OF this] parse show ?thesis by auto
qed

end
