(* ===== verification/Drv_Parser.thy ===== *)
theory Drv_Parser
  imports Drv_Text Store_Path Content_Address
begin

text \<open>
  Derivations (\<open>pynixd_store/drv_parser.py\<close>, with the classification of an output of
  \<open>nix_daemon_protocol/derivation_output.py\<close>): the tree of an input, the term that \<open>unparse\<close> writes
  and \<open>_Parser\<close> reads, the hash modulo and the path of a derivation.

  A store path is its base name; \<open>sd\<close> is the store directory of the process. A dictionary is an
  association list in insertion order and a set a list without repetition. A text is modelled by its
  bytes, and \<open>sorted\<close> orders it by them. The parser reads a nested dynamic input by recursion, which
  ends in \<open>RecursionError\<close> when the interpreter's stack is used up; \<open>parse_drv_at\<close> has the room of the
  stack as an argument and \<open>parse_drv\<close> room for every nesting of its text. The printers, which recurse
  over the same trees, are modelled with room for them.
\<close>

section \<open>Outputs\<close>

datatype out_kind = INPUT_ADDRESSED | CA_FIXED | CA_FLOATING | DEFERRED | IMPURE

definition output_kind :: "string \<Rightarrow> string \<Rightarrow> string \<Rightarrow> out_kind" where
  "output_kind path meth hash_digest =
     (if meth = [] then (if path = [] then DEFERRED else INPUT_ADDRESSED)
      else if hash_digest = ''impure'' then IMPURE
      else if hash_digest \<noteq> [] then CA_FIXED
      else CA_FLOATING)"

section \<open>Derivations\<close>

datatype child_map_node =
  ChildMapNode (cm_outputs: "string list") (cm_children: "(string \<times> child_map_node) list")

datatype drv_input_node =
  DrvInputNode "string list" "(string \<times> drv_input_node) list" bool

fun child_map_to_drv_node :: "string list \<Rightarrow> child_map_node \<Rightarrow> drv_input_node" where
  "child_map_to_drv_node prefix_outputs (ChildMapNode outs children) =
     DrvInputNode (prefix_outputs @ outs)
       (map (\<lambda>e. (fst e, child_map_to_drv_node [] (snd e))) children) True"

definition is_leaf :: "child_map_node \<Rightarrow> bool" where
  "is_leaf n \<longleftrightarrow> cm_children n = []"

definition direct_outputs :: "child_map_node \<Rightarrow> string list" where
  "direct_outputs n = cm_outputs n @ map fst (cm_children n)"

record derivation =
  outputs :: "drv_output list"
  input_drvs :: "(string \<times> string list) list"
  input_srcs :: "string list"
  platform :: string
  builder :: string
  args :: "string list"
  env :: "(string \<times> string) list"
  is_dynamic :: bool
  dynamic_input_drvs :: "(string \<times> child_map_node) list"

fun add_output_path :: "string \<Rightarrow> drv_output list \<Rightarrow> (string \<times> string) list \<Rightarrow> error + (string \<times> string) list" where
  "add_output_path sd [] acc = Inr acc"
| "add_output_path sd (o1 # os) acc =
     andthen (read_store_path sd (do_path o1)) (\<lambda>p. add_output_path sd os (dict_set (do_output_name o1) p acc))"

definition output_paths :: "string \<Rightarrow> derivation \<Rightarrow> error + (string \<times> string) list" where
  "output_paths sd d = add_output_path sd (outputs d) []"

definition selected_output_paths :: "string \<Rightarrow> derivation \<Rightarrow> string list \<Rightarrow> error + (string \<times> string) list" where
  "selected_output_paths sd d wanted =
     andthen (output_paths sd d) (\<lambda>paths.
       if set wanted = {''*''} then Inr paths else Inr (filter (\<lambda>e. fst e \<in> set wanted) paths))"

definition output_kinds :: "derivation \<Rightarrow> out_kind list" where
  "output_kinds d = map (\<lambda>x. output_kind (do_path x) (do_hash_algo x) (do_hash_value x)) (outputs d)"

definition is_fixed_output :: "derivation \<Rightarrow> bool" where
  "is_fixed_output d \<longleftrightarrow> list_all (\<lambda>k. k = CA_FIXED) (output_kinds d)"

definition is_impure :: "derivation \<Rightarrow> bool" where
  "is_impure d \<longleftrightarrow> IMPURE \<in> set (output_kinds d)"

definition needs_realisations :: "derivation \<Rightarrow> bool" where
  "needs_realisations d = (if is_impure d then False else list_ex (\<lambda>x. do_path x = []) (outputs d))"

definition should_resolve :: "derivation \<Rightarrow> bool \<Rightarrow> bool" where
  "should_resolve d ca_derivations =
     (if input_drvs d = [] \<and> dynamic_input_drvs d = [] then False
      else if dynamic_input_drvs d \<noteq> [] then True
      else if list_all (\<lambda>k. k = INPUT_ADDRESSED) (output_kinds d) then False
      else if is_fixed_output d then ca_derivations
      else True)"

section \<open>Writing\<close>

definition print_unquoted_string :: "string \<Rightarrow> string" where
  "print_unquoted_string s = [DQ] @ s @ [DQ]"

definition print_escaped_string :: "string \<Rightarrow> string" where
  "print_escaped_string s = [DQ] @ aterm_escape s @ [DQ]"

definition bracketed :: "string list \<Rightarrow> string" where
  "bracketed items = ''['' @ join '','' items @ '']''"

definition print_unquoted_strings :: "string list \<Rightarrow> string" where
  "print_unquoted_strings items = bracketed (map print_unquoted_string items)"

definition has_dynamic_drv_dep :: "derivation \<Rightarrow> bool" where
  "has_dynamic_drv_dep d \<longleftrightarrow> dynamic_input_drvs d \<noteq> []"

fun unparse_derived_path_node :: "drv_input_node \<Rightarrow> string" where
  "unparse_derived_path_node (DrvInputNode output_names child_map dynamic) =
     (if child_map = [] \<and> \<not> dynamic then '','' @ print_unquoted_strings output_names
      else '',('' @ print_unquoted_strings output_names @ '','' @
        bracketed (map (\<lambda>e. ''('' @ print_unquoted_string (fst e) @ snd e @ '')'')
          (sort_key fst (map (\<lambda>e. (fst e, unparse_derived_path_node (snd e))) child_map))) @ '')'')"

definition unparse_output :: "bool \<Rightarrow> drv_output \<Rightarrow> string" where
  "unparse_output maskOutputs x =
     ''('' @ print_unquoted_string (do_output_name x) @ '','' @
     print_unquoted_string (if maskOutputs then [] else do_path x) @ '','' @
     print_unquoted_string (do_hash_algo x) @ '','' @ print_unquoted_string (do_hash_value x) @ '')''"

definition unparse_input :: "string \<Rightarrow> drv_input_node \<Rightarrow> string" where
  "unparse_input key node = ''('' @ print_unquoted_string key @ unparse_derived_path_node node @ '')''"

text \<open>The inputs of the derivation itself: simple and dynamic entries merged, by their printed path.\<close>

definition own_input_node :: "derivation \<Rightarrow> string \<Rightarrow> drv_input_node" where
  "own_input_node d drv_path =
     (let outs = (case map_of (input_drvs d) drv_path of None \<Rightarrow> [] | Some xs \<Rightarrow> xs) in
      case map_of (dynamic_input_drvs d) drv_path of
        Some node \<Rightarrow> child_map_to_drv_node outs node
      | None \<Rightarrow> DrvInputNode outs [] False)"

definition own_inputs :: "string \<Rightarrow> derivation \<Rightarrow> (string \<times> drv_input_node) list" where
  "own_inputs sd d =
     map (\<lambda>p. (print_store_path sd p, own_input_node d p))
       (sort_key (print_store_path sd) (remdups (map fst (input_drvs d) @ map fst (dynamic_input_drvs d))))"

definition unparse_env :: "bool \<Rightarrow> string set \<Rightarrow> string \<times> string \<Rightarrow> string" where
  "unparse_env maskOutputs output_names e =
     ''('' @ print_escaped_string (fst e) @ '','' @
     (if maskOutputs \<and> fst e \<in> output_names then [DQ, DQ] else print_escaped_string (snd e)) @ '')''"

definition unparse :: "string \<Rightarrow> derivation \<Rightarrow> bool \<Rightarrow> (string \<times> drv_input_node) list option \<Rightarrow> string" where
  "unparse sd d maskOutputs actualInputs =
     (if has_dynamic_drv_dep d then ''DrvWithVersion('' @ print_unquoted_string ''xp-dyn-drv'' @ '',''
      else ''Derive('') @
     bracketed (map (unparse_output maskOutputs) (sort_key do_output_name (outputs d))) @ '','' @
     bracketed (map (\<lambda>e. unparse_input (fst e) (snd e))
       (case actualInputs of Some ins \<Rightarrow> sort_key fst ins | None \<Rightarrow> own_inputs sd d)) @ '','' @
     print_unquoted_strings (sort (map (print_store_path sd) (input_srcs d))) @ '','' @
     print_unquoted_string (platform d) @ '','' @
     print_escaped_string (builder d) @ '','' @
     bracketed (map print_escaped_string (args d)) @ '','' @
     bracketed (map (unparse_env maskOutputs (do_output_name ` set (outputs d))) (sort_key fst (env d))) @ '')''"

definition serialize :: "string \<Rightarrow> derivation \<Rightarrow> string" where
  "serialize sd d = unparse sd d False None"

section \<open>Hashes and paths\<close>

definition sha256_hex :: "string \<Rightarrow> string" where
  "sha256_hex s = bytes_hex (sha256 (encode s))"

definition hash_derivation_modulo ::
    "string \<Rightarrow> derivation \<Rightarrow> bool \<Rightarrow> (string \<times> string list) list option \<Rightarrow> (string \<times> string) list" where
  "hash_derivation_modulo sd d mask_outputs input_drv_hashes =
     (if is_fixed_output d then
        foldl (\<lambda>result x. dict_set (do_output_name x)
            (sha256_hex (''fixed:out:'' @ do_hash_algo x @ '':'' @ do_hash_value x @ '':'' @ do_path x)) result)
          [] (outputs d)
      else
        let actual = map_option (map (\<lambda>e. (fst e, DrvInputNode (snd e) [] False))) input_drv_hashes;
            h = sha256_hex (unparse sd d mask_outputs actual)
        in foldl (\<lambda>result x. dict_set (do_output_name x) h result) [] (outputs d))"

definition drv_make_store_path :: "string \<Rightarrow> string \<Rightarrow> string \<Rightarrow> string \<Rightarrow> error + string" where
  "drv_make_store_path type_str hash_str name sd =
     andthen (compress_hash (sha256 (encode (type_str @ '':'' @ hash_str @ '':'' @ sd @ '':'' @ name))) 20)
       (\<lambda>compressed. Inr (sd @ ''/'' @ nix32_encode compressed @ ''-'' @ name))"

definition drv_type_str :: "string \<Rightarrow> derivation \<Rightarrow> string" where
  "drv_type_str sd d =
     ''text'' @ concat (map (\<lambda>p. '':'' @ p) (sort (map (print_store_path sd) (map fst (input_drvs d)))))
       @ concat (map (\<lambda>p. '':'' @ p) (sort (map (print_store_path sd) (input_srcs d))))"

definition compute_storepath :: "string \<Rightarrow> derivation \<Rightarrow> string \<Rightarrow> error + string" where
  "compute_storepath sd d target =
     (let content_hash = sha256_hex (unparse sd d False None);
          drv_name = (case map_of (env d) ''name'' of None \<Rightarrow> ''unknown'' | Some n \<Rightarrow> n)
      in drv_make_store_path (drv_type_str sd d) (''sha256:'' @ content_hash) (drv_name @ ''.drv'') target)"

section \<open>Reading\<close>

text \<open>
  The loop of every list: an item, then a comma before each other one, up to the bracket. It has
  fuel for one more turn than there are characters left.
\<close>

fun parse_items :: "nat \<Rightarrow> (string \<Rightarrow> error + ('a \<times> string)) \<Rightarrow> bool \<Rightarrow> string \<Rightarrow> error + ('a list \<times> string)" where
  "parse_items 0 item started left = Inl OutOfFuel"
| "parse_items (Suc n) item started left =
     andthen (peek left) (\<lambda>c.
     if c = CHR '']'' then Inr ([], left)
     else
       andthen (if started then expect '','' left else Inr left) (\<lambda>left1.
       andthen (item (skip_ws left1)) (\<lambda>(x, left2).
       andthen (parse_items n item True (skip_ws left2)) (\<lambda>(xs, left3). Inr (x # xs, left3)))))"

definition parse_bracketed :: "(string \<Rightarrow> error + ('a \<times> string)) \<Rightarrow> string \<Rightarrow> error + ('a list \<times> string)" where
  "parse_bracketed item left =
     andthen (expect ''['' left) (\<lambda>left1.
     andthen (parse_items (Suc (length left1)) item False (skip_ws left1)) (\<lambda>(xs, left2).
     andthen (expect '']'' left2) (\<lambda>left3. Inr (xs, left3))))"

definition parse_converted :: "(string \<Rightarrow> error + 'a) \<Rightarrow> string \<Rightarrow> error + ('a \<times> string)" where
  "parse_converted convert left =
     andthen (parse_string left) (\<lambda>(s, left1). andthen (convert s) (\<lambda>x. Inr (x, left1)))"

definition parse_string_list :: "(string \<Rightarrow> error + 'a) \<Rightarrow> string \<Rightarrow> error + ('a list \<times> string)" where
  "parse_string_list convert = parse_bracketed (parse_converted convert)"

definition parse_output :: "string \<Rightarrow> error + (drv_output \<times> string)" where
  "parse_output left0 =
     andthen (expect ''('' left0) (\<lambda>left1. andthen (parse_string left1) (\<lambda>(name, left2).
     andthen (expect '','' left2) (\<lambda>left3. andthen (parse_string left3) (\<lambda>(path, left4).
     andthen (expect '','' left4) (\<lambda>left5. andthen (parse_string left5) (\<lambda>(hash_algo, left6).
     andthen (expect '','' left6) (\<lambda>left7. andthen (parse_string left7) (\<lambda>(hash_value, left8).
     andthen (expect '')'' left8) (\<lambda>left9.
     Inr (DrvOutput_of hash_algo (Some hash_value) (Some name) path, left9))))))))))"

definition parse_outputs :: "string \<Rightarrow> error + (drv_output list \<times> string)" where
  "parse_outputs = parse_bracketed parse_output"

definition dict_of :: "('k \<times> 'v) list \<Rightarrow> ('k \<times> 'v) list" where
  "dict_of es = foldl (\<lambda>d e. dict_set (fst e) (snd e) d) [] es"

definition parse_input_simple :: "string \<Rightarrow> string \<Rightarrow> error + ((string \<times> string list) \<times> string)" where
  "parse_input_simple sd left0 =
     andthen (expect ''('' left0) (\<lambda>left1. andthen (parse_converted (read_store_path sd) left1) (\<lambda>(drv_path, left2).
     andthen (expect '','' left2) (\<lambda>left3. andthen (parse_string_list Inr left3) (\<lambda>(outs, left4).
     andthen (expect '')'' left4) (\<lambda>left5. Inr ((drv_path, outs), left5))))))"

definition parse_input_drvs_simple :: "string \<Rightarrow> string \<Rightarrow> error + ((string \<times> string list) list \<times> string)" where
  "parse_input_drvs_simple sd left =
     andthen (parse_bracketed (parse_input_simple sd) left) (\<lambda>(es, left1). Inr (dict_of es, left1))"

text \<open>
  A child value, given the reader of a node; and a node. The two call each other, and Python raises
  \<open>RecursionError\<close> when its stack has no room for one more: \<open>n\<close> is how many nested nodes it has room
  for.
\<close>

definition parse_child_value ::
    "(string \<Rightarrow> error + (child_map_node \<times> string)) \<Rightarrow> string \<Rightarrow> error + (child_map_node \<times> string)" where
  "parse_child_value node left =
     andthen (peek left) (\<lambda>c.
     if c = CHR ''['' then andthen (parse_string_list Inr left) (\<lambda>(outs, left1). Inr (ChildMapNode outs [], left1))
     else if c = CHR ''('' then node left
     else Inl ValueError)"

definition parse_child ::
    "(string \<Rightarrow> error + (child_map_node \<times> string)) \<Rightarrow> string \<Rightarrow> error + ((string \<times> child_map_node) \<times> string)" where
  "parse_child node left0 =
     andthen (expect ''('' left0) (\<lambda>left1. andthen (parse_string left1) (\<lambda>(child_name, left2).
     andthen (expect '','' left2) (\<lambda>left3. andthen (parse_child_value node left3) (\<lambda>(child_node, left4).
     andthen (expect '')'' left4) (\<lambda>left5. Inr ((child_name, child_node), left5))))))"

fun parse_child_map_node :: "nat \<Rightarrow> string \<Rightarrow> error + (child_map_node \<times> string)" where
  "parse_child_map_node 0 left = Inl RecursionError"
| "parse_child_map_node (Suc n) left =
     andthen (advance left) (\<lambda>(_, left1).
     andthen (parse_string_list Inr (skip_ws left1)) (\<lambda>(outs, left2).
     andthen (expect '','' left2) (\<lambda>left3.
     andthen (parse_bracketed (parse_child (\<lambda>l. parse_child_map_node n l)) left3) (\<lambda>(children, left4).
     andthen (expect '')'' left4) (\<lambda>left5. Inr (ChildMapNode outs (dict_of children), left5))))))"

text \<open>An entry of the dynamic format: simple outputs, or a node.\<close>

definition parse_input_value :: "nat \<Rightarrow> string \<Rightarrow> error + ((string list + child_map_node) \<times> string)" where
  "parse_input_value lim left =
     andthen (peek left) (\<lambda>c.
     if c = CHR ''['' then andthen (parse_string_list Inr left) (\<lambda>(outs, l). Inr (Inl outs, l))
     else if c = CHR ''('' then
       andthen (parse_child_map_node lim left) (\<lambda>(node, l). Inr (Inr node, l))
     else Inl ValueError)"

definition parse_input_dynamic ::
    "nat \<Rightarrow> string \<Rightarrow> string \<Rightarrow> error + ((string \<times> (string list + child_map_node)) \<times> string)" where
  "parse_input_dynamic lim sd left0 =
     andthen (expect ''('' left0) (\<lambda>left1. andthen (parse_converted (read_store_path sd) left1) (\<lambda>(drv_path, left2).
     andthen (expect '','' left2) (\<lambda>left3. andthen (parse_input_value lim (skip_ws left3)) (\<lambda>(v, left4).
     andthen (expect '')'' left4) (\<lambda>left5. Inr ((drv_path, v), left5))))))"

definition simple_entries :: "(string \<times> (string list + child_map_node)) list \<Rightarrow> (string \<times> string list) list" where
  "simple_entries es = concat (map (\<lambda>(p, v). case v of Inl outs \<Rightarrow> [(p, outs)] | Inr _ \<Rightarrow> []) es)"

definition dynamic_entries :: "(string \<times> (string list + child_map_node)) list \<Rightarrow> (string \<times> child_map_node) list" where
  "dynamic_entries es = concat (map (\<lambda>(p, v). case v of Inl _ \<Rightarrow> [] | Inr node \<Rightarrow> [(p, node)]) es)"

definition parse_input_drvs_dynamic ::
    "nat \<Rightarrow> string \<Rightarrow> string \<Rightarrow> error + (((string \<times> string list) list \<times> (string \<times> child_map_node) list) \<times> string)" where
  "parse_input_drvs_dynamic lim sd left =
     andthen (parse_bracketed (parse_input_dynamic lim sd) left) (\<lambda>(es, left1).
       Inr ((dict_of (simple_entries es), dict_of (dynamic_entries es)), left1))"

definition parse_env_entry :: "string \<Rightarrow> error + ((string \<times> string) \<times> string)" where
  "parse_env_entry left0 =
     andthen (expect ''('' left0) (\<lambda>left1. andthen (parse_string left1) (\<lambda>(key, left2).
     andthen (expect '','' left2) (\<lambda>left3. andthen (parse_string left3) (\<lambda>(value, left4).
     andthen (expect '')'' left4) (\<lambda>left5. Inr ((key, value), left5))))))"

definition parse_env :: "string \<Rightarrow> error + ((string \<times> string) list \<times> string)" where
  "parse_env left = andthen (parse_bracketed parse_env_entry left) (\<lambda>(es, left1). Inr (dict_of es, left1))"

text \<open>What a comma and the white space behind it leave.\<close>

definition comma :: "string \<Rightarrow> error + string" where
  "comma left = andthen (expect '','' left) (\<lambda>left1. Inr (skip_ws left1))"

text \<open>The fields that both formats have after their inputs.\<close>

definition parse_rest ::
    "string \<Rightarrow> string \<Rightarrow> error + (string list \<times> string \<times> string \<times> string list \<times> (string \<times> string) list)" where
  "parse_rest sd left0 =
     andthen (comma left0) (\<lambda>left1. andthen (parse_string_list (read_store_path sd) left1) (\<lambda>(srcs, left2).
     andthen (comma left2) (\<lambda>left3. andthen (parse_string left3) (\<lambda>(plat, left4).
     andthen (comma left4) (\<lambda>left5. andthen (parse_string left5) (\<lambda>(bldr, left6).
     andthen (comma left6) (\<lambda>left7. andthen (parse_string_list Inr left7) (\<lambda>(argv, left8).
     andthen (comma left8) (\<lambda>left9. andthen (parse_env left9) (\<lambda>(environ, left10).
     andthen (expect '')'' (skip_ws left10)) (\<lambda>_. Inr (remdups srcs, plat, bldr, argv, environ))))))))))))"

definition parse_traditional_derivation :: "string \<Rightarrow> string \<Rightarrow> error + derivation" where
  "parse_traditional_derivation sd left0 =
     andthen (expect ''Derive('' left0) (\<lambda>left1.
     andthen (parse_outputs (skip_ws left1)) (\<lambda>(outs, left2).
     andthen (comma left2) (\<lambda>left3.
     andthen (parse_input_drvs_simple sd left3) (\<lambda>(drvs, left4).
     andthen (parse_rest sd left4) (\<lambda>(srcs, plat, bldr, argv, environ).
     Inr \<lparr>outputs = outs, input_drvs = drvs, input_srcs = srcs, platform = plat, builder = bldr,
          args = argv, env = environ, is_dynamic = False, dynamic_input_drvs = []\<rparr>)))))"

definition parse_dynamic_derivation :: "nat \<Rightarrow> string \<Rightarrow> string \<Rightarrow> error + derivation" where
  "parse_dynamic_derivation lim sd left0 =
     andthen (expect ''DrvWithVersion('' left0) (\<lambda>left1.
     andthen (parse_string (skip_ws left1)) (\<lambda>(version, left2).
     if version \<noteq> ''xp-dyn-drv'' then Inl ValueError
     else
     andthen (comma left2) (\<lambda>left3.
     andthen (parse_outputs left3) (\<lambda>(outs, left4).
     andthen (comma left4) (\<lambda>left5.
     andthen (parse_input_drvs_dynamic lim sd left5) (\<lambda>((drvs, dyn), left6).
     andthen (parse_rest sd left6) (\<lambda>(srcs, plat, bldr, argv, environ).
     Inr \<lparr>outputs = outs, input_drvs = drvs, input_srcs = srcs, platform = plat, builder = bldr,
          args = argv, env = environ, is_dynamic = True, dynamic_input_drvs = dyn\<rparr>)))))))"

definition parse_derivation :: "nat \<Rightarrow> string \<Rightarrow> string \<Rightarrow> error + derivation" where
  "parse_derivation lim sd content =
     (let left = skip_ws content in
      if startswith left ''DrvWithVersion('' then parse_dynamic_derivation lim sd left
      else parse_traditional_derivation sd left)"

text \<open>
  \<open>parse_drv\<close> on an interpreter with room for \<open>lim\<close> nested nodes, and with room for every nesting that
  the text can have.
\<close>

definition parse_drv_at :: "nat \<Rightarrow> string \<Rightarrow> string \<Rightarrow> error + derivation" where
  "parse_drv_at lim sd content = parse_derivation lim sd content"

definition parse_drv :: "string \<Rightarrow> string \<Rightarrow> error + derivation" where
  "parse_drv sd content = parse_drv_at (Suc (length content)) sd content"

section \<open>Items read back\<close>

lemma skip_ws_Cons [simp]:
  "c \<noteq> CHR '' '' \<Longrightarrow> c \<noteq> TAB \<Longrightarrow> c \<noteq> LF \<Longrightarrow> c \<noteq> CR \<Longrightarrow> skip_ws (c # s) = c # s"
  by (simp add: skip_ws_def)

lemma peek_Cons [simp]: "peek (c # s) = Inr c"
  by (simp add: peek_def)

lemma advance_Cons [simp]: "advance (c # s) = Inr (c, s)"
  by (simp add: advance_def)

text \<open>
  A printer and the reader that undoes it: what follows the printed item is left alone. An item
  starts with a quote or a parenthesis.
\<close>

locale aterm_codec =
  fixes prn :: "'a \<Rightarrow> string" and prs :: "string \<Rightarrow> error + ('b \<times> string)"
    and val :: "'a \<Rightarrow> 'b" and ok :: "'a \<Rightarrow> bool"
  assumes read_back: "ok x \<Longrightarrow> prs (prn x @ t) = Inr (val x, t)"
    and starts: "ok x \<Longrightarrow> \<exists>s. prn x = DQ # s \<or> prn x = CHR ''('' # s"
begin

lemma skip_ws_prn: "ok x \<Longrightarrow> skip_ws (prn x @ t) = prn x @ t"
  using starts [of x] by auto

lemma items_read_back:
  assumes "\<forall>x\<in>set xs. ok x" and "length xs < n"
  shows "parse_items n prs started ((if started \<and> xs \<noteq> [] then '','' else []) @ join '','' (map prn xs) @ CHR '']'' # t)
    = Inr (map val xs, CHR '']'' # t)"
  using assms
proof (induction xs arbitrary: n started)
  case Nil
  then show ?case by (cases n) auto
next
  case (Cons x xs)
  then obtain m where n: "n = Suc m" and m: "length xs < m" by (cases n) auto
  let ?rest = "(if xs \<noteq> [] then '','' else []) @ join '','' (map prn xs) @ CHR '']'' # t"
  have x: "ok x" and xs: "\<forall>y\<in>set xs. ok y" using Cons.prems by auto
  have shape: "join '','' (map prn (x # xs)) @ CHR '']'' # t = prn x @ ?rest" by (cases "xs = []") (auto simp: join_Cons)
  have rest: "skip_ws ?rest = ?rest" by auto
  from starts [OF x] have "(if started then expect '','' ((if started then '','' else []) @ prn x @ ?rest)
      else Inr (prn x @ ?rest)) = Inr (prn x @ ?rest)" by auto
  moreover have "\<exists>c. peek ((if started then '','' else []) @ prn x @ ?rest) = Inr c \<and> c \<noteq> CHR '']''"
    using starts [OF x] by (cases started) auto
  ultimately show ?case
    unfolding shape n using Cons.IH [OF xs m, of True] rest by (auto simp: skip_ws_prn [OF x] read_back [OF x])
qed

lemma bracketed_read_back:
  assumes "\<forall>x\<in>set xs. ok x"
  shows "parse_bracketed prs (bracketed (map prn xs) @ t) = Inr (map val xs, t)"
proof -
  let ?body = "join '','' (map prn xs) @ CHR '']'' # t"
  have ne: "\<forall>s\<in>set (map prn xs). s \<noteq> []" using assms starts by fastforce
  have "skip_ws ?body = ?body"
  proof (cases xs)
    case (Cons x ys)
    then obtain u where "join '','' (map prn xs) = prn x @ u" by (cases ys) auto
    with Cons assms show ?thesis by (simp add: skip_ws_prn)
  qed simp
  moreover have "parse_items (Suc (length ?body)) prs False ?body = Inr (map val xs, CHR '']'' # t)"
    using items_read_back [OF assms, of "Suc (length ?body)" False t] length_join_le [OF ne, of "'',''"] by simp
  ultimately show ?thesis
    unfolding parse_bracketed_def bracketed_def by (simp del: parse_items.simps)
qed

end

lemmas parse_items.simps [simp del]

lemma parse_unquoted [simp]: "unquoted s \<Longrightarrow> parse_string (print_unquoted_string s @ t) = Inr (s, t)"
  using parse_string_unquoted [of s t] by (simp add: print_unquoted_string_def)

lemma parse_escaped [simp]: "parse_string (print_escaped_string s @ t) = Inr (s, t)"
  using parse_string_escaped [of s t] by (simp add: print_escaped_string_def)

lemma unquoted_append [simp]: "unquoted (s @ t) \<longleftrightarrow> unquoted s \<and> unquoted t"
  by (auto simp: unquoted_def)

interpretation names: aterm_codec print_unquoted_string "parse_converted Inr" "\<lambda>s. s" unquoted
  by unfold_locales (auto simp: parse_converted_def, auto simp: print_unquoted_string_def)

interpretation texts: aterm_codec print_escaped_string "parse_converted Inr" "\<lambda>s. s" "\<lambda>_. True"
  by unfold_locales (auto simp: parse_converted_def, auto simp: print_escaped_string_def)

interpretation paths: aterm_codec "\<lambda>b. print_unquoted_string (print_store_path sd b)"
    "parse_converted (read_store_path sd)" "\<lambda>b. b" "\<lambda>b. unquoted (print_store_path sd b)" for sd
  by unfold_locales (auto simp: parse_converted_def, auto simp: print_unquoted_string_def)

lemma parse_names [simp]:
  "list_all unquoted xs \<Longrightarrow> parse_string_list Inr (print_unquoted_strings xs @ t) = Inr (xs, t)"
  using names.bracketed_read_back [of xs t]
  by (simp add: parse_string_list_def print_unquoted_strings_def list_all_iff)

lemma parse_texts [simp]:
  "parse_string_list Inr (bracketed (map print_escaped_string xs) @ t) = Inr (xs, t)"
  using texts.bracketed_read_back [of xs t] by (simp add: parse_string_list_def)

lemma parse_paths [simp]:
  assumes "list_all (\<lambda>b. unquoted (print_store_path sd b)) xs"
  shows "parse_string_list (read_store_path sd) (print_unquoted_strings (map (print_store_path sd) xs) @ t) = Inr (xs, t)"
  using paths.bracketed_read_back [of xs sd t] assms
  by (simp add: parse_string_list_def print_unquoted_strings_def list_all_iff comp_def)

lemma parse_path [simp]:
  "unquoted (print_store_path sd b) \<Longrightarrow>
    parse_converted (read_store_path sd) (print_unquoted_string (print_store_path sd b) @ t) = Inr (b, t)"
  by (rule paths.read_back)

definition output_ok :: "drv_output \<Rightarrow> bool" where
  "output_ok x \<longleftrightarrow> unquoted (do_output_name x) \<and> unquoted (do_path x) \<and>
     unquoted (do_hash_algo x) \<and> unquoted (do_hash_value x)"

interpretation outs: aterm_codec "unparse_output False" parse_output "\<lambda>x. x" output_ok
proof
  fix x t assume "output_ok x"
  then show "parse_output (unparse_output False x @ t) = Inr (x, t)"
    by (simp add: parse_output_def unparse_output_def output_ok_def DrvOutput_of_def)
qed (simp add: unparse_output_def)

interpretation entries: aterm_codec "unparse_env False names" parse_env_entry "\<lambda>e. e" "\<lambda>_. True" for names
  by unfold_locales (auto simp: parse_env_entry_def unparse_env_def)

definition simple_ok :: "string \<Rightarrow> string \<times> string list \<Rightarrow> bool" where
  "simple_ok sd e \<longleftrightarrow> unquoted (print_store_path sd (fst e)) \<and> list_all unquoted (snd e)"

interpretation simple: aterm_codec
    "\<lambda>e. unparse_input (print_store_path sd (fst e)) (DrvInputNode (snd e) [] False)"
    "parse_input_simple sd" "\<lambda>e. e" "simple_ok sd" for sd
  by unfold_locales (auto simp: parse_input_simple_def unparse_input_def simple_ok_def)

section \<open>Nodes read back\<close>

text \<open>A node as it is written behind the comma, and with its children in the order written.\<close>

fun node_text :: "child_map_node \<Rightarrow> string" where
  "node_text (ChildMapNode outs children) =
     ''('' @ print_unquoted_strings outs @ '','' @
       bracketed (map (\<lambda>e. ''('' @ print_unquoted_string (fst e) @ '','' @ snd e @ '')'')
         (sort_key fst (map (\<lambda>e. (fst e, node_text (snd e))) children))) @ '')''"

fun canon_node :: "child_map_node \<Rightarrow> child_map_node" where
  "canon_node (ChildMapNode outs children) =
     ChildMapNode outs (sort_key fst (map (\<lambda>e. (fst e, canon_node (snd e))) children))"

fun child_node_ok :: "child_map_node \<Rightarrow> bool" where
  "child_node_ok (ChildMapNode outs children) \<longleftrightarrow> list_all unquoted outs \<and> distinct (map fst children) \<and>
     (\<forall>e\<in>set children. unquoted (fst e) \<and> child_node_ok (snd e))"

lemma unparse_node_text: "unparse_derived_path_node (child_map_to_drv_node [] node) = CHR '','' # node_text node"
proof (induction node rule: node_text.induct)
  case (1 outs children)
  have texts: "map (\<lambda>e. (fst e, unparse_derived_path_node (child_map_to_drv_node [] (snd e)))) children =
      map (\<lambda>e. (fst e, CHR '','' # snd e)) (map (\<lambda>e. (fst e, node_text (snd e))) children)"
    using 1 by simp
  have "sort_key fst (map (\<lambda>e. (fst e, unparse_derived_path_node (child_map_to_drv_node [] (snd e)))) children) =
      map (\<lambda>e. (fst e, CHR '','' # snd e)) (sort_key fst (map (\<lambda>e. (fst e, node_text (snd e))) children))"
    unfolding texts by (rule sort_key_fst_map)
  then show ?case by (simp add: comp_def)
qed

lemma dict_of_distinct: "distinct (map fst es) \<Longrightarrow> dict_of es = es"
proof -
  have "distinct (map fst es) \<Longrightarrow> fst ` set d \<inter> fst ` set es = {} \<Longrightarrow>
      foldl (\<lambda>d e. dict_set (fst e) (snd e) d) d es = d @ es" for d
  proof (induction es arbitrary: d)
    case (Cons e es)
    then have "dict_set (fst e) (snd e) d = d @ [e]" using dict_set_fresh [of "fst e" d "snd e"] by auto
    then show ?case using Cons.prems Cons.IH [of "d @ [e]"] by auto
  qed simp
  from this [of "[]"] show "distinct (map fst es) \<Longrightarrow> dict_of es = es" by (simp add: dict_of_def)
qed

lemma distinct_map_sort_key: "distinct (map f (sort_key g xs)) \<longleftrightarrow> distinct (map f xs)"
  by (simp add: distinct_map)

lemma node_text_starts: "\<exists>s. node_text node = CHR ''('' # s"
  by (cases node) simp

lemma child_length:
  assumes "e \<in> set children"
  shows "length (node_text (snd e)) < length (node_text (ChildMapNode outs children))"
proof -
  let ?f = "\<lambda>e. ''('' @ print_unquoted_string (fst e) @ '','' @ snd e @ '')''"
  let ?cs = "map ?f (sort_key fst (map (\<lambda>e. (fst e, node_text (snd e))) children))"
  have "?f (fst e, node_text (snd e)) \<in> set ?cs" using assms by force
  then have "length (?f (fst e, node_text (snd e))) \<le> length (join '','' ?cs)" by (rule length_join_mem)
  then show ?thesis by (simp add: bracketed_def)
qed

lemma node_read_back:
  "child_node_ok node \<Longrightarrow> length (node_text node) \<le> n \<Longrightarrow>
    parse_child_map_node n (node_text node @ t) = Inr (canon_node node, t)"
proof (induction node arbitrary: n t rule: node_text.induct)
  case (1 outs children)
  obtain m where n: "n = Suc m" using 1(3) by (cases n) auto
  let ?prn = "\<lambda>e. ''('' @ print_unquoted_string (fst e) @ '','' @ node_text (snd e) @ '')''"
  let ?ok = "\<lambda>e. e \<in> set children"
  have child: "aterm_codec ?prn (parse_child (\<lambda>l. parse_child_map_node m l)) (\<lambda>e. (fst e, canon_node (snd e))) ?ok"
  proof
    fix e t assume e: "?ok e"
    then have "unquoted (fst e)" "child_node_ok (snd e)" using 1(2) by auto
    moreover have "length (node_text (snd e)) \<le> m" using child_length [OF e, of outs] 1(3) n by simp
    moreover obtain s where "node_text (snd e) = CHR ''('' # s" using node_text_starts by blast
    ultimately show "parse_child (\<lambda>l. parse_child_map_node m l) (?prn e @ t) = Inr ((fst e, canon_node (snd e)), t)"
      using 1(1) [OF e, of m "CHR '')'' # t"] by (simp add: parse_child_def parse_child_value_def)
  qed simp
  have sorted: "sort_key fst (map (\<lambda>e. (fst e, g (snd e))) children) = map (\<lambda>e. (fst e, g (snd e))) (sort_key fst children)" for g :: "child_map_node \<Rightarrow> 'z"
    by (rule sort_key_fst_map)
  have "parse_bracketed (parse_child (\<lambda>l. parse_child_map_node m l)) (bracketed (map ?prn (sort_key fst children)) @ t')
      = Inr (map (\<lambda>e. (fst e, canon_node (snd e))) (sort_key fst children), t')" for t'
    by (rule aterm_codec.bracketed_read_back [OF child]) simp
  moreover have "distinct (map fst (map (\<lambda>e. (fst e, canon_node (snd e))) (sort_key fst children)))"
    using 1(2) by (simp add: comp_def distinct_map_sort_key)
  moreover have "skip_ws (print_unquoted_strings outs @ u) = print_unquoted_strings outs @ u" for u
    by (simp add: print_unquoted_strings_def bracketed_def)
  ultimately show ?case unfolding n using 1(2) by (simp add: sort_key_fst_map comp_def dict_of_distinct)
qed

definition dynamic_ok :: "nat \<Rightarrow> string \<Rightarrow> string \<times> (string list + child_map_node) \<Rightarrow> bool" where
  "dynamic_ok lim sd e \<longleftrightarrow> unquoted (print_store_path sd (fst e)) \<and>
     (case snd e of Inl xs \<Rightarrow> list_all unquoted xs | Inr node \<Rightarrow> child_node_ok node \<and> length (node_text node) \<le> lim)"

definition input_node_of :: "string list + child_map_node \<Rightarrow> drv_input_node" where
  "input_node_of v = (case v of Inl xs \<Rightarrow> DrvInputNode xs [] False | Inr node \<Rightarrow> child_map_to_drv_node [] node)"

interpretation dynamic: aterm_codec
    "\<lambda>e. unparse_input (print_store_path sd (fst e)) (input_node_of (snd e))"
    "parse_input_dynamic lim sd" "\<lambda>e. (fst e, map_sum id canon_node (snd e))" "dynamic_ok lim sd" for lim sd
proof
  fix e t assume ok: "dynamic_ok lim sd e"
  show "parse_input_dynamic lim sd (unparse_input (print_store_path sd (fst e)) (input_node_of (snd e)) @ t) =
      Inr ((fst e, map_sum id canon_node (snd e)), t)"
  proof (cases "snd e")
    case (Inl xs)
    then have names: "list_all unquoted xs" using ok by (simp add: dynamic_ok_def)
    obtain u where u: "print_unquoted_strings xs @ CHR '')'' # t = CHR ''['' # u"
      by (simp add: print_unquoted_strings_def bracketed_def)
    have "parse_string_list Inr (CHR ''['' # u) = Inr (xs, CHR '')'' # t)" using parse_names [OF names] unfolding u [symmetric] .
    with Inl ok u show ?thesis by (simp add: parse_input_dynamic_def parse_input_value_def unparse_input_def input_node_of_def dynamic_ok_def)
  next
    case (Inr node)
    obtain u where u: "node_text node @ CHR '')'' # t = CHR ''('' # u" using node_text_starts by (metis append_Cons)
    have "parse_child_map_node lim (CHR ''('' # u) = Inr (canon_node node, CHR '')'' # t)"
      unfolding u [symmetric] by (rule node_read_back) (use Inr ok in \<open>simp_all add: dynamic_ok_def\<close>)
    with Inr ok u show ?thesis
      by (simp add: parse_input_dynamic_def parse_input_value_def unparse_input_def input_node_of_def dynamic_ok_def unparse_node_text
          del: parse_child_map_node.simps)
  qed
qed (simp add: unparse_input_def)

section \<open>Derivations read back\<close>

text \<open>The derivation with its dictionaries and sets in the order in which they are written.\<close>

definition canon :: "string \<Rightarrow> derivation \<Rightarrow> derivation" where
  "canon sd d = \<lparr>outputs = sort_key do_output_name (outputs d),
     input_drvs = sort_key (\<lambda>e. print_store_path sd (fst e)) (input_drvs d),
     input_srcs = sort_key (print_store_path sd) (input_srcs d),
     platform = platform d, builder = builder d, args = args d, env = sort_key fst (env d),
     is_dynamic = (dynamic_input_drvs d \<noteq> []),
     dynamic_input_drvs = map (\<lambda>e. (fst e, canon_node (snd e)))
       (sort_key (\<lambda>e. print_store_path sd (fst e)) (dynamic_input_drvs d))\<rparr>"

definition drv_ok :: "string \<Rightarrow> derivation \<Rightarrow> bool" where
  "drv_ok sd d \<longleftrightarrow> list_all output_ok (outputs d) \<and>
     distinct (map fst (input_drvs d) @ map fst (dynamic_input_drvs d)) \<and>
     list_all (simple_ok sd) (input_drvs d) \<and>
     list_all (\<lambda>e. unquoted (print_store_path sd (fst e)) \<and> child_node_ok (snd e)) (dynamic_input_drvs d) \<and>
     list_all (\<lambda>b. unquoted (print_store_path sd b)) (input_srcs d) \<and> distinct (input_srcs d) \<and>
     unquoted (platform d) \<and> distinct (map fst (env d))"

definition merged_inputs :: "derivation \<Rightarrow> (string \<times> (string list + child_map_node)) list" where
  "merged_inputs d = map (\<lambda>e. (fst e, Inl (snd e))) (input_drvs d) @ map (\<lambda>e. (fst e, Inr (snd e))) (dynamic_input_drvs d)"

lemma own_inputs_merged:
  assumes "drv_ok sd d"
  shows "own_inputs sd d = map (\<lambda>e. (print_store_path sd (fst e), input_node_of (snd e)))
    (sort_key (\<lambda>e. print_store_path sd (fst e)) (merged_inputs d))"
proof -
  have keys: "map fst (input_drvs d) @ map fst (dynamic_input_drvs d) = map fst (merged_inputs d)"
    by (simp add: merged_inputs_def comp_def)
  have dis: "distinct (map fst (merged_inputs d))" using assms unfolding keys [symmetric] drv_ok_def by blast
  have node: "own_input_node d (fst e) = input_node_of (snd e)" if "e \<in> set (merged_inputs d)" for e
  proof -
    have dd: "distinct (map fst (input_drvs d))" "distinct (map fst (dynamic_input_drvs d))"
      "fst ` set (input_drvs d) \<inter> fst ` set (dynamic_input_drvs d) = {}"
      using assms by (auto simp: drv_ok_def)
    from that consider f where "f \<in> set (input_drvs d)" "e = (fst f, Inl (snd f))"
      | f where "f \<in> set (dynamic_input_drvs d)" "e = (fst f, Inr (snd f))"
      by (auto simp: merged_inputs_def)
    then show ?thesis
    proof cases
      case (1 f)
      have "map_of (input_drvs d) (fst f) = Some (snd f)" using dd(1) 1(1) by simp
      moreover have "map_of (dynamic_input_drvs d) (fst f) = None" using dd(3) 1(1) by (auto simp: map_of_eq_None_iff)
      ultimately show ?thesis by (simp add: 1(2) own_input_node_def input_node_of_def)
    next
      case (2 f)
      have "map_of (dynamic_input_drvs d) (fst f) = Some (snd f)" using dd(2) 2(1) by simp
      moreover have "map_of (input_drvs d) (fst f) = None" using dd(3) 2(1) by (auto simp: map_of_eq_None_iff)
      ultimately show ?thesis by (simp add: 2(2) own_input_node_def input_node_of_def)
    qed
  qed
  show ?thesis
    unfolding own_inputs_def keys distinct_remdups_id [OF dis] sort_key_map map_map using node
    by (auto simp: comp_def)
qed

lemma simple_entries_filter: "simple_entries es = map (\<lambda>e. (fst e, projl (snd e))) (filter (\<lambda>e. isl (snd e)) es)"
  by (induction es) (auto simp: simple_entries_def split: sum.splits)

lemma dynamic_entries_filter: "dynamic_entries es = map (\<lambda>e. (fst e, projr (snd e))) (filter (\<lambda>e. \<not> isl (snd e)) es)"
  by (induction es) (auto simp: dynamic_entries_def split: sum.splits)

lemma merged_entries:
  fixes sd d
  defines "es \<equiv> map (\<lambda>e. (fst e, map_sum id canon_node (snd e)))
    (sort_key (\<lambda>e. print_store_path sd (fst e)) (merged_inputs d))"
  shows "simple_entries es = input_drvs (canon sd d)" and "dynamic_entries es = dynamic_input_drvs (canon sd d)"
proof -
  have isl_map: "isl (map_sum f g v) = isl v" for f g and v :: "string list + child_map_node" by (cases v) auto
  have l: "filter (\<lambda>e. isl (snd e)) (merged_inputs d) = map (\<lambda>e. (fst e, Inl (snd e))) (input_drvs d)"
    and r: "filter (\<lambda>e. \<not> isl (snd e)) (merged_inputs d) = map (\<lambda>e. (fst e, Inr (snd e))) (dynamic_input_drvs d)"
    by (simp_all add: merged_inputs_def filter_map comp_def)
  show "simple_entries es = input_drvs (canon sd d)"
    by (simp add: simple_entries_filter es_def filter_map comp_def isl_map filter_sort l sort_key_map canon_def)
  show "dynamic_entries es = dynamic_input_drvs (canon sd d)"
    by (simp add: dynamic_entries_filter es_def filter_map comp_def isl_map filter_sort r sort_key_map canon_def)
qed

lemma comma_Cons: "comma (CHR '','' # s) = Inr (skip_ws s)"
  by (simp add: comma_def)

lemma skip_ws_printed [simp]:
  "skip_ws (print_unquoted_string s @ t) = print_unquoted_string s @ t"
  "skip_ws (print_escaped_string s @ t) = print_escaped_string s @ t"
  "skip_ws (bracketed xs @ t) = bracketed xs @ t"
  "skip_ws (print_unquoted_strings xs @ t) = print_unquoted_strings xs @ t"
  by (simp_all add: print_unquoted_string_def print_escaped_string_def bracketed_def print_unquoted_strings_def)

text \<open>What \<open>unparse\<close> writes behind the inputs.\<close>

definition rest_text :: "string \<Rightarrow> derivation \<Rightarrow> string" where
  "rest_text sd d = '','' @
     print_unquoted_strings (sort (map (print_store_path sd) (input_srcs d))) @ '','' @
     print_unquoted_string (platform d) @ '','' @ print_escaped_string (builder d) @ '','' @
     bracketed (map print_escaped_string (args d)) @ '','' @
     bracketed (map (unparse_env False (do_output_name ` set (outputs d))) (sort_key fst (env d))) @ '')''"

lemma rest_read_back:
  assumes "drv_ok sd d"
  shows "parse_rest sd (rest_text sd d) =
    Inr (input_srcs (canon sd d), platform d, builder d, args d, env (canon sd d))"
proof -
  let ?k = "print_store_path sd"
  have srcs: "sort (map ?k (input_srcs d)) = map ?k (sort_key ?k (input_srcs d))" by (rule sort_key_map)
  have ok: "list_all (\<lambda>b. unquoted (?k b)) (sort_key ?k (input_srcs d))" "distinct (input_srcs d)"
    "unquoted (platform d)" "distinct (map fst (sort_key fst (env d)))"
    using assms by (simp_all add: drv_ok_def list_all_iff distinct_map_sort_key)
  have envs: "parse_env (bracketed (map (unparse_env False N) (sort_key fst (env d))) @ t)
      = Inr (sort_key fst (env d), t)" for N t
    using entries.bracketed_read_back [of "sort_key fst (env d)" N t] dict_of_distinct [OF ok(4)] by (simp add: parse_env_def)
  show ?thesis
    unfolding rest_text_def srcs by (simp add: parse_rest_def comma_Cons envs ok parse_paths canon_def)
qed

lemma serialize_parts:
  assumes "drv_ok sd d"
  shows "serialize sd d =
    (if dynamic_input_drvs d \<noteq> [] then ''DrvWithVersion('' @ print_unquoted_string ''xp-dyn-drv'' @ '','' else ''Derive('') @
    bracketed (map (unparse_output False) (outputs (canon sd d))) @ '','' @
    bracketed (map (\<lambda>e. unparse_input (print_store_path sd (fst e)) (input_node_of (snd e)))
      (sort_key (\<lambda>e. print_store_path sd (fst e)) (merged_inputs d))) @ rest_text sd d"
  by (simp add: serialize_def unparse_def has_dynamic_drv_dep_def own_inputs_merged [OF assms] comp_def rest_text_def canon_def)

lemma parse_outputs_back:
  "list_all output_ok xs \<Longrightarrow> parse_outputs (bracketed (map (unparse_output False) xs) @ t) = Inr (xs, t)"
  using outs.bracketed_read_back [of xs t] by (simp add: parse_outputs_def list_all_iff)

lemma parse_traditional_back:
  assumes "drv_ok sd d" and "dynamic_input_drvs d = []"
  shows "parse_traditional_derivation sd (serialize sd d) = Inr (canon sd d)"
proof -
  let ?k = "\<lambda>e. print_store_path sd (fst e)"
  have merged: "map (\<lambda>e. unparse_input (?k e) (input_node_of (snd e))) (sort_key ?k (merged_inputs d)) =
      map (\<lambda>e. unparse_input (?k e) (DrvInputNode (snd e) [] False)) (input_drvs (canon sd d))"
    using assms(2) by (simp add: merged_inputs_def sort_key_map comp_def input_node_of_def canon_def)
  have ok: "list_all output_ok (outputs (canon sd d))" "\<forall>e\<in>set (input_drvs (canon sd d)). simple_ok sd e"
    "distinct (map fst (input_drvs (canon sd d)))"
    using assms(1) by (simp_all add: drv_ok_def canon_def list_all_iff distinct_map_sort_key)
  have drvs: "parse_input_drvs_simple sd (bracketed (map (\<lambda>e. unparse_input (?k e) (DrvInputNode (snd e) [] False))
      (input_drvs (canon sd d))) @ t) = Inr (input_drvs (canon sd d), t)" for t
    using simple.bracketed_read_back [OF ok(2), of t] dict_of_distinct [OF ok(3)] by (simp add: parse_input_drvs_simple_def)
  show ?thesis
    unfolding serialize_parts [OF assms(1)] merged using assms(2)
    by (simp add: parse_traditional_derivation_def parse_outputs_back [OF ok(1)] comma_Cons drvs rest_read_back [OF assms(1)])
       (simp add: canon_def)
qed

lemma parse_dynamic_back:
  assumes "drv_ok sd d" and "dynamic_input_drvs d \<noteq> []" and "length (serialize sd d) \<le> lim"
  shows "parse_dynamic_derivation lim sd (serialize sd d) = Inr (canon sd d)"
proof -
  let ?k = "\<lambda>e. print_store_path sd (fst e)"
  let ?es = "sort_key ?k (merged_inputs d)"
  have room: "length (node_text (snd x)) \<le> lim" if x: "x \<in> set (dynamic_input_drvs d)" for x
  proof -
    let ?f = "\<lambda>e. unparse_input (?k e) (input_node_of (snd e))" and ?e = "(fst x, Inr (snd x))"
    have "length (node_text (snd x)) \<le> length (?f ?e)"
      by (simp add: unparse_input_def input_node_of_def unparse_node_text)
    also have "\<dots> \<le> length (join '','' (map ?f ?es))"
    proof (rule length_join_mem)
      have "?e \<in> set ?es" using x by (auto simp: merged_inputs_def)
      then show "?f ?e \<in> set (map ?f ?es)" unfolding set_map by (rule imageI)
    qed
    also have "\<dots> \<le> length (serialize sd d)" unfolding serialize_parts [OF assms(1)] by (simp add: bracketed_def)
    finally show ?thesis using assms(3) by simp
  qed
  have "dynamic_ok lim sd e" if "e \<in> set (merged_inputs d)" for e
    using that assms(1) room by (auto simp: drv_ok_def list_all_iff merged_inputs_def dynamic_ok_def simple_ok_def)
  then have ok: "list_all output_ok (outputs (canon sd d))" "\<forall>e\<in>set ?es. dynamic_ok lim sd e"
    "distinct (map fst (input_drvs (canon sd d)))" "distinct (map fst (dynamic_input_drvs (canon sd d)))"
    using assms(1) by (auto simp: drv_ok_def canon_def list_all_iff distinct_map_sort_key comp_def)
  have drvs: "parse_input_drvs_dynamic lim sd (bracketed (map (\<lambda>e. unparse_input (?k e) (input_node_of (snd e))) ?es) @ t) =
      Inr ((input_drvs (canon sd d), dynamic_input_drvs (canon sd d)), t)" for t
    using dynamic.bracketed_read_back [OF ok(2), of t] dict_of_distinct [OF ok(3)] dict_of_distinct [OF ok(4)]
    by (simp add: parse_input_drvs_dynamic_def merged_entries)
  have version: "unquoted ''xp-dyn-drv''" by (simp add: unquoted_def)
  show ?thesis
    unfolding serialize_parts [OF assms(1)] using assms(2)
    by (simp add: parse_dynamic_derivation_def version parse_outputs_back [OF ok(1)] comma_Cons drvs rest_read_back [OF assms(1)])
       (simp add: canon_def)
qed

lemma parse_serialized: "drv_ok sd d \<Longrightarrow> parse_drv sd (serialize sd d) = Inr (canon sd d)"
proof (cases "dynamic_input_drvs d = []")
  case True
  assume ok: "drv_ok sd d"
  obtain u where "serialize sd d = ''Derive('' @ u" using serialize_parts [OF ok] True by simp
  then have "skip_ws (serialize sd d) = serialize sd d" "\<not> startswith (serialize sd d) ''DrvWithVersion(''"
    by (simp_all add: startswith_def)
  then show ?thesis using parse_traditional_back [OF ok True] by (simp add: parse_drv_def parse_drv_at_def parse_derivation_def)
next
  case False
  assume ok: "drv_ok sd d"
  obtain u where "serialize sd d = ''DrvWithVersion('' @ u" using serialize_parts [OF ok] False by simp
  then have "skip_ws (serialize sd d) = serialize sd d" "startswith (serialize sd d) ''DrvWithVersion(''"
    by (simp_all add: startswith_def)
  then show ?thesis using parse_dynamic_back [OF ok False] by (simp add: parse_drv_def parse_drv_at_def parse_derivation_def)
qed

text \<open>
  C13. \<open>parse_drv\<close> reads back every derivation that \<open>serialize\<close> writes, in both formats: outputs,
  input derivations with the trees of the dynamic ones, sources, platform, builder, arguments and
  environment, whatever characters the last three hold; dictionaries and sets come back in the
  order of their keys. The fields that are written without escapes must need none, and the
  interpreter's stack has room for the nesting of the dynamic inputs.\<close>

theorem derivation_roundtrip:
  assumes "drv_ok sd d"
  shows "parse_drv sd (serialize sd d) = Inr (canon sd d)"
  using assms by (rule parse_serialized)

definition sample_drv :: derivation where
  "sample_drv = \<lparr>outputs = [\<lparr>do_hash_algo = [], do_hash_value = [], do_output_name = ''out'', do_path = ''/s/o''\<rparr>],
     input_drvs = [(''b.drv'', [''out'']), (''a.drv'', [''dev'', ''out''])],
     input_srcs = [''z'', ''y''], platform = ''x86_64-linux'', builder = [DQ, BS],
     args = [[LF, CHR ''a'']], env = [(''name'', ''n''), (''A'', [TAB])], is_dynamic = False,
     dynamic_input_drvs = [(''c.drv'', ChildMapNode [] [(''out'', ChildMapNode [''x''] [])])]\<rparr>"

theorem derivation_roundtrip_witness:
  "map_sum id (map fst \<circ> input_drvs) (parse_drv ''/s'' (serialize ''/s'' sample_drv)) = Inr [''a.drv'', ''b.drv'']"
proof -
  have "drv_ok ''/s'' sample_drv"
    by (simp add: drv_ok_def sample_drv_def output_ok_def simple_ok_def unquoted_def print_store_path_def)
  from derivation_roundtrip [OF this] show ?thesis
    by (simp add: canon_def sample_drv_def print_store_path_def)
qed

section \<open>How parsing ends\<close>

text \<open>
  A reader that fails with \<open>ValueError\<close>, or where \<open>deep\<close> holds with \<open>RecursionError\<close>, and that leaves
  less than \<open>k\<close> characters where it succeeds; \<open>f\<close> measures what it returns.
\<close>

definition within :: "bool \<Rightarrow> ('r \<Rightarrow> nat) \<Rightarrow> nat \<Rightarrow> error + 'r \<Rightarrow> bool" where
  "within deep f k r \<longleftrightarrow> (case r of Inl e \<Rightarrow> e = ValueError \<or> deep \<and> e = RecursionError | Inr x \<Rightarrow> f x < k)"

abbreviation "left_of \<equiv> (\<lambda>r :: _ \<times> string. length (snd r))"

named_theorems within_intros \<open>what each reader leaves\<close>

lemma within_simps [simp]: "within deep f k (Inl e) \<longleftrightarrow> e = ValueError \<or> deep \<and> e = RecursionError" "within deep f k (Inr x) \<longleftrightarrow> f x < k"
  by (simp_all add: within_def)

lemma within_andthen [within_intros]:
  "within deep f k r \<Longrightarrow> (\<And>x. f x < k \<Longrightarrow> within deep g m (h x)) \<Longrightarrow> within deep g m (andthen r h)"
  by (cases r) (auto simp: within_def)

lemma within_split [within_intros]: "(\<And>a l. p = (a, l) \<Longrightarrow> within deep g m (h a l)) \<Longrightarrow> within deep g m (case p of (a, l) \<Rightarrow> h a l)"
  by (cases p) simp

lemma within_mono: "within deep f j r \<Longrightarrow> j \<le> k \<Longrightarrow> within deep f k r"
  by (cases r) auto

lemma within_expect [within_intros]: "length l \<le> k \<Longrightarrow> within deep length k (expect [c] l)"
  by (cases l) (auto simp: advance_def)

lemma within_parse_string [within_intros]: "length l \<le> k \<Longrightarrow> within deep left_of k (parse_string l)"
proof (cases l)
  case (Cons c s)
  assume "length l \<le> k"
  with Cons show ?thesis by (cases "c = DQ") (auto simp: parse_string_spec, auto simp: parse_string_def split: option.splits)
qed (simp add: parse_string_def advance_def)

lemma within_peek: "(\<And>c. l \<noteq> [] \<Longrightarrow> within deep g m (h c)) \<Longrightarrow> within deep g m (andthen (peek l) h)"
  by (cases l) (auto simp: peek_def)

lemma within_comma [within_intros]: "length l \<le> k \<Longrightarrow> within deep length k (comma l)"
  unfolding comma_def
  by (rule within_andthen [OF within_expect]) (auto simp: skip_ws_def intro: le_less_trans [OF length_dropWhile_le])

lemma length_skip_ws: "length (skip_ws l) \<le> length l"
  by (simp add: skip_ws_def length_dropWhile_le)

lemma within_converted [within_intros]:
  assumes "\<And>s. case f s of Inl e \<Rightarrow> e = ValueError | Inr _ \<Rightarrow> True" and "length l \<le> k"
  shows "within deep left_of k (parse_converted f l)"
proof -
  have "within deep (\<lambda>_. 0) 1 (f s)" for s using assms(1) [of s] by (simp add: within_def split: sum.splits)
  then show ?thesis unfolding parse_converted_def
    by (intro within_andthen [OF within_parse_string [OF assms(2)]] within_split within_andthen [of deep "\<lambda>_. 0" 1]) auto
qed

text \<open>A reader of items that always takes something, for texts of at most \<open>N\<close> characters.\<close>

locale item_reader =
  fixes deep :: bool and item :: "string \<Rightarrow> error + ('a \<times> string)" and N :: nat
  assumes takes: "length l \<le> N \<Longrightarrow> within deep left_of (length l) (item l)"
begin

lemma items_within:
  "length l \<le> N \<Longrightarrow> length l < n \<Longrightarrow> within deep left_of (Suc (length l)) (parse_items n item started l)"
proof (induction n arbitrary: l started)
  case (Suc n)
  have step: "within deep left_of (Suc (length l)) (andthen (item (skip_ws l1)) (\<lambda>(x, l2).
      andthen (parse_items n item True (skip_ws l2)) (\<lambda>(xs, l3). Inr (x # xs, l3))))"
    if "length l1 \<le> length l" for l1
  proof (rule within_andthen [where k = "length l" and f = left_of])
    have "length (skip_ws l1) \<le> length l" using that length_skip_ws [of l1] by simp
    then show "within deep left_of (length l) (item (skip_ws l1))"
      using takes [of "skip_ws l1"] Suc.prems by (auto intro: within_mono)
  next
    fix p :: "'a \<times> string" assume p: "left_of p < length l"
    obtain x l2 where xl: "p = (x, l2)" by (cases p)
    have "length (skip_ws l2) < length l" using p xl length_skip_ws [of l2] by simp
    then have "within deep left_of (Suc (length l)) (parse_items n item True (skip_ws l2))"
      using Suc.IH [of "skip_ws l2" True] Suc.prems by (auto intro: within_mono)
    then show "within deep left_of (Suc (length l))
        (case p of (x, l2) \<Rightarrow> andthen (parse_items n item True (skip_ws l2)) (\<lambda>(xs, l3). Inr (x # xs, l3)))"
      unfolding xl by (simp, elim within_andthen) auto
  qed
  have "within deep length (Suc (length l)) (if started then expect '','' l else Inr l)"
    using within_expect [of l "Suc (length l)"] by (auto simp del: expect.simps)
  with step show ?case
    by (auto simp: parse_items.simps intro!: within_peek within_andthen [of deep length "Suc (length l)"] dest: less_Suc_eq_le [THEN iffD1])
qed simp

lemma bracketed_within:
  assumes "length l \<le> Suc N" and "length l \<le> k"
  shows "within deep left_of k (parse_bracketed item l)"
proof -
  have "within deep left_of (length l) (parse_bracketed item l)"
    unfolding parse_bracketed_def
  proof (rule within_andthen [OF within_expect [OF order_refl]])
    fix l1 :: string assume l1: "length l1 < length l"
    then have "length (skip_ws l1) \<le> N" "length (skip_ws l1) < Suc (length l1)"
      using assms(1) length_skip_ws [of l1] by auto
    from items_within [OF this, of False] have "within deep left_of (length l) (parse_items (Suc (length l1)) item False (skip_ws l1))"
      using l1 length_skip_ws [of l1] by (auto intro: within_mono)
    then show "within deep left_of (length l) (andthen (parse_items (Suc (length l1)) item False (skip_ws l1))
        (\<lambda>(xs, l2). andthen (expect '']'' l2) (\<lambda>l3. Inr (xs, l3))))"
      by (rule within_andthen) (auto intro!: within_andthen [OF within_expect] simp del: expect.simps)
  qed
  then show ?thesis using assms(2) by (rule within_mono)
qed

end

lemma read_store_path_error: "case read_store_path sd s of Inl e \<Rightarrow> e = ValueError | Inr _ \<Rightarrow> True"
  by (simp add: read_store_path_def)

lemmas within_steps =
  within_andthen [OF within_expect [OF order_refl]]
  within_andthen [OF within_parse_string [OF order_refl]]
  within_andthen [OF within_comma [OF order_refl]]
  within_andthen [OF within_converted [OF read_store_path_error order_refl]]
  within_split

interpretation name_items: item_reader deep "parse_converted Inr" N for deep N
  by unfold_locales (rule within_converted, simp_all)

interpretation path_items: item_reader deep "parse_converted (read_store_path sd)" N for deep sd N
  by unfold_locales (rule within_converted [OF read_store_path_error order_refl])

lemma within_names [within_intros]: "length l \<le> k \<Longrightarrow> within deep left_of k (parse_string_list Inr l)"
  unfolding parse_string_list_def by (rule name_items.bracketed_within [of l "length l"]) auto

lemma within_paths [within_intros]: "length l \<le> k \<Longrightarrow> within deep left_of k (parse_string_list (read_store_path sd) l)"
  unfolding parse_string_list_def by (rule path_items.bracketed_within [of l "length l"]) auto

interpretation output_items: item_reader deep parse_output N for deep N
  by unfold_locales (unfold parse_output_def, intro within_steps, auto)

interpretation entry_items: item_reader deep parse_env_entry N for deep N
  by unfold_locales (unfold parse_env_entry_def, intro within_steps, auto)

interpretation simple_items: item_reader deep "parse_input_simple sd" N for deep sd N
  by unfold_locales
     (unfold parse_input_simple_def, intro within_steps within_andthen [OF within_names [OF order_refl]], auto)

lemma within_child_map: "deep \<or> length l < n \<Longrightarrow> within deep left_of (length l) (parse_child_map_node n l)"
proof (induction n arbitrary: l)
  case (Suc m)
  have child_value: "within deep left_of (length l) (parse_child_value (\<lambda>l. parse_child_map_node m l) l)"
    if "deep \<or> length l < m" for l
    unfolding parse_child_value_def using Suc.IH [OF that]
    by (auto intro!: within_peek within_andthen [OF within_names [OF order_refl]])
  have child: "item_reader deep (parse_child (\<lambda>l. parse_child_map_node m l)) N" if "deep \<or> N \<le> m" for N
  proof
    fix l :: string assume "length l \<le> N"
    then have l: "deep \<or> length l \<le> m" using that by auto
    show "within deep left_of (length l) (parse_child (\<lambda>l. parse_child_map_node m l) l)"
      unfolding parse_child_def using l
      by (intro within_steps within_andthen [OF child_value]) auto
  qed
  have bracket: "within deep left_of (length l3) (parse_bracketed (parse_child (\<lambda>l. parse_child_map_node m l)) l3)"
    if "deep \<or> length l3 \<le> m" for l3
    by (rule item_reader.bracketed_within [OF child [OF that]]) auto
  show ?case
  proof (cases l)
    case (Cons c l1)
    have names: "within deep left_of (length l) (parse_string_list Inr (skip_ws l1))"
      using Cons length_skip_ws [of l1] by (intro within_names) simp
    show ?thesis
      using Cons Suc.prems unfolding parse_child_map_node.simps Cons advance_Cons andthen_simps case_prod_conv
      by (intro within_andthen [OF names [unfolded Cons]] within_steps within_andthen [OF bracket]) auto
  qed (simp add: advance_def)
qed simp

lemma within_input_value: "deep \<or> length l < lim \<Longrightarrow> within deep left_of (length l) (parse_input_value lim l)"
  unfolding parse_input_value_def
  by (rule within_peek)
     (auto intro!: within_andthen [OF within_names [OF order_refl]] within_andthen [OF within_child_map]
       simp del: parse_child_map_node.simps)

lemma dynamic_items:
  assumes "deep \<or> N < lim"
  shows "item_reader deep (parse_input_dynamic lim sd) N"
proof
  fix l :: string assume l: "length l \<le> N"
  have "within deep left_of (length l3) (parse_input_value lim (skip_ws l3))" if "deep \<or> length l3 < lim" for l3
    by (rule within_mono [OF within_input_value length_skip_ws]) (use that length_skip_ws [of l3] in auto)
  note value_within = within_andthen [OF this]
  show "within deep left_of (length l) (parse_input_dynamic lim sd l)"
    unfolding parse_input_dynamic_def using assms l by (intro within_steps value_within) auto
qed

lemma within_rest: "within deep (\<lambda>_. 0) 1 (parse_rest sd l)"
  unfolding parse_rest_def parse_env_def
  by (intro within_steps within_andthen [OF within_names [OF order_refl]] within_andthen [OF within_paths [OF order_refl]]
      within_andthen [OF within_andthen [OF entry_items.bracketed_within [OF le_SucI [OF order_refl] order_refl]], of _ _ "\<lambda>_. 0" 1]) auto

lemma within_expects: "within deep length (Suc (length l)) (expect s l)"
proof (induction s arbitrary: l)
  case (Cons c s)
  show ?case
  proof (cases l)
    case (Cons x l')
    then show ?thesis using within_mono [OF Cons.IH, of l' "Suc (length l)"] by simp
  qed (simp add: advance_def)
qed simp

lemma within_outputs: "within deep left_of (length l) (parse_outputs l)"
  unfolding parse_outputs_def by (rule output_items.bracketed_within [OF le_SucI [OF order_refl] order_refl])

lemma within_simple: "within deep left_of (length l) (parse_input_drvs_simple sd l)"
  unfolding parse_input_drvs_simple_def
  by (rule within_andthen [OF simple_items.bracketed_within [OF le_SucI [OF order_refl] order_refl]]) auto

lemma within_dynamic: "deep \<or> length l < lim \<Longrightarrow> within deep left_of (length l) (parse_input_drvs_dynamic lim sd l)"
  unfolding parse_input_drvs_dynamic_def
  by (rule within_andthen [OF item_reader.bracketed_within [OF dynamic_items le_SucI [OF order_refl] order_refl]]) auto

lemmas within_parts = within_steps within_andthen [OF within_expects] within_andthen [OF within_outputs]
  within_andthen [OF within_simple] within_andthen [OF within_dynamic] within_andthen [OF within_rest]

lemma drv_within: "deep \<or> length content < lim \<Longrightarrow> within deep (\<lambda>_. 0) 1 (parse_drv_at lim sd content)"
proof -
  assume room: "deep \<or> length content < lim"
  have "within deep (\<lambda>_. 0) 1 (parse_traditional_derivation sd l)" for l
    unfolding parse_traditional_derivation_def by (intro within_parts) auto
  moreover have "within deep (\<lambda>_. 0) 1 (parse_dynamic_derivation lim sd l)" if "length l \<le> length content" for l
    unfolding parse_dynamic_derivation_def using room that
    apply (intro within_parts)
     apply (auto intro!: within_parts)
    subgoal for x using length_skip_ws [of x] by linarith
    done
  ultimately show ?thesis
    using length_skip_ws [of content] by (simp add: parse_drv_at_def parse_derivation_def Let_def)
qed

section \<open>The recursion limit\<close>

text \<open>A result that a higher limit does not change: it is a \<open>RecursionError\<close> or stays.\<close>

definition settles_to :: "error + 'a \<Rightarrow> error + 'a \<Rightarrow> bool" where
  "settles_to r r' \<longleftrightarrow> r = Inl RecursionError \<or> r = r'"

lemma settles_refl [simp]: "settles_to r r"
  by (simp add: settles_to_def)

lemma settles_andthen:
  assumes "settles_to r r'" and "\<And>x. settles_to (h x) (h' x)"
  shows "settles_to (andthen r h) (andthen r' h')"
proof (cases r)
  case (Inl e)
  then show ?thesis using assms(1) by (auto simp: settles_to_def)
next
  case (Inr x)
  then have "r' = Inr x" using assms(1) by (simp add: settles_to_def)
  then show ?thesis using Inr assms(2) by simp
qed

lemma settles_case: "(\<And>a b. settles_to (h a b) (h' a b)) \<Longrightarrow> settles_to (case p of (a, b) \<Rightarrow> h a b) (case p of (a, b) \<Rightarrow> h' a b)"
  by (cases p) simp

lemma settles_if: "settles_to a a' \<Longrightarrow> settles_to b b' \<Longrightarrow> settles_to (if c then a else b) (if c then a' else b')"
  by simp

lemmas settles_intros = settles_andthen settles_case settles_if settles_refl

lemma settles_bracketed:
  assumes "\<And>l. settles_to (item l) (item' l)"
  shows "settles_to (parse_bracketed item l) (parse_bracketed item' l)"
proof -
  have "settles_to (parse_items n item started l) (parse_items n item' started l)" for n started l
    by (induction n arbitrary: started l) (unfold parse_items.simps, intro settles_intros assms, (assumption | intro settles_intros assms)+)
  then show ?thesis unfolding parse_bracketed_def by (intro settles_intros)
qed

lemma settles_child_map: "n \<le> m \<Longrightarrow> settles_to (parse_child_map_node n l) (parse_child_map_node m l)"
proof (induction n arbitrary: m l)
  case (Suc n)
  obtain m' where m: "m = Suc m'" "n \<le> m'" using Suc.prems by (cases m) auto
  show ?case
    unfolding m(1) parse_child_map_node.simps parse_child_def parse_child_value_def
    by (intro settles_intros settles_bracketed Suc.IH [OF m(2)])
qed (simp add: settles_to_def)

lemma settles_drv: "lim \<le> lim' \<Longrightarrow> settles_to (parse_drv_at lim sd content) (parse_drv_at lim' sd content)"
  unfolding parse_drv_at_def parse_derivation_def Let_def parse_dynamic_derivation_def parse_input_drvs_dynamic_def
    parse_input_dynamic_def parse_input_value_def
  by (intro settles_intros settles_bracketed settles_child_map)

text \<open>
  C39. \<open>parse_drv\<close> ends on every text, whatever room the interpreter's stack has: with a derivation, with
  \<open>ValueError\<close>, or with \<open>RecursionError\<close>, which only a text longer than the number of nested nodes that
  the stack has room for can raise; and unless it raises that, what it returns or raises does not depend on the
  room. No loop of the parser runs out of the fuel that the length of the text gives it.\<close>

theorem parse_drv_ends:
  "(case parse_drv_at lim sd content of
      Inl e \<Rightarrow> e = ValueError \<or> e = RecursionError \<and> lim \<le> length content
    | Inr _ \<Rightarrow> True) \<and>
   (parse_drv_at lim sd content = Inl RecursionError \<or> parse_drv_at lim sd content = parse_drv sd content)"
proof -
  let ?r = "parse_drv_at lim sd content"
  have all: "within True (\<lambda>_. 0) 1 ?r" and few: "length content < lim \<Longrightarrow> within False (\<lambda>_. 0) 1 ?r"
    using drv_within [of True content lim sd] drv_within [of False content lim sd] by simp_all
  have "within False (\<lambda>_. 0) 1 (parse_drv sd content)" unfolding parse_drv_def by (rule drv_within) simp
  then have "parse_drv sd content \<noteq> Inl RecursionError" by auto
  then have "?r = Inl RecursionError \<or> ?r = parse_drv sd content"
    using settles_drv [of lim "Suc (length content)" sd content] settles_drv [of "Suc (length content)" lim sd content]
    unfolding parse_drv_def settles_to_def by (cases "lim \<le> Suc (length content)") auto
  moreover have "case ?r of Inl e \<Rightarrow> e = ValueError \<or> e = RecursionError \<and> lim \<le> length content | Inr _ \<Rightarrow> True"
    using all few by (cases ?r) (auto simp: not_le [symmetric])
  ultimately show ?thesis by blast
qed

section \<open>Hashes modulo the outputs\<close>

text \<open>Two derivations that differ only in where their outputs go.\<close>

definition same_but_outputs :: "derivation \<Rightarrow> derivation \<Rightarrow> bool" where
  "same_but_outputs d e \<longleftrightarrow>
     map (\<lambda>x. x\<lparr>do_path := []\<rparr>) (outputs d) = map (\<lambda>x. x\<lparr>do_path := []\<rparr>) (outputs e) \<and>
     input_drvs d = input_drvs e \<and> input_srcs d = input_srcs e \<and> platform d = platform e \<and>
     builder d = builder e \<and> args d = args e \<and> dynamic_input_drvs d = dynamic_input_drvs e \<and>
     map fst (env d) = map fst (env e) \<and>
     (\<forall>k. k \<notin> do_output_name ` set (outputs d) \<longrightarrow> map_of (env d) k = map_of (env e) k)"

lemma sort_key_fst_keys:
  "map fst xs = map fst ys \<Longrightarrow> distinct (map fst xs) \<Longrightarrow> map fst (sort_key fst xs) = map fst (sort_key fst ys)"
  by (metis sort_key_map [of "\<lambda>x. x" fst])

lemma masked_env_same:
  assumes "map fst xs = map fst ys" "distinct (map fst xs)"
    and "\<forall>k. k \<notin> N \<longrightarrow> map_of xs k = map_of ys k"
  shows "map (unparse_env True N) (sort_key fst xs) = map (unparse_env True N) (sort_key fst ys)"
proof -
  let ?g = "\<lambda>m k. unparse_env True N (k, if k \<in> N then [] else the (m k))"
  have look: "map (unparse_env True N) (sort_key fst zs) = map (?g (map_of zs)) (map fst (sort_key fst zs))"
    if "distinct (map fst zs)" for zs :: "(string \<times> string) list"
    using that by (auto simp: unparse_env_def)
  have "?g (map_of xs) k = ?g (map_of ys) k" for k using assms(3) by auto
  then show ?thesis
    using look [OF assms(2)] look [of ys] assms(1,2) sort_key_fst_keys [OF assms(1,2)] by simp
qed

lemma masked_unparse_same:
  assumes "same_but_outputs d e" and "distinct (map fst (env d))"
  shows "unparse sd d True ins = unparse sd e True ins"
proof -
  let ?strip = "\<lambda>x :: drv_output. x\<lparr>do_path := []\<rparr>"
  have names: "do_output_name ` set (outputs d) = do_output_name ` set (outputs e)"
  proof -
    have "map do_output_name (map ?strip (outputs d)) = map do_output_name (map ?strip (outputs e))"
      using assms(1) by (simp only: same_but_outputs_def)
    then show ?thesis by (metis (no_types, lifting) comp_apply drv_output.select_convs(3) drv_output.surjective
        drv_output.update_convs(4) list.map_comp list.map_cong list.set_map)
  qed
  have outs: "map (unparse_output True) (sort_key do_output_name xs) =
      map (unparse_output True) (sort_key do_output_name (map ?strip xs))" for xs
    by (simp add: sort_key_map unparse_output_def)
  have "map (unparse_output True) (sort_key do_output_name (outputs d)) =
      map (unparse_output True) (sort_key do_output_name (outputs e))"
    unfolding outs [of "outputs d"] outs [of "outputs e"] using assms(1) by (simp only: same_but_outputs_def)
  moreover have "own_inputs sd d = own_inputs sd e"
    using assms(1) by (simp add: same_but_outputs_def own_inputs_def own_input_node_def)
  moreover have "map (unparse_env True N) (sort_key fst (env d)) = map (unparse_env True N) (sort_key fst (env e))"
    if "N = do_output_name ` set (outputs d)" for N
    using masked_env_same [of "env d" "env e" N] assms that by (simp add: same_but_outputs_def)
  ultimately show ?thesis
    using assms(1) names by (cases ins) (simp_all add: unparse_def same_but_outputs_def has_dynamic_drv_dep_def)
qed

lemma foldl_dict_names:
  "map do_output_name xs = map do_output_name ys \<Longrightarrow>
    foldl (\<lambda>r x. dict_set (do_output_name x) h r) acc xs = foldl (\<lambda>r x. dict_set (do_output_name x) h r) acc ys"
proof (induction xs arbitrary: ys acc)
  case (Cons x xs)
  then obtain y zs where "ys = y # zs" by (cases ys) auto
  with Cons show ?case by simp
qed simp

lemma output_kind_fixed: "output_kind p m h = CA_FIXED \<longleftrightarrow> m \<noteq> [] \<and> h \<noteq> [] \<and> h \<noteq> ''impure''"
  by (simp add: output_kind_def)

lemma same_outputs_fields:
  assumes "same_but_outputs d e"
  shows "map (\<lambda>x. (do_output_name x, do_hash_algo x, do_hash_value x)) (outputs d) =
    map (\<lambda>x. (do_output_name x, do_hash_algo x, do_hash_value x)) (outputs e)"
proof -
  let ?f = "\<lambda>x. (do_output_name x, do_hash_algo x, do_hash_value x)"
  have "map ?f (map (\<lambda>x. x\<lparr>do_path := []\<rparr>) (outputs d)) = map ?f (map (\<lambda>x. x\<lparr>do_path := []\<rparr>) (outputs e))"
    using assms by (simp only: same_but_outputs_def)
  then show ?thesis by (simp add: comp_def)
qed

lemma same_fixed: "same_but_outputs d e \<Longrightarrow> is_fixed_output d = is_fixed_output e"
proof -
  let ?P = "\<lambda>(n, m, h). m \<noteq> [] \<and> h \<noteq> [] \<and> h \<noteq> ''impure''"
  have *: "is_fixed_output x = list_all ?P (map (\<lambda>x. (do_output_name x, do_hash_algo x, do_hash_value x)) (outputs x))" for x
    by (simp add: is_fixed_output_def output_kinds_def list_all_iff output_kind_fixed)
  show "same_but_outputs d e \<Longrightarrow> is_fixed_output d = is_fixed_output e"
    unfolding * by (simp only: same_outputs_fields)
qed

text \<open>
  C15. The hash modulo of a derivation that is not fixed-output does not depend on where its outputs
  go: with masking, neither the output paths nor the environment variables named after an output
  reach the hash, so it can be computed before the paths are known.\<close>

theorem hash_modulo_ignores_output_paths:
  assumes "same_but_outputs d e" and "distinct (map fst (env d))" and "\<not> is_fixed_output d"
  shows "hash_derivation_modulo sd d True hashes = hash_derivation_modulo sd e True hashes"
proof -
  have "map do_output_name (outputs d) = map do_output_name (outputs e)"
    using arg_cong [OF same_outputs_fields [OF assms(1)], of "map fst"] by (simp add: comp_def)
  from foldl_dict_names [OF this] show ?thesis
    using assms same_fixed [OF assms(1)] masked_unparse_same [OF assms(1,2)]
    by (simp add: hash_derivation_modulo_def Let_def)
qed

theorem hash_modulo_ignores_output_paths_witness:
  "hash_derivation_modulo ''/s'' sample_drv True None =
   hash_derivation_modulo ''/s''
     (sample_drv\<lparr>outputs := [\<lparr>do_hash_algo = [], do_hash_value = [], do_output_name = ''out'', do_path = []\<rparr>]\<rparr>) True None"
  by (rule hash_modulo_ignores_output_paths)
     (simp_all add: same_but_outputs_def sample_drv_def is_fixed_output_def output_kinds_def output_kind_def)

text \<open>
  The hash modulo of a fixed-output derivation depends on nothing but its outputs: not on its
  inputs, its builder or its environment.\<close>

theorem hash_modulo_of_fixed_output:
  assumes "is_fixed_output d" and "outputs e = outputs d"
  shows "hash_derivation_modulo sd d b hashes = hash_derivation_modulo sd' e b' hashes'"
  using assms by (simp add: hash_derivation_modulo_def is_fixed_output_def output_kinds_def)

theorem hash_modulo_of_fixed_output_witness:
  "hash_derivation_modulo ''/s'' (sample_drv\<lparr>outputs := [\<lparr>do_hash_algo = ''sha256'', do_hash_value = ''00'', do_output_name = ''out'', do_path = ''/s/o''\<rparr>]\<rparr>) True None =
   hash_derivation_modulo ''/s'' (sample_drv\<lparr>outputs := [\<lparr>do_hash_algo = ''sha256'', do_hash_value = ''00'', do_output_name = ''out'', do_path = ''/s/o''\<rparr>],
     builder := ''/bin/other'', input_srcs := []\<rparr>) True None"
  by (rule hash_modulo_of_fixed_output) (simp_all add: is_fixed_output_def output_kinds_def output_kind_def)

section \<open>The path of a derivation\<close>

text \<open>Where the sources sort behind the inputs, the references are written in the order Nix has.\<close>

lemma join_concat: "join [c] (x # xs) = x @ concat (map (\<lambda>p. c # p) xs)"
  by (induction xs) (auto simp: join_def)

lemma compute_storepath_text:
  assumes "sort (map (print_store_path sd) (map fst (input_drvs d) @ input_srcs d)) =
    sort (map (print_store_path sd) (map fst (input_drvs d))) @ sort (map (print_store_path sd) (input_srcs d))"
  shows "drv_type_str sd d = make_type ''text'' (map (print_store_path sd) (map fst (input_drvs d) @ input_srcs d)) False"
  using assms by (simp add: drv_type_str_def make_type_def join_concat)

text \<open>
  The path that \<open>compute_storepath\<close> gives a derivation is the text-addressed path of its bytes,
  as \<open>content_addressed_path\<close> computes it, where every source sorts behind every input derivation
  and no input is dynamic.\<close>

theorem compute_storepath_is_text_path:
  assumes "sort (map (print_store_path sd) (map fst (input_drvs d) @ input_srcs d)) =
      sort (map (print_store_path sd) (map fst (input_drvs d))) @ sort (map (print_store_path sd) (input_srcs d))"
    and "distinct (map fst (input_drvs d) @ input_srcs d)"
  shows "compute_storepath sd d sd = content_addressed_path
      \<lparr>ca_method = TEXT, ca_algo = ''sha256'', ca_digest = sha256 (encode (serialize sd d))\<rparr>
      ((case map_of (env d) ''name'' of None \<Rightarrow> ''unknown'' | Some n \<Rightarrow> n) @ ''.drv'')
      (map (print_store_path sd) (map fst (input_drvs d) @ input_srcs d)) sd False"
proof -
  have "distinct (map (print_store_path sd) (map fst (input_drvs d) @ input_srcs d))"
    unfolding distinct_map using assms(2) inj_print_store_path by (auto intro: inj_on_subset)
  from distinct_remdups_id [OF this] show ?thesis
    unfolding content_addressed_path_def
    by (simp only: Let_def content_address.select_convs if_True if_False simp_thms compute_storepath_text [OF assms(1), symmetric])
       (simp add: compute_storepath_def drv_make_store_path_def make_store_path_def serialize_def sha256_hex_def Let_def)
qed

theorem compute_storepath_is_text_path_witness:
  "compute_storepath ''/s'' sample_drv ''/s'' = content_addressed_path
      \<lparr>ca_method = TEXT, ca_algo = ''sha256'', ca_digest = sha256 (encode (serialize ''/s'' sample_drv))\<rparr>
      ''n.drv'' [''/s/b.drv'', ''/s/a.drv'', ''/s/z'', ''/s/y''] ''/s'' False"
  using compute_storepath_is_text_path [of "''/s''" sample_drv]
  by (simp add: sample_drv_def print_store_path_def)

text \<open>
  Elsewhere the references are not in the order of the set: a source that sorts before an input
  derivation is still written behind it, so the text that is hashed is not the one that names the
  derivation's path, and a dynamic input is not written at all.\<close>

theorem compute_storepath_misorders:
  "drv_type_str ''/nix/store'' (sample_drv\<lparr>input_drvs := [(''b.drv'', [''out''])], input_srcs := [''a'']\<rparr>)
     = ''text:/nix/store/b.drv:/nix/store/a'' \<and>
   make_type ''text'' [''/nix/store/a'', ''/nix/store/b.drv''] False = ''text:/nix/store/a:/nix/store/b.drv''"
  by (simp add: drv_type_str_def make_type_def print_store_path_def)

text \<open>
  A dynamic input whose child is a leaf is not written as it was read: Nix writes the outputs of
  a leaf as a plain list, the parser reads that, and \<open>unparse\<close> writes a node with an empty list of
  children instead, so a derivation that Nix wrote changes its bytes, and with them its path.\<close>

theorem leaf_child_rewritten:
  "parse_child_map_node 2
     (''('' @ print_unquoted_strings [] @ '','' @
      bracketed [''('' @ print_unquoted_string ''o'' @ '','' @ print_unquoted_strings [''x''] @ '')''] @ '')'')
     = Inr (ChildMapNode [] [(''o'', ChildMapNode [''x''] [])], []) \<and>
   unparse_derived_path_node (child_map_to_drv_node [] (ChildMapNode [] [(''o'', ChildMapNode [''x''] [])])) =
      '',('' @ print_unquoted_strings [] @ '','' @
      bracketed [''('' @ print_unquoted_string ''o'' @ '',('' @ print_unquoted_strings [''x''] @ '',[])'' @ '')''] @ '')''"
proof
  have names: "list_all unquoted [''x'']" "unquoted ''o''" by (simp_all add: unquoted_def)
  have peeks: "peek (print_unquoted_strings xs @ t) = Inr (CHR ''['')" for xs t
    by (simp add: print_unquoted_strings_def bracketed_def)
  show "parse_child_map_node 2
     (''('' @ print_unquoted_strings [] @ '','' @
      bracketed [''('' @ print_unquoted_string ''o'' @ '','' @ print_unquoted_strings [''x''] @ '')''] @ '')'')
     = Inr (ChildMapNode [] [(''o'', ChildMapNode [''x''] [])], [])"
    using parse_names [OF names(1)] parse_names [of "[]"] names(2)
    by (simp add: numeral_2_eq_2 parse_bracketed_def bracketed_def parse_items.simps parse_child_def
        parse_child_value_def peeks dict_of_def)
qed (simp add: unparse_node_text bracketed_def)

end
