(* ===== verification/Drv_Hash.thy ===== *)
theory Drv_Hash
  imports Drv_Parser
begin

text \<open>
  The hash modulo over the closure of a derivation (\<open>pynixd_store/drv_hash.py\<close>). The dictionary that
  keeps the answers is the state of the walk. The reader of a derivation is an argument of the code
  and of the model; the walk has fuel for the depth of the closure.
\<close>

section \<open>The walk\<close>

type_synonym output_hash = "(string \<times> string) list"
type_synonym hash_cache = "(string \<times> output_hash) list"
type_synonym drv_reader = "string \<Rightarrow> derivation option"

definition CACHE_LIMIT :: nat where
  "CACHE_LIMIT = 20000"

definition remember :: "hash_cache \<Rightarrow> string \<Rightarrow> output_hash \<Rightarrow> hash_cache" where
  "remember cache drv_path hashes =
     dict_set drv_path hashes
       (if length cache \<ge> CACHE_LIMIT then drop (CACHE_LIMIT div 4) cache else cache)"

definition drv_wanted :: "string \<Rightarrow> derivation \<Rightarrow> (string \<times> string list) list" where
  "drv_wanted sd parsed =
     map (\<lambda>e. (print_store_path sd (fst e), snd e)) (input_drvs parsed) @
     map (\<lambda>e. (print_store_path sd (fst e), cm_outputs (snd e))) (dynamic_input_drvs parsed)"

fun add_digests :: "output_hash \<Rightarrow> string list \<Rightarrow> (string \<times> string list) list \<Rightarrow> (string \<times> string list) list option" where
  "add_digests hashes [] inputs = Some inputs"
| "add_digests hashes (name # names) inputs = (case map_of hashes name of
       None \<Rightarrow> None
     | Some digest \<Rightarrow>
         let names' = set_add name (case map_of inputs digest of None \<Rightarrow> [] | Some s \<Rightarrow> s)
         in add_digests hashes names (dict_set digest names' inputs))"

fun collect_inputs ::
    "(string \<Rightarrow> (hash_cache, output_hash option) eff) \<Rightarrow> (string \<times> string list) list \<Rightarrow> (string \<times> string list) list
      \<Rightarrow> (hash_cache, (string \<times> string list) list option) eff" where
  "collect_inputs closure [] inputs = ret (Some inputs)"
| "collect_inputs closure ((input_drv, names) # wanted) inputs =
     bind (closure input_drv) (\<lambda>hashes. case hashes of
       None \<Rightarrow> ret None
     | Some hs \<Rightarrow> (case add_digests hs names inputs of
         None \<Rightarrow> ret None
       | Some inputs' \<Rightarrow> collect_inputs closure wanted inputs'))"

definition input_hashes ::
    "(string \<Rightarrow> (hash_cache, output_hash option) eff) \<Rightarrow> string \<Rightarrow> derivation
      \<Rightarrow> (hash_cache, (string \<times> string list) list option) eff" where
  "input_hashes closure sd parsed =
     bind (collect_inputs closure (drv_wanted sd parsed) [])
       (\<lambda>r. ret (map_option (map (\<lambda>e. (fst e, sort (snd e)))) r))"

fun closure_hashes :: "nat \<Rightarrow> string \<Rightarrow> drv_reader \<Rightarrow> string \<Rightarrow> (hash_cache, output_hash option) eff" where
  "closure_hashes 0 sd read drv_path = raise OutOfFuel"
| "closure_hashes (Suc n) sd read drv_path = (\<lambda>cache. case map_of cache drv_path of
       Some cached \<Rightarrow> (Inr (Some cached), cache)
     | None \<Rightarrow> (case read drv_path of
         None \<Rightarrow> (Inr None, cache)
       | Some parsed \<Rightarrow>
           bind (input_hashes (closure_hashes n sd read) sd parsed) (\<lambda>r c. case r of
             None \<Rightarrow> (Inr None, c)
           | Some inputs \<Rightarrow>
               let hashes = hash_derivation_modulo sd parsed False (Some inputs)
               in (Inr (Some hashes), remember c drv_path hashes)) cache))"

definition output_hashes :: "nat \<Rightarrow> string \<Rightarrow> drv_reader \<Rightarrow> derivation \<Rightarrow> (hash_cache, output_hash option) eff" where
  "output_hashes n sd read parsed =
     bind (input_hashes (closure_hashes n sd read) sd parsed) (\<lambda>inputs. case inputs of
       None \<Rightarrow> ret None
     | Some is \<Rightarrow> ret (Some (hash_derivation_modulo sd parsed True (Some is))))"

definition output_path_name :: "string \<Rightarrow> string \<Rightarrow> string" where
  "output_path_name drv_name output_name =
     (if output_name = ''out'' then drv_name else drv_name @ ''-'' @ output_name)"

definition make_output_path :: "string \<Rightarrow> bytes \<Rightarrow> string \<Rightarrow> string \<Rightarrow> string \<Rightarrow> error + string" where
  "make_output_path output_id hash_modulo drv_name sd current =
     make_store_path (''output:'' @ output_id) ''sha256'' hash_modulo (output_path_name drv_name output_id)
       (if sd \<noteq> [] then sd else current)"

section \<open>The size of the cache\<close>

lemma length_dict_set: "length (dict_set k v d) \<le> Suc (length d)"
  by (induction d) auto

lemma remember_bounded: "length cache \<le> CACHE_LIMIT \<Longrightarrow> length (remember cache p h) \<le> CACHE_LIMIT"
  using length_dict_set [of p h cache] length_dict_set [of p h "drop (CACHE_LIMIT div 4) cache"]
  by (auto simp: remember_def CACHE_LIMIT_def)

text \<open>A property of the cache that a computation keeps.\<close>

definition keeps :: "('s \<Rightarrow> bool) \<Rightarrow> ('s, 'a) eff \<Rightarrow> bool" where
  "keeps P m \<longleftrightarrow> (\<forall>s. P s \<longrightarrow> P (snd (m s)))"

lemma keeps_ret: "keeps P (ret x)"
  by (simp add: keeps_def)

lemma keeps_bind: "keeps P m \<Longrightarrow> (\<And>x. keeps P (f x)) \<Longrightarrow> keeps P (bind m f)"
proof -
  assume m: "keeps P m" and f: "\<And>x. keeps P (f x)"
  have "P (snd (bind m f s))" if "P s" for s
  proof (cases "m s")
    case (Pair r s')
    then have "P s'" using m that by (metis keeps_def snd_conv)
    then show ?thesis using Pair f by (cases r) (auto simp: bind_apply keeps_def)
  qed
  then show "keeps P (bind m f)" by (simp add: keeps_def)
qed

lemma keeps_collect: "(\<And>p. keeps P (closure p)) \<Longrightarrow> keeps P (collect_inputs closure wanted inputs)"
proof (induction closure wanted inputs rule: collect_inputs.induct)
  case (2 closure p names wanted inputs)
  show ?case unfolding collect_inputs.simps
    by (rule keeps_bind) (use 2 in \<open>auto intro: keeps_ret split: option.splits\<close>)
qed (simp add: keeps_ret)

lemma keeps_closure:
  assumes "\<And>c p h. P c \<Longrightarrow> P (remember c p h)"
  shows "keeps P (closure_hashes n sd read p)"
proof (induction n arbitrary: p)
  case 0
  then show ?case by (simp add: keeps_def)
next
  case (Suc n)
  have inner: "keeps P (input_hashes (closure_hashes n sd read) sd parsed)" for parsed
    unfolding input_hashes_def by (intro keeps_bind keeps_collect Suc keeps_ret)
  have "keeps P (bind (input_hashes (closure_hashes n sd read) sd parsed) (\<lambda>r c. case r of
             None \<Rightarrow> (Inr None, c)
           | Some inputs \<Rightarrow>
               let hashes = hash_derivation_modulo sd parsed False (Some inputs)
               in (Inr (Some hashes), remember c p hashes)))" for parsed
    by (rule keeps_bind [OF inner]) (auto simp: keeps_def Let_def assms split: option.splits)
  then show ?case by (auto simp: keeps_def split: option.splits)
qed

lemma keeps_output:
  assumes "\<And>c p h. P c \<Longrightarrow> P (remember c p h)"
  shows "keeps P (output_hashes n sd read parsed)"
  unfolding output_hashes_def input_hashes_def
  by (intro keeps_bind keeps_collect keeps_closure assms keeps_ret) (auto intro: keeps_ret split: option.splits)

text \<open>
  The cache of derivation hashes never holds more than \<open>_CACHE_LIMIT\<close> entries, whatever closure is
  walked and whether the walk finds an answer: the oldest quarter goes before an entry too many
  comes.\<close>

theorem hash_cache_bounded:
  assumes "length cache \<le> CACHE_LIMIT"
  shows "length (snd (output_hashes n sd read parsed cache)) \<le> CACHE_LIMIT"
  using keeps_output [of "\<lambda>c. length c \<le> CACHE_LIMIT" n sd read parsed] remember_bounded assms
  by (auto simp: keeps_def)

theorem hash_cache_bounded_witness:
  "length (snd (output_hashes 3 ''/s'' (\<lambda>_. None) sample_drv [])) \<le> CACHE_LIMIT"
  by (rule hash_cache_bounded) simp

section \<open>The walk without a cache\<close>

fun collect_plain ::
    "(string \<Rightarrow> output_hash option) \<Rightarrow> (string \<times> string list) list \<Rightarrow> (string \<times> string list) list
      \<Rightarrow> (string \<times> string list) list option" where
  "collect_plain closure [] inputs = Some inputs"
| "collect_plain closure ((input_drv, names) # wanted) inputs =
     Option.bind (closure input_drv) (\<lambda>hs.
     Option.bind (add_digests hs names inputs) (\<lambda>inputs'. collect_plain closure wanted inputs'))"

definition plain_inputs :: "(string \<Rightarrow> output_hash option) \<Rightarrow> string \<Rightarrow> derivation \<Rightarrow> (string \<times> string list) list option" where
  "plain_inputs closure sd parsed =
     map_option (map (\<lambda>e. (fst e, sort (snd e)))) (collect_plain closure (drv_wanted sd parsed) [])"

fun plain_closure :: "nat \<Rightarrow> string \<Rightarrow> drv_reader \<Rightarrow> string \<Rightarrow> output_hash option" where
  "plain_closure 0 sd read p = None"
| "plain_closure (Suc n) sd read p =
     Option.bind (read p) (\<lambda>parsed. Option.bind (plain_inputs (plain_closure n sd read) sd parsed)
       (\<lambda>inputs. Some (hash_derivation_modulo sd parsed False (Some inputs))))"

text \<open>The reference: every derivation of the closure hashed anew, with \<open>rank\<close> the depth of each.\<close>

definition plain_hashes :: "(string \<Rightarrow> nat) \<Rightarrow> string \<Rightarrow> drv_reader \<Rightarrow> string \<Rightarrow> output_hash option" where
  "plain_hashes rank sd read p = plain_closure (Suc (rank p)) sd read p"

definition ranked :: "(string \<Rightarrow> nat) \<Rightarrow> string \<Rightarrow> drv_reader \<Rightarrow> bool" where
  "ranked rank sd read \<longleftrightarrow>
     (\<forall>p parsed. read p = Some parsed \<longrightarrow> (\<forall>q\<in>fst ` set (drv_wanted sd parsed). rank q < rank p))"

lemma collect_plain_cong:
  "(\<And>q. q \<in> fst ` set wanted \<Longrightarrow> f q = g q) \<Longrightarrow> collect_plain f wanted inputs = collect_plain g wanted inputs"
proof (induction wanted arbitrary: inputs)
  case (Cons w wanted)
  have "collect_plain f wanted = collect_plain g wanted" using Cons by (intro ext) simp
  moreover have "f (fst w) = g (fst w)" using Cons.prems by simp
  ultimately show ?case by (cases w) simp
qed simp

lemma plain_inputs_cong:
  "(\<And>q. q \<in> fst ` set (drv_wanted sd parsed) \<Longrightarrow> f q = g q) \<Longrightarrow> plain_inputs f sd parsed = plain_inputs g sd parsed"
proof -
  assume "\<And>q. q \<in> fst ` set (drv_wanted sd parsed) \<Longrightarrow> f q = g q"
  then have "collect_plain f (drv_wanted sd parsed) [] = collect_plain g (drv_wanted sd parsed) []"
    by (rule collect_plain_cong)
  then show ?thesis by (simp add: plain_inputs_def)
qed

lemma plain_closure_rank:
  assumes "ranked rank sd read"
  shows "rank p < n \<Longrightarrow> plain_closure n sd read p = plain_hashes rank sd read p"
proof (induction "rank p" arbitrary: p n rule: less_induct)
  case less
  then obtain m where n: "n = Suc m" by (cases n) auto
  have "plain_inputs (plain_closure m sd read) sd parsed = plain_inputs (plain_closure (rank p) sd read) sd parsed"
    if "read p = Some parsed" for parsed
  proof (rule plain_inputs_cong)
    fix q assume "q \<in> fst ` set (drv_wanted sd parsed)"
    then have "rank q < rank p" using assms that by (auto simp: ranked_def)
    with less n show "plain_closure m sd read q = plain_closure (rank p) sd read q" by simp
  qed
  then show ?case unfolding plain_hashes_def n by (cases "read p") simp_all
qed

definition cache_true :: "(string \<Rightarrow> nat) \<Rightarrow> string \<Rightarrow> drv_reader \<Rightarrow> hash_cache \<Rightarrow> bool" where
  "cache_true rank sd read cache \<longleftrightarrow> (\<forall>(p, h)\<in>set cache. plain_hashes rank sd read p = Some h)"

lemma set_dict_set: "set (dict_set k v d) \<subseteq> insert (k, v) (set d)"
  by (induction d) (auto split: if_split_asm)

lemma cache_true_remember:
  "cache_true rank sd read c \<Longrightarrow> plain_hashes rank sd read p = Some h \<Longrightarrow> cache_true rank sd read (remember c p h)"
  using set_dict_set [of p h c] set_dict_set [of p h "drop (CACHE_LIMIT div 4) c"] set_drop_subset [of "CACHE_LIMIT div 4" c]
  by (fastforce simp: cache_true_def remember_def)

definition agrees :: "('c \<Rightarrow> bool) \<Rightarrow> 'q set \<Rightarrow> ('q \<Rightarrow> ('c, 'a) eff) \<Rightarrow> ('q \<Rightarrow> 'a) \<Rightarrow> bool" where
  "agrees I Q closure plain \<longleftrightarrow>
     (\<forall>q\<in>Q. \<forall>c. I c \<longrightarrow> fst (closure q c) = Inr (plain q) \<and> I (snd (closure q c)))"

lemma collect_agrees:
  assumes "agrees I (fst ` set wanted) closure plain" and "I c"
  shows "fst (collect_inputs closure wanted inputs c) = Inr (collect_plain plain wanted inputs) \<and>
    I (snd (collect_inputs closure wanted inputs c))"
  using assms
proof (induction wanted arbitrary: inputs c)
  case (Cons w wanted)
  obtain p names where w: "w = (p, names)" by (cases w)
  obtain c' where c': "closure p c = (Inr (plain p), c')" "I c'"
    using Cons.prems w by (cases "closure p c") (auto simp: agrees_def)
  show ?case
  proof (cases "plain p")
    case (Some hs)
    show ?thesis
    proof (cases "add_digests hs names inputs")
      case (Some inputs')
      have "fst (collect_inputs closure wanted inputs' c') = Inr (collect_plain plain wanted inputs') \<and>
          I (snd (collect_inputs closure wanted inputs' c'))"
        by (rule Cons.IH) (use Cons.prems c' in \<open>auto simp: agrees_def\<close>)
      then show ?thesis using w c' \<open>plain p = Some hs\<close> Some by (simp add: bind_apply)
    qed (use w c' Some in \<open>simp add: bind_apply\<close>)
  qed (use w c' in \<open>simp add: bind_apply\<close>)
qed simp

lemma input_agrees:
  assumes "agrees I (fst ` set (drv_wanted sd parsed)) closure plain" and "I c"
  shows "\<exists>c'. input_hashes closure sd parsed c = (Inr (plain_inputs plain sd parsed), c') \<and> I c'"
  using collect_agrees [OF assms, where inputs = "[]"]
  unfolding input_hashes_def plain_inputs_def
  by (cases "collect_inputs closure (drv_wanted sd parsed) [] c") (auto simp: bind_Inr)

lemma closure_agrees:
  assumes "ranked rank sd read"
  shows "rank p < n \<Longrightarrow> cache_true rank sd read c \<Longrightarrow>
    fst (closure_hashes n sd read p c) = Inr (plain_hashes rank sd read p) \<and>
    cache_true rank sd read (snd (closure_hashes n sd read p c))"
proof (induction n arbitrary: p c)
  case (Suc n)
  show ?case
  proof (cases "map_of c p")
    case (Some h)
    then have "plain_hashes rank sd read p = Some h" using Suc.prems(2) map_of_SomeD [OF Some] by (auto simp: cache_true_def)
    then show ?thesis using Some Suc.prems by simp
  next
    case None
    show ?thesis
    proof (cases "read p")
      case unread: None
      with None Suc.prems show ?thesis by (simp add: plain_hashes_def)
    next
      case (Some parsed)
      let ?I = "cache_true rank sd read" and ?plain = "plain_hashes rank sd read"
      obtain c' where c': "input_hashes (closure_hashes n sd read) sd parsed c = (Inr (plain_inputs ?plain sd parsed), c')" "?I c'"
      proof -
        have "rank q < n" if "q \<in> fst ` set (drv_wanted sd parsed)" for q
        proof -
          have "rank q < rank p" using assms Some that by (auto simp: ranked_def)
          with Suc.prems(1) show ?thesis by simp
        qed
        then have "agrees ?I (fst ` set (drv_wanted sd parsed)) (closure_hashes n sd read) ?plain"
          using Suc.IH unfolding agrees_def by blast
        from input_agrees [OF this Suc.prems(2)] show thesis by (elim exE conjE) (rule that)
      qed
      have "plain_inputs (plain_closure (rank p) sd read) sd parsed = plain_inputs ?plain sd parsed"
        using assms Some by (intro plain_inputs_cong plain_closure_rank [OF assms]) (auto simp: ranked_def)
      then have plain: "?plain p = map_option (\<lambda>inputs. hash_derivation_modulo sd parsed False (Some inputs)) (plain_inputs ?plain sd parsed)"
        using Some by (cases "plain_inputs ?plain sd parsed") (simp_all add: plain_hashes_def)
      show ?thesis
      proof (cases "plain_inputs ?plain sd parsed")
        case none: None
        with plain c' None Some show ?thesis by (simp add: bind_apply)
      next
        case inputs: (Some inputs)
        then have "?plain p = Some (hash_derivation_modulo sd parsed False (Some inputs))" using plain by simp
        from cache_true_remember [OF c'(2) this] this inputs c' None Some show ?thesis
          by (simp add: bind_apply Let_def)
      qed
    qed
  qed
qed simp

text \<open>
  C16. The cache changes no answer: over a closure without cycles, from a cache that holds true
  hashes only, \<open>output_hashes\<close> answers what hashing every derivation anew answers, on every path
  that finds no answer too, and it leaves a cache of true hashes.\<close>

theorem output_hashes_uncached:
  assumes "ranked rank sd read" and "cache_true rank sd read cache"
    and "\<forall>q\<in>fst ` set (drv_wanted sd parsed). rank q < n"
  shows "\<exists>cache'. output_hashes n sd read parsed cache =
      (Inr (map_option (\<lambda>inputs. hash_derivation_modulo sd parsed True (Some inputs))
        (plain_inputs (plain_hashes rank sd read) sd parsed)), cache') \<and>
    cache_true rank sd read cache'"
proof -
  have "agrees (cache_true rank sd read) (fst ` set (drv_wanted sd parsed)) (closure_hashes n sd read) (plain_hashes rank sd read)"
    using closure_agrees [OF assms(1)] assms(3) by (auto simp: agrees_def)
  from input_agrees [OF this assms(2)] obtain c' where
    c': "input_hashes (closure_hashes n sd read) sd parsed cache = (Inr (plain_inputs (plain_hashes rank sd read) sd parsed), c')"
      "cache_true rank sd read c'" by blast
  then show ?thesis
    by (cases "plain_inputs (plain_hashes rank sd read) sd parsed") (simp_all add: output_hashes_def bind_apply)
qed

definition leaf_drv :: derivation where
  "leaf_drv = sample_drv\<lparr>input_drvs := [], dynamic_input_drvs := []\<rparr>"

theorem output_hashes_uncached_witness:
  "\<exists>cache'. output_hashes 1 ''/s'' (\<lambda>_. Some leaf_drv)
      (leaf_drv\<lparr>input_drvs := [(''a.drv'', [''out''])]\<rparr>) [] =
    (Inr (Some (hash_derivation_modulo ''/s'' (leaf_drv\<lparr>input_drvs := [(''a.drv'', [''out''])]\<rparr>) True
      (Some [(sha256_hex (unparse ''/s'' leaf_drv False (Some [])), [''out''])]))), cache')"
proof -
  let ?d = "leaf_drv\<lparr>input_drvs := [(''a.drv'', [''out''])]\<rparr>" and ?read = "\<lambda>_ :: string. Some leaf_drv"
  have want: "drv_wanted ''/s'' leaf_drv = []" by (simp add: drv_wanted_def leaf_drv_def)
  have "ranked (\<lambda>_. 0) ''/s'' ?read" by (simp add: ranked_def want)
  moreover have "cache_true (\<lambda>_. 0) ''/s'' ?read []" by (simp add: cache_true_def)
  moreover have "plain_hashes (\<lambda>_. 0) ''/s'' ?read p = Some [(''out'', sha256_hex (unparse ''/s'' leaf_drv False (Some [])))]" for p
    by (simp add: plain_hashes_def plain_inputs_def want hash_derivation_modulo_def is_fixed_output_def
        output_kinds_def output_kind_def Let_def) (simp add: leaf_drv_def sample_drv_def)
  then have "plain_inputs (plain_hashes (\<lambda>_. 0) ''/s'' ?read) ''/s'' ?d =
      Some [(sha256_hex (unparse ''/s'' leaf_drv False (Some [])), [''out''])]"
    by (simp add: plain_inputs_def drv_wanted_def) (simp add: leaf_drv_def set_add_def)
  ultimately show ?thesis using output_hashes_uncached [of "\<lambda>_. 0" "''/s''" ?read "[]" ?d 1] by auto
qed

end
