(* ===== verification/Wire_Logs.thy ===== *)
theory Wire_Logs
  imports Wire_IO
begin

text \<open>
  The stderr stream of the daemon protocol (\<open>nix_daemon_protocol/logs.py\<close>): the five messages,
  their bytes, the loop that reads them until \<open>STDERR_LAST\<close> or an error, and the container
  \<open>WireLogs\<close> that every response carries. Each message class declares its fields and the codec
  of \<open>wire_message.py\<close> writes and reads them in that order; the definitions here are the result
  of that codec for the five classes, and \<open>Wire_Codec\<close> has the codec itself.
\<close>

section \<open>The messages\<close>

definition STDERR_NEXT :: int where "STDERR_NEXT = 1869376871"
definition STDERR_LAST :: int where "STDERR_LAST = 1634497651"
definition STDERR_ERROR :: int where "STDERR_ERROR = 1668838512"
definition STDERR_START_ACTIVITY :: int where "STDERR_START_ACTIVITY = 1398035028"
definition STDERR_STOP_ACTIVITY :: int where "STDERR_STOP_ACTIVITY = 1398034256"
definition STDERR_RESULT :: int where "STDERR_RESULT = 1381190740"

lemmas stderr_codes =
  STDERR_NEXT_def STDERR_LAST_def STDERR_ERROR_def STDERR_START_ACTIVITY_def
  STDERR_STOP_ACTIVITY_def STDERR_RESULT_def

record TraceLine =
  tl_pos :: int
  tl_hint :: string

datatype FieldType = FIELD_INT | FIELD_STRING

record ActivityField =
  af_type :: FieldType
  af_valint :: "int option"
  af_valstr :: "string option"

datatype LogMessage =
    LogNext string
  | LogStartActivity (act_id: int) (act_level: int) (act_type: int) (act_text: string)
      (act_fields: "ActivityField list") (act_parent: int)
  | LogStopActivity int
  | LogResult int int "ActivityField list"
  | LogError (err_type: string) (err_level: int) (err_name: string) (err_msg: string)
      (err_have_pos: int) (err_traces: "TraceLine list")

section \<open>Writing\<close>

primrec write_items :: "('a \<Rightarrow> (bytes, unit) eff) \<Rightarrow> 'a list \<Rightarrow> (bytes, unit) eff" where
  "write_items w [] = ret ()"
| "write_items w (x # xs) = bind (w x) (\<lambda>_. write_items w xs)"

definition write_list :: "('a \<Rightarrow> (bytes, unit) eff) \<Rightarrow> 'a list \<Rightarrow> (bytes, unit) eff" where
  "write_list w xs = bind (write_uint64 (int (length xs))) (\<lambda>_. write_items w xs)"

definition trace_to_writer :: "TraceLine \<Rightarrow> (bytes, unit) eff" where
  "trace_to_writer t = bind (write_uint64 (tl_pos t)) (\<lambda>_. write_string (tl_hint t))"

text \<open>
  A \<open>valint\<close> that is \<open>None\<close> is refused by \<open>struct\<close>, and \<open>None\<close> has no \<open>encode\<close>.
\<close>

definition field_to_writer :: "ActivityField \<Rightarrow> (bytes, unit) eff" where
  "field_to_writer f =
     (case af_type f of
        FIELD_INT \<Rightarrow>
          bind (write_uint64 0) (\<lambda>_.
          case af_valint f of Some v \<Rightarrow> write_uint64 v | None \<Rightarrow> raise StructError)
      | FIELD_STRING \<Rightarrow>
          bind (write_uint64 1) (\<lambda>_.
          case af_valstr f of Some v \<Rightarrow> write_string v | None \<Rightarrow> raise AttributeError))"

fun log_to_writer :: "LogMessage \<Rightarrow> (bytes, unit) eff" where
  "log_to_writer (LogNext s) = bind (write_uint64 STDERR_NEXT) (\<lambda>_. write_string s)"
| "log_to_writer (LogStartActivity i level ty s fs parent) =
     bind (write_uint64 STDERR_START_ACTIVITY) (\<lambda>_.
     bind (write_uint64 i) (\<lambda>_.
     bind (write_uint64 level) (\<lambda>_.
     bind (write_uint64 ty) (\<lambda>_.
     bind (write_string s) (\<lambda>_.
     bind (write_list field_to_writer fs) (\<lambda>_.
     write_uint64 parent))))))"
| "log_to_writer (LogStopActivity i) =
     bind (write_uint64 STDERR_STOP_ACTIVITY) (\<lambda>_. write_uint64 i)"
| "log_to_writer (LogResult i ty fs) =
     bind (write_uint64 STDERR_RESULT) (\<lambda>_.
     bind (write_uint64 i) (\<lambda>_.
     bind (write_uint64 ty) (\<lambda>_.
     write_list field_to_writer fs)))"
| "log_to_writer (LogError ty level nm msg have_pos traces) =
     bind (write_uint64 STDERR_ERROR) (\<lambda>_.
     bind (write_string ty) (\<lambda>_.
     bind (write_uint64 level) (\<lambda>_.
     bind (write_string nm) (\<lambda>_.
     bind (write_string msg) (\<lambda>_.
     bind (write_uint64 have_pos) (\<lambda>_.
     write_list trace_to_writer traces))))))"

text \<open>\<open>WireLogs.to_writer\<close>.\<close>

definition logs_to_writer :: "LogMessage list \<Rightarrow> (bytes, unit) eff" where
  "logs_to_writer msgs = bind (write_items log_to_writer msgs) (\<lambda>_. write_uint64 STDERR_LAST)"

section \<open>Reading\<close>

primrec read_items :: "nat \<Rightarrow> ('s, 'a) eff \<Rightarrow> ('s, 'a list) eff" where
  "read_items 0 r = ret []"
| "read_items (Suc n) r = bind r (\<lambda>x. bind (read_items n r) (\<lambda>xs. ret (x # xs)))"

definition read_list :: "('m stream, 'a) eff \<Rightarrow> ('m stream, 'a list) eff" where
  "read_list r = bind read_uint64 (\<lambda>n. read_items (nat n) r)"

definition trace_from_reader :: "('m stream, TraceLine) eff" where
  "trace_from_reader =
     bind read_uint64 (\<lambda>p. bind read_string (\<lambda>h. ret \<lparr>tl_pos = p, tl_hint = h\<rparr>))"

text \<open>The number of a field that is no \<open>FieldType\<close> makes the enum's constructor raise.\<close>

definition field_from_reader :: "('m stream, ActivityField) eff" where
  "field_from_reader =
     bind read_uint64 (\<lambda>t.
       if t = 0 then
         bind read_uint64 (\<lambda>v. ret \<lparr>af_type = FIELD_INT, af_valint = Some v, af_valstr = None\<rparr>)
       else if t = 1 then
         bind read_string (\<lambda>v. ret \<lparr>af_type = FIELD_STRING, af_valint = None, af_valstr = Some v\<rparr>)
       else raise ValueError)"

text \<open>The dispatch table \<open>_LOG_PARSERS\<close>.\<close>

definition log_parser :: "int \<Rightarrow> ('m stream, LogMessage) eff option" where
  "log_parser code =
    (if code = STDERR_NEXT then
       Some (bind read_string (\<lambda>s. ret (LogNext s)))
     else if code = STDERR_START_ACTIVITY then
       Some (bind read_uint64 (\<lambda>i. bind read_uint64 (\<lambda>level. bind read_uint64 (\<lambda>ty.
             bind read_string (\<lambda>s. bind (read_list field_from_reader) (\<lambda>fs.
             bind read_uint64 (\<lambda>parent. ret (LogStartActivity i level ty s fs parent))))))))
     else if code = STDERR_STOP_ACTIVITY then
       Some (bind read_uint64 (\<lambda>i. ret (LogStopActivity i)))
     else if code = STDERR_RESULT then
       Some (bind read_uint64 (\<lambda>i. bind read_uint64 (\<lambda>ty.
             bind (read_list field_from_reader) (\<lambda>fs. ret (LogResult i ty fs)))))
     else if code = STDERR_ERROR then
       Some (bind read_string (\<lambda>ty. bind read_uint64 (\<lambda>level. bind read_string (\<lambda>nm.
             bind read_string (\<lambda>msg. bind read_uint64 (\<lambda>have_pos.
             bind (read_list trace_from_reader) (\<lambda>traces.
             ret (LogError ty level nm msg have_pos traces))))))))
     else None)"

text \<open>
  One turn of the generator \<open>read_stream\<close>: the next message, \<open>None\<close> at \<open>STDERR_LAST\<close>. A code
  that is no message is skipped, and the third in a row raises.
\<close>

function next_message :: "nat \<Rightarrow> ('m stream, LogMessage option) eff" where
  "next_message unknown_streak =
     bind read_uint64 (\<lambda>msg_type.
       if msg_type = STDERR_LAST then ret None
       else case log_parser msg_type of
         None \<Rightarrow> if unknown_streak + 1 \<ge> 3 then raise ConnectionError
                 else next_message (unknown_streak + 1)
       | Some parser \<Rightarrow> bind parser (\<lambda>msg. ret (Some msg)))"
  by pat_completeness auto
termination by (relation "measure (\<lambda>k. 3 - k)") auto

declare next_message.simps [simp del]

definition is_log_error :: "LogMessage \<Rightarrow> bool" where
  "is_log_error m = (case m of LogError _ _ _ _ _ _ \<Rightarrow> True | _ \<Rightarrow> False)"

text \<open>
  \<open>async for msg in read_stream(ctx)\<close> with the loop's body, which says whether it breaks. The
  fuel counts messages; each takes at least eight bytes from the stream.
\<close>

primrec read_stream ::
    "nat \<Rightarrow> ('a \<Rightarrow> LogMessage \<Rightarrow> ('m stream, 'a \<times> bool) eff) \<Rightarrow> 'a \<Rightarrow> ('m stream, 'a) eff" where
  "read_stream 0 body acc = raise OutOfFuel"
| "read_stream (Suc n) body acc =
     bind (next_message 0) (\<lambda>m. case m of
       None \<Rightarrow> ret acc
     | Some msg \<Rightarrow> bind (body acc msg) (\<lambda>(acc', stop).
         if stop \<or> is_log_error msg then ret acc' else read_stream n body acc'))"

record ReadContext =
  log_sink :: bool
  buffer_logs :: bool
  raise_on_error :: bool
  error_factory :: "string \<Rightarrow> error"

text \<open>\<open>ctx.log_sink.send(msg)\<close>: the sink keeps what it received.\<close>

definition sink_send :: "'m \<Rightarrow> ('m stream, unit) eff" where
  "sink_send m = (\<lambda>s. (Inr (), s\<lparr>sent := sent s @ [m]\<rparr>))"

definition drain_body ::
    "ReadContext \<Rightarrow> LogMessage option \<Rightarrow> LogMessage \<Rightarrow> ('m stream, LogMessage option \<times> bool) eff" where
  "drain_body ctx last_error msg =
     (if is_log_error msg
      then if raise_on_error ctx then raise (error_factory ctx (err_msg msg))
           else ret (Some msg, False)
      else ret (last_error, False))"

definition drain :: "ReadContext \<Rightarrow> ('m stream, LogMessage option) eff" where
  "drain ctx = (\<lambda>s. read_stream (Suc (length (unread s))) (drain_body ctx) None s)"

definition logs_body ::
    "ReadContext \<Rightarrow> LogMessage list \<times> error option \<Rightarrow> LogMessage \<Rightarrow>
       (LogMessage stream, (LogMessage list \<times> error option) \<times> bool) eff" where
  "logs_body ctx acc msg =
     (if is_log_error msg
      then ret ((fst acc @ [msg],
                 if raise_on_error ctx then Some (error_factory ctx (err_msg msg)) else snd acc), True)
      else bind (if log_sink ctx then sink_send msg else ret ()) (\<lambda>_.
           ret ((if buffer_logs ctx then fst acc @ [msg] else fst acc, snd acc), False)))"

definition logs_from_reader :: "ReadContext \<Rightarrow> (LogMessage stream, LogMessage list) eff" where
  "logs_from_reader ctx = (\<lambda>s.
     bind (read_stream (Suc (length (unread s))) (logs_body ctx) ([], None)) (\<lambda>(msgs, backend_error).
       case backend_error of Some e \<Rightarrow> raise e | None \<Rightarrow> ret msgs) s)"

text \<open>\<open>_nested_context\<close> of \<open>wire_message.py\<close>: the settings under which a response reads its logs.\<close>

definition nested_context :: "ReadContext \<Rightarrow> ReadContext" where
  "nested_context ctx =
     (if raise_on_error ctx \<and> (buffer_logs ctx \<or> log_sink ctx) then ctx
      else \<lparr>log_sink = log_sink ctx, buffer_logs = buffer_logs ctx \<or> \<not> log_sink ctx,
            raise_on_error = True, error_factory = error_factory ctx\<rparr>)"

section \<open>Writers and readers that undo each other\<close>

text \<open>
  \<open>carries w r x bs\<close>: the writer \<open>w\<close> appends \<open>bs\<close>, and the reader \<open>r\<close> takes exactly \<open>bs\<close> from a
  stream that starts with them and answers \<open>x\<close>.
\<close>

definition carries :: "(bytes, unit) eff \<Rightarrow> ('m stream, 'a) eff \<Rightarrow> 'a \<Rightarrow> bytes \<Rightarrow> bool" where
  "carries w r x bs \<longleftrightarrow> (\<forall>buf. w buf = (Inr (), buf @ bs)) \<and>
     (\<forall>s rest. unread s = bs @ rest \<longrightarrow> r s = (Inr x, s\<lparr>unread := rest\<rparr>))"

lemma carries_write: "carries w r x bs \<Longrightarrow> w buf = (Inr (), buf @ bs)"
  by (simp add: carries_def)

lemma carries_read: "carries w r x bs \<Longrightarrow> unread s = bs @ rest \<Longrightarrow> r s = (Inr x, s\<lparr>unread := rest\<rparr>)"
  by (simp add: carries_def)

lemma carries_bind:
  assumes "carries w1 r x bs" and "carries w2 (k x) y bs'"
  shows "carries (bind w1 (\<lambda>_. w2)) (bind r k) y (bs @ bs')"
  unfolding carries_def
proof (intro conjI allI impI)
  fix s :: "'a stream" and rest assume s: "unread s = (bs @ bs') @ rest"
  then have "r s = (Inr x, s\<lparr>unread := bs' @ rest\<rparr>)" by (intro carries_read [OF assms(1)]) simp
  moreover have "k x (s\<lparr>unread := bs' @ rest\<rparr>) = (Inr y, s\<lparr>unread := rest\<rparr>)"
    using carries_read [OF assms(2), of "s\<lparr>unread := bs' @ rest\<rparr>" rest] by simp
  ultimately show "bind r k s = (Inr y, s\<lparr>unread := rest\<rparr>)" by (simp add: bind_apply)
qed (simp add: bind_apply carries_write [OF assms(1)] carries_write [OF assms(2)])

lemma carries_map: "carries w r x bs \<Longrightarrow> carries w (bind r (\<lambda>x. ret (f x))) (f x) bs"
  by (simp add: carries_def bind_apply)

lemma carries_none: "carries (ret ()) (ret x) x []"
  by (auto simp: carries_def)

definition wire_int :: "int \<Rightarrow> bool" where
  "wire_int v \<longleftrightarrow> 0 \<le> v \<and> v < 2 ^ 64"

definition wire_text :: "string \<Rightarrow> bool" where
  "wire_text s \<longleftrightarrow> length s < 2 ^ 64"

lemma carries_uint64: "wire_int v \<Longrightarrow> carries (write_uint64 v) read_uint64 v (uint64_bytes (nat v))"
  by (simp add: carries_def wire_int_def write_uint64_ok read_uint64_append nat_less_iff)

lemma carries_string: "wire_text s \<Longrightarrow> carries (write_string s) read_string s (framed_bytes (encode s))"
  by (simp add: carries_def wire_text_def write_string_ok read_string_append)

text \<open>
  The interface that the containers of the codec rely on: an element writer and an element reader
  of the values that \<open>ok\<close> admits.
\<close>

locale element_codec =
  fixes write_elem :: "'a \<Rightarrow> (bytes, unit) eff"
    and read_elem :: "('m stream, 'a) eff"
    and elem_ok :: "'a \<Rightarrow> bool"
  assumes elem_carries: "elem_ok x \<Longrightarrow> \<exists>bs. carries (write_elem x) read_elem x bs"
begin

lemma items_carry:
  "list_all elem_ok xs \<Longrightarrow> \<exists>bs. carries (write_items write_elem xs) (read_items (length xs) read_elem) xs bs"
proof (induction xs)
  case Nil
  show ?case by (rule exI [of _ "[]"]) (simp only: write_items.simps read_items.simps list.size carries_none)
next
  case (Cons x xs)
  then obtain bs bs' where x: "carries (write_elem x) read_elem x bs"
    and xs: "carries (write_items write_elem xs) (read_items (length xs) read_elem) xs bs'"
    using elem_carries [of x] by auto
  show ?case
    unfolding write_items.simps list.size add_Suc_right add_0_right read_items.simps
    by (rule exI, rule carries_bind [OF x], rule carries_map [OF xs])
qed

lemma list_carries:
  assumes "list_all elem_ok xs" and "length xs < 2 ^ 64"
  shows "\<exists>bs. carries (write_list write_elem xs) (read_list read_elem) xs bs"
proof -
  obtain bs where "carries (write_items write_elem xs) (read_items (length xs) read_elem) xs bs"
    using items_carry [OF assms(1)] ..
  moreover have "wire_int (int (length xs))"
    using assms(2) by (simp add: wire_int_def flip: of_nat_less_iff)
  ultimately show ?thesis
    unfolding write_list_def read_list_def by (auto intro!: exI carries_bind [OF carries_uint64])
qed

end

definition trace_ok :: "TraceLine \<Rightarrow> bool" where
  "trace_ok t \<longleftrightarrow> wire_int (tl_pos t) \<and> wire_text (tl_hint t)"

text \<open>A field holds the value its type announces, and no other.\<close>

definition field_ok :: "ActivityField \<Rightarrow> bool" where
  "field_ok f = (case af_type f of
      FIELD_INT \<Rightarrow> (case af_valint f of Some v \<Rightarrow> wire_int v | None \<Rightarrow> False) \<and> af_valstr f = None
    | FIELD_STRING \<Rightarrow> (case af_valstr f of Some v \<Rightarrow> wire_text v | None \<Rightarrow> False) \<and> af_valint f = None)"

fun log_ok :: "LogMessage \<Rightarrow> bool" where
  "log_ok (LogNext s) = wire_text s"
| "log_ok (LogStartActivity i level ty s fs parent) =
     (wire_int i \<and> wire_int level \<and> wire_int ty \<and> wire_text s \<and>
      list_all field_ok fs \<and> length fs < 2 ^ 64 \<and> wire_int parent)"
| "log_ok (LogStopActivity i) = wire_int i"
| "log_ok (LogResult i ty fs) =
     (wire_int i \<and> wire_int ty \<and> list_all field_ok fs \<and> length fs < 2 ^ 64)"
| "log_ok (LogError ty level nm msg have_pos traces) =
     (wire_text ty \<and> wire_int level \<and> wire_text nm \<and> wire_text msg \<and> wire_int have_pos \<and>
      list_all trace_ok traces \<and> length traces < 2 ^ 64)"

lemma trace_carries: "trace_ok t \<Longrightarrow> \<exists>bs. carries (trace_to_writer t) trace_from_reader t bs"
  unfolding trace_to_writer_def trace_from_reader_def trace_ok_def
  by (cases t) (auto intro!: exI carries_bind [OF carries_uint64] carries_map [OF carries_string])

lemma carries_int_field:
  assumes "wire_int v"
  shows "\<exists>bs. carries (bind (write_uint64 0) (\<lambda>_. write_uint64 v)) field_from_reader
    \<lparr>af_type = FIELD_INT, af_valint = Some v, af_valstr = None\<rparr> bs"
  unfolding field_from_reader_def
  by (rule exI, rule carries_bind [OF carries_uint64], simp add: wire_int_def,
      unfold if_True refl [THEN eqTrueI], rule carries_map, rule carries_uint64, rule assms)

lemma carries_string_field:
  assumes "wire_text v"
  shows "\<exists>bs. carries (bind (write_uint64 1) (\<lambda>_. write_string v)) field_from_reader
    \<lparr>af_type = FIELD_STRING, af_valint = None, af_valstr = Some v\<rparr> bs"
  unfolding field_from_reader_def
  by (rule exI, rule carries_bind [OF carries_uint64], simp add: wire_int_def,
      unfold if_True if_False one_neq_zero [THEN eq_False [THEN iffD2]] refl [THEN eqTrueI], rule carries_map,
      rule carries_string, rule assms)

lemma field_carries: "field_ok f \<Longrightarrow> \<exists>bs. carries (field_to_writer f) field_from_reader f bs"
  using carries_int_field carries_string_field
  by (cases f) (auto simp: field_to_writer_def field_ok_def split: FieldType.splits option.splits)

interpretation traces: element_codec trace_to_writer trace_from_reader trace_ok
  by unfold_locales (rule trace_carries)

interpretation activity_fields: element_codec field_to_writer field_from_reader field_ok
  by unfold_locales (rule field_carries)

section \<open>A stream written is the stream read\<close>

lemma carries_message:
  fixes p :: "('m stream, LogMessage) eff"
  assumes "log_parser code = Some p" and "code \<noteq> STDERR_LAST" and "wire_int code"
    and "carries w p m body"
  shows "carries (bind (write_uint64 code) (\<lambda>_. w))
    (next_message k :: ('m stream, LogMessage option) eff) (Some m)
    (uint64_bytes (nat code) @ body)"
proof -
  have "carries w (bind p (\<lambda>msg. ret (Some msg))) (Some m) body" by (rule carries_map [OF assms(4)])
  then show ?thesis
    by (subst next_message.simps, intro carries_bind [OF carries_uint64 [OF assms(3)]])
      (simp add: assms(1,2))
qed

lemmas carry_steps = carries_bind [OF carries_uint64] carries_bind [OF carries_string]

lemma log_parser_known:
  "log_parser STDERR_NEXT = Some (bind read_string (\<lambda>s. ret (LogNext s)))"
  "log_parser STDERR_START_ACTIVITY =
     Some (bind read_uint64 (\<lambda>i. bind read_uint64 (\<lambda>level. bind read_uint64 (\<lambda>ty.
           bind read_string (\<lambda>s. bind (read_list field_from_reader) (\<lambda>fs.
           bind read_uint64 (\<lambda>parent. ret (LogStartActivity i level ty s fs parent))))))))"
  "log_parser STDERR_STOP_ACTIVITY = Some (bind read_uint64 (\<lambda>i. ret (LogStopActivity i)))"
  "log_parser STDERR_RESULT =
     Some (bind read_uint64 (\<lambda>i. bind read_uint64 (\<lambda>ty.
           bind (read_list field_from_reader) (\<lambda>fs. ret (LogResult i ty fs)))))"
  "log_parser STDERR_ERROR =
     Some (bind read_string (\<lambda>ty. bind read_uint64 (\<lambda>level. bind read_string (\<lambda>nm.
           bind read_string (\<lambda>msg. bind read_uint64 (\<lambda>have_pos.
           bind (read_list trace_from_reader) (\<lambda>traces.
           ret (LogError ty level nm msg have_pos traces))))))))"
  by (simp_all add: log_parser_def stderr_codes)

lemma stderr_code_facts:
  "wire_int STDERR_NEXT" "wire_int STDERR_LAST" "wire_int STDERR_ERROR"
  "wire_int STDERR_START_ACTIVITY" "wire_int STDERR_STOP_ACTIVITY" "wire_int STDERR_RESULT"
  "STDERR_NEXT \<noteq> STDERR_LAST" "STDERR_ERROR \<noteq> STDERR_LAST" "STDERR_START_ACTIVITY \<noteq> STDERR_LAST"
  "STDERR_STOP_ACTIVITY \<noteq> STDERR_LAST" "STDERR_RESULT \<noteq> STDERR_LAST"
  by (simp_all add: wire_int_def stderr_codes)

lemma log_carries:
  "log_ok m \<Longrightarrow> \<exists>bs. carries (log_to_writer m) (next_message k :: ('m stream, LogMessage option) eff) (Some m) bs
     \<and> bs \<noteq> []"
proof (cases m)
  case (LogNext s)
  assume ok: "log_ok m"
  show ?thesis
    unfolding LogNext log_to_writer.simps
    by (intro exI conjI, insert ok LogNext,
      (rule carries_message [OF log_parser_known(1)] carries_map [OF carries_string]
        | (simp add: stderr_code_facts flip: length_0_conv; fail))+)
next
  case (LogStartActivity i level ty s fs parent)
  assume ok: "log_ok m"
  with LogStartActivity obtain bs where fs: "carries (write_list field_to_writer fs)
      (read_list field_from_reader :: ('m stream, ActivityField list) eff) fs bs"
    using activity_fields.list_carries by auto
  show ?thesis
    unfolding LogStartActivity log_to_writer.simps
    by (intro exI conjI, insert ok LogStartActivity,
      (rule carries_message [OF log_parser_known(2)] carry_steps
          carries_bind [OF fs] carries_map [OF carries_uint64]
        | (simp add: stderr_code_facts flip: length_0_conv; fail))+)
next
  case (LogStopActivity i)
  assume ok: "log_ok m"
  show ?thesis
    unfolding LogStopActivity log_to_writer.simps
    by (intro exI conjI, insert ok LogStopActivity,
      (rule carries_message [OF log_parser_known(3)] carries_map [OF carries_uint64]
        | (simp add: stderr_code_facts flip: length_0_conv; fail))+)
next
  case (LogResult i ty fs)
  assume ok: "log_ok m"
  with LogResult obtain bs where fs: "carries (write_list field_to_writer fs)
      (read_list field_from_reader :: ('m stream, ActivityField list) eff) fs bs"
    using activity_fields.list_carries by auto
  show ?thesis
    unfolding LogResult log_to_writer.simps
    by (intro exI conjI, insert ok LogResult,
      (rule carries_message [OF log_parser_known(4)] carry_steps carries_map [OF fs]
        | (simp add: stderr_code_facts flip: length_0_conv; fail))+)
next
  case (LogError ty level nm msg have_pos traces)
  assume ok: "log_ok m"
  with LogError obtain bs where tr: "carries (write_list trace_to_writer traces)
      (read_list trace_from_reader :: ('m stream, TraceLine list) eff) traces bs"
    using traces.list_carries by auto
  show ?thesis
    unfolding LogError log_to_writer.simps
    by (intro exI conjI, insert ok LogError,
      (rule carries_message [OF log_parser_known(5)] carry_steps carries_map [OF tr]
        | (simp add: stderr_code_facts flip: length_0_conv; fail))+)
qed

lemma carries_then: "carries w r x bs \<Longrightarrow> k x = ret y \<Longrightarrow> carries w (bind r k) y bs"
  by (simp add: carries_def bind_apply)

lemma carries_last: "carries (write_uint64 STDERR_LAST) (next_message k) None (uint64_bytes (nat STDERR_LAST))"
  by (subst next_message.simps, rule carries_then [OF carries_uint64]) (simp_all add: stderr_code_facts)

definition kept :: "ReadContext \<Rightarrow> LogMessage list \<Rightarrow> LogMessage list" where
  "kept ctx msgs = (if buffer_logs ctx then msgs else [])"

definition streamed :: "ReadContext \<Rightarrow> LogMessage list \<Rightarrow> LogMessage list" where
  "streamed ctx msgs = (if log_sink ctx then msgs else [])"

lemma write_items_append:
  "write_items w (xs @ ys) buf =
     (case write_items w xs buf of (Inl e, b) \<Rightarrow> (Inl e, b) | (Inr _, b) \<Rightarrow> write_items w ys b)"
  by (induction xs arbitrary: buf) (auto simp: bind_apply split: prod.splits sum.splits)

lemma logs_body_plain:
  "\<not> is_log_error m \<Longrightarrow>
     logs_body ctx acc m s = (Inr ((fst acc @ kept ctx [m], snd acc), False), s\<lparr>sent := sent s @ streamed ctx [m]\<rparr>)"
  by (simp add: logs_body_def kept_def streamed_def sink_send_def bind_apply)

lemma logs_loop:
  assumes "list_all (\<lambda>m. log_ok m \<and> \<not> is_log_error m) msgs"
  shows "\<exists>bs. (\<forall>buf. write_items log_to_writer msgs buf = (Inr (), buf @ bs)) \<and> length msgs \<le> length bs \<and>
    (\<forall>n acc s rest. unread s = bs @ rest \<longrightarrow>
       read_stream (length msgs + n) (logs_body ctx) acc s =
       read_stream n (logs_body ctx) (fst acc @ kept ctx msgs, snd acc)
         (s\<lparr>unread := rest, sent := sent s @ streamed ctx msgs\<rparr>))"
  using assms
proof (induction msgs)
  case Nil
  then show ?case by (intro exI [of _ "[]"]) (simp add: kept_def streamed_def)
next
  case (Cons m msgs)
  then have m: "log_ok m" "\<not> is_log_error m" by simp_all
  obtain b where b: "carries (log_to_writer m) (next_message 0 :: (LogMessage stream, LogMessage option) eff) (Some m) b" "b \<noteq> []"
    using log_carries [OF m(1)] by blast
  from Cons obtain bs where bs: "\<forall>buf. write_items log_to_writer msgs buf = (Inr (), buf @ bs)"
      "length msgs \<le> length bs"
      "\<forall>n acc s rest. unread s = bs @ rest \<longrightarrow>
         read_stream (length msgs + n) (logs_body ctx) acc s =
         read_stream n (logs_body ctx) (fst acc @ kept ctx msgs, snd acc)
           (s\<lparr>unread := rest, sent := sent s @ streamed ctx msgs\<rparr>)" by auto
  show ?case
  proof (intro exI [of _ "b @ bs"] conjI allI impI)
    fix buf show "write_items log_to_writer (m # msgs) buf = (Inr (), buf @ b @ bs)"
      using bs(1) by (simp add: bind_apply carries_write [OF b(1)])
  next
    show "length (m # msgs) \<le> length (b @ bs)" using bs(2) b(2) by (cases b) simp_all
  next
    fix n acc and s :: "LogMessage stream" and rest assume "unread s = (b @ bs) @ rest"
    then have "next_message 0 s = (Inr (Some m), s\<lparr>unread := bs @ rest\<rparr>)"
      using carries_read [OF b(1)] by simp
    then show "read_stream (length (m # msgs) + n) (logs_body ctx) acc s =
        read_stream n (logs_body ctx) (fst acc @ kept ctx (m # msgs), snd acc)
          (s\<lparr>unread := rest, sent := sent s @ streamed ctx (m # msgs)\<rparr>)"
      using bs(3) m(2) by (simp add: bind_apply logs_body_plain kept_def streamed_def)
  qed
qed

lemma logs_read_upto:
  assumes "list_all (\<lambda>m. log_ok m \<and> \<not> is_log_error m) msgs"
  obtains bs where "\<And>buf. write_items log_to_writer msgs buf = (Inr (), buf @ bs)"
    and "\<And>rest seen. \<exists>n. read_stream (Suc (length (bs @ rest))) (logs_body ctx) ([], None)
        \<lparr>unread = bs @ rest, sent = seen\<rparr> =
      read_stream (Suc n) (logs_body ctx) (kept ctx msgs, None)
        \<lparr>unread = rest, sent = seen @ streamed ctx msgs\<rparr>"
proof -
  obtain bs where bs: "\<forall>buf. write_items log_to_writer msgs buf = (Inr (), buf @ bs)" "length msgs \<le> length bs"
    "\<forall>n acc s rest. unread s = bs @ rest \<longrightarrow>
       read_stream (length msgs + n) (logs_body ctx) acc s =
       read_stream n (logs_body ctx) (fst acc @ kept ctx msgs, snd acc)
         (s\<lparr>unread := rest, sent := sent s @ streamed ctx msgs\<rparr>)"
    using logs_loop [OF assms] by blast
  show thesis
  proof (rule that)
    fix rest and seen :: "LogMessage list"
    let ?s = "\<lparr>unread = bs @ rest, sent = seen\<rparr>" and ?n = "length (bs @ rest) - length msgs"
    have n: "Suc (length (bs @ rest)) = length msgs + Suc ?n" using bs(2) by simp
    show "\<exists>n. read_stream (Suc (length (bs @ rest))) (logs_body ctx) ([], None) ?s =
      read_stream (Suc n) (logs_body ctx) (kept ctx msgs, None)
        \<lparr>unread = rest, sent = seen @ streamed ctx msgs\<rparr>"
      unfolding n using bs(3) [rule_format, of ?s rest "Suc ?n" "([], None)"]
      by (intro exI [of _ ?n]) (simp del: read_stream.simps add_Suc_right)
  qed (use bs(1) in simp)
qed

lemma logs_pass:
  assumes "list_all (\<lambda>m. log_ok m \<and> \<not> is_log_error m) msgs"
  shows "\<exists>bs. (\<forall>buf. logs_to_writer msgs buf = (Inr (), buf @ bs)) \<and>
    (\<forall>rest seen. logs_from_reader ctx \<lparr>unread = bs @ rest, sent = seen\<rparr> =
      (Inr (if buffer_logs ctx then msgs else []),
       \<lparr>unread = rest, sent = seen @ (if log_sink ctx then msgs else [])\<rparr>))"
proof -
  obtain bs where bs: "\<And>buf. write_items log_to_writer msgs buf = (Inr (), buf @ bs)"
    and read: "\<And>rest seen. \<exists>n. read_stream (Suc (length (bs @ rest))) (logs_body ctx) ([], None)
        \<lparr>unread = bs @ rest, sent = seen\<rparr> =
      read_stream (Suc n) (logs_body ctx) (kept ctx msgs, None)
        \<lparr>unread = rest, sent = seen @ streamed ctx msgs\<rparr>"
    using logs_read_upto [OF assms] by blast
  let ?last = "uint64_bytes (nat STDERR_LAST)"
  have "logs_to_writer msgs buf = (Inr (), buf @ bs @ ?last)" for buf
    using bs carries_write [OF carries_last] by (simp add: logs_to_writer_def bind_apply)
  moreover have "logs_from_reader ctx \<lparr>unread = (bs @ ?last) @ rest, sent = seen\<rparr> =
      (Inr (if buffer_logs ctx then msgs else []),
       \<lparr>unread = rest, sent = seen @ (if log_sink ctx then msgs else [])\<rparr>)" for rest seen
  proof -
    obtain n where "read_stream (Suc (length (bs @ ?last @ rest))) (logs_body ctx) ([], None)
          \<lparr>unread = bs @ ?last @ rest, sent = seen\<rparr> =
        read_stream (Suc n) (logs_body ctx) (kept ctx msgs, None)
          \<lparr>unread = ?last @ rest, sent = seen @ streamed ctx msgs\<rparr>"
      using read by blast
    moreover have "read_stream (Suc n) (logs_body ctx) (kept ctx msgs, None)
          \<lparr>unread = ?last @ rest, sent = seen @ streamed ctx msgs\<rparr> =
        (Inr (kept ctx msgs, None), \<lparr>unread = rest, sent = seen @ streamed ctx msgs\<rparr>)"
      by (simp add: bind_apply carries_read [OF carries_last])
    ultimately show ?thesis
      unfolding logs_from_reader_def by (simp add: bind_apply kept_def streamed_def del: read_stream.simps)
  qed
  ultimately show ?thesis by (intro exI [of _ "bs @ ?last"]) simp
qed

lemma logs_read_back:
  assumes "list_all (\<lambda>m. log_ok m \<and> \<not> is_log_error m) msgs"
  shows "\<exists>bs. logs_to_writer msgs buf = (Inr (), buf @ bs) \<and>
    logs_from_reader ctx \<lparr>unread = bs @ rest, sent = seen\<rparr> =
      (Inr (if buffer_logs ctx then msgs else []),
       \<lparr>unread = rest, sent = seen @ (if log_sink ctx then msgs else [])\<rparr>)"
  using logs_pass [OF assms] by blast

text \<open>
  A stream of log messages comes back as it was written: \<open>WireLogs.to_writer\<close> writes the
  messages and \<open>STDERR_LAST\<close>, and \<open>WireLogs.from_reader\<close> takes exactly those bytes, returns the
  messages when it buffers them and hands each one to the sink, in order, when there is one.
\<close>

theorem logs_roundtrip:
  assumes "list_all (\<lambda>m. log_ok m \<and> \<not> is_log_error m) msgs"
  shows "\<exists>bs. logs_to_writer msgs buf = (Inr (), buf @ bs) \<and>
    logs_from_reader ctx \<lparr>unread = bs @ rest, sent = seen\<rparr> =
      (Inr (if buffer_logs ctx then msgs else []),
       \<lparr>unread = rest, sent = seen @ (if log_sink ctx then msgs else [])\<rparr>)"
  using assms by (rule logs_read_back)

text \<open>
  An error ends the stream where it stands: \<open>WireLogs.from_reader\<close> stops right behind a
  \<open>LogError\<close>, raises the context's error with the daemon's message when asked to and returns it
  as the last message otherwise. \<open>WireLogs.to_writer\<close> writes \<open>STDERR_LAST\<close> behind it all the
  same, and that word is still unread then.
\<close>

theorem logs_error_leaves_last:
  assumes "list_all (\<lambda>m. log_ok m \<and> \<not> is_log_error m) msgs" and "log_ok e" and "is_log_error e"
  shows "\<exists>bs. logs_to_writer (msgs @ [e]) buf = (Inr (), buf @ bs) \<and>
    logs_from_reader ctx \<lparr>unread = bs @ rest, sent = seen\<rparr> =
      ((if raise_on_error ctx then Inl (error_factory ctx (err_msg e))
        else Inr ((if buffer_logs ctx then msgs else []) @ [e])),
       \<lparr>unread = uint64_bytes (nat STDERR_LAST) @ rest,
         sent = seen @ (if log_sink ctx then msgs else [])\<rparr>)"
proof -
  obtain bs where bs: "\<And>buf. write_items log_to_writer msgs buf = (Inr (), buf @ bs)"
    and read: "\<And>rest seen. \<exists>n. read_stream (Suc (length (bs @ rest))) (logs_body ctx) ([], None)
        \<lparr>unread = bs @ rest, sent = seen\<rparr> =
      read_stream (Suc n) (logs_body ctx) (kept ctx msgs, None)
        \<lparr>unread = rest, sent = seen @ streamed ctx msgs\<rparr>"
    using logs_read_upto [OF assms(1)] by blast
  obtain b where b: "carries (log_to_writer e) (next_message 0 :: (LogMessage stream, LogMessage option) eff) (Some e) b"
    using log_carries [OF assms(2)] by blast
  let ?last = "uint64_bytes (nat STDERR_LAST)"
  have "logs_to_writer (msgs @ [e]) buf = (Inr (), buf @ bs @ b @ ?last)"
    using bs carries_write [OF carries_last] carries_write [OF b]
    by (simp add: logs_to_writer_def bind_apply write_items_append)
  moreover obtain n where "read_stream (Suc (length (bs @ b @ ?last @ rest))) (logs_body ctx) ([], None)
        \<lparr>unread = bs @ b @ ?last @ rest, sent = seen\<rparr> =
      read_stream (Suc n) (logs_body ctx) (kept ctx msgs, None)
        \<lparr>unread = b @ ?last @ rest, sent = seen @ streamed ctx msgs\<rparr>"
    using read by blast
  moreover have "read_stream (Suc n) (logs_body ctx) (kept ctx msgs, None)
        \<lparr>unread = b @ ?last @ rest, sent = seen @ streamed ctx msgs\<rparr> =
      (Inr (kept ctx msgs @ [e], if raise_on_error ctx then Some (error_factory ctx (err_msg e)) else None),
       \<lparr>unread = ?last @ rest, sent = seen @ streamed ctx msgs\<rparr>)"
    using carries_read [OF b] assms(3) by (simp add: bind_apply logs_body_def)
  ultimately show ?thesis
    unfolding logs_from_reader_def
    by (intro exI [of _ "bs @ b @ ?last"]) (simp add: bind_apply kept_def streamed_def del: read_stream.simps)
qed

lemma sample_log_ok:
  "list_all (\<lambda>m. log_ok m \<and> \<not> is_log_error m)
     [LogNext ''building'', LogStartActivity 7 1 111 ''waiting'' [\<lparr>af_type = FIELD_STRING, af_valint = None, af_valstr = Some ''x''\<rparr>] 0,
      LogResult 7 101 [\<lparr>af_type = FIELD_INT, af_valint = Some 3, af_valstr = None\<rparr>], LogStopActivity 7]"
  by (simp add: is_log_error_def wire_text_def wire_int_def field_ok_def)

theorem logs_roundtrip_witness:
  "\<exists>bs. logs_to_writer [LogNext ''building'', LogStartActivity 7 1 111 ''waiting'' [\<lparr>af_type = FIELD_STRING, af_valint = None, af_valstr = Some ''x''\<rparr>] 0,
      LogResult 7 101 [\<lparr>af_type = FIELD_INT, af_valint = Some 3, af_valstr = None\<rparr>], LogStopActivity 7] [] = (Inr (), [] @ bs) \<and>
    logs_from_reader \<lparr>log_sink = True, buffer_logs = False, raise_on_error = True, error_factory = DaemonProtocolError\<rparr>
      \<lparr>unread = bs @ [1, 2], sent = []\<rparr> =
      (Inr [], \<lparr>unread = [1, 2], sent = [] @ [LogNext ''building'', LogStartActivity 7 1 111 ''waiting'' [\<lparr>af_type = FIELD_STRING, af_valint = None, af_valstr = Some ''x''\<rparr>] 0,
      LogResult 7 101 [\<lparr>af_type = FIELD_INT, af_valint = Some 3, af_valstr = None\<rparr>], LogStopActivity 7]\<rparr>)"
  using logs_roundtrip [OF sample_log_ok, of "[]"
      "\<lparr>log_sink = True, buffer_logs = False, raise_on_error = True, error_factory = DaemonProtocolError\<rparr>" "[1, 2]" "[]"]
  by simp

theorem logs_error_leaves_last_witness:
  "\<exists>bs. logs_to_writer ([LogNext ''a''] @ [LogError ''Error'' 0 ''Error'' ''boom'' 0 []]) [] = (Inr (), [] @ bs) \<and>
    logs_from_reader \<lparr>log_sink = False, buffer_logs = True, raise_on_error = True, error_factory = DaemonProtocolError\<rparr>
      \<lparr>unread = bs @ [], sent = []\<rparr> =
      (Inl (DaemonProtocolError ''boom''), \<lparr>unread = uint64_bytes (nat STDERR_LAST) @ [], sent = []\<rparr>)"
  using logs_error_leaves_last [of "[LogNext ''a'']" "LogError ''Error'' 0 ''Error'' ''boom'' 0 []" "[]"
      "\<lparr>log_sink = False, buffer_logs = True, raise_on_error = True, error_factory = DaemonProtocolError\<rparr>" "[]" "[]"]
  by (simp add: is_log_error_def wire_text_def wire_int_def)

section \<open>Every stream is read to an end\<close>

text \<open>\<open>steady r\<close>: the reader \<open>r\<close> never runs out of fuel and never gives bytes back.\<close>

definition steady :: "('m stream, 'a) eff \<Rightarrow> bool" where
  "steady r \<longleftrightarrow> (\<forall>s. fst (r s) \<noteq> Inl OutOfFuel \<and> length (unread (snd (r s))) \<le> length (unread s))"

lemma steady_length: "steady r \<Longrightarrow> r s = (x, s') \<Longrightarrow> length (unread s') \<le> length (unread s)"
  unfolding steady_def by (metis snd_conv)

lemma steady_error: "steady r \<Longrightarrow> r s = (Inl e, s') \<Longrightarrow> e \<noteq> OutOfFuel"
  unfolding steady_def by (metis fst_conv)

lemma steady_ret: "steady (ret x)"
  by (simp add: steady_def)

lemma steady_raise: "e \<noteq> OutOfFuel \<Longrightarrow> steady (raise e)"
  by (simp add: steady_def)

lemma steady_bind:
  assumes "steady r" and "\<And>x. steady (k x)"
  shows "steady (bind r k)"
  unfolding steady_def
proof (intro allI)
  fix s
  obtain y t where r: "r s = (y, t)" by (cases "r s")
  show "fst (bind r k s) \<noteq> Inl OutOfFuel \<and> length (unread (snd (bind r k s))) \<le> length (unread s)"
  proof (cases y)
    case (Inl e)
    with r steady_error [OF assms(1)] steady_length [OF assms(1) r] show ?thesis by (simp add: bind_apply)
  next
    case (Inr x)
    with r steady_length [OF assms(1) r] assms(2) [of x, unfolded steady_def, rule_format, of t]
    show ?thesis by (auto simp: bind_apply)
  qed
qed

lemma steady_readexactly: "steady (stream_readexactly n)"
  by (simp add: steady_def stream_readexactly_def)

lemma steady_uint64: "steady read_uint64"
  unfolding read_uint64_def by (intro steady_bind steady_readexactly steady_ret)

lemma steady_string: "steady read_string"
  unfolding read_string_def read_bytes_def
  by (intro steady_bind steady_uint64 steady_readexactly steady_ret)

lemma steady_list: "steady r \<Longrightarrow> steady (read_list r)"
proof -
  assume r: "steady r"
  have "steady (read_items n r)" for n
    by (induction n) (simp_all add: steady_ret steady_bind r del: ret_apply)
  then show ?thesis unfolding read_list_def by (intro steady_bind steady_uint64)
qed

lemmas steady_rules = steady_bind steady_ret steady_uint64 steady_string steady_list

lemma steady_trace: "steady trace_from_reader"
  unfolding trace_from_reader_def by (intro steady_rules)

lemma steady_field: "steady field_from_reader"
proof -
  have "steady (if t = 0 then bind read_uint64 (\<lambda>v. ret (f v)) else if t = 1
      then bind read_string (\<lambda>v. ret (g v)) else raise ValueError)" for t :: int and f g
    by (simp add: steady_rules steady_raise del: ret_apply raise_apply)
  then show ?thesis unfolding field_from_reader_def by (intro steady_bind steady_uint64)
qed

lemma steady_parser: "log_parser code = Some p \<Longrightarrow> steady p"
  unfolding log_parser_def
  by (auto split: if_splits intro!: steady_rules steady_trace steady_field)

lemma next_message_steady: "steady (next_message k)"
proof (induction "3 - k" arbitrary: k rule: less_induct)
  case less
  show ?case
    by (subst next_message.simps, rule steady_bind [OF steady_uint64])
      (use less steady_parser in \<open>auto intro: steady_rules steady_raise split: option.split\<close>)
qed

lemma next_message_shorter:
  assumes "next_message k s = (Inr m, s')"
  shows "length (unread s') < length (unread s)"
proof -
  from assms obtain c t where c: "read_uint64 s = (Inr c, t)"
    and rest: "(if c = STDERR_LAST then ret None else case log_parser c of
         None \<Rightarrow> if k + 1 \<ge> 3 then raise ConnectionError else next_message (k + 1)
       | Some parser \<Rightarrow> bind parser (\<lambda>msg. ret (Some msg))) t = (Inr m, s')"
    by (subst (asm) next_message.simps) (auto simp: bind_ok_iff)
  have "steady (if c = STDERR_LAST then ret None else case log_parser c of
         None \<Rightarrow> if k + 1 \<ge> 3 then raise ConnectionError else next_message (k + 1)
       | Some parser \<Rightarrow> bind parser (\<lambda>msg. ret (Some msg)))"
    using steady_parser next_message_steady by (auto intro: steady_rules steady_raise split: option.split)
  with rest have "length (unread s') \<le> length (unread t)" by (rule steady_length [rotated])
  moreover from c have "length (unread t) < length (unread s)"
    by (auto simp: read_uint64_def bind_apply stream_readexactly_def split: if_splits)
  ultimately show ?thesis by simp
qed

lemma read_stream_enough:
  assumes "\<And>acc m. steady (body acc m)" and "length (unread s) < n"
  shows "fst (read_stream n body acc s) \<noteq> Inl OutOfFuel"
  using assms(2)
proof (induction n arbitrary: acc s)
  case (Suc n)
  obtain r t where t: "next_message 0 s = (r, t)" by (cases "next_message 0 s")
  show ?case
  proof (cases r)
    case (Inl e)
    with t steady_error [OF next_message_steady t [unfolded Inl]] show ?thesis by (simp add: bind_apply)
  next
    case (Inr mo)
    show ?thesis
    proof (cases mo)
      case None
      with t Inr show ?thesis by (simp add: bind_apply)
    next
      case (Some m)
      obtain r' u where u: "body acc m t = (r', u)" by (cases "body acc m t")
      have "length (unread u) < n"
        using steady_length [OF assms(1) u] next_message_shorter [OF t [unfolded Inr]] Suc.prems by simp
      then have "fst (read_stream n body acc' u) \<noteq> Inl OutOfFuel" for acc' by (rule Suc.IH)
      with t Inr Some u steady_error [OF assms(1)] show ?thesis
        by (cases r') (auto simp: bind_apply split: prod.splits)
    qed
  qed
qed simp

lemma read_stream_keeps:
  assumes "\<And>acc m s acc' stop s'. P acc \<Longrightarrow> body acc m s = (Inr (acc', stop), s') \<Longrightarrow> P acc'"
    and "P acc" and "read_stream n body acc s = (Inr acc', s')"
  shows "P acc'"
  using assms(2,3)
proof (induction n arbitrary: acc s)
  case (Suc n)
  from Suc.prems(2) obtain mo t where mo: "(case mo of None \<Rightarrow> ret acc | Some msg \<Rightarrow>
      bind (body acc msg) (\<lambda>(acc', stop).
        if stop \<or> is_log_error msg then ret acc' else read_stream n body acc')) t = (Inr acc', s')"
    by (auto simp: bind_ok_iff)
  show ?case
  proof (cases mo)
    case None
    with mo Suc.prems(1) show ?thesis by simp
  next
    case (Some msg)
    with mo obtain acc1 stop u where b: "body acc msg t = (Inr (acc1, stop), u)"
      and r: "(if stop \<or> is_log_error msg then ret acc1 else read_stream n body acc1) u = (Inr acc', s')"
      by (auto simp: bind_ok_iff)
    have "P acc1" by (rule assms(1) [OF Suc.prems(1) b])
    with r show ?thesis using Suc.IH by (auto split: if_splits)
  qed
qed simp

lemma steady_logs_body: "steady (logs_body ctx acc m)"
proof -
  have "steady (sink_send m)" by (simp add: steady_def sink_send_def)
  then show ?thesis by (simp add: logs_body_def steady_ret steady_bind del: ret_apply)
qed

text \<open>
  Reading a stderr stream always comes to an end: whatever bytes the peer sends, \<open>drain\<close> and
  \<open>WireLogs.from_reader\<close> return or raise one of the program's own errors, because each turn of
  \<open>read_stream\<close> takes at least the eight bytes of a code.
\<close>

theorem log_reading_ends:
  assumes "\<And>m. error_factory ctx m \<noteq> OutOfFuel"
  shows "fst (drain ctx s) \<noteq> Inl OutOfFuel \<and> fst (logs_from_reader ctx t) \<noteq> Inl OutOfFuel"
proof
  have "steady (drain_body ctx acc m)" for acc m
    using assms by (simp add: drain_body_def steady_ret steady_raise del: ret_apply raise_apply)
  then show "fst (drain ctx s) \<noteq> Inl OutOfFuel"
    unfolding drain_def by (intro read_stream_enough) simp_all
  have enough: "fst (read_stream (Suc (length (unread t))) (logs_body ctx) acc t) \<noteq> Inl OutOfFuel" for acc
    by (intro read_stream_enough steady_logs_body) simp
  have "b \<noteq> Some OutOfFuel"
    if "read_stream (Suc (length (unread t))) (logs_body ctx) ([], None) t = (Inr (msgs, b), u)" for msgs b u
  proof -
    have "snd acc' \<noteq> Some OutOfFuel"
      if "snd acc \<noteq> Some OutOfFuel" "logs_body ctx acc m s = (Inr (acc', stop), s')" for acc m s acc' stop s'
      using that assms by (auto simp: logs_body_def bind_ok_iff split: if_splits)
    then show ?thesis
      using read_stream_keeps [where P = "\<lambda>acc. snd acc \<noteq> Some OutOfFuel", OF _ _ that] by simp
  qed
  with enough [of "([], None)"] show "fst (logs_from_reader ctx t) \<noteq> Inl OutOfFuel"
    unfolding logs_from_reader_def bind_apply
    by (auto split: prod.splits sum.splits option.splits)
qed

theorem log_reading_ends_witness:
  "fst (drain \<lparr>log_sink = True, buffer_logs = True, raise_on_error = True, error_factory = DaemonProtocolError\<rparr>
      \<lparr>unread = [103, 109], sent = [()]\<rparr>) \<noteq> Inl OutOfFuel \<and>
   fst (logs_from_reader \<lparr>log_sink = True, buffer_logs = True, raise_on_error = True, error_factory = DaemonProtocolError\<rparr>
      \<lparr>unread = [], sent = []\<rparr>) \<noteq> Inl OutOfFuel"
  by (rule log_reading_ends) simp

definition unknown_code :: "int \<Rightarrow> bool" where
  "unknown_code c \<longleftrightarrow> wire_int c \<and> c \<notin> {STDERR_NEXT, STDERR_LAST, STDERR_ERROR,
     STDERR_START_ACTIVITY, STDERR_STOP_ACTIVITY, STDERR_RESULT}"

lemma next_message_unknown:
  assumes "unknown_code c" and "unread s = uint64_bytes (nat c) @ rest"
  shows "next_message k s =
    (if k + 1 \<ge> 3 then (Inl ConnectionError, s\<lparr>unread := rest\<rparr>) else next_message (k + 1) (s\<lparr>unread := rest\<rparr>))"
proof -
  from assms have c: "read_uint64 s = (Inr c, s\<lparr>unread := rest\<rparr>)"
    by (intro carries_read [OF carries_uint64]) (simp_all add: unknown_code_def)
  then show ?thesis
    using assms(1) by (subst next_message.simps) (simp add: bind_apply log_parser_def unknown_code_def)
qed

text \<open>
  A peer that is out of step is noticed: two codes that are no message are skipped, and the
  third in a row raises \<open>ConnectionError\<close>; a message that follows fewer of them is read, and the
  count starts again.
\<close>

theorem third_unknown_code_raises:
  assumes "unknown_code a" and "unknown_code b" and "unknown_code c" and "log_ok m"
  shows "next_message 0 \<lparr>unread = uint64_bytes (nat a) @ uint64_bytes (nat b) @ uint64_bytes (nat c) @ rest, sent = seen\<rparr>
      = (Inl ConnectionError, \<lparr>unread = rest, sent = seen\<rparr>) \<and>
    (\<exists>bs. log_to_writer m [] = (Inr (), bs) \<and>
      next_message 0 \<lparr>unread = uint64_bytes (nat a) @ uint64_bytes (nat b) @ bs @ rest, sent = seen\<rparr>
      = (Inr (Some m), \<lparr>unread = rest, sent = seen\<rparr>))"
proof -
  obtain bs where bs: "carries (log_to_writer m) (next_message 2 :: ('a stream, LogMessage option) eff) (Some m) bs"
    using log_carries [OF assms(4)] by blast
  have skip: "next_message 0 \<lparr>unread = uint64_bytes (nat a) @ uint64_bytes (nat b) @ more, sent = seen\<rparr>
      = next_message 2 \<lparr>unread = more, sent = seen\<rparr>" for more and seen :: "'a list"
    by (simp add: next_message_unknown [OF assms(1)] next_message_unknown [OF assms(2)] numeral_2_eq_2)
  show ?thesis
    unfolding skip using carries_write [OF bs, of "[]"] carries_read [OF bs]
    by (auto simp: next_message_unknown [OF assms(3)])
qed

theorem third_unknown_code_raises_witness:
  "next_message 0 \<lparr>unread = uint64_bytes (nat 5) @ uint64_bytes (nat 6) @ uint64_bytes (nat 7) @ [], sent = [()]\<rparr>
      = (Inl ConnectionError, \<lparr>unread = [], sent = [()]\<rparr>) \<and>
    (\<exists>bs. log_to_writer (LogStopActivity 9) [] = (Inr (), bs) \<and>
      next_message 0 \<lparr>unread = uint64_bytes (nat 5) @ uint64_bytes (nat 6) @ bs @ [], sent = [()]\<rparr>
      = (Inr (Some (LogStopActivity 9)), \<lparr>unread = [], sent = [()]\<rparr>))"
  by (rule third_unknown_code_raises) (simp_all add: unknown_code_def stderr_codes wire_int_def)

end
