(* ===== verification/Json.thy ===== *)
theory Json
  imports Prelude
begin

text \<open>
  Python's \<open>json.loads\<close> and \<open>json.dumps\<close> as \<open>nix_daemon_protocol/basic_derivation.py\<close> uses them: the
  attributes of a derivation with structured attributes are one JSON text in its environment, and
  the scheduler writes them back with one attribute changed.

  The reader follows the decoder of the standard library: the white space of JSON, the escapes
  with their surrogate pairs, the grammar of numbers with the three constants that are not JSON,
  the limit of 4300 digits on an integer, and a dictionary whose later entries replace the earlier
  ones. A float is kept as the text it was read from, and \<open>float_repr\<close>, what Python prints for
  it, is an argument of the writer. An escape of a lone surrogate stands for the byte that
  \<open>surrogateescape\<close> makes of it where there is one, and for its three-byte form elsewhere.
  Python refuses a text that nests deeper than its interpreter's stack with \<open>RecursionError\<close>; that limit is not
  modelled, and the statements on the reader are about an interpreter with room for the text.
\<close>

section \<open>Values\<close>

datatype json =
    JNull
  | JBool bool
  | JInt int
  | JFloat string
  | JStr string
  | JList "json list"
  | JObj "(string \<times> json) list"

abbreviation JDQ :: char where "JDQ \<equiv> CHR 0x22"
abbreviation JBS :: char where "JBS \<equiv> CHR 0x5C"

definition json_ws :: "string \<Rightarrow> string" where
  "json_ws = dropWhile (\<lambda>c. c \<in> {CHR '' '', CHR 0x09, CHR 0x0A, CHR 0x0D})"

section \<open>Strings\<close>

definition json_hex_value :: "char \<Rightarrow> nat option" where
  "json_hex_value c =
     (let n = of_char c :: nat in
      if 48 \<le> n \<and> n \<le> 57 then Some (n - 48)
      else if 97 \<le> n \<and> n \<le> 102 then Some (n - 87)
      else if 65 \<le> n \<and> n \<le> 70 then Some (n - 55)
      else None)"

fun hex4 :: "string \<Rightarrow> nat option" where
  "hex4 (a # b # c # d # _) =
     (case (json_hex_value a, json_hex_value b, json_hex_value c, json_hex_value d) of
        (Some w, Some x, Some y, Some z) \<Rightarrow> Some (((w * 16 + x) * 16 + y) * 16 + z)
      | _ \<Rightarrow> None)"
| "hex4 _ = None"

definition high_surrogate :: "nat \<Rightarrow> bool" where
  "high_surrogate n \<longleftrightarrow> 0xD800 \<le> n \<and> n \<le> 0xDBFF"

definition low_surrogate :: "nat \<Rightarrow> bool" where
  "low_surrogate n \<longleftrightarrow> 0xDC00 \<le> n \<and> n \<le> 0xDFFF"

text \<open>The bytes that a code point stands for.\<close>

definition utf8_of :: "nat \<Rightarrow> string" where
  "utf8_of n =
     (if n < 0x80 then [char_of n]
      else if n < 0x800 then [char_of (0xC0 + n div 64), char_of (0x80 + n mod 64)]
      else if 0xDC80 \<le> n \<and> n \<le> 0xDCFF then [char_of (n - 0xDC00)]
      else if n < 0x10000
        then [char_of (0xE0 + n div 4096), char_of (0x80 + n div 64 mod 64), char_of (0x80 + n mod 64)]
      else [char_of (0xF0 + n div 262144), char_of (0x80 + n div 4096 mod 64),
            char_of (0x80 + n div 64 mod 64), char_of (0x80 + n mod 64)])"

definition simple_escape :: "char \<Rightarrow> char option" where
  "simple_escape e =
     (if e = JDQ \<or> e = JBS \<or> e = CHR ''/'' then Some e
      else if e = CHR ''b'' then Some (CHR 0x08)
      else if e = CHR ''f'' then Some (CHR 0x0C)
      else if e = CHR ''n'' then Some (CHR 0x0A)
      else if e = CHR ''r'' then Some (CHR 0x0D)
      else if e = CHR ''t'' then Some (CHR 0x09)
      else None)"

definition prepend :: "string \<Rightarrow> error + (string \<times> string) \<Rightarrow> error + (string \<times> string)" where
  "prepend p r = (case r of Inl e \<Rightarrow> Inl e | Inr (x, rest) \<Rightarrow> Inr (p @ x, rest))"

text \<open>The characters after an opening quote, up to and past the closing one.\<close>

fun json_string :: "string \<Rightarrow> error + (string \<times> string)" where
  "json_string [] = Inl ValueError"
| "json_string (c # s) =
     (if c = JDQ then Inr ([], s)
      else if c = JBS then
        (case s of
           [] \<Rightarrow> Inl ValueError
         | e # t \<Rightarrow>
             if e = CHR ''u'' then
               (case hex4 t of
                  None \<Rightarrow> Inl ValueError
                | Some n \<Rightarrow>
                    if high_surrogate n \<and> take 2 (drop 4 t) = [JBS, CHR ''u''] then
                      (case hex4 (drop 6 t) of
                         None \<Rightarrow> Inl ValueError
                       | Some m \<Rightarrow>
                           if low_surrogate m
                           then prepend (utf8_of (0x10000 + (n - 0xD800) * 0x400 + (m - 0xDC00))) (json_string (drop 10 t))
                           else prepend (utf8_of n) (json_string (drop 4 t)))
                    else prepend (utf8_of n) (json_string (drop 4 t)))
             else (case simple_escape e of
                     None \<Rightarrow> Inl ValueError
                   | Some x \<Rightarrow> prepend [x] (json_string t)))
      else if (of_char c :: nat) < 0x20 then Inl ValueError
      else prepend [c] (json_string s))"

section \<open>Numbers\<close>

definition is_digit :: "char \<Rightarrow> bool" where
  "is_digit c \<longleftrightarrow> CHR ''0'' \<le> c \<and> c \<le> CHR ''9''"

definition digits_value :: "string \<Rightarrow> nat" where
  "digits_value s = foldl (\<lambda>n c. n * 10 + (of_char c - 48)) 0 s"

definition int_digits :: "string \<Rightarrow> string" where
  "int_digits s = (if take 1 s = ''0'' then ''0'' else takeWhile is_digit s)"

definition frac_part :: "string \<Rightarrow> string" where
  "frac_part s = (case s of
      c # t \<Rightarrow> if c = CHR ''.'' \<and> takeWhile is_digit t \<noteq> [] then c # takeWhile is_digit t else []
    | [] \<Rightarrow> [])"

definition exp_part :: "string \<Rightarrow> string" where
  "exp_part s = (case s of
      c # t \<Rightarrow>
        if c = CHR ''e'' \<or> c = CHR ''E''
        then let sign = (case t of x # _ \<Rightarrow> if x = CHR ''-'' \<or> x = CHR ''+'' then [x] else [] | [] \<Rightarrow> []);
                 ds = takeWhile is_digit (drop (length sign) t)
             in if ds \<noteq> [] then c # sign @ ds else []
        else []
    | [] \<Rightarrow> [])"

definition MAX_STR_DIGITS :: nat where "MAX_STR_DIGITS = 4300"

definition json_number :: "string \<Rightarrow> error + (json \<times> string)" where
  "json_number s =
     (let sign = (if take 1 s = ''-'' then ''-'' else []);
          body = drop (length sign) s;
          ds = int_digits body;
          r1 = drop (length ds) body;
          fr = frac_part r1;
          r2 = drop (length fr) r1;
          ex = exp_part r2
      in if ds = [] then Inl ValueError
         else if fr \<noteq> [] \<or> ex \<noteq> [] then Inr (JFloat (sign @ ds @ fr @ ex), drop (length ex) r2)
         else if length ds > MAX_STR_DIGITS then Inl ValueError
         else Inr (JInt ((if sign = [] then 1 else -1) * int (digits_value ds)), r1))"

section \<open>\<open>json.loads\<close>\<close>

definition literals :: "(string \<times> json) list" where
  "literals =
     [(''null'', JNull), (''true'', JBool True), (''false'', JBool False), (''NaN'', JFloat ''NaN''),
      (''Infinity'', JFloat ''Infinity''), (''-Infinity'', JFloat ''-Infinity'')]"

definition json_atom :: "string \<Rightarrow> error + (json \<times> string)" where
  "json_atom s =
     (case find (\<lambda>l. startswith s (fst l)) literals of
        Some (w, v) \<Rightarrow> Inr (v, drop (length w) s)
      | None \<Rightarrow> json_number s)"

text \<open>
  A value inside a list is read with two units of fuel, one for the list and one for the value, and
  every bracket or separator before it is a character: twice the length of the text is enough.
  The interpreter's limit on nested calls is left out.
\<close>

fun json_value :: "nat \<Rightarrow> string \<Rightarrow> error + (json \<times> string)"
  and json_items :: "nat \<Rightarrow> string \<Rightarrow> error + (json list \<times> string)"
  and json_members :: "nat \<Rightarrow> (string \<times> json) list \<Rightarrow> string \<Rightarrow> error + ((string \<times> json) list \<times> string)"
where
  "json_value 0 s = Inl OutOfFuel"
| "json_value (Suc f) s =
     (case s of
        [] \<Rightarrow> Inl ValueError
      | c # t \<Rightarrow>
          if c = JDQ then andthen (json_string t) (\<lambda>(x, r). Inr (JStr x, r))
          else if c = CHR ''{'' then
            (if take 1 (json_ws t) = ''}'' then Inr (JObj [], drop 1 (json_ws t))
             else andthen (json_members f [] (json_ws t)) (\<lambda>(kvs, r). Inr (JObj kvs, r)))
          else if c = CHR ''['' then
            (if take 1 (json_ws t) = '']'' then Inr (JList [], drop 1 (json_ws t))
             else andthen (json_items f (json_ws t)) (\<lambda>(xs, r). Inr (JList xs, r)))
          else json_atom s)"
| "json_items 0 s = Inl OutOfFuel"
| "json_items (Suc f) s =
     andthen (json_value f s) (\<lambda>(x, r).
       case json_ws r of
         [] \<Rightarrow> Inl ValueError
       | c # t \<Rightarrow>
           if c = CHR '']'' then Inr ([x], t)
           else if c = CHR '','' then andthen (json_items f (json_ws t)) (\<lambda>(xs, r'). Inr (x # xs, r'))
           else Inl ValueError)"
| "json_members 0 acc s = Inl OutOfFuel"
| "json_members (Suc f) acc s =
     (case s of
        [] \<Rightarrow> Inl ValueError
      | q # t \<Rightarrow>
          if q \<noteq> JDQ then Inl ValueError
          else andthen (json_string t) (\<lambda>(k, r1).
            case json_ws r1 of
              [] \<Rightarrow> Inl ValueError
            | c # t1 \<Rightarrow>
                if c \<noteq> CHR '':'' then Inl ValueError
                else andthen (json_value f (json_ws t1)) (\<lambda>(v, r2).
                  case json_ws r2 of
                    [] \<Rightarrow> Inl ValueError
                  | d # t2 \<Rightarrow>
                      if d = CHR ''}'' then Inr (dict_set k v acc, t2)
                      else if d = CHR '','' then json_members f (dict_set k v acc) (json_ws t2)
                      else Inl ValueError)))"

definition json_loads :: "string \<Rightarrow> error + json" where
  "json_loads s =
     (if startswith s [CHR 0xEF, CHR 0xBB, CHR 0xBF] then Inl ValueError
      else andthen (json_value (Suc (2 * length (json_ws s))) (json_ws s)) (\<lambda>(v, r).
             if json_ws r = [] then Inr v else Inl ValueError))"

section \<open>\<open>json.dumps\<close> with sorted keys, no spaces, and text left as it is\<close>

definition json_hex_digit :: "nat \<Rightarrow> char" where
  "json_hex_digit n = char_of (if n < 10 then 48 + n else 87 + n)"

definition json_escape :: "char \<Rightarrow> string" where
  "json_escape c =
     (let n = of_char c :: nat in
      if c = JDQ \<or> c = JBS then [JBS, c]
      else if n = 0x08 then [JBS, CHR ''b'']
      else if n = 0x0C then [JBS, CHR ''f'']
      else if n = 0x0A then [JBS, CHR ''n'']
      else if n = 0x0D then [JBS, CHR ''r'']
      else if n = 0x09 then [JBS, CHR ''t'']
      else if n < 0x20 then [JBS, CHR ''u'', CHR ''0'', CHR ''0'', json_hex_digit (n div 16), json_hex_digit (n mod 16)]
      else [c])"

definition json_quote :: "string \<Rightarrow> string" where
  "json_quote s = JDQ # concat (map json_escape s) @ [JDQ]"

fun nat_digits :: "nat \<Rightarrow> string" where
  "nat_digits n = (if n < 10 then [char_of (48 + n)] else nat_digits (n div 10) @ [char_of (48 + n mod 10)])"

definition int_text :: "int \<Rightarrow> string" where
  "int_text i = (if i < 0 then CHR ''-'' # nat_digits (nat (- i)) else nat_digits (nat i))"

fun json_dumps :: "(string \<Rightarrow> string) \<Rightarrow> json \<Rightarrow> string" where
  "json_dumps float_repr JNull = ''null''"
| "json_dumps float_repr (JBool b) = (if b then ''true'' else ''false'')"
| "json_dumps float_repr (JInt i) = int_text i"
| "json_dumps float_repr (JFloat t) = float_repr t"
| "json_dumps float_repr (JStr s) = json_quote s"
| "json_dumps float_repr (JList xs) = ''['' @ join '','' (map (json_dumps float_repr) xs) @ '']''"
| "json_dumps float_repr (JObj kvs) =
     ''{'' @ join '','' (map snd (sort_key fst
       (map (\<lambda>(k, v). (k, json_quote k @ '':'' @ json_dumps float_repr v)) kvs))) @ ''}''"

section \<open>Lexemes\<close>

text \<open>What may follow a value inside a text: its end, a separator or a closing bracket.\<close>

definition ends_value :: "string \<Rightarrow> bool" where
  "ends_value r \<longleftrightarrow> (case r of [] \<Rightarrow> True | c # _ \<Rightarrow> c = CHR '','' \<or> c = CHR '']'' \<or> c = CHR ''}'')"

lemma ends_value_simps [simp]:
  "ends_value []" "ends_value (c # r) \<longleftrightarrow> c = CHR '','' \<or> c = CHR '']'' \<or> c = CHR ''}''"
  by (simp_all add: ends_value_def)

lemma json_ws_simps [simp]:
  "json_ws [] = []" "c \<notin> {CHR '' '', CHR 0x09, CHR 0x0A, CHR 0x0D} \<Longrightarrow> json_ws (c # s) = c # s"
  by (simp_all add: json_ws_def)

lemma json_ws_ends [simp]: "ends_value r \<Longrightarrow> json_ws r = r"
  by (cases r) auto

lemma length_json_ws: "length (json_ws s) \<le> length s"
  by (simp add: json_ws_def length_dropWhile_le)

lemma takeWhile_digits_append:
  "ends_value r \<Longrightarrow> takeWhile is_digit (s @ r) = takeWhile is_digit s"
  by (induction s) (cases r, auto simp: is_digit_def)

lemma int_digits_append: "ends_value r \<Longrightarrow> s \<noteq> [] \<Longrightarrow> int_digits (s @ r) = int_digits s"
  by (cases s) (simp_all add: int_digits_def takeWhile_digits_append flip: append_Cons)

lemma frac_part_append: "ends_value r \<Longrightarrow> frac_part (s @ r) = frac_part s"
  by (cases s; cases r) (auto simp: frac_part_def takeWhile_digits_append)

lemma exp_part_append:
  assumes "ends_value r" shows "exp_part (s @ r) = exp_part s"
proof (cases s)
  case Nil
  then show ?thesis using assms by (cases r) (auto simp: exp_part_def)
next
  case (Cons c t)
  show ?thesis
  proof (cases t)
    case Nil
    then show ?thesis using assms Cons by (cases r) (auto simp: exp_part_def is_digit_def)
  next
    case (Cons d u)
    then show ?thesis using assms \<open>s = c # t\<close>
      using takeWhile_digits_append [of r "d # u"] by (simp add: exp_part_def Let_def takeWhile_digits_append)
  qed
qed

lemma length_int_digits: "length (int_digits s) \<le> length s"
  by (cases s) (auto simp: int_digits_def length_takeWhile_le)

lemma length_frac_part: "length (frac_part s) \<le> length s"
  by (cases s) (auto simp: frac_part_def length_takeWhile_le)

lemma length_exp_part: "length (exp_part s) \<le> length s"
proof (cases s)
  case (Cons c t)
  have "length (takeWhile is_digit (drop 1 t)) \<le> length t - 1" "length (takeWhile is_digit t) \<le> length t"
    using length_takeWhile_le [of is_digit "drop 1 t"] length_takeWhile_le [of is_digit t] by simp_all
  then show ?thesis unfolding Cons by (cases t) (auto simp: exp_part_def Let_def)
qed (simp add: exp_part_def)

lemma json_number_append:
  assumes r: "ends_value r" and ok: "json_number s = Inr (v, rest)"
  shows "json_number (s @ r) = Inr (v, rest @ r)"
proof -
  define sign where "sign = (if take 1 s = ''-'' then ''-'' else [])"
  define body where "body = drop (length sign) s"
  define r1 where "r1 = drop (length (int_digits body)) body"
  define r2 where "r2 = drop (length (frac_part r1)) r1"
  have sne: "s \<noteq> []" using ok by (auto simp: json_number_def int_digits_def Let_def)
  have sign: "(if take 1 (s @ r) = ''-'' then ''-'' else []) = sign" using sne by (cases s) (auto simp: sign_def)
  have body: "drop (length sign) (s @ r) = body @ r" using sne by (cases s) (auto simp: sign_def body_def)
  have bne: "body \<noteq> []" using ok by (auto simp: json_number_def Let_def int_digits_def body_def sign_def split: if_splits)
  have d1: "drop (length (int_digits body)) (body @ r) = r1 @ r" using length_int_digits [of body] by (simp add: r1_def)
  have d2: "drop (length (frac_part r1)) (r1 @ r) = r2 @ r" using length_frac_part [of r1] by (simp add: r2_def)
  have d3: "drop (length (exp_part r2)) (r2 @ r) = drop (length (exp_part r2)) r2 @ r"
    using length_exp_part [of r2] by simp
  show ?thesis
    using ok unfolding json_number_def Let_def sign body d1 d2 int_digits_append [OF r bne] frac_part_append [OF r]
      exp_part_append [OF r] d3 sign_def [symmetric] body_def [symmetric] r1_def [symmetric] r2_def [symmetric]
    by (auto split: if_splits)
qed

lemma startswith_ends:
  assumes "ends_value r" "w \<in> fst ` set literals"
  shows "startswith (s @ r) w \<longleftrightarrow> startswith s w"
proof -
  have nw: "CHR '','' \<notin> set w" "CHR '']'' \<notin> set w" "CHR ''}'' \<notin> set w" using assms(2) by (auto simp: literals_def)
  have "length w \<le> length s" if sw: "startswith (s @ r) w"
  proof (rule ccontr)
    assume "\<not> length w \<le> length s"
    then obtain c t where r: "r = c # t" using sw by (cases r) (auto simp: startswith_def)
    have "w = take (length w) (s @ r)" using sw by (simp add: startswith_def)
    also have "\<dots> = s @ c # take (length w - length s - 1) t"
      using \<open>\<not> length w \<le> length s\<close> by (simp add: r take_Cons')
    finally have "c \<in> set w" by (metis in_set_conv_decomp)
    then show False using nw assms(1) by (auto simp: r)
  qed
  moreover have "length w \<le> length s" if "startswith s w"
    using that by (auto simp: startswith_iff)
  ultimately show ?thesis by (cases "length w \<le> length s") (simp add: startswith_def, blast)
qed

lemma find_cong_set: "(\<And>x. x \<in> set xs \<Longrightarrow> P x = Q x) \<Longrightarrow> find P xs = find Q xs"
  by (induction xs) auto

lemma json_atom_append:
  assumes r: "ends_value r" and ok: "json_atom s = Inr (v, rest)"
  shows "json_atom (s @ r) = Inr (v, rest @ r)"
proof -
  have same: "find (\<lambda>l. startswith (s @ r) (fst l)) literals = find (\<lambda>l. startswith s (fst l)) literals"
    by (rule find_cong_set) (use startswith_ends [OF r] in blast)
  show ?thesis
  proof (cases "find (\<lambda>l. startswith s (fst l)) literals")
    case None
    then show ?thesis using ok json_number_append [OF r] by (simp add: json_atom_def same)
  next
    case (Some l)
    then have "length (fst l) \<le> length s"
      by (auto simp: find_Some_iff startswith_iff)
    then show ?thesis using ok Some by (cases l) (auto simp: json_atom_def same)
  qed
qed

section \<open>What is written is read\<close>

lemma prepend_simps [simp]: "prepend p (Inl e) = Inl e" "prepend p (Inr (x, r)) = Inr (p @ x, r)"
  by (simp_all add: prepend_def)

lemma prepend_prepend: "prepend p (prepend q r) = prepend (p @ q) r"
  by (auto simp: prepend_def split: sum.splits prod.splits)

lemma hex_digit_small: "n < 16 \<Longrightarrow> json_hex_value (json_hex_digit n) = Some n"
proof -
  have "\<forall>n \<in> set [0..<16]. json_hex_value (json_hex_digit n) = Some n"
    by (simp add: upt_conv_Cons json_hex_value_def json_hex_digit_def)
  then show "n < 16 \<Longrightarrow> ?thesis" by simp
qed

lemma char_numbers:
  "char_of (8 :: nat) = CHR 0x08" "char_of (9 :: nat) = CHR 0x09" "char_of (10 :: nat) = CHR 0x0A"
  "char_of (12 :: nat) = CHR 0x0C" "char_of (13 :: nat) = CHR 0x0D" "char_of (48 :: nat) = CHR ''0''"
  by code_simp+

lemma json_string_escape: "json_string (json_escape c @ t) = prepend [c] (json_string t)"
proof -
  define n :: nat where "n = of_char c"
  have c: "c = char_of n" "n < 256" by (simp_all add: n_def)
  consider "n = 0x22" | "n = 0x5C" | "n = 0x08" | "n = 0x0C" | "n = 0x0A" | "n = 0x0D" | "n = 0x09"
    | (control) "n < 0x20" "n \<notin> {0x08, 0x0C, 0x0A, 0x0D, 0x09}"
    | (plain) "0x20 \<le> n" "n \<noteq> 0x22" "n \<noteq> 0x5C" by fastforce
  then show ?thesis
  proof cases
    case control
    then have ne: "c \<noteq> JDQ" "c \<noteq> JBS" by (auto simp: n_def)
    have e: "json_escape c = [JBS, CHR ''u'', CHR ''0'', CHR ''0'', json_hex_digit (n div 16), json_hex_digit (n mod 16)]"
      using control ne by (simp add: json_escape_def n_def [symmetric])
    have "n div 16 < 16" "n mod 16 < 16" "n div 16 * 16 + n mod 16 = n" using control by auto
    then have h: "hex4 (CHR ''0'' # CHR ''0'' # json_hex_digit (n div 16) # json_hex_digit (n mod 16) # t) = Some n"
      by (simp add: hex_digit_small) (simp add: json_hex_value_def)
    have u: "utf8_of n = [c]" "\<not> high_surrogate n" using control c by (simp_all add: utf8_of_def high_surrogate_def)
    show ?thesis unfolding e using h u by (simp del: hex4.simps)
  next
    case plain
    then have "c \<noteq> JDQ" "c \<noteq> JBS" by (auto simp: n_def)
    then show ?thesis using plain by (simp add: json_escape_def n_def [symmetric] Let_def)
  qed (simp_all add: c json_escape_def Let_def simple_escape_def char_numbers)
qed

lemma json_string_quoted: "json_string (concat (map json_escape s) @ JDQ # r) = Inr (s, r)"
  by (induction s) (simp_all add: json_string_escape)

lemma digit_char: "n < 10 \<Longrightarrow> is_digit (char_of (48 + n :: nat))"
  "n < 10 \<Longrightarrow> of_char (char_of (48 + n :: nat)) = (48 + n :: nat)"
  by (simp_all add: is_digit_def less_eq_char_def)

declare nat_digits.simps [simp del]

lemma nat_digits_digits: "\<forall>c \<in> set (nat_digits n). is_digit c"
  by (induction n rule: nat_digits.induct) (subst nat_digits.simps, auto simp: digit_char)

lemma nat_digits_ne [simp]: "nat_digits n \<noteq> []"
  by (subst nat_digits.simps) simp

lemma digits_value_nat_digits [simp]: "digits_value (nat_digits n) = n"
proof (induction n rule: nat_digits.induct)
  case (1 n)
  then show ?case
    by (subst nat_digits.simps) (auto simp: digits_value_def digit_char)
qed

lemma nat_digits_head: "n \<noteq> 0 \<Longrightarrow> hd (nat_digits n) \<noteq> CHR ''0''"
proof (induction n rule: nat_digits.induct)
  case (1 n)
  have "n < 10 \<Longrightarrow> n \<noteq> 0 \<Longrightarrow> char_of (48 + n) \<noteq> CHR ''0''"
  proof
    assume "n < 10" "n \<noteq> 0" "char_of (48 + n) = CHR ''0''"
    then have "of_char (char_of (48 + n)) = (of_char (CHR ''0'') :: nat)" by simp
    then show False using digit_char(2) [OF \<open>n < 10\<close>] \<open>n \<noteq> 0\<close> by simp
  qed
  then show ?case using 1 by (subst nat_digits.simps) (auto simp: hd_append)
qed

lemma int_digits_nat: "int_digits (nat_digits n) = nat_digits n"
proof (cases "n = 0")
  case True
  have "nat_digits 0 = ''0''" by (subst nat_digits.simps) (simp add: char_numbers)
  then show ?thesis by (simp add: True int_digits_def)
next
  case False
  then show ?thesis using nat_digits_head [OF False] nat_digits_digits [of n]
    by (cases "nat_digits n") (auto simp: int_digits_def intro: takeWhile_eq_all_conv [THEN iffD2])
qed

lemma not_dash_digit: "is_digit c \<Longrightarrow> c \<noteq> CHR ''-''"
  by (auto simp: is_digit_def)

lemma json_number_int:
  assumes "length (nat_digits (nat \<bar>i\<bar>)) \<le> MAX_STR_DIGITS"
  shows "json_number (int_text i) = Inr (JInt i, [])"
proof -
  have hd: "take 1 (nat_digits n) \<noteq> ''-''" for n
    using nat_digits_digits [of n] by (cases "nat_digits n") (auto dest: not_dash_digit)
  show ?thesis using assms hd
    by (cases "i < 0")
      (auto simp: json_number_def int_text_def Let_def int_digits_nat frac_part_def exp_part_def)
qed

text \<open>A text that is read as a float, and is that float's text.\<close>

definition float_text :: "string \<Rightarrow> bool" where
  "float_text t \<longleftrightarrow> json_atom t = Inr (JFloat t, [])"

text \<open>The values that a \<open>dict\<close> of the decoder holds, and the form they have after writing and reading.\<close>

fun json_ok :: "json \<Rightarrow> bool" where
  "json_ok (JInt i) \<longleftrightarrow> length (nat_digits (nat \<bar>i\<bar>)) \<le> MAX_STR_DIGITS"
| "json_ok (JFloat t) \<longleftrightarrow> float_text t"
| "json_ok (JList xs) \<longleftrightarrow> (\<forall>x \<in> set xs. json_ok x)"
| "json_ok (JObj kvs) \<longleftrightarrow> distinct (map fst kvs) \<and> (\<forall>e \<in> set kvs. json_ok (snd e))"
| "json_ok _ \<longleftrightarrow> True"

fun json_canon :: "(string \<Rightarrow> string) \<Rightarrow> json \<Rightarrow> json" where
  "json_canon fr (JFloat t) = JFloat (fr t)"
| "json_canon fr (JList xs) = JList (map (json_canon fr) xs)"
| "json_canon fr (JObj kvs) = JObj (sort_key fst (map (\<lambda>e. (fst e, json_canon fr (snd e))) kvs))"
| "json_canon fr v = v"

definition keeps_floats :: "(string \<Rightarrow> string) \<Rightarrow> bool" where
  "keeps_floats fr \<longleftrightarrow> (\<forall>t. float_text t \<longrightarrow> float_text (fr t))"

text \<open>What a written value starts with: no white space, and the bracket only if it is one.\<close>

lemma json_atom_head:
  assumes "json_atom s = Inr vr"
  shows "s \<noteq> []" and "hd s \<notin> {CHR '' '', CHR 0x09, CHR 0x0A, CHR 0x0D, JDQ, CHR ''{'', CHR ''['', CHR ''}'', CHR '']''}"
proof -
  have "s \<noteq> [] \<and> (hd s = CHR ''-'' \<or> is_digit (hd s) \<or> hd s \<in> set ''ntfNI-'')"
  proof (cases "find (\<lambda>l. startswith s (fst l)) literals")
    case None
    then have n: "json_number s = Inr vr" using assms by (simp add: json_atom_def)
    then have "s \<noteq> []" by (auto simp: json_number_def int_digits_def Let_def)
    then obtain c t where s: "s = c # t" by (cases s) auto
    show ?thesis using n unfolding s
      by (auto simp: json_number_def Let_def int_digits_def is_digit_def split: if_splits)
  next
    case (Some l)
    then have "l \<in> set literals" "startswith s (fst l)" by (auto simp: find_Some_iff)
    then show ?thesis by (auto simp: literals_def startswith_iff)
  qed
  then show "s \<noteq> []" "hd s \<notin> {CHR '' '', CHR 0x09, CHR 0x0A, CHR 0x0D, JDQ, CHR ''{'', CHR ''['', CHR ''}'', CHR '']''}"
    by (auto simp: is_digit_def)
qed

lemma json_value_atom:
  assumes "json_atom s = Inr (v, [])" "ends_value r" "f > 0"
  shows "json_value f (s @ r) = Inr (v, r)"
proof -
  obtain c t where s: "s = c # t" and c: "c \<notin> {JDQ, CHR ''{'', CHR ''[''}"
    using json_atom_head [OF assms(1)] by (cases s) auto
  have "json_atom (s @ r) = Inr (v, r)" using json_atom_append [OF assms(2,1)] by simp
  then show ?thesis using s c assms(3) by (cases f) auto
qed

lemma json_atom_int:
  assumes "length (nat_digits (nat \<bar>i\<bar>)) \<le> MAX_STR_DIGITS"
  shows "json_atom (int_text i) = Inr (JInt i, [])"
proof -
  obtain d ds where d: "nat_digits (nat \<bar>i\<bar>) = d # ds" by (cases "nat_digits (nat \<bar>i\<bar>)") auto
  have "is_digit d" using nat_digits_digits [of "nat \<bar>i\<bar>"] by (simp add: d)
  then have nl: "d \<notin> set ''ntfNI''" by (auto simp: is_digit_def)
  have "\<not> startswith (int_text i) w" if "w \<in> fst ` set literals" for w
    using that nl d \<open>is_digit d\<close> not_dash_digit [of d]
    by (cases "i < 0") (auto simp: literals_def int_text_def startswith_def)
  then have "find (\<lambda>l. startswith (int_text i) (fst l)) literals = None"
    unfolding find_None_iff by (metis image_eqI)
  then show ?thesis using json_number_int [OF assms] by (simp add: json_atom_def)
qed

lemma json_dumps_head:
  assumes "json_ok j" "keeps_floats fr"
  obtains c t where "json_dumps fr j = c # t"
    "c \<notin> {CHR '' '', CHR 0x09, CHR 0x0A, CHR 0x0D, CHR ''}'', CHR '']''}"
proof -
  have atom: "json_dumps fr j \<noteq> [] \<and> hd (json_dumps fr j) \<notin> {CHR '' '', CHR 0x09, CHR 0x0A, CHR 0x0D, CHR ''}'', CHR '']''}"
    if "json_atom (json_dumps fr j) = Inr vr" for vr
    using json_atom_head [OF that] by auto
  have "json_dumps fr j \<noteq> [] \<and> hd (json_dumps fr j) \<notin> {CHR '' '', CHR 0x09, CHR 0x0A, CHR 0x0D, CHR ''}'', CHR '']''}"
  proof (cases j)
    case (JInt i)
    then show ?thesis using assms json_atom_int atom by simp
  next
    case (JFloat t)
    then show ?thesis using assms atom by (simp add: keeps_floats_def float_text_def)
  qed (simp_all add: json_quote_def)
  then show ?thesis using that by (cases "json_dumps fr j") auto
qed

lemma json_items_join:
  assumes "xs \<noteq> []" "\<forall>x \<in> set xs. \<exists>c t. D x = c # t \<and> c \<notin> {CHR '' '', CHR 0x09, CHR 0x0A, CHR 0x0D}"
    and "\<And>x f r. x \<in> set xs \<Longrightarrow> ends_value r \<Longrightarrow> length (D x) < f \<Longrightarrow> json_value f (D x @ r) = Inr (V x, r)"
    and "length (join '','' (map D xs)) + 1 < f"
  shows "json_items f (join '','' (map D xs) @ '']'' @ r) = Inr (map V xs, r)"
  using assms
proof (induction xs arbitrary: f)
  case (Cons x xs)
  obtain g where f: "f = Suc g" using Cons.prems(4) by (cases f) simp_all
  show ?case
  proof (cases xs)
    case Nil
    then show ?thesis using Cons.prems f by simp
  next
    case (Cons y ys)
    obtain c t where c: "D y = c # t" "c \<notin> {CHR '' '', CHR 0x09, CHR 0x0A, CHR 0x0D}"
      using Cons.prems(2) Cons by auto
    have ws: "json_ws (join '','' (map D xs) @ '']'' @ r) = join '','' (map D xs) @ '']'' @ r"
      unfolding Cons using c by (cases ys) simp_all
    have "json_items g (join '','' (map D xs) @ '']'' @ r) = Inr (map V xs, r)"
      by (rule Cons.IH) (use Cons Cons.prems f in \<open>auto\<close>)
    then show ?thesis using Cons.prems Cons f ws by simp
  qed
qed simp

lemma json_members_join:
  assumes "es \<noteq> []" "\<forall>e \<in> set es. \<exists>c t. D e = c # t \<and> c \<notin> {CHR '' '', CHR 0x09, CHR 0x0A, CHR 0x0D}"
    and "\<And>e f r. e \<in> set es \<Longrightarrow> ends_value r \<Longrightarrow> length (D e) < f \<Longrightarrow> json_value f (D e @ r) = Inr (V e, r)"
    and "length (join '','' (map (\<lambda>e. json_quote (fst e) @ '':'' @ D e) es)) + 1 < f"
    and "distinct (map fst acc @ map fst es)"
  shows "json_members f acc (join '','' (map (\<lambda>e. json_quote (fst e) @ '':'' @ D e) es) @ ''}'' @ r) =
     Inr (acc @ map (\<lambda>e. (fst e, V e)) es, r)"
  using assms
proof (induction es arbitrary: f acc)
  case (Cons e es)
  obtain g where f: "f = Suc g" using Cons.prems(4) by (cases f) simp_all
  obtain c t where c: "D e = c # t" "c \<notin> {CHR '' '', CHR 0x09, CHR 0x0A, CHR 0x0D}" using Cons.prems(2) by auto
  have fresh: "dict_set (fst e) (V e) acc = acc @ [(fst e, V e)]" using Cons.prems(5) by (intro dict_set_fresh) auto
  have val: "json_value g (D e @ u) = Inr (V e, u)" if "ends_value u" for u
  proof (rule Cons.prems(3))
    show "length (D e) < g" using Cons.prems(4) f by (cases es) (auto simp: json_quote_def)
  qed (simp_all add: that)
  have ws: "json_ws (D e @ u) = D e @ u" for u using c by simp
  have step: "json_members f acc (json_quote (fst e) @ '':'' @ D e @ d # u) =
      (if d = CHR ''}'' then Inr (acc @ [(fst e, V e)], u)
       else json_members g (acc @ [(fst e, V e)]) (json_ws u))" if "d = CHR ''}'' \<or> d = CHR '',''" for d u
    using that val [of "d # u"] by (auto simp: f json_quote_def json_string_quoted ws fresh)
  show ?case
  proof (cases es)
    case Nil
    then show ?thesis using step [of "CHR ''}''" r] by simp
  next
    case (Cons e' es')
    let ?rest = "join '','' (map (\<lambda>e. json_quote (fst e) @ '':'' @ D e) es) @ ''}'' @ r"
    have "json_ws ?rest = ?rest" unfolding Cons by (cases es') (simp_all add: json_quote_def)
    moreover have "json_members g (acc @ [(fst e, V e)]) ?rest = Inr ((acc @ [(fst e, V e)]) @ map (\<lambda>e. (fst e, V e)) es, r)"
      by (rule Cons.IH) (use Cons Cons.prems f in \<open>auto simp: json_quote_def\<close>)
    ultimately show ?thesis using step [of "CHR '',''" ?rest] Cons by simp
  qed
qed simp

lemma json_value_dumps:
  assumes "json_ok j" "keeps_floats fr" "ends_value r" "length (json_dumps fr j) < f"
  shows "json_value f (json_dumps fr j @ r) = Inr (json_canon fr j, r)"
  using assms(1,3,4)
proof (induction j arbitrary: f r)
  case JNull
  then show ?case using json_value_atom [of "''null''" JNull r f]
    by (auto simp: json_atom_def literals_def startswith_def)
next
  case (JBool b)
  then show ?case
    using json_value_atom [of "''true''" "JBool True" r f] json_value_atom [of "''false''" "JBool False" r f]
    by (auto simp: json_atom_def literals_def startswith_def)
next
  case (JInt i)
  then show ?case using json_value_atom [OF json_atom_int] by simp
next
  case (JFloat t)
  then show ?case using json_value_atom assms(2) by (simp add: keeps_floats_def float_text_def)
next
  case (JStr s)
  then obtain g where "f = Suc g" by (cases f) simp_all
  then show ?case by (simp add: json_quote_def json_string_quoted)
next
  case (JList xs)
  then obtain g where f: "f = Suc g" by (cases f) simp_all
  show ?case
  proof (cases "xs = []")
    case True
    then show ?thesis by (simp add: f)
  next
    case False
    have heads: "\<forall>x \<in> set xs. \<exists>c t. json_dumps fr x = c # t \<and> c \<notin> {CHR '' '', CHR 0x09, CHR 0x0A, CHR 0x0D, CHR ''}'', CHR '']''}"
      using JList.prems(1) json_dumps_head assms(2) by (metis json_ok.simps(3))
    have items: "json_items g (join '','' (map (json_dumps fr) xs) @ '']'' @ r) = Inr (map (json_canon fr) xs, r)"
      by (rule json_items_join) (use False heads JList f in auto)
    obtain y ys c t where "xs = y # ys" "json_dumps fr y = c # t"
        "c \<notin> {CHR '' '', CHR 0x09, CHR 0x0A, CHR 0x0D, CHR ''}'', CHR '']''}"
      using False heads by (cases xs) auto
    then obtain u where u: "join '','' (map (json_dumps fr) xs) = c # u" by (cases ys) simp_all
    show ?thesis using items \<open>c \<notin> _\<close> by (simp add: f u)
  qed
next
  case (JObj kvs)
  then obtain g where f: "f = Suc g" by (cases f) simp_all
  define es where "es = sort_key fst kvs"
  have es: "set es = set kvs" "distinct (map fst es)" 
    using JObj.prems(1) sort_key_map [of "\<lambda>x. x" fst kvs] distinct_sort [of "\<lambda>x. x" "map fst kvs"] by (simp_all add: es_def)
  have dump: "json_dumps fr (JObj kvs) = ''{'' @ join '','' (map (\<lambda>e. json_quote (fst e) @ '':'' @ json_dumps fr (snd e)) es) @ ''}''"
    by (simp add: es_def case_prod_unfold sort_key_map o_def)
  have canon: "json_canon fr (JObj kvs) = JObj (map (\<lambda>e. (fst e, json_canon fr (snd e))) es)"
    by (simp add: es_def sort_key_map)
  show ?case
  proof (cases "kvs = []")
    case True
    then show ?thesis by (simp add: f)
  next
    case False
    then have ne: "es \<noteq> []" using es(1) by auto
    have heads: "\<forall>e \<in> set es. \<exists>c t. json_dumps fr (snd e) = c # t \<and> c \<notin> {CHR '' '', CHR 0x09, CHR 0x0A, CHR 0x0D}"
      using JObj.prems(1) json_dumps_head assms(2) es(1) by (metis insert_iff json_ok.simps(4))
    have ih: "json_value h (json_dumps fr (snd e) @ q) = Inr (json_canon fr (snd e), q)"
      if "e \<in> set es" "ends_value q" "length (json_dumps fr (snd e)) < h" for e h q
      by (rule JObj.IH [of e "snd e"]) (use that es(1) JObj.prems(1) in \<open>auto simp: prod_set_defs\<close>)
    have "json_members g [] (join '','' (map (\<lambda>e. json_quote (fst e) @ '':'' @ json_dumps fr (snd e)) es) @ ''}'' @ r) =
        Inr ([] @ map (\<lambda>e. (fst e, json_canon fr (snd e))) es, r)"
      by (rule json_members_join) (use ne heads ih es(2) JObj.prems(3) f in \<open>auto simp: dump simp del: json_dumps.simps\<close>)
    moreover obtain u where "join '','' (map (\<lambda>e. json_quote (fst e) @ '':'' @ json_dumps fr (snd e)) es) = JDQ # u"
      using ne by (cases es; cases "tl es") (simp_all add: json_quote_def)
    ultimately show ?thesis unfolding dump canon by (simp add: f)
  qed
qed

lemma json_loads_dumps:
  assumes "json_ok j" "keeps_floats fr" "\<not> startswith (json_dumps fr j) [CHR 0xEF, CHR 0xBB, CHR 0xBF]"
  shows "json_loads (json_dumps fr j) = Inr (json_canon fr j)"
proof -
  obtain c t where d: "json_dumps fr j = c # t" "c \<notin> {CHR '' '', CHR 0x09, CHR 0x0A, CHR 0x0D, CHR ''}'', CHR '']''}"
    using json_dumps_head [OF assms(1,2)] .
  have ws: "json_ws (json_dumps fr j) = json_dumps fr j" using d by simp
  show ?thesis
    using json_value_dumps [OF assms(1,2), of "[]" "Suc (2 * length (json_dumps fr j))"] assms(3)
    by (simp add: json_loads_def ws)
qed

section \<open>What is read is a value\<close>

lemma dict_set_values: "e \<in> set (dict_set k v d) \<Longrightarrow> e = (k, v) \<or> e \<in> set d"
  by (induction d) (auto split: if_splits)

lemma digits_value_less: "\<forall>c \<in> set s. is_digit c \<Longrightarrow> digits_value s < 10 ^ length s"
proof (induction s rule: rev_induct)
  case (snoc c s)
  then have "of_char c - 48 < (10 :: nat)" by (auto simp: is_digit_def less_eq_char_def)
  moreover have "digits_value s < 10 ^ length s" using snoc by simp
  ultimately show ?case by (simp add: digits_value_def)
qed (simp add: digits_value_def)

lemma length_nat_digits: "n < 10 ^ k \<Longrightarrow> k > 0 \<Longrightarrow> length (nat_digits n) \<le> k"
proof (induction n arbitrary: k rule: nat_digits.induct)
  case (1 n)
  show ?case
  proof (cases "n < 10")
    case True
    then show ?thesis using 1 by (subst nat_digits.simps) simp
  next
    case False
    then obtain m where k: "k = Suc m" "m > 0" using 1 by (cases k; cases "k - 1") auto
    then have "n div 10 < 10 ^ m" using 1 by (auto intro: less_mult_imp_div_less)
    then show ?thesis using 1(1) [of m] False k by (subst nat_digits.simps) simp
  qed
qed

lemma int_digits_are_digits: "\<forall>c \<in> set (int_digits s). is_digit c"
  by (auto simp: int_digits_def is_digit_def dest: set_takeWhileD)

text \<open>A number that was read is read again from its own text.\<close>

lemma takeWhile_stop: "\<forall>c \<in> set ds. P c \<Longrightarrow> (case r of [] \<Rightarrow> True | c # _ \<Rightarrow> \<not> P c) \<Longrightarrow> takeWhile P (ds @ r) = ds"
  by (cases r) (auto simp: takeWhile_append)

lemma int_digits_again:
  assumes "int_digits s = ds" "ds \<noteq> []" "case r of [] \<Rightarrow> True | c # _ \<Rightarrow> \<not> is_digit c"
  shows "int_digits (ds @ r) = ds"
proof (cases "take 1 s = ''0''")
  case True
  then show ?thesis using assms by (auto simp: int_digits_def)
next
  case False
  then have ds: "ds = takeWhile is_digit s" using assms(1) by (simp add: int_digits_def)
  then have "take 1 ds \<noteq> ''0''" using False assms(2) by (cases s) (auto split: if_splits)
  then have "take 1 (ds @ r) \<noteq> ''0''" using assms(2) by (cases ds) simp_all
  moreover have "takeWhile is_digit (ds @ r) = ds"
    by (rule takeWhile_stop) (use ds assms(3) in \<open>auto dest: set_takeWhileD\<close>)
  ultimately show ?thesis by (simp add: int_digits_def)
qed

lemma exp_part_head: "exp_part s = c # t \<Longrightarrow> c = CHR ''e'' \<or> c = CHR ''E''"
  by (cases s) (auto simp: exp_part_def Let_def split: if_splits)

lemma frac_part_again:
  "frac_part (frac_part s @ exp_part u) = frac_part s"
proof (cases "frac_part s")
  case Nil
  then show ?thesis using exp_part_head [of u] by (cases "exp_part u") (auto simp: frac_part_def)
next
  case (Cons c t)
  then obtain x xs where s: "s = x # xs" "c = CHR ''.''" "t = takeWhile is_digit xs" "t \<noteq> []"
    by (cases s) (auto simp: frac_part_def split: if_splits)
  have "takeWhile is_digit (t @ exp_part u) = t"
    by (rule takeWhile_stop)
      (use s(3) exp_part_head [of u] in \<open>auto dest: set_takeWhileD split: list.split simp: is_digit_def\<close>)
  then show ?thesis using Cons s by (simp add: frac_part_def)
qed

lemma exp_part_again: "exp_part (exp_part s) = exp_part s"
proof (cases "exp_part s")
  case Nil
  then show ?thesis by (simp add: exp_part_def)
next
  case (Cons c t)
  then obtain xs where s: "s = c # xs" by (cases s) (auto simp: exp_part_def Let_def split: if_splits)
  define sign where "sign = (case xs of x # _ \<Rightarrow> if x = CHR ''-'' \<or> x = CHR ''+'' then [x] else [] | [] \<Rightarrow> [])"
  define ds where "ds = takeWhile is_digit (drop (length sign) xs)"
  have c: "c = CHR ''e'' \<or> c = CHR ''E''" and ne: "ds \<noteq> []" and t: "t = sign @ ds"
    using Cons unfolding s exp_part_def by (auto simp: Let_def sign_def [symmetric] ds_def [symmetric] split: if_splits)
  have dd: "\<forall>d \<in> set ds. is_digit d" unfolding ds_def by (auto dest: set_takeWhileD)
  then have tw: "takeWhile is_digit ds = ds" by (simp add: takeWhile_eq_all_conv)
  have "(case t of x # _ \<Rightarrow> if x = CHR ''-'' \<or> x = CHR ''+'' then [x] else [] | [] \<Rightarrow> []) = sign"
  proof (cases sign)
    case Nil
    then show ?thesis using t ne dd by (cases ds) (auto simp: is_digit_def)
  next
    case (Cons a b)
    then show ?thesis using t by (cases xs) (auto simp: sign_def split: if_splits)
  qed
  then show ?thesis unfolding Cons using c ne t tw by (auto simp: exp_part_def Let_def simp del: takeWhile_eq_all_conv)
qed

lemma json_number_float:
  assumes "json_number s = Inr (JFloat t, rest)"
  shows "json_number t = Inr (JFloat t, [])"
proof -
  define sign where "sign = (if take 1 s = ''-'' then ''-'' else [])"
  define ds where "ds = int_digits (drop (length sign) s)"
  define r1 where "r1 = drop (length ds) (drop (length sign) s)"
  define fr where "fr = frac_part r1"
  define ex where "ex = exp_part (drop (length fr) r1)"
  have t: "ds \<noteq> []" "fr \<noteq> [] \<or> ex \<noteq> []" "t = sign @ ds @ fr @ ex"
    using assms unfolding json_number_def Let_def sign_def [symmetric] ds_def [symmetric] r1_def [symmetric]
      fr_def [symmetric] ex_def [symmetric] by (auto split: if_splits)
  have "\<forall>c \<in> set ds. is_digit c" unfolding ds_def by (rule int_digits_are_digits)
  then have sign': "(if take 1 t = ''-'' then ''-'' else []) = sign"
    using t by (cases ds) (auto simp: sign_def dest: not_dash_digit)
  have stop: "case fr @ ex of [] \<Rightarrow> True | c # _ \<Rightarrow> \<not> is_digit c"
    using exp_part_head [of "drop (length fr) r1"]
    by (cases fr; cases ex; cases r1) (auto simp: ex_def fr_def frac_part_def is_digit_def split: if_splits)
  have ds': "int_digits (ds @ fr @ ex) = ds" by (rule int_digits_again [OF ds_def [symmetric] t(1) stop])
  have fr': "frac_part (fr @ ex) = fr" unfolding fr_def ex_def by (rule frac_part_again)
  have ex': "exp_part ex = ex" unfolding ex_def by (rule exp_part_again)
  show ?thesis
    unfolding json_number_def Let_def sign' using t ds' fr' ex' by auto
qed

lemma json_atom_ok:
  assumes "json_atom s = Inr (v, rest)"
  shows "json_ok v"
proof (cases "find (\<lambda>l. startswith s (fst l)) literals")
  case None
  then have n: "json_number s = Inr (v, rest)" using assms by (simp add: json_atom_def)
  show ?thesis
  proof (cases v)
    case (JInt i)
    define ds where "ds = int_digits (drop (length (if take 1 s = ''-'' then ''-'' else [])) s)"
    have ds: "ds \<noteq> []" "length ds \<le> MAX_STR_DIGITS" "nat \<bar>i\<bar> = digits_value ds"
      using n unfolding json_number_def Let_def ds_def [symmetric] JInt by (auto split: if_splits)
    have "\<forall>c \<in> set ds. is_digit c" unfolding ds_def by (rule int_digits_are_digits)
    then have "length (nat_digits (digits_value ds)) \<le> length ds"
      using length_nat_digits [OF digits_value_less] ds(1) by simp
    then show ?thesis using ds by (simp add: JInt)
  next
    case (JFloat t)
    then have t: "json_number t = Inr (JFloat t, [])" using json_number_float n by simp
    show ?thesis
    proof (cases "find (\<lambda>l. startswith t (fst l)) literals")
      case None
      then show ?thesis using t JFloat by (simp add: float_text_def json_atom_def)
    next
      case (Some l)
      then have "l \<in> set literals" "startswith t (fst l)" by (auto simp: find_Some_iff)
      then obtain c u where "t = c # u" "c \<in> set ''ntfNI'' \<or> c = CHR ''-'' \<and> (\<exists>w. u = CHR ''I'' # w)"
        by (auto simp: literals_def startswith_iff)
      then have "int_digits (drop (length (if take 1 t = ''-'' then ''-'' else [])) t) = []"
        by (auto simp: int_digits_def is_digit_def)
      then show ?thesis using t by (simp add: json_number_def Let_def)
    qed
  qed (use n in \<open>auto simp: json_number_def Let_def split: if_splits\<close>)
next
  case (Some l)
  then have "l \<in> set literals" by (auto simp: find_Some_iff)
  moreover have "v = snd l" using assms Some by (cases l) (simp add: json_atom_def)
  ultimately show ?thesis by (auto simp: literals_def float_text_def json_atom_def startswith_def)
qed

lemma json_value_ok:
  shows "json_value f s = Inr (v, r) \<Longrightarrow> json_ok v"
    and "json_items f s = Inr (vs, r) \<Longrightarrow> \<forall>v \<in> set vs. json_ok v"
    and "json_members f acc s = Inr (kvs, r) \<Longrightarrow> json_ok (JObj acc) \<Longrightarrow> json_ok (JObj kvs)"
proof (induction f s and f s and f acc s arbitrary: v r and vs r and kvs r
    rule: json_value_json_items_json_members.induct)
  case (2 f s)
  show ?case using 2(1,2,3) json_atom_ok [of s v r]
    by (auto simp: andthen_ok_iff split: list.splits if_splits)
next
  case (4 f s)
  obtain x r1 where x: "json_value f s = Inr (x, r1)" using 4(3) by (auto simp: andthen_ok_iff)
  obtain c t where c: "json_ws r1 = c # t" using 4(3) x by (cases "json_ws r1") simp_all
  have "json_ok x" using 4(1) x by simp
  then show ?case using 4(2) [OF x refl c] 4(3) x c by (auto simp: andthen_ok_iff split: if_splits)
next
  case (6 f acc s)
  have upd: "json_ok (JObj (dict_set k w acc))" if "json_ok w" for k w
    using that 6(4) by (auto simp: distinct_dict_set dest!: dict_set_values)
  obtain t where s: "s = JDQ # t" using 6(3) by (cases s) (auto split: if_splits)
  obtain k r1 where k: "json_string t = Inr (k, r1)" using 6(3) by (auto simp: s andthen_ok_iff)
  obtain t1 where c: "json_ws r1 = CHR '':'' # t1"
    using 6(3) k by (cases "json_ws r1") (auto simp: s split: if_splits)
  obtain w r2 where w: "json_value f (json_ws t1) = Inr (w, r2)" using 6(3) k c by (auto simp: s andthen_ok_iff)
  obtain d t2 where d: "json_ws r2 = d # t2" using 6(3) k c w by (cases "json_ws r2") (simp_all add: s)
  have "json_ok w" by (rule 6(1) [OF s _ k refl c _ w]) simp_all
  then have ok: "json_ok (JObj (dict_set k w acc))" by (rule upd)
  note rest = 6(2) [OF s _ k refl c _ w refl d _ _ _ ok]
  have "(if d = CHR ''}'' then Inr (dict_set k w acc, t2)
      else if d = CHR '','' then json_members f (dict_set k w acc) (json_ws t2) else Inl ValueError) = Inr (kvs, r)"
    using 6(3) by (simp add: s k c w d)
  then show ?case using ok rest by (simp split: if_splits del: json_ok.simps)
qed simp_all

lemma json_loads_ok: "json_loads s = Inr v \<Longrightarrow> json_ok v"
  by (auto simp: json_loads_def andthen_ok_iff simp del: json_value.simps split: if_splits intro: json_value_ok(1))

section \<open>The fuel is enough\<close>

text \<open>A reader that never runs out of fuel and leaves less than it was given.\<close>

definition shortens :: "nat \<Rightarrow> error + ('a \<times> string) \<Rightarrow> bool" where
  "shortens n res \<longleftrightarrow> (case res of Inl e \<Rightarrow> e \<noteq> OutOfFuel | Inr (_, rest) \<Rightarrow> length rest < n)"

lemma shortens_simps [simp]:
  "shortens n (Inl e) \<longleftrightarrow> e \<noteq> OutOfFuel" "shortens n (Inr (x, rest)) \<longleftrightarrow> length rest < n"
  by (simp_all add: shortens_def)

lemma shortens_andthen:
  "shortens m r \<Longrightarrow> (\<And>x rest. r = Inr (x, rest) \<Longrightarrow> length rest < m \<Longrightarrow> shortens n (f (x, rest))) \<Longrightarrow> shortens n (andthen r f)"
  by (cases r) auto

lemma shortens_mono: "shortens m r \<Longrightarrow> m \<le> n \<Longrightarrow> shortens n r"
  by (auto simp: shortens_def split: sum.splits)

lemma shortens_prepend: "shortens n (prepend p r) = shortens n r"
  by (cases r) (auto simp: prepend_def)

lemma shortens_string: "shortens (length s) (json_string s)"
proof (induction s rule: length_induct)
  case (1 s)
  have ih: "shortens (length s) (json_string t)" if "length t < length s" for t
    by (rule shortens_mono [of "length t"]) (use 1 that in simp_all)
  show ?case
  proof (cases s)
    case (Cons c u)
    have "shortens (length s) (json_string u)" "shortens (length s) (json_string (drop k u))"
      "u = e # t \<Longrightarrow> shortens (length s) (json_string (drop k t))" "u = e # t \<Longrightarrow> shortens (length s) (json_string t)"
      for e t k by (rule ih, simp add: Cons)+
    then show ?thesis unfolding Cons
      by (auto simp: shortens_prepend split: list.split option.split)
  qed simp
qed

lemma shortens_number: "shortens (length s) (json_number s)"
proof -
  define sign where "sign = (if take 1 s = ''-'' then ''-'' else [])"
  define body where "body = drop (length sign) s"
  define ds where "ds = int_digits body"
  define r1 where "r1 = drop (length ds) body"
  have "length ds \<le> length body" unfolding ds_def by (rule length_int_digits)
  moreover have "length body \<le> length s" by (simp add: body_def)
  ultimately have "ds \<noteq> [] \<Longrightarrow> length r1 < length s" by (cases ds) (auto simp: r1_def)
  moreover have "json_number s = (if ds = [] then Inl ValueError
      else if frac_part r1 \<noteq> [] \<or> exp_part (drop (length (frac_part r1)) r1) \<noteq> []
      then Inr (JFloat (sign @ ds @ frac_part r1 @ exp_part (drop (length (frac_part r1)) r1)),
        drop (length (exp_part (drop (length (frac_part r1)) r1))) (drop (length (frac_part r1)) r1))
      else if length ds > MAX_STR_DIGITS then Inl ValueError
      else Inr (JInt ((if sign = [] then 1 else -1) * int (digits_value ds)), r1))"
    by (simp add: json_number_def Let_def sign_def body_def ds_def r1_def)
  ultimately show ?thesis by auto
qed

lemma shortens_atom: "shortens (length s) (json_atom s)"
proof (cases "find (\<lambda>l. startswith s (fst l)) literals")
  case None
  then show ?thesis by (simp add: json_atom_def shortens_number)
next
  case (Some l)
  then have "l \<in> set literals" "startswith s (fst l)" by (auto simp: find_Some_iff)
  then have "fst l \<noteq> []" "length (fst l) \<le> length s" by (auto simp: literals_def startswith_iff)
  moreover have "json_atom s = Inr (snd l, drop (length (fst l)) s)" using Some by (cases l) (simp add: json_atom_def)
  ultimately show ?thesis by (cases "fst l") simp_all
qed

lemma json_value_shortens:
  shows "2 * length s < f \<Longrightarrow> shortens (length s) (json_value f s)"
    and "2 * length s + 1 < f \<Longrightarrow> shortens (length s) (json_items f s)"
    and "2 * length s + 1 < f \<Longrightarrow> shortens (length s) (json_members f acc s)"
proof (induction f s and f s and f acc s rule: json_value_json_items_json_members.induct)
  case (2 f s)
  show ?case
  proof (cases s)
    case (Cons c t)
    have ws: "length (json_ws t) \<le> length t" by (rule length_json_ws)
    have str: "shortens (length s) (andthen (json_string t) (\<lambda>(x, r). Inr (JStr x, r)))"
      by (rule shortens_andthen [OF shortens_string]) (simp add: Cons)
    have obj: "shortens (length s) (andthen (json_members f [] (json_ws t)) (\<lambda>(kvs, r). Inr (JObj kvs, r)))"
      if "c \<noteq> JDQ" "c = CHR ''{''" "take 1 (json_ws t) \<noteq> ''}''"
      by (rule shortens_andthen [OF 2(1)]) (use that Cons 2(3) ws in auto)
    have arr: "shortens (length s) (andthen (json_items f (json_ws t)) (\<lambda>(xs, r). Inr (JList xs, r)))"
      if "c \<noteq> JDQ" "c \<noteq> CHR ''{''" "c = CHR ''[''" "take 1 (json_ws t) \<noteq> '']''"
      by (rule shortens_andthen [OF 2(2)]) (use that Cons 2(3) ws in auto)
    show ?thesis using str obj arr ws shortens_atom [of s] by (auto simp: Cons)
  qed simp
next
  case (4 f s)
  show ?case unfolding json_items.simps
  proof (rule shortens_andthen [OF 4(1)])
    fix x r assume v: "json_value f s = Inr (x, r)" and r: "length r < length s"
    show "shortens (length s) (case (x, r) of (x, r) \<Rightarrow>
       case json_ws r of [] \<Rightarrow> Inl ValueError | c # t \<Rightarrow>
         if c = CHR '']'' then Inr ([x], t)
         else if c = CHR '','' then andthen (json_items f (json_ws t)) (\<lambda>(xs, r'). Inr (x # xs, r'))
         else Inl ValueError)"
    proof (cases "json_ws r")
      case (Cons c t)
      then have t: "length (json_ws t) < length s" "length t < length s"
        using r length_json_ws [of r] length_json_ws [of t] by simp_all
      have "shortens (length s) (andthen (json_items f (json_ws t)) (\<lambda>(xs, r'). Inr (x # xs, r')))"
        if "c = CHR '',''"
        by (rule shortens_andthen [OF 4(2) [OF v refl Cons]]) (use that t 4(3) in auto)
      then show ?thesis using Cons t by simp
    qed simp
  qed (use 4(3) in simp)
next
  case (6 f acc s)
  show ?case
  proof (cases "\<exists>t. s = JDQ # t")
    case True
    then obtain t where s: "s = JDQ # t" ..
    have "shortens (length s) (andthen (json_value f (json_ws t1)) (\<lambda>(v, r2).
        case json_ws r2 of [] \<Rightarrow> Inl ValueError | d # t2 \<Rightarrow>
          if d = CHR ''}'' then Inr (dict_set k v acc, t2)
          else if d = CHR '','' then json_members f (dict_set k v acc) (json_ws t2) else Inl ValueError))"
      if k: "json_string t = Inr (k, r1)" and c: "json_ws r1 = CHR '':'' # t1" and r1: "length r1 < length t" for k r1 t1
    proof (rule shortens_andthen [OF 6(1) [OF s _ k refl c]])
      have t1: "length (json_ws t1) < length s" using c r1 length_json_ws [of r1] length_json_ws [of t1] by (simp add: s)
      then show "2 * length (json_ws t1) < f" using 6(3) by simp
      fix v r2 assume v: "json_value f (json_ws t1) = Inr (v, r2)" and r2: "length r2 < length (json_ws t1)"
      show "shortens (length s) (case (v, r2) of (v, r2) \<Rightarrow>
        case json_ws r2 of [] \<Rightarrow> Inl ValueError | d # t2 \<Rightarrow>
          if d = CHR ''}'' then Inr (dict_set k v acc, t2)
          else if d = CHR '','' then json_members f (dict_set k v acc) (json_ws t2) else Inl ValueError)"
      proof (cases "json_ws r2")
        case (Cons d t2)
        have t2: "length (json_ws t2) < length s" "length t2 < length s"
          using Cons r2 t1 length_json_ws [of r2] length_json_ws [of t2] by simp_all
        have "shortens (length s) (json_members f (dict_set k v acc) (json_ws t2))" if "d = CHR '',''"
          by (rule shortens_mono [OF 6(2) [OF s _ k refl c _ v refl Cons]]) (use that t2 6(3) in auto)
        then show ?thesis using Cons t2 by simp
      qed simp
    qed simp_all
    then have "shortens (length s) (case json_ws r1 of [] \<Rightarrow> Inl ValueError | c # t1 \<Rightarrow>
        if c \<noteq> CHR '':'' then Inl ValueError else andthen (json_value f (json_ws t1)) (\<lambda>(v, r2).
        case json_ws r2 of [] \<Rightarrow> Inl ValueError | d # t2 \<Rightarrow>
          if d = CHR ''}'' then Inr (dict_set k v acc, t2)
          else if d = CHR '','' then json_members f (dict_set k v acc) (json_ws t2) else Inl ValueError))"
      if "json_string t = Inr (k, r1)" "length r1 < length t" for k r1
      using that by (cases "json_ws r1") auto
    then show ?thesis unfolding s json_members.simps list.case
      by (auto intro!: shortens_andthen [OF shortens_string] simp: s)
  qed (cases s, auto)
qed simp_all

lemma json_loads_fuel: "json_loads s \<noteq> Inl OutOfFuel"
  using json_value_shortens(1) [of "json_ws s" "Suc (2 * length (json_ws s))"]
  by (auto simp: json_loads_def andthen_error_iff simp del: json_value.simps split: if_splits)

text \<open>
  A JSON text is read to a value of the type that Python gives it, or refused: every dictionary has
  each key once, an integer is within the digits that Python converts, a float is written as one; and
  the reader ends on every text.
\<close>

lemma json_loads_typed:
  "json_loads s \<noteq> Inl OutOfFuel \<and> (\<forall>v. json_loads s = Inr v \<longrightarrow> json_ok v)"
  using json_loads_fuel json_loads_ok by blast

end
