(* ===== verification/Drv_Attrs.thy ===== *)
theory Drv_Attrs
  imports Json Drv_Parser
begin

text \<open>
  A derivation as a build request carries it (\<open>nix_daemon_protocol/basic_derivation.py\<close> and
  \<open>derivation_output.py\<close>) and the system features it asks of a builder
  (\<open>pynixd/system_features.py\<close>). Its attributes are the variables of its environment, or the one
  JSON text \<open>__json\<close> when it uses structured attributes. A set of features is a list without
  repetition; the order in which Python walks a set is left open by sorting or not reading it.
\<close>

section \<open>Outputs\<close>

record DerivationOutput =
  wo_path :: string
  wo_method :: string
  wo_hash_digest :: string

definition wire_kind :: "DerivationOutput \<Rightarrow> out_kind" where
  "wire_kind out = output_kind (wo_path out) (wo_method out) (wo_hash_digest out)"

definition is_ca :: "DerivationOutput \<Rightarrow> bool" where
  "is_ca out \<longleftrightarrow> wire_kind out \<in> {CA_FIXED, CA_FLOATING, IMPURE}"

definition is_text_hashed :: "DerivationOutput \<Rightarrow> bool" where
  "is_text_hashed out \<longleftrightarrow> startswith (wo_method out) ''text:''"

definition is_dynamic_output :: "DerivationOutput \<Rightarrow> bool" where
  "is_dynamic_output out \<longleftrightarrow> is_text_hashed out \<and> wo_hash_digest out = []"

section \<open>The derivation\<close>

record BasicDerivation =
  bd_outputs :: "(string \<times> DerivationOutput) list"
  bd_input_srcs :: "string list"
  bd_platform :: string
  bd_builder :: string
  bd_args :: "string list"
  bd_env :: "(string \<times> string) list"

definition STRUCTURED_ATTRS :: string where "STRUCTURED_ATTRS = ''__json''"
definition REQUIRED_SYSTEM_FEATURES :: string where "REQUIRED_SYSTEM_FEATURES = ''requiredSystemFeatures''"

text \<open>
  A text that is no JSON object gives no attributes. (On a text that nests deeper than the interpreter's stack
  \<open>json.loads\<close> raises \<open>RecursionError\<close>, which the code does not catch; that limit is not modelled.)
\<close>

definition structured_attrs :: "(string \<times> string) list \<Rightarrow> (string \<times> json) list option" where
  "structured_attrs vars =
     (case map_of vars STRUCTURED_ATTRS of
        None \<Rightarrow> None
      | Some raw \<Rightarrow> (case json_loads raw of Inr (JObj attrs) \<Rightarrow> Some attrs | _ \<Rightarrow> None))"

definition env_flag :: "(string \<times> string) list \<Rightarrow> (string \<times> json) list option \<Rightarrow> string \<Rightarrow> bool" where
  "env_flag vars attrs name =
     (case attrs of
        None \<Rightarrow> map_of vars name = Some ''1''
      | Some a \<Rightarrow> map_of a name = Some (JBool True))"

definition bool_attr :: "(string \<times> string) list \<Rightarrow> string \<Rightarrow> bool \<Rightarrow> bool" where
  "bool_attr vars name dflt =
     (case structured_attrs vars of
        None \<Rightarrow> (case map_of vars name of None \<Rightarrow> dflt | Some v \<Rightarrow> v = ''1'')
      | Some attrs \<Rightarrow>
          (case map_of attrs name of
             None \<Rightarrow> dflt
           | Some v \<Rightarrow> if v = JNull then dflt else v = JBool True))"

text \<open>
  \<open>str.split()\<close>: the words between runs of white space. A white-space character outside ASCII is
  two or three bytes here; \<open>ws_length\<close> is the number of bytes of the one a text starts with.
\<close>

fun ws_length :: "string \<Rightarrow> nat" where
  "ws_length [] = 0"
| "ws_length (c # s) =
     (let n = of_char c :: nat; b = map of_char (take 2 s) :: nat list in
      if (9 \<le> n \<and> n \<le> 13) \<or> (28 \<le> n \<and> n \<le> 32) then 1
      else if n = 0xC2 \<and> take 1 b \<in> {[0x85], [0xA0]} then 2
      else if n = 0xE1 \<and> b = [0x9A, 0x80] then 3
      else if n = 0xE2 \<and> (\<exists>x \<in> set [0x80..<0x8B] \<union> {0xA8, 0xA9, 0xAF}. b = [0x80, x]) then 3
      else if n = 0xE2 \<and> b = [0x81, 0x9F] then 3
      else if n = 0xE3 \<and> b = [0x80, 0x80] then 3
      else 0)"

function split_words :: "string \<Rightarrow> string \<Rightarrow> string list" where
  "split_words word [] = (if word = [] then [] else [word])"
| "split_words word (c # s) =
     (if ws_length (c # s) = 0 then split_words (word @ [c]) s
      else (if word = [] then [] else [word]) @ split_words [] (drop (ws_length (c # s)) (c # s)))"
  by pat_completeness auto
termination by (relation "measure (\<lambda>(w, s). length s)") auto

definition json_strings :: "json list \<Rightarrow> string list" where
  "json_strings vs = concat (map (\<lambda>v. case v of JStr w \<Rightarrow> [w] | _ \<Rightarrow> []) vs)"

definition required_features_of :: "(string \<times> string) list \<Rightarrow> string list" where
  "required_features_of vars =
     (case structured_attrs vars of
        None \<Rightarrow>
          remdups (split_words [] (case map_of vars REQUIRED_SYSTEM_FEATURES of Some v \<Rightarrow> v | None \<Rightarrow> []))
      | Some attrs \<Rightarrow>
          (case map_of attrs REQUIRED_SYSTEM_FEATURES of
             Some (JList words) \<Rightarrow> remdups (json_strings words)
           | _ \<Rightarrow> []))"

definition build_local :: "BasicDerivation \<Rightarrow> bool" where
  "build_local drv =
     (let attrs = structured_attrs (bd_env drv)
      in env_flag (bd_env drv) attrs ''pynixd_fast'' \<or> env_flag (bd_env drv) attrs ''preferLocalBuild'')"

definition required_system_features :: "BasicDerivation \<Rightarrow> string list" where
  "required_system_features drv = required_features_of (bd_env drv)"

definition set_required_system_features ::
    "(string \<Rightarrow> string) \<Rightarrow> string list \<Rightarrow> BasicDerivation \<Rightarrow> BasicDerivation" where
  "set_required_system_features float_repr features drv =
     (case structured_attrs (bd_env drv) of
        None \<Rightarrow> drv\<lparr>bd_env := dict_set REQUIRED_SYSTEM_FEATURES (join '' '' (sort features)) (bd_env drv)\<rparr>
      | Some attrs \<Rightarrow>
          drv\<lparr>bd_env := dict_set STRUCTURED_ATTRS
             (json_dumps float_repr (JObj (dict_set REQUIRED_SYSTEM_FEATURES (JList (map JStr (sort features))) attrs)))
             (bd_env drv)\<rparr>)"

definition has_dynamic_outputs :: "BasicDerivation \<Rightarrow> bool" where
  "has_dynamic_outputs drv \<longleftrightarrow> (\<exists>out \<in> set (map snd (bd_outputs drv)). is_dynamic_output out)"

definition has_ca_floating :: "BasicDerivation \<Rightarrow> bool" where
  "has_ca_floating drv \<longleftrightarrow>
     (\<exists>out \<in> set (map snd (bd_outputs drv)). wire_kind out = CA_FLOATING \<and> \<not> is_text_hashed out)"

definition has_deferred :: "BasicDerivation \<Rightarrow> bool" where
  "has_deferred drv \<longleftrightarrow> (\<exists>out \<in> set (map snd (bd_outputs drv)). wire_kind out = DEFERRED)"

definition has_impure :: "BasicDerivation \<Rightarrow> bool" where
  "has_impure drv \<longleftrightarrow> (\<exists>out \<in> set (map snd (bd_outputs drv)). wire_kind out = IMPURE)"

definition has_text_hashed :: "BasicDerivation \<Rightarrow> bool" where
  "has_text_hashed drv \<longleftrightarrow> (\<exists>out \<in> set (map snd (bd_outputs drv)). is_text_hashed out)"

text \<open>Each output with its path, empty where it has none yet. Every path is one of this store.\<close>

definition bd_output_paths :: "BasicDerivation \<Rightarrow> (string \<times> string) list" where
  "bd_output_paths drv = map (\<lambda>(name, out). (name, wo_path out)) (bd_outputs drv)"

section \<open>System features\<close>

definition DYNAMIC_DERIVATIONS :: string where "DYNAMIC_DERIVATIONS = ''dynamic-derivations''"
definition CA_DERIVATIONS :: string where "CA_DERIVATIONS = ''ca-derivations''"

definition PYNIXD_HANDLED_FEATURES :: "string list" where
  "PYNIXD_HANDLED_FEATURES = [DYNAMIC_DERIVATIONS]"

definition BUILTIN_SYSTEM :: string where "BUILTIN_SYSTEM = ''builtin''"

definition set_minus :: "'a list \<Rightarrow> 'a list \<Rightarrow> 'a list" where
  "set_minus xs ys = filter (\<lambda>x. x \<notin> set ys) xs"

definition effective_required_features :: "BasicDerivation \<Rightarrow> string list" where
  "effective_required_features drv = set_minus (required_system_features drv) PYNIXD_HANDLED_FEATURES"

text \<open>\<open>BuildAllocator.strip_handled_features\<close>.\<close>

definition handled_features :: "BasicDerivation \<Rightarrow> string list" where
  "handled_features drv =
     (let stripped = filter (\<lambda>f. f \<in> set PYNIXD_HANDLED_FEATURES) (required_system_features drv);
          outs = map snd (bd_outputs drv);
          s1 = (if \<exists>out \<in> set outs. is_ca out then removeAll CA_DERIVATIONS stripped else stripped)
      in if \<exists>out \<in> set outs. is_dynamic_output out then removeAll DYNAMIC_DERIVATIONS s1 else s1)"

definition strip_handled_features :: "(string \<Rightarrow> string) \<Rightarrow> BasicDerivation \<Rightarrow> BasicDerivation" where
  "strip_handled_features float_repr drv =
     (if handled_features drv = [] then drv
      else set_required_system_features float_repr
             (set_minus (required_system_features drv) (handled_features drv)) drv)"

section \<open>Words\<close>

text \<open>A word: no white space starts inside it.\<close>

definition no_ws :: "string \<Rightarrow> bool" where
  "no_ws w \<longleftrightarrow> (\<forall>i < length w. ws_length (drop i w) = 0)"

lemma ws_length_append: "ws_length x \<noteq> 0 \<Longrightarrow> ws_length (x @ r) \<noteq> 0"
proof -
  assume ws: "ws_length x \<noteq> 0"
  then obtain c s where x: "x = c # s" by (cases x) auto
  show "ws_length (x @ r) \<noteq> 0"
  proof (cases s)
    case Nil
    then show ?thesis using ws unfolding x by (auto simp: Let_def split: if_splits)
  next
    case (Cons a t)
    then show ?thesis using ws unfolding x by (cases t; cases r) (auto simp: Let_def split: if_splits)
  qed
qed

lemma ws_length_space: "x \<noteq> [] \<Longrightarrow> ws_length (x @ CHR '' '' # r) = ws_length x"
proof -
  assume "x \<noteq> []"
  then obtain c s where x: "x = c # s" by (cases x) auto
  show ?thesis
  proof (cases s)
    case Nil
    then show ?thesis unfolding x by (cases r) (auto simp: Let_def)
  next
    case (Cons a t)
    then show ?thesis unfolding x by (cases t) (auto simp: Let_def)
  qed
qed

lemma no_ws_Cons: "no_ws (c # w) \<longleftrightarrow> ws_length (c # w) = 0 \<and> no_ws w"
  by (auto simp: no_ws_def less_Suc_eq_0_disj simp del: ws_length.simps)

declare ws_length.simps(2) [simp del]

lemma split_words_space:
  "no_ws w \<Longrightarrow> split_words acc (w @ CHR '' '' # r) = (if acc @ w = [] then [] else [acc @ w]) @ split_words [] r"
proof (induction w arbitrary: acc)
  case Nil
  have "ws_length (CHR '' '' # r) = 1" by (simp add: ws_length.simps)
  then show ?case by simp
next
  case (Cons c w)
  then show ?case using ws_length_space [of "c # w" r] by (simp add: no_ws_Cons)
qed

lemma split_words_end: "no_ws w \<Longrightarrow> split_words acc w = (if acc @ w = [] then [] else [acc @ w])"
  by (induction w arbitrary: acc) (simp_all add: no_ws_Cons)

lemma split_words_join:
  "\<forall>w \<in> set ws. no_ws w \<and> w \<noteq> [] \<Longrightarrow> split_words [] (join '' '' ws) = ws"
proof (induction ws)
  case (Cons w ws)
  then show ?case
    by (cases "ws = []") (auto simp: join_Cons split_words_end split_words_space)
qed simp

lemma split_words_words:
  "\<forall>i < length acc. ws_length (drop i acc @ s) = 0 \<Longrightarrow> v \<in> set (split_words acc s) \<Longrightarrow> no_ws v \<and> v \<noteq> []"
proof (induction acc s rule: split_words.induct)
  case (1 word)
  then show ?case by (auto simp: no_ws_def split: if_splits)
next
  case (2 word c s)
  show ?case
  proof (cases "ws_length (c # s) = 0")
    case True
    have "\<forall>i < length (word @ [c]). ws_length (drop i (word @ [c]) @ s) = 0"
      using 2(3) True by (auto simp: less_Suc_eq)
    then show ?thesis using 2(1) 2(4) True by simp
  next
    case False
    have "no_ws word" using 2(3) ws_length_append unfolding no_ws_def by blast
    then show ?thesis using 2(2) 2(4) False by (auto split: if_splits)
  qed
qed

lemma required_words:
  assumes "structured_attrs vars = None" "v \<in> set (required_features_of vars)"
  shows "no_ws v \<and> v \<noteq> []"
  using assms split_words_words [of "[]"] by (auto simp: required_features_of_def)

section \<open>What is written is read\<close>

lemma json_strings_map [simp]: "json_strings (map JStr ws) = ws"
  by (induction ws) (simp_all add: json_strings_def)

lemma json_canon_str [simp]: "json_canon fr \<circ> JStr = JStr"
  by (rule ext) simp

lemma map_of_sort_key: "distinct (map fst kvs) \<Longrightarrow> map_of (sort_key fst kvs) = map_of kvs"
proof -
  assume d: "distinct (map fst kvs)"
  have "distinct (map fst (sort_key fst kvs))"
    using d sort_key_map [of "\<lambda>x. x" fst kvs] distinct_sort [of "\<lambda>x. x" "map fst kvs"] by simp
  then show ?thesis using d by (intro map_of_inject_set [THEN iffD2]) simp_all
qed

lemma structured_attrs_ok: "structured_attrs vars = Some attrs \<Longrightarrow> json_ok (JObj attrs)"
  using json_loads_ok by (fastforce simp: structured_attrs_def split: option.splits sum.splits json.splits)

text \<open>The attributes after the list of features was written into the JSON text.\<close>

lemma structured_attrs_written:
  assumes a: "structured_attrs vars = Some attrs" and fr: "keeps_floats fr" and v: "json_ok v"
  shows "\<exists>attrs'. structured_attrs (dict_set STRUCTURED_ATTRS (json_dumps fr (JObj (dict_set k v attrs))) vars) = Some attrs' \<and>
     map_of attrs' = map_option (json_canon fr) \<circ> (map_of attrs)(k \<mapsto> v)"
proof -
  let ?d = "dict_set k v attrs"
  have ok: "json_ok (JObj ?d)"
    using structured_attrs_ok [OF a] v by (auto simp: distinct_dict_set dest!: dict_set_values)
  have "json_loads (json_dumps fr (JObj ?d)) = Inr (json_canon fr (JObj ?d))"
    by (rule json_loads_dumps [OF ok fr]) (simp add: startswith_def)
  moreover have "map_of (sort_key fst (map (\<lambda>e. (fst e, json_canon fr (snd e))) ?d)) =
      map_option (json_canon fr) \<circ> (map_of attrs)(k \<mapsto> v)"
  proof -
    have "distinct (map fst (map (\<lambda>e. (fst e, json_canon fr (snd e))) ?d))" using ok by (simp add: comp_def)
    then have "map_of (sort_key fst (map (\<lambda>e. (fst e, json_canon fr (snd e))) ?d)) =
        map_of (map (\<lambda>e. (fst e, json_canon fr (snd e))) ?d)" by (rule map_of_sort_key)
    also have "\<dots> = map_option (json_canon fr) \<circ> map_of ?d"
      by (simp only: map_of_map [symmetric] case_prod_unfold)
    finally show ?thesis by simp
  qed
  ultimately show ?thesis by (simp add: structured_attrs_def)
qed

lemma set_required_attrs:
  assumes "structured_attrs (bd_env drv) = Some attrs" "keeps_floats fr"
  shows "\<exists>attrs'. structured_attrs (bd_env (set_required_system_features fr features drv)) = Some attrs' \<and>
     map_of attrs' = map_option (json_canon fr) \<circ>
       (map_of attrs)(REQUIRED_SYSTEM_FEATURES \<mapsto> JList (map JStr (sort features)))"
  using structured_attrs_written [OF assms, of "JList (map JStr (sort features))" REQUIRED_SYSTEM_FEATURES] assms(1)
  by (simp add: set_required_system_features_def)

lemma json_canon_bool [simp]:
  "json_canon fr v = JBool b \<longleftrightarrow> v = JBool b" "json_canon fr v = JNull \<longleftrightarrow> v = JNull"
  by (cases v; simp)+

lemma required_written:
  assumes "keeps_floats fr" "set features \<subseteq> set (required_system_features drv)"
  shows "set (required_system_features (set_required_system_features fr features drv)) = set features"
proof (cases "structured_attrs (bd_env drv)")
  case None
  let ?env = "dict_set REQUIRED_SYSTEM_FEATURES (join '' '' (sort features)) (bd_env drv)"
  have "\<forall>w \<in> set features. no_ws w \<and> w \<noteq> []"
    using assms(2) required_words [OF None] by (auto simp: required_system_features_def)
  then have words: "split_words [] (join '' '' (sort features)) = sort features" by (intro split_words_join) simp
  have "structured_attrs ?env = None"
    using None by (simp add: structured_attrs_def STRUCTURED_ATTRS_def REQUIRED_SYSTEM_FEATURES_def)
  then have "required_features_of ?env = remdups (sort features)" by (simp add: required_features_of_def words)
  then show ?thesis using None by (simp add: required_system_features_def set_required_system_features_def)
next
  case (Some attrs)
  obtain attrs' where "structured_attrs (bd_env (set_required_system_features fr features drv)) = Some attrs'"
      "map_of attrs' = map_option (json_canon fr) \<circ> (map_of attrs)(REQUIRED_SYSTEM_FEATURES \<mapsto> JList (map JStr (sort features)))"
    using set_required_attrs [OF Some assms(1)] by blast
  then show ?thesis by (simp add: required_system_features_def required_features_of_def)
qed

lemma flag_written:
  assumes "keeps_floats fr" "name \<noteq> REQUIRED_SYSTEM_FEATURES" "name \<noteq> STRUCTURED_ATTRS"
    and drv'_def: "drv' = set_required_system_features fr features drv"
  shows "env_flag (bd_env drv') (structured_attrs (bd_env drv')) name =
     env_flag (bd_env drv) (structured_attrs (bd_env drv)) name"
proof (cases "structured_attrs (bd_env drv)")
  case None
  have "structured_attrs (bd_env drv') = None"
    using None by (simp add: drv'_def set_required_system_features_def structured_attrs_def STRUCTURED_ATTRS_def
        REQUIRED_SYSTEM_FEATURES_def)
  then show ?thesis using None assms(2) by (simp add: env_flag_def drv'_def set_required_system_features_def)
next
  case (Some attrs)
  obtain attrs' where a: "structured_attrs (bd_env drv') = Some attrs'"
      "map_of attrs' = map_option (json_canon fr) \<circ> (map_of attrs)(REQUIRED_SYSTEM_FEATURES \<mapsto> JList (map JStr (sort features)))"
    using set_required_attrs [OF Some assms(1)] unfolding drv'_def by blast
  then show ?thesis using Some assms(2) by (cases "map_of attrs name") (simp_all add: env_flag_def)
qed

lemma set_required_fields [simp]:
  "bd_outputs (set_required_system_features fr features drv) = bd_outputs drv"
  "bd_platform (set_required_system_features fr features drv) = bd_platform drv"
  "bd_input_srcs (set_required_system_features fr features drv) = bd_input_srcs drv"
  by (simp_all add: set_required_system_features_def split: option.splits)

lemma set_set_minus [simp]: "set (set_minus xs ys) = set xs - set ys"
  by (auto simp: set_minus_def)

lemma handled_features_subset: "set (handled_features drv) \<subseteq> set PYNIXD_HANDLED_FEATURES"
  by (auto simp: handled_features_def Let_def split: if_splits)

text \<open>
  C28. \<open>strip_handled_features\<close> takes out exactly the features that pynixd has resolved, from the
  environment or from the JSON text, whichever the builder reads: what the allocator asks of a store
  and where the build prefers to run do not change, nor do the platform, the outputs, the sources, the
  builder and its arguments. A derivation that still has a dynamic output keeps its features.
\<close>

theorem stripping_keeps_placement:
  assumes "keeps_floats float_repr"
  shows "set (required_system_features (strip_handled_features float_repr drv)) =
       set (required_system_features drv) - set (handled_features drv) \<and>
     set (effective_required_features (strip_handled_features float_repr drv)) = set (effective_required_features drv) \<and>
     build_local (strip_handled_features float_repr drv) = build_local drv \<and>
     (bd_platform (strip_handled_features float_repr drv) = bd_platform drv \<and>
      bd_outputs (strip_handled_features float_repr drv) = bd_outputs drv \<and>
      bd_input_srcs (strip_handled_features float_repr drv) = bd_input_srcs drv \<and>
      bd_builder (strip_handled_features float_repr drv) = bd_builder drv \<and>
      bd_args (strip_handled_features float_repr drv) = bd_args drv) \<and>
     (has_dynamic_outputs drv \<longrightarrow> strip_handled_features float_repr drv = drv)"
proof (intro conjI impI)
  let ?rest = "set_minus (required_system_features drv) (handled_features drv)"
  have req: "set (required_system_features (set_required_system_features float_repr ?rest drv)) =
      set (required_system_features drv) - set (handled_features drv)"
    using required_written [OF assms, of ?rest drv] by auto
  then show a: "set (required_system_features (strip_handled_features float_repr drv)) =
      set (required_system_features drv) - set (handled_features drv)"
    by (simp add: strip_handled_features_def)
  then show "set (effective_required_features (strip_handled_features float_repr drv)) = set (effective_required_features drv)"
    using handled_features_subset [of drv] by (auto simp: effective_required_features_def)
  have "name \<in> {''pynixd_fast'', ''preferLocalBuild''} \<Longrightarrow>
      name \<noteq> REQUIRED_SYSTEM_FEATURES \<and> name \<noteq> STRUCTURED_ATTRS" for name
    by (auto simp: REQUIRED_SYSTEM_FEATURES_def STRUCTURED_ATTRS_def)
  then show "build_local (strip_handled_features float_repr drv) = build_local drv"
    using flag_written [OF assms _ _ HOL.refl] by (simp add: strip_handled_features_def build_local_def Let_def)
  have "bd_platform (set_required_system_features float_repr xs drv) = bd_platform drv \<and>
      bd_outputs (set_required_system_features float_repr xs drv) = bd_outputs drv \<and>
      bd_input_srcs (set_required_system_features float_repr xs drv) = bd_input_srcs drv \<and>
      bd_builder (set_required_system_features float_repr xs drv) = bd_builder drv \<and>
      bd_args (set_required_system_features float_repr xs drv) = bd_args drv" for xs
    by (simp add: set_required_system_features_def Let_def split: option.split)
  then show "bd_platform (strip_handled_features float_repr drv) = bd_platform drv"
    "bd_outputs (strip_handled_features float_repr drv) = bd_outputs drv"
    "bd_input_srcs (strip_handled_features float_repr drv) = bd_input_srcs drv"
    "bd_builder (strip_handled_features float_repr drv) = bd_builder drv"
    "bd_args (strip_handled_features float_repr drv) = bd_args drv"
    by (simp_all add: strip_handled_features_def)
  assume dyn: "has_dynamic_outputs drv"
  have "handled_features drv = []"
    using dyn by (auto simp: handled_features_def has_dynamic_outputs_def PYNIXD_HANDLED_FEATURES_def Let_def
        removeAll_filter_not_eq filter_empty_conv)
  then show "strip_handled_features float_repr drv = drv" by (simp add: strip_handled_features_def)
qed

definition sample_structured :: BasicDerivation where
  "sample_structured =
     \<lparr>bd_outputs = [(''out'', \<lparr>wo_path = ''/nix/store/x'', wo_method = [], wo_hash_digest = []\<rparr>)],
      bd_input_srcs = [], bd_platform = ''x86_64-linux'', bd_builder = ''/bin/sh'', bd_args = [],
      bd_env = [(''__json'', ''{ '' @ json_quote ''preferLocalBuild'' @ '' : true , '' @ json_quote ''requiredSystemFeatures'' @
        '':['' @ json_quote ''kvm'' @ '', '' @ json_quote ''dynamic-derivations'' @ ''] }'')]\<rparr>"

theorem stripping_keeps_placement_witness:
  "keeps_floats (\<lambda>t. t) \<and> required_system_features sample_structured = [''kvm'', ''dynamic-derivations''] \<and>
   handled_features sample_structured = [''dynamic-derivations''] \<and>
   set (required_system_features (strip_handled_features (\<lambda>t. t) sample_structured)) = {''kvm''} \<and>
   build_local (strip_handled_features (\<lambda>t. t) sample_structured)"
proof -
  have fl: "keeps_floats (\<lambda>t. t)" by (simp add: keeps_floats_def)
  have r: "required_system_features sample_structured = [''kvm'', ''dynamic-derivations'']" by code_simp
  have h: "handled_features sample_structured = [''dynamic-derivations'']" by code_simp
  have b: "build_local sample_structured" by code_simp
  show ?thesis using stripping_keeps_placement [OF fl, of sample_structured] fl r h b by auto
qed

end
