(* ===== verification/Build_Stats.thy ===== *)
theory Build_Stats
  imports Complex_Main Prelude
begin

text \<open>
  What a build is expected to cost (\<open>pynixd_store/build_stats.py\<close>): the estimate of one store, by
  phase, the seconds a delegation spends outside the build, and the wait for a build slot.

  A float of the program is an exact rational number here, \<^typ>\<open>rat\<close>: the weights, rates and clock
  readings it stands for are finite, and the rounding of their sums and quotients is left out.
  A second is the unit of every clock reading; the durations of the history are whole
  milliseconds, as in the database.
\<close>

type_synonym seconds = rat

section \<open>The link and the estimate of a store\<close>

record StoreLink =
  lk_send_bytes_per_s :: "rat option"
  lk_receive_bytes_per_s :: "rat option"
  lk_dispatch_ms :: "int option"

definition no_link :: StoreLink where
  "no_link = \<lparr>lk_send_bytes_per_s = None, lk_receive_bytes_per_s = None, lk_dispatch_ms = None\<rparr>"

record ExpectedBytes =
  eb_inputs :: "int option"
  eb_pull :: "int option"

datatype BuildEstimateSource = SHAPE_ON_STORE | SHAPE | NAME

record StoreEstimate =
  se_inputs_bytes :: "int option"
  se_pull_bytes :: "int option"
  se_link :: StoreLink
  se_build_ms :: "int option"
  se_build_source :: "BuildEstimateSource option"
  se_setup_seconds :: seconds

text \<open>A number that is there and not zero: what \<open>if rate\<close> asks of an optional float.\<close>

definition nonzero :: "rat option \<Rightarrow> rat option" where
  "nonzero x = (case x of Some r \<Rightarrow> if r = 0 then None else Some r | None \<Rightarrow> None)"

text \<open>The seconds that \<open>count\<close> bytes take at a rate. A count of zero takes none at any rate.\<close>

definition phase_seconds :: "int option \<Rightarrow> rat option \<Rightarrow> seconds option" where
  "phase_seconds count rate =
     (if count = Some 0 then Some 0
      else case (count, nonzero rate) of
             (Some n, Some r) \<Rightarrow> Some (of_int n / r)
           | _ \<Rightarrow> None)"

definition ship_seconds :: "StoreEstimate \<Rightarrow> seconds option" where
  "ship_seconds e = phase_seconds (se_inputs_bytes e) (lk_send_bytes_per_s (se_link e))"

definition pull_seconds :: "StoreEstimate \<Rightarrow> seconds option" where
  "pull_seconds e = phase_seconds (se_pull_bytes e) (lk_receive_bytes_per_s (se_link e))"

definition ms_seconds :: "int option \<Rightarrow> seconds option" where
  "ms_seconds ms = map_option (\<lambda>n. of_int n / 1000) ms"

definition dispatch_seconds :: "StoreEstimate \<Rightarrow> seconds option" where
  "dispatch_seconds e = ms_seconds (lk_dispatch_ms (se_link e))"

definition build_seconds :: "StoreEstimate \<Rightarrow> seconds option" where
  "build_seconds e = ms_seconds (se_build_ms e)"

definition sum_known :: "seconds option list \<Rightarrow> seconds option" where
  "sum_known ps = (let known = map the (filter (\<lambda>p. p \<noteq> None) ps)
     in if known = [] then None else Some (sum_list known))"

definition total_seconds :: "StoreEstimate \<Rightarrow> seconds option \<Rightarrow> seconds option" where
  "total_seconds e wait_seconds =
     sum_known [wait_seconds, nonzero (Some (se_setup_seconds e)), ship_seconds e, dispatch_seconds e,
                build_seconds e, pull_seconds e]"

text \<open>\<open>transfer_seconds\<close> asks for the count and the rate of each direction, with no case for zero.\<close>

definition moved_seconds :: "int option \<Rightarrow> rat option \<Rightarrow> seconds list" where
  "moved_seconds count rate =
     (case (count, nonzero rate) of (Some n, Some r) \<Rightarrow> [of_int n / r] | _ \<Rightarrow> [])"

definition transfer_seconds :: "ExpectedBytes \<Rightarrow> StoreLink \<Rightarrow> seconds \<Rightarrow> seconds option" where
  "transfer_seconds expected link setup_seconds =
     (let parts = (if setup_seconds = 0 then [] else [setup_seconds])
            @ moved_seconds (eb_inputs expected) (lk_send_bytes_per_s link)
            @ moved_seconds (eb_pull expected) (lk_receive_bytes_per_s link)
            @ (case lk_dispatch_ms link of Some ms \<Rightarrow> [of_int ms / 1000] | None \<Rightarrow> [])
      in if parts = [] then None else Some (sum_list parts))"

section \<open>The wait for a slot\<close>

definition min_known :: "seconds list \<Rightarrow> seconds option" where
  "min_known xs = (case xs of [] \<Rightarrow> None | x # rest \<Rightarrow> Some (foldl min x rest))"

primrec remaining_seconds :: "(int option \<times> seconds option) list \<Rightarrow> seconds \<Rightarrow> seconds list" where
  "remaining_seconds [] now = []"
| "remaining_seconds (b # bs) now =
     (case b of
        (Some expected_ms, Some started) \<Rightarrow>
          max 0 (of_int expected_ms / 1000 - (now - started)) # remaining_seconds bs now
      | _ \<Rightarrow> remaining_seconds bs now)"

definition slot_wait_seconds :: "(int option \<times> seconds option) list \<Rightarrow> seconds \<Rightarrow> seconds option" where
  "slot_wait_seconds running now = min_known (remaining_seconds running now)"

section \<open>The name of a derivation without its version\<close>

definition ascii_letter :: "char \<Rightarrow> bool" where
  "ascii_letter c \<longleftrightarrow> (CHR ''a'' \<le> c \<and> c \<le> CHR ''z'') \<or> (CHR ''A'' \<le> c \<and> c \<le> CHR ''Z'')"

fun name_without_version :: "string \<Rightarrow> string" where
  "name_without_version (c # d # rest) =
     (if c = CHR ''-'' \<and> \<not> ascii_letter d then [] else c # name_without_version (d # rest))"
| "name_without_version s = s"

section \<open>What the estimates say\<close>

lemma sum_known_simps [simp]:
  "sum_known [] = None"
  "sum_known (None # ps) = sum_known ps"
  "sum_known (Some x # ps) = Some (x + (case sum_known ps of Some y \<Rightarrow> y | None \<Rightarrow> 0))"
  by (auto simp: sum_known_def Let_def)

lemma foldl_min_le:
  fixes x :: rat
  shows "y \<in> set (x # xs) \<Longrightarrow> foldl min x xs \<le> y"
proof (induction xs arbitrary: x y)
  case (Cons a xs)
  have "foldl min (min x a) xs \<le> min x a" "y \<in> set xs \<Longrightarrow> foldl min (min x a) xs \<le> y"
    by (rule Cons.IH, simp)+
  then show ?case using Cons.prems by auto
qed simp

lemma foldl_min_in:
  fixes x :: rat
  shows "foldl min x xs \<in> set (x # xs)"
proof (induction xs arbitrary: x)
  case (Cons a xs)
  show ?case using Cons.IH [of "min x a"] by (auto simp: min_def split: if_splits)
qed simp

lemma min_known_None [simp]: "min_known xs = None \<longleftrightarrow> xs = []"
  by (cases xs) (simp_all add: min_known_def)

lemma min_known_Some:
  "min_known xs = Some m \<longleftrightarrow> m \<in> set xs \<and> (\<forall>y \<in> set xs. m \<le> y)"
proof
  assume "min_known xs = Some m"
  then obtain x rest where "xs = x # rest" "m = foldl min x rest"
    by (cases xs) (simp_all add: min_known_def)
  then show "m \<in> set xs \<and> (\<forall>y \<in> set xs. m \<le> y)"
    using foldl_min_in [of x rest] foldl_min_le by blast
next
  assume m: "m \<in> set xs \<and> (\<forall>y \<in> set xs. m \<le> y)"
  then obtain x rest where xs: "xs = x # rest" by (cases xs) auto
  have "foldl min x rest = m"
    using m foldl_min_in [of x rest] foldl_min_le [of m x rest] unfolding xs by (blast intro: antisym)
  then show "min_known xs = Some m" by (simp add: xs min_known_def)
qed

lemma remaining_seconds_iff:
  "s \<in> set (remaining_seconds running now) \<longleftrightarrow>
     (\<exists>ms t. (Some ms, Some t) \<in> set running \<and> s = max 0 (of_int ms / 1000 - (now - t)))"
proof (induction running)
  case (Cons b bs)
  obtain e t where b: "b = (e, t)" by (cases b)
  show ?case using Cons.IH unfolding b by (cases e; cases t) auto
qed simp

text \<open>
  The estimate that \<open>measure\<close> of the scheduler keeps prices a delegation as \<open>transfer_seconds\<close>
  does: wherever the transfer has a price, the estimate is that price plus the build's own time.
\<close>

lemma transfer_within_total:
  assumes "transfer_seconds \<lparr>eb_inputs = inputs, eb_pull = pull\<rparr> link setup_s = Some t"
  shows "total_seconds \<lparr>se_inputs_bytes = inputs, se_pull_bytes = pull, se_link = link, se_build_ms = ms,
       se_build_source = src, se_setup_seconds = setup_s\<rparr> wait =
     Some (t + (case ms of Some n \<Rightarrow> of_int n / 1000 | None \<Rightarrow> 0) + (case wait of Some w \<Rightarrow> w | None \<Rightarrow> 0))"
proof -
  have total: "total_seconds \<lparr>se_inputs_bytes = inputs, se_pull_bytes = pull, se_link = link, se_build_ms = ms,
       se_build_source = src, se_setup_seconds = setup_s\<rparr> wait =
     sum_known [wait, nonzero (Some setup_s), phase_seconds inputs (lk_send_bytes_per_s link),
       ms_seconds (lk_dispatch_ms link), ms_seconds ms, phase_seconds pull (lk_receive_bytes_per_s link)]"
    by (simp add: total_seconds_def ship_seconds_def pull_seconds_def dispatch_seconds_def build_seconds_def)
  have phase: "phase_seconds c r = Some (sum_list (moved_seconds c r)) \<or> moved_seconds c r = [] \<and>
      phase_seconds c r = None \<and> c \<noteq> Some 0" for c r
    by (auto simp: phase_seconds_def moved_seconds_def split: option.splits)
  show ?thesis
    using assms phase [of inputs "lk_send_bytes_per_s link"] phase [of pull "lk_receive_bytes_per_s link"]
    unfolding total transfer_seconds_def Let_def
    by (cases "setup_s = 0"; cases "lk_dispatch_ms link"; cases ms; cases wait)
      (auto simp: nonzero_def ms_seconds_def split: if_splits)
qed

lemma slot_wait_None:
  "slot_wait_seconds running now = None \<longleftrightarrow> (\<nexists>ms t. (Some ms, Some t) \<in> set running)"
proof -
  have "remaining_seconds running now = [] \<longleftrightarrow> (\<nexists>ms t. (Some ms, Some t) \<in> set running)"
    unfolding set_empty [symmetric] set_eq_iff remaining_seconds_iff by blast
  then show ?thesis by (simp add: slot_wait_seconds_def)
qed

lemma slot_wait_Some:
  assumes "slot_wait_seconds running now = Some w"
  shows "w \<ge> 0" and "\<And>ms t. (Some ms, Some t) \<in> set running \<Longrightarrow> w \<le> max 0 (of_int ms / 1000 - (now - t))"
    and "\<exists>ms t. (Some ms, Some t) \<in> set running \<and> w = max 0 (of_int ms / 1000 - (now - t))"
proof -
  have m: "w \<in> set (remaining_seconds running now)" "\<forall>y \<in> set (remaining_seconds running now). w \<le> y"
    using assms by (simp_all add: slot_wait_seconds_def min_known_Some)
  then show ex: "\<exists>ms t. (Some ms, Some t) \<in> set running \<and> w = max 0 (of_int ms / 1000 - (now - t))"
    by (simp add: remaining_seconds_iff)
  then show "w \<ge> 0" by auto
  show "w \<le> max 0 (of_int ms / 1000 - (now - t))" if "(Some ms, Some t) \<in> set running" for ms t
    using m(2) that remaining_seconds_iff by blast
qed

lemma name_without_version_idem: "name_without_version (name_without_version s) = name_without_version s"
proof (induction s rule: name_without_version.induct)
  case (1 c d rest)
  then show ?case by (cases rest) (auto split: if_splits)
qed simp_all

end
