(* ===== verification/Queued_Build.thy ===== *)
theory Queued_Build
  imports Wire_Logs Drv_Attrs Build_Stats
begin

text \<open>
  One queued build (\<open>pynixd/answer.py\<close> and the classes \<open>SchedulerBuildRequest\<close> and
  \<open>QueuedBuild\<close> of \<open>pynixd/build_queue.py\<close>): the answer that is set once, the life cycle with
  its retries, and the log that is stored and sent to every subscriber.

  A client is named by a number, and \<open>send\<close> says what \<open>ClientConn.send_raw\<close> does with it: the
  bytes go out, or the transport raises. \<open>qb_sent\<close> is the record of what went out. What the
  scheduler measured of a build and of the stores it may run on is part of the build; the fields
  of \<open>QueuedBuild\<close> that only the trace of placements and the statistics read are left out.
\<close>

section \<open>Answer\<close>

datatype 'a Answer = Unset | Value 'a | Raised error

definition ans_done :: "'a Answer \<Rightarrow> bool" where
  "ans_done a \<longleftrightarrow> a \<noteq> Unset"

definition ans_set :: "'a \<Rightarrow> ('a Answer, unit) eff" where
  "ans_set v = (\<lambda>a. if ans_done a then (Inl RuntimeError, a) else (Inr (), Value v))"

definition ans_set_exception :: "error \<Rightarrow> ('a Answer, unit) eff" where
  "ans_set_exception e = (\<lambda>a. if ans_done a then (Inl RuntimeError, a) else (Inr (), Raised e))"

definition ans_result :: "'a Answer \<Rightarrow> error + 'a" where
  "ans_result a = (case a of Unset \<Rightarrow> Inl RuntimeError | Raised e \<Rightarrow> Inl e | Value v \<Rightarrow> Inr v)"

section \<open>Results of builds\<close>

text \<open>\<open>BuildResultStatus\<close>, by its numbers: a number that is none of them makes the enum raise.\<close>

definition status_known :: "nat \<Rightarrow> bool" where
  "status_known n \<longleftrightarrow> n \<le> 14 \<or> n = 101 \<or> n = 102"

definition BUILT :: nat where "BUILT = 0"
definition SUBSTITUTED :: nat where "SUBSTITUTED = 1"
definition ALREADY_VALID :: nat where "ALREADY_VALID = 2"
definition RESOLVES_TO_ALREADY_VALID :: nat where "RESOLVES_TO_ALREADY_VALID = 13"
definition MISC_FAILURE :: nat where "MISC_FAILURE = 9"

definition status_is_success :: "nat \<Rightarrow> error + bool" where
  "status_is_success n =
     (if status_known n
      then Inr (n \<in> {BUILT, SUBSTITUTED, ALREADY_VALID, RESOLVES_TO_ALREADY_VALID})
      else Inl ValueError)"

record BuildResult =
  res_status :: nat
  res_error_msg :: string
  res_times_built :: nat
  res_is_non_deterministic :: nat
  res_start_time :: nat
  res_stop_time :: nat
  res_built_outputs :: "(string \<times> string) list"

text \<open>The result that \<open>fail\<close> and \<open>_cancel_locked\<close> make.\<close>

definition failure_result :: "nat \<Rightarrow> string \<Rightarrow> BuildResult" where
  "failure_result status error_msg =
     \<lparr>res_status = status, res_error_msg = error_msg, res_times_built = 0,
      res_is_non_deterministic = 0, res_start_time = 0, res_stop_time = 0, res_built_outputs = []\<rparr>"

section \<open>SchedulerBuildRequest\<close>

record SchedulerBuildRequest =
  sr_id :: nat
  sr_derived_paths :: "string list"
  sr_build_mode :: nat
  sr_client :: "nat option"
  sr_answer :: "(string \<times> BuildResult) list Answer"
  sr_active_build_ids :: "nat list"
  sr_all_build_ids :: "nat list"
  sr_build_to_derived :: "(nat \<times> string list) list"
  sr_results :: "(string \<times> BuildResult) list"

definition sr_add_build :: "nat \<Rightarrow> string list \<Rightarrow> SchedulerBuildRequest \<Rightarrow> SchedulerBuildRequest" where
  "sr_add_build build_id derived_paths r =
     r\<lparr>sr_active_build_ids := set_add build_id (sr_active_build_ids r),
       sr_all_build_ids := set_add build_id (sr_all_build_ids r),
       sr_build_to_derived := dict_set build_id derived_paths (sr_build_to_derived r)\<rparr>"

definition sr_build_completed :: "nat \<Rightarrow> SchedulerBuildRequest \<Rightarrow> bool \<times> SchedulerBuildRequest" where
  "sr_build_completed build_id r =
     (let r' = r\<lparr>sr_active_build_ids := removeAll build_id (sr_active_build_ids r)\<rparr>
      in (sr_active_build_ids r' = [], r'))"

definition sr_resolve_if_done :: "SchedulerBuildRequest \<Rightarrow> bool \<times> SchedulerBuildRequest" where
  "sr_resolve_if_done r =
     (if sr_active_build_ids r = [] \<and> \<not> ans_done (sr_answer r)
      then (True, r\<lparr>sr_answer := Value (sr_results r)\<rparr>)
      else (False, r))"

section \<open>QueuedBuild\<close>

record BuildDerivationRequest =
  rq_drv_path :: string
  rq_derivation :: BasicDerivation
  rq_build_mode :: nat

abbreviation rq_env :: "BuildDerivationRequest \<Rightarrow> (string \<times> string) list" where
  "rq_env req \<equiv> bd_env (rq_derivation req)"

abbreviation rq_output_paths :: "BuildDerivationRequest \<Rightarrow> (string \<times> string) list" where
  "rq_output_paths req \<equiv> bd_output_paths (rq_derivation req)"

text \<open>A request for a derivation with the given output paths and nothing else, for examples.\<close>

definition plain_request :: "string \<Rightarrow> (string \<times> string) list \<Rightarrow> BuildDerivationRequest" where
  "plain_request drv_path outs =
     \<lparr>rq_drv_path = drv_path,
      rq_derivation = \<lparr>bd_outputs = map (\<lambda>(n, p). (n, \<lparr>wo_path = p, wo_method = [], wo_hash_digest = []\<rparr>)) outs,
        bd_input_srcs = [], bd_platform = ''x86_64-linux'', bd_builder = [], bd_args = [], bd_env = []\<rparr>,
      rq_build_mode = 0\<rparr>"

lemma plain_request_simps [simp]:
  "rq_drv_path (plain_request p outs) = p" "rq_build_mode (plain_request p outs) = 0"
  by (simp_all add: plain_request_def)

record SetOptionsRequest =
  opt_max_build_jobs :: int
  opt_keep_going :: bool

record QueuedBuild =
  qb_build_id :: nat
  qb_request :: BuildDerivationRequest
  qb_options :: "SetOptionsRequest option"
  qb_answer :: "BuildResult Answer"
  qb_expected_duration :: "int option"
  qb_expected_peak_bytes :: "int option"
  qb_enqueued_at :: seconds
  qb_started_at :: "seconds option"
  qb_transfer_seconds :: "(string \<times> seconds option) list"
  qb_inputs_measured :: "string list"
  qb_estimates :: "(string \<times> StoreEstimate) list"
  qb_finished_at :: "seconds option"
  qb_retries :: nat
  qb_store_failures :: "(string \<times> nat) list"
  qb_store_errors :: "(string \<times> string) list"
  qb_worker :: "nat option"
  qb_cancelled :: "nat list"
  qb_from_goal_path :: bool
  qb_assigned_store_id :: "string option"
  qb_scheduler_request_ids :: "nat list"
  qb_log :: bytes
  qb_subscribers :: "nat list"
  qb_subscriber_refs :: "(nat \<times> nat) list"
  qb_cancel_when_unsubscribed :: bool
  qb_waiting_acts :: "(nat \<times> int) list"
  qb_holders :: "nat list"
  qb_standalone :: nat
  qb_sent :: "(nat \<times> bytes) list"

definition new_build ::
    "nat \<Rightarrow> BuildDerivationRequest \<Rightarrow> int option \<Rightarrow> nat list \<Rightarrow> SetOptionsRequest option \<Rightarrow> seconds \<Rightarrow> QueuedBuild" where
  "new_build build_id request expected_duration scheduler_request_ids options now =
     \<lparr>qb_build_id = build_id, qb_request = request, qb_options = options, qb_answer = Unset,
      qb_expected_duration = expected_duration, qb_expected_peak_bytes = None, qb_enqueued_at = now,
      qb_started_at = None, qb_transfer_seconds = [], qb_inputs_measured = [], qb_estimates = [],
      qb_finished_at = None, qb_retries = 0, qb_store_failures = [], qb_store_errors = [],
      qb_worker = None, qb_cancelled = [], qb_from_goal_path = False, qb_assigned_store_id = None,
      qb_scheduler_request_ids = scheduler_request_ids, qb_log = [], qb_subscribers = [],
      qb_subscriber_refs = [], qb_cancel_when_unsubscribed = False, qb_waiting_acts = [],
      qb_holders = [], qb_standalone = 0, qb_sent = []\<rparr>"

definition is_building :: "QueuedBuild \<Rightarrow> bool" where
  "is_building b \<longleftrightarrow> qb_worker b \<noteq> None"

text \<open>\<open>self.worker.cancel()\<close> marks the scope, which is named by a number.\<close>

definition cancel_worker :: "QueuedBuild \<Rightarrow> QueuedBuild" where
  "cancel_worker b =
     (case qb_worker b of None \<Rightarrow> b | Some scope \<Rightarrow> b\<lparr>qb_cancelled := set_add scope (qb_cancelled b)\<rparr>)"

definition worker_ended :: "nat \<Rightarrow> QueuedBuild \<Rightarrow> QueuedBuild" where
  "worker_ended scope b = (if qb_worker b = Some scope then b\<lparr>qb_worker := None\<rparr> else b)"

definition is_done :: "QueuedBuild \<Rightarrow> bool" where
  "is_done b \<longleftrightarrow> ans_done (qb_answer b)"

definition is_pending :: "QueuedBuild \<Rightarrow> bool" where
  "is_pending b \<longleftrightarrow> \<not> is_building b \<and> \<not> is_done b"

definition MAX_STORE_RETRIES :: nat where "MAX_STORE_RETRIES = 3"

definition store_failures_of :: "QueuedBuild \<Rightarrow> string \<Rightarrow> nat" where
  "store_failures_of b store_id =
     (case map_of (qb_store_failures b) store_id of Some n \<Rightarrow> n | None \<Rightarrow> 0)"

definition is_blacklisted :: "QueuedBuild \<Rightarrow> string \<Rightarrow> bool" where
  "is_blacklisted b store_id \<longleftrightarrow> store_failures_of b store_id \<ge> MAX_STORE_RETRIES"

definition reset_for_retry :: "string \<Rightarrow> string \<Rightarrow> QueuedBuild \<Rightarrow> QueuedBuild" where
  "reset_for_retry failed_store_id reason b =
     b\<lparr>qb_retries := qb_retries b + 1, qb_started_at := None, qb_worker := None,
       qb_store_failures := dict_set failed_store_id (store_failures_of b failed_store_id + 1) (qb_store_failures b),
       qb_store_errors := dict_set failed_store_id reason (qb_store_errors b)\<rparr>"

definition wait_time :: "QueuedBuild \<Rightarrow> seconds option" where
  "wait_time b = (case qb_started_at b of None \<Rightarrow> None | Some t \<Rightarrow> Some (t - qb_enqueued_at b))"

definition build_time :: "QueuedBuild \<Rightarrow> seconds option" where
  "build_time b =
     (case (qb_started_at b, qb_finished_at b) of
        (Some s, Some f) \<Rightarrow> Some (f - s) | _ \<Rightarrow> None)"

definition total_time :: "QueuedBuild \<Rightarrow> seconds option" where
  "total_time b = (case qb_finished_at b of None \<Rightarrow> None | Some t \<Rightarrow> Some (t - qb_enqueued_at b))"

definition description :: "QueuedBuild \<Rightarrow> string" where
  "description b =
     (let get = (\<lambda>k. case map_of (rq_env (qb_request b)) k of Some v \<Rightarrow> v | None \<Rightarrow> ''unknown'')
      in get ''pname'' @ ''-'' @ get ''version'')"

section \<open>The log and its subscribers\<close>

datatype send_outcome = Sent | SendOSError | SendRuntimeError

type_synonym sender = "nat \<Rightarrow> bytes \<Rightarrow> send_outcome"

definition record_sent :: "nat \<Rightarrow> bytes \<Rightarrow> QueuedBuild \<Rightarrow> QueuedBuild" where
  "record_sent client raw b = b\<lparr>qb_sent := qb_sent b @ [(client, raw)]\<rparr>"

text \<open>A write that raises leaves in the buffer what it had written.\<close>

definition post_log :: "LogMessage \<Rightarrow> (QueuedBuild, bytes) eff" where
  "post_log msg = (\<lambda>b.
     let before = length (qb_log b) in
     case log_to_writer msg (qb_log b) of
       (Inl e, buf) \<Rightarrow> (Inl e, b\<lparr>qb_log := buf\<rparr>)
     | (Inr _, buf) \<Rightarrow> (Inr (drop before buf), b\<lparr>qb_log := buf\<rparr>))"

definition send_raw_safe :: "sender \<Rightarrow> nat \<Rightarrow> bytes \<Rightarrow> (QueuedBuild, nat option) eff" where
  "send_raw_safe send sub raw = (\<lambda>b.
     case send sub raw of
       Sent \<Rightarrow> (Inr None, record_sent sub raw b)
     | SendOSError \<Rightarrow> (Inr (Some sub), b)
     | SendRuntimeError \<Rightarrow> (Inr (Some sub), b))"

definition send_one :: "sender \<Rightarrow> nat \<Rightarrow> LogMessage \<Rightarrow> (QueuedBuild, nat option) eff" where
  "send_one send client msg =
     (case log_to_writer msg [] of
        (Inl e, _) \<Rightarrow> raise e
      | (Inr _, buf) \<Rightarrow> send_raw_safe send client buf)"

definition remove_subscriber :: "nat \<Rightarrow> QueuedBuild \<Rightarrow> bool \<times> QueuedBuild" where
  "remove_subscriber client b =
     (case map_of (qb_subscriber_refs b) client of
        None \<Rightarrow> (False, b)
      | Some count \<Rightarrow>
          if count > 1
          then (True, b\<lparr>qb_subscriber_refs := dict_set client (count - 1) (qb_subscriber_refs b)\<rparr>)
          else (True, b\<lparr>qb_subscriber_refs := dict_pop client (qb_subscriber_refs b),
                        qb_subscribers := remove1 client (qb_subscribers b)\<rparr>))"

primrec send_each :: "sender \<Rightarrow> bytes \<Rightarrow> nat list \<Rightarrow> QueuedBuild \<Rightarrow> nat list \<times> QueuedBuild" where
  "send_each send raw [] b = ([], b)"
| "send_each send raw (c # cs) b =
     (case send_raw_safe send c raw b of
        (Inr (Some f), b') \<Rightarrow> (let (failed, b'') = send_each send raw cs b' in (f # failed, b''))
      | (_, b') \<Rightarrow> send_each send raw cs b')"

text \<open>\<open>post_log_bytes\<close>: to every subscriber, and one reference less for each whose send failed.\<close>

definition post_log_bytes :: "sender \<Rightarrow> bytes \<Rightarrow> QueuedBuild \<Rightarrow> QueuedBuild" where
  "post_log_bytes send raw b =
     (if qb_subscribers b = [] \<or> raw = [] then b
      else let (failed, b') = send_each send raw (qb_subscribers b) b
           in foldl (\<lambda>b c. snd (remove_subscriber c b)) b' failed)"

definition post_log_and_fanout :: "sender \<Rightarrow> LogMessage \<Rightarrow> (QueuedBuild, unit) eff" where
  "post_log_and_fanout send msg =
     bind (post_log msg) (\<lambda>raw b. (Inr (), post_log_bytes send raw b))"

definition waits_for_somebody_elses_build :: "QueuedBuild \<Rightarrow> bool" where
  "waits_for_somebody_elses_build b \<longleftrightarrow> qb_subscribers b \<noteq> [] \<or> qb_started_at b \<noteq> None"

definition what_it_is_waiting_on :: "QueuedBuild \<Rightarrow> string" where
  "what_it_is_waiting_on b =
     (let req = qb_request b;
          named = sort (map (\<lambda>(name, path). if path \<noteq> [] then path else rq_drv_path req @ ''.'' @ name)
                     (rq_output_paths req))
      in join '', '' (map (\<lambda>one. [CHR 0x27] @ one @ [CHR 0x27])
           (if named \<noteq> [] then named else [rq_drv_path req])))"

text \<open>\<open>activity.next_activity_id\<close>: the counter below the process number.\<close>

definition next_activity_id :: "nat \<Rightarrow> nat \<Rightarrow> int" where
  "next_activity_id pid counter = int counter + push_bit 32 (int pid)"

definition BUILD_WAITING :: int where "BUILD_WAITING = 111"

definition WARN :: int where "WARN = 1"

definition waiting_message :: "int \<Rightarrow> QueuedBuild \<Rightarrow> LogMessage" where
  "waiting_message aid b =
     LogStartActivity aid WARN BUILD_WAITING (''waiting for lock on '' @ what_it_is_waiting_on b) [] 0"

definition say_it_is_waiting :: "sender \<Rightarrow> int \<Rightarrow> nat \<Rightarrow> (QueuedBuild, unit) eff" where
  "say_it_is_waiting send aid client = (\<lambda>b.
     bind (send_one send client (waiting_message aid b))
       (\<lambda>failed b. (Inr (), if failed = None
                            then b\<lparr>qb_waiting_acts := dict_set client aid (qb_waiting_acts b)\<rparr>
                            else b)) b)"

primrec stop_each :: "sender \<Rightarrow> (nat \<times> int) list \<Rightarrow> (QueuedBuild, unit) eff" where
  "stop_each send [] = ret ()"
| "stop_each send (w # ws) =
     bind (send_one send (fst w) (LogStopActivity (snd w))) (\<lambda>_. stop_each send ws)"

definition stop_waiting_activities :: "sender \<Rightarrow> (QueuedBuild, unit) eff" where
  "stop_waiting_activities send = (\<lambda>b.
     stop_each send (qb_waiting_acts b) (b\<lparr>qb_waiting_acts := []\<rparr>))"

text \<open>
  \<open>add_subscriber\<close>. The replay catches \<open>OSError\<close>, and a \<open>RuntimeError\<close> of the transport leaves
  it.
\<close>

definition replay_log :: "sender \<Rightarrow> nat \<Rightarrow> (QueuedBuild, bool) eff" where
  "replay_log send client = (\<lambda>b.
     if qb_log b = [] then (Inr True, b)
     else case send client (qb_log b) of
       Sent \<Rightarrow> (Inr True, record_sent client (qb_log b) b)
     | SendOSError \<Rightarrow> (Inr False, b)
     | SendRuntimeError \<Rightarrow> (Inl RuntimeError, b))"

definition announce_wait :: "sender \<Rightarrow> int \<Rightarrow> nat \<Rightarrow> (QueuedBuild, unit) eff" where
  "announce_wait send aid client = (\<lambda>b.
     if waits_for_somebody_elses_build b then say_it_is_waiting send aid client b else (Inr (), b))"

definition join_if :: "nat \<Rightarrow> bool \<Rightarrow> (QueuedBuild, unit) eff" where
  "join_if client replayed = (\<lambda>b.
     (Inr (), if replayed
              then b\<lparr>qb_subscribers := qb_subscribers b @ [client],
                     qb_subscriber_refs := dict_set client 1 (qb_subscriber_refs b)\<rparr>
              else b))"

definition add_subscriber :: "sender \<Rightarrow> int \<Rightarrow> nat \<Rightarrow> bool \<Rightarrow> (QueuedBuild, unit) eff" where
  "add_subscriber send aid client cancel_on_unsubscribe = (\<lambda>b0.
     let b = (if cancel_on_unsubscribe then b0\<lparr>qb_cancel_when_unsubscribed := True\<rparr> else b0) in
     case map_of (qb_subscriber_refs b) client of
       Some n \<Rightarrow> (Inr (), b\<lparr>qb_subscriber_refs := dict_set client (n + 1) (qb_subscriber_refs b)\<rparr>)
     | None \<Rightarrow>
         bind (announce_wait send aid client) (\<lambda>_.
         bind (replay_log send client) (join_if client)) b)"

section \<open>The life cycle\<close>

lemma store_failures_of_reset:
  "store_failures_of (reset_for_retry s reason b) t = store_failures_of b t + (if s = t then 1 else 0)"
  by (simp add: store_failures_of_def reset_for_retry_def)

section \<open>Subscriptions\<close>

text \<open>The list of subscribers and the counts of their references agree.\<close>

definition subs_ok :: "QueuedBuild \<Rightarrow> bool" where
  "subs_ok b \<longleftrightarrow> distinct (qb_subscribers b) \<and> set (qb_subscribers b) = dom (map_of (qb_subscriber_refs b)) \<and>
     0 \<notin> ran (map_of (qb_subscriber_refs b))"

definition refs_of :: "QueuedBuild \<Rightarrow> nat \<Rightarrow> nat" where
  "refs_of b c = (case map_of (qb_subscriber_refs b) c of Some n \<Rightarrow> n | None \<Rightarrow> 0)"

definition same_subs :: "QueuedBuild \<Rightarrow> QueuedBuild \<Rightarrow> bool" where
  "same_subs b b' \<longleftrightarrow> qb_subscribers b' = qb_subscribers b \<and> qb_subscriber_refs b' = qb_subscriber_refs b"

lemma subs_ok_same: "same_subs b b' \<Longrightarrow> subs_ok b' = subs_ok b"
  by (simp add: subs_ok_def same_subs_def)

lemma same_subs_refl [simp]: "same_subs b b"
  by (simp add: same_subs_def)

lemma same_subs_trans: "same_subs a b \<Longrightarrow> same_subs b c \<Longrightarrow> same_subs a c"
  by (simp add: same_subs_def)

lemma subs_ok_remove: "subs_ok b \<Longrightarrow> subs_ok (snd (remove_subscriber c b))"
  by (auto simp: remove_subscriber_def subs_ok_def map_of_dict_pop ran_def split: option.split)

lemma refs_of_remove:
  "refs_of (snd (remove_subscriber c b)) d = refs_of b d - (if c = d then 1 else 0)"
  by (auto simp: remove_subscriber_def refs_of_def map_of_dict_pop split: option.split)

lemma snd_bindI:
  assumes "\<And>e s'. m s = (Inl e, s') \<Longrightarrow> P s'" and "\<And>v s'. m s = (Inr v, s') \<Longrightarrow> P (snd (f v s'))"
  shows "P (snd (bind m f s))"
  using assms by (auto simp: bind_apply split: prod.split sum.split)

lemma same_subs_send_raw_safe: "same_subs b (snd (send_raw_safe send c raw b))"
  by (simp add: send_raw_safe_def same_subs_def record_sent_def split: send_outcome.split)

lemma same_subs_send_one: "same_subs b (snd (send_one send c msg b))"
  by (auto simp: send_one_def same_subs_send_raw_safe split: prod.split sum.split)

lemma send_each_eq:
  "send_each send raw cs b = (filter (\<lambda>c. send c raw \<noteq> Sent) cs,
     b\<lparr>qb_sent := qb_sent b @ map (\<lambda>c. (c, raw)) (filter (\<lambda>c. send c raw = Sent) cs)\<rparr>)"
  by (induction cs arbitrary: b) (simp_all add: send_raw_safe_def record_sent_def split: send_outcome.split)

lemma subs_ok_sent [simp]: "subs_ok (b\<lparr>qb_sent := x\<rparr>) = subs_ok b"
  by (simp add: subs_ok_def)

lemma subs_ok_remove_all: "subs_ok b \<Longrightarrow> subs_ok (foldl (\<lambda>b c. snd (remove_subscriber c b)) b cs)"
  by (induction cs arbitrary: b) (simp_all add: subs_ok_remove)

lemma subs_ok_post_log_bytes: "subs_ok b \<Longrightarrow> subs_ok (post_log_bytes send raw b)"
  unfolding post_log_bytes_def send_each_eq
  by (simp add: subs_ok_remove_all)

lemma same_subs_post_log: "same_subs b (snd (post_log msg b))"
  by (auto simp: post_log_def same_subs_def Let_def split: prod.split sum.split)

lemma same_subs_say: "same_subs b (snd (say_it_is_waiting send aid c b))"
proof -
  obtain r b' where r: "send_one send c (waiting_message aid b) b = (r, b')" by fastforce
  then have "same_subs b b'" using same_subs_send_one by (metis snd_conv)
  with r show ?thesis
    by (cases r) (auto simp: say_it_is_waiting_def bind_apply same_subs_def)
qed

lemma same_subs_announce: "same_subs b (snd (announce_wait send aid c b))"
  by (simp add: announce_wait_def same_subs_say)

lemma same_subs_replay: "same_subs b (snd (replay_log send c b))"
  by (simp add: replay_log_def same_subs_def record_sent_def split: send_outcome.split)

lemma subs_ok_join:
  "subs_ok b \<Longrightarrow> map_of (qb_subscriber_refs b) c = None \<Longrightarrow> same_subs b b' \<Longrightarrow>
     subs_ok (b'\<lparr>qb_subscribers := qb_subscribers b' @ [c], qb_subscriber_refs := dict_set c 1 (qb_subscriber_refs b')\<rparr>)"
  by (auto simp: subs_ok_def same_subs_def ran_def domIff)

lemma subs_ok_add_subscriber:
  assumes "subs_ok b" shows "subs_ok (snd (add_subscriber send aid c x b))"
proof -
  define b0 where "b0 = (if x then b\<lparr>qb_cancel_when_unsubscribed := True\<rparr> else b)"
  have ok: "subs_ok b0" using assms by (simp add: subs_ok_def b0_def)
  show ?thesis
  proof (cases "map_of (qb_subscriber_refs b0) c")
    case (Some n)
    with ok show ?thesis
      by (auto simp: add_subscriber_def Let_def subs_ok_def ran_def simp flip: b0_def)
  next
    case None
    have "subs_ok (snd (bind (announce_wait send aid c) (\<lambda>_. bind (replay_log send c) (join_if c)) b0))"
    proof (rule snd_bindI)
      fix e b1 assume "announce_wait send aid c b0 = (Inl e, b1)"
      then show "subs_ok b1" using same_subs_announce [of b0 send aid c] subs_ok_same ok by fastforce
    next
      fix v b1 assume "announce_wait send aid c b0 = (Inr v, b1)"
      then have s1: "same_subs b0 b1" using same_subs_announce [of b0 send aid c] by simp
      show "subs_ok (snd (bind (replay_log send c) (join_if c) b1))"
      proof (rule snd_bindI)
        fix e b2 assume "replay_log send c b1 = (Inl e, b2)"
        then have "same_subs b0 b2" using same_subs_replay [of b1 send c] same_subs_trans [OF s1] by simp
        then show "subs_ok b2" using subs_ok_same ok by blast
      next
        fix r b2 assume "replay_log send c b1 = (Inr r, b2)"
        then have s2: "same_subs b0 b2" using same_subs_replay [of b1 send c] same_subs_trans [OF s1] by simp
        show "subs_ok (snd (join_if c r b2))"
          using subs_ok_join [OF ok None s2] subs_ok_same [OF s2] ok by (simp add: join_if_def)
      qed
    qed
    with None show ?thesis by (simp add: add_subscriber_def Let_def flip: b0_def)
  qed
qed

section \<open>What a subscriber reads\<close>

definition received :: "nat \<Rightarrow> QueuedBuild \<Rightarrow> bytes" where
  "received c b = concat (map snd (filter (\<lambda>m. fst m = c) (qb_sent b)))"

abbreviation everyone :: sender where
  "everyone \<equiv> \<lambda>_ _. Sent"

lemma post_log_ok:
  assumes "log_ok msg"
  obtains raw where "raw \<noteq> []" and "\<And>buf. log_to_writer msg buf = (Inr (), buf @ raw)"
    and "\<And>b. post_log msg b = (Inr raw, b\<lparr>qb_log := qb_log b @ raw\<rparr>)"
proof -
  obtain raw where "carries (log_to_writer msg) (next_message 0 :: (unit stream, LogMessage option) eff) (Some msg) raw" "raw \<noteq> []"
    using log_carries [OF assms] by blast
  then show thesis
    using carries_write by (intro that [of raw]) (fastforce simp: post_log_def Let_def)+
qed

lemma received_sent:
  "received c (b\<lparr>qb_sent := qb_sent b @ xs\<rparr>) = received c b @ concat (map snd (filter (\<lambda>m. fst m = c) xs))"
  by (simp add: received_def)

lemma received_other_field [simp]:
  "received c (b\<lparr>qb_log := l\<rparr>) = received c b"
  "received c (b\<lparr>qb_subscribers := xs\<rparr>) = received c b"
  "received c (b\<lparr>qb_subscriber_refs := rs\<rparr>) = received c b"
  "received c (b\<lparr>qb_waiting_acts := ws\<rparr>) = received c b"
  "received c (b\<lparr>qb_cancel_when_unsubscribed := x\<rparr>) = received c b"
  by (simp_all add: received_def)

lemma filter_eq_distinct: "distinct xs \<Longrightarrow> filter (\<lambda>x. x = c) xs = (if c \<in> set xs then [c] else [])"
  by (induction xs) auto

lemma post_log_bytes_everyone:
  "raw \<noteq> [] \<Longrightarrow>
     post_log_bytes everyone raw b = b\<lparr>qb_sent := qb_sent b @ map (\<lambda>c. (c, raw)) (qb_subscribers b)\<rparr>"
  by (simp add: post_log_bytes_def send_each_eq)

lemma received_fanout:
  assumes "raw \<noteq> []" and "distinct (qb_subscribers b)"
  shows "received c (post_log_bytes everyone raw b) =
    received c b @ (if c \<in> set (qb_subscribers b) then raw else [])"
  using assms
  by (simp add: post_log_bytes_everyone received_sent filter_map comp_def filter_eq_distinct)

primrec post_all :: "sender \<Rightarrow> LogMessage list \<Rightarrow> (QueuedBuild, unit) eff" where
  "post_all send [] = ret ()"
| "post_all send (m # ms) = bind (post_log_and_fanout send m) (\<lambda>_. post_all send ms)"

text \<open>Failed sends to other clients cost them a reference and change nothing for the rest.\<close>

lemma remove_keeps:
  "qb_log (snd (remove_subscriber d b)) = qb_log b" "qb_request (snd (remove_subscriber d b)) = qb_request b"
  "received c (snd (remove_subscriber d b)) = received c b"
  "c \<noteq> d \<Longrightarrow> c \<in> set (qb_subscribers (snd (remove_subscriber d b))) \<longleftrightarrow> c \<in> set (qb_subscribers b)"
  by (auto simp: remove_subscriber_def split: option.split)

lemma remove_all_keeps:
  assumes "c \<notin> set ds"
  shows "qb_log (foldl (\<lambda>b d. snd (remove_subscriber d b)) b ds) = qb_log b \<and>
    qb_request (foldl (\<lambda>b d. snd (remove_subscriber d b)) b ds) = qb_request b \<and>
    received c (foldl (\<lambda>b d. snd (remove_subscriber d b)) b ds) = received c b \<and>
    (c \<in> set (qb_subscribers (foldl (\<lambda>b d. snd (remove_subscriber d b)) b ds)) \<longleftrightarrow> c \<in> set (qb_subscribers b))"
  using assms by (induction ds arbitrary: b) (simp_all add: remove_keeps)

lemma fanout_reaches:
  assumes "\<And>raw. send c raw = Sent" and "raw \<noteq> []" and "subs_ok b" and "c \<in> set (qb_subscribers b)"
  shows "received c (post_log_bytes send raw b) = received c b @ raw" "c \<in> set (qb_subscribers (post_log_bytes send raw b))"
    "qb_log (post_log_bytes send raw b) = qb_log b"
proof -
  let ?sent = "map (\<lambda>d. (d, raw)) (filter (\<lambda>d. send d raw = Sent) (qb_subscribers b))"
  let ?failed = "filter (\<lambda>d. send d raw \<noteq> Sent) (qb_subscribers b)"
  let ?b = "b\<lparr>qb_sent := qb_sent b @ ?sent\<rparr>"
  have "post_log_bytes send raw b = foldl (\<lambda>b d. snd (remove_subscriber d b)) ?b ?failed"
    using assms(2,4) by (auto simp: post_log_bytes_def send_each_eq)
  moreover have "c \<notin> set ?failed" using assms(1) by simp
  moreover have "filter (\<lambda>d. send d raw = Sent \<and> d = c) (qb_subscribers b) = [c]"
    using assms(1,3,4) filter_eq_distinct [of "qb_subscribers b" c] by (simp add: subs_ok_def conj_commute [of "send _ raw = Sent"] cong: conj_cong)
  then have "received c ?b = received c b @ raw"
    by (simp add: received_sent filter_map comp_def)
  ultimately show "received c (post_log_bytes send raw b) = received c b @ raw" "c \<in> set (qb_subscribers (post_log_bytes send raw b))"
    "qb_log (post_log_bytes send raw b) = qb_log b"
    using remove_all_keeps [of c ?failed ?b] assms(4) by simp_all
qed

lemma post_all_hears:
  assumes "list_all log_ok msgs" and "\<And>raw. send c raw = Sent" and "subs_ok b" and "c \<in> set (qb_subscribers b)"
    and "received c b = old @ qb_log b"
  shows "\<exists>b'. post_all send msgs b = (Inr (), b') \<and> received c b' = old @ qb_log b' \<and>
    write_items log_to_writer msgs (qb_log b) = (Inr (), qb_log b')"
  using assms(1,3-5)
proof (induction msgs arbitrary: b)
  case (Cons m msgs)
  then have m: "log_ok m" by simp
  obtain raw where raw: "raw \<noteq> []" "\<And>buf. log_to_writer m buf = (Inr (), buf @ raw)"
      "\<And>b. post_log m b = (Inr raw, b\<lparr>qb_log := qb_log b @ raw\<rparr>)"
    by (rule post_log_ok [OF m]) blast
  let ?posted = "b\<lparr>qb_log := qb_log b @ raw\<rparr>"
  let ?b = "post_log_bytes send raw ?posted"
  have "subs_ok ?posted" "c \<in> set (qb_subscribers ?posted)" using Cons.prems(2,3) by (simp_all add: subs_ok_def)
  note f = fanout_reaches [where send = send and c = c, OF assms(2) raw(1) this]
  have "subs_ok ?b" using Cons.prems(2) by (intro subs_ok_post_log_bytes) (simp add: subs_ok_def)
  then obtain b' where "post_all send msgs ?b = (Inr (), b')" "received c b' = old @ qb_log b'"
      "write_items log_to_writer msgs (qb_log ?b) = (Inr (), qb_log b')"
    using Cons.IH [of ?b] Cons.prems f by auto
  then show ?case using f(3) by (intro exI [of _ b']) (simp add: post_log_and_fanout_def bind_apply raw(2,3))
qed simp

lemma announce_reaches:
  assumes "log_to_writer (waiting_message aid b) [] = (Inr (), own)" and "\<And>raw. send c raw = Sent"
  obtains b' where "announce_wait send aid c b = (Inr (), b')" and "same_subs b b'"
    and "qb_log b' = qb_log b"
    and "received c b' = received c b @ (if waits_for_somebody_elses_build b then own else [])"
proof (cases "waits_for_somebody_elses_build b")
  case True
  show thesis
    by (rule that [of "b\<lparr>qb_sent := qb_sent b @ [(c, own)], qb_waiting_acts := dict_set c aid (qb_waiting_acts b)\<rparr>"])
      (use True assms in \<open>simp_all add: announce_wait_def say_it_is_waiting_def send_one_def bind_apply
         send_raw_safe_def record_sent_def same_subs_def received_sent\<close>)
next
  case False
  then show thesis by (intro that [of b]) (simp_all add: announce_wait_def)
qed

lemma replay_reaches:
  assumes "\<And>raw. send c raw = Sent"
  shows "\<exists>b'. replay_log send c b = (Inr True, b') \<and> same_subs b b' \<and> qb_log b' = qb_log b \<and>
     received c b' = received c b @ qb_log b"
  using assms by (cases "qb_log b = []")
    (simp_all add: replay_log_def record_sent_def same_subs_def received_sent)

lemma joined_reads_log:
  assumes "subs_ok b" and "map_of (qb_subscriber_refs b) c = None" and "list_all log_ok msgs"
    and "log_ok (waiting_message aid b)" and send: "\<And>raw. send c raw = Sent"
  shows "\<exists>own b1 b2. log_to_writer (waiting_message aid b) [] = (Inr (), own) \<and>
    add_subscriber send aid c False b = (Inr (), b1) \<and> post_all send msgs b1 = (Inr (), b2) \<and>
    received c b2 = received c b @ (if waits_for_somebody_elses_build b then own else []) @ qb_log b2 \<and>
    write_items log_to_writer msgs (qb_log b) = (Inr (), qb_log b2)"
proof -
  obtain own where own: "log_to_writer (waiting_message aid b) [] = (Inr (), own)"
    using post_log_ok [OF assms(4)] by (metis append_Nil)
  let ?old = "received c b @ (if waits_for_somebody_elses_build b then own else [])"
  obtain b' where b': "announce_wait send aid c b = (Inr (), b')" "same_subs b b'" "qb_log b' = qb_log b"
    "received c b' = ?old" by (rule announce_reaches [where send = send and c = c, OF own send])
  obtain b'' where b'': "replay_log send c b' = (Inr True, b'')" "same_subs b' b''" "qb_log b'' = qb_log b'"
    "received c b'' = ?old @ qb_log b'" using replay_reaches [of send c b'] send b'(4) by auto
  let ?b1 = "b''\<lparr>qb_subscribers := qb_subscribers b'' @ [c], qb_subscriber_refs := dict_set c 1 (qb_subscriber_refs b'')\<rparr>"
  have add: "add_subscriber send aid c False b = (Inr (), ?b1)"
    using assms(2) b'(1) b''(1) by (simp add: add_subscriber_def Let_def bind_apply join_if_def)
  have "subs_ok ?b1" using assms(1,2) same_subs_trans [OF b'(2) b''(2)] by (rule subs_ok_join)
  then obtain b2 where "post_all send msgs ?b1 = (Inr (), b2)" "received c b2 = ?old @ qb_log b2"
      "write_items log_to_writer msgs (qb_log ?b1) = (Inr (), qb_log b2)"
    using post_all_hears [OF assms(3), of send c ?b1 ?old] send b'' by auto
  with own add b'(3) b''(3) show ?thesis by auto
qed

section \<open>Joining while the build writes\<close>

text \<open>
  \<open>_sub_lock\<close> is an \<open>anyio.Lock\<close>: those that wait for it get it in the order in which they asked, and
  who gets it runs again only after the event loop had a turn. So the lock is a queue whose head holds
  it. A message that is posted while there are subscribers asks for the lock to take the list of them;
  a client that subscribes keeps the lock while its \<open>BUILD_WAITING\<close> message and then the replay are on
  their way, and the event loop runs other tasks in both waits. The sends of a fan-out start after the
  lock is given back; the write lock of a connection keeps them in order for each client. Between two
  awaits nothing else runs, and where the code has one wait less, because nothing is to be announced or
  replayed, the relation still has it. Every send succeeds and nobody leaves.
\<close>

datatype join_phase = Entered | Announced | Replayed

datatype lock_entry = Fan bytes | Join nat int bool join_phase

type_synonym log_state = "QueuedBuild \<times> lock_entry list \<times> (nat \<times> bytes) list"

definition note_cancel :: "bool \<Rightarrow> QueuedBuild \<Rightarrow> QueuedBuild" where
  "note_cancel x b = (if x then b\<lparr>qb_cancel_when_unsubscribed := True\<rparr> else b)"

inductive turn :: "log_state \<Rightarrow> log_state \<Rightarrow> bool" where
  post_alone: "qb_subscribers b = [] \<Longrightarrow> post_log msg b = (Inr raw, b') \<Longrightarrow> log_ok msg \<Longrightarrow>
    turn (b, q, out) (b', q, out)"
| post_asks: "qb_subscribers b \<noteq> [] \<Longrightarrow> post_log msg b = (Inr raw, b') \<Longrightarrow> log_ok msg \<Longrightarrow>
    turn (b, q, out) (b', q @ [Fan raw], out)"
| join_asks: "turn (b, q, out) (b, q @ [Join c aid x Entered], out)"
| fan_out: "turn (b, Fan raw # q, out) (b, q, out @ map (\<lambda>c. (c, raw)) (qb_subscribers b))"
| again: "map_of (qb_subscriber_refs b) c = Some n \<Longrightarrow>
    turn (b, Join c aid x Entered # q, out)
      ((note_cancel x b)\<lparr>qb_subscriber_refs := dict_set c (n + 1) (qb_subscriber_refs b)\<rparr>, q, out)"
| announce: "map_of (qb_subscriber_refs b) c = None \<Longrightarrow> announce_wait everyone aid c (note_cancel x b) = (Inr (), b') \<Longrightarrow>
    turn (b, Join c aid x Entered # q, out) (b', Join c aid x Announced # q, out)"
| replay: "replay_log everyone c b = (Inr True, b') \<Longrightarrow>
    turn (b, Join c aid x Announced # q, out) (b', Join c aid x Replayed # q, out)"
| join: "join_if c True b = (Inr (), b') \<Longrightarrow>
    turn (b, Join c aid x Replayed # q, out) (b', q, out)"
| deliver: "c \<notin> fst ` set before \<Longrightarrow>
    turn (b, q, before @ (c, raw) # after) (record_sent c raw b, q, before @ after)"

text \<open>The bytes of whole messages; what the lock's queue and the sends on their way hold.\<close>

definition messages :: "bytes \<Rightarrow> bool" where
  "messages bs \<longleftrightarrow> (\<exists>ms. list_all log_ok ms \<and> write_items log_to_writer ms [] = (Inr (), bs))"

fun fans :: "lock_entry list \<Rightarrow> bytes" where
  "fans [] = []"
| "fans (Fan raw # q) = raw @ fans q"
| "fans (Join c aid x ph # q) = fans q"

definition sent_to :: "nat \<Rightarrow> (nat \<times> bytes) list \<Rightarrow> bytes" where
  "sent_to c out = concat (map snd (filter (\<lambda>m. fst m = c) out))"

text \<open>The client whose call holds the lock, and how far the call is.\<close>

fun stage :: "lock_entry list \<Rightarrow> nat \<Rightarrow> join_phase" where
  "stage (Join d aid x ph # q) c = (if d = c then ph else Entered)"
| "stage _ c = Entered"

fun entered :: "lock_entry \<Rightarrow> bool" where
  "entered (Fan raw) = True"
| "entered (Join c aid x ph) = (ph = Entered)"

fun fan_ok :: "lock_entry \<Rightarrow> bool" where
  "fan_ok (Fan raw) = (\<exists>m. log_ok m \<and> (\<forall>buf. log_to_writer m buf = (Inr (), buf @ raw)))"
| "fan_ok (Join c aid x ph) = True"

definition own_wait :: "QueuedBuild \<Rightarrow> bytes \<Rightarrow> bool" where
  "own_wait b own \<longleftrightarrow> own = [] \<or> (\<exists>aid. log_to_writer (waiting_message aid b) [] = (Inr (), own))"

text \<open>
  What a client has read when it is up to date: after what it had before, its own \<open>BUILD_WAITING\<close>
  message, if any, and then the log, the messages at the end of the replay possibly twice.
\<close>

definition up_to_date :: "bytes \<Rightarrow> QueuedBuild \<Rightarrow> bytes \<Rightarrow> bool" where
  "up_to_date base b heard \<longleftrightarrow> (\<exists>own replayed twice late. heard = base @ own @ replayed @ twice @ late \<and>
     qb_log b = replayed @ late \<and> suffix twice replayed \<and> messages twice \<and> own_wait b own)"

definition standing :: "(nat \<Rightarrow> bytes) \<Rightarrow> log_state \<Rightarrow> nat \<Rightarrow> bool" where
  "standing base st c = (case st of (b, q, out) \<Rightarrow>
     if c \<in> set (qb_subscribers b)
     then stage q c = Entered \<and> up_to_date (base c) b (received c b @ sent_to c out @ fans q)
     else sent_to c out = [] \<and> (case stage q c of
         Entered \<Rightarrow> received c b = base c
       | Announced \<Rightarrow> \<exists>own. own_wait b own \<and> received c b = base c @ own
       | Replayed \<Rightarrow> up_to_date (base c) b (received c b @ fans q)))"

definition in_step :: "(nat \<Rightarrow> bytes) \<Rightarrow> log_state \<Rightarrow> bool" where
  "in_step base st = (case st of (b, q, out) \<Rightarrow>
     subs_ok b \<and> qb_subscribers b \<noteq> [] \<and> list_all entered (tl q) \<and> list_all fan_ok q \<and> suffix (fans q) (qb_log b) \<and>
     (\<forall>c. standing base st c))"

lemma messages_Nil [simp]: "messages []"
  unfolding messages_def by (intro exI [of _ "[]"]) simp

lemma fans_append [simp]: "fans (q @ q') = fans q @ fans q'"
  by (induction q rule: fans.induct) simp_all

lemma stage_append: "list_all entered q' \<Longrightarrow> stage (q @ q') c = stage q c"
proof (cases q)
  case Nil
  assume "list_all entered q'"
  then show ?thesis using Nil by (cases "(q', c)" rule: stage.cases) auto
next
  case (Cons e q'')
  then show ?thesis by (cases e) simp_all
qed

lemma stage_entered: "list_all entered q \<Longrightarrow> stage q c = Entered"
  using stage_append [of q "[]" c] by simp

lemma sent_to_simps [simp]:
  "sent_to c [] = []" "sent_to c (out @ out') = sent_to c out @ sent_to c out'"
  "sent_to c ((d, raw) # out) = (if d = c then raw else []) @ sent_to c out"
  by (simp_all add: sent_to_def)

lemma sent_to_subscribers:
  "distinct ds \<Longrightarrow> sent_to c (map (\<lambda>d. (d, raw)) ds) = (if c \<in> set ds then raw else [])"
  by (induction ds) auto

lemma sent_to_before: "c \<notin> fst ` set out \<Longrightarrow> sent_to c out = []"
  by (induction out) auto

lemma fans_messages: "list_all fan_ok q \<Longrightarrow> messages (fans q)"
proof -
  assume "list_all fan_ok q"
  then have "\<exists>ms. list_all log_ok ms \<and> (\<forall>buf. write_items log_to_writer ms buf = (Inr (), buf @ fans q))"
  proof (induction q rule: fans.induct)
    case 1
    show ?case by (intro exI [of _ "[]"]) simp
  next
    case (2 raw q)
    then obtain m ms where "log_ok m" "\<And>buf. log_to_writer m buf = (Inr (), buf @ raw)" "list_all log_ok ms"
        "\<And>buf. write_items log_to_writer ms buf = (Inr (), buf @ fans q)" by auto
    then show ?case by (intro exI [of _ "m # ms"]) (simp add: bind_apply)
  qed simp
  then show ?thesis by (auto simp: messages_def)
qed

lemma own_wait_cong: "qb_request b' = qb_request b \<Longrightarrow> own_wait b' = own_wait b"
  by (simp add: fun_eq_iff own_wait_def waiting_message_def what_it_is_waiting_on_def)

lemma up_to_date_cong:
  "qb_log b' = qb_log b \<Longrightarrow> qb_request b' = qb_request b \<Longrightarrow> up_to_date base b' = up_to_date base b"
  by (simp add: fun_eq_iff up_to_date_def own_wait_cong [of b' b])

lemma up_to_date_post:
  assumes "up_to_date base b heard"
  shows "up_to_date base (b\<lparr>qb_log := qb_log b @ raw\<rparr>) (heard @ raw)"
proof -
  obtain own replayed twice late where "heard = base @ own @ replayed @ twice @ late" "qb_log b = replayed @ late"
      "suffix twice replayed" "messages twice" "own_wait b own" using assms by (auto simp: up_to_date_def)
  then show ?thesis unfolding up_to_date_def
    by (intro exI [of _ own] exI [of _ replayed] exI [of _ twice] exI [of _ "late @ raw"])
      (simp add: own_wait_cong [of "b\<lparr>qb_log := x\<rparr>" b for x])
qed

lemma post_log_appends:
  assumes "post_log msg b = (Inr raw, b')" and "log_ok msg"
  shows "b' = b\<lparr>qb_log := qb_log b @ raw\<rparr>" and "fan_ok (Fan raw)"
proof -
  obtain raw' where "raw' \<noteq> []" "\<And>buf. log_to_writer msg buf = (Inr (), buf @ raw')"
    "\<And>b. post_log msg b = (Inr raw', b\<lparr>qb_log := qb_log b @ raw'\<rparr>)" by (rule post_log_ok [OF assms(2)]) blast
  then show "b' = b\<lparr>qb_log := qb_log b @ raw\<rparr>" and "fan_ok (Fan raw)" using assms by auto
qed

lemma announce_effect:
  assumes "announce_wait everyone aid c b = (Inr (), b')"
  shows "same_subs b b'" "qb_log b' = qb_log b" "qb_request b' = qb_request b"
    "d \<noteq> c \<Longrightarrow> received d b' = received d b" "\<exists>own. own_wait b own \<and> received c b' = received c b @ own"
  using assms
  by (auto simp: announce_wait_def say_it_is_waiting_def send_one_def bind_apply send_raw_safe_def own_wait_def
      record_sent_def same_subs_def received_sent split: if_splits prod.splits sum.splits)

lemma replay_effect:
  assumes "replay_log everyone c b = (Inr True, b')"
  shows "same_subs b b'" "qb_log b' = qb_log b" "qb_request b' = qb_request b" "received c b' = received c b @ qb_log b"
    "d \<noteq> c \<Longrightarrow> received d b' = received d b"
  using assms
  by (auto simp: replay_log_def record_sent_def same_subs_def received_sent split: if_splits)

lemma note_cancel_parts [simp]:
  "same_subs b (note_cancel x b)" "qb_log (note_cancel x b) = qb_log b" "qb_request (note_cancel x b) = qb_request b"
  "received c (note_cancel x b) = received c b" "qb_subscribers (note_cancel x b) = qb_subscribers b"
  "qb_subscriber_refs (note_cancel x b) = qb_subscriber_refs b"
  by (simp_all add: note_cancel_def same_subs_def)

lemma in_stepI:
  assumes "subs_ok b" "qb_subscribers b \<noteq> []" "list_all entered (tl q)" "list_all fan_ok q" "suffix (fans q) (qb_log b)"
    and "\<And>c. standing base (b, q, out) c"
  shows "in_step base (b, q, out)"
  using assms by (simp add: in_step_def)

lemma in_stepD:
  assumes "in_step base (b, q, out)"
  shows "subs_ok b" "qb_subscribers b \<noteq> []" "list_all entered (tl q)" "list_all fan_ok q" "suffix (fans q) (qb_log b)"
    and "standing base (b, q, out) c"
  using assms by (simp_all add: in_step_def)

lemma tl_snoc_entered: "list_all entered (tl q) \<Longrightarrow> entered e \<Longrightarrow> list_all entered (tl (q @ [e]))"
  by (cases q) simp_all

lemma in_step_post:
  assumes "in_step base (b, q, out)" and "fan_ok (Fan raw)"
  shows "in_step base (b\<lparr>qb_log := qb_log b @ raw\<rparr>, q @ [Fan raw], out)"
proof (rule in_stepI)
  let ?b = "b\<lparr>qb_log := qb_log b @ raw\<rparr>"
  note h = in_stepD [OF assms(1)]
  show "subs_ok ?b" "qb_subscribers ?b \<noteq> []" using h(1,2) by (simp_all add: subs_ok_def)
  show "list_all entered (tl (q @ [Fan raw]))" "list_all fan_ok (q @ [Fan raw])"
    using h(3,4) assms(2) by (simp_all add: tl_snoc_entered)
  show "suffix (fans (q @ [Fan raw])) (qb_log ?b)" using h(5) by (auto simp: suffix_def)
  fix c
  show "standing base (?b, q @ [Fan raw], out) c"
    using h(6) [of c] up_to_date_post [of "base c" b _ raw]
    by (auto simp: standing_def stage_append own_wait_cong [of ?b b] simp flip: append_assoc split: if_splits join_phase.splits)
qed

lemma in_step_fan:
  assumes "in_step base (b, Fan raw # q, out)"
  shows "in_step base (b, q, out @ map (\<lambda>c. (c, raw)) (qb_subscribers b))"
proof (rule in_stepI)
  note h = in_stepD [OF assms]
  show "subs_ok b" "qb_subscribers b \<noteq> []" using h by simp_all
  have q: "list_all entered q" using h(3) by simp
  then show "list_all entered (tl q)" by (cases q) simp_all
  show "list_all fan_ok q" "suffix (fans q) (qb_log b)" using h(4,5) by (auto simp: suffix_def)
  fix c
  have "distinct (qb_subscribers b)" using h(1) by (simp add: subs_ok_def)
  then show "standing base (b, q, out @ map (\<lambda>c. (c, raw)) (qb_subscribers b)) c"
    using h(6) [of c] by (auto simp: standing_def stage_entered [OF q] sent_to_subscribers split: if_splits)
qed

text \<open>A call that holds the lock goes on, and the other clients stand where they stood.\<close>

lemma in_step_call:
  assumes "in_step base (b, Join c aid x ph # q, out)" and "same_subs b b'" and "qb_log b' = qb_log b"
    and "qb_request b' = qb_request b" and "\<And>d. d \<noteq> c \<Longrightarrow> received d b' = received d b"
    and "standing base (b', Join c aid x ph' # q, out) c"
  shows "in_step base (b', Join c aid x ph' # q, out)"
proof (rule in_stepI)
  note h = in_stepD [OF assms(1)]
  have s: "qb_subscribers b' = qb_subscribers b" using assms(2) by (simp add: same_subs_def)
  show "subs_ok b'" "qb_subscribers b' \<noteq> []" using h(1,2) subs_ok_same [OF assms(2)] s by simp_all
  show "list_all entered (tl (Join c aid x ph' # q))" "list_all fan_ok (Join c aid x ph' # q)"
    "suffix (fans (Join c aid x ph' # q)) (qb_log b')" using h(3-5) assms(3) by simp_all
  fix d
  show "standing base (b', Join c aid x ph' # q, out) d"
  proof (cases "d = c")
    case False
    then show ?thesis using h(6) [of d] assms(5) [of d] by (auto simp: standing_def s up_to_date_cong [OF assms(3,4)] split: if_splits)
  qed (use assms(6) in simp)
qed

lemma in_step_left:
  assumes "in_step base (b, Join c aid x ph # q, out)" and "subs_ok b'" and "set (qb_subscribers b') = insert c (set (qb_subscribers b))"
    and "qb_log b' = qb_log b" and "qb_request b' = qb_request b" and "\<And>d. received d b' = received d b"
    and "up_to_date (base c) b (received c b @ sent_to c out @ fans q)"
  shows "in_step base (b', q, out)"
proof (rule in_stepI)
  note h = in_stepD [OF assms(1)]
  have q: "list_all entered q" using h(3) by simp
  show "subs_ok b'" by (fact assms(2))
  show "qb_subscribers b' \<noteq> []" using assms(3) by auto
  show "list_all entered (tl q)" using q by (cases q) simp_all
  show "list_all fan_ok q" "suffix (fans q) (qb_log b')" using h(4,5) assms(4) by simp_all
  fix d
  show "standing base (b', q, out) d"
    using h(6) [of d] assms(3,6,7) by (auto simp: standing_def stage_entered [OF q] up_to_date_cong [OF assms(4,5)])
qed

lemma record_sent_parts:
  "qb_log (record_sent c raw b) = qb_log b" "qb_subscribers (record_sent c raw b) = qb_subscribers b"
  "subs_ok (record_sent c raw b) = subs_ok b" "own_wait (record_sent c raw b) = own_wait b"
  "up_to_date base (record_sent c raw b) = up_to_date base b"
  "received d (record_sent c raw b) = received d b @ (if d = c then raw else [])"
  by (simp_all add: record_sent_def subs_ok_def received_sent own_wait_cong [of "b\<lparr>qb_sent := x\<rparr>" b for x]
      up_to_date_cong [of "b\<lparr>qb_sent := x\<rparr>" b for x])

lemma in_step_deliver:
  assumes "in_step base (b, q, before @ (c, raw) # after)" and "c \<notin> fst ` set before"
  shows "in_step base (record_sent c raw b, q, before @ after)"
proof (rule in_stepI)
  note h = in_stepD [OF assms(1)]
  show "standing base (record_sent c raw b, q, before @ after) d" for d
    using h(6) [of d] sent_to_before [OF assms(2)]
    by (auto simp: standing_def record_sent_parts split: if_splits join_phase.splits)
qed (use in_stepD [OF assms(1)] in \<open>simp_all add: record_sent_parts\<close>)

lemma turn_in_step:
  assumes "turn st st'" and "in_step base st"
  shows "in_step base st'"
  using assms
proof (induction rule: turn.induct)
  case (post_alone b msg raw b' q out)
  then show ?case by (simp add: in_step_def)
next
  case (post_asks b msg raw b' q out)
  then show ?case using in_step_post [of base b q out raw] post_log_appends [of msg b raw b'] by simp
next
  case (join_asks b q out c aid x)
  note h = in_stepD [OF join_asks.prems]
  have "standing base (b, q @ [Join c aid x Entered], out) d" for d
    using h(6) [of d] by (auto simp: standing_def stage_append split: if_splits join_phase.splits)
  then show ?case by (intro in_stepI) (use h in \<open>simp_all add: tl_snoc_entered\<close>)
next
  case (fan_out b raw q out)
  then show ?case by (rule in_step_fan)
next
  case (again b c n aid x q out)
  let ?b = "(note_cancel x b)\<lparr>qb_subscriber_refs := dict_set c (n + 1) (qb_subscriber_refs b)\<rparr>"
  note h = in_stepD [OF again.prems]
  have c: "c \<in> set (qb_subscribers b)" using again.hyps h(1) by (auto simp: subs_ok_def)
  show ?case
  proof (rule in_step_left [OF again.prems])
    show "subs_ok ?b" using h(1) again.hyps by (auto simp: subs_ok_def ran_def)
    show "up_to_date (base c) b (received c b @ sent_to c out @ fans q)" using h(6) [of c] c by (simp add: standing_def)
  qed (use c in auto)
next
  case (announce b c aid x b' q out)
  note h = in_stepD [OF announce.prems] and e = announce_effect [OF announce.hyps(2)]
  have c: "c \<notin> set (qb_subscribers b)" using announce.hyps(1) h(1) by (auto simp: subs_ok_def)
  have s: "same_subs b b'" using e(1) by (simp add: same_subs_def)
  obtain own where own: "own_wait b own" "received c b' = received c b @ own"
    using e(5) own_wait_cong [of "note_cancel x b" b] by auto
  have "standing base (b', Join c aid x Announced # q, out) c"
    using h(6) [of c] c s own own_wait_cong [of b' b] e(3) by (auto simp: standing_def same_subs_def)
  then show ?case by (intro in_step_call [OF announce.prems s]) (use e in simp_all)
next
  case (replay c b b' aid x q out)
  note h = in_stepD [OF replay.prems] and e = replay_effect [OF replay.hyps]
  obtain own where c: "c \<notin> set (qb_subscribers b)" "sent_to c out = []" "own_wait b own" "received c b = base c @ own"
    using h(6) [of c] by (auto simp: standing_def split: if_splits)
  have "up_to_date (base c) b (received c b @ qb_log b @ fans q)"
    unfolding up_to_date_def using c(3,4) h(5) fans_messages [OF h(4)]
    by (intro exI [of _ own] exI [of _ "qb_log b"] exI [of _ "fans q"] exI [of _ "[]"]) simp
  then have "standing base (b', Join c aid x Replayed # q, out) c"
    using c(1,2) e by (simp add: standing_def same_subs_def up_to_date_cong [OF e(2,3)])
  then show ?case by (intro in_step_call [OF replay.prems e(1-3)]) (use e(5) in simp_all)
next
  case (join c b b' aid x q out)
  note h = in_stepD [OF join.prems]
  have c: "c \<notin> set (qb_subscribers b)" "sent_to c out = []" "up_to_date (base c) b (received c b @ fans q)"
    using h(6) [of c] by (auto simp: standing_def split: if_splits)
  have b': "b' = b\<lparr>qb_subscribers := qb_subscribers b @ [c], qb_subscriber_refs := dict_set c 1 (qb_subscriber_refs b)\<rparr>"
    using join.hyps by (simp add: join_if_def)
  have "map_of (qb_subscriber_refs b) c = None" using c(1) h(1) by (auto simp: subs_ok_def)
  then have "subs_ok b'" unfolding b' by (intro subs_ok_join [OF h(1)]) simp_all
  then show ?case by (rule in_step_left [OF join.prems]) (use c in \<open>simp_all add: b'\<close>)
next
  case (deliver c before b q raw after)
  then show ?case by (intro in_step_deliver)
qed

interpretation log_turns: ordered_steps turn "in_step base" "\<lambda>_ _. True" for base
  by unfold_locales (simp_all add: turn_in_step)

text \<open>
  C27. The lock keeps a joining client in step while another client is subscribed. However its call
  interleaves with the messages of the build, the fan-outs, their sends and other calls, as soon as
  nothing is on its way any more each subscriber has read, behind what it had before, its own
  \<open>BUILD_WAITING\<close> message if it got one, and then the whole log in order, without a gap; the only
  bytes it reads twice are whole messages at the end of its replay. The sends succeed and no client leaves.
\<close>

theorem joining_hears_all:
  assumes "turn\<^sup>*\<^sup>* (b, [], []) (b', [], [])" and "subs_ok b" and "qb_subscribers b \<noteq> []"
    and "\<forall>d. received d b = base d @ (if d \<in> set (qb_subscribers b) then qb_log b else [])"
    and "c \<in> set (qb_subscribers b')"
  shows "\<exists>own replayed twice late. received c b' = base c @ own @ replayed @ twice @ late \<and>
    qb_log b' = replayed @ late \<and> suffix twice replayed \<and>
    (\<exists>ms. list_all log_ok ms \<and> write_items log_to_writer ms [] = (Inr (), twice)) \<and>
    (own = [] \<or> (\<exists>aid. log_to_writer (waiting_message aid b') [] = (Inr (), own)))"
proof -
  have "up_to_date (base d) b (base d @ qb_log b)" for d
    unfolding up_to_date_def own_wait_def
    by (intro exI [of _ "[]"] exI [of _ "qb_log b"] conjI) simp_all
  then have "in_step base (b, [], [])" using assms(2-4) by (intro in_stepI) (simp_all add: standing_def)
  with assms(1) have "in_step base (b', [], [])" by (rule log_turns.run_in_order)
  then have "up_to_date (base c) b' (received c b')"
    using in_stepD(6) [of base b' "[]" "[]" c] assms(5) by (simp add: standing_def)
  then show ?thesis unfolding up_to_date_def messages_def own_wait_def by blast
qed

text \<open>
  The first client to join is not in step: bytes that the build logs while that client's replay is on
  its way find no subscriber, and \<open>post_log_bytes\<close> drops them before it asks for the lock. The
  client is subscribed, nothing is on its way, and it never reads them.
\<close>

lemma first_subscriber_misses_bytes:
  assumes "log_ok m" and "log_ok m'"
  shows "\<exists>raw raw' b. turn\<^sup>*\<^sup>* (new_build i req d rids opts now, [], []) (b, [], []) \<and>
    log_to_writer m [] = (Inr (), raw) \<and> log_to_writer m' [] = (Inr (), raw') \<and> raw' \<noteq> [] \<and>
    qb_subscribers b = [c] \<and> received c b = raw \<and> qb_log b = raw @ raw'"
proof -
  let ?new = "new_build i req d rids opts now"
  obtain raw where raw: "raw \<noteq> []" "\<And>buf. log_to_writer m buf = (Inr (), buf @ raw)"
    "\<And>b. post_log m b = (Inr raw, b\<lparr>qb_log := qb_log b @ raw\<rparr>)" by (rule post_log_ok [OF assms(1)]) blast
  obtain raw' where raw': "raw' \<noteq> []" "\<And>buf. log_to_writer m' buf = (Inr (), buf @ raw')"
    "\<And>b. post_log m' b = (Inr raw', b\<lparr>qb_log := qb_log b @ raw'\<rparr>)" by (rule post_log_ok [OF assms(2)]) blast
  let ?logged = "?new\<lparr>qb_log := raw\<rparr>"
  let ?replayed = "?logged\<lparr>qb_sent := [(c, raw)]\<rparr>"
  let ?more = "?replayed\<lparr>qb_log := raw @ raw'\<rparr>"
  let ?joined = "?more\<lparr>qb_subscribers := [c], qb_subscriber_refs := [(c, 1)]\<rparr>"
  have "turn (?new, [], []) (?logged, [], [])"
    using raw(3) [of ?new] by (intro turn.post_alone [OF _ _ assms(1)]) (simp_all add: new_build_def)
  moreover have "turn (?logged, [], []) (?logged, [Join c 0 False Entered], [])"
    using turn.join_asks [of ?logged "[]"] by simp
  moreover have "turn (?logged, [Join c 0 False Entered], []) (?logged, [Join c 0 False Announced], [])"
    by (rule turn.announce) (simp_all add: new_build_def note_cancel_def announce_wait_def waits_for_somebody_elses_build_def)
  moreover have "turn (?logged, [Join c 0 False Announced], []) (?replayed, [Join c 0 False Replayed], [])"
    using raw(1) by (intro turn.replay) (simp add: new_build_def replay_log_def record_sent_def)
  moreover have "turn (?replayed, [Join c 0 False Replayed], []) (?more, [Join c 0 False Replayed], [])"
    using raw'(3) [of ?replayed] by (intro turn.post_alone [OF _ _ assms(2)]) (simp_all add: new_build_def)
  moreover have "turn (?more, [Join c 0 False Replayed], []) (?joined, [], [])"
    by (rule turn.join) (simp add: new_build_def join_if_def)
  ultimately have "turn\<^sup>*\<^sup>* (?new, [], []) (?joined, [], [])"
    by (meson converse_rtranclp_into_rtranclp rtranclp.rtrancl_refl)
  then show ?thesis
    using raw raw'(1) raw'(2) [of "[]"] by (intro exI [of _ raw] exI [of _ raw'] exI [of _ ?joined]) (simp add: received_def)
qed

text \<open>
  A client that joins while another one is subscribed can read a message twice: it is posted while the
  \<open>BUILD_WAITING\<close> message is on its way, so the replay has it, and its fan-out, which waits for the
  lock, finds the client among the subscribers.
\<close>

definition shared_build :: QueuedBuild where
  "shared_build = (new_build 1 (plain_request ''p'' []) None [] None 0)\<lparr>qb_subscribers := [2], qb_subscriber_refs := [(2, 1)]\<rparr>"

lemma joining_client_hears_twice:
  assumes "log_ok m"
  shows "\<exists>own raw b. turn\<^sup>*\<^sup>* (shared_build, [], []) (b, [], []) \<and> qb_subscribers b = [2, 3] \<and> qb_log b = raw \<and>
    log_to_writer m [] = (Inr (), raw) \<and> raw \<noteq> [] \<and> received 2 b = raw \<and> received 3 b = own @ raw @ raw"
proof -
  obtain raw where raw: "raw \<noteq> []" "\<And>buf. log_to_writer m buf = (Inr (), buf @ raw)"
    "\<And>b. post_log m b = (Inr raw, b\<lparr>qb_log := qb_log b @ raw\<rparr>)" by (rule post_log_ok [OF assms]) blast
  have "log_ok (waiting_message 0 shared_build)"
    by (simp add: shared_build_def new_build_def waiting_message_def what_it_is_waiting_on_def wire_text_def wire_int_def
        WARN_def BUILD_WAITING_def plain_request_def bd_output_paths_def)
  then obtain own where own: "log_to_writer (waiting_message 0 shared_build) [] = (Inr (), own)"
    using post_log_ok [of "waiting_message 0 shared_build"] by (metis append_Nil)
  let ?told = "shared_build\<lparr>qb_sent := [(3, own)], qb_waiting_acts := [(3, 0)]\<rparr>"
  let ?posted = "?told\<lparr>qb_log := raw\<rparr>"
  let ?replayed = "?posted\<lparr>qb_sent := [(3, own), (3, raw)]\<rparr>"
  let ?joined = "?replayed\<lparr>qb_subscribers := [2, 3], qb_subscriber_refs := [(2, 1), (3, 1)]\<rparr>"
  let ?one = "?joined\<lparr>qb_sent := [(3, own), (3, raw), (2, raw)]\<rparr>"
  let ?both = "?joined\<lparr>qb_sent := [(3, own), (3, raw), (2, raw), (3, raw)]\<rparr>"
  have "turn (shared_build, [], []) (shared_build, [Join 3 0 False Entered], [])" using turn.join_asks [of shared_build "[]"] by simp
  moreover have "turn (shared_build, [Join 3 0 False Entered], []) (?told, [Join 3 0 False Announced], [])"
    by (rule turn.announce) (use own in \<open>simp_all add: shared_build_def new_build_def note_cancel_def announce_wait_def
      waits_for_somebody_elses_build_def say_it_is_waiting_def send_one_def bind_apply send_raw_safe_def record_sent_def\<close>)
  moreover have "turn (?told, [Join 3 0 False Announced], []) (?posted, [Join 3 0 False Announced, Fan raw], [])"
    using turn.post_asks [OF _ _ assms, of ?told raw ?posted "[Join 3 0 False Announced]" "[]"] raw(3) [of ?told]
    by (simp add: shared_build_def new_build_def)
  moreover have "turn (?posted, [Join 3 0 False Announced, Fan raw], []) (?replayed, [Join 3 0 False Replayed, Fan raw], [])"
    using raw(1) by (intro turn.replay) (simp add: replay_log_def record_sent_def)
  moreover have "turn (?replayed, [Join 3 0 False Replayed, Fan raw], []) (?joined, [Fan raw], [])"
    by (rule turn.join) (simp add: join_if_def shared_build_def)
  moreover have "turn (?joined, [Fan raw], []) (?joined, [], [(2, raw), (3, raw)])"
    using turn.fan_out [of ?joined raw "[]" "[]"] by simp
  moreover have "turn (?joined, [], [(2, raw), (3, raw)]) (?one, [], [(3, raw)])"
    using turn.deliver [of 2 "[]" ?joined "[]" raw "[(3, raw)]"] by (simp add: record_sent_def)
  moreover have "turn (?one, [], [(3, raw)]) (?both, [], [])"
    using turn.deliver [of 3 "[]" ?one "[]" raw "[]"] by (simp add: record_sent_def)
  ultimately have "turn\<^sup>*\<^sup>* (shared_build, [], []) (?both, [], [])"
    by (meson converse_rtranclp_into_rtranclp rtranclp.rtrancl_refl)
  then show ?thesis
    using raw(1) raw(2) [of "[]"] by (intro exI [of _ own] exI [of _ raw] exI [of _ ?both]) (simp add: received_def)
qed

theorem joining_hears_all_witness:
  "\<exists>b own replayed twice late. turn\<^sup>*\<^sup>* (shared_build, [], []) (b, [], []) \<and> 3 \<in> set (qb_subscribers b) \<and> qb_log b \<noteq> [] \<and>
    received 3 b = own @ replayed @ twice @ late \<and> qb_log b = replayed @ late \<and> suffix twice replayed"
proof -
  have "log_ok (LogNext ''a'')" by (simp add: wire_text_def)
  then obtain own raw b where b: "turn\<^sup>*\<^sup>* (shared_build, [], []) (b, [], [])" "qb_subscribers b = [2, 3]" "qb_log b = raw" "raw \<noteq> []"
    using joining_client_hears_twice by blast
  have "\<exists>own replayed twice late. received 3 b = [] @ own @ replayed @ twice @ late \<and> qb_log b = replayed @ late \<and>
      suffix twice replayed \<and> (\<exists>ms. list_all log_ok ms \<and> write_items log_to_writer ms [] = (Inr (), twice)) \<and>
      (own = [] \<or> (\<exists>aid. log_to_writer (waiting_message aid b) [] = (Inr (), own)))"
    by (rule joining_hears_all [OF b(1), where base = "\<lambda>_. []"])
      (use b(2) in \<open>simp_all add: shared_build_def new_build_def subs_ok_def received_def\<close>)
  then show ?thesis using b by fastforce
qed

end
