(* ===== verification/Build_Queue.thy ===== *)
theory Build_Queue
  imports Queued_Build "HOL-Library.Product_Lexorder"
begin

text \<open>
  The queue of builds (\<open>BuildQueue\<close> of \<open>pynixd/build_queue.py\<close>). A build is one object that the
  list, the two indices and the scheduler's workers share, so the objects live in a store,
  \<open>bq_builds\<close>, and the list and the indices hold references into it; an object that \<open>prune\<close>
  dropped stays there for the worker that may still hold it. Every public operation runs under
  the queue's lock, so each of its lock sections is one step; an operation that takes the lock
  twice (\<open>release_request\<close>, \<open>prune_request\<close>) or sends before it takes it (\<open>complete\<close>, \<open>fail\<close>) is
  several steps, and the steps of other tasks come between them.
\<close>

section \<open>The state\<close>

record BuildQueue =
  bq_builds :: "QueuedBuild list"
  bq_queue :: "nat list"
  bq_by_path :: "((string \<times> nat) \<times> nat) list"
  bq_by_id :: "(nat \<times> nat) list"
  bq_requests :: "(nat \<times> SchedulerBuildRequest) list"
  bq_next_id :: nat
  bq_next_request_id :: nat
  bq_given_up :: "nat list"
  bq_max_jobs :: "(nat \<times> int option) list"
  bq_keeps_going :: "(nat \<times> bool) list"
  bq_held :: "(nat \<times> nat list) list"
  bq_completed :: "bool list"
  bq_durations :: "seconds list"

text \<open>
  \<open>bq_completed\<close> is what \<open>BUILDS_COMPLETED\<close> counted (true for a success) and \<open>bq_durations\<close> what
  \<open>BUILD_DURATION\<close> observed.
\<close>

definition empty_queue :: BuildQueue where
  "empty_queue =
     \<lparr>bq_builds = [], bq_queue = [], bq_by_path = [], bq_by_id = [], bq_requests = [],
      bq_next_id = 1, bq_next_request_id = 1, bq_given_up = [], bq_max_jobs = [],
      bq_keeps_going = [], bq_held = [], bq_completed = [], bq_durations = []\<rparr>"

abbreviation build_at :: "BuildQueue \<Rightarrow> nat \<Rightarrow> QueuedBuild" where
  "build_at q r \<equiv> bq_builds q ! r"

definition upd :: "nat \<Rightarrow> (QueuedBuild \<Rightarrow> QueuedBuild) \<Rightarrow> BuildQueue \<Rightarrow> BuildQueue" where
  "upd r f q = q\<lparr>bq_builds := (bq_builds q)[r := f (build_at q r)]\<rparr>"

text \<open>A method of the build at a reference, run on the build in the store.\<close>

definition on_build :: "nat \<Rightarrow> (QueuedBuild, 'a) eff \<Rightarrow> (BuildQueue, 'a) eff" where
  "on_build r m = (\<lambda>q. case m (build_at q r) of (x, b) \<Rightarrow> (x, q\<lparr>bq_builds := (bq_builds q)[r := b]\<rparr>))"

definition dedup_key :: "BuildDerivationRequest \<Rightarrow> string \<times> nat" where
  "dedup_key request = (rq_drv_path request, rq_build_mode request)"

definition the_order_nix_takes :: "QueuedBuild \<Rightarrow> string \<times> string \<times> nat" where
  "the_order_nix_takes build =
     (let path = rq_drv_path (qb_request build);
          name = snd (snd (partition_at (CHR ''-'') (rpartition_tail (CHR ''/'') path)))
      in (name, path, qb_build_id build))"

section \<open>Reading it\<close>

record QueueCounts =
  qc_pending :: nat
  qc_building :: nat
  qc_done :: nat

definition counts :: "BuildQueue \<Rightarrow> QueueCounts" where
  "counts q =
     foldl (\<lambda>n r. let b = build_at q r in
         if is_done b then n\<lparr>qc_done := qc_done n + 1\<rparr>
         else if is_building b then n\<lparr>qc_building := qc_building n + 1\<rparr>
         else if is_pending b then n\<lparr>qc_pending := qc_pending n + 1\<rparr>
         else n)
       \<lparr>qc_pending = 0, qc_building = 0, qc_done = 0\<rparr> (bq_queue q)"

definition max_jobs_of :: "BuildQueue \<Rightarrow> nat \<Rightarrow> int option" where
  "max_jobs_of q rid = (case map_of (bq_max_jobs q) rid of Some v \<Rightarrow> v | None \<Rightarrow> None)"

definition live_wanters :: "BuildQueue \<Rightarrow> QueuedBuild \<Rightarrow> nat list" where
  "live_wanters q build = filter (\<lambda>h. h \<notin> set (bq_given_up q)) (qb_holders build)"

definition get_pending :: "BuildQueue \<Rightarrow> nat list" where
  "get_pending q =
     sort_key (\<lambda>r. the_order_nix_takes (build_at q r))
       (filter (\<lambda>r. \<not> is_done (build_at q r)) (bq_queue q))"

definition nobody_wants :: "BuildQueue \<Rightarrow> QueuedBuild \<Rightarrow> bool" where
  "nobody_wants q build \<longleftrightarrow>
     qb_holders build \<noteq> [] \<and> set (qb_holders build) \<subseteq> set (bq_given_up q) \<and> qb_standalone build = 0"

definition count_status :: "BuildQueue \<Rightarrow> string \<Rightarrow> nat" where
  "count_status q status =
     (if status = ''pending'' then length (filter (\<lambda>r. is_pending (build_at q r)) (bq_queue q))
      else if status = ''running'' then length (filter (\<lambda>r. is_building (build_at q r)) (bq_queue q))
      else if status = ''done'' then length (filter (\<lambda>r. is_done (build_at q r)) (bq_queue q))
      else 0)"

section \<open>Requests and builds come in\<close>

definition create_request ::
    "string list \<Rightarrow> nat \<Rightarrow> nat option \<Rightarrow> (BuildQueue, nat) eff" where
  "create_request derived_paths build_mode client = (\<lambda>q.
     let req_id = bq_next_request_id q;
         req = \<lparr>sr_id = req_id, sr_derived_paths = derived_paths, sr_build_mode = build_mode,
                sr_client = client, sr_answer = Unset, sr_active_build_ids = [], sr_all_build_ids = [],
                sr_build_to_derived = [], sr_results = []\<rparr>
     in (Inr req_id, q\<lparr>bq_next_request_id := req_id + 1, bq_requests := dict_set req_id req (bq_requests q)\<rparr>))"

definition held_of :: "BuildQueue \<Rightarrow> nat \<Rightarrow> nat list" where
  "held_of q rid = (case map_of (bq_held q) rid of Some ids \<Rightarrow> ids | None \<Rightarrow> [])"

definition hold_locked :: "nat \<Rightarrow> nat \<Rightarrow> BuildQueue \<Rightarrow> BuildQueue" where
  "hold_locked r rid q =
     (let q' = upd r (\<lambda>b. b\<lparr>qb_holders := set_add rid (qb_holders b)\<rparr>) q
      in q'\<lparr>bq_held := dict_set rid (set_add (qb_build_id (build_at q' r)) (held_of q' rid)) (bq_held q')\<rparr>)"

record enqueue_args =
  eq_request :: BuildDerivationRequest
  eq_expected_duration :: "int option"
  eq_scheduler_request_id :: "nat option"
  eq_derived_paths :: "string list"
  eq_from_goal_path :: bool
  eq_goal_request_id :: "nat option"
  eq_options :: "SetOptionsRequest option"
  eq_delegated :: bool
  eq_now :: seconds

definition LOCAL_STORE_ID :: string where "LOCAL_STORE_ID = ''local''"

definition note_goal_options :: "enqueue_args \<Rightarrow> BuildQueue \<Rightarrow> BuildQueue" where
  "note_goal_options a q =
     (case eq_goal_request_id a of
        None \<Rightarrow> q
      | Some g \<Rightarrow>
          q\<lparr>bq_max_jobs := dict_set g (map_option opt_max_build_jobs (eq_options a)) (bq_max_jobs q),
            bq_keeps_going := dict_set g (case eq_options a of None \<Rightarrow> True | Some opts \<Rightarrow> opt_keep_going opts)
              (bq_keeps_going q)\<rparr>)"

definition hold_for_goal :: "enqueue_args \<Rightarrow> nat \<Rightarrow> BuildQueue \<Rightarrow> BuildQueue" where
  "hold_for_goal a r q =
     (let q1 = (case eq_goal_request_id a of
                  Some g \<Rightarrow> if eq_from_goal_path a then hold_locked r g q else q
                | None \<Rightarrow> q)
      in if eq_goal_request_id a = None then upd r (\<lambda>b. b\<lparr>qb_standalone := qb_standalone b + 1\<rparr>) q1 else q1)"

definition track_in_request :: "enqueue_args \<Rightarrow> nat \<Rightarrow> BuildQueue \<Rightarrow> BuildQueue" where
  "track_in_request a build_id q =
     (case eq_scheduler_request_id a of
        Some s \<Rightarrow>
          if eq_derived_paths a \<noteq> []
          then case map_of (bq_requests q) s of
                 Some req \<Rightarrow> q\<lparr>bq_requests := dict_set s (sr_add_build build_id (eq_derived_paths a) req) (bq_requests q)\<rparr>
               | None \<Rightarrow> q
          else q
      | None \<Rightarrow> q)"

definition join_existing :: "enqueue_args \<Rightarrow> nat \<Rightarrow> BuildQueue \<Rightarrow> BuildQueue" where
  "join_existing a r q =
     (let q1 = upd r (\<lambda>b. b\<lparr>qb_from_goal_path := qb_from_goal_path b \<or> eq_from_goal_path a\<rparr>) q;
          q2 = hold_for_goal a r q1;
          q3 = (case eq_scheduler_request_id a of
                  Some s \<Rightarrow> upd r (\<lambda>b. b\<lparr>qb_scheduler_request_ids := set_add s (qb_scheduler_request_ids b)\<rparr>) q2
                | None \<Rightarrow> q2)
      in track_in_request a (qb_build_id (build_at q3 r)) q3)"

definition add_new :: "enqueue_args \<Rightarrow> BuildQueue \<Rightarrow> BuildQueue" where
  "add_new a q =
     (let build_id = bq_next_id q;
          r = length (bq_builds q);
          build = (new_build build_id (eq_request a) (eq_expected_duration a)
                     (case eq_scheduler_request_id a of Some s \<Rightarrow> [s] | None \<Rightarrow> []) (eq_options a) (eq_now a))
                  \<lparr>qb_from_goal_path := eq_from_goal_path a\<rparr>;
          q1 = hold_for_goal a r (q\<lparr>bq_builds := bq_builds q @ [build]\<rparr>);
          q2 = q1\<lparr>bq_next_id := bq_next_id q1 + 1, bq_queue := bq_queue q1 @ [r],
                  bq_by_path := dict_set (dedup_key (eq_request a)) r (bq_by_path q1),
                  bq_by_id := dict_set build_id r (bq_by_id q1)\<rparr>
      in track_in_request a build_id q2)"

definition delegation_loop :: "enqueue_args \<Rightarrow> QueuedBuild option \<Rightarrow> string option" where
  "delegation_loop a existing =
     (case existing of
        Some b \<Rightarrow> if eq_delegated a \<and> is_building b \<and> qb_assigned_store_id b \<noteq> Some LOCAL_STORE_ID
                  then qb_assigned_store_id b else None
      | None \<Rightarrow> None)"

text \<open>\<open>enqueue\<close> returns the build's id, and the reference that stands for its answer.\<close>

definition enqueue :: "enqueue_args \<Rightarrow> (BuildQueue, nat \<times> nat) eff" where
  "enqueue a = (\<lambda>q.
     if eq_from_goal_path a \<and> eq_goal_request_id a = None then (Inl RuntimeError, q)
     else let existing = map_of (bq_by_path q) (dedup_key (eq_request a)) in
       case delegation_loop a (map_option (build_at q) existing) of
         Some store \<Rightarrow> (Inl (DelegationLoopError (rq_drv_path (eq_request a)) store), q)
       | None \<Rightarrow>
           let q1 = note_goal_options a q in
           (case existing of
              Some r \<Rightarrow>
                if \<not> is_done (build_at q1 r)
                then (Inr (qb_build_id (build_at q1 r), r), join_existing a r q1)
                else (Inr (bq_next_id q1, length (bq_builds q1)), add_new a q1)
            | None \<Rightarrow> (Inr (bq_next_id q1, length (bq_builds q1)), add_new a q1)))"

section \<open>Builds end\<close>

definition cancel_build :: "string \<Rightarrow> seconds \<Rightarrow> QueuedBuild \<Rightarrow> QueuedBuild" where
  "cancel_build error_msg now b =
     (let b1 = cancel_worker (b\<lparr>qb_finished_at := Some now\<rparr>)
      in if is_done b1 then b1 else b1\<lparr>qb_answer := Value (failure_result MISC_FAILURE error_msg)\<rparr>)"

definition cancel_locked :: "nat \<Rightarrow> string \<Rightarrow> seconds \<Rightarrow> BuildQueue \<Rightarrow> BuildQueue" where
  "cancel_locked r error_msg now q =
     (let q' = upd r (cancel_build error_msg now) q
      in q'\<lparr>bq_completed := bq_completed q' @ [False]\<rparr>)"

definition subscribe :: "sender \<Rightarrow> int \<Rightarrow> nat \<Rightarrow> nat \<Rightarrow> bool \<Rightarrow> (BuildQueue, bool) eff" where
  "subscribe send aid build_id client cancel_on_unsubscribe = (\<lambda>q.
     case map_of (bq_by_id q) build_id of
       None \<Rightarrow> (Inr False, q)
     | Some r \<Rightarrow> bind (on_build r (add_subscriber send aid client cancel_on_unsubscribe)) (\<lambda>_. ret True) q)"

definition all_disconnected :: string where
  "all_disconnected = ''pynixd: build cancelled because all clients disconnected''"

definition unsubscribe :: "nat \<Rightarrow> nat \<Rightarrow> seconds \<Rightarrow> (BuildQueue, bool) eff" where
  "unsubscribe build_id client now = (\<lambda>q.
     case map_of (bq_by_id q) build_id of
       None \<Rightarrow> (Inr False, q)
     | Some r \<Rightarrow>
         let (removed, b) = remove_subscriber client (build_at q r);
             q1 = upd r (\<lambda>_. b) q
         in (Inr removed,
             if removed \<and> qb_cancel_when_unsubscribed b \<and> qb_subscribers b = [] \<and> \<not> is_done b
             then cancel_locked r all_disconnected now q1 else q1))"

definition no_goal_waits :: string where
  "no_goal_waits = ''pynixd: build cancelled because no goal waits for it''"

definition let_go :: "nat \<Rightarrow> seconds \<Rightarrow> BuildQueue \<Rightarrow> nat \<Rightarrow> BuildQueue" where
  "let_go rid now q build_id =
     (case map_of (bq_by_id q) build_id of
        None \<Rightarrow> q
      | Some r \<Rightarrow>
          let q1 = upd r (\<lambda>b. b\<lparr>qb_holders := removeAll rid (qb_holders b),
                       qb_scheduler_request_ids := removeAll rid (qb_scheduler_request_ids b)\<rparr>) q;
              b = build_at q1 r
          in if qb_holders b = [] \<and> qb_standalone b = 0 \<and> \<not> is_done b
             then cancel_locked r no_goal_waits now q1 else q1)"

text \<open>The part of \<open>release_request\<close> under the lock. \<open>prune\<close> follows as a step of its own.\<close>

definition release_locked :: "nat \<Rightarrow> seconds \<Rightarrow> BuildQueue \<Rightarrow> BuildQueue" where
  "release_locked rid now q =
     (let q1 = foldl (let_go rid now) (q\<lparr>bq_held := dict_pop rid (bq_held q)\<rparr>) (held_of q rid)
      in q1\<lparr>bq_given_up := removeAll rid (bq_given_up q1), bq_max_jobs := dict_pop rid (bq_max_jobs q1),
            bq_keeps_going := dict_pop rid (bq_keeps_going q1)\<rparr>)"

definition doomed :: "BuildQueue \<Rightarrow> nat \<Rightarrow> bool" where
  "doomed q r \<longleftrightarrow> (let b = build_at q r in
     is_done b \<and> qb_scheduler_request_ids b = [] \<and> qb_holders b = [] \<and> qb_subscribers b = [])"

definition drop_doomed :: "nat list \<Rightarrow> BuildQueue \<Rightarrow> nat \<times> nat \<Rightarrow> BuildQueue" where
  "drop_doomed dead q e =
     (if snd e \<in> set dead
      then let q1 = q\<lparr>bq_by_id := dict_pop (fst e) (bq_by_id q)\<rparr>;
               k = dedup_key (qb_request (build_at q1 (snd e)))
           in if map_of (bq_by_path q1) k = Some (snd e) then q1\<lparr>bq_by_path := dict_pop k (bq_by_path q1)\<rparr> else q1
      else q)"

definition prune :: "BuildQueue \<Rightarrow> BuildQueue" where
  "prune q =
     (let dead = filter (doomed q) (bq_queue q)
      in if dead = [] then q
         else foldl (drop_doomed dead)
                (q\<lparr>bq_queue := filter (\<lambda>r. r \<notin> set dead) (bq_queue q)\<rparr>) (bq_by_id q))"

definition release_request :: "nat \<Rightarrow> seconds \<Rightarrow> BuildQueue \<Rightarrow> BuildQueue" where
  "release_request rid now q = prune (release_locked rid now q)"

definition forget_in_queue :: "nat \<Rightarrow> BuildQueue \<Rightarrow> BuildQueue" where
  "forget_in_queue rid q =
     foldl (\<lambda>q r. upd r (\<lambda>b. b\<lparr>qb_scheduler_request_ids := removeAll rid (qb_scheduler_request_ids b)\<rparr>) q) q (bq_queue q)"

definition pop_request :: "nat \<Rightarrow> BuildQueue \<Rightarrow> BuildQueue" where
  "pop_request rid q = q\<lparr>bq_requests := dict_pop rid (bq_requests q)\<rparr>"

definition prune_request :: "nat \<Rightarrow> BuildQueue \<Rightarrow> BuildQueue" where
  "prune_request rid q = pop_request rid (prune (forget_in_queue rid q))"

definition note_a_request_that_gave_up :: "nat \<Rightarrow> nat \<Rightarrow> (BuildQueue, unit) eff" where
  "note_a_request_that_gave_up r status = (\<lambda>q.
     case status_is_success status of
       Inl e \<Rightarrow> (Inl e, q)
     | Inr True \<Rightarrow> (Inr (), q)
     | Inr False \<Rightarrow>
         (Inr (), q\<lparr>bq_given_up := foldl (\<lambda>s h. set_add h s) (bq_given_up q)
            (filter (\<lambda>h. map_of (bq_keeps_going q) h = Some False) (qb_holders (build_at q r)))\<rparr>))"

definition find_build :: "BuildQueue \<Rightarrow> nat \<Rightarrow> nat option" where
  "find_build q build_id = find (\<lambda>r. qb_build_id (build_at q r) = build_id) (bq_queue q)"

text \<open>The lock section of \<open>complete\<close>; \<open>status_is_success\<close> is asked again for the metric's label.\<close>

definition complete_locked :: "nat \<Rightarrow> BuildResult \<Rightarrow> seconds \<Rightarrow> (BuildQueue, unit) eff" where
  "complete_locked build_id response now = (\<lambda>q.
     case find_build q build_id of
       None \<Rightarrow> (Inl ValueError, q)
     | Some r \<Rightarrow>
         if is_done (build_at q r) then (Inr (), q)
         else bind (note_a_request_that_gave_up r (res_status response)) (\<lambda>_ q.
              (Inr (),
               q\<lparr>bq_completed := bq_completed q @ [status_is_success (res_status response) = Inr True],
                 bq_durations := (case build_time (build_at q r) of Some t \<Rightarrow> bq_durations q @ [t] | None \<Rightarrow> bq_durations q)\<rparr>))
              (upd r (\<lambda>b. b\<lparr>qb_finished_at := Some now, qb_answer := Value response\<rparr>) q))"

definition fail_locked :: "nat \<Rightarrow> string \<Rightarrow> nat \<Rightarrow> seconds \<Rightarrow> (BuildQueue, unit) eff" where
  "fail_locked build_id error_msg status now = (\<lambda>q.
     case find_build q build_id of
       None \<Rightarrow> (Inl ValueError, q)
     | Some r \<Rightarrow>
         if is_done (build_at q r) then (Inr (), q)
         else bind (note_a_request_that_gave_up r status) (\<lambda>_ q.
              (Inr (), q\<lparr>bq_completed := bq_completed q @ [False]\<rparr>))
              (upd r (\<lambda>b. b\<lparr>qb_finished_at := Some now, qb_answer := Value (failure_result status error_msg)\<rparr>) q))"

definition stop_waiting :: "sender \<Rightarrow> nat \<Rightarrow> (BuildQueue, unit) eff" where
  "stop_waiting send build_id = (\<lambda>q.
     case map_of (bq_by_id q) build_id of
       None \<Rightarrow> (Inr (), q)
     | Some r \<Rightarrow> on_build r (stop_waiting_activities send) q)"

definition complete :: "sender \<Rightarrow> nat \<Rightarrow> BuildResult \<Rightarrow> seconds \<Rightarrow> (BuildQueue, unit) eff" where
  "complete send build_id response now =
     bind (stop_waiting send build_id) (\<lambda>_. complete_locked build_id response now)"

definition fail :: "sender \<Rightarrow> nat \<Rightarrow> string \<Rightarrow> nat \<Rightarrow> seconds \<Rightarrow> (BuildQueue, unit) eff" where
  "fail send build_id error_msg status now =
     bind (stop_waiting send build_id) (\<lambda>_. fail_locked build_id error_msg status now)"

definition cancel_unwanted :: "nat \<Rightarrow> seconds \<Rightarrow> BuildQueue \<Rightarrow> BuildQueue" where
  "cancel_unwanted build_id now q =
     (case map_of (bq_by_id q) build_id of
        None \<Rightarrow> q
      | Some r \<Rightarrow> if is_done (build_at q r) then q else cancel_locked r [] now q)"

text \<open>
  What the scheduler writes to a build: \<open>_spawn_worker\<close>, the first line of \<open>execute_build\<close>, the
  start of the build itself, what it measured of the stores, and the features that
  \<open>strip_handled_features\<close> takes out of the derivation.
\<close>

definition spawn_worker :: "nat \<Rightarrow> QueuedBuild \<Rightarrow> QueuedBuild" where
  "spawn_worker scope b = b\<lparr>qb_worker := Some scope\<rparr>"

definition assign_store :: "string \<Rightarrow> QueuedBuild \<Rightarrow> QueuedBuild" where
  "assign_store store_id b = b\<lparr>qb_assigned_store_id := Some store_id\<rparr>"

definition mark_started :: "seconds \<Rightarrow> QueuedBuild \<Rightarrow> QueuedBuild" where
  "mark_started now b = b\<lparr>qb_started_at := Some now\<rparr>"

definition note_cost ::
    "(string \<times> seconds option) list \<Rightarrow> string list \<Rightarrow> (string \<times> StoreEstimate) list \<Rightarrow> int option \<Rightarrow> QueuedBuild \<Rightarrow> QueuedBuild" where
  "note_cost transfer measured estimates peak b =
     b\<lparr>qb_transfer_seconds := transfer, qb_inputs_measured := measured, qb_estimates := estimates,
       qb_expected_peak_bytes := peak\<rparr>"

definition strip_build :: "(string \<Rightarrow> string) \<Rightarrow> QueuedBuild \<Rightarrow> QueuedBuild" where
  "strip_build float_repr b =
     b\<lparr>qb_request := (qb_request b)\<lparr>rq_derivation := strip_handled_features float_repr (rq_derivation (qb_request b))\<rparr>\<rparr>"

section \<open>The invariant\<close>

definition build_ok :: "QueuedBuild \<Rightarrow> bool" where
  "build_ok b \<longleftrightarrow> subs_ok b \<and> (is_done b \<longleftrightarrow> qb_finished_at b \<noteq> None)"

text \<open>Ids are handed out in order, and the build with an id is the one created with it.\<close>

definition ids_ok :: "BuildQueue \<Rightarrow> bool" where
  "ids_ok q \<longleftrightarrow> bq_next_id q = Suc (length (bq_builds q)) \<and>
     (\<forall>r < length (bq_builds q). qb_build_id (build_at q r) = Suc r)"

text \<open>The list and \<open>_by_id\<close> hold the same builds; what is not in them any more is answered.\<close>

definition index_ok :: "BuildQueue \<Rightarrow> bool" where
  "index_ok q \<longleftrightarrow> distinct (bq_queue q) \<and> (\<forall>r \<in> set (bq_queue q). r < length (bq_builds q)) \<and>
     distinct (map fst (bq_by_id q)) \<and>
     (\<forall>i r. map_of (bq_by_id q) i = Some r \<longleftrightarrow> r \<in> set (bq_queue q) \<and> i = Suc r) \<and>
     (\<forall>r < length (bq_builds q). r \<notin> set (bq_queue q) \<longrightarrow> is_done (build_at q r))"

text \<open>\<open>_by_path\<close> names a build of its key, and the one of that key that is not answered.\<close>

definition paths_ok :: "BuildQueue \<Rightarrow> bool" where
  "paths_ok q \<longleftrightarrow>
     (\<forall>k r. map_of (bq_by_path q) k = Some r \<longrightarrow> r \<in> set (bq_queue q) \<and> dedup_key (qb_request (build_at q r)) = k) \<and>
     (\<forall>r \<in> set (bq_queue q). \<not> is_done (build_at q r) \<longrightarrow>
        map_of (bq_by_path q) (dedup_key (qb_request (build_at q r))) = Some r)"

text \<open>A goal request holds a build exactly when the build has it among its holders.\<close>

definition held_ok :: "BuildQueue \<Rightarrow> bool" where
  "held_ok q \<longleftrightarrow>
     (\<forall>rid. \<forall>r < length (bq_builds q). rid \<in> set (qb_holders (build_at q r)) \<longleftrightarrow> Suc r \<in> set (held_of q rid)) \<and>
     (\<forall>rid. distinct (held_of q rid) \<and> (\<forall>i \<in> set (held_of q rid). \<exists>r \<in> set (bq_queue q). i = Suc r))"

text \<open>What is kept about a goal request is kept from its first \<open>enqueue\<close> to its release.\<close>

definition goals_ok :: "BuildQueue \<Rightarrow> bool" where
  "goals_ok q \<longleftrightarrow>
     (\<forall>rid. held_of q rid \<noteq> [] \<longrightarrow> rid \<in> dom (map_of (bq_keeps_going q))) \<and>
     set (bq_given_up q) \<subseteq> dom (map_of (bq_keeps_going q)) \<and>
     dom (map_of (bq_max_jobs q)) = dom (map_of (bq_keeps_going q))"

definition bq_ok :: "BuildQueue \<Rightarrow> bool" where
  "bq_ok q \<longleftrightarrow> ids_ok q \<and> index_ok q \<and> paths_ok q \<and> held_ok q \<and> goals_ok q \<and>
     (\<forall>r < length (bq_builds q). build_ok (build_at q r))"

lemmas bq_ok_defs = bq_ok_def ids_ok_def index_ok_def paths_ok_def held_ok_def goals_ok_def

lemma queue_less: "bq_ok q \<Longrightarrow> r \<in> set (bq_queue q) \<Longrightarrow> r < length (bq_builds q)"
  by (simp add: bq_ok_def index_ok_def)

lemma by_id_iff: "bq_ok q \<Longrightarrow> map_of (bq_by_id q) i = Some r \<longleftrightarrow> r \<in> set (bq_queue q) \<and> i = Suc r"
  by (simp add: bq_ok_def index_ok_def)

lemma by_path_key:
  "bq_ok q \<Longrightarrow> map_of (bq_by_path q) k = Some r \<Longrightarrow>
     r \<in> set (bq_queue q) \<and> dedup_key (qb_request (build_at q r)) = k"
  unfolding bq_ok_def paths_ok_def by blast

lemma by_path_live:
  "bq_ok q \<Longrightarrow> r \<in> set (bq_queue q) \<Longrightarrow> \<not> is_done (build_at q r) \<Longrightarrow>
     map_of (bq_by_path q) (dedup_key (qb_request (build_at q r))) = Some r"
  unfolding bq_ok_def paths_ok_def by blast

lemma build_id_at: "bq_ok q \<Longrightarrow> r < length (bq_builds q) \<Longrightarrow> qb_build_id (build_at q r) = Suc r"
  by (simp add: bq_ok_def ids_ok_def)

lemma holders_iff:
  "bq_ok q \<Longrightarrow> r < length (bq_builds q) \<Longrightarrow> rid \<in> set (qb_holders (build_at q r)) \<longleftrightarrow> Suc r \<in> set (held_of q rid)"
  by (simp add: bq_ok_def held_ok_def)

text \<open>
  A \<open>quiet\<close> change of one build: who it is and who holds it stay, and an answer that is there
  stays.
\<close>

definition quiet :: "QueuedBuild \<Rightarrow> QueuedBuild \<Rightarrow> bool" where
  "quiet b b' \<longleftrightarrow> qb_build_id b' = qb_build_id b \<and> dedup_key (qb_request b') = dedup_key (qb_request b) \<and>
     qb_holders b' = qb_holders b \<and> (is_done b \<longrightarrow> qb_answer b' = qb_answer b) \<and>
     (build_ok b \<longrightarrow> build_ok b')"

lemma quiet_refl [simp]: "quiet b b"
  by (simp add: quiet_def)

lemma quiet_trans: "quiet a b \<Longrightarrow> quiet b c \<Longrightarrow> quiet a c"
  by (auto simp: quiet_def is_done_def)

lemma quiet_done: "quiet b b' \<Longrightarrow> is_done b \<Longrightarrow> is_done b'"
  by (simp add: quiet_def is_done_def)

lemma upd_simps [simp]:
  "bq_queue (upd r f q) = bq_queue q" "bq_by_path (upd r f q) = bq_by_path q"
  "bq_by_id (upd r f q) = bq_by_id q" "bq_requests (upd r f q) = bq_requests q"
  "bq_next_id (upd r f q) = bq_next_id q" "bq_given_up (upd r f q) = bq_given_up q"
  "bq_max_jobs (upd r f q) = bq_max_jobs q" "bq_keeps_going (upd r f q) = bq_keeps_going q"
  "bq_held (upd r f q) = bq_held q" "bq_next_request_id (upd r f q) = bq_next_request_id q"
  "length (bq_builds (upd r f q)) = length (bq_builds q)"
  "bq_completed (upd r f q) = bq_completed q" "bq_durations (upd r f q) = bq_durations q"
  by (simp_all add: upd_def)

lemma build_at_upd:
  "s < length (bq_builds q) \<Longrightarrow> build_at (upd r f q) s = (if s = r then f (build_at q r) else build_at q s)"
  by (simp add: upd_def nth_list_update)

lemma held_of_upd [simp]: "held_of (upd r f q) rid = held_of q rid"
  by (simp add: held_of_def)

text \<open>\<open>similar q q'\<close>: the two states differ in quiet changes of builds and in what no index reads.\<close>

definition similar :: "BuildQueue \<Rightarrow> BuildQueue \<Rightarrow> bool" where
  "similar q q' \<longleftrightarrow> length (bq_builds q') = length (bq_builds q) \<and> bq_queue q' = bq_queue q \<and>
     bq_by_path q' = bq_by_path q \<and> bq_by_id q' = bq_by_id q \<and> bq_next_id q' = bq_next_id q \<and>
     bq_held q' = bq_held q \<and> set (bq_given_up q') \<subseteq> dom (map_of (bq_keeps_going q')) \<and>
     dom (map_of (bq_keeps_going q)) \<subseteq> dom (map_of (bq_keeps_going q')) \<and>
     dom (map_of (bq_max_jobs q')) = dom (map_of (bq_keeps_going q')) \<and>
     (\<forall>r < length (bq_builds q). quiet (build_at q r) (build_at q' r))"

lemma similar_ok:
  assumes "bq_ok q" and "similar q q'"
  shows "bq_ok q'"
proof -
  have held: "held_of q' rid = held_of q rid" for rid using assms(2) by (simp add: held_of_def similar_def)
  have b: "quiet (build_at q r) (build_at q' r)" if "r < length (bq_builds q)" for r
    using assms(2) that by (simp add: similar_def)
  note fields = assms(2) [unfolded similar_def]
  have "ids_ok q'" "held_ok q'" "\<forall>r < length (bq_builds q'). build_ok (build_at q' r)"
    using assms(1) b fields by (simp_all add: bq_ok_defs quiet_def held)
  moreover have "index_ok q'" using assms(1) b fields quiet_done unfolding bq_ok_def index_ok_def by metis
  moreover have "paths_ok q'"
    unfolding paths_ok_def
  proof (intro conjI allI ballI impI)
    fix k r assume "map_of (bq_by_path q') k = Some r"
    then have "map_of (bq_by_path q) k = Some r" using fields by simp
    from by_path_key [OF assms(1) this]
    have r: "r \<in> set (bq_queue q)" "dedup_key (qb_request (build_at q r)) = k" by simp_all
    then have "r < length (bq_builds q)" using assms(1) by (simp add: queue_less)
    with r b fields show "r \<in> set (bq_queue q')" "dedup_key (qb_request (build_at q' r)) = k"
      by (simp_all add: quiet_def)
  next
    fix r assume r: "r \<in> set (bq_queue q')" "\<not> is_done (build_at q' r)"
    then have q: "r \<in> set (bq_queue q)" using fields by simp
    then have "r < length (bq_builds q)" using assms(1) by (simp add: queue_less)
    with r b have "quiet (build_at q r) (build_at q' r)" "\<not> is_done (build_at q r)"
      using quiet_done by blast+
    with by_path_live [OF assms(1) q] fields
    show "map_of (bq_by_path q') (dedup_key (qb_request (build_at q' r))) = Some r"
      by (simp add: quiet_def)
  qed
  moreover have "goals_ok q'"
    unfolding goals_ok_def held using assms(1) [unfolded bq_ok_def goals_ok_def] fields by blast
  ultimately show ?thesis by (simp add: bq_ok_def)
qed

lemma similar_upd:
  assumes "bq_ok q" and "r < length (bq_builds q) \<Longrightarrow> quiet (build_at q r) (f (build_at q r))"
  shows "similar q (upd r f q)"
  using assms by (auto simp: similar_def build_at_upd bq_ok_def goals_ok_def)

lemma similar_trans: "similar a b \<Longrightarrow> similar b c \<Longrightarrow> similar a c"
  unfolding similar_def using quiet_trans by (elim conjE) (intro conjI; simp; blast)

section \<open>Quiet operations\<close>

definition same_core :: "QueuedBuild \<Rightarrow> QueuedBuild \<Rightarrow> bool" where
  "same_core b b' \<longleftrightarrow> qb_build_id b' = qb_build_id b \<and> qb_request b' = qb_request b \<and>
     qb_holders b' = qb_holders b \<and> qb_answer b' = qb_answer b \<and> qb_finished_at b' = qb_finished_at b \<and>
     qb_worker b' = qb_worker b \<and> qb_assigned_store_id b' = qb_assigned_store_id b \<and>
     qb_store_failures b' = qb_store_failures b \<and> qb_started_at b' = qb_started_at b"

lemma same_core_refl [simp]: "same_core b b"
  by (simp add: same_core_def)

lemma same_core_trans: "same_core a b \<Longrightarrow> same_core b c \<Longrightarrow> same_core a c"
  by (simp add: same_core_def)

lemma quiet_core: "same_core b b' \<Longrightarrow> (subs_ok b \<Longrightarrow> subs_ok b') \<Longrightarrow> quiet b b'"
  by (simp add: same_core_def quiet_def build_ok_def is_done_def)

lemma quiet_core_subs: "same_core b b' \<Longrightarrow> same_subs b b' \<Longrightarrow> quiet b b'"
  by (rule quiet_core) (simp_all add: subs_ok_same)

lemma same_core_remove: "same_core b (snd (remove_subscriber c b))"
  by (simp add: remove_subscriber_def same_core_def split: option.split)

lemma same_core_remove_all: "same_core b (foldl (\<lambda>b c. snd (remove_subscriber c b)) b cs)"
proof (induction cs arbitrary: b)
  case (Cons c cs)
  show ?case using same_core_trans [OF same_core_remove Cons.IH] by simp
qed simp

lemma same_core_post_log_bytes: "same_core b (post_log_bytes send raw b)"
proof -
  have "same_core b (b\<lparr>qb_sent := x\<rparr>)" for x by (simp add: same_core_def)
  then show ?thesis
    unfolding post_log_bytes_def send_each_eq
    by (simp add: same_core_trans [OF _ same_core_remove_all])
qed

lemma quiet_post_log_bytes: "quiet b (post_log_bytes send raw b)"
  by (rule quiet_core [OF same_core_post_log_bytes subs_ok_post_log_bytes])

lemma same_core_post_log: "same_core b (snd (post_log msg b))"
  by (auto simp: post_log_def same_core_def Let_def split: prod.split sum.split)

lemma quiet_post_log: "quiet b (snd (post_log msg b))"
  by (rule quiet_core_subs [OF same_core_post_log same_subs_post_log])

lemma same_core_send_one: "same_core b (snd (send_one send c msg b))"
  by (auto simp: send_one_def send_raw_safe_def same_core_def record_sent_def split: prod.split sum.split send_outcome.split)

lemma same_core_announce: "same_core b (snd (announce_wait send aid c b))"
  unfolding announce_wait_def say_it_is_waiting_def
proof (simp, intro impI, rule snd_bindI)
  fix e b' assume "send_one send c (waiting_message aid b) b = (Inl e, b')"
  then show "same_core b b'" using same_core_send_one by (metis snd_conv)
next
  fix f b' assume "send_one send c (waiting_message aid b) b = (Inr f, b')"
  then have "same_core b b'" using same_core_send_one by (metis snd_conv)
  then show "same_core b (snd (Inr (), if f = None then b'\<lparr>qb_waiting_acts := dict_set c aid (qb_waiting_acts b')\<rparr> else b'))"
    by (simp add: same_core_def)
qed

lemma same_core_replay: "same_core b (snd (replay_log send c b))"
  by (simp add: replay_log_def same_core_def record_sent_def split: send_outcome.split)

lemma quiet_add_subscriber: "quiet b (snd (add_subscriber send aid c x b))"
proof (rule quiet_core)
  define b0 where "b0 = (if x then b\<lparr>qb_cancel_when_unsubscribed := True\<rparr> else b)"
  have b0: "same_core b b0" by (simp add: b0_def same_core_def)
  have "same_core b (snd (bind (announce_wait send aid c) (\<lambda>_. bind (replay_log send c) (join_if c)) b0))"
  proof (rule snd_bindI)
    fix e b1 assume "announce_wait send aid c b0 = (Inl e, b1)"
    then show "same_core b b1" using same_core_announce [of b0 send aid c] same_core_trans [OF b0] by simp
  next
    fix v b1 assume "announce_wait send aid c b0 = (Inr v, b1)"
    then have b1: "same_core b b1" using same_core_announce [of b0 send aid c] same_core_trans [OF b0] by simp
    show "same_core b (snd (bind (replay_log send c) (join_if c) b1))"
      by (rule snd_bindI)
        (use same_core_replay [of b1 send c] same_core_trans [OF b1] in \<open>auto simp: join_if_def same_core_def\<close>)
  qed
  then show "same_core b (snd (add_subscriber send aid c x b))"
    unfolding add_subscriber_def Let_def b0_def [symmetric]
    using b0 by (cases "map_of (qb_subscriber_refs b0) c") (simp_all add: same_core_def)
qed (rule subs_ok_add_subscriber)

lemma quiet_stop_each: "same_core b (snd (stop_each send ws b)) \<and> same_subs b (snd (stop_each send ws b))"
proof (induction ws arbitrary: b)
  case (Cons w ws)
  let ?m = "send_one send (fst w) (LogStopActivity (snd w))"
  have m: "same_core b (snd (?m b))" "same_subs b (snd (?m b))"
    by (rule same_core_send_one, rule same_subs_send_one)
  show ?case
    unfolding stop_each.simps
    by (rule snd_bindI [where P = "\<lambda>s. same_core b s \<and> same_subs b s"])
      (use m Cons.IH same_core_trans same_subs_trans in \<open>(fastforce | force)+\<close>)
qed simp

lemma same_core_stop_waiting: "same_core b (snd (stop_waiting_activities send b))"
proof -
  have "same_core b (b\<lparr>qb_waiting_acts := []\<rparr>)" by (simp add: same_core_def)
  then show ?thesis unfolding stop_waiting_activities_def using quiet_stop_each by (blast intro: same_core_trans)
qed

lemma quiet_stop_waiting: "quiet b (snd (stop_waiting_activities send b))"
proof (rule quiet_core_subs [OF same_core_stop_waiting])
  have "same_subs b (b\<lparr>qb_waiting_acts := []\<rparr>)" by (simp add: same_subs_def)
  then show "same_subs b (snd (stop_waiting_activities send b))"
    unfolding stop_waiting_activities_def using quiet_stop_each by (blast intro: same_subs_trans)
qed

lemma quiet_scheduler:
  "quiet b (spawn_worker scope b)" "quiet b (worker_ended scope b)" "quiet b (assign_store s b)"
  "quiet b (mark_started now b)" "quiet b (reset_for_retry s reason b)" "quiet b (cancel_worker b)"
  "quiet b (note_cost transfer measured estimates peak b)"
  by (simp_all add: quiet_def build_ok_def subs_ok_def is_done_def spawn_worker_def worker_ended_def
      assign_store_def mark_started_def reset_for_retry_def cancel_worker_def note_cost_def split: option.split)

lemma quiet_strip: "quiet b (strip_build float_repr b)"
  by (simp add: quiet_def strip_build_def dedup_key_def build_ok_def subs_ok_def is_done_def)

lemma quiet_fields:
  "quiet b (b\<lparr>qb_from_goal_path := x\<rparr>)" "quiet b (b\<lparr>qb_standalone := n\<rparr>)"
  "quiet b (b\<lparr>qb_scheduler_request_ids := ids\<rparr>)"
  by (rule quiet_core_subs; simp add: same_core_def same_subs_def)+

lemma quiet_answer:
  "\<not> is_done b \<Longrightarrow> quiet b (b\<lparr>qb_finished_at := Some now, qb_answer := Value v\<rparr>)"
  by (simp add: quiet_def build_ok_def is_done_def ans_done_def subs_ok_def)

lemma quiet_remove: "quiet b (snd (remove_subscriber c b))"
  by (rule quiet_core [OF same_core_remove subs_ok_remove])

section \<open>Each step keeps the invariant\<close>

lemma snd_on_build: "snd (on_build r m q) = upd r (\<lambda>b. snd (m b)) q"
  by (simp add: on_build_def upd_def split: prod.split)

lemma similar_refl: "bq_ok q \<Longrightarrow> similar q q"
  by (simp add: similar_def bq_ok_def goals_ok_def)

lemma similar_on_build:
  "bq_ok q \<Longrightarrow> (\<And>b. quiet b (snd (m b))) \<Longrightarrow> similar q (snd (on_build r m q))"
  by (simp add: snd_on_build similar_upd)

lemma similar_unread:
  "similar q q' \<Longrightarrow> similar q (q'\<lparr>bq_requests := x\<rparr>)" "similar q q' \<Longrightarrow> similar q (q'\<lparr>bq_completed := c\<rparr>)"
  "similar q q' \<Longrightarrow> similar q (q'\<lparr>bq_durations := d\<rparr>)" "similar q q' \<Longrightarrow> similar q (q'\<lparr>bq_next_request_id := n\<rparr>)"
  by (simp_all add: similar_def)

lemma similar_track: "similar q q' \<Longrightarrow> similar q (track_in_request a i q')"
  by (auto simp: track_in_request_def intro: similar_unread split: option.split)

lemma similar_create: "bq_ok q \<Longrightarrow> similar q (snd (create_request ps m c q))"
  by (simp add: create_request_def Let_def similar_def bq_ok_def goals_ok_def)

lemma similar_subscribe: "bq_ok q \<Longrightarrow> similar q (snd (subscribe send aid i c x q))"
proof (cases "map_of (bq_by_id q) i")
  case (Some r)
  assume ok: "bq_ok q"
  have "similar q (snd (bind (on_build r (add_subscriber send aid c x)) (\<lambda>_. ret True) q))"
    by (rule snd_bindI)
      (use similar_on_build [OF ok, of "add_subscriber send aid c x" r] quiet_add_subscriber in simp_all)
  with Some show ?thesis by (simp add: subscribe_def)
qed (simp add: subscribe_def similar_refl)

lemma similar_stop_waiting: "bq_ok q \<Longrightarrow> similar q (snd (stop_waiting send i q))"
  using similar_on_build [of q "stop_waiting_activities send"] quiet_stop_waiting
  by (auto simp: stop_waiting_def similar_refl split: option.split)

lemma similar_cancel:
  assumes "bq_ok q" and "r < length (bq_builds q) \<Longrightarrow> \<not> is_done (build_at q r)"
  shows "similar q (cancel_locked r msg now q)"
proof -
  have f: "quiet b (cancel_build msg now b)" if "\<not> is_done b" for b
    using that
    by (auto simp: cancel_build_def quiet_def build_ok_def is_done_def ans_done_def subs_ok_def cancel_worker_def Let_def split: option.split)
  have "similar q (upd r (cancel_build msg now) q)" using assms f by (intro similar_upd) simp_all
  then show ?thesis unfolding cancel_locked_def by (simp add: similar_unread Let_def)
qed

lemma similar_cancel_unwanted: "bq_ok q \<Longrightarrow> similar q (cancel_unwanted i now q)"
  by (auto simp: cancel_unwanted_def similar_refl similar_cancel split: option.split)

lemma similar_unsubscribe: "bq_ok q \<Longrightarrow> similar q (snd (unsubscribe i c now q))"
proof (cases "map_of (bq_by_id q) i")
  case (Some r)
  assume ok: "bq_ok q"
  obtain removed b where rem: "remove_subscriber c (build_at q r) = (removed, b)" by fastforce
  let ?q1 = "upd r (\<lambda>_. b) q"
  have r: "r < length (bq_builds q)" using ok Some by (auto simp: by_id_iff queue_less)
  have s1: "similar q ?q1"
    using quiet_remove [of "build_at q r" c] rem by (intro similar_upd [OF ok]) simp
  have "similar ?q1 (cancel_locked r all_disconnected now ?q1)" if "\<not> is_done b"
    using similar_ok [OF ok s1] that r by (intro similar_cancel) (simp_all add: build_at_upd)
  with s1 have "similar q (cancel_locked r all_disconnected now ?q1)" if "\<not> is_done b"
    using that similar_trans by blast
  with s1 Some rem show ?thesis by (simp add: unsubscribe_def Let_def)
qed (simp add: unsubscribe_def similar_refl)

lemma set_add_all: "set (foldl (\<lambda>s h. set_add h s) xs hs) = set xs \<union> set hs"
  by (induction hs arbitrary: xs) auto

lemma similar_note:
  assumes "bq_ok q"
  shows "similar q (snd (note_a_request_that_gave_up r status q))"
  using assms
  by (auto simp: note_a_request_that_gave_up_def similar_def set_add_all bq_ok_def goals_ok_def
      split: sum.split bool.split)

lemma similar_answered:
  assumes "bq_ok q" and "r < length (bq_builds q) \<Longrightarrow> \<not> is_done (build_at q r)"
  shows "similar q (snd (note_a_request_that_gave_up r status
    (upd r (\<lambda>b. b\<lparr>qb_finished_at := Some now, qb_answer := Value v\<rparr>) q)))"
proof -
  let ?q1 = "upd r (\<lambda>b. b\<lparr>qb_finished_at := Some now, qb_answer := Value v\<rparr>) q"
  have "similar q ?q1" using assms by (intro similar_upd) (simp_all add: quiet_answer)
  with similar_note [OF similar_ok [OF assms(1) this]] show ?thesis by (blast intro: similar_trans)
qed

lemma similar_complete:
  assumes "bq_ok q" shows "similar q (snd (complete_locked i resp now q))"
proof (cases "find_build q i")
  case (Some r)
  have "similar q (snd (bind (note_a_request_that_gave_up r (res_status resp)) f
      (upd r (\<lambda>b. b\<lparr>qb_finished_at := Some now, qb_answer := Value resp\<rparr>) q)))"
    if "\<not> is_done (build_at q r)" and f: "\<And>v q1. similar q q1 \<Longrightarrow> similar q (snd (f v q1))" for f :: "unit \<Rightarrow> (BuildQueue, unit) eff"
    by (rule snd_bindI) (use similar_answered [OF assms, of r "res_status resp" resp now] that in \<open>auto intro: f\<close>)
  then show ?thesis
    using Some by (simp add: complete_locked_def similar_refl [OF assms] similar_unread)
qed (simp add: complete_locked_def similar_refl [OF assms])

lemma similar_fail:
  assumes "bq_ok q" shows "similar q (snd (fail_locked i msg status now q))"
proof (cases "find_build q i")
  case (Some r)
  have "similar q (snd (bind (note_a_request_that_gave_up r status) (\<lambda>_ q. (Inr (), q\<lparr>bq_completed := bq_completed q @ [False]\<rparr>))
      (upd r (\<lambda>b. b\<lparr>qb_finished_at := Some now, qb_answer := Value (failure_result status msg)\<rparr>) q)))"
    if "\<not> is_done (build_at q r)"
    by (rule snd_bindI)
      (use similar_answered [OF assms, of r status "failure_result status msg" now] that in \<open>auto intro: similar_unread\<close>)
  then show ?thesis using Some by (simp add: fail_locked_def similar_refl [OF assms])
qed (simp add: fail_locked_def similar_refl [OF assms])

lemma similar_forget:
  assumes "bq_ok q" shows "similar q (forget_in_queue rid q)"
proof -
  have "similar q (foldl (\<lambda>q r. upd r (\<lambda>b. b\<lparr>qb_scheduler_request_ids := removeAll rid (qb_scheduler_request_ids b)\<rparr>) q) q1 rs)"
    if "similar q q1" for q1 rs
    using that
  proof (induction rs arbitrary: q1)
    case (Cons r rs)
    have "similar q1 (upd r (\<lambda>b. b\<lparr>qb_scheduler_request_ids := removeAll rid (qb_scheduler_request_ids b)\<rparr>) q1)"
      by (rule similar_upd [OF similar_ok [OF assms Cons.prems]]) (rule quiet_fields)
    then have "similar q (upd r (\<lambda>b. b\<lparr>qb_scheduler_request_ids := removeAll rid (qb_scheduler_request_ids b)\<rparr>) q1)"
      using Cons.prems similar_trans by blast
    then show ?case using Cons.IH by simp
  qed simp
  then show ?thesis using similar_refl [OF assms] by (simp add: forget_in_queue_def)
qed

section \<open>Holding and letting go\<close>

lemma held_of_set: "held_of (q\<lparr>bq_held := dict_set rid ids h\<rparr>) x = (if x = rid then ids else held_of (q\<lparr>bq_held := h\<rparr>) x)"
  by (simp add: held_of_def)

lemma bq_held_same [simp]: "q\<lparr>bq_held := bq_held q\<rparr> = q"
  by simp

text \<open>The invariant with another list of builds for one goal request.\<close>

lemma bq_ok_rehold:
  assumes ok: "bq_ok q" and r: "r \<in> set (bq_queue q)"
    and b: "qb_build_id b = qb_build_id (build_at q r)" "qb_request b = qb_request (build_at q r)"
      "qb_answer b = qb_answer (build_at q r)" "build_ok b"
    and held: "\<And>x. x \<in> set (qb_holders b) \<longleftrightarrow> Suc r \<in> set (held x)"
    and other: "\<And>x s. s \<noteq> r \<Longrightarrow> Suc s \<in> set (held x) \<longleftrightarrow> Suc s \<in> set (held_of q x)"
    and zero: "\<And>x. 0 \<notin> set (held x)" "\<And>x. distinct (held x)"
    and goal: "\<And>x. held x \<noteq> [] \<Longrightarrow> x \<in> dom (map_of (bq_keeps_going q))"
    and q': "q' = (upd r (\<lambda>_. b) q)\<lparr>bq_held := h\<rparr>" "\<And>x. held_of q' x = held x"
  shows "bq_ok q'"
proof -
  have len: "r < length (bq_builds q)" using ok r by (rule queue_less)
  have at: "build_at q' s = (if s = r then b else build_at q s)" if "s < length (bq_builds q)" for s
    using that by (simp add: q'(1) build_at_upd)
  have fields: "bq_queue q' = bq_queue q" "bq_by_path q' = bq_by_path q" "bq_by_id q' = bq_by_id q"
    "bq_next_id q' = bq_next_id q" "length (bq_builds q') = length (bq_builds q)" "bq_given_up q' = bq_given_up q"
    "bq_max_jobs q' = bq_max_jobs q" "bq_keeps_going q' = bq_keeps_going q" by (simp_all add: q'(1))
  have dn: "is_done (build_at q' s) = is_done (build_at q s)"
    and req: "qb_request (build_at q' s) = qb_request (build_at q s)" if "s < length (bq_builds q)" for s
    using that b at by (simp_all add: is_done_def)
  have "ids_ok q'" using ok b at by (simp add: bq_ok_def ids_ok_def fields)
  moreover have "index_ok q'" using ok dn unfolding bq_ok_def index_ok_def fields by blast
  moreover have "paths_ok q'"
    using ok dn req queue_less [OF ok] unfolding bq_ok_def paths_ok_def fields by metis
  moreover have "held_ok q'"
    unfolding held_ok_def fields q'(2)
  proof (intro conjI allI ballI impI)
    fix x s assume "s < length (bq_builds q)"
    then show "x \<in> set (qb_holders (build_at q' s)) \<longleftrightarrow> Suc s \<in> set (held x)"
      using held other at holders_iff [OF ok] by auto
  next
    fix x i assume i: "i \<in> set (held x)"
    with zero(1) [of x] have "i \<noteq> 0" by metis
    then obtain s where s: "i = Suc s" using not0_implies_Suc by blast
    show "\<exists>r\<in>set (bq_queue q). i = Suc r"
    proof (cases "s = r")
      case False
      with i s other have "i \<in> set (held_of q x)" by simp
      with ok show ?thesis by (simp add: bq_ok_def held_ok_def)
    qed (use r s in simp)
  qed (rule zero(2))
  moreover have "goals_ok q'" using ok goal by (simp add: bq_ok_def goals_ok_def fields q'(2))
  moreover have "\<forall>s < length (bq_builds q'). build_ok (build_at q' s)"
    using ok b(4) at by (simp add: bq_ok_def fields)
  ultimately show ?thesis by (simp add: bq_ok_def)
qed

lemma held_pos: "bq_ok q \<Longrightarrow> 0 \<notin> set (held_of q x)"
  by (auto simp: bq_ok_def held_ok_def)

lemma held_distinct: "bq_ok q \<Longrightarrow> distinct (held_of q x)"
  by (simp add: bq_ok_def held_ok_def)

lemma held_goal: "bq_ok q \<Longrightarrow> held_of q x \<noteq> [] \<Longrightarrow> x \<in> dom (map_of (bq_keeps_going q))"
  by (simp add: bq_ok_def goals_ok_def)

lemma build_ok_at: "bq_ok q \<Longrightarrow> r < length (bq_builds q) \<Longrightarrow> build_ok (build_at q r)"
  by (simp add: bq_ok_def)

lemma hold_locked_ok:
  assumes ok: "bq_ok q" and r: "r \<in> set (bq_queue q)" and g: "rid \<in> dom (map_of (bq_keeps_going q))"
  shows "bq_ok (hold_locked r rid q)"
proof -
  have len: "r < length (bq_builds q)" using ok r by (rule queue_less)
  let ?b = "(build_at q r)\<lparr>qb_holders := set_add rid (qb_holders (build_at q r))\<rparr>"
  have bok: "build_ok ?b" using build_ok_at [OF ok len] by (simp add: build_ok_def is_done_def subs_ok_def)
  have id: "qb_build_id (build_at (upd r (\<lambda>b. b\<lparr>qb_holders := set_add rid (qb_holders b)\<rparr>) q) r) = Suc r"
    using build_id_at [OF ok len] len by (simp add: build_at_upd)
  have upd: "upd r (\<lambda>b. b\<lparr>qb_holders := set_add rid (qb_holders b)\<rparr>) q = upd r (\<lambda>_. ?b) q"
    by (simp add: upd_def)
  have eq: "hold_locked r rid q = (upd r (\<lambda>_. ?b) q)\<lparr>bq_held := dict_set rid (set_add (Suc r) (held_of q rid)) (bq_held q)\<rparr>"
    unfolding hold_locked_def Let_def id by (simp add: upd)
  show ?thesis
  proof (rule bq_ok_rehold [OF ok r _ _ _ bok, where held = "\<lambda>x. if x = rid then set_add (Suc r) (held_of q rid) else held_of q x"])
    show "hold_locked r rid q = (upd r (\<lambda>_. ?b) q)\<lparr>bq_held := dict_set rid (set_add (Suc r) (held_of q rid)) (bq_held q)\<rparr>"
      by (rule eq)
  qed (use holders_iff [OF ok len] held_pos [OF ok] held_distinct [OF ok] held_goal [OF ok] g in
      \<open>auto simp: eq held_of_set split: if_splits\<close>, simp_all add: held_of_def)
qed

lemma hold_for_goal_ok:
  assumes ok: "bq_ok q" and r: "r \<in> set (bq_queue q)"
    and g: "\<And>g. eq_goal_request_id a = Some g \<Longrightarrow> g \<in> dom (map_of (bq_keeps_going q))"
  shows "bq_ok (hold_for_goal a r q)"
proof (cases "eq_goal_request_id a")
  case None
  have "bq_ok (upd r (\<lambda>b. b\<lparr>qb_standalone := qb_standalone b + 1\<rparr>) q)"
    by (rule similar_ok [OF ok similar_upd [OF ok]]) (rule quiet_fields)
  with None show ?thesis by (simp add: hold_for_goal_def)
next
  case (Some g)
  with hold_locked_ok [OF ok r assms(3) [OF Some]] ok show ?thesis by (simp add: hold_for_goal_def)
qed

lemma hold_for_goal_fields [simp]:
  "bq_queue (hold_for_goal a r q) = bq_queue q" "bq_keeps_going (hold_for_goal a r q) = bq_keeps_going q"
  "bq_next_id (hold_for_goal a r q) = bq_next_id q" "bq_by_path (hold_for_goal a r q) = bq_by_path q"
  "bq_by_id (hold_for_goal a r q) = bq_by_id q" "bq_given_up (hold_for_goal a r q) = bq_given_up q"
  "bq_max_jobs (hold_for_goal a r q) = bq_max_jobs q" "bq_requests (hold_for_goal a r q) = bq_requests q"
  "length (bq_builds (hold_for_goal a r q)) = length (bq_builds q)"
  by (simp_all add: hold_for_goal_def hold_locked_def Let_def split: option.split)

lemma note_goal_options_ok:
  assumes "bq_ok q"
  shows "bq_ok (note_goal_options a q)"
    and "eq_goal_request_id a = Some g \<Longrightarrow> g \<in> dom (map_of (bq_keeps_going (note_goal_options a q)))"
  using assms
  by (auto simp: note_goal_options_def bq_ok_defs held_of_def dom_def split: option.split)

lemma join_existing_ok:
  assumes ok: "bq_ok q" and r: "r \<in> set (bq_queue q)"
    and g: "\<And>g. eq_goal_request_id a = Some g \<Longrightarrow> g \<in> dom (map_of (bq_keeps_going q))"
  shows "bq_ok (join_existing a r q)"
proof -
  let ?q1 = "upd r (\<lambda>b. b\<lparr>qb_from_goal_path := qb_from_goal_path b \<or> eq_from_goal_path a\<rparr>) q"
  have "bq_ok ?q1" by (rule similar_ok [OF ok similar_upd [OF ok]]) (rule quiet_fields)
  then have q2: "bq_ok (hold_for_goal a r ?q1)" using r g by (intro hold_for_goal_ok) simp_all
  let ?q3 = "case eq_scheduler_request_id a of
      Some s \<Rightarrow> upd r (\<lambda>b. b\<lparr>qb_scheduler_request_ids := set_add s (qb_scheduler_request_ids b)\<rparr>) (hold_for_goal a r ?q1)
    | None \<Rightarrow> hold_for_goal a r ?q1"
  have q3: "bq_ok ?q3"
    using q2 similar_ok [OF q2 similar_upd [OF q2]] quiet_fields by (auto split: option.split)
  show ?thesis
    unfolding join_existing_def Let_def by (rule similar_ok [OF q3 similar_track [OF similar_refl [OF q3]]])
qed

lemma add_index_ok:
  assumes ok: "bq_ok q" and free: "\<And>r. map_of (bq_by_path q) (dedup_key req) = Some r \<Longrightarrow> is_done (build_at q r)"
    and b: "qb_build_id b = bq_next_id q" "qb_request b = req" "qb_holders b = []" "build_ok b"
  shows "bq_ok (q\<lparr>bq_builds := bq_builds q @ [b], bq_next_id := bq_next_id q + 1,
      bq_queue := bq_queue q @ [length (bq_builds q)],
      bq_by_path := dict_set (dedup_key req) (length (bq_builds q)) (bq_by_path q),
      bq_by_id := dict_set (bq_next_id q) (length (bq_builds q)) (bq_by_id q)\<rparr>)" (is "bq_ok ?q'")
proof -
  let ?n = "length (bq_builds q)"
  have n: "?n \<notin> set (bq_queue q)" using queue_less [OF ok] by blast
  have nid: "bq_next_id q = Suc ?n" using ok by (simp add: bq_ok_def ids_ok_def)
  have at: "build_at ?q' s = (if s = ?n then b else build_at q s)" if "s < Suc ?n" for s
    using that by (simp add: nth_append)
  have old: "build_at ?q' s = build_at q s" if "s < ?n" for s using that by (simp add: nth_append)
  have held: "held_of ?q' x = held_of q x" for x by (simp add: held_of_def)
  have "ids_ok ?q'" using ok b(1) nid by (simp add: bq_ok_def ids_ok_def nth_append less_Suc_eq)
  moreover have "index_ok ?q'"
  proof -
    have dist: "distinct (map fst (dict_set (Suc ?n) ?n (bq_by_id q)))"
      using ok by (intro distinct_dict_set) (simp add: bq_ok_def index_ok_def)
    show ?thesis
      using ok n dist by (auto simp: bq_ok_def index_ok_def nid nth_append less_Suc_eq)
  qed
  moreover have "paths_ok ?q'"
    unfolding paths_ok_def
  proof (intro conjI allI ballI impI)
    fix k r assume k: "map_of (bq_by_path ?q') k = Some r"
    show "r \<in> set (bq_queue ?q')" "dedup_key (qb_request (build_at ?q' r)) = k"
      using k by_path_key [OF ok, of k r] queue_less [OF ok, of r] b(2) old
      by (auto split: if_splits)
  next
    fix r assume r: "r \<in> set (bq_queue ?q')" "\<not> is_done (build_at ?q' r)"
    show "map_of (bq_by_path ?q') (dedup_key (qb_request (build_at ?q' r))) = Some r"
    proof (cases "r = ?n")
      case True
      with b(2) show ?thesis by simp
    next
      case False
      with r(1) have q: "r \<in> set (bq_queue q)" by simp
      then have "r < ?n" using ok by (rule queue_less [rotated])
      with r(2) old have "\<not> is_done (build_at q r)" by simp
      with by_path_live [OF ok q] free have "dedup_key (qb_request (build_at q r)) \<noteq> dedup_key req" by metis
      with by_path_live [OF ok q \<open>\<not> is_done (build_at q r)\<close>] old [OF \<open>r < ?n\<close>] show ?thesis by simp
    qed
  qed
  moreover have "held_ok ?q'"
    unfolding held_ok_def held
  proof (intro conjI allI ballI impI)
    fix x s assume "s < length (bq_builds ?q')"
    moreover have "Suc ?n \<notin> set (held_of q x)" using ok n by (auto simp: bq_ok_def held_ok_def)
    ultimately show "x \<in> set (qb_holders (build_at ?q' s)) \<longleftrightarrow> Suc s \<in> set (held_of q x)"
      using b(3) holders_iff [OF ok] by (auto simp: nth_append less_Suc_eq)
  next
    fix x i assume "i \<in> set (held_of q x)"
    then show "\<exists>r\<in>set (bq_queue ?q'). i = Suc r" using ok by (auto simp: bq_ok_def held_ok_def)
  qed (rule held_distinct [OF ok])
  moreover have "goals_ok ?q'" unfolding goals_ok_def held using ok by (simp add: bq_ok_def goals_ok_def)
  moreover have "\<forall>s < length (bq_builds ?q'). build_ok (build_at ?q' s)"
    using ok b(4) by (simp add: bq_ok_def nth_append less_Suc_eq)
  ultimately show ?thesis by (simp add: bq_ok_def)
qed

lemma hold_then_index:
  "(hold_for_goal a r q)\<lparr>bq_next_id := n, bq_queue := qs, bq_by_path := ps, bq_by_id := ids\<rparr> =
     hold_for_goal a r (q\<lparr>bq_next_id := n, bq_queue := qs, bq_by_path := ps, bq_by_id := ids\<rparr>)"
  by (simp add: hold_for_goal_def hold_locked_def Let_def upd_def held_of_def split: option.split)

lemma build_ok_new: "build_ok ((new_build i req d rids opts now)\<lparr>qb_from_goal_path := x\<rparr>)"
  by (simp add: build_ok_def new_build_def is_done_def ans_done_def subs_ok_def)

lemma add_new_ok:
  assumes ok: "bq_ok q"
    and free: "\<And>r. map_of (bq_by_path q) (dedup_key (eq_request a)) = Some r \<Longrightarrow> is_done (build_at q r)"
    and g: "\<And>g. eq_goal_request_id a = Some g \<Longrightarrow> g \<in> dom (map_of (bq_keeps_going q))"
  shows "bq_ok (add_new a q)"
proof -
  let ?b = "(new_build (bq_next_id q) (eq_request a) (eq_expected_duration a)
      (case eq_scheduler_request_id a of Some s \<Rightarrow> [s] | None \<Rightarrow> []) (eq_options a) (eq_now a))
      \<lparr>qb_from_goal_path := eq_from_goal_path a\<rparr>"
  let ?n = "length (bq_builds q)"
  let ?q' = "q\<lparr>bq_builds := bq_builds q @ [?b], bq_next_id := bq_next_id q + 1, bq_queue := bq_queue q @ [?n],
      bq_by_path := dict_set (dedup_key (eq_request a)) ?n (bq_by_path q),
      bq_by_id := dict_set (bq_next_id q) ?n (bq_by_id q)\<rparr>"
  have "bq_ok ?q'"
    by (rule add_index_ok [OF ok free _ _ _ build_ok_new]) (simp_all add: new_build_def)
  then have h: "bq_ok (hold_for_goal a ?n ?q')" using g by (intro hold_for_goal_ok) simp_all
  have eq: "add_new a q = track_in_request a (bq_next_id q) (hold_for_goal a ?n ?q')"
    unfolding add_new_def Let_def hold_then_index by simp
  show ?thesis unfolding eq by (rule similar_ok [OF h similar_track [OF similar_refl [OF h]]])
qed

lemma note_goal_options_fields [simp]:
  "bq_builds (note_goal_options a q) = bq_builds q" "bq_by_path (note_goal_options a q) = bq_by_path q"
  "bq_queue (note_goal_options a q) = bq_queue q" "bq_next_id (note_goal_options a q) = bq_next_id q"
  "bq_by_id (note_goal_options a q) = bq_by_id q"
  by (simp_all add: note_goal_options_def split: option.split)

lemma enqueue_ok:
  assumes "bq_ok q"
  shows "bq_ok (snd (enqueue a q))"
proof -
  let ?q1 = "note_goal_options a q"
  have ok1: "bq_ok ?q1" and g: "\<And>g. eq_goal_request_id a = Some g \<Longrightarrow> g \<in> dom (map_of (bq_keeps_going ?q1))"
    using note_goal_options_ok [OF assms] by simp_all
  have "bq_ok (join_existing a r ?q1)" if "map_of (bq_by_path q) (dedup_key (eq_request a)) = Some r" for r
    using by_path_key [OF assms that] g by (intro join_existing_ok [OF ok1]) simp_all
  moreover have "bq_ok (add_new a ?q1)"
    if "\<And>r. map_of (bq_by_path q) (dedup_key (eq_request a)) = Some r \<Longrightarrow> is_done (build_at q r)"
    using that g by (intro add_new_ok [OF ok1]) simp_all
  ultimately show ?thesis
    using assms by (auto simp: enqueue_def Let_def split: option.split)
qed

section \<open>Releasing and pruning\<close>

definition with_held :: "nat \<Rightarrow> nat list \<Rightarrow> BuildQueue \<Rightarrow> BuildQueue" where
  "with_held rid ids q = q\<lparr>bq_held := dict_set rid ids (bq_held q)\<rparr>"

lemma dict_set_twice: "dict_set k v (dict_set k w d) = dict_set k v d"
  by (induction d) auto

lemma with_held_fields [simp]:
  "bq_builds (with_held rid ids q) = bq_builds q" "bq_queue (with_held rid ids q) = bq_queue q"
  "bq_by_path (with_held rid ids q) = bq_by_path q" "bq_by_id (with_held rid ids q) = bq_by_id q"
  "bq_next_id (with_held rid ids q) = bq_next_id q" "bq_given_up (with_held rid ids q) = bq_given_up q"
  "bq_max_jobs (with_held rid ids q) = bq_max_jobs q" "bq_keeps_going (with_held rid ids q) = bq_keeps_going q"
  by (simp_all add: with_held_def)

lemma held_of_with_held: "held_of (with_held rid ids q) x = (if x = rid then ids else held_of q x)"
  by (simp add: with_held_def held_of_def)

lemma bq_ok_held_cong:
  assumes "bq_ok q" and "\<And>x. held_of (q\<lparr>bq_held := h\<rparr>) x = held_of q x"
  shows "bq_ok (q\<lparr>bq_held := h\<rparr>)"
  using assms by (simp add: bq_ok_defs)

definition unhold :: "nat \<Rightarrow> QueuedBuild \<Rightarrow> QueuedBuild" where
  "unhold rid b = b\<lparr>qb_holders := removeAll rid (qb_holders b),
     qb_scheduler_request_ids := removeAll rid (qb_scheduler_request_ids b)\<rparr>"

lemma held_queued: "bq_ok q \<Longrightarrow> i \<in> set (held_of q x) \<Longrightarrow> \<exists>r\<in>set (bq_queue q). i = Suc r"
  by (simp add: bq_ok_def held_ok_def)

lemma unhold_ok:
  assumes ok: "bq_ok q" and held: "held_of q rid = Suc r # rest"
  shows "bq_ok (with_held rid rest (upd r (unhold rid) q))"
proof -
  have r: "r \<in> set (bq_queue q)" using held_queued [OF ok, of "Suc r" rid] held by auto
  have len: "r < length (bq_builds q)" using ok r by (rule queue_less)
  have dist: "Suc r \<notin> set rest" "distinct rest" using held_distinct [OF ok, of rid] held by simp_all
  have upd: "upd r (unhold rid) q = upd r (\<lambda>_. unhold rid (build_at q r)) q" by (simp add: upd_def)
  have bok: "build_ok (unhold rid (build_at q r))"
    using build_ok_at [OF ok len] by (simp add: build_ok_def is_done_def subs_ok_def unhold_def)
  show ?thesis
  proof (rule bq_ok_rehold [OF ok r _ _ _ bok, where held = "\<lambda>x. if x = rid then rest else held_of q x"])
    show "with_held rid rest (upd r (unhold rid) q) =
        (upd r (\<lambda>_. unhold rid (build_at q r)) q)\<lparr>bq_held := dict_set rid rest (bq_held q)\<rparr>"
      by (simp add: with_held_def upd)
    fix x show "x \<in> set (qb_holders (unhold rid (build_at q r))) \<longleftrightarrow> Suc r \<in> set (if x = rid then rest else held_of q x)"
      using holders_iff [OF ok len] dist(1) by (auto simp: unhold_def)
    show "0 \<notin> set (if x = rid then rest else held_of q x)"
      using held_pos [OF ok, of x] held by auto
    show "(if x = rid then rest else held_of q x) \<noteq> [] \<Longrightarrow> x \<in> dom (map_of (bq_keeps_going q))"
      using held_goal [OF ok, of x] held by (auto split: if_splits)
  qed (use dist held held_distinct [OF ok] in \<open>auto simp: unhold_def held_of_with_held\<close>)
qed

lemma let_go_with_held: "let_go rid now (with_held x ids q) i = with_held x ids (let_go rid now q i)"
  by (simp add: let_go_def with_held_def upd_def cancel_locked_def Let_def split: option.split)

lemma let_go_unhold:
  "map_of (bq_by_id q) i = Some r \<Longrightarrow>
     let_go rid now q i =
       (let q1 = upd r (unhold rid) q; b = build_at q1 r
        in if qb_holders b = [] \<and> qb_standalone b = 0 \<and> \<not> is_done b then cancel_locked r no_goal_waits now q1 else q1)"
  unfolding let_go_def unhold_def by simp

lemma cancel_with_held: "cancel_locked r m now (with_held x ids q) = with_held x ids (cancel_locked r m now q)"
  by (simp add: cancel_locked_def with_held_def upd_def Let_def)

lemma let_go_ok:
  assumes ok: "bq_ok (with_held rid (i # rest) q)"
  shows "bq_ok (with_held rid rest (let_go rid now q i))"
proof -
  let ?Q = "with_held rid (i # rest) q"
  have h: "held_of ?Q rid = i # rest" by (simp add: held_of_with_held)
  then obtain r where r: "r \<in> set (bq_queue ?Q)" "i = Suc r"
    using held_queued [OF ok, of i rid] by auto
  let ?q1 = "upd r (unhold rid) q"
  have eq: "with_held rid rest (upd r (unhold rid) ?Q) = with_held rid rest ?q1"
    by (simp add: with_held_def upd_def dict_set_twice)
  have q1: "bq_ok (with_held rid rest ?q1)" using unhold_ok [OF ok, of rid r rest] h r(2) eq by simp
  have id: "map_of (bq_by_id q) i = Some r" using by_id_iff [OF ok, of i r] r by simp
  show ?thesis
  proof (cases "qb_holders (build_at ?q1 r) = [] \<and> qb_standalone (build_at ?q1 r) = 0 \<and> \<not> is_done (build_at ?q1 r)")
    case True
    have "bq_ok (cancel_locked r no_goal_waits now (with_held rid rest ?q1))"
      using True by (intro similar_ok [OF q1 similar_cancel [OF q1]]) simp
    with True show ?thesis unfolding let_go_unhold [OF id] Let_def cancel_with_held by simp
  next
    case False
    show ?thesis unfolding let_go_unhold [OF id] Let_def if_not_P [OF False] by (rule q1)
  qed
qed

lemma let_go_all_ok:
  "bq_ok (with_held rid rest q) \<Longrightarrow> bq_ok (with_held rid [] (foldl (let_go rid now) q rest))"
  by (induction rest arbitrary: q) (simp_all add: let_go_ok)

lemma let_go_held [simp]: "bq_held (foldl (let_go rid now) q rest) = bq_held q"
proof (induction rest arbitrary: q)
  case (Cons i rest)
  have "bq_held (let_go rid now q i) = bq_held q"
    by (simp add: let_go_def Let_def cancel_locked_def split: option.split)
  with Cons show ?case by simp
qed simp

lemma release_ok:
  assumes ok: "bq_ok q"
  shows "bq_ok (release_locked rid now q)"
proof -
  let ?q0 = "q\<lparr>bq_held := dict_pop rid (bq_held q)\<rparr>"
  let ?q1 = "foldl (let_go rid now) ?q0 (held_of q rid)"
  have "bq_ok (q\<lparr>bq_held := dict_set rid (held_of q rid) (dict_pop rid (bq_held q))\<rparr>)"
    by (rule bq_ok_held_cong [OF ok]) (simp add: held_of_def map_of_dict_pop split: option.split)
  then have "bq_ok (with_held rid (held_of q rid) ?q0)" by (simp add: with_held_def)
  then have w: "bq_ok (with_held rid [] ?q1)" by (rule let_go_all_ok)
  have none: "held_of ?q1 rid = []" by (simp add: held_of_def map_of_dict_pop)
  have "bq_ok ((with_held rid [] ?q1)\<lparr>bq_held := bq_held ?q1\<rparr>)"
  proof (rule bq_ok_held_cong [OF w])
    fix x
    have "held_of ((with_held rid [] ?q1)\<lparr>bq_held := bq_held ?q1\<rparr>) x = held_of ?q1 x" by (simp add: held_of_def)
    then show "held_of ((with_held rid [] ?q1)\<lparr>bq_held := bq_held ?q1\<rparr>) x = held_of (with_held rid [] ?q1) x"
      using none by (simp add: held_of_with_held)
  qed
  then have ok1: "bq_ok ?q1" by (simp add: with_held_def del: let_go_held)
  let ?q2 = "?q1\<lparr>bq_given_up := removeAll rid (bq_given_up ?q1), bq_max_jobs := dict_pop rid (bq_max_jobs ?q1),
      bq_keeps_going := dict_pop rid (bq_keeps_going ?q1)\<rparr>"
  have held: "held_of ?q2 x = held_of ?q1 x" for x by (simp add: held_of_def)
  have "goals_ok ?q2"
    unfolding goals_ok_def held
  proof (intro conjI allI impI)
    fix x assume x: "held_of ?q1 x \<noteq> []"
    with none have "x \<noteq> rid" by metis
    with held_goal [OF ok1 x] show "x \<in> dom (map_of (bq_keeps_going ?q2))" by (simp add: map_of_dict_pop)
  qed (use ok1 in \<open>auto simp: bq_ok_def goals_ok_def map_of_dict_pop\<close>)
  moreover have "ids_ok ?q2" "index_ok ?q2" "paths_ok ?q2"
    using ok1 unfolding bq_ok_def ids_ok_def index_ok_def paths_ok_def by (simp_all del: split_paired_All)
  moreover have "held_ok ?q2" using ok1 unfolding bq_ok_def held_ok_def held by simp
  moreover have "\<forall>r<length (bq_builds ?q2). build_ok (build_at ?q2 r)" using ok1 by (simp add: bq_ok_def)
  ultimately show ?thesis unfolding release_locked_def Let_def by (simp add: bq_ok_def)
qed

lemma drop_doomed_fields [simp]:
  "bq_builds (drop_doomed dead q e) = bq_builds q" "bq_queue (drop_doomed dead q e) = bq_queue q"
  "bq_next_id (drop_doomed dead q e) = bq_next_id q" "bq_given_up (drop_doomed dead q e) = bq_given_up q"
  "bq_max_jobs (drop_doomed dead q e) = bq_max_jobs q" "bq_keeps_going (drop_doomed dead q e) = bq_keeps_going q"
  "bq_held (drop_doomed dead q e) = bq_held q" "bq_requests (drop_doomed dead q e) = bq_requests q"
  "bq_completed (drop_doomed dead q e) = bq_completed q"
  by (simp_all add: drop_doomed_def Let_def)

lemma drop_all_fields [simp]:
  "bq_builds (foldl (drop_doomed dead) q es) = bq_builds q" "bq_queue (foldl (drop_doomed dead) q es) = bq_queue q"
  "bq_next_id (foldl (drop_doomed dead) q es) = bq_next_id q" "bq_given_up (foldl (drop_doomed dead) q es) = bq_given_up q"
  "bq_max_jobs (foldl (drop_doomed dead) q es) = bq_max_jobs q"
  "bq_keeps_going (foldl (drop_doomed dead) q es) = bq_keeps_going q"
  "bq_held (foldl (drop_doomed dead) q es) = bq_held q" "bq_requests (foldl (drop_doomed dead) q es) = bq_requests q"
  "bq_completed (foldl (drop_doomed dead) q es) = bq_completed q"
  by (induction es arbitrary: q) simp_all

lemma dict_pop_distinct: "distinct (map fst d) \<Longrightarrow> distinct (map fst (dict_pop k d))"
  by (auto simp: dict_pop_def distinct_map inj_on_def)

lemma drop_one_by_id:
  "map_of (bq_by_id (drop_doomed dead q e)) i =
     (if snd e \<in> set dead \<and> i = fst e then None else map_of (bq_by_id q) i)"
  "distinct (map fst (bq_by_id q)) \<Longrightarrow> distinct (map fst (bq_by_id (drop_doomed dead q e)))"
  by (auto simp: drop_doomed_def Let_def map_of_dict_pop dict_pop_distinct)

lemma drop_all_by_id:
  "map_of (bq_by_id (foldl (drop_doomed dead) q es)) i =
     (if \<exists>r \<in> set dead. (i, r) \<in> set es then None else map_of (bq_by_id q) i)"
  "distinct (map fst (bq_by_id q)) \<Longrightarrow> distinct (map fst (bq_by_id (foldl (drop_doomed dead) q es)))"
proof (induction es arbitrary: q)
  case (Cons e es)
  { case 1 show ?case by (cases e) (auto simp: Cons(1) drop_one_by_id) }
  { case 2 then show ?case by (simp add: Cons(2) drop_one_by_id) }
qed simp_all

lemma drop_all_by_path:
  "map_of (bq_by_path (foldl (drop_doomed dead) q es)) k =
     (case map_of (bq_by_path q) k of
        Some r \<Rightarrow> if r \<in> set dead \<and> r \<in> snd ` set es \<and> dedup_key (qb_request (build_at q r)) = k then None else Some r
      | None \<Rightarrow> None)"
proof (induction es arbitrary: q)
  case (Cons e es)
  show ?case
    by (simp add: Cons.IH) (auto simp: drop_doomed_def Let_def map_of_dict_pop split: option.split)
qed (simp split: option.split)

lemma prune_eq:
  "prune q = foldl (drop_doomed (filter (doomed q) (bq_queue q)))
     (q\<lparr>bq_queue := filter (\<lambda>r. \<not> doomed q r) (bq_queue q)\<rparr>) (bq_by_id q)"
proof (cases "filter (doomed q) (bq_queue q) = []")
  case True
  then have "filter (\<lambda>r. \<not> doomed q r) (bq_queue q) = bq_queue q" by (simp add: filter_empty_conv)
  moreover have "foldl (drop_doomed []) p es = p" for p es by (induction es) (simp_all add: drop_doomed_def)
  ultimately show ?thesis using True by (simp add: prune_def Let_def)
next
  case False
  moreover have "filter (\<lambda>r. r \<notin> set (filter (doomed q) (bq_queue q))) (bq_queue q) = filter (\<lambda>r. \<not> doomed q r) (bq_queue q)"
    by (rule filter_cong) auto
  ultimately show ?thesis by (simp add: prune_def Let_def)
qed

lemma prune_fields:
  "bq_builds (prune q) = bq_builds q" "bq_queue (prune q) = filter (\<lambda>r. \<not> doomed q r) (bq_queue q)"
  "bq_next_id (prune q) = bq_next_id q" "bq_given_up (prune q) = bq_given_up q" "bq_max_jobs (prune q) = bq_max_jobs q"
  "bq_keeps_going (prune q) = bq_keeps_going q" "bq_held (prune q) = bq_held q"
  by (simp_all add: prune_eq)

lemma prune_by_id:
  assumes ok: "bq_ok q"
  shows "map_of (bq_by_id (prune q)) i = Some r \<longleftrightarrow> r \<in> set (bq_queue (prune q)) \<and> i = Suc r"
proof -
  have "distinct (map fst (bq_by_id q))" using ok by (simp add: bq_ok_def index_ok_def)
  then have mem: "(i, r) \<in> set (bq_by_id q) \<longleftrightarrow> r \<in> set (bq_queue q) \<and> i = Suc r" for i r
    using by_id_iff [OF ok] by (simp add: map_of_eq_Some_iff)
  show ?thesis
    unfolding prune_eq drop_all_by_id by (auto simp: by_id_iff [OF ok] mem)
qed

lemma prune_by_path:
  assumes ok: "bq_ok q"
  shows "map_of (bq_by_path (prune q)) k =
    (case map_of (bq_by_path q) k of Some r \<Rightarrow> if doomed q r then None else Some r | None \<Rightarrow> None)"
proof -
  have "r \<in> snd ` set (bq_by_id q)" if "r \<in> set (bq_queue q)" for r
    using by_id_iff [OF ok, of "Suc r" r] that by (force dest: map_of_SomeD)
  then show ?thesis
    unfolding prune_eq drop_all_by_path using by_path_key [OF ok, of k] by (auto split: option.split)
qed

lemma prune_ok:
  assumes ok: "bq_ok q"
  shows "bq_ok (prune q)"
proof -
  have held: "held_of (prune q) x = held_of q x" for x by (simp add: held_of_def prune_fields)
  have free: "\<not> doomed q r" if h: "Suc r \<in> set (held_of q x)" for r x
  proof -
    obtain s where "s \<in> set (bq_queue q)" "Suc r = Suc s" using held_queued [OF ok h] by auto
    then have "r < length (bq_builds q)" using queue_less [OF ok] by simp
    then have "qb_holders (build_at q r) \<noteq> []" using holders_iff [OF ok, of r x] h by auto
    then show ?thesis by (simp add: doomed_def Let_def)
  qed
  have "ids_ok (prune q)" using ok by (simp add: bq_ok_def ids_ok_def prune_fields)
  moreover have "index_ok (prune q)"
    unfolding index_ok_def
  proof (intro conjI allI ballI impI)
    show "distinct (map fst (bq_by_id (prune q)))"
      unfolding prune_eq by (rule drop_all_by_id) (use ok in \<open>simp add: bq_ok_def index_ok_def\<close>)
    fix r assume "r < length (bq_builds (prune q))" "r \<notin> set (bq_queue (prune q))"
    then show "is_done (build_at (prune q) r)"
      using ok by (auto simp: prune_fields doomed_def Let_def bq_ok_def index_ok_def)
  qed (use ok queue_less [OF ok] in \<open>auto simp: prune_by_id prune_fields bq_ok_def index_ok_def\<close>)
  moreover have "paths_ok (prune q)"
    unfolding paths_ok_def
  proof (intro conjI allI ballI impI)
    fix k r assume "map_of (bq_by_path (prune q)) k = Some r"
    then have "map_of (bq_by_path q) k = Some r" "\<not> doomed q r"
      by (auto simp: prune_by_path [OF ok] split: option.splits if_splits)
    with by_path_key [OF ok] show "r \<in> set (bq_queue (prune q))" "dedup_key (qb_request (build_at (prune q) r)) = k"
      by (auto simp: prune_fields)
  next
    fix r assume "r \<in> set (bq_queue (prune q))" "\<not> is_done (build_at (prune q) r)"
    then show "map_of (bq_by_path (prune q)) (dedup_key (qb_request (build_at (prune q) r))) = Some r"
      by (simp add: prune_by_path [OF ok] prune_fields by_path_live [OF ok])
  qed
  moreover have "held_ok (prune q)"
    unfolding held_ok_def held
  proof (intro conjI allI ballI impI)
    fix x i assume i: "i \<in> set (held_of q x)"
    then obtain r where "r \<in> set (bq_queue q)" "i = Suc r" using held_queued [OF ok] by blast
    with i free show "\<exists>r\<in>set (bq_queue (prune q)). i = Suc r" by (auto simp: prune_fields)
  qed (use ok held_distinct [OF ok] holders_iff [OF ok] in \<open>simp_all add: prune_fields\<close>)
  moreover have "goals_ok (prune q)" unfolding goals_ok_def held using ok by (simp add: bq_ok_def goals_ok_def prune_fields)
  moreover have "\<forall>r<length (bq_builds (prune q)). build_ok (build_at (prune q) r)" using ok by (simp add: bq_ok_def prune_fields)
  ultimately show ?thesis by (simp add: bq_ok_def)
qed

section \<open>Runs of the queue\<close>

text \<open>
  The lock sections of the queue's operations, the turns of a build's log that run outside the
  queue's lock, and what the scheduler does to a build it runs.
\<close>

inductive bq_step :: "BuildQueue \<Rightarrow> BuildQueue \<Rightarrow> bool" where
  step_create: "create_request ps m c q = (x, q') \<Longrightarrow> bq_step q q'"
| step_enqueue: "enqueue a q = (x, q') \<Longrightarrow> bq_step q q'"
| step_subscribe: "subscribe send aid i c on_leave q = (x, q') \<Longrightarrow> bq_step q q'"
| step_unsubscribe: "unsubscribe i c now q = (x, q') \<Longrightarrow> bq_step q q'"
| step_release: "bq_step q (release_locked rid now q)"
| step_prune: "bq_step q (prune q)"
| step_forget: "bq_step q (forget_in_queue rid q)"
| step_pop: "bq_step q (pop_request rid q)"
| step_stop_waiting: "stop_waiting send i q = (x, q') \<Longrightarrow> bq_step q q'"
| step_complete: "complete_locked i resp now q = (x, q') \<Longrightarrow> bq_step q q'"
| step_fail: "fail_locked i msg status now q = (x, q') \<Longrightarrow> bq_step q q'"
| step_cancel: "bq_step q (cancel_unwanted i now q)"
| step_log: "on_build r (post_log msg) q = (x, q') \<Longrightarrow> bq_step q q'"
| step_fan_out: "bq_step q (upd r (post_log_bytes send raw) q)"
| step_spawn: "bq_step q (upd r (spawn_worker scope) q)"
| step_assign: "bq_step q (upd r (assign_store s) q)"
| step_start: "bq_step q (upd r (mark_started now) q)"
| step_worker_ended: "bq_step q (upd r (worker_ended scope) q)"
| step_cancel_worker: "bq_step q (upd r cancel_worker q)"
| step_retry: "bq_step q (upd r (reset_for_retry s reason) q)"
| step_note_cost: "bq_step q (upd r (note_cost transfer measured estimates peak) q)"
| step_strip: "bq_step q (upd r (strip_build float_repr) q)"

text \<open>\<open>grows q q'\<close>: builds are only added, and an answer that is there stays.\<close>

definition grows :: "BuildQueue \<Rightarrow> BuildQueue \<Rightarrow> bool" where
  "grows q q' \<longleftrightarrow> length (bq_builds q) \<le> length (bq_builds q') \<and>
     (\<forall>r < length (bq_builds q). dedup_key (qb_request (build_at q' r)) = dedup_key (qb_request (build_at q r)) \<and>
        (is_done (build_at q r) \<longrightarrow> qb_answer (build_at q' r) = qb_answer (build_at q r)))"

lemma grows_refl: "grows q q"
  by (simp add: grows_def)

lemma grows_trans: "grows a b \<Longrightarrow> grows b c \<Longrightarrow> grows a c"
  unfolding grows_def is_done_def by (metis order_trans less_le_trans)

lemma similar_grows: "similar q q' \<Longrightarrow> grows q q'"
  by (simp add: similar_def grows_def quiet_def)

lemma grows_upd:
  assumes "\<And>b. dedup_key (qb_request (f b)) = dedup_key (qb_request b)" and "\<And>b. is_done b \<Longrightarrow> qb_answer (f b) = qb_answer b"
  shows "grows q (upd r f q)"
  using assms by (simp add: grows_def build_at_upd)

lemma grows_builds: "bq_builds q' = bq_builds q \<Longrightarrow> grows q q'"
  by (simp add: grows_def)

lemma grows_hold: "grows q (hold_for_goal a r q)"
proof -
  have "grows q (hold_locked r g q)" for g
    using grows_trans [OF grows_upd [of "\<lambda>b. b\<lparr>qb_holders := set_add g (qb_holders b)\<rparr>" q r] grows_builds]
    by (simp add: hold_locked_def Let_def)
  moreover have "grows q (upd r (\<lambda>b. b\<lparr>qb_standalone := qb_standalone b + 1\<rparr>) q)" by (rule grows_upd) simp_all
  ultimately show ?thesis by (simp add: hold_for_goal_def grows_refl split: option.split)
qed

lemma track_builds [simp]: "bq_builds (track_in_request a i q) = bq_builds q"
  by (simp add: track_in_request_def split: option.split)

lemma grows_join: "grows q (join_existing a r q)"
proof -
  let ?q1 = "upd r (\<lambda>b. b\<lparr>qb_from_goal_path := qb_from_goal_path b \<or> eq_from_goal_path a\<rparr>) q"
  have "grows q ?q1" by (rule grows_upd) simp_all
  then have q2: "grows q (hold_for_goal a r ?q1)" using grows_hold grows_trans by blast
  moreover have "grows q (upd r (\<lambda>b. b\<lparr>qb_scheduler_request_ids := set_add s (qb_scheduler_request_ids b)\<rparr>) (hold_for_goal a r ?q1))" for s
    by (rule grows_trans [OF q2 grows_upd]) simp_all
  ultimately show ?thesis
    unfolding join_existing_def Let_def
    by (intro grows_trans [OF _ grows_builds [OF track_builds]]) (simp split: option.split)
qed

lemma grows_add_new: "grows q (add_new a q)"
proof -
  have "grows q (q\<lparr>bq_builds := bq_builds q @ [b]\<rparr>)" for b by (simp add: grows_def nth_append)
  then have "grows q (hold_for_goal a r (q\<lparr>bq_builds := bq_builds q @ [b]\<rparr>))" for b r
    using grows_hold grows_trans by blast
  then show ?thesis
    unfolding add_new_def Let_def by (rule grows_trans) (rule grows_builds, simp)
qed

lemma grows_enqueue: "grows q (snd (enqueue a q))"
proof -
  have n: "grows q (note_goal_options a q)" by (rule grows_builds) simp
  have "grows q (join_existing a r (note_goal_options a q))" "grows q (add_new a (note_goal_options a q))" for r
    using grows_trans [OF n] grows_join grows_add_new by blast+
  then show ?thesis by (auto simp: enqueue_def Let_def grows_refl split: option.split)
qed

lemma grows_cancel: "\<not> is_done (build_at q r) \<Longrightarrow> grows q (cancel_locked r m now q)"
  by (simp add: grows_def cancel_locked_def Let_def build_at_upd)
    (simp add: cancel_build_def Let_def upd_def nth_list_update cancel_worker_def is_done_def split: option.split)

lemma grows_let_go: "grows q (let_go rid now q i)"
proof (cases "map_of (bq_by_id q) i")
  case (Some r)
  have u: "grows q (upd r (unhold rid) q)" by (rule grows_upd) (simp_all add: unhold_def)
  show ?thesis
    unfolding let_go_unhold [OF Some] Let_def
    using u grows_trans [OF u grows_cancel] by simp
qed (simp add: let_go_def grows_refl)

lemma grows_release: "grows q (release_locked rid now q)"
proof -
  have "grows q (foldl (let_go rid now) q1 ids)" if "grows q q1" for q1 ids
    using that
  proof (induction ids arbitrary: q1)
    case (Cons i ids)
    then show ?case using grows_trans [OF Cons.prems grows_let_go] by simp
  qed simp
  then have "grows q (foldl (let_go rid now) (q\<lparr>bq_held := dict_pop rid (bq_held q)\<rparr>) (held_of q rid))"
    using grows_builds by simp
  then show ?thesis
    unfolding release_locked_def Let_def by (rule grows_trans) (rule grows_builds, simp)
qed

lemma bq_step_cases:
  assumes "bq_step q q'" and "bq_ok q"
  shows "bq_ok q' \<and> grows q q'"
proof -
  have sim: "bq_ok q' \<and> grows q q'" if "similar q q'" for q'
    using that similar_ok [OF assms(2)] similar_grows by blast
  have up: "bq_ok (upd r f q) \<and> grows q (upd r f q)" if "\<And>b. quiet b (f b)" for r f
    by (rule sim, rule similar_upd [OF assms(2)]) (rule that)
  from assms(1) show ?thesis
  proof cases
    case step_create then show ?thesis using sim similar_create [OF assms(2)] by (metis snd_conv)
  next
    case step_enqueue then show ?thesis using enqueue_ok [OF assms(2)] grows_enqueue by (metis snd_conv)
  next
    case step_subscribe then show ?thesis using sim similar_subscribe [OF assms(2)] by (metis snd_conv)
  next
    case step_unsubscribe then show ?thesis using sim similar_unsubscribe [OF assms(2)] by (metis snd_conv)
  next
    case step_release then show ?thesis using release_ok [OF assms(2)] grows_release by simp
  next
    case step_prune then show ?thesis using prune_ok [OF assms(2)] grows_builds [OF prune_fields(1)] by simp
  next
    case step_forget then show ?thesis using sim similar_forget [OF assms(2)] by simp
  next
    case step_pop
    then show ?thesis using sim similar_unread(1) [OF similar_refl [OF assms(2)]] by (simp add: pop_request_def)
  next
    case step_stop_waiting then show ?thesis using sim similar_stop_waiting [OF assms(2)] by (metis snd_conv)
  next
    case step_complete then show ?thesis using sim similar_complete [OF assms(2)] by (metis snd_conv)
  next
    case step_fail then show ?thesis using sim similar_fail [OF assms(2)] by (metis snd_conv)
  next
    case step_cancel then show ?thesis using sim similar_cancel_unwanted [OF assms(2)] by simp
  next
    case (step_log r msg x)
    then show ?thesis using sim similar_on_build [OF assms(2), of "post_log msg" r] quiet_post_log by (metis snd_conv)
  qed (simp_all add: up quiet_post_log_bytes quiet_scheduler quiet_strip)
qed

interpretation queue_steps: ordered_steps bq_step bq_ok grows
  by unfold_locales (auto simp: bq_step_cases grows_refl intro: grows_trans)

lemma bq_run:
  assumes "bq_step\<^sup>*\<^sup>* q q'" and "bq_ok q"
  shows "bq_ok q' \<and> grows q q'"
  using queue_steps.run_in_order [OF assms] queue_steps.run_later [OF assms] by blast

lemma empty_queue_ok: "bq_ok empty_queue"
  by (simp add: empty_queue_def bq_ok_defs held_of_def)

text \<open>A goal request that asks for one derivation, on which the theorems below are tried.\<close>

definition sample_args :: "nat \<Rightarrow> enqueue_args" where
  "sample_args g =
     \<lparr>eq_request = (plain_request ''/nix/store/a-x.drv'' []),
      eq_expected_duration = None, eq_scheduler_request_id = None, eq_derived_paths = [],
      eq_from_goal_path = True, eq_goal_request_id = Some g,
      eq_options = Some \<lparr>opt_max_build_jobs = 1, opt_keep_going = False\<rparr>, eq_delegated = False, eq_now = 0\<rparr>"

lemma sample_run: "bq_step\<^sup>*\<^sup>* empty_queue (snd (enqueue a empty_queue))"
  by (rule r_into_rtranclp, rule step_enqueue [where x = "fst (enqueue a empty_queue)"]) simp

lemma release_run: "bq_step\<^sup>*\<^sup>* q (release_request rid now q)"
proof -
  have "bq_step\<^sup>*\<^sup>* q (release_locked rid now q)" by (rule r_into_rtranclp, rule step_release)
  then show ?thesis unfolding release_request_def using step_prune by (rule rtranclp.rtrancl_into_rtrancl)
qed

lemma sample_queue:
  "snd (enqueue (sample_args 1) empty_queue) =
     empty_queue\<lparr>bq_builds := [(new_build 1 (eq_request (sample_args 1)) None [] (eq_options (sample_args 1)) 0)
         \<lparr>qb_from_goal_path := True, qb_holders := [1]\<rparr>],
       bq_queue := [0], bq_by_path := [((''/nix/store/a-x.drv'', 0), 0)], bq_by_id := [(1, 0)], bq_next_id := 2,
       bq_max_jobs := [(1, Some 1)], bq_keeps_going := [(1, False)], bq_held := [(1, [1])]\<rparr>"
  by (simp add: enqueue_def sample_args_def empty_queue_def delegation_loop_def note_goal_options_def add_new_def
      hold_for_goal_def hold_locked_def upd_def track_in_request_def held_of_def new_build_def dedup_key_def set_add_def Let_def)

text \<open>
  C1. The queue's indices agree in every state that its operations reach, however the lock sections
  of different tasks interleave: the list and \<open>_by_id\<close> hold the same builds, each under its own
  id; \<open>_by_path\<close> names the one unanswered build of a derivation and mode; a goal request holds a
  build exactly when the build has it among its holders; and what is kept about a goal request
  goes when it is released.
\<close>

theorem queue_invariant:
  "bq_step\<^sup>*\<^sup>* empty_queue q \<Longrightarrow> bq_ok q"
  using bq_run empty_queue_ok by blast

theorem queue_invariant_witness:
  "bq_ok (release_request 1 5 (snd (enqueue (sample_args 1) empty_queue)))"
  by (rule queue_invariant)
    (rule rtranclp_trans [OF sample_run release_run])

text \<open>
  C11. The first answer stands: once a build is answered, no operation, retry, cancellation or late
  completion changes the answer its waiters read; and a build leaves the queue only when it is
  answered, so no waiter is left behind.
\<close>

theorem first_answer_stands:
  assumes "bq_step\<^sup>*\<^sup>* empty_queue q" and "bq_step\<^sup>*\<^sup>* q q'" and "r < length (bq_builds q)"
  shows "(is_done (build_at q r) \<longrightarrow> qb_answer (build_at q' r) = qb_answer (build_at q r)) \<and>
    (r \<notin> set (bq_queue q') \<longrightarrow> is_done (build_at q' r))"
proof -
  have ok: "bq_ok q" using bq_run [OF assms(1) empty_queue_ok] by simp
  have q': "bq_ok q'" "grows q q'" using bq_run [OF assms(2) ok] by simp_all
  with assms(3) have "r < length (bq_builds q')" by (simp add: grows_def)
  with q' assms(3) show ?thesis by (simp add: grows_def bq_ok_def index_ok_def)
qed

theorem first_answer_stands_witness:
  "qb_answer (build_at (release_request 2 9 (release_request 1 5 (snd (enqueue (sample_args 1) empty_queue)))) 0) =
      Value (failure_result MISC_FAILURE no_goal_waits) \<and>
    is_done (build_at (release_request 2 9 (release_request 1 5 (snd (enqueue (sample_args 1) empty_queue)))) 0)"
proof -
  let ?q = "release_request 1 5 (snd (enqueue (sample_args 1) empty_queue))"
  have q: "0 < length (bq_builds ?q)" "qb_answer (build_at ?q 0) = Value (failure_result MISC_FAILURE no_goal_waits)"
    by (unfold sample_queue, simp_all add: release_request_def release_locked_def prune_fields empty_queue_def held_of_def let_go_def unhold_def upd_def
        find_build_def cancel_locked_def cancel_build_def cancel_worker_def new_build_def is_done_def ans_done_def Let_def dict_pop_def)
  have "bq_step\<^sup>*\<^sup>* empty_queue ?q" by (rule rtranclp_trans [OF sample_run release_run])
  then have "is_done (build_at ?q 0) \<longrightarrow> qb_answer (build_at (release_request 2 9 ?q) 0) = qb_answer (build_at ?q 0)"
    using first_answer_stands [OF _ release_run q(1)] by blast
  then show ?thesis using q(2) by (simp add: is_done_def ans_done_def)
qed

section \<open>What a release does\<close>

definition let_go_build :: "nat \<Rightarrow> seconds \<Rightarrow> QueuedBuild \<Rightarrow> QueuedBuild" where
  "let_go_build rid now b =
     (let b1 = unhold rid b
      in if qb_holders b1 = [] \<and> qb_standalone b1 = 0 \<and> \<not> is_done b1 then cancel_build no_goal_waits now b1 else b1)"

lemma let_go_by_id [simp]: "bq_by_id (let_go rid now q i) = bq_by_id q" "length (bq_builds (let_go rid now q i)) = length (bq_builds q)"
  by (simp_all add: let_go_def cancel_locked_def Let_def split: option.split)

lemma build_at_let_go:
  assumes "s < length (bq_builds q)" and "map_of (bq_by_id q) i = Some r" and "r < length (bq_builds q)"
  shows "build_at (let_go rid now q i) s = (if s = r then let_go_build rid now (build_at q s) else build_at q s)"
  unfolding let_go_unhold [OF assms(2)] Let_def cancel_locked_def
  using assms(1,3) by (simp add: build_at_upd let_go_build_def Let_def)

lemma build_at_let_go_all:
  assumes "s < length (bq_builds q)" and "distinct ids"
    and "\<forall>i\<in>set ids. \<exists>r < length (bq_builds q). i = Suc r \<and> map_of (bq_by_id q) i = Some r"
  shows "build_at (foldl (let_go rid now) q ids) s =
    (if Suc s \<in> set ids then let_go_build rid now (build_at q s) else build_at q s)"
  using assms
proof (induction ids arbitrary: q)
  case (Cons i ids)
  then obtain r where r: "r < length (bq_builds q)" "i = Suc r" "map_of (bq_by_id q) i = Some r" by auto
  let ?q = "let_go rid now q i"
  have "build_at (foldl (let_go rid now) ?q ids) s =
      (if Suc s \<in> set ids then let_go_build rid now (build_at ?q s) else build_at ?q s)"
    using Cons.prems by (intro Cons.IH) auto
  then show ?case using build_at_let_go [OF Cons.prems(1) r(3,1)] Cons.prems(2) r(2) by auto
qed simp

lemma build_at_release:
  assumes ok: "bq_ok q" and s: "s < length (bq_builds q)"
  shows "build_at (release_locked rid now q) s =
    (if rid \<in> set (qb_holders (build_at q s)) then let_go_build rid now (build_at q s) else build_at q s)"
proof -
  let ?q0 = "q\<lparr>bq_held := dict_pop rid (bq_held q)\<rparr>"
  have "build_at (foldl (let_go rid now) ?q0 (held_of q rid)) s =
      (if Suc s \<in> set (held_of q rid) then let_go_build rid now (build_at ?q0 s) else build_at ?q0 s)"
  proof (rule build_at_let_go_all)
    show "\<forall>i\<in>set (held_of q rid). \<exists>r < length (bq_builds ?q0). i = Suc r \<and> map_of (bq_by_id ?q0) i = Some r"
      using held_queued [OF ok] queue_less [OF ok] by_id_iff [OF ok] by fastforce
  qed (use s held_distinct [OF ok] in simp_all)
  then show ?thesis using holders_iff [OF ok s] by (simp add: release_locked_def Let_def)
qed

lemma release_forgets:
  assumes ok: "bq_ok q"
  shows "held_of (release_locked rid now q) rid = []" and "rid \<notin> set (bq_given_up (release_locked rid now q))"
    and "map_of (bq_max_jobs (release_locked rid now q)) rid = None"
    and "map_of (bq_keeps_going (release_locked rid now q)) rid = None"
  by (simp_all add: release_locked_def Let_def held_of_def map_of_dict_pop)

text \<open>
  C7. Releasing a goal request ends exactly the builds that nobody else waits for: an unanswered
  build is answered by it if and only if that request was its only holder and no standalone
  request wants it, and then with a failure that says so; every other build goes on. Afterwards
  nothing in the queue knows the request: no build has it as a holder, and its options and its
  give-up mark are gone.
\<close>

theorem release_ends_unwanted:
  assumes "bq_step\<^sup>*\<^sup>* empty_queue q" and "r < length (bq_builds q)" and "\<not> is_done (build_at q r)"
  shows "(is_done (build_at (release_request rid now q) r) \<longleftrightarrow>
      set (qb_holders (build_at q r)) = {rid} \<and> qb_standalone (build_at q r) = 0) \<and>
    (is_done (build_at (release_request rid now q) r) \<longrightarrow>
      qb_answer (build_at (release_request rid now q) r) = Value (failure_result MISC_FAILURE no_goal_waits)) \<and>
    rid \<notin> set (qb_holders (build_at (release_request rid now q) r)) \<and>
    held_of (release_request rid now q) rid = [] \<and> rid \<notin> set (bq_given_up (release_request rid now q)) \<and>
    max_jobs_of (release_request rid now q) rid = None"
proof -
  have ok: "bq_ok q" using bq_run [OF assms(1) empty_queue_ok] by simp
  let ?b = "build_at q r" and ?q = "release_request rid now q"
  have at: "build_at ?q r = (if rid \<in> set (qb_holders ?b) then let_go_build rid now ?b else ?b)"
    unfolding release_request_def prune_fields by (rule build_at_release [OF ok assms(2)])
  have empty: "removeAll rid (qb_holders ?b) = [] \<longleftrightarrow> set (qb_holders ?b) \<subseteq> {rid}"
    by (auto simp flip: set_empty2)
  have "is_done (build_at ?q r) \<longleftrightarrow> set (qb_holders ?b) = {rid} \<and> qb_standalone ?b = 0"
    using assms(3) empty
    by (auto simp: at let_go_build_def unhold_def cancel_build_def is_done_def ans_done_def Let_def cancel_worker_def
        split: option.splits if_splits)
  moreover have "qb_answer (build_at ?q r) = Value (failure_result MISC_FAILURE no_goal_waits)" if "is_done (build_at ?q r)"
    using that assms(3)
    by (auto simp: at let_go_build_def unhold_def cancel_build_def is_done_def ans_done_def Let_def cancel_worker_def
        split: option.splits if_splits)
  moreover have "rid \<notin> set (qb_holders (build_at ?q r))"
    by (auto simp: at let_go_build_def unhold_def cancel_build_def Let_def cancel_worker_def split: option.splits if_splits)
  moreover have "held_of ?q rid = []" using release_forgets(1) [OF ok] by (simp add: release_request_def held_of_def prune_fields)
  ultimately show ?thesis
    using release_forgets [OF ok] by (simp add: release_request_def prune_fields max_jobs_of_def)
qed

theorem release_ends_unwanted_witness:
  "qb_answer (build_at (release_request 1 7 (snd (enqueue (sample_args 1) empty_queue))) 0) =
      Value (failure_result MISC_FAILURE no_goal_waits) \<and>
    1 \<notin> set (qb_holders (build_at (release_request 1 7 (snd (enqueue (sample_args 1) empty_queue))) 0)) \<and>
    held_of (release_request 1 7 (snd (enqueue (sample_args 1) empty_queue))) 1 = []"
proof -
  let ?q = "snd (enqueue (sample_args 1) empty_queue)"
  have q: "0 < length (bq_builds ?q)" "\<not> is_done (build_at ?q 0)" "set (qb_holders (build_at ?q 0)) = {1}"
    "qb_standalone (build_at ?q 0) = 0"
    by (unfold sample_queue, simp_all add: new_build_def is_done_def ans_done_def)
  show ?thesis using release_ends_unwanted [OF sample_run q(1,2), of 1 7] q(3,4) by simp
qed

section \<open>What an enqueue does\<close>

lemma build_at_hold:
  assumes "s < length (bq_builds q)" and "r < length (bq_builds q)"
  shows "build_at (hold_for_goal a r q) s =
    (if s = r then (build_at q r)
       \<lparr>qb_holders := (case eq_goal_request_id a of
            Some g \<Rightarrow> if eq_from_goal_path a then set_add g (qb_holders (build_at q r)) else qb_holders (build_at q r)
          | None \<Rightarrow> qb_holders (build_at q r)),
        qb_standalone := (if eq_goal_request_id a = None then qb_standalone (build_at q r) + 1
          else qb_standalone (build_at q r))\<rparr>
     else build_at q s)"
  using assms
  by (cases "eq_goal_request_id a") (auto simp: hold_for_goal_def hold_locked_def Let_def build_at_upd)

lemma track_fields [simp]:
  "bq_by_path (track_in_request a i q) = bq_by_path q" "bq_by_id (track_in_request a i q) = bq_by_id q"
  "bq_queue (track_in_request a i q) = bq_queue q"
  by (simp_all add: track_in_request_def split: option.split)

text \<open>What the build that \<open>enqueue\<close> returns is: of the right key, unanswered, and kept for who asked.\<close>

definition serves :: "enqueue_args \<Rightarrow> QueuedBuild \<Rightarrow> bool" where
  "serves a b \<longleftrightarrow> \<not> is_done b \<and> dedup_key (qb_request b) = dedup_key (eq_request a) \<and>
     (case eq_goal_request_id a of
        None \<Rightarrow> 0 < qb_standalone b
      | Some g \<Rightarrow> eq_from_goal_path a \<longrightarrow> g \<in> set (qb_holders b))"

lemma join_existing_serves:
  assumes "r < length (bq_builds q)" and "\<not> is_done (build_at q r)"
    and "dedup_key (qb_request (build_at q r)) = dedup_key (eq_request a)"
  shows "serves a (build_at (join_existing a r q) r)" and "length (bq_builds (join_existing a r q)) = length (bq_builds q)"
    and "bq_by_path (join_existing a r q) = bq_by_path q" and "bq_by_id (join_existing a r q) = bq_by_id q"
  using assms
  by (auto simp: join_existing_def Let_def build_at_upd build_at_hold serves_def is_done_def split: option.split)

lemma add_new_serves:
  shows "serves a (build_at (add_new a q) (length (bq_builds q)))"
    and "length (bq_builds (add_new a q)) = Suc (length (bq_builds q))"
    and "map_of (bq_by_path (add_new a q)) (dedup_key (eq_request a)) = Some (length (bq_builds q))"
    and "map_of (bq_by_id (add_new a q)) (bq_next_id q) = Some (length (bq_builds q))"
  by (auto simp: add_new_def Let_def build_at_hold serves_def is_done_def ans_done_def new_build_def split: option.split)

text \<open>
  What \<open>enqueue\<close> returns, whatever the queue holds. An unanswered build of the same key is joined also
  when a worker already runs it; the docstring of \<open>enqueue\<close> has only pending builds joined, the comment
  in its body also the ones in progress.
\<close>

lemma enqueue_joins:
  assumes "bq_step\<^sup>*\<^sup>* empty_queue q" and "enqueue a q = (Inr (i, r), q')"
  shows "i = Suc r \<and> serves a (build_at q' r) \<and> map_of (bq_by_id q') i = Some r \<and>
    map_of (bq_by_path q') (dedup_key (eq_request a)) = Some r \<and>
    (\<forall>s. s \<in> set (bq_queue q) \<and> \<not> is_done (build_at q s) \<and> dedup_key (qb_request (build_at q s)) = dedup_key (eq_request a)
      \<longrightarrow> r = s \<and> length (bq_builds q') = length (bq_builds q)) \<and>
    ((\<forall>s \<in> set (bq_queue q). is_done (build_at q s) \<or> dedup_key (qb_request (build_at q s)) \<noteq> dedup_key (eq_request a))
      \<longrightarrow> r = length (bq_builds q) \<and> length (bq_builds q') = Suc (length (bq_builds q)))"
proof -
  have ok: "bq_ok q" using bq_run [OF assms(1) empty_queue_ok] by simp
  let ?k = "dedup_key (eq_request a)" and ?q1 = "note_goal_options a q"
  have nid: "bq_next_id q = Suc (length (bq_builds q))" using ok by (simp add: bq_ok_def ids_ok_def)
  show ?thesis
  proof (cases "\<exists>s. map_of (bq_by_path q) ?k = Some s \<and> \<not> is_done (build_at q s)")
    case True
    then obtain s where s: "map_of (bq_by_path q) ?k = Some s" "\<not> is_done (build_at q s)" by blast
    have sq: "s \<in> set (bq_queue q)" "dedup_key (qb_request (build_at q s)) = ?k" using by_path_key [OF ok s(1)] by simp_all
    then have len: "s < length (bq_builds q)" using queue_less [OF ok] by simp
    have res: "r = s" "i = Suc s" "q' = join_existing a s ?q1"
      using assms(2) s build_id_at [OF ok len] by (auto simp: enqueue_def Let_def split: if_splits option.splits)
    have uniq: "t = s" if "t \<in> set (bq_queue q)" "\<not> is_done (build_at q t)" "dedup_key (qb_request (build_at q t)) = ?k" for t
      using by_path_live [OF ok that(1,2)] that(3) s(1) by simp
    have id: "map_of (bq_by_id q) (Suc s) = Some s" using by_id_iff [OF ok] sq by simp
    have j: "serves a (build_at q' s)" "length (bq_builds q') = length (bq_builds q)" "bq_by_path q' = bq_by_path q"
        "bq_by_id q' = bq_by_id q"
      using join_existing_serves [of s ?q1 a] len s sq by (simp_all add: res)
    have both: "r = t \<and> length (bq_builds q') = length (bq_builds q)"
      if "t \<in> set (bq_queue q) \<and> \<not> is_done (build_at q t) \<and> dedup_key (qb_request (build_at q t)) = ?k" for t
      using uniq [of t] that res(1) j(2) by blast
    have "\<not> (\<forall>t \<in> set (bq_queue q). is_done (build_at q t) \<or> dedup_key (qb_request (build_at q t)) \<noteq> ?k)"
      using s(2) sq by blast
    with both j(1) id s(1) show ?thesis unfolding res(1,2) j(3,4) by blast
  next
    case False
    then have res: "r = length (bq_builds q)" "i = bq_next_id q" "q' = add_new a ?q1"
      using assms(2) by (auto simp: enqueue_def Let_def split: if_splits option.splits)
    have none: "is_done (build_at q t) \<or> dedup_key (qb_request (build_at q t)) \<noteq> ?k" if "t \<in> set (bq_queue q)" for t
      using by_path_live [OF ok that] False by metis
    have j: "serves a (build_at q' r)" "length (bq_builds q') = Suc (length (bq_builds q))"
        "map_of (bq_by_path q') ?k = Some r" "map_of (bq_by_id q') i = Some r" "i = Suc r"
      using add_new_serves [of a ?q1] nid by (simp_all add: res)
    show ?thesis using j res(1) none by blast
  qed
qed

text \<open>
  C10. A build is shared with whoever asks for the same derivation in the same mode: \<open>enqueue\<close> returns
  the pending build of that key where there is one, and adds none; it adds a new build when every build
  of that key is answered; a CHECK or a REPAIR never joins a NORMAL build. The build it returns is
  unanswered, found under its id and its key, and held for the goal request that asked, or counted as
  standalone. (\<open>enqueue_joins\<close> has the case of a build that is building.)
\<close>

theorem enqueue_shares:
  assumes "bq_step\<^sup>*\<^sup>* empty_queue q" and "enqueue a q = (Inr (i, r), q')"
  shows "i = Suc r \<and> serves a (build_at q' r) \<and> map_of (bq_by_id q') i = Some r \<and>
    map_of (bq_by_path q') (dedup_key (eq_request a)) = Some r \<and>
    (\<forall>s. s \<in> set (bq_queue q) \<and> is_pending (build_at q s) \<and> dedup_key (qb_request (build_at q s)) = dedup_key (eq_request a)
      \<longrightarrow> r = s \<and> length (bq_builds q') = length (bq_builds q)) \<and>
    ((\<forall>s \<in> set (bq_queue q). dedup_key (qb_request (build_at q s)) = dedup_key (eq_request a) \<longrightarrow> is_done (build_at q s))
      \<longrightarrow> r = length (bq_builds q) \<and> length (bq_builds q') = Suc (length (bq_builds q)))"
  using enqueue_joins [OF assms] by (auto simp: is_pending_def)

theorem enqueue_shares_witness:
  "1 = Suc 0 \<and> serves (sample_args 1) (build_at (snd (enqueue (sample_args 1) empty_queue)) 0) \<and>
    map_of (bq_by_id (snd (enqueue (sample_args 1) empty_queue))) 1 = Some 0 \<and>
    map_of (bq_by_path (snd (enqueue (sample_args 1) empty_queue))) (dedup_key (eq_request (sample_args 1))) = Some 0"
proof -
  have "enqueue (sample_args 1) empty_queue = (Inr (1, 0), snd (enqueue (sample_args 1) empty_queue))"
    by (simp add: enqueue_def sample_args_def empty_queue_def delegation_loop_def note_goal_options_def)
  from enqueue_shares [OF rtranclp.rtrancl_refl this] show ?thesis by blast
qed

text \<open>
  \<open>enqueue\<close> refuses in two cases and changes nothing then: a goal build without the goal request
  that would hold it, and a delegated build that this instance runs on a remote store itself,
  which it could only wait for in a circle. A delegated build that runs locally or has no store
  yet is joined.
\<close>

theorem enqueue_refuses:
  "case fst (enqueue a q) of
     Inl e \<Rightarrow> snd (enqueue a q) = q \<and>
       (eq_from_goal_path a \<and> eq_goal_request_id a = None \<or>
        (\<exists>r store. map_of (bq_by_path q) (dedup_key (eq_request a)) = Some r \<and> eq_delegated a \<and> is_building (build_at q r) \<and>
           qb_assigned_store_id (build_at q r) = Some store \<and> store \<noteq> LOCAL_STORE_ID))
   | Inr _ \<Rightarrow>
       \<not> (eq_from_goal_path a \<and> eq_goal_request_id a = None) \<and>
       (\<nexists>r store. map_of (bq_by_path q) (dedup_key (eq_request a)) = Some r \<and> eq_delegated a \<and> is_building (build_at q r) \<and>
           qb_assigned_store_id (build_at q r) = Some store \<and> store \<noteq> LOCAL_STORE_ID)"
  by (auto simp: enqueue_def delegation_loop_def Let_def split: if_splits option.splits sum.splits)

section \<open>Failures, order, counts\<close>

text \<open>
  A failed build ends exactly the goal requests that hold it and did not ask to keep going, and
  a build that a live request wants, or a standalone one, is still wanted.
\<close>

lemma failure_gives_up:
  assumes "find_build q i = Some r" and "r < length (bq_builds q)" and "\<not> is_done (build_at q r)"
    and "status_is_success (res_status resp) = Inr False"
    and "complete_locked i resp now q = (x, q')"
  shows "x = Inr () \<and> qb_answer (build_at q' r) = Value resp \<and>
    set (bq_given_up q') = set (bq_given_up q) \<union>
      {h \<in> set (qb_holders (build_at q r)). map_of (bq_keeps_going q) h = Some False} \<and>
    (nobody_wants q' b \<longleftrightarrow> live_wanters q' b = [] \<and> qb_holders b \<noteq> [] \<and> qb_standalone b = 0)"
proof -
  let ?q1 = "upd r (\<lambda>b. b\<lparr>qb_finished_at := Some now, qb_answer := Value resp\<rparr>) q"
  let ?given = "foldl (\<lambda>s h. set_add h s) (bq_given_up q)
      (filter (\<lambda>h. map_of (bq_keeps_going q) h = Some False) (qb_holders (build_at ?q1 r)))"
  have at: "build_at ?q1 r = (build_at q r)\<lparr>qb_finished_at := Some now, qb_answer := Value resp\<rparr>"
    using assms(2) by (simp add: build_at_upd)
  have "x = Inr ()" "bq_given_up q' = ?given" "bq_builds q' = bq_builds ?q1"
    using assms(1,3,4,5) by (auto simp: complete_locked_def note_a_request_that_gave_up_def bind_apply)
  moreover have "nobody_wants q' b \<longleftrightarrow> live_wanters q' b = [] \<and> qb_holders b \<noteq> [] \<and> qb_standalone b = 0"
    by (auto simp: nobody_wants_def live_wanters_def filter_empty_conv)
  ultimately show ?thesis using at by (auto simp: set_add_all)
qed

text \<open>
  \<open>get_pending\<close> gives every unanswered build of the queue once, in the order Nix would take them:
  by the name of the derivation, then by its path, then by the order they were asked for.
\<close>

theorem get_pending_order:
  assumes "bq_step\<^sup>*\<^sup>* empty_queue q"
  shows "sorted (map (\<lambda>r. the_order_nix_takes (build_at q r)) (get_pending q)) \<and> distinct (get_pending q) \<and>
    set (get_pending q) = {r. r < length (bq_builds q) \<and> \<not> is_done (build_at q r)}"
proof -
  have ok: "bq_ok q" using bq_run [OF assms empty_queue_ok] by simp
  then have "distinct (bq_queue q)" "\<And>r. r < length (bq_builds q) \<Longrightarrow> \<not> is_done (build_at q r) \<Longrightarrow> r \<in> set (bq_queue q)"
    unfolding bq_ok_def index_ok_def by blast+
  then show ?thesis using queue_less [OF ok] by (auto simp: get_pending_def)
qed

theorem get_pending_order_witness:
  "sorted (map (\<lambda>r. the_order_nix_takes (build_at (snd (enqueue (sample_args 1) empty_queue)) r))
      (get_pending (snd (enqueue (sample_args 1) empty_queue)))) \<and>
    distinct (get_pending (snd (enqueue (sample_args 1) empty_queue))) \<and>
    set (get_pending (snd (enqueue (sample_args 1) empty_queue))) =
      {r. r < length (bq_builds (snd (enqueue (sample_args 1) empty_queue))) \<and>
          \<not> is_done (build_at (snd (enqueue (sample_args 1) empty_queue)) r)}"
  by (rule get_pending_order [OF sample_run])

lemma counts_filters:
  "counts q = \<lparr>qc_pending = length (filter (\<lambda>r. is_pending (build_at q r)) (bq_queue q)),
     qc_building = length (filter (\<lambda>r. is_building (build_at q r) \<and> \<not> is_done (build_at q r)) (bq_queue q)),
     qc_done = length (filter (\<lambda>r. is_done (build_at q r)) (bq_queue q))\<rparr>"
proof -
  let ?f = "\<lambda>n r. let b = build_at q r in
         if is_done b then n\<lparr>qc_done := qc_done n + 1\<rparr>
         else if is_building b then n\<lparr>qc_building := qc_building n + 1\<rparr>
         else if is_pending b then n\<lparr>qc_pending := qc_pending n + 1\<rparr> else n"
  have "foldl ?f n rs = \<lparr>qc_pending = qc_pending n + length (filter (\<lambda>r. is_pending (build_at q r)) rs),
      qc_building = qc_building n + length (filter (\<lambda>r. is_building (build_at q r) \<and> \<not> is_done (build_at q r)) rs),
      qc_done = qc_done n + length (filter (\<lambda>r. is_done (build_at q r)) rs)\<rparr>" for n rs
    by (induction rs arbitrary: n) (simp_all add: Let_def is_pending_def)
  then show ?thesis by (simp add: counts_def)
qed

lemma length_three_ways:
  "(\<And>x. x \<in> set xs \<Longrightarrow> (P x \<and> \<not> Q x \<and> \<not> R x) \<or> (\<not> P x \<and> Q x \<and> \<not> R x) \<or> (\<not> P x \<and> \<not> Q x \<and> R x)) \<Longrightarrow>
     length (filter P xs) + length (filter Q xs) + length (filter R xs) = length xs"
proof (induction xs)
  case (Cons x xs)
  have IH: "length (filter P xs) + length (filter Q xs) + length (filter R xs) = length xs"
    using Cons.prems by (intro Cons.IH) simp
  from Cons.prems [of x] IH show ?case by auto
qed simp

text \<open>
  Every build of the queue is in exactly one of the three counts of \<open>counts\<close>, which agree with
  \<open>count\<close> for the pending and the done ones. \<open>count("running")\<close> is larger by the builds that are
  answered while their worker has not ended yet.
\<close>

theorem counts_partition:
  "qc_pending (counts q) + qc_building (counts q) + qc_done (counts q) = length (bq_queue q) \<and>
   count_status q ''pending'' = qc_pending (counts q) \<and> count_status q ''done'' = qc_done (counts q) \<and>
   count_status q ''running'' = qc_building (counts q) +
     length (filter (\<lambda>r. is_building (build_at q r) \<and> is_done (build_at q r)) (bq_queue q))"
proof (intro conjI)
  show "qc_pending (counts q) + qc_building (counts q) + qc_done (counts q) = length (bq_queue q)"
    by (simp add: counts_filters, rule length_three_ways) (auto simp: is_pending_def)
  have "length (filter (\<lambda>r. is_building (build_at q r)) rs) =
      length (filter (\<lambda>r. is_building (build_at q r) \<and> \<not> is_done (build_at q r)) rs) +
      length (filter (\<lambda>r. is_building (build_at q r) \<and> is_done (build_at q r)) rs)" for rs
    by (induction rs) auto
  then show "count_status q ''running'' = qc_building (counts q) +
     length (filter (\<lambda>r. is_building (build_at q r) \<and> is_done (build_at q r)) (bq_queue q))"
    by (simp add: count_status_def counts_filters)
qed (simp_all add: count_status_def counts_filters)

text \<open>
  C26. \<open>prune\<close> drops exactly the builds that are answered, that no request names or holds, and that no
  client streams; the others stay under their id, and a derivation's entry goes only with the
  build it names, so a newer build of the same derivation keeps its own.
\<close>

theorem prune_drops_finished:
  assumes "bq_step\<^sup>*\<^sup>* empty_queue q"
  shows "(r \<in> set (bq_queue (prune q)) \<longleftrightarrow> r \<in> set (bq_queue q) \<and>
      \<not> (is_done (build_at q r) \<and> qb_scheduler_request_ids (build_at q r) = [] \<and>
         qb_holders (build_at q r) = [] \<and> qb_subscribers (build_at q r) = [])) \<and>
    (map_of (bq_by_id (prune q)) (Suc r) = Some r \<longleftrightarrow> r \<in> set (bq_queue (prune q))) \<and>
    (map_of (bq_by_path (prune q)) k = Some r \<longleftrightarrow>
      map_of (bq_by_path q) k = Some r \<and> r \<in> set (bq_queue (prune q)))"
proof -
  have ok: "bq_ok q" using bq_run [OF assms empty_queue_ok] by simp
  have "map_of (bq_by_path (prune q)) k = Some r \<longleftrightarrow> map_of (bq_by_path q) k = Some r \<and> r \<in> set (bq_queue (prune q))"
    using by_path_key [OF ok, of k] by (auto simp: prune_by_path [OF ok] prune_fields split: option.split)
  then show ?thesis by (simp add: prune_fields prune_by_id [OF ok] doomed_def Let_def)
qed

theorem prune_drops_finished_witness:
  "(0 \<in> set (bq_queue (prune (snd (enqueue (sample_args 1) empty_queue)))) \<longleftrightarrow>
      0 \<in> set (bq_queue (snd (enqueue (sample_args 1) empty_queue))) \<and>
      \<not> (is_done (build_at (snd (enqueue (sample_args 1) empty_queue)) 0) \<and>
         qb_scheduler_request_ids (build_at (snd (enqueue (sample_args 1) empty_queue)) 0) = [] \<and>
         qb_holders (build_at (snd (enqueue (sample_args 1) empty_queue)) 0) = [] \<and>
         qb_subscribers (build_at (snd (enqueue (sample_args 1) empty_queue)) 0) = [])) \<and>
    (map_of (bq_by_id (prune (snd (enqueue (sample_args 1) empty_queue)))) (Suc 0) = Some 0 \<longleftrightarrow>
      0 \<in> set (bq_queue (prune (snd (enqueue (sample_args 1) empty_queue))))) \<and>
    (map_of (bq_by_path (prune (snd (enqueue (sample_args 1) empty_queue)))) (''/nix/store/a-x.drv'', 0) = Some 0 \<longleftrightarrow>
      map_of (bq_by_path (snd (enqueue (sample_args 1) empty_queue))) (''/nix/store/a-x.drv'', 0) = Some 0 \<and>
      0 \<in> set (bq_queue (prune (snd (enqueue (sample_args 1) empty_queue)))))"
  by (rule prune_drops_finished [OF sample_run])

section \<open>Retries end\<close>








end
