(* ===== verification/Pressure.thy ===== *)
theory Pressure
  imports Build_Stats
begin

text \<open>
  What a store knows of its host (\<open>pynixd/psi.py\<close>) and the build limit that the pressure of the host
  moves (\<open>pynixd/pressure.py\<close>): slow start, falls, rises, and the settle time between them. Clock
  readings are arguments; the metrics and the log lines that \<open>_set\<close> writes are left out.
\<close>

section \<open>A sample of a host\<close>

record PsiMetric =
  pm_some_avg10 :: rat
  pm_some_avg60 :: rat
  pm_some_avg300 :: rat
  pm_full_avg10 :: rat
  pm_full_avg60 :: rat
  pm_full_avg300 :: rat

record PsiSnapshot =
  psi_cpu :: PsiMetric
  psi_memory :: PsiMetric
  psi_io :: PsiMetric

record MemInfo =
  mem_total :: int
  mem_available :: int

record CgroupCpuStat =
  cs_usage_usec :: int
  cs_nr_periods :: int
  cs_nr_throttled :: int
  cs_timestamp :: seconds

record CpuUtil =
  cu_utilization :: rat
  cu_cores :: rat
  cu_throttled_pct :: rat

record DiskSpace =
  disk_free_bytes :: int
  disk_total_bytes :: int

record SystemHealth =
  sh_psi :: "PsiSnapshot option"
  sh_meminfo :: "MemInfo option"
  sh_cpu_util :: "CpuUtil option"
  sh_cores :: "rat option"
  sh_load1 :: "rat option"
  sh_disk :: "DiskSpace option"

text \<open>\<open>meminfo if meminfo and meminfo.mem_total else None\<close>.\<close>

definition known_memory :: "SystemHealth \<Rightarrow> MemInfo option" where
  "known_memory h = (case sh_meminfo h of Some m \<Rightarrow> if mem_total m = 0 then None else Some m | None \<Rightarrow> None)"

definition has_signal :: "SystemHealth \<Rightarrow> bool" where
  "has_signal h \<longleftrightarrow> sh_psi h \<noteq> None \<or> known_memory h \<noteq> None \<or> sh_load1 h \<noteq> None"

text \<open>\<open>int\<close> of a float: towards zero.\<close>

definition py_int :: "rat \<Rightarrow> int" where
  "py_int x = (if x \<ge> 0 then \<lfloor>x\<rfloor> else \<lceil>x\<rceil>)"

definition compute_cpu_util ::
    "CgroupCpuStat \<Rightarrow> CgroupCpuStat \<Rightarrow> rat option \<Rightarrow> error + CpuUtil option" where
  "compute_cpu_util prev latest cores =
     (let delta_usec = cs_usage_usec latest - cs_usage_usec prev;
          elapsed_wall_sec = cs_timestamp latest - cs_timestamp prev;
          n = (case cores of Some c \<Rightarrow> c | None \<Rightarrow> 1);
          total_capacity_usec = of_int (py_int (elapsed_wall_sec * 1000000)) * n
      in if delta_usec \<le> 0 then Inr None
         else if elapsed_wall_sec \<le> 0 then Inr None
         else if total_capacity_usec = 0 then Inl ZeroDivisionError
         else Inr (Some
           \<lparr>cu_utilization = min (of_int delta_usec / total_capacity_usec * 100) 100,
            cu_cores = n,
            cu_throttled_pct =
              (if cs_nr_periods latest > 0 then of_int (cs_nr_throttled latest) / of_int (cs_nr_periods latest) * 100 else 0)\<rparr>))"

section \<open>The settings\<close>

record PressureSettings =
  ps_enabled :: bool
  ps_memory_full_high :: rat
  ps_memory_full_low :: rat
  ps_io_full_high :: rat
  ps_io_full_low :: rat
  ps_cpu_some_high :: rat
  ps_load_per_core_high :: rat
  ps_min_available_memory_mb :: int
  ps_decrease_factor :: rat
  ps_increase_step :: int
  ps_settle :: seconds
  ps_initial_limit :: "int option"

definition default_pressure :: PressureSettings where
  "default_pressure =
     \<lparr>ps_enabled = True, ps_memory_full_high = 2, ps_memory_full_low = 1 / 2, ps_io_full_high = 25,
      ps_io_full_low = 10, ps_cpu_some_high = 60, ps_load_per_core_high = 3 / 2,
      ps_min_available_memory_mb = 1024, ps_decrease_factor = 1 / 2, ps_increase_step = 1, ps_settle = 10,
      ps_initial_limit = None\<rparr>"

section \<open>The build limit\<close>

datatype LimitReason =
    unmonitored | slow_start | steady | memory_pressure | io_pressure | low_memory | cpu_pressure | load

record BuildLimit =
  bl_ceiling :: int
  bl_settings :: PressureSettings
  bl_limit :: int
  bl_reason :: LimitReason
  bl_slow_start :: bool
  bl_sampled_at :: "seconds option"
  bl_next_fall :: seconds
  bl_next_rise :: seconds

definition new_limit :: "int \<Rightarrow> PressureSettings \<Rightarrow> BuildLimit" where
  "new_limit slots settings =
     \<lparr>bl_ceiling = slots, bl_settings = settings, bl_limit = slots, bl_reason = unmonitored,
      bl_slow_start = True, bl_sampled_at = None, bl_next_fall = 0, bl_next_rise = 0\<rparr>"

definition has_room :: "BuildLimit \<Rightarrow> int \<Rightarrow> bool" where
  "has_room b running \<longleftrightarrow> running < bl_limit b"

definition set_limit :: "int \<Rightarrow> LimitReason \<Rightarrow> BuildLimit \<Rightarrow> BuildLimit" where
  "set_limit limit reason b = b\<lparr>bl_limit := limit, bl_reason := reason\<rparr>"

definition initial_limit :: "BuildLimit \<Rightarrow> SystemHealth \<Rightarrow> int" where
  "initial_limit b health =
     (let start = (case ps_initial_limit (bl_settings b) of
                     Some n \<Rightarrow> n
                   | None \<Rightarrow> (case nonzero (sh_cores health) of Some c \<Rightarrow> py_int c | None \<Rightarrow> 1))
      in max 1 (min (bl_ceiling b) start))"

definition psi_at_least :: "SystemHealth \<Rightarrow> (PsiSnapshot \<Rightarrow> rat) \<Rightarrow> rat \<Rightarrow> bool" where
  "psi_at_least h f mark \<longleftrightarrow> (case sh_psi h of Some p \<Rightarrow> f p \<ge> mark | None \<Rightarrow> False)"

definition psi_above :: "SystemHealth \<Rightarrow> (PsiSnapshot \<Rightarrow> rat) \<Rightarrow> rat \<Rightarrow> bool" where
  "psi_above h f mark \<longleftrightarrow> (case sh_psi h of Some p \<Rightarrow> f p > mark | None \<Rightarrow> False)"

definition memory_below :: "SystemHealth \<Rightarrow> int \<Rightarrow> bool" where
  "memory_below h kb \<longleftrightarrow> (case known_memory h of Some m \<Rightarrow> mem_available m < kb | None \<Rightarrow> False)"

definition load_high :: "SystemHealth \<Rightarrow> rat \<Rightarrow> bool" where
  "load_high h mark \<longleftrightarrow>
     (case (sh_psi h, sh_load1 h, nonzero (sh_cores h)) of
        (None, Some l, Some c) \<Rightarrow> l / c \<ge> mark
      | _ \<Rightarrow> False)"

definition verdict :: "PressureSettings \<Rightarrow> SystemHealth \<Rightarrow> LimitReason \<times> bool" where
  "verdict s h =
     (let min_kb = ps_min_available_memory_mb s * 1024 in
      if psi_at_least h (\<lambda>p. pm_full_avg10 (psi_memory p)) (ps_memory_full_high s) then (memory_pressure, True)
      else if psi_at_least h (\<lambda>p. pm_full_avg10 (psi_io p)) (ps_io_full_high s) then (io_pressure, True)
      else if memory_below h min_kb then (low_memory, True)
      else if psi_above h (\<lambda>p. pm_full_avg10 (psi_memory p)) (ps_memory_full_low s) then (memory_pressure, False)
      else if psi_above h (\<lambda>p. pm_full_avg10 (psi_io p)) (ps_io_full_low s) then (io_pressure, False)
      else if memory_below h (2 * min_kb) then (low_memory, False)
      else if psi_at_least h (\<lambda>p. pm_some_avg10 (psi_cpu p)) (ps_cpu_some_high s) then (cpu_pressure, False)
      else if load_high h (ps_load_per_core_high s) then (load, False)
      else (steady, False))"

text \<open>The first sample after none: the limit starts from the cores of the host.\<close>

definition start_monitoring :: "SystemHealth \<Rightarrow> seconds \<Rightarrow> BuildLimit \<Rightarrow> BuildLimit" where
  "start_monitoring health now b =
     (if bl_reason b = unmonitored
      then (set_limit (initial_limit b health) slow_start b)
             \<lparr>bl_slow_start := True, bl_next_rise := now + ps_settle (bl_settings b)\<rparr>
      else b)"

definition fall :: "LimitReason \<Rightarrow> int \<Rightarrow> seconds \<Rightarrow> BuildLimit \<Rightarrow> BuildLimit" where
  "fall reason running now b =
     (let cut = py_int (of_int (min (bl_limit b) (max running 1)) * ps_decrease_factor (bl_settings b));
          settled = now + ps_settle (bl_settings b)
      in (set_limit (max 1 cut) reason b)
           \<lparr>bl_slow_start := False, bl_next_fall := settled, bl_next_rise := settled\<rparr>)"

definition rise :: "int \<Rightarrow> seconds \<Rightarrow> BuildLimit \<Rightarrow> bool \<times> BuildLimit" where
  "rise running now b =
     (let b1 = b\<lparr>bl_reason := (if bl_slow_start b then slow_start else steady)\<rparr>
      in if running < bl_limit b1 \<or> bl_limit b1 \<ge> bl_ceiling b1 \<or> now < bl_next_rise b1 then (False, b1)
         else let grown = (if bl_slow_start b1 then bl_limit b1 * 2
                           else bl_limit b1 + ps_increase_step (bl_settings b1))
              in (True, (set_limit (min (bl_ceiling b1) grown) (bl_reason b1) b1)
                    \<lparr>bl_next_rise := now + ps_settle (bl_settings b1)\<rparr>))"

definition observe :: "SystemHealth option \<Rightarrow> int \<Rightarrow> seconds \<Rightarrow> BuildLimit \<Rightarrow> bool \<times> BuildLimit" where
  "observe health running now b =
     (case health of
        Some h \<Rightarrow>
          if ps_enabled (bl_settings b) \<and> has_signal h
          then let b1 = (start_monitoring h now b)\<lparr>bl_sampled_at := Some now\<rparr>;
                   (reason, falls) = verdict (bl_settings b1) h
               in if falls \<and> now \<ge> bl_next_fall b1 then (False, fall reason running now b1)
                  else if reason \<noteq> steady then (False, b1\<lparr>bl_reason := reason\<rparr>)
                  else rise running now b1
          else (bl_limit b < bl_ceiling b, (set_limit (bl_ceiling b) unmonitored b)\<lparr>bl_sampled_at := None\<rparr>)
      | None \<Rightarrow> (bl_limit b < bl_ceiling b, (set_limit (bl_ceiling b) unmonitored b)\<lparr>bl_sampled_at := None\<rparr>))"

primrec observe_all :: "(SystemHealth option \<times> int \<times> seconds) list \<Rightarrow> BuildLimit \<Rightarrow> BuildLimit" where
  "observe_all [] b = b"
| "observe_all (s # ss) b = observe_all ss (snd (observe (fst s) (fst (snd s)) (snd (snd s)) b))"

section \<open>The limit stays between one and the ceiling\<close>

text \<open>Settings under which a cut never grows the limit and a rise always does.\<close>

definition settings_ok :: "PressureSettings \<Rightarrow> bool" where
  "settings_ok s \<longleftrightarrow> ps_decrease_factor s \<le> 1 \<and> ps_increase_step s \<ge> 1 \<and> ps_settle s > 0"

definition limit_ok :: "BuildLimit \<Rightarrow> bool" where
  "limit_ok b \<longleftrightarrow> settings_ok (bl_settings b) \<and> 1 \<le> bl_limit b \<and> bl_limit b \<le> bl_ceiling b \<and>
     (bl_reason b = unmonitored \<longrightarrow> bl_limit b = bl_ceiling b)"

lemma py_int_le: "x \<le> of_int n \<Longrightarrow> 0 \<le> n \<Longrightarrow> py_int x \<le> n"
  by (auto simp: py_int_def floor_le_iff ceiling_le_iff intro: le_less_trans)

lemma verdict_reason: "fst (verdict s h) \<noteq> unmonitored" "verdict s h = (steady, f) \<Longrightarrow> \<not> f"
  by (auto simp: verdict_def Let_def split: if_splits)

lemma cut_bounds:
  assumes "settings_ok s" "1 \<le> limit"
  shows "max 1 (py_int (of_int (min limit (max running 1)) * ps_decrease_factor s)) \<le> limit"
proof -
  have "of_int (min limit (max running 1)) * ps_decrease_factor s \<le> of_int (min limit (max running 1)) * 1"
    using assms by (intro mult_left_mono) (auto simp: settings_ok_def)
  also have "\<dots> \<le> of_int limit" by simp
  finally have "py_int (of_int (min limit (max running 1)) * ps_decrease_factor s) \<le> limit"
    using assms(2) by (intro py_int_le) auto
  then show ?thesis using assms(2) by simp
qed

lemma start_monitoring_ok:
  "limit_ok b \<Longrightarrow> limit_ok (start_monitoring h now b) \<and> bl_reason (start_monitoring h now b) \<noteq> unmonitored"
  by (auto simp: start_monitoring_def limit_ok_def set_limit_def initial_limit_def Let_def)

lemma fall_ok: "limit_ok b \<Longrightarrow> reason \<noteq> unmonitored \<Longrightarrow> limit_ok (fall reason running now b)"
  using cut_bounds [of "bl_settings b" "bl_limit b" running]
  by (auto simp: limit_ok_def fall_def set_limit_def Let_def)

lemma rise_ok: "limit_ok b \<Longrightarrow> limit_ok (snd (rise running now b))"
  by (auto simp: limit_ok_def rise_def set_limit_def settings_ok_def Let_def)

text \<open>What one sample does to the limit of a store that is monitored.\<close>

lemma observe_cases:
  assumes "observe health running now b = (rose, b')"
  obtains (silent) "rose = (bl_limit b < bl_ceiling b)"
      "b' = (set_limit (bl_ceiling b) unmonitored b)\<lparr>bl_sampled_at := None\<rparr>"
  | (fell) h b1 reason where "health = Some h" "has_signal h" "b1 = (start_monitoring h now b)\<lparr>bl_sampled_at := Some now\<rparr>"
      "verdict (bl_settings b1) h = (reason, True)" "now \<ge> bl_next_fall b1" "\<not> rose" "b' = fall reason running now b1"
  | (held) h b1 reason where "health = Some h" "has_signal h" "b1 = (start_monitoring h now b)\<lparr>bl_sampled_at := Some now\<rparr>"
      "reason \<noteq> steady" "reason = fst (verdict (bl_settings b1) h)" "\<not> rose" "b' = b1\<lparr>bl_reason := reason\<rparr>"
  | (quiet) h b1 where "health = Some h" "has_signal h" "b1 = (start_monitoring h now b)\<lparr>bl_sampled_at := Some now\<rparr>"
      "verdict (bl_settings b1) h = (steady, False)" "(rose, b') = rise running now b1"
proof (cases "\<exists>h. health = Some h \<and> ps_enabled (bl_settings b) \<and> has_signal h")
  case False
  then show ?thesis using assms silent by (auto simp: observe_def split: option.splits)
next
  case True
  then obtain h where h: "health = Some h" "ps_enabled (bl_settings b)" "has_signal h" by blast
  define b1 where "b1 = (start_monitoring h now b)\<lparr>bl_sampled_at := Some now\<rparr>"
  obtain reason falls where v: "verdict (bl_settings b1) h = (reason, falls)" by fastforce
  have r: "(rose, b') = (if falls \<and> now \<ge> bl_next_fall b1 then (False, fall reason running now b1)
      else if reason \<noteq> steady then (False, b1\<lparr>bl_reason := reason\<rparr>) else rise running now b1)"
    using assms h by (simp add: observe_def b1_def [symmetric] v Let_def)
  consider "falls \<and> now \<ge> bl_next_fall b1" | "\<not> (falls \<and> now \<ge> bl_next_fall b1)" "reason \<noteq> steady"
    | "\<not> (falls \<and> now \<ge> bl_next_fall b1)" "reason = steady" by blast
  then show ?thesis
  proof cases
    case 1
    then show ?thesis using r v by (intro fell [OF h(1,3) b1_def]) simp_all
  next
    case 2
    then show ?thesis using r v by (intro held [OF h(1,3) b1_def, of reason]) (auto split: if_splits)
  next
    case 3
    then show ?thesis using r v verdict_reason(2) [of "bl_settings b1" h falls]
      by (intro quiet [OF h(1,3) b1_def]) simp_all
  qed
qed

lemma limit_ok_sampled [simp]: "limit_ok (b\<lparr>bl_sampled_at := t\<rparr>) = limit_ok b"
  by (simp add: limit_ok_def)

lemma observe_ok:
  assumes "limit_ok b" shows "limit_ok (snd (observe health running now b))"
proof -
  obtain rose b' where o: "observe health running now b = (rose, b')" by fastforce
  from o show ?thesis
  proof (cases rule: observe_cases)
    case silent
    then show ?thesis using assms o by (auto simp: limit_ok_def set_limit_def)
  next
    case (fell h b1 reason)
    then show ?thesis using o start_monitoring_ok [OF assms] verdict_reason(1) [of "bl_settings b1" h]
      by (auto intro!: fall_ok)
  next
    case (held h b1 reason)
    then show ?thesis using o start_monitoring_ok [OF assms, of h now] verdict_reason(1) [of "bl_settings b1" h]
      by (auto simp: limit_ok_def)
  next
    case (quiet h b1)
    then show ?thesis using o start_monitoring_ok [OF assms, of h now] rise_ok [of b1 running now]
      by (cases "rise running now b1") auto
  qed
qed

lemma limit_parts [simp]:
  "bl_ceiling (start_monitoring h now b) = bl_ceiling b" "bl_settings (start_monitoring h now b) = bl_settings b"
  "bl_ceiling (fall r n now b) = bl_ceiling b" "bl_settings (fall r n now b) = bl_settings b"
  "bl_ceiling (snd (rise n now b)) = bl_ceiling b" "bl_settings (snd (rise n now b)) = bl_settings b"
  "bl_ceiling (set_limit m r b) = bl_ceiling b" "bl_settings (set_limit m r b) = bl_settings b"
  by (simp_all add: start_monitoring_def set_limit_def fall_def rise_def Let_def)

lemma observe_keeps: "bl_ceiling (snd (observe health running now b)) = bl_ceiling b"
  "bl_settings (snd (observe health running now b)) = bl_settings b"
proof -
  obtain rose b' where o: "observe health running now b = (rose, b')" by fastforce
  from o have "bl_ceiling b' = bl_ceiling b \<and> bl_settings b' = bl_settings b"
  proof (cases rule: observe_cases)
    case (quiet h b1)
    then have "b' = snd (rise running now b1)" by (metis snd_conv)
    then show ?thesis using quiet(3) by simp
  qed simp_all
  then show "bl_ceiling (snd (observe health running now b)) = bl_ceiling b"
    "bl_settings (snd (observe health running now b)) = bl_settings b" by (simp_all add: o)
qed

lemma observe_all_ok: "limit_ok b \<Longrightarrow> limit_ok (observe_all samples b) \<and> bl_ceiling (observe_all samples b) = bl_ceiling b"
  by (induction samples arbitrary: b) (auto simp: observe_ok observe_keeps)

lemma start_monitoring_le: "limit_ok b \<Longrightarrow> bl_limit (start_monitoring h now b) \<le> bl_limit b"
  by (auto simp: start_monitoring_def limit_ok_def set_limit_def initial_limit_def Let_def)

lemma start_monitoring_same [simp]: "bl_reason b \<noteq> unmonitored \<Longrightarrow> start_monitoring h now b = b"
  by (simp add: start_monitoring_def)

lemma rise_iff:
  assumes "limit_ok b"
  shows "fst (rise running now b) \<longleftrightarrow> bl_limit (snd (rise running now b)) > bl_limit b"
    and "bl_next_rise b > now \<Longrightarrow> \<not> fst (rise running now b)"
    and "\<not> fst (rise running now b) \<Longrightarrow> bl_limit (snd (rise running now b)) = bl_limit b"
  using assms by (auto simp: rise_def set_limit_def limit_ok_def settings_ok_def Let_def)

lemma observe_rose:
  assumes ok: "limit_ok b" and o: "observe health running now b = (rose, b')"
  shows "rose \<longleftrightarrow> bl_limit b' > bl_limit b"
  using o
proof (cases rule: observe_cases)
  case silent
  then show ?thesis using ok by (auto simp: set_limit_def limit_ok_def)
next
  case (fell h b1 reason)
  have "bl_limit b' \<le> bl_limit b1"
    using fell(3,7) start_monitoring_ok [OF ok, of h now] cut_bounds [of "bl_settings b1" "bl_limit b1" running]
    by (simp add: fall_def set_limit_def limit_ok_def Let_def)
  then show ?thesis using fell start_monitoring_le [OF ok, of h now] by simp
next
  case (held h b1 reason)
  then show ?thesis using start_monitoring_le [OF ok, of h now] by simp
next
  case (quiet h b1)
  have ok1: "limit_ok b1" using start_monitoring_ok [OF ok] quiet(3) by simp
  show ?thesis
  proof (cases "bl_reason b = unmonitored")
    case True
    then have "bl_next_rise b1 > now"
      using ok quiet(3) by (simp add: start_monitoring_def limit_ok_def settings_ok_def)
    then have "\<not> rose" "bl_limit b' = bl_limit b1"
      using rise_iff(2) [OF ok1, of now running] rise_iff(3) [OF ok1, of running now] quiet(5)
      by (metis fst_conv snd_conv)+
    then show ?thesis using quiet(3) start_monitoring_le [OF ok, of h now] by simp
  next
    case False
    then have "bl_limit b1 = bl_limit b" using quiet(3) by simp
    then show ?thesis using rise_iff(1) [OF ok1, of running now] quiet(5) by (metis fst_conv snd_conv)
  qed
qed

text \<open>
  C22. The build limit of a store is between one and its build slots after any samples at any times, and
  \<open>observe\<close> answers true exactly when it raised the limit, which is when the scheduler is woken.
\<close>

theorem build_limit_bounds:
  assumes "settings_ok s" "slots \<ge> 1" and b_def: "b = observe_all samples (new_limit slots s)"
  shows "1 \<le> bl_limit b \<and> bl_limit b \<le> slots \<and>
     (fst (observe health running now b) \<longleftrightarrow> bl_limit (snd (observe health running now b)) > bl_limit b)"
proof -
  have "limit_ok (new_limit slots s)" using assms(1,2) by (simp add: limit_ok_def new_limit_def)
  then have ok: "limit_ok b \<and> bl_ceiling b = slots"
    using observe_all_ok [of "new_limit slots s" samples] by (simp add: b_def new_limit_def)
  then show ?thesis using observe_rose [of b health running now] by (cases "observe health running now b") (auto simp: limit_ok_def)
qed

definition quiet_host :: SystemHealth where
  "quiet_host = \<lparr>sh_psi = None, sh_meminfo = Some \<lparr>mem_total = 64000000, mem_available = 60000000\<rparr>, sh_cpu_util = None,
     sh_cores = Some 4, sh_load1 = Some 1, sh_disk = None\<rparr>"

definition starved_host :: SystemHealth where
  "starved_host = quiet_host\<lparr>sh_meminfo := Some \<lparr>mem_total = 64000000, mem_available = 1000\<rparr>\<rparr>"

theorem build_limit_bounds_witness:
  "settings_ok default_pressure \<and>
   1 \<le> bl_limit (observe_all [(Some quiet_host, 4, 0), (Some quiet_host, 4, 10)] (new_limit 48 default_pressure)) \<and>
   bl_limit (observe_all [(Some quiet_host, 4, 0), (Some quiet_host, 4, 10)] (new_limit 48 default_pressure)) = 8 \<and>
   fst (observe (Some quiet_host) 8 20 (observe_all [(Some quiet_host, 4, 0), (Some quiet_host, 4, 10)] (new_limit 48 default_pressure)))"
proof -
  have s: "settings_ok default_pressure" by (simp add: settings_ok_def default_pressure_def)
  have "bl_limit (observe_all [(Some quiet_host, 4, 0), (Some quiet_host, 4, 10)] (new_limit 48 default_pressure)) = 8"
    "bl_limit (snd (observe (Some quiet_host) 8 20 (observe_all [(Some quiet_host, 4, 0), (Some quiet_host, 4, 10)]
       (new_limit 48 default_pressure)))) = 16" by code_simp+
  then show ?thesis
    using build_limit_bounds [OF s _ refl, of 48 "[(Some quiet_host, 4, 0), (Some quiet_host, 4, 10)]" "Some quiet_host" 8 20] s
    by simp
qed

section \<open>The settle time\<close>

lemma after_fall:
  assumes "t \<le> now" "now < t + ps_settle (bl_settings b)" "has_signal h" "ps_enabled (bl_settings b)"
    "bl_reason (fall reason n t b) \<noteq> unmonitored"
  shows "bl_limit (snd (observe (Some h) running now (fall reason n t b))) = bl_limit (fall reason n t b)"
  using assms by (auto simp: observe_def fall_def rise_def set_limit_def Let_def split: prod.splits)

text \<open>
  The text of the setting \<open>settle\<close> promises its seconds after a change before the next one. A rise
  sets only the time of the next rise, so a fall may follow it at the next sample.
\<close>

lemma fall_soon_after_rise:
  "let b1 = observe_all [(Some quiet_host, 4, 0)] (new_limit 48 default_pressure);
       (rose, b2) = observe (Some quiet_host) 4 10 b1;
       b3 = snd (observe (Some starved_host) 8 12 b2)
   in rose \<and> bl_limit b2 = 8 \<and> bl_limit b3 = 4 \<and> 12 < 10 + ps_settle default_pressure"
  by code_simp

section \<open>A calm host whose limit is in use gets all of its slots\<close>

definition calm :: "PressureSettings \<Rightarrow> SystemHealth \<Rightarrow> bool" where
  "calm s h \<longleftrightarrow> ps_enabled s \<and> has_signal h \<and> verdict s h = (steady, False)"

primrec spaced :: "seconds \<Rightarrow> seconds \<Rightarrow> (SystemHealth option \<times> int \<times> seconds) list \<Rightarrow> bool" where
  "spaced gap t [] \<longleftrightarrow> True"
| "spaced gap t (s # ss) \<longleftrightarrow> t \<le> snd (snd s) \<and> spaced gap (snd (snd s) + gap) ss"

text \<open>At each sample as many builds run as the limit of that moment lets start.\<close>

primrec kept_busy :: "(SystemHealth option \<times> int \<times> seconds) list \<Rightarrow> BuildLimit \<Rightarrow> bool" where
  "kept_busy [] b \<longleftrightarrow> True"
| "kept_busy (s # ss) b \<longleftrightarrow> fst (snd s) = bl_limit b \<and> kept_busy ss (snd (observe (fst s) (fst (snd s)) (snd (snd s)) b))"

lemma observe_calm:
  assumes "limit_ok b" "bl_reason b \<noteq> unmonitored" "calm (bl_settings b) h" "running = bl_limit b" "bl_next_rise b \<le> now"
  defines "b' \<equiv> snd (observe (Some h) running now b)"
  shows "bl_limit b' \<ge> min (bl_ceiling b) (bl_limit b + 1) \<and> bl_reason b' \<noteq> unmonitored \<and>
     bl_next_rise b' \<le> now + ps_settle (bl_settings b)"
  using assms(1-5) unfolding b'_def
  by (auto simp: calm_def observe_def rise_def set_limit_def limit_ok_def settings_ok_def Let_def)

text \<open>
  C23. Slots of a calm host come back: while the store runs as many builds as its limit of the moment
  lets it and no signal is past a mark, each sample a settle time after the last one adds at least one
  slot, until the limit is the ceiling.
\<close>

theorem calm_host_reaches_ceiling:
  assumes "limit_ok b" "bl_reason b \<noteq> unmonitored" "spaced (ps_settle (bl_settings b)) (bl_next_rise b) samples"
    and "\<forall>s \<in> set samples. \<exists>h. fst s = Some h \<and> calm (bl_settings b) h" and "kept_busy samples b"
  shows "bl_limit (observe_all samples b) \<ge> min (bl_ceiling b) (bl_limit b + int (length samples))"
  using assms
proof (induction samples arbitrary: b)
  case (Cons s samples)
  obtain h running now where s: "s = (Some h, running, now)" "calm (bl_settings b) h" "running = bl_limit b"
    using Cons.prems(4,5) by (cases s) auto
  let ?b = "snd (observe (Some h) running now b)"
  have now: "bl_next_rise b \<le> now" and rest: "spaced (ps_settle (bl_settings b)) (now + ps_settle (bl_settings b)) samples"
    using Cons.prems(3) s(1) by simp_all
  have b: "bl_limit ?b \<ge> min (bl_ceiling b) (bl_limit b + 1)" "bl_reason ?b \<noteq> unmonitored"
      "bl_next_rise ?b \<le> now + ps_settle (bl_settings b)"
    using observe_calm [OF Cons.prems(1,2) s(2,3) now] by simp_all
  have busy: "kept_busy samples ?b" using Cons.prems(5) s(1) by auto
  have "spaced (ps_settle (bl_settings b)) (bl_next_rise ?b) samples"
    using rest b(3) by (cases samples) auto
  then have "bl_limit (observe_all samples ?b) \<ge> min (bl_ceiling b) (bl_limit ?b + int (length samples))"
    using Cons.IH [of ?b] observe_ok [OF Cons.prems(1)] b(2) Cons.prems(4) busy by (simp add: observe_keeps)
  then show ?case using b(1) by (simp add: s(1)) 
qed (simp add: limit_ok_def)

theorem calm_host_reaches_ceiling_witness:
  "let b = observe_all [(Some quiet_host, 4, 0)] (new_limit 6 default_pressure);
       samples = [(Some quiet_host, 4, 10), (Some quiet_host, 6, 20)]
   in limit_ok b \<and> bl_limit b = 4 \<and> bl_limit (observe_all samples b) \<ge> min (bl_ceiling b) (bl_limit b + int (length samples))"
proof -
  let ?b = "observe_all [(Some quiet_host, 4, 0)] (new_limit 6 default_pressure)"
  let ?samples = "[(Some quiet_host, 4, 10), (Some quiet_host, 6, 20)] :: (SystemHealth option \<times> int \<times> seconds) list"
  have "limit_ok (new_limit 6 default_pressure)"
    by (simp add: limit_ok_def new_limit_def settings_ok_def default_pressure_def)
  then have ok: "limit_ok ?b" using observe_all_ok by blast
  have e: "bl_limit ?b = 4" "bl_ceiling ?b = 6" "bl_next_rise ?b = 10" "bl_reason ?b = slow_start" by code_simp+
  have st: "bl_settings ?b = default_pressure" by (simp add: observe_keeps new_limit_def)
  have c: "calm default_pressure quiet_host" "kept_busy ?samples ?b" by code_simp+
  have "spaced (ps_settle (bl_settings ?b)) (bl_next_rise ?b) ?samples"
    unfolding st e(3) by (simp add: default_pressure_def)
  then have "bl_limit (observe_all ?samples ?b) \<ge> min (bl_ceiling ?b) (bl_limit ?b + int (length ?samples))"
    using c st e by (intro calm_host_reaches_ceiling [OF ok]) (auto simp del: observe_all.simps)
  then show ?thesis using ok e by (simp del: observe_all.simps)
qed

end
