(* ===== verification/Allocator.thy ===== *)
theory Allocator
  imports Queued_Build Pressure
begin

text \<open>
  Which stores can take a build and in which order (\<open>pynixd/allocator.py\<close>), with what a store says
  of itself (\<open>DaemonStore\<close> of \<open>pynixd/store/daemon.py\<close>: its systems and features, its circuit breaker,
  its build slots). Clock readings and random draws are arguments. Floats are exact rationals.
\<close>

section \<open>A store\<close>

record DaemonStore =
  ds_store_id :: string
  ds_priority :: rat
  ds_score_penalty :: int
  ds_last_resort :: bool
  ds_no_schedule :: bool
  ds_feature_matrix :: "(string \<times> string list) list option"
  ds_build_limit :: BuildLimit
  ds_monitor :: "SystemHealth option"
  ds_consecutive_failures :: nat
  ds_cooldown_until :: seconds
  ds_disk_full_until :: seconds
  ds_draining :: bool

definition pool_sizes :: "int option \<Rightarrow> int option \<Rightarrow> int \<Rightarrow> int \<Rightarrow> int \<times> int" where
  "pool_sizes max_connections transfer_connections MAX_CONNECTIONS TRANSFER_CONNECTIONS =
     (let or_else = (\<lambda>x d. case x of Some n \<Rightarrow> if n = (0 :: int) then d else n | None \<Rightarrow> d);
          slots = max 2 (or_else max_connections MAX_CONNECTIONS);
          wanted = or_else transfer_connections (or_else (Some TRANSFER_CONNECTIONS) (max 2 (slots div 4)));
          transfer = max 1 (min wanted (slots - 1))
      in (slots - transfer, transfer))"

definition supports_derivation :: "DaemonStore \<Rightarrow> string \<Rightarrow> string list \<Rightarrow> bool" where
  "supports_derivation store system features =
     (case ds_feature_matrix store of
        Some fm \<Rightarrow>
          (let sys_features =
                 (case map_of fm system of
                    Some fs \<Rightarrow> Some fs
                  | None \<Rightarrow> if system = BUILTIN_SYSTEM \<and> fm \<noteq> [] then Some (concat (map snd fm)) else None)
           in case sys_features of
                None \<Rightarrow> False
              | Some fs \<Rightarrow> features = [] \<or> set features \<subseteq> set fs)
      | None \<Rightarrow> features = [] \<or> set features \<inter> {''kvm'', ''apple-virt''} = {})"

definition is_healthy :: "seconds \<Rightarrow> DaemonStore \<Rightarrow> bool" where
  "is_healthy now store \<longleftrightarrow> now \<ge> ds_cooldown_until store"

definition record_success :: "DaemonStore \<Rightarrow> DaemonStore" where
  "record_success store = store\<lparr>ds_consecutive_failures := 0, ds_cooldown_until := 0\<rparr>"

definition CB_THRESHOLD :: nat where "CB_THRESHOLD = 3"
definition CB_MAX_COOLDOWN :: seconds where "CB_MAX_COOLDOWN = 300"

definition record_failure :: "seconds \<Rightarrow> DaemonStore \<Rightarrow> DaemonStore" where
  "record_failure now store =
     (let n = ds_consecutive_failures store + 1;
          s1 = store\<lparr>ds_consecutive_failures := n\<rparr>
      in if n \<ge> CB_THRESHOLD
         then s1\<lparr>ds_cooldown_until := now + min (30 * 2 ^ (n - CB_THRESHOLD)) CB_MAX_COOLDOWN\<rparr>
         else s1)"

section \<open>The score\<close>

datatype NoLocalJobs = remote_only | remote_first | one_slot

record StoreRankingSettings =
  rs_cpu_idle_weight :: rat
  rs_cpu_pressure_penalty :: rat
  rs_io_pressure_penalty :: rat
  rs_concurrency_penalty :: rat
  rs_thundering_herd_penalty :: rat
  rs_remote_setup_seconds :: seconds
  rs_transfer_penalty_per_second :: rat
  rs_time_penalty_per_second :: "rat option"
  rs_cpu_reference_seconds :: "seconds option"
  rs_per_core_load :: bool
  rs_local_wins_ties :: bool
  rs_explore_share :: rat
  rs_prefer_local_weight :: rat
  rs_unmonitored_penalty :: rat
  rs_min_free_bytes :: int
  rs_disk_full_hold_seconds :: seconds
  rs_no_local_jobs :: NoLocalJobs
  rs_min_schedule_score :: rat

definition default_ranking :: StoreRankingSettings where
  "default_ranking =
     \<lparr>rs_cpu_idle_weight = 100, rs_cpu_pressure_penalty = 50, rs_io_pressure_penalty = 50,
      rs_concurrency_penalty = 50, rs_thundering_herd_penalty = 100, rs_remote_setup_seconds = 1,
      rs_transfer_penalty_per_second = 10, rs_time_penalty_per_second = None, rs_cpu_reference_seconds = None,
      rs_per_core_load = False, rs_local_wins_ties = False, rs_explore_share = 0, rs_prefer_local_weight = 10,
      rs_unmonitored_penalty = 1000, rs_min_free_bytes = 2 * 1024 ^ 3, rs_disk_full_hold_seconds = 600,
      rs_no_local_jobs = remote_only, rs_min_schedule_score = 0\<rparr>"

record ScoreBreakdown =
  sb_cpu_utilization :: "rat option"
  sb_cpu_idle_points :: rat
  sb_cpu_psi :: "rat option"
  sb_cpu_psi_points :: rat
  sb_io_psi :: "rat option"
  sb_io_psi_points :: rat
  sb_unmonitored_points :: rat
  sb_in_flight :: int
  sb_concurrency_points :: rat
  sb_assigned_this_pass :: int
  sb_herd_points :: rat
  sb_score_penalty :: rat
  sb_load_score :: rat
  sb_threshold :: rat
  sb_passed :: bool
  sb_transfer_seconds :: "seconds option"
  sb_transfer_points :: rat
  sb_priority :: rat
  sb_final_score :: rat
  sb_cpu_scale :: rat

definition cpu_of :: "DaemonStore \<Rightarrow> rat option" where
  "cpu_of store = (case ds_monitor store of Some h \<Rightarrow> map_option cu_utilization (sh_cpu_util h) | None \<Rightarrow> None)"

definition psi_of :: "DaemonStore \<Rightarrow> PsiSnapshot option" where
  "psi_of store = (case ds_monitor store of Some h \<Rightarrow> sh_psi h | None \<Rightarrow> None)"

definition cores_of :: "DaemonStore \<Rightarrow> rat option" where
  "cores_of store = (case ds_monitor store of Some h \<Rightarrow> nonzero (sh_cores h) | None \<Rightarrow> None)"

definition monitored :: "DaemonStore \<Rightarrow> bool" where
  "monitored store \<longleftrightarrow> cpu_of store \<noteq> None \<or> psi_of store \<noteq> None"

text \<open>The points of a number of builds: by the cores of the host, or at a fixed price each.\<close>

definition load_points :: "StoreRankingSettings \<Rightarrow> DaemonStore \<Rightarrow> int \<Rightarrow> rat \<Rightarrow> rat" where
  "load_points s store n price =
     (case (rs_per_core_load s, cores_of store) of
        (True, Some c) \<Rightarrow> - of_int n / c * rs_cpu_idle_weight s
      | _ \<Rightarrow> - of_int n * price)"

definition time_cost :: "StoreRankingSettings \<Rightarrow> seconds option \<Rightarrow> seconds option \<Rightarrow> seconds option \<times> rat" where
  "time_cost s transfer expected =
     (case (rs_time_penalty_per_second s, expected) of
        (Some price, Some e) \<Rightarrow> (Some e, - e * price)
      | _ \<Rightarrow> (transfer, - (case transfer of Some t \<Rightarrow> t | None \<Rightarrow> 0) * rs_transfer_penalty_per_second s))"

definition score_store ::
    "DaemonStore \<Rightarrow> StoreRankingSettings \<Rightarrow> int \<Rightarrow> int \<Rightarrow> seconds option \<Rightarrow> seconds option \<Rightarrow> seconds option \<Rightarrow> ScoreBreakdown" where
  "score_store store s in_flight assigned_this_pass transfer expected_seconds expected_build_seconds =
     (let cpu = cpu_of store;
          cpu_idle_points = (case cpu of Some c \<Rightarrow> (1 - c / 100) * rs_cpu_idle_weight s | None \<Rightarrow> 0);
          cpu_psi = map_option (\<lambda>p. pm_some_avg10 (psi_cpu p)) (psi_of store);
          io_psi = map_option (\<lambda>p. pm_some_avg10 (psi_io p)) (psi_of store);
          cpu_psi_points = (case cpu_psi of Some p \<Rightarrow> - p / 100 * rs_cpu_pressure_penalty s | None \<Rightarrow> 0);
          io_psi_points = (case io_psi of Some p \<Rightarrow> - p / 100 * rs_io_pressure_penalty s | None \<Rightarrow> 0);
          unmonitored_points = (if monitored store then 0 else - rs_unmonitored_penalty s);
          concurrency_points = load_points s store in_flight (rs_concurrency_penalty s);
          herd_points = load_points s store assigned_this_pass (rs_thundering_herd_penalty s);
          load_score = cpu_idle_points + cpu_psi_points + io_psi_points + unmonitored_points +
            concurrency_points + herd_points - of_int (ds_score_penalty store);
          (cost_seconds, cost_points) = time_cost s transfer expected_seconds;
          cpu_scale = (case (nonzero (rs_cpu_reference_seconds s), expected_build_seconds) of
                         (Some reference, Some e) \<Rightarrow> min 1 (e / reference)
                       | _ \<Rightarrow> 1);
          ordered_load = load_score - (1 - cpu_scale) * (cpu_idle_points + cpu_psi_points + herd_points)
      in \<lparr>sb_cpu_utilization = cpu, sb_cpu_idle_points = cpu_idle_points, sb_cpu_psi = cpu_psi,
          sb_cpu_psi_points = cpu_psi_points, sb_io_psi = io_psi, sb_io_psi_points = io_psi_points,
          sb_unmonitored_points = unmonitored_points, sb_in_flight = in_flight,
          sb_concurrency_points = concurrency_points, sb_assigned_this_pass = assigned_this_pass,
          sb_herd_points = herd_points, sb_score_penalty = of_int (ds_score_penalty store),
          sb_load_score = load_score, sb_threshold = rs_min_schedule_score s,
          sb_passed = (load_score \<ge> rs_min_schedule_score s \<or> \<not> monitored store),
          sb_transfer_seconds = cost_seconds, sb_transfer_points = cost_points, sb_priority = ds_priority store,
          sb_final_score = (ordered_load + cost_points) * ds_priority store, sb_cpu_scale = cpu_scale\<rparr>)"

section \<open>Ranked stores\<close>

record RankedStore =
  rk_store_id :: string
  rk_score :: rat
  rk_store :: DaemonStore
  rk_breakdown :: "ScoreBreakdown option"

record ExcludedStore =
  ex_store_id :: string
  ex_reason :: string
  ex_breakdown :: "ScoreBreakdown option"

text \<open>\<open>RankedStores\<close>: the ranked stores, and the ones that the ranking left out.\<close>

type_synonym RankedStores = "RankedStore list \<times> ExcludedStore list"

text \<open>\<open>sorted(..., reverse=True)\<close> keeps the order of equal keys, as sorting by the negated key does.\<close>

definition sort_ranked :: "RankedStore list \<Rightarrow> RankedStore list" where
  "sort_ranked stores = sort_key (\<lambda>s. - rk_score s) stores"

type_synonym 'a store_dict = "(string \<times> 'a) list"

definition count_at :: "int store_dict \<Rightarrow> string \<Rightarrow> int" where
  "count_at d store_id = (case map_of d store_id of Some n \<Rightarrow> n | None \<Rightarrow> 0)"

record rank_args =
  ra_assigned_this_pass :: "int store_dict"
  ra_running_builds :: "int store_dict"
  ra_transfer_seconds :: "seconds store_dict"
  ra_estimates :: "StoreEstimate store_dict"
  ra_expected_build_seconds :: "seconds option"

text \<open>The terms of one store in \<open>TelemetryStoreRanker.rank_stores\<close>.\<close>

definition terms_of :: "StoreRankingSettings \<Rightarrow> rank_args \<Rightarrow> DaemonStore \<Rightarrow> ScoreBreakdown" where
  "terms_of s a store =
     score_store store s (count_at (ra_running_builds a) (ds_store_id store))
       (count_at (ra_assigned_this_pass a) (ds_store_id store))
       (map_of (ra_transfer_seconds a) (ds_store_id store))
       (case map_of (ra_estimates a) (ds_store_id store) of Some e \<Rightarrow> total_seconds e None | None \<Rightarrow> None)
       (ra_expected_build_seconds a)"

definition telemetry_rank :: "StoreRankingSettings \<Rightarrow> DaemonStore list \<Rightarrow> rank_args \<Rightarrow> RankedStores" where
  "telemetry_rank s stores a =
     (sort_ranked (map (\<lambda>store. \<lparr>rk_store_id = ds_store_id store, rk_score = sb_final_score (terms_of s a store),
          rk_store = store, rk_breakdown = Some (terms_of s a store)\<rparr>)
        (filter (\<lambda>store. sb_passed (terms_of s a store)) stores)),
      map (\<lambda>store. \<lparr>ex_store_id = ds_store_id store, ex_reason = ''score under min_schedule_score'',
          ex_breakdown = Some (terms_of s a store)\<rparr>)
        (filter (\<lambda>store. \<not> sb_passed (terms_of s a store)) stores))"

section \<open>The choice\<close>

record PreferLocal =
  pl_wait_seconds :: "seconds option"
  pl_transfer_seconds :: "seconds store_dict"
  pl_weight :: rat

definition usable :: "RankedStore list \<Rightarrow> string \<Rightarrow> bool \<Rightarrow> RankedStore list" where
  "usable ranked local_id local_slot_full = filter (\<lambda>c. rk_store_id c \<noteq> local_id \<or> \<not> local_slot_full) ranked"

definition pick_store :: "RankedStore list \<Rightarrow> string \<Rightarrow> bool \<Rightarrow> PreferLocal option \<Rightarrow> RankedStore option" where
  "pick_store ranked local_id local_slot_full prefer_local =
     (let us = usable ranked local_id local_slot_full in
      case prefer_local of
        None \<Rightarrow> (case us of [] \<Rightarrow> None | c # _ \<Rightarrow> Some c)
      | Some pl \<Rightarrow>
          (case find (\<lambda>c. rk_store_id c = local_id) us of
             Some c \<Rightarrow> Some c
           | None \<Rightarrow>
               (case find (\<lambda>c. rk_store_id c \<noteq> local_id) us of
                  None \<Rightarrow> None
                | Some remote \<Rightarrow>
                    (case (map_of (pl_transfer_seconds pl) (rk_store_id remote), pl_wait_seconds pl) of
                       (Some remote_seconds, Some wait) \<Rightarrow>
                         if wait > remote_seconds * pl_weight pl then Some remote else None
                     | _ \<Rightarrow> None))))"

definition explore_store ::
    "RankedStore list \<Rightarrow> RankedStore \<Rightarrow> string \<Rightarrow> bool \<Rightarrow> rat \<Rightarrow> rat \<Rightarrow> rat \<Rightarrow> RankedStore option" where
  "explore_store ranked chosen local_id local_slot_full share draw pick =
     (if draw \<ge> share then None
      else let others = filter (\<lambda>c. rk_store_id c \<noteq> rk_store_id chosen \<and> (rk_store_id c \<noteq> local_id \<or> \<not> local_slot_full)) ranked
           in if others = [] then None
              else Some (others ! nat (py_int (pick * of_nat (length others)))))"

section \<open>Disk and memory\<close>

definition short_of_disk :: "DaemonStore \<Rightarrow> StoreRankingSettings \<Rightarrow> seconds \<Rightarrow> bool" where
  "short_of_disk store s now =
     (case (case ds_monitor store of Some h \<Rightarrow> sh_disk h | None \<Rightarrow> None) of
        Some disk \<Rightarrow> disk_free_bytes disk < rs_min_free_bytes s
      | None \<Rightarrow> now < ds_disk_full_until store)"

definition MIB :: int where "MIB = 1024 * 1024"

definition memory_room :: "DaemonStore \<Rightarrow> int \<Rightarrow> int option" where
  "memory_room store reserved_bytes =
     (case ds_monitor store of
        Some h \<Rightarrow> map_option (\<lambda>m. mem_available m * 1024 - reserved_bytes) (known_memory h)
      | None \<Rightarrow> None)"

definition peak_of :: "QueuedBuild \<Rightarrow> int" where
  "peak_of b = (case qb_expected_peak_bytes b of Some n \<Rightarrow> n | None \<Rightarrow> 0)"

fun reserved_memory :: "QueuedBuild list \<Rightarrow> int store_dict \<Rightarrow> int store_dict" where
  "reserved_memory [] reserved = reserved"
| "reserved_memory (b # bs) reserved =
     (case qb_assigned_store_id b of
        Some store_id \<Rightarrow>
          if is_building b \<and> peak_of b \<noteq> 0
          then reserved_memory bs (dict_set store_id (count_at reserved store_id + peak_of b) reserved)
          else reserved_memory bs reserved
      | None \<Rightarrow> reserved_memory bs reserved)"

record MemoryFit =
  mf_stores :: "RankedStore list"
  mf_short :: "string store_dict"
  mf_reason :: "string option"

definition mib :: "int option \<Rightarrow> int" where
  "mib count = (case count of Some n \<Rightarrow> n | None \<Rightarrow> 0) div MIB"

definition room_of :: "int store_dict \<Rightarrow> RankedStore \<Rightarrow> int option" where
  "room_of reserved c = memory_room (rk_store c) (count_at reserved (rk_store_id c))"

definition fits_in :: "int store_dict \<Rightarrow> int \<Rightarrow> RankedStore \<Rightarrow> bool" where
  "fits_in reserved peak c \<longleftrightarrow> (case room_of reserved c of None \<Rightarrow> True | Some free \<Rightarrow> free \<ge> peak)"

definition fit_memory :: "RankedStore list \<Rightarrow> int option \<Rightarrow> int store_dict \<Rightarrow> MemoryFit" where
  "fit_memory ranked expected_peak_bytes reserved =
     (case expected_peak_bytes of
        None \<Rightarrow> \<lparr>mf_stores = ranked, mf_short = [], mf_reason = None\<rparr>
      | Some peak \<Rightarrow>
          if peak = 0 then \<lparr>mf_stores = ranked, mf_short = [], mf_reason = None\<rparr>
          else let fits = filter (fits_in reserved peak) ranked in
            if fits \<noteq> []
            then \<lparr>mf_stores = fits,
                  mf_short = map (\<lambda>c. (rk_store_id c, int_text (mib (room_of reserved c)) @
                      '' MiB free for an expected peak of '' @ int_text (mib (Some peak)) @ '' MiB''))
                    (filter (\<lambda>c. c \<notin> set fits) ranked),
                  mf_reason = None\<rparr>
            else \<lparr>mf_stores = sort_key (\<lambda>c. - (case room_of reserved c of Some n \<Rightarrow> n | None \<Rightarrow> 0)) ranked,
                  mf_short = [],
                  mf_reason = Some (''no candidate has memory for an expected peak of '' @ int_text (mib (Some peak)) @
                    '' MiB; the most room goes first'')\<rparr>)"

section \<open>The allocator\<close>

definition incapable_reason :: "seconds \<Rightarrow> DaemonStore \<Rightarrow> QueuedBuild \<Rightarrow> string list \<Rightarrow> string option" where
  "incapable_reason now store build features =
     (if \<not> is_healthy now store then Some ''unhealthy''
      else if ds_draining store then Some ''draining''
      else if ds_no_schedule store then Some ''no_schedule''
      else if \<not> supports_derivation store (bd_platform (rq_derivation (qb_request build))) features
        then Some ''lacks the system or a required feature''
      else if is_blacklisted build (ds_store_id store) then Some ''failed this build too often''
      else None)"

record BuildAllocator =
  al_stores :: "DaemonStore store_dict"
  al_local_store :: DaemonStore
  al_settings :: StoreRankingSettings

definition add_store :: "DaemonStore \<Rightarrow> BuildAllocator \<Rightarrow> BuildAllocator" where
  "add_store store a = a\<lparr>al_stores := dict_set (ds_store_id store) store (al_stores a)\<rparr>"

definition discard_store :: "string \<Rightarrow> BuildAllocator \<Rightarrow> BuildAllocator" where
  "discard_store store_id a = a\<lparr>al_stores := dict_pop store_id (al_stores a)\<rparr>"

definition candidate_order :: "BuildAllocator \<Rightarrow> DaemonStore list" where
  "candidate_order a =
     (let remotes = map snd (filter (\<lambda>(store_id, _). store_id \<noteq> ds_store_id (al_local_store a)) (al_stores a))
      in if rs_local_wins_ties (al_settings a) then al_local_store a # remotes else remotes @ [al_local_store a])"

definition excluded_for :: "string \<Rightarrow> DaemonStore \<Rightarrow> ExcludedStore" where
  "excluded_for reason store = \<lparr>ex_store_id = ds_store_id store, ex_reason = reason, ex_breakdown = None\<rparr>"

text \<open>The candidates of \<open>rank_stores\<close> after each of its three filters, with what each one left out.\<close>

definition capable_stores :: "seconds \<Rightarrow> BuildAllocator \<Rightarrow> QueuedBuild \<Rightarrow> DaemonStore list \<times> ExcludedStore list" where
  "capable_stores now a build =
     (let features = effective_required_features (rq_derivation (qb_request build));
          order = candidate_order a
      in (filter (\<lambda>store. incapable_reason now store build features = None) order,
          concat (map (\<lambda>store. case incapable_reason now store build features of
              Some reason \<Rightarrow> [excluded_for reason store] | None \<Rightarrow> []) order)))"

definition without_last_resort :: "DaemonStore list \<times> ExcludedStore list \<Rightarrow> DaemonStore list \<times> ExcludedStore list" where
  "without_last_resort ce =
     (case ce of (capable, excluded) \<Rightarrow>
        if \<exists>store \<in> set capable. \<not> ds_last_resort store
        then (filter (\<lambda>store. \<not> ds_last_resort store) capable,
              excluded @ map (excluded_for ''last resort, and another store can build it'') (filter ds_last_resort capable))
        else ce)"

definition with_disk :: "StoreRankingSettings \<Rightarrow> seconds \<Rightarrow> DaemonStore list \<times> ExcludedStore list \<Rightarrow> DaemonStore list \<times> ExcludedStore list" where
  "with_disk s now ce =
     (case ce of (capable, excluded) \<Rightarrow>
        (filter (\<lambda>store. \<not> short_of_disk store s now) capable,
         excluded @ map (excluded_for ''short of disk'') (filter (\<lambda>store. short_of_disk store s now) capable)))"

definition rank_stores :: "seconds \<Rightarrow> BuildAllocator \<Rightarrow> QueuedBuild \<Rightarrow> rank_args \<Rightarrow> RankedStores" where
  "rank_stores now a build ra =
     (let (candidates, excluded) = with_disk (al_settings a) now (without_last_resort (capable_stores now a build));
          (ranked, under) = telemetry_rank (al_settings a) candidates ra
      in (ranked, excluded @ under))"

text \<open>A store without a monitor, on which the theorems below are tried.\<close>

definition sample_store :: "string \<Rightarrow> DaemonStore" where
  "sample_store store_id =
     \<lparr>ds_store_id = store_id, ds_priority = 1, ds_score_penalty = 0, ds_last_resort = False, ds_no_schedule = False,
      ds_feature_matrix = Some [(''x86_64-linux'', [])], ds_build_limit = new_limit 2 default_pressure,
      ds_monitor = None, ds_consecutive_failures = 0, ds_cooldown_until = 0, ds_disk_full_until = 0, ds_draining = False\<rparr>"

definition sample_ranked :: "string \<Rightarrow> RankedStore" where
  "sample_ranked store_id = \<lparr>rk_store_id = store_id, rk_score = 0, rk_store = sample_store store_id, rk_breakdown = None\<rparr>"

section \<open>What the score may decide\<close>

text \<open>
  The expected cost of a build orders the stores and never drops one: whether a store passes depends
  on its load alone, and a store that nothing monitors always passes.
\<close>

lemma passed_iff:
  "sb_passed (score_store store s n k transfer expected build_s) \<longleftrightarrow>
     sb_load_score (score_store store s n k transfer expected build_s) \<ge> rs_min_schedule_score s \<or> \<not> monitored store"
  by (simp add: score_store_def Let_def split: prod.splits)

lemma load_score_cost_free:
  "sb_load_score (score_store store s n k transfer expected build_s) = sb_load_score (score_store store s n k None None None)"
  by (simp add: score_store_def Let_def split: prod.splits)

lemma load_points_mono:
  assumes "rs_cpu_idle_weight s \<ge> 0" "price \<ge> 0" "\<forall>c. cores_of store = Some c \<longrightarrow> c > 0" "n \<le> m"
  shows "load_points s store m price \<le> load_points s store n price"
proof (cases "rs_per_core_load s \<and> cores_of store \<noteq> None")
  case True
  then obtain c where c: "cores_of store = Some c" "c > 0" using assms(3) by auto
  have "(of_int n :: rat) \<le> of_int m" using assms(4) by simp
  then have "of_int n / c * rs_cpu_idle_weight s \<le> of_int m / c * rs_cpu_idle_weight s"
    using c(2) assms(1) by (intro mult_right_mono divide_right_mono) auto
  then show ?thesis using True c by (simp add: load_points_def)
next
  case False
  have "of_int n * price \<le> of_int m * price" using assms(2,4) by (intro mult_right_mono) auto
  then show ?thesis using False by (auto simp: load_points_def split: option.splits bool.splits)
qed

text \<open>More running builds, or more builds of this pass, never turn a refusal into a pass.\<close>

lemma passed_antimono:
  assumes "rs_cpu_idle_weight s \<ge> 0" "rs_concurrency_penalty s \<ge> 0" "rs_thundering_herd_penalty s \<ge> 0"
    "\<forall>c. cores_of store = Some c \<longrightarrow> c > 0" "n \<le> m" "k \<le> l"
    "sb_passed (score_store store s m l t e b)"
  shows "sb_passed (score_store store s n k t' e' b')"
proof -
  have "sb_load_score (score_store store s m l t e b) \<le> sb_load_score (score_store store s n k t' e' b')"
    using load_points_mono [OF assms(1,2,4,5)] load_points_mono [OF assms(1,3,4,6)]
    unfolding load_score_cost_free [of store s m l t e b] load_score_cost_free [of store s n k t' e' b']
    by (simp add: score_store_def Let_def split: prod.splits)
  then show ?thesis using assms(7) unfolding passed_iff by auto
qed

section \<open>The ranking\<close>

lemma set_sort_ranked [simp]: "set (sort_ranked xs) = set xs"
  by (simp add: sort_ranked_def)

lemma sort_ranked_sorted: "sorted (map (\<lambda>c. - rk_score c) (sort_ranked xs))"
  by (simp add: sort_ranked_def)

lemma sort_ranked_stable:
  "filter (\<lambda>c. rk_score c = x) (sort_ranked xs) = filter (\<lambda>c. rk_score c = x) xs"
  using sort_key_stable [of "\<lambda>c. - rk_score c" "- x" xs] by (simp add: sort_ranked_def)

definition ranked_of :: "StoreRankingSettings \<Rightarrow> rank_args \<Rightarrow> DaemonStore \<Rightarrow> RankedStore" where
  "ranked_of s ra store = \<lparr>rk_store_id = ds_store_id store, rk_score = sb_final_score (terms_of s ra store),
     rk_store = store, rk_breakdown = Some (terms_of s ra store)\<rparr>"

text \<open>When a store is a candidate of a build.\<close>

definition can_take :: "seconds \<Rightarrow> BuildAllocator \<Rightarrow> QueuedBuild \<Rightarrow> DaemonStore \<Rightarrow> bool" where
  "can_take now a build store \<longleftrightarrow>
     incapable_reason now store build (effective_required_features (rq_derivation (qb_request build))) = None"

definition is_candidate :: "seconds \<Rightarrow> BuildAllocator \<Rightarrow> QueuedBuild \<Rightarrow> rank_args \<Rightarrow> DaemonStore \<Rightarrow> bool" where
  "is_candidate now a build ra store \<longleftrightarrow>
     can_take now a build store \<and>
     (ds_last_resort store \<longrightarrow> (\<forall>other \<in> set (candidate_order a). can_take now a build other \<longrightarrow> ds_last_resort other)) \<and>
     \<not> short_of_disk store (al_settings a) now \<and> sb_passed (terms_of (al_settings a) ra store)"

text \<open>A filter keeps the stores with a property, in order, and notes the others as excluded.\<close>

definition parted :: "DaemonStore list \<Rightarrow> (DaemonStore \<Rightarrow> bool) \<Rightarrow> DaemonStore list \<times> ExcludedStore list \<Rightarrow> bool" where
  "parted order P ce \<longleftrightarrow> fst ce = filter P order \<and>
     ex_store_id ` set (snd ce) = ds_store_id ` {st \<in> set order. \<not> P st}"

lemma parted_filter:
  assumes "parted order P (cs, es)" "\<And>st. ex_store_id (g st) = ds_store_id st"
  shows "parted order (\<lambda>st. P st \<and> Q st) (filter Q cs, es @ map g (filter (\<lambda>st. \<not> Q st) cs))"
proof -
  have "ex_store_id ` g ` {st \<in> set order. P st \<and> \<not> Q st} = ds_store_id ` {st \<in> set order. P st \<and> \<not> Q st}"
    using assms(2) by (simp add: image_image)
  then show ?thesis using assms(1) by (auto simp: parted_def image_Un conj_commute)
qed

lemma parted_cong: "parted order P ce \<Longrightarrow> (\<And>st. st \<in> set order \<Longrightarrow> P st = Q st) \<Longrightarrow> parted order Q ce"
  by (auto simp: parted_def intro: filter_cong)

lemma excluded_for_id [simp]: "ex_store_id (excluded_for r st) = ds_store_id st"
  by (simp add: excluded_for_def)

lemma parted_capable: "parted (candidate_order a) (can_take now a build) (capable_stores now a build)"
proof -
  let ?f = "\<lambda>st. incapable_reason now st build (effective_required_features (rq_derivation (qb_request build)))"
  have "map ex_store_id (concat (map (\<lambda>st. case ?f st of Some r \<Rightarrow> [excluded_for r st] | None \<Rightarrow> []) xs)) =
      map ds_store_id (filter (\<lambda>st. ?f st \<noteq> None) xs)" for xs
    by (induction xs) (auto split: option.splits)
  then have "ex_store_id ` set (snd (capable_stores now a build)) = set (map ds_store_id (filter (\<lambda>st. ?f st \<noteq> None) (candidate_order a)))"
    unfolding capable_stores_def Let_def snd_conv set_map [symmetric] by simp
  then show ?thesis by (simp add: parted_def capable_stores_def can_take_def [abs_def] Let_def)
qed

definition no_idle_resort :: "seconds \<Rightarrow> BuildAllocator \<Rightarrow> QueuedBuild \<Rightarrow> DaemonStore \<Rightarrow> bool" where
  "no_idle_resort now a build st \<longleftrightarrow>
     (ds_last_resort st \<longrightarrow> (\<forall>other \<in> set (candidate_order a). can_take now a build other \<longrightarrow> ds_last_resort other))"

lemma parted_last_resort:
  "parted (candidate_order a) (\<lambda>st. can_take now a build st \<and> no_idle_resort now a build st)
     (without_last_resort (capable_stores now a build))"
proof -
  obtain cs es where c: "capable_stores now a build = (cs, es)" by fastforce
  have p: "parted (candidate_order a) (can_take now a build) (cs, es)" using parted_capable [of a now build] c by simp
  have cs: "cs = filter (can_take now a build) (candidate_order a)" using p by (simp add: parted_def)
  show ?thesis
  proof (cases "\<exists>st \<in> set cs. \<not> ds_last_resort st")
    case True
    then have eq: "without_last_resort (cs, es) = (filter (\<lambda>st. \<not> ds_last_resort st) cs,
        es @ map (excluded_for ''last resort, and another store can build it'') (filter (\<lambda>st. \<not> \<not> ds_last_resort st) cs))"
      by (simp add: without_last_resort_def)
    have "parted (candidate_order a) (\<lambda>st. can_take now a build st \<and> \<not> ds_last_resort st) (without_last_resort (cs, es))"
      unfolding eq by (rule parted_filter [OF p excluded_for_id])
    then show ?thesis unfolding c by (rule parted_cong) (use True in \<open>auto simp: cs no_idle_resort_def\<close>)
  next
    case False
    then show ?thesis unfolding c using p by (auto simp: without_last_resort_def cs no_idle_resort_def intro: parted_cong)
  qed
qed

lemma rank_stores_parted:
  "fst (rank_stores now a build ra) =
     sort_ranked (map (ranked_of (al_settings a) ra) (filter (is_candidate now a build ra) (candidate_order a)))"
  "ex_store_id ` set (snd (rank_stores now a build ra)) =
     ds_store_id ` {st \<in> set (candidate_order a). \<not> is_candidate now a build ra st}"
proof -
  let ?s = "al_settings a"
  obtain cs es where c: "without_last_resort (capable_stores now a build) = (cs, es)" by fastforce
  let ?cs = "filter (\<lambda>st. \<not> short_of_disk st ?s now) cs"
  let ?es = "es @ map (excluded_for ''short of disk'') (filter (\<lambda>st. \<not> \<not> short_of_disk st ?s now) cs)"
  let ?g = "\<lambda>store. \<lparr>ex_store_id = ds_store_id store, ex_reason = ''score under min_schedule_score'',
      ex_breakdown = Some (terms_of ?s ra store)\<rparr>"
  let ?passed = "\<lambda>st. sb_passed (terms_of ?s ra st)"
  have "parted (candidate_order a) (\<lambda>st. can_take now a build st \<and> no_idle_resort now a build st) (cs, es)"
    using parted_last_resort [of a now build] unfolding c .
  then have "parted (candidate_order a)
      (\<lambda>st. (can_take now a build st \<and> no_idle_resort now a build st) \<and> \<not> short_of_disk st ?s now) (?cs, ?es)"
    by (rule parted_filter) simp
  then have "parted (candidate_order a)
      (\<lambda>st. ((can_take now a build st \<and> no_idle_resort now a build st) \<and> \<not> short_of_disk st ?s now) \<and> ?passed st)
      (filter ?passed ?cs, ?es @ map ?g (filter (\<lambda>st. \<not> ?passed st) ?cs))"
    by (rule parted_filter) simp
  then have p: "parted (candidate_order a) (is_candidate now a build ra)
      (filter ?passed ?cs, ?es @ map ?g (filter (\<lambda>st. \<not> ?passed st) ?cs))"
    by (rule parted_cong) (simp add: is_candidate_def no_idle_resort_def)
  have r: "rank_stores now a build ra = (sort_ranked (map (ranked_of ?s ra) (filter ?passed ?cs)),
      ?es @ map ?g (filter (\<lambda>st. \<not> ?passed st) ?cs))"
    by (simp add: rank_stores_def c with_disk_def telemetry_rank_def ranked_of_def [abs_def])
  show "fst (rank_stores now a build ra) =
      sort_ranked (map (ranked_of ?s ra) (filter (is_candidate now a build ra) (candidate_order a)))"
    "ex_store_id ` set (snd (rank_stores now a build ra)) =
      ds_store_id ` {st \<in> set (candidate_order a). \<not> is_candidate now a build ra st}"
    using p unfolding r parted_def by (simp_all only: fst_conv snd_conv)
qed

text \<open>
  C14. \<open>rank_stores\<close> returns exactly the candidates, the best score first, in the order of the allocator
  among equals (the local store last unless it wins ties); every other store of the allocator is
  among the excluded ones. A last-resort store is a candidate only when no other store can take the
  build, and neither load nor disk of the others counts for that.
\<close>

theorem ranking_is_of_candidates:
  "set (map rk_store (fst (rank_stores now a build ra))) = {st \<in> set (candidate_order a). is_candidate now a build ra st} \<and>
   set (map ex_store_id (snd (rank_stores now a build ra))) =
     ds_store_id ` {st \<in> set (candidate_order a). \<not> is_candidate now a build ra st} \<and>
   sorted (map (\<lambda>c. - rk_score c) (fst (rank_stores now a build ra))) \<and>
   map rk_store (filter (\<lambda>c. rk_score c = x) (fst (rank_stores now a build ra))) =
     filter (\<lambda>st. is_candidate now a build ra st \<and> sb_final_score (terms_of (al_settings a) ra st) = x) (candidate_order a)"
proof -
  have stable: "map rk_store (filter (\<lambda>c. rk_score c = x) (map (ranked_of s ra) sts)) =
      filter (\<lambda>st. sb_final_score (terms_of s ra st) = x) sts" for s sts
    by (induction sts) (auto simp: ranked_of_def)
  have of: "rk_store \<circ> ranked_of s ra = id" for s by (rule ext) (simp add: ranked_of_def)
  have "set (map rk_store (fst (rank_stores now a build ra))) = {st \<in> set (candidate_order a). is_candidate now a build ra st}"
    unfolding rank_stores_parted(1) by (simp add: image_comp of)
  then show ?thesis using rank_stores_parted(2) [of now a build ra]
    unfolding rank_stores_parted(1) by (simp add: sort_ranked_sorted sort_ranked_stable stable conj_commute)
qed

section \<open>The choice\<close>

lemma usable_mem: "c \<in> set (usable ranked local_id full) \<longleftrightarrow> c \<in> set ranked \<and> (rk_store_id c = local_id \<longrightarrow> \<not> full)"
  by (auto simp: usable_def)

lemma find_Some_mem: "find P xs = Some x \<Longrightarrow> x \<in> set xs \<and> P x"
  by (auto simp: find_Some_iff)

lemma pick_store_mem:
  assumes "pick_store ranked local_id full pl = Some c"
  shows "c \<in> set ranked \<and> (rk_store_id c = local_id \<longrightarrow> \<not> full)"
proof -
  have "c \<in> set (usable ranked local_id full)"
    using assms by (auto simp: pick_store_def Let_def split: option.splits list.splits if_splits dest!: find_Some_mem)
  then show ?thesis by (simp add: usable_mem)
qed

lemma find_sorted_best:
  assumes "sorted (map (\<lambda>c. - rk_score c) cs)" and "find P cs = Some c" and "d \<in> set cs" and "P d"
  shows "rk_score d \<le> rk_score c"
  using assms by (induction cs) (auto split: if_splits)

lemma usable_first: "(case usable ranked local_id full of [] \<Rightarrow> None | c # _ \<Rightarrow> Some c) = find (\<lambda>c. rk_store_id c = local_id \<longrightarrow> \<not> full) ranked"
  by (induction ranked) (auto simp: usable_def)

lemma usable_local:
  "find (\<lambda>c. rk_store_id c = local_id) (usable ranked local_id full) = (if full then None else find (\<lambda>c. rk_store_id c = local_id) ranked)"
  by (induction ranked) (auto simp: usable_def)

lemma usable_remote:
  "find (\<lambda>c. rk_store_id c \<noteq> local_id) (usable ranked local_id full) = find (\<lambda>c. rk_store_id c \<noteq> local_id) ranked"
  by (induction ranked) (auto simp: usable_def)

text \<open>
  C24. From stores ranked by score, a build with no wish takes one of the best score among those that it
  may take, where only the local store with no slot left may not be taken, and waits only when there is
  no other. A build that prefers to be local takes the local store when it has a slot; without one it
  takes a remote store of the best score, when the wait for a slot is known, the delegation to that store
  is measured and the wait is longer than the weight times that, and waits otherwise.
\<close>

theorem pick_store_takes_the_best:
  assumes "sorted (map (\<lambda>c. - rk_score c) ranked)"
  shows "(case pick_store ranked local_id full None of
      Some c \<Rightarrow> c \<in> set ranked \<and> \<not> (rk_store_id c = local_id \<and> full) \<and>
        (\<forall>d \<in> set ranked. \<not> (rk_store_id d = local_id \<and> full) \<longrightarrow> rk_score d \<le> rk_score c)
    | None \<Rightarrow> \<forall>d \<in> set ranked. rk_store_id d = local_id \<and> full) \<and>
    (case pick_store ranked local_id full (Some pl) of
      Some c \<Rightarrow> c \<in> set ranked \<and>
        (if \<not> full \<and> local_id \<in> rk_store_id ` set ranked then rk_store_id c = local_id
         else rk_store_id c \<noteq> local_id \<and> (\<forall>d \<in> set ranked. rk_store_id d \<noteq> local_id \<longrightarrow> rk_score d \<le> rk_score c) \<and>
           (\<exists>t w. map_of (pl_transfer_seconds pl) (rk_store_id c) = Some t \<and> pl_wait_seconds pl = Some w \<and> w > t * pl_weight pl))
    | None \<Rightarrow> (full \<or> local_id \<notin> rk_store_id ` set ranked) \<and>
        (\<forall>c. find (\<lambda>d. rk_store_id d \<noteq> local_id) ranked = Some c \<longrightarrow>
          \<not> (\<exists>t w. map_of (pl_transfer_seconds pl) (rk_store_id c) = Some t \<and> pl_wait_seconds pl = Some w \<and> w > t * pl_weight pl)))"
    (is "?free \<and> ?wish")
proof (intro conjI)
  note best = find_sorted_best [OF assms]
  have free: "pick_store ranked local_id full None = find (\<lambda>c. rk_store_id c = local_id \<longrightarrow> \<not> full) ranked"
    using usable_first by (simp add: pick_store_def Let_def)
  show ?free
    unfolding free using best [of "\<lambda>c. rk_store_id c = local_id \<longrightarrow> \<not> full"] find_Some_mem
    by (fastforce simp: find_None_iff split: option.split)
  let ?worth = "\<lambda>c. \<exists>t w. map_of (pl_transfer_seconds pl) (rk_store_id c) = Some t \<and> pl_wait_seconds pl = Some w \<and> w > t * pl_weight pl"
  let ?local = "find (\<lambda>c. rk_store_id c = local_id) ranked" and ?remote = "find (\<lambda>c. rk_store_id c \<noteq> local_id) ranked"
  have pick: "pick_store ranked local_id full (Some pl) =
      (case (if full then None else ?local) of Some c \<Rightarrow> Some c
       | None \<Rightarrow> (case ?remote of None \<Rightarrow> None | Some c \<Rightarrow> if ?worth c then Some c else None))"
    by (auto simp: pick_store_def Let_def usable_local usable_remote split: option.splits)
  show ?wish
  proof (cases "\<not> full \<and> local_id \<in> rk_store_id ` set ranked")
    case True
    then obtain c where "?local = Some c" by (cases ?local) (auto simp: find_None_iff)
    then show ?thesis unfolding pick using True find_Some_mem [of "\<lambda>c. rk_store_id c = local_id" ranked c] by simp
  next
    case False
    then have "(if full then None else ?local) = None" by (auto simp: find_None_iff)
    then show ?thesis unfolding pick using False best [of "\<lambda>c. rk_store_id c \<noteq> local_id"] find_Some_mem [of "\<lambda>c. rk_store_id c \<noteq> local_id" ranked]
      by (cases ?remote) auto
  qed
qed

theorem pick_store_takes_the_best_witness:
  "\<exists>c. pick_store [(sample_ranked ''local'')\<lparr>rk_score := 5\<rparr>, (sample_ranked ''b'')\<lparr>rk_score := 3\<rparr>, sample_ranked ''c''] ''local'' True None = Some c \<and>
    rk_store_id c \<noteq> ''local'' \<and> rk_score ((sample_ranked ''b'')\<lparr>rk_score := 3\<rparr>) \<le> rk_score c"
proof -
  let ?ranked = "[(sample_ranked ''local'')\<lparr>rk_score := 5\<rparr>, (sample_ranked ''b'')\<lparr>rk_score := 3\<rparr>, sample_ranked ''c'']"
  have "sorted (map (\<lambda>c. - rk_score c) ?ranked)" by (simp add: sample_ranked_def)
  from pick_store_takes_the_best [OF this, of "''local''" True] show ?thesis
    by (cases "pick_store ?ranked ''local'' True None") (auto simp: sample_ranked_def)
qed

lemma explore_store_mem:
  assumes "explore_store ranked chosen local_id full share draw pick = Some c" "0 \<le> pick" "pick < 1"
  shows "c \<in> set ranked \<and> rk_store_id c \<noteq> rk_store_id chosen \<and> (rk_store_id c = local_id \<longrightarrow> \<not> full) \<and> draw < share"
proof -
  define others where "others = filter (\<lambda>c. rk_store_id c \<noteq> rk_store_id chosen \<and> (rk_store_id c \<noteq> local_id \<or> \<not> full)) ranked"
  have c: "others \<noteq> []" "c = others ! nat (py_int (pick * of_nat (length others)))" "draw < share"
    using assms(1) unfolding explore_store_def others_def [symmetric] Let_def by (auto split: if_splits)
  have "pick * of_nat (length others) < of_nat (length others)" using assms(3) c(1) by simp
  then have "nat (py_int (pick * of_nat (length others))) < length others"
    using assms(2) by (simp add: py_int_def nat_less_iff floor_less_iff)
  then have "c \<in> set others" using c(2) by simp
  then show ?thesis using c(3) by (auto simp: others_def)
qed

text \<open>The memory that the builds that run on a store are expected to need, and what is left of the store's.\<close>

definition expected_on :: "QueuedBuild list \<Rightarrow> string \<Rightarrow> int" where
  "expected_on builds s = sum_list (map peak_of (filter (\<lambda>b. is_building b \<and> qb_assigned_store_id b = Some s) builds))"

definition has_memory :: "QueuedBuild list \<Rightarrow> int \<Rightarrow> RankedStore \<Rightarrow> bool" where
  "has_memory builds peak c \<longleftrightarrow> (\<forall>h m. ds_monitor (rk_store c) = Some h \<and> sh_meminfo h = Some m \<and> mem_total m \<noteq> 0 \<longrightarrow>
     expected_on builds (rk_store_id c) + peak \<le> mem_available m * 1024)"

definition memory_left :: "QueuedBuild list \<Rightarrow> RankedStore \<Rightarrow> int" where
  "memory_left builds c = (case Option.bind (ds_monitor (rk_store c)) sh_meminfo of
     Some m \<Rightarrow> mem_available m * 1024 - expected_on builds (rk_store_id c) | None \<Rightarrow> 0)"

lemma reserved_memory_sum: "count_at (reserved_memory builds acc) s = count_at acc s + expected_on builds s"
proof (induction builds acc rule: reserved_memory.induct)
  case (2 b bs acc)
  then show ?case by (cases "qb_assigned_store_id b") (auto simp: expected_on_def count_at_def)
qed (simp add: expected_on_def)

lemma fits_in_has_memory: "fits_in (reserved_memory builds []) peak = has_memory builds peak"
  using reserved_memory_sum [of builds "[]"]
  by (auto simp: fun_eq_iff fits_in_def has_memory_def room_of_def memory_room_def known_memory_def count_at_def split: option.splits)

lemma room_left:
  assumes "\<not> has_memory builds peak c"
  shows "(case room_of (reserved_memory builds []) c of Some n \<Rightarrow> n | None \<Rightarrow> 0) = memory_left builds c"
  using assms reserved_memory_sum [of builds "[]" "rk_store_id c"]
  by (auto simp: has_memory_def room_of_def memory_room_def known_memory_def memory_left_def count_at_def split: option.splits)

text \<open>
  C25. No memory is promised twice where it can be helped. When some candidate is unmeasured or has room
  for the expected peak of the build beside the expected peaks of all builds that run on it, exactly those
  candidates stay, in their order; when none has, all stay, the one with the most memory left first.
\<close>

theorem memory_not_promised_twice:
  assumes "peak \<noteq> 0"
  shows "if \<exists>c \<in> set ranked. has_memory builds peak c
    then mf_stores (fit_memory ranked (Some peak) (reserved_memory builds [])) = filter (has_memory builds peak) ranked
    else set (mf_stores (fit_memory ranked (Some peak) (reserved_memory builds []))) = set ranked \<and>
      length (mf_stores (fit_memory ranked (Some peak) (reserved_memory builds []))) = length ranked \<and>
      sorted_wrt (\<lambda>c d. memory_left builds c \<ge> memory_left builds d)
        (mf_stores (fit_memory ranked (Some peak) (reserved_memory builds [])))"
proof (cases "\<exists>c \<in> set ranked. has_memory builds peak c")
  case True
  then show ?thesis using assms by (auto simp: fit_memory_def Let_def fits_in_has_memory filter_empty_conv)
next
  case False
  let ?key = "\<lambda>c. - (case room_of (reserved_memory builds []) c of Some n \<Rightarrow> n | None \<Rightarrow> 0)"
  have e: "mf_stores (fit_memory ranked (Some peak) (reserved_memory builds [])) = sort_key ?key ranked"
    using False assms by (auto simp: fit_memory_def Let_def fits_in_has_memory filter_empty_conv)
  have "sorted_wrt (\<lambda>c d. ?key c \<le> ?key d) (sort_key ?key ranked)" using sorted_sort_key [of ?key ranked] by (simp add: sorted_map)
  moreover have "?key c = - memory_left builds c" if "c \<in> set ranked" for c using room_left [of builds peak c] False that by simp
  ultimately have "sorted_wrt (\<lambda>c d. memory_left builds c \<ge> memory_left builds d) (sort_key ?key ranked)"
    by (auto elim!: sorted_wrt_mono_rel [rotated])
  then show ?thesis unfolding e using False by simp
qed

theorem memory_not_promised_twice_witness:
  "mf_stores (fit_memory [(sample_ranked ''a'')\<lparr>rk_store := (sample_store ''a'')\<lparr>ds_monitor := Some starved_host\<rparr>\<rparr>, sample_ranked ''b'']
      (Some 4000000) (reserved_memory [] [])) = [sample_ranked ''b'']"
proof -
  let ?low = "(sample_ranked ''a'')\<lparr>rk_store := (sample_store ''a'')\<lparr>ds_monitor := Some starved_host\<rparr>\<rparr>"
  have "\<not> has_memory [] 4000000 ?low" "has_memory [] 4000000 (sample_ranked ''b'')"
    by (simp_all add: has_memory_def expected_on_def sample_ranked_def sample_store_def starved_host_def quiet_host_def)
  then show ?thesis using memory_not_promised_twice [of 4000000 "[?low, sample_ranked ''b'']" "[]"] by simp
qed

text \<open>
  An estimate of memory can still make a build wait: the remote store is short of it, the local store
  fits and has no slot left, and the remote store is left out, which takes the build when there is no
  estimate.
\<close>

lemma estimate_makes_a_build_wait:
  "let ranked = [(sample_ranked ''b'')\<lparr>rk_store := (sample_store ''b'')\<lparr>ds_monitor := Some starved_host\<rparr>\<rparr>, sample_ranked ''local'']
   in map_option rk_store_id (pick_store (mf_stores (fit_memory ranked None [])) ''local'' True None) = Some ''b'' \<and>
      pick_store (mf_stores (fit_memory ranked (Some 2000000) [])) ''local'' True None = None"
  by code_simp

end
