(* ===== verification/Scheduler.thy ===== *)
theory Scheduler
  imports Build_Queue Allocator
begin

text \<open>
  The scheduling pass (\<open>Scheduler\<close> of \<open>pynixd/scheduler.py\<close>, up to the start of a worker): which
  pending builds are looked at, what a build is expected to cost on each store, and the decision of
  \<open>_place\<close> to cancel a build, fail it, let it wait or start it on a store.

  A daemon client is one object that the context, the allocator and the scheduler share, so the
  clients live in \<open>sc_daemons\<close> and the lists hold their ids; the local builder is \<open>sc_local\<close>. The
  three counts that a pass keeps in local variables (\<open>running_builds\<close>, \<open>assigned_this_pass\<close>,
  \<open>reserved\<close>) are fields here. The decision is one section: \<open>_place\<close> awaits only before it, while
  it measures, and after it. What a query of the database or of a store answers, the draws of the
  random generator and the clock are arguments; the trace of placements is left out.
\<close>

section \<open>The state\<close>

record Scheduler =
  sc_queue :: BuildQueue
  sc_daemons :: "DaemonStore store_dict"
  sc_local :: DaemonStore
  sc_ctx_stores :: "string list"
  sc_alloc_stores :: "string list"
  sc_settings :: StoreRankingSettings
  sc_dynamic :: "string list store_dict"
  sc_workers :: bool
  sc_next_scope :: nat
  sc_held_by_pressure :: "nat list"
  sc_builds_waiting :: bool
  sc_triggered :: bool
  sc_pass_id :: nat
  sc_has_db :: bool
  sc_trace_enabled :: bool
  sc_running :: "int store_dict"
  sc_assigned :: "int store_dict"
  sc_reserved :: "int store_dict"
  sc_output_locations :: "string store_dict"

abbreviation local_id :: "Scheduler \<Rightarrow> string" where
  "local_id sc \<equiv> ds_store_id (sc_local sc)"

abbreviation build_of :: "Scheduler \<Rightarrow> nat \<Rightarrow> QueuedBuild" where
  "build_of sc r \<equiv> build_at (sc_queue sc) r"

abbreviation drv_of :: "QueuedBuild \<Rightarrow> BasicDerivation" where
  "drv_of b \<equiv> rq_derivation (qb_request b)"

definition daemon_of :: "Scheduler \<Rightarrow> string \<Rightarrow> DaemonStore option" where
  "daemon_of sc store_id = (if store_id = local_id sc then Some (sc_local sc) else map_of (sc_daemons sc) store_id)"

definition daemons_of :: "Scheduler \<Rightarrow> string list \<Rightarrow> DaemonStore store_dict" where
  "daemons_of sc ids = List.map_filter (\<lambda>i. map_option (Pair i) (daemon_of sc i)) ids"

definition sched_stores :: "Scheduler \<Rightarrow> DaemonStore store_dict" where
  "sched_stores sc = filter (\<lambda>(_, d). \<not> ds_no_schedule d) (daemons_of sc (sc_ctx_stores sc))"

definition allocator_of :: "Scheduler \<Rightarrow> BuildAllocator" where
  "allocator_of sc = \<lparr>al_stores = daemons_of sc (sc_alloc_stores sc), al_local_store = sc_local sc, al_settings = sc_settings sc\<rparr>"

definition on_queue :: "(BuildQueue, 'a) eff \<Rightarrow> (Scheduler, 'a) eff" where
  "on_queue m = (\<lambda>sc. case m (sc_queue sc) of (x, q) \<Rightarrow> (x, sc\<lparr>sc_queue := q\<rparr>))"

definition upd_daemon :: "string \<Rightarrow> (DaemonStore \<Rightarrow> DaemonStore) \<Rightarrow> Scheduler \<Rightarrow> Scheduler" where
  "upd_daemon store_id f sc =
     (if store_id = local_id sc then sc\<lparr>sc_local := f (sc_local sc)\<rparr>
      else case map_of (sc_daemons sc) store_id of
             Some d \<Rightarrow> sc\<lparr>sc_daemons := dict_set store_id (f d) (sc_daemons sc)\<rparr>
           | None \<Rightarrow> sc)"

section \<open>Stores come and go\<close>

definition trigger :: "Scheduler \<Rightarrow> Scheduler" where
  "trigger sc = sc\<lparr>sc_triggered := True\<rparr>"

definition features_at :: "string list store_dict \<Rightarrow> string \<Rightarrow> string list" where
  "features_at m system = (case map_of m system of Some fs \<Rightarrow> fs | None \<Rightarrow> [])"

definition union_at :: "string list store_dict \<Rightarrow> string \<times> string list \<Rightarrow> string list store_dict" where
  "union_at m e = dict_set (fst e) (foldl (\<lambda>s f. set_add f s) (features_at m (fst e)) (snd e)) m"

definition add_dynamic_feature :: "string \<Rightarrow> string \<Rightarrow> Scheduler \<Rightarrow> Scheduler" where
  "add_dynamic_feature system feature sc =
     trigger (sc\<lparr>sc_dynamic := union_at (sc_dynamic sc) (system, if feature = [] then [] else [feature])\<rparr>)"

definition add_dynamic_features :: "string list store_dict \<Rightarrow> Scheduler \<Rightarrow> Scheduler" where
  "add_dynamic_features feature_matrix sc = trigger (sc\<lparr>sc_dynamic := foldl union_at (sc_dynamic sc) feature_matrix\<rparr>)"

definition on_store_added :: "DaemonStore \<Rightarrow> bool \<Rightarrow> Scheduler \<Rightarrow> Scheduler" where
  "on_store_added store dynamic sc =
     (let fm = (case ds_feature_matrix store of Some m \<Rightarrow> m | None \<Rightarrow> []);
          sc1 = (if ds_no_schedule store then sc
                 else sc\<lparr>sc_daemons := dict_set (ds_store_id store) store (sc_daemons sc),
                        sc_alloc_stores := set_add (ds_store_id store) (sc_alloc_stores sc)\<rparr>);
          sc2 = (if dynamic \<and> fm \<noteq> [] then add_dynamic_features fm sc1 else sc1)
      in trigger sc2)"

definition dynamic_supports :: "Scheduler \<Rightarrow> string \<Rightarrow> string list \<Rightarrow> bool" where
  "dynamic_supports sc system features =
     (let m = sc_dynamic sc in
      case (case map_of m system of
              Some fs \<Rightarrow> Some fs
            | None \<Rightarrow> if system = BUILTIN_SYSTEM \<and> m \<noteq> [] then Some (concat (map snd m)) else None) of
        None \<Rightarrow> False
      | Some fs \<Rightarrow> features = [] \<or> set features \<subseteq> set fs)"

text \<open>\<open>drain_store\<close> marks the store, waits for it to be idle or for the timeout, and resets its builds.\<close>

definition drain_begin :: "string \<Rightarrow> Scheduler \<Rightarrow> Scheduler" where
  "drain_begin store_id sc =
     (if store_id \<in> set (sc_ctx_stores sc) \<and> daemon_of sc store_id \<noteq> None
      then trigger (upd_daemon store_id (\<lambda>d. d\<lparr>ds_draining := True\<rparr>) sc) else sc)"

definition drain_build :: "string \<Rightarrow> QueuedBuild \<Rightarrow> QueuedBuild" where
  "drain_build store_id b =
     (if qb_assigned_store_id b = Some store_id
      then reset_for_retry store_id (store_id @ '' was removed while the build ran'') (if is_building b then cancel_worker b else b)
      else b)"

definition drain_end :: "string \<Rightarrow> Scheduler \<Rightarrow> Scheduler" where
  "drain_end store_id sc =
     trigger (sc\<lparr>sc_queue := foldl (\<lambda>q r. upd r (drain_build store_id) q) (sc_queue sc) (get_pending (sc_queue sc))\<rparr>)"

definition on_sample :: "Scheduler \<Rightarrow> Scheduler" where
  "on_sample sc = (if sc_builds_waiting sc then trigger sc else sc)"

definition build_derivation :: "enqueue_args \<Rightarrow> int option \<Rightarrow> int option \<Rightarrow> (Scheduler, nat \<times> nat) eff" where
  "build_derivation a hint peak =
     bind (on_queue (enqueue (a\<lparr>eq_expected_duration := hint\<rparr>))) (\<lambda>res sc.
       let q = sc_queue sc;
           q1 = (case map_of (bq_by_id q) (fst res) of
                   Some r \<Rightarrow>
                     if qb_expected_peak_bytes (build_at q r) = None
                     then upd r (\<lambda>b. note_cost (qb_transfer_seconds b) (qb_inputs_measured b) (qb_estimates b) peak b) q
                     else q
                 | None \<Rightarrow> q)
       in (Inr res, trigger (sc\<lparr>sc_queue := q1\<rparr>)))"

section \<open>What a build costs on each store\<close>

record measurement =
  ms_missing :: "int option"
  ms_pull :: "int option"
  ms_link :: StoreLink
  ms_build_ms :: "int option"
  ms_source :: "BuildEstimateSource option"

definition wants_estimates :: "Scheduler \<Rightarrow> bool" where
  "wants_estimates sc \<longleftrightarrow> sc_trace_enabled sc \<or> rs_time_penalty_per_second (sc_settings sc) \<noteq> None \<or>
     rs_cpu_reference_seconds (sc_settings sc) \<noteq> None"

definition missing_input_bytes :: "int store_dict \<Rightarrow> string list option \<Rightarrow> int option" where
  "missing_input_bytes sizes held =
     (if sizes = [] then Some 0
      else map_option (\<lambda>h. sum_list (map snd (filter (\<lambda>(path, _). path \<notin> set h) sizes))) held)"

definition measure_store :: "Scheduler \<Rightarrow> string \<Rightarrow> measurement \<Rightarrow> QueuedBuild \<Rightarrow> QueuedBuild" where
  "measure_store sc store_id m b =
     (let setup_s = rs_remote_setup_seconds (sc_settings sc);
          known_inputs = (case ms_missing m of
             Some n \<Rightarrow> n = 0 \<or> nonzero (lk_send_bytes_per_s (ms_link m)) \<noteq> None | None \<Rightarrow> False)
      in note_cost
           (dict_set store_id (transfer_seconds \<lparr>eb_inputs = ms_missing m, eb_pull = ms_pull m\<rparr> (ms_link m) setup_s)
             (qb_transfer_seconds b))
           (if known_inputs then set_add store_id (qb_inputs_measured b) else qb_inputs_measured b)
           (dict_set store_id \<lparr>se_inputs_bytes = ms_missing m, se_pull_bytes = ms_pull m, se_link = ms_link m,
               se_build_ms = (if wants_estimates sc then ms_build_ms m else None),
               se_build_source = (if wants_estimates sc then ms_source m else None), se_setup_seconds = setup_s\<rparr>
             (qb_estimates b))
           (qb_expected_peak_bytes b) b)"

definition measure_local :: "Scheduler \<Rightarrow> int option \<Rightarrow> BuildEstimateSource option \<Rightarrow> QueuedBuild \<Rightarrow> QueuedBuild" where
  "measure_local sc ms source b =
     note_cost (qb_transfer_seconds b) (qb_inputs_measured b)
       (dict_set (local_id sc) \<lparr>se_inputs_bytes = Some 0, se_pull_bytes = Some 0, se_link = no_link, se_build_ms = ms,
           se_build_source = source, se_setup_seconds = 0\<rparr> (qb_estimates b))
       (qb_expected_peak_bytes b) b"

definition stores_to_measure :: "Scheduler \<Rightarrow> seconds \<Rightarrow> QueuedBuild \<Rightarrow> string list" where
  "stores_to_measure sc now b =
     map fst (filter (\<lambda>(store_id, d). store_id \<noteq> local_id sc \<and> store_id \<notin> fst ` set (qb_transfer_seconds b) \<and>
         is_healthy now d \<and> supports_derivation d (bd_platform (drv_of b)) (effective_required_features (drv_of b)))
       (sched_stores sc))"

primrec measure_each :: "(string \<Rightarrow> error + measurement) \<Rightarrow> nat \<Rightarrow> string list \<Rightarrow> (Scheduler, unit) eff" where
  "measure_each ask r [] = ret ()"
| "measure_each ask r (i # is) =
     bind (of_result (ask i)) (\<lambda>m sc.
       measure_each ask r is (sc\<lparr>sc_queue := upd r (measure_store sc i m) (sc_queue sc)\<rparr>))"

text \<open>\<open>_transfer_seconds\<close>: the measurements; the dictionary it returns is \<open>known_transfer_seconds\<close>.\<close>

definition measure_build :: "(string \<Rightarrow> error + measurement) \<Rightarrow> seconds \<Rightarrow> nat \<Rightarrow> (Scheduler, unit) eff" where
  "measure_build ask now r = (\<lambda>sc.
     if \<not> sc_has_db sc then (Inr (), sc)
     else bind (measure_each ask r (stores_to_measure sc now (build_of sc r))) (\<lambda>_ sc1.
            if wants_estimates sc1 \<and> local_id sc1 \<notin> fst ` set (qb_estimates (build_of sc1 r))
            then (case ask (local_id sc1) of
                    Inl e \<Rightarrow> (Inl e, sc1)
                  | Inr m \<Rightarrow> (Inr (), sc1\<lparr>sc_queue := upd r (measure_local sc1 (ms_build_ms m) (ms_source m)) (sc_queue sc1)\<rparr>))
            else (Inr (), sc1)) sc)"

definition known_transfer_seconds :: "QueuedBuild \<Rightarrow> seconds store_dict" where
  "known_transfer_seconds b = List.map_filter (\<lambda>(i, s). map_option (Pair i) s) (qb_transfer_seconds b)"

definition expected_build_seconds :: "QueuedBuild \<Rightarrow> string \<Rightarrow> seconds option" where
  "expected_build_seconds b local_store_id =
     (case (case map_of (qb_estimates b) local_store_id of Some e \<Rightarrow> build_seconds e | None \<Rightarrow> None) of
        Some s \<Rightarrow> Some s
      | None \<Rightarrow> min_known (List.map_filter (\<lambda>(_, e). build_seconds e) (qb_estimates b)))"

definition wait_for_slot :: "Scheduler \<Rightarrow> seconds \<Rightarrow> string \<Rightarrow> seconds option" where
  "wait_for_slot sc now store_id =
     slot_wait_seconds
       (map (\<lambda>r. (qb_expected_duration (build_of sc r), qb_started_at (build_of sc r)))
         (filter (\<lambda>r. is_building (build_of sc r) \<and> qb_assigned_store_id (build_of sc r) = Some store_id)
           (map snd (bq_by_id (sc_queue sc))))) now"

section \<open>Slots\<close>

definition has_build_room :: "Scheduler \<Rightarrow> DaemonStore \<Rightarrow> bool" where
  "has_build_room sc store =
     has_room (ds_build_limit store) (count_at (sc_running sc) (ds_store_id store) + count_at (sc_assigned sc) (ds_store_id store))"

definition local_builds_of :: "Scheduler \<Rightarrow> nat \<Rightarrow> nat list" where
  "local_builds_of sc request_id =
     filter (\<lambda>r. is_building (build_of sc r) \<and> qb_assigned_store_id (build_of sc r) = Some (local_id sc) \<and>
         request_id \<in> set (qb_holders (build_of sc r)))
       (map snd (bq_by_id (sc_queue sc)))"

definition request_has_a_local_slot :: "Scheduler \<Rightarrow> nat \<Rightarrow> bool" where
  "request_has_a_local_slot sc request_id =
     (case max_jobs_of (sc_queue sc) request_id of
        None \<Rightarrow> True
      | Some jobs \<Rightarrow> int (length (local_builds_of sc request_id)) < max 1 jobs)"

definition local_slot_is_full :: "Scheduler \<Rightarrow> QueuedBuild \<Rightarrow> bool" where
  "local_slot_is_full sc b =
     (let wanters = live_wanters (sc_queue sc) b in
      if wanters \<noteq> [] then \<not> (\<exists>w \<in> set wanters. request_has_a_local_slot sc w)
      else case qb_options b of
             None \<Rightarrow> False
           | Some opts \<Rightarrow>
               \<not> (count_at (sc_running sc) (local_id sc) + count_at (sc_assigned sc) (local_id sc)
                    < max 1 (opt_max_build_jobs opts)))"

definition client_forbids_local :: "Scheduler \<Rightarrow> QueuedBuild \<Rightarrow> bool" where
  "client_forbids_local sc b =
     (let wanters = live_wanters (sc_queue sc) b in
      if wanters \<noteq> [] then \<forall>w \<in> set wanters. max_jobs_of (sc_queue sc) w = Some 0
      else case qb_options b of None \<Rightarrow> False | Some opts \<Rightarrow> opt_max_build_jobs opts = 0)"

definition has_compatible_store :: "Scheduler \<Rightarrow> QueuedBuild \<Rightarrow> string list \<Rightarrow> bool" where
  "has_compatible_store sc b features \<longleftrightarrow>
     (\<exists>(_, d) \<in> set (sched_stores sc). ds_store_id d \<noteq> local_id sc \<and> supports_derivation d (bd_platform (drv_of b)) features) \<or>
     dynamic_supports sc (bd_platform (drv_of b)) features"

section \<open>The decision\<close>

definition local_can_build :: "Scheduler \<Rightarrow> seconds \<Rightarrow> QueuedBuild \<Rightarrow> bool" where
  "local_can_build sc now b \<longleftrightarrow>
     is_healthy now (sc_local sc) \<and> \<not> ds_draining (sc_local sc) \<and> \<not> is_blacklisted b (local_id sc) \<and>
     supports_derivation (sc_local sc) (bd_platform (drv_of b)) (effective_required_features (drv_of b))"

definition rank_args_of :: "Scheduler \<Rightarrow> QueuedBuild \<Rightarrow> rank_args" where
  "rank_args_of sc b =
     \<lparr>ra_assigned_this_pass = sc_assigned sc, ra_running_builds = sc_running sc,
      ra_transfer_seconds = known_transfer_seconds b, ra_estimates = qb_estimates b,
      ra_expected_build_seconds = expected_build_seconds b (local_id sc)\<rparr>"

text \<open>\<open>--max-jobs 0\<close>: \<open>None\<close> when no store may take the build, else the candidates left and whether the local one is.\<close>

definition without_local_jobs ::
    "Scheduler \<Rightarrow> QueuedBuild \<Rightarrow> RankedStore list \<Rightarrow> bool \<Rightarrow> (RankedStore list \<times> bool) option" where
  "without_local_jobs sc b ranked can_local =
     (let mode = rs_no_local_jobs (sc_settings sc) in
      if mode \<noteq> one_slot \<and> client_forbids_local sc b
      then let has_remote = has_compatible_store sc b (effective_required_features (drv_of b)) in
           if \<not> has_remote \<and> mode = remote_only then None
           else if has_remote then Some (filter (\<lambda>c. rk_store_id c \<noteq> local_id sc) ranked, False)
           else Some (ranked, can_local)
      else Some (ranked, can_local))"

definition here_only :: "QueuedBuild \<Rightarrow> bool" where
  "here_only b \<longleftrightarrow> rq_build_mode (qb_request b) \<noteq> 0"

definition prefers_local :: "QueuedBuild \<Rightarrow> bool \<Rightarrow> bool" where
  "prefers_local b can_local \<longleftrightarrow> (build_local (drv_of b) \<or> here_only b) \<and> can_local"

definition final_candidates :: "Scheduler \<Rightarrow> QueuedBuild \<Rightarrow> RankedStore list \<Rightarrow> bool \<Rightarrow> RankedStore list" where
  "final_candidates sc b ranked can_local =
     (let r1 = (if here_only b then filter (\<lambda>c. rk_store_id c = local_id sc) ranked else ranked);
          r2 = (if prefers_local b can_local \<and> \<not> (\<exists>c \<in> set r1. rk_store_id c = local_id sc)
                then r1 @ [\<lparr>rk_store_id = local_id sc, rk_score = 0, rk_store = sc_local sc, rk_breakdown = None\<rparr>]
                else r1);
          failed = (\<lambda>c. rk_store_id c \<in> fst ` set (qb_store_failures b))
      in if qb_store_failures b \<noteq> [] then filter (\<lambda>c. \<not> failed c) r2 @ filter failed r2 else r2)"

datatype Decision =
    NoLocal
  | NoStore
  | AllBlacklisted
  | Wait string
  | WaitForRoom
  | Start RankedStore "string option"

definition choose_store :: "Scheduler \<Rightarrow> seconds \<Rightarrow> rat \<Rightarrow> rat \<Rightarrow> QueuedBuild \<Rightarrow> RankedStore list \<Rightarrow> bool \<Rightarrow> Decision" where
  "choose_store sc now draw pick b ranked prefer =
     (let roomy = filter (\<lambda>c. has_build_room sc (rk_store c)) ranked in
      if roomy = [] then WaitForRoom
      else let fit = fit_memory roomy (qb_expected_peak_bytes b) (sc_reserved sc);
               full = local_slot_is_full sc b;
               pl = (if prefer
                     then Some \<lparr>pl_wait_seconds = wait_for_slot sc now (local_id sc),
                            pl_transfer_seconds = filter (\<lambda>(i, _). i \<in> set (qb_inputs_measured b)) (known_transfer_seconds b),
                            pl_weight = rs_prefer_local_weight (sc_settings sc)\<rparr>
                     else None)
           in case pick_store (mf_stores fit) (local_id sc) full pl of
                None \<Rightarrow> Wait (if prefer then ''preferLocalBuild: the local slot is expected sooner than a delegation pays''
                               else ''the local slot is full, and no other candidate has room'')
              | Some rs \<Rightarrow>
                  (case (if rs_explore_share (sc_settings sc) > 0 \<and> \<not> prefer
                         then explore_store (filter (\<lambda>c. rk_store_id c \<notin> fst ` set (qb_store_failures b)) (mf_stores fit)) rs
                                (local_id sc) full (rs_explore_share (sc_settings sc)) draw pick
                         else None) of
                     Some explored \<Rightarrow> Start explored (Some ''exploration'')
                   | None \<Rightarrow> Start rs (mf_reason fit)))"

definition decide :: "Scheduler \<Rightarrow> seconds \<Rightarrow> rat \<Rightarrow> rat \<Rightarrow> QueuedBuild \<Rightarrow> Decision" where
  "decide sc now draw pick b =
     (let features = effective_required_features (drv_of b);
          platform = bd_platform (drv_of b) in
      case without_local_jobs sc b (fst (rank_stores now (allocator_of sc) b (rank_args_of sc b))) (local_can_build sc now b) of
        None \<Rightarrow> NoLocal
      | Some (ranked0, can_local) \<Rightarrow>
          let ranked = final_candidates sc b ranked0 can_local in
          if ranked = [] \<and> \<not> can_local \<and> (here_only b \<or> \<not> has_compatible_store sc b features) then NoStore
          else if ranked \<noteq> [] then choose_store sc now draw pick b ranked (prefers_local b can_local)
          else let compatible = filter (\<lambda>(_, d). supports_derivation d platform features) (sched_stores sc) in
               if compatible \<noteq> [] \<and> (\<forall>(_, d) \<in> set compatible. is_blacklisted b (ds_store_id d)) then AllBlacklisted
               else Wait ''no store is a candidate now'')"

section \<open>What is told to the client\<close>

abbreviation nl :: string where
  "nl \<equiv> [CHR 0x0A]"

definition quoted :: "string \<Rightarrow> string" where
  "quoted s = CHR 0x27 # s @ [CHR 0x27]"

definition INPUT_REJECTED :: nat where "INPUT_REJECTED = 4"

definition no_local_jobs_message :: "QueuedBuild \<Rightarrow> string" where
  "no_local_jobs_message b =
     ''Cannot build '' @ quoted (rq_drv_path (qb_request b)) @ ''.'' @ nl @
     ''Reason: local builds are disabled (max-jobs = 0)'' @ nl @
     ''Hint: set '' @ quoted ''max-jobs'' @ '' to a non-zero value to enable local builds, '' @
     ''or configure remote builders via '' @ quoted ''builders''"

definition offered :: "Scheduler \<Rightarrow> string list store_dict" where
  "offered sc =
     foldl union_at [] (concat (map (\<lambda>(_, d). case ds_feature_matrix d of Some m \<Rightarrow> m | None \<Rightarrow> []) (sched_stores sc)))"

definition no_store_message :: "Scheduler \<Rightarrow> QueuedBuild \<Rightarrow> string list \<Rightarrow> string" where
  "no_store_message sc b features =
     (let platform = bd_platform (drv_of b) in
      ''Cannot build '' @ quoted (rq_drv_path (qb_request b)) @ ''.'' @
      (case map_of (offered sc) platform of
         None \<Rightarrow>
           nl @ ''Reason: platform mismatch'' @ nl @ ''Required system: '' @ quoted platform @ nl @ ''Current system: '' @
           quoted (let systems = join '', '' (sort (map fst (offered sc))) in if systems = [] then ''none'' else systems)
       | Some fs \<Rightarrow>
           nl @ ''Reason: missing system features'' @ nl @ ''Required features: {'' @ join '', '' (sort features) @ ''}'' @
           nl @ ''Available features: {'' @ join '', '' (sort fs) @ ''}''))"

definition all_blacklisted_message :: "Scheduler \<Rightarrow> QueuedBuild \<Rightarrow> string list \<Rightarrow> string" where
  "all_blacklisted_message sc b features =
     ''All compatible stores failed for '' @ bd_platform (drv_of b) @
     (if features = [] then [] else '' (requires '' @ join '', '' (sort features) @ '')'') @ '':'' @
     concat (map (\<lambda>(_, d). nl @ ''  '' @ ds_store_id d @ '': '' @
         (case map_of (qb_store_errors b) (ds_store_id d) of Some e \<Rightarrow> e | None \<Rightarrow> ''no error recorded''))
       (filter (\<lambda>(_, d). supports_derivation d (bd_platform (drv_of b)) features) (sched_stores sc)))"

definition fail_build :: "sender \<Rightarrow> nat \<Rightarrow> string \<Rightarrow> nat \<Rightarrow> seconds \<Rightarrow> (Scheduler, unit) eff" where
  "fail_build send r error_msg status now = (\<lambda>sc.
     on_queue (fail send (qb_build_id (build_of sc r)) error_msg status now) sc)"

definition post_line :: "sender \<Rightarrow> nat \<Rightarrow> string \<Rightarrow> (Scheduler, unit) eff" where
  "post_line send r line = on_queue (on_build r (post_log_and_fanout send (LogNext (''pynixd: '' @ line @ nl))))"

primrec post_lines :: "sender \<Rightarrow> nat \<Rightarrow> string list \<Rightarrow> (Scheduler, unit) eff" where
  "post_lines send r [] = ret ()"
| "post_lines send r (l # ls) = bind (post_line send r l) (\<lambda>_. post_lines send r ls)"

definition fail_and_tell :: "sender \<Rightarrow> nat \<Rightarrow> string \<Rightarrow> nat \<Rightarrow> seconds \<Rightarrow> (Scheduler, unit) eff" where
  "fail_and_tell send r error_msg status now =
     bind (fail_build send r error_msg status now) (\<lambda>_. post_lines send r (split_on (CHR 0x0A) error_msg))"

section \<open>A pass\<close>

text \<open>\<open>_spawn_worker\<close> makes a new cancel scope, here the next number.\<close>

definition start_build :: "nat \<Rightarrow> RankedStore \<Rightarrow> (Scheduler, unit) eff" where
  "start_build r rs = (\<lambda>sc.
     let i = rk_store_id rs;
         sc1 = sc\<lparr>sc_queue := upd r (assign_store i) (sc_queue sc)\<rparr>
     in if \<not> sc_workers sc then (Inl RuntimeError, sc1)
        else (Inr (), sc1\<lparr>sc_queue := upd r (spawn_worker (sc_next_scope sc)) (sc_queue sc1),
                 sc_next_scope := Suc (sc_next_scope sc),
                 sc_assigned := dict_set i (count_at (sc_assigned sc) i + 1) (sc_assigned sc),
                 sc_reserved := (if peak_of (build_of sc r) = 0 then sc_reserved sc
                                 else dict_set i (count_at (sc_reserved sc) i + peak_of (build_of sc r)) (sc_reserved sc))\<rparr>))"

definition act :: "sender \<Rightarrow> seconds \<Rightarrow> nat \<Rightarrow> Decision \<Rightarrow> (Scheduler, bool) eff" where
  "act send now r d = (\<lambda>sc.
     let b = build_of sc r; features = effective_required_features (drv_of b) in
     case d of
       NoLocal \<Rightarrow> bind (fail_build send r (no_local_jobs_message b) INPUT_REJECTED now) (\<lambda>_. ret False) sc
     | NoStore \<Rightarrow> bind (fail_and_tell send r (no_store_message sc b features) INPUT_REJECTED now) (\<lambda>_. ret False) sc
     | AllBlacklisted \<Rightarrow> bind (fail_and_tell send r (all_blacklisted_message sc b features) MISC_FAILURE now) (\<lambda>_. ret False) sc
     | WaitForRoom \<Rightarrow> (Inr True, sc\<lparr>sc_held_by_pressure := set_add (qb_build_id b) (sc_held_by_pressure sc)\<rparr>)
     | Wait reason \<Rightarrow> (Inr True, sc)
     | Start rs reason \<Rightarrow> bind (start_build r rs) (\<lambda>_. ret False) sc)"

record turn_input =
  ti_ask :: "string \<Rightarrow> error + measurement"
  ti_now :: seconds
  ti_draw :: rat
  ti_pick :: rat

definition decision :: "turn_input \<Rightarrow> nat \<Rightarrow> Scheduler \<Rightarrow> Decision" where
  "decision ti r sc = decide sc (ti_now ti) (ti_draw ti) (ti_pick ti) (build_of sc r)"

definition place :: "sender \<Rightarrow> turn_input \<Rightarrow> nat \<Rightarrow> (Scheduler, bool) eff" where
  "place send ti r = (\<lambda>sc.
     let b = build_of sc r in
     if nobody_wants (sc_queue sc) b
     then (Inr False, sc\<lparr>sc_queue := cancel_unwanted (qb_build_id b) (ti_now ti) (sc_queue sc)\<rparr>)
     else bind (measure_build (ti_ask ti) (ti_now ti) r) (\<lambda>_ sc1. act send (ti_now ti) r (decision ti r sc1) sc1) sc)"

definition assign_one :: "sender \<Rightarrow> turn_input \<Rightarrow> nat \<Rightarrow> (Scheduler, bool) eff" where
  "assign_one send ti r = (\<lambda>sc. if is_building (build_of sc r) then (Inr False, sc) else place send ti r sc)"

definition assignment_crashed :: "sender \<Rightarrow> string \<Rightarrow> seconds \<Rightarrow> nat \<Rightarrow> (Scheduler, unit) eff" where
  "assignment_crashed send reason now r =
     bind (post_line send r (''internal error, failing build: '' @ reason)) (\<lambda>_.
       fail_build send r (''pynixd internal error: '' @ reason) MISC_FAILURE now)"

fun assign_each :: "sender \<Rightarrow> (error \<Rightarrow> string) \<Rightarrow> (nat \<Rightarrow> turn_input) \<Rightarrow> nat list \<Rightarrow> (Scheduler, nat list) eff" where
  "assign_each send error_text inp [] sc = (Inr [], sc)"
| "assign_each send error_text inp (r # rs) sc =
     (case assign_one send (inp r) r sc of
        (Inr waits, sc1) \<Rightarrow>
          bind (assign_each send error_text inp rs) (\<lambda>ws. ret (if waits then r # ws else ws)) sc1
      | (Inl e, sc1) \<Rightarrow>
          bind (assignment_crashed send (error_text e) (ti_now (inp r)) r) (\<lambda>_. assign_each send error_text inp rs) sc1)"

fun count_running :: "int store_dict \<Rightarrow> QueuedBuild list \<Rightarrow> error + int store_dict" where
  "count_running tally [] = Inr tally"
| "count_running tally (b # bs) =
     (case qb_assigned_store_id b of
        Some s \<Rightarrow>
          if is_building b \<and> s \<noteq> []
          then (case map_of tally s of
                  None \<Rightarrow> Inl KeyError
                | Some n \<Rightarrow> count_running (dict_set s (n + 1) tally) bs)
          else count_running tally bs
      | None \<Rightarrow> count_running tally bs)"

definition filter_schedulable :: "Scheduler \<Rightarrow> nat list \<Rightarrow> error + nat list \<times> int store_dict" where
  "filter_schedulable sc pending =
     map_sum id (\<lambda>tally. (filter (\<lambda>r. \<not> is_building (build_of sc r)) pending, tally))
       (count_running (foldl (\<lambda>m (_, d). dict_set (ds_store_id d) 0 m) [] (sched_stores sc)) (map (build_of sc) pending))"

definition begin_pass :: "int store_dict \<Rightarrow> Scheduler \<Rightarrow> Scheduler" where
  "begin_pass running sc =
     sc\<lparr>sc_running := running, sc_assigned := [],
       sc_reserved := reserved_memory (map (\<lambda>e. build_of sc (snd e)) (bq_by_id (sc_queue sc))) [],
       sc_held_by_pressure := []\<rparr>"

definition schedule_pass :: "sender \<Rightarrow> (error \<Rightarrow> string) \<Rightarrow> (nat \<Rightarrow> turn_input) \<Rightarrow> (Scheduler, unit) eff" where
  "schedule_pass send error_text inp = (\<lambda>sc0.
     let sc = sc0\<lparr>sc_pass_id := Suc (sc_pass_id sc0)\<rparr>;
         pending = get_pending (sc_queue sc)
     in if pending = [] then (Inr (), sc\<lparr>sc_builds_waiting := False\<rparr>)
        else case filter_schedulable sc pending of
               Inl e \<Rightarrow> (Inl e, sc)
             | Inr (schedulable, running) \<Rightarrow>
                 bind (assign_each send error_text inp schedulable)
                   (\<lambda>waiting sc. (Inr (), sc\<lparr>sc_builds_waiting := waiting \<noteq> []\<rparr>)) (begin_pass running sc))"

text \<open>One round of the loop of \<open>start\<close>: it logs what a pass raises and goes on.\<close>

definition loop_round :: "sender \<Rightarrow> (error \<Rightarrow> string) \<Rightarrow> (nat \<Rightarrow> turn_input) \<Rightarrow> Scheduler \<Rightarrow> Scheduler" where
  "loop_round send error_text inp sc =
     (if sc_triggered sc then snd (schedule_pass send error_text inp (sc\<lparr>sc_triggered := False\<rparr>)) else sc)"

end
