(* ===== verification/Scheduler_Pass.thy ===== *)
theory Scheduler_Pass
  imports Scheduler
begin

text \<open>
  What a scheduling pass keeps: a build starts only on a store that can take it and has room, no store
  runs more builds than its limit even when other tasks run between the decisions of a pass, and no
  pending build is forgotten.
\<close>

section \<open>A sample\<close>

text \<open>One build waits; a remote store and the local one can take it.\<close>

definition sample_scheduler :: Scheduler where
  "sample_scheduler =
     \<lparr>sc_queue = snd (enqueue (sample_args 1) empty_queue), sc_daemons = [(''b'', sample_store ''b'')],
      sc_local = sample_store ''local'', sc_ctx_stores = [''local'', ''b''], sc_alloc_stores = [''local'', ''b''],
      sc_settings = default_ranking, sc_dynamic = [], sc_workers = True, sc_next_scope = 0, sc_held_by_pressure = [],
      sc_builds_waiting = False, sc_triggered = True, sc_pass_id = 0, sc_has_db = False, sc_trace_enabled = False,
      sc_running = [], sc_assigned = [], sc_reserved = [], sc_output_locations = []\<rparr>"

definition sample_turn :: turn_input where
  "sample_turn = \<lparr>ti_ask = (\<lambda>_. Inl KeyError), ti_now = 0, ti_draw = 0, ti_pick = 0\<rparr>"

definition started_on :: "Decision \<Rightarrow> string option" where
  "started_on d = (case d of Start rs _ \<Rightarrow> Some (rk_store_id rs) | _ \<Rightarrow> None)"

lemma started_on_Start: "started_on d = Some i \<Longrightarrow> \<exists>rs why. d = Start rs why \<and> rk_store_id rs = i"
  by (cases d) (auto simp: started_on_def)

lemma sample_decision: "started_on (decide sample_scheduler 0 0 0 (build_of sample_scheduler 0)) = Some ''b''"
  by code_simp

lemma sample_schedulable:
  "filter_schedulable sample_scheduler (get_pending (sc_queue sample_scheduler)) = Inr ([0], [(''local'', 0), (''b'', 0)])"
  by code_simp

lemma sample_pass_decision:
  "started_on (decision sample_turn 0 (begin_pass [(''local'', 0), (''b'', 0)] sample_scheduler)) = Some ''b''"
  by code_simp

lemma sample_scheduler_run: "bq_step\<^sup>*\<^sup>* empty_queue (sc_queue sample_scheduler)"
  by (simp add: sample_scheduler_def sample_run)

lemma sample_pass: "fst (schedule_pass everyone (\<lambda>_. []) (\<lambda>_. sample_turn) sample_scheduler) = Inr ()"
  by code_simp

lemma sample_pending: "get_pending (sc_queue sample_scheduler) = [0]"
  by code_simp

section \<open>Where a build may start\<close>

lemma fit_memory_subset: "set (mf_stores (fit_memory ranked peak reserved)) \<subseteq> set ranked"
  by (auto simp: fit_memory_def Let_def split: option.splits)

lemma ranked_store:
  assumes "c \<in> set (fst (rank_stores now a b ra))"
  shows "rk_store_id c = ds_store_id (rk_store c) \<and> rk_store c \<in> set (candidate_order a) \<and> can_take now a b (rk_store c)"
  using assms by (auto simp: rank_stores_parted(1) ranked_of_def is_candidate_def)

lemma without_local_jobs_mem:
  assumes "without_local_jobs sc b ranked can_local = Some (ranked', can_local')"
  shows "set ranked' \<subseteq> set ranked" "can_local' \<Longrightarrow> can_local"
    "rs_no_local_jobs (sc_settings sc) \<noteq> one_slot \<Longrightarrow> client_forbids_local sc b \<Longrightarrow>
       has_compatible_store sc b (effective_required_features (drv_of b)) \<Longrightarrow> local_id sc \<notin> rk_store_id ` set ranked' \<and> \<not> can_local'"
  using assms by (auto simp: without_local_jobs_def Let_def split: if_splits)

lemma final_candidates_mem:
  assumes "c \<in> set (final_candidates sc b ranked can_local)"
  shows "(here_only b \<longrightarrow> rk_store_id c = local_id sc) \<and>
    (c \<in> set ranked \<or> can_local \<and> rk_store_id c = local_id sc \<and> rk_store c = sc_local sc)"
proof -
  define r1 where "r1 = (if here_only b then filter (\<lambda>c. rk_store_id c = local_id sc) ranked else ranked)"
  define r2 where "r2 = (if prefers_local b can_local \<and> \<not> (\<exists>c \<in> set r1. rk_store_id c = local_id sc)
      then r1 @ [\<lparr>rk_store_id = local_id sc, rk_score = 0, rk_store = sc_local sc, rk_breakdown = None\<rparr>] else r1)"
  have "set (final_candidates sc b ranked can_local) = set r2"
    unfolding final_candidates_def Let_def r1_def [symmetric] r2_def [symmetric] by auto
  with assms have "c \<in> set r2" by simp
  then have "c \<in> set r1 \<or> can_local \<and> rk_store_id c = local_id sc \<and> rk_store c = sc_local sc"
    unfolding r2_def prefers_local_def by (simp split: if_splits) (elim disjE; simp)
  then show ?thesis unfolding r1_def by (simp split: if_splits) blast
qed

lemma choose_store_mem:
  assumes "choose_store sc now draw pick b ranked prefer = Start rs why" "0 \<le> pick" "pick < 1"
  shows "rs \<in> set ranked \<and> has_build_room sc (rk_store rs) \<and> (rk_store_id rs = local_id sc \<longrightarrow> \<not> local_slot_is_full sc b)"
proof -
  define fit where "fit = fit_memory (filter (\<lambda>c. has_build_room sc (rk_store c)) ranked) (qb_expected_peak_bytes b) (sc_reserved sc)"
  have fit: "set (mf_stores fit) \<subseteq> {c \<in> set ranked. has_build_room sc (rk_store c)}"
    using fit_memory_subset unfolding fit_def by fastforce
  have "rs \<in> set (mf_stores fit) \<and> (rk_store_id rs = local_id sc \<longrightarrow> \<not> local_slot_is_full sc b)"
    using assms unfolding choose_store_def Let_def fit_def [symmetric]
    by (auto split: if_splits option.splits dest!: pick_store_mem explore_store_mem)
  with fit show ?thesis by blast
qed

lemma decide_start:
  assumes "decide sc now draw pick b = Start rs why" and "0 \<le> pick" and "pick < 1"
  shows "rk_store_id rs = ds_store_id (rk_store rs) \<and> rk_store rs \<in> set (candidate_order (allocator_of sc)) \<and>
    is_healthy now (rk_store rs) \<and> \<not> ds_draining (rk_store rs) \<and> \<not> is_blacklisted b (rk_store_id rs) \<and>
    supports_derivation (rk_store rs) (bd_platform (drv_of b)) (effective_required_features (drv_of b)) \<and>
    has_build_room sc (rk_store rs) \<and>
    (here_only b \<longrightarrow> rk_store_id rs = local_id sc) \<and>
    (rk_store_id rs = local_id sc \<longrightarrow> \<not> local_slot_is_full sc b \<and>
      (rs_no_local_jobs (sc_settings sc) = one_slot \<or> \<not> client_forbids_local sc b \<or>
        \<not> has_compatible_store sc b (effective_required_features (drv_of b))))"
proof -
  let ?ranked = "fst (rank_stores now (allocator_of sc) b (rank_args_of sc b))"
  obtain ranked0 can_local where w: "without_local_jobs sc b ?ranked (local_can_build sc now b) = Some (ranked0, can_local)"
    and ch: "choose_store sc now draw pick b (final_candidates sc b ranked0 can_local) (prefers_local b can_local) = Start rs why"
    using assms(1) by (auto simp: decide_def Let_def split: option.splits prod.splits if_splits)
  note c = choose_store_mem [OF ch assms(2,3)]
  have loc: "sc_local sc \<in> set (candidate_order (allocator_of sc))"
    by (simp add: candidate_order_def allocator_of_def Let_def)
  have org: "rs \<in> set ranked0 \<or> can_local \<and> rk_store_id rs = local_id sc \<and> rk_store rs = sc_local sc"
    and here: "here_only b \<longrightarrow> rk_store_id rs = local_id sc"
    using final_candidates_mem c by blast+
  have forbids: "rs_no_local_jobs (sc_settings sc) = one_slot \<or> \<not> client_forbids_local sc b \<or>
      \<not> has_compatible_store sc b (effective_required_features (drv_of b))" if "rk_store_id rs = local_id sc"
    using without_local_jobs_mem(3) [OF w] org that by (metis image_eqI)
  have "rk_store_id rs = ds_store_id (rk_store rs) \<and> rk_store rs \<in> set (candidate_order (allocator_of sc)) \<and>
    is_healthy now (rk_store rs) \<and> \<not> ds_draining (rk_store rs) \<and> \<not> is_blacklisted b (rk_store_id rs) \<and>
    supports_derivation (rk_store rs) (bd_platform (drv_of b)) (effective_required_features (drv_of b))"
    using org
  proof
    assume "rs \<in> set ranked0"
    then have "rs \<in> set ?ranked" using without_local_jobs_mem(1) [OF w] by blast
    from ranked_store [OF this] show ?thesis by (auto simp: can_take_def incapable_reason_def split: if_splits)
  next
    assume "can_local \<and> rk_store_id rs = local_id sc \<and> rk_store rs = sc_local sc"
    then show ?thesis using without_local_jobs_mem(2) [OF w] loc by (auto simp: local_can_build_def)
  qed
  with c here forbids show ?thesis by blast
qed

text \<open>
  C6. A build starts only on a store that is healthy, not draining, able to build it, and that has not
  failed it too often; that store has room under its build limit. It starts on the local store only
  when a client that wants it has a local slot left, and never when all of them forbid local builds
  and another store could take it; a check of an existing output starts nowhere else.
\<close>

theorem start_is_allowed:
  assumes "decide sc now draw pick b = Start rs why" and "0 \<le> pick" and "pick < 1"
  shows "rk_store_id rs = ds_store_id (rk_store rs) \<and> rk_store rs \<in> set (candidate_order (allocator_of sc)) \<and>
    is_healthy now (rk_store rs) \<and> \<not> ds_draining (rk_store rs) \<and> \<not> is_blacklisted b (rk_store_id rs) \<and>
    supports_derivation (rk_store rs) (bd_platform (drv_of b)) (effective_required_features (drv_of b)) \<and>
    has_build_room sc (rk_store rs) \<and>
    (here_only b \<longrightarrow> rk_store_id rs = local_id sc) \<and>
    (rk_store_id rs = local_id sc \<longrightarrow> \<not> local_slot_is_full sc b \<and>
      (rs_no_local_jobs (sc_settings sc) = one_slot \<or> \<not> client_forbids_local sc b \<or>
        \<not> has_compatible_store sc b (effective_required_features (drv_of b))))"
  by (rule decide_start [OF assms])

theorem start_is_allowed_witness:
  "\<exists>rs why. decide sample_scheduler 0 0 0 (build_of sample_scheduler 0) = Start rs why \<and> rk_store_id rs = ''b'' \<and>
    is_healthy 0 (rk_store rs) \<and> has_build_room sample_scheduler (rk_store rs)"
proof -
  obtain rs why where d: "decide sample_scheduler 0 0 0 (build_of sample_scheduler 0) = Start rs why" "rk_store_id rs = ''b''"
    using started_on_Start [OF sample_decision] by blast
  from start_is_allowed [OF d(1)] d show ?thesis by simp
qed

section \<open>What a pass writes\<close>

text \<open>
  The writes of a pass on one build: they are steps of the queue, and leave the list, the indexes and
  every other build. \<open>rests\<close> is such a run that starts no worker.
\<close>

definition touches :: "nat \<Rightarrow> BuildQueue \<Rightarrow> BuildQueue \<Rightarrow> bool" where
  "touches r q q' \<longleftrightarrow> bq_step\<^sup>*\<^sup>* q q' \<and> bq_queue q' = bq_queue q \<and> bq_by_id q' = bq_by_id q \<and>
     length (bq_builds q') = length (bq_builds q) \<and> (\<forall>s. s \<noteq> r \<longrightarrow> build_at q' s = build_at q s)"

definition rests :: "nat \<Rightarrow> BuildQueue \<Rightarrow> BuildQueue \<Rightarrow> bool" where
  "rests r q q' \<longleftrightarrow> touches r q q' \<and> qb_worker (build_at q' r) = qb_worker (build_at q r) \<and>
     qb_assigned_store_id (build_at q' r) = qb_assigned_store_id (build_at q r) \<and>
     qb_store_failures (build_at q' r) = qb_store_failures (build_at q r)"

lemma touches_refl [simp]: "touches r q q"
  by (simp add: touches_def)

lemma touches_trans: "touches r a b \<Longrightarrow> touches r b c \<Longrightarrow> touches r a c"
  unfolding touches_def by (elim conjE, intro conjI; simp)

lemma rests_refl [simp]: "rests r q q"
  by (simp add: rests_def)

lemma rests_trans: "rests r a b \<Longrightarrow> rests r b c \<Longrightarrow> rests r a c"
  unfolding rests_def using touches_trans by force

lemma touches_upd: "bq_step q (upd r f q) \<Longrightarrow> touches r q (upd r f q)"
  by (auto simp: touches_def upd_def)

lemma build_at_upd_same:
  "build_at (upd r f q) r = (if r < length (bq_builds q) then f (build_at q r) else build_at q r)"
  by (simp add: upd_def list_update_beyond)

lemma rests_upd:
  assumes "bq_step q (upd r f q)" and "\<And>b. qb_worker (f b) = qb_worker b" and "\<And>b. qb_assigned_store_id (f b) = qb_assigned_store_id b"
    and "\<And>b. qb_store_failures (f b) = qb_store_failures b"
  shows "rests r q (upd r f q)"
  using assms(2-4) by (simp add: rests_def touches_upd [OF assms(1)] build_at_upd_same)

lemma rests_core: "bq_step q (upd r f q) \<Longrightarrow> (\<And>b. same_core b (f b)) \<Longrightarrow> rests r q (upd r f q)"
  by (rule rests_upd) (simp_all add: same_core_def)

lemma touches_ok:
  assumes "touches r q q'" and "bq_ok q"
  shows "bq_ok q'" "qb_build_id (build_at q' r) = qb_build_id (build_at q r)"
proof -
  show ok: "bq_ok q'" using assms bq_run by (metis touches_def)
  have len: "length (bq_builds q') = length (bq_builds q)" using assms(1) by (simp add: touches_def)
  show "qb_build_id (build_at q' r) = qb_build_id (build_at q r)"
  proof (cases "r < length (bq_builds q)")
    case True
    then show ?thesis using build_id_at [OF ok] build_id_at [OF assms(2)] len by simp
  next
    case False
    have "bq_builds q' = bq_builds q"
      using assms(1) False by (intro nth_equalityI) (simp_all add: touches_def)
    then show ?thesis by simp
  qed
qed

lemma rests_ok:
  assumes "rests r q q'" and "bq_ok q" and "r < length (bq_builds q)"
  shows "bq_ok q'" "qb_build_id (build_at q' r) = qb_build_id (build_at q r)" "r < length (bq_builds q')"
proof -
  have t: "touches r q q'" using assms(1) by (simp add: rests_def)
  show "bq_ok q'" "qb_build_id (build_at q' r) = qb_build_id (build_at q r)" by (rule touches_ok [OF t assms(2)])+
  show "r < length (bq_builds q')" using t assms(3) by (simp add: touches_def)
qed

lemma on_build_bind:
  "snd (on_build r (bind m f) q) =
     (case m (build_at q r) of
        (Inl e, b) \<Rightarrow> upd r (\<lambda>_. b) q
      | (Inr x, b) \<Rightarrow> upd r (\<lambda>b'. snd (f x b')) (upd r (\<lambda>_. b) q))"
  by (cases "r < length (bq_builds q)")
    (auto simp: on_build_def upd_def bind_apply list_update_beyond split: prod.split sum.split)

lemma rests_fan_out: "rests r q (snd (on_build r (post_log_and_fanout send msg) q))"
proof -
  obtain x b where p: "post_log msg (build_at q r) = (x, b)" by fastforce
  let ?q1 = "snd (on_build r (post_log msg) q)"
  have q1: "?q1 = upd r (\<lambda>_. b) q" using p by (simp add: on_build_def upd_def)
  have "rests r q ?q1"
    unfolding snd_on_build
    by (rule rests_core) (simp_all add: same_core_post_log step_log [where r = r and msg = msg and x = "fst (on_build r (post_log msg) q)"]
        flip: snd_on_build)
  moreover have "rests r ?q1 (upd r (post_log_bytes send raw) ?q1)" for raw
    by (rule rests_core [OF step_fan_out same_core_post_log_bytes])
  ultimately have fan: "rests r q ?q1" "rests r q (upd r (post_log_bytes send raw) ?q1)" for raw
    using rests_trans by blast+
  show ?thesis
    unfolding post_log_and_fanout_def on_build_bind p
    using fan [unfolded q1] by (auto split: sum.split)
qed

lemma by_id_same:
  assumes "bq_ok q" and "r < length (bq_builds q)" and "map_of (bq_by_id q) (qb_build_id (build_at q r)) = Some s"
  shows "s = r"
  using assms by (simp add: by_id_iff build_id_at)

lemma find_build_same:
  assumes "bq_ok q" and "r < length (bq_builds q)" and "find_build q (qb_build_id (build_at q r)) = Some s"
  shows "s = r"
proof -
  from find_Some_mem [OF assms(3) [unfolded find_build_def]]
  have s: "s \<in> set (bq_queue q)" "qb_build_id (build_at q s) = qb_build_id (build_at q r)" by simp_all
  then show ?thesis using build_id_at [OF assms(1)] queue_less [OF assms(1) s(1)] assms(2) by simp
qed

lemma rests_stop_waiting:
  assumes "bq_ok q" and "r < length (bq_builds q)"
  shows "rests r q (snd (stop_waiting send (qb_build_id (build_at q r)) q))"
proof (cases "map_of (bq_by_id q) (qb_build_id (build_at q r))")
  case (Some s)
  let ?q' = "snd (stop_waiting send (qb_build_id (build_at q r)) q)"
  have "s = r" by (rule by_id_same [OF assms Some])
  then have eq: "?q' = upd r (\<lambda>b. snd (stop_waiting_activities send b)) q"
    using Some by (simp add: stop_waiting_def snd_on_build)
  have "bq_step q ?q'" by (rule step_stop_waiting [OF surjective_pairing])
  then show ?thesis unfolding eq by (rule rests_core) (rule same_core_stop_waiting)
qed (simp add: stop_waiting_def)

lemma answer_fields:
  "snd (note_a_request_that_gave_up s status q) = q\<lparr>bq_given_up := bq_given_up (snd (note_a_request_that_gave_up s status q))\<rparr>"
  by (simp add: note_a_request_that_gave_up_def split: sum.split bool.split)

lemma rests_fail_locked:
  assumes "bq_ok q" and "r < length (bq_builds q)"
  shows "rests r q (snd (fail_locked (qb_build_id (build_at q r)) msg status now q))"
proof -
  let ?q' = "snd (fail_locked (qb_build_id (build_at q r)) msg status now q)"
  have step: "bq_step q ?q'" by (rule step_fail [OF surjective_pairing])
  show ?thesis
  proof (cases "find_build q (qb_build_id (build_at q r))")
    case (Some s)
    have s: "s = r" by (rule find_build_same [OF assms Some])
    show ?thesis
      using step Some unfolding s rests_def touches_def
      by (auto simp: fail_locked_def bind_apply note_a_request_that_gave_up_def build_at_upd_same assms(2)
          upd_def r_into_rtranclp split: sum.split bool.split)
  qed (simp add: fail_locked_def)
qed

text \<open>\<open>fail\<close> and \<open>complete\<close> first end the waiting messages, then answer under the lock.\<close>

lemma stop_then_run:
  assumes "bq_ok q" and "r < length (bq_builds q)"
    and "\<And>q1. bq_ok q1 \<Longrightarrow> r < length (bq_builds q1) \<Longrightarrow> qb_build_id (build_at q1 r) = qb_build_id (build_at q r) \<Longrightarrow>
      rests r q1 (snd (locked q1)) \<and> (\<forall>q'. locked q1 = (Inr (), q') \<longrightarrow> P q')"
  shows "rests r q (snd (bind (stop_waiting send (qb_build_id (build_at q r))) (\<lambda>_. locked) q))"
    "bind (stop_waiting send (qb_build_id (build_at q r))) (\<lambda>_. locked) q = (Inr (), q') \<Longrightarrow> P q'"
proof -
  obtain x q1 where s: "stop_waiting send (qb_build_id (build_at q r)) q = (x, q1)" by fastforce
  have q1: "rests r q q1" using rests_stop_waiting [OF assms(1,2), of send] s by simp
  note ok = rests_ok [OF q1 assms(1,2)]
  note l = assms(3) [OF ok(1,3,2)]
  show "rests r q (snd (bind (stop_waiting send (qb_build_id (build_at q r))) (\<lambda>_. locked) q))"
    using s q1 rests_trans [OF q1] l by (cases x) (simp_all add: bind_apply)
  show "bind (stop_waiting send (qb_build_id (build_at q r))) (\<lambda>_. locked) q = (Inr (), q') \<Longrightarrow> P q'"
    using s l by (cases x) (simp_all add: bind_apply)
qed

lemma find_build_found:
  assumes "bq_ok q" and "r < length (bq_builds q)" and "find_build q (qb_build_id (build_at q r)) \<noteq> None"
  shows "find_build q (qb_build_id (build_at q r)) = Some r"
  using assms(3) find_build_same [OF assms(1,2)] by auto

lemma fail_locked_run:
  assumes "bq_ok q" and "r < length (bq_builds q)"
  shows "rests r q (snd (fail_locked (qb_build_id (build_at q r)) msg status now q)) \<and>
    (\<forall>q'. fail_locked (qb_build_id (build_at q r)) msg status now q = (Inr (), q') \<longrightarrow> is_done (build_at q' r))"
proof (intro conjI allI impI)
  show "rests r q (snd (fail_locked (qb_build_id (build_at q r)) msg status now q))" by (rule rests_fail_locked [OF assms])
  fix q' assume f: "fail_locked (qb_build_id (build_at q r)) msg status now q = (Inr (), q')"
  then have "find_build q (qb_build_id (build_at q r)) = Some r"
    by (intro find_build_found [OF assms]) (auto simp: fail_locked_def split: option.splits)
  with f assms(2) show "is_done (build_at q' r)"
    by (auto simp: fail_locked_def bind_apply note_a_request_that_gave_up_def upd_def is_done_def ans_done_def
        split: if_splits sum.splits bool.splits)
qed

lemma fail_run:
  assumes "bq_ok q" and "r < length (bq_builds q)"
  shows "rests r q (snd (fail send (qb_build_id (build_at q r)) msg status now q))"
    "fail send (qb_build_id (build_at q r)) msg status now q = (Inr (), q') \<Longrightarrow> is_done (build_at q' r)"
  unfolding fail_def
  by (rule stop_then_run [OF assms, where P = "\<lambda>q'. is_done (build_at q' r)"]; use fail_locked_run in force)+

lemmas rests_fail = fail_run(1) and fail_answers = fail_run(2)

lemma complete_locked_run:
  assumes "bq_ok q" and "r < length (bq_builds q)"
  shows "rests r q (snd (complete_locked (qb_build_id (build_at q r)) resp now q)) \<and>
    (\<forall>q'. complete_locked (qb_build_id (build_at q r)) resp now q = (Inr (), q') \<longrightarrow> is_done (build_at q' r))"
proof (intro conjI allI impI)
  let ?i = "qb_build_id (build_at q r)"
  show "rests r q (snd (complete_locked ?i resp now q))"
  proof (cases "find_build q ?i")
    case (Some s)
    have s: "s = r" by (rule find_build_same [OF assms Some])
    show ?thesis
      using step_complete [of ?i resp now q, OF surjective_pairing] Some unfolding s rests_def touches_def
      by (auto simp: complete_locked_def bind_apply note_a_request_that_gave_up_def build_at_upd_same assms(2)
          upd_def r_into_rtranclp split: sum.split bool.split)
  qed (simp add: complete_locked_def)
  fix q' assume f: "complete_locked ?i resp now q = (Inr (), q')"
  then have "find_build q ?i = Some r"
    by (intro find_build_found [OF assms]) (auto simp: complete_locked_def split: option.splits)
  with f assms(2) show "is_done (build_at q' r)"
    by (auto simp: complete_locked_def bind_apply note_a_request_that_gave_up_def upd_def is_done_def ans_done_def
        split: if_splits sum.splits bool.splits)
qed

lemma complete_run:
  assumes "bq_ok q" and "r < length (bq_builds q)"
  shows "rests r q (snd (complete send (qb_build_id (build_at q r)) resp now q))"
    "complete send (qb_build_id (build_at q r)) resp now q = (Inr (), q') \<Longrightarrow> is_done (build_at q' r)"
  unfolding complete_def
  by (rule stop_then_run [OF assms, where P = "\<lambda>q'. is_done (build_at q' r)"]; use complete_locked_run in force)+

lemma rests_cancel_unwanted:
  assumes "bq_ok q" and "r < length (bq_builds q)"
  shows "rests r q (cancel_unwanted (qb_build_id (build_at q r)) now q)"
proof (cases "map_of (bq_by_id q) (qb_build_id (build_at q r))")
  case (Some s)
  have s: "s = r" by (rule by_id_same [OF assms Some])
  show ?thesis
    using step_cancel [of q "qb_build_id (build_at q r)" now] Some assms(2) unfolding s rests_def touches_def
    by (auto simp: cancel_unwanted_def cancel_locked_def cancel_build_def cancel_worker_def upd_def Let_def
        r_into_rtranclp split: option.split)
qed (simp add: cancel_unwanted_def)

section \<open>Runs of the parts of a pass\<close>

lemma rests_note_cost: "rests r q (upd r (\<lambda>b. note_cost (ft b) (fm b) (fe b) (fp b) b) q)"
proof -
  let ?b = "build_at q r"
  have eq: "upd r (\<lambda>b. note_cost (ft b) (fm b) (fe b) (fp b) b) q = upd r (note_cost (ft ?b) (fm ?b) (fe ?b) (fp ?b)) q"
    by (simp add: upd_def)
  show ?thesis unfolding eq by (rule rests_upd [OF step_note_cost]) (simp_all add: note_cost_def)
qed

lemma rests_measure_store: "rests r q (upd r (measure_store sc i m) q)"
  unfolding measure_store_def [abs_def] Let_def by (rule rests_note_cost)

lemma rests_measure_local: "rests r q (upd r (measure_local sc ms src) q)"
  unfolding measure_local_def [abs_def] by (rule rests_note_cost)

text \<open>A part of a pass that rests writes nothing but the queue and the builds that room is missing for.\<close>

definition sc_rests :: "nat \<Rightarrow> Scheduler \<Rightarrow> Scheduler \<Rightarrow> bool" where
  "sc_rests r sc sc' \<longleftrightarrow> rests r (sc_queue sc) (sc_queue sc') \<and>
     sc' = sc\<lparr>sc_queue := sc_queue sc', sc_held_by_pressure := sc_held_by_pressure sc'\<rparr>"

lemma sc_rests_refl [simp]: "sc_rests r sc sc"
  by (simp add: sc_rests_def)

lemma sc_rests_trans:
  assumes "sc_rests r a b" and "sc_rests r b c"
  shows "sc_rests r a c"
proof -
  obtain q1 h1 where b: "b = a\<lparr>sc_queue := q1, sc_held_by_pressure := h1\<rparr>" using assms(1) by (auto simp: sc_rests_def)
  obtain q2 h2 where c: "c = b\<lparr>sc_queue := q2, sc_held_by_pressure := h2\<rparr>" using assms(2) by (auto simp: sc_rests_def)
  have "rests r (sc_queue a) (sc_queue c)" using assms rests_trans by (auto simp: sc_rests_def)
  then show ?thesis by (simp add: sc_rests_def b c)
qed

lemma sc_rests_queue: "rests r (sc_queue sc) q' \<Longrightarrow> sc_rests r sc (sc\<lparr>sc_queue := q'\<rparr>)"
  by (simp add: sc_rests_def)

lemma sc_rests_on_queue: "rests r (sc_queue sc) (snd (m (sc_queue sc))) \<Longrightarrow> sc_rests r sc (snd (on_queue m sc))"
  by (auto simp: on_queue_def sc_rests_queue split: prod.splits)

lemma sc_rests_bind:
  assumes "sc_rests r sc (snd (m sc))" and "\<And>v sc1. m sc = (Inr v, sc1) \<Longrightarrow> sc_rests r sc sc1 \<Longrightarrow> sc_rests r sc1 (snd (f v sc1))"
  shows "sc_rests r sc (snd (bind m f sc))"
  by (rule snd_bindI) (use assms sc_rests_trans in \<open>fastforce+\<close>)

lemma sc_rests_ok:
  assumes "sc_rests r sc sc'" and "bq_ok (sc_queue sc)" and "r < length (bq_builds (sc_queue sc))"
  shows "bq_ok (sc_queue sc')" "qb_build_id (build_of sc' r) = qb_build_id (build_of sc r)"
    "r < length (bq_builds (sc_queue sc'))" "is_building (build_of sc' r) = is_building (build_of sc r)"
proof -
  have re: "rests r (sc_queue sc) (sc_queue sc')" using assms(1) by (simp add: sc_rests_def)
  show "bq_ok (sc_queue sc')" "qb_build_id (build_of sc' r) = qb_build_id (build_of sc r)"
    "r < length (bq_builds (sc_queue sc'))" by (rule rests_ok [OF re assms(2,3)])+
  show "is_building (build_of sc' r) = is_building (build_of sc r)" using re by (simp add: rests_def is_building_def)
qed

lemma rests_measure_each: "sc_rests r sc (snd (measure_each ask r ids sc))"
proof (induction ids arbitrary: sc)
  case (Cons i ids)
  show ?case
    unfolding measure_each.simps
    by (rule sc_rests_bind)
      (auto simp: of_result_def intro!: sc_rests_trans [OF sc_rests_queue [OF rests_measure_store] Cons.IH] split: sum.splits)
qed (simp add: ret_def)

lemma rests_measure_build: "sc_rests r sc (snd (measure_build ask now r sc))"
proof (cases "sc_has_db sc")
  case True
  have "sc_rests r sc1 (snd (if wants_estimates sc1 \<and> local_id sc1 \<notin> fst ` set (qb_estimates (build_of sc1 r))
      then (case ask (local_id sc1) of
              Inl e \<Rightarrow> (Inl e, sc1)
            | Inr m \<Rightarrow> (Inr (), sc1\<lparr>sc_queue := upd r (measure_local sc1 (ms_build_ms m) (ms_source m)) (sc_queue sc1)\<rparr>))
      else (Inr (), sc1)))" for sc1
    by (simp add: sc_rests_queue [OF rests_measure_local] split: sum.split)
  then show ?thesis using True unfolding measure_build_def by (simp only: not_True_eq_False if_False) (rule sc_rests_bind [OF rests_measure_each])
qed (simp add: measure_build_def)

lemma rests_post_line: "sc_rests r sc (snd (post_line send r l sc))"
  unfolding post_line_def by (rule sc_rests_on_queue) (rule rests_fan_out)

lemma rests_post_lines: "sc_rests r sc (snd (post_lines send r ls sc))"
proof (induction ls arbitrary: sc)
  case (Cons l ls)
  show ?case
    unfolding post_lines.simps by (rule sc_rests_bind [OF rests_post_line]) (rule Cons.IH)
qed (simp add: ret_def)

lemma rests_fail_build:
  assumes "bq_ok (sc_queue sc)" and "r < length (bq_builds (sc_queue sc))"
  shows "sc_rests r sc (snd (fail_build send r msg status now sc))"
  unfolding fail_build_def by (rule sc_rests_on_queue) (rule rests_fail [OF assms])

lemma fail_build_answers:
  assumes "bq_ok (sc_queue sc)" and "r < length (bq_builds (sc_queue sc))" and "fail_build send r msg status now sc = (Inr v, sc')"
  shows "is_done (build_of sc' r)"
proof -
  obtain q' where "fail send (qb_build_id (build_of sc r)) msg status now (sc_queue sc) = (Inr (), q')" "sc' = sc\<lparr>sc_queue := q'\<rparr>"
    using assms(3) by (auto simp: fail_build_def on_queue_def split: prod.splits)
  then show ?thesis using fail_answers [OF assms(1,2)] by simp
qed

lemma rests_fail_and_tell:
  assumes "bq_ok (sc_queue sc)" and "r < length (bq_builds (sc_queue sc))"
  shows "sc_rests r sc (snd (fail_and_tell send r msg status now sc))"
  unfolding fail_and_tell_def by (rule sc_rests_bind, rule rests_fail_build [OF assms], rule rests_post_lines)

lemma rests_done:
  assumes "sc_rests r sc sc'" and "bq_ok (sc_queue sc)" and "r < length (bq_builds (sc_queue sc))" and "is_done (build_of sc r)"
  shows "is_done (build_of sc' r)"
proof -
  have "bq_step\<^sup>*\<^sup>* (sc_queue sc) (sc_queue sc')" using assms(1) by (simp add: sc_rests_def rests_def touches_def)
  from bq_run [OF this assms(2)] assms(3,4) show ?thesis by (simp add: grows_def is_done_def)
qed

lemma fail_and_tell_answers:
  assumes "bq_ok (sc_queue sc)" and "r < length (bq_builds (sc_queue sc))" and "fail_and_tell send r msg status now sc = (Inr v, sc')"
  shows "is_done (build_of sc' r)"
proof -
  obtain w sc1 where f: "fail_build send r msg status now sc = (Inr w, sc1)" and p: "post_lines send r (split_on (CHR 0x0A) msg) sc1 = (Inr v, sc')"
    using assms(3) by (auto simp: fail_and_tell_def bind_apply split: prod.splits sum.splits)
  have "sc_rests r sc sc1" using rests_fail_build [OF assms(1,2), of send msg status now] f by simp
  note ok = sc_rests_ok [OF this assms(1,2)]
  have "sc_rests r sc1 sc'" using rests_post_lines [of r sc1 send "split_on (CHR 0x0A) msg"] p by simp
  then show ?thesis using rests_done ok(1,3) fail_build_answers [OF assms(1,2) f] by blast
qed

text \<open>A part of a pass that may start a worker for its build.\<close>

definition sc_touches :: "nat \<Rightarrow> Scheduler \<Rightarrow> Scheduler \<Rightarrow> bool" where
  "sc_touches r sc sc' \<longleftrightarrow> touches r (sc_queue sc) (sc_queue sc') \<and>
     (is_building (build_of sc r) \<longrightarrow> is_building (build_of sc' r))"

lemma sc_touches_rests: "sc_rests r sc sc' \<Longrightarrow> sc_touches r sc sc'"
  by (simp add: sc_touches_def sc_rests_def rests_def is_building_def)

lemma sc_touches_trans: "sc_touches r a b \<Longrightarrow> sc_touches r b c \<Longrightarrow> sc_touches r a c"
  unfolding sc_touches_def using touches_trans by blast

lemma touches_start: "sc_touches r sc (snd (start_build r rs sc))"
proof -
  let ?q1 = "upd r (assign_store (rk_store_id rs)) (sc_queue sc)"
  let ?q2 = "upd r (spawn_worker (sc_next_scope sc)) ?q1"
  have t: "touches r (sc_queue sc) ?q1" "touches r (sc_queue sc) ?q2"
    using touches_upd [OF step_assign] touches_upd [OF step_spawn] touches_trans by blast+
  then show ?thesis
    by (auto simp: start_build_def sc_touches_def Let_def is_building_def build_at_upd_same assign_store_def spawn_worker_def)
qed

lemma touches_act:
  assumes "bq_ok (sc_queue sc)" and "r < length (bq_builds (sc_queue sc))"
  shows "sc_touches r sc (snd (act send now r d sc))"
proof -
  have q: "snd (bind m (\<lambda>_. ret False) sc) = snd (m sc)" for m :: "(Scheduler, unit) eff"
    by (simp add: bind_apply ret_def split: prod.split sum.split)
  note rests = rests_fail_build [OF assms] rests_fail_and_tell [OF assms]
  show ?thesis
    by (cases d) (simp_all add: act_def Let_def q sc_touches_rests rests touches_start, simp add: sc_touches_def)
qed

text \<open>What a decision that returns leaves: the build waits, or it runs, or it is answered.\<close>

lemma act_settles:
  assumes "bq_ok (sc_queue sc)" and "r < length (bq_builds (sc_queue sc))" and "act send now r d sc = (Inr waits, sc')"
  shows "if waits then build_of sc' r = build_of sc r else is_building (build_of sc' r) \<or> is_done (build_of sc' r)"
proof -
  have "is_building (build_of sc' r)" if "start_build r rs sc = (Inr v, sc')" for rs v
    using that assms(2) by (auto simp: start_build_def Let_def is_building_def upd_def spawn_worker_def split: if_splits)
  then show ?thesis
    using assms(3) fail_build_answers [OF assms(1,2)] fail_and_tell_answers [OF assms(1,2)]
    by (cases d) (auto simp: act_def Let_def bind_apply ret_def split: prod.splits sum.splits)
qed

lemma sc_touches_ok:
  assumes "sc_touches r sc sc'" and "bq_ok (sc_queue sc)" and "s < length (bq_builds (sc_queue sc))"
  shows "bq_ok (sc_queue sc')" "s < length (bq_builds (sc_queue sc'))"
    "s \<noteq> r \<Longrightarrow> build_of sc' s = build_of sc s"
    "is_done (build_of sc s) \<Longrightarrow> is_done (build_of sc' s)"
    "is_building (build_of sc s) \<Longrightarrow> is_building (build_of sc' s)"
proof -
  have t: "touches r (sc_queue sc) (sc_queue sc')" using assms(1) by (simp add: sc_touches_def)
  show "bq_ok (sc_queue sc')" by (rule touches_ok [OF t assms(2)])
  show "s < length (bq_builds (sc_queue sc'))" "s \<noteq> r \<Longrightarrow> build_of sc' s = build_of sc s"
    using t assms(3) by (simp_all add: touches_def)
  show "is_done (build_of sc s) \<Longrightarrow> is_done (build_of sc' s)"
    using bq_run [of "sc_queue sc" "sc_queue sc'"] t assms(2,3) by (simp add: touches_def grows_def is_done_def)
  show "is_building (build_of sc s) \<Longrightarrow> is_building (build_of sc' s)"
    using assms(1) t by (cases "s = r") (simp_all add: sc_touches_def touches_def)
qed

lemma rests_cancelled:
  assumes "bq_ok (sc_queue sc)" and "r < length (bq_builds (sc_queue sc))"
  shows "sc_rests r sc (sc\<lparr>sc_queue := cancel_unwanted (qb_build_id (build_of sc r)) now (sc_queue sc)\<rparr>)"
  by (rule sc_rests_queue [OF rests_cancel_unwanted [OF assms]])

lemma place_cases:
  assumes "bq_ok (sc_queue sc)" and "r < length (bq_builds (sc_queue sc))"
  obtains (unwanted) "nobody_wants (sc_queue sc) (build_of sc r)" "place send ti r sc =
      (Inr False, sc\<lparr>sc_queue := cancel_unwanted (qb_build_id (build_of sc r)) (ti_now ti) (sc_queue sc)\<rparr>)"
    | (unmeasured) e sc1 where "measure_build (ti_ask ti) (ti_now ti) r sc = (Inl e, sc1)" "sc_rests r sc sc1"
      "place send ti r sc = (Inl e, sc1)"
    | (measured) sc1 where "measure_build (ti_ask ti) (ti_now ti) r sc = (Inr (), sc1)" "sc_rests r sc sc1"
      "bq_ok (sc_queue sc1)" "r < length (bq_builds (sc_queue sc1))"
      "place send ti r sc = act send (ti_now ti) r (decision ti r sc1) sc1"
proof (cases "nobody_wants (sc_queue sc) (build_of sc r)")
  case True
  then show ?thesis using that(1) by (simp add: place_def Let_def)
next
  case False
  obtain x sc1 where m: "measure_build (ti_ask ti) (ti_now ti) r sc = (x, sc1)" by fastforce
  then have re: "sc_rests r sc sc1" using rests_measure_build [of r sc "ti_ask ti" "ti_now ti"] by simp
  note ok = sc_rests_ok [OF re assms]
  show ?thesis
    using False m re ok(1,3) that(2,3) by (cases x) (simp_all add: place_def Let_def bind_apply)
qed

lemma touches_assign_one:
  assumes "bq_ok (sc_queue sc)" and "r < length (bq_builds (sc_queue sc))"
  shows "sc_touches r sc (snd (assign_one send ti r sc))"
proof (cases "is_building (build_of sc r)")
  case False
  have "sc_touches r sc (snd (place send ti r sc))"
  proof (cases rule: place_cases [OF assms, of send ti, case_names unwanted unmeasured measured])
    case unwanted
    then show ?thesis using sc_touches_rests [OF rests_cancelled [OF assms]] by simp
  next
    case (unmeasured e sc1)
    then show ?thesis using sc_touches_rests by simp
  next
    case (measured sc1)
    then show ?thesis using sc_touches_trans [OF sc_touches_rests touches_act] by simp
  qed
  then show ?thesis using False by (simp add: assign_one_def)
qed (simp add: assign_one_def sc_touches_def)

lemma cancel_unwanted_answers:
  assumes "bq_ok q" and "r \<in> set (bq_queue q)"
  shows "is_done (build_at (cancel_unwanted (qb_build_id (build_at q r)) now q) r)"
proof -
  have r: "r < length (bq_builds q)" by (rule queue_less [OF assms])
  then have "map_of (bq_by_id q) (qb_build_id (build_at q r)) = Some r"
    using by_id_iff [OF assms(1)] build_id_at [OF assms(1)] assms(2) by simp
  then show ?thesis
    using r by (auto simp: cancel_unwanted_def cancel_locked_def cancel_build_def Let_def upd_def is_done_def ans_done_def)
qed

lemma assign_one_settles:
  assumes "bq_ok (sc_queue sc)" and "r \<in> set (bq_queue (sc_queue sc))" and "assign_one send ti r sc = (Inr waits, sc')"
  shows "waits \<or> is_building (build_of sc' r) \<or> is_done (build_of sc' r)"
proof (cases "is_building (build_of sc r)")
  case False
  have len: "r < length (bq_builds (sc_queue sc))" by (rule queue_less [OF assms(1,2)])
  have p: "place send ti r sc = (Inr waits, sc')" using False assms(3) by (simp add: assign_one_def)
  show ?thesis
  proof (cases rule: place_cases [OF assms(1) len, of send ti, case_names unwanted unmeasured measured])
    case unwanted
    then have "sc' = sc\<lparr>sc_queue := cancel_unwanted (qb_build_id (build_of sc r)) (ti_now ti) (sc_queue sc)\<rparr>" using p by simp
    then show ?thesis using cancel_unwanted_answers [OF assms(1,2)] by simp
  next
    case (unmeasured e sc1)
    then show ?thesis using p by simp
  next
    case (measured sc1)
    have "act send (ti_now ti) r (decision ti r sc1) sc1 = (Inr waits, sc')" using measured(5) p by simp
    from act_settles [OF measured(3,4) this] show ?thesis by (auto split: if_splits)
  qed
qed (use assms(3) in \<open>simp add: assign_one_def\<close>)

lemma crashed_run:
  assumes "bq_ok (sc_queue sc)" and "r < length (bq_builds (sc_queue sc))"
  shows "sc_touches r sc (snd (assignment_crashed send reason now r sc))"
    "assignment_crashed send reason now r sc = (Inr v, sc') \<Longrightarrow> is_done (build_of sc' r)"
proof -
  let ?post = "post_line send r (''internal error, failing build: '' @ reason)"
  have post: "sc_rests r sc (snd (?post sc))" by (rule rests_post_line)
  note ok = sc_rests_ok [OF post assms]
  show "sc_touches r sc (snd (assignment_crashed send reason now r sc))"
    unfolding assignment_crashed_def
    by (rule sc_touches_rests, rule sc_rests_bind, rule post) (rule rests_fail_build; use ok in simp)
  show "is_done (build_of sc' r)" if "assignment_crashed send reason now r sc = (Inr v, sc')"
    using that ok fail_build_answers [of "snd (?post sc)" r]
    by (auto simp: assignment_crashed_def bind_apply split: prod.splits sum.splits)
qed

section \<open>No build is forgotten\<close>

lemma filter_schedulable_Inr:
  assumes "filter_schedulable sc pending = Inr (rs, tally)"
  shows "rs = filter (\<lambda>r. \<not> is_building (build_of sc r)) pending \<and>
    count_running (foldl (\<lambda>m (_, d). dict_set (ds_store_id d) 0 m) [] (sched_stores sc)) (map (build_of sc) pending) = Inr tally"
  using assms unfolding filter_schedulable_def
  by (cases "count_running (foldl (\<lambda>m (_, d). dict_set (ds_store_id d) 0 m) [] (sched_stores sc)) (map (build_of sc) pending)") auto

text \<open>What holds between the state before some builds are assigned and the state after.\<close>

definition pass_run :: "Scheduler \<Rightarrow> Scheduler \<Rightarrow> bool" where
  "pass_run sc sc' \<longleftrightarrow> bq_step\<^sup>*\<^sup>* (sc_queue sc) (sc_queue sc') \<and> bq_queue (sc_queue sc') = bq_queue (sc_queue sc) \<and>
     (\<forall>s < length (bq_builds (sc_queue sc)). (is_done (build_of sc s) \<longrightarrow> is_done (build_of sc' s)) \<and>
        (is_building (build_of sc s) \<longrightarrow> is_building (build_of sc' s)))"

lemma pass_run_touches:
  assumes "sc_touches r sc sc'" and "bq_ok (sc_queue sc)"
  shows "pass_run sc sc'"
  using assms(1) sc_touches_ok [OF assms] by (auto simp: pass_run_def sc_touches_def touches_def)

lemma pass_run_ok:
  assumes "pass_run sc sc'" and "bq_ok (sc_queue sc)"
  shows "bq_ok (sc_queue sc')" "length (bq_builds (sc_queue sc)) \<le> length (bq_builds (sc_queue sc'))"
proof -
  have "bq_ok (sc_queue sc') \<and> grows (sc_queue sc) (sc_queue sc')"
    by (rule bq_run [OF _ assms(2)]) (use assms(1) in \<open>simp add: pass_run_def\<close>)
  then show "bq_ok (sc_queue sc')" "length (bq_builds (sc_queue sc)) \<le> length (bq_builds (sc_queue sc'))"
    by (simp_all add: grows_def)
qed

lemma pass_run_trans:
  assumes "pass_run a b" and "pass_run b c" and "bq_ok (sc_queue a)"
  shows "pass_run a c"
proof -
  have "length (bq_builds (sc_queue a)) \<le> length (bq_builds (sc_queue b))" by (rule pass_run_ok [OF assms(1,3)])
  then show ?thesis using assms(1,2) unfolding pass_run_def
    by (elim conjE, intro conjI) (auto intro: rtranclp_trans)
qed

lemma assign_each_run:
  assumes "bq_ok (sc_queue sc)" and "set rs \<subseteq> set (bq_queue (sc_queue sc))"
  shows "pass_run sc (snd (assign_each send error_text inp rs sc)) \<and>
    (\<forall>ws sc'. assign_each send error_text inp rs sc = (Inr ws, sc') \<longrightarrow>
      (\<forall>r \<in> set rs. r \<in> set ws \<or> is_building (build_of sc' r) \<or> is_done (build_of sc' r)))"
  using assms
proof (induction rs arbitrary: sc)
  case Nil
  then show ?case by (simp add: pass_run_def)
next
  case (Cons r rs)
  have q: "r \<in> set (bq_queue (sc_queue sc))" and len: "r < length (bq_builds (sc_queue sc))"
    using Cons.prems queue_less by auto
  obtain x sc1 where one: "assign_one send (inp r) r sc = (x, sc1)" by fastforce
  have r1: "pass_run sc sc1"
    using pass_run_touches [OF touches_assign_one [OF Cons.prems(1) len] Cons.prems(1)] one by (metis snd_conv)
  have len1: "r < length (bq_builds (sc_queue sc1))" using pass_run_ok [OF r1 Cons.prems(1)] len by simp
  define crash where "crash = assignment_crashed send (error_text (projl x)) (ti_now (inp r)) r sc1"
  define sc2 where "sc2 = (if isl x then snd crash else sc1)"
  note ok1 = pass_run_ok(1) [OF r1 Cons.prems(1)]
  have r2: "pass_run sc sc2"
    using r1 pass_run_touches [OF crashed_run(1) [OF ok1 len1] ok1] pass_run_trans Cons.prems(1)
    unfolding sc2_def crash_def by auto
  note ok2 = pass_run_ok(1) [OF r2 Cons.prems(1)]
  have sub: "set rs \<subseteq> set (bq_queue (sc_queue sc2))" using Cons.prems(2) r2 by (simp add: pass_run_def)
  note ih = Cons.IH [OF ok2 sub]
  have r3: "pass_run sc (snd (assign_each send error_text inp rs sc2))" using pass_run_trans [OF r2 _ Cons.prems(1)] ih by blast
  show ?case
  proof (cases x)
    case (Inr waits)
    then have sc2: "sc2 = sc1" by (simp add: sc2_def)
    have settled: "waits \<or> is_building (build_of sc1 r) \<or> is_done (build_of sc1 r)"
      using assign_one_settles [OF Cons.prems(1) q] one Inr by blast
    show ?thesis
      using ih r3 settled len1 one Inr unfolding sc2 pass_run_def
      by (auto simp: bind_apply ret_def split: prod.splits sum.splits)
  next
    case (Inl e)
    obtain y sc3 where c: "crash = (y, sc3)" by fastforce
    then have sc2: "sc2 = sc3" using Inl by (simp add: sc2_def)
    have answered: "is_done (build_of sc3 r)" if "y = Inr ()"
      using crashed_run(2) [OF ok1 len1] c that Inl by (simp add: crash_def)
    have "r < length (bq_builds (sc_queue sc3))" using pass_run_ok [OF r2 Cons.prems(1)] len unfolding sc2 by simp
    with ih r2 r3 answered one c Inl show ?thesis
      unfolding sc2 pass_run_def crash_def
      by (auto simp: bind_apply split: prod.splits sum.splits)
  qed
qed

text \<open>
  C8. A pass that returns leaves no pending build without an outcome: each one runs, or is answered, or
  the pass remembers that a build waits, so that the next sample of a store runs another pass. What
  the pass wrote to the queue is a run of the queue's own steps.
\<close>

theorem pass_forgets_no_build:
  assumes "bq_step\<^sup>*\<^sup>* empty_queue (sc_queue sc)" and "schedule_pass send error_text inp sc = (Inr (), sc')"
  shows "bq_step\<^sup>*\<^sup>* (sc_queue sc) (sc_queue sc') \<and>
    (\<forall>r \<in> set (get_pending (sc_queue sc)).
      is_building (build_of sc' r) \<or> is_done (build_of sc' r) \<or> sc_triggered (on_sample sc'))"
proof -
  have ok: "bq_ok (sc_queue sc)" using bq_run [OF assms(1) empty_queue_ok] by simp
  let ?sc = "sc\<lparr>sc_pass_id := Suc (sc_pass_id sc)\<rparr>"
  let ?pending = "get_pending (sc_queue sc)"
  show ?thesis
  proof (cases "?pending = []")
    case True
    then show ?thesis using assms(2) by (auto simp: schedule_pass_def Let_def)
  next
    case False
    then obtain rs tally where g: "filter_schedulable ?sc ?pending = Inr (rs, tally)"
      using assms(2) by (auto simp: schedule_pass_def Let_def split: sum.splits)
    then have f: "filter_schedulable ?sc ?pending = Inr (filter (\<lambda>r. \<not> is_building (build_of sc r)) ?pending, tally)"
      using filter_schedulable_Inr by fastforce
    let ?rs = "filter (\<lambda>r. \<not> is_building (build_of sc r)) ?pending"
    let ?sc0 = "begin_pass tally ?sc"
    obtain ws sc1 where a: "assign_each send error_text inp ?rs ?sc0 = (Inr ws, sc1)"
      and sc': "sc' = sc1\<lparr>sc_builds_waiting := ws \<noteq> []\<rparr>"
      using assms(2) False f by (auto simp: schedule_pass_def Let_def bind_apply split: prod.splits sum.splits)
    have q0: "sc_queue ?sc0 = sc_queue sc" by (simp add: begin_pass_def)
    have sub: "set ?rs \<subseteq> set (bq_queue (sc_queue ?sc0))" by (auto simp: q0 get_pending_def)
    have each: "pass_run ?sc0 sc1"
      "\<forall>r \<in> set ?rs. r \<in> set ws \<or> is_building (build_of sc1 r) \<or> is_done (build_of sc1 r)"
      using assign_each_run [OF _ sub, of send error_text inp] ok q0 a by auto
    have "is_building (build_of sc1 r)" if "r \<in> set ?pending" "is_building (build_of sc r)" for r
      using each(1) that queue_less [OF ok] by (auto simp: pass_run_def q0 get_pending_def)
    moreover have "sc_triggered (on_sample sc')" if "r \<in> set ws" for r
      using that unfolding sc' by (auto simp: on_sample_def trigger_def)
    moreover have "bq_step\<^sup>*\<^sup>* (sc_queue sc) (sc_queue sc')" using each(1) unfolding sc' pass_run_def q0 by simp
    moreover have "sc_queue sc' = sc_queue sc1" by (simp add: sc')
    ultimately show ?thesis using each(2) by auto
  qed
qed

theorem pass_forgets_no_build_witness:
  "bq_step\<^sup>*\<^sup>* (sc_queue sample_scheduler) (sc_queue (snd (schedule_pass everyone (\<lambda>_. []) (\<lambda>_. sample_turn) sample_scheduler))) \<and>
   (is_building (build_of (snd (schedule_pass everyone (\<lambda>_. []) (\<lambda>_. sample_turn) sample_scheduler)) 0) \<or>
    is_done (build_of (snd (schedule_pass everyone (\<lambda>_. []) (\<lambda>_. sample_turn) sample_scheduler)) 0) \<or>
    sc_triggered (on_sample (snd (schedule_pass everyone (\<lambda>_. []) (\<lambda>_. sample_turn) sample_scheduler))))"
proof -
  have "schedule_pass everyone (\<lambda>_. []) (\<lambda>_. sample_turn) sample_scheduler =
      (Inr (), snd (schedule_pass everyone (\<lambda>_. []) (\<lambda>_. sample_turn) sample_scheduler))"
    using sample_pass by (metis prod.collapse)
  from pass_forgets_no_build [OF sample_scheduler_run this] show ?thesis by (simp add: sample_pending)
qed

section \<open>No store runs more builds than its limit\<close>

definition runs_on :: "BuildQueue \<Rightarrow> nat \<Rightarrow> string \<Rightarrow> bool" where
  "runs_on q r store_id \<longleftrightarrow> r \<in> set (bq_queue q) \<and> \<not> is_done (build_at q r) \<and> is_building (build_at q r) \<and>
     qb_assigned_store_id (build_at q r) = Some store_id"

definition running_on :: "BuildQueue \<Rightarrow> string \<Rightarrow> nat" where
  "running_on q store_id = length (filter (\<lambda>r. runs_on q r store_id) (bq_queue q))"

text \<open>
  The turns of the event loop while a pass assigns builds: a decision of the pass with what it does, on
  a build that does not run, or anything that other tasks do. They change the queue by its steps and may
  change the stores, and only a pass starts workers.
\<close>

definition starts_nothing :: "BuildQueue \<Rightarrow> BuildQueue \<Rightarrow> bool" where
  "starts_nothing q q' \<longleftrightarrow> (\<forall>r s. runs_on q' r s \<longrightarrow> runs_on q r s)"

inductive pass_step :: "Scheduler \<Rightarrow> Scheduler \<Rightarrow> bool" where
  turn_decides:
    "\<not> is_building (build_of sc r) \<Longrightarrow> r < length (bq_builds (sc_queue sc)) \<Longrightarrow>
     act send now r (decision ti r sc) sc = (x, sc') \<Longrightarrow> pass_step sc sc'"
| turn_of_others:
    "bq_step\<^sup>*\<^sup>* (sc_queue sc) (sc_queue sc') \<Longrightarrow> starts_nothing (sc_queue sc) (sc_queue sc') \<Longrightarrow>
     sc_running sc' = sc_running sc \<Longrightarrow> sc_assigned sc' = sc_assigned sc \<Longrightarrow> pass_step sc sc'"

definition counted :: "Scheduler \<Rightarrow> string \<Rightarrow> int" where
  "counted sc s = count_at (sc_running sc) s + count_at (sc_assigned sc) s"

definition snapshot_ok :: "Scheduler \<Rightarrow> bool" where
  "snapshot_ok sc \<longleftrightarrow> bq_ok (sc_queue sc) \<and> (\<forall>s. s \<noteq> [] \<longrightarrow> int (running_on (sc_queue sc) s) \<le> counted sc s)"

lemma running_on_card:
  assumes "bq_ok q"
  shows "running_on q s = card {r. runs_on q r s}" "finite {r. runs_on q r s}"
proof -
  have d: "distinct (bq_queue q)" using assms by (simp add: bq_ok_def index_ok_def)
  have eq: "{r. runs_on q r s} = set (filter (\<lambda>r. runs_on q r s) (bq_queue q))" by (auto simp: runs_on_def)
  show "running_on q s = card {r. runs_on q r s}"
    unfolding running_on_def eq by (rule distinct_card [symmetric]) (simp add: d)
  show "finite {r. runs_on q r s}" unfolding eq by (rule finite_set)
qed

lemma running_on_mono:
  assumes "bq_ok q" and "bq_ok q'" and "starts_nothing q q'"
  shows "running_on q' s \<le> running_on q s"
  using assms card_mono [OF running_on_card(2) [OF assms(1)], of "{r. runs_on q' r s}" s]
  by (auto simp: running_on_card starts_nothing_def)

lemma running_on_start:
  assumes "bq_ok q" and "bq_ok q'" and "\<And>x s. runs_on q' x s \<Longrightarrow> runs_on q x s \<or> x = r \<and> s = i"
  shows "running_on q' s \<le> running_on q s + (if s = i then 1 else 0)"
proof -
  have "{x. runs_on q' x s} \<subseteq> (if s = i then insert r {x. runs_on q x s} else {x. runs_on q x s})" using assms(3) by auto
  then have "card {x. runs_on q' x s} \<le> card (if s = i then insert r {x. runs_on q x s} else {x. runs_on q x s})"
    using running_on_card(2) [OF assms(1)] by (intro card_mono) auto
  also have "\<dots> \<le> card {x. runs_on q x s} + (if s = i then 1 else 0)"
    using running_on_card(2) [OF assms(1), of s] by (auto simp: card_insert_if)
  finally show ?thesis by (simp add: running_on_card assms)
qed

lemma rests_starts_nothing:
  assumes "rests r q q'" and "bq_ok q"
  shows "starts_nothing q q'"
proof -
  have t: "bq_queue q' = bq_queue q" "bq_step\<^sup>*\<^sup>* q q'" "\<And>s. s \<noteq> r \<Longrightarrow> build_at q' s = build_at q s"
    and r: "qb_worker (build_at q' r) = qb_worker (build_at q r)"
      "qb_assigned_store_id (build_at q' r) = qb_assigned_store_id (build_at q r)"
    using assms(1) by (simp_all add: rests_def touches_def)
  have w: "is_building (build_at q' x) = is_building (build_at q x) \<and>
      qb_assigned_store_id (build_at q' x) = qb_assigned_store_id (build_at q x)" for x
    using t(3) [of x] r by (cases "x = r") (simp_all add: is_building_def)
  have d: "is_done (build_at q' x)" if "is_done (build_at q x)" "x \<in> set (bq_queue q)" for x
    using bq_run [OF t(2) assms(2)] that queue_less [OF assms(2)] by (simp add: grows_def is_done_def)
  show ?thesis using w d t(1) by (auto simp: starts_nothing_def runs_on_def)
qed

lemma sc_rests_counted:
  assumes "sc_rests r sc sc'"
  shows "counted sc' = counted sc"
proof -
  obtain q h where "sc' = sc\<lparr>sc_queue := q, sc_held_by_pressure := h\<rparr>" using assms by (auto simp: sc_rests_def)
  then show ?thesis by (simp add: counted_def fun_eq_iff)
qed

lemma snapshot_rests:
  assumes "sc_rests r sc sc'" and "snapshot_ok sc"
  shows "snapshot_ok sc'"
proof -
  have re: "rests r (sc_queue sc) (sc_queue sc')" and c: "counted sc' = counted sc"
    using assms(1) by (simp_all add: sc_rests_counted sc_rests_def)
  have ok: "bq_ok (sc_queue sc)" using assms(2) by (simp add: snapshot_ok_def)
  have "touches r (sc_queue sc) (sc_queue sc')" using re by (simp add: rests_def)
  note ok = ok touches_ok(1) [OF this ok]
  then show ?thesis
    using running_on_mono [OF ok rests_starts_nothing [OF re ok(1)]] assms(2) c
    unfolding snapshot_ok_def by (metis of_nat_mono order_trans)
qed

lemma count_at_dict_set: "count_at (dict_set k v d) s = (if s = k then v else count_at d s)"
  by (simp add: count_at_def)

lemma snapshot_start:
  assumes "snapshot_ok sc" and "\<not> is_building (build_of sc r)" and "r < length (bq_builds (sc_queue sc))"
  shows "snapshot_ok (snd (start_build r rs sc))"
proof -
  let ?i = "rk_store_id rs" and ?q = "sc_queue sc"
  let ?sc' = "snd (start_build r rs sc)"
  have ok: "bq_ok ?q" using assms(1) by (simp add: snapshot_ok_def)
  have ok': "bq_ok (sc_queue ?sc')" using touches_start [of r sc rs] touches_ok(1) [OF _ ok] unfolding sc_touches_def by blast
  have runs: "runs_on (sc_queue ?sc') x s \<Longrightarrow> runs_on ?q x s \<or> sc_workers sc \<and> x = r \<and> s = ?i" for x s
    using assms(2,3) by (cases "x = r")
      (auto simp: start_build_def Let_def runs_on_def upd_def assign_store_def spawn_worker_def is_building_def is_done_def split: if_splits)
  have "int (running_on (sc_queue ?sc') s) \<le> counted ?sc' s" if s: "s \<noteq> []" for s
  proof (cases "sc_workers sc")
    case True
    have "running_on (sc_queue ?sc') s \<le> running_on ?q s + (if s = ?i then 1 else 0)"
      by (rule running_on_start [OF ok ok']) (use runs in blast)
    moreover have "counted ?sc' s = counted sc s + (if s = ?i then 1 else 0)"
      using True by (simp add: start_build_def Let_def counted_def count_at_dict_set)
    moreover have "int (running_on ?q s) \<le> counted sc s" using assms(1) s by (simp add: snapshot_ok_def)
    ultimately show ?thesis by (simp split: if_splits)
  next
    case False
    then have "starts_nothing ?q (sc_queue ?sc')" using runs by (auto simp: starts_nothing_def)
    from running_on_mono [OF ok ok' this, of s] have "int (running_on (sc_queue ?sc') s) \<le> int (running_on ?q s)" by simp
    moreover have "counted ?sc' s = counted sc s" using False by (simp add: start_build_def Let_def counted_def)
    moreover have "int (running_on ?q s) \<le> counted sc s" using assms(1) s by (simp add: snapshot_ok_def)
    ultimately show ?thesis by simp
  qed
  with ok' show ?thesis by (simp add: snapshot_ok_def)
qed

lemma snapshot_act:
  assumes "snapshot_ok sc" and "\<not> is_building (build_of sc r)" and "r < length (bq_builds (sc_queue sc))"
  shows "snapshot_ok (snd (act send now r d sc))"
proof -
  have q: "snd (bind m (\<lambda>_. ret False) sc) = snd (m sc)" for m :: "(Scheduler, unit) eff"
    by (simp add: bind_apply ret_def split: prod.split sum.split)
  have ok: "bq_ok (sc_queue sc)" using assms(1) by (simp add: snapshot_ok_def)
  note rests = rests_fail_build [OF ok assms(3)] rests_fail_and_tell [OF ok assms(3)]
  show ?thesis
    using assms(1) snapshot_start [OF assms]
    by (cases d) (simp_all add: act_def Let_def q snapshot_rests [OF rests(1)] snapshot_rests [OF rests(2)], simp add: snapshot_ok_def counted_def)
qed

lemma snapshot_step:
  assumes "pass_step sc sc'" and "snapshot_ok sc"
  shows "snapshot_ok sc'"
  using assms(1)
proof cases
  case (turn_decides r send now ti x)
  then show ?thesis using snapshot_act [OF assms(2)] by (metis snd_conv)
next
  case turn_of_others
  have ok: "bq_ok (sc_queue sc)" using assms(2) by (simp add: snapshot_ok_def)
  then have ok': "bq_ok (sc_queue sc')" using bq_run turn_of_others(1) by blast
  have "int (running_on (sc_queue sc') s) \<le> int (running_on (sc_queue sc) s)" for s
    using running_on_mono [OF ok ok' turn_of_others(2)] by simp
  then show ?thesis
    using assms(2) ok' turn_of_others(3,4) unfolding snapshot_ok_def counted_def by (metis order_trans)
qed

interpretation pass_turns: ordered_steps pass_step snapshot_ok "\<lambda>_ _. True"
  by unfold_locales (auto intro: snapshot_step)

lemma count_running_counts:
  assumes "count_running tally bs = Inr tally'" and "s \<noteq> []"
  shows "count_at tally' s = count_at tally s + int (length (filter (\<lambda>b. is_building b \<and> qb_assigned_store_id b = Some s) bs))"
  using assms(1)
proof (induction bs arbitrary: tally)
  case (Cons b bs)
  show ?case
  proof (cases "\<exists>t. qb_assigned_store_id b = Some t \<and> is_building b \<and> t \<noteq> []")
    case True
    then obtain t where t: "qb_assigned_store_id b = Some t" "is_building b" "t \<noteq> []" by blast
    then obtain n where n: "map_of tally t = Some n" using Cons.prems by (auto split: option.splits)
    then have "count_running (dict_set t (n + 1) tally) bs = Inr tally'" using Cons.prems t by simp
    from Cons.IH [OF this] show ?thesis using t n by (auto simp: count_at_dict_set count_at_def)
  next
    case False
    then have "count_running tally bs = Inr tally'" using Cons.prems by (auto split: option.splits if_splits)
    from Cons.IH [OF this] show ?thesis using False assms(2) by auto
  qed
qed simp

lemma length_filter_distinct:
  assumes "distinct xs" and "distinct ys" and "set (filter P xs) = set (filter Q ys)"
  shows "length (filter P xs) = length (filter Q ys)"
  using assms by (metis distinct_card distinct_filter)

lemma pass_begins_ok:
  assumes "bq_ok (sc_queue sc)" and "filter_schedulable sc (get_pending (sc_queue sc)) = Inr (rs, running)"
  shows "snapshot_ok (begin_pass running sc)"
proof -
  let ?q = "sc_queue sc"
  let ?zero = "foldl (\<lambda>m (_, d). dict_set (ds_store_id d) 0 m) [] (sched_stores sc)"
  have c: "count_running ?zero (map (build_at ?q) (get_pending ?q)) = Inr running" using filter_schedulable_Inr [OF assms(2)] by simp
  have zero: "count_at m s = 0 \<Longrightarrow> count_at (foldl (\<lambda>m (_, d). dict_set (ds_store_id d) 0 m) m stores) s = 0" for m s and stores :: "DaemonStore store_dict"
    by (induction stores arbitrary: m) (auto simp: count_at_dict_set)
  have d: "distinct (bq_queue ?q)" using assms(1) by (simp add: bq_ok_def index_ok_def)
  have "int (running_on ?q s) = count_at running s" if s: "s \<noteq> []" for s
  proof -
    let ?P = "\<lambda>r. is_building (build_at ?q r) \<and> qb_assigned_store_id (build_at ?q r) = Some s"
    have "length (filter (\<lambda>r. runs_on ?q r s) (bq_queue ?q)) = length (filter ?P (get_pending ?q))"
      by (rule length_filter_distinct) (auto simp: d get_pending_def runs_on_def)
    moreover have "count_at running s = int (length (filter ?P (get_pending ?q)))"
      using count_running_counts [OF c s] zero [of "[]" s] by (simp add: filter_map comp_def count_at_def)
    ultimately show ?thesis by (simp add: running_on_def)
  qed
  then show ?thesis using assms(1) by (simp add: snapshot_ok_def begin_pass_def counted_def count_at_def)
qed

text \<open>
  C2. Whatever other tasks do between the decisions of a pass, a store that the pass picks runs fewer
  builds at that moment than its build limit allows, so a pass never takes a store over its limit.
\<close>

theorem no_store_over_its_limit:
  assumes "bq_step\<^sup>*\<^sup>* empty_queue (sc_queue sc)"
    and "filter_schedulable sc (get_pending (sc_queue sc)) = Inr (rs, running)"
    and "pass_step\<^sup>*\<^sup>* (begin_pass running sc) sc'"
    and "decision ti r sc' = Start chosen why" and "0 \<le> ti_pick ti" and "ti_pick ti < 1" and "rk_store_id chosen \<noteq> []"
  shows "int (running_on (sc_queue sc') (rk_store_id chosen)) < bl_limit (ds_build_limit (rk_store chosen))"
proof -
  have "bq_ok (sc_queue sc)" using bq_run [OF assms(1) empty_queue_ok] by simp
  from pass_turns.run_in_order [OF assms(3) pass_begins_ok [OF this assms(2)]]
  have "int (running_on (sc_queue sc') (rk_store_id chosen)) \<le> counted sc' (rk_store_id chosen)"
    using assms(7) by (simp add: snapshot_ok_def)
  moreover have "has_build_room sc' (rk_store chosen)" "rk_store_id chosen = ds_store_id (rk_store chosen)"
    using decide_start assms(4-6) unfolding decision_def by blast+
  ultimately show ?thesis by (simp add: has_build_room_def has_room_def counted_def)
qed

theorem no_store_over_its_limit_witness:
  "\<exists>chosen why. decision sample_turn 0 (begin_pass [(''local'', 0), (''b'', 0)] sample_scheduler) = Start chosen why \<and>
    int (running_on (sc_queue (begin_pass [(''local'', 0), (''b'', 0)] sample_scheduler)) (rk_store_id chosen))
      < bl_limit (ds_build_limit (rk_store chosen))"
proof -
  let ?sc = "begin_pass [(''local'', 0), (''b'', 0)] sample_scheduler"
  obtain rs why where d: "decision sample_turn 0 ?sc = Start rs why" "rk_store_id rs = ''b''"
    using started_on_Start [OF sample_pass_decision] by blast
  from no_store_over_its_limit [OF sample_scheduler_run sample_schedulable rtranclp.rtrancl_refl d(1)] d
  show ?thesis by (simp add: sample_turn_def)
qed

section \<open>Passes that go wrong\<close>

lemma dict_set_keys: "fst ` set (dict_set k v d) = insert k (fst ` set d)"
  by (induction k v d rule: dict_set.induct) auto

lemma count_running_KeyError:
  assumes "b \<in> set bs" and "is_building b" and "qb_assigned_store_id b = Some s" and "s \<noteq> []" and "s \<notin> fst ` set tally"
  shows "count_running tally bs = Inl KeyError"
  using assms(1,5)
proof (induction bs arbitrary: tally)
  case (Cons c bs)
  show ?case
  proof (cases "\<exists>t. qb_assigned_store_id c = Some t \<and> is_building c \<and> t \<noteq> []")
    case True
    then obtain t where t: "qb_assigned_store_id c = Some t" "is_building c" "t \<noteq> []" by blast
    show ?thesis
    proof (cases "map_of tally t")
      case None
      then show ?thesis using t by simp
    next
      case (Some n)
      then have ts: "t \<in> fst ` set tally" by (force dest: map_of_SomeD)
      then have "t \<noteq> s" using Cons.prems(2) by blast
      then have "b \<noteq> c" using t(1) assms(3) by auto
      moreover have "s \<notin> fst ` set (dict_set t (n + 1) tally)" using ts Cons.prems(2) \<open>t \<noteq> s\<close> by (simp add: dict_set_keys)
      ultimately show ?thesis using Cons t Some by simp
    qed
  next
    case False
    then have "b \<noteq> c" using assms(2-4) by auto
    then show ?thesis using Cons False by (auto split: option.split)
  qed
qed simp

lemma zero_keys:
  "fst ` set (foldl (\<lambda>m (_, d). dict_set (ds_store_id d) (0 :: int) m) m stores) = fst ` set m \<union> (ds_store_id \<circ> snd) ` set stores"
  by (induction stores arbitrary: m) (simp_all add: dict_set_keys split_beta)

text \<open>
  C30. While a build runs on a store that is not among the scheduled ones, every pass raises \<open>KeyError\<close>
  and starts nothing. A local store with \<open>no_schedule\<close> is such a store, and builds that prefer to
  be local run on it.
\<close>

theorem pass_fails_on_an_unlisted_store:
  assumes "r \<in> set (get_pending (sc_queue sc))" and "is_building (build_of sc r)"
    and "qb_assigned_store_id (build_of sc r) = Some s" and "s \<noteq> []" and "\<forall>(_, d) \<in> set (sched_stores sc). ds_store_id d \<noteq> s"
  shows "schedule_pass send error_text inp sc = (Inl KeyError, sc\<lparr>sc_pass_id := Suc (sc_pass_id sc)\<rparr>)"
proof -
  let ?sc = "sc\<lparr>sc_pass_id := Suc (sc_pass_id sc)\<rparr>"
  have "daemon_of ?sc = daemon_of sc" by (rule ext) (simp add: daemon_of_def cong: if_cong)
  then have stores: "sched_stores ?sc = sched_stores sc" by (simp add: sched_stores_def daemons_of_def)
  have "count_running (foldl (\<lambda>m (_, d). dict_set (ds_store_id d) 0 m) [] (sched_stores sc))
      (map (build_of sc) (get_pending (sc_queue sc))) = Inl KeyError"
    by (rule count_running_KeyError [of "build_of sc r" _ s]) (use assms in \<open>auto simp: zero_keys\<close>)
  then have "filter_schedulable ?sc (get_pending (sc_queue sc)) = Inl KeyError" by (simp add: filter_schedulable_def stores)
  then show ?thesis using assms(1) by (auto simp: schedule_pass_def Let_def)
qed

text \<open>The local store takes no scheduled builds, and a build that prefers it runs there.\<close>

definition sample_local_only :: Scheduler where
  "sample_local_only = sample_scheduler\<lparr>sc_local := (sample_store ''local'')\<lparr>ds_no_schedule := True\<rparr>,
     sc_queue := upd 0 (\<lambda>b. spawn_worker 0 (assign_store ''local'' b)) (sc_queue sample_scheduler)\<rparr>"

theorem pass_fails_on_an_unlisted_store_witness:
  "schedule_pass everyone (\<lambda>_. []) (\<lambda>_. sample_turn) sample_local_only = (Inl KeyError, sample_local_only\<lparr>sc_pass_id := Suc (sc_pass_id sample_local_only)\<rparr>)"
proof (rule pass_fails_on_an_unlisted_store [of 0 _ "''local''"])
  show "0 \<in> set (get_pending (sc_queue sample_local_only))" by code_simp
  show "is_building (build_of sample_local_only 0)" "qb_assigned_store_id (build_of sample_local_only 0) = Some ''local''"
    by code_simp+
  show "''local'' \<noteq> []" by simp
  show "\<forall>(_, d) \<in> set (sched_stores sample_local_only). ds_store_id d \<noteq> ''local''" by code_simp
qed

text \<open>
  The pass does not look again whether a build is answered: a build that its last request let go
  after the pass took the list of pending builds still gets a worker and a slot.
\<close>

theorem an_answered_build_is_started:
  "\<exists>sc. bq_step\<^sup>*\<^sup>* empty_queue (sc_queue sc) \<and> bq_step\<^sup>*\<^sup>* (sc_queue sample_scheduler) (sc_queue sc) \<and>
     0 \<in> set (get_pending (sc_queue sample_scheduler)) \<and> is_done (build_of sc 0) \<and>
     is_building (build_of (snd (assign_one everyone sample_turn 0 sc)) 0)"
proof -
  let ?sc = "sample_scheduler\<lparr>sc_queue := release_locked 1 0 (sc_queue sample_scheduler)\<rparr>"
  have step: "bq_step (sc_queue sample_scheduler) (sc_queue ?sc)" using step_release by simp
  then have "bq_step\<^sup>*\<^sup>* empty_queue (sc_queue ?sc)"
    by (rule rtranclp.rtrancl_into_rtrancl [OF sample_scheduler_run])
  moreover have "bq_step\<^sup>*\<^sup>* (sc_queue sample_scheduler) (sc_queue ?sc)" using step by (rule r_into_rtranclp)
  moreover have "0 \<in> set (get_pending (sc_queue sample_scheduler))" by (simp add: sample_pending)
  moreover have "is_done (build_of ?sc 0)" by code_simp
  moreover have "is_building (build_of (snd (assign_one everyone sample_turn 0 ?sc)) 0)" by code_simp
  ultimately show ?thesis by blast
qed

end
