(* ===== verification/Build_Worker.thy ===== *)
theory Build_Worker
  imports Scheduler_Pass
begin

text \<open>
  The worker of a build (\<open>_run_worker\<close>, \<open>execute_build\<close> and what they call in
  \<open>pynixd/scheduler.py\<close>, with \<open>leaves\<close> and \<open>error_text\<close> of \<open>pynixd/exceptions.py\<close>): a build is
  sent to its store, its outputs are pulled, and it is answered or put back for another try.

  What the connections and the stores do is an argument, \<open>worker_world\<close>: for each call that talks to
  a daemon, what it returns or raises. A cancelled scope raises at one of those calls, so a
  cancellation is one of the outcomes. The statistics of a build and the marks of the paths it uses
  are left out.
\<close>

section \<open>Exceptions\<close>

text \<open>
  The classes that a handler tells apart, each with the name of the class where \<open>error_text\<close> writes it;
  \<open>EPynixd\<close> is any other \<open>PynixdError\<close>, \<open>EOs\<close> an \<open>OSError\<close>, \<open>ESsh\<close> one of \<open>ssh_errors()\<close>.
\<close>

datatype exc_class =
    EBackend | EInfrastructure | EPynixd | EDaemonProtocol | EEof
  | EOs string | ESsh string | EOther string | ECancelled

datatype exc = Leaf exc_class string | Group "exc list"

fun leaves :: "exc \<Rightarrow> (exc_class \<times> string) list" where
  "leaves (Leaf c s) = [(c, s)]"
| "leaves (Group es) = concat (map leaves es)"

definition class_name :: "exc_class \<Rightarrow> string" where
  "class_name c = (case c of EEof \<Rightarrow> ''EOFError'' | EOs n \<Rightarrow> n | ESsh n \<Rightarrow> n | EOther n \<Rightarrow> n
     | ECancelled \<Rightarrow> ''CancelledError'' | _ \<Rightarrow> [])"

definition error_text :: "exc \<Rightarrow> string" where
  "error_text e =
     join nl (map (\<lambda>(c, s). if c \<in> {EBackend, EInfrastructure, EPynixd, EDaemonProtocol} then s
                            else class_name c @ '': '' @ s) (leaves e))"

definition retryable_class :: "exc_class \<Rightarrow> bool" where
  "retryable_class c = (case c of EBackend \<Rightarrow> True | EInfrastructure \<Rightarrow> True | EEof \<Rightarrow> True | EOs _ \<Rightarrow> True | ESsh _ \<Rightarrow> True | _ \<Rightarrow> False)"

definition retryable :: "exc \<Rightarrow> bool" where
  "retryable e = list_all (\<lambda>(c, _). retryable_class c) (leaves e)"

text \<open>\<open>except Exception\<close> lets a cancellation pass.\<close>

fun is_cancel :: "exc \<Rightarrow> bool" where
  "is_cancel (Leaf c _) = (c = ECancelled)"
| "is_cancel (Group es) = False"

definition of_error :: "(error \<Rightarrow> string) \<Rightarrow> error \<Rightarrow> exc" where
  "of_error str e = Leaf (case e of
       EOFError \<Rightarrow> EEof
     | ConnectionError \<Rightarrow> EOs ''ConnectionError''
     | DaemonProtocolError _ \<Rightarrow> EDaemonProtocol
     | UnsupportedProtocolVersion \<Rightarrow> EDaemonProtocol
     | DelegationLoopError _ _ \<Rightarrow> EPynixd
     | StructError \<Rightarrow> EOther ''error''
     | TypeError \<Rightarrow> EOther ''TypeError''
     | ValueError \<Rightarrow> EOther ''ValueError''
     | AttributeError \<Rightarrow> EOther ''AttributeError''
     | KeyError \<Rightarrow> EOther ''KeyError''
     | IndexError \<Rightarrow> EOther ''IndexError''
     | AssertionError \<Rightarrow> EOther ''AssertionError''
     | RuntimeError \<Rightarrow> EOther ''RuntimeError''
     | NotCompilableError \<Rightarrow> EOther ''NotCompilableError''
     | ZeroDivisionError \<Rightarrow> EOther ''ZeroDivisionError''
     | RecursionError \<Rightarrow> EOther ''RecursionError'' | OutOfFuel \<Rightarrow> EOther ''RecursionError'') (str e)"

type_synonym 'a task = "Scheduler \<Rightarrow> (exc + 'a) \<times> Scheduler"

definition task_bind :: "'a task \<Rightarrow> ('a \<Rightarrow> 'b task) \<Rightarrow> 'b task" where
  "task_bind m f = (\<lambda>sc. case m sc of (Inl e, sc') \<Rightarrow> (Inl e, sc') | (Inr x, sc') \<Rightarrow> f x sc')"

definition lifted :: "(error \<Rightarrow> string) \<Rightarrow> (Scheduler, 'a) eff \<Rightarrow> 'a task" where
  "lifted str m = (\<lambda>sc. case m sc of (x, sc') \<Rightarrow> (map_sum (of_error str) id x, sc'))"

definition outcome :: "exc option \<Rightarrow> unit task" where
  "outcome x = (\<lambda>sc. (case x of Some e \<Rightarrow> Inl e | None \<Rightarrow> Inr (), sc))"

definition change :: "(Scheduler \<Rightarrow> Scheduler) \<Rightarrow> unit task" where
  "change f = (\<lambda>sc. (Inr (), f sc))"

section \<open>The world of a worker\<close>

record worker_world =
  ww_str :: "error \<Rightarrow> string"
  ww_exc_str :: "exc \<Rightarrow> string"
  ww_send :: sender
  ww_float_repr :: "string \<Rightarrow> string"
  ww_now :: seconds
  ww_settings :: "exc + bool"
  ww_here :: "exc + BuildResult"
  ww_here_logs :: "LogMessage list"
  ww_connect :: "exc option"
  ww_prepare :: "exc option"
  ww_response :: "exc + BuildResult \<times> LogMessage list"
  ww_realised :: "string list"
  ww_hold :: "exc option"
  ww_leave_build :: "exc option"
  ww_pull :: "nat \<Rightarrow> exc + int"
  ww_record :: "exc option"
  ww_leave_held :: "exc option"

section \<open>Whose fault a failure is\<close>

fun contains :: "string \<Rightarrow> string \<Rightarrow> bool" where
  "contains w [] = (w = [])"
| "contains w (c # cs) = (take (length w) (c # cs) = w \<or> contains w cs)"

definition TRANSIENT_FAILURE :: nat where "TRANSIENT_FAILURE = 6"

definition MACHINE_FAULTS :: "string list" where
  "MACHINE_FAULTS = [''No space left on device'', ''Disk quota exceeded'', ''Cannot allocate memory'',
     ''Too many open files'', ''Read-only file system'', ''Input/output error'', ''getting status of'',
     ''is not valid'', ''Killed'']"

definition result_succeeded :: "BuildResult \<Rightarrow> bool" where
  "result_succeeded result = (status_is_success (res_status result) = Inr True)"

definition machine_fault :: "BuildResult \<Rightarrow> error + string option" where
  "machine_fault result =
     (if result_succeeded result then Inr None
      else if \<not> status_known (res_status result) then Inl ValueError
      else if res_status result = TRANSIENT_FAILURE then Inr (Some ''transient_failure'')
      else if res_status result = MISC_FAILURE then Inr (Some ''misc_failure'')
      else Inr (find (\<lambda>words. contains words (res_error_msg result)) MACHINE_FAULTS))"

definition untried :: "Scheduler \<Rightarrow> nat \<Rightarrow> string \<Rightarrow> DaemonStore store_dict" where
  "untried sc r store_id =
     (let b = build_of sc r in
      filter (\<lambda>(_, other). ds_store_id other \<noteq> store_id \<and> ds_store_id other \<notin> fst ` set (qb_store_failures b) \<and>
          \<not> (ds_store_id other = local_id sc \<and> client_forbids_local sc b) \<and>
          supports_derivation other (bd_platform (drv_of b)) (effective_required_features (drv_of b)))
        (sched_stores sc))"

definition retryable_elsewhere :: "Scheduler \<Rightarrow> nat \<Rightarrow> string \<Rightarrow> BuildResult \<Rightarrow> error + string option" where
  "retryable_elsewhere sc r store_id result =
     map_sum id (\<lambda>fault. if fault \<noteq> None \<and> untried sc r store_id \<noteq> [] then fault else None) (machine_fault result)"

definition note_disk_full :: "seconds \<Rightarrow> string \<Rightarrow> string \<Rightarrow> Scheduler \<Rightarrow> Scheduler" where
  "note_disk_full now store_id message sc =
     (if contains ''No space left on device'' message
      then upd_daemon store_id (\<lambda>d. d\<lparr>ds_disk_full_until := now + rs_disk_full_hold_seconds (sc_settings sc)\<rparr>) sc
      else sc)"

definition retry :: "nat \<Rightarrow> string \<Rightarrow> string \<Rightarrow> Scheduler \<Rightarrow> Scheduler" where
  "retry r store_id reason sc = sc\<lparr>sc_queue := upd r (reset_for_retry store_id reason) (sc_queue sc)\<rparr>"

section \<open>The log and the answer\<close>

definition say :: "worker_world \<Rightarrow> nat \<Rightarrow> string \<Rightarrow> unit task" where
  "say w r line = lifted (ww_str w) (post_line (ww_send w) r line)"

primrec post_messages :: "worker_world \<Rightarrow> nat \<Rightarrow> LogMessage list \<Rightarrow> unit task" where
  "post_messages w r [] = change id"
| "post_messages w r (m # ms) =
     task_bind (lifted (ww_str w) (on_queue (on_build r (post_log_and_fanout (ww_send w) m)))) (\<lambda>_. post_messages w r ms)"

definition complete_build :: "worker_world \<Rightarrow> nat \<Rightarrow> BuildResult \<Rightarrow> unit task" where
  "complete_build w r resp = (\<lambda>sc.
     task_bind (lifted (ww_str w) (on_queue (complete (ww_send w) (qb_build_id (build_of sc r)) resp (ww_now w))))
       (\<lambda>_. change trigger) sc)"

definition fail_task :: "worker_world \<Rightarrow> nat \<Rightarrow> string \<Rightarrow> unit task" where
  "fail_task w r error_msg = lifted (ww_str w) (fail_build (ww_send w) r error_msg MISC_FAILURE (ww_now w))"

definition say_where_it_builds :: "worker_world \<Rightarrow> nat \<Rightarrow> string \<Rightarrow> unit task" where
  "say_where_it_builds w r store_id =
     (if store_id = LOCAL_STORE_ID then change id else say w r (''building on '' @ store_id))"

definition retry_elsewhere :: "worker_world \<Rightarrow> nat \<Rightarrow> string \<Rightarrow> BuildResult \<Rightarrow> string \<Rightarrow> unit task" where
  "retry_elsewhere w r store_id result fault =
     task_bind (change (note_disk_full (ww_now w) store_id (res_error_msg result))) (\<lambda>_.
     task_bind (say w r (''build failed on '' @ store_id @ '' ('' @ fault @ ''), retrying elsewhere'')) (\<lambda>_.
       change (\<lambda>sc. trigger (retry r store_id (if res_error_msg result = [] then fault else res_error_msg result) sc))))"

section \<open>A build on a store\<close>

definition start_clock :: "worker_world \<Rightarrow> nat \<Rightarrow> unit task" where
  "start_clock w r = change (\<lambda>sc. sc\<lparr>sc_queue := upd r (mark_started (ww_now w)) (sc_queue sc)\<rparr>)"

text \<open>\<open>_prepare_build\<close> strips the handled features first; \<open>_execute\<close> sends the request and posts the log.\<close>

definition ask_builder :: "worker_world \<Rightarrow> nat \<Rightarrow> string \<Rightarrow> BuildResult task" where
  "ask_builder w r store_id =
     task_bind (outcome (ww_connect w)) (\<lambda>_.
     task_bind (change (\<lambda>sc. sc\<lparr>sc_queue := upd r (strip_build (ww_float_repr w)) (sc_queue sc)\<rparr>)) (\<lambda>_.
     task_bind (outcome (ww_prepare w)) (\<lambda>_.
     task_bind (say_where_it_builds w r store_id) (\<lambda>_.
     task_bind (start_clock w r) (\<lambda>_ sc.
       case ww_response w of
         Inl e \<Rightarrow> (Inl e, sc)
       | Inr (resp, logs) \<Rightarrow> task_bind (post_messages w r logs) (\<lambda>_. Pair (Inr resp)) sc)))))"

definition settle_response :: "worker_world \<Rightarrow> nat \<Rightarrow> string \<Rightarrow> BuildResult \<Rightarrow> BuildResult option task" where
  "settle_response w r store_id resp = (\<lambda>sc.
     if result_succeeded resp then task_bind (outcome (ww_hold w)) (\<lambda>_. Pair (Inr (Some resp))) sc
     else case retryable_elsewhere sc r store_id resp of
            Inl e \<Rightarrow> (Inl (of_error (ww_str w) e), sc)
          | Inr None \<Rightarrow> (Inr (Some resp), sc)
          | Inr (Some fault) \<Rightarrow> task_bind (retry_elsewhere w r store_id resp fault) (\<lambda>_. Pair (Inr None)) sc)"

definition build_output_paths :: "QueuedBuild \<Rightarrow> string list \<Rightarrow> string list" where
  "build_output_paths b realised =
     foldl (\<lambda>s p. set_add p s) [] (filter (\<lambda>p. p \<noteq> []) (map snd (rq_output_paths (qb_request b))) @ realised)"

definition PULL_ATTEMPTS :: nat where "PULL_ATTEMPTS = 3"

function pull_with_retries :: "(nat \<Rightarrow> exc + int) \<Rightarrow> nat \<Rightarrow> exc + int" where
  "pull_with_retries pull attempt =
     (case pull attempt of
        Inr n \<Rightarrow> Inr n
      | Inl e \<Rightarrow> if is_cancel e \<or> attempt \<ge> PULL_ATTEMPTS then Inl e else pull_with_retries pull (Suc attempt))"
  by pat_completeness auto
termination by (relation "measure (\<lambda>(_, attempt). PULL_ATTEMPTS - attempt)") auto

declare pull_with_retries.simps [simp del]

definition note_locations :: "nat \<Rightarrow> string \<Rightarrow> string list \<Rightarrow> Scheduler \<Rightarrow> Scheduler" where
  "note_locations r store_id realised sc =
     sc\<lparr>sc_output_locations := foldl (\<lambda>m p. dict_set p store_id m) (sc_output_locations sc) (build_output_paths (build_of sc r) realised)\<rparr>"

text \<open>The record of the observation runs in \<open>finally\<close>, and what it raises replaces what the pull raised.\<close>

definition collect_outputs :: "worker_world \<Rightarrow> nat \<Rightarrow> string \<Rightarrow> unit task" where
  "collect_outputs w r store_id =
     task_bind (outcome (case ww_record w of
         Some e \<Rightarrow> Some e
       | None \<Rightarrow> (case pull_with_retries (ww_pull w) 1 of Inl e \<Rightarrow> Some e | Inr _ \<Rightarrow> None)))
       (\<lambda>_. change (note_locations r store_id (ww_realised w)))"

definition build_here :: "worker_world \<Rightarrow> nat \<Rightarrow> string \<Rightarrow> unit task" where
  "build_here w r store_id =
     task_bind (say_where_it_builds w r store_id) (\<lambda>_.
     task_bind (start_clock w r) (\<lambda>_ sc.
       case (case ww_here w of
               Inr resp \<Rightarrow> Inr resp
             | Inl e \<Rightarrow> if is_cancel e then Inl e
                 else Inr (failure_result MISC_FAILURE (''pynixd'' @ [CHR 0x27] @ ''s sandbox failed: '' @ error_text e))) of
         Inl e \<Rightarrow> (Inl e, sc)
       | Inr resp \<Rightarrow>
           task_bind (post_messages w r (ww_here_logs w)) (\<lambda>_ sc.
             if result_succeeded resp
             then task_bind (outcome (ww_record w)) (\<lambda>_.
                  task_bind (change (note_locations r store_id (ww_realised w))) (\<lambda>_. complete_build w r resp)) sc
             else case retryable_elsewhere sc r store_id resp of
                    Inl e \<Rightarrow> (Inl (of_error (ww_str w) e), sc)
                  | Inr (Some fault) \<Rightarrow> retry_elsewhere w r store_id resp fault sc
                  | Inr None \<Rightarrow> complete_build w r resp sc) sc))"

section \<open>\<open>execute_build\<close>\<close>

text \<open>The locals of \<open>execute_build\<close> at the end of its \<open>try\<close>: what left it, and the answer that is in hand.\<close>

record exec_frame =
  fr_raised :: "exc option"
  fr_returned :: bool
  fr_resp :: "BuildResult option"
  fr_completed :: bool

definition left_by :: "BuildResult option \<Rightarrow> exc option \<Rightarrow> exec_frame" where
  "left_by resp x = \<lparr>fr_raised = x, fr_returned = False, fr_resp = resp, fr_completed = False\<rparr>"

text \<open>The pull and what follows it, inside the connection that holds the outputs.\<close>

definition uncollected :: "worker_world \<Rightarrow> nat \<Rightarrow> string \<Rightarrow> exc \<Rightarrow> unit task" where
  "uncollected w r store_id e =
     (let reason = ''built on '' @ store_id @ '', but pynixd could not collect the outputs: '' @ ww_exc_str w e in
      task_bind (say w r reason) (\<lambda>_. task_bind (fail_task w r reason) (\<lambda>_. change trigger)))"

definition leave_held :: "worker_world \<Rightarrow> exec_frame \<Rightarrow> exec_frame" where
  "leave_held w fr = (case ww_leave_held w of None \<Rightarrow> fr | Some e \<Rightarrow> fr\<lparr>fr_raised := Some e, fr_returned := False\<rparr>)"

definition deliver :: "worker_world \<Rightarrow> nat \<Rightarrow> string \<Rightarrow> BuildResult \<Rightarrow> Scheduler \<Rightarrow> exec_frame \<times> Scheduler" where
  "deliver w r store_id resp sc =
     (case collect_outputs w r store_id sc of
        (Inl e, sc1) \<Rightarrow>
          if is_cancel e then (left_by (Some resp) (Some e), sc1)
          else (case uncollected w r store_id e sc1 of
                  (Inl e', sc2) \<Rightarrow> (left_by (Some resp) (Some e'), sc2)
                | (Inr _, sc2) \<Rightarrow> (leave_held w ((left_by (Some resp) None)\<lparr>fr_returned := True\<rparr>), sc2))
      | (Inr _, sc1) \<Rightarrow>
          (case complete_build w r resp sc1 of
             (Inl e', sc2) \<Rightarrow> (left_by (Some resp) (Some e'), sc2)
           | (Inr _, sc2) \<Rightarrow> (leave_held w ((left_by (Some resp) None)\<lparr>fr_completed := True\<rparr>), sc2)))"

definition build_remote :: "worker_world \<Rightarrow> nat \<Rightarrow> string \<Rightarrow> Scheduler \<Rightarrow> exec_frame \<times> Scheduler" where
  "build_remote w r store_id sc =
     (case ask_builder w r store_id sc of
        (Inl e, sc1) \<Rightarrow> (left_by None (Some e), sc1)
      | (Inr resp, sc1) \<Rightarrow>
          (case settle_response w r store_id resp sc1 of
             (Inl e, sc2) \<Rightarrow> (left_by (Some resp) (Some e), sc2)
           | (Inr answer, sc2) \<Rightarrow>
               (case ww_leave_build w of
                  Some e \<Rightarrow> (left_by answer (Some e), sc2)
                | None \<Rightarrow>
                    if answer \<noteq> None \<and> result_succeeded resp then deliver w r store_id resp sc2
                    else (leave_held w (left_by answer None), sc2))))"

definition try_build :: "worker_world \<Rightarrow> nat \<Rightarrow> string \<Rightarrow> Scheduler \<Rightarrow> exec_frame \<times> Scheduler" where
  "try_build w r store_id sc =
     (if store_id = local_id sc \<and> sc_has_db sc
      then (case ww_settings w of
              Inl e \<Rightarrow> (left_by None (Some e), sc)
            | Inr True \<Rightarrow>
                (case build_here w r store_id sc of
                   (Inl e, sc1) \<Rightarrow> (left_by None (Some e), sc1)
                 | (Inr _, sc1) \<Rightarrow> ((left_by None None)\<lparr>fr_returned := True\<rparr>, sc1))
            | Inr False \<Rightarrow> build_remote w r store_id sc)
      else build_remote w r store_id sc)"

definition handle :: "worker_world \<Rightarrow> nat \<Rightarrow> string \<Rightarrow> exc \<Rightarrow> unit task" where
  "handle w r store_id e =
     (let reason = error_text e in
      task_bind
        (if retryable e
         then task_bind (change (note_disk_full (ww_now w) store_id reason)) (\<lambda>_.
              task_bind (say w r (''build failed on '' @ store_id @ '', retrying: '' @ reason)) (\<lambda>_.
                change (retry r store_id reason)))
         else task_bind (say w r (''internal error, failing build: '' @ reason)) (\<lambda>_.
                fail_task w r (''pynixd internal error: '' @ reason)))
        (\<lambda>_. change trigger))"

definition execute_build :: "worker_world \<Rightarrow> nat \<Rightarrow> string \<Rightarrow> unit task" where
  "execute_build w r store_id = (\<lambda>sc.
     let sc0 = sc\<lparr>sc_queue := upd r (assign_store store_id) (sc_queue sc)\<rparr>;
         last = (\<lambda>fr. case fr_resp fr of
                   Some resp \<Rightarrow> if fr_completed fr then change id else complete_build w r resp
                 | None \<Rightarrow> change id)
     in case try_build w r store_id sc0 of
          (fr, sc1) \<Rightarrow>
            (case fr_raised fr of
               Some e \<Rightarrow> if is_cancel e then (Inl e, sc1) else task_bind (handle w r store_id e) (\<lambda>_. last fr) sc1
             | None \<Rightarrow> if fr_returned fr then (Inr (), sc1) else last fr sc1))"

definition worker_failed :: "worker_world \<Rightarrow> nat \<Rightarrow> exc \<Rightarrow> unit task" where
  "worker_failed w r e = (\<lambda>sc.
     case fail_build (ww_send w) r (''pynixd internal error: '' @ error_text e) MISC_FAILURE (ww_now w) sc of
       (Inl ValueError, sc') \<Rightarrow> (Inr (), sc')
     | (x, sc') \<Rightarrow> (map_sum (of_error (ww_str w)) id x, sc'))"

definition run_worker :: "worker_world \<Rightarrow> nat \<Rightarrow> string \<Rightarrow> nat \<Rightarrow> unit task" where
  "run_worker w r store_id scope = (\<lambda>sc.
     let finally = (\<lambda>sc. trigger (sc\<lparr>sc_queue := upd r (worker_ended scope) (sc_queue sc)\<rparr>));
         ended = (if scope \<in> set (qb_cancelled (build_of sc r)) then (Inr (), sc)
                  else case execute_build w r store_id sc of
                         (Inr _, sc1) \<Rightarrow> (Inr (), sc1)
                       | (Inl e, sc1) \<Rightarrow> if is_cancel e then (Inr (), sc1) else worker_failed w r e sc1)
     in (fst ended, finally (snd ended)))"

section \<open>The pull\<close>

text \<open>
  The outputs count as collected exactly when one of at most three attempts pulls them, and the first
  attempts fail without a cancellation.
\<close>

definition pulls_at :: "(nat \<Rightarrow> exc + int) \<Rightarrow> nat \<Rightarrow> nat \<Rightarrow> int \<Rightarrow> bool" where
  "pulls_at pull attempt k n \<longleftrightarrow> attempt \<le> k \<and> k \<le> PULL_ATTEMPTS \<and> pull k = Inr n \<and>
     (\<forall>j. attempt \<le> j \<and> j < k \<longrightarrow> (\<exists>e. pull j = Inl e \<and> \<not> is_cancel e))"

lemma pulls_at_now:
  assumes "pull attempt = Inr m"
  shows "pulls_at pull attempt k n \<longleftrightarrow> k = attempt \<and> n = m \<and> attempt \<le> PULL_ATTEMPTS"
proof -
  have "\<not> attempt < k" if "pulls_at pull attempt k n" using that assms by (auto simp: pulls_at_def)
  then show ?thesis using assms by (auto simp: pulls_at_def)
qed

lemma pulls_at_later:
  assumes "pull attempt = Inl e"
  shows "pulls_at pull attempt k n \<longleftrightarrow> \<not> is_cancel e \<and> attempt < PULL_ATTEMPTS \<and> pulls_at pull (Suc attempt) k n"
proof -
  have "k \<noteq> attempt" if "pull k = Inr n" using that assms by auto
  moreover have "(\<forall>j. attempt \<le> j \<and> j < k \<longrightarrow> (\<exists>e. pull j = Inl e \<and> \<not> is_cancel e)) \<longleftrightarrow>
      \<not> is_cancel e \<and> (\<forall>j. Suc attempt \<le> j \<and> j < k \<longrightarrow> (\<exists>e. pull j = Inl e \<and> \<not> is_cancel e))" if "attempt < k"
  proof -
    have "attempt \<le> j \<longleftrightarrow> j = attempt \<or> Suc attempt \<le> j" for j by auto
    then show ?thesis using that assms by auto
  qed
  ultimately show ?thesis by (cases "attempt < k") (auto simp: pulls_at_def)
qed

lemma pull_with_retries_Inr:
  assumes "attempt \<le> PULL_ATTEMPTS"
  shows "pull_with_retries pull attempt = Inr n \<longleftrightarrow> (\<exists>k. pulls_at pull attempt k n)"
  using assms
proof (induction pull attempt rule: pull_with_retries.induct)
  case (1 pull attempt)
  show ?case
  proof (cases "pull attempt")
    case (Inr m)
    then show ?thesis using "1.prems" by (subst pull_with_retries.simps) (auto simp: pulls_at_now)
  next
    case (Inl e)
    have "pull_with_retries pull (Suc attempt) = Inr n \<longleftrightarrow> (\<exists>k. pulls_at pull (Suc attempt) k n)"
      if "\<not> (is_cancel e \<or> attempt \<ge> PULL_ATTEMPTS)" using "1.IH" [OF Inl that] that by simp
    then show ?thesis using Inl by (subst pull_with_retries.simps) (auto simp: pulls_at_later)
  qed
qed

section \<open>What a worker writes\<close>

text \<open>
  The writes of a worker on its build: steps of the queue that leave every other build, keep the
  worker or let it go, and forget no failure.
\<close>

definition works :: "nat \<Rightarrow> Scheduler \<Rightarrow> Scheduler \<Rightarrow> bool" where
  "works r sc sc' \<longleftrightarrow> touches r (sc_queue sc) (sc_queue sc') \<and>
     qb_worker (build_of sc' r) \<in> {None, qb_worker (build_of sc r)} \<and>
     (\<forall>s. store_failures_of (build_of sc r) s \<le> store_failures_of (build_of sc' r) s)"

lemma works_refl [simp]: "works r sc sc"
  by (simp add: works_def)

lemma works_trans: "works r a b \<Longrightarrow> works r b c \<Longrightarrow> works r a c"
  unfolding works_def using touches_trans by (auto intro: order_trans)

lemma works_rests: "rests r (sc_queue sc) (sc_queue sc') \<Longrightarrow> works r sc sc'"
  by (simp add: works_def rests_def store_failures_of_def)

lemma works_same_queue: "sc_queue sc' = sc_queue sc \<Longrightarrow> works r sc sc'"
  by (rule works_rests) simp

lemma works_upd:
  assumes "bq_step (sc_queue sc) (upd r f (sc_queue sc))" and "sc_queue sc' = upd r f (sc_queue sc)"
    and "\<And>b. qb_worker (f b) \<in> {None, qb_worker b} \<and> (\<forall>s. store_failures_of b s \<le> store_failures_of (f b) s)"
  shows "works r sc sc'"
  using touches_upd [OF assms(1)] assms(3) by (auto simp: works_def assms(2) build_at_upd_same)

lemma works_retry: "works r sc (retry r store_id reason sc)"
  by (rule works_upd [OF step_retry])
    (auto simp: retry_def reset_for_retry_def store_failures_of_def split: option.split)

lemma note_disk_full_queue [simp]: "sc_queue (note_disk_full now i m sc) = sc_queue sc"
  by (simp add: note_disk_full_def upd_daemon_def split: option.split)

lemma trigger_queue [simp]: "sc_queue (trigger sc) = sc_queue sc" "sc_triggered (trigger sc)"
  by (simp_all add: trigger_def)

lemma note_locations_queue [simp]: "sc_queue (note_locations r i rs sc) = sc_queue sc"
  by (simp add: note_locations_def)

text \<open>A task of the worker of build \<open>r\<close> that ends its part of the work in one of the states \<open>P\<close>.\<close>

definition task_ok :: "nat \<Rightarrow> 'a task \<Rightarrow> (Scheduler \<Rightarrow> 'a \<Rightarrow> Scheduler \<Rightarrow> bool) \<Rightarrow> bool" where
  "task_ok r m P \<longleftrightarrow> (\<forall>sc. bq_ok (sc_queue sc) \<and> r \<in> set (bq_queue (sc_queue sc)) \<longrightarrow>
     works r sc (snd (m sc)) \<and> (\<forall>x. fst (m sc) = Inr x \<longrightarrow> P sc x (snd (m sc))))"

abbreviation any_end :: "Scheduler \<Rightarrow> 'a \<Rightarrow> Scheduler \<Rightarrow> bool" where
  "any_end \<equiv> \<lambda>_ _ _. True"

lemma works_ok:
  assumes "works r sc sc'" and "bq_ok (sc_queue sc)" and "r \<in> set (bq_queue (sc_queue sc))"
  shows "bq_ok (sc_queue sc')" "r \<in> set (bq_queue (sc_queue sc'))" "is_done (build_of sc r) \<Longrightarrow> is_done (build_of sc' r)"
proof -
  have t: "touches r (sc_queue sc) (sc_queue sc')" using assms(1) by (simp add: works_def)
  show "bq_ok (sc_queue sc')" by (rule touches_ok(1) [OF t assms(2)])
  show "r \<in> set (bq_queue (sc_queue sc'))" using t assms(3) by (simp add: touches_def)
  have "grows (sc_queue sc) (sc_queue sc')" using bq_run [of "sc_queue sc" "sc_queue sc'"] t assms(2) by (simp add: touches_def)
  then show "is_done (build_of sc r) \<Longrightarrow> is_done (build_of sc' r)"
    using queue_less [OF assms(2,3)] by (simp add: grows_def is_done_def)
qed

lemma task_okI:
  assumes "\<And>sc. bq_ok (sc_queue sc) \<Longrightarrow> r \<in> set (bq_queue (sc_queue sc)) \<Longrightarrow> works r sc (snd (m sc))"
    and "\<And>sc x. bq_ok (sc_queue sc) \<Longrightarrow> r \<in> set (bq_queue (sc_queue sc)) \<Longrightarrow> fst (m sc) = Inr x \<Longrightarrow> P sc x (snd (m sc))"
  shows "task_ok r m P"
  using assms by (simp add: task_ok_def)

lemma task_ok_bind:
  assumes "task_ok r m any_end" and "\<And>x. task_ok r (f x) P" and "\<And>a b x c. works r a b \<Longrightarrow> P b x c \<Longrightarrow> P a x c"
  shows "task_ok r (task_bind m f) P"
proof (rule task_okI)
  fix sc :: Scheduler assume ok: "bq_ok (sc_queue sc)" "r \<in> set (bq_queue (sc_queue sc))"
  obtain y sc1 where m: "m sc = (y, sc1)" by fastforce
  have w: "works r sc sc1" using assms(1) ok m by (auto simp: task_ok_def)
  note ok1 = works_ok(1,2) [OF w ok]
  show "works r sc (snd (task_bind m f sc))"
  proof (cases y)
    case (Inr x)
    have "works r sc1 (snd (f x sc1))" using assms(2) [of x] ok1 by (auto simp: task_ok_def)
    then show ?thesis using works_trans [OF w] m Inr by (simp add: task_bind_def)
  qed (use m w in \<open>simp add: task_bind_def\<close>)
  show "P sc v (snd (task_bind m f sc))" if v: "fst (task_bind m f sc) = Inr v" for v
  proof (cases y)
    case (Inr x)
    then have "fst (f x sc1) = Inr v" using v m by (simp add: task_bind_def)
    then have "P sc1 v (snd (f x sc1))" using assms(2) [of x] ok1 by (auto simp: task_ok_def)
    then show ?thesis using assms(3) [OF w] m Inr by (simp add: task_bind_def)
  qed (use v m in \<open>simp add: task_bind_def\<close>)
qed

lemmas task_ok_bind_any = task_ok_bind [where P = any_end, simplified]

lemma task_ok_weaken: "task_ok r m P \<Longrightarrow> task_ok r m any_end"
  by (simp add: task_ok_def)

text \<open>The two ways a worker is done with its build: it is answered, or put back for another try.\<close>

definition settles :: "nat \<Rightarrow> string \<Rightarrow> Scheduler \<Rightarrow> Scheduler \<Rightarrow> bool" where
  "settles r store_id sc sc' \<longleftrightarrow> is_done (build_of sc' r) \<or>
     qb_worker (build_of sc' r) = None \<and> store_failures_of (build_of sc r) store_id < store_failures_of (build_of sc' r) store_id"

lemma settles_after: "works r a b \<Longrightarrow> settles r i b c \<Longrightarrow> settles r i a c"
  unfolding settles_def works_def by (metis order.strict_trans1)

lemma settles_before:
  assumes "settles r i a b" and "works r b c" and "bq_ok (sc_queue b)" and "r \<in> set (bq_queue (sc_queue b))"
  shows "settles r i a c"
  using assms(1) works_ok(3) [OF assms(2-4)] assms(2) unfolding settles_def works_def
  by (metis empty_iff insert_iff order.strict_trans2)

abbreviation settling :: "nat \<Rightarrow> string \<Rightarrow> Scheduler \<Rightarrow> 'a \<Rightarrow> Scheduler \<Rightarrow> bool" where
  "settling r store_id \<equiv> \<lambda>sc _ sc'. settles r store_id sc sc'"

lemma task_ok_lifted:
  assumes "\<And>sc. bq_ok (sc_queue sc) \<Longrightarrow> r \<in> set (bq_queue (sc_queue sc)) \<Longrightarrow> rests r (sc_queue sc) (sc_queue (snd (m sc)))"
    and "\<And>sc x sc'. bq_ok (sc_queue sc) \<Longrightarrow> r \<in> set (bq_queue (sc_queue sc)) \<Longrightarrow> m sc = (Inr x, sc') \<Longrightarrow> P sc x sc'"
  shows "task_ok r (lifted str m) P"
proof (rule task_okI)
  fix sc :: Scheduler and x assume ok: "bq_ok (sc_queue sc)" "r \<in> set (bq_queue (sc_queue sc))"
  obtain y sc1 where m: "m sc = (y, sc1)" by fastforce
  show "works r sc (snd (lifted str m sc))" using works_rests [OF assms(1) [OF ok]] m by (simp add: lifted_def)
  show "P sc x (snd (lifted str m sc))" if "fst (lifted str m sc) = Inr x"
    using that assms(2) [OF ok] m by (cases y) (auto simp: lifted_def)
qed

lemma task_ok_change: "(\<And>sc. works r sc (f sc)) \<Longrightarrow> task_ok r (change f) any_end"
  by (simp add: task_ok_def change_def)

lemma task_ok_outcome: "task_ok r (outcome x) any_end"
  by (simp add: task_ok_def outcome_def)

lemma task_ok_say: "task_ok r (say w r line) any_end"
  unfolding say_def by (rule task_ok_lifted) (use rests_post_line in \<open>auto simp: sc_rests_def\<close>)

lemma rests_on_queue: "rests r (sc_queue sc) (snd (m (sc_queue sc))) \<Longrightarrow> rests r (sc_queue sc) (sc_queue (snd (on_queue m sc)))"
  by (cases "m (sc_queue sc)") (simp add: on_queue_def)

lemma task_ok_post_messages: "task_ok r (post_messages w r ms) any_end"
proof (induction ms)
  case Nil
  then show ?case by (simp add: task_ok_change)
next
  case (Cons m ms)
  have "task_ok r (lifted (ww_str w) (on_queue (on_build r (post_log_and_fanout (ww_send w) m)))) any_end"
    by (rule task_ok_lifted) (simp_all add: rests_on_queue rests_fan_out)
  then show ?case unfolding post_messages.simps by (rule task_ok_bind_any) (rule Cons.IH)
qed

lemma task_ok_fail: "task_ok r (fail_task w r msg) (\<lambda>_ _ sc'. is_done (build_of sc' r))"
  unfolding fail_task_def
proof (rule task_ok_lifted)
  fix sc :: Scheduler and x sc' assume ok: "bq_ok (sc_queue sc)" "r \<in> set (bq_queue (sc_queue sc))"
  note len = queue_less [OF ok]
  show "rests r (sc_queue sc) (sc_queue (snd (fail_build (ww_send w) r msg MISC_FAILURE (ww_now w) sc)))"
    using rests_fail_build [OF ok(1) len] by (simp add: sc_rests_def)
  show "is_done (build_of sc' r)" if "fail_build (ww_send w) r msg MISC_FAILURE (ww_now w) sc = (Inr x, sc')"
    by (rule fail_build_answers [OF ok(1) len that])
qed

lemma task_ok_complete: "task_ok r (complete_build w r resp) (\<lambda>_ _ sc'. is_done (build_of sc' r))"
proof (rule task_okI)
  fix sc :: Scheduler and x assume ok: "bq_ok (sc_queue sc)" "r \<in> set (bq_queue (sc_queue sc))"
  let ?m = "complete (ww_send w) (qb_build_id (build_of sc r)) resp (ww_now w)"
  obtain y q where m: "?m (sc_queue sc) = (y, q)" by fastforce
  note run = complete_run [OF ok(1) queue_less [OF ok], of "ww_send w" resp "ww_now w"]
  have "rests r (sc_queue sc) q" using run(1) m by simp
  then show "works r sc (snd (complete_build w r resp sc))"
    using m by (cases y) (simp_all add: complete_build_def task_bind_def lifted_def on_queue_def change_def works_rests)
  show "is_done (build_of (snd (complete_build w r resp sc)) r)" if "fst (complete_build w r resp sc) = Inr x"
    using that m run(2) [of q] by (cases y) (simp_all add: complete_build_def task_bind_def lifted_def on_queue_def change_def)
qed

lemma task_ok_change_queue: "(\<And>sc. sc_queue (f sc) = sc_queue sc) \<Longrightarrow> task_ok r (change f) any_end"
  by (rule task_ok_change) (simp add: works_same_queue)

lemma task_ok_change_upd:
  assumes "\<And>q. rests r q (upd r f q)"
  shows "task_ok r (change (\<lambda>sc. sc\<lparr>sc_queue := upd r f (sc_queue sc)\<rparr>)) any_end"
  by (rule task_ok_change) (simp add: works_rests assms)

lemma task_ok_start_clock: "task_ok r (start_clock w r) any_end"
  unfolding start_clock_def by (rule task_ok_change_upd, rule rests_upd [OF step_start]) (simp_all add: mark_started_def)

lemma task_ok_strip: "task_ok r (change (\<lambda>sc. sc\<lparr>sc_queue := upd r (strip_build fr) (sc_queue sc)\<rparr>)) any_end"
  by (rule task_ok_change_upd, rule rests_upd [OF step_strip]) (simp_all add: strip_build_def)

lemma task_ok_where: "task_ok r (say_where_it_builds w r i) any_end"
  by (simp add: say_where_it_builds_def task_ok_say task_ok_change)

lemma task_ok_retry:
  assumes "\<And>sc. sc_queue (f sc) = sc_queue (retry r i reason sc)"
  shows "task_ok r (change f) (settling r i)"
proof (rule task_okI)
  fix sc :: Scheduler assume ok: "bq_ok (sc_queue sc)" "r \<in> set (bq_queue (sc_queue sc))"
  show "works r sc (snd (change f sc))"
    using works_trans [OF works_retry works_same_queue [OF assms]] by (simp add: change_def)
  show "settles r i sc (snd (change f sc))"
    using queue_less [OF ok]
    by (simp add: change_def settles_def assms retry_def build_at_upd reset_for_retry_def store_failures_of_def split: option.split)
qed

lemma settling_done: "task_ok r m (\<lambda>_ _ sc'. is_done (build_of sc' r)) \<Longrightarrow> task_ok r m (settling r i)"
  by (simp add: task_ok_def settles_def)

lemmas task_parts = task_ok_say task_ok_outcome task_ok_post_messages task_ok_start_clock task_ok_strip task_ok_where

lemma task_ok_return: "task_ok r (Pair (Inr x)) (\<lambda>sc y sc'. y = x \<and> sc' = sc)"
  by (simp add: task_ok_def)

lemma task_ok_retry_elsewhere: "task_ok r (retry_elsewhere w r i result fault) (settling r i)"
  unfolding retry_elsewhere_def
  by (rule task_ok_bind [OF task_ok_change_queue], simp, rule task_ok_bind [OF task_ok_say], rule task_ok_retry)
    (auto intro: settles_after)

lemma task_ok_ask: "task_ok r (ask_builder w r i) any_end"
proof -
  have "task_ok r (\<lambda>sc. case ww_response w of
      Inl e \<Rightarrow> (Inl e, sc) | Inr (resp, logs) \<Rightarrow> task_bind (post_messages w r logs) (\<lambda>_. Pair (Inr resp)) sc) any_end"
  proof (cases "ww_response w")
    case (Inr x)
    have "task_ok r (task_bind (post_messages w r (snd x)) (\<lambda>_. Pair (Inr (fst x)))) any_end"
      by (rule task_ok_bind_any [OF task_ok_post_messages]) (rule task_ok_weaken [OF task_ok_return])
    then show ?thesis using Inr by (simp add: split_beta)
  qed (simp add: task_ok_def)
  then show ?thesis unfolding ask_builder_def by (intro task_ok_bind_any task_parts)
qed

lemma task_ok_settle_response:
  "task_ok r (settle_response w r i resp) (\<lambda>sc answer sc'. answer \<in> {None, Some resp} \<and> (answer = None \<longrightarrow> settles r i sc sc'))"
  (is "task_ok r _ ?P")
proof -
  have after: "works r a b \<Longrightarrow> ?P b x c \<Longrightarrow> ?P a x c" for a b x c using settles_after by blast
  have held: "task_ok r (task_bind (outcome (ww_hold w)) (\<lambda>_. Pair (Inr (Some resp)))) ?P"
    by (rule task_ok_bind [OF task_ok_outcome]) (auto simp: task_ok_def settles_after)
  have moved: "task_ok r (task_bind (retry_elsewhere w r i resp fault) (\<lambda>_. Pair (Inr None))) ?P" for fault
    using task_ok_retry_elsewhere [of r w i resp fault]
    by (auto simp: task_ok_def task_bind_def split: prod.splits sum.splits)
  show ?thesis
    using held moved unfolding settle_response_def task_ok_def by (auto split: sum.splits option.splits)
qed

lemma task_ok_collect: "task_ok r (collect_outputs w r i) any_end"
  unfolding collect_outputs_def by (rule task_ok_bind_any [OF task_ok_outcome], rule task_ok_change_queue) simp

lemma task_ok_done_then:
  assumes "task_ok r m (\<lambda>_ _ sc'. is_done (build_of sc' r))" and "\<And>sc. sc_queue (f sc) = sc_queue sc"
  shows "task_ok r (task_bind m (\<lambda>_. change f)) (\<lambda>_ _ sc'. is_done (build_of sc' r))"
  using assms works_trans [OF _ works_same_queue [OF assms(2)]]
  by (auto simp: task_ok_def task_bind_def change_def split: prod.splits sum.splits)

lemma task_ok_uncollected: "task_ok r (uncollected w r i e) (\<lambda>_ _ sc'. is_done (build_of sc' r))"
  unfolding uncollected_def Let_def
  by (rule task_ok_bind [OF task_ok_say], rule task_ok_done_then [OF task_ok_fail]) simp_all

lemma task_ok_handle: "task_ok r (handle w r i e) (settling r i)"
proof -
  have again: "task_ok r (task_bind (change (retry r i (error_text e))) (\<lambda>_. change trigger)) (settling r i)"
    using task_ok_retry [of "trigger \<circ> retry r i (error_text e)" r i "error_text e"]
    by (simp add: task_bind_def change_def comp_def)
  have assoc: "task_bind (task_bind m f) g = task_bind m (\<lambda>x. task_bind (f x) g)" for m :: "unit task" and f g :: "unit \<Rightarrow> unit task"
    by (auto simp: task_bind_def fun_eq_iff split: prod.splits sum.splits)
  show ?thesis
  proof (cases "retryable e")
    case True
    then show ?thesis unfolding handle_def Let_def
      by (simp only: if_True assoc)
        (rule task_ok_bind [OF task_ok_change_queue], simp, rule task_ok_bind [OF task_ok_say again], auto intro: settles_after)
  next
    case False
    then show ?thesis unfolding handle_def Let_def
      by (simp only: if_False assoc)
        (rule task_ok_bind [OF task_ok_say], rule settling_done, rule task_ok_done_then [OF task_ok_fail], auto intro: settles_after)
  qed
qed

lemma task_ok_build_here: "task_ok r (build_here w r i) (settling r i)"
proof -
  have after: "works r a b \<Longrightarrow> settles r i b c \<Longrightarrow> settles r i a c" for a b c by (rule settles_after)
  have ok: "task_ok r (task_bind (outcome (ww_record w)) (\<lambda>_.
      task_bind (change (note_locations r i (ww_realised w))) (\<lambda>_. complete_build w r resp))) (settling r i)" for resp
    by (rule task_ok_bind [OF task_ok_outcome], rule task_ok_bind [OF task_ok_change_queue], simp,
        rule settling_done [OF task_ok_complete]) (auto intro: after)
  have "task_ok r (\<lambda>sc. if result_succeeded resp
      then task_bind (outcome (ww_record w)) (\<lambda>_. task_bind (change (note_locations r i (ww_realised w))) (\<lambda>_. complete_build w r resp)) sc
      else case retryable_elsewhere sc r i resp of
             Inl e \<Rightarrow> (Inl (of_error (ww_str w) e), sc)
           | Inr (Some fault) \<Rightarrow> retry_elsewhere w r i resp fault sc
           | Inr None \<Rightarrow> complete_build w r resp sc) (settling r i)" for resp
    using ok [of resp] task_ok_retry_elsewhere [of r w i resp] settling_done [OF task_ok_complete, of r w resp i]
    unfolding task_ok_def by (auto split: sum.splits option.splits)
  then have logs: "task_ok r (task_bind (post_messages w r (ww_here_logs w)) (\<lambda>_ sc. if result_succeeded resp
      then task_bind (outcome (ww_record w)) (\<lambda>_. task_bind (change (note_locations r i (ww_realised w))) (\<lambda>_. complete_build w r resp)) sc
      else case retryable_elsewhere sc r i resp of
             Inl e \<Rightarrow> (Inl (of_error (ww_str w) e), sc)
           | Inr (Some fault) \<Rightarrow> retry_elsewhere w r i resp fault sc
           | Inr None \<Rightarrow> complete_build w r resp sc)) (settling r i)" for resp
    by (rule task_ok_bind [OF task_ok_post_messages]) (rule after)
  have raised: "task_ok r (\<lambda>sc. (Inl e, sc)) (settling r i)" for e by (simp add: task_ok_def)
  show ?thesis
    unfolding build_here_def
    by (rule task_ok_bind [OF task_ok_where], rule task_ok_bind [OF task_ok_start_clock])
      (auto intro: after raised logs split: sum.split)
qed

text \<open>What is known at the end of the \<open>try\<close>: without an exception, only an answer in hand is still to be given.\<close>

definition frame_ok :: "nat \<Rightarrow> string \<Rightarrow> Scheduler \<Rightarrow> exec_frame \<times> Scheduler \<Rightarrow> bool" where
  "frame_ok r i sc fe \<longleftrightarrow> works r sc (snd fe) \<and>
     (fr_raised (fst fe) = None \<longrightarrow> fr_returned (fst fe) \<or> fr_completed (fst fe) \<or> fr_resp (fst fe) = None \<longrightarrow>
       settles r i sc (snd fe))"

lemma frame_ok_left_by:
  "works r sc sc' \<Longrightarrow> frame_ok r i sc (left_by resp (Some e), sc')"
  "works r sc sc' \<Longrightarrow> (resp = None \<Longrightarrow> settles r i sc sc') \<Longrightarrow> frame_ok r i sc (leave_held w (left_by resp None), sc')"
  "works r sc sc' \<Longrightarrow> settles r i sc sc' \<Longrightarrow> frame_ok r i sc (leave_held w ((left_by resp None)\<lparr>fr_returned := True\<rparr>), sc')"
  "works r sc sc' \<Longrightarrow> settles r i sc sc' \<Longrightarrow> frame_ok r i sc (leave_held w ((left_by resp None)\<lparr>fr_completed := True\<rparr>), sc')"
  by (auto simp: frame_ok_def left_by_def leave_held_def split: option.split)

lemma task_okD:
  assumes "task_ok r m P" and "bq_ok (sc_queue sc)" and "r \<in> set (bq_queue (sc_queue sc))" and "m sc = (x, sc')"
  shows "works r sc sc'" "x = Inr y \<Longrightarrow> P sc y sc'" "bq_ok (sc_queue sc')" "r \<in> set (bq_queue (sc_queue sc'))"
proof -
  show w: "works r sc sc'" and "x = Inr y \<Longrightarrow> P sc y sc'" using assms by (auto simp: task_ok_def dest!: spec [of _ sc])
  show "bq_ok (sc_queue sc')" "r \<in> set (bq_queue (sc_queue sc'))" by (rule works_ok [OF w assms(2,3)])+
qed

lemma frame_ok_after: "works r a b \<Longrightarrow> frame_ok r i b fe \<Longrightarrow> frame_ok r i a fe"
  unfolding frame_ok_def using works_trans settles_after by blast

lemma deliver_ok:
  assumes "bq_ok (sc_queue sc)" and "r \<in> set (bq_queue (sc_queue sc))"
  shows "frame_ok r i sc (deliver w r i resp sc)"
proof -
  obtain x sc1 where c: "collect_outputs w r i sc = (x, sc1)" by fastforce
  note c1 = task_okD [OF task_ok_collect assms c]
  obtain y sc2 where u: "uncollected w r i (projl x) sc1 = (y, sc2)" by fastforce
  note u1 = task_okD [OF task_ok_uncollected c1(3,4) u]
  obtain z sc3 where d: "complete_build w r resp sc1 = (z, sc3)" by fastforce
  note d1 = task_okD [OF task_ok_complete c1(3,4) d]
  have w: "works r sc sc2" "works r sc sc3" using works_trans [OF c1(1)] u1(1) d1(1) by blast+
  show ?thesis
    using c u d w c1(1) u1(2) d1(2)
    by (cases x; cases y; cases z) (auto simp: deliver_def settles_def intro!: frame_ok_left_by)
qed

lemma build_remote_ok:
  assumes "bq_ok (sc_queue sc)" and "r \<in> set (bq_queue (sc_queue sc))"
  shows "frame_ok r i sc (build_remote w r i sc)"
proof -
  obtain x sc1 where a: "ask_builder w r i sc = (x, sc1)" by fastforce
  note a1 = task_okD [OF task_ok_ask assms a]
  show ?thesis
  proof (cases x)
    case (Inl e)
    then show ?thesis using a a1(1) by (simp add: build_remote_def frame_ok_left_by)
  next
    case (Inr resp)
    obtain y sc2 where s: "settle_response w r i resp sc1 = (y, sc2)" by fastforce
    note s1 = task_okD [OF task_ok_settle_response a1(3,4) s]
    note w2 = works_trans [OF a1(1) s1(1)]
    show ?thesis
    proof (cases y)
      case (Inl e)
      then show ?thesis using a Inr s w2 by (simp add: build_remote_def frame_ok_left_by)
    next
      case (Inr answer)
      have "frame_ok r i sc (leave_held w (left_by answer None), sc2)"
        using w2 settles_after [OF a1(1)] s1(2) Inr by (intro frame_ok_left_by) auto
      moreover have "frame_ok r i sc (deliver w r i resp sc2)"
        by (rule frame_ok_after [OF w2 deliver_ok [OF s1(3,4)]])
      ultimately show ?thesis
        using a \<open>x = Inr resp\<close> s Inr w2 by (auto simp: build_remote_def frame_ok_left_by split: option.split)
    qed
  qed
qed

lemma try_build_ok:
  assumes "bq_ok (sc_queue sc)" and "r \<in> set (bq_queue (sc_queue sc))"
  shows "frame_ok r i sc (try_build w r i sc)"
proof -
  obtain x sc1 where h: "build_here w r i sc = (x, sc1)" by fastforce
  note h1 = task_okD [OF task_ok_build_here assms h]
  have "frame_ok r i sc ((left_by None None)\<lparr>fr_returned := True\<rparr>, sc1)" if "x = Inr ()"
    using h1(1,2) that by (auto simp: frame_ok_def)
  then show ?thesis
    using h h1(1) build_remote_ok [OF assms] by (cases x) (auto simp: try_build_def frame_ok_left_by split: sum.split bool.split)
qed

lemma task_ok_execute: "task_ok r (execute_build w r i) (settling r i)"
proof (rule task_okI)
  fix sc :: Scheduler and v assume ok: "bq_ok (sc_queue sc)" "r \<in> set (bq_queue (sc_queue sc))"
  let ?sc0 = "sc\<lparr>sc_queue := upd r (assign_store i) (sc_queue sc)\<rparr>"
  have w0: "works r sc ?sc0"
    by (rule works_upd [OF step_assign]) (auto simp: assign_store_def store_failures_of_def)
  note ok0 = works_ok(1,2) [OF w0 ok]
  obtain fr sc1 where t: "try_build w r i ?sc0 = (fr, sc1)" by fastforce
  have f: "frame_ok r i sc (fr, sc1)" using frame_ok_after [OF w0 try_build_ok [OF ok0, of i w]] unfolding t .
  then have w1: "works r sc sc1" by (simp add: frame_ok_def)
  note ok1 = works_ok(1,2) [OF w1 ok]
  define last where "last = (case fr_resp fr of
      Some resp \<Rightarrow> if fr_completed fr then change id else complete_build w r resp | None \<Rightarrow> change id)"
  have last: "task_ok r last any_end"
    unfolding last_def by (auto intro: task_ok_weaken [OF task_ok_complete] task_ok_change_queue split: option.split)
  have gives: "task_ok r last (settling r i)" if "fr_resp fr \<noteq> None" "\<not> fr_completed fr"
    using that settling_done [OF task_ok_complete] unfolding last_def by auto
  have e: "execute_build w r i sc =
      (case fr_raised fr of
         Some e \<Rightarrow> if is_cancel e then (Inl e, sc1) else task_bind (handle w r i e) (\<lambda>_. last) sc1
       | None \<Rightarrow> if fr_returned fr then (Inr (), sc1) else last sc1)"
    unfolding execute_build_def Let_def t last_def by simp
  have handled: "task_ok r (task_bind (handle w r i e) (\<lambda>_. last)) (settling r i)" for e
    unfolding task_ok_def
  proof (intro allI impI)
    fix sc :: Scheduler assume "bq_ok (sc_queue sc) \<and> r \<in> set (bq_queue (sc_queue sc))"
    then have ok: "bq_ok (sc_queue sc)" "r \<in> set (bq_queue (sc_queue sc))" by simp_all
    obtain x sc1 where h: "handle w r i e sc = (x, sc1)" by fastforce
    note h1 = task_okD [OF task_ok_handle ok h]
    obtain y sc2 where l: "last sc1 = (y, sc2)" by fastforce
    note l1 = task_okD [OF last h1(3,4) l]
    show "works r sc (snd (task_bind (handle w r i e) (\<lambda>_. last) sc)) \<and>
      (\<forall>x. fst (task_bind (handle w r i e) (\<lambda>_. last) sc) = Inr x \<longrightarrow> settles r i sc (snd (task_bind (handle w r i e) (\<lambda>_. last) sc)))"
      using h l h1(1) l1(1) works_trans [OF h1(1)] settles_before [OF _ l1(1) h1(3,4)] h1(2)
      by (cases x) (auto simp: task_bind_def)
  qed
  show "works r sc (snd (execute_build w r i sc))"
    using w1 works_trans [OF w1] handled last ok1 unfolding e task_ok_def by (auto split: option.split)
  show "settles r i sc (snd (execute_build w r i sc))" if "fst (execute_build w r i sc) = Inr v"
  proof (cases "fr_raised fr")
    case (Some ex)
    then show ?thesis
      using that handled [of ex] ok1 settles_after [OF w1] unfolding e task_ok_def by (auto split: if_splits)
  next
    case None
    show ?thesis
    proof (cases "fr_returned fr \<or> fr_completed fr \<or> fr_resp fr = None")
      case True
      then have "settles r i sc sc1" using f None by (auto simp: frame_ok_def)
      then show ?thesis using None True e by (auto simp: last_def change_def split: option.split)
    next
      case False
      then show ?thesis using that gives ok1 settles_after [OF w1] None unfolding e task_ok_def by auto
    qed
  qed
qed

section \<open>A worker ends\<close>

lemma stop_each_error: "fst (stop_each send ws b) \<noteq> Inl ValueError"
proof (induction ws arbitrary: b)
  case (Cons x ws)
  have "fst (send_one send (fst x) (LogStopActivity (snd x)) b) \<noteq> Inl ValueError"
    by (auto simp: send_one_def send_raw_safe_def raise_def write_uint64_def pack_uint64_def write_raw_def bind_apply of_result_def
        split: prod.splits sum.splits send_outcome.splits if_splits)
  then show ?case using Cons.IH by (auto simp: bind_apply split: prod.splits sum.splits)
qed (simp add: ret_def)

lemma fail_build_found:
  assumes "bq_ok (sc_queue sc)" and "r \<in> set (bq_queue (sc_queue sc))"
  shows "fst (fail_build send r msg MISC_FAILURE now sc) \<noteq> Inl ValueError"
proof -
  let ?q = "sc_queue sc" and ?i = "qb_build_id (build_of sc r)"
  obtain x q1 where s: "stop_waiting send ?i ?q = (x, q1)" by fastforce
  have "fst (stop_waiting send ?i ?q) \<noteq> Inl ValueError"
    using stop_each_error
    by (auto simp: stop_waiting_def on_build_def stop_waiting_activities_def split_beta split: option.split)
  then have x: "x \<noteq> Inl ValueError" using s by simp
  have re: "rests r ?q q1" using rests_stop_waiting [OF assms(1) queue_less [OF assms], of send] s by simp
  note ok = rests_ok [OF re assms(1) queue_less [OF assms]]
  have "r \<in> set (bq_queue q1)" using re assms(2) by (simp add: rests_def touches_def)
  then have "find_build q1 (qb_build_id (build_at q1 r)) \<noteq> None" by (auto simp: find_build_def find_None_iff)
  then have "find_build q1 ?i = Some r" using find_build_found [OF ok(1,3)] ok(2) by simp
  then have "fst (fail_locked ?i msg MISC_FAILURE now q1) = Inr ()"
    by (simp add: fail_locked_def bind_apply note_a_request_that_gave_up_def status_is_success_def status_known_def
        MISC_FAILURE_def BUILT_def SUBSTITUTED_def ALREADY_VALID_def RESOLVES_TO_ALREADY_VALID_def)
  then show ?thesis using s x
    by (cases x) (auto simp: fail_build_def on_queue_def fail_def bind_apply split: prod.splits)
qed

lemma worker_failed_run:
  assumes "bq_ok (sc_queue sc)" and "r \<in> set (bq_queue (sc_queue sc))"
  shows "works r sc (snd (worker_failed w r e sc))"
    "fst (worker_failed w r e sc) = Inr () \<Longrightarrow> is_done (build_of (snd (worker_failed w r e sc)) r)"
proof -
  let ?f = "fail_build (ww_send w) r (''pynixd internal error: '' @ error_text e) MISC_FAILURE (ww_now w)"
  note len = queue_less [OF assms]
  obtain x sc1 where f: "?f sc = (x, sc1)" by fastforce
  have x: "x \<noteq> Inl ValueError" using fail_build_found [OF assms] f by (metis fst_conv)
  then have eq: "worker_failed w r e sc = (map_sum (of_error (ww_str w)) id x, sc1)"
    using f by (auto simp: worker_failed_def split: sum.splits error.splits)
  have "rests r (sc_queue sc) (sc_queue sc1)"
    using rests_fail_build [OF assms(1) len, of "ww_send w"] f unfolding sc_rests_def by (metis snd_conv)
  then show "works r sc (snd (worker_failed w r e sc))" unfolding eq by (simp add: works_rests)
  show "is_done (build_of (snd (worker_failed w r e sc)) r)" if "fst (worker_failed w r e sc) = Inr ()"
    using that fail_build_answers [OF assms(1) len] f unfolding eq by (cases x) auto
qed

text \<open>
  C4. A worker that is not cancelled leaves its build answered, or pending again with one more failure of
  the store it ran on; its slot is free and another pass will run. So no build hangs on a worker
  that is gone, whatever the calls to the store returned or raised.
\<close>

theorem worker_settles_its_build:
  assumes "bq_step\<^sup>*\<^sup>* empty_queue (sc_queue sc)" and "r \<in> set (bq_queue (sc_queue sc))"
    and "qb_worker (build_of sc r) = Some scope" and "scope \<notin> set (qb_cancelled (build_of sc r))"
    and "\<not> (\<exists>e. fst (execute_build w r store_id sc) = Inl e \<and> is_cancel e)"
    and "run_worker w r store_id scope sc = (Inr (), sc')"
  shows "\<not> is_building (build_of sc' r) \<and> sc_triggered sc' \<and> bq_step\<^sup>*\<^sup>* (sc_queue sc) (sc_queue sc') \<and>
    (is_done (build_of sc' r) \<or>
     is_pending (build_of sc' r) \<and> store_failures_of (build_of sc r) store_id < store_failures_of (build_of sc' r) store_id)"
proof -
  have ok: "bq_ok (sc_queue sc)" using bq_run [OF assms(1) empty_queue_ok] by simp
  obtain x sc1 where e: "execute_build w r store_id sc = (x, sc1)" by fastforce
  note e1 = task_okD [OF task_ok_execute ok assms(2) e]
  define last where "last = (case x of Inr _ \<Rightarrow> (Inr (), sc1) | Inl ex \<Rightarrow> worker_failed w r ex sc1)"
  let ?q2 = "upd r (worker_ended scope) (sc_queue (snd last))"
  have nc: "x = Inl ex \<Longrightarrow> \<not> is_cancel ex" for ex using assms(5) e by auto
  have run: "fst last = Inr ()" "sc' = trigger ((snd last)\<lparr>sc_queue := ?q2\<rparr>)"
    using assms(4,6) e nc unfolding last_def by (auto simp: run_worker_def Let_def split: sum.splits)
  have w: "works r sc (snd last)" and s: "settles r store_id sc (snd last)"
    using e1 run(1) works_trans [OF e1(1)] worker_failed_run [OF e1(3,4)] unfolding last_def
    by (auto simp: settles_def split: sum.splits)
  have q: "sc_queue sc' = ?q2" by (simp add: run(2))
  have "length (bq_builds (sc_queue (snd last))) = length (bq_builds (sc_queue sc))"
    using w by (simp add: works_def touches_def)
  then have b: "build_of sc' r = worker_ended scope (build_of (snd last) r)"
    using queue_less [OF ok assms(2)] by (simp add: q build_at_upd_same)
  have "qb_worker (build_of (snd last) r) \<in> {None, Some scope}" using w assms(3) by (auto simp: works_def)
  then have "\<not> is_building (build_of sc' r)" by (auto simp: b worker_ended_def is_building_def)
  moreover have "bq_step\<^sup>*\<^sup>* (sc_queue sc) (sc_queue sc')"
  proof -
    have "bq_step (sc_queue (snd last)) ?q2" by (rule step_worker_ended)
    moreover have "bq_step\<^sup>*\<^sup>* (sc_queue sc) (sc_queue (snd last))" using w by (simp add: works_def touches_def)
    ultimately show ?thesis unfolding q by (simp add: rtranclp.rtrancl_into_rtrancl)
  qed
  moreover have "is_done (build_of sc' r) = is_done (build_of (snd last) r)"
    "store_failures_of (build_of sc' r) store_id = store_failures_of (build_of (snd last) r) store_id"
    by (simp_all add: b worker_ended_def is_done_def store_failures_of_def)
  ultimately show ?thesis using s by (auto simp: run(2) settles_def is_pending_def)
qed

section \<open>A sample\<close>

text \<open>The build of the sample runs on the local daemon, and every call of it works.\<close>

definition sample_started :: Scheduler where
  "sample_started = sample_scheduler\<lparr>sc_queue :=
     upd 0 (spawn_worker 0) (upd 0 (assign_store ''local'') (sc_queue sample_scheduler))\<rparr>"

definition sample_world :: worker_world where
  "sample_world =
     \<lparr>ww_str = (\<lambda>_. []), ww_exc_str = (\<lambda>_. []), ww_send = everyone, ww_float_repr = id, ww_now = 1,
      ww_settings = Inr False, ww_here = Inl (Leaf ECancelled []), ww_here_logs = [], ww_connect = None, ww_prepare = None,
      ww_response = Inr (failure_result BUILT [], []), ww_realised = [''/nix/store/o''], ww_hold = None, ww_leave_build = None,
      ww_pull = (\<lambda>_. Inr 1), ww_record = None, ww_leave_held = None\<rparr>"

lemma sample_started_run: "bq_step\<^sup>*\<^sup>* empty_queue (sc_queue sample_started)"
proof -
  let ?q = "sc_queue sample_scheduler"
  have "bq_step\<^sup>*\<^sup>* empty_queue (upd 0 (assign_store ''local'') ?q)"
    by (rule rtranclp.rtrancl_into_rtrancl [OF sample_scheduler_run step_assign])
  then have "bq_step\<^sup>*\<^sup>* empty_queue (upd 0 (spawn_worker 0) (upd 0 (assign_store ''local'') ?q))"
    by (rule rtranclp.rtrancl_into_rtrancl) (rule step_spawn)
  then show ?thesis by (simp add: sample_started_def)
qed

theorem worker_settles_its_build_witness:
  "\<not> is_building (build_of (snd (run_worker sample_world 0 ''local'' 0 sample_started)) 0) \<and>
   (is_done (build_of (snd (run_worker sample_world 0 ''local'' 0 sample_started)) 0) \<or>
    is_pending (build_of (snd (run_worker sample_world 0 ''local'' 0 sample_started)) 0))"
proof -
  have x: "fst (execute_build sample_world 0 ''local'' sample_started) = Inr ()" by code_simp
  have s: "0 \<in> set (bq_queue (sc_queue sample_started))" "qb_worker (build_of sample_started 0) = Some 0"
    "0 \<notin> set (qb_cancelled (build_of sample_started 0))" by code_simp+
  have "run_worker sample_world 0 ''local'' 0 sample_started = (Inr (), snd (run_worker sample_world 0 ''local'' 0 sample_started))"
    using x s(3) by (auto simp: run_worker_def Let_def split: prod.split sum.split)
  from worker_settles_its_build [OF sample_started_run s _ this] x show ?thesis by auto
qed

section \<open>An answer without outputs\<close>

definition same_answer :: "nat \<Rightarrow> Scheduler \<Rightarrow> Scheduler \<Rightarrow> bool" where
  "same_answer r sc sc' \<longleftrightarrow> bq_ok (sc_queue sc') \<and> r \<in> set (bq_queue (sc_queue sc')) \<and>
     qb_answer (build_of sc' r) = qb_answer (build_of sc r) \<and>
     qb_store_failures (build_of sc' r) = qb_store_failures (build_of sc r) \<and> sc_output_locations sc' = sc_output_locations sc"

definition task_keeps :: "nat \<Rightarrow> 'a task \<Rightarrow> bool" where
  "task_keeps r m \<longleftrightarrow> (\<forall>sc. bq_ok (sc_queue sc) \<and> r \<in> set (bq_queue (sc_queue sc)) \<longrightarrow> same_answer r sc (snd (m sc)))"

lemma task_keeps_bind:
  assumes "task_keeps r m" and "\<And>x. task_keeps r (f x)"
  shows "task_keeps r (task_bind m f)"
  unfolding task_keeps_def
proof (intro allI impI)
  fix sc :: Scheduler assume ok: "bq_ok (sc_queue sc) \<and> r \<in> set (bq_queue (sc_queue sc))"
  obtain y sc1 where m: "m sc = (y, sc1)" by fastforce
  have s1: "same_answer r sc sc1" using assms(1) ok m by (auto simp: task_keeps_def)
  show "same_answer r sc (snd (task_bind m f sc))"
  proof (cases y)
    case (Inr x)
    have "same_answer r sc1 (snd (f x sc1))" using assms(2) [of x] s1 by (auto simp: task_keeps_def same_answer_def)
    then show ?thesis using s1 m Inr by (simp add: task_bind_def same_answer_def)
  qed (use m s1 in \<open>simp add: task_bind_def\<close>)
qed

lemma task_keeps_core:
  assumes "\<And>b. qb_answer (f b) = qb_answer b \<and> qb_store_failures (f b) = qb_store_failures b" and "\<And>q. bq_step q (upd r f q)"
  shows "task_keeps r (change (\<lambda>sc. sc\<lparr>sc_queue := upd r f (sc_queue sc)\<rparr>))"
  unfolding task_keeps_def same_answer_def change_def
  using assms(1) bq_step_cases [OF assms(2)] by (auto simp: build_at_upd_same)

lemma task_keeps_post: "task_keeps r (lifted str (on_queue (on_build r (post_log_and_fanout send m))))"
  unfolding task_keeps_def
proof (intro allI impI)
  fix sc :: Scheduler assume ok: "bq_ok (sc_queue sc) \<and> r \<in> set (bq_queue (sc_queue sc))"
  let ?q = "snd (on_build r (post_log_and_fanout send m) (sc_queue sc))"
  have re: "rests r (sc_queue sc) ?q" by (rule rests_fan_out)
  then have "bq_ok ?q" "bq_queue ?q = bq_queue (sc_queue sc)"
    using ok touches_ok(1) by (auto simp: rests_def touches_def dest: bq_run)
  moreover have "same_core b (snd (post_log_and_fanout send m b))" for b
  proof -
    obtain x b1 where p: "post_log m b = (x, b1)" by fastforce
    have "same_core b b1" using same_core_post_log [of b m] p by simp
    then show ?thesis
      using p same_core_trans [OF _ same_core_post_log_bytes] by (cases x) (auto simp: post_log_and_fanout_def bind_apply)
  qed
  moreover have "snd (lifted str (on_queue (on_build r (post_log_and_fanout send m))) sc) = sc\<lparr>sc_queue := ?q\<rparr>"
    by (simp add: lifted_def on_queue_def split: prod.split)
  ultimately show "same_answer r sc (snd (lifted str (on_queue (on_build r (post_log_and_fanout send m))) sc))"
    using ok by (simp add: same_answer_def snd_on_build build_at_upd_same same_core_def)
qed

lemma task_keeps_say: "task_keeps r (say w r line)"
  by (simp add: say_def post_line_def task_keeps_post)

lemma task_keeps_ask:
  assumes "ww_connect w = None" and "ww_prepare w = None"
  shows "task_keeps r (ask_builder w r i)"
proof -
  have "task_keeps r (post_messages w r ms)" for ms
    by (induction ms) (simp_all add: task_keeps_bind task_keeps_post, simp add: task_keeps_def change_def same_answer_def)
  then have "task_keeps r (task_bind (post_messages w r logs) (\<lambda>_. Pair (Inr resp)))" for logs and resp :: BuildResult
    by (rule task_keeps_bind) (simp add: task_keeps_def same_answer_def)
  then have resp: "task_keeps r (\<lambda>sc. case ww_response w of
      Inl e \<Rightarrow> (Inl e, sc) | Inr (resp, logs) \<Rightarrow> task_bind (post_messages w r logs) (\<lambda>_. Pair (Inr resp)) sc)"
    unfolding task_keeps_def by (auto simp: same_answer_def split: sum.split)
  have out: "task_keeps r (outcome None)" by (simp add: task_keeps_def outcome_def same_answer_def)
  have "task_keeps r (say_where_it_builds w r i)"
    by (simp add: say_where_it_builds_def task_keeps_say, simp add: task_keeps_def change_def same_answer_def)
  moreover have "task_keeps r (start_clock w r)"
    unfolding start_clock_def by (rule task_keeps_core) (simp_all add: mark_started_def step_start [unfolded mark_started_def [abs_def]] step_start)
  moreover have "task_keeps r (change (\<lambda>sc. sc\<lparr>sc_queue := upd r (strip_build fr) (sc_queue sc)\<rparr>))" for fr
    by (rule task_keeps_core) (simp_all add: strip_build_def step_strip)
  ultimately show ?thesis unfolding ask_builder_def assms using resp out by (intro task_keeps_bind)
qed

lemma complete_gives:
  assumes "bq_ok q" and "r \<in> set (bq_queue q)" and "\<not> is_done (build_at q r)"
    and "complete send (qb_build_id (build_at q r)) resp now q = (Inr (), q')"
  shows "qb_answer (build_at q' r) = Value resp"
proof -
  let ?i = "qb_build_id (build_at q r)"
  note len = queue_less [OF assms(1,2)]
  obtain x q1 where s: "stop_waiting send ?i q = (Inr x, q1)" and c: "complete_locked ?i resp now q1 = (Inr (), q')"
    using assms(4) by (auto simp: complete_def bind_apply split: prod.splits sum.splits)
  have re: "rests r q q1" using rests_stop_waiting [OF assms(1) len, of send] s by simp
  note ok = rests_ok [OF re assms(1) len]
  have i: "map_of (bq_by_id q) ?i = Some r" using by_id_iff [OF assms(1)] build_id_at [OF assms(1) len] assms(2) by simp
  have q1: "q1 = snd (stop_waiting send ?i q)" using s by simp
  have "q1 = upd r (\<lambda>b. snd (stop_waiting_activities send b)) q"
    unfolding q1 stop_waiting_def i by (simp add: snd_on_build)
  then have "\<not> is_done (build_at q1 r)"
    using same_core_stop_waiting [of "build_at q r" send] assms(3) len by (simp add: build_at_upd_same same_core_def is_done_def)
  moreover have "find_build q1 ?i = Some r"
    using c find_build_found [OF ok(1,3)] ok(2) by (auto simp: complete_locked_def split: option.splits)
  ultimately show ?thesis
    using c ok(3) by (auto simp: complete_locked_def bind_apply note_a_request_that_gave_up_def upd_def split: sum.splits bool.splits)
qed

text \<open>
  When the connection that is to hold the outputs is lost after the builder reported success, the
  build is put back for another try and then answered as built all the same: the failure of the store
  is counted, nothing was pulled, and no location of an output is noted.
\<close>

theorem built_without_outputs:
  assumes "bq_ok (sc_queue sc)" and "r \<in> set (bq_queue (sc_queue sc))" and "\<not> is_done (build_of sc r)"
    and "store_id \<noteq> local_id sc \<or> \<not> sc_has_db sc" and "ww_connect w = None" and "ww_prepare w = None"
    and "ask_builder w r store_id (sc\<lparr>sc_queue := upd r (assign_store store_id) (sc_queue sc)\<rparr>) = (Inr resp, sc1)"
    and "result_succeeded resp" and "ww_hold w = Some e" and "retryable e" and "\<not> is_cancel e"
    and "execute_build w r store_id sc = (Inr (), sc')"
  shows "qb_answer (build_of sc' r) = Value resp \<and>
    store_failures_of (build_of sc' r) store_id = Suc (store_failures_of (build_of sc r) store_id) \<and>
    sc_output_locations sc' = sc_output_locations sc"
proof -
  let ?sc0 = "sc\<lparr>sc_queue := upd r (assign_store store_id) (sc_queue sc)\<rparr>"
  have "same_answer r sc ?sc0"
    using task_keeps_core [of "assign_store store_id" r] assms(1,2) step_assign
    by (auto simp: task_keeps_def change_def assign_store_def)
  moreover from this have "same_answer r ?sc0 sc1"
    using task_keeps_ask [OF assms(5,6), of r store_id] assms(7) unfolding task_keeps_def same_answer_def by (metis snd_conv)
  ultimately have s1: "same_answer r sc sc1" by (simp add: same_answer_def)
  have local: "\<not> (store_id = local_id ?sc0 \<and> sc_has_db ?sc0)" using assms(4) by simp
  have "try_build w r store_id ?sc0 = (left_by (Some resp) (Some e), sc1)"
    using assms(7-9) unfolding try_build_def if_not_P [OF local] build_remote_def
    by (simp add: settle_response_def task_bind_def outcome_def)
  then have run: "task_bind (handle w r store_id e) (\<lambda>_. complete_build w r resp) sc1 = (Inr (), sc')"
    using assms(11,12) by (simp add: execute_build_def Let_def left_by_def)
  define sc2 where "sc2 = note_disk_full (ww_now w) store_id (error_text e) sc1"
  define line where "line = ''build failed on '' @ store_id @ '', retrying: '' @ error_text e"
  obtain x sc3 where say: "say w r line sc2 = (x, sc3)" by fastforce
  have x: "x = Inr ()" and run': "complete_build w r resp (trigger (retry r store_id (error_text e) sc3)) = (Inr (), sc')"
    using run say assms(10) unfolding sc2_def line_def
    by (cases x; simp add: handle_def Let_def task_bind_def change_def)+
  have "sc_output_locations sc2 = sc_output_locations sc1"
    by (simp add: sc2_def note_disk_full_def upd_daemon_def split: option.split)
  then have "same_answer r sc sc2" using s1 by (simp add: same_answer_def sc2_def)
  then have s3: "same_answer r sc sc3"
    using task_keeps_say [of r w line] say unfolding task_keeps_def same_answer_def by (metis snd_conv)
  let ?sc4 = "trigger (retry r store_id (error_text e) sc3)"
  have ok3: "bq_ok (sc_queue sc3)" "r \<in> set (bq_queue (sc_queue sc3))" using s3 by (simp_all add: same_answer_def)
  note ok4 = works_ok(1,2) [OF works_retry ok3, of store_id "error_text e"]
  have b4: "build_of ?sc4 r = reset_for_retry store_id (error_text e) (build_of sc3 r)"
    using queue_less [OF ok3] by (simp add: retry_def build_at_upd_same)
  then have nd: "\<not> is_done (build_of ?sc4 r)"
    using s3 assms(3) by (simp add: reset_for_retry_def is_done_def same_answer_def)
  obtain y q' where y: "complete (ww_send w) (qb_build_id (build_of ?sc4 r)) resp (ww_now w) (sc_queue ?sc4) = (y, q')" by fastforce
  then have c: "complete (ww_send w) (qb_build_id (build_of ?sc4 r)) resp (ww_now w) (sc_queue ?sc4) = (Inr (), q')"
    and sc': "sc' = trigger (?sc4\<lparr>sc_queue := q'\<rparr>)"
    using run' by (cases y; simp add: complete_build_def task_bind_def lifted_def on_queue_def change_def)+
  have ok4': "bq_ok (sc_queue ?sc4)" "r \<in> set (bq_queue (sc_queue ?sc4))" using ok4 by simp_all
  have "qb_answer (build_at q' r) = Value resp" by (rule complete_gives [OF ok4' nd c])
  moreover have "qb_store_failures (build_at q' r) = qb_store_failures (build_of ?sc4 r)"
    using complete_run(1) [OF ok4'(1) queue_less [OF ok4'], of "ww_send w" resp "ww_now w"] c by (simp add: rests_def)
  moreover have "sc_output_locations sc' = sc_output_locations sc3" by (simp add: sc' trigger_def retry_def)
  ultimately show ?thesis
    using s3 b4 by (simp add: sc' reset_for_retry_def store_failures_of_def same_answer_def)
qed

end
