(* ===== verification/Wire_Codec.thy ===== *)
theory Wire_Codec
  imports Wire_Logs Store_Path
begin

text \<open>
  The generic codec of the daemon protocol (\<open>nix_daemon_protocol/wire_message.py\<close>, with
  \<open>wire_scalar.py\<close>, \<open>wire_integer.py\<close>, \<open>wire_string.py\<close> and the base classes of \<open>wire_ops.py\<close>). A
  message class declares fields with annotations, versions and features; \<open>_find_reader\<close> and
  \<open>_find_writer\<close> turn an annotation into a reader and a writer, \<open>_wire_fields\<close> keeps the fields that a
  version and a feature set have, and \<open>_wire_plan\<close> puts both together.

  Annotations and Python values are data types here, classes are looked up by name. A writer is
  given as \<open>BytesWriter\<close>, a reader as a stream. The lookups of nested models are arguments of the
  definitions, since \<open>from_reader\<close> and \<open>to_writer\<close> of a model call the codec again.
\<close>

section \<open>Values and annotations\<close>

text \<open>The classes that travel as one string: \<open>StorePath\<close> and the subclasses of \<open>WireScalar\<close>.\<close>

datatype scalar_class = C_StorePath | C_Signature | C_NARHash | C_DrvOutput | C_ContentAddress | C_DerivedPath

text \<open>
  A value of a field. A scalar is its class and its text, a store path its base name; an instance of
  a \<open>WireUInt64\<close> subclass and a member of an enum are the class and the number. The attributes of a
  model are in the order of its fields, \<open>None\<close> for one that is not set.
\<close>

datatype pyval =
    PNone
  | PInt int
  | PBool bool
  | PStr string
  | PBytes bytes
  | PUInt64 string int
  | PEnum string int
  | PScalar scalar_class string
  | PList "pyval list"
  | PSet "pyval list"
  | PDict "(pyval \<times> pyval) list"
  | PLogs "LogMessage list"
  | PObj string "(string \<times> pyval option) list"

type_synonym attrs = "(string \<times> pyval option) list"

text \<open>
  \<open>AOptional a\<close> is a union of \<open>None\<close> and one other type, \<open>AUnion\<close> any other union. A string model
  carries the names of its fields, an enum the numbers of its members.
\<close>

datatype ann =
    AInt
  | AStr
  | ABool
  | ABytes
  | AUInt64 string
  | AEnum string "int list"
  | AScalar scalar_class
  | AOptional ann
  | AUnion
  | AList ann
  | ASet ann
  | ADict ann ann
  | AWireString string "string list"
  | AModel string
  | AOther

definition is_wire_scalar :: "ann \<Rightarrow> bool" where
  "is_wire_scalar a = (case a of AScalar _ \<Rightarrow> True | _ \<Rightarrow> False)"

text \<open>\<open>getattr\<close> and \<open>object.__setattr__\<close> on the attributes of a model.\<close>

definition get_attr :: "string \<Rightarrow> attrs \<Rightarrow> error + pyval" where
  "get_attr n ob = (case map_of ob n of Some (Some v) \<Rightarrow> Inr v | _ \<Rightarrow> Inl AttributeError)"

definition set_attr :: "string \<Rightarrow> pyval \<Rightarrow> attrs \<Rightarrow> attrs" where
  "set_attr n v ob = dict_set n (Some v) ob"

definition getattr :: "pyval \<Rightarrow> string \<Rightarrow> error + pyval" where
  "getattr v n = (case v of PObj _ ob \<Rightarrow> get_attr n ob | _ \<Rightarrow> Inl AttributeError)"

text \<open>The error of \<open>v.m()\<close> where the class of \<open>v\<close> has no method \<open>m\<close>: an attribute of that name is not callable.\<close>

definition no_method :: "pyval \<Rightarrow> string \<Rightarrow> error" where
  "no_method v m = (case getattr v m of Inr _ \<Rightarrow> TypeError | Inl e \<Rightarrow> e)"

section \<open>Scalars\<close>

text \<open>\<open>NARHash.__new__\<close>: the name of an algorithm before the digest goes.\<close>

definition ALGORITHMS :: "string list" where
  "ALGORITHMS = [''blake3'', ''md5'', ''sha1'', ''sha256'', ''sha512'']"

definition nar_hash_new :: "string \<Rightarrow> string" where
  "nar_hash_new v =
     (let (head, separator, digest) = partition_at (CHR '':'') v
      in if separator \<and> head \<in> set ALGORITHMS then digest else v)"

text \<open>\<open>from_wire\<close> and \<open>to_wire\<close> of the scalar classes, in the store directory \<open>sd\<close>.\<close>

definition scalar_from_wire :: "string \<Rightarrow> scalar_class \<Rightarrow> string \<Rightarrow> error + pyval" where
  "scalar_from_wire sd c s = (case c of
     C_StorePath \<Rightarrow> andthen (read_store_path sd s) (\<lambda>b. Inr (PScalar C_StorePath b))
   | C_NARHash \<Rightarrow> Inr (PScalar C_NARHash (nar_hash_new s))
   | _ \<Rightarrow> Inr (PScalar c s))"

definition scalar_to_wire :: "string \<Rightarrow> pyval \<Rightarrow> error + string" where
  "scalar_to_wire sd v = (case v of
     PScalar c s \<Rightarrow> Inr (if c = C_StorePath then print_store_path sd s else s)
   | _ \<Rightarrow> Inl (no_method v ''to_wire''))"

text \<open>\<open>bool(v)\<close> for the values that have one here.\<close>

definition truthy :: "pyval \<Rightarrow> bool" where
  "truthy v = (case v of
     PNone \<Rightarrow> False | PInt i \<Rightarrow> i \<noteq> 0 | PBool b \<Rightarrow> b | PStr s \<Rightarrow> s \<noteq> [] | PBytes b \<Rightarrow> b \<noteq> []
   | PUInt64 _ i \<Rightarrow> i \<noteq> 0 | PEnum _ i \<Rightarrow> i \<noteq> 0 | PScalar _ s \<Rightarrow> s \<noteq> []
   | PList xs \<Rightarrow> xs \<noteq> [] | PSet xs \<Rightarrow> xs \<noteq> [] | PDict d \<Rightarrow> d \<noteq> [] | PLogs _ \<Rightarrow> True | PObj _ _ \<Rightarrow> True)"

definition or_none :: "pyval \<Rightarrow> pyval" where
  "or_none v = (if truthy v then v else PNone)"

section \<open>What the writer and the reader do with a value\<close>

text \<open>\<open>struct\<close> packs whatever is an \<open>int\<close>: a Boolean, an enum member and a \<open>WireUInt64\<close> are.\<close>

definition as_int :: "pyval \<Rightarrow> int option" where
  "as_int v = (case v of
     PInt i \<Rightarrow> Some i | PBool b \<Rightarrow> Some (if b then 1 else 0) | PUInt64 _ i \<Rightarrow> Some i | PEnum _ i \<Rightarrow> Some i
   | _ \<Rightarrow> None)"

definition put_uint64 :: "pyval \<Rightarrow> (bytes, unit) eff" where
  "put_uint64 v = (case as_int v of Some i \<Rightarrow> write_uint64 i | None \<Rightarrow> raise StructError)"

text \<open>\<open>write_bool\<close> writes \<open>int(value)\<close>; a text would be parsed as a number, which raises for most.\<close>

definition put_bool :: "pyval \<Rightarrow> (bytes, unit) eff" where
  "put_bool v = (case as_int v of Some i \<Rightarrow> write_uint64 i | None \<Rightarrow> raise TypeError)"

definition put_bytes :: "pyval \<Rightarrow> (bytes, unit) eff" where
  "put_bytes v = (case v of PBytes b \<Rightarrow> write_bytes b | _ \<Rightarrow> raise TypeError)"

text \<open>
  \<open>str(value)\<close>, the argument of \<open>write_string\<close>. Numbers, containers and objects have a \<open>repr\<close> that the
  model does not have and that no field of type \<open>str\<close> holds; they raise here.
\<close>

definition py_str :: "string \<Rightarrow> pyval \<Rightarrow> error + string" where
  "py_str sd v = (case v of
     PStr s \<Rightarrow> Inr s
   | PScalar c s \<Rightarrow> Inr (if c = C_StorePath then print_store_path sd s else s)
   | PNone \<Rightarrow> Inr ''None''
   | PBool b \<Rightarrow> Inr (if b then ''True'' else ''False'')
   | _ \<Rightarrow> Inl TypeError)"

definition put_string :: "string \<Rightarrow> pyval \<Rightarrow> (bytes, unit) eff" where
  "put_string sd v = bind (of_result (py_str sd v)) write_string"

text \<open>\<open>v.encode("utf-8", errors=...)\<close>: only a \<open>str\<close> has it, and every scalar but a store path is one.\<close>

definition str_encode :: "pyval \<Rightarrow> error + pyval" where
  "str_encode v = (case v of
     PStr s \<Rightarrow> Inr (PBytes (encode s))
   | PScalar c s \<Rightarrow> if c = C_StorePath then Inl AttributeError else Inr (PBytes (encode s))
   | _ \<Rightarrow> Inl (no_method v ''encode''))"

definition str_decode :: "pyval \<Rightarrow> error + pyval" where
  "str_decode v = (case v of PBytes b \<Rightarrow> Inr (PStr (decode b)) | _ \<Rightarrow> Inl (no_method v ''decode''))"

text \<open>\<open>v.value\<close>: the number of an enum member, or an attribute of that name.\<close>

definition enum_value :: "pyval \<Rightarrow> error + pyval" where
  "enum_value v = (case v of PEnum _ i \<Rightarrow> Inr (PInt i) | _ \<Rightarrow> getattr v ''value'')"

text \<open>
  \<open>len(v)\<close> and iterating over \<open>v\<close>. A text and bytes have both in Python; no field that holds one is
  annotated as a container, and they raise here like every value that is no container.
\<close>

definition py_len :: "pyval \<Rightarrow> error + pyval" where
  "py_len v = (case v of
     PList xs \<Rightarrow> Inr (PInt (int (length xs))) | PSet xs \<Rightarrow> Inr (PInt (int (length xs)))
   | PDict d \<Rightarrow> Inr (PInt (int (length d)))
   | _ \<Rightarrow> Inl TypeError)"

definition py_iter :: "pyval \<Rightarrow> error + pyval list" where
  "py_iter v = (case v of PList xs \<Rightarrow> Inr xs | PSet xs \<Rightarrow> Inr xs | PDict d \<Rightarrow> Inr (map fst d) | _ \<Rightarrow> Inl TypeError)"

definition py_items :: "pyval \<Rightarrow> error + (pyval \<times> pyval) list" where
  "py_items v = (case v of PDict d \<Rightarrow> Inr d | _ \<Rightarrow> Inl (no_method v ''items''))"

text \<open>What may be a member of a set or a key of a dictionary.\<close>

fun hashable :: "pyval \<Rightarrow> bool" where
  "hashable (PList _) = False"
| "hashable (PSet _) = False"
| "hashable (PDict _) = False"
| "hashable (PObj _ ob) = list_all (\<lambda>e. case snd e of Some v \<Rightarrow> hashable v | None \<Rightarrow> False) ob"
| "hashable _ = True"

definition add_to_set :: "pyval \<Rightarrow> pyval list \<Rightarrow> error + pyval list" where
  "add_to_set v xs = (if hashable v then Inr (set_add v xs) else Inl TypeError)"

definition add_to_dict :: "pyval \<Rightarrow> pyval \<Rightarrow> (pyval \<times> pyval) list \<Rightarrow> error + (pyval \<times> pyval) list" where
  "add_to_dict k v d = (if hashable k then Inr (dict_set k v d) else Inl TypeError)"

definition enum_new :: "string \<Rightarrow> int list \<Rightarrow> int \<Rightarrow> error + pyval" where
  "enum_new c members i = (if i \<in> set members then Inr (PEnum c i) else Inl ValueError)"

section \<open>Message classes\<close>

text \<open>The tests that \<open>wire_depends_on\<close> is used with: comparisons of attributes, and their conjunction.\<close>

datatype pred = Equals string pyval | Differs string pyval | Holds string | Both pred pred

fun eval_pred :: "pred \<Rightarrow> attrs \<Rightarrow> error + bool" where
  "eval_pred (Equals n v) ob = andthen (get_attr n ob) (\<lambda>x. Inr (x = v))"
| "eval_pred (Differs n v) ob = andthen (get_attr n ob) (\<lambda>x. Inr (x \<noteq> v))"
| "eval_pred (Holds n) ob = andthen (get_attr n ob) (\<lambda>x. Inr (truthy x))"
| "eval_pred (Both p q) ob = andthen (eval_pred p ob) (\<lambda>b. if b then eval_pred q ob else Inr False)"

datatype text_errors = Strict | Surrogateescape

record VersionMeta =
  min_version :: "int option"
  max_version :: "int option"
  serialize :: "bool option"
  deserialize :: "bool option"
  wire_depends_on :: "pred option"
  needs_features :: "string list option"
  unless_features :: "string list option"
  text_errors :: text_errors

text \<open>A default value, or a factory with the value it makes.\<close>

datatype field_default = NoDefault | Default pyval | Factory pyval

record model_field =
  mf_name :: string
  mf_ann :: ann
  mf_classvar :: bool
  mf_meta :: "VersionMeta option"
  mf_default :: field_default

type_synonym reader = "ReadContext \<Rightarrow> (LogMessage stream, pyval) eff"
type_synonym writer = "pyval \<Rightarrow> (bytes, unit) eff"

text \<open>
  Whether a class keeps the codec of \<open>WireModel\<close>, keeps the one of \<open>WireRequest\<close> (with its operation
  code and least protocol version), or has methods of its own.
\<close>

datatype codec_kind = BaseCodec | RequestCodec int int | CustomCodec writer reader

record model_class =
  mc_name :: string
  mc_fields :: "model_field list"
  mc_codec :: codec_kind

text \<open>The store directory, and the classes by their names.\<close>

record wire_env =
  we_dir :: string
  we_class :: "string \<Rightarrow> model_class option"

section \<open>The fields of a version\<close>

record wire_field =
  wf_name :: string
  wf_ann :: ann
  wf_depends :: "pred option"
  wf_serialize :: bool
  wf_deserialize :: bool
  wf_errors :: text_errors

definition version_keeps :: "int \<Rightarrow> VersionMeta \<Rightarrow> bool" where
  "version_keeps version m \<longleftrightarrow> version = 0 \<or>
     (case min_version m of Some v \<Rightarrow> \<not> version < v | None \<Rightarrow> True) \<and>
     (case max_version m of Some v \<Rightarrow> \<not> version > v | None \<Rightarrow> True)"

definition features_keep :: "string list \<Rightarrow> VersionMeta \<Rightarrow> bool" where
  "features_keep features m \<longleftrightarrow>
     (case needs_features m of Some fs \<Rightarrow> set fs \<subseteq> set features | None \<Rightarrow> True) \<and>
     (case unless_features m of Some fs \<Rightarrow> set fs \<inter> set features = {} | None \<Rightarrow> True)"

definition field_kept :: "int \<Rightarrow> string list \<Rightarrow> model_field \<Rightarrow> bool" where
  "field_kept version features f = (case mf_meta f of
     None \<Rightarrow> True
   | Some m \<Rightarrow> version_keeps version m \<and> features_keep features m)"

definition wire_field_of :: "model_field \<Rightarrow> wire_field" where
  "wire_field_of f = (case mf_meta f of
     None \<Rightarrow> \<lparr>wf_name = mf_name f, wf_ann = mf_ann f, wf_depends = None, wf_serialize = \<not> mf_classvar f,
             wf_deserialize = \<not> mf_classvar f, wf_errors = Strict\<rparr>
   | Some m \<Rightarrow>
       \<lparr>wf_name = mf_name f, wf_ann = mf_ann f, wf_depends = wire_depends_on m,
        wf_serialize = (case serialize m of Some b \<Rightarrow> b | None \<Rightarrow> \<not> mf_classvar f),
        wf_deserialize = (case deserialize m of Some b \<Rightarrow> b | None \<Rightarrow> \<not> mf_classvar f),
        wf_errors = text_errors m\<rparr>)"

text \<open>\<open>_wire_fields\<close>.\<close>

definition wire_fields :: "model_class \<Rightarrow> int \<Rightarrow> string list \<Rightarrow> wire_field list" where
  "wire_fields cls version features = map wire_field_of (filter (field_kept version features) (mc_fields cls))"

section \<open>Readers and writers of an annotation\<close>

primrec read_set_items :: "nat \<Rightarrow> ('s, pyval) eff \<Rightarrow> pyval list \<Rightarrow> ('s, pyval list) eff" where
  "read_set_items 0 r acc = ret acc"
| "read_set_items (Suc n) r acc =
     bind r (\<lambda>x. bind (of_result (add_to_set x acc)) (\<lambda>acc'. read_set_items n r acc'))"

primrec read_dict_items ::
    "nat \<Rightarrow> ('s, pyval) eff \<Rightarrow> ('s, pyval) eff \<Rightarrow> (pyval \<times> pyval) list \<Rightarrow> ('s, (pyval \<times> pyval) list) eff" where
  "read_dict_items 0 kr vr d = ret d"
| "read_dict_items (Suc n) kr vr d =
     bind kr (\<lambda>k. bind vr (\<lambda>v. bind (of_result (add_to_dict k v d)) (\<lambda>d'. read_dict_items n kr vr d')))"

text \<open>
  \<open>_find_reader\<close>. \<open>rd\<close> is \<open>from_reader\<close> of the classes. A string model with one field takes the text
  as it is; with more, \<open>from_str\<close> is to be overridden and raises.
\<close>

fun find_reader :: "string \<Rightarrow> (string \<Rightarrow> reader) \<Rightarrow> ann \<Rightarrow> error + reader" where
  "find_reader sd rd AInt = Inr (\<lambda>ctx. bind read_uint64 (\<lambda>i. ret (PInt i)))"
| "find_reader sd rd (AUInt64 c) = Inr (\<lambda>ctx. bind read_uint64 (\<lambda>i. ret (PUInt64 c i)))"
| "find_reader sd rd (AEnum c members) = Inr (\<lambda>ctx. bind read_uint64 (\<lambda>i. of_result (enum_new c members i)))"
| "find_reader sd rd AStr = Inr (\<lambda>ctx. bind read_string (\<lambda>s. ret (PStr s)))"
| "find_reader sd rd ABool = Inr (\<lambda>ctx. bind read_bool (\<lambda>b. ret (PBool b)))"
| "find_reader sd rd ABytes = Inr (\<lambda>ctx. bind read_bytes (\<lambda>b. ret (PBytes b)))"
| "find_reader sd rd (AOptional a) =
     andthen (find_reader sd rd a) (\<lambda>inner.
       Inr (if is_wire_scalar a then (\<lambda>ctx. bind (inner ctx) (\<lambda>v. ret (or_none v))) else inner))"
| "find_reader sd rd (AList a) =
     andthen (find_reader sd rd a) (\<lambda>elem. Inr (\<lambda>ctx. bind (read_list (elem ctx)) (\<lambda>xs. ret (PList xs))))"
| "find_reader sd rd (ASet a) =
     andthen (find_reader sd rd a) (\<lambda>elem. Inr (\<lambda>ctx.
       bind read_uint64 (\<lambda>n. bind (read_set_items (nat n) (elem ctx) []) (\<lambda>xs. ret (PSet xs)))))"
| "find_reader sd rd (ADict a b) =
     andthen (find_reader sd rd a) (\<lambda>kr. andthen (find_reader sd rd b) (\<lambda>vr. Inr (\<lambda>ctx.
       bind read_uint64 (\<lambda>n. bind (read_dict_items (nat n) (kr ctx) (vr ctx) []) (\<lambda>d. ret (PDict d))))))"
| "find_reader sd rd (AWireString c names) = Inr (\<lambda>ctx.
     bind read_string (\<lambda>raw. case names of
       [n] \<Rightarrow> ret (PObj c [(n, Some (PStr raw))])
     | _ \<Rightarrow> raise RuntimeError))"
| "find_reader sd rd (AScalar c) = Inr (\<lambda>ctx. bind read_string (\<lambda>s. of_result (scalar_from_wire sd c s)))"
| "find_reader sd rd (AModel c) = Inr (\<lambda>ctx. rd c (nested_context ctx))"
| "find_reader sd rd AUnion = Inl TypeError"
| "find_reader sd rd AOther = Inl TypeError"

text \<open>\<open>str(val)\<close> of a string model: its one field, and \<open>to_str\<close> to be overridden where it has more.\<close>

definition wire_string_str :: "string \<Rightarrow> string list \<Rightarrow> pyval \<Rightarrow> error + string" where
  "wire_string_str sd names v = (case names of
     [n] \<Rightarrow> andthen (getattr v n) (py_str sd)
   | _ \<Rightarrow> Inl RuntimeError)"

text \<open>\<open>_find_writer\<close>. \<open>wr\<close> is \<open>to_writer\<close> of the value's class.\<close>

fun find_writer :: "string \<Rightarrow> writer \<Rightarrow> ann \<Rightarrow> error + writer" where
  "find_writer sd wr AInt = Inr put_uint64"
| "find_writer sd wr (AUInt64 c) = Inr put_uint64"
| "find_writer sd wr AStr = Inr (put_string sd)"
| "find_writer sd wr ABool = Inr put_bool"
| "find_writer sd wr ABytes = Inr put_bytes"
| "find_writer sd wr (AOptional a) =
     andthen (find_writer sd wr a) (\<lambda>inner.
       Inr (if is_wire_scalar a then (\<lambda>v. if v = PNone then write_string [] else inner v) else inner))"
| "find_writer sd wr (AList a) =
     andthen (find_writer sd wr a) (\<lambda>elem. Inr (\<lambda>v.
       bind (of_result (py_len v)) (\<lambda>n. bind (put_uint64 n) (\<lambda>_.
       bind (of_result (py_iter v)) (write_items elem)))))"
| "find_writer sd wr (ASet a) =
     andthen (find_writer sd wr a) (\<lambda>elem. Inr (\<lambda>v.
       bind (of_result (py_len v)) (\<lambda>n. bind (put_uint64 n) (\<lambda>_.
       bind (of_result (py_iter v)) (write_items elem)))))"
| "find_writer sd wr (ADict a b) =
     andthen (find_writer sd wr a) (\<lambda>kw. andthen (find_writer sd wr b) (\<lambda>vw. Inr (\<lambda>v.
       bind (of_result (py_len v)) (\<lambda>n. bind (put_uint64 n) (\<lambda>_.
       bind (of_result (py_items v)) (write_items (\<lambda>(k, x). bind (kw k) (\<lambda>_. vw x))))))))"
| "find_writer sd wr (AWireString c names) =
     Inr (\<lambda>v. bind (of_result (wire_string_str sd names v)) write_string)"
| "find_writer sd wr (AScalar c) = Inr (\<lambda>v. bind (of_result (scalar_to_wire sd v)) write_string)"
| "find_writer sd wr (AModel c) = Inr wr"
| "find_writer sd wr (AEnum c members) = Inr (\<lambda>v. bind (of_result (enum_value v)) put_uint64)"
| "find_writer sd wr AUnion = Inl TypeError"
| "find_writer sd wr AOther = Inl TypeError"

section \<open>The plan of a class\<close>

datatype lossless_shape = Plain | OptionalText

definition lossless_shape :: "ann \<Rightarrow> lossless_shape option" where
  "lossless_shape a = (case a of
     AStr \<Rightarrow> Some Plain
   | AOptional b \<Rightarrow> if b = AStr then Some OptionalText else None
   | _ \<Rightarrow> None)"

definition lossless_reader :: reader where
  "lossless_reader ctx = bind read_bytes (\<lambda>b. ret (PStr (decode b)))"

definition lossless_optional_reader :: reader where
  "lossless_optional_reader ctx = bind read_bytes (\<lambda>b. ret (or_none (PStr (decode b))))"

definition lossless_writer :: writer where
  "lossless_writer v = bind (of_result (str_encode v)) put_bytes"

definition lossless_optional_writer :: writer where
  "lossless_optional_writer v = (if v = PNone then write_string [] else lossless_writer v)"

record ReadStep =
  rs_name :: string
  rs_reader :: reader
  rs_depends :: "pred option"
  rs_deserialize :: bool

record WriteStep =
  ws_name :: string
  ws_writer :: writer
  ws_depends :: "pred option"
  ws_serialize :: bool

record WirePlan =
  read_steps :: "ReadStep list"
  write_steps :: "WriteStep list"
  plan_defaults :: "(string \<times> pyval) list"

text \<open>The reader and the writer of one field: the lossless pair where the field asks for it.\<close>

definition field_codec :: "string \<Rightarrow> (string \<Rightarrow> reader) \<Rightarrow> writer \<Rightarrow> wire_field \<Rightarrow> error + (reader \<times> writer)" where
  "field_codec sd rd wr f =
     (if wf_errors f = Strict
      then andthen (find_reader sd rd (wf_ann f)) (\<lambda>r. andthen (find_writer sd wr (wf_ann f)) (\<lambda>w. Inr (r, w)))
      else case lossless_shape (wf_ann f) of
        Some Plain \<Rightarrow> Inr (lossless_reader, lossless_writer)
      | Some OptionalText \<Rightarrow> Inr (lossless_optional_reader, lossless_optional_writer)
      | None \<Rightarrow> Inl TypeError)"

fun plan_steps ::
    "string \<Rightarrow> (string \<Rightarrow> reader) \<Rightarrow> writer \<Rightarrow> wire_field list \<Rightarrow> error + (ReadStep list \<times> WriteStep list)" where
  "plan_steps sd rd wr [] = Inr ([], [])"
| "plan_steps sd rd wr (f # fs) =
     andthen (field_codec sd rd wr f) (\<lambda>(r, w). andthen (plan_steps sd rd wr fs) (\<lambda>(rs, ws).
       Inr (\<lparr>rs_name = wf_name f, rs_reader = r, rs_depends = wf_depends f, rs_deserialize = wf_deserialize f\<rparr> # rs,
            \<lparr>ws_name = wf_name f, ws_writer = w, ws_depends = wf_depends f, ws_serialize = wf_serialize f\<rparr> # ws)))"

fun defaults_of :: "model_field list \<Rightarrow> (string \<times> pyval) list" where
  "defaults_of [] = []"
| "defaults_of (f # fs) = (case mf_default f of
     NoDefault \<Rightarrow> defaults_of fs
   | Default v \<Rightarrow> (mf_name f, v) # defaults_of fs
   | Factory v \<Rightarrow> (mf_name f, v) # defaults_of fs)"

text \<open>\<open>_wire_plan\<close>.\<close>

definition wire_plan ::
    "string \<Rightarrow> (string \<Rightarrow> reader) \<Rightarrow> writer \<Rightarrow> model_class \<Rightarrow> int \<Rightarrow> string list \<Rightarrow> error + WirePlan" where
  "wire_plan sd rd wr cls version features =
     andthen (plan_steps sd rd wr (wire_fields cls version features)) (\<lambda>(rs, ws).
       Inr \<lparr>read_steps = rs, write_steps = ws, plan_defaults = defaults_of (mc_fields cls)\<rparr>)"

definition depends_holds :: "pred option \<Rightarrow> attrs \<Rightarrow> error + bool" where
  "depends_holds p ob = (case p of None \<Rightarrow> Inr True | Some q \<Rightarrow> eval_pred q ob)"

fun run_write_steps :: "WriteStep list \<Rightarrow> attrs \<Rightarrow> (bytes, unit) eff" where
  "run_write_steps [] ob = ret ()"
| "run_write_steps (s # ss) ob =
     (if \<not> ws_serialize s then run_write_steps ss ob
      else bind (of_result (depends_holds (ws_depends s) ob)) (\<lambda>on_wire.
        if \<not> on_wire then run_write_steps ss ob
        else bind (of_result (get_attr (ws_name s) ob)) (\<lambda>v.
             bind (ws_writer s v) (\<lambda>_. run_write_steps ss ob))))"

fun run_read_steps :: "ReadStep list \<Rightarrow> ReadContext \<Rightarrow> attrs \<Rightarrow> (LogMessage stream, attrs) eff" where
  "run_read_steps [] ctx ob = ret ob"
| "run_read_steps (s # ss) ctx ob =
     (if \<not> rs_deserialize s then run_read_steps ss ctx ob
      else bind (of_result (depends_holds (rs_depends s) ob)) (\<lambda>on_wire.
        if \<not> on_wire then run_read_steps ss ctx ob
        else bind (rs_reader s ctx) (\<lambda>v. run_read_steps ss ctx (set_attr (rs_name s) v ob))))"

text \<open>\<open>cls.__new__(cls)\<close> with the defaults set.\<close>

definition new_object :: "model_class \<Rightarrow> attrs" where
  "new_object cls = map (\<lambda>f. (mf_name f, None)) (mc_fields cls)"

definition set_defaults :: "(string \<times> pyval) list \<Rightarrow> attrs \<Rightarrow> attrs" where
  "set_defaults ds ob = foldl (\<lambda>ob (n, v). set_attr n v ob) ob ds"

text \<open>\<open>WireModel._write_body\<close>, and the part of \<open>WireModel.from_reader\<close> that reads by the plan.\<close>

definition write_body ::
    "wire_env \<Rightarrow> (string \<Rightarrow> reader) \<Rightarrow> writer \<Rightarrow> model_class \<Rightarrow> int \<Rightarrow> string list \<Rightarrow> attrs \<Rightarrow> (bytes, unit) eff" where
  "write_body env rd wr cls version features ob =
     bind (of_result (wire_plan (we_dir env) rd wr cls version features)) (\<lambda>plan. run_write_steps (write_steps plan) ob)"

definition read_body ::
    "wire_env \<Rightarrow> (string \<Rightarrow> reader) \<Rightarrow> writer \<Rightarrow> model_class \<Rightarrow> int \<Rightarrow> string list \<Rightarrow> reader" where
  "read_body env rd wr cls version features ctx =
     bind (of_result (wire_plan (we_dir env) rd wr cls version features)) (\<lambda>plan.
     bind (run_read_steps (read_steps plan) ctx (set_defaults (plan_defaults plan) (new_object cls))) (\<lambda>ob.
     ret (PObj (mc_name cls) ob)))"

text \<open>What precedes the body of a request: the operation code, refused to a peer that is too old.\<close>

definition request_prelude :: "int \<Rightarrow> int \<Rightarrow> int \<Rightarrow> (bytes, unit) eff" where
  "request_prelude version op_code min_protocol =
     (if version \<noteq> 0 \<and> version < min_protocol then raise UnsupportedProtocolVersion else write_uint64 op_code)"

definition class_of :: "pyval \<Rightarrow> string option" where
  "class_of v = (case v of PObj c _ \<Rightarrow> Some c | PLogs _ \<Rightarrow> Some ''WireLogs'' | _ \<Rightarrow> None)"

definition attrs_of :: "pyval \<Rightarrow> attrs" where
  "attrs_of v = (case v of PObj _ ob \<Rightarrow> ob | _ \<Rightarrow> [])"

text \<open>
  The codec by plans alone, to a depth of nested models that stands for Python's recursion limit:
  what a message is on the wire by its declaration. \<open>Wire_Compiler\<close> shows that the codec in use, which
  compiles a class where it can, is this one.
\<close>

fun plan_codec :: "nat \<Rightarrow> wire_env \<Rightarrow> int \<Rightarrow> string list \<Rightarrow> writer \<times> (string \<Rightarrow> reader)" where
  "plan_codec 0 env version features = ((\<lambda>v. raise OutOfFuel), (\<lambda>c ctx. raise OutOfFuel))"
| "plan_codec (Suc n) env version features =
     (let wr = fst (plan_codec n env version features); rd = snd (plan_codec n env version features) in
      ((\<lambda>v. case class_of v of
          None \<Rightarrow> raise AttributeError
        | Some c \<Rightarrow> (case we_class env c of
            None \<Rightarrow> raise AttributeError
          | Some cls \<Rightarrow> (case mc_codec cls of
              CustomCodec w r \<Rightarrow> w v
            | BaseCodec \<Rightarrow> write_body env rd wr cls version features (attrs_of v)
            | RequestCodec op_code least \<Rightarrow>
                bind (request_prelude version op_code least) (\<lambda>_.
                write_body env rd wr cls version features (attrs_of v))))),
       (\<lambda>c ctx. case we_class env c of
            None \<Rightarrow> raise AttributeError
          | Some cls \<Rightarrow> (case mc_codec cls of
              CustomCodec w r \<Rightarrow> r ctx
            | _ \<Rightarrow> read_body env rd wr cls version features ctx))))"

end
