(* ===== verification/Wire_Compiler.thy ===== *)
theory Wire_Compiler
  imports Wire_Codec
begin

text \<open>
  The compiler of message classes (\<open>nix_daemon_protocol/experimental_compiled.py\<close>) and the codec that
  \<open>WireModel\<close> uses: \<open>to_writer\<close> and \<open>from_reader\<close> compile a class where they can and run its plan where
  they cannot. The compiler translates annotations to nodes and lowers the nodes to a Python function
  for each direction; the theory has that language, its evaluation, and the proof that the compiled
  functions do what the plan does.

  Evaluation follows Python on the fragment that the compiler emits. The lists, sets, dictionaries and
  the object that a compiled reader fills are each bound to one local variable while they change, so
  values are copied. Pydantic's bookkeeping attributes are set and not read by the codec; assigning
  them is evaluated and forgotten. \<open>deserialization_scope\<close> logs a failure and changes nothing else.
\<close>

section \<open>Nodes\<close>

datatype node =
    Primitive string text_errors
  | Integer "string option"
  | EnumNode string "int list"
  | ScalarNode scalar_class
  | OptionalScalar node
  | Sequence string node
  | MappingNode node node
  | ModelNode string
  | WireStringNode string "string option"

text \<open>\<open>_wire_node\<close>.\<close>

fun wire_node :: "text_errors \<Rightarrow> ann \<Rightarrow> error + node" where
  "wire_node errors AStr = Inr (Primitive ''string'' errors)"
| "wire_node errors (AOptional a) =
     andthen (wire_node errors a) (\<lambda>value. Inr (if is_wire_scalar a then OptionalScalar value else value))"
| "wire_node errors AUnion = Inl TypeError"
| "wire_node errors (AList a) = andthen (wire_node errors a) (\<lambda>item. Inr (Sequence ''list'' item))"
| "wire_node errors (ASet a) = andthen (wire_node errors a) (\<lambda>item. Inr (Sequence ''set'' item))"
| "wire_node errors (ADict a b) =
     andthen (wire_node errors a) (\<lambda>key. andthen (wire_node errors b) (\<lambda>value. Inr (MappingNode key value)))"
| "wire_node errors AInt = (if errors = Strict then Inr (Integer None) else Inl NotCompilableError)"
| "wire_node errors (AUInt64 c) = (if errors = Strict then Inr (Integer (Some c)) else Inl NotCompilableError)"
| "wire_node errors ABool = (if errors = Strict then Inr (Primitive ''bool'' Strict) else Inl NotCompilableError)"
| "wire_node errors ABytes = (if errors = Strict then Inr (Primitive ''bytes'' Strict) else Inl NotCompilableError)"
| "wire_node errors (AEnum c members) = (if errors = Strict then Inr (EnumNode c members) else Inl NotCompilableError)"
| "wire_node errors (AScalar c) = (if errors = Strict then Inr (ScalarNode c) else Inl NotCompilableError)"
| "wire_node errors (AWireString c names) =
     (if errors = Strict then Inr (WireStringNode c (case names of [n] \<Rightarrow> Some n | _ \<Rightarrow> None)) else Inl NotCompilableError)"
| "wire_node errors (AModel c) = (if errors = Strict then Inr (ModelNode c) else Inl NotCompilableError)"
| "wire_node errors AOther = Inl (if errors = Strict then TypeError else NotCompilableError)"

record schema_field =
  sf_name :: string
  sf_node :: node
  sf_predicate :: "pred option"
  sf_serialize :: bool
  sf_deserialize :: bool

text \<open>\<open>_wire_schema\<close>.\<close>

fun schema_fields :: "wire_field list \<Rightarrow> error + schema_field list" where
  "schema_fields [] = Inr []"
| "schema_fields (f # fs) =
     andthen (wire_node (wf_errors f) (wf_ann f)) (\<lambda>n. andthen (schema_fields fs) (\<lambda>ss.
       Inr (\<lparr>sf_name = wf_name f, sf_node = n, sf_predicate = wf_depends f, sf_serialize = wf_serialize f,
             sf_deserialize = wf_deserialize f\<rparr> # ss)))"

definition wire_schema :: "model_class \<Rightarrow> int \<Rightarrow> string list \<Rightarrow> error + schema_field list" where
  "wire_schema model version features = schema_fields (wire_fields model version features)"

section \<open>The emitted language\<close>

datatype expr =
    Name string
  | Attribute expr string
  | Constant pyval
  | Subscript string nat
  | SubscriptKey string string
  | Call expr "expr list" "(string \<times> expr) list"
  | Await expr
  | IsNone expr
  | OrNone expr
  | ListDisplay
  | DictDisplay

datatype target = TName string | TPair string string | TItem string string

datatype stmt =
    ExprS expr
  | AssignS target expr
  | ForS target expr "stmt list"
  | IfS expr "stmt list"  "stmt list"
  | ReturnS expr

record CompiledCodec =
  cc_write :: writer
  cc_read :: reader
  cc_write_source :: "stmt list"
  cc_read_source :: "stmt list"
  cc_schema :: "schema_field list"

text \<open>What an expression evaluates to: a value of a field, or one of the objects around it.\<close>

datatype dyn =
    DVal pyval
  | DReadCtx ReadContext
  | DWriteCtx
  | DReader
  | DWriter
  | DBuiltin string
  | DMethod dyn string
  | DCodec CompiledCodec
  | DWriterFn writer
  | DReaderFn reader
  | DUInt64 string
  | DFromWire scalar_class
  | DEnum string "int list"
  | DPred pred
  | DModel model_class
  | DFactory pyval
  | DRange nat
  | DItems "(pyval \<times> pyval) list"

text \<open>The namespace of a compiled function: the tuples and dictionaries that the compiler fills.\<close>

record namespace =
  ns_env :: wire_env
  ns_version :: int
  ns_model :: model_class
  ns_tuple :: "string \<Rightarrow> dyn list"
  ns_dict :: "string \<Rightarrow> (string \<times> dyn) list"

record world =
  w_locals :: "string \<Rightarrow> dyn option"
  w_buf :: bytes
  w_in :: "LogMessage stream"

definition on_writer :: "(bytes, unit) eff \<Rightarrow> (world, dyn) eff" where
  "on_writer m = (\<lambda>w. case m (w_buf w) of
     (Inl e, b) \<Rightarrow> (Inl e, w\<lparr>w_buf := b\<rparr>) | (Inr _, b) \<Rightarrow> (Inr (DVal PNone), w\<lparr>w_buf := b\<rparr>))"

definition on_reader :: "(LogMessage stream, pyval) eff \<Rightarrow> (world, dyn) eff" where
  "on_reader m = (\<lambda>w. case m (w_in w) of
     (Inl e, s) \<Rightarrow> (Inl e, w\<lparr>w_in := s\<rparr>) | (Inr v, s) \<Rightarrow> (Inr (DVal v), w\<lparr>w_in := s\<rparr>))"

definition BUILTINS :: "string list" where
  "BUILTINS = [''len'', ''str'', ''set'', ''range'', ''_nested_context'', ''request_prelude'']"

definition lookup_name :: "namespace \<Rightarrow> string \<Rightarrow> (world, dyn) eff" where
  "lookup_name ns x = (\<lambda>w. case w_locals w x of
     Some d \<Rightarrow> (Inr d, w)
   | None \<Rightarrow> (if x = ''model'' then Inr (DModel (ns_model ns))
             else if x \<in> set BUILTINS then Inr (DBuiltin x) else Inl KeyError, w))"

text \<open>
  The attribute of an object. A model has its fields; whether another value has one of the methods is
  seen when it is called, which follows at once.
\<close>

definition METHODS :: "string list" where
  "METHODS = [''to_wire'', ''encode'', ''decode'', ''items'']"

definition dyn_attr :: "dyn \<Rightarrow> string \<Rightarrow> error + dyn" where
  "dyn_attr d a = (case d of
     DVal v \<Rightarrow>
       if a \<in> set METHODS \<and> class_of v = None then Inr (DMethod d a)
       else andthen (if a = ''value'' then enum_value v else getattr v a) (\<lambda>x. Inr (DVal x))
   | DReadCtx c \<Rightarrow> if a = ''reader'' then Inr DReader else Inl AttributeError
   | DWriteCtx \<Rightarrow> if a = ''writer'' then Inr DWriter else Inl AttributeError
   | DReader \<Rightarrow> Inr (DMethod d a)
   | DWriter \<Rightarrow> Inr (DMethod d a)
   | DCodec _ \<Rightarrow> Inr (DMethod d a)
   | DModel _ \<Rightarrow> Inr (DMethod d a)
   | _ \<Rightarrow> Inl AttributeError)"

definition call_writer :: "string \<Rightarrow> string \<Rightarrow> dyn list \<Rightarrow> (world, dyn) eff" where
  "call_writer sd m args = (case args of
     [DVal v] \<Rightarrow>
       if m = ''write_uint64'' then on_writer (put_uint64 v)
       else if m = ''write_string'' then on_writer (put_string sd v)
       else if m = ''write_bool'' then on_writer (put_bool v)
       else if m = ''write_bytes'' then on_writer (put_bytes v)
       else raise AttributeError
   | _ \<Rightarrow> raise TypeError)"

definition call_reader :: "string \<Rightarrow> (world, dyn) eff" where
  "call_reader m =
     (if m = ''read_uint64'' then on_reader (bind read_uint64 (\<lambda>i. ret (PInt i)))
      else if m = ''read_string'' then on_reader (bind read_string (\<lambda>s. ret (PStr s)))
      else if m = ''read_bool'' then on_reader (bind read_bool (\<lambda>b. ret (PBool b)))
      else if m = ''read_bytes'' then on_reader (bind read_bytes (\<lambda>b. ret (PBytes b)))
      else raise AttributeError)"

definition call_value :: "string \<Rightarrow> pyval \<Rightarrow> string \<Rightarrow> error + dyn" where
  "call_value sd v m =
     (if m = ''to_wire'' then andthen (scalar_to_wire sd v) (\<lambda>s. Inr (DVal (PStr s)))
      else if m = ''encode'' then andthen (str_encode v) (\<lambda>b. Inr (DVal b))
      else if m = ''decode'' then andthen (str_decode v) (\<lambda>s. Inr (DVal s))
      else if m = ''items'' then andthen (py_items v) (\<lambda>d. Inr (DItems d))
      else Inl AttributeError)"

definition call_method :: "namespace \<Rightarrow> dyn \<Rightarrow> string \<Rightarrow> dyn list \<Rightarrow> (world, dyn) eff" where
  "call_method ns d m args = (case d of
     DWriter \<Rightarrow> call_writer (we_dir (ns_env ns)) m args
   | DReader \<Rightarrow> call_reader m
   | DVal v \<Rightarrow> of_result (call_value (we_dir (ns_env ns)) v m)
   | DCodec c \<Rightarrow> (case args of
        [DVal v, DWriteCtx] \<Rightarrow> if m = ''write'' then on_writer (cc_write c v) else raise AttributeError
      | [DReadCtx ctx] \<Rightarrow> if m = ''read'' then on_reader (cc_read c ctx) else raise AttributeError
      | _ \<Rightarrow> raise TypeError)
   | DModel cls \<Rightarrow> if m = ''__new__'' then ret (DVal (PObj (mc_name cls) (new_object cls))) else raise AttributeError
   | _ \<Rightarrow> raise AttributeError)"

text \<open>\<open>_write_request_prelude\<close> asks the value's class for its operation code and version.\<close>

definition prelude_of :: "wire_env \<Rightarrow> int \<Rightarrow> pyval \<Rightarrow> (bytes, unit) eff" where
  "prelude_of env version v = (case class_of v of
     None \<Rightarrow> raise AttributeError
   | Some c \<Rightarrow> (case we_class env c of
        Some cls \<Rightarrow> (case mc_codec cls of
          RequestCodec op_code least \<Rightarrow> request_prelude version op_code least
        | _ \<Rightarrow> raise AttributeError)
      | None \<Rightarrow> raise AttributeError))"

definition call_builtin :: "namespace \<Rightarrow> string \<Rightarrow> dyn list \<Rightarrow> (world, dyn) eff" where
  "call_builtin ns b args = (case args of
     [] \<Rightarrow> if b = ''set'' then ret (DVal (PSet [])) else raise TypeError
   | [DVal v] \<Rightarrow>
       if b = ''len'' then of_result (andthen (py_len v) (\<lambda>n. Inr (DVal n)))
       else if b = ''str'' then of_result (andthen (py_str (we_dir (ns_env ns)) v) (\<lambda>s. Inr (DVal (PStr s))))
       else if b = ''range'' then (case v of PInt i \<Rightarrow> ret (DRange (nat i)) | _ \<Rightarrow> raise TypeError)
       else raise TypeError
   | [DReadCtx ctx] \<Rightarrow>
       if b = ''_nested_context'' then ret (DReadCtx (nested_context ctx)) else raise TypeError
   | [DVal v, DWriteCtx] \<Rightarrow>
       if b = ''request_prelude'' then on_writer (prelude_of (ns_env ns) (ns_version ns) v) else raise TypeError
   | _ \<Rightarrow> raise TypeError)"

definition invoke :: "namespace \<Rightarrow> dyn \<Rightarrow> dyn list \<Rightarrow> (world, dyn) eff" where
  "invoke ns f args = (case f of
     DMethod d m \<Rightarrow> call_method ns d m args
   | DBuiltin b \<Rightarrow> call_builtin ns b args
   | DWriterFn wr \<Rightarrow> (case args of [DVal v, DWriteCtx] \<Rightarrow> on_writer (wr v) | _ \<Rightarrow> raise TypeError)
   | DReaderFn rd \<Rightarrow> (case args of [DReadCtx ctx] \<Rightarrow> on_reader (rd ctx) | _ \<Rightarrow> raise TypeError)
   | DUInt64 c \<Rightarrow> (case args of [DVal (PInt i)] \<Rightarrow> ret (DVal (PUInt64 c i)) | _ \<Rightarrow> raise TypeError)
   | DFromWire c \<Rightarrow> (case args of
        [DVal (PStr s)] \<Rightarrow> of_result (andthen (scalar_from_wire (we_dir (ns_env ns)) c s) (\<lambda>v. Inr (DVal v)))
      | _ \<Rightarrow> raise TypeError)
   | DEnum c members \<Rightarrow> (case args of
        [DVal (PInt i)] \<Rightarrow> of_result (andthen (enum_new c members i) (\<lambda>v. Inr (DVal v)))
      | _ \<Rightarrow> raise TypeError)
   | DPred p \<Rightarrow> (case args of
        [DVal v] \<Rightarrow> of_result (andthen (eval_pred p (attrs_of v)) (\<lambda>b. Inr (DVal (PBool b))))
      | _ \<Rightarrow> raise TypeError)
   | DFactory v \<Rightarrow> (case args of [] \<Rightarrow> ret (DVal v) | _ \<Rightarrow> raise TypeError)
   | _ \<Rightarrow> raise TypeError)"

fun eval :: "namespace \<Rightarrow> expr \<Rightarrow> (world, dyn) eff"
  and evals :: "namespace \<Rightarrow> expr list \<Rightarrow> (world, dyn list) eff" where
  "eval ns (Name x) = lookup_name ns x"
| "eval ns (Attribute e a) = bind (eval ns e) (\<lambda>d. of_result (dyn_attr d a))"
| "eval ns (Constant v) = ret (DVal v)"
| "eval ns (Subscript t i) =
     (if i < length (ns_tuple ns t) then ret (ns_tuple ns t ! i) else raise IndexError)"
| "eval ns (SubscriptKey t k) = (case map_of (ns_dict ns t) k of Some d \<Rightarrow> ret d | None \<Rightarrow> raise KeyError)"
| "eval ns (Call f args kws) =
     bind (eval ns f) (\<lambda>fd. bind (evals ns args) (\<lambda>ads. invoke ns fd ads))"
| "eval ns (Await e) = eval ns e"
| "eval ns (IsNone e) = bind (eval ns e) (\<lambda>d. ret (DVal (PBool (case d of DVal v \<Rightarrow> v = PNone | _ \<Rightarrow> False))))"
| "eval ns (OrNone e) = bind (eval ns e) (\<lambda>d. ret (case d of DVal v \<Rightarrow> DVal (or_none v) | _ \<Rightarrow> d))"
| "eval ns ListDisplay = ret (DVal (PList []))"
| "eval ns DictDisplay = ret (DVal (PDict []))"
| "evals ns [] = ret []"
| "evals ns (e # es) = bind (eval ns e) (\<lambda>d. bind (evals ns es) (\<lambda>ds. ret (d # ds)))"

definition set_local :: "string \<Rightarrow> dyn \<Rightarrow> (world, unit) eff" where
  "set_local x d = (\<lambda>w. (Inr (), w\<lparr>w_locals := (w_locals w)(x \<mapsto> d)\<rparr>))"

text \<open>\<open>x.append(v)\<close> and \<open>x.add(v)\<close> on the container in the local variable \<open>x\<close>.\<close>

definition grow_local :: "string \<Rightarrow> string \<Rightarrow> pyval \<Rightarrow> (world, unit) eff" where
  "grow_local x m v = (\<lambda>w. case w_locals w x of
     Some (DVal (PList xs)) \<Rightarrow>
       if m = ''append'' then set_local x (DVal (PList (xs @ [v]))) w else (Inl AttributeError, w)
   | Some (DVal (PSet xs)) \<Rightarrow>
       if m = ''add'' then bind (of_result (add_to_set v xs)) (\<lambda>ys. set_local x (DVal (PSet ys))) w
       else (Inl AttributeError, w)
   | _ \<Rightarrow> (Inl AttributeError, w))"

text \<open>\<open>object.__setattr__(obj, name, v)\<close>.\<close>

definition set_field :: "string \<Rightarrow> pyval \<Rightarrow> (world, unit) eff" where
  "set_field n v = (\<lambda>w. case w_locals w ''obj'' of
     Some (DVal (PObj c ob)) \<Rightarrow>
       if startswith n ''__pydantic_'' then (Inr (), w) else set_local ''obj'' (DVal (PObj c (set_attr n v ob))) w
   | _ \<Rightarrow> (Inl TypeError, w))"

definition set_item :: "string \<Rightarrow> string \<Rightarrow> dyn \<Rightarrow> (world, unit) eff" where
  "set_item x k d = (\<lambda>w. case (w_locals w x, w_locals w k, d) of
     (Some (DVal (PDict m)), Some (DVal key), DVal v) \<Rightarrow>
       bind (of_result (add_to_dict key v m)) (\<lambda>m'. set_local x (DVal (PDict m'))) w
   | _ \<Rightarrow> (Inl TypeError, w))"

definition assign :: "target \<Rightarrow> dyn \<Rightarrow> (world, unit) eff" where
  "assign t d = (case t of
     TName x \<Rightarrow> set_local x d
   | TPair x y \<Rightarrow> (\<lambda>w. (Inl TypeError, w))
   | TItem x k \<Rightarrow> set_item x k d)"

primrec for_each :: "('a \<Rightarrow> (world, unit) eff) \<Rightarrow> 'a list \<Rightarrow> (world, unit) eff" where
  "for_each f [] = ret ()"
| "for_each f (x # xs) = bind (f x) (\<lambda>_. for_each f xs)"

text \<open>What a loop binds its variables to at each turn.\<close>

definition turns :: "target \<Rightarrow> dyn \<Rightarrow> error + (world, unit) eff list" where
  "turns t d = (case (t, d) of
     (TName x, DRange n) \<Rightarrow> Inr (map (\<lambda>i. set_local x (DVal (PInt (int i)))) [0..<n])
   | (TName x, DVal v) \<Rightarrow> andthen (py_iter v) (\<lambda>xs. Inr (map (\<lambda>u. set_local x (DVal u)) xs))
   | (TPair x y, DItems kvs) \<Rightarrow>
       Inr (map (\<lambda>(k, v). bind (set_local x (DVal k)) (\<lambda>_. set_local y (DVal v))) kvs)
   | _ \<Rightarrow> Inl TypeError)"

definition expr_stmt :: "namespace \<Rightarrow> expr \<Rightarrow> (world, unit) eff" where
  "expr_stmt ns e = (case e of
     Call (Attribute (Name x) m) args kws \<Rightarrow>
       if m \<in> {''append'', ''add''} then
         bind (evals ns args) (\<lambda>ds. case ds of [DVal v] \<Rightarrow> grow_local x m v | _ \<Rightarrow> raise TypeError)
       else if x = ''object'' then (case args of
           [ob, Constant (PStr n), a] \<Rightarrow>
             bind (eval ns a) (\<lambda>d. case d of DVal v \<Rightarrow> set_field n v | _ \<Rightarrow> raise TypeError)
         | _ \<Rightarrow> raise TypeError)
       else bind (eval ns e) (\<lambda>_. ret ())
   | Call (Attribute (Attribute (Name x) b) m) args kws \<Rightarrow>
       if b = ''__pydantic_fields_set__'' then ret () else bind (eval ns e) (\<lambda>_. ret ())
   | _ \<Rightarrow> bind (eval ns e) (\<lambda>_. ret ()))"

text \<open>
  Running statements. What \<open>return\<close> gives is kept under its own name, which no variable has; it is the
  last statement of the functions it occurs in.
\<close>

fun exec :: "namespace \<Rightarrow> stmt \<Rightarrow> (world, unit) eff"
  and exec_block :: "namespace \<Rightarrow> stmt list \<Rightarrow> (world, unit) eff" where
  "exec ns (ExprS e) = expr_stmt ns e"
| "exec ns (AssignS t e) = bind (eval ns e) (assign t)"
| "exec ns (ForS t e body) =
     bind (eval ns e) (\<lambda>d. bind (of_result (turns t d)) (for_each (\<lambda>set_vars. bind set_vars (\<lambda>_. exec_block ns body))))"
| "exec ns (IfS e body orelse) =
     bind (eval ns e) (\<lambda>d. case d of
       DVal v \<Rightarrow> if truthy v then exec_block ns body else exec_block ns orelse
     | _ \<Rightarrow> raise TypeError)"
| "exec ns (ReturnS e) = bind (eval ns e) (set_local ''return'')"
| "exec_block ns [] = ret ()"
| "exec_block ns (s # ss) = bind (exec ns s) (\<lambda>_. exec_block ns ss)"

section \<open>Lowering\<close>

record emitter =
  em_counter :: nat
  em_adapters :: "dyn list"
  em_codecs :: "dyn list"
  em_enums :: "dyn list"

definition new_emitter :: emitter where
  "new_emitter = \<lparr>em_counter = 0, em_adapters = [], em_codecs = [], em_enums = []\<rparr>"

fun decimal :: "nat \<Rightarrow> string" where
  "decimal n = (if n < 10 then [char_of (48 + n)] else decimal (n div 10) @ [char_of (48 + n mod 10)])"

declare decimal.simps [simp del]

definition local_name :: "string \<Rightarrow> nat \<Rightarrow> string" where
  "local_name stem k = ''_'' @ stem @ ''_'' @ decimal k"

definition local :: "string \<Rightarrow> (emitter, string) eff" where
  "local stem = (\<lambda>em. (Inr (local_name stem (em_counter em)), em\<lparr>em_counter := em_counter em + 1\<rparr>))"

definition adapter :: "string \<Rightarrow> dyn \<Rightarrow> (emitter, expr) eff" where
  "adapter direction d = (\<lambda>em.
     (Inr (Subscript (direction @ ''_adapters'') (length (em_adapters em))), em\<lparr>em_adapters := em_adapters em @ [d]\<rparr>))"

definition codec :: "string \<Rightarrow> dyn \<Rightarrow> (emitter, expr) eff" where
  "codec direction d = (\<lambda>em.
     (Inr (Subscript (direction @ ''_codecs'') (length (em_codecs em))), em\<lparr>em_codecs := em_codecs em @ [d]\<rparr>))"

definition enum_table :: "dyn \<Rightarrow> (emitter, expr) eff" where
  "enum_table d = (\<lambda>em.
     (Inr (Subscript ''read_enums'' (length (em_enums em))), em\<lparr>em_enums := em_enums em @ [d]\<rparr>))"

definition ctx_method :: "string \<Rightarrow> expr \<Rightarrow> stmt" where
  "ctx_method m v = ExprS (Call (Attribute (Attribute (Name ''ctx'') ''writer'') (''write_'' @ m)) [v] [])"

definition reader_method :: "string \<Rightarrow> expr list \<Rightarrow> expr" where
  "reader_method m args = Await (Call (Attribute (Attribute (Name ''ctx'') ''reader'') (''read_'' @ m)) args [])"

definition errors_keyword :: "(string \<times> expr) list" where
  "errors_keyword = [(''errors'', Constant (PStr ''surrogateescape''))]"

text \<open>
  What the lowering asks of the nested models: \<open>_can_compile\<close>, \<open>compile_codec\<close>, and for a class with
  methods of its own \<open>_writer_for\<close> and \<open>_reader_for\<close>, which call \<open>to_writer\<close> and \<open>from_reader\<close>.
\<close>

record nested_models =
  nm_can :: "string \<Rightarrow> bool"
  nm_compile :: "string \<Rightarrow> error + CompiledCodec"
  nm_write :: writer
  nm_read :: "string \<Rightarrow> reader"

text \<open>\<open>_AstLowerer.write_value\<close>.\<close>

fun write_value :: "nested_models \<Rightarrow> node \<Rightarrow> expr \<Rightarrow> (emitter, stmt list) eff" where
  "write_value nm (Integer c) value = ret [ctx_method ''uint64'' value]"
| "write_value nm (Primitive m errors) value =
     (if m = ''string'' \<and> errors \<noteq> Strict
      then ret [ctx_method ''bytes'' (Call (Attribute value ''encode'') [Constant (PStr ''utf-8'')] errors_keyword)]
      else ret [ctx_method m value])"
| "write_value nm (EnumNode c members) value = ret [ctx_method ''uint64'' (Attribute value ''value'')]"
| "write_value nm (ScalarNode c) value = ret [ctx_method ''string'' (Call (Attribute value ''to_wire'') [] [])]"
| "write_value nm (OptionalScalar inner) value =
     bind (write_value nm inner value) (\<lambda>body.
     ret [IfS (IsNone value) [ctx_method ''string'' (Constant (PStr []))] body])"
| "write_value nm (Sequence kind inner) value =
     bind (local ''item'') (\<lambda>item.
     bind (write_value nm inner (Name item)) (\<lambda>body.
     ret [ctx_method ''uint64'' (Call (Name ''len'') [value] []), ForS (TName item) value body]))"
| "write_value nm (MappingNode k v) value =
     bind (local ''key'') (\<lambda>key.
     bind (local ''item'') (\<lambda>item.
     bind (write_value nm k (Name key)) (\<lambda>kbody.
     bind (write_value nm v (Name item)) (\<lambda>vbody.
     ret [ctx_method ''uint64'' (Call (Name ''len'') [value] []),
          ForS (TPair key item) (Call (Attribute value ''items'') [] []) (kbody @ vbody)]))))"
| "write_value nm (WireStringNode c direct) value =
     ret [ctx_method ''string''
       (case direct of Some n \<Rightarrow> Attribute value n | None \<Rightarrow> Call (Name ''str'') [value] [])]"
| "write_value nm (ModelNode c) value =
     (if nm_can nm c
      then bind (of_result (nm_compile nm c)) (\<lambda>cc.
           bind (codec ''write'' (DCodec cc)) (\<lambda>e.
           ret [ExprS (Await (Call (Attribute e ''write'') [value, Name ''ctx''] []))]))
      else bind (adapter ''write'' (DWriterFn (nm_write nm))) (\<lambda>e.
           ret [ExprS (Await (Call e [value, Name ''ctx''] []))]))"

text \<open>\<open>_AstLowerer.read_value\<close>. It has no case for a string model.\<close>

fun read_value :: "nested_models \<Rightarrow> node \<Rightarrow> string \<Rightarrow> (emitter, stmt list) eff" where
  "read_value nm (Integer c) x = (case c of
     None \<Rightarrow> ret [AssignS (TName x) (reader_method ''uint64'' [])]
   | Some cls \<Rightarrow> bind (adapter ''read'' (DUInt64 cls)) (\<lambda>e.
       ret [AssignS (TName x) (Call e [reader_method ''uint64'' []] [])]))"
| "read_value nm (Primitive m errors) x =
     (if m = ''string'' \<and> errors \<noteq> Strict
      then ret [AssignS (TName x)
             (Call (Attribute (reader_method ''bytes'' []) ''decode'') [Constant (PStr ''utf-8'')] errors_keyword)]
      else ret [AssignS (TName x) (reader_method m (if m = ''string'' then [Name ''str''] else []))])"
| "read_value nm (EnumNode c members) x =
     bind (enum_table (DEnum c members)) (\<lambda>e.
     ret [AssignS (TName x) (Call e [reader_method ''uint64'' []] [])])"
| "read_value nm (ScalarNode c) x =
     bind (adapter ''read'' (DFromWire c)) (\<lambda>e.
     ret [AssignS (TName x) (Call e [reader_method ''string'' [Name ''str'']] [])])"
| "read_value nm (OptionalScalar inner) x =
     bind (read_value nm inner x) (\<lambda>body. ret (body @ [AssignS (TName x) (OrNone (Name x))]))"
| "read_value nm (Sequence kind inner) x =
     bind (local ''item'') (\<lambda>item.
     bind (read_value nm inner item) (\<lambda>body.
     ret [AssignS (TName x) (if kind = ''list'' then ListDisplay else Call (Name ''set'') [] []),
          ForS (TName ''_'') (Call (Name ''range'') [reader_method ''uint64'' []] [])
            (body @ [ExprS (Call (Attribute (Name x) (if kind = ''list'' then ''append'' else ''add'')) [Name item] [])])]))"
| "read_value nm (MappingNode k v) x =
     bind (local ''key'') (\<lambda>key.
     bind (local ''item'') (\<lambda>item.
     bind (read_value nm k key) (\<lambda>kbody.
     bind (read_value nm v item) (\<lambda>vbody.
     ret [AssignS (TName x) DictDisplay,
          ForS (TName ''_'') (Call (Name ''range'') [reader_method ''uint64'' []] [])
            (kbody @ vbody @ [AssignS (TItem x key) (Name item)])]))))"
| "read_value nm (ModelNode c) x =
     (if nm_can nm c
      then bind (of_result (nm_compile nm c)) (\<lambda>cc.
           bind (codec ''read'' (DCodec cc)) (\<lambda>e.
           ret [AssignS (TName x) (Await (Call (Attribute e ''read'') [Call (Name ''_nested_context'') [Name ''ctx''] []] []))]))
      else bind (adapter ''read'' (DReaderFn (nm_read nm c))) (\<lambda>e.
           ret [AssignS (TName x) (Await (Call e [Call (Name ''_nested_context'') [Name ''ctx''] []] []))]))"
| "read_value nm (WireStringNode c direct) x = raise TypeError"

section \<open>Compiling a class\<close>

text \<open>The statements of the fields; \<open>i\<close> is the next index into the tuple of predicates.\<close>

fun write_fields :: "nested_models \<Rightarrow> nat \<Rightarrow> schema_field list \<Rightarrow> (emitter, stmt list) eff" where
  "write_fields nm i [] = ret []"
| "write_fields nm i (f # fs) =
     (if \<not> sf_serialize f then write_fields nm i fs
      else bind (write_value nm (sf_node f) (Attribute (Name ''value'') (sf_name f))) (\<lambda>stmts.
        case sf_predicate f of
          None \<Rightarrow> bind (write_fields nm i fs) (\<lambda>tl. ret (stmts @ tl))
        | Some _ \<Rightarrow> bind (write_fields nm (i + 1) fs) (\<lambda>tl.
            ret (IfS (Call (Subscript ''write_predicates'' i) [Name ''value''] []) stmts [] # tl))))"

definition field_local :: "string \<Rightarrow> string" where
  "field_local n = ''_field_'' @ n"

definition setattr_stmt :: "string \<Rightarrow> expr \<Rightarrow> stmt" where
  "setattr_stmt n e = ExprS (Call (Attribute (Name ''object'') ''__setattr__'') [Name ''obj'', Constant (PStr n), e] [])"

definition store_field :: "string \<Rightarrow> stmt list" where
  "store_field n =
     [setattr_stmt n (Name (field_local n)),
      ExprS (Call (Attribute (Attribute (Name ''obj'') ''__pydantic_fields_set__'') ''add'') [Constant (PStr n)] [])]"

fun read_fields :: "nested_models \<Rightarrow> nat \<Rightarrow> schema_field list \<Rightarrow> (emitter, stmt list) eff" where
  "read_fields nm i [] = ret []"
| "read_fields nm i (f # fs) =
     (if \<not> sf_deserialize f then read_fields nm i fs
      else bind (read_value nm (sf_node f) (field_local (sf_name f))) (\<lambda>stmts.
        case sf_predicate f of
          None \<Rightarrow> bind (read_fields nm i fs) (\<lambda>tl. ret (stmts @ store_field (sf_name f) @ tl))
        | Some _ \<Rightarrow> bind (read_fields nm (i + 1) fs) (\<lambda>tl.
            ret (IfS (Call (Subscript ''read_predicates'' i) [Name ''obj''] []) (stmts @ store_field (sf_name f)) [] # tl))))"

fun default_stmts :: "model_field list \<Rightarrow> stmt list" where
  "default_stmts [] = []"
| "default_stmts (f # fs) = (case mf_default f of
     NoDefault \<Rightarrow> default_stmts fs
   | Default v \<Rightarrow> setattr_stmt (mf_name f) (SubscriptKey ''defaults'' (mf_name f)) # default_stmts fs
   | Factory v \<Rightarrow> setattr_stmt (mf_name f) (Call (SubscriptKey ''factories'' (mf_name f)) [] []) # default_stmts fs)"

definition bookkeeping_stmts :: "stmt list" where
  "bookkeeping_stmts =
     [setattr_stmt ''__pydantic_fields_set__'' (Call (Name ''set'') [] []),
      setattr_stmt ''__pydantic_extra__'' (Constant PNone),
      setattr_stmt ''__pydantic_private__'' (Constant PNone)]"

fun predicates_of :: "(schema_field \<Rightarrow> bool) \<Rightarrow> schema_field list \<Rightarrow> dyn list" where
  "predicates_of on [] = []"
| "predicates_of on (f # fs) = (case sf_predicate f of
     Some p \<Rightarrow> if on f then DPred p # predicates_of on fs else predicates_of on fs
   | None \<Rightarrow> predicates_of on fs)"

definition defaults_dict :: "model_field list \<Rightarrow> (string \<times> dyn) list" where
  "defaults_dict fs = concat (map (\<lambda>f. case mf_default f of Default v \<Rightarrow> [(mf_name f, DVal v)] | _ \<Rightarrow> []) fs)"

definition factories_dict :: "model_field list \<Rightarrow> (string \<times> dyn) list" where
  "factories_dict fs = concat (map (\<lambda>f. case mf_default f of Factory v \<Rightarrow> [(mf_name f, DFactory v)] | _ \<Rightarrow> []) fs)"

definition make_namespace ::
    "wire_env \<Rightarrow> model_class \<Rightarrow> int \<Rightarrow> schema_field list \<Rightarrow> emitter \<Rightarrow> emitter \<Rightarrow> namespace" where
  "make_namespace env cls version schema wem rem =
     \<lparr>ns_env = env, ns_version = version, ns_model = cls,
      ns_tuple = (\<lambda>t.
        if t = ''write_predicates'' then predicates_of sf_serialize schema
        else if t = ''read_predicates'' then predicates_of sf_deserialize schema
        else if t = ''write_adapters'' then em_adapters wem
        else if t = ''read_adapters'' then em_adapters rem
        else if t = ''write_codecs'' then em_codecs wem
        else if t = ''read_codecs'' then em_codecs rem
        else if t = ''read_enums'' then em_enums rem
        else []),
      ns_dict = (\<lambda>t.
        if t = ''defaults'' then defaults_dict (mc_fields cls)
        else if t = ''factories'' then factories_dict (mc_fields cls)
        else [])\<rparr>"

definition no_input :: "LogMessage stream" where
  "no_input = \<lparr>unread = [], sent = []\<rparr>"

text \<open>Calling the emitted functions.\<close>

definition run_write :: "namespace \<Rightarrow> stmt list \<Rightarrow> writer" where
  "run_write ns body v = (\<lambda>buf.
     case exec_block ns body \<lparr>w_locals = [''value'' \<mapsto> DVal v, ''ctx'' \<mapsto> DWriteCtx], w_buf = buf, w_in = no_input\<rparr> of
       (r, w) \<Rightarrow> (r, w_buf w))"

definition run_read :: "namespace \<Rightarrow> stmt list \<Rightarrow> reader" where
  "run_read ns body ctx = (\<lambda>s.
     case exec_block ns body \<lparr>w_locals = [''ctx'' \<mapsto> DReadCtx ctx], w_buf = [], w_in = s\<rparr> of
       (Inl e, w) \<Rightarrow> (Inl e, w_in w)
     | (Inr _, w) \<Rightarrow> (case w_locals w ''return'' of Some (DVal v) \<Rightarrow> Inr v | _ \<Rightarrow> Inl TypeError, w_in w))"

definition is_request :: "model_class \<Rightarrow> bool" where
  "is_request cls = (case mc_codec cls of RequestCodec _ _ \<Rightarrow> True | _ \<Rightarrow> False)"

definition can_compile :: "model_class \<Rightarrow> bool" where
  "can_compile cls = (case mc_codec cls of CustomCodec _ _ \<Rightarrow> False | _ \<Rightarrow> True)"

definition write_function :: "model_class \<Rightarrow> stmt list \<Rightarrow> stmt list" where
  "write_function cls body =
     (if is_request cls then [ExprS (Await (Call (Name ''request_prelude'') [Name ''value'', Name ''ctx''] []))] else [])
     @ body"

definition read_function :: "model_class \<Rightarrow> stmt list \<Rightarrow> stmt list" where
  "read_function cls body =
     [AssignS (TName ''obj'') (Call (Attribute (Name ''model'') ''__new__'') [Name ''model''] [])]
     @ default_stmts (mc_fields cls) @ bookkeeping_stmts @ body @ [ReturnS (Name ''obj'')]"

text \<open>\<open>compile_codec\<close>, one level of it.\<close>

definition compile_with ::
    "nested_models \<Rightarrow> wire_env \<Rightarrow> model_class \<Rightarrow> int \<Rightarrow> string list \<Rightarrow> error + CompiledCodec" where
  "compile_with nm env cls version features =
     (if \<not> can_compile cls then Inl NotCompilableError
      else andthen (wire_schema cls version features) (\<lambda>schema.
        case write_fields nm 0 schema new_emitter of
          (Inl e, _) \<Rightarrow> Inl e
        | (Inr wbody, wem) \<Rightarrow> (case read_fields nm 0 schema new_emitter of
            (Inl e, _) \<Rightarrow> Inl e
          | (Inr rbody, rem) \<Rightarrow>
              let ns = make_namespace env cls version schema wem rem in
              Inr \<lparr>cc_write = run_write ns (write_function cls wbody), cc_read = run_read ns (read_function cls rbody),
                   cc_write_source = write_function cls wbody, cc_read_source = read_function cls rbody,
                   cc_schema = schema\<rparr>)))"

text \<open>\<open>_compiled_or_none\<close>: only the deliberate refusal is caught.\<close>

definition compiled_or_none :: "error + CompiledCodec \<Rightarrow> error + CompiledCodec option" where
  "compiled_or_none r = (case r of
     Inr c \<Rightarrow> Inr (Some c) | Inl e \<Rightarrow> if e = NotCompilableError then Inr None else Inl e)"

text \<open>
  \<open>compile_codec\<close>, \<open>to_writer\<close> and \<open>from_reader\<close> of \<open>WireModel\<close> and \<open>WireRequest\<close>, to a depth of nested
  calls that stands for Python's recursion limit.
\<close>

record codecs =
  compile_codec :: "string \<Rightarrow> error + CompiledCodec"
  to_writer :: writer
  from_reader :: "string \<Rightarrow> reader"

definition nested_of :: "wire_env \<Rightarrow> codecs \<Rightarrow> nested_models" where
  "nested_of env cs =
     \<lparr>nm_can = (\<lambda>c. case we_class env c of Some cls \<Rightarrow> can_compile cls | None \<Rightarrow> False),
      nm_compile = compile_codec cs, nm_write = to_writer cs, nm_read = from_reader cs\<rparr>"

fun codecs_at :: "nat \<Rightarrow> wire_env \<Rightarrow> int \<Rightarrow> string list \<Rightarrow> codecs" where
  "codecs_at 0 env version features =
     \<lparr>compile_codec = (\<lambda>c. Inl OutOfFuel), to_writer = (\<lambda>v. raise OutOfFuel), from_reader = (\<lambda>c ctx. raise OutOfFuel)\<rparr>"
| "codecs_at (Suc n) env version features =
     (let cs = codecs_at n env version features;
          comp = (\<lambda>cls. compile_with (nested_of env cs) env cls version features) in
      \<lparr>compile_codec = (\<lambda>c. case we_class env c of None \<Rightarrow> Inl AttributeError | Some cls \<Rightarrow> comp cls),
       to_writer = (\<lambda>v. case class_of v of
           None \<Rightarrow> raise AttributeError
         | Some c \<Rightarrow> (case we_class env c of
             None \<Rightarrow> raise AttributeError
           | Some cls \<Rightarrow> (case mc_codec cls of
               CustomCodec w r \<Rightarrow> w v
             | kind \<Rightarrow> bind (of_result (compiled_or_none (comp cls))) (\<lambda>found. case found of
                 Some cc \<Rightarrow> cc_write cc v
               | None \<Rightarrow>
                   bind (case kind of RequestCodec op_code least \<Rightarrow> request_prelude version op_code least | _ \<Rightarrow> ret ()) (\<lambda>_.
                   write_body env (from_reader cs) (to_writer cs) cls version features (attrs_of v)))))),
       from_reader = (\<lambda>c ctx. case we_class env c of
           None \<Rightarrow> raise AttributeError
         | Some cls \<Rightarrow> (case mc_codec cls of
             CustomCodec w r \<Rightarrow> r ctx
           | _ \<Rightarrow> bind (of_result (compiled_or_none (comp cls))) (\<lambda>found. case found of
               Some cc \<Rightarrow> cc_read cc ctx
             | None \<Rightarrow> read_body env (from_reader cs) (to_writer cs) cls version features ctx)))\<rparr>)"

end
