(* ===== verification/Compiler_Correct.thy ===== *)
theory Compiler_Correct
  imports Wire_Compiler
begin

text \<open>
  The compiled codec does what the plan does. The proof goes in two steps, as the compiler does: the
  statements that \<open>_AstLowerer\<close> emits for a node write and read what the node says, and the node of an
  annotation says what \<open>_find_writer\<close> and \<open>_find_reader\<close> do.
\<close>

section \<open>What a node says\<close>

definition model_write :: "nested_models \<Rightarrow> string \<Rightarrow> writer" where
  "model_write nm c v =
     (if nm_can nm c then (case nm_compile nm c of Inr cc \<Rightarrow> cc_write cc v | Inl e \<Rightarrow> raise e) else nm_write nm v)"

definition model_read :: "nested_models \<Rightarrow> string \<Rightarrow> reader" where
  "model_read nm c ctx =
     (if nm_can nm c then (case nm_compile nm c of Inr cc \<Rightarrow> cc_read cc ctx | Inl e \<Rightarrow> raise e) else nm_read nm c ctx)"

definition primitive_write :: "string \<Rightarrow> string \<Rightarrow> text_errors \<Rightarrow> writer" where
  "primitive_write sd m errors v =
     (if m = ''string'' then if errors = Strict then put_string sd v else lossless_writer v
      else if m = ''bool'' then put_bool v else put_bytes v)"

definition primitive_read :: "string \<Rightarrow> text_errors \<Rightarrow> (LogMessage stream, pyval) eff" where
  "primitive_read m errors =
     (if m = ''string'' then
        if errors = Strict then bind read_string (\<lambda>s. ret (PStr s)) else bind read_bytes (\<lambda>b. ret (PStr (decode b)))
      else if m = ''bool'' then bind read_bool (\<lambda>b. ret (PBool b))
      else bind read_bytes (\<lambda>b. ret (PBytes b)))"

fun node_write :: "nested_models \<Rightarrow> string \<Rightarrow> node \<Rightarrow> writer" where
  "node_write nm sd (Integer c) v = put_uint64 v"
| "node_write nm sd (Primitive m errors) v = primitive_write sd m errors v"
| "node_write nm sd (EnumNode c members) v = bind (of_result (enum_value v)) put_uint64"
| "node_write nm sd (ScalarNode c) v = bind (of_result (scalar_to_wire sd v)) write_string"
| "node_write nm sd (OptionalScalar n) v = (if v = PNone then write_string [] else node_write nm sd n v)"
| "node_write nm sd (Sequence kind n) v =
     bind (of_result (py_len v)) (\<lambda>k. bind (put_uint64 k) (\<lambda>_. bind (of_result (py_iter v)) (write_items (node_write nm sd n))))"
| "node_write nm sd (MappingNode kn vn) v =
     bind (of_result (py_len v)) (\<lambda>k. bind (put_uint64 k) (\<lambda>_.
     bind (of_result (py_items v)) (write_items (\<lambda>(x, y). bind (node_write nm sd kn x) (\<lambda>_. node_write nm sd vn y)))))"
| "node_write nm sd (ModelNode c) v = model_write nm c v"
| "node_write nm sd (WireStringNode c direct) v = raise TypeError"

fun node_read :: "nested_models \<Rightarrow> string \<Rightarrow> node \<Rightarrow> reader" where
  "node_read nm sd (Integer c) ctx =
     bind read_uint64 (\<lambda>i. ret (case c of None \<Rightarrow> PInt i | Some cls \<Rightarrow> PUInt64 cls i))"
| "node_read nm sd (Primitive m errors) ctx = primitive_read m errors"
| "node_read nm sd (EnumNode c members) ctx = bind read_uint64 (\<lambda>i. of_result (enum_new c members i))"
| "node_read nm sd (ScalarNode c) ctx = bind read_string (\<lambda>s. of_result (scalar_from_wire sd c s))"
| "node_read nm sd (OptionalScalar n) ctx = bind (node_read nm sd n ctx) (\<lambda>v. ret (or_none v))"
| "node_read nm sd (Sequence kind n) ctx =
     (if kind = ''list'' then bind (read_list (node_read nm sd n ctx)) (\<lambda>xs. ret (PList xs))
      else bind read_uint64 (\<lambda>k. bind (read_set_items (nat k) (node_read nm sd n ctx) []) (\<lambda>xs. ret (PSet xs))))"
| "node_read nm sd (MappingNode kn vn) ctx =
     bind read_uint64 (\<lambda>k.
     bind (read_dict_items (nat k) (node_read nm sd kn ctx) (node_read nm sd vn ctx) []) (\<lambda>d. ret (PDict d)))"
| "node_read nm sd (ModelNode c) ctx = model_read nm c (nested_context ctx)"
| "node_read nm sd (WireStringNode c direct) ctx = raise TypeError"

text \<open>The nodes that \<open>_wire_node\<close> makes of annotations without string models.\<close>

fun node_ok :: "node \<Rightarrow> bool" where
  "node_ok (Primitive m errors) = (m \<in> {''string'', ''bool'', ''bytes''})"
| "node_ok (OptionalScalar n) = node_ok n"
| "node_ok (Sequence kind n) = (kind \<in> {''list'', ''set''} \<and> node_ok n)"
| "node_ok (MappingNode k v) = (node_ok k \<and> node_ok v)"
| "node_ok (WireStringNode c direct) = False"
| "node_ok _ = True"

section \<open>Names\<close>

lemma decimal_ne [simp]: "decimal n \<noteq> []"
  by (subst decimal.simps) simp

fun undecimal :: "string \<Rightarrow> nat" where
  "undecimal s = foldl (\<lambda>n c. 10 * n + (of_char c - 48)) 0 s"

lemma undecimal_decimal: "undecimal (decimal n) = n"
proof (induction n rule: less_induct)
  case (less n)
  have digit: "(of_char (char_of (48 + m) :: char) :: nat) = 48 + m" if "m < 10" for m :: nat
    using that by (simp add: of_char_of)
  show ?case
  proof (cases "n < 10")
    case True
    then show ?thesis by (subst decimal.simps) (simp add: digit)
  next
    case False
    then have "undecimal (decimal (n div 10)) = n div 10" by (intro less.IH) simp
    with False show ?thesis by (subst decimal.simps) (simp add: digit)
  qed
qed

lemma decimal_inj: "decimal a = decimal b \<longleftrightarrow> a = b"
  using undecimal_decimal by metis

text \<open>The names the lowering makes from the counter \<open>c\<close> on.\<close>

definition made :: "nat \<Rightarrow> string \<Rightarrow> bool" where
  "made c x \<longleftrightarrow> (\<exists>k \<ge> c. x = local_name ''item'' k \<or> x = local_name ''key'' k)"

lemma made_local [simp]: "made c (local_name ''item'' k) \<longleftrightarrow> c \<le> k" "made c (local_name ''key'' k) \<longleftrightarrow> c \<le> k"
  by (auto simp: made_def local_name_def decimal_inj)

lemma made_later: "c \<le> c' \<Longrightarrow> made c' x \<Longrightarrow> made c x"
  unfolding made_def using order_trans by blast

lemma local_name_neq [simp]: "local_name ''item'' j \<noteq> local_name ''key'' k" "local_name ''key'' k \<noteq> local_name ''item'' j"
  by (simp_all add: local_name_def)

lemma not_made [simp]:
  "\<not> made c ''ctx''" "\<not> made c ''value''" "\<not> made c ''obj''" "\<not> made c ''_''" "\<not> made c ''return''"
  "\<not> made c ''model''" "\<not> made c (field_local n)"
  by (simp_all add: made_def local_name_def field_local_def)

lemma not_made_builtin: "x \<in> set BUILTINS \<Longrightarrow> \<not> made c x"
  by (auto simp: BUILTINS_def made_def local_name_def)

section \<open>Statements that write\<close>

type_synonym scope = "string \<Rightarrow> dyn option"

definition agree :: "nat \<Rightarrow> scope \<Rightarrow> scope \<Rightarrow> bool" where
  "agree c L L' \<longleftrightarrow> (\<forall>x. \<not> made c x \<longrightarrow> L' x = L x)"

lemma agree_refl [simp]: "agree c L L"
  by (simp add: agree_def)

lemma agree_trans: "agree c L L' \<Longrightarrow> agree c L' L'' \<Longrightarrow> agree c L L''"
  by (simp add: agree_def)

lemma agree_later: "c \<le> c' \<Longrightarrow> agree c' L L' \<Longrightarrow> agree c L L'"
  using made_later by (auto simp: agree_def)

lemma agree_upd: "made c x \<Longrightarrow> agree c L (L(x := d))"
  by (auto simp: agree_def)

text \<open>A condition on the local variables that the names made from \<open>c\<close> on do not touch.\<close>

definition stable :: "nat \<Rightarrow> (scope \<Rightarrow> bool) \<Rightarrow> bool" where
  "stable c Q \<longleftrightarrow> (\<forall>L L'. agree c L L' \<longrightarrow> Q L \<longrightarrow> Q L')"

lemma stableD: "stable c Q \<Longrightarrow> agree c L L' \<Longrightarrow> Q L \<Longrightarrow> Q L'"
  by (auto simp: stable_def)

lemma stable_conj: "stable c P \<Longrightarrow> stable c Q \<Longrightarrow> stable c (\<lambda>L. P L \<and> Q L)"
  by (auto simp: stable_def)

lemma stable_later: "c \<le> c' \<Longrightarrow> stable c Q \<Longrightarrow> stable c' Q"
  using agree_later unfolding stable_def by blast

lemma stable_local: "\<not> made c x \<Longrightarrow> stable c (\<lambda>L. P (L x))"
  by (auto simp: stable_def agree_def)

text \<open>
  \<open>writes c Q blk m\<close>: where \<open>Q\<close> holds of the local variables, the block writes what \<open>m\<close> writes, raises
  what it raises, and assigns only to names made from \<open>c\<close> on.
\<close>

definition writes :: "nat \<Rightarrow> (scope \<Rightarrow> bool) \<Rightarrow> (world, unit) eff \<Rightarrow> (bytes, unit) eff \<Rightarrow> bool" where
  "writes c Q blk m \<longleftrightarrow> (\<forall>w. Q (w_locals w) \<longrightarrow>
     (\<exists>L. agree c (w_locals w) L \<and> blk w = (fst (m (w_buf w)), w\<lparr>w_locals := L, w_buf := snd (m (w_buf w))\<rparr>)))"

lemma writesE:
  assumes "writes c Q blk m" and "Q (w_locals w)"
  obtains L where "agree c (w_locals w) L" and "blk w = (fst (m (w_buf w)), w\<lparr>w_locals := L, w_buf := snd (m (w_buf w))\<rparr>)"
  using assms by (auto simp: writes_def)

lemma writes_at_once:
  assumes "\<And>w. Q (w_locals w) \<Longrightarrow> blk w = (fst (m (w_buf w)), w\<lparr>w_buf := snd (m (w_buf w))\<rparr>)"
  shows "writes c Q blk m"
  unfolding writes_def
proof (intro allI impI)
  fix w :: world assume "Q (w_locals w)"
  then show "\<exists>L. agree c (w_locals w) L \<and> blk w = (fst (m (w_buf w)), w\<lparr>w_locals := L, w_buf := snd (m (w_buf w))\<rparr>)"
    using assms [of w] by (intro exI [of _ "w_locals w"]) simp
qed

lemma writes_mono:
  assumes "writes c' P blk m" and "c \<le> c'" and "\<And>L. Q L \<Longrightarrow> P L"
  shows "writes c Q blk m"
  unfolding writes_def
proof (intro allI impI)
  fix w :: world assume "Q (w_locals w)"
  then obtain L where "agree c' (w_locals w) L"
    "blk w = (fst (m (w_buf w)), w\<lparr>w_locals := L, w_buf := snd (m (w_buf w))\<rparr>)"
    using assms(1,3) by (blast elim: writesE)
  then show "\<exists>L. agree c (w_locals w) L \<and> blk w = (fst (m (w_buf w)), w\<lparr>w_locals := L, w_buf := snd (m (w_buf w))\<rparr>)"
    using agree_later [OF assms(2)] by blast
qed

lemma writes_bind:
  assumes "stable c Q" and "writes c Q f m" and "writes c Q g k"
  shows "writes c Q (bind f (\<lambda>_. g)) (bind m (\<lambda>_. k))"
  unfolding writes_def
proof (intro allI impI)
  fix w :: world assume q: "Q (w_locals w)"
  obtain L where L: "agree c (w_locals w) L"
    "f w = (fst (m (w_buf w)), w\<lparr>w_locals := L, w_buf := snd (m (w_buf w))\<rparr>)"
    by (rule writesE [OF assms(2) q])
  let ?w = "w\<lparr>w_locals := L, w_buf := snd (m (w_buf w))\<rparr>"
  show "\<exists>L. agree c (w_locals w) L \<and> bind f (\<lambda>_. g) w =
      (fst (bind m (\<lambda>_. k) (w_buf w)), w\<lparr>w_locals := L, w_buf := snd (bind m (\<lambda>_. k) (w_buf w))\<rparr>)"
  proof (cases "fst (m (w_buf w))")
    case (Inl e)
    then obtain b where "m (w_buf w) = (Inl e, b)" by (cases "m (w_buf w)") simp
    then show ?thesis using L by (intro exI [of _ L]) (simp add: bind_apply)
  next
    case (Inr u)
    have "Q (w_locals ?w)" using stableD [OF assms(1) L(1) q] by simp
    then obtain L' where L': "agree c L L'"
      "g ?w = (fst (k (w_buf ?w)), ?w\<lparr>w_locals := L', w_buf := snd (k (w_buf ?w))\<rparr>)"
      using writesE [OF assms(3), of ?w] by auto
    obtain b where "m (w_buf w) = (Inr u, b)" using Inr by (cases "m (w_buf w)") simp
    then show ?thesis
      using L(2) L'(2) agree_trans [OF L(1) L'(1)] by (intro exI [of _ L']) (simp add: bind_apply)
  qed
qed

lemma bind_ret_unit: "bind m (\<lambda>_. ret ()) = m"
  by (rule ext) (simp add: bind_apply split: prod.split sum.split)

lemma exec_block_append: "exec_block ns (a @ b) = bind (exec_block ns a) (\<lambda>_. exec_block ns b)"
proof (induction a)
  case Nil
  show ?case by (simp only: append_Nil exec_block.simps bind_ret_left)
next
  case (Cons s a)
  then show ?case by (simp only: append_Cons exec_block.simps bind_assoc)
qed

lemma writes_append:
  assumes "stable c Q" and "writes c Q (exec_block ns a) m" and "writes c Q (exec_block ns b) k"
  shows "writes c Q (exec_block ns (a @ b)) (bind m (\<lambda>_. k))"
proof -
  have "exec_block ns (a @ b) = bind (exec_block ns a) (\<lambda>_. exec_block ns b)"
    by (rule exec_block_append)
  then show ?thesis using writes_bind [OF assms] by simp
qed

lemma writes_Cons:
  assumes "stable c Q" and "writes c Q (exec ns s) m" and "writes c Q (exec_block ns b) k"
  shows "writes c Q (exec_block ns (s # b)) (bind m (\<lambda>_. k))"
  using writes_bind [OF assms] by simp

lemma writes_nil: "writes c Q (exec_block ns []) (ret ())"
  by (rule writes_at_once) simp

lemma writes_single: "writes c Q (exec ns s) m \<Longrightarrow> writes c Q (exec_block ns [s]) m"
  by (simp only: exec_block.simps bind_ret_unit)

text \<open>The variable of a loop is a made name; its body is run once for each member.\<close>

lemma writes_for:
  assumes "stable c Q" and x: "made c x"
    and body: "\<And>u. writes c (\<lambda>L. Q L \<and> L x = Some (DVal u)) blk (m u)"
  shows "writes c Q (for_each (\<lambda>s. bind s (\<lambda>_. blk)) (map (\<lambda>u. set_local x (DVal u)) us)) (write_items m us)"
proof (induction us)
  case Nil
  show ?case by (rule writes_at_once) simp
next
  case (Cons u us)
  have "writes c Q (bind (set_local x (DVal u)) (\<lambda>_. blk)) (m u)"
    unfolding writes_def
  proof (intro allI impI)
    fix w :: world assume q: "Q (w_locals w)"
    let ?w = "w\<lparr>w_locals := (w_locals w)(x \<mapsto> DVal u)\<rparr>"
    have agree: "agree c (w_locals w) (w_locals ?w)" using agree_upd [OF x] by simp
    then have "Q (w_locals ?w) \<and> w_locals ?w x = Some (DVal u)" using stableD [OF assms(1) _ q] by simp
    then obtain L where L: "agree c (w_locals ?w) L"
      "blk ?w = (fst (m u (w_buf ?w)), ?w\<lparr>w_locals := L, w_buf := snd (m u (w_buf ?w))\<rparr>)"
      using writesE [OF body, of ?w] by blast
    show "\<exists>L. agree c (w_locals w) L \<and> bind (set_local x (DVal u)) (\<lambda>_. blk) w =
        (fst (m u (w_buf w)), w\<lparr>w_locals := L, w_buf := snd (m u (w_buf w))\<rparr>)"
      using L(2) agree_trans [OF agree L(1)] by (intro exI [of _ L]) (simp add: bind_apply set_local_def)
  qed
  then show ?case using writes_bind [OF assms(1) _ Cons.IH] by simp
qed

section \<open>The emitter\<close>

definition grown :: "emitter \<Rightarrow> emitter \<Rightarrow> bool" where
  "grown em em' \<longleftrightarrow> em_counter em \<le> em_counter em' \<and> prefix (em_adapters em) (em_adapters em') \<and>
     prefix (em_codecs em) (em_codecs em') \<and> prefix (em_enums em) (em_enums em')"

lemma grown_refl [simp]: "grown em em"
  by (simp add: grown_def)

lemma grown_trans: "grown a b \<Longrightarrow> grown b c \<Longrightarrow> grown a c"
  unfolding grown_def using prefix_order.order_trans le_trans by blast

lemma grown_counter: "grown em em' \<Longrightarrow> em_counter em \<le> em_counter em'"
  by (simp add: grown_def)

definition grows_eff :: "(emitter, 'a) eff \<Rightarrow> bool" where
  "grows_eff m \<longleftrightarrow> (\<forall>em. grown em (snd (m em)))"

lemma grows_eff_ret [simp]: "grows_eff (ret x)" "grows_eff (raise e)" "grows_eff (of_result r)" "grows_eff (Pair q)"
  by (simp_all add: grows_eff_def)

lemma grows_eff_bind:
  assumes "grows_eff m" and "\<And>x. grows_eff (f x)"
  shows "grows_eff (bind m f)"
  unfolding grows_eff_def
proof
  fix em
  obtain r em1 where m: "m em = (r, em1)" by (cases "m em")
  then have g: "grown em em1" using assms(1) by (metis grows_eff_def snd_conv)
  show "grown em (snd (bind m f em))"
  proof (cases r)
    case (Inl e)
    then show ?thesis using m g by (simp add: bind_apply)
  next
    case (Inr x)
    have "grown em1 (snd (f x em1))" using assms(2) by (simp add: grows_eff_def)
    then show ?thesis using Inr m grown_trans [OF g] by (simp add: bind_apply)
  qed
qed

lemma grows_eff_emit [simp]:
  "grows_eff (local stem)" "grows_eff (adapter d x)" "grows_eff (codec d x)" "grows_eff (enum_table x)"
  by (simp_all add: grows_eff_def grown_def local_def adapter_def codec_def enum_table_def)

lemma grows_write_value: "grows_eff (write_value nm node e)"
  by (induction nm node e rule: write_value.induct) (auto intro!: grows_eff_bind split: option.split)

lemma grows_read_value: "grows_eff (read_value nm node x)"
  by (induction nm node x rule: read_value.induct) (auto intro!: grows_eff_bind split: option.split)

lemma grownD: "grows_eff m \<Longrightarrow> m em = (r, em') \<Longrightarrow> grown em em'"
  by (metis grows_eff_def snd_conv)

text \<open>The tuples of a namespace hold what the emitter has.\<close>

definition covers :: "string \<Rightarrow> namespace \<Rightarrow> emitter \<Rightarrow> bool" where
  "covers d ns em \<longleftrightarrow> prefix (em_adapters em) (ns_tuple ns (d @ ''_adapters'')) \<and>
     prefix (em_codecs em) (ns_tuple ns (d @ ''_codecs'')) \<and> (d = ''read'' \<longrightarrow> prefix (em_enums em) (ns_tuple ns ''read_enums''))"

lemma covers_grown: "covers d ns em' \<Longrightarrow> grown em em' \<Longrightarrow> covers d ns em"
  unfolding covers_def grown_def using prefix_order.order_trans by blast

lemma prefix_nth: "prefix (xs @ [x]) ys \<Longrightarrow> length xs < length ys \<and> ys ! length xs = x"
  by (auto simp: prefix_def nth_append)

lemma eval_adapter:
  assumes "adapter d x em = (Inr e, em')" and "covers d ns em'"
  shows "eval ns e = ret x"
  using assms prefix_nth by (fastforce simp: adapter_def covers_def)

lemma eval_codec:
  assumes "codec d x em = (Inr e, em')" and "covers d ns em'"
  shows "eval ns e = ret x"
  using assms prefix_nth by (fastforce simp: codec_def covers_def)

lemma eval_enum_table:
  assumes "enum_table x em = (Inr e, em')" and "covers ''read'' ns em'"
  shows "eval ns e = ret x"
  using assms prefix_nth by (fastforce simp: enum_table_def covers_def)

section \<open>The lowered writer\<close>

text \<open>An expression of the writer: a variable or a field of one, with what it evaluates to.\<close>

inductive denotes :: "expr \<Rightarrow> scope \<Rightarrow> error + pyval \<Rightarrow> bool" where
  denotes_name: "L x = Some (DVal v) \<Longrightarrow> denotes (Name x) L (Inr v)"
| denotes_attr: "L x = Some (DVal (PObj c ob)) \<Longrightarrow> denotes (Attribute (Name x) a) L (get_attr a ob)"

fun root :: "expr \<Rightarrow> string" where
  "root (Name x) = x"
| "root (Attribute e a) = root e"
| "root e = []"

lemma denotes_agree:
  assumes "denotes e L r" and "L' (root e) = L (root e)"
  shows "denotes e L' r"
  using assms by (induction rule: denotes.induct) (auto intro: denotes.intros)

lemma stable_denotes: "\<not> made c (root e) \<Longrightarrow> stable c (\<lambda>L. denotes e L r)"
  using denotes_agree unfolding stable_def agree_def by blast

lemma denotes_eval:
  assumes "denotes e (w_locals w) r"
  shows "eval ns e w = (map_sum id DVal r, w)"
  using assms
proof (cases rule: denotes.cases)
  case (denotes_attr x c ob a)
  then show ?thesis
    by (cases "get_attr a ob") (auto simp: bind_apply lookup_name_def dyn_attr_def class_of_def enum_value_def getattr_def)
qed (simp add: lookup_name_def)

text \<open>The context is bound and no builtin is shadowed.\<close>

definition write_scope :: "scope \<Rightarrow> bool" where
  "write_scope L \<longleftrightarrow> L ''ctx'' = Some DWriteCtx \<and> (\<forall>b \<in> set BUILTINS. L b = None)"

lemma stable_write_scope: "stable c write_scope"
  using not_made_builtin by (auto simp: stable_def agree_def write_scope_def)

lemma eval_builtin: "b \<in> set BUILTINS \<Longrightarrow> w_locals w b = None \<Longrightarrow> eval ns (Name b) w = (Inr (DBuiltin b), w)"
  by (auto simp: lookup_name_def BUILTINS_def)

lemma exec_ctx_method:
  assumes "write_scope (w_locals w)" and "eval ns e w = (r, w)"
  shows "exec ns (ctx_method m e) w = (case r of
     Inl err \<Rightarrow> (Inl err, w)
   | Inr d \<Rightarrow> bind (call_writer (we_dir (ns_env ns)) (''write_'' @ m) [d]) (\<lambda>_. ret ()) w)"
  using assms
  by (simp add: ctx_method_def expr_stmt_def bind_apply lookup_name_def write_scope_def dyn_attr_def invoke_def
      call_method_def split: sum.split)

lemma on_writer_done: "bind (on_writer m) (\<lambda>_. ret ()) w = (fst (m (w_buf w)), w\<lparr>w_buf := snd (m (w_buf w))\<rparr>)"
  by (simp add: bind_apply on_writer_def split: prod.split sum.split)

text \<open>What the writer's methods are called with, once the argument is evaluated.\<close>

lemma writes_ctx_method:
  assumes "\<And>L. Q L \<Longrightarrow> write_scope L"
    and "\<And>w. Q (w_locals w) \<Longrightarrow> eval ns e w = (map_sum id DVal r, w)"
    and "\<And>v. call_writer (we_dir (ns_env ns)) (''write_'' @ m) [DVal v] = on_writer (f v)"
  shows "writes c Q (exec ns (ctx_method m e)) (bind (of_result r) f)"
proof (rule writes_at_once)
  fix w :: world assume q: "Q (w_locals w)"
  show "exec ns (ctx_method m e) w =
      (fst (bind (of_result r) f (w_buf w)), w\<lparr>w_buf := snd (bind (of_result r) f (w_buf w))\<rparr>)"
    using exec_ctx_method [OF assms(1) [OF q] assms(2) [OF q], of m]
    by (cases r)
      (simp_all only: map_sum.simps sum.case assms(3) on_writer_done bind_of_result_Inr bind_of_result_Inl
        id_apply raise_apply fst_conv snd_conv, simp)
qed

lemma call_writer_methods:
  "call_writer sd (''write_'' @ ''uint64'') [DVal v] = on_writer (put_uint64 v)"
  "call_writer sd (''write_'' @ ''string'') [DVal v] = on_writer (put_string sd v)"
  "call_writer sd (''write_'' @ ''bool'') [DVal v] = on_writer (put_bool v)"
  "call_writer sd (''write_'' @ ''bytes'') [DVal v] = on_writer (put_bytes v)"
  by (simp_all add: call_writer_def)

lemma call_primitive:
  assumes "m \<in> {''string'', ''bool'', ''bytes''}" and "\<not> (m = ''string'' \<and> errors \<noteq> Strict)"
  shows "call_writer sd (''write_'' @ m) [DVal v] = on_writer (primitive_write sd m errors v)"
proof -
  consider "m = ''string''" "errors = Strict" | "m = ''bool''" | "m = ''bytes''" using assms by blast
  then show ?thesis by cases (simp_all add: call_writer_def primitive_write_def)
qed

lemma eval_method:
  assumes "denotes e (w_locals w) (Inr v)" and "m \<in> set METHODS" and "\<And>w. evals ns args w = (Inr ds, w)"
  shows "eval ns (Call (Attribute e m) args kws) w = (call_value (we_dir (ns_env ns)) v m, w)"
proof (cases "class_of v")
  case None
  then show ?thesis
    using assms(2,3) denotes_eval [OF assms(1), of ns] by (simp add: bind_apply dyn_attr_def invoke_def call_method_def)
next
  case (Some c)
  then have called: "call_value (we_dir (ns_env ns)) v m = Inl (no_method v m)"
    using assms(2) by (cases v) (auto simp: class_of_def METHODS_def call_value_def scalar_to_wire_def str_encode_def str_decode_def py_items_def)
  have "m \<noteq> ''value''" using assms(2) by (auto simp: METHODS_def)
  then show ?thesis
    using assms(3) denotes_eval [OF assms(1), of ns] Some called
    by (cases "getattr v m") (simp_all add: bind_apply dyn_attr_def invoke_def no_method_def)
qed

lemma eval_len:
  assumes "write_scope (w_locals w)" and "denotes e (w_locals w) (Inr v)"
  shows "eval ns (Call (Name ''len'') [e] []) w = (map_sum id DVal (py_len v), w)"
proof -
  have "eval ns (Name ''len'') w = (Inr (DBuiltin ''len''), w)"
    using assms(1) by (intro eval_builtin) (simp_all add: BUILTINS_def write_scope_def)
  then show ?thesis
    using denotes_eval [OF assms(2), of ns] by (cases "py_len v") (simp_all add: bind_apply invoke_def call_builtin_def)
qed

lemma eval_value:
  assumes "denotes e (w_locals w) (Inr v)"
  shows "eval ns (Attribute e ''value'') w = (map_sum id DVal (enum_value v), w)"
  using denotes_eval [OF assms, of ns] by (cases "enum_value v") (simp_all add: bind_apply dyn_attr_def METHODS_def)

lemma put_string_PStr [simp]: "put_string sd (PStr s) = write_string s"
  by (simp add: put_string_def py_str_def)

lemma bind_of_result_map: "bind (of_result (map_sum id g r)) f = bind (of_result r) (\<lambda>x. f (g x))"
  by (cases r) simp_all

lemma writes_loop:
  assumes "stable c Q" and "\<And>L. Q L \<Longrightarrow> denotes e L (Inr v)" and "made c x"
    and "\<And>u. writes c (\<lambda>L. Q L \<and> L x = Some (DVal u)) (exec_block ns body) (m u)"
  shows "writes c Q (exec ns (ForS (TName x) e body)) (bind (of_result (py_iter v)) (write_items m))"
proof -
  have run: "exec ns (ForS (TName x) e body) w = (case py_iter v of
      Inl err \<Rightarrow> (Inl err, w)
    | Inr us \<Rightarrow> for_each (\<lambda>s. bind s (\<lambda>_. exec_block ns body)) (map (\<lambda>u. set_local x (DVal u)) us) w)"
    if "Q (w_locals w)" for w
    using denotes_eval [OF assms(2) [OF that], of ns] by (simp add: bind_apply turns_def split: sum.split)
  show ?thesis
  proof (cases "py_iter v")
    case (Inl err)
    then show ?thesis by (intro writes_at_once) (simp add: run del: exec.simps)
  next
    case (Inr us)
    have "writes c Q (for_each (\<lambda>s. bind s (\<lambda>_. exec_block ns body)) (map (\<lambda>u. set_local x (DVal u)) us)) (write_items m us)"
      by (rule writes_for [OF assms(1,3,4)])
    then show ?thesis using Inr by (simp add: writes_def run del: exec.simps)
  qed
qed

text \<open>A loop over the items of a dictionary sets two variables.\<close>

lemma writes_pair_for:
  assumes "stable c Q" and x: "made c x" "made c y" "x \<noteq> y"
    and body: "\<And>k u. writes c (\<lambda>L. (Q L \<and> L x = Some (DVal k)) \<and> L y = Some (DVal u)) blk (m (k, u))"
  shows "writes c Q (for_each (\<lambda>s. bind s (\<lambda>_. blk))
      (map (\<lambda>(k, u). bind (set_local x (DVal k)) (\<lambda>_. set_local y (DVal u))) kvs)) (write_items m kvs)"
proof (induction kvs)
  case Nil
  show ?case by (rule writes_at_once) simp
next
  case (Cons e kvs)
  obtain k u where e: "e = (k, u)" by (cases e)
  have "writes c Q (bind (bind (set_local x (DVal k)) (\<lambda>_. set_local y (DVal u))) (\<lambda>_. blk)) (m e)"
    unfolding writes_def
  proof (intro allI impI)
    fix w :: world assume q: "Q (w_locals w)"
    let ?w = "w\<lparr>w_locals := (w_locals w)(x \<mapsto> DVal k, y \<mapsto> DVal u)\<rparr>"
    have agree: "agree c (w_locals w) (w_locals ?w)"
      using agree_trans [OF agree_upd [OF x(1)] agree_upd [OF x(2)]] by simp
    then have "(Q (w_locals ?w) \<and> w_locals ?w x = Some (DVal k)) \<and> w_locals ?w y = Some (DVal u)"
      using stableD [OF assms(1) _ q] x(3) by simp
    then obtain L where L: "agree c (w_locals ?w) L"
      "blk ?w = (fst (m e (w_buf ?w)), ?w\<lparr>w_locals := L, w_buf := snd (m e (w_buf ?w))\<rparr>)"
      using writesE [OF body, of ?w] unfolding e by blast
    show "\<exists>L. agree c (w_locals w) L \<and> bind (bind (set_local x (DVal k)) (\<lambda>_. set_local y (DVal u))) (\<lambda>_. blk) w =
        (fst (m e (w_buf w)), w\<lparr>w_locals := L, w_buf := snd (m e (w_buf w))\<rparr>)"
      using L(2) agree_trans [OF agree L(1)] by (intro exI [of _ L]) (simp add: bind_apply set_local_def)
  qed
  then show ?case using writes_bind [OF assms(1) _ Cons.IH] by (simp add: e)
qed

lemma writes_pair_loop:
  assumes "stable c Q" and "\<And>L. Q L \<Longrightarrow> denotes e L (Inr v)" and "made c x" "made c y" "x \<noteq> y"
    and "\<And>k u. writes c (\<lambda>L. (Q L \<and> L x = Some (DVal k)) \<and> L y = Some (DVal u)) (exec_block ns body) (m (k, u))"
  shows "writes c Q (exec ns (ForS (TPair x y) (Call (Attribute e ''items'') [] []) body))
    (bind (of_result (py_items v)) (write_items m))"
proof -
  have eval: "eval ns (Call (Attribute e ''items'') [] []) w = (call_value (we_dir (ns_env ns)) v ''items'', w)"
    if "Q (w_locals w)" for w
    by (rule eval_method [OF assms(2) [OF that], where ds = "[]"]) (simp_all add: METHODS_def)
  have run: "exec ns (ForS (TPair x y) (Call (Attribute e ''items'') [] []) body) w = (case py_items v of
      Inl err \<Rightarrow> (Inl err, w)
    | Inr kvs \<Rightarrow> for_each (\<lambda>s. bind s (\<lambda>_. exec_block ns body))
        (map (\<lambda>(k, u). bind (set_local x (DVal k)) (\<lambda>_. set_local y (DVal u))) kvs) w)"
    if "Q (w_locals w)" for w
    using eval [OF that] by (simp add: bind_apply [of "eval ns _"] call_value_def turns_def bind_apply split: sum.split)
  show ?thesis
  proof (cases "py_items v")
    case (Inl err)
    then show ?thesis by (intro writes_at_once) (simp add: run del: exec.simps)
  next
    case (Inr kvs)
    then show ?thesis using writes_pair_for [OF assms(1,3-6), of kvs] by (simp add: writes_def run del: exec.simps)
  qed
qed

definition write_Q :: "expr \<Rightarrow> pyval \<Rightarrow> scope \<Rightarrow> bool" where
  "write_Q e v L \<longleftrightarrow> write_scope L \<and> denotes e L (Inr v)"

lemma write_Q_D: "write_Q e v L \<Longrightarrow> write_scope L" "write_Q e v L \<Longrightarrow> denotes e L (Inr v)"
  by (simp_all add: write_Q_def)

lemma eval_Q: "write_Q e v (w_locals w) \<Longrightarrow> eval ns e w = (map_sum id DVal (Inr v), w)"
  using denotes_eval write_Q_D(2) by blast

lemma stable_write_Q: "\<not> made c (root e) \<Longrightarrow> stable c (write_Q e v)"
  unfolding write_Q_def by (intro stable_conj stable_write_scope stable_denotes)

lemma write_Q_item: "write_Q e v L \<Longrightarrow> L x = Some (DVal u) \<Longrightarrow> write_Q (Name x) u L"
  by (simp add: write_Q_def denotes_name)

lemma writes_model:
  assumes "eval ns f = ret g"
    and "\<And>w. invoke ns g [DVal v, DWriteCtx] w = on_writer m w"
  shows "writes c (write_Q e v) (exec ns (ExprS (Await (Call f [e, Name ''ctx''] [])))) m"
proof (rule writes_at_once)
  fix w :: world assume q: "write_Q e v (w_locals w)"
  then have ctx: "eval ns (Name ''ctx'') w = (Inr DWriteCtx, w)"
    by (simp add: write_Q_def write_scope_def lookup_name_def)
  have "exec ns (ExprS (Await (Call f [e, Name ''ctx''] []))) w = bind (on_writer m) (\<lambda>_. ret ()) w"
    using denotes_eval [OF write_Q_D(2) [OF q], of ns] ctx assms
    by (simp add: expr_stmt_def bind_apply)
  then show "exec ns (ExprS (Await (Call f [e, Name ''ctx''] []))) w = (fst (m (w_buf w)), w\<lparr>w_buf := snd (m (w_buf w))\<rparr>)"
    by (simp only: on_writer_done)
qed

lemma writes_len:
  "writes c (write_Q e v) (exec ns (ctx_method ''uint64'' (Call (Name ''len'') [e] []))) (bind (of_result (py_len v)) put_uint64)"
  by (rule writes_ctx_method) (simp_all add: write_Q_D eval_len call_writer_methods(1) [simplified] del: eval.simps)

lemma writes_sequence:
  assumes "\<not> made c (root e)"
    and body: "\<And>u. writes (Suc c) (write_Q (Name (local_name ''item'' c)) u) (exec_block ns body) (m u)"
  shows "writes c (write_Q e v)
    (exec_block ns [ctx_method ''uint64'' (Call (Name ''len'') [e] []), ForS (TName (local_name ''item'' c)) e body])
    (bind (of_result (py_len v)) (\<lambda>k. bind (put_uint64 k) (\<lambda>_. bind (of_result (py_iter v)) (write_items m))))"
proof -
  have st: "stable c (write_Q e v)" using assms(1) by (rule stable_write_Q)
  have "writes c (write_Q e v) (exec ns (ctx_method ''uint64'' (Call (Name ''len'') [e] []))) (bind (of_result (py_len v)) put_uint64)"
    by (rule writes_len)
  moreover have "writes c (\<lambda>L. write_Q e v L \<and> L (local_name ''item'' c) = Some (DVal u)) (exec_block ns body) (m u)" for u
    by (rule writes_mono [OF body]) (auto intro: write_Q_item)
  then have "writes c (write_Q e v) (exec ns (ForS (TName (local_name ''item'' c)) e body))
      (bind (of_result (py_iter v)) (write_items m))"
    by (intro writes_loop [OF st]) (simp_all add: write_Q_D)
  ultimately have "writes c (write_Q e v)
      (exec_block ns [ctx_method ''uint64'' (Call (Name ''len'') [e] []), ForS (TName (local_name ''item'' c)) e body])
      (bind (bind (of_result (py_len v)) put_uint64) (\<lambda>_. bind (of_result (py_iter v)) (write_items m)))"
    by (intro writes_Cons [OF st] writes_single)
  then show ?thesis by (simp only: bind_assoc)
qed

lemma writes_mapping:
  assumes "\<not> made c (root e)" and "Suc (Suc c) \<le> c2"
    and kbody: "\<And>u. writes (Suc (Suc c)) (write_Q (Name (local_name ''key'' c)) u) (exec_block ns kbody) (km u)"
    and vbody: "\<And>u. writes c2 (write_Q (Name (local_name ''item'' (Suc c))) u) (exec_block ns vbody) (vm u)"
  shows "writes c (write_Q e v)
    (exec_block ns [ctx_method ''uint64'' (Call (Name ''len'') [e] []),
       ForS (TPair (local_name ''key'' c) (local_name ''item'' (Suc c))) (Call (Attribute e ''items'') [] []) (kbody @ vbody)])
    (bind (of_result (py_len v)) (\<lambda>k. bind (put_uint64 k) (\<lambda>_.
      bind (of_result (py_items v)) (write_items (\<lambda>(x, y). bind (km x) (\<lambda>_. vm y))))))"
proof -
  let ?k = "local_name ''key'' c" and ?i = "local_name ''item'' (Suc c)"
  have st: "stable c (write_Q e v)" using assms(1) by (rule stable_write_Q)
  have len: "writes c (write_Q e v) (exec ns (ctx_method ''uint64'' (Call (Name ''len'') [e] []))) (bind (of_result (py_len v)) put_uint64)"
    by (rule writes_len)
  have "writes c (\<lambda>L. (write_Q e v L \<and> L ?k = Some (DVal x)) \<and> L ?i = Some (DVal y)) (exec_block ns (kbody @ vbody))
      (case (x, y) of (x, y) \<Rightarrow> bind (km x) (\<lambda>_. vm y))" for x y
  proof -
    let ?Q = "\<lambda>L. write_Q (Name ?k) x L \<and> write_Q (Name ?i) y L"
    have "stable (Suc (Suc c)) ?Q" by (intro stable_conj stable_write_Q) simp_all
    moreover have "writes (Suc (Suc c)) ?Q (exec_block ns kbody) (km x)" by (rule writes_mono [OF kbody]) auto
    moreover have "writes (Suc (Suc c)) ?Q (exec_block ns vbody) (vm y)" by (rule writes_mono [OF vbody]) (use assms(2) in auto)
    ultimately have "writes (Suc (Suc c)) ?Q (exec_block ns (kbody @ vbody)) (bind (km x) (\<lambda>_. vm y))" by (rule writes_append)
    then show ?thesis unfolding prod.case by (rule writes_mono) (auto intro: write_Q_item)
  qed
  then have "writes c (write_Q e v) (exec ns (ForS (TPair ?k ?i) (Call (Attribute e ''items'') [] []) (kbody @ vbody)))
      (bind (of_result (py_items v)) (write_items (\<lambda>(x, y). bind (km x) (\<lambda>_. vm y))))"
    by (intro writes_pair_loop [OF st]) (simp_all add: write_Q_D)
  then have "writes c (write_Q e v)
      (exec_block ns [ctx_method ''uint64'' (Call (Name ''len'') [e] []),
        ForS (TPair ?k ?i) (Call (Attribute e ''items'') [] []) (kbody @ vbody)])
      (bind (bind (of_result (py_len v)) put_uint64)
        (\<lambda>_. bind (of_result (py_items v)) (write_items (\<lambda>(x, y). bind (km x) (\<lambda>_. vm y)))))"
    by (intro writes_Cons [OF st len] writes_single)
  then show ?thesis by (simp only: bind_assoc)
qed

lemma local_apply: "local stem em = (Inr (local_name stem (em_counter em)), em\<lparr>em_counter := Suc (em_counter em)\<rparr>)"
  by (simp add: local_def)

text \<open>The statements of a node write what the node says.\<close>

lemma write_value_writes:
  assumes "write_value nm node e em = (Inr stmts, em')" and "covers ''write'' ns em'" and "node_ok node"
    and "\<not> made (em_counter em) (root e)"
  shows "writes (em_counter em) (write_Q e v) (exec_block ns stmts) (node_write nm (we_dir (ns_env ns)) node v)"
  using assms
proof (induction node arbitrary: e em em' stmts v)
  case (Primitive m errors)
  show ?case
  proof (cases "m = ''string'' \<and> errors \<noteq> Strict")
    case True
    have "eval ns (Call (Attribute e ''encode'') [Constant (PStr ''utf-8'')] errors_keyword) w = (map_sum id DVal (str_encode v), w)"
      if "write_Q e v (w_locals w)" for w
    proof -
      have "eval ns (Call (Attribute e ''encode'') [Constant (PStr ''utf-8'')] errors_keyword) w =
          (call_value (we_dir (ns_env ns)) v ''encode'', w)"
        by (rule eval_method [OF write_Q_D(2) [OF that], where ds = "[DVal (PStr ''utf-8'')]"]) (simp_all add: METHODS_def bind_apply)
      then show ?thesis by (cases "str_encode v") (simp_all add: call_value_def)
    qed
    then have "writes (em_counter em) (write_Q e v)
        (exec ns (ctx_method ''bytes'' (Call (Attribute e ''encode'') [Constant (PStr ''utf-8'')] errors_keyword)))
        (bind (of_result (str_encode v)) put_bytes)"
      by (intro writes_ctx_method) (simp_all add: write_Q_D call_writer_methods(4) [simplified] del: eval.simps)
    then show ?thesis
      using Primitive.prems(1) True by (auto simp: primitive_write_def lossless_writer_def [abs_def] intro: writes_single simp del: exec_block.simps)
  next
    case False
    have "writes (em_counter em) (write_Q e v) (exec ns (ctx_method m e))
        (bind (of_result (Inr v)) (primitive_write (we_dir (ns_env ns)) m errors))"
    proof (rule writes_ctx_method [OF write_Q_D(1) eval_Q])
      show "call_writer (we_dir (ns_env ns)) (''write_'' @ m) [DVal u] = on_writer (primitive_write (we_dir (ns_env ns)) m errors u)" for u
        by (rule call_primitive) (use Primitive.prems(3) False in simp_all)
    qed
    then show ?thesis using Primitive.prems(1) False by (auto intro: writes_single simp del: exec_block.simps)
  qed
next
  case (Integer c)
  have "writes (em_counter em) (write_Q e v) (exec ns (ctx_method ''uint64'' e)) (bind (of_result (Inr v)) put_uint64)"
    by (rule writes_ctx_method [OF write_Q_D(1) eval_Q]) (simp_all add: call_writer_methods [simplified])
  then show ?case using Integer.prems(1) by (auto intro: writes_single simp del: exec_block.simps)
next
  case (EnumNode c members)
  have "writes (em_counter em) (write_Q e v) (exec ns (ctx_method ''uint64'' (Attribute e ''value''))) (bind (of_result (enum_value v)) put_uint64)"
    by (intro writes_ctx_method) (simp_all add: write_Q_D eval_value call_writer_methods [simplified] del: eval.simps)
  then show ?case using EnumNode.prems(1) by (auto intro: writes_single simp del: exec_block.simps)
next
  case (ScalarNode c)
  let ?r = "scalar_to_wire (we_dir (ns_env ns)) v"
  have "eval ns (Call (Attribute e ''to_wire'') [] []) w = (map_sum id DVal (map_sum id PStr ?r), w)"
    if "write_Q e v (w_locals w)" for w
    using eval_method [OF write_Q_D(2) [OF that], where ds = "[]" and m = "''to_wire''" and args = "[]" and ns = ns and kws = "[]"]
    by (cases ?r) (simp_all add: METHODS_def call_value_def del: eval.simps)
  then have "writes (em_counter em) (write_Q e v) (exec ns (ctx_method ''string'' (Call (Attribute e ''to_wire'') [] [])))
      (bind (of_result (map_sum id PStr ?r)) (put_string (we_dir (ns_env ns))))"
    by (intro writes_ctx_method) (simp_all add: write_Q_D call_writer_methods [simplified] del: eval.simps)
  then show ?case using ScalarNode.prems(1) by (auto intro: writes_single simp: bind_of_result_map simp del: exec_block.simps)
next
  case (OptionalScalar node)
  then obtain body where body: "write_value nm node e em = (Inr body, em')"
    and stmts: "stmts = [IfS (IsNone e) [ctx_method ''string'' (Constant (PStr []))] body]"
    by (auto simp: bind_ok_iff)
  have run: "exec_block ns stmts w = (if v = PNone then exec ns (ctx_method ''string'' (Constant (PStr []))) w else exec_block ns body w)"
    if "write_Q e v (w_locals w)" for w
    using denotes_eval [OF write_Q_D(2) [OF that], of ns]
    unfolding stmts exec_block.simps bind_ret_unit by (simp add: bind_apply truthy_def split: prod.split sum.split)
  have "writes (em_counter em) (write_Q e v) (exec ns (ctx_method ''string'' (Constant (PStr []))))
      (bind (of_result (Inr (PStr []))) (put_string (we_dir (ns_env ns))))"
    by (intro writes_ctx_method) (simp_all add: write_Q_D call_writer_methods [simplified])
  moreover have "writes (em_counter em) (write_Q e v) (exec_block ns body) (node_write nm (we_dir (ns_env ns)) node v)"
    using OptionalScalar body by simp
  ultimately show ?case by (simp add: writes_def run)
next
  case (Sequence kind node)
  let ?x = "local_name ''item'' (em_counter em)"
  from Sequence.prems(1) obtain body where
    body: "write_value nm node (Name ?x) (em\<lparr>em_counter := Suc (em_counter em)\<rparr>) = (Inr body, em')"
    and stmts: "stmts = [ctx_method ''uint64'' (Call (Name ''len'') [e] []), ForS (TName ?x) e body]"
    by (auto simp: bind_ok_iff local_apply)
  have "writes (Suc (em_counter em)) (write_Q (Name ?x) u) (exec_block ns body) (node_write nm (we_dir (ns_env ns)) node u)" for u
    using Sequence.IH [OF body Sequence.prems(2), of u] Sequence.prems(3) by simp
  then show ?case unfolding stmts node_write.simps by (rule writes_sequence [OF Sequence.prems(4)])
next
  case (MappingNode kn vn)
  let ?c = "em_counter em"
  let ?k = "local_name ''key'' ?c" and ?i = "local_name ''item'' (Suc ?c)" and ?em = "em\<lparr>em_counter := Suc (Suc ?c)\<rparr>"
  from MappingNode.prems(1) obtain kbody vbody em1 where
    k: "write_value nm kn (Name ?k) ?em = (Inr kbody, em1)" and v: "write_value nm vn (Name ?i) em1 = (Inr vbody, em')"
    and stmts: "stmts = [ctx_method ''uint64'' (Call (Name ''len'') [e] []),
      ForS (TPair ?k ?i) (Call (Attribute e ''items'') [] []) (kbody @ vbody)]"
    by (auto simp: bind_ok_iff local_apply)
  have c: "Suc (Suc ?c) \<le> em_counter em1" using grown_counter [OF grownD [OF grows_write_value k]] by simp
  have cov: "covers ''write'' ns em1" using covers_grown [OF MappingNode.prems(2) grownD [OF grows_write_value v]] .
  have "writes (Suc (Suc ?c)) (write_Q (Name ?k) u) (exec_block ns kbody) (node_write nm (we_dir (ns_env ns)) kn u)" for u
    using MappingNode.IH(1) [OF k cov, of u] MappingNode.prems(3) by simp
  moreover have "writes (em_counter em1) (write_Q (Name ?i) u) (exec_block ns vbody) (node_write nm (we_dir (ns_env ns)) vn u)" for u
    using MappingNode.IH(2) [OF v MappingNode.prems(2), of u] MappingNode.prems(3) c by simp
  ultimately show ?case unfolding stmts node_write.simps by (rule writes_mapping [OF MappingNode.prems(4) c])
next
  case (ModelNode c)
  show ?case
  proof (cases "nm_can nm c")
    case True
    then obtain cc f where cc: "nm_compile nm c = Inr cc" and f: "codec ''write'' (DCodec cc) em = (Inr f, em')"
      and stmts: "stmts = [ExprS (Await (Call (Attribute f ''write'') [e, Name ''ctx''] []))]"
      using ModelNode.prems(1) by (cases "nm_compile nm c") (auto simp: bind_ok_iff)
    have "eval ns (Attribute f ''write'') = ret (DMethod (DCodec cc) ''write'')"
      by (rule ext) (simp add: eval_codec [OF f ModelNode.prems(2)] dyn_attr_def)
    then have "writes (em_counter em) (write_Q e v) (exec ns (ExprS (Await (Call (Attribute f ''write'') [e, Name ''ctx''] [])))) (cc_write cc v)"
      by (rule writes_model) (simp add: invoke_def call_method_def)
    then show ?thesis unfolding stmts using True cc by (simp only: node_write.simps model_write_def if_True sum.case writes_single)
  next
    case False
    then obtain f where f: "adapter ''write'' (DWriterFn (nm_write nm)) em = (Inr f, em')"
      and stmts: "stmts = [ExprS (Await (Call f [e, Name ''ctx''] []))]"
      using ModelNode.prems(1) by (auto simp: bind_ok_iff)
    have "writes (em_counter em) (write_Q e v) (exec ns (ExprS (Await (Call f [e, Name ''ctx''] [])))) (nm_write nm v)"
      by (rule writes_model [OF eval_adapter [OF f ModelNode.prems(2)]]) (simp add: invoke_def)
    then show ?thesis unfolding stmts using False by (simp only: node_write.simps model_write_def if_False writes_single)
  qed
qed simp_all

text \<open>A field that is not set raises at the first statement, before anything is written.\<close>

lemma exec_ctx_unset:
  assumes "write_scope (w_locals w)" and "eval ns e w = (Inl err, w)"
  shows "exec_block ns (ctx_method m e # ss) w = (Inl err, w)"
  using exec_ctx_method [OF assms, of m] by (simp add: bind_apply del: exec.simps)

lemma write_value_unset:
  assumes "write_value nm node e em = (Inr stmts, em')" and "covers ''write'' ns em'" and "node_ok node"
    and "write_scope (w_locals w)" and "denotes e (w_locals w) (Inl err)"
  shows "exec_block ns stmts w = (Inl err, w)"
proof -
  have e: "eval ns e w = (Inl err, w)" using denotes_eval [OF assms(5), of ns] by simp
  have len: "eval ns (Call (Name ''len'') [e] []) w = (Inl err, w)"
    using e eval_builtin [of "''len''" w ns] assms(4) by (simp add: write_scope_def BUILTINS_def bind_apply)
  show ?thesis
  proof (cases node)
    case (ModelNode c)
    show ?thesis
    proof (cases "nm_can nm c")
      case True
      then obtain cc f where f: "codec ''write'' (DCodec cc) em = (Inr f, em')"
        and stmts: "stmts = [ExprS (Await (Call (Attribute f ''write'') [e, Name ''ctx''] []))]"
        using assms(1) ModelNode by (cases "nm_compile nm c") (auto simp: bind_ok_iff)
      show ?thesis unfolding stmts using e eval_codec [OF f assms(2)] by (simp add: expr_stmt_def bind_apply dyn_attr_def)
    next
      case False
      then obtain f where f: "adapter ''write'' (DWriterFn (nm_write nm)) em = (Inr f, em')"
        and stmts: "stmts = [ExprS (Await (Call f [e, Name ''ctx''] []))]"
        using assms(1) ModelNode by (auto simp: bind_ok_iff)
      show ?thesis unfolding stmts using e eval_adapter [OF f assms(2)] by (simp add: expr_stmt_def bind_apply)
    qed
  next
    case (OptionalScalar n)
    then obtain body where "stmts = [IfS (IsNone e) [ctx_method ''string'' (Constant (PStr []))] body]"
      using assms(1) by (auto simp: bind_ok_iff)
    then show ?thesis using e by (simp add: bind_apply)
  next
    case (Primitive m errors)
    then have "\<exists>a. stmts = [ctx_method (if m = ''string'' \<and> errors \<noteq> Strict then ''bytes'' else m) a] \<and> eval ns a w = (Inl err, w)"
      using assms(1) e by (auto simp: bind_apply split: if_splits)
    then show ?thesis using exec_ctx_unset [OF assms(4)] by blast
  next
    case (EnumNode c members)
    then have "stmts = [ctx_method ''uint64'' (Attribute e ''value'')]" using assms(1) by simp
    moreover have "eval ns (Attribute e ''value'') w = (Inl err, w)" using e by (simp add: bind_apply)
    ultimately show ?thesis using exec_ctx_unset [OF assms(4)] by blast
  next
    case (ScalarNode c)
    then have "stmts = [ctx_method ''string'' (Call (Attribute e ''to_wire'') [] [])]" using assms(1) by simp
    moreover have "eval ns (Call (Attribute e ''to_wire'') [] []) w = (Inl err, w)" using e by (simp add: bind_apply)
    ultimately show ?thesis using exec_ctx_unset [OF assms(4)] by blast
  qed (use assms(1,3) e len exec_ctx_unset [OF assms(4) e] exec_ctx_unset [OF assms(4) len] in \<open>auto simp: bind_ok_iff simp del: exec_block.simps\<close>)
qed

section \<open>Compiled writers\<close>

fun schema_write :: "nested_models \<Rightarrow> string \<Rightarrow> schema_field list \<Rightarrow> attrs \<Rightarrow> (bytes, unit) eff" where
  "schema_write nm sd [] ob = ret ()"
| "schema_write nm sd (f # fs) ob =
     (if \<not> sf_serialize f then schema_write nm sd fs ob
      else bind (of_result (depends_holds (sf_predicate f) ob)) (\<lambda>on_wire.
        if \<not> on_wire then schema_write nm sd fs ob
        else bind (of_result (get_attr (sf_name f) ob)) (\<lambda>v.
             bind (node_write nm sd (sf_node f) v) (\<lambda>_. schema_write nm sd fs ob))))"

definition fields_ok :: "schema_field list \<Rightarrow> bool" where
  "fields_ok fs = list_all (\<lambda>f. node_ok (sf_node f) \<and> \<not> startswith (sf_name f) ''__pydantic_'') fs"

definition object_scope :: "string \<Rightarrow> attrs \<Rightarrow> scope \<Rightarrow> bool" where
  "object_scope c ob L \<longleftrightarrow> write_scope L \<and> L ''value'' = Some (DVal (PObj c ob))"

lemma stable_object_scope: "stable k (object_scope c ob)"
  unfolding object_scope_def by (intro stable_conj stable_write_scope stable_local) simp

lemma write_field_writes:
  assumes "write_value nm node (Attribute (Name ''value'') n) em = (Inr stmts, em')" and "covers ''write'' ns em'"
    and "node_ok node"
  shows "writes (em_counter em) (object_scope c ob) (exec_block ns stmts)
    (bind (of_result (get_attr n ob)) (node_write nm (we_dir (ns_env ns)) node))"
proof -
  have d: "denotes (Attribute (Name ''value'') n) L (get_attr n ob)" if "object_scope c ob L" for L
    using that by (auto simp: object_scope_def intro: denotes_attr)
  show ?thesis
  proof (cases "get_attr n ob")
    case (Inl err)
    have "exec_block ns stmts w = (Inl err, w)" if "object_scope c ob (w_locals w)" for w
      using write_value_unset [OF assms(1-3) _ d [OF that, unfolded Inl]] that by (simp add: object_scope_def)
    then show ?thesis using Inl by (intro writes_at_once) simp
  next
    case (Inr v)
    have "writes (em_counter em) (object_scope c ob) (exec_block ns stmts) (node_write nm (we_dir (ns_env ns)) node v)"
      using d Inr by (intro writes_mono [OF write_value_writes [OF assms(1-3)]]) (auto simp: write_Q_def object_scope_def)
    then show ?thesis using Inr by simp
  qed
qed

lemma writes_if:
  assumes "\<And>w. Q (w_locals w) \<Longrightarrow> eval ns e w = (map_sum id (\<lambda>b. DVal (PBool b)) r, w)"
    and "writes c Q (exec_block ns body) m"
  shows "writes c Q (exec ns (IfS e body [])) (bind (of_result r) (\<lambda>b. if \<not> b then ret () else m))"
proof (cases r)
  case (Inl err)
  then show ?thesis by (intro writes_at_once) (simp add: bind_apply assms(1))
next
  case (Inr b)
  show ?thesis
  proof (cases b)
    case True
    then show ?thesis using assms(2) Inr by (simp add: writes_def bind_apply assms(1) truthy_def)
  next
    case False
    then show ?thesis using Inr by (intro writes_at_once) (simp add: bind_apply assms(1) truthy_def)
  qed
qed

lemma drop_after: "drop i xs = y # ys \<Longrightarrow> drop (i + 1) xs = ys"
  by (simp add: drop_Suc flip: tl_drop)

lemma eval_predicate:
  assumes "drop i (ns_tuple ns t) = DPred p # ps" and "w_locals w x = Some (DVal (PObj c ob))"
  shows "eval ns (Call (Subscript t i) [Name x] []) w = (map_sum id (\<lambda>b. DVal (PBool b)) (eval_pred p ob), w)"
proof -
  have "i < length (ns_tuple ns t)" using assms(1) by (metis drop_all list.distinct(1) not_le)
  moreover from this have "ns_tuple ns t ! i = DPred p" using assms(1) by (metis Cons_nth_drop_Suc list.inject)
  ultimately show ?thesis
    using assms(2) by (cases "eval_pred p ob") (simp_all add: bind_apply lookup_name_def invoke_def attrs_of_def)
qed

lemma grows_write_fields: "grows_eff (write_fields nm i fs)"
  by (induction nm i fs rule: write_fields.induct) (auto intro!: grows_eff_bind grows_write_value split: option.split)

lemma write_fields_writes:
  assumes "write_fields nm i fs em = (Inr stmts, em')" and "covers ''write'' ns em'" and "fields_ok fs"
    and "drop i (ns_tuple ns ''write_predicates'') = predicates_of sf_serialize fs"
  shows "writes (em_counter em) (object_scope c ob) (exec_block ns stmts) (schema_write nm (we_dir (ns_env ns)) fs ob)"
  using assms
proof (induction fs arbitrary: i em stmts)
  case Nil
  then have "stmts = []" by simp
  then show ?case unfolding schema_write.simps by (simp only: writes_nil)
next
  case (Cons f fs)
  let ?sd = "we_dir (ns_env ns)"
  have f: "node_ok (sf_node f)" and fs: "fields_ok fs" using Cons.prems(3) by (simp_all add: fields_ok_def)
  show ?case
  proof (cases "sf_serialize f")
    case False
    then show ?thesis using Cons.IH [of i em stmts] Cons.prems fs by (simp split: option.splits)
  next
    case True
    then obtain body em1 where body: "write_value nm (sf_node f) (Attribute (Name ''value'') (sf_name f)) em = (Inr body, em1)"
      and rest: "(case sf_predicate f of
          None \<Rightarrow> bind (write_fields nm i fs) (\<lambda>tl. ret (body @ tl))
        | Some _ \<Rightarrow> bind (write_fields nm (i + 1) fs) (\<lambda>tl.
            ret (IfS (Call (Subscript ''write_predicates'' i) [Name ''value''] []) body [] # tl))) em1 = (Inr stmts, em')"
      using Cons.prems(1) by (auto simp: bind_ok_iff)
    have c1: "em_counter em \<le> em_counter em1" using grown_counter [OF grownD [OF grows_write_value body]] .
    have field: "writes (em_counter em) (object_scope c ob) (exec_block ns body)
        (bind (of_result (get_attr (sf_name f) ob)) (node_write nm ?sd (sf_node f)))" if "grown em1 em'"
      by (rule write_field_writes [OF body covers_grown [OF Cons.prems(2) that] f])
    show ?thesis
    proof (cases "sf_predicate f")
      case None
      then obtain tl where tl: "write_fields nm i fs em1 = (Inr tl, em')" and stmts: "stmts = body @ tl"
        using rest by (auto simp: bind_ok_iff)
      have "writes (em_counter em) (object_scope c ob) (exec_block ns tl) (schema_write nm ?sd fs ob)"
        by (rule writes_mono [OF Cons.IH [OF tl Cons.prems(2) fs] c1]) (use Cons.prems(4) None in simp_all)
      then have "writes (em_counter em) (object_scope c ob) (exec_block ns stmts)
          (bind (bind (of_result (get_attr (sf_name f) ob)) (node_write nm ?sd (sf_node f))) (\<lambda>_. schema_write nm ?sd fs ob))"
        unfolding stmts by (rule writes_append [OF stable_object_scope field [OF grownD [OF grows_write_fields tl]]])
      then show ?thesis using True None by (simp add: depends_holds_def bind_assoc)
    next
      case (Some p)
      then obtain tl where tl: "write_fields nm (i + 1) fs em1 = (Inr tl, em')"
        and stmts: "stmts = IfS (Call (Subscript ''write_predicates'' i) [Name ''value''] []) body [] # tl"
        using rest by (auto simp: bind_ok_iff)
      have drop: "drop i (ns_tuple ns ''write_predicates'') = DPred p # predicates_of sf_serialize fs"
        using Cons.prems(4) Some True by simp
      then have "drop (i + 1) (ns_tuple ns ''write_predicates'') = predicates_of sf_serialize fs"
        by (rule drop_after)
      then have tl': "writes (em_counter em) (object_scope c ob) (exec_block ns tl) (schema_write nm ?sd fs ob)"
        using writes_mono [OF Cons.IH [OF tl Cons.prems(2) fs] c1] by simp
      have "writes (em_counter em) (object_scope c ob) (exec ns (IfS (Call (Subscript ''write_predicates'' i) [Name ''value''] []) body []))
          (bind (of_result (eval_pred p ob)) (\<lambda>b. if \<not> b then ret () else
             bind (of_result (get_attr (sf_name f) ob)) (node_write nm ?sd (sf_node f))))"
        by (rule writes_if [OF eval_predicate [OF drop] field [OF grownD [OF grows_write_fields tl]]]) (simp add: object_scope_def)
      then have "writes (em_counter em) (object_scope c ob) (exec_block ns stmts)
          (bind (bind (of_result (eval_pred p ob)) (\<lambda>b. if \<not> b then ret () else
             bind (of_result (get_attr (sf_name f) ob)) (node_write nm ?sd (sf_node f)))) (\<lambda>_. schema_write nm ?sd fs ob))"
        unfolding stmts by (rule writes_Cons [OF stable_object_scope _ tl'])
      then show ?thesis using True Some by (simp add: depends_holds_def bind_assoc if_distrib [of "\<lambda>m. bind m _"] cong: if_cong)
    qed
  qed
qed

section \<open>Statements that read\<close>

text \<open>What a block that reads into the variable \<open>x\<close> may assign to besides.\<close>

definition apart :: "nat \<Rightarrow> string \<Rightarrow> scope \<Rightarrow> scope \<Rightarrow> bool" where
  "apart c x L L' \<longleftrightarrow> (\<forall>y. \<not> made c y \<and> y \<noteq> ''_'' \<and> y \<noteq> x \<longrightarrow> L' y = L y)"

definition read_scope :: "ReadContext \<Rightarrow> scope \<Rightarrow> bool" where
  "read_scope ctx L \<longleftrightarrow> L ''ctx'' = Some (DReadCtx ctx) \<and> (\<forall>b \<in> set BUILTINS. L b = None)"

definition free_name :: "string \<Rightarrow> bool" where
  "free_name x \<longleftrightarrow> x \<noteq> ''ctx'' \<and> x \<notin> set BUILTINS \<and> x \<noteq> ''_''"

lemma free_name_made [simp]: "free_name (local_name ''item'' k)" "free_name (local_name ''key'' k)" "free_name (field_local n)"
  by (auto simp: free_name_def local_name_def field_local_def BUILTINS_def)

lemma apart_refl [simp]: "apart c x L L"
  by (simp add: apart_def)

lemma apart_trans: "apart c x L L' \<Longrightarrow> apart c x L' L'' \<Longrightarrow> apart c x L L''"
  by (simp add: apart_def)

lemma apart_upd: "apart c x L (L(x := d))" "apart c x L (L(''_'' := d))"
  by (simp_all add: apart_def)

lemma apart_inner:
  assumes "apart c' y L L'" and "c \<le> c'" and "made c y \<or> y = x"
  shows "apart c x L L'"
  using assms made_later by (auto simp: apart_def)

lemma apart_keeps: "apart c x L L' \<Longrightarrow> \<not> made c y \<Longrightarrow> free_name y \<Longrightarrow> y \<noteq> x \<Longrightarrow> L' y = L y"
  by (simp add: apart_def free_name_def)

lemma read_scope_apart: "read_scope ctx L \<Longrightarrow> apart c x L L' \<Longrightarrow> free_name x \<Longrightarrow> read_scope ctx L'"
proof -
  assume q: "read_scope ctx L" and a: "apart c x L L'" and x: "free_name x"
  have same: "L' b = L b" if "b = ''ctx'' \<or> b \<in> set BUILTINS" for b
  proof -
    have "\<not> made c b" using that not_made(1) not_made_builtin by blast
    moreover have "b \<noteq> x" using that x unfolding free_name_def by blast
    moreover have "b \<noteq> ''_''" using that by (auto simp: BUILTINS_def)
    ultimately show ?thesis using a by (simp add: apart_def)
  qed
  then show ?thesis using q unfolding read_scope_def by simp
qed

text \<open>
  \<open>lands c x w res r conv\<close>: the block that went from \<open>w\<close> to \<open>res\<close> read what \<open>r\<close> says and left its value in \<open>x\<close>.
\<close>

definition lands ::
    "nat \<Rightarrow> string \<Rightarrow> world \<Rightarrow> (error + unit) \<times> world \<Rightarrow> (error + 'a) \<times> LogMessage stream \<Rightarrow> ('a \<Rightarrow> pyval) \<Rightarrow> bool" where
  "lands c x w res r conv \<longleftrightarrow> (\<exists>L. apart c x (w_locals w) L \<and>
     res = (map_sum id (\<lambda>_. ()) (fst r), w\<lparr>w_locals := L, w_in := snd r\<rparr>) \<and>
     (\<forall>v. fst r = Inr v \<longrightarrow> L x = Some (DVal (conv v))))"

lemma landsI:
  assumes "apart c x (w_locals w) L" and "res = (map_sum id (\<lambda>_. ()) (fst r), w\<lparr>w_locals := L, w_in := snd r\<rparr>)"
    and "\<And>v. fst r = Inr v \<Longrightarrow> L x = Some (DVal (conv v))"
  shows "lands c x w res r conv"
  using assms by (auto simp: lands_def)

lemma lands_from:
  assumes "lands c x (w\<lparr>w_locals := L, w_in := s\<rparr>) res r conv" and "apart c x (w_locals w) L"
  shows "lands c x w res r conv"
proof -
  obtain L' where L': "apart c x L L'" "res = (map_sum id (\<lambda>_. ()) (fst r), w\<lparr>w_locals := L', w_in := snd r\<rparr>)"
    "\<And>v. fst r = Inr v \<Longrightarrow> L' x = Some (DVal (conv v))"
    using assms(1) by (auto simp: lands_def)
  show ?thesis by (rule landsI [OF apart_trans [OF assms(2) L'(1)] L'(2,3)])
qed

definition reads :: "nat \<Rightarrow> string \<Rightarrow> ReadContext \<Rightarrow> (world, unit) eff \<Rightarrow> (LogMessage stream, pyval) eff \<Rightarrow> bool" where
  "reads c x ctx blk m \<longleftrightarrow> (\<forall>w. read_scope ctx (w_locals w) \<longrightarrow> lands c x w (blk w) (m (w_in w)) (\<lambda>v. v))"

lemma readsD: "reads c x ctx blk m \<Longrightarrow> read_scope ctx (w_locals w) \<Longrightarrow> lands c x w (blk w) (m (w_in w)) (\<lambda>v. v)"
  by (simp add: reads_def)

text \<open>Reading into \<open>y\<close>, and going on with what was read.\<close>

lemma reads_then:
  assumes "reads c' y ctx f m" and "read_scope ctx (w_locals w)" and "c \<le> c'" and "made c y \<or> y = x"
    and "\<And>L v s. apart c' y (w_locals w) L \<Longrightarrow> L y = Some (DVal v) \<Longrightarrow>
      lands c x (w\<lparr>w_locals := L, w_in := s\<rparr>) (g (w\<lparr>w_locals := L, w_in := s\<rparr>)) (k v s) conv"
  shows "lands c x w (bind f (\<lambda>_. g) w) (bind m k (w_in w)) conv"
proof -
  obtain L where L: "apart c' y (w_locals w) L"
    "f w = (map_sum id (\<lambda>_. ()) (fst (m (w_in w))), w\<lparr>w_locals := L, w_in := snd (m (w_in w))\<rparr>)"
    "\<And>v. fst (m (w_in w)) = Inr v \<Longrightarrow> L y = Some (DVal v)"
    using readsD [OF assms(1,2)] by (auto simp: lands_def)
  have a: "apart c x (w_locals w) L" using apart_inner [OF L(1) assms(3,4)] .
  obtain r s where m: "m (w_in w) = (r, s)" by (cases "m (w_in w)")
  show ?thesis
  proof (cases r)
    case (Inl e)
    then show ?thesis using m L a by (intro landsI [OF a]) (simp_all add: bind_apply)
  next
    case (Inr v)
    then have "L y = Some (DVal v)" using L(3) m by simp
    then have "lands c x w (g (w\<lparr>w_locals := L, w_in := s\<rparr>)) (k v s) conv"
      using lands_from [OF assms(5) [OF L(1)] a] by simp
    then show ?thesis using m Inr L(2) by (simp add: bind_apply)
  qed
qed

lemma reads_value:
  assumes "\<And>w. read_scope ctx (w_locals w) \<Longrightarrow> eval ns e w = on_reader m w"
  shows "reads c x ctx (exec_block ns [AssignS (TName x) e]) m"
  unfolding reads_def
proof (intro allI impI)
  fix w :: world assume q: "read_scope ctx (w_locals w)"
  obtain r s where m: "m (w_in w) = (r, s)" by (cases "m (w_in w)")
  show "lands c x w (exec_block ns [AssignS (TName x) e] w) (m (w_in w)) (\<lambda>v. v)"
  proof (cases r)
    case (Inl err)
    then show ?thesis using assms [OF q] m by (intro landsI [of c x w "w_locals w"]) (simp_all add: bind_apply on_reader_def)
  next
    case (Inr v)
    then show ?thesis
      using assms [OF q] m
      by (intro landsI [of c x w "(w_locals w)(x \<mapsto> DVal v)", OF apart_upd(1)])
        (simp_all add: bind_apply on_reader_def assign_def set_local_def)
  qed
qed

section \<open>Loops that read\<close>

primrec iterate :: "nat \<Rightarrow> ('a \<Rightarrow> ('s, 'a) eff) \<Rightarrow> 'a \<Rightarrow> ('s, 'a) eff" where
  "iterate 0 step acc = ret acc"
| "iterate (Suc n) step acc = bind (step acc) (iterate n step)"

lemma iterate_list:
  "iterate n (\<lambda>acc. bind r (\<lambda>x. ret (acc @ [x]))) acc = bind (read_items n r) (\<lambda>xs. ret (acc @ xs))"
proof (induction n arbitrary: acc)
  case 0
  show ?case by (simp only: iterate.simps read_items.simps bind_ret_left append_Nil2)
next
  case (Suc n)
  show ?case by (simp only: iterate.simps read_items.simps bind_assoc bind_ret_left Suc append_assoc append_Cons append_Nil)
qed

lemma iterate_set: "iterate n (\<lambda>acc. bind r (\<lambda>x. of_result (add_to_set x acc))) = read_set_items n r"
proof (induction n)
  case (Suc n)
  show ?case by (rule ext) (simp only: iterate.simps read_set_items.simps bind_assoc Suc)
qed (rule ext, simp)

lemma iterate_dict:
  "iterate n (\<lambda>d. bind kr (\<lambda>k. bind vr (\<lambda>v. of_result (add_to_dict k v d)))) = read_dict_items n kr vr"
proof (induction n)
  case (Suc n)
  show ?case by (rule ext) (simp only: iterate.simps read_dict_items.simps bind_assoc Suc)
qed (rule ext, simp)

text \<open>A body that takes the container in \<open>x\<close> one step further.\<close>

definition folds ::
    "nat \<Rightarrow> string \<Rightarrow> ReadContext \<Rightarrow> ('a \<Rightarrow> pyval) \<Rightarrow> (world, unit) eff \<Rightarrow> ('a \<Rightarrow> (LogMessage stream, 'a) eff) \<Rightarrow> bool" where
  "folds c x ctx conv blk step \<longleftrightarrow> (\<forall>w acc. read_scope ctx (w_locals w) \<and> w_locals w x = Some (DVal (conv acc)) \<longrightarrow>
     lands c x w (blk w) (step acc (w_in w)) conv)"

lemma folds_loop:
  assumes "folds c x ctx conv blk step" and "free_name x"
    and "read_scope ctx (w_locals w)" and "w_locals w x = Some (DVal (conv acc))"
  shows "lands c x w (for_each (\<lambda>s. bind s (\<lambda>_. blk)) (map (\<lambda>i. set_local ''_'' (d i)) is) w)
    (iterate (length is) step acc (w_in w)) conv"
  using assms(3,4)
proof (induction "is" arbitrary: w acc)
  case Nil
  then show ?case by (intro landsI [of c x w "w_locals w"]) simp_all
next
  case (Cons i "is")
  let ?w = "w\<lparr>w_locals := (w_locals w)(''_'' \<mapsto> d i)\<rparr>"
  have "x \<noteq> ''_''" using assms(2) by (simp add: free_name_def)
  then have w: "read_scope ctx (w_locals ?w)" "w_locals ?w x = Some (DVal (conv acc))"
    using Cons.prems by (auto simp: read_scope_def BUILTINS_def)
  have "lands c x ?w (blk ?w) (step acc (w_in ?w)) conv" using assms(1) w unfolding folds_def by blast
  then obtain L where L: "apart c x (w_locals ?w) L"
    "blk ?w = (map_sum id (\<lambda>_. ()) (fst (step acc (w_in ?w))), ?w\<lparr>w_locals := L, w_in := snd (step acc (w_in ?w))\<rparr>)"
    "\<And>v. fst (step acc (w_in ?w)) = Inr v \<Longrightarrow> L x = Some (DVal (conv v))"
    unfolding lands_def by blast
  have a: "apart c x (w_locals w) L" using apart_trans [OF apart_upd(2) L(1) [simplified]] by simp
  obtain r s where m: "step acc (w_in w) = (r, s)" by (cases "step acc (w_in w)")
  show ?case
  proof (cases r)
    case (Inl e)
    then show ?thesis using m L by (intro landsI [OF a]) (simp_all add: bind_apply set_local_def)
  next
    case (Inr acc')
    let ?v = "w\<lparr>w_locals := L, w_in := s\<rparr>"
    have "read_scope ctx (w_locals ?v)" using read_scope_apart [OF Cons.prems(1) a assms(2)] by simp
    then have "lands c x ?v (for_each (\<lambda>s. bind s (\<lambda>_. blk)) (map (\<lambda>i. set_local ''_'' (d i)) is) ?v)
        (iterate (length is) step acc' (w_in ?v)) conv"
      using Cons.IH [of ?v acc'] L(3) m Inr by simp
    then have "lands c x w (for_each (\<lambda>s. bind s (\<lambda>_. blk)) (map (\<lambda>i. set_local ''_'' (d i)) is) ?v)
        (iterate (length is) step acc' s) conv"
      using lands_from [OF _ a] by simp
    moreover have "bind (set_local ''_'' (d i)) (\<lambda>_. blk) w = (Inr (), ?v)"
      using L(2) m Inr by (simp add: bind_apply set_local_def)
    ultimately show ?thesis
      by (simp only: list.map for_each.simps list.size add_0_right add_Suc_right iterate.simps bind_Inr
          bind_Inr [where m = "step acc", OF m [unfolded Inr]])
  qed
qed

section \<open>The lowered reader\<close>

lemma eval_reader_method:
  assumes "read_scope ctx (w_locals w)" and "args = [] \<or> args = [Name ''str'']"
  shows "eval ns (reader_method m args) w = call_reader (''read_'' @ m) w"
proof -
  have "\<exists>ds. evals ns args w = (Inr ds, w)"
    using assms eval_builtin [of "''str''" w ns] by (auto simp: read_scope_def BUILTINS_def bind_apply)
  then show ?thesis
    using assms(1) by (auto simp: reader_method_def bind_apply lookup_name_def read_scope_def dyn_attr_def invoke_def call_method_def)
qed

lemma call_reader_methods:
  "call_reader (''read_'' @ ''uint64'') = on_reader (bind read_uint64 (\<lambda>i. ret (PInt i)))"
  "call_reader (''read_'' @ ''string'') = on_reader (bind read_string (\<lambda>s. ret (PStr s)))"
  "call_reader (''read_'' @ ''bool'') = on_reader (bind read_bool (\<lambda>b. ret (PBool b)))"
  "call_reader (''read_'' @ ''bytes'') = on_reader (bind read_bytes (\<lambda>b. ret (PBytes b)))"
  by (simp_all add: call_reader_def)

text \<open>A function of the namespace applied to what was read.\<close>

lemma eval_apply:
  assumes "eval ns f = ret g" and "eval ns a w = on_reader m w"
    and "\<And>v w. invoke ns g [DVal v] w = on_reader (k v) w"
  shows "eval ns (Call f [a] []) w = on_reader (bind m k) w"
proof -
  obtain r s where m: "m (w_in w) = (r, s)" by (cases "m (w_in w)")
  then show ?thesis
    using assms by (cases r) (simp_all add: bind_apply on_reader_def split: prod.split sum.split)
qed

lemma on_reader_result: "on_reader (of_result r) w = (map_sum id DVal r, w)"
  by (cases r) (simp_all add: on_reader_def)

lemma of_result_DVal: "of_result (andthen r (\<lambda>v. Inr (DVal v))) w = on_reader (of_result r) w"
  by (cases r) (simp_all add: on_reader_def)

lemma on_reader_raise: "raise e w = on_reader (raise e) w"
  by (simp add: on_reader_def)

lemma eval_nested:
  assumes "read_scope ctx (w_locals w)"
  shows "eval ns (Call (Name ''_nested_context'') [Name ''ctx''] []) w = (Inr (DReadCtx (nested_context ctx)), w)"
proof -
  have "eval ns (Name ''_nested_context'') w = (Inr (DBuiltin ''_nested_context''), w)"
    using assms by (intro eval_builtin) (simp_all add: read_scope_def BUILTINS_def)
  then show ?thesis using assms by (simp add: bind_apply lookup_name_def read_scope_def invoke_def call_builtin_def)
qed

lemma reads_nested:
  assumes "eval ns f = ret g" and "\<And>w. invoke ns g [DReadCtx (nested_context ctx)] w = on_reader m w"
  shows "reads c x ctx (exec_block ns [AssignS (TName x) (Await (Call f [Call (Name ''_nested_context'') [Name ''ctx''] []] []))]) m"
proof (rule reads_value)
  fix w :: world assume "read_scope ctx (w_locals w)"
  then show "eval ns (Await (Call f [Call (Name ''_nested_context'') [Name ''ctx''] []] [])) w = on_reader m w"
    using eval_nested [of ctx w ns] assms by (simp add: bind_apply)
qed

lemma lands_conv:
  assumes "lands c x w res r conv"
  shows "lands c x w res (map_sum id conv (fst r), snd r) (\<lambda>v. v)"
proof -
  obtain L where "apart c x (w_locals w) L" "res = (map_sum id (\<lambda>_. ()) (fst r), w\<lparr>w_locals := L, w_in := snd r\<rparr>)"
    "\<And>v. fst r = Inr v \<Longrightarrow> L x = Some (DVal (conv v))"
    using assms unfolding lands_def by blast
  then show ?thesis by (intro landsI [of c x w L]) (cases "fst r"; simp)+
qed

lemma bind_ret_map: "bind m (\<lambda>v. ret (f v)) s = (map_sum id f (fst (m s)), snd (m s))"
  by (simp add: bind_apply split: prod.split sum.split)

lemma reads_loop:
  assumes "folds c x ctx conv (exec_block ns body) step" and "free_name x"
    and "\<And>w. read_scope ctx (w_locals w) \<Longrightarrow> eval ns init w = (Inr (DVal (conv a0)), w)"
  shows "reads c x ctx
    (exec_block ns [AssignS (TName x) init,
      ForS (TName ''_'') (Call (Name ''range'') [reader_method ''uint64'' []] []) body])
    (bind read_uint64 (\<lambda>n. bind (iterate (nat n) step a0) (\<lambda>v. ret (conv v))))"
  unfolding reads_def
proof (intro allI impI)
  fix w :: world assume q: "read_scope ctx (w_locals w)"
  let ?w = "w\<lparr>w_locals := (w_locals w)(x \<mapsto> DVal (conv a0))\<rparr>"
  let ?for = "ForS (TName ''_'') (Call (Name ''range'') [reader_method ''uint64'' []] []) body"
  have a: "apart c x (w_locals w) (w_locals ?w)" by (simp add: apart_upd)
  have q': "read_scope ctx (w_locals ?w)" by (rule read_scope_apart [OF q a assms(2)])
  have init: "exec ns (AssignS (TName x) init) w = (Inr (), ?w)"
    using assms(3) [OF q] by (simp add: bind_apply assign_def set_local_def)
  have range: "eval ns (Name ''range'') ?w = (Inr (DBuiltin ''range''), ?w)"
    using q' by (intro eval_builtin) (simp_all add: read_scope_def BUILTINS_def)
  obtain r s where m: "read_uint64 (w_in w) = (r, s)" by (cases "read_uint64 (w_in w)")
  have read: "eval ns (reader_method ''uint64'' []) ?w = on_reader (bind read_uint64 (\<lambda>i. ret (PInt i))) ?w"
    using eval_reader_method [OF q', of "[]" ns "''uint64''"] by (simp add: call_reader_methods(1) [simplified])
  show "lands c x w (exec_block ns [AssignS (TName x) init, ?for] w)
      (bind read_uint64 (\<lambda>n. bind (iterate (nat n) step a0) (\<lambda>v. ret (conv v))) (w_in w)) (\<lambda>v. v)"
  proof (cases r)
    case (Inl e)
    have "exec ns ?for ?w = (Inl e, ?w\<lparr>w_in := s\<rparr>)"
      using range read m Inl by (simp add: bind_apply on_reader_def)
    then show ?thesis
      using m Inl init by (intro landsI [OF a]) (simp_all add: bind_apply del: exec.simps)
  next
    case (Inr n)
    let ?v = "?w\<lparr>w_in := s\<rparr>"
    have "exec ns ?for ?w = for_each (\<lambda>s. bind s (\<lambda>_. exec_block ns body)) (map (\<lambda>i. set_local ''_'' (DVal (PInt (int i)))) [0..<nat n]) ?v"
      using range read m Inr by (simp add: bind_apply [of "eval ns _"] bind_apply [of read_uint64] bind_apply [of "bind _ _"]
          bind_apply [of "lookup_name _ _"] bind_apply [of "evals _ _"] on_reader_def invoke_def call_builtin_def turns_def)
    moreover have "lands c x ?v (for_each (\<lambda>s. bind s (\<lambda>_. exec_block ns body))
        (map (\<lambda>i. set_local ''_'' (DVal (PInt (int i)))) [0..<nat n]) ?v) (iterate (length [0..<nat n]) step a0 (w_in ?v)) conv"
      by (rule folds_loop [OF assms(1,2)]) (use q' in simp_all)
    ultimately have "lands c x ?v (exec ns ?for ?w) (iterate (nat n) step a0 s) conv" by simp
    then have "lands c x w (exec ns ?for ?w) (bind (iterate (nat n) step a0) (\<lambda>v. ret (conv v)) s) (\<lambda>v. v)"
      unfolding bind_ret_map by (intro lands_from [OF _ a, of s] lands_conv) simp
    moreover have "exec_block ns [AssignS (TName x) init, ?for] w = exec ns ?for ?w"
      by (simp only: exec_block.simps bind_ret_unit bind_Inr [where m = "exec ns (AssignS (TName x) init)", OF init])
    ultimately show ?thesis by (simp only: bind_Inr [where m = read_uint64, OF m [unfolded Inr]])
  qed
qed

text \<open>The last statement of a loop's body puts what was read into the container.\<close>

lemma exec_grow:
  assumes "m \<in> {''append'', ''add''}" and "w_locals w y = Some (DVal v)"
  shows "exec ns (ExprS (Call (Attribute (Name x) m) [Name y] [])) w = grow_local x m v w"
  using assms by (auto simp: expr_stmt_def bind_apply lookup_name_def)

lemma exec_block_snoc: "exec_block ns (body @ [s]) = bind (exec_block ns body) (\<lambda>_. exec ns s)"
  by (simp only: exec_block_append exec_block.simps bind_ret_unit)

lemma lands_store:
  assumes "res = bind (of_result r) (\<lambda>v. set_local x (DVal (conv v))) w"
  shows "lands c x w res (r, w_in w) conv"
proof (cases r)
  case (Inl e)
  then show ?thesis using assms by (intro landsI [of c x w "w_locals w"]) simp_all
next
  case (Inr v)
  then show ?thesis
    using assms by (intro landsI [of c x w "(w_locals w)(x \<mapsto> DVal (conv v))", OF apart_upd(1)]) (simp_all add: set_local_def)
qed

lemma folds_append:
  assumes "reads (Suc c) y ctx (exec_block ns body) m" and "made c y" and "\<not> made (Suc c) x" "free_name x" "x \<noteq> y"
  shows "folds c x ctx PList (exec_block ns (body @ [ExprS (Call (Attribute (Name x) ''append'') [Name y] [])]))
    (\<lambda>acc. bind m (\<lambda>v. ret (acc @ [v])))"
  unfolding folds_def exec_block_snoc
proof (intro allI impI, elim conjE)
  fix w :: world and acc assume q: "read_scope ctx (w_locals w)" and x: "w_locals w x = Some (DVal (PList acc))"
  show "lands c x w (bind (exec_block ns body) (\<lambda>_. exec ns (ExprS (Call (Attribute (Name x) ''append'') [Name y] []))) w)
      (bind m (\<lambda>v. ret (acc @ [v])) (w_in w)) PList"
  proof (rule reads_then [OF assms(1) q])
    fix L v s assume L: "apart (Suc c) y (w_locals w) L" "L y = Some (DVal v)"
    have "L x = Some (DVal (PList acc))" using apart_keeps [OF L(1) assms(3,4,5)] x by simp
    then show "lands c x (w\<lparr>w_locals := L, w_in := s\<rparr>)
        (exec ns (ExprS (Call (Attribute (Name x) ''append'') [Name y] [])) (w\<lparr>w_locals := L, w_in := s\<rparr>)) (ret (acc @ [v]) s) PList"
      using L(2) exec_grow [of "''append''" "w\<lparr>w_locals := L, w_in := s\<rparr>" y v ns x]
        lands_store [of _ "Inr (acc @ [v])" x PList "w\<lparr>w_locals := L, w_in := s\<rparr>" c]
      by (simp add: grow_local_def del: exec.simps)
  qed (use assms(2) in auto)
qed

lemma folds_add:
  assumes "reads (Suc c) y ctx (exec_block ns body) m" and "made c y" and "\<not> made (Suc c) x" "free_name x" "x \<noteq> y"
  shows "folds c x ctx PSet (exec_block ns (body @ [ExprS (Call (Attribute (Name x) ''add'') [Name y] [])]))
    (\<lambda>acc. bind m (\<lambda>v. of_result (add_to_set v acc)))"
  unfolding folds_def exec_block_snoc
proof (intro allI impI, elim conjE)
  fix w :: world and acc assume q: "read_scope ctx (w_locals w)" and x: "w_locals w x = Some (DVal (PSet acc))"
  show "lands c x w (bind (exec_block ns body) (\<lambda>_. exec ns (ExprS (Call (Attribute (Name x) ''add'') [Name y] []))) w)
      (bind m (\<lambda>v. of_result (add_to_set v acc)) (w_in w)) PSet"
  proof (rule reads_then [OF assms(1) q])
    fix L v s assume L: "apart (Suc c) y (w_locals w) L" "L y = Some (DVal v)"
    let ?w = "w\<lparr>w_locals := L, w_in := s\<rparr>"
    have "L x = Some (DVal (PSet acc))" using apart_keeps [OF L(1) assms(3,4,5)] x by simp
    moreover have "exec ns (ExprS (Call (Attribute (Name x) ''add'') [Name y] [])) ?w = grow_local x ''add'' v ?w"
      using L(2) by (intro exec_grow) simp_all
    ultimately show "lands c x ?w (exec ns (ExprS (Call (Attribute (Name x) ''add'') [Name y] [])) ?w) (of_result (add_to_set v acc) s) PSet"
      using lands_store [of _ "add_to_set v acc" x PSet ?w c] by (simp add: grow_local_def del: exec.simps)
  qed (use assms(2) in auto)
qed

lemma lookup_local: "w_locals w x = Some d \<Longrightarrow> lookup_name ns x w = (Inr d, w)"
  by (simp add: lookup_name_def)

lemma folds_items:
  fixes c defines "k \<equiv> local_name ''key'' c" and "i \<equiv> local_name ''item'' (Suc c)"
  assumes "reads (Suc (Suc c)) k ctx (exec_block ns kbody) km" and "reads c2 i ctx (exec_block ns vbody) vm"
    and c2: "Suc (Suc c) \<le> c2" and x: "\<not> made (Suc (Suc c)) x" "free_name x" "x \<noteq> k" "x \<noteq> i"
  shows "folds c x ctx PDict (exec_block ns (kbody @ vbody @ [AssignS (TItem x k) (Name i)]))
    (\<lambda>d. bind km (\<lambda>a. bind vm (\<lambda>b. of_result (add_to_dict a b d))))"
  unfolding folds_def exec_block_append [of ns kbody] exec_block_snoc
proof (intro allI impI, elim conjE)
  fix w :: world and d assume q: "read_scope ctx (w_locals w)" and d: "w_locals w x = Some (DVal (PDict d))"
  let ?rest = "bind (exec_block ns vbody) (\<lambda>_. exec ns (AssignS (TItem x k) (Name i)))"
  show "lands c x w (bind (exec_block ns kbody) (\<lambda>_. ?rest) w)
      (bind km (\<lambda>a. bind vm (\<lambda>b. of_result (add_to_dict a b d))) (w_in w)) PDict"
  proof (rule reads_then [OF assms(3) q])
    fix L a s assume L: "apart (Suc (Suc c)) k (w_locals w) L" "L k = Some (DVal a)"
    let ?w = "w\<lparr>w_locals := L, w_in := s\<rparr>"
    have q1: "read_scope ctx (w_locals ?w)" using read_scope_apart [OF q L(1)] by (simp add: k_def)
    have d1: "L x = Some (DVal (PDict d))" using apart_keeps [OF L(1) x(1,2,3)] d by simp
    have "lands c x ?w (?rest ?w) (bind vm (\<lambda>b. of_result (add_to_dict a b d)) (w_in ?w)) PDict"
    proof (rule reads_then [OF assms(4) q1])
      fix L' b s' assume L': "apart c2 i (w_locals ?w) L'" "L' i = Some (DVal b)"
      let ?v = "?w\<lparr>w_locals := L', w_in := s'\<rparr>"
      have "L' k = Some (DVal a)" using apart_keeps [OF L'(1), of k] L(2) c2 by (simp add: k_def i_def)
      moreover have "L' x = Some (DVal (PDict d))"
        using apart_keeps [OF L'(1) _ x(2,4)] d1 x(1) made_later [OF c2] by auto
      moreover have "exec ns (AssignS (TItem x k) (Name i)) ?v = assign (TItem x k) (DVal b) ?v"
        unfolding exec.simps eval.simps by (rule bind_Inr, rule lookup_local) (simp add: L'(2))
      ultimately have "exec ns (AssignS (TItem x k) (Name i)) ?v = bind (of_result (add_to_dict a b d)) (\<lambda>v. set_local x (DVal (PDict v))) ?v"
        by (simp add: assign_def set_item_def del: exec.simps)
      then show "lands c x ?v (exec ns (AssignS (TItem x k) (Name i)) ?v) (of_result (add_to_dict a b d) s') PDict"
        using lands_store [of _ "add_to_dict a b d" x PDict ?v c] by (simp del: exec.simps)
    qed (use c2 in \<open>auto simp: i_def\<close>)
    then show "lands c x ?w (?rest ?w) (bind vm (\<lambda>b. of_result (add_to_dict a b d)) s) PDict" by simp
  qed (auto simp: k_def)
qed

lemma reads_or_none:
  assumes "reads c x ctx (exec_block ns body) m"
  shows "reads c x ctx (exec_block ns (body @ [AssignS (TName x) (OrNone (Name x))])) (bind m (\<lambda>v. ret (or_none v)))"
  unfolding reads_def exec_block_snoc
proof (intro allI impI)
  fix w :: world assume q: "read_scope ctx (w_locals w)"
  show "lands c x w (bind (exec_block ns body) (\<lambda>_. exec ns (AssignS (TName x) (OrNone (Name x)))) w)
      (bind m (\<lambda>v. ret (or_none v)) (w_in w)) (\<lambda>v. v)"
  proof (rule reads_then [OF assms q])
    fix L v s assume "L x = Some (DVal v)"
    then show "lands c x (w\<lparr>w_locals := L, w_in := s\<rparr>)
        (exec ns (AssignS (TName x) (OrNone (Name x))) (w\<lparr>w_locals := L, w_in := s\<rparr>)) (ret (or_none v) s) (\<lambda>v. v)"
      using lands_store [of _ "Inr (or_none v)" x "\<lambda>v. v" "w\<lparr>w_locals := L, w_in := s\<rparr>" c]
      by (simp add: bind_apply lookup_name_def assign_def)
  qed simp_all
qed

lemma call_reader_primitive:
  assumes "m \<in> {''string'', ''bool'', ''bytes''}" and "\<not> (m = ''string'' \<and> errors \<noteq> Strict)"
  shows "call_reader (''read_'' @ m) = on_reader (primitive_read m errors)"
proof -
  consider "m = ''string''" "errors = Strict" | "m = ''bool''" | "m = ''bytes''" using assms by blast
  then show ?thesis by cases (simp_all add: call_reader_def primitive_read_def)
qed

lemma reads_primitive:
  assumes "m \<in> {''string'', ''bool'', ''bytes''}" and "\<not> (m = ''string'' \<and> errors \<noteq> Strict)"
  shows "reads c x ctx (exec_block ns [AssignS (TName x) (reader_method m (if m = ''string'' then [Name ''str''] else []))])
    (primitive_read m errors)"
proof (rule reads_value)
  fix w :: world assume "read_scope ctx (w_locals w)"
  then have "eval ns (reader_method m (if m = ''string'' then [Name ''str''] else [])) w = call_reader (''read_'' @ m) w"
    by (intro eval_reader_method) simp_all
  then show "eval ns (reader_method m (if m = ''string'' then [Name ''str''] else [])) w = on_reader (primitive_read m errors) w"
    by (simp only: call_reader_primitive [OF assms])
qed

lemma reads_lossless:
  "reads c x ctx (exec_block ns [AssignS (TName x)
     (Call (Attribute (reader_method ''bytes'' []) ''decode'') [Constant (PStr ''utf-8'')] errors_keyword)])
    (bind read_bytes (\<lambda>b. ret (PStr (decode b))))"
proof (rule reads_value)
  fix w :: world assume q: "read_scope ctx (w_locals w)"
  have "eval ns (reader_method ''bytes'' []) w = on_reader (bind read_bytes (\<lambda>b. ret (PBytes b))) w"
    using eval_reader_method [OF q, of "[]" ns "''bytes''"] by (simp add: call_reader_methods(4) [simplified])
  then show "eval ns (Call (Attribute (reader_method ''bytes'' []) ''decode'') [Constant (PStr ''utf-8'')] errors_keyword) w =
      on_reader (bind read_bytes (\<lambda>b. ret (PStr (decode b)))) w"
    by (simp add: bind_apply on_reader_def dyn_attr_def class_of_def METHODS_def invoke_def call_method_def call_value_def str_decode_def
        split: prod.split sum.split)
qed

lemma eval_read_uint64:
  "read_scope ctx (w_locals w) \<Longrightarrow>
    eval ns (reader_method ''uint64'' []) w = on_reader (bind read_uint64 (\<lambda>i. ret (PInt i))) w"
  using eval_reader_method [of ctx w "[]" ns "''uint64''"] by (simp add: call_reader_methods(1) [simplified])

lemma eval_read_string:
  "read_scope ctx (w_locals w) \<Longrightarrow>
    eval ns (reader_method ''string'' [Name ''str'']) w = on_reader (bind read_string (\<lambda>s. ret (PStr s))) w"
  using eval_reader_method [of ctx w "[Name ''str'']" ns "''string''"] by (simp add: call_reader_methods(2) [simplified])

definition on_int :: "(int \<Rightarrow> error + pyval) \<Rightarrow> pyval \<Rightarrow> (LogMessage stream, pyval) eff" where
  "on_int f v = (case v of PInt i \<Rightarrow> of_result (f i) | _ \<Rightarrow> raise TypeError)"

definition on_str :: "(string \<Rightarrow> error + pyval) \<Rightarrow> pyval \<Rightarrow> (LogMessage stream, pyval) eff" where
  "on_str f v = (case v of PStr s \<Rightarrow> of_result (f s) | _ \<Rightarrow> raise TypeError)"

lemma reads_applied_int:
  assumes "eval ns e = ret g" and "\<And>v w. invoke ns g [DVal v] w = on_reader (on_int f v) w"
  shows "reads c x ctx (exec_block ns [AssignS (TName x) (Call e [reader_method ''uint64'' []] [])])
    (bind read_uint64 (\<lambda>i. of_result (f i)))"
proof (rule reads_value)
  fix w :: world assume "read_scope ctx (w_locals w)"
  then show "eval ns (Call e [reader_method ''uint64'' []] []) w = on_reader (bind read_uint64 (\<lambda>i. of_result (f i))) w"
    using eval_apply [OF assms(1) eval_read_uint64 assms(2)]
    by (simp only: bind_assoc bind_ret_left on_int_def pyval.case)
qed

lemma reads_applied_str:
  assumes "eval ns e = ret g" and "\<And>v w. invoke ns g [DVal v] w = on_reader (on_str f v) w"
  shows "reads c x ctx (exec_block ns [AssignS (TName x) (Call e [reader_method ''string'' [Name ''str'']] [])])
    (bind read_string (\<lambda>i. of_result (f i)))"
proof (rule reads_value)
  fix w :: world assume "read_scope ctx (w_locals w)"
  then show "eval ns (Call e [reader_method ''string'' [Name ''str'']] []) w = on_reader (bind read_string (\<lambda>i. of_result (f i))) w"
    using eval_apply [OF assms(1) eval_read_string assms(2)]
    by (simp only: bind_assoc bind_ret_left on_str_def pyval.case)
qed

text \<open>The statements of a node read what the node says.\<close>

lemma read_value_reads:
  assumes "read_value nm node x em = (Inr stmts, em')" and "covers ''read'' ns em'" and "node_ok node"
    and "\<not> made (em_counter em) x" and "free_name x"
  shows "reads (em_counter em) x ctx (exec_block ns stmts) (node_read nm (we_dir (ns_env ns)) node ctx)"
  using assms
proof (induction node arbitrary: x em em' stmts)
  case (Primitive m errors)
  show ?case
  proof (cases "m = ''string'' \<and> errors \<noteq> Strict")
    case True
    then have "stmts = [AssignS (TName x)
        (Call (Attribute (reader_method ''bytes'' []) ''decode'') [Constant (PStr ''utf-8'')] errors_keyword)]"
      using Primitive.prems(1) by simp
    then show ?thesis using True reads_lossless by (simp only: primitive_read_def node_read.simps if_True if_False simp_thms)
  next
    case False
    then show ?thesis using Primitive.prems(1,3) reads_primitive [OF _ False] by (auto simp del: exec_block.simps)
  qed
next
  case (Integer c)
  show ?case
  proof (cases c)
    case None
    then have stmts: "stmts = [AssignS (TName x) (reader_method ''uint64'' [])]" using Integer.prems(1) by simp
    show ?thesis unfolding stmts None node_read.simps option.case by (rule reads_value, rule eval_read_uint64)
  next
    case (Some cls)
    then obtain e where e: "adapter ''read'' (DUInt64 cls) em = (Inr e, em')"
      and stmts: "stmts = [AssignS (TName x) (Call e [reader_method ''uint64'' []] [])]"
      using Integer.prems(1) by (auto simp: bind_ok_iff)
    have "invoke ns (DUInt64 cls) [DVal v] w = on_reader (on_int (\<lambda>i. Inr (PUInt64 cls i)) v) w" for v w
      by (cases v) (simp_all add: invoke_def on_int_def on_reader_def)
    from reads_applied_int [OF eval_adapter [OF e Integer.prems(2)] this] show ?thesis
      unfolding stmts Some by (simp add: ret_def of_result_def del: exec_block.simps)
  qed
next
  case (EnumNode c members)
  then obtain e where e: "enum_table (DEnum c members) em = (Inr e, em')"
    and stmts: "stmts = [AssignS (TName x) (Call e [reader_method ''uint64'' []] [])]"
    by (auto simp: bind_ok_iff)
  have "invoke ns (DEnum c members) [DVal v] w = on_reader (on_int (enum_new c members) v) w" for v w
    by (cases v) (simp_all add: invoke_def on_int_def on_reader_raise of_result_DVal del: raise_apply of_result_apply)
  from reads_applied_int [OF eval_enum_table [OF e EnumNode.prems(2)] this] show ?case
    unfolding stmts by simp
next
  case (ScalarNode c)
  then obtain e where e: "adapter ''read'' (DFromWire c) em = (Inr e, em')"
    and stmts: "stmts = [AssignS (TName x) (Call e [reader_method ''string'' [Name ''str'']] [])]"
    by (auto simp: bind_ok_iff)
  have "invoke ns (DFromWire c) [DVal v] w = on_reader (on_str (scalar_from_wire (we_dir (ns_env ns)) c) v) w" for v w
    by (cases v) (simp_all add: invoke_def on_str_def on_reader_raise of_result_DVal del: raise_apply of_result_apply)
  from reads_applied_str [OF eval_adapter [OF e ScalarNode.prems(2)] this] show ?case
    unfolding stmts by simp
next
  case (OptionalScalar node)
  then obtain body where body: "read_value nm node x em = (Inr body, em')"
    and stmts: "stmts = body @ [AssignS (TName x) (OrNone (Name x))]"
    by (auto simp: bind_ok_iff)
  show ?case unfolding stmts node_read.simps
    using OptionalScalar.IH [OF body] OptionalScalar.prems by (intro reads_or_none) simp
next
  case (Sequence kind node)
  let ?c = "em_counter em" let ?i = "local_name ''item'' ?c"
  let ?m = "node_read nm (we_dir (ns_env ns)) node ctx"
  from Sequence.prems(1) obtain body where
    body: "read_value nm node ?i (em\<lparr>em_counter := Suc ?c\<rparr>) = (Inr body, em')"
    and stmts: "stmts = [AssignS (TName x) (if kind = ''list'' then ListDisplay else Call (Name ''set'') [] []),
          ForS (TName ''_'') (Call (Name ''range'') [reader_method ''uint64'' []] [])
            (body @ [ExprS (Call (Attribute (Name x) (if kind = ''list'' then ''append'' else ''add'')) [Name ?i] [])])]"
    by (auto simp: bind_ok_iff local_apply)
  have item: "reads (Suc ?c) ?i ctx (exec_block ns body) ?m"
    using Sequence.IH [OF body Sequence.prems(2)] Sequence.prems(3) by simp
  have x: "made ?c ?i" "\<not> made (Suc ?c) x" "x \<noteq> ?i"
    using Sequence.prems(4) made_later [of ?c "Suc ?c" x] by auto
  show ?case
  proof (cases "kind = ''list''")
    case True
    have "reads ?c x ctx (exec_block ns stmts) (bind read_uint64 (\<lambda>n.
        bind (iterate (nat n) (\<lambda>acc. bind ?m (\<lambda>v. ret (acc @ [v]))) []) (\<lambda>v. ret (PList v))))"
      unfolding stmts True if_True simp_thms
      by (rule reads_loop [OF folds_append [OF item x(1,2) Sequence.prems(5) x(3)] Sequence.prems(5)]) simp
    then show ?thesis using True by (simp only: iterate_list read_list_def bind_assoc bind_ret_left append_Nil node_read.simps if_True simp_thms)
  next
    case False
    have empty: "eval ns (Call (Name ''set'') [] []) w = (Inr (DVal (PSet [])), w)" if "read_scope ctx (w_locals w)" for w
      using that eval_builtin [of "''set''" w ns] by (simp add: read_scope_def BUILTINS_def bind_apply invoke_def call_builtin_def)
    have "reads ?c x ctx (exec_block ns stmts) (bind read_uint64 (\<lambda>n.
        bind (iterate (nat n) (\<lambda>acc. bind ?m (\<lambda>v. of_result (add_to_set v acc))) []) (\<lambda>v. ret (PSet v))))"
      unfolding stmts using False
      by (simp only: if_False, intro reads_loop [OF folds_add [OF item x(1,2) Sequence.prems(5) x(3)] Sequence.prems(5) empty])
    then show ?thesis using False by (simp only: iterate_set node_read.simps if_False)
  qed
next
  case (MappingNode kn vn)
  let ?c = "em_counter em" let ?k = "local_name ''key'' ?c" and ?i = "local_name ''item'' (Suc ?c)"
  from MappingNode.prems(1) obtain kbody vbody em1 where
    k: "read_value nm kn ?k (em\<lparr>em_counter := Suc (Suc ?c)\<rparr>) = (Inr kbody, em1)"
    and v: "read_value nm vn ?i em1 = (Inr vbody, em')"
    and stmts: "stmts = [AssignS (TName x) DictDisplay,
          ForS (TName ''_'') (Call (Name ''range'') [reader_method ''uint64'' []] []) (kbody @ vbody @ [AssignS (TItem x ?k) (Name ?i)])]"
    by (auto simp: bind_ok_iff local_apply)
  have c: "Suc (Suc ?c) \<le> em_counter em1" using grown_counter [OF grownD [OF grows_read_value k]] by simp
  have cov: "covers ''read'' ns em1" using covers_grown [OF MappingNode.prems(2) grownD [OF grows_read_value v]] .
  have kr: "reads (Suc (Suc ?c)) ?k ctx (exec_block ns kbody) (node_read nm (we_dir (ns_env ns)) kn ctx)"
    using MappingNode.IH(1) [OF k cov] MappingNode.prems(3) by simp
  have vr: "reads (em_counter em1) ?i ctx (exec_block ns vbody) (node_read nm (we_dir (ns_env ns)) vn ctx)"
    using MappingNode.IH(2) [OF v MappingNode.prems(2)] MappingNode.prems(3) c by simp
  have x: "\<not> made (Suc (Suc ?c)) x" "x \<noteq> ?k" "x \<noteq> ?i"
    using MappingNode.prems(4) made_later [of ?c "Suc (Suc ?c)" x] by auto
  show ?case unfolding stmts node_read.simps iterate_dict [symmetric]
    by (rule reads_loop [OF folds_items [OF kr vr c x(1) MappingNode.prems(5) x(2,3)] MappingNode.prems(5)]) simp
next
  case (ModelNode c)
  show ?case
  proof (cases "nm_can nm c")
    case True
    then obtain cc f where cc: "nm_compile nm c = Inr cc" and f: "codec ''read'' (DCodec cc) em = (Inr f, em')"
      and stmts: "stmts = [AssignS (TName x) (Await (Call (Attribute f ''read'') [Call (Name ''_nested_context'') [Name ''ctx''] []] []))]"
      using ModelNode.prems(1) by (cases "nm_compile nm c") (auto simp: bind_ok_iff)
    have "eval ns (Attribute f ''read'') = ret (DMethod (DCodec cc) ''read'')"
      by (rule ext) (simp add: eval_codec [OF f ModelNode.prems(2)] dyn_attr_def)
    from reads_nested [OF this, of ctx "cc_read cc (nested_context ctx)"] show ?thesis
      unfolding stmts node_read.simps model_read_def using True cc by (simp add: invoke_def call_method_def del: exec_block.simps)
  next
    case False
    then obtain f where f: "adapter ''read'' (DReaderFn (nm_read nm c)) em = (Inr f, em')"
      and stmts: "stmts = [AssignS (TName x) (Await (Call f [Call (Name ''_nested_context'') [Name ''ctx''] []] []))]"
      using ModelNode.prems(1) by (auto simp: bind_ok_iff)
    show ?thesis unfolding stmts node_read.simps model_read_def using False
      by (simp only: if_False, intro reads_nested [OF eval_adapter [OF f ModelNode.prems(2)]]) (simp add: invoke_def)
  qed
qed simp_all

section \<open>Compiled readers\<close>

fun schema_read :: "nested_models \<Rightarrow> string \<Rightarrow> schema_field list \<Rightarrow> ReadContext \<Rightarrow> attrs \<Rightarrow> (LogMessage stream, attrs) eff" where
  "schema_read nm sd [] ctx ob = ret ob"
| "schema_read nm sd (f # fs) ctx ob =
     (if \<not> sf_deserialize f then schema_read nm sd fs ctx ob
      else bind (of_result (depends_holds (sf_predicate f) ob)) (\<lambda>on_wire.
        if \<not> on_wire then schema_read nm sd fs ctx ob
        else bind (node_read nm sd (sf_node f) ctx) (\<lambda>v. schema_read nm sd fs ctx (set_attr (sf_name f) v ob))))"

text \<open>A block that takes the object in the variable \<open>obj\<close> from \<open>ob\<close> to what \<open>m ob\<close> gives.\<close>

definition fills :: "string \<Rightarrow> ReadContext \<Rightarrow> (world, unit) eff \<Rightarrow> (attrs \<Rightarrow> (LogMessage stream, attrs) eff) \<Rightarrow> bool" where
  "fills cn ctx blk m \<longleftrightarrow> (\<forall>w ob. read_scope ctx (w_locals w) \<and> w_locals w ''obj'' = Some (DVal (PObj cn ob)) \<longrightarrow>
     (\<exists>L. read_scope ctx L \<and>
        blk w = (map_sum id (\<lambda>_. ()) (fst (m ob (w_in w))), w\<lparr>w_locals := L, w_in := snd (m ob (w_in w))\<rparr>) \<and>
        (\<forall>ob'. fst (m ob (w_in w)) = Inr ob' \<longrightarrow> L ''obj'' = Some (DVal (PObj cn ob')))))"

lemma fillsE:
  assumes "fills cn ctx blk m" and "read_scope ctx (w_locals w)" and "w_locals w ''obj'' = Some (DVal (PObj cn ob))"
  obtains L where "read_scope ctx L"
    and "blk w = (map_sum id (\<lambda>_. ()) (fst (m ob (w_in w))), w\<lparr>w_locals := L, w_in := snd (m ob (w_in w))\<rparr>)"
    and "\<And>ob'. fst (m ob (w_in w)) = Inr ob' \<Longrightarrow> L ''obj'' = Some (DVal (PObj cn ob'))"
  using assms unfolding fills_def by blast

lemma fillsI:
  assumes "\<And>w ob. read_scope ctx (w_locals w) \<Longrightarrow> w_locals w ''obj'' = Some (DVal (PObj cn ob)) \<Longrightarrow>
     \<exists>L. read_scope ctx L \<and>
        blk w = (map_sum id (\<lambda>_. ()) (fst (m ob (w_in w))), w\<lparr>w_locals := L, w_in := snd (m ob (w_in w))\<rparr>) \<and>
        (\<forall>ob'. fst (m ob (w_in w)) = Inr ob' \<longrightarrow> L ''obj'' = Some (DVal (PObj cn ob')))"
  shows "fills cn ctx blk m"
  unfolding fills_def using assms by blast

lemma fills_bind:
  assumes "fills cn ctx f m" and "fills cn ctx g k"
  shows "fills cn ctx (bind f (\<lambda>_. g)) (\<lambda>ob. bind (m ob) k)"
proof (rule fillsI)
  fix w :: world and ob assume w: "read_scope ctx (w_locals w)" "w_locals w ''obj'' = Some (DVal (PObj cn ob))"
  obtain r s where m: "m ob (w_in w) = (r, s)" by (cases "m ob (w_in w)")
  obtain L where L: "read_scope ctx L" "f w = (map_sum id (\<lambda>_. ()) r, w\<lparr>w_locals := L, w_in := s\<rparr>)"
    "\<And>ob'. r = Inr ob' \<Longrightarrow> L ''obj'' = Some (DVal (PObj cn ob'))"
    using fillsE [OF assms(1) w] m by auto
  let ?w = "w\<lparr>w_locals := L, w_in := s\<rparr>"
  show "\<exists>L. read_scope ctx L \<and> bind f (\<lambda>_. g) w =
      (map_sum id (\<lambda>_. ()) (fst (bind (m ob) k (w_in w))), w\<lparr>w_locals := L, w_in := snd (bind (m ob) k (w_in w))\<rparr>) \<and>
      (\<forall>ob'. fst (bind (m ob) k (w_in w)) = Inr ob' \<longrightarrow> L ''obj'' = Some (DVal (PObj cn ob')))"
  proof (cases r)
    case (Inl e)
    then show ?thesis using L m by (intro exI [of _ L]) (simp add: bind_apply)
  next
    case (Inr ob1)
    obtain L' where "read_scope ctx L'"
      "g ?w = (map_sum id (\<lambda>_. ()) (fst (k ob1 (w_in ?w))), ?w\<lparr>w_locals := L', w_in := snd (k ob1 (w_in ?w))\<rparr>)"
      "\<And>ob'. fst (k ob1 (w_in ?w)) = Inr ob' \<Longrightarrow> L' ''obj'' = Some (DVal (PObj cn ob'))"
      using fillsE [OF assms(2), of ?w ob1] L Inr by auto
    then show ?thesis using L(2) m Inr by (intro exI [of _ L']) (simp add: bind_apply)
  qed
qed

lemma fills_keep: "fills cn ctx (ret ()) ret"
  by (rule fillsI) (auto intro!: exI)

lemma obj_free: "\<not> made c ''obj''" "free_name ''obj''" "''obj'' \<noteq> field_local n"
  by (simp_all add: free_name_def BUILTINS_def field_local_def)

lemma read_scope_obj: "read_scope ctx L \<Longrightarrow> read_scope ctx (L(''obj'' := d))"
  using read_scope_apart [OF _ apart_upd(1)] obj_free(2) by blast

lemma fills_setattr:
  assumes "\<And>w ob. read_scope ctx (w_locals w) \<Longrightarrow> eval ns e w = (Inr (DVal v), w)" and "\<not> startswith n ''__pydantic_''"
  shows "fills cn ctx (exec ns (setattr_stmt n e)) (\<lambda>ob. ret (set_attr n v ob))"
proof (rule fillsI)
  fix w :: world and ob assume w: "read_scope ctx (w_locals w)" "w_locals w ''obj'' = Some (DVal (PObj cn ob))"
  have "exec ns (setattr_stmt n e) w = (Inr (), w\<lparr>w_locals := (w_locals w)(''obj'' \<mapsto> DVal (PObj cn (set_attr n v ob)))\<rparr>)"
    using assms w by (simp add: setattr_stmt_def expr_stmt_def bind_apply set_field_def set_local_def)
  then show "\<exists>L. read_scope ctx L \<and> exec ns (setattr_stmt n e) w =
      (map_sum id (\<lambda>_. ()) (fst (ret (set_attr n v ob) (w_in w))), w\<lparr>w_locals := L, w_in := snd (ret (set_attr n v ob) (w_in w))\<rparr>) \<and>
      (\<forall>ob'. fst (ret (set_attr n v ob) (w_in w)) = Inr ob' \<longrightarrow> L ''obj'' = Some (DVal (PObj cn ob')))"
    using read_scope_obj [OF w(1)] by (intro exI [of _ "(w_locals w)(''obj'' \<mapsto> DVal (PObj cn (set_attr n v ob)))"]) (simp del: exec.simps)
qed

lemma fills_read_field:
  assumes "read_value nm node (field_local n) em = (Inr stmts, em')" and "covers ''read'' ns em'" and "node_ok node"
    and "\<not> startswith n ''__pydantic_''"
  shows "fills cn ctx (exec_block ns (stmts @ store_field n))
    (\<lambda>ob. bind (node_read nm (we_dir (ns_env ns)) node ctx) (\<lambda>v. ret (set_attr n v ob)))"
proof (rule fillsI)
  fix w :: world and ob assume w: "read_scope ctx (w_locals w)" "w_locals w ''obj'' = Some (DVal (PObj cn ob))"
  let ?x = "field_local n" and ?m = "node_read nm (we_dir (ns_env ns)) node ctx"
  obtain r s where m: "?m (w_in w) = (r, s)" by (cases "?m (w_in w)")
  have "lands (em_counter em) ?x w (exec_block ns stmts w) (?m (w_in w)) (\<lambda>v. v)"
    using readsD [OF read_value_reads [OF assms(1-3)] w(1)] by simp
  then obtain L where L: "apart (em_counter em) ?x (w_locals w) L"
    "exec_block ns stmts w = (map_sum id (\<lambda>_. ()) r, w\<lparr>w_locals := L, w_in := s\<rparr>)" "\<And>v. r = Inr v \<Longrightarrow> L ?x = Some (DVal v)"
    unfolding lands_def m fst_conv snd_conv by blast
  have q: "read_scope ctx L" using read_scope_apart [OF w(1) L(1)] by simp
  have obj: "L ''obj'' = Some (DVal (PObj cn ob))" using apart_keeps [OF L(1) obj_free] w(2) by simp
  show "\<exists>L. read_scope ctx L \<and> exec_block ns (stmts @ store_field n) w =
      (map_sum id (\<lambda>_. ()) (fst (bind ?m (\<lambda>v. ret (set_attr n v ob)) (w_in w))),
       w\<lparr>w_locals := L, w_in := snd (bind ?m (\<lambda>v. ret (set_attr n v ob)) (w_in w))\<rparr>) \<and>
      (\<forall>ob'. fst (bind ?m (\<lambda>v. ret (set_attr n v ob)) (w_in w)) = Inr ob' \<longrightarrow> L ''obj'' = Some (DVal (PObj cn ob')))"
  proof (cases r)
    case (Inl e)
    then show ?thesis using m L q by (intro exI [of _ L]) (simp add: exec_block_append bind_apply)
  next
    case (Inr v)
    let ?w = "w\<lparr>w_locals := L, w_in := s\<rparr>" and ?L = "L(''obj'' \<mapsto> DVal (PObj cn (set_attr n v ob)))"
    have "exec_block ns (store_field n) ?w = (Inr (), ?w\<lparr>w_locals := ?L\<rparr>)"
      using L(3) Inr obj assms(4)
      by (simp add: store_field_def setattr_stmt_def expr_stmt_def bind_apply lookup_name_def set_field_def set_local_def)
    then show ?thesis
      using m L(2) Inr read_scope_obj [OF q] by (intro exI [of _ ?L]) (simp add: exec_block_append bind_apply)
  qed
qed

lemma fills_if:
  assumes "\<And>w ob. w_locals w ''obj'' = Some (DVal (PObj cn ob)) \<Longrightarrow>
      eval ns e w = (map_sum id (\<lambda>b. DVal (PBool b)) (eval_pred p ob), w)"
    and "fills cn ctx (exec_block ns body) m"
  shows "fills cn ctx (exec ns (IfS e body []))
    (\<lambda>ob. bind (of_result (eval_pred p ob)) (\<lambda>b. if \<not> b then ret ob else m ob))"
proof (rule fillsI)
  fix w :: world and ob assume w: "read_scope ctx (w_locals w)" "w_locals w ''obj'' = Some (DVal (PObj cn ob))"
  let ?m = "bind (of_result (eval_pred p ob)) (\<lambda>b. if \<not> b then ret ob else m ob)"
  have e: "eval ns e w = (map_sum id (\<lambda>b. DVal (PBool b)) (eval_pred p ob), w)" by (rule assms(1) [OF w(2)])
  show "\<exists>L. read_scope ctx L \<and> exec ns (IfS e body []) w =
      (map_sum id (\<lambda>_. ()) (fst (?m (w_in w))), w\<lparr>w_locals := L, w_in := snd (?m (w_in w))\<rparr>) \<and>
      (\<forall>ob'. fst (?m (w_in w)) = Inr ob' \<longrightarrow> L ''obj'' = Some (DVal (PObj cn ob')))"
  proof (cases "eval_pred p ob = Inr True")
    case True
    then have run: "exec ns (IfS e body []) w = exec_block ns body w" using e by (simp add: bind_apply truthy_def)
    obtain L where "read_scope ctx L"
      "exec_block ns body w = (map_sum id (\<lambda>_. ()) (fst (m ob (w_in w))), w\<lparr>w_locals := L, w_in := snd (m ob (w_in w))\<rparr>)"
      "\<And>ob'. fst (m ob (w_in w)) = Inr ob' \<Longrightarrow> L ''obj'' = Some (DVal (PObj cn ob'))"
      by (rule fillsE [OF assms(2) w]) blast
    then show ?thesis using True run by (intro exI [of _ L]) (simp del: exec.simps)
  next
    case False
    then show ?thesis
      using e w by (cases "eval_pred p ob") (auto simp: bind_apply truthy_def intro!: exI [of _ "w_locals w"])
  qed
qed

lemma grows_read_fields: "grows_eff (read_fields nm i fs)"
  by (induction nm i fs rule: read_fields.induct) (auto intro!: grows_eff_bind grows_read_value split: option.split)

lemma read_fields_fills:
  assumes "read_fields nm i fs em = (Inr stmts, em')" and "covers ''read'' ns em'" and "fields_ok fs"
    and "drop i (ns_tuple ns ''read_predicates'') = predicates_of sf_deserialize fs"
  shows "fills cn ctx (exec_block ns stmts) (schema_read nm (we_dir (ns_env ns)) fs ctx)"
  using assms
proof (induction fs arbitrary: i em stmts)
  case Nil
  then have "stmts = []" by simp
  moreover have "schema_read nm (we_dir (ns_env ns)) [] ctx = ret" by (rule ext) simp
  ultimately show ?case using fills_keep by (simp only: exec_block.simps)
next
  case (Cons f fs)
  let ?sd = "we_dir (ns_env ns)" and ?r = "node_read nm (we_dir (ns_env ns)) (sf_node f) ctx"
  have f: "node_ok (sf_node f)" "\<not> startswith (sf_name f) ''__pydantic_''" and fs: "fields_ok fs"
    using Cons.prems(3) by (simp_all add: fields_ok_def)
  show ?case
  proof (cases "sf_deserialize f")
    case False
    moreover from False have "schema_read nm ?sd (f # fs) ctx = schema_read nm ?sd fs ctx" by (intro ext) simp
    ultimately show ?thesis using Cons.IH [of i em stmts] Cons.prems fs by (simp split: option.splits)
  next
    case True
    then obtain body em1 where body: "read_value nm (sf_node f) (field_local (sf_name f)) em = (Inr body, em1)"
      and rest: "(case sf_predicate f of
          None \<Rightarrow> bind (read_fields nm i fs) (\<lambda>tl. ret (body @ store_field (sf_name f) @ tl))
        | Some _ \<Rightarrow> bind (read_fields nm (i + 1) fs) (\<lambda>tl.
            ret (IfS (Call (Subscript ''read_predicates'' i) [Name ''obj''] []) (body @ store_field (sf_name f)) [] # tl))) em1 = (Inr stmts, em')"
      using Cons.prems(1) by (auto simp: bind_ok_iff)
    have field: "fills cn ctx (exec_block ns (body @ store_field (sf_name f)))
        (\<lambda>ob. bind ?r (\<lambda>v. ret (set_attr (sf_name f) v ob)))" if "grown em1 em'"
      by (rule fills_read_field [OF body covers_grown [OF Cons.prems(2) that] f])
    show ?thesis
    proof (cases "sf_predicate f")
      case None
      then obtain tl where tl: "read_fields nm i fs em1 = (Inr tl, em')" and stmts: "stmts = (body @ store_field (sf_name f)) @ tl"
        using rest by (auto simp: bind_ok_iff)
      have "fills cn ctx (exec_block ns tl) (schema_read nm ?sd fs ctx)"
        using Cons.IH [OF tl Cons.prems(2) fs] Cons.prems(4) None by simp
      then have "fills cn ctx (exec_block ns stmts)
          (\<lambda>ob. bind (bind ?r (\<lambda>v. ret (set_attr (sf_name f) v ob))) (schema_read nm ?sd fs ctx))"
        unfolding stmts exec_block_append [of ns "body @ _"] by (rule fills_bind [OF field [OF grownD [OF grows_read_fields tl]]])
      moreover have "schema_read nm ?sd (f # fs) ctx =
          (\<lambda>ob. bind (bind ?r (\<lambda>v. ret (set_attr (sf_name f) v ob))) (schema_read nm ?sd fs ctx))"
        using True None by (intro ext [where f = "schema_read nm ?sd (f # fs) ctx"]) (simp add: depends_holds_def bind_assoc del: ret_apply)
      ultimately show ?thesis by simp
    next
      case (Some p)
      then obtain tl where tl: "read_fields nm (i + 1) fs em1 = (Inr tl, em')"
        and stmts: "stmts = IfS (Call (Subscript ''read_predicates'' i) [Name ''obj''] []) (body @ store_field (sf_name f)) [] # tl"
        using rest by (auto simp: bind_ok_iff)
      have drop: "drop i (ns_tuple ns ''read_predicates'') = DPred p # predicates_of sf_deserialize fs"
        using Cons.prems(4) Some True by simp
      have tl': "fills cn ctx (exec_block ns tl) (schema_read nm ?sd fs ctx)"
        using Cons.IH [OF tl Cons.prems(2) fs drop_after [OF drop]] .
      have "fills cn ctx (exec ns (IfS (Call (Subscript ''read_predicates'' i) [Name ''obj''] []) (body @ store_field (sf_name f)) []))
          (\<lambda>ob. bind (of_result (eval_pred p ob)) (\<lambda>b. if \<not> b then ret ob else bind ?r (\<lambda>v. ret (set_attr (sf_name f) v ob))))"
        by (rule fills_if [OF eval_predicate [OF drop] field [OF grownD [OF grows_read_fields tl]]])
      then have "fills cn ctx (exec_block ns stmts)
          (\<lambda>ob. bind (bind (of_result (eval_pred p ob))
             (\<lambda>b. if \<not> b then ret ob else bind ?r (\<lambda>v. ret (set_attr (sf_name f) v ob)))) (schema_read nm ?sd fs ctx))"
        unfolding stmts exec_block.simps by (rule fills_bind [OF _ tl'])
      moreover have "schema_read nm ?sd (f # fs) ctx =
          (\<lambda>ob. bind (bind (of_result (eval_pred p ob))
             (\<lambda>b. if \<not> b then ret ob else bind ?r (\<lambda>v. ret (set_attr (sf_name f) v ob)))) (schema_read nm ?sd fs ctx))"
        using True Some by (intro ext [where f = "schema_read nm ?sd (f # fs) ctx"])
          (simp add: depends_holds_def bind_assoc if_distrib [of "\<lambda>m. bind m _"] del: ret_apply cong: if_cong)
      ultimately show ?thesis by simp
    qed
  qed
qed

section \<open>A compiled class\<close>

definition class_ok :: "model_class \<Rightarrow> bool" where
  "class_ok cls \<longleftrightarrow> distinct (map mf_name (mc_fields cls)) \<and>
     list_all (\<lambda>f. \<not> startswith (mf_name f) ''__pydantic_'') (mc_fields cls)"

lemma map_of_defaults:
  assumes "distinct (map mf_name fs)" and "f \<in> set fs"
  shows "mf_default f = Default v \<Longrightarrow> map_of (defaults_dict fs) (mf_name f) = Some (DVal v)"
    and "mf_default f = Factory v \<Longrightarrow> map_of (factories_dict fs) (mf_name f) = Some (DFactory v)"
  using assms
  by (induction fs) (auto simp: defaults_dict_def factories_dict_def split: field_default.split, (metis image_eqI)+)

lemma fills_defaults:
  assumes "class_ok cls" and "set fs \<subseteq> set (mc_fields cls)"
    and "ns_dict ns ''defaults'' = defaults_dict (mc_fields cls)" and "ns_dict ns ''factories'' = factories_dict (mc_fields cls)"
  shows "fills cn ctx (exec_block ns (default_stmts fs)) (\<lambda>ob. ret (set_defaults (defaults_of fs) ob))"
  using assms(2)
proof (induction fs)
  case Nil
  show ?case using fills_keep by (simp add: set_defaults_def [abs_def] eta_contract_eq del: ret_apply)
next
  case (Cons f fs)
  then have IH: "fills cn ctx (exec_block ns (default_stmts fs)) (\<lambda>ob. ret (set_defaults (defaults_of fs) ob))"
    and f: "f \<in> set (mc_fields cls)" by (simp_all del: ret_apply)
  have ok: "distinct (map mf_name (mc_fields cls))" "\<not> startswith (mf_name f) ''__pydantic_''"
    using assms(1) f by (auto simp: class_ok_def list_all_iff)
  have step: ?case if "default_stmts (f # fs) = setattr_stmt (mf_name f) e # default_stmts fs"
    "defaults_of (f # fs) = (mf_name f, v) # defaults_of fs" "\<And>w. eval ns e w = (Inr (DVal v), w)" for e v
  proof -
    have "fills cn ctx (exec ns (setattr_stmt (mf_name f) e)) (\<lambda>ob. ret (set_attr (mf_name f) v ob))"
      using that(3) ok(2) by (intro fills_setattr)
    from fills_bind [OF this IH] show ?thesis
      unfolding that(1,2) exec_block.simps by (simp add: set_defaults_def del: ret_apply)
  qed
  show ?case
  proof (cases "mf_default f")
    case NoDefault
    then show ?thesis using IH by (simp del: ret_apply)
  next
    case (Default v)
    then show ?thesis
      using map_of_defaults(1) [OF ok(1) f] assms(3) by (intro step [of "SubscriptKey ''defaults'' (mf_name f)" v]) simp_all
  next
    case (Factory v)
    then show ?thesis
      using map_of_defaults(2) [OF ok(1) f] assms(4)
      by (intro step [of "Call (SubscriptKey ''factories'' (mf_name f)) [] []" v]) (simp_all add: bind_apply invoke_def)
  qed
qed

lemma fills_bookkeeping: "fills cn ctx (exec_block ns bookkeeping_stmts) ret"
proof (rule fillsI)
  fix w :: world and ob assume w: "read_scope ctx (w_locals w)" "w_locals w ''obj'' = Some (DVal (PObj cn ob))"
  have "eval ns (Call (Name ''set'') [] []) w = (Inr (DVal (PSet [])), w)"
    using w(1) eval_builtin [of "''set''" w ns] by (simp add: read_scope_def BUILTINS_def bind_apply invoke_def call_builtin_def)
  then have "exec_block ns bookkeeping_stmts w = (Inr (), w)"
    using w(2) by (simp add: bookkeeping_stmts_def setattr_stmt_def expr_stmt_def bind_apply set_field_def startswith_def)
  then show "\<exists>L. read_scope ctx L \<and> exec_block ns bookkeeping_stmts w =
      (map_sum id (\<lambda>_. ()) (fst (ret ob (w_in w))), w\<lparr>w_locals := L, w_in := snd (ret ob (w_in w))\<rparr>) \<and>
      (\<forall>ob'. fst (ret ob (w_in w)) = Inr ob' \<longrightarrow> L ''obj'' = Some (DVal (PObj cn ob')))"
    using w by (intro exI [of _ "w_locals w"]) simp
qed

lemma run_read_function:
  assumes "fills (mc_name cls) ctx (exec_block ns body) m" and "class_ok cls" and "ns_model ns = cls"
    and "ns_dict ns ''defaults'' = defaults_dict (mc_fields cls)" and "ns_dict ns ''factories'' = factories_dict (mc_fields cls)"
  shows "run_read ns (read_function cls body) ctx =
    bind (m (set_defaults (defaults_of (mc_fields cls)) (new_object cls))) (\<lambda>ob. ret (PObj (mc_name cls) ob))"
proof (rule ext)
  fix s
  let ?start = "\<lparr>w_locals = [''ctx'' \<mapsto> DReadCtx ctx], w_buf = [], w_in = s\<rparr>"
  let ?ob = "new_object cls" let ?ob1 = "set_defaults (defaults_of (mc_fields cls)) ?ob"
  let ?w = "?start\<lparr>w_locals := [''ctx'' \<mapsto> DReadCtx ctx, ''obj'' \<mapsto> DVal (PObj (mc_name cls) ?ob)]\<rparr>"
  let ?new = "AssignS (TName ''obj'') (Call (Attribute (Name ''model'') ''__new__'') [Name ''model''] [])"
  let ?mid = "default_stmts (mc_fields cls) @ bookkeeping_stmts @ body"
  have new: "exec ns ?new ?start = (Inr (), ?w)"
    using assms(3) by (simp add: bind_apply lookup_name_def dyn_attr_def invoke_def call_method_def assign_def set_local_def)
  have q: "read_scope ctx (w_locals ?w)" by (simp add: read_scope_def BUILTINS_def)
  have defaults: "fills (mc_name cls) ctx (exec_block ns (default_stmts (mc_fields cls)))
      (\<lambda>ob. ret (set_defaults (defaults_of (mc_fields cls)) ob))"
    by (rule fills_defaults [OF assms(2) _ assms(4,5)]) simp
  have fills: "fills (mc_name cls) ctx (exec_block ns ?mid)
      (\<lambda>ob. bind (ret (set_defaults (defaults_of (mc_fields cls)) ob)) (\<lambda>ob. bind (ret ob) m))"
    unfolding exec_block_append by (rule fills_bind [OF defaults fills_bind [OF fills_bookkeeping assms(1)]])
  obtain r s' where m: "m ?ob1 s = (r, s')" by (cases "m ?ob1 s")
  obtain L where L: "exec_block ns ?mid ?w = (map_sum id (\<lambda>_. ()) r, ?w\<lparr>w_locals := L, w_in := s'\<rparr>)"
      "\<And>ob'. r = Inr ob' \<Longrightarrow> L ''obj'' = Some (DVal (PObj (mc_name cls) ob'))"
    using fillsE [OF fills q, of ?ob] m by (auto simp: bind_apply)
  have split: "read_function cls body = ?new # (?mid @ [ReturnS (Name ''obj'')])" by (simp add: read_function_def)
  have run: "exec_block ns (read_function cls body) ?start =
      bind (exec_block ns ?mid) (\<lambda>_. exec ns (ReturnS (Name ''obj''))) ?w"
    unfolding split exec_block.simps exec_block_snoc by (rule bind_Inr [where m = "exec ns ?new" and s = ?start, OF new])
  show "run_read ns (read_function cls body) ctx s = bind (m ?ob1) (\<lambda>ob. ret (PObj (mc_name cls) ob)) s"
  proof (cases r)
    case (Inl e)
    then show ?thesis using L(1) m by (simp add: run_read_def run bind_apply)
  next
    case (Inr ob')
    then show ?thesis using L m by (simp add: run_read_def run bind_apply lookup_name_def set_local_def)
  qed
qed

lemma run_write_function:
  assumes "writes k (object_scope c ob) (exec_block ns body) m" and "ns_env ns = env" and "ns_version ns = version"
  shows "run_write ns (write_function cls body) (PObj c ob) =
    bind (if is_request cls then prelude_of env version (PObj c ob) else ret ()) (\<lambda>_. m)"
proof -
  let ?p = "ExprS (Await (Call (Name ''request_prelude'') [Name ''value'', Name ''ctx''] []))"
  have q: "object_scope c ob [''value'' \<mapsto> DVal (PObj c ob), ''ctx'' \<mapsto> DWriteCtx]"
    by (simp add: object_scope_def write_scope_def BUILTINS_def)
  have prelude: "writes k (object_scope c ob) (exec ns ?p) (prelude_of env version (PObj c ob))"
  proof (rule writes_at_once)
    fix w :: world assume w: "object_scope c ob (w_locals w)"
    then have "eval ns (Name ''request_prelude'') w = (Inr (DBuiltin ''request_prelude''), w)"
      by (intro eval_builtin) (simp_all add: object_scope_def write_scope_def BUILTINS_def)
    then have "exec ns ?p w = bind (on_writer (prelude_of env version (PObj c ob))) (\<lambda>_. ret ()) w"
      using w assms(2,3)
      by (simp add: expr_stmt_def bind_apply lookup_local object_scope_def write_scope_def invoke_def call_builtin_def)
    then show "exec ns ?p w = (fst (prelude_of env version (PObj c ob) (w_buf w)), w\<lparr>w_buf := snd (prelude_of env version (PObj c ob) (w_buf w))\<rparr>)"
      by (simp only: on_writer_done)
  qed
  have "writes k (object_scope c ob) (exec_block ns (write_function cls body))
      (bind (if is_request cls then prelude_of env version (PObj c ob) else ret ()) (\<lambda>_. m))"
    unfolding write_function_def
    using writes_Cons [OF stable_object_scope prelude assms(1)] assms(1) by (cases "is_request cls") (simp_all del: exec_block.simps)
  then show ?thesis
  proof (intro ext)
    fix buf
    let ?m = "bind (if is_request cls then prelude_of env version (PObj c ob) else ret ()) (\<lambda>_. m)"
    let ?w = "\<lparr>w_locals = [''value'' \<mapsto> DVal (PObj c ob), ''ctx'' \<mapsto> DWriteCtx], w_buf = buf, w_in = no_input\<rparr>"
    assume "writes k (object_scope c ob) (exec_block ns (write_function cls body)) ?m"
    then obtain L where "exec_block ns (write_function cls body) ?w = (fst (?m buf), ?w\<lparr>w_locals := L, w_buf := snd (?m buf)\<rparr>)"
      using q by (auto elim: writesE [where w = ?w])
    then show "run_write ns (write_function cls body) (PObj c ob) buf = ?m buf" by (simp add: run_write_def)
  qed
qed

text \<open>What a compiled class writes and reads.\<close>

lemma compile_with_correct:
  assumes "compile_with nm env cls version features = Inr cc" and "class_ok cls"
    and "wire_schema cls version features = Inr schema" and "fields_ok schema"
  shows "cc_write cc (PObj c ob) = bind (if is_request cls then prelude_of env version (PObj c ob) else ret ())
      (\<lambda>_. schema_write nm (we_dir env) schema ob)"
    and "cc_read cc ctx = bind (schema_read nm (we_dir env) schema ctx (set_defaults (defaults_of (mc_fields cls)) (new_object cls)))
      (\<lambda>ob. ret (PObj (mc_name cls) ob))"
proof -
  obtain wbody wem rbody rem where w: "write_fields nm 0 schema new_emitter = (Inr wbody, wem)"
    and r: "read_fields nm 0 schema new_emitter = (Inr rbody, rem)"
    and cc: "cc_write cc = run_write (make_namespace env cls version schema wem rem) (write_function cls wbody)"
      "cc_read cc = run_read (make_namespace env cls version schema wem rem) (read_function cls rbody)"
    using assms(1,3) by (auto simp: compile_with_def Let_def split: if_splits prod.splits sum.splits)
  let ?ns = "make_namespace env cls version schema wem rem"
  have cov: "covers ''write'' ?ns wem" "covers ''read'' ?ns rem" by (simp_all add: covers_def make_namespace_def)
  have ns: "ns_env ?ns = env" "ns_version ?ns = version" "ns_model ?ns = cls"
    "ns_dict ?ns ''defaults'' = defaults_dict (mc_fields cls)" "ns_dict ?ns ''factories'' = factories_dict (mc_fields cls)"
    "drop 0 (ns_tuple ?ns ''write_predicates'') = predicates_of sf_serialize schema"
    "drop 0 (ns_tuple ?ns ''read_predicates'') = predicates_of sf_deserialize schema"
    by (simp_all add: make_namespace_def)
  have "writes (em_counter new_emitter) (object_scope c ob) (exec_block ?ns wbody) (schema_write nm (we_dir env) schema ob)"
    using write_fields_writes [OF w cov(1) assms(4) ns(6)] by (simp add: ns)
  then show "cc_write cc (PObj c ob) = bind (if is_request cls then prelude_of env version (PObj c ob) else ret ())
      (\<lambda>_. schema_write nm (we_dir env) schema ob)"
    unfolding cc by (rule run_write_function [OF _ ns(1,2)])
  have "fills (mc_name cls) ctx (exec_block ?ns rbody) (schema_read nm (we_dir env) schema ctx)"
    using read_fields_fills [OF r cov(2) assms(4) ns(7)] by (simp add: ns)
  then show "cc_read cc ctx = bind (schema_read nm (we_dir env) schema ctx (set_defaults (defaults_of (mc_fields cls)) (new_object cls)))
      (\<lambda>ob. ret (PObj (mc_name cls) ob))"
    unfolding cc by (rule run_read_function [OF _ assms(2) ns(3-5)])
qed

section \<open>Nodes and annotations agree\<close>

fun models_in :: "ann \<Rightarrow> string list" where
  "models_in (AModel c) = [c]"
| "models_in (AOptional a) = models_in a"
| "models_in (AList a) = models_in a"
| "models_in (ASet a) = models_in a"
| "models_in (ADict a b) = models_in a @ models_in b"
| "models_in _ = []"

text \<open>The annotations that both the compiler and the plan know.\<close>

fun ann_ok :: "ann \<Rightarrow> bool" where
  "ann_ok (AOptional a) = ann_ok a"
| "ann_ok (AList a) = ann_ok a"
| "ann_ok (ASet a) = ann_ok a"
| "ann_ok (ADict a b) = (ann_ok a \<and> ann_ok b)"
| "ann_ok AUnion = False"
| "ann_ok AOther = False"
| "ann_ok (AWireString c names) = False"
| "ann_ok _ = True"

text \<open>
  The value has instances of exactly the declared classes where the annotation has models; \<open>tm c\<close> says
  which values are such instances.
\<close>

fun typed_ann :: "(string \<Rightarrow> pyval \<Rightarrow> bool) \<Rightarrow> ann \<Rightarrow> pyval \<Rightarrow> bool" where
  "typed_ann tm (AModel c) v = tm c v"
| "typed_ann tm (AOptional a) v = typed_ann tm a v"
| "typed_ann tm (AList a) v = (case py_iter v of Inr xs \<Rightarrow> list_all (typed_ann tm a) xs | Inl _ \<Rightarrow> True)"
| "typed_ann tm (ASet a) v = (case py_iter v of Inr xs \<Rightarrow> list_all (typed_ann tm a) xs | Inl _ \<Rightarrow> True)"
| "typed_ann tm (ADict a b) v = (case py_items v of
     Inr kvs \<Rightarrow> list_all (\<lambda>(k, x). typed_ann tm a k \<and> typed_ann tm b x) kvs | Inl _ \<Rightarrow> True)"
| "typed_ann tm _ v = True"

fun node_models :: "node \<Rightarrow> string list" where
  "node_models (ModelNode c) = [c]"
| "node_models (OptionalScalar n) = node_models n"
| "node_models (Sequence kind n) = node_models n"
| "node_models (MappingNode k v) = node_models k @ node_models v"
| "node_models _ = []"

lemma wire_node_ok:
  assumes "ann_ok a"
  shows "\<exists>node. wire_node Strict a = Inr node \<and> node_ok node \<and> node_models node = models_in a"
  using assms
proof (induction a)
  case (AOptional a)
  then obtain node where "wire_node Strict a = Inr node" "node_ok node" "node_models node = models_in a" by auto
  then show ?case by simp
qed auto

lemma write_items_cong: "(\<And>x. x \<in> set xs \<Longrightarrow> f x = g x) \<Longrightarrow> write_items f xs = write_items g xs"
  by (induction xs) simp_all

lemma node_write_find:
  assumes "ann_ok a" and "wire_node Strict a = Inr node"
    and "\<And>c v. c \<in> set (models_in a) \<Longrightarrow> tm c v \<Longrightarrow> model_write nm c v = wr v"
  shows "\<exists>w. find_writer sd wr a = Inr w \<and> (\<forall>v. typed_ann tm a v \<longrightarrow> node_write nm sd node v = w v)"
  using assms
proof (induction a arbitrary: node)
  case (AOptional a)
  then obtain n w where n: "wire_node Strict a = Inr n" and w: "find_writer sd wr a = Inr w"
    "\<forall>v. typed_ann tm a v \<longrightarrow> node_write nm sd n v = w v"
    by (auto simp: andthen_ok_iff)
  then show ?case using AOptional.prems(2) by auto
next
  case (AList a)
  then obtain n w where n: "wire_node Strict a = Inr n" "node = Sequence ''list'' n" and w: "find_writer sd wr a = Inr w"
    "\<forall>v. typed_ann tm a v \<longrightarrow> node_write nm sd n v = w v"
    by (auto simp: andthen_ok_iff)
  have "write_items (node_write nm sd n) xs = write_items w xs" if "list_all (typed_ann tm a) xs" for xs
    using that w(2) by (intro write_items_cong) (simp add: list_all_iff)
  then show ?case using n w(1) by (auto split: sum.split)
next
  case (ASet a)
  then obtain n w where n: "wire_node Strict a = Inr n" "node = Sequence ''set'' n" and w: "find_writer sd wr a = Inr w"
    "\<forall>v. typed_ann tm a v \<longrightarrow> node_write nm sd n v = w v"
    by (auto simp: andthen_ok_iff)
  have "write_items (node_write nm sd n) xs = write_items w xs" if "list_all (typed_ann tm a) xs" for xs
    using that w(2) by (intro write_items_cong) (simp add: list_all_iff)
  then show ?case using n w(1) by (auto split: sum.split)
next
  case (ADict a b)
  then obtain kn vn kw vw where n: "node = MappingNode kn vn"
    and w: "find_writer sd wr a = Inr kw" "\<forall>v. typed_ann tm a v \<longrightarrow> node_write nm sd kn v = kw v"
      "find_writer sd wr b = Inr vw" "\<forall>v. typed_ann tm b v \<longrightarrow> node_write nm sd vn v = vw v"
    by (auto simp: andthen_ok_iff)
  have "write_items (\<lambda>(x, y). bind (node_write nm sd kn x) (\<lambda>_. node_write nm sd vn y)) kvs =
      write_items (\<lambda>(x, y). bind (kw x) (\<lambda>_. vw y)) kvs"
    if "list_all (\<lambda>(k, x). typed_ann tm a k \<and> typed_ann tm b x) kvs" for kvs
    using that w(2,4) by (intro write_items_cong) (auto simp: list_all_iff)
  then show ?case using n w(1,3) by (auto split: sum.split)
qed (auto simp: primitive_write_def)

lemma node_read_find:
  assumes "ann_ok a" and "wire_node Strict a = Inr node"
    and "\<And>c ctx. c \<in> set (models_in a) \<Longrightarrow> model_read nm c ctx = rd c ctx"
  shows "find_reader sd rd a = Inr (node_read nm sd node)"
  using assms
proof (induction a arbitrary: node)
  case (AOptional a)
  then obtain n where n: "wire_node Strict a = Inr n" "find_reader sd rd a = Inr (node_read nm sd n)" by (auto simp: andthen_ok_iff)
  then show ?case using AOptional.prems(2) by (auto simp del: ret_apply)
next
  case (AList a)
  then obtain n where n: "node = Sequence ''list'' n" "find_reader sd rd a = Inr (node_read nm sd n)" by (auto simp: andthen_ok_iff)
  then show ?case by (simp add: fun_eq_iff)
next
  case (ASet a)
  then obtain n where n: "node = Sequence ''set'' n" "find_reader sd rd a = Inr (node_read nm sd n)" by (auto simp: andthen_ok_iff)
  then show ?case by (simp add: fun_eq_iff)
next
  case (ADict a b)
  then obtain kn vn where n: "node = MappingNode kn vn" "find_reader sd rd a = Inr (node_read nm sd kn)"
    "find_reader sd rd b = Inr (node_read nm sd vn)" by (auto simp: andthen_ok_iff)
  then show ?case by (simp add: fun_eq_iff)
qed (auto simp: primitive_read_def fun_eq_iff)

section \<open>The codec in use is the plan\<close>

definition emits :: "(emitter, 'a) eff \<Rightarrow> bool" where
  "emits m \<longleftrightarrow> (\<forall>em. \<exists>x em'. m em = (Inr x, em'))"

lemma emits_ret [simp]: "emits (ret x)" "emits (Pair (Inr x))" "emits (of_result (Inr x))"
  by (simp_all add: emits_def)

lemma emits_bind: "emits m \<Longrightarrow> (\<And>x. emits (f x)) \<Longrightarrow> emits (bind m f)"
  unfolding emits_def by (metis bind_Inr)

lemma emits_make [simp]: "emits (local stem)" "emits (adapter d x)" "emits (codec d x)" "emits (enum_table x)"
  by (simp_all add: emits_def local_def adapter_def codec_def enum_table_def)

definition compiles :: "nested_models \<Rightarrow> string list \<Rightarrow> bool" where
  "compiles nm cs \<longleftrightarrow> list_all (\<lambda>c. nm_can nm c \<longrightarrow> (\<exists>cc. nm_compile nm c = Inr cc)) cs"

lemma write_value_emits: "node_ok node \<Longrightarrow> compiles nm (node_models node) \<Longrightarrow> emits (write_value nm node e)"
proof (induction node arbitrary: e)
  case (ModelNode c)
  then show ?case by (cases "nm_can nm c") (auto simp: compiles_def intro!: emits_bind)
qed (auto simp: compiles_def intro!: emits_bind)

lemma read_value_emits: "node_ok node \<Longrightarrow> compiles nm (node_models node) \<Longrightarrow> emits (read_value nm node x)"
proof (induction node arbitrary: x)
  case (ModelNode c)
  then show ?case by (cases "nm_can nm c") (auto simp: compiles_def intro!: emits_bind)
next
  case (Integer c)
  then show ?case by (cases c) (auto intro!: emits_bind)
qed (auto simp: compiles_def intro!: emits_bind)

definition schema_compiles :: "nested_models \<Rightarrow> schema_field list \<Rightarrow> bool" where
  "schema_compiles nm fs \<longleftrightarrow> list_all (\<lambda>f. compiles nm (node_models (sf_node f))) fs"

lemma fields_emit:
  assumes "fields_ok fs" and "schema_compiles nm fs"
  shows "emits (write_fields nm i fs)" and "emits (read_fields nm j fs)"
proof -
  show "emits (write_fields nm i fs)" using assms
  proof (induction fs arbitrary: i)
    case (Cons f fs)
    then show ?case
      by (cases "sf_predicate f")
        (auto simp: fields_ok_def schema_compiles_def intro!: emits_bind write_value_emits)
  qed simp
  show "emits (read_fields nm j fs)" using assms
  proof (induction fs arbitrary: j)
    case (Cons f fs)
    then show ?case
      by (cases "sf_predicate f")
        (auto simp: fields_ok_def schema_compiles_def intro!: emits_bind read_value_emits)
  qed simp
qed

lemma compile_with_succeeds:
  assumes "can_compile cls" and "wire_schema cls version features = Inr schema" and "fields_ok schema" and "schema_compiles nm schema"
  shows "\<exists>cc. compile_with nm env cls version features = Inr cc"
proof -
  obtain wbody wem where w: "write_fields nm 0 schema new_emitter = (Inr wbody, wem)"
    using fields_emit(1) [OF assms(3,4), of 0] unfolding emits_def by blast
  obtain rbody rem where r: "read_fields nm 0 schema new_emitter = (Inr rbody, rem)"
    using fields_emit(2) [OF assms(3,4), of 0] unfolding emits_def by blast
  show ?thesis using assms(1,2) w r by (simp add: compile_with_def Let_def)
qed

text \<open>The fields that both sides treat alike: the lossless handler on plain text only.\<close>

definition wire_field_ok :: "wire_field \<Rightarrow> bool" where
  "wire_field_ok f \<longleftrightarrow> ann_ok (wf_ann f) \<and> (wf_errors f = Surrogateescape \<longrightarrow> wf_ann f = AStr) \<and>
     \<not> startswith (wf_name f) ''__pydantic_''"

lemma field_node:
  assumes "wire_field_ok f"
  obtains node where "wire_node (wf_errors f) (wf_ann f) = Inr node" "node_ok node" "node_models node = models_in (wf_ann f)"
proof (cases "wf_errors f")
  case Strict
  then show ?thesis using wire_node_ok [of "wf_ann f"] assms that by (auto simp: wire_field_ok_def)
next
  case Surrogateescape
  then show ?thesis using assms that by (auto simp: wire_field_ok_def)
qed

lemma field_codec_node:
  assumes "wire_field_ok f" and "wire_node (wf_errors f) (wf_ann f) = Inr node"
    and "\<And>c v. c \<in> set (models_in (wf_ann f)) \<Longrightarrow> tm c v \<Longrightarrow> model_write nm c v = wr v"
    and "\<And>c ctx. c \<in> set (models_in (wf_ann f)) \<Longrightarrow> model_read nm c ctx = rd c ctx"
  shows "\<exists>w. field_codec sd rd wr f = Inr (node_read nm sd node, w) \<and>
    (\<forall>v. typed_ann tm (wf_ann f) v \<longrightarrow> node_write nm sd node v = w v)"
proof (cases "wf_errors f")
  case Strict
  then have a: "ann_ok (wf_ann f)" "wire_node Strict (wf_ann f) = Inr node" using assms(1,2) by (simp_all add: wire_field_ok_def)
  have r: "find_reader sd rd (wf_ann f) = Inr (node_read nm sd node)" by (rule node_read_find [OF a assms(4)])
  obtain w where "find_writer sd wr (wf_ann f) = Inr w" "\<forall>v. typed_ann tm (wf_ann f) v \<longrightarrow> node_write nm sd node v = w v"
    using node_write_find [OF a assms(3)] by blast
  then show ?thesis using r Strict by (simp add: field_codec_def)
next
  case Surrogateescape
  then show ?thesis
    using assms(1,2)
    by (auto simp: wire_field_ok_def field_codec_def lossless_shape_def primitive_write_def primitive_read_def lossless_reader_def fun_eq_iff)
qed

text \<open>Where a field is written, the models in its value are instances of the declared classes.\<close>

definition typed_field :: "(string \<Rightarrow> pyval \<Rightarrow> bool) \<Rightarrow> attrs \<Rightarrow> wire_field \<Rightarrow> bool" where
  "typed_field tm ob f \<longleftrightarrow> wf_serialize f \<and> depends_holds (wf_depends f) ob = Inr True \<longrightarrow>
     (case get_attr (wf_name f) ob of Inr x \<Rightarrow> typed_ann tm (wf_ann f) x | Inl _ \<Rightarrow> True)"

definition typed_fields :: "(string \<Rightarrow> pyval \<Rightarrow> bool) \<Rightarrow> wire_field list \<Rightarrow> attrs \<Rightarrow> bool" where
  "typed_fields tm fs ob = list_all (typed_field tm ob) fs"

lemma plan_is_schema:
  assumes "list_all wire_field_ok fs"
    and "\<And>f c v. f \<in> set fs \<Longrightarrow> c \<in> set (models_in (wf_ann f)) \<Longrightarrow> tm c v \<Longrightarrow> model_write nm c v = wr v"
    and "\<And>f c ctx. f \<in> set fs \<Longrightarrow> c \<in> set (models_in (wf_ann f)) \<Longrightarrow> model_read nm c ctx = rd c ctx"
  shows "\<exists>schema rs ws. schema_fields fs = Inr schema \<and> plan_steps sd rd wr fs = Inr (rs, ws) \<and> fields_ok schema \<and>
    set (concat (map (\<lambda>f. node_models (sf_node f)) schema)) = set (concat (map (\<lambda>f. models_in (wf_ann f)) fs)) \<and>
    (\<forall>ob. typed_fields tm fs ob \<longrightarrow> schema_write nm sd schema ob = run_write_steps ws ob) \<and>
    (\<forall>ctx ob. schema_read nm sd schema ctx ob = run_read_steps rs ctx ob)"
  using assms
proof (induction fs)
  case Nil
  show ?case by (simp add: fields_ok_def)
next
  case (Cons f fs)
  have fs: "list_all wire_field_ok fs" using Cons.prems(1) by simp
  have nested: "g \<in> set fs \<Longrightarrow> c \<in> set (models_in (wf_ann g)) \<Longrightarrow> tm c v \<Longrightarrow> model_write nm c v = wr v"
    "g \<in> set fs \<Longrightarrow> c \<in> set (models_in (wf_ann g)) \<Longrightarrow> model_read nm c ctx = rd c ctx" for g c v ctx
    using Cons.prems(2,3) [of g] by simp_all
  obtain schema rs ws where IH: "schema_fields fs = Inr schema" "plan_steps sd rd wr fs = Inr (rs, ws)" "fields_ok schema"
    "set (concat (map (\<lambda>f. node_models (sf_node f)) schema)) = set (concat (map (\<lambda>f. models_in (wf_ann f)) fs))"
    "\<forall>ob. typed_fields tm fs ob \<longrightarrow> schema_write nm sd schema ob = run_write_steps ws ob"
    "\<forall>ctx ob. schema_read nm sd schema ctx ob = run_read_steps rs ctx ob"
    by (atomize_elim, rule Cons.IH [OF fs]) (rule nested; assumption)+
  have f: "wire_field_ok f" using Cons.prems(1) by simp
  obtain node where node: "wire_node (wf_errors f) (wf_ann f) = Inr node" "node_ok node" "node_models node = models_in (wf_ann f)"
    by (rule field_node [OF f])
  obtain w where w: "field_codec sd rd wr f = Inr (node_read nm sd node, w)"
    "\<forall>v. typed_ann tm (wf_ann f) v \<longrightarrow> node_write nm sd node v = w v"
    by (atomize_elim, rule field_codec_node [OF f node(1)]) (rule Cons.prems(2,3) [of f]; simp)+
  let ?s = "\<lparr>sf_name = wf_name f, sf_node = node, sf_predicate = wf_depends f, sf_serialize = wf_serialize f,
             sf_deserialize = wf_deserialize f\<rparr>"
  let ?r = "\<lparr>rs_name = wf_name f, rs_reader = node_read nm sd node, rs_depends = wf_depends f, rs_deserialize = wf_deserialize f\<rparr>"
  let ?w = "\<lparr>ws_name = wf_name f, ws_writer = w, ws_depends = wf_depends f, ws_serialize = wf_serialize f\<rparr>"
  have wrote: "schema_write nm sd (?s # schema) ob = run_write_steps (?w # ws) ob" if t: "typed_fields tm (f # fs) ob" for ob
  proof -
    have rest: "schema_write nm sd schema ob = run_write_steps ws ob" using IH(5) t by (simp add: typed_fields_def)
    consider (written) v where "wf_serialize f" "depends_holds (wf_depends f) ob = Inr True" "get_attr (wf_name f) ob = Inr v"
      | (stops) e where "depends_holds (wf_depends f) ob = Inr True" "get_attr (wf_name f) ob = Inl e"
      | (skipped) "\<not> wf_serialize f \<or> depends_holds (wf_depends f) ob \<noteq> Inr True"
      by (cases "get_attr (wf_name f) ob") auto
    then show ?thesis
    proof cases
      case written
      then have "node_write nm sd node v = w v" using t w(2) by (simp add: typed_fields_def typed_field_def)
      then show ?thesis using written rest by simp
    next
      case stops
      then show ?thesis using rest by simp
    next
      case skipped
      then show ?thesis using rest by (cases "depends_holds (wf_depends f) ob") auto
    qed
  qed
  have read: "schema_read nm sd (?s # schema) ctx ob = run_read_steps (?r # rs) ctx ob" for ctx ob
    using IH(6) by (simp cong: if_cong)
  show ?case
  proof (intro exI conjI)
    show "schema_fields (f # fs) = Inr (?s # schema)" using node(1) IH(1) by simp
    show "plan_steps sd rd wr (f # fs) = Inr (?r # rs, ?w # ws)" using w(1) IH(2) by simp
    show "fields_ok (?s # schema)" using f node(2) IH(3) by (simp add: fields_ok_def wire_field_ok_def)
    show "set (concat (map (\<lambda>f. node_models (sf_node f)) (?s # schema))) = set (concat (map (\<lambda>f. models_in (wf_ann f)) (f # fs)))"
      using node(3) IH(4) by simp
    show "\<forall>ob. typed_fields tm (f # fs) ob \<longrightarrow> schema_write nm sd (?s # schema) ob = run_write_steps (?w # ws) ob" using wrote by blast
    show "\<forall>ctx ob. schema_read nm sd (?s # schema) ctx ob = run_read_steps (?r # rs) ctx ob" using read by blast
  qed
qed

text \<open>
  The classes that a message of class \<open>c\<close> can nest, to a depth of \<open>n\<close>: each known under its name and,
  unless it has a codec of its own, with fields that both sides treat alike.
\<close>

primrec sound_class :: "nat \<Rightarrow> wire_env \<Rightarrow> string \<Rightarrow> bool" where
  "sound_class 0 env c = False"
| "sound_class (Suc n) env c = (case we_class env c of
     None \<Rightarrow> False
   | Some cls \<Rightarrow> mc_name cls = c \<and>
       (can_compile cls \<longrightarrow> class_ok cls \<and> list_all (\<lambda>f. wire_field_ok (wire_field_of f) \<and>
          list_all (sound_class n env) (models_in (mf_ann f))) (mc_fields cls)))"

text \<open>A value whose models are instances of the declared classes.\<close>

primrec typed_model :: "nat \<Rightarrow> wire_env \<Rightarrow> int \<Rightarrow> string list \<Rightarrow> string \<Rightarrow> pyval \<Rightarrow> bool" where
  "typed_model 0 env version features c v = False"
| "typed_model (Suc n) env version features c v = (case we_class env c of
     None \<Rightarrow> False
   | Some cls \<Rightarrow> class_of v = Some c \<and> (can_compile cls \<longrightarrow>
       (case v of PObj _ ob \<Rightarrow> typed_fields (typed_model n env version features) (wire_fields cls version features) ob
        | _ \<Rightarrow> False)))"

lemma wire_field_of_ann [simp]: "wf_ann (wire_field_of f) = mf_ann f" "wf_name (wire_field_of f) = mf_name f"
  by (simp_all add: wire_field_of_def split: option.split)

text \<open>One level: where the nested models agree, the compiled class is the plan of the class.\<close>

lemma compiled_level:
  assumes cls: "we_class env c = Some cls" and can: "can_compile cls" and sound: "sound_class (Suc n) env c"
    and wrt: "\<And>m v. m \<in> set (concat (map (\<lambda>f. models_in (mf_ann f)) (mc_fields cls))) \<Longrightarrow> tm m v \<Longrightarrow> model_write nm m v = wr v"
    and rdr: "\<And>m ctx. m \<in> set (concat (map (\<lambda>f. models_in (mf_ann f)) (mc_fields cls))) \<Longrightarrow> model_read nm m ctx = rd m ctx"
    and comp: "compiles nm (concat (map (\<lambda>f. models_in (mf_ann f)) (mc_fields cls)))"
  shows "\<exists>cc. compile_with nm env cls version features = Inr cc \<and>
    (\<forall>ctx. cc_read cc ctx = read_body env rd wr cls version features ctx) \<and>
    (\<forall>ob. typed_fields tm (wire_fields cls version features) ob \<longrightarrow>
      cc_write cc (PObj c ob) = bind (if is_request cls then prelude_of env version (PObj c ob) else ret ())
        (\<lambda>_. write_body env rd wr cls version features ob))"
proof -
  let ?fs = "wire_fields cls version features" and ?sd = "we_dir env"
  have ok: "class_ok cls" "mc_name cls = c" using sound cls can by simp_all
  have fs: "list_all wire_field_ok ?fs" using sound cls can by (auto simp: wire_fields_def list_all_iff)
  have mem: "m \<in> set (concat (map (\<lambda>f. models_in (mf_ann f)) (mc_fields cls)))"
    if "f \<in> set ?fs" "m \<in> set (models_in (wf_ann f))" for f m
    using that by (auto simp: wire_fields_def)
  obtain schema rs ws where s: "schema_fields ?fs = Inr schema" "plan_steps ?sd rd wr ?fs = Inr (rs, ws)" "fields_ok schema"
    "set (concat (map (\<lambda>f. node_models (sf_node f)) schema)) = set (concat (map (\<lambda>f. models_in (wf_ann f)) ?fs))"
    "\<forall>ob. typed_fields tm ?fs ob \<longrightarrow> schema_write nm ?sd schema ob = run_write_steps ws ob"
    "\<forall>ctx ob. schema_read nm ?sd schema ctx ob = run_read_steps rs ctx ob"
    by (atomize_elim, rule plan_is_schema [OF fs]) (rule wrt rdr; (rule mem)?; assumption)+
  have "schema_compiles nm schema"
  proof -
    have "\<exists>cc. nm_compile nm m = Inr cc" if "f \<in> set schema" "m \<in> set (node_models (sf_node f))" "nm_can nm m" for f m
    proof -
      have "m \<in> set (concat (map (\<lambda>f. models_in (wf_ann f)) ?fs))" using that(1,2) s(4) by fastforce
      then have "m \<in> set (concat (map (\<lambda>f. models_in (mf_ann f)) (mc_fields cls)))" using mem by auto
      then show ?thesis using comp that(3) by (auto simp: compiles_def list_all_iff)
    qed
    then show ?thesis by (simp add: schema_compiles_def compiles_def list_all_iff)
  qed
  moreover have schema: "wire_schema cls version features = Inr schema" using s(1) by (simp add: wire_schema_def)
  ultimately obtain cc where cc: "compile_with nm env cls version features = Inr cc"
    using compile_with_succeeds [OF can _ s(3)] by blast
  have plan: "wire_plan ?sd rd wr cls version features =
      Inr \<lparr>read_steps = rs, write_steps = ws, plan_defaults = defaults_of (mc_fields cls)\<rparr>"
    using s(2) by (simp add: wire_plan_def)
  note correct = compile_with_correct [OF cc ok(1) schema s(3)]
  have "cc_read cc ctx = read_body env rd wr cls version features ctx" for ctx
    using correct(2) s(6) plan by (simp add: read_body_def)
  moreover have "cc_write cc (PObj c ob) = bind (if is_request cls then prelude_of env version (PObj c ob) else ret ())
      (\<lambda>_. write_body env rd wr cls version features ob)" if "typed_fields tm ?fs ob" for ob
    using correct(1) [of c ob] s(5) that plan by (simp add: write_body_def)
  ultimately show ?thesis using cc by blast
qed

lemma codecs_agree:
  assumes "sound_class n env c"
  shows "(\<forall>ctx. from_reader (codecs_at n env version features) c ctx = snd (plan_codec n env version features) c ctx) \<and>
    (\<forall>v. typed_model n env version features c v \<longrightarrow>
       to_writer (codecs_at n env version features) v = fst (plan_codec n env version features) v) \<and>
    (\<forall>cls. we_class env c = Some cls \<longrightarrow> can_compile cls \<longrightarrow>
       (\<exists>cc. compile_codec (codecs_at n env version features) c = Inr cc \<and>
         (\<forall>ctx. cc_read cc ctx = snd (plan_codec n env version features) c ctx) \<and>
         (\<forall>v. typed_model n env version features c v \<longrightarrow> cc_write cc v = fst (plan_codec n env version features) v)))"
  using assms
proof (induction n arbitrary: c)
  case 0
  then show ?case by simp
next
  case (Suc n)
  let ?cs = "codecs_at n env version features" and ?wr = "fst (plan_codec n env version features)"
  let ?rd = "snd (plan_codec n env version features)" and ?nm = "nested_of env (codecs_at n env version features)"
  let ?tm = "typed_model n env version features"
  obtain cls where cls: "we_class env c = Some cls" using Suc.prems by (cases "we_class env c") simp_all
  show ?case
  proof (cases "can_compile cls")
    case False
    then obtain w r where "mc_codec cls = CustomCodec w r" by (cases "mc_codec cls") (simp_all add: can_compile_def)
    then show ?thesis using cls False by (simp add: Let_def)
  next
    case True
    let ?ms = "concat (map (\<lambda>f. models_in (mf_ann f)) (mc_fields cls))"
    have sound: "sound_class n env m" if "m \<in> set ?ms" for m
      using Suc.prems cls True that by (auto simp: list_all_iff)
    have nested: "compiles ?nm [m] \<and> (\<forall>ctx. model_read ?nm m ctx = ?rd m ctx) \<and> (\<forall>v. ?tm m v \<longrightarrow> model_write ?nm m v = ?wr v)"
      if mem: "m \<in> set ?ms" for m
    proof -
      obtain mcls where m: "we_class env m = Some mcls" using sound [OF mem] by (cases n; cases "we_class env m") simp_all
      show ?thesis
      proof (cases "can_compile mcls")
        case True
        then show ?thesis
          using Suc.IH [OF sound [OF mem]] m
          by (auto simp: compiles_def nested_of_def model_read_def model_write_def)
      next
        case False
        then show ?thesis
          using Suc.IH [OF sound [OF mem]] m
          by (simp add: compiles_def nested_of_def model_read_def model_write_def)
      qed
    qed
    have "compiles ?nm ?ms" using nested by (simp add: compiles_def list_all_iff)
    then obtain cc where cc: "compile_with ?nm env cls version features = Inr cc"
        "\<forall>ctx. cc_read cc ctx = read_body env ?rd ?wr cls version features ctx"
        "\<forall>ob. typed_fields ?tm (wire_fields cls version features) ob \<longrightarrow>
          cc_write cc (PObj c ob) = bind (if is_request cls then prelude_of env version (PObj c ob) else ret ())
            (\<lambda>_. write_body env ?rd ?wr cls version features ob)"
      using compiled_level [OF cls True Suc.prems, of ?tm ?nm ?wr ?rd version features] nested by blast
    have wrote: "cc_write cc v = fst (plan_codec (Suc n) env version features) v \<and> class_of v = Some c"
      if t: "typed_model (Suc n) env version features c v" for v
    proof -
      obtain ob where v: "v = PObj c ob" "typed_fields ?tm (wire_fields cls version features) ob"
        using t cls True by (cases v) (simp_all add: class_of_def)
      then show ?thesis using cc(3) cls True
        by (cases "mc_codec cls") (simp_all add: class_of_def attrs_of_def Let_def is_request_def prelude_of_def can_compile_def)
    qed
    have read: "cc_read cc ctx = snd (plan_codec (Suc n) env version features) c ctx" for ctx
      using cc(2) cls True by (cases "mc_codec cls") (simp_all add: Let_def can_compile_def)
    have comp: "compile_codec (codecs_at (Suc n) env version features) c = Inr cc" using cls cc(1) by (simp add: Let_def)
    have "from_reader (codecs_at (Suc n) env version features) c ctx = cc_read cc ctx" for ctx
      using cls cc(1) True by (cases "mc_codec cls") (simp_all add: Let_def compiled_or_none_def can_compile_def)
    moreover have "to_writer (codecs_at (Suc n) env version features) v = cc_write cc v" if "class_of v = Some c" for v
      using cls cc(1) True that by (cases "mc_codec cls") (simp_all add: Let_def compiled_or_none_def can_compile_def)
    ultimately show ?thesis using wrote read comp by simp
  qed
qed

end
