(* ===== verification/Message_Roundtrip.thy ===== *)
theory Message_Roundtrip
  imports Compiler_Correct
begin

text \<open>
  What one side of a connection writes, the other reads back. The theorem is for every message class
  whose nested classes are sound and for every value that fits the class: the fields on the wire
  hold values of their types within the bounds of the format, the others their defaults.
\<close>

section \<open>Values that fit\<close>

definition scalar_ok :: "string \<Rightarrow> scalar_class \<Rightarrow> string \<Rightarrow> bool" where
  "scalar_ok sd c s = (case scalar_to_wire sd (PScalar c s) of
     Inr t \<Rightarrow> wire_text t \<and> scalar_from_wire sd c t = Inr (PScalar c s)
   | Inl _ \<Rightarrow> False)"

text \<open>\<open>fm c v\<close>: the value fits the class \<open>c\<close>.\<close>

fun fits_ann :: "string \<Rightarrow> (string \<Rightarrow> pyval \<Rightarrow> bool) \<Rightarrow> ann \<Rightarrow> pyval \<Rightarrow> bool" where
  "fits_ann sd fm AInt v = (case v of PInt i \<Rightarrow> wire_int i | _ \<Rightarrow> False)"
| "fits_ann sd fm (AUInt64 c) v = (case v of PUInt64 d i \<Rightarrow> d = c \<and> wire_int i | _ \<Rightarrow> False)"
| "fits_ann sd fm (AEnum c members) v = (case v of PEnum d i \<Rightarrow> d = c \<and> i \<in> set members \<and> wire_int i | _ \<Rightarrow> False)"
| "fits_ann sd fm AStr v = (case v of PStr s \<Rightarrow> wire_text s | _ \<Rightarrow> False)"
| "fits_ann sd fm ABool v = (case v of PBool _ \<Rightarrow> True | _ \<Rightarrow> False)"
| "fits_ann sd fm ABytes v = (case v of PBytes b \<Rightarrow> length b < 2 ^ 64 | _ \<Rightarrow> False)"
| "fits_ann sd fm (AScalar c) v = (case v of PScalar d s \<Rightarrow> d = c \<and> scalar_ok sd c s | _ \<Rightarrow> False)"
| "fits_ann sd fm (AOptional a) v =
     (if is_wire_scalar a then v = PNone \<or> fits_ann sd fm a v \<and> truthy v else fits_ann sd fm a v)"
| "fits_ann sd fm (AList a) v = (case v of PList xs \<Rightarrow> list_all (fits_ann sd fm a) xs \<and> length xs < 2 ^ 64 | _ \<Rightarrow> False)"
| "fits_ann sd fm (ASet a) v = (case v of
     PSet xs \<Rightarrow> list_all (\<lambda>x. fits_ann sd fm a x \<and> hashable x) xs \<and> distinct xs \<and> length xs < 2 ^ 64 | _ \<Rightarrow> False)"
| "fits_ann sd fm (ADict a b) v = (case v of
     PDict d \<Rightarrow> list_all (\<lambda>(k, x). fits_ann sd fm a k \<and> hashable k \<and> fits_ann sd fm b x) d \<and>
       distinct (map fst d) \<and> length d < 2 ^ 64
   | _ \<Rightarrow> False)"
| "fits_ann sd fm (AModel c) v = fm c v"
| "fits_ann sd fm _ v = False"

definition default_of :: "model_field \<Rightarrow> pyval option" where
  "default_of f = (case mf_default f of NoDefault \<Rightarrow> None | Default v \<Rightarrow> Some v | Factory v \<Rightarrow> Some v)"

text \<open>A field is on the wire when the version and the features have it and its test holds.\<close>

definition on_wire :: "int \<Rightarrow> string list \<Rightarrow> attrs \<Rightarrow> model_field \<Rightarrow> error + bool" where
  "on_wire version features ob f =
     (if field_kept version features f \<and> wf_deserialize (wire_field_of f)
      then depends_holds (wf_depends (wire_field_of f)) ob else Inr False)"

definition field_fits ::
    "string \<Rightarrow> (string \<Rightarrow> pyval \<Rightarrow> bool) \<Rightarrow> int \<Rightarrow> string list \<Rightarrow> attrs \<Rightarrow> model_field \<Rightarrow> bool" where
  "field_fits sd fm version features ob f = (case on_wire version features ob f of
     Inl _ \<Rightarrow> False
   | Inr False \<Rightarrow> map_of ob (mf_name f) = Some (default_of f)
   | Inr True \<Rightarrow> (case get_attr (mf_name f) ob of Inr x \<Rightarrow> fits_ann sd fm (mf_ann f) x | Inl _ \<Rightarrow> False))"

text \<open>\<open>custom c v\<close> says which values the classes with a codec of their own carry.\<close>

primrec fits_model ::
    "nat \<Rightarrow> wire_env \<Rightarrow> (string \<Rightarrow> pyval \<Rightarrow> bool) \<Rightarrow> int \<Rightarrow> string list \<Rightarrow> string \<Rightarrow> pyval \<Rightarrow> bool" where
  "fits_model 0 env custom version features c v = False"
| "fits_model (Suc n) env custom version features c v = (case we_class env c of
     None \<Rightarrow> False
   | Some cls \<Rightarrow> class_of v = Some c \<and>
       (if can_compile cls
        then \<not> is_request cls \<and> (case v of
          PObj _ ob \<Rightarrow> map fst ob = map mf_name (mc_fields cls) \<and>
            list_all (field_fits (we_dir env) (fits_model n env custom version features) version features ob) (mc_fields cls)
        | _ \<Rightarrow> False)
        else custom c v))"

text \<open>The same for a message, which may be a request.\<close>

definition fits_message ::
    "nat \<Rightarrow> wire_env \<Rightarrow> (string \<Rightarrow> pyval \<Rightarrow> bool) \<Rightarrow> int \<Rightarrow> string list \<Rightarrow> model_class \<Rightarrow> attrs \<Rightarrow> bool" where
  "fits_message n env custom version features cls ob \<longleftrightarrow> map fst ob = map mf_name (mc_fields cls) \<and>
     list_all (field_fits (we_dir env) (fits_model n env custom version features) version features ob) (mc_fields cls)"

fun pred_names :: "pred \<Rightarrow> string list" where
  "pred_names (Equals n v) = [n]"
| "pred_names (Differs n v) = [n]"
| "pred_names (Holds n) = [n]"
| "pred_names (Both p q) = pred_names p @ pred_names q"

text \<open>A test asks only for fields that were declared before, and a field is written when it is read.\<close>

fun ordered_fields :: "string list \<Rightarrow> model_field list \<Rightarrow> bool" where
  "ordered_fields seen [] = True"
| "ordered_fields seen (f # fs) =
     (wf_serialize (wire_field_of f) = wf_deserialize (wire_field_of f) \<and>
      (case wf_depends (wire_field_of f) of None \<Rightarrow> True | Some p \<Rightarrow> set (pred_names p) \<subseteq> set seen) \<and>
      ordered_fields (mf_name f # seen) fs)"

primrec ordered_class :: "nat \<Rightarrow> wire_env \<Rightarrow> string \<Rightarrow> bool" where
  "ordered_class 0 env c = False"
| "ordered_class (Suc n) env c = (case we_class env c of
     None \<Rightarrow> False
   | Some cls \<Rightarrow> can_compile cls \<longrightarrow> ordered_fields [] (mc_fields cls) \<and>
       list_all (\<lambda>f. list_all (ordered_class n env) (models_in (mf_ann f))) (mc_fields cls))"

section \<open>Annotations carry their values\<close>

definition settled :: "ReadContext \<Rightarrow> bool" where
  "settled ctx \<longleftrightarrow> \<not> log_sink ctx \<and> buffer_logs ctx \<and> raise_on_error ctx"

lemma settled_nested: "\<not> log_sink ctx \<Longrightarrow> settled (nested_context ctx)"
  by (simp add: settled_def nested_context_def)

lemma carries_values:
  "wire_int i \<Longrightarrow> carries (put_uint64 (PInt i)) (bind read_uint64 (\<lambda>i. ret (PInt i))) (PInt i) (uint64_bytes (nat i))"
  "wire_int i \<Longrightarrow> carries (put_uint64 (PUInt64 c i)) (bind read_uint64 (\<lambda>i. ret (PUInt64 c i))) (PUInt64 c i) (uint64_bytes (nat i))"
  "wire_text s \<Longrightarrow> carries (put_string sd (PStr s)) (bind read_string (\<lambda>s. ret (PStr s))) (PStr s) (framed_bytes (encode s))"
  using carries_map [OF carries_uint64] carries_map [OF carries_string] by (simp_all add: put_uint64_def as_int_def)

lemma carries_result:
  assumes "carries w r x bs" and "f x = Inr y"
  shows "carries w (bind r (\<lambda>x. of_result (f x))) y bs"
  using assms by (simp add: carries_def bind_apply)

lemma carries_bool:
  "carries (put_bool (PBool b)) (bind read_bool (\<lambda>b. ret (PBool b)) :: ('m stream, pyval) eff) (PBool b)
    (uint64_bytes (if b then 1 else 0))"
proof -
  have "carries (write_bool b) (read_bool :: ('m stream, bool) eff) b (uint64_bytes (if b then 1 else 0))"
    by (simp add: carries_def write_bool_apply read_bool_append)
  from carries_map [OF this, of PBool] show ?thesis by (simp add: put_bool_def as_int_def write_bool_def)
qed

lemma carries_bytes:
  "length b < 2 ^ 64 \<Longrightarrow> carries (put_bytes (PBytes b)) (bind read_bytes (\<lambda>b. ret (PBytes b))) (PBytes b) (framed_bytes b)"
proof -
  assume "length b < 2 ^ 64"
  then have "carries (write_bytes b) read_bytes b (framed_bytes b)"
    by (simp add: carries_def write_bytes_ok read_bytes_append)
  from carries_map [OF this, of PBytes] show ?thesis by (simp add: put_bytes_def)
qed

lemma carries_scalar:
  assumes "scalar_ok sd c s"
  shows "\<exists>bs. carries (bind (of_result (scalar_to_wire sd (PScalar c s))) write_string)
    (bind read_string (\<lambda>t. of_result (scalar_from_wire sd c t))) (PScalar c s) bs"
proof -
  obtain t where t: "scalar_to_wire sd (PScalar c s) = Inr t" "wire_text t" "scalar_from_wire sd c t = Inr (PScalar c s)"
    using assms by (auto simp: scalar_ok_def split: sum.splits)
  have "carries (write_string t) read_string t (framed_bytes (encode t))" by (rule carries_string [OF t(2)])
  from carries_result [where f = "scalar_from_wire sd c", OF this t(3)] show ?thesis
    unfolding t(1) bind_of_result_Inr by blast
qed

text \<open>No scalar of an optional field has the empty text, which stands for \<open>None\<close>.\<close>

lemma carries_no_scalar:
  assumes "scalar_from_wire sd c [] = Inr v" and "\<not> truthy v"
  shows "carries (write_string []) (bind (bind read_string (\<lambda>t. of_result (scalar_from_wire sd c t))) (\<lambda>v. ret (or_none v))) PNone
    (framed_bytes (encode []))"
proof -
  have "carries (write_string []) read_string [] (framed_bytes (encode []))" by (rule carries_string) (simp add: wire_text_def)
  from carries_map [OF carries_result [where f = "scalar_from_wire sd c", OF this assms(1)], of or_none] show ?thesis
    using assms(2) by (simp add: or_none_def)
qed

lemma empty_scalar: "\<exists>v. scalar_from_wire sd c [] = Inr v \<and> \<not> truthy v"
  by (cases c) (auto simp: scalar_from_wire_def truthy_def nar_hash_new_def partition_at_def read_store_path_def startswith_def)

lemma carries_set_items:
  assumes "\<And>x. x \<in> set xs \<Longrightarrow> hashable x \<and> (\<exists>bs. carries (w x) r x bs)" and "distinct (acc @ xs)"
  shows "\<exists>bs. carries (write_items w xs) (read_set_items (length xs) r acc) (acc @ xs) bs"
  using assms
proof (induction xs arbitrary: acc)
  case Nil
  show ?case by (rule exI [of _ "[]"]) (simp only: write_items.simps read_set_items.simps list.size append_Nil2 carries_none)
next
  case (Cons x xs)
  obtain bs where x: "carries (w x) r x bs" "hashable x" using Cons.prems(1) by auto
  have "x \<notin> set acc" using Cons.prems(2) by simp
  then have add: "add_to_set x acc = Inr (acc @ [x])" using x(2) by (simp add: add_to_set_def set_add_fresh)
  obtain bs' where "carries (write_items w xs) (read_set_items (length xs) r (acc @ [x])) ((acc @ [x]) @ xs) bs'"
    using Cons.IH [of "acc @ [x]"] Cons.prems by auto
  then have "carries (write_items w xs) (bind (of_result (add_to_set x acc)) (read_set_items (length xs) r)) (acc @ x # xs) bs'"
    unfolding add bind_of_result_Inr by simp
  from carries_bind [where k = "\<lambda>x. bind (of_result (add_to_set x acc)) (read_set_items (length xs) r)", OF x(1) this]
  show ?case unfolding write_items.simps list.size add_Suc_right add_0_right read_set_items.simps by blast
qed

lemma carries_dict_items:
  assumes "\<And>k x. (k, x) \<in> set d \<Longrightarrow> hashable k \<and> (\<exists>bs. carries (kw k) kr k bs) \<and> (\<exists>bs. carries (vw x) vr x bs)"
    and "distinct (map fst (acc @ d))"
  shows "\<exists>bs. carries (write_items (\<lambda>(k, x). bind (kw k) (\<lambda>_. vw x)) d) (read_dict_items (length d) kr vr acc) (acc @ d) bs"
  using assms
proof (induction d arbitrary: acc)
  case Nil
  show ?case by (rule exI [of _ "[]"]) (simp only: write_items.simps read_dict_items.simps list.size append_Nil2 carries_none)
next
  case (Cons e d)
  obtain k x where e: "e = (k, x)" by (cases e)
  obtain bs bs' where c: "carries (kw k) kr k bs" "carries (vw x) vr x bs'" "hashable k" using Cons.prems(1) [of k x] e by auto
  have "k \<notin> fst ` set acc" using Cons.prems(2) e by force
  then have add: "add_to_dict k x acc = Inr (acc @ [(k, x)])" using c(3) by (simp add: add_to_dict_def dict_set_fresh)
  have later: "hashable k' \<and> (\<exists>bs. carries (kw k') kr k' bs) \<and> (\<exists>bs. carries (vw x') vr x' bs)" if "(k', x') \<in> set d" for k' x'
    by (rule Cons.prems(1)) (simp add: that)
  obtain bs'' where
      "carries (write_items (\<lambda>(k, x). bind (kw k) (\<lambda>_. vw x)) d) (read_dict_items (length d) kr vr (acc @ [(k, x)]))
        ((acc @ [(k, x)]) @ d) bs''"
    using Cons.IH [OF later, of "acc @ [(k, x)]"] Cons.prems(2) e by auto
  then have "carries (write_items (\<lambda>(k, x). bind (kw k) (\<lambda>_. vw x)) d)
      (bind (of_result (add_to_dict k x acc)) (read_dict_items (length d) kr vr)) (acc @ e # d) bs''"
    unfolding add bind_of_result_Inr e by simp
  from carries_bind [where k = "\<lambda>x. bind (of_result (add_to_dict k x acc)) (read_dict_items (length d) kr vr)", OF c(2) this]
  have "carries (bind (vw x) (\<lambda>_. write_items (\<lambda>(k, x). bind (kw k) (\<lambda>_. vw x)) d))
    (bind vr (\<lambda>x. bind (of_result (add_to_dict k x acc)) (read_dict_items (length d) kr vr))) (acc @ e # d) (bs' @ bs'')" .
  from carries_bind [where k = "\<lambda>k. bind vr (\<lambda>x. bind (of_result (add_to_dict k x acc)) (read_dict_items (length d) kr vr))", OF c(1) this]
  show ?case unfolding write_items.simps list.size add_Suc_right add_0_right read_dict_items.simps e split bind_assoc by blast
qed

text \<open>The length before the items.\<close>

lemma carries_counted:
  assumes "\<exists>bs. carries (w xs) (r (length xs)) ys bs" and "length xs < 2 ^ 64"
  shows "\<exists>bs. carries (bind (put_uint64 (PInt (int (length xs)))) (\<lambda>_. w xs)) (bind read_uint64 (\<lambda>n. bind (r (nat n)) (\<lambda>ys. ret (f ys)))) (f ys) bs"
proof -
  obtain bs where "carries (w xs) (r (length xs)) ys bs" using assms(1) ..
  then have items: "carries (w xs) (bind (r (nat (int (length xs)))) (\<lambda>ys. ret (f ys))) (f ys) bs" using carries_map by simp
  have "wire_int (int (length xs))" using assms(2) by (simp add: wire_int_def flip: of_nat_less_iff)
  then have "carries (put_uint64 (PInt (int (length xs)))) read_uint64 (int (length xs)) (uint64_bytes (nat (int (length xs))))"
    using carries_uint64 [of "int (length xs)"] by (simp add: put_uint64_def as_int_def)
  from carries_bind [where k = "\<lambda>n. bind (r (nat n)) (\<lambda>ys. ret (f ys))", OF this items] show ?thesis by blast
qed

section \<open>Fields in order\<close>

lemma eval_pred_agree: "(\<And>n. n \<in> set (pred_names p) \<Longrightarrow> map_of ob n = map_of ob' n) \<Longrightarrow> eval_pred p ob = eval_pred p ob'"
proof (induction p)
  case (Both p q)
  then have "eval_pred p ob = eval_pred p ob'" "eval_pred q ob = eval_pred q ob'" by simp_all
  then show ?case by (simp cong: if_cong)
qed (simp_all add: get_attr_def)

lemma set_attr_between: "n \<notin> fst ` set pre \<Longrightarrow> set_attr n v (pre @ (n, d) # post) = pre @ (n, Some v) # post"
  by (induction pre) (auto simp: set_attr_def)

lemma set_all_defaults:
  "distinct (map fst pre @ map mf_name fs) \<Longrightarrow>
   set_defaults (defaults_of fs) (pre @ map (\<lambda>f. (mf_name f, None)) fs) = pre @ map (\<lambda>f. (mf_name f, default_of f)) fs"
proof (induction fs arbitrary: pre)
  case Nil
  show ?case by (simp add: set_defaults_def)
next
  case (Cons f fs)
  have IH: "set_defaults (defaults_of fs) (pre @ (mf_name f, x) # map (\<lambda>f. (mf_name f, None)) fs) =
      pre @ (mf_name f, x) # map (\<lambda>f. (mf_name f, default_of f)) fs" for x
    using Cons.IH [of "pre @ [(mf_name f, x)]"] Cons.prems by simp
  have fresh: "mf_name f \<notin> fst ` set pre" using Cons.prems by auto
  show ?case
    using IH set_attr_between [OF fresh]
    by (cases "mf_default f") (simp_all add: default_of_def set_defaults_def)
qed

lemma new_object_defaults:
  "distinct (map mf_name (mc_fields cls)) \<Longrightarrow>
   set_defaults (defaults_of (mc_fields cls)) (new_object cls) = map (\<lambda>f. (mf_name f, default_of f)) (mc_fields cls)"
  using set_all_defaults [of "[]"] by (simp add: new_object_def)

lemma fields_have_plan:
  assumes "list_all wire_field_ok fs"
  obtains rs ws where "plan_steps sd rd wr fs = Inr (rs, ws)"
proof -
  let ?nm = "\<lparr>nm_can = (\<lambda>_. False), nm_compile = (\<lambda>_. Inl OutOfFuel), nm_write = wr, nm_read = rd\<rparr>"
  show ?thesis
    by (rule exE [OF plan_is_schema [where tm = "\<lambda>_ _. False" and nm = ?nm and rd = rd and wr = wr and sd = sd, OF assms]])
      (auto simp: model_read_def intro: that)
qed

section \<open>Fields carry their values\<close>

text \<open>
  The interface the fields rely on: the classes that \<open>fm\<close> admits a value of are written and read back
  under settled contexts.
\<close>

locale nested_codec =
  fixes sd :: string and rd :: "string \<Rightarrow> reader" and wr :: writer and fm :: "string \<Rightarrow> pyval \<Rightarrow> bool"
  assumes model_carries: "fm c v \<Longrightarrow> settled ctx \<Longrightarrow> \<exists>bs. carries (wr v) (rd c ctx) v bs"
begin

lemma ann_carries:
  assumes "fits_ann sd fm a v" and "find_reader sd rd a = Inr r" and "find_writer sd wr a = Inr w" and "\<not> log_sink ctx"
  shows "\<exists>bs. carries (w v) (r ctx) v bs"
  using assms(1-3)
proof (induction a arbitrary: v r w)
  case AInt
  then obtain i where "v = PInt i" "wire_int i" by (cases v) simp_all
  then show ?case using AInt carries_values(1) by auto
next
  case AStr
  then obtain s where "v = PStr s" "wire_text s" by (cases v) simp_all
  then show ?case using AStr carries_values(3) [of s sd] by (auto intro: exI [of _ "framed_bytes (encode s)"])
next
  case ABool
  then obtain b where "v = PBool b" by (cases v) simp_all
  then show ?case using ABool carries_bool by auto
next
  case ABytes
  then obtain b where "v = PBytes b" "length b < 2 ^ 64" by (cases v) simp_all
  then show ?case using ABytes carries_bytes by auto
next
  case (AUInt64 c)
  then obtain i where "v = PUInt64 c i" "wire_int i" by (cases v) simp_all
  then show ?case using AUInt64 carries_values(2) by auto
next
  case (AEnum c members)
  then obtain i where v: "v = PEnum c i" "wire_int i" "i \<in> set members" by (cases v) simp_all
  have "carries (write_uint64 i) (bind read_uint64 (\<lambda>i. of_result (enum_new c members i))) (PEnum c i) (uint64_bytes (nat i))"
    by (rule carries_result [OF carries_uint64 [OF v(2)]]) (simp add: enum_new_def v(3))
  then show ?case using AEnum.prems v(1) by (auto simp: enum_value_def put_uint64_def as_int_def)
next
  case (AScalar c)
  then obtain s where "v = PScalar c s" "scalar_ok sd c s" by (cases v) simp_all
  then show ?case using AScalar carries_scalar by auto
next
  case (AOptional a)
  obtain r' w' where rw: "find_reader sd rd a = Inr r'" "find_writer sd wr a = Inr w'"
    using AOptional.prems by (auto split: sum.splits simp: andthen_def)
  show ?case
  proof (cases "is_wire_scalar a")
    case False
    then show ?thesis using AOptional rw by simp
  next
    case True
    then obtain c where a: "a = AScalar c" by (cases a) (simp_all add: is_wire_scalar_def)
    have opt: "r = (\<lambda>ctx. bind (r' ctx) (\<lambda>v. ret (or_none v)))" "w = (\<lambda>v. if v = PNone then write_string [] else w' v)"
      using AOptional.prems(2,3) rw True by auto
    show ?thesis
    proof (cases "v = PNone")
      case True
      then show ?thesis using carries_no_scalar empty_scalar rw a opt by fastforce
    next
      case False
      then have "fits_ann sd fm a v" "truthy v" using AOptional.prems(1) True by auto
      then show ?thesis using AOptional.IH [OF _ rw] False carries_map [where f = or_none] opt by (fastforce simp: or_none_def)
    qed
  qed
next
  case (AList a)
  obtain r' w' where rw: "find_reader sd rd a = Inr r'" "find_writer sd wr a = Inr w'"
    using AList.prems by (auto split: sum.splits simp: andthen_def)
  obtain xs where xs: "v = PList xs" "list_all (fits_ann sd fm a) xs" "length xs < 2 ^ 64" using AList.prems(1) by (cases v) simp_all
  have "\<exists>bs. carries (write_items w' xs) (read_items (length xs) (r' ctx)) xs bs"
    by (rule element_codec.items_carry [OF _ xs(2)], unfold_locales) (rule AList.IH [OF _ rw])
  from carries_counted [where w = "write_items w'" and r = "\<lambda>n. read_items n (r' ctx)" and f = PList, OF this xs(3)]
  show ?case using AList.prems(2,3) rw xs(1) by (auto simp: py_len_def py_iter_def read_list_def bind_assoc)
next
  case (ASet a)
  obtain r' w' where rw: "find_reader sd rd a = Inr r'" "find_writer sd wr a = Inr w'"
    using ASet.prems by (auto split: sum.splits simp: andthen_def)
  obtain xs where xs: "v = PSet xs" "list_all (\<lambda>x. fits_ann sd fm a x \<and> hashable x) xs" "distinct xs" "length xs < 2 ^ 64"
    using ASet.prems(1) by (cases v) simp_all
  have "\<exists>bs. carries (write_items w' xs) (read_set_items (length xs) (r' ctx) []) ([] @ xs) bs"
    using xs(2,3) ASet.IH [OF _ rw] by (intro carries_set_items) (auto simp: list_all_iff)
  then have "\<exists>bs. carries (write_items w' xs) (read_set_items (length xs) (r' ctx) []) xs bs" by simp
  from carries_counted [where w = "write_items w'" and r = "\<lambda>n. read_set_items n (r' ctx) []" and f = PSet, OF this xs(4)]
  show ?case using ASet.prems(2,3) rw xs(1) by (auto simp: py_len_def py_iter_def)
next
  case (ADict a b)
  obtain kr kw vr vw where rw: "find_reader sd rd a = Inr kr" "find_writer sd wr a = Inr kw"
      "find_reader sd rd b = Inr vr" "find_writer sd wr b = Inr vw"
    using ADict.prems by (auto split: sum.splits simp: andthen_def)
  obtain d where d: "v = PDict d" "list_all (\<lambda>(k, x). fits_ann sd fm a k \<and> hashable k \<and> fits_ann sd fm b x) d"
      "distinct (map fst d)" "length d < 2 ^ 64"
    using ADict.prems(1) by (cases v) simp_all
  have "\<exists>bs. carries (write_items (\<lambda>(k, x). bind (kw k) (\<lambda>_. vw x)) d) (read_dict_items (length d) (kr ctx) (vr ctx) []) ([] @ d) bs"
    using d(2,3) ADict.IH(1) [OF _ rw(1,2)] ADict.IH(2) [OF _ rw(3,4)]
    by (intro carries_dict_items) (auto simp: list_all_iff)
  then have "\<exists>bs. carries (write_items (\<lambda>(k, x). bind (kw k) (\<lambda>_. vw x)) d) (read_dict_items (length d) (kr ctx) (vr ctx) []) d bs"
    by simp
  from carries_counted [where w = "write_items (\<lambda>(k, x). bind (kw k) (\<lambda>_. vw x))" and
      r = "\<lambda>n. read_dict_items n (kr ctx) (vr ctx) []" and f = PDict, OF this d(4)]
  show ?case using ADict.prems(2,3) rw d(1) by (auto simp: py_len_def py_items_def)
next
  case (AModel c)
  then show ?case using model_carries settled_nested [OF assms(4)] by auto
qed simp_all

lemma model_field_carries:
  assumes "wire_field_ok f" and "field_codec sd rd wr f = Inr (r, w)" and "fits_ann sd fm (wf_ann f) v" and "\<not> log_sink ctx"
  shows "\<exists>bs. carries (w v) (r ctx) v bs"
proof (cases "wf_errors f")
  case Strict
  then have "find_reader sd rd (wf_ann f) = Inr r" "find_writer sd wr (wf_ann f) = Inr w"
    using assms(2) by (auto simp: field_codec_def andthen_def split: sum.splits)
  then show ?thesis using ann_carries assms(3,4) by blast
next
  case Surrogateescape
  then have a: "wf_ann f = AStr" using assms(1) by (simp add: wire_field_ok_def)
  then obtain s where v: "v = PStr s" "wire_text s" using assms(3) by (cases v) simp_all
  have "carries (write_bytes (encode s)) read_bytes (encode s) (framed_bytes (encode s))"
    using v(2) by (simp add: carries_def write_bytes_ok read_bytes_append wire_text_def)
  from carries_map [OF this, of "\<lambda>b. PStr (decode b)"] show ?thesis
    using assms(2) a Surrogateescape v(1)
    by (auto simp: field_codec_def lossless_shape_def lossless_reader_def lossless_writer_def str_encode_def put_bytes_def)
qed

lemma steps_carry:
  assumes "plan_steps sd rd wr (map wire_field_of (filter (field_kept version features) fs)) = Inr (rs, ws)"
    and "list_all (field_fits sd fm version features (pre @ obs)) fs" and "ordered_fields seen fs"
    and "list_all (\<lambda>f. wire_field_ok (wire_field_of f)) fs" and "map fst obs = map mf_name fs"
    and "distinct (map fst (pre @ obs))" and "set seen \<subseteq> fst ` set pre" and "\<not> log_sink ctx"
  shows "\<exists>bs. carries (run_write_steps ws (pre @ obs))
    (run_read_steps rs ctx (pre @ map (\<lambda>f. (mf_name f, default_of f)) fs)) (pre @ obs) bs"
  using assms(1-7)
proof (induction fs arbitrary: pre obs seen rs ws)
  case Nil
  then show ?case by (intro exI [of _ "[]"]) (simp add: carries_none del: ret_apply)
next
  case (Cons f fs)
  let ?n = "mf_name f" and ?defs = "map (\<lambda>f. (mf_name f, default_of f)) fs"
  obtain x obs' where obs: "obs = (?n, x) # obs'" "map fst obs' = map mf_name fs" using Cons.prems(5) by (cases obs) auto
  have fresh: "?n \<notin> fst ` set pre" using Cons.prems(6) obs by auto
  then have x: "map_of (pre @ obs) ?n = Some x" using obs by (simp add: map_add_def split: option.split) (metis domI dom_map_of_conv_image_fst)
  have fits: "field_fits sd fm version features (pre @ obs) f" using Cons.prems(2) by simp
  have IH: "\<exists>bs. carries (run_write_steps ws' (pre @ obs)) (run_read_steps rs' ctx (pre @ (?n, x) # ?defs)) (pre @ obs) bs"
    if "plan_steps sd rd wr (map wire_field_of (filter (field_kept version features) fs)) = Inr (rs', ws')" for rs' ws'
    using Cons.IH [of rs' ws' "pre @ [(?n, x)]" obs' "?n # seen"] that Cons.prems obs by auto
  have off: "\<exists>bs. carries (run_write_steps ws' (pre @ obs)) (run_read_steps rs' ctx (pre @ map (\<lambda>f. (mf_name f, default_of f)) (f # fs))) (pre @ obs) bs"
    if "plan_steps sd rd wr (map wire_field_of (filter (field_kept version features) fs)) = Inr (rs', ws')"
      and "on_wire version features (pre @ obs) f = Inr False" for rs' ws'
    using IH [OF that(1)] fits that(2) x by (simp add: field_fits_def)
  show ?case
  proof (cases "field_kept version features f")
    case False
    then show ?thesis using off Cons.prems(1) by (simp add: on_wire_def)
  next
    case True
    let ?f = "wire_field_of f"
    obtain r w rs' ws' where rw: "field_codec sd rd wr ?f = Inr (r, w)"
        "plan_steps sd rd wr (map wire_field_of (filter (field_kept version features) fs)) = Inr (rs', ws')"
        "rs = \<lparr>rs_name = ?n, rs_reader = r, rs_depends = wf_depends ?f, rs_deserialize = wf_deserialize ?f\<rparr> # rs'"
        "ws = \<lparr>ws_name = ?n, ws_writer = w, ws_depends = wf_depends ?f, ws_serialize = wf_serialize ?f\<rparr> # ws'"
      using Cons.prems(1) True by (auto simp: andthen_def split: sum.splits)
    have both: "wf_serialize ?f = wf_deserialize ?f" using Cons.prems(3) by simp
    have same: "depends_holds (wf_depends ?f) (pre @ post) = depends_holds (wf_depends ?f) (pre @ obs)" for post
    proof (cases "wf_depends ?f")
      case (Some p)
      then have "n \<in> fst ` set pre" if "n \<in> set (pred_names p)" for n using Cons.prems(3,7) that by auto
      then have "map_of (pre @ post) n = map_of (pre @ obs) n" if "n \<in> set (pred_names p)" for n
        using that by (force simp: map_add_def map_of_eq_None_iff split: option.split)
      then show ?thesis using Some eval_pred_agree by (simp add: depends_holds_def)
    qed (simp add: depends_holds_def)
    consider (absent) "wf_deserialize ?f" "depends_holds (wf_depends ?f) (pre @ obs) = Inr False"
      | (skipped) "\<not> wf_deserialize ?f"
      | (on) v where "wf_deserialize ?f" "depends_holds (wf_depends ?f) (pre @ obs) = Inr True" "x = Some v" "fits_ann sd fm (mf_ann f) v"
      using fits True x by (auto simp: field_fits_def on_wire_def get_attr_def split: sum.splits bool.splits option.splits if_splits)
    then show ?thesis
    proof cases
      case absent
      then show ?thesis using off [OF rw(2)] True both by (simp add: rw(3,4) same [of "(?n, default_of f) # ?defs"] on_wire_def)
    next
      case skipped
      then show ?thesis using off [OF rw(2)] both by (simp add: rw(3,4) on_wire_def)
    next
      case on
      have get: "get_attr ?n (pre @ obs) = Inr v" using x on(3) by (simp add: get_attr_def)
      obtain bs where v: "carries (w v) (r ctx) v bs" using model_field_carries [OF _ rw(1) _ assms(8)] Cons.prems(4) on(4) by auto
      obtain bs' where rest: "carries (run_write_steps ws' (pre @ obs)) (run_read_steps rs' ctx (pre @ (?n, x) # ?defs)) (pre @ obs) bs'"
        using IH [OF rw(2)] by blast
      then have "carries (run_write_steps ws' (pre @ obs))
          (run_read_steps rs' ctx (set_attr ?n v (pre @ (?n, default_of f) # ?defs))) (pre @ obs) bs'"
        using set_attr_between [OF fresh] on(3) by simp
      from carries_bind [where k = "\<lambda>v. run_read_steps rs' ctx (set_attr ?n v (pre @ (?n, default_of f) # ?defs))", OF v this]
      show ?thesis using on(1,2) both get by (auto simp: rw(3,4) same [of "(?n, default_of f) # ?defs"])
    qed
  qed
qed

lemma body_carries:
  assumes "we_dir env = sd" and "class_ok cls" and "list_all (\<lambda>f. wire_field_ok (wire_field_of f)) (mc_fields cls)"
    and "ordered_fields [] (mc_fields cls)" and "map fst ob = map mf_name (mc_fields cls)"
    and "list_all (field_fits sd fm version features ob) (mc_fields cls)" and "\<not> log_sink ctx"
  shows "\<exists>bs. carries (write_body env rd wr cls version features ob) (read_body env rd wr cls version features ctx)
    (PObj (mc_name cls) ob) bs"
proof -
  have "list_all wire_field_ok (wire_fields cls version features)" using assms(3) by (auto simp: wire_fields_def list_all_iff)
  then obtain rs ws where plan: "plan_steps sd rd wr (wire_fields cls version features) = Inr (rs, ws)" by (rule fields_have_plan)
  have names: "distinct (map mf_name (mc_fields cls))" using assms(2) by (simp add: class_ok_def)
  obtain bs where "carries (run_write_steps ws ob) (run_read_steps rs ctx (map (\<lambda>f. (mf_name f, default_of f)) (mc_fields cls))) ob bs"
    using steps_carry [of version features "mc_fields cls" rs ws "[]" ob "[]" ctx] plan assms names
    by (auto simp: wire_fields_def)
  from carries_map [OF this, of "PObj (mc_name cls)"] show ?thesis
    using plan assms(1) new_object_defaults [OF names] by (auto simp: write_body_def read_body_def wire_plan_def)
qed

end

section \<open>Classes carry their values\<close>

lemma fits_ann_mono:
  assumes "fits_ann sd fm a v" and "\<And>c v. c \<in> set (models_in a) \<Longrightarrow> fm c v \<Longrightarrow> fm' c v"
  shows "fits_ann sd fm' a v"
  using assms
proof (induction a arbitrary: v)
  case (AOptional a)
  then show ?case by (cases "is_wire_scalar a") auto
next
  case (AList a)
  then show ?case by (cases v) (auto simp: list_all_iff)
next
  case (ASet a)
  then show ?case by (cases v) (auto simp: list_all_iff)
next
  case (ADict a b)
  then show ?case by (cases v) (auto simp: list_all_iff)
qed simp_all

lemma field_fits_mono:
  assumes "field_fits sd fm version features ob f" and "\<And>c v. c \<in> set (models_in (mf_ann f)) \<Longrightarrow> fm c v \<Longrightarrow> fm' c v"
  shows "field_fits sd fm' version features ob f"
  using assms(1) fits_ann_mono [OF _ assms(2)]
  by (auto simp: field_fits_def split: sum.splits bool.splits)

lemma fits_typed_ann:
  assumes "fits_ann sd fm a v" and "\<And>c v. c \<in> set (models_in a) \<Longrightarrow> fm c v \<Longrightarrow> tm c v"
  shows "typed_ann tm a v"
  using assms
proof (induction a arbitrary: v)
  case (AOptional a)
  show ?case
  proof (cases "is_wire_scalar a")
    case True
    then show ?thesis by (cases a) (simp_all add: is_wire_scalar_def)
  next
    case False
    then show ?thesis using AOptional by simp
  qed
next
  case (AList a)
  then show ?case by (cases v) (auto simp: list_all_iff py_iter_def)
next
  case (ASet a)
  then show ?case by (cases v) (auto simp: list_all_iff py_iter_def)
next
  case (ADict a b)
  then show ?case by (cases v) (auto simp: list_all_iff py_items_def)
qed simp_all

lemma ordered_serialize: "ordered_fields seen fs \<Longrightarrow> f \<in> set fs \<Longrightarrow> wf_serialize (wire_field_of f) = wf_deserialize (wire_field_of f)"
  by (induction fs arbitrary: seen) auto

text \<open>A value that fits is one whose models are instances of their classes.\<close>

lemma message_typed:
  assumes nested: "\<And>m v. ordered_class n env m \<Longrightarrow> fits_model n env custom version features m v \<Longrightarrow> typed_model n env version features m v"
    and cls: "we_class env c = Some cls" "can_compile cls" "ordered_class (Suc n) env c"
    and fits: "fits_message n env custom version features cls ob"
  shows "typed_model (Suc n) env version features c (PObj c ob)"
proof -
  have "typed_field (typed_model n env version features) ob (wire_field_of f)"
    if f: "f \<in> set (mc_fields cls)" "field_kept version features f" for f
    unfolding typed_field_def
  proof
    assume on: "wf_serialize (wire_field_of f) \<and> depends_holds (wf_depends (wire_field_of f)) ob = Inr True"
    have "ordered_fields [] (mc_fields cls)" using cls by simp
    then have "wf_deserialize (wire_field_of f)" using on f(1) ordered_serialize by blast
    then have "on_wire version features ob f = Inr True" using on f(2) by (simp add: on_wire_def)
    moreover have "field_fits (we_dir env) (fits_model n env custom version features) version features ob f"
      using fits f(1) by (simp add: fits_message_def list_all_iff)
    ultimately obtain x where x: "get_attr (mf_name f) ob = Inr x"
        "fits_ann (we_dir env) (fits_model n env custom version features) (mf_ann f) x"
      by (auto simp: field_fits_def split: sum.splits)
    have "typed_ann (typed_model n env version features) (mf_ann f) x"
      by (rule fits_typed_ann [OF x(2)]) (use nested cls f(1) in \<open>auto simp: list_all_iff\<close>)
    then show "case get_attr (wf_name (wire_field_of f)) ob of
        Inr x \<Rightarrow> typed_ann (typed_model n env version features) (wf_ann (wire_field_of f)) x | Inl _ \<Rightarrow> True"
      using x(1) by simp
  qed
  then show ?thesis using cls by (auto simp: class_of_def typed_fields_def wire_fields_def list_all_iff)
qed

lemma fits_typed:
  "ordered_class n env c \<Longrightarrow> fits_model n env custom version features c v \<Longrightarrow> typed_model n env version features c v"
proof (induction n arbitrary: c v)
  case (Suc n)
  obtain cls where cls: "we_class env c = Some cls" using Suc.prems(1) by (cases "we_class env c") simp_all
  have v: "class_of v = Some c" using Suc.prems(2) cls by simp
  show ?case
  proof (cases "can_compile cls")
    case True
    then obtain ob where "v = PObj c ob" "fits_message n env custom version features cls ob"
      using Suc.prems(2) cls v by (cases v) (simp_all add: class_of_def fits_message_def)
    then show ?thesis using message_typed [OF Suc.IH cls True Suc.prems(1)] by blast
  next
    case False
    then show ?thesis using cls v by simp
  qed
qed simp

section \<open>What arrives of a request\<close>

text \<open>
  A field that the version or the features of the connection leave out is not written, whatever it
  holds, and the reader has its default. \<open>sendable\<close> asks for values that fit in the fields on the wire
  only.
\<close>

definition delivered :: "int \<Rightarrow> string list \<Rightarrow> model_class \<Rightarrow> attrs \<Rightarrow> attrs" where
  "delivered version features cls ob = map (\<lambda>f. (mf_name f,
     if on_wire version features ob f = Inr True then the (map_of ob (mf_name f)) else default_of f)) (mc_fields cls)"

definition sendable ::
    "nat \<Rightarrow> wire_env \<Rightarrow> (string \<Rightarrow> pyval \<Rightarrow> bool) \<Rightarrow> int \<Rightarrow> string list \<Rightarrow> model_class \<Rightarrow> attrs \<Rightarrow> bool" where
  "sendable n env custom version features cls ob \<longleftrightarrow> map fst ob = map mf_name (mc_fields cls) \<and>
     list_all (\<lambda>f. on_wire version features ob f = Inr True \<longrightarrow> (case get_attr (mf_name f) ob of
       Inr x \<Rightarrow> fits_ann (we_dir env) (fits_model n env custom version features) (mf_ann f) x | Inl _ \<Rightarrow> False)) (mc_fields cls)"

text \<open>No field of the class is on the wire by a test of another one.\<close>

definition untested :: "model_class \<Rightarrow> bool" where
  "untested cls \<longleftrightarrow> list_all (\<lambda>f. wf_depends (wire_field_of f) = None) (mc_fields cls)"

lemma on_wire_untested:
  "wf_depends (wire_field_of f) = None \<Longrightarrow> on_wire version features ob f = Inr (field_kept version features f \<and> wf_deserialize (wire_field_of f))"
  by (simp add: on_wire_def depends_holds_def)

lemma map_of_delivered:
  assumes "class_ok cls" and "f \<in> set (mc_fields cls)"
  shows "map_of (delivered version features cls ob) (mf_name f) =
    Some (if on_wire version features ob f = Inr True then the (map_of ob (mf_name f)) else default_of f)"
proof -
  have "map_of (map (\<lambda>f. (mf_name f, g f)) fs) (mf_name f) = Some (g f)" if "distinct (map mf_name fs)" "f \<in> set fs"
    for g :: "model_field \<Rightarrow> pyval option" and fs
    using that by (induction fs) (auto, metis image_eqI)
  then show ?thesis using assms by (simp add: delivered_def class_ok_def)
qed

lemma delivered_get:
  assumes "class_ok cls" "map fst ob = map mf_name (mc_fields cls)" "f \<in> set (mc_fields cls)" "on_wire version features ob f = Inr True"
  shows "get_attr (mf_name f) (delivered version features cls ob) = get_attr (mf_name f) ob"
proof -
  have "mf_name f \<in> fst ` set ob" using assms(2,3) by (metis image_eqI list.set_map)
  then obtain x where "map_of ob (mf_name f) = Some x" by (metis domD dom_map_of_conv_image_fst)
  then show ?thesis using map_of_delivered [OF assms(1,3), of version features ob] assms(4) by (simp add: get_attr_def)
qed

lemma delivered_fits:
  assumes "sendable n env custom version features cls ob" "class_ok cls" "untested cls"
  shows "fits_message n env custom version features cls (delivered version features cls ob)"
proof -
  let ?ob = "delivered version features cls ob"
  have "field_fits (we_dir env) (fits_model n env custom version features) version features ?ob f"
    if f: "f \<in> set (mc_fields cls)" for f
  proof -
    have d: "wf_depends (wire_field_of f) = None" using assms(3) f by (simp add: untested_def list_all_iff)
    have names: "map fst ob = map mf_name (mc_fields cls)" using assms(1) by (simp add: sendable_def)
    show ?thesis
    proof (cases "on_wire version features ob f = Inr True")
      case True
      then show ?thesis using assms(1) f delivered_get [OF assms(2) names f True] on_wire_untested [OF d]
        by (auto simp: sendable_def field_fits_def list_all_iff split: sum.splits)
    next
      case False
      then show ?thesis using map_of_delivered [OF assms(2) f, of version features ob] on_wire_untested [OF d]
        by (auto simp: field_fits_def split: bool.splits)
    qed
  qed
  then show ?thesis by (simp add: fits_message_def list_all_iff delivered_def comp_def)
qed

lemma write_steps_cong:
  assumes "plan_steps sd rd wr (map wire_field_of (filter (field_kept version features) fs)) = Inr (rs, ws)"
    and "\<And>f. f \<in> set fs \<Longrightarrow> field_kept version features f \<Longrightarrow> wf_serialize (wire_field_of f) \<Longrightarrow>
      wf_depends (wire_field_of f) = None \<and> get_attr (mf_name f) ob = get_attr (mf_name f) ob'"
  shows "run_write_steps ws ob = run_write_steps ws ob'"
  using assms
proof (induction fs arbitrary: rs ws)
  case (Cons f fs)
  show ?case
  proof (cases "field_kept version features f")
    case False
    then show ?thesis using Cons by simp
  next
    case True
    let ?f = "wire_field_of f"
    obtain r w rs' ws' where rw: "plan_steps sd rd wr (map wire_field_of (filter (field_kept version features) fs)) = Inr (rs', ws')"
        "ws = \<lparr>ws_name = mf_name f, ws_writer = w, ws_depends = wf_depends ?f, ws_serialize = wf_serialize ?f\<rparr> # ws'"
      using Cons.prems(1) True by (auto simp: andthen_def split: sum.splits)
    have "run_write_steps ws' ob = run_write_steps ws' ob'" using Cons.IH [OF rw(1)] Cons.prems(2) by simp
    then show ?thesis using Cons.prems(2) [of f] True by (auto simp: rw(2) depends_holds_def)
  qed
qed simp

text \<open>The writer does not see the fields that are off the wire.\<close>

lemma write_delivered:
  assumes cls: "we_class env c = Some cls" "can_compile cls" "untested cls"
    and ok: "sound_class (Suc n) env c" "ordered_class (Suc n) env c" "sendable n env custom version features cls ob"
  shows "to_writer (codecs_at (Suc n) env version features) (PObj c ob) =
    to_writer (codecs_at (Suc n) env version features) (PObj c (delivered version features cls ob))"
proof -
  let ?ob = "delivered version features cls ob" and ?wr = "fst (plan_codec n env version features)" and ?rd = "snd (plan_codec n env version features)"
  have decl: "class_ok cls" "ordered_fields [] (mc_fields cls)" using ok cls by simp_all
  have names: "map fst ob = map mf_name (mc_fields cls)" using ok(3) by (simp add: sendable_def)
  have same: "wf_depends (wire_field_of f) = None \<and> get_attr (mf_name f) ob = get_attr (mf_name f) ?ob"
    if f: "f \<in> set (mc_fields cls)" "field_kept version features f" "wf_serialize (wire_field_of f)" for f
  proof -
    have d: "wf_depends (wire_field_of f) = None" using cls(3) f(1) by (simp add: untested_def list_all_iff)
    then have "on_wire version features ob f = Inr True"
      using f ordered_serialize [OF decl(2) f(1)] on_wire_untested [OF d] by simp
    then show ?thesis using d delivered_get [OF decl(1) names f(1)] by simp
  qed
  have "write_body env ?rd ?wr cls version features ob = write_body env ?rd ?wr cls version features ?ob"
  proof (cases "plan_steps (we_dir env) ?rd ?wr (wire_fields cls version features)")
    case (Inr steps)
    obtain rs ws where steps: "steps = (rs, ws)" by (cases steps)
    have "run_write_steps ws ob = run_write_steps ws ?ob"
      by (rule write_steps_cong [OF Inr [unfolded steps wire_fields_def]]) (use same in simp)
    then show ?thesis using Inr steps by (simp add: write_body_def wire_plan_def)
  qed (simp add: write_body_def wire_plan_def)
  then have plan: "fst (plan_codec (Suc n) env version features) (PObj c ob) = fst (plan_codec (Suc n) env version features) (PObj c ?ob)"
    using cls by (cases "mc_codec cls") (simp_all add: Let_def can_compile_def class_of_def attrs_of_def)
  have new: "typed_model (Suc n) env version features c (PObj c ?ob)"
    by (rule message_typed [OF fits_typed cls(1,2) ok(2) delivered_fits [OF ok(3) decl(1) cls(3)]])
  moreover have "typed_field tm ob (wire_field_of f) = typed_field tm ?ob (wire_field_of f)"
    if "f \<in> set (mc_fields cls)" "field_kept version features f" for f tm
    using same [OF that] by (auto simp: typed_field_def depends_holds_def)
  then have "typed_fields tm (wire_fields cls version features) ob = typed_fields tm (wire_fields cls version features) ?ob" for tm
    by (auto simp: typed_fields_def wire_fields_def list_all_iff)
  ultimately have "typed_model (Suc n) env version features c (PObj c ob)" using cls(1) by (simp add: class_of_def)
  then show ?thesis using codecs_agree [OF ok(1), of version features] new plan by (simp del: codecs_at.simps plan_codec.simps typed_model.simps)
qed

text \<open>
  The interface the generic codec relies on for the classes that have a codec of their own, such as
  \<open>WireLogs\<close>: the values that \<open>custom\<close> admits are written and read back.
\<close>

locale custom_codecs =
  fixes env :: wire_env and custom :: "string \<Rightarrow> pyval \<Rightarrow> bool"
  assumes custom_carries: "we_class env c = Some cls \<Longrightarrow> mc_codec cls = CustomCodec w r \<Longrightarrow> custom c v \<Longrightarrow> settled ctx \<Longrightarrow>
    \<exists>bs. carries (w v) (r ctx) v bs"
begin

text \<open>The body of a class whose nested classes carry their values.\<close>

lemma class_body_carries:
  assumes nested: "\<And>m v ctx. sound_class n env m \<Longrightarrow> ordered_class n env m \<Longrightarrow> fits_model n env custom version features m v \<Longrightarrow>
      settled ctx \<Longrightarrow> \<exists>bs. carries (wr v) (rd m ctx) v bs"
    and cls: "we_class env c = Some cls" "can_compile cls"
    and ok: "sound_class (Suc n) env c" "ordered_class (Suc n) env c" "fits_message n env custom version features cls ob"
    and ctx: "\<not> log_sink ctx"
  shows "\<exists>bs. carries (write_body env rd wr cls version features ob) (read_body env rd wr cls version features ctx) (PObj c ob) bs"
proof -
  let ?fm = "\<lambda>m v. sound_class n env m \<and> ordered_class n env m \<and> fits_model n env custom version features m v"
  have "nested_codec rd wr ?fm" by unfold_locales (use nested in blast)
  note body = nested_codec.body_carries [OF this, of env "we_dir env" cls ob version features ctx]
  have "list_all (field_fits (we_dir env) ?fm version features ob) (mc_fields cls)"
    unfolding list_all_iff
  proof
    fix f assume f: "f \<in> set (mc_fields cls)"
    show "field_fits (we_dir env) ?fm version features ob f"
    proof (rule field_fits_mono)
      show "field_fits (we_dir env) (fits_model n env custom version features) version features ob f"
        using ok(3) f by (simp add: fits_message_def list_all_iff)
      show "?fm m v" if "m \<in> set (models_in (mf_ann f))" "fits_model n env custom version features m v" for m v
        using that ok(1,2) f cls by (simp add: list_all_iff)
    qed
  qed
  moreover have "mc_name cls = c" "class_ok cls" "list_all (\<lambda>f. wire_field_ok (wire_field_of f)) (mc_fields cls)"
      "ordered_fields [] (mc_fields cls)" "map fst ob = map mf_name (mc_fields cls)"
    using ok cls by (simp_all add: list_all_iff fits_message_def)
  ultimately show ?thesis using body ctx by simp
qed

lemma plan_carries:
  "sound_class n env c \<Longrightarrow> ordered_class n env c \<Longrightarrow> fits_model n env custom version features c v \<Longrightarrow> settled ctx \<Longrightarrow>
   \<exists>bs. carries (fst (plan_codec n env version features) v) (snd (plan_codec n env version features) c ctx) v bs"
proof (induction n arbitrary: c v ctx)
  case (Suc n)
  obtain cls where cls: "we_class env c = Some cls" using Suc.prems(1) by (cases "we_class env c") simp_all
  have v: "class_of v = Some c" using Suc.prems(3) cls by simp
  show ?case
  proof (cases "can_compile cls")
    case False
    then obtain w r where "mc_codec cls = CustomCodec w r" by (cases "mc_codec cls") (simp_all add: can_compile_def)
    then show ?thesis using custom_carries cls Suc.prems(3,4) False v by (simp add: Let_def)
  next
    case True
    then obtain ob where ob: "v = PObj c ob" "fits_message n env custom version features cls ob" "\<not> is_request cls"
      using Suc.prems(3) cls v by (cases v) (simp_all add: class_of_def fits_message_def)
    have base: "mc_codec cls = BaseCodec" using True ob(3) by (cases "mc_codec cls") (simp_all add: can_compile_def is_request_def)
    have "\<not> log_sink ctx" using Suc.prems(4) by (simp add: settled_def)
    then have "\<exists>bs. carries (write_body env (snd (plan_codec n env version features)) (fst (plan_codec n env version features)) cls version features ob)
        (read_body env (snd (plan_codec n env version features)) (fst (plan_codec n env version features)) cls version features ctx) (PObj c ob) bs"
      by (intro class_body_carries [OF Suc.IH cls True Suc.prems(1,2) ob(2)])
    then show ?thesis using cls base ob(1) by (simp add: Let_def class_of_def attrs_of_def)
  qed
qed simp

text \<open>A message of the codec in use, compiled where it can be.\<close>

lemma message_body_carries:
  assumes cls: "we_class env c = Some cls" "can_compile cls"
    and ok: "sound_class (Suc n) env c" "ordered_class (Suc n) env c" "fits_message n env custom version features cls ob"
    and ctx: "\<not> log_sink ctx"
  obtains body bs where
    "to_writer (codecs_at (Suc n) env version features) (PObj c ob) =
      bind (if is_request cls then prelude_of env version (PObj c ob) else ret ()) (\<lambda>_. body)"
    "carries body (from_reader (codecs_at (Suc n) env version features) c ctx) (PObj c ob) bs"
proof -
  let ?wr = "fst (plan_codec n env version features)" and ?rd = "snd (plan_codec n env version features)"
  let ?body = "write_body env ?rd ?wr cls version features ob"
  have typed: "typed_model (Suc n) env version features c (PObj c ob)"
    by (rule message_typed [OF fits_typed cls ok(2,3)])
  note agree = codecs_agree [OF ok(1), of version features]
  have "\<exists>bs. carries ?body (read_body env ?rd ?wr cls version features ctx) (PObj c ob) bs"
    by (rule class_body_carries [OF plan_carries cls ok ctx])
  then obtain bs where "carries ?body (read_body env ?rd ?wr cls version features ctx) (PObj c ob) bs" ..
  moreover have "snd (plan_codec (Suc n) env version features) c ctx = read_body env ?rd ?wr cls version features ctx"
    using cls by (cases "mc_codec cls") (simp_all add: Let_def can_compile_def)
  moreover have "fst (plan_codec (Suc n) env version features) (PObj c ob) =
      bind (if is_request cls then prelude_of env version (PObj c ob) else ret ()) (\<lambda>_. ?body)"
    using cls by (cases "mc_codec cls") (simp_all add: Let_def can_compile_def class_of_def attrs_of_def prelude_of_def is_request_def)
  ultimately show ?thesis using that [of ?body bs] agree typed by (simp del: codecs_at.simps plan_codec.simps)
qed

lemma message_carries:
  assumes "we_class env c = Some cls" and "mc_codec cls = BaseCodec"
    and "sound_class (Suc n) env c" and "ordered_class (Suc n) env c" and "fits_message n env custom version features cls ob"
    and "\<not> log_sink ctx"
  shows "\<exists>bs. carries (to_writer (codecs_at (Suc n) env version features) (PObj c ob))
    (from_reader (codecs_at (Suc n) env version features) c ctx) (PObj c ob) bs"
proof -
  have can: "can_compile cls" using assms(2) by (simp add: can_compile_def)
  show ?thesis
    by (rule message_body_carries [OF assms(1) can assms(3-6)])
      (use assms(1,2) in \<open>auto simp: is_request_def simp del: codecs_at.simps\<close>)
qed

text \<open>A request: the reader of the operation code goes on with the class that the code names.\<close>

lemma request_carries:
  assumes "we_class env c = Some cls" and "mc_codec cls = RequestCodec op least"
    and "sound_class (Suc n) env c" and "ordered_class (Suc n) env c" and "fits_message n env custom version features cls ob"
    and "\<not> log_sink ctx" and "wire_int op" and "version = 0 \<or> least \<le> version"
    and "dispatch op = from_reader (codecs_at (Suc n) env version features) c ctx"
  shows "\<exists>bs. carries (to_writer (codecs_at (Suc n) env version features) (PObj c ob)) (bind read_uint64 dispatch)
    (PObj c ob) (uint64_bytes (nat op) @ bs)"
proof -
  have can: "can_compile cls" using assms(2) by (simp add: can_compile_def)
  obtain body bs where b: "to_writer (codecs_at (Suc n) env version features) (PObj c ob) =
      bind (if is_request cls then prelude_of env version (PObj c ob) else ret ()) (\<lambda>_. body)"
    "carries body (from_reader (codecs_at (Suc n) env version features) c ctx) (PObj c ob) bs"
    by (rule message_body_carries [OF assms(1) can assms(3-6)])
  have "prelude_of env version (PObj c ob) = write_uint64 op"
    using assms(1,2,8) by (auto simp: prelude_of_def class_of_def request_prelude_def)
  moreover have "is_request cls" using assms(2) by (simp add: is_request_def)
  moreover have "carries body (dispatch op) (PObj c ob) bs" using b(2) assms(9) by simp
  ultimately show ?thesis using carries_bind [where k = dispatch, OF carries_uint64 [OF assms(7)]] b(1) by (auto simp del: codecs_at.simps)
qed

end

end
