(* ===== verification/Wire_Messages.thy ===== *)
theory Wire_Messages
  imports Message_Roundtrip
begin

text \<open>
  The messages of the daemon protocol: the model, response and request classes of
  \<open>nix_daemon_protocol\<close> and of the extensions under \<open>pynixd/daemon_extensions\<close>, with their fields,
  annotations, versions, features and tests in the order of the source. The seven record classes of
  \<open>logs.py\<close> are in \<open>Log_Codec\<close>, which adds them to this table; here the log stream is the class \<open>WireLogs\<close>. Three classes have a codec of
  their own: \<open>WireLogs\<close>, \<open>Realisation\<close> (a JSON document, written and read by pydantic) and
  \<open>SingleDerivedPath\<close>. The table of these classes is the class environment of the codec, and every
  message that fits its class is read back as it was written.
\<close>

section \<open>Declarations\<close>

text \<open>\<open>proto\<close> and the versions and features of \<open>constants.py\<close>.\<close>

definition proto :: "int \<Rightarrow> int \<Rightarrow> int" where
  "proto major minor = major * 256 + minor"

definition MINIMUM_REMOTE_PROTOCOL :: int where
  "MINIMUM_REMOTE_PROTOCOL = proto 1 32"

definition FEATURE_EXCHANGE_PROTOCOL :: int where
  "FEATURE_EXCHANGE_PROTOCOL = proto 1 38"

definition FEATURE_REALISATION_WITH_PATH :: string where
  "FEATURE_REALISATION_WITH_PATH = ''realisation-with-path-not-hash''"

definition FEATURE_DELETE_DEAD_SPECIFIC_REFERRERS :: string where
  "FEATURE_DELETE_DEAD_SPECIFIC_REFERRERS = ''delete-dead-specific-referrers''"

definition FEATURE_PYNIXD_BUILD_RESOURCES :: string where
  "FEATURE_PYNIXD_BUILD_RESOURCES = ''pynixd-build-resources-2''"

text \<open>\<open>WireField\<close> with its arguments left out, and a field that is declared without it.\<close>

definition wire_meta :: VersionMeta where
  "wire_meta = \<lparr>min_version = None, max_version = None, serialize = None, deserialize = None, wire_depends_on = None,
     needs_features = None, unless_features = None, text_errors = Strict\<rparr>"

definition WireField :: "string \<Rightarrow> ann \<Rightarrow> field_default \<Rightarrow> VersionMeta \<Rightarrow> model_field" where
  "WireField n a d m = \<lparr>mf_name = n, mf_ann = a, mf_classvar = False, mf_meta = Some m, mf_default = d\<rparr>"

definition plain :: "string \<Rightarrow> ann \<Rightarrow> field_default \<Rightarrow> model_field" where
  "plain n a d = \<lparr>mf_name = n, mf_ann = a, mf_classvar = False, mf_meta = None, mf_default = d\<rparr>"

definition model :: "string \<Rightarrow> codec_kind \<Rightarrow> model_field list \<Rightarrow> model_class" where
  "model n k fs = \<lparr>mc_name = n, mc_fields = fs, mc_codec = k\<rparr>"

text \<open>A class called without arguments, as a default factory does.\<close>

definition default_object :: "model_class \<Rightarrow> pyval" where
  "default_object cls = PObj (mc_name cls) (map (\<lambda>f. (mf_name f, default_of f)) (mc_fields cls))"

section \<open>Models\<close>

definition GCAction_members :: "int list" where
  "GCAction_members = [0, 1, 2, 3]"

definition Verbosity_members :: "int list" where
  "Verbosity_members = [0, 1, 2, 3, 4, 5, 6, 7]"

definition PynixdGCAction_members :: "int list" where
  "PynixdGCAction_members = [0, 1]"

definition UnkeyedValidPathInfo_class :: model_class where
  "UnkeyedValidPathInfo_class = model ''UnkeyedValidPathInfo'' BaseCodec
     [WireField ''deriver'' (AOptional (AScalar C_StorePath)) (Default PNone) wire_meta,
      plain ''nar_hash'' (AScalar C_NARHash) NoDefault,
      plain ''references'' (ASet (AScalar C_StorePath)) NoDefault,
      plain ''registration_time'' (AUInt64 ''Time'') NoDefault,
      plain ''nar_size'' AInt NoDefault,
      plain ''ultimate'' ABool NoDefault,
      plain ''sigs'' (ASet (AScalar C_Signature)) NoDefault,
      plain ''ca'' (AScalar C_ContentAddress) NoDefault]"

definition ValidPathInfo_class :: model_class where
  "ValidPathInfo_class = model ''ValidPathInfo'' BaseCodec
     [plain ''path'' (AScalar C_StorePath) NoDefault,
      plain ''info'' (AModel ''UnkeyedValidPathInfo'') NoDefault]"

definition DerivationOutput_class :: model_class where
  "DerivationOutput_class = model ''DerivationOutput'' BaseCodec
     [plain ''path'' AStr NoDefault,
      plain ''method'' AStr (Default (PStr [])),
      plain ''hash_digest'' AStr (Default (PStr []))]"

definition BasicDerivation_class :: model_class where
  "BasicDerivation_class = model ''BasicDerivation'' BaseCodec
     [WireField ''outputs'' (ADict AStr (AModel ''DerivationOutput'')) (Factory (PDict [])) wire_meta,
      WireField ''input_srcs'' (ASet (AScalar C_StorePath)) (Factory (PSet [])) wire_meta,
      plain ''platform'' AStr NoDefault,
      plain ''builder'' AStr NoDefault,
      WireField ''args'' (AList AStr) (Factory (PList [])) wire_meta,
      WireField ''env'' (ADict AStr AStr) (Factory (PDict [])) wire_meta,
      WireField ''is_dynamic'' ABool (Default (PBool False))
        (wire_meta\<lparr>serialize := Some False, deserialize := Some False\<rparr>)]"

definition ResourceSample_class :: model_class where
  "ResourceSample_class = model ''ResourceSample'' BaseCodec
     [plain ''at_ms'' AInt (Default (PInt 0)),
      plain ''cpu_us'' AInt (Default (PInt 0)),
      plain ''memory_bytes'' AInt (Default (PInt 0)),
      plain ''io_read_bytes'' AInt (Default (PInt 0)),
      plain ''io_write_bytes'' AInt (Default (PInt 0))]"

definition OptMicroseconds_class :: model_class where
  "OptMicroseconds_class = model ''OptMicroseconds'' BaseCodec
     [plain ''tag'' AInt (Default (PInt 0)),
      WireField ''value'' (AOptional AInt) (Default PNone)
        (wire_meta\<lparr>wire_depends_on := Some (Equals ''tag'' (PInt 1))\<rparr>)]"

text \<open>The test of all fields of \<open>BuildResources\<close> but the first.\<close>

definition when_measured :: pred where
  "when_measured = Equals ''measured'' (PInt 1)"

definition BuildResources_class :: model_class where
  "BuildResources_class = model ''BuildResources'' BaseCodec
     [plain ''measured'' AInt (Default (PInt 0)),
      WireField ''source'' AStr (Default (PStr [])) (wire_meta\<lparr>wire_depends_on := Some when_measured\<rparr>),
      WireField ''cpu_user_us'' AInt (Default (PInt 0))
        (wire_meta\<lparr>wire_depends_on := Some when_measured\<rparr>),
      WireField ''cpu_system_us'' AInt (Default (PInt 0))
        (wire_meta\<lparr>wire_depends_on := Some when_measured\<rparr>),
      WireField ''peak_memory_bytes'' AInt (Default (PInt 0))
        (wire_meta\<lparr>wire_depends_on := Some when_measured\<rparr>),
      WireField ''io_read_bytes'' AInt (Default (PInt 0))
        (wire_meta\<lparr>wire_depends_on := Some when_measured\<rparr>),
      WireField ''io_write_bytes'' AInt (Default (PInt 0))
        (wire_meta\<lparr>wire_depends_on := Some when_measured\<rparr>),
      WireField ''cpu_stall'' (AModel ''OptMicroseconds'') (Factory (default_object OptMicroseconds_class))
        (wire_meta\<lparr>wire_depends_on := Some when_measured\<rparr>),
      WireField ''memory_stall'' (AModel ''OptMicroseconds'') (Factory (default_object OptMicroseconds_class))
        (wire_meta\<lparr>wire_depends_on := Some when_measured\<rparr>),
      WireField ''io_stall'' (AModel ''OptMicroseconds'') (Factory (default_object OptMicroseconds_class))
        (wire_meta\<lparr>wire_depends_on := Some when_measured\<rparr>),
      WireField ''samples'' (AList (AModel ''ResourceSample'')) (Factory (PList []))
        (wire_meta\<lparr>wire_depends_on := Some when_measured\<rparr>),
      WireField ''host_source'' AStr (Default (PStr []))
        (wire_meta\<lparr>wire_depends_on := Some when_measured\<rparr>),
      WireField ''host_cpu_user_us'' AInt (Default (PInt 0))
        (wire_meta\<lparr>wire_depends_on := Some (Both when_measured (Differs ''host_source'' (PStr [])))\<rparr>),
      WireField ''host_cpu_system_us'' AInt (Default (PInt 0))
        (wire_meta\<lparr>wire_depends_on := Some (Both when_measured (Differs ''host_source'' (PStr [])))\<rparr>),
      WireField ''host_peak_memory_bytes'' AInt (Default (PInt 0))
        (wire_meta\<lparr>wire_depends_on := Some (Both when_measured (Differs ''host_source'' (PStr [])))\<rparr>)]"

definition UnkeyedRealisation_class :: model_class where
  "UnkeyedRealisation_class = model ''UnkeyedRealisation'' BaseCodec
     [WireField ''out_path'' (AScalar C_StorePath) (Factory (PScalar C_StorePath [])) wire_meta,
      WireField ''signatures'' (ASet (AScalar C_Signature)) (Factory (PSet [])) wire_meta]"

definition BuildResult_class :: model_class where
  "BuildResult_class = model ''BuildResult'' BaseCodec
     [plain ''status'' AInt (Default (PInt 0)),
      WireField ''error_msg'' AStr (Default (PStr [])) (wire_meta\<lparr>text_errors := Surrogateescape\<rparr>),
      WireField ''times_built'' (AOptional AInt) (Default PNone)
        (wire_meta\<lparr>min_version := Some (proto 1 29)\<rparr>),
      WireField ''is_non_deterministic'' (AOptional AInt) (Default PNone)
        (wire_meta\<lparr>min_version := Some (proto 1 29)\<rparr>),
      WireField ''start_time'' (AOptional AInt) (Default PNone)
        (wire_meta\<lparr>min_version := Some (proto 1 29)\<rparr>),
      WireField ''stop_time'' (AOptional AInt) (Default PNone)
        (wire_meta\<lparr>min_version := Some (proto 1 29)\<rparr>),
      WireField ''cpu_user'' (AModel ''OptMicroseconds'') (Factory (default_object OptMicroseconds_class))
        (wire_meta\<lparr>min_version := Some (proto 1 37)\<rparr>),
      WireField ''cpu_system'' (AModel ''OptMicroseconds'') (Factory (default_object OptMicroseconds_class))
        (wire_meta\<lparr>min_version := Some (proto 1 37)\<rparr>),
      WireField ''built_outputs'' (AOptional (ADict AStr (AModel ''Realisation''))) (Default PNone)
        (wire_meta\<lparr>min_version := Some (proto 1 28), unless_features := Some [FEATURE_REALISATION_WITH_PATH]\<rparr>),
      WireField ''built_outputs_by_name'' (AOptional (ADict AStr (AModel ''UnkeyedRealisation''))) (Default PNone)
        (wire_meta\<lparr>needs_features := Some [FEATURE_REALISATION_WITH_PATH]\<rparr>),
      WireField ''resources'' (AModel ''BuildResources'') (Factory (default_object BuildResources_class))
        (wire_meta\<lparr>needs_features := Some [FEATURE_PYNIXD_BUILD_RESOURCES]\<rparr>)]"

definition KeyedBuildResult_class :: model_class where
  "KeyedBuildResult_class = model ''KeyedBuildResult'' BaseCodec
     [plain ''path'' (AScalar C_DerivedPath) NoDefault,
      plain ''result'' (AModel ''BuildResult'') NoDefault]"

definition GCPaths_class :: model_class where
  "GCPaths_class = model ''GCPaths'' BaseCodec
     [plain ''whole_store'' AInt (Default (PInt 0)),
      WireField ''paths'' (ASet (AScalar C_StorePath)) (Factory (PSet []))
        (wire_meta\<lparr>wire_depends_on := Some (Equals ''whole_store'' (PInt 0))\<rparr>),
      WireField ''delete_referrers'' AInt (Default (PInt 0))
        (wire_meta\<lparr>wire_depends_on := Some (Equals ''whole_store'' (PInt 0))\<rparr>)]"

definition FindRootsEntry_class :: model_class where
  "FindRootsEntry_class = model ''FindRootsEntry'' BaseCodec
     [plain ''link'' AStr NoDefault,
      plain ''target'' AStr NoDefault]"

definition KeyedDrvOutput_class :: model_class where
  "KeyedDrvOutput_class = model ''KeyedDrvOutput'' BaseCodec
     [WireField ''drv_path'' (AScalar C_StorePath) (Factory (PScalar C_StorePath [])) wire_meta,
      WireField ''output_name'' AStr (Default (PStr [])) wire_meta]"

definition UnkeyedSubstitutablePathInfo_class :: model_class where
  "UnkeyedSubstitutablePathInfo_class = model ''UnkeyedSubstitutablePathInfo'' BaseCodec
     [WireField ''deriver'' (AOptional (AScalar C_StorePath)) (Default PNone) wire_meta,
      WireField ''references'' (ASet (AScalar C_StorePath)) (Factory (PSet [])) wire_meta,
      WireField ''download_size'' AInt (Default (PInt 0)) wire_meta,
      WireField ''nar_size'' AInt (Default (PInt 0)) wire_meta]"

definition SubstitutablePathInfo_class :: model_class where
  "SubstitutablePathInfo_class = model ''SubstitutablePathInfo'' BaseCodec
     [plain ''path'' (AScalar C_StorePath) NoDefault,
      WireField ''deriver'' (AOptional (AScalar C_StorePath)) (Default PNone) wire_meta,
      WireField ''references'' (ASet (AScalar C_StorePath)) (Factory (PSet [])) wire_meta,
      WireField ''download_size'' AInt (Default (PInt 0)) wire_meta,
      WireField ''nar_size'' AInt (Default (PInt 0)) wire_meta]"

definition RootsReportRow_class :: model_class where
  "RootsReportRow_class = model ''RootsReportRow'' BaseCodec
     [plain ''label'' AStr (Default (PStr [])),
      plain ''full_paths'' AInt (Default (PInt 0)),
      plain ''full_bytes'' AInt (Default (PInt 0)),
      plain ''exclusive_paths'' AInt (Default (PInt 0)),
      plain ''exclusive_bytes'' AInt (Default (PInt 0))]"

section \<open>Models with a codec of their own\<close>

text \<open>\<open>Realisation\<close>: \<open>dump\<close> and \<open>load\<close> are pydantic's writer and reader of its JSON.\<close>

definition realisation_to_writer :: "(pyval \<Rightarrow> error + bytes) \<Rightarrow> writer" where
  "realisation_to_writer dump v = bind (of_result (dump v)) write_bytes"

definition realisation_from_reader :: "(bytes \<Rightarrow> error + pyval) \<Rightarrow> reader" where
  "realisation_from_reader load ctx = bind read_bytes (\<lambda>raw. of_result (load raw))"

definition Realisation_class :: "(pyval \<Rightarrow> error + bytes) \<Rightarrow> (bytes \<Rightarrow> error + pyval) \<Rightarrow> model_class" where
  "Realisation_class dump load =
     model ''Realisation'' (CustomCodec (realisation_to_writer dump) (realisation_from_reader load))
     [WireField ''id'' (AScalar C_DrvOutput) (Factory (PScalar C_DrvOutput [])) wire_meta,
      WireField ''out_path'' (AOptional (AScalar C_StorePath)) (Default PNone) wire_meta,
      WireField ''signatures'' (AList (AScalar C_Signature)) (Factory (PList [])) wire_meta,
      WireField ''dependent_realisations'' (ADict AStr AStr) (Factory (PDict [])) wire_meta]"

text \<open>
  \<open>SingleDerivedPath\<close>: a path and the outputs of the layers above it, innermost first (a tuple, a
  \<open>PList\<close> here). The reader calls itself once for each layer; every call takes eight bytes, so as many
  calls as there are bytes are enough.
\<close>

definition OPAQUE :: int where
  "OPAQUE = 0"

definition DERIVED_BUILT :: int where
  "DERIVED_BUILT = 1"

fun read_layers :: "nat \<Rightarrow> string \<Rightarrow> (LogMessage stream, pyval \<times> pyval list) eff" where
  "read_layers 0 sd = raise OutOfFuel"
| "read_layers (Suc n) sd = bind read_uint64 (\<lambda>tag.
     if tag = OPAQUE then
       bind read_string (\<lambda>s. bind (of_result (scalar_from_wire sd C_StorePath s)) (\<lambda>p. ret (p, [])))
     else if tag = DERIVED_BUILT then
       bind (read_layers n sd) (\<lambda>(p, outputs). bind read_string (\<lambda>output. ret (p, outputs @ [PStr output])))
     else raise (DaemonProtocolError (''Invalid tag '' @ decimal (nat tag) @ '' for single derived path'')))"

definition single_derived_path :: "pyval \<Rightarrow> pyval list \<Rightarrow> pyval" where
  "single_derived_path p outputs = PObj ''SingleDerivedPath'' [(''path'', Some p), (''outputs'', Some (PList outputs))]"

definition single_derived_path_from_reader :: "string \<Rightarrow> reader" where
  "single_derived_path_from_reader sd ctx = (\<lambda>s.
     bind (read_layers (Suc (length (unread s))) sd) (\<lambda>(p, outputs). ret (single_derived_path p outputs)) s)"

definition single_derived_path_to_writer :: "string \<Rightarrow> writer" where
  "single_derived_path_to_writer sd v =
     bind (of_result (andthen (getattr v ''outputs'') py_iter)) (\<lambda>outputs.
     bind (write_items (\<lambda>_. write_uint64 DERIVED_BUILT) outputs) (\<lambda>_.
     bind (write_uint64 OPAQUE) (\<lambda>_.
     bind (of_result (andthen (getattr v ''path'') (scalar_to_wire sd))) (\<lambda>s.
     bind (write_string s) (\<lambda>_.
     write_items (put_string sd) outputs)))))"

definition SingleDerivedPath_class :: "string \<Rightarrow> model_class" where
  "SingleDerivedPath_class sd =
     model ''SingleDerivedPath'' (CustomCodec (single_derived_path_to_writer sd) (single_derived_path_from_reader sd))
     [WireField ''path'' (AScalar C_StorePath) (Factory (PScalar C_StorePath [])) wire_meta,
      WireField ''outputs'' AOther (Default (PList [])) wire_meta]"

text \<open>\<open>WireLogs\<close>, the stream of log messages before the body of a response.\<close>

definition wire_logs_to_writer :: writer where
  "wire_logs_to_writer v = (case v of PLogs msgs \<Rightarrow> logs_to_writer msgs | _ \<Rightarrow> raise AttributeError)"

definition wire_logs_from_reader :: reader where
  "wire_logs_from_reader ctx = bind (logs_from_reader ctx) (\<lambda>msgs. ret (PLogs msgs))"

definition WireLogs_class :: model_class where
  "WireLogs_class = model ''WireLogs'' (CustomCodec wire_logs_to_writer wire_logs_from_reader) []"

text \<open>The field that every response starts with.\<close>

definition logs_field :: model_field where
  "logs_field = WireField ''logs'' (AModel ''WireLogs'') (Factory (PLogs [])) wire_meta"

section \<open>Responses\<close>

definition AddBuildLogResponse_class :: model_class where
  "AddBuildLogResponse_class = model ''AddBuildLogResponse'' BaseCodec
     [logs_field,
      plain ''value'' AInt NoDefault]"

definition AddIndirectRootResponse_class :: model_class where
  "AddIndirectRootResponse_class = model ''AddIndirectRootResponse'' BaseCodec
     [logs_field,
      plain ''value'' AInt NoDefault]"

definition AddMultipleToStoreResponse_class :: model_class where
  "AddMultipleToStoreResponse_class = model ''AddMultipleToStoreResponse'' BaseCodec
     [logs_field]"

definition AddPermRootResponse_class :: model_class where
  "AddPermRootResponse_class = model ''AddPermRootResponse'' BaseCodec
     [logs_field,
      plain ''gc_root'' AStr NoDefault]"

definition AddSignaturesResponse_class :: model_class where
  "AddSignaturesResponse_class = model ''AddSignaturesResponse'' BaseCodec
     [logs_field,
      plain ''value'' AInt NoDefault]"

definition AddTempRootResponse_class :: model_class where
  "AddTempRootResponse_class = model ''AddTempRootResponse'' BaseCodec
     [logs_field,
      plain ''value'' AInt NoDefault]"

definition AddTempRootsResponse_class :: model_class where
  "AddTempRootsResponse_class = model ''AddTempRootsResponse'' BaseCodec
     [logs_field,
      plain ''value'' AInt NoDefault]"

definition AddToStoreResponse_class :: model_class where
  "AddToStoreResponse_class = model ''AddToStoreResponse'' BaseCodec
     [logs_field,
      plain ''info'' (AModel ''ValidPathInfo'') NoDefault]"

definition AddToStoreNarResponse_class :: model_class where
  "AddToStoreNarResponse_class = model ''AddToStoreNarResponse'' BaseCodec
     [logs_field]"

definition AddToStoreScanningResponse_class :: model_class where
  "AddToStoreScanningResponse_class = model ''AddToStoreScanningResponse'' BaseCodec
     [logs_field,
      plain ''info'' (AModel ''ValidPathInfo'') NoDefault]"

definition BuildDerivationResponse_class :: model_class where
  "BuildDerivationResponse_class = model ''BuildDerivationResponse'' BaseCodec
     [logs_field,
      plain ''result'' (AModel ''BuildResult'') NoDefault]"

definition BuildPathsResponse_class :: model_class where
  "BuildPathsResponse_class = model ''BuildPathsResponse'' BaseCodec
     [logs_field,
      plain ''value'' AInt NoDefault]"

definition BuildPathsWithResultsResponse_class :: model_class where
  "BuildPathsWithResultsResponse_class = model ''BuildPathsWithResultsResponse'' BaseCodec
     [logs_field,
      WireField ''results'' (AList (AModel ''KeyedBuildResult'')) (Factory (PList [])) wire_meta]"

definition CollectGarbageResponse_class :: model_class where
  "CollectGarbageResponse_class = model ''CollectGarbageResponse'' BaseCodec
     [logs_field,
      WireField ''paths_deleted'' (ASet (AScalar C_StorePath)) (Factory (PSet [])) wire_meta,
      plain ''bytes_freed'' AInt NoDefault,
      plain ''obsolete'' AInt NoDefault]"

definition EnsurePathResponse_class :: model_class where
  "EnsurePathResponse_class = model ''EnsurePathResponse'' BaseCodec
     [logs_field,
      plain ''value'' AInt NoDefault]"

definition FindRootsResponse_class :: model_class where
  "FindRootsResponse_class = model ''FindRootsResponse'' BaseCodec
     [logs_field,
      WireField ''roots'' (AList (AModel ''FindRootsEntry'')) (Factory (PList [])) wire_meta]"

definition IsValidPathResponse_class :: model_class where
  "IsValidPathResponse_class = model ''IsValidPathResponse'' BaseCodec
     [logs_field,
      plain ''valid'' ABool NoDefault]"

definition NarFromPathResponse_class :: model_class where
  "NarFromPathResponse_class = model ''NarFromPathResponse'' BaseCodec
     [logs_field]"

definition OptimiseStoreResponse_class :: model_class where
  "OptimiseStoreResponse_class = model ''OptimiseStoreResponse'' BaseCodec
     [logs_field,
      plain ''value'' AInt NoDefault]"

definition QueryAllValidPathsResponse_class :: model_class where
  "QueryAllValidPathsResponse_class = model ''QueryAllValidPathsResponse'' BaseCodec
     [logs_field,
      WireField ''paths'' (ASet (AScalar C_StorePath)) (Factory (PSet [])) wire_meta]"

definition QueryDerivationOutputMapResponse_class :: model_class where
  "QueryDerivationOutputMapResponse_class = model ''QueryDerivationOutputMapResponse'' BaseCodec
     [logs_field,
      WireField ''items'' (ADict AStr (AScalar C_StorePath)) (Factory (PDict [])) wire_meta]"

definition QueryMissingResponse_class :: model_class where
  "QueryMissingResponse_class = model ''QueryMissingResponse'' BaseCodec
     [logs_field,
      WireField ''will_build'' (ASet (AScalar C_StorePath)) (Factory (PSet [])) wire_meta,
      WireField ''will_substitute'' (ASet (AScalar C_StorePath)) (Factory (PSet [])) wire_meta,
      WireField ''unknown'' (ASet (AScalar C_StorePath)) (Factory (PSet [])) wire_meta,
      plain ''download_size'' AInt NoDefault,
      plain ''nar_size'' AInt NoDefault]"

definition QueryPathFromHashPartResponse_class :: model_class where
  "QueryPathFromHashPartResponse_class = model ''QueryPathFromHashPartResponse'' BaseCodec
     [logs_field,
      plain ''value'' (AScalar C_StorePath) NoDefault]"

definition QueryPathInfoResponse_class :: model_class where
  "QueryPathInfoResponse_class = model ''QueryPathInfoResponse'' BaseCodec
     [logs_field,
      plain ''valid'' ABool NoDefault,
      WireField ''info'' (AOptional (AModel ''UnkeyedValidPathInfo'')) (Default PNone)
        (wire_meta\<lparr>wire_depends_on := Some (Holds ''valid'')\<rparr>)]"

definition QueryRealisationResponse_class :: model_class where
  "QueryRealisationResponse_class = model ''QueryRealisationResponse'' BaseCodec
     [logs_field,
      WireField ''realisations'' (AList (AModel ''Realisation'')) (Factory (PList []))
        (wire_meta\<lparr>unless_features := Some [FEATURE_REALISATION_WITH_PATH]\<rparr>),
      WireField ''present'' AInt (Default (PInt 0))
        (wire_meta\<lparr>needs_features := Some [FEATURE_REALISATION_WITH_PATH]\<rparr>),
      WireField ''realisation'' (AOptional (AModel ''UnkeyedRealisation'')) (Default PNone)
        (wire_meta\<lparr>needs_features := Some [FEATURE_REALISATION_WITH_PATH], wire_depends_on := Some (Equals ''present'' (PInt 1))\<rparr>)]"

definition QueryReferrersResponse_class :: model_class where
  "QueryReferrersResponse_class = model ''QueryReferrersResponse'' BaseCodec
     [logs_field,
      WireField ''paths'' (ASet (AScalar C_StorePath)) (Factory (PSet [])) wire_meta]"

definition QuerySubstitutablePathInfoResponse_class :: model_class where
  "QuerySubstitutablePathInfoResponse_class = model ''QuerySubstitutablePathInfoResponse'' BaseCodec
     [logs_field,
      WireField ''found'' ABool (Default (PBool False)) wire_meta,
      WireField ''info'' (AOptional (AModel ''UnkeyedSubstitutablePathInfo'')) (Default PNone)
        (wire_meta\<lparr>wire_depends_on := Some (Holds ''found'')\<rparr>)]"

definition QuerySubstitutablePathInfosResponse_class :: model_class where
  "QuerySubstitutablePathInfosResponse_class = model ''QuerySubstitutablePathInfosResponse'' BaseCodec
     [logs_field,
      WireField ''infos'' (AList (AModel ''SubstitutablePathInfo'')) (Factory (PList [])) wire_meta]"

definition QuerySubstitutablePathsResponse_class :: model_class where
  "QuerySubstitutablePathsResponse_class = model ''QuerySubstitutablePathsResponse'' BaseCodec
     [logs_field,
      WireField ''paths'' (ASet (AScalar C_StorePath)) (Factory (PSet [])) wire_meta]"

definition QueryValidDeriversResponse_class :: model_class where
  "QueryValidDeriversResponse_class = model ''QueryValidDeriversResponse'' BaseCodec
     [logs_field,
      WireField ''paths'' (ASet (AScalar C_StorePath)) (Factory (PSet [])) wire_meta]"

definition QueryValidPathsResponse_class :: model_class where
  "QueryValidPathsResponse_class = model ''QueryValidPathsResponse'' BaseCodec
     [logs_field,
      WireField ''paths'' (ASet (AScalar C_StorePath)) (Factory (PSet [])) wire_meta]"

definition RegisterDrvOutputResponse_class :: model_class where
  "RegisterDrvOutputResponse_class = model ''RegisterDrvOutputResponse'' BaseCodec
     [logs_field]"

definition SetOptionsResponse_class :: model_class where
  "SetOptionsResponse_class = model ''SetOptionsResponse'' BaseCodec
     [logs_field]"

definition SubmitOutputResponse_class :: model_class where
  "SubmitOutputResponse_class = model ''SubmitOutputResponse'' BaseCodec
     [logs_field,
      plain ''value'' AInt NoDefault]"

definition VerifyStoreResponse_class :: model_class where
  "VerifyStoreResponse_class = model ''VerifyStoreResponse'' BaseCodec
     [logs_field,
      plain ''value'' AInt NoDefault]"

definition ProbeFeaturesResponse_class :: model_class where
  "ProbeFeaturesResponse_class = model ''ProbeFeaturesResponse'' BaseCodec
     [logs_field,
      WireField ''feature_matrix'' (ADict AStr (ASet AStr)) (Factory (PDict [])) wire_meta]"

definition ProbeSystemsResponse_class :: model_class where
  "ProbeSystemsResponse_class = model ''ProbeSystemsResponse'' BaseCodec
     [logs_field,
      WireField ''systems'' (ASet AStr) (Factory (PSet [])) wire_meta]"

definition PynixdCollectGarbageResponse_class :: model_class where
  "PynixdCollectGarbageResponse_class = model ''PynixdCollectGarbageResponse'' BaseCodec
     [logs_field,
      WireField ''store_paths'' (ASet (AScalar C_StorePath)) (Factory (PSet [])) wire_meta,
      plain ''bytes'' AInt (Default (PInt 0))]"

definition PynixdHostHealthResponse_class :: model_class where
  "PynixdHostHealthResponse_class = model ''PynixdHostHealthResponse'' BaseCodec
     [logs_field,
      plain ''version'' AInt (Default (PInt 1)),
      plain ''payload'' AStr (Default (PStr []))]"

definition PynixdRootsReportResponse_class :: model_class where
  "PynixdRootsReportResponse_class = model ''PynixdRootsReportResponse'' BaseCodec
     [logs_field,
      WireField ''rows'' (AList (AModel ''RootsReportRow'')) (Factory (PList [])) wire_meta]"

definition PynixdStateResponse_class :: model_class where
  "PynixdStateResponse_class = model ''PynixdStateResponse'' BaseCodec
     [logs_field,
      plain ''version'' AInt (Default (PInt 1)),
      plain ''payload'' AStr (Default (PStr []))]"

definition QueryClosureResponse_class :: model_class where
  "QueryClosureResponse_class = model ''QueryClosureResponse'' BaseCodec
     [logs_field,
      WireField ''paths'' (ASet (AScalar C_StorePath)) (Factory (PSet [])) wire_meta]"

definition QueryClosureWithInfoResponse_class :: model_class where
  "QueryClosureWithInfoResponse_class = model ''QueryClosureWithInfoResponse'' BaseCodec
     [logs_field,
      WireField ''infos'' (AList (AModel ''ValidPathInfo'')) (Factory (PList [])) wire_meta]"

definition DerivationOutputMapBatchResponse_class :: model_class where
  "DerivationOutputMapBatchResponse_class = model ''DerivationOutputMapBatchResponse'' BaseCodec
     [logs_field,
      WireField ''outputs'' (ADict (AScalar C_StorePath) (ADict AStr (AScalar C_StorePath))) (Factory (PDict [])) wire_meta]"

definition QueryPathInfosResponse_class :: model_class where
  "QueryPathInfosResponse_class = model ''QueryPathInfosResponse'' BaseCodec
     [logs_field,
      WireField ''infos'' (AList (AModel ''ValidPathInfo'')) (Factory (PList [])) wire_meta]"

definition SignPathInfoResponse_class :: model_class where
  "SignPathInfoResponse_class = model ''SignPathInfoResponse'' BaseCodec
     [logs_field,
      plain ''info'' (AModel ''ValidPathInfo'') NoDefault]"

section \<open>Requests\<close>

definition AddBuildLogRequest_class :: model_class where
  "AddBuildLogRequest_class = model ''AddBuildLogRequest'' (RequestCodec 45 (proto 1 32))
     [plain ''path'' AStr NoDefault]"

definition AddIndirectRootRequest_class :: model_class where
  "AddIndirectRootRequest_class = model ''AddIndirectRootRequest'' (RequestCodec 12 MINIMUM_REMOTE_PROTOCOL)
     [plain ''path'' AStr NoDefault]"

definition AddMultipleToStoreRequest_class :: model_class where
  "AddMultipleToStoreRequest_class = model ''AddMultipleToStoreRequest'' (RequestCodec 44 (proto 1 32))
     [plain ''repair'' AInt NoDefault,
      plain ''dont_check_sigs'' AInt NoDefault]"

definition AddPermRootRequest_class :: model_class where
  "AddPermRootRequest_class = model ''AddPermRootRequest'' (RequestCodec 47 (proto 1 36))
     [plain ''store_path'' AStr NoDefault,
      plain ''gc_root'' AStr NoDefault]"

definition AddSignaturesRequest_class :: model_class where
  "AddSignaturesRequest_class = model ''AddSignaturesRequest'' (RequestCodec 37 MINIMUM_REMOTE_PROTOCOL)
     [plain ''path'' (AScalar C_StorePath) NoDefault,
      WireField ''sigs'' (ASet (AScalar C_Signature)) (Factory (PSet [])) wire_meta]"

definition AddTempRootRequest_class :: model_class where
  "AddTempRootRequest_class = model ''AddTempRootRequest'' (RequestCodec 11 MINIMUM_REMOTE_PROTOCOL)
     [plain ''path'' (AScalar C_StorePath) NoDefault]"

definition AddTempRootsRequest_class :: model_class where
  "AddTempRootsRequest_class = model ''AddTempRootsRequest'' (RequestCodec 49 (proto 1 38))
     [plain ''paths'' (ASet (AScalar C_StorePath)) NoDefault]"

definition AddToStoreRequest_class :: model_class where
  "AddToStoreRequest_class = model ''AddToStoreRequest'' (RequestCodec 7 MINIMUM_REMOTE_PROTOCOL)
     [plain ''path_name'' AStr NoDefault,
      plain ''cam'' (AScalar C_ContentAddress) NoDefault,
      plain ''references'' (ASet (AScalar C_StorePath)) NoDefault,
      plain ''repair'' AInt NoDefault]"

definition AddToStoreNarRequest_class :: model_class where
  "AddToStoreNarRequest_class = model ''AddToStoreNarRequest'' (RequestCodec 39 MINIMUM_REMOTE_PROTOCOL)
     [plain ''info'' (AModel ''ValidPathInfo'') NoDefault,
      plain ''repair'' AInt NoDefault,
      plain ''dont_check_sigs'' AInt NoDefault]"

definition AddToStoreScanningRequest_class :: model_class where
  "AddToStoreScanningRequest_class = model ''AddToStoreScanningRequest'' (RequestCodec 1001 FEATURE_EXCHANGE_PROTOCOL)
     [plain ''path_name'' AStr NoDefault,
      plain ''cam'' (AScalar C_ContentAddress) NoDefault]"

definition BuildDerivationRequest_class :: model_class where
  "BuildDerivationRequest_class = model ''BuildDerivationRequest'' (RequestCodec 36 MINIMUM_REMOTE_PROTOCOL)
     [plain ''drv_path'' (AScalar C_StorePath) NoDefault,
      plain ''derivation'' (AModel ''BasicDerivation'') NoDefault,
      plain ''build_mode'' AInt NoDefault]"

definition BuildPathsRequest_class :: model_class where
  "BuildPathsRequest_class = model ''BuildPathsRequest'' (RequestCodec 9 MINIMUM_REMOTE_PROTOCOL)
     [WireField ''derived_paths'' (AList (AScalar C_DerivedPath)) (Factory (PList [])) wire_meta,
      plain ''build_mode'' AInt NoDefault]"

definition BuildPathsWithResultsRequest_class :: model_class where
  "BuildPathsWithResultsRequest_class = model ''BuildPathsWithResultsRequest'' (RequestCodec 46 (proto 1 34))
     [WireField ''derived_paths'' (AList (AScalar C_DerivedPath)) (Factory (PList [])) wire_meta,
      plain ''build_mode'' AInt NoDefault]"

definition CollectGarbageRequest_class :: model_class where
  "CollectGarbageRequest_class = model ''CollectGarbageRequest'' (RequestCodec 20 MINIMUM_REMOTE_PROTOCOL)
     [plain ''action'' (AEnum ''GCAction'' GCAction_members) NoDefault,
      WireField ''paths_to_delete'' (ASet (AScalar C_StorePath)) (Factory (PSet []))
        (wire_meta\<lparr>unless_features := Some [FEATURE_DELETE_DEAD_SPECIFIC_REFERRERS]\<rparr>),
      WireField ''gc_paths'' (AOptional (AModel ''GCPaths'')) (Default PNone)
        (wire_meta\<lparr>needs_features := Some [FEATURE_DELETE_DEAD_SPECIFIC_REFERRERS]\<rparr>),
      plain ''ignore_liveness'' AInt NoDefault,
      plain ''max_freed'' AInt NoDefault,
      plain ''obsolete1'' AInt NoDefault,
      plain ''obsolete2'' AInt NoDefault,
      plain ''obsolete3'' AInt NoDefault]"

definition EnsurePathRequest_class :: model_class where
  "EnsurePathRequest_class = model ''EnsurePathRequest'' (RequestCodec 10 MINIMUM_REMOTE_PROTOCOL)
     [plain ''path'' (AScalar C_StorePath) NoDefault]"

definition FindRootsRequest_class :: model_class where
  "FindRootsRequest_class = model ''FindRootsRequest'' (RequestCodec 14 MINIMUM_REMOTE_PROTOCOL)
     []"

definition IsValidPathRequest_class :: model_class where
  "IsValidPathRequest_class = model ''IsValidPathRequest'' (RequestCodec 1 MINIMUM_REMOTE_PROTOCOL)
     [plain ''path'' (AScalar C_StorePath) NoDefault]"

definition NarFromPathRequest_class :: model_class where
  "NarFromPathRequest_class = model ''NarFromPathRequest'' (RequestCodec 38 MINIMUM_REMOTE_PROTOCOL)
     [plain ''path'' (AScalar C_StorePath) NoDefault]"

definition OptimiseStoreRequest_class :: model_class where
  "OptimiseStoreRequest_class = model ''OptimiseStoreRequest'' (RequestCodec 34 MINIMUM_REMOTE_PROTOCOL)
     []"

definition QueryAllValidPathsRequest_class :: model_class where
  "QueryAllValidPathsRequest_class = model ''QueryAllValidPathsRequest'' (RequestCodec 23 MINIMUM_REMOTE_PROTOCOL)
     []"

definition QueryDerivationOutputMapRequest_class :: model_class where
  "QueryDerivationOutputMapRequest_class = model ''QueryDerivationOutputMapRequest'' (RequestCodec 41 MINIMUM_REMOTE_PROTOCOL)
     [plain ''path'' (AScalar C_StorePath) NoDefault]"

definition QueryMissingRequest_class :: model_class where
  "QueryMissingRequest_class = model ''QueryMissingRequest'' (RequestCodec 40 MINIMUM_REMOTE_PROTOCOL)
     [WireField ''derived_paths'' (ASet (AScalar C_DerivedPath)) (Factory (PSet [])) wire_meta]"

definition QueryPathFromHashPartRequest_class :: model_class where
  "QueryPathFromHashPartRequest_class = model ''QueryPathFromHashPartRequest'' (RequestCodec 29 MINIMUM_REMOTE_PROTOCOL)
     [plain ''path'' AStr NoDefault]"

definition QueryPathInfoRequest_class :: model_class where
  "QueryPathInfoRequest_class = model ''QueryPathInfoRequest'' (RequestCodec 26 MINIMUM_REMOTE_PROTOCOL)
     [plain ''path'' (AScalar C_StorePath) NoDefault]"

definition QueryRealisationRequest_class :: model_class where
  "QueryRealisationRequest_class = model ''QueryRealisationRequest'' (RequestCodec 43 MINIMUM_REMOTE_PROTOCOL)
     [WireField ''drv_output'' (AOptional (AScalar C_DrvOutput)) (Default PNone)
        (wire_meta\<lparr>unless_features := Some [FEATURE_REALISATION_WITH_PATH]\<rparr>),
      WireField ''keyed_drv_output'' (AOptional (AModel ''KeyedDrvOutput'')) (Default PNone)
        (wire_meta\<lparr>needs_features := Some [FEATURE_REALISATION_WITH_PATH]\<rparr>)]"

definition QueryReferrersRequest_class :: model_class where
  "QueryReferrersRequest_class = model ''QueryReferrersRequest'' (RequestCodec 6 MINIMUM_REMOTE_PROTOCOL)
     [plain ''path'' (AScalar C_StorePath) NoDefault]"

definition QuerySubstitutablePathInfoRequest_class :: model_class where
  "QuerySubstitutablePathInfoRequest_class = model ''QuerySubstitutablePathInfoRequest'' (RequestCodec 21 MINIMUM_REMOTE_PROTOCOL)
     [plain ''path'' (AScalar C_StorePath) NoDefault]"

definition QuerySubstitutablePathInfosRequest_class :: model_class where
  "QuerySubstitutablePathInfosRequest_class = model ''QuerySubstitutablePathInfosRequest'' (RequestCodec 30 MINIMUM_REMOTE_PROTOCOL)
     [WireField ''paths'' (ADict (AScalar C_StorePath) (AScalar C_ContentAddress)) (Factory (PDict [])) wire_meta]"

definition QuerySubstitutablePathsRequest_class :: model_class where
  "QuerySubstitutablePathsRequest_class = model ''QuerySubstitutablePathsRequest'' (RequestCodec 32 MINIMUM_REMOTE_PROTOCOL)
     [WireField ''paths'' (ASet (AScalar C_StorePath)) (Factory (PSet [])) wire_meta]"

definition QueryValidDeriversRequest_class :: model_class where
  "QueryValidDeriversRequest_class = model ''QueryValidDeriversRequest'' (RequestCodec 33 MINIMUM_REMOTE_PROTOCOL)
     [plain ''path'' (AScalar C_StorePath) NoDefault]"

definition QueryValidPathsRequest_class :: model_class where
  "QueryValidPathsRequest_class = model ''QueryValidPathsRequest'' (RequestCodec 31 MINIMUM_REMOTE_PROTOCOL)
     [WireField ''paths'' (ASet (AScalar C_StorePath)) (Factory (PSet [])) wire_meta,
      WireField ''substitute'' (AOptional AInt) (Default PNone)
        (wire_meta\<lparr>min_version := Some (proto 1 27)\<rparr>)]"

definition RegisterDrvOutputRequest_class :: model_class where
  "RegisterDrvOutputRequest_class = model ''RegisterDrvOutputRequest'' (RequestCodec 42 MINIMUM_REMOTE_PROTOCOL)
     [WireField ''realisation'' (AOptional (AModel ''Realisation'')) (Default PNone)
        (wire_meta\<lparr>unless_features := Some [FEATURE_REALISATION_WITH_PATH]\<rparr>),
      WireField ''keyed_drv_output'' (AOptional (AModel ''KeyedDrvOutput'')) (Default PNone)
        (wire_meta\<lparr>needs_features := Some [FEATURE_REALISATION_WITH_PATH]\<rparr>),
      WireField ''unkeyed_realisation'' (AOptional (AModel ''UnkeyedRealisation'')) (Default PNone)
        (wire_meta\<lparr>needs_features := Some [FEATURE_REALISATION_WITH_PATH]\<rparr>)]"

definition SetOptionsRequest_class :: model_class where
  "SetOptionsRequest_class = model ''SetOptionsRequest'' (RequestCodec 19 MINIMUM_REMOTE_PROTOCOL)
     [plain ''keep_failed'' AInt NoDefault,
      plain ''keep_going'' AInt NoDefault,
      plain ''try_fallback'' AInt NoDefault,
      plain ''verbosity'' (AEnum ''Verbosity'' Verbosity_members) NoDefault,
      plain ''max_build_jobs'' AInt NoDefault,
      plain ''max_silent_time'' (AUInt64 ''TimeSpan'') NoDefault,
      plain ''obsolete_use_build_hook'' AInt NoDefault,
      plain ''build_verbosity'' (AEnum ''Verbosity'' Verbosity_members) NoDefault,
      plain ''obsolete_log_type'' AInt NoDefault,
      plain ''obsolete_print_build_trace'' AInt NoDefault,
      plain ''build_cores'' AInt NoDefault,
      plain ''use_substitutes'' AInt NoDefault,
      WireField ''overrides'' (ADict AStr AStr) (Factory (PDict []))
        (wire_meta\<lparr>min_version := Some (proto 1 12)\<rparr>)]"

definition SubmitOutputRequest_class :: model_class where
  "SubmitOutputRequest_class = model ''SubmitOutputRequest'' (RequestCodec 1000 FEATURE_EXCHANGE_PROTOCOL)
     [plain ''path'' (AModel ''SingleDerivedPath'') NoDefault,
      plain ''output'' AStr NoDefault]"

definition VerifyStoreRequest_class :: model_class where
  "VerifyStoreRequest_class = model ''VerifyStoreRequest'' (RequestCodec 35 MINIMUM_REMOTE_PROTOCOL)
     [plain ''check_contents'' AInt NoDefault,
      plain ''repair'' AInt NoDefault]"

definition ProbeFeaturesRequest_class :: model_class where
  "ProbeFeaturesRequest_class = model ''ProbeFeaturesRequest'' (RequestCodec 109 MINIMUM_REMOTE_PROTOCOL)
     [WireField ''systems'' (ASet AStr) (Factory (PSet [])) wire_meta,
      WireField ''system_features'' (ASet AStr) (Factory (PSet [])) wire_meta]"

definition ProbeSystemsRequest_class :: model_class where
  "ProbeSystemsRequest_class = model ''ProbeSystemsRequest'' (RequestCodec 108 MINIMUM_REMOTE_PROTOCOL)
     [WireField ''systems'' (ASet AStr) (Factory (PSet [])) wire_meta]"

definition PynixdCollectGarbageRequest_class :: model_class where
  "PynixdCollectGarbageRequest_class = model ''PynixdCollectGarbageRequest'' (RequestCodec 101 MINIMUM_REMOTE_PROTOCOL)
     [plain ''action'' (AEnum ''PynixdGCAction'' PynixdGCAction_members) NoDefault,
      plain ''has_limit'' ABool (Default (PBool False)),
      plain ''limit'' AInt (Default (PInt 0))]"

definition PynixdHostHealthRequest_class :: model_class where
  "PynixdHostHealthRequest_class = model ''PynixdHostHealthRequest'' (RequestCodec 112 MINIMUM_REMOTE_PROTOCOL)
     [plain ''version'' AInt (Default (PInt 1))]"

definition PynixdHostHealthStreamRequest_class :: model_class where
  "PynixdHostHealthStreamRequest_class = model ''PynixdHostHealthStreamRequest'' (RequestCodec 113 MINIMUM_REMOTE_PROTOCOL)
     [plain ''version'' AInt (Default (PInt 1)),
      plain ''interval_ms'' AInt (Default (PInt 2000))]"

definition PynixdRootsReportRequest_class :: model_class where
  "PynixdRootsReportRequest_class = model ''PynixdRootsReportRequest'' (RequestCodec 110 MINIMUM_REMOTE_PROTOCOL)
     []"

definition PynixdStateRequest_class :: model_class where
  "PynixdStateRequest_class = model ''PynixdStateRequest'' (RequestCodec 111 MINIMUM_REMOTE_PROTOCOL)
     [plain ''version'' AInt (Default (PInt 1)),
      WireField ''wants'' (AList AStr) (Factory (PList [])) wire_meta,
      plain ''federated'' ABool (Default (PBool False))]"

definition QueryClosureRequest_class :: model_class where
  "QueryClosureRequest_class = model ''QueryClosureRequest'' (RequestCodec 104 MINIMUM_REMOTE_PROTOCOL)
     [WireField ''paths'' (ASet (AScalar C_StorePath)) (Factory (PSet [])) wire_meta]"

definition QueryClosureWithInfoRequest_class :: model_class where
  "QueryClosureWithInfoRequest_class = model ''QueryClosureWithInfoRequest'' (RequestCodec 105 MINIMUM_REMOTE_PROTOCOL)
     [WireField ''paths'' (ASet (AScalar C_StorePath)) (Factory (PSet [])) wire_meta]"

definition QueryDerivationOutputMapBatchRequest_class :: model_class where
  "QueryDerivationOutputMapBatchRequest_class = model ''QueryDerivationOutputMapBatchRequest'' (RequestCodec 106 MINIMUM_REMOTE_PROTOCOL)
     [WireField ''drv_paths'' (ASet (AScalar C_StorePath)) (Factory (PSet [])) wire_meta]"

definition QueryPathInfosRequest_class :: model_class where
  "QueryPathInfosRequest_class = model ''QueryPathInfosRequest'' (RequestCodec 103 MINIMUM_REMOTE_PROTOCOL)
     [WireField ''paths'' (ASet (AScalar C_StorePath)) (Factory (PSet [])) wire_meta]"

definition SignPathInfoRequest_class :: model_class where
  "SignPathInfoRequest_class = model ''SignPathInfoRequest'' (RequestCodec 107 MINIMUM_REMOTE_PROTOCOL)
     [plain ''info'' (AModel ''ValidPathInfo'') NoDefault]"

section \<open>The class table\<close>

definition model_classes :: "model_class list" where
  "model_classes =
     [UnkeyedValidPathInfo_class, ValidPathInfo_class, DerivationOutput_class, BasicDerivation_class,
      ResourceSample_class, OptMicroseconds_class, BuildResources_class, UnkeyedRealisation_class,
      BuildResult_class, KeyedBuildResult_class, GCPaths_class, FindRootsEntry_class, KeyedDrvOutput_class,
      UnkeyedSubstitutablePathInfo_class, SubstitutablePathInfo_class, RootsReportRow_class]"

definition response_classes :: "model_class list" where
  "response_classes =
     [AddBuildLogResponse_class, AddIndirectRootResponse_class, AddMultipleToStoreResponse_class,
      AddPermRootResponse_class, AddSignaturesResponse_class, AddTempRootResponse_class,
      AddTempRootsResponse_class, AddToStoreResponse_class, AddToStoreNarResponse_class,
      AddToStoreScanningResponse_class, BuildDerivationResponse_class, BuildPathsResponse_class,
      BuildPathsWithResultsResponse_class, CollectGarbageResponse_class, EnsurePathResponse_class,
      FindRootsResponse_class, IsValidPathResponse_class, NarFromPathResponse_class,
      OptimiseStoreResponse_class, QueryAllValidPathsResponse_class, QueryDerivationOutputMapResponse_class,
      QueryMissingResponse_class, QueryPathFromHashPartResponse_class, QueryPathInfoResponse_class,
      QueryRealisationResponse_class, QueryReferrersResponse_class, QuerySubstitutablePathInfoResponse_class,
      QuerySubstitutablePathInfosResponse_class, QuerySubstitutablePathsResponse_class,
      QueryValidDeriversResponse_class, QueryValidPathsResponse_class, RegisterDrvOutputResponse_class,
      SetOptionsResponse_class, SubmitOutputResponse_class, VerifyStoreResponse_class,
      ProbeFeaturesResponse_class, ProbeSystemsResponse_class, PynixdCollectGarbageResponse_class,
      PynixdHostHealthResponse_class, PynixdRootsReportResponse_class, PynixdStateResponse_class,
      QueryClosureResponse_class, QueryClosureWithInfoResponse_class, DerivationOutputMapBatchResponse_class,
      QueryPathInfosResponse_class, SignPathInfoResponse_class]"

definition request_classes :: "model_class list" where
  "request_classes =
     [AddBuildLogRequest_class, AddIndirectRootRequest_class, AddMultipleToStoreRequest_class,
      AddPermRootRequest_class, AddSignaturesRequest_class, AddTempRootRequest_class,
      AddTempRootsRequest_class, AddToStoreRequest_class, AddToStoreNarRequest_class,
      AddToStoreScanningRequest_class, BuildDerivationRequest_class, BuildPathsRequest_class,
      BuildPathsWithResultsRequest_class, CollectGarbageRequest_class, EnsurePathRequest_class,
      FindRootsRequest_class, IsValidPathRequest_class, NarFromPathRequest_class, OptimiseStoreRequest_class,
      QueryAllValidPathsRequest_class, QueryDerivationOutputMapRequest_class, QueryMissingRequest_class,
      QueryPathFromHashPartRequest_class, QueryPathInfoRequest_class, QueryRealisationRequest_class,
      QueryReferrersRequest_class, QuerySubstitutablePathInfoRequest_class,
      QuerySubstitutablePathInfosRequest_class, QuerySubstitutablePathsRequest_class,
      QueryValidDeriversRequest_class, QueryValidPathsRequest_class, RegisterDrvOutputRequest_class,
      SetOptionsRequest_class, SubmitOutputRequest_class, VerifyStoreRequest_class, ProbeFeaturesRequest_class,
      ProbeSystemsRequest_class, PynixdCollectGarbageRequest_class, PynixdHostHealthRequest_class,
      PynixdHostHealthStreamRequest_class, PynixdRootsReportRequest_class, PynixdStateRequest_class,
      QueryClosureRequest_class, QueryClosureWithInfoRequest_class, QueryDerivationOutputMapBatchRequest_class,
      QueryPathInfosRequest_class, SignPathInfoRequest_class]"

text \<open>The table, without the records of \<open>logs.py\<close>; \<open>declared_env\<close> of \<open>Log_Codec\<close> has those too.\<close>

definition wire_classes ::
    "string \<Rightarrow> (pyval \<Rightarrow> error + bytes) \<Rightarrow> (bytes \<Rightarrow> error + pyval) \<Rightarrow> model_class list" where
  "wire_classes sd dump load = [WireLogs_class, Realisation_class dump load, SingleDerivedPath_class sd]
     @ model_classes @ response_classes @ request_classes"

definition protocol_env ::
    "string \<Rightarrow> (pyval \<Rightarrow> error + bytes) \<Rightarrow> (bytes \<Rightarrow> error + pyval) \<Rightarrow> wire_env" where
  "protocol_env sd dump load =
     \<lparr>we_dir = sd, we_class = (\<lambda>c. find (\<lambda>cls. mc_name cls = c) (wire_classes sd dump load))\<rparr>"

text \<open>\<open>cls.op\<close> of a request class.\<close>

definition request_code :: "model_class \<Rightarrow> int option" where
  "request_code cls = (case mc_codec cls of RequestCodec code _ \<Rightarrow> Some code | _ \<Rightarrow> None)"

text \<open>\<open>WIRE_REGISTRY\<close>: the request class of an operation code.\<close>

definition WIRE_REGISTRY :: "int \<Rightarrow> string option" where
  "WIRE_REGISTRY op = map_option mc_name (find (\<lambda>cls. request_code cls = Some op) request_classes)"

text \<open>
  How a server reads a request: the operation code, the class that the registry has for it, the body.
  The session answers an unknown code with this error and ends.
\<close>

definition read_request :: "codecs \<Rightarrow> reader" where
  "read_request cs ctx = bind read_uint64 (\<lambda>op. case WIRE_REGISTRY op of
     None \<Rightarrow> raise (DaemonProtocolError (''Unsupported operation: '' @ decimal (nat op)))
   | Some c \<Rightarrow> from_reader cs c ctx)"

end
