(* ===== verification/Message_Table.thy ===== *)
theory Message_Table
  imports Wire_Messages
begin

text \<open>
  The class table of \<open>Wire_Messages\<close> meets what the theorems on the codec ask for: the fields are
  declared in an order in which their tests can be evaluated, the models nest to a bounded depth and
  the three classes with a codec of their own carry their values. So a message
  that fits its class comes back as it was written, and a request is dispatched to its class, with the fields
  that its connection has. \<open>Log_Codec\<close> adds the records of the log stream to the table.
\<close>

section \<open>The table is sound\<close>

lemma class_names [simp]:
  "mc_name WireLogs_class = ''WireLogs''" "mc_name (Realisation_class dump load) = ''Realisation''"
  "mc_name (SingleDerivedPath_class sd) = ''SingleDerivedPath''"
  "mc_name UnkeyedValidPathInfo_class = ''UnkeyedValidPathInfo''"
  "mc_name ValidPathInfo_class = ''ValidPathInfo''"
  "mc_name DerivationOutput_class = ''DerivationOutput''"
  "mc_name BasicDerivation_class = ''BasicDerivation''"
  "mc_name ResourceSample_class = ''ResourceSample''"
  "mc_name OptMicroseconds_class = ''OptMicroseconds''"
  "mc_name BuildResources_class = ''BuildResources''"
  "mc_name UnkeyedRealisation_class = ''UnkeyedRealisation''"
  "mc_name BuildResult_class = ''BuildResult''"
  "mc_name KeyedBuildResult_class = ''KeyedBuildResult''"
  "mc_name GCPaths_class = ''GCPaths''"
  "mc_name FindRootsEntry_class = ''FindRootsEntry''"
  "mc_name KeyedDrvOutput_class = ''KeyedDrvOutput''"
  "mc_name UnkeyedSubstitutablePathInfo_class = ''UnkeyedSubstitutablePathInfo''"
  "mc_name SubstitutablePathInfo_class = ''SubstitutablePathInfo''"
  "mc_name RootsReportRow_class = ''RootsReportRow''"
  "mc_name AddBuildLogResponse_class = ''AddBuildLogResponse''"
  "mc_name AddIndirectRootResponse_class = ''AddIndirectRootResponse''"
  "mc_name AddMultipleToStoreResponse_class = ''AddMultipleToStoreResponse''"
  "mc_name AddPermRootResponse_class = ''AddPermRootResponse''"
  "mc_name AddSignaturesResponse_class = ''AddSignaturesResponse''"
  "mc_name AddTempRootResponse_class = ''AddTempRootResponse''"
  "mc_name AddTempRootsResponse_class = ''AddTempRootsResponse''"
  "mc_name AddToStoreResponse_class = ''AddToStoreResponse''"
  "mc_name AddToStoreNarResponse_class = ''AddToStoreNarResponse''"
  "mc_name AddToStoreScanningResponse_class = ''AddToStoreScanningResponse''"
  "mc_name BuildDerivationResponse_class = ''BuildDerivationResponse''"
  "mc_name BuildPathsResponse_class = ''BuildPathsResponse''"
  "mc_name BuildPathsWithResultsResponse_class = ''BuildPathsWithResultsResponse''"
  "mc_name CollectGarbageResponse_class = ''CollectGarbageResponse''"
  "mc_name EnsurePathResponse_class = ''EnsurePathResponse''"
  "mc_name FindRootsResponse_class = ''FindRootsResponse''"
  "mc_name IsValidPathResponse_class = ''IsValidPathResponse''"
  "mc_name NarFromPathResponse_class = ''NarFromPathResponse''"
  "mc_name OptimiseStoreResponse_class = ''OptimiseStoreResponse''"
  "mc_name QueryAllValidPathsResponse_class = ''QueryAllValidPathsResponse''"
  "mc_name QueryDerivationOutputMapResponse_class = ''QueryDerivationOutputMapResponse''"
  "mc_name QueryMissingResponse_class = ''QueryMissingResponse''"
  "mc_name QueryPathFromHashPartResponse_class = ''QueryPathFromHashPartResponse''"
  "mc_name QueryPathInfoResponse_class = ''QueryPathInfoResponse''"
  "mc_name QueryRealisationResponse_class = ''QueryRealisationResponse''"
  "mc_name QueryReferrersResponse_class = ''QueryReferrersResponse''"
  "mc_name QuerySubstitutablePathInfoResponse_class = ''QuerySubstitutablePathInfoResponse''"
  "mc_name QuerySubstitutablePathInfosResponse_class = ''QuerySubstitutablePathInfosResponse''"
  "mc_name QuerySubstitutablePathsResponse_class = ''QuerySubstitutablePathsResponse''"
  "mc_name QueryValidDeriversResponse_class = ''QueryValidDeriversResponse''"
  "mc_name QueryValidPathsResponse_class = ''QueryValidPathsResponse''"
  "mc_name RegisterDrvOutputResponse_class = ''RegisterDrvOutputResponse''"
  "mc_name SetOptionsResponse_class = ''SetOptionsResponse''"
  "mc_name SubmitOutputResponse_class = ''SubmitOutputResponse''"
  "mc_name VerifyStoreResponse_class = ''VerifyStoreResponse''"
  "mc_name ProbeFeaturesResponse_class = ''ProbeFeaturesResponse''"
  "mc_name ProbeSystemsResponse_class = ''ProbeSystemsResponse''"
  "mc_name PynixdCollectGarbageResponse_class = ''PynixdCollectGarbageResponse''"
  "mc_name PynixdHostHealthResponse_class = ''PynixdHostHealthResponse''"
  "mc_name PynixdRootsReportResponse_class = ''PynixdRootsReportResponse''"
  "mc_name PynixdStateResponse_class = ''PynixdStateResponse''"
  "mc_name QueryClosureResponse_class = ''QueryClosureResponse''"
  "mc_name QueryClosureWithInfoResponse_class = ''QueryClosureWithInfoResponse''"
  "mc_name DerivationOutputMapBatchResponse_class = ''DerivationOutputMapBatchResponse''"
  "mc_name QueryPathInfosResponse_class = ''QueryPathInfosResponse''"
  "mc_name SignPathInfoResponse_class = ''SignPathInfoResponse''"
  "mc_name AddBuildLogRequest_class = ''AddBuildLogRequest''"
  "mc_name AddIndirectRootRequest_class = ''AddIndirectRootRequest''"
  "mc_name AddMultipleToStoreRequest_class = ''AddMultipleToStoreRequest''"
  "mc_name AddPermRootRequest_class = ''AddPermRootRequest''"
  "mc_name AddSignaturesRequest_class = ''AddSignaturesRequest''"
  "mc_name AddTempRootRequest_class = ''AddTempRootRequest''"
  "mc_name AddTempRootsRequest_class = ''AddTempRootsRequest''"
  "mc_name AddToStoreRequest_class = ''AddToStoreRequest''"
  "mc_name AddToStoreNarRequest_class = ''AddToStoreNarRequest''"
  "mc_name AddToStoreScanningRequest_class = ''AddToStoreScanningRequest''"
  "mc_name BuildDerivationRequest_class = ''BuildDerivationRequest''"
  "mc_name BuildPathsRequest_class = ''BuildPathsRequest''"
  "mc_name BuildPathsWithResultsRequest_class = ''BuildPathsWithResultsRequest''"
  "mc_name CollectGarbageRequest_class = ''CollectGarbageRequest''"
  "mc_name EnsurePathRequest_class = ''EnsurePathRequest''"
  "mc_name FindRootsRequest_class = ''FindRootsRequest''"
  "mc_name IsValidPathRequest_class = ''IsValidPathRequest''"
  "mc_name NarFromPathRequest_class = ''NarFromPathRequest''"
  "mc_name OptimiseStoreRequest_class = ''OptimiseStoreRequest''"
  "mc_name QueryAllValidPathsRequest_class = ''QueryAllValidPathsRequest''"
  "mc_name QueryDerivationOutputMapRequest_class = ''QueryDerivationOutputMapRequest''"
  "mc_name QueryMissingRequest_class = ''QueryMissingRequest''"
  "mc_name QueryPathFromHashPartRequest_class = ''QueryPathFromHashPartRequest''"
  "mc_name QueryPathInfoRequest_class = ''QueryPathInfoRequest''"
  "mc_name QueryRealisationRequest_class = ''QueryRealisationRequest''"
  "mc_name QueryReferrersRequest_class = ''QueryReferrersRequest''"
  "mc_name QuerySubstitutablePathInfoRequest_class = ''QuerySubstitutablePathInfoRequest''"
  "mc_name QuerySubstitutablePathInfosRequest_class = ''QuerySubstitutablePathInfosRequest''"
  "mc_name QuerySubstitutablePathsRequest_class = ''QuerySubstitutablePathsRequest''"
  "mc_name QueryValidDeriversRequest_class = ''QueryValidDeriversRequest''"
  "mc_name QueryValidPathsRequest_class = ''QueryValidPathsRequest''"
  "mc_name RegisterDrvOutputRequest_class = ''RegisterDrvOutputRequest''"
  "mc_name SetOptionsRequest_class = ''SetOptionsRequest''"
  "mc_name SubmitOutputRequest_class = ''SubmitOutputRequest''"
  "mc_name VerifyStoreRequest_class = ''VerifyStoreRequest''"
  "mc_name ProbeFeaturesRequest_class = ''ProbeFeaturesRequest''"
  "mc_name ProbeSystemsRequest_class = ''ProbeSystemsRequest''"
  "mc_name PynixdCollectGarbageRequest_class = ''PynixdCollectGarbageRequest''"
  "mc_name PynixdHostHealthRequest_class = ''PynixdHostHealthRequest''"
  "mc_name PynixdHostHealthStreamRequest_class = ''PynixdHostHealthStreamRequest''"
  "mc_name PynixdRootsReportRequest_class = ''PynixdRootsReportRequest''"
  "mc_name PynixdStateRequest_class = ''PynixdStateRequest''"
  "mc_name QueryClosureRequest_class = ''QueryClosureRequest''"
  "mc_name QueryClosureWithInfoRequest_class = ''QueryClosureWithInfoRequest''"
  "mc_name QueryDerivationOutputMapBatchRequest_class = ''QueryDerivationOutputMapBatchRequest''"
  "mc_name QueryPathInfosRequest_class = ''QueryPathInfosRequest''"
  "mc_name SignPathInfoRequest_class = ''SignPathInfoRequest''"
  by (simp_all add: model_def WireLogs_class_def Realisation_class_def SingleDerivedPath_class_def
      UnkeyedValidPathInfo_class_def ValidPathInfo_class_def DerivationOutput_class_def BasicDerivation_class_def
      ResourceSample_class_def OptMicroseconds_class_def BuildResources_class_def UnkeyedRealisation_class_def
      BuildResult_class_def KeyedBuildResult_class_def GCPaths_class_def FindRootsEntry_class_def
      KeyedDrvOutput_class_def UnkeyedSubstitutablePathInfo_class_def SubstitutablePathInfo_class_def
      RootsReportRow_class_def AddBuildLogResponse_class_def AddIndirectRootResponse_class_def
      AddMultipleToStoreResponse_class_def AddPermRootResponse_class_def AddSignaturesResponse_class_def
      AddTempRootResponse_class_def AddTempRootsResponse_class_def AddToStoreResponse_class_def
      AddToStoreNarResponse_class_def AddToStoreScanningResponse_class_def BuildDerivationResponse_class_def
      BuildPathsResponse_class_def BuildPathsWithResultsResponse_class_def CollectGarbageResponse_class_def
      EnsurePathResponse_class_def FindRootsResponse_class_def IsValidPathResponse_class_def
      NarFromPathResponse_class_def OptimiseStoreResponse_class_def QueryAllValidPathsResponse_class_def
      QueryDerivationOutputMapResponse_class_def QueryMissingResponse_class_def
      QueryPathFromHashPartResponse_class_def QueryPathInfoResponse_class_def QueryRealisationResponse_class_def
      QueryReferrersResponse_class_def QuerySubstitutablePathInfoResponse_class_def
      QuerySubstitutablePathInfosResponse_class_def QuerySubstitutablePathsResponse_class_def
      QueryValidDeriversResponse_class_def QueryValidPathsResponse_class_def RegisterDrvOutputResponse_class_def
      SetOptionsResponse_class_def SubmitOutputResponse_class_def VerifyStoreResponse_class_def
      ProbeFeaturesResponse_class_def ProbeSystemsResponse_class_def PynixdCollectGarbageResponse_class_def
      PynixdHostHealthResponse_class_def PynixdRootsReportResponse_class_def PynixdStateResponse_class_def
      QueryClosureResponse_class_def QueryClosureWithInfoResponse_class_def
      DerivationOutputMapBatchResponse_class_def QueryPathInfosResponse_class_def SignPathInfoResponse_class_def
      AddBuildLogRequest_class_def AddIndirectRootRequest_class_def AddMultipleToStoreRequest_class_def
      AddPermRootRequest_class_def AddSignaturesRequest_class_def AddTempRootRequest_class_def
      AddTempRootsRequest_class_def AddToStoreRequest_class_def AddToStoreNarRequest_class_def
      AddToStoreScanningRequest_class_def BuildDerivationRequest_class_def BuildPathsRequest_class_def
      BuildPathsWithResultsRequest_class_def CollectGarbageRequest_class_def EnsurePathRequest_class_def
      FindRootsRequest_class_def IsValidPathRequest_class_def NarFromPathRequest_class_def
      OptimiseStoreRequest_class_def QueryAllValidPathsRequest_class_def
      QueryDerivationOutputMapRequest_class_def QueryMissingRequest_class_def
      QueryPathFromHashPartRequest_class_def QueryPathInfoRequest_class_def QueryRealisationRequest_class_def
      QueryReferrersRequest_class_def QuerySubstitutablePathInfoRequest_class_def
      QuerySubstitutablePathInfosRequest_class_def QuerySubstitutablePathsRequest_class_def
      QueryValidDeriversRequest_class_def QueryValidPathsRequest_class_def RegisterDrvOutputRequest_class_def
      SetOptionsRequest_class_def SubmitOutputRequest_class_def VerifyStoreRequest_class_def
      ProbeFeaturesRequest_class_def ProbeSystemsRequest_class_def PynixdCollectGarbageRequest_class_def
      PynixdHostHealthRequest_class_def PynixdHostHealthStreamRequest_class_def
      PynixdRootsReportRequest_class_def PynixdStateRequest_class_def QueryClosureRequest_class_def
      QueryClosureWithInfoRequest_class_def QueryDerivationOutputMapBatchRequest_class_def
      QueryPathInfosRequest_class_def SignPathInfoRequest_class_def)

text \<open>How deep the classes that others nest go themselves; every other class goes one deeper than all of them.\<close>

definition nested_depths :: "(string \<times> nat) list" where
  "nested_depths =
     [(''WireLogs'', 0), (''Realisation'', 0), (''SingleDerivedPath'', 0), (''UnkeyedValidPathInfo'', 0),
      (''DerivationOutput'', 0), (''ResourceSample'', 0), (''OptMicroseconds'', 0), (''UnkeyedRealisation'', 0),
      (''GCPaths'', 0), (''FindRootsEntry'', 0), (''KeyedDrvOutput'', 0), (''UnkeyedSubstitutablePathInfo'', 0),
      (''SubstitutablePathInfo'', 0), (''RootsReportRow'', 0), (''ValidPathInfo'', 1), (''BasicDerivation'', 1),
      (''BuildResources'', 1), (''BuildResult'', 2), (''KeyedBuildResult'', 3)]"

definition depth :: "string \<Rightarrow> nat" where
  "depth c = (case map_of nested_depths c of Some n \<Rightarrow> n | None \<Rightarrow> 4)"

definition declared_well :: "model_class \<Rightarrow> bool" where
  "declared_well cls \<longleftrightarrow> class_ok cls \<and> ordered_fields [] (mc_fields cls) \<and>
     list_all (\<lambda>f. wire_field_ok (wire_field_of f) \<and>
       list_all (\<lambda>m. case map_of nested_depths m of Some k \<Rightarrow> k < depth (mc_name cls) | None \<Rightarrow> False)
         (models_in (mf_ann f))) (mc_fields cls)"

lemma models_declared: "list_all (\<lambda>cls. can_compile cls \<and> \<not> is_request cls \<and> declared_well cls) model_classes"
  by code_simp

lemma responses_declared: "list_all (\<lambda>cls. can_compile cls \<and> \<not> is_request cls \<and> declared_well cls) response_classes"
  by code_simp

lemma requests_declared:
  "list_all (\<lambda>cls. (case request_code cls of Some code \<Rightarrow> wire_int code | None \<Rightarrow> False) \<and> declared_well cls) request_classes"
  by code_simp

lemma requests_untested: "list_all untested request_classes"
  by code_simp

lemma request_codes_distinct: "distinct (map request_code request_classes)"
  by code_simp

lemma nested_known: "list_all (\<lambda>e. fst e \<in> set (map mc_name (WireLogs_class # Realisation_class dump load #
   SingleDerivedPath_class sd # model_classes))) nested_depths"
  by code_simp

section \<open>The classes with a codec of their own\<close>

fun derived_path_fits :: "string \<Rightarrow> pyval \<Rightarrow> bool" where
  "derived_path_fits sd (PObj c [(n, Some (PScalar d p)), (m, Some (PList outputs))]) \<longleftrightarrow>
     PObj c [(n, Some (PScalar d p)), (m, Some (PList outputs))] = single_derived_path (PScalar C_StorePath p) outputs \<and>
     scalar_ok sd C_StorePath p \<and> list_all (\<lambda>x. case x of PStr s \<Rightarrow> wire_text s | _ \<Rightarrow> False) outputs"
| "derived_path_fits sd _ = False"

definition custom_ok ::
    "string \<Rightarrow> (pyval \<Rightarrow> error + bytes) \<Rightarrow> (bytes \<Rightarrow> error + pyval) \<Rightarrow> string \<Rightarrow> pyval \<Rightarrow> bool" where
  "custom_ok sd dump load c v =
     (if c = ''WireLogs'' then
        (case v of PLogs msgs \<Rightarrow> list_all (\<lambda>m. log_ok m \<and> \<not> is_log_error m) msgs | _ \<Rightarrow> False)
      else if c = ''Realisation'' then
        (case dump v of Inr raw \<Rightarrow> length raw < 2 ^ 64 \<and> load raw = Inr v | Inl _ \<Rightarrow> False)
      else if c = ''SingleDerivedPath'' then
        derived_path_fits sd v
      else False)"

lemma wire_logs_carry:
  assumes "list_all (\<lambda>m. log_ok m \<and> \<not> is_log_error m) msgs" and "settled ctx"
  shows "\<exists>bs. carries (wire_logs_to_writer (PLogs msgs)) (wire_logs_from_reader ctx) (PLogs msgs) bs"
proof -
  obtain bs where w: "\<And>buf. logs_to_writer msgs buf = (Inr (), buf @ bs)"
    and r: "\<And>rest seen. logs_from_reader ctx \<lparr>unread = bs @ rest, sent = seen\<rparr> = (Inr msgs, \<lparr>unread = rest, sent = seen\<rparr>)"
    using logs_pass [OF assms(1), of ctx] assms(2) by (auto simp: settled_def)
  have "logs_from_reader ctx s = (Inr msgs, s\<lparr>unread := rest\<rparr>)" if "unread s = bs @ rest" for s rest
    using r [of rest "sent s"] that by (cases s) simp
  then have "carries (logs_to_writer msgs) (logs_from_reader ctx) msgs bs" using w by (simp add: carries_def)
  then have "\<exists>bs. carries (logs_to_writer msgs) (logs_from_reader ctx) msgs bs" ..
  then show ?thesis using carries_map by (force simp: wire_logs_to_writer_def wire_logs_from_reader_def)
qed

lemma realisation_carries:
  assumes "dump v = Inr raw" and "length raw < 2 ^ 64" and "load raw = Inr v"
  shows "\<exists>bs. carries (realisation_to_writer dump v) (realisation_from_reader load ctx) v bs"
proof -
  have "carries (write_bytes raw) read_bytes raw (framed_bytes raw)"
    using assms(2) by (simp add: carries_def write_bytes_ok read_bytes_append)
  from carries_result [where f = load, OF this assms(3)] show ?thesis
    unfolding realisation_to_writer_def realisation_from_reader_def assms(1) bind_of_result_Inr by blast
qed

text \<open>What the writer of a derived path puts out: a tag for each layer, the path, the outputs.\<close>

definition layers :: "string \<Rightarrow> string \<Rightarrow> pyval list \<Rightarrow> (bytes, unit) eff" where
  "layers sd t outputs =
     bind (write_items (\<lambda>_. write_uint64 DERIVED_BUILT) outputs) (\<lambda>_. bind (write_uint64 OPAQUE) (\<lambda>_.
     bind (write_string t) (\<lambda>_. write_items (put_string sd) outputs)))"

lemma bind_ret_right: "bind m ret = m"
  by (rule ext) (simp add: bind_apply split: prod.split sum.split)

lemma write_items_snoc: "write_items w (xs @ [x]) = bind (write_items w xs) (\<lambda>_. w x)"
  by (induction xs) (simp_all add: bind_assoc bind_ret_right bind_ret_unit [simplified] del: ret_apply)

lemma write_items_same: "bind (write_items (\<lambda>_. w) xs) (\<lambda>_. w) = bind w (\<lambda>_. write_items (\<lambda>_. w) xs)"
  by (induction xs) (simp_all add: bind_assoc bind_ret_right bind_ret_unit [simplified] del: ret_apply)

lemma layers_snoc: "layers sd t (outputs @ [x]) = bind (write_uint64 DERIVED_BUILT) (\<lambda>_. bind (layers sd t outputs) (\<lambda>_. put_string sd x))"
  by (simp add: layers_def write_items_snoc write_items_same bind_assoc)

lemma layers_carry:
  assumes "wire_text t" and "scalar_from_wire sd C_StorePath t = Inr p"
    and "list_all (\<lambda>x. case x of PStr s \<Rightarrow> wire_text s | _ \<Rightarrow> False) outputs"
  shows "\<exists>bs. length outputs \<le> length bs \<and>
    (\<forall>n. length outputs \<le> n \<longrightarrow> carries (layers sd t outputs) (read_layers (Suc n) sd) (p, outputs) bs)"
  using assms(3)
proof (induction outputs rule: rev_induct)
  case Nil
  let ?tag = "uint64_bytes (nat OPAQUE)" and ?text = "framed_bytes (encode t)"
  have path: "carries (write_string t) (bind read_string (\<lambda>s. bind (of_result (scalar_from_wire sd C_StorePath s)) (\<lambda>p. ret (p, []))))
      (p, []) ?text"
    using carries_map [OF carries_result [where f = "scalar_from_wire sd C_StorePath", OF carries_string [OF assms(1)] assms(2)], of "\<lambda>p. (p, [])"]
    by (simp add: bind_assoc del: ret_apply)
  have "carries (layers sd t []) (read_layers (Suc n) sd) (p, []) (?tag @ ?text)" for n
  proof -
    let ?k = "\<lambda>tag. if tag = OPAQUE then
          bind read_string (\<lambda>s. bind (of_result (scalar_from_wire sd C_StorePath s)) (\<lambda>p. ret (p, [])))
        else if tag = DERIVED_BUILT then bind (read_layers n sd) (\<lambda>(p, outputs). bind read_string (\<lambda>output. ret (p, outputs @ [PStr output])))
        else raise (DaemonProtocolError (''Invalid tag '' @ decimal (nat tag) @ '' for single derived path''))"
    have rest: "carries (write_string t) (?k OPAQUE) (p, []) ?text"
      using path by simp
    have "wire_int OPAQUE" by (simp add: OPAQUE_def wire_int_def)
    from carries_bind [where k = ?k, OF carries_uint64 [OF this] rest] show ?thesis
      unfolding layers_def read_layers.simps write_items.simps bind_ret_left bind_ret_unit .
  qed
  then show ?case by auto
next
  case (snoc x outputs)
  obtain s where x: "x = PStr s" "wire_text s" using snoc.prems by (cases x) simp_all
  obtain bs where bs: "length outputs \<le> length bs"
      "\<And>n. length outputs \<le> n \<Longrightarrow> carries (layers sd t outputs) (read_layers (Suc n) sd) (p, outputs) bs"
    using snoc.IH snoc.prems by auto
  let ?tag = "uint64_bytes (nat DERIVED_BUILT)" and ?text = "framed_bytes (encode s)"
  have last: "carries (put_string sd x) (bind read_string (\<lambda>output. ret (p, outputs @ [PStr output]))) (p, outputs @ [x]) ?text"
    using carries_map [OF carries_string [OF x(2)], of "\<lambda>output. (p, outputs @ [PStr output])"] x(1) by simp
  have "carries (layers sd t (outputs @ [x])) (read_layers (Suc n) sd) (p, outputs @ [x]) (?tag @ bs @ ?text)"
    if enough: "Suc (length outputs) \<le> n" for n
  proof -
    obtain k where n: "n = Suc k" "length outputs \<le> k" using enough by (cases n) simp_all
    have inner: "carries (bind (layers sd t outputs) (\<lambda>_. put_string sd x))
        (bind (read_layers n sd) (\<lambda>(p, outputs). bind read_string (\<lambda>output. ret (p, outputs @ [PStr output])))) (p, outputs @ [x]) (bs @ ?text)"
      unfolding n(1) by (rule carries_bind [OF bs(2) [OF n(2)]]) (use last in simp)
    let ?k = "\<lambda>tag. if tag = OPAQUE then
          bind read_string (\<lambda>s. bind (of_result (scalar_from_wire sd C_StorePath s)) (\<lambda>p. ret (p, [])))
        else if tag = DERIVED_BUILT then bind (read_layers n sd) (\<lambda>(p, outputs). bind read_string (\<lambda>output. ret (p, outputs @ [PStr output])))
        else raise (DaemonProtocolError (''Invalid tag '' @ decimal (nat tag) @ '' for single derived path''))"
    have rest: "carries (bind (layers sd t outputs) (\<lambda>_. put_string sd x)) (?k DERIVED_BUILT)
        (p, outputs @ [x]) (bs @ ?text)"
      using inner by (simp add: OPAQUE_def DERIVED_BUILT_def)
    have "wire_int DERIVED_BUILT" by (simp add: DERIVED_BUILT_def wire_int_def)
    from carries_bind [where k = ?k, OF carries_uint64 [OF this] rest] show ?thesis unfolding layers_snoc read_layers.simps .
  qed
  moreover have "length (outputs @ [x]) \<le> length (?tag @ bs @ ?text)" using bs(1) by simp
  ultimately show ?case by (intro exI [of _ "?tag @ bs @ ?text"]) simp
qed

lemma single_derived_path_carries:
  assumes "scalar_ok sd C_StorePath p" and "list_all (\<lambda>x. case x of PStr s \<Rightarrow> wire_text s | _ \<Rightarrow> False) outputs"
  shows "\<exists>bs. carries (single_derived_path_to_writer sd (single_derived_path (PScalar C_StorePath p) outputs))
    (single_derived_path_from_reader sd ctx) (single_derived_path (PScalar C_StorePath p) outputs) bs"
proof -
  let ?p = "PScalar C_StorePath p"
  obtain t where t: "scalar_to_wire sd ?p = Inr t" "wire_text t" "scalar_from_wire sd C_StorePath t = Inr ?p"
    using assms(1) by (auto simp: scalar_ok_def split: sum.splits)
  obtain bs where bs: "length outputs \<le> length bs"
      "\<And>n. length outputs \<le> n \<Longrightarrow> carries (layers sd t outputs) (read_layers (Suc n) sd) (?p, outputs) bs"
    using layers_carry [OF t(2,3) assms(2)] by blast
  have "single_derived_path_to_writer sd (single_derived_path ?p outputs) = layers sd t outputs"
    using t(1) by (simp add: single_derived_path_to_writer_def single_derived_path_def getattr_def get_attr_def py_iter_def layers_def)
  moreover have "single_derived_path_from_reader sd ctx s = (Inr (single_derived_path ?p outputs), s\<lparr>unread := rest\<rparr>)"
    if "unread s = bs @ rest" for s rest
  proof -
    have "length outputs \<le> length (unread s)" using bs(1) that by simp
    from carries_read [OF bs(2) [OF this] that] show ?thesis
      by (simp add: single_derived_path_from_reader_def bind_apply del: read_layers.simps)
  qed
  ultimately have "carries (single_derived_path_to_writer sd (single_derived_path ?p outputs))
      (single_derived_path_from_reader sd ctx) (single_derived_path ?p outputs) bs"
    using carries_write [OF bs(2) [OF order_refl]] by (simp add: carries_def)
  then show ?thesis ..
qed

section \<open>Every class of the table\<close>

lemma class_found:
  assumes "we_class (protocol_env sd dump load) c = Some cls"
  shows "cls \<in> set (wire_classes sd dump load)" "mc_name cls = c"
  using assms by (auto simp: protocol_env_def find_Some_iff)

lemma compiled_class_declared:
  assumes "cls \<in> set (wire_classes sd dump load)" and "can_compile cls"
  shows "declared_well cls"
proof -
  have "\<not> can_compile WireLogs_class" "\<not> can_compile (Realisation_class dump load)" "\<not> can_compile (SingleDerivedPath_class sd)"
    by (simp_all add: can_compile_def WireLogs_class_def Realisation_class_def SingleDerivedPath_class_def model_def)
  then have "cls \<in> set model_classes \<union> set response_classes \<union> set request_classes"
    using assms by (auto simp: wire_classes_def)
  then show ?thesis using models_declared responses_declared requests_declared by (auto simp: list_all_iff)
qed

text \<open>A request class is found by its operation code.\<close>

lemma request_class:
  assumes "cls \<in> set (wire_classes sd dump load)" and "mc_codec cls = RequestCodec op least"
  shows "WIRE_REGISTRY op = Some (mc_name cls)" "wire_int op" "untested cls"
proof -
  have req: "is_request cls" using assms(2) by (simp add: is_request_def)
  have "\<not> is_request WireLogs_class" "\<not> is_request (Realisation_class dump load)" "\<not> is_request (SingleDerivedPath_class sd)"
    by (simp_all add: is_request_def WireLogs_class_def Realisation_class_def SingleDerivedPath_class_def model_def)
  then have mem: "cls \<in> set request_classes"
    using assms(1) req models_declared responses_declared by (auto simp: wire_classes_def list_all_iff)
  show "untested cls" using requests_untested mem by (simp add: list_all_iff)
  have code: "request_code cls = Some op" using assms(2) by (simp add: request_code_def)
  then show "wire_int op" using requests_declared mem by (force simp: list_all_iff)
  obtain found where found: "find (\<lambda>cls. request_code cls = Some op) request_classes = Some found"
    using mem code by (cases "find (\<lambda>cls. request_code cls = Some op) request_classes") (auto simp: find_None_iff)
  then have "found \<in> set request_classes" "request_code found = Some op" by (auto simp: find_Some_iff)
  then have "found = cls" using request_codes_distinct mem code by (auto simp: distinct_map inj_on_def)
  then show "WIRE_REGISTRY op = Some (mc_name cls)" using found by (simp add: WIRE_REGISTRY_def)
qed

lemma nested_class_found:
  assumes "map_of nested_depths m = Some k"
  shows "\<exists>cls. we_class (protocol_env sd dump load) m = Some cls"
proof -
  have "m \<in> fst ` set nested_depths" using assms by (force dest: map_of_SomeD)
  then have "m \<in> mc_name ` set (wire_classes sd dump load)"
    using nested_known [of dump load sd] by (auto simp: list_all_iff wire_classes_def)
  then show ?thesis
    by (cases "find (\<lambda>cls. mc_name cls = m) (wire_classes sd dump load)") (auto simp: protocol_env_def find_None_iff)
qed

lemma class_sound:
  assumes "we_class (protocol_env sd dump load) c = Some cls" and "depth c < n"
  shows "sound_class n (protocol_env sd dump load) c \<and> ordered_class n (protocol_env sd dump load) c"
  using assms
proof (induction n arbitrary: c cls)
  case (Suc n)
  let ?env = "protocol_env sd dump load"
  show ?case
  proof (cases "can_compile cls")
    case False
    then show ?thesis using Suc.prems(1) class_found(2) [OF Suc.prems(1)] by simp
  next
    case True
    then have ok: "declared_well cls" using compiled_class_declared class_found(1) [OF Suc.prems(1)] by blast
    have nested: "sound_class n ?env m \<and> ordered_class n ?env m" if mem: "f \<in> set (mc_fields cls)" "m \<in> set (models_in (mf_ann f))" for f m
    proof -
      obtain k where k: "map_of nested_depths m = Some k" "k < depth c"
        using ok mem class_found(2) [OF Suc.prems(1)]
        by (cases "map_of nested_depths m") (fastforce simp: declared_well_def list_all_iff)+
      then have "depth m < n" using Suc.prems(2) by (simp add: depth_def)
      then show ?thesis using nested_class_found [OF k(1)] Suc.IH by blast
    qed
    have fields: "list_all (\<lambda>f. wire_field_ok (wire_field_of f) \<and> list_all (sound_class n ?env) (models_in (mf_ann f))) (mc_fields cls)"
      "list_all (\<lambda>f. list_all (ordered_class n ?env) (models_in (mf_ann f))) (mc_fields cls)"
      using ok nested by (simp_all add: declared_well_def list_all_iff)
    show ?thesis
      using fields ok class_found(2) [OF Suc.prems(1)] Suc.prems(1) by (simp add: declared_well_def)
  qed
qed simp

lemma depth_bound: "depth c < 5"
proof (cases "map_of nested_depths c")
  case (Some n)
  then have "(c, n) \<in> set nested_depths" by (rule map_of_SomeD)
  moreover have "list_all (\<lambda>e. snd e < 5) nested_depths" by (simp add: nested_depths_def)
  ultimately show ?thesis using Some by (auto simp: depth_def list_all_iff)
qed (simp add: depth_def)

interpretation protocol: custom_codecs "protocol_env sd dump load" "custom_ok sd dump load" for sd dump load
proof
  fix c cls w r v ctx
  assume found: "we_class (protocol_env sd dump load) c = Some cls" and codec: "mc_codec cls = CustomCodec w r"
    and ok: "custom_ok sd dump load c v" and ctx: "settled ctx"
  have "\<not> can_compile cls" using codec by (simp add: can_compile_def)
  then have "cls \<in> set [WireLogs_class, Realisation_class dump load, SingleDerivedPath_class sd]"
    using class_found(1) [OF found] models_declared responses_declared requests_declared
    by (auto simp: wire_classes_def list_all_iff request_code_def can_compile_def split: codec_kind.splits)
  then consider (logs) "cls = WireLogs_class" | (json) "cls = Realisation_class dump load" | (path) "cls = SingleDerivedPath_class sd"
    by auto
  then show "\<exists>bs. carries (w v) (r ctx) v bs"
  proof cases
    case logs
    then have "c = ''WireLogs''" "w = wire_logs_to_writer" "r = wire_logs_from_reader"
      using class_found(2) [OF found] codec by (simp_all add: WireLogs_class_def model_def)
    then show ?thesis using ok wire_logs_carry ctx by (cases v) (simp_all add: custom_ok_def)
  next
    case json
    then have "c = ''Realisation''" "w = realisation_to_writer dump" "r = realisation_from_reader load"
      using class_found(2) [OF found] codec by (simp_all add: Realisation_class_def model_def)
    then show ?thesis using ok realisation_carries by (auto simp: custom_ok_def split: sum.splits)
  next
    case path
    then have c: "c = ''SingleDerivedPath''" "w = single_derived_path_to_writer sd" "r = single_derived_path_from_reader sd"
      using class_found(2) [OF found] codec by (simp_all add: SingleDerivedPath_class_def model_def)
    obtain p outputs where "v = single_derived_path (PScalar C_StorePath p) outputs" "scalar_ok sd C_StorePath p"
        "list_all (\<lambda>x. case x of PStr s \<Rightarrow> wire_text s | _ \<Rightarrow> False) outputs"
      using ok unfolding custom_ok_def c(1) by (auto elim: derived_path_fits.elims)
    then show ?thesis using single_derived_path_carries c(2,3) by blast
  qed
qed

section \<open>Two messages\<close>

text \<open>A response with a log line and the description of a path, and a request, to be read back below.\<close>

definition sample_dir :: string where
  "sample_dir = ''/nix/store''"

definition sample_dump :: "pyval \<Rightarrow> error + bytes" where
  "sample_dump v = Inr (encode ''{}'')"

definition sample_load :: "bytes \<Rightarrow> error + pyval" where
  "sample_load raw = Inr (PObj ''Realisation'' [])"

definition sample_env :: wire_env where
  "sample_env = protocol_env sample_dir sample_dump sample_load"

definition sample_ctx :: ReadContext where
  "sample_ctx = \<lparr>log_sink = False, buffer_logs = True, raise_on_error = True, error_factory = DaemonProtocolError\<rparr>"

definition sample_info :: pyval where
  "sample_info = PObj ''UnkeyedValidPathInfo''
     [(''deriver'', Some PNone), (''nar_hash'', Some (PScalar C_NARHash ''0a1b'')),
      (''references'', Some (PSet [PScalar C_StorePath ''a-x'', PScalar C_StorePath ''b-y''])),
      (''registration_time'', Some (PUInt64 ''Time'' 7)), (''nar_size'', Some (PInt 120)), (''ultimate'', Some (PBool True)),
      (''sigs'', Some (PSet [])), (''ca'', Some (PScalar C_ContentAddress []))]"

definition sample_response :: attrs where
  "sample_response = [(''logs'', Some (PLogs [LogNext ''hi''])), (''valid'', Some (PBool True)), (''info'', Some sample_info)]"

lemma sample_classes:
  "we_class sample_env ''QueryPathInfoResponse'' = Some QueryPathInfoResponse_class"
  "we_class sample_env ''UnkeyedValidPathInfo'' = Some UnkeyedValidPathInfo_class"
  "we_class sample_env ''WireLogs'' = Some WireLogs_class"
  by (simp_all add: sample_env_def protocol_env_def wire_classes_def model_classes_def response_classes_def)

lemma sample_env_dir: "we_dir sample_env = ''/nix/store''"
  by (simp add: sample_env_def protocol_env_def sample_dir_def)

lemma sample_fits: "fits_message 4 sample_env (custom_ok sample_dir sample_dump sample_load) 293 [] QueryPathInfoResponse_class sample_response"
  by (simp add: sample_classes fits_message_def sample_response_def sample_info_def QueryPathInfoResponse_class_def
      UnkeyedValidPathInfo_class_def WireLogs_class_def model_def logs_field_def plain_def WireField_def wire_meta_def
      field_fits_def on_wire_def field_kept_def version_keeps_def features_keep_def wire_field_of_def depends_holds_def
      get_attr_def fits_model.simps(2) [of 3, simplified] can_compile_def is_request_def class_of_def custom_ok_def scalar_ok_def
      scalar_to_wire_def scalar_from_wire_def sample_env_dir is_wire_scalar_def truthy_def wire_int_def wire_text_def
      is_log_error_def nar_hash_new_def partition_at_def print_store_path_def
      read_store_path_def startswith_def)

definition sample_request :: attrs where
  "sample_request = [(''derived_paths'', Some (PList [PScalar C_DerivedPath ''/nix/store/a-x.drv!out''])), (''build_mode'', Some (PInt 0))]"

lemma sample_request_class: "we_class sample_env ''BuildPathsWithResultsRequest'' = Some BuildPathsWithResultsRequest_class"
  by (simp add: sample_env_def protocol_env_def wire_classes_def model_classes_def response_classes_def request_classes_def)

lemma sample_request_typed:
  "typed_model 5 sample_env 289 [] ''BuildPathsWithResultsRequest'' (PObj ''BuildPathsWithResultsRequest'' sample_request)"
proof -
  have "list_all (typed_field tm sample_request) (wire_fields BuildPathsWithResultsRequest_class 289 [])" for tm
    by (simp add: wire_fields_def BuildPathsWithResultsRequest_class_def model_def plain_def WireField_def wire_meta_def
      field_kept_def version_keeps_def features_keep_def wire_field_of_def typed_field_def sample_request_def get_attr_def py_iter_def)
  then show ?thesis
    using sample_request_class by (simp add: typed_model.simps(2) [of 4, simplified] class_of_def typed_fields_def)
qed

lemma sample_typed: "typed_model 5 sample_env 293 [] ''QueryPathInfoResponse'' (PObj ''QueryPathInfoResponse'' sample_response)"
proof -
  have ok: "ordered_class (Suc 4) sample_env ''QueryPathInfoResponse''"
    using class_sound [OF sample_classes(1) [unfolded sample_env_def] depth_bound] by (simp add: sample_env_def)
  have can: "can_compile QueryPathInfoResponse_class" by (simp add: can_compile_def QueryPathInfoResponse_class_def model_def)
  have "typed_model (Suc 4) sample_env 293 [] ''QueryPathInfoResponse'' (PObj ''QueryPathInfoResponse'' sample_response)"
    by (rule message_typed [OF fits_typed sample_classes(1) can ok sample_fits])
  then show ?thesis by simp
qed

section \<open>Messages come back\<close>

text \<open>
  C5. What a peer writes as a model or a response, the other peer reads back: for every class of the
  protocol with the generic codec, at every version and with every set of features, the writer of a
  value that fits the class appends some bytes to the buffer, and the reader takes exactly those from
  the stream and returns the value, nested models, containers, logs and tests of earlier fields
  included.
\<close>

theorem message_roundtrip:
  assumes "we_class (protocol_env sd dump load) c = Some cls" and "mc_codec cls = BaseCodec"
    and "fits_message 4 (protocol_env sd dump load) (custom_ok sd dump load) version features cls ob" and "\<not> log_sink ctx"
  shows "\<exists>bs. (\<forall>buf. to_writer (codecs_at 5 (protocol_env sd dump load) version features) (PObj c ob) buf = (Inr (), buf @ bs)) \<and>
    (\<forall>rest seen. from_reader (codecs_at 5 (protocol_env sd dump load) version features) c ctx \<lparr>unread = bs @ rest, sent = seen\<rparr> =
      (Inr (PObj c ob), \<lparr>unread = rest, sent = seen\<rparr>))"
proof -
  have five: "5 = Suc 4" by simp
  obtain bs where "carries (to_writer (codecs_at 5 (protocol_env sd dump load) version features) (PObj c ob))
      (from_reader (codecs_at 5 (protocol_env sd dump load) version features) c ctx) (PObj c ob) bs"
    using protocol.message_carries [OF assms(1,2) _ _ assms(3,4)] class_sound [OF assms(1) depth_bound] unfolding five by blast
  then show ?thesis by (intro exI [of _ bs]) (simp add: carries_def)
qed

theorem message_roundtrip_witness:
  "\<exists>bs. (\<forall>buf. to_writer (codecs_at 5 sample_env 293 []) (PObj ''QueryPathInfoResponse'' sample_response) buf = (Inr (), buf @ bs)) \<and>
    (\<forall>rest seen. from_reader (codecs_at 5 sample_env 293 []) ''QueryPathInfoResponse'' sample_ctx \<lparr>unread = bs @ rest, sent = seen\<rparr> =
      (Inr (PObj ''QueryPathInfoResponse'' sample_response), \<lparr>unread = rest, sent = seen\<rparr>))"
  unfolding sample_env_def
  by (rule message_roundtrip [OF sample_classes(1) [unfolded sample_env_def] _ sample_fits [unfolded sample_env_def]])
    (simp_all add: QueryPathInfoResponse_class_def model_def sample_ctx_def)

text \<open>A request whose fields all fit, those off the wire with their defaults.\<close>

lemma fitting_request_roundtrip:
  assumes "we_class (protocol_env sd dump load) c = Some cls" and "mc_codec cls = RequestCodec op least"
    and "fits_message 4 (protocol_env sd dump load) (custom_ok sd dump load) version features cls ob" and "\<not> log_sink ctx"
    and "version = 0 \<or> least \<le> version"
  shows "\<exists>bs. (\<forall>buf. to_writer (codecs_at 5 (protocol_env sd dump load) version features) (PObj c ob) buf = (Inr (), buf @ bs)) \<and>
    (\<forall>rest seen. read_request (codecs_at 5 (protocol_env sd dump load) version features) ctx \<lparr>unread = bs @ rest, sent = seen\<rparr> =
      (Inr (PObj c ob), \<lparr>unread = rest, sent = seen\<rparr>))"
proof -
  have five: "5 = Suc 4" by simp
  let ?cs = "codecs_at 5 (protocol_env sd dump load) version features"
  let ?k = "\<lambda>op. case WIRE_REGISTRY op of
     None \<Rightarrow> raise (DaemonProtocolError (''Unsupported operation: '' @ decimal (nat op)))
   | Some c \<Rightarrow> from_reader ?cs c ctx"
  note req = request_class [OF class_found(1) [OF assms(1)] assms(2)]
  have k: "?k op = from_reader ?cs c ctx" using req(1) class_found(2) [OF assms(1)] by simp
  obtain bs where "carries (to_writer ?cs (PObj c ob)) (bind read_uint64 ?k) (PObj c ob) bs"
    using protocol.request_carries [OF assms(1,2) _ _ assms(3,4) req(2) assms(5), where dispatch = ?k]
      class_sound [OF assms(1) depth_bound] k unfolding five by blast
  then show ?thesis by (intro exI [of _ bs]) (simp add: carries_def read_request_def)
qed

text \<open>
  C9. A request reaches its handler: the bytes that a client writes for it start with its operation code,
  the server looks the code up in \<open>WIRE_REGISTRY\<close>, finds the class of the request, since no two
  requests share a code, and reads the request. The fields that the version and the features of the
  connection have arrive as they were, whatever the other fields hold; those arrive with their defaults,
  as the one of the two path fields of \<open>CollectGarbageRequest\<close> that the connection does not use. The
  values on the wire fit their types, with nested models whose fields off the wire have their defaults,
  and the version of the connection is not older than the one the request asks for.
\<close>

theorem request_roundtrip:
  assumes "we_class (protocol_env sd dump load) c = Some cls" and "mc_codec cls = RequestCodec op least"
    and "sendable 4 (protocol_env sd dump load) (custom_ok sd dump load) version features cls ob" and "\<not> log_sink ctx"
    and "version = 0 \<or> least \<le> version"
  shows "\<exists>bs. (\<forall>buf. to_writer (codecs_at 5 (protocol_env sd dump load) version features) (PObj c ob) buf = (Inr (), buf @ bs)) \<and>
    (\<forall>rest seen. read_request (codecs_at 5 (protocol_env sd dump load) version features) ctx \<lparr>unread = bs @ rest, sent = seen\<rparr> =
      (Inr (PObj c (delivered version features cls ob)), \<lparr>unread = rest, sent = seen\<rparr>))"
proof -
  have five: "5 = Suc 4" by simp
  have sound: "sound_class (Suc 4) (protocol_env sd dump load) c" "ordered_class (Suc 4) (protocol_env sd dump load) c"
    using class_sound [OF assms(1) depth_bound] unfolding five by blast+
  have can: "can_compile cls" using assms(2) by (simp add: can_compile_def)
  have untested: "untested cls" by (rule request_class(3) [OF class_found(1) [OF assms(1)] assms(2)])
  have "class_ok cls" using sound(1) can unfolding sound_class.simps assms(1) by simp
  then have "fits_message 4 (protocol_env sd dump load) (custom_ok sd dump load) version features cls (delivered version features cls ob)"
    by (rule delivered_fits [OF assms(3) _ untested])
  note arrives = fitting_request_roundtrip [OF assms(1,2) this assms(4,5)]
  show ?thesis
    using arrives write_delivered [OF assms(1) can untested sound assms(3)] unfolding five by presburger
qed

definition sample_gc_request :: attrs where
  "sample_gc_request =
     [(''action'', Some (PEnum ''GCAction'' 2)), (''paths_to_delete'', Some (PSet [PScalar C_StorePath ''a-x''])),
      (''gc_paths'', Some (PObj ''GCPaths'' [(''whole_store'', Some (PInt 0)), (''paths'', Some (PSet [PScalar C_StorePath ''a-x''])),
         (''delete_referrers'', Some (PInt 0))])),
      (''ignore_liveness'', Some (PInt 0)), (''max_freed'', Some (PInt 9)), (''obsolete1'', Some (PInt 0)),
      (''obsolete2'', Some (PInt 0)), (''obsolete3'', Some (PInt 0))]"

lemma sample_gc_class: "we_class sample_env ''CollectGarbageRequest'' = Some CollectGarbageRequest_class"
  by (simp add: sample_env_def protocol_env_def wire_classes_def model_classes_def response_classes_def request_classes_def)

lemmas sample_gc_defs = sample_gc_request_def CollectGarbageRequest_class_def model_def plain_def WireField_def
  wire_meta_def on_wire_def field_kept_def version_keeps_def features_keep_def wire_field_of_def
  depends_holds_def get_attr_def

lemma sample_gc_sendable:
  "sendable 4 sample_env (custom_ok sample_dir sample_dump sample_load) 293 [] CollectGarbageRequest_class sample_gc_request"
  by (simp add: sendable_def sample_gc_defs scalar_ok_def scalar_to_wire_def scalar_from_wire_def wire_int_def wire_text_def
      sample_env_dir print_store_path_def read_store_path_def startswith_def GCAction_members_def)

lemma sample_gc_delivered:
  "map_of (delivered 293 [] CollectGarbageRequest_class sample_gc_request) ''gc_paths'' = Some (Some PNone)"
  "map_of (delivered 293 [] CollectGarbageRequest_class sample_gc_request) ''max_freed'' = Some (Some (PInt 9))"
  by (simp_all add: delivered_def sample_gc_defs default_of_def)

theorem request_roundtrip_witness:
  "\<exists>bs. (\<forall>buf. to_writer (codecs_at 5 sample_env 293 []) (PObj ''CollectGarbageRequest'' sample_gc_request) buf = (Inr (), buf @ bs)) \<and>
    (\<forall>rest seen. read_request (codecs_at 5 sample_env 293 []) sample_ctx \<lparr>unread = bs @ rest, sent = seen\<rparr> =
      (Inr (PObj ''CollectGarbageRequest'' (delivered 293 [] CollectGarbageRequest_class sample_gc_request)), \<lparr>unread = rest, sent = seen\<rparr>))"
  unfolding sample_env_def
  by (rule request_roundtrip [OF sample_gc_class [unfolded sample_env_def] _ sample_gc_sendable [unfolded sample_env_def],
        where op = 20 and least = MINIMUM_REMOTE_PROTOCOL])
    (simp_all add: CollectGarbageRequest_class_def model_def sample_ctx_def MINIMUM_REMOTE_PROTOCOL_def proto_def)

text \<open>
  C40. A request is not sent to a peer that is too old for it: \<open>to_writer\<close> raises
  \<open>UnsupportedProtocolVersion\<close> and writes nothing when the version of the connection is known and
  below the one the request asks for, whatever its fields hold.
\<close>

theorem old_peer_refused:
  assumes "we_class (protocol_env sd dump load) c = Some cls" and "mc_codec cls = RequestCodec op least"
    and "typed_model 5 (protocol_env sd dump load) version features c (PObj c ob)" and "version \<noteq> 0" and "version < least"
  shows "to_writer (codecs_at 5 (protocol_env sd dump load) version features) (PObj c ob) buf = (Inl UnsupportedProtocolVersion, buf)"
proof -
  have "to_writer (codecs_at 5 (protocol_env sd dump load) version features) (PObj c ob) =
      fst (plan_codec 5 (protocol_env sd dump load) version features) (PObj c ob)"
    using codecs_agree class_sound [OF assms(1) depth_bound] assms(3) by blast
  then show ?thesis
    using assms by (simp add: plan_codec.simps(2) [of 4, simplified] Let_def class_of_def request_prelude_def)
qed

theorem old_peer_refused_witness:
  "to_writer (codecs_at 5 sample_env 289 []) (PObj ''BuildPathsWithResultsRequest'' sample_request) [] = (Inl UnsupportedProtocolVersion, [])"
  unfolding sample_env_def
  by (rule old_peer_refused [OF sample_request_class [unfolded sample_env_def] _ _, where op = 46 and least = "proto 1 34"])
    (simp_all add: BuildPathsWithResultsRequest_class_def model_def proto_def sample_request_typed [unfolded sample_env_def])

end
