(* ===== verification/Log_Codec.thy ===== *)
theory Log_Codec
  imports Message_Table
begin

text \<open>
  The log messages are models like the others: \<open>Wire_Logs\<close> writes and reads them field by field, and
  this theory shows that this is what the compiled codec does with the classes that \<open>logs.py\<close>
  declares. One of their fields is where the compiled codec and the plan part.
\<close>

section \<open>The classes of logs.py\<close>

definition TraceLine_class :: model_class where
  "TraceLine_class = model ''TraceLine'' BaseCodec
     [plain ''pos'' AInt (Default (PInt 0)),
      WireField ''hint'' AStr (Default (PStr [])) (wire_meta\<lparr>text_errors := Surrogateescape\<rparr>)]"

definition ActivityField_class :: model_class where
  "ActivityField_class = model ''ActivityField'' BaseCodec
     [plain ''type'' (AEnum ''FieldType'' [0, 1]) (Default (PEnum ''FieldType'' 0)),
      WireField ''valint'' (AOptional AInt) (Default PNone)
        (wire_meta\<lparr>wire_depends_on := Some (Equals ''type'' (PEnum ''FieldType'' 0))\<rparr>),
      WireField ''valstr'' (AOptional AStr) (Default PNone)
        (wire_meta\<lparr>wire_depends_on := Some (Equals ''type'' (PEnum ''FieldType'' 1)), text_errors := Surrogateescape\<rparr>)]"

text \<open>The code of a message is written with it; a reader has taken it when it chose the class.\<close>

definition code_field :: "int \<Rightarrow> model_field" where
  "code_field code = WireField ''code'' AInt (Default (PInt code)) (wire_meta\<lparr>serialize := Some True, deserialize := Some False\<rparr>)"

definition lossless_field :: "string \<Rightarrow> model_field" where
  "lossless_field n = WireField n AStr (Default (PStr [])) (wire_meta\<lparr>text_errors := Surrogateescape\<rparr>)"

definition LogNext_class :: model_class where
  "LogNext_class = model ''LogNext'' BaseCodec [code_field STDERR_NEXT, lossless_field ''text'']"

definition LogStartActivity_class :: model_class where
  "LogStartActivity_class = model ''LogStartActivity'' BaseCodec
     [code_field STDERR_START_ACTIVITY, plain ''act_id'' AInt (Default (PInt 0)), plain ''level'' AInt (Default (PInt 0)),
      plain ''type'' AInt (Default (PInt 0)), lossless_field ''text'',
      WireField ''fields'' (AList (AModel ''ActivityField'')) (Factory (PList [])) wire_meta,
      plain ''parent'' AInt (Default (PInt 0))]"

definition LogStopActivity_class :: model_class where
  "LogStopActivity_class = model ''LogStopActivity'' BaseCodec
     [code_field STDERR_STOP_ACTIVITY, plain ''act_id'' AInt (Default (PInt 0))]"

definition LogResult_class :: model_class where
  "LogResult_class = model ''LogResult'' BaseCodec
     [code_field STDERR_RESULT, plain ''act_id'' AInt (Default (PInt 0)), plain ''result_type'' AInt (Default (PInt 0)),
      WireField ''fields'' (AList (AModel ''ActivityField'')) (Factory (PList [])) wire_meta]"

definition LogError_class :: model_class where
  "LogError_class = model ''LogError'' BaseCodec
     [code_field STDERR_ERROR, lossless_field ''type'', plain ''level'' AInt (Default (PInt 0)), lossless_field ''name'',
      lossless_field ''msg'', plain ''have_pos'' AInt (Default (PInt 0)),
      WireField ''traces'' (AList (AModel ''TraceLine'')) (Factory (PList [])) wire_meta]"

definition log_env :: "string \<Rightarrow> wire_env" where
  "log_env sd = \<lparr>we_dir = sd, we_class = (\<lambda>c. find (\<lambda>cls. mc_name cls = c)
     [TraceLine_class, ActivityField_class, LogNext_class, LogStartActivity_class, LogStopActivity_class,
      LogResult_class, LogError_class])\<rparr>"

section \<open>Messages as instances of their classes\<close>

definition trace_value :: "TraceLine \<Rightarrow> pyval" where
  "trace_value t = PObj ''TraceLine'' [(''pos'', Some (PInt (tl_pos t))), (''hint'', Some (PStr (tl_hint t)))]"

definition field_type :: "FieldType \<Rightarrow> int" where
  "field_type t = (case t of FIELD_INT \<Rightarrow> 0 | FIELD_STRING \<Rightarrow> 1)"

definition field_value :: "ActivityField \<Rightarrow> pyval" where
  "field_value f = PObj ''ActivityField''
     [(''type'', Some (PEnum ''FieldType'' (field_type (af_type f)))),
      (''valint'', Some (case af_valint f of Some v \<Rightarrow> PInt v | None \<Rightarrow> PNone)),
      (''valstr'', Some (case af_valstr f of Some s \<Rightarrow> PStr s | None \<Rightarrow> PNone))]"

fun log_value :: "LogMessage \<Rightarrow> pyval" where
  "log_value (LogNext s) = PObj ''LogNext'' [(''code'', Some (PInt STDERR_NEXT)), (''text'', Some (PStr s))]"
| "log_value (LogStartActivity i level ty s fs parent) = PObj ''LogStartActivity''
     [(''code'', Some (PInt STDERR_START_ACTIVITY)), (''act_id'', Some (PInt i)), (''level'', Some (PInt level)),
      (''type'', Some (PInt ty)), (''text'', Some (PStr s)), (''fields'', Some (PList (map field_value fs))),
      (''parent'', Some (PInt parent))]"
| "log_value (LogStopActivity i) =
     PObj ''LogStopActivity'' [(''code'', Some (PInt STDERR_STOP_ACTIVITY)), (''act_id'', Some (PInt i))]"
| "log_value (LogResult i ty fs) = PObj ''LogResult''
     [(''code'', Some (PInt STDERR_RESULT)), (''act_id'', Some (PInt i)), (''result_type'', Some (PInt ty)),
      (''fields'', Some (PList (map field_value fs)))]"
| "log_value (LogError ty level nm msg have_pos traces) = PObj ''LogError''
     [(''code'', Some (PInt STDERR_ERROR)), (''type'', Some (PStr ty)), (''level'', Some (PInt level)),
      (''name'', Some (PStr nm)), (''msg'', Some (PStr msg)), (''have_pos'', Some (PInt have_pos)),
      (''traces'', Some (PList (map trace_value traces)))]"

section \<open>The compiled codec of a class\<close>


lemmas log_class_defs =
  TraceLine_class_def ActivityField_class_def LogNext_class_def LogStartActivity_class_def LogStopActivity_class_def
  LogResult_class_def LogError_class_def code_field_def lossless_field_def model_def plain_def WireField_def wire_meta_def

lemma log_classes [simp]:
  "we_class (log_env sd) ''TraceLine'' = Some TraceLine_class" "we_class (log_env sd) ''ActivityField'' = Some ActivityField_class"
  "we_class (log_env sd) ''LogNext'' = Some LogNext_class" "we_class (log_env sd) ''LogStartActivity'' = Some LogStartActivity_class"
  "we_class (log_env sd) ''LogStopActivity'' = Some LogStopActivity_class" "we_class (log_env sd) ''LogResult'' = Some LogResult_class"
  "we_class (log_env sd) ''LogError'' = Some LogError_class"
  by (simp_all add: log_env_def log_class_defs)

lemma log_classes_ok:
  "class_ok TraceLine_class" "class_ok ActivityField_class" "class_ok LogNext_class" "class_ok LogStartActivity_class"
  "class_ok LogStopActivity_class" "class_ok LogResult_class" "class_ok LogError_class"
  by (simp_all add: class_ok_def startswith_def log_class_defs)


section \<open>The schemas of the log classes\<close>

definition schema_of :: "model_class \<Rightarrow> schema_field list" where
  "schema_of cls = (case wire_schema cls 0 [] of Inr s \<Rightarrow> s | Inl _ \<Rightarrow> [])"

lemmas schema_defs = schema_of_def wire_schema_def wire_fields_def field_kept_def version_keeps_def features_keep_def wire_field_of_def
  is_wire_scalar_def log_class_defs











declare codecs_at.simps [simp del]







lemma log_env_dir [simp]: "we_dir (log_env sd) = sd"
  by (simp add: log_env_def)





section \<open>The hand-written codec of the log stream is the generic one\<close>


text \<open>
  Where the compiled codec and the plan part: the text of an activity field is optional and lossless,
  the plan reads an empty one as \<open>None\<close>, and the compiled codec, which is the one in use, as an empty
  text.
\<close>

theorem lossless_optional_differs:
  "from_reader (codecs_at 1 (log_env sd) 0 []) ''ActivityField'' sample_ctx \<lparr>unread = uint64_bytes 1 @ uint64_bytes 0, sent = []\<rparr> =
     (Inr (field_value \<lparr>af_type = FIELD_STRING, af_valint = None, af_valstr = Some []\<rparr>), \<lparr>unread = [], sent = []\<rparr>) \<and>
   snd (plan_codec 1 (log_env sd) 0 []) ''ActivityField'' sample_ctx \<lparr>unread = uint64_bytes 1 @ uint64_bytes 0, sent = []\<rparr> =
     (Inr (field_value \<lparr>af_type = FIELD_STRING, af_valint = None, af_valstr = None\<rparr>), \<lparr>unread = [], sent = []\<rparr>)"
proof
  show "from_reader (codecs_at 1 (log_env sd) 0 []) ''ActivityField'' sample_ctx \<lparr>unread = uint64_bytes 1 @ uint64_bytes 0, sent = []\<rparr> =
     (Inr (field_value \<lparr>af_type = FIELD_STRING, af_valint = None, af_valstr = Some []\<rparr>), \<lparr>unread = [], sent = []\<rparr>)" by code_simp
  show "snd (plan_codec 1 (log_env sd) 0 []) ''ActivityField'' sample_ctx \<lparr>unread = uint64_bytes 1 @ uint64_bytes 0, sent = []\<rparr> =
     (Inr (field_value \<lparr>af_type = FIELD_STRING, af_valint = None, af_valstr = None\<rparr>), \<lparr>unread = [], sent = []\<rparr>)" by code_simp
qed

section \<open>The codec in use is the plan\<close>

text \<open>All classes that the protocol declares: the message table and the classes of \<open>logs.py\<close>.\<close>

definition declared_env ::
    "string \<Rightarrow> (pyval \<Rightarrow> error + bytes) \<Rightarrow> (bytes \<Rightarrow> error + pyval) \<Rightarrow> wire_env" where
  "declared_env sd dump load = \<lparr>we_dir = sd, we_class = (\<lambda>c.
     case we_class (protocol_env sd dump load) c of Some cls \<Rightarrow> Some cls | None \<Rightarrow> we_class (log_env sd) c)\<rparr>"

lemma sound_class_mono:
  assumes "sound_class n env c" and "\<And>c cls. we_class env c = Some cls \<Longrightarrow> we_class env' c = Some cls"
  shows "sound_class n env' c"
  using assms(1)
proof (induction n arbitrary: c)
  case (Suc n)
  then show ?case by (cases "we_class env c") (auto simp: assms(2) list_all_iff)
qed simp

definition log_class_names :: "string list" where
  "log_class_names = [''TraceLine'', ''ActivityField'', ''LogNext'', ''LogStartActivity'', ''LogStopActivity'', ''LogResult'', ''LogError'']"

lemma no_log_names:
  "list_all (\<lambda>cls. mc_name cls \<notin> set log_class_names)
     (WireLogs_class # Realisation_class dump load # SingleDerivedPath_class sd # model_classes @ response_classes @ request_classes)"
  by code_simp

lemma no_log_class: "c \<in> set log_class_names \<Longrightarrow> we_class (protocol_env sd dump load) c = None"
  using no_log_names [of dump load sd] by (auto simp: protocol_env_def find_None_iff wire_classes_def list_all_iff)

lemma log_class_named: "we_class (log_env sd) c = Some cls \<Longrightarrow> c \<in> set log_class_names"
  by (simp add: log_env_def log_class_defs log_class_names_def split: if_splits)

lemma log_fields_sound:
  "list_all (\<lambda>f. wire_field_ok (wire_field_of f) \<and> models_in (mf_ann f) = []) (mc_fields TraceLine_class)"
  "list_all (\<lambda>f. wire_field_ok (wire_field_of f) \<and> models_in (mf_ann f) = []) (mc_fields LogNext_class)"
  "list_all (\<lambda>f. wire_field_ok (wire_field_of f) \<and> models_in (mf_ann f) = []) (mc_fields LogStopActivity_class)"
  "list_all (\<lambda>f. wire_field_ok (wire_field_of f) \<and> set (models_in (mf_ann f)) \<subseteq> {''TraceLine''}) (mc_fields LogError_class)"
  by (code_simp, code_simp, code_simp, code_simp)

lemma log_class_names_of:
  "mc_name TraceLine_class = ''TraceLine''" "mc_name LogNext_class = ''LogNext''" "mc_name LogStopActivity_class = ''LogStopActivity''"
  "mc_name LogError_class = ''LogError''"
  by (simp_all add: log_class_defs)

lemma log_class_sound:
  assumes "we_class (log_env sd) c = Some cls" and "c \<notin> {''ActivityField'', ''LogStartActivity'', ''LogResult''}"
  shows "sound_class (Suc (Suc n)) (log_env sd) c"
proof -
  have flat: "sound_class (Suc k) (log_env sd) ''TraceLine''" "sound_class (Suc k) (log_env sd) ''LogNext''"
      "sound_class (Suc k) (log_env sd) ''LogStopActivity''" for k
    using log_fields_sound log_classes_ok log_class_names_of by (simp_all add: list_all_iff)
  moreover have "sound_class (Suc (Suc n)) (log_env sd) ''LogError''"
    using log_fields_sound(4) log_classes_ok log_class_names_of flat(1) [of n]
    unfolding sound_class.simps(2) [of "Suc n"] log_classes by (auto simp: list_all_iff simp del: sound_class.simps)
  moreover have "c \<in> {''TraceLine'', ''LogNext'', ''LogStopActivity'', ''LogError''}"
    using log_class_named [OF assms(1)] assms(2) by (auto simp: log_class_names_def)
  ultimately show ?thesis by (auto simp del: sound_class.simps)
qed

lemma declared_sound:
  assumes "we_class (declared_env sd dump load) c = Some cls" and "c \<notin> {''ActivityField'', ''LogStartActivity'', ''LogResult''}"
  shows "sound_class 5 (declared_env sd dump load) c"
proof (cases "we_class (protocol_env sd dump load) c")
  case None
  then have log: "we_class (log_env sd) c = Some cls" using assms(1) by (simp add: declared_env_def)
  have "we_class (declared_env sd dump load) m = Some cls'" if "we_class (log_env sd) m = Some cls'" for m cls'
    using no_log_class [OF log_class_named [OF that]] that by (simp add: declared_env_def)
  with log_class_sound [OF log assms(2), of 3] have "sound_class (Suc (Suc 3)) (declared_env sd dump load) c" by (rule sound_class_mono)
  moreover have "Suc (Suc 3) = 5" by simp
  ultimately show ?thesis by (simp only:)
next
  case (Some cls')
  have "sound_class 5 (protocol_env sd dump load) c" using class_sound [OF Some depth_bound] by blast
  then show ?thesis by (rule sound_class_mono) (simp add: declared_env_def)
qed

text \<open>
  C3. The codec in use is the plan. For every class that the protocol declares, the records of the log
  stream included, at every version and with every set of features, \<open>from_reader\<close> of the codec that
  \<open>experimental_compiled.py\<close> generates reads what the plan of \<open>wire_message.py\<close> reads, errors included, and
  \<open>to_writer\<close> writes the same bytes for every value whose models are instances of their classes. Three
  classes are excepted: \<open>ActivityField\<close>, whose field \<open>valstr\<close> the two codecs read differently
  (\<open>lossless_optional_differs\<close>), and the two that have a list of them, \<open>LogStartActivity\<close> and \<open>LogResult\<close>. A
  depth of five nested models is enough.
\<close>

theorem codec_is_plan:
  assumes "we_class (declared_env sd dump load) c = Some cls" and "c \<notin> {''ActivityField'', ''LogStartActivity'', ''LogResult''}"
    and "typed_model 5 (declared_env sd dump load) version features c v"
  shows "from_reader (codecs_at 5 (declared_env sd dump load) version features) c ctx =
      snd (plan_codec 5 (declared_env sd dump load) version features) c ctx \<and>
    to_writer (codecs_at 5 (declared_env sd dump load) version features) v =
      fst (plan_codec 5 (declared_env sd dump load) version features) v"
  using codecs_agree [OF declared_sound [OF assms(1,2)]] assms(3) by blast

lemma declared_log_class: "we_class (declared_env sd dump load) ''LogNext'' = Some LogNext_class"
  by (simp add: declared_env_def no_log_class log_class_names_def)

theorem codec_is_plan_witness:
  "from_reader (codecs_at 5 (declared_env sample_dir sample_dump sample_load) 293 []) ''LogNext'' sample_ctx =
      snd (plan_codec 5 (declared_env sample_dir sample_dump sample_load) 293 []) ''LogNext'' sample_ctx \<and>
    to_writer (codecs_at 5 (declared_env sample_dir sample_dump sample_load) 293 []) (log_value (LogNext ''hi'')) =
      fst (plan_codec 5 (declared_env sample_dir sample_dump sample_load) 293 []) (log_value (LogNext ''hi''))"
proof (rule codec_is_plan [OF declared_log_class])
  show "typed_model 5 (declared_env sample_dir sample_dump sample_load) 293 [] ''LogNext'' (log_value (LogNext ''hi''))"
    unfolding typed_model.simps(2) [of 4, simplified] declared_log_class
    by (simp add: class_of_def typed_fields_def wire_fields_def typed_field_def get_attr_def schema_defs)
qed simp

end
