(* ===== verification/Spec2Isabelle.thy ===== *)
theory Spec2Isabelle
  imports Nar_Fs Nar_Path Ref_Scan Drv_Hash Build_Worker Log_Codec
begin

text \<open>
  Verification of the core of \<^bold>\<open>pynixd\<close>, a Nix daemon in Python (\<open>src/pynixd\<close>). A client
  speaks the daemon protocol to it; pynixd reads derivations and archives, decides which builds are
  needed, queues them, runs each on one of its stores, and sends every client the log of the builds
  it waits for. The repository has further projects beside it (Kubernetes, bindings, test
  machines); this development is about the daemon and the two libraries it is built on,
  \<open>nix-daemon-protocol\<close> and \<open>pynixd-store\<close>.

  \<^bold>\<open>The parts and their theories.\<close>

  \<^item> \<open>Prelude\<close>: exceptions, state-and-exception computations (\<open>eff\<close>: a state to a result or an
    exception and a state), bytes and text, Python's \<open>str\<close>, \<open>dict\<close> and \<open>set\<close>, and the locale
    \<open>ordered_steps\<close> for step relations.
  \<^item> \<open>Wire_IO\<close>: \<open>nix_daemon_protocol/io.py\<close>, integers, strings and padding, \<open>BytesWriter\<close> and
    \<open>BytesReader\<close>; \<open>follows\<close> says when a reader behaves as the stream of its unread bytes.
  \<^item> \<open>Wire_Streams\<close>, \<open>Framed\<close>, \<open>Transfers\<close>: \<open>pynixd/wire.py\<close>. The socket and SSH readers with their
    read-ahead, the coalescing writer, framed streams and the functions that forward them. The
    read-ahead is transparent, the writer loses and reorders nothing, and forwarding changes the
    frames and not the payload.
  \<^item> \<open>Nar\<close>, \<open>Nar_Scan\<close>, \<open>Nar_Path\<close>: \<open>pynixd/nar.py\<close> and the archive parser of \<open>wire.py\<close>. Trees are
    written and read back, \<open>parse_nar\<close> ends on every input, the two scanners find the end of an
    archive however it is cut into chunks, and the operations of \<open>NarPath\<close> change what they name.
  \<^item> \<open>Nar_Fs\<close>: \<open>pynixd_store/nar_fs.py\<close>. A dump restores to the tree it was made from, and an archive
    that \<open>restore_path\<close> accepts is the canonical one of the tree it returns.
  \<^item> \<open>Nix32\<close>, \<open>Sha256\<close>: \<open>pynixd_store/utils.py\<close> and the hash of the standard library.
  \<^item> \<open>Store_Path\<close>: \<open>store_dir.py\<close> and \<open>store_path.py\<close>, the process-wide store directory with its cached
    prefix as a state, store paths and derivation outputs.
  \<^item> \<open>Content_Address\<close>: \<open>content_address.py\<close>, addresses, the store paths they give and the test for
    content-addressed paths.
  \<^item> \<open>Ref_Scan\<close>: \<open>builder/refscan.py\<close>, the search for store path hashes in the archive of a path.
  \<^item> \<open>Drv_Text\<close>, \<open>Drv_Parser\<close>: \<open>drv_parser.py\<close>, the ATerm strings with the piecewise removal of escapes,
    and the parser, the printer and the hashes of derivations, with both the traditional and the
    dynamic format. The printers and parsers of a list element meet in the locales
    \<open>aterm_codec\<close> and \<open>item_reader\<close>.
  \<^item> \<open>Drv_Hash\<close>: \<open>drv_hash.py\<close>, the memoised walk over the closure of a derivation.
  \<^item> \<open>Wire_Logs\<close>: \<open>nix_daemon_protocol/logs.py\<close>, the stderr stream; the locale \<open>element_codec\<close> lifts a
    message codec to lists.
  \<^item> \<open>Queued_Build\<close>: \<open>answer.py\<close> and the classes of a build in \<open>pynixd/build_queue.py\<close>: the answer, the
    retries, the log and its subscribers, and the turns of the event loop while a client joins.
  \<^item> \<open>Build_Queue\<close>: \<open>BuildQueue\<close>. Builds are objects in a store that the queue's list and indices
    share; every section under the queue's lock is one step of \<open>bq_step\<close>, and so is every write of the
    scheduler to a build.
  \<^item> \<open>Json\<close>, \<open>Drv_Attrs\<close>: the reader and the writer of JSON of Python's standard library, and
    \<open>basic_derivation.py\<close>, \<open>derivation_output.py\<close> and \<open>system_features.py\<close>: the attributes of the
    derivation of a request, from its environment or from its JSON text, and the features that pynixd
    handles itself and takes out.
  \<^item> \<open>Build_Stats\<close>: \<open>pynixd_store/build_stats.py\<close>, what a build and its transfers are expected to cost.
  \<^item> \<open>Pressure\<close>: \<open>psi.py\<close>, \<open>pressure.py\<close> and their settings, the limit of builds that a store follows
    with the load of its host.
  \<^item> \<open>Allocator\<close>: \<open>allocator.py\<close> and what a \<open>DaemonStore\<close> says of itself: features, circuit breaker, the
    score of a store, the ranking, the fit into memory and the choice among the ranked stores.
  \<^item> \<open>Scheduler\<close>: \<open>scheduler.py\<close>, a pass over the pending builds. A daemon client is one object that
    the context, the allocator and the scheduler share, so the state keeps the clients once and lists
    of their ids. \<open>decide\<close> is \<open>_place\<close> between its last await and its effect, \<open>act\<close> the effect.
    \<open>Scheduler_Pass\<close> proves what a pass keeps: its own decisions and the turns of other tasks are the
    steps of \<open>pass_step\<close>.
  \<^item> \<open>Build_Worker\<close>: the worker of a build in \<open>scheduler.py\<close>, with the exceptions of \<open>exceptions.py\<close>. What
    the connections return or raise is a parameter, \<open>worker_world\<close>.

  \<^item> \<open>Wire_Codec\<close>: \<open>nix_daemon_protocol/wire_message.py\<close> with \<open>wire_scalar.py\<close>, \<open>wire_integer.py\<close>,
    \<open>wire_string.py\<close> and \<open>wire_ops.py\<close>. A message class is data (fields with annotations, versions,
    features and tests), a field value a \<open>pyval\<close>; \<open>find_reader\<close>, \<open>find_writer\<close> and \<open>wire_plan\<close> give the
    codec that interprets the declaration.
  \<^item> \<open>Wire_Compiler\<close>: \<open>experimental_compiled.py\<close>. The compiler of a class to Python statements, as a
    function to a syntax of those statements, and an evaluator for them. \<open>Compiler_Correct\<close> shows that the
    compiled codec, which is the one in use, does what the interpreted plan does.
  \<^item> \<open>Message_Roundtrip\<close>: what fits a class is read back as it was written, and a request arrives with the
    fields of its connection as they were and the others at their defaults; the locales \<open>nested_codec\<close> and
    \<open>custom_codecs\<close> state what a class relies on for its nested classes and for those with a codec of
    their own.
  \<^item> \<open>Wire_Messages\<close>, \<open>Message_Table\<close>: the model, response and request classes of
    \<open>nix_daemon_protocol\<close> and \<open>pynixd/daemon_extensions\<close>, the registry of operation codes, and the
    round trips for that table. \<open>Log_Codec\<close> adds the record classes of \<open>logs.py\<close>, shows that \<open>Wire_Logs\<close> is
    their compiled codec, and that the compiled codec is the plan for all classes together but three.

  This theory holds what spans components: what a build logs is what its client decodes.

  \<^bold>\<open>How the model reads the code.\<close> A class is a record, an attribute a field with the class's prefix
  (\<open>QueuedBuild.holders\<close> is \<open>qb_holders\<close>), a method a function of the same name on the record, and a
  method that can raise an \<open>eff\<close> whose left result is the exception. A \<open>dict\<close> is an association list
  in insertion order, a \<open>set\<close> a list without repetitions. A \<open>str\<close> is the list of the bytes that
  \<open>surrogateescape\<close> gives it, so comparison and sorting are by byte, and an encoding error of text
  that is no UTF-8 is not modelled. Python's integers are \<open>int\<close> or \<open>nat\<close>; what is packed into 64 bits
  raises outside them. Floats are exact rationals. Bytes are \<open>8 word\<close> and SHA-256 is computed on
  \<open>32 word\<close>. The clock, the random draws, what a daemon or the database answers and the outcome of a
  send are arguments. Metrics and log lines that nothing reads back are kept where a
  property speaks of them and left out elsewhere.

  \<^bold>\<open>Loops and fuel.\<close> Most loops are structural or have a measure. Where the code reads until a token
  arrives, the model counts turns with fuel and the last turn raises \<open>OutOfFuel\<close>, which no code
  raises. The parsers give the length of the unread input plus one, and each turn takes at least one
  byte, so the fuel is never used up: \<open>Nar\<close>, \<open>Drv_Parser\<close>, \<open>Wire_Logs\<close> and \<open>Json\<close> prove it of every input.
  \<open>Framed\<close> and \<open>Transfers\<close> take the fuel as an argument and their theorems ask for as much as there are
  frames or bytes to come. \<open>Drv_Hash\<close> walks a closure with fuel for its depth. The codec of a message takes the depth of nested
  models; five levels are enough for every class of the protocol, and the theorems are at that depth.

  \<^bold>\<open>The interpreter's stack.\<close> Python raises \<open>RecursionError\<close> where calls nest too deep. The parser of
  derivations has this: \<open>parse_drv_at\<close> takes the number of nested nodes that the stack has room for, and
  \<open>parse_drv\<close> is the parser with room for the whole text. The other recursive functions (the archive, JSON and
  the printers of trees) are modelled with room for their input.

  \<^bold>\<open>What the groups of theorems show.\<close> Round trips: strings, framed streams, archives, file trees, store
  paths, content addresses, derivations, log streams and the messages of the protocol come back as they
  were written; of a request, the fields that its connection has. Canonical
  forms: a base-32 text and an archive that are accepted are the ones that would be written.
  Equivalence: the compiled codec and the interpreted plan agree for every class but \<open>ActivityField\<close>, where
  they differ, and the two classes that contain it; the piecewise removal of escapes, the cached hashes of
  derivations and the scanners in chunks agree with their plain definitions. Ends: the parsers end on every
  input. The queue: its indices agree in every reachable state, the first answer of a build stands, a pending
  build is shared by derivation and mode, a release ends exactly the builds nobody else waits for, and a
  build is tried at most three times on each store. The log: a client that joins a build with subscribers
  reads the whole log, a tail of the replay possibly twice, however the tasks interleave; the first client to
  join can miss what is logged while its replay is on its way. Where the calls run one after another the client
  decodes exactly what the build logged. The scheduler: a build starts only on a store that can take it, may
  take it and has room; no interleaving takes a store over its limit; the memory that running
  builds are expected to take is not promised again while another store has room; the store that is picked
  is the best one that is usable; a pass leaves no pending build
  without an outcome; a worker leaves its build answered or pending again; and the limit of a store
  stays within its bounds, falls under pressure and comes back on a calm host that uses it. Faults are proved as
  such: a pass that a running build on an unlisted store stops, a build that is started although it is
  answered, a build that is answered as built although its outputs were never fetched, and the log messages
  that are lost or doubled when a client joins.

  \<^bold>\<open>Not modelled.\<close> Sockets, SSH, HTTP, SQL and Linux namespaces: the stores, the servers, the sandbox
  builder and the store's database are calls into them. The goal coroutines, which call the queue and
  the stores, substitution, garbage collection, most of the configuration, the command line and the
  other projects of the repository. Of the scheduler, the trace of placements, the statistics it writes
  and the transfer of paths, whose outcomes are arguments. Pydantic's validation of constructor arguments
  and its JSON: the JSON of a realisation is a parameter of the message table. JSON numbers that Python
  reads as floats stay texts, and what Python prints for them is an argument.
\<close>

section \<open>From the build's log to the client's messages\<close>

lemma write_items_shift:
  assumes "list_all log_ok msgs" and "write_items log_to_writer msgs [] = (Inr (), out)"
  shows "write_items log_to_writer msgs buf = (Inr (), buf @ out)"
  using assms
proof (induction msgs arbitrary: buf out rule: rev_induct)
  case (snoc m msgs)
  then have m: "log_ok m" and msgs: "list_all log_ok msgs" by simp_all
  obtain raw where raw: "\<And>buf. log_to_writer m buf = (Inr (), buf @ raw)" by (rule post_log_ok [OF m]) blast
  obtain out' where out': "write_items log_to_writer msgs [] = (Inr (), out')" "out = out' @ raw"
    using snoc.prems(2) by (auto simp: write_items_append bind_apply raw split: prod.splits sum.splits)
  then show ?case using snoc.IH [OF msgs out'(1), of buf] by (simp add: write_items_append bind_apply raw)
qed simp

lemma subscribe_noting_cancel:
  "add_subscriber send aid c x b = add_subscriber send aid c False (note_cancel x b)"
  by (simp add: add_subscriber_def note_cancel_def Let_def)

lemma note_cancel_keeps:
  "subs_ok (note_cancel x b) = subs_ok b" "qb_subscriber_refs (note_cancel x b) = qb_subscriber_refs b"
  "qb_log (note_cancel x b) = qb_log b" "waiting_message aid (note_cancel x b) = waiting_message aid b"
  "waits_for_somebody_elses_build (note_cancel x b) = waits_for_somebody_elses_build b"
  "received c (note_cancel x b) = received c b"
  by (simp_all add: note_cancel_def subs_ok_def waiting_message_def what_it_is_waiting_on_def
      waits_for_somebody_elses_build_def)

text \<open>
  C12. What the build logs is what a client decodes. The build may have started and may have other
  subscribers, whose sends may fail; \<open>early\<close> is what it has logged so far. A client that it does not
  know subscribes, and the build logs \<open>late\<close>. When the daemon then ends the client's stderr stream with
  \<open>STDERR_LAST\<close>, \<open>WireLogs.from_reader\<close> on the client's side takes the bytes that the client received
  and returns \<open>early\<close> and \<open>late\<close>, in order; in front of them it returns the \<open>BUILD_WAITING\<close> activity
  exactly if the client joined a build that had started or had another subscriber. The conditions: the
  calls run one after another (what a subscription and a post that overlap give is \<open>joining_hears_all\<close> of
  \<open>Queued_Build\<close>), the sends to this client succeed, the texts and numbers of the messages fit the wire,
  and none of the messages is a \<open>LogError\<close>, which ends a stream.
\<close>

theorem client_decodes_build_log:
  fixes f :: "string \<Rightarrow> error"
  assumes "subs_ok b" and "map_of (qb_subscriber_refs b) c = None" and "received c b = []"
    and "write_items log_to_writer early [] = (Inr (), qb_log b)"
    and "list_all (\<lambda>m. log_ok m \<and> \<not> is_log_error m) (early @ late)" and "log_ok (waiting_message aid b)"
    and send: "\<And>raw. send c raw = Sent"
  shows "\<exists>b1 b2. add_subscriber send aid c x b = (Inr (), b1) \<and> post_all send late b1 = (Inr (), b2) \<and>
    logs_from_reader \<lparr>log_sink = False, buffer_logs = True, raise_on_error = True, error_factory = f\<rparr>
      \<lparr>unread = received c b2 @ uint64_bytes (nat STDERR_LAST) @ rest, sent = seen\<rparr> =
      (Inr ((if waits_for_somebody_elses_build b then [waiting_message aid b] else []) @ early @ late),
       \<lparr>unread = rest, sent = seen\<rparr>)"
proof -
  let ?b = "note_cancel x b"
  let ?ctx = "\<lparr>log_sink = False, buffer_logs = True, raise_on_error = True, error_factory = f\<rparr>"
  let ?own = "if waits_for_somebody_elses_build b then [waiting_message aid b] else []"
  have ok: "list_all log_ok late" "list_all log_ok (early @ late)" using assms(5) by (simp_all add: list_all_iff)
  obtain own b1 b2 where own: "log_to_writer (waiting_message aid b) [] = (Inr (), own)"
    and run: "add_subscriber send aid c x b = (Inr (), b1)" "post_all send late b1 = (Inr (), b2)"
    and heard: "received c b2 = (if waits_for_somebody_elses_build b then own else []) @ qb_log b2"
    and log: "write_items log_to_writer late (qb_log b) = (Inr (), qb_log b2)"
    using joined_reads_log [of ?b c late aid send] assms(1-3,6) ok(1) send
    by (auto simp: note_cancel_keeps subscribe_noting_cancel [of send aid c x b])
  have "write_items log_to_writer (early @ late) [] = (Inr (), qb_log b2)"
    using assms(4) log by (simp add: write_items_append)
  then have "write_items log_to_writer (?own @ early @ late) [] = (Inr (), received c b2)"
    using heard own write_items_shift [OF ok(2)] by (simp add: bind_apply)
  then have bytes: "logs_to_writer (?own @ early @ late) [] = (Inr (), received c b2 @ uint64_bytes (nat STDERR_LAST))"
    using carries_write [OF carries_last] by (simp add: logs_to_writer_def bind_apply)
  have "list_all (\<lambda>m. log_ok m \<and> \<not> is_log_error m) (?own @ early @ late)"
    using assms(5,6) by (simp add: waiting_message_def is_log_error_def)
  then obtain bs where "logs_to_writer (?own @ early @ late) [] = (Inr (), bs)"
      "logs_from_reader ?ctx \<lparr>unread = bs @ rest, sent = seen\<rparr> = (Inr (?own @ early @ late), \<lparr>unread = rest, sent = seen\<rparr>)"
    using logs_read_back [of "?own @ early @ late" "[]" ?ctx rest seen] by auto
  with bytes run show ?thesis by auto
qed

text \<open>A build that client 2 started; client 2 is gone when client 3 subscribes, and its sends fail.\<close>

theorem client_decodes_build_log_witness:
  "\<exists>b1 b2. add_subscriber (\<lambda>d _. if d = 3 then Sent else SendOSError) 5 3 True
      (shared_build\<lparr>qb_started_at := Some 4, qb_log := snd (log_to_writer (LogNext ''a'') [])\<rparr>) = (Inr (), b1) \<and>
    post_all (\<lambda>d _. if d = 3 then Sent else SendOSError) [LogNext ''b'', LogStopActivity 7] b1 = (Inr (), b2) \<and>
    logs_from_reader \<lparr>log_sink = False, buffer_logs = True, raise_on_error = True, error_factory = DaemonProtocolError\<rparr>
      \<lparr>unread = received 3 b2 @ uint64_bytes (nat STDERR_LAST) @ [9], sent = []\<rparr> =
      (Inr [waiting_message 5 shared_build, LogNext ''a'', LogNext ''b'', LogStopActivity 7], \<lparr>unread = [9], sent = []\<rparr>)"
proof -
  let ?b = "shared_build\<lparr>qb_started_at := Some 4, qb_log := snd (log_to_writer (LogNext ''a'') [])\<rparr>"
  have waits: "waits_for_somebody_elses_build ?b" by (simp add: waits_for_somebody_elses_build_def)
  have same: "waiting_message 5 ?b = waiting_message 5 shared_build"
    by (simp add: waiting_message_def what_it_is_waiting_on_def)
  have a: "log_ok (LogNext ''a'')" by (simp add: wire_text_def)
  obtain raw where raw: "\<And>buf. log_to_writer (LogNext ''a'') buf = (Inr (), buf @ raw)" by (rule post_log_ok [OF a]) blast
  have "\<exists>b1 b2. add_subscriber (\<lambda>d _. if d = 3 then Sent else SendOSError) 5 3 True ?b = (Inr (), b1) \<and>
    post_all (\<lambda>d _. if d = 3 then Sent else SendOSError) [LogNext ''b'', LogStopActivity 7] b1 = (Inr (), b2) \<and>
    logs_from_reader \<lparr>log_sink = False, buffer_logs = True, raise_on_error = True, error_factory = DaemonProtocolError\<rparr>
      \<lparr>unread = received 3 b2 @ uint64_bytes (nat STDERR_LAST) @ [9], sent = []\<rparr> =
      (Inr ((if waits_for_somebody_elses_build ?b then [waiting_message 5 ?b] else []) @
        [LogNext ''a''] @ [LogNext ''b'', LogStopActivity 7]), \<lparr>unread = [9], sent = []\<rparr>)"
    by (rule client_decodes_build_log)
      (use raw in \<open>simp_all add: shared_build_def subs_ok_def received_def bind_apply is_log_error_def wire_text_def wire_int_def
        waiting_message_def what_it_is_waiting_on_def new_build_def WARN_def BUILD_WAITING_def plain_request_def
        bd_output_paths_def Let_def\<close>)
  then show ?thesis using waits same by simp
qed

end
